(* ===== verification/Prelude.thy ===== *)
theory Prelude
  imports Main "HOL-Library.Word"
begin

text \<open>
  Shared vocabulary of the development: the machine types of the code, the bit and
  byte helpers of \<^verbatim>\<open>src/src/lj_def.h\<close>, byte strings, the error values of
  \<^verbatim>\<open>src/src/lj_errmsg.h\<close> that the modelled functions raise, and the generic lemmas
  on lists, words and bytes that the component theories share.
\<close>

unbundle bit_operations_syntax

section \<open>Machine types\<close>

type_synonym u8 = "8 word"
type_synonym u16 = "16 word"
type_synonym u32 = "32 word"
type_synonym u64 = "64 word"
type_synonym bytes = "u8 list"

text \<open>The errors the modelled functions raise (\<^verbatim>\<open>lj_err_msg\<close>, \<^verbatim>\<open>lj_err_mem\<close>,
  \<^verbatim>\<open>lj_err_caller\<close>), by the name of the error message.\<close>

datatype lj_error =
    LJ_ERR_ERRMEM
  | LJ_ERR_STROV
  | LJ_ERR_BADLU
  | LJ_ERR_BCFMT
  | LJ_ERR_BCBAD
  | LJ_ERR_TABOV
  | LJ_ERR_NANIDX
  | LJ_ERR_NILIDX
  | LJ_ERR_NEXTIDX
  | LJ_ERR_BUFFER_BADOPT
  | LJ_ERR_BUFFER_EOB
  | LJ_ERR_BUFFER_LEFTOV
  | LJ_ERR_BUFFER_DEPTH
  | LJ_ERR_BUFFER_BADENC
  | LJ_ERR_BUFFER_BADDEC u32
  | LJ_ERR_BUFFER_BADDICTX u32
  | LJ_ERR_BUFFER_DUPKEY

text \<open>An operation returns, raises an error, or is \<open>Stuck\<close>, which stands for everything after which
  the code has no defined continuation: an access out of bounds, a chain followed for more steps than
  there are nodes, a null link followed, a loop that does not end. Where an operation cannot get stuck this
  is proved.\<close>

datatype 'a comp = Done 'a | Raise lj_error | Stuck

fun cbind :: "'a comp \<Rightarrow> ('a \<Rightarrow> 'b comp) \<Rightarrow> 'b comp" where
  "cbind (Done x) f = f x"
| "cbind (Raise e) f = Raise e"
| "cbind Stuck f = Stuck"

lemma cbind_Done_iff: "cbind c f = Done y \<longleftrightarrow> (\<exists>x. c = Done x \<and> f x = Done y)"
  by (cases c) auto

lemma cbind_assoc: "cbind (cbind c f) g = cbind c (\<lambda>x. cbind (f x) g)"
  by (cases c) auto

lemma cbind_cong:
  "c = c' \<Longrightarrow> (\<And>x. c' = Done x \<Longrightarrow> f x = f' x) \<Longrightarrow> cbind c f = cbind c' f'"
  by (cases c') auto

text \<open>The outcome \<open>c\<close> is an error in \<open>E\<close> or a value with \<open>Q\<close>; it is not \<open>Stuck\<close>.\<close>

fun yields :: "'a comp \<Rightarrow> ('a \<Rightarrow> bool) \<Rightarrow> (lj_error \<Rightarrow> bool) \<Rightarrow> bool" where
  "yields (Done x) Q E = Q x"
| "yields (Raise e) Q E = E e"
| "yields Stuck Q E = False"

named_theorems yields_rules

lemma yields_cbind:
  "yields c P E \<Longrightarrow> (\<And>x. c = Done x \<Longrightarrow> P x \<Longrightarrow> yields (f x) Q E) \<Longrightarrow> yields (cbind c f) Q E"
  by (cases c) auto

lemma yields_mono:
  "yields c P E \<Longrightarrow> (\<And>x. c = Done x \<Longrightarrow> P x \<Longrightarrow> Q x) \<Longrightarrow> (\<And>e. E e \<Longrightarrow> E' e) \<Longrightarrow> yields c Q E'"
  by (cases c) auto

lemma yieldsD: "yields c Q E \<Longrightarrow> c = Done x \<Longrightarrow> Q x"
  by simp

section \<open>Limits\<close>

definition LJ_MAX_MEM32 :: nat where "LJ_MAX_MEM32 = 0x7fffff00"
definition LJ_MAX_STR :: nat where "LJ_MAX_STR = LJ_MAX_MEM32"
definition LJ_MAX_HBITS :: nat where "LJ_MAX_HBITS = 26"
definition LJ_MAX_ABITS :: nat where "LJ_MAX_ABITS = 28"
definition LJ_MAX_ASIZE :: nat where "LJ_MAX_ASIZE = 2 ^ (28 - 1) + 1"
definition LJ_MAX_COLOSIZE :: nat where "LJ_MAX_COLOSIZE = 16"

section \<open>Bits\<close>

text \<open>\<^verbatim>\<open>lj_fls(x)\<close>: the index of the highest set bit (the builtin is undefined at 0;
  no modelled caller passes 0).\<close>

fun fls_nat :: "nat \<Rightarrow> nat" where
  "fls_nat n = (if n < 2 then 0 else Suc (fls_nat (n div 2)))"

declare fls_nat.simps [simp del]

definition lj_fls :: "u32 \<Rightarrow> nat" where
  "lj_fls x = fls_nat (unat x)"

lemma fls_nat_bounds: "0 < n \<Longrightarrow> 2 ^ fls_nat n \<le> n \<and> n < 2 ^ Suc (fls_nat n)"
proof (induction n rule: fls_nat.induct)
  case (1 n)
  show ?case
  proof (cases "n < 2")
    case True
    with "1.prems" show ?thesis by (simp add: fls_nat.simps [of n])
  next
    case False
    then have pos: "0 < n div 2" by simp
    from "1.IH" [OF False pos] False show ?thesis
      by (auto simp: fls_nat.simps [of n])
  qed
qed

lemma fls_nat_unique:
  assumes "2 ^ k \<le> n" and "n < 2 ^ Suc k"
  shows "fls_nat n = k"
proof -
  have "0 < n" using assms(1) by (cases n) simp_all
  note b = fls_nat_bounds [OF this]
  have "(2::nat) ^ k < 2 ^ Suc (fls_nat n)" using b assms(1) by linarith
  moreover have "(2::nat) ^ fls_nat n < 2 ^ Suc k" using b assms(2) by linarith
  ultimately show ?thesis
    by (simp only: power_strict_increasing_iff one_less_numeral_iff semiring_norm less_Suc_eq_le)
qed

text \<open>\<^verbatim>\<open>lj_rol(x, n)\<close> and \<^verbatim>\<open>lj_ror(x, n)\<close> on 32 bit values.\<close>

definition lj_rol :: "u32 \<Rightarrow> nat \<Rightarrow> u32" where
  "lj_rol x n = (push_bit n x) OR (drop_bit ((32 - n) mod 32) x)"

definition lj_ror :: "u32 \<Rightarrow> nat \<Rightarrow> u32" where
  "lj_ror x n = (push_bit ((32 - n) mod 32) x) OR (drop_bit n x)"

text \<open>Byte order: \<^verbatim>\<open>lj_bswap\<close> and \<^verbatim>\<open>lj_bswap64\<close>, as in the portable fallback.\<close>

definition lj_bswap :: "u32 \<Rightarrow> u32" where
  "lj_bswap x =
     (push_bit 24 x) OR (push_bit 8 (x AND 0xff00)) OR ((drop_bit 8 x) AND 0xff00) OR (drop_bit 24 x)"

definition lj_bswap64 :: "u64 \<Rightarrow> u64" where
  "lj_bswap64 x =
     ucast (lj_bswap (ucast (drop_bit 32 x))) OR push_bit 32 (ucast (lj_bswap (ucast x)))"

lemma take_bit_small: "unat v < 2 ^ n \<Longrightarrow> take_bit n v = v" for v :: "'a :: len word"
  by (simp add: word_unat_eq_iff unsigned_take_bit_eq take_bit_nat_eq_self)

section \<open>Little-endian bytes\<close>

text \<open>\<^verbatim>\<open>memcpy\<close> of an integer to a byte buffer and back, on the little-endian target.\<close>

definition put_le32 :: "u32 \<Rightarrow> bytes" where
  "put_le32 x = [ucast x, ucast (drop_bit 8 x), ucast (drop_bit 16 x), ucast (drop_bit 24 x)]"

definition get_le32 :: "bytes \<Rightarrow> u32" where
  "get_le32 b =
     ucast (b ! 0) OR push_bit 8 (ucast (b ! 1)) OR push_bit 16 (ucast (b ! 2)) OR push_bit 24 (ucast (b ! 3))"

definition put_le64 :: "u64 \<Rightarrow> bytes" where
  "put_le64 x = put_le32 (ucast x) @ put_le32 (ucast (drop_bit 32 x))"

definition get_le64 :: "bytes \<Rightarrow> u64" where
  "get_le64 b = ucast (get_le32 (take 4 b)) OR push_bit 32 (ucast (get_le32 (drop 4 b)))"

lemma length_put_le32 [simp]: "length (put_le32 x) = 4"
  by (simp add: put_le32_def)

lemma length_put_le64 [simp]: "length (put_le64 x) = 8"
  by (simp add: put_le64_def)

lemma get_put_le32_append: "get_le32 (put_le32 x @ r) = x"
proof (rule bit_word_eqI)
  fix n assume "n < LENGTH(32)"
  then consider "n < 8" | "8 \<le> n" "n < 16" | "16 \<le> n" "n < 24" | "24 \<le> n" "n < 32"
    by force
  then show "bit (get_le32 (put_le32 x @ r)) n = bit x n"
    by cases (auto simp: get_le32_def put_le32_def bit_simps nth_append)
qed

lemma get_put_le32 [simp]: "get_le32 (put_le32 x) = x"
  using get_put_le32_append [of x "[]"] by simp

lemma get_put_le64 [simp]: "get_le64 (put_le64 x) = x"
  by (rule bit_word_eqI) (auto simp: get_le64_def put_le64_def bit_simps)

text \<open>The absolute value of a signed word, as the code computes it; the smallest one too.\<close>

lemma unat_abs_word: "unat (if sint x < 0 then NOT x + 1 else x) = nat \<bar>sint x\<bar>"
  for x :: "'a :: len word"
proof (cases "sint x < 0")
  case True
  have e: "NOT x + 1 = word_of_int (- sint x)" by (simp flip: minus_eq_not_plus_1)
  have "- sint x \<le> 2 ^ (LENGTH('a) - 1)" using sint_greater_eq [of x] by simp
  moreover have "(2::int) ^ (LENGTH('a) - 1) < 2 ^ LENGTH('a)" by (intro power_strict_increasing) auto
  ultimately have "0 \<le> - sint x" "- sint x < 2 ^ LENGTH('a)" using True by linarith+
  then have "uint (NOT x + 1) = - sint x" unfolding e uint_word_of_int by (rule mod_pos_pos_trivial)
  with True show ?thesis by (simp flip: nat_uint_eq)
next
  case False
  have "sint x < 2 ^ (LENGTH('a) - 1)" using sint_less [of x] by simp
  moreover have "(2::int) ^ (LENGTH('a) - 1) < 2 ^ LENGTH('a)" by (intro power_strict_increasing) auto
  ultimately have "0 \<le> sint x" "sint x < 2 ^ LENGTH('a)" using False by linarith+
  then have "uint x = sint x" unfolding uint_sint by (rule take_bit_int_eq_self)
  with False show ?thesis by (simp flip: nat_uint_eq)
qed

end
