(* ===== verification/Dll.thy ===== *)
theory Dll
  imports Prelude
begin

text \<open>
  Intrusive doubly linked lists, as the page allocator keeps them: the links are two fields of
  the elements, \<^verbatim>\<open>NULL\<close> is 0. \<open>dll nx pv p q xs\<close> says that the chain from \<open>p\<close> is \<open>xs\<close> and that
  its first element points back to \<open>q\<close>. The lemmas give the effect of the two list idioms of the
  code, insertion at the head and unlinking, from what they write pointwise.
\<close>

fun dll :: "(nat \<Rightarrow> nat) \<Rightarrow> (nat \<Rightarrow> nat) \<Rightarrow> nat \<Rightarrow> nat \<Rightarrow> nat list \<Rightarrow> bool" where
  "dll nx pv p q [] \<longleftrightarrow> p = 0"
| "dll nx pv p q (x # xs) \<longleftrightarrow> p = x \<and> x \<noteq> 0 \<and> pv x = q \<and> dll nx pv (nx x) x xs"

lemma dll_cong:
  "(\<And>x. x \<in> set xs \<Longrightarrow> nx' x = nx x \<and> pv' x = pv x) \<Longrightarrow> dll nx' pv' p q xs = dll nx pv p q xs"
  by (induction xs arbitrary: p q) auto

lemma dll_head: "dll nx pv p q xs \<Longrightarrow> p = (case xs of [] \<Rightarrow> 0 | x # _ \<Rightarrow> x)"
  by (cases xs) auto

lemma dll_nonzero: "dll nx pv p q xs \<Longrightarrow> x \<in> set xs \<Longrightarrow> x \<noteq> 0"
  by (induction xs arbitrary: p q) auto

lemma dll_unique: "dll nx pv p q xs \<Longrightarrow> dll nx pv p q' ys \<Longrightarrow> xs = ys"
proof (induction xs arbitrary: p q q' ys)
  case Nil
  then show ?case by (cases ys) auto
next
  case (Cons x xs)
  then show ?case by (cases ys) auto
qed

text \<open>Changing only the back pointer of the head.\<close>

lemma dll_set_prev:
  "dll nx pv p q xs \<Longrightarrow> distinct xs \<Longrightarrow> \<forall>x\<in>set xs. nx' x = nx x \<Longrightarrow>
   \<forall>x\<in>set xs. x \<noteq> p \<longrightarrow> pv' x = pv x \<Longrightarrow> p \<noteq> 0 \<longrightarrow> pv' p = q' \<Longrightarrow> dll nx' pv' p q' xs"
proof (cases xs)
  case Nil
  then show "dll nx pv p q xs \<Longrightarrow> dll nx' pv' p q' xs" by simp
next
  case (Cons y ys)
  assume a: "dll nx pv p q xs" "distinct xs" "\<forall>x\<in>set xs. nx' x = nx x"
    "\<forall>x\<in>set xs. x \<noteq> p \<longrightarrow> pv' x = pv x" "p \<noteq> 0 \<longrightarrow> pv' p = q'"
  with Cons have "dll nx' pv' (nx y) y ys = dll nx pv (nx y) y ys"
    by (intro dll_cong) auto
  with a Cons show ?thesis by auto
qed

text \<open>Insertion at the head.\<close>

lemma dll_insert:
  assumes "dll nx pv h 0 xs" "distinct xs" "x \<noteq> 0" "nx' x = h" "pv' x = 0"
    and "\<forall>y\<in>set xs. nx' y = nx y" "\<forall>y\<in>set xs. y \<noteq> h \<longrightarrow> pv' y = pv y" "h \<noteq> 0 \<longrightarrow> pv' h = x"
  shows "dll nx' pv' x 0 (x # xs)"
  using assms dll_set_prev [of nx pv h 0 xs nx' pv' x] by simp

text \<open>What the links of an element in the middle say of its neighbours.\<close>

lemma dll_prev_of:
  "dll nx pv p q (as @ x # bs) \<Longrightarrow> pv x = (if as = [] then q else last as)"
  by (induction as arbitrary: p q) auto

lemma dll_next_of:
  "dll nx pv p q (as @ x # bs) \<Longrightarrow> nx x = (if bs = [] then 0 else hd bs)"
proof (induction as arbitrary: p q)
  case Nil
  then show ?case by (cases bs) auto
next
  case (Cons a as)
  then show ?case by auto
qed

text \<open>Unlinking: the four assignments of the code, for an element in the middle of the list.\<close>

lemma dll_remove_aux:
  assumes "dll nx pv p q (as @ x # bs)" "distinct (as @ x # bs)"
    and "\<forall>y\<in>set as \<union> set bs. nx' y = (if y = pv x \<and> as \<noteq> [] then nx x else nx y)"
    and "\<forall>y\<in>set as \<union> set bs. pv' y = (if y = nx x \<and> bs \<noteq> [] then pv x else pv y)"
  shows "dll nx' pv' (if as = [] then nx x else p) q (as @ bs)"
  using assms
proof (induction as arbitrary: p q)
  case Nil
  then have d: "dll nx pv (nx x) x bs" and pvx: "pv x = q" by auto
  from d have hd: "bs \<noteq> [] \<Longrightarrow> nx x = hd bs" by (cases bs) auto
  show ?case
  proof (cases bs)
    case Nil
    with d show ?thesis by simp
  next
    case (Cons b cs)
    have "dll nx' pv' (nx b) b cs = dll nx pv (nx b) b cs"
      using Nil.prems Cons hd by (intro dll_cong) auto
    with d Nil.prems Cons pvx show ?thesis by auto
  qed
next
  case (Cons a as)
  from Cons.prems(1) have a: "p = a" "a \<noteq> 0" "pv a = q" "dll nx pv (nx a) a (as @ x # bs)" by auto
  have nxx: "bs \<noteq> [] \<Longrightarrow> nx x = hd bs"
    using dll_next_of [OF a(4)] by simp
  have pvx: "pv x = (if as = [] then a else last as)"
    using dll_prev_of [OF a(4)] .
  have anotx: "bs \<noteq> [] \<Longrightarrow> a \<noteq> nx x" using Cons.prems(2) nxx by (cases bs) auto
  have ih: "dll nx' pv' (if as = [] then nx x else nx a) a (as @ bs)"
  proof (rule Cons.IH [OF a(4)])
    show "distinct (as @ x # bs)" using Cons.prems(2) by simp
    show "\<forall>y\<in>set as \<union> set bs. nx' y = (if y = pv x \<and> as \<noteq> [] then nx x else nx y)"
      using Cons.prems(2,3) pvx by (auto split: if_splits)
    show "\<forall>y\<in>set as \<union> set bs. pv' y = (if y = nx x \<and> bs \<noteq> [] then pv x else pv y)"
      using Cons.prems(4) by auto
  qed
  have "nx' a = (if as = [] then nx x else nx a)"
  proof (cases as)
    case Nil
    with Cons.prems(3) pvx show ?thesis by auto
  next
    case (Cons c cs)
    then have "last as \<in> set as" by simp
    with Cons.prems(2,3) pvx Cons show ?thesis by (auto split: if_splits)
  qed
  moreover have "pv' a = q" using Cons.prems(4) anotx a(3) by auto
  ultimately show ?case using ih a by auto
qed

text \<open>Unlinking as the code does it: \<open>h'\<close> is the new head, \<open>x\<close> the removed element.\<close>

lemma dll_remove:
  assumes d: "dll nx pv h 0 xs" "distinct xs" "x \<in> set xs"
    and h': "h' = (if pv x = 0 then nx x else h)"
    and nx': "\<And>y. y \<in> set xs \<Longrightarrow> y \<noteq> x \<Longrightarrow> nx' y = (if y = pv x then nx x else nx y)"
    and pv': "\<And>y. y \<in> set xs \<Longrightarrow> y \<noteq> x \<Longrightarrow> pv' y = (if y = nx x then pv x else pv y)"
  shows "dll nx' pv' h' 0 (remove1 x xs)"
proof -
  from d(3) obtain as bs where xs: "xs = as @ x # bs" and notin: "x \<notin> set as"
    by (meson split_list_first)
  note nb = dll_prev_of [OF d(1) [unfolded xs]] dll_next_of [OF d(1) [unfolded xs]]
  have nz: "\<forall>y\<in>set xs. y \<noteq> 0" using dll_nonzero d(1) by blast
  have pz: "pv x = 0 \<longleftrightarrow> as = []"
  proof (cases as)
    case Nil
    then show ?thesis using nb by simp
  next
    case (Cons c cs)
    then have "last as \<in> set xs" using xs by simp
    then show ?thesis using nb nz Cons by auto
  qed
  have "dll nx' pv' (if as = [] then nx x else h) 0 (as @ bs)"
  proof (rule dll_remove_aux [where nx = nx and pv = pv and x = x and p = h])
    show "dll nx pv h 0 (as @ x # bs)" using d xs by simp
    show dd: "distinct (as @ x # bs)" using d xs by simp
    show "\<forall>y\<in>set as \<union> set bs. nx' y = (if y = pv x \<and> as \<noteq> [] then nx x else nx y)"
    proof
      fix y assume y: "y \<in> set as \<union> set bs"
      then have "y \<in> set xs" "y \<noteq> x" using dd xs by auto
      then show "nx' y = (if y = pv x \<and> as \<noteq> [] then nx x else nx y)"
        using nx' nz pz by (auto split: if_splits)
    qed
    show "\<forall>y\<in>set as \<union> set bs. pv' y = (if y = nx x \<and> bs \<noteq> [] then pv x else pv y)"
    proof
      fix y assume y: "y \<in> set as \<union> set bs"
      then have y2: "y \<in> set xs" "y \<noteq> x" using dd xs by auto
      have "bs = [] \<Longrightarrow> y \<noteq> nx x" using nb(2) nz y2(1) by auto
      then show "pv' y = (if y = nx x \<and> bs \<noteq> [] then pv x else pv y)"
        using pv' [OF y2] by auto
    qed
  qed
  moreover have "remove1 x xs = as @ bs" using xs notin by (simp add: remove1_append)
  ultimately show ?thesis using h' pz by simp
qed

end
