(* ===== verification/Allocator.thy ===== *)
theory Allocator
  imports Prelude
begin

text \<open>
  The \<^verbatim>\<open>lua_Alloc\<close> contract (\<^verbatim>\<open>allocf(ud, ptr, osize, nsize)\<close>), as a locale, and the
  implementation the standalone library uses under \<^verbatim>\<open>LUAJIT_USE_SYSMALLOC\<close>,
  \<^verbatim>\<open>mem_alloc\<close> of \<^verbatim>\<open>src/src/lib_aux.c\<close>. The contract is what the page allocator
  (theory \<open>PageAlloc\<close>) asks of its backing allocator and what it gives its own clients, the
  collector's accounting in theory \<open>Mem\<close>.

  An allocator has a private state \<open>'s\<close> and shares the byte memory with its clients. The ghost
  map \<open>R\<close> gives the blocks the client owns and their current sizes.
\<close>

type_synonym mem = "nat \<Rightarrow> u8"
type_synonym regions = "nat \<rightharpoonup> nat"
type_synonym 's alloc_fn = "'s \<Rightarrow> mem \<Rightarrow> nat \<Rightarrow> nat \<Rightarrow> nat \<Rightarrow> 's \<times> mem \<times> nat"

text \<open>The address \<open>a\<close> is inside a block of \<open>R\<close>.\<close>

definition owned :: "regions \<Rightarrow> nat \<Rightarrow> bool" where
  "owned R a \<longleftrightarrow> (\<exists>p n. R p = Some n \<and> p \<le> a \<and> a < p + n)"

text \<open>\<open>m'\<close> holds the same bytes as \<open>m\<close> in the blocks of \<open>R\<close>.\<close>

definition agree :: "regions \<Rightarrow> mem \<Rightarrow> mem \<Rightarrow> bool" where
  "agree R m m' \<longleftrightarrow> (\<forall>a. owned R a \<longrightarrow> m' a = m a)"

lemma ownedI: "R p = Some n \<Longrightarrow> p \<le> a \<Longrightarrow> a < p + n \<Longrightarrow> owned R a"
  by (auto simp: owned_def)

lemma owned_mono: "owned R a \<Longrightarrow> R \<subseteq>\<^sub>m R' \<Longrightarrow> owned R' a"
  by (force simp: owned_def map_le_def dom_def)

lemma agree_refl [simp]: "agree R m m"
  by (simp add: agree_def)

lemma agree_trans: "agree R m m' \<Longrightarrow> agree R m' m'' \<Longrightarrow> agree R m m''"
  by (simp add: agree_def)

lemma agree_mono: "agree R' m m' \<Longrightarrow> R \<subseteq>\<^sub>m R' \<Longrightarrow> agree R m m'"
  by (auto simp: agree_def intro: owned_mono)

lemma agreeD: "agree R m m' \<Longrightarrow> R p = Some n \<Longrightarrow> i < n \<Longrightarrow> m' (p + i) = m (p + i)"
  unfolding agree_def owned_def by (metis le_add1 nat_add_left_cancel_less)

lemma map_le_remove [simp]: "R(p := None) \<subseteq>\<^sub>m R"
  by (auto simp: map_le_def dom_def)

lemma map_le_insert: "R p = None \<Longrightarrow> R \<subseteq>\<^sub>m R(p \<mapsto> n)"
  by (auto simp: map_le_def dom_def)

section \<open>The contract\<close>

locale lua_alloc =
  fixes allocf :: "'s alloc_fn"
    and inv :: "'s \<Rightarrow> mem \<Rightarrow> regions \<Rightarrow> bool"
  assumes sep: "inv s m R \<Longrightarrow> R p = Some n \<Longrightarrow> R q = Some k \<Longrightarrow> p \<noteq> q \<Longrightarrow> p + n \<le> q \<or> q + k \<le> p"
    and pos: "inv s m R \<Longrightarrow> R p = Some n \<Longrightarrow> 0 < p \<and> 0 < n \<and> 8 dvd p \<and> p + n \<le> 2 ^ 47"
    and frame: "inv s m R \<Longrightarrow> (\<And>a. \<not> owned R a \<Longrightarrow> m' a = m a) \<Longrightarrow> inv s m' R"
    and malloc: "inv s m R \<Longrightarrow> 0 < n \<Longrightarrow> allocf s m 0 0 n = (s', m', p) \<Longrightarrow>
      agree R m m' \<and> (if p = 0 then inv s' m' R else R p = None \<and> inv s' m' (R(p \<mapsto> n)))"
    and free: "inv s m R \<Longrightarrow> R p = Some n \<Longrightarrow> allocf s m p n 0 = (s', m', q) \<Longrightarrow>
      q = 0 \<and> inv s' m' (R(p := None)) \<and> agree (R(p := None)) m m'"
    and realloc: "inv s m R \<Longrightarrow> R p = Some n \<Longrightarrow> 0 < k \<Longrightarrow> allocf s m p n k = (s', m', q) \<Longrightarrow>
      (if q = 0 then inv s' m' R \<and> agree R m m'
       else (q = p \<or> R q = None) \<and> inv s' m' ((R(p := None))(q \<mapsto> k))
         \<and> agree (R(p := None)) m m' \<and> (\<forall>i < min n k. m' (q + i) = m (p + i)))"
begin

text \<open>A block that is handed out never overlaps one the client still owns.\<close>

lemma malloc_fresh:
  assumes "inv s m R" and "0 < n" and "allocf s m 0 0 n = (s', m', p)" and "p \<noteq> 0"
    and "p \<le> a" and "a < p + n"
  shows "\<not> owned R a"
proof
  assume "owned R a"
  then obtain q k where q: "R q = Some k" "q \<le> a" "a < q + k" by (auto simp: owned_def)
  from malloc [OF assms(1-3)] assms(4) have "R p = None" and i: "inv s' m' (R(p \<mapsto> n))" by auto
  with q have "p \<noteq> q" by auto
  with sep [OF i, of p n q k] q assms show False by auto
qed

text \<open>A client that stores into its own blocks does not disturb the allocator.\<close>

lemma client_write:
  assumes "inv s m R" and "owned R a"
  shows "inv s (m(a := b)) R"
  using assms by (intro frame [OF assms(1)]) auto

end

text \<open>
  A client's run: a list of requests, each respecting the interface (a block is returned with
  its current size, a store goes to a block that is owned). \<open>Got\<close> records what a request returned.
\<close>

datatype alloc_req = Malloc nat | Free nat | Realloc nat nat | Store nat u8

fun req_ok :: "regions \<Rightarrow> alloc_req \<Rightarrow> bool" where
  "req_ok R (Malloc n) \<longleftrightarrow> 0 < n"
| "req_ok R (Free p) \<longleftrightarrow> R p \<noteq> None"
| "req_ok R (Realloc p k) \<longleftrightarrow> R p \<noteq> None \<and> 0 < k"
| "req_ok R (Store a b) \<longleftrightarrow> owned R a"

fun req_step :: "'s alloc_fn \<Rightarrow> 's \<times> mem \<times> regions \<Rightarrow> alloc_req \<Rightarrow> 's \<times> mem \<times> regions" where
  "req_step f (s, m, R) (Malloc n) =
     (case f s m 0 0 n of (s', m', p) \<Rightarrow> (s', m', if p = 0 then R else R(p \<mapsto> n)))"
| "req_step f (s, m, R) (Free p) =
     (case f s m p (the (R p)) 0 of (s', m', _) \<Rightarrow> (s', m', R(p := None)))"
| "req_step f (s, m, R) (Realloc p k) =
     (case f s m p (the (R p)) k of (s', m', q) \<Rightarrow>
        (s', m', if q = 0 then R else (R(p := None))(q \<mapsto> k)))"
| "req_step f (s, m, R) (Store a b) = (s, m(a := b), R)"

inductive reach_alloc :: "'s alloc_fn \<Rightarrow> 's \<times> mem \<times> regions \<Rightarrow> 's \<times> mem \<times> regions \<Rightarrow> bool"
  for f c0 where
  start: "reach_alloc f c0 c0"
| step: "reach_alloc f c0 (s, m, R) \<Longrightarrow> req_ok R q \<Longrightarrow> reach_alloc f c0 (req_step f (s, m, R) q)"

definition blocks_disjoint :: "regions \<Rightarrow> bool" where
  "blocks_disjoint R \<longleftrightarrow>
     (\<forall>p n q k. R p = Some n \<longrightarrow> R q = Some k \<longrightarrow> p \<noteq> q \<longrightarrow> p + n \<le> q \<or> q + k \<le> p)"

definition blocks_aligned :: "regions \<Rightarrow> bool" where
  "blocks_aligned R \<longleftrightarrow> (\<forall>p n. R p = Some n \<longrightarrow> 0 < p \<and> 0 < n \<and> 8 dvd p)"

context lua_alloc
begin

lemma inv_disjoint: "inv s m R \<Longrightarrow> blocks_disjoint R"
  unfolding blocks_disjoint_def using sep by blast

lemma inv_aligned: "inv s m R \<Longrightarrow> blocks_aligned R"
  unfolding blocks_aligned_def using pos by blast

lemma req_step_inv:
  assumes "inv s m R" and "req_ok R q" and "req_step allocf (s, m, R) q = (s', m', R')"
  shows "inv s' m' R'"
proof (cases q)
  case (Malloc n)
  obtain s1 m1 p where f: "allocf s m 0 0 n = (s1, m1, p)" by (cases "allocf s m 0 0 n") auto
  with malloc [OF assms(1) _ f] assms Malloc show ?thesis by (auto split: if_splits)
next
  case (Free p)
  obtain s1 m1 q' where f: "allocf s m p (the (R p)) 0 = (s1, m1, q')"
    by (cases "allocf s m p (the (R p)) 0") auto
  with free [OF assms(1) _ f] assms Free show ?thesis by auto
next
  case (Realloc p k)
  obtain s1 m1 q' where f: "allocf s m p (the (R p)) k = (s1, m1, q')"
    by (cases "allocf s m p (the (R p)) k") auto
  with realloc [OF assms(1) _ _ f] assms Realloc show ?thesis by (auto split: if_splits)
next
  case (Store a b)
  with assms client_write [of s m R a b] show ?thesis by auto
qed

lemma reach_inv:
  "reach_alloc allocf (s0, m0, R0) c \<Longrightarrow> inv s0 m0 R0 \<Longrightarrow> inv (fst c) (fst (snd c)) (snd (snd c))"
proof (induction rule: reach_alloc.induct)
  case start
  then show ?case by simp
next
  case (step s m R q)
  obtain s' m' R' where c: "req_step allocf (s, m, R) q = (s', m', R')"
    by (cases "req_step allocf (s, m, R) q") auto
  from step have "inv s m R" by simp
  from req_step_inv [OF this step.hyps(2) c] c show ?case by simp
qed

text \<open>Whatever a client does, the blocks it owns stay disjoint and aligned.\<close>

lemma reach_blocks:
  assumes "reach_alloc allocf (s0, m0, R0) (s, m, R)" and "inv s0 m0 R0"
  shows "blocks_disjoint R \<and> blocks_aligned R"
  using reach_inv [OF assms] inv_disjoint inv_aligned by auto

end

section \<open>The allocator of the C library behind \<^verbatim>\<open>mem_alloc\<close>\<close>

text \<open>
  \<^verbatim>\<open>malloc\<close>, \<^verbatim>\<open>free\<close> and \<^verbatim>\<open>realloc\<close> of the C library, over an arena that ends at
  \<open>limit\<close>: blocks are cut from \<open>brk\<close> upwards at 16 byte boundaries and \<open>blocks\<close> lists those in
  use. It is one library that meets the C standard's description; \<open>mem_alloc\<close> is the
  code under \<^verbatim>\<open>src/\<close>.
\<close>

record libc_heap =
  brk :: nat
  limit :: nat
  blocks :: "(nat \<times> nat) list"

definition libc_malloc :: "libc_heap \<Rightarrow> nat \<Rightarrow> libc_heap \<times> nat" where
  "libc_malloc h n =
     (if brk h + n \<le> limit h
      then (h\<lparr>brk := (brk h + n + 15) div 16 * 16, blocks := (brk h, n) # blocks h\<rparr>, brk h)
      else (h, 0))"

definition libc_free :: "libc_heap \<Rightarrow> nat \<Rightarrow> libc_heap" where
  "libc_free h p = h\<lparr>blocks := filter (\<lambda>b. fst b \<noteq> p) (blocks h)\<rparr>"

definition libc_realloc :: "libc_heap \<Rightarrow> mem \<Rightarrow> nat \<Rightarrow> nat \<Rightarrow> libc_heap \<times> mem \<times> nat" where
  "libc_realloc h m p n =
     (if p = 0 then (let (h', q) = libc_malloc h n in (h', m, q))
      else (let (h', q) = libc_malloc h n in
        if q = 0 then (h', m, 0)
        else (libc_free h' p,
              (\<lambda>a. if q \<le> a \<and> a < q + min (the (map_of (blocks h) p)) n then m (p + (a - q)) else m a),
              q)))"

definition mem_alloc :: "libc_heap alloc_fn" where
  "mem_alloc h m ptr osize nsize =
     (if nsize = 0 then (libc_free h ptr, m, 0) else libc_realloc h m ptr nsize)"

definition libc_inv :: "libc_heap \<Rightarrow> mem \<Rightarrow> regions \<Rightarrow> bool" where
  "libc_inv h m R \<longleftrightarrow>
     0 < brk h \<and> 16 dvd brk h \<and> limit h \<le> 2 ^ 47 \<and> map_of (blocks h) = R \<and>
     (\<forall>p n. R p = Some n \<longrightarrow> 0 < p \<and> 0 < n \<and> 16 dvd p \<and> p + n \<le> brk h \<and> p + n \<le> limit h) \<and>
     (\<forall>p n q k. R p = Some n \<longrightarrow> R q = Some k \<longrightarrow> p \<noteq> q \<longrightarrow> p + n \<le> q \<or> q + k \<le> p)"

lemma map_of_filter_neq: "map_of (filter (\<lambda>b. fst b \<noteq> p) xs) = (map_of xs)(p := None)"
  by (induction xs) (auto simp: fun_eq_iff)

lemma round16: "x \<le> (x + 15) div 16 * (16::nat)" "16 dvd (x + 15) div 16 * (16::nat)"
  by presburger+

lemma libc_malloc_ok:
  assumes "libc_inv h m R" and "0 < n" and "libc_malloc h n = (h', p)" and "p \<noteq> 0"
  shows "R p = None" and "libc_inv h' m' (R(p \<mapsto> n))" and "brk h \<le> p"
proof -
  from assms have h': "h' = h\<lparr>brk := (brk h + n + 15) div 16 * 16, blocks := (brk h, n) # blocks h\<rparr>"
    and p: "p = brk h" and lim: "brk h + n \<le> limit h"
    by (auto simp: libc_malloc_def split: if_splits)
  have old: "\<And>q k. R q = Some k \<Longrightarrow> q + k \<le> brk h \<and> 0 < k"
    using assms(1) by (auto simp: libc_inv_def)
  then show none: "R p = None" using p by (metis less_add_same_cancel1 not_le not_None_eq)
  show "brk h \<le> p" using p by simp
  have ge: "brk h + n \<le> brk h'" using h' round16(1) [of "brk h + n"] by simp
  have "libc_inv h' m' (R(p \<mapsto> n))"
    unfolding libc_inv_def
  proof (intro conjI allI impI)
    show "0 < brk h'" using ge assms by linarith
    show "16 dvd brk h'" using h' by simp
    show "limit h' \<le> 2 ^ 47" using h' assms by (simp add: libc_inv_def)
    show "map_of (blocks h') = R(p \<mapsto> n)" using h' p assms by (simp add: libc_inv_def)
  next
    fix q k assume q: "(R(p \<mapsto> n)) q = Some k"
    have a: "0 < q \<and> 0 < k \<and> 16 dvd q \<and> q + k \<le> brk h + n \<and> q + k \<le> limit h"
    proof (cases "q = p")
      case True
      with q p assms lim show ?thesis by (auto simp: libc_inv_def)
    next
      case False
      with q have "R q = Some k" by simp
      with assms(1) show ?thesis by (force simp: libc_inv_def)
    qed
    then show "0 < q" "0 < k" "16 dvd q" by simp_all
    show "q + k \<le> brk h'" "q + k \<le> limit h'" using a ge h' by simp_all
  next
    fix q k r l assume q: "(R(p \<mapsto> n)) q = Some k" and r: "(R(p \<mapsto> n)) r = Some l" and ne: "q \<noteq> r"
    then show "q + k \<le> r \<or> r + l \<le> q"
      using old p assms(1) by (auto simp: libc_inv_def split: if_splits)
  qed
  then show "libc_inv h' m' (R(p \<mapsto> n))" .
qed

lemma libc_malloc_fail: "libc_malloc h n = (h', 0) \<Longrightarrow> libc_inv h m R \<Longrightarrow> h' = h"
  by (auto simp: libc_malloc_def libc_inv_def split: if_splits)

lemma libc_free_ok: "libc_inv h m R \<Longrightarrow> libc_inv (libc_free h p) m' (R(p := None))"
  by (auto simp: libc_inv_def libc_free_def map_of_filter_neq split: if_splits)

text \<open>Blocks in use lie below \<open>brk\<close>, where a new block starts.\<close>

lemma libc_owned_below: "libc_inv h m R \<Longrightarrow> owned R a \<Longrightarrow> a < brk h"
  by (force simp: libc_inv_def owned_def)

lemma mem_alloc_realloc_ok:
  assumes "libc_inv h m R" and "R p = Some n" and "0 < k" and "mem_alloc h m p n k = (h', m', q)"
  shows "if q = 0 then libc_inv h' m' R \<and> agree R m m'
         else (q = p \<or> R q = None) \<and> libc_inv h' m' ((R(p := None))(q \<mapsto> k))
           \<and> agree (R(p := None)) m m' \<and> (\<forall>i < min n k. m' (q + i) = m (p + i))"
proof -
  from assms have p: "p \<noteq> 0" and blk: "map_of (blocks h) p = Some n" by (auto simp: libc_inv_def)
  obtain h1 q1 where f: "libc_malloc h k = (h1, q1)" by fastforce
  show ?thesis
  proof (cases "q1 = 0")
    case True
    with assms p f libc_malloc_fail [of h k h1 m R] show ?thesis
      by (auto simp: mem_alloc_def libc_realloc_def)
  next
    case False
    with assms p f blk have q: "q = q1" and h': "h' = libc_free h1 p"
      and m': "m' = (\<lambda>a. if q \<le> a \<and> a < q + min n k then m (p + (a - q)) else m a)"
      by (auto simp: mem_alloc_def libc_realloc_def)
    note ok = libc_malloc_ok [OF assms(1,3) f False]
    have ne: "q \<noteq> p" using ok(1) assms(2) q by auto
    have "libc_inv h' m' ((R(q \<mapsto> k))(p := None))"
      unfolding h' q by (rule libc_free_ok [OF ok(2)])
    moreover have "(R(q \<mapsto> k))(p := None) = (R(p := None))(q \<mapsto> k)" using ne by auto
    moreover have "agree R m m'"
      unfolding agree_def m' using libc_owned_below [OF assms(1)] ok(3) q by fastforce
    ultimately show ?thesis
      using False q ok(1) m' agree_mono [of R m m' "R(p := None)"] by simp
  qed
qed

interpretation sys: lua_alloc mem_alloc libc_inv
proof unfold_locales
  fix h m R p n q k
  assume "libc_inv h m R" "R p = Some n" "R q = Some k" "p \<noteq> q"
  then show "p + n \<le> q \<or> q + k \<le> p" unfolding libc_inv_def by blast
next
  fix h m R p n
  assume i: "libc_inv h m R" "R p = Some n"
  then have a: "0 < p \<and> 0 < n \<and> 16 dvd p \<and> p + n \<le> limit h" "limit h \<le> 2 ^ 47"
    unfolding libc_inv_def by blast+
  moreover from a(1) have "8 dvd p" by presburger
  ultimately show "0 < p \<and> 0 < n \<and> 8 dvd p \<and> p + n \<le> 2 ^ 47" by linarith
next
  fix h m R m'
  assume "libc_inv h m R"
  then show "libc_inv h m' R" by (simp add: libc_inv_def)
next
  fix h m R n h' m' p
  assume i: "libc_inv h m R" "0 < n" and f: "mem_alloc h m 0 0 n = (h', m', p)"
  then have l: "libc_malloc h n = (h', p)" and "m' = m"
    by (auto simp: mem_alloc_def libc_realloc_def split: prod.splits)
  with libc_malloc_ok(1,2) [OF i l] libc_malloc_fail [of h n h' m R] i
  show "agree R m m' \<and> (if p = 0 then libc_inv h' m' R else R p = None \<and> libc_inv h' m' (R(p \<mapsto> n)))"
    by auto
next
  fix h m R p n h' m' q
  assume "libc_inv h m R" "R p = Some n" "mem_alloc h m p n 0 = (h', m', q)"
  then show "q = 0 \<and> libc_inv h' m' (R(p := None)) \<and> agree (R(p := None)) m m'"
    by (auto simp: mem_alloc_def libc_free_ok)
qed (rule mem_alloc_realloc_ok)

end
