(* ===== verification/PageAlloc.thy ===== *)
theory PageAlloc
  imports Dll Allocator
begin

text \<open>
  The segregated page allocator front end, \<^verbatim>\<open>src/src/lj_alloc_page.c\<close> (64 bit layout, without the
  \<^verbatim>\<open>LUAJIT_PAGEALLOC_TEST\<close> counters). The backing allocator \<^verbatim>\<open>lj_alloc_f\<close> is the parameter \<open>bf\<close>.
  Page headers (\<^verbatim>\<open>struct LJPage\<close>) are records indexed by the page's address; the blocks, their
  prefix words and the links of the free lists are bytes of the shared memory.
  The main result is that the front end meets the \<^verbatim>\<open>lua_Alloc\<close> contract of theory \<open>Allocator\<close>
  whenever its backing allocator does.
\<close>

section \<open>Layout\<close>

definition LJ_PAGE_ALLOC_MAX_SIZE :: nat where "LJ_PAGE_ALLOC_MAX_SIZE = 1024"
definition LJ_PAGE_CLASS_COUNT :: nat where "LJ_PAGE_CLASS_COUNT = 36"
definition LJ_PAGE_SMALL_SIZE :: nat where "LJ_PAGE_SMALL_SIZE = 16 * 1024"
definition LJ_PAGE_LARGE_SIZE :: nat where "LJ_PAGE_LARGE_SIZE = 32 * 1024"
definition LJ_PAGE_SMALL_MAX_PAYLOAD :: nat where "LJ_PAGE_SMALL_MAX_PAYLOAD = 512"
definition LJ_PAGE_PREFIX_SIZE :: nat where "LJ_PAGE_PREFIX_SIZE = 8"
definition LJ_PAGE_MAGIC :: nat where "LJ_PAGE_MAGIC = 0x4c4a5047"

text \<open>\<^verbatim>\<open>offsetof(LJPage, data)\<close> and \<^verbatim>\<open>sizeof(LJPageAllocState)\<close> for 8 byte pointers.\<close>

definition data_offset :: nat where "data_offset = 80"
definition sizeof_LJPageAllocState :: nat where "sizeof_LJPageAllocState = 304"

lemmas page_consts [simp] =
  LJ_PAGE_ALLOC_MAX_SIZE_def LJ_PAGE_CLASS_COUNT_def LJ_PAGE_SMALL_SIZE_def LJ_PAGE_LARGE_SIZE_def
  LJ_PAGE_SMALL_MAX_PAYLOAD_def LJ_PAGE_PREFIX_SIZE_def data_offset_def sizeof_LJPageAllocState_def

record ljpage =
  nonfull_prev :: nat
  nonfull_next :: nat
  all_prev :: nat
  all_next :: nat
  owner :: nat
  free_head :: nat
  magic :: nat
  page_size :: nat
  stride :: nat
  block_count :: nat
  bump_index :: nat
  busy_count :: nat
  payload_size :: nat
  class_index :: nat
  on_nonfull :: bool

text \<open>A page header after \<^verbatim>\<open>memset(page, 0, data_offset)\<close>.\<close>

definition zero_page :: ljpage where
  "zero_page = \<lparr>nonfull_prev = 0, nonfull_next = 0, all_prev = 0, all_next = 0, owner = 0,
     free_head = 0, magic = 0, page_size = 0, stride = 0, block_count = 0, bump_index = 0,
     busy_count = 0, payload_size = 0, class_index = 0, on_nonfull = False\<rparr>"

text \<open>\<open>self\<close> is the address of the state itself, which pages record as their owner.\<close>

record 'b pas =
  self :: nat
  backing :: 'b
  nonfull_pages :: "nat list"
  allpages :: nat
  headers :: "nat \<Rightarrow> ljpage"

definition page_class_size :: "nat list" where
  "page_class_size =
    [8, 16, 24, 32, 40, 48, 56,
     64, 80, 96, 112, 128, 144, 160, 176, 192, 208, 224, 240,
     256, 288, 320, 352, 384, 416, 448, 480,
     512, 576, 640, 704, 768, 832, 896, 960, 1024]"

definition page_size_class :: "nat \<Rightarrow> nat" where
  "page_size_class sz =
     (if sz \<le> 56 then (sz + 7) div 8 - 1
      else if sz \<le> 240 then 7 + (sz - 49) div 16
      else if sz \<le> 480 then 19 + (sz - 225) div 32
      else 27 + (sz - 449) div 64)"

section \<open>Pointers in memory\<close>

definition load_ptr :: "mem \<Rightarrow> nat \<Rightarrow> nat" where
  "load_ptr m a = (\<Sum>i<8. unat (m (a + i)) * 256 ^ i)"

definition store_ptr :: "mem \<Rightarrow> nat \<Rightarrow> nat \<Rightarrow> mem" where
  "store_ptr m a v = (\<lambda>x. if a \<le> x \<and> x < a + 8 then word_of_nat (v div 256 ^ (x - a)) else m x)"

definition memcpy :: "mem \<Rightarrow> nat \<Rightarrow> nat \<Rightarrow> nat \<Rightarrow> mem" where
  "memcpy m dst src n = (\<lambda>x. if dst \<le> x \<and> x < dst + n then m (src + (x - dst)) else m x)"

section \<open>Page lists\<close>

definition page_data :: "nat \<Rightarrow> nat" where
  "page_data page = page + data_offset"

definition upd_page :: "nat \<Rightarrow> (ljpage \<Rightarrow> ljpage) \<Rightarrow> 'b pas \<Rightarrow> 'b pas" where
  "upd_page page f s = s\<lparr>headers := (headers s)(page := f (headers s page))\<rparr>"

definition page_nonfull_insert :: "'b pas \<Rightarrow> nat \<Rightarrow> 'b pas" where
  "page_nonfull_insert s page =
     (let ci = class_index (headers s page);
          h = nonfull_pages s ! ci;
          s = upd_page page (\<lambda>p. p\<lparr>nonfull_prev := 0\<rparr>) s;
          s = upd_page page (\<lambda>p. p\<lparr>nonfull_next := h\<rparr>) s;
          s = (if h \<noteq> 0 then upd_page h (\<lambda>p. p\<lparr>nonfull_prev := page\<rparr>) s else s);
          s = s\<lparr>nonfull_pages := (nonfull_pages s)[ci := page]\<rparr>
      in upd_page page (\<lambda>p. p\<lparr>on_nonfull := True\<rparr>) s)"

definition page_nonfull_remove :: "'b pas \<Rightarrow> nat \<Rightarrow> 'b pas" where
  "page_nonfull_remove s page =
     (let p = headers s page;
          s = (if nonfull_prev p \<noteq> 0
               then upd_page (nonfull_prev p) (\<lambda>q. q\<lparr>nonfull_next := nonfull_next p\<rparr>) s
               else s\<lparr>nonfull_pages := (nonfull_pages s)[class_index p := nonfull_next p]\<rparr>);
          s = (if nonfull_next p \<noteq> 0
               then upd_page (nonfull_next p) (\<lambda>q. q\<lparr>nonfull_prev := nonfull_prev p\<rparr>) s
               else s);
          s = upd_page page (\<lambda>q. q\<lparr>nonfull_prev := 0, nonfull_next := 0\<rparr>) s
      in upd_page page (\<lambda>q. q\<lparr>on_nonfull := False\<rparr>) s)"

definition page_all_insert :: "'b pas \<Rightarrow> nat \<Rightarrow> 'b pas" where
  "page_all_insert s page =
     (let h = allpages s;
          s = upd_page page (\<lambda>p. p\<lparr>all_prev := 0\<rparr>) s;
          s = upd_page page (\<lambda>p. p\<lparr>all_next := h\<rparr>) s;
          s = (if h \<noteq> 0 then upd_page h (\<lambda>p. p\<lparr>all_prev := page\<rparr>) s else s)
      in s\<lparr>allpages := page\<rparr>)"

definition page_all_remove :: "'b pas \<Rightarrow> nat \<Rightarrow> 'b pas" where
  "page_all_remove s page =
     (let p = headers s page;
          s = (if all_prev p \<noteq> 0
               then upd_page (all_prev p) (\<lambda>q. q\<lparr>all_next := all_next p\<rparr>) s
               else s\<lparr>allpages := all_next p\<rparr>);
          s = (if all_next p \<noteq> 0
               then upd_page (all_next p) (\<lambda>q. q\<lparr>all_prev := all_prev p\<rparr>) s
               else s)
      in upd_page page (\<lambda>q. q\<lparr>all_prev := 0, all_next := 0\<rparr>) s)"

section \<open>Pages\<close>

definition page_new :: "'b alloc_fn \<Rightarrow> 'b pas \<Rightarrow> mem \<Rightarrow> nat \<Rightarrow> 'b pas \<times> mem \<times> nat" where
  "page_new bf s m ci =
     (let payload = page_class_size ! ci;
          psize = (if payload > LJ_PAGE_SMALL_MAX_PAYLOAD then LJ_PAGE_LARGE_SIZE
                   else LJ_PAGE_SMALL_SIZE);
          strd = LJ_PAGE_PREFIX_SIZE + payload;
          (b, m, page) = bf (backing s) m 0 0 psize;
          s = s\<lparr>backing := b\<rparr>
      in if page = 0 then (s, m, 0)
         else
           let s = upd_page page (\<lambda>_. zero_page\<lparr>owner := self s, magic := LJ_PAGE_MAGIC,
                     page_size := psize, stride := strd,
                     block_count := (psize - data_offset) div strd, payload_size := payload,
                     class_index := ci\<rparr>) s;
               s = page_all_insert s page;
               s = page_nonfull_insert s page
           in (s, m, page))"

definition page_release :: "'b alloc_fn \<Rightarrow> 'b pas \<Rightarrow> mem \<Rightarrow> nat \<Rightarrow> 'b pas \<times> mem" where
  "page_release bf s m page =
     (let psize = page_size (headers s page);
          s = (if on_nonfull (headers s page) then page_nonfull_remove s page else s);
          s = page_all_remove s page;
          s = upd_page page (\<lambda>p. p\<lparr>magic := 0\<rparr>) s;
          (b, m, _) = bf (backing s) m page psize 0
      in (s\<lparr>backing := b\<rparr>, m))"

definition page_take :: "'b pas \<Rightarrow> mem \<Rightarrow> nat \<Rightarrow> 'b pas \<times> mem \<times> nat" where
  "page_take s m page =
     (let p = headers s page;
          (s, block, ptr) =
            (if bump_index p < block_count p
             then let block = page_data page + bump_index p * stride p
                  in (upd_page page (\<lambda>p. p\<lparr>bump_index := bump_index p + 1\<rparr>) s,
                      block, block + LJ_PAGE_PREFIX_SIZE)
             else let ptr = free_head p
                  in (upd_page page (\<lambda>p. p\<lparr>free_head := load_ptr m ptr\<rparr>) s,
                      ptr - LJ_PAGE_PREFIX_SIZE, ptr));
          m = store_ptr m block page;
          s = upd_page page (\<lambda>p. p\<lparr>busy_count := busy_count p + 1\<rparr>) s;
          s = (if busy_count (headers s page) = block_count (headers s page)
               then page_nonfull_remove s page else s)
      in (s, m, ptr))"

definition page_alloc_small :: "'b alloc_fn \<Rightarrow> 'b pas \<Rightarrow> mem \<Rightarrow> nat \<Rightarrow> 'b pas \<times> mem \<times> nat" where
  "page_alloc_small bf s m sz =
     (let ci = page_size_class sz;
          page = nonfull_pages s ! ci;
          (s, m, page) = (if page = 0 then page_new bf s m ci else (s, m, page))
      in if page = 0 then (s, m, 0) else page_take s m page)"

definition page_from_ptr :: "mem \<Rightarrow> nat \<Rightarrow> nat" where
  "page_from_ptr m ptr = load_ptr m (ptr - LJ_PAGE_PREFIX_SIZE)"

definition page_put :: "'b pas \<Rightarrow> mem \<Rightarrow> nat \<Rightarrow> nat \<Rightarrow> 'b pas \<times> mem" where
  "page_put s m page ptr =
     (let s = (if busy_count (headers s page) = block_count (headers s page)
               then page_nonfull_insert s page else s);
          m = store_ptr m ptr (free_head (headers s page));
          s = upd_page page (\<lambda>p. p\<lparr>free_head := ptr\<rparr>) s;
          s = upd_page page (\<lambda>p. p\<lparr>busy_count := busy_count p - 1\<rparr>) s
      in (s, m))"

definition page_free_small :: "'b alloc_fn \<Rightarrow> 'b pas \<Rightarrow> mem \<Rightarrow> nat \<Rightarrow> 'b pas \<times> mem" where
  "page_free_small bf s m ptr =
     (let page = page_from_ptr m ptr;
          (s, m) = page_put s m page ptr
      in if busy_count (headers s page) = 0 then page_release bf s m page else (s, m))"

section \<open>The allocation function\<close>

definition lj_page_alloc_f :: "'b alloc_fn \<Rightarrow> 'b pas alloc_fn" where
  "lj_page_alloc_f bf s m ptr osize nsize =
     (if ptr = 0 then
        if nsize = 0 then (s, m, 0)
        else if nsize \<le> LJ_PAGE_ALLOC_MAX_SIZE then page_alloc_small bf s m nsize
        else (case bf (backing s) m 0 0 nsize of (b, m, p) \<Rightarrow> (s\<lparr>backing := b\<rparr>, m, p))
      else if nsize = 0 then
        if osize \<le> LJ_PAGE_ALLOC_MAX_SIZE
        then (case page_free_small bf s m ptr of (s, m) \<Rightarrow> (s, m, 0))
        else (case bf (backing s) m ptr osize 0 of (b, m, _) \<Rightarrow> (s\<lparr>backing := b\<rparr>, m, 0))
      else if osize \<le> LJ_PAGE_ALLOC_MAX_SIZE then
        let page = page_from_ptr m ptr
        in if nsize \<le> payload_size (headers s page) then (s, m, ptr)
           else
             let (s, m, newptr) =
                   (if nsize \<le> LJ_PAGE_ALLOC_MAX_SIZE then page_alloc_small bf s m nsize
                    else (case bf (backing s) m 0 0 nsize of (b, m, p) \<Rightarrow> (s\<lparr>backing := b\<rparr>, m, p)))
             in if newptr = 0 then (s, m, 0)
                else
                  let m = memcpy m newptr ptr (min osize nsize);
                      (s, m) = page_free_small bf s m ptr
                  in (s, m, newptr)
      else if nsize \<le> LJ_PAGE_ALLOC_MAX_SIZE then
        let (s, m, newptr) = page_alloc_small bf s m nsize
        in if newptr = 0 then (s, m, 0)
           else
             let m = memcpy m newptr ptr (min osize nsize);
                 (b, m, _) = bf (backing s) m ptr osize 0
             in (s\<lparr>backing := b\<rparr>, m, newptr)
      else (case bf (backing s) m ptr osize nsize of (b, m, p) \<Rightarrow> (s\<lparr>backing := b\<rparr>, m, p)))"

section \<open>Creation and destruction\<close>

text \<open>\<open>bk\<close> is what \<^verbatim>\<open>lj_alloc_create\<close> returned: the new backing allocator, if any.\<close>

definition lj_page_alloc_create ::
    "'b alloc_fn \<Rightarrow> ('b \<Rightarrow> mem \<Rightarrow> mem) \<Rightarrow> 'b option \<Rightarrow> mem \<Rightarrow> 'b pas option \<times> mem" where
  "lj_page_alloc_create bf destroy bk m =
     (case bk of None \<Rightarrow> (None, m)
      | Some b \<Rightarrow>
          (case bf b m 0 0 sizeof_LJPageAllocState of (b, m, p) \<Rightarrow>
             if p = 0 then (None, destroy b m)
             else (Some \<lparr>self = p, backing = b, nonfull_pages = replicate LJ_PAGE_CLASS_COUNT 0,
                         allpages = 0, headers = (\<lambda>_. zero_page)\<rparr>, m)))"

text \<open>The loop over \<^verbatim>\<open>allpages\<close> follows the links; \<open>None\<close> would be a run that never ends.\<close>

partial_function (option) destroy_pages ::
    "'b alloc_fn \<Rightarrow> (nat \<Rightarrow> ljpage) \<Rightarrow> 'b \<Rightarrow> mem \<Rightarrow> nat \<Rightarrow> ('b \<times> mem) option" where
  "destroy_pages bf hdr b m page =
     (if page = 0 then Some (b, m)
      else case bf b m page (page_size (hdr page)) 0 of
             (b, m, _) \<Rightarrow> destroy_pages bf hdr b m (all_next (hdr page)))"

definition lj_page_alloc_destroy ::
    "'b alloc_fn \<Rightarrow> ('b \<Rightarrow> mem \<Rightarrow> mem) \<Rightarrow> 'b pas \<Rightarrow> mem \<Rightarrow> mem option" where
  "lj_page_alloc_destroy bf destroy s m =
     (case destroy_pages bf (headers s) (backing s) m (allpages s) of
        None \<Rightarrow> None
      | Some (b, m) \<Rightarrow>
          (case bf b m (self s) sizeof_LJPageAllocState 0 of (b, m, _) \<Rightarrow> Some (destroy b m)))"

section \<open>Facts about the layout\<close>

lemma page_class_size_check:
  "\<forall>ci\<in>set [0..<36]. page_class_size ! ci =
     (if ci < 7 then 8 * (ci + 1) else if ci < 19 then 64 + 16 * (ci - 7)
      else if ci < 27 then 256 + 32 * (ci - 19) else 512 + 64 * (ci - 27))"
  by code_simp

text \<open>The four ranges of the table.\<close>

lemma page_class_size_eq:
  "ci < 36 \<Longrightarrow> page_class_size ! ci =
     (if ci < 7 then 8 * (ci + 1) else if ci < 19 then 64 + 16 * (ci - 7)
      else if ci < 27 then 256 + 32 * (ci - 19) else 512 + 64 * (ci - 27))"
  using page_class_size_check by auto

lemma page_class_size_ok:
  "ci < 36 \<Longrightarrow> 8 dvd page_class_size ! ci \<and> 8 \<le> page_class_size ! ci \<and> page_class_size ! ci \<le> 1024"
  by (simp only: page_class_size_eq split: if_split) (simp; presburger)

lemma page_size_class_range:
  assumes "sz \<le> 1024"
  obtains "sz \<le> 56" "page_size_class sz = (sz + 7) div 8 - 1" "(sz + 7) div 8 - 1 < 7"
  | "56 < sz" "sz \<le> 240" "page_size_class sz = 7 + (sz - 49) div 16" "(sz - 49) div 16 < 12"
  | "240 < sz" "sz \<le> 480" "page_size_class sz = 19 + (sz - 225) div 32" "(sz - 225) div 32 < 8"
  | "480 < sz" "page_size_class sz = 27 + (sz - 449) div 64" "(sz - 449) div 64 < 9"
proof -
  consider "sz \<le> 56" | "56 < sz" "sz \<le> 240" | "240 < sz" "sz \<le> 480" | "480 < sz" by linarith
  then show thesis
    using assms that by cases (simp_all add: page_size_class_def)
qed

lemma page_size_class_less: "sz \<le> 1024 \<Longrightarrow> page_size_class sz < 36"
  by (erule page_size_class_range) simp_all

text \<open>The class computed by shifts is the smallest one that fits.\<close>

lemma page_class_nth:
  "c < 7 \<Longrightarrow> page_class_size ! c = 8 * c + 8"
  "c < 12 \<Longrightarrow> page_class_size ! (7 + c) = 16 * c + 64"
  "c < 8 \<Longrightarrow> page_class_size ! (19 + c) = 32 * c + 256"
  "c < 9 \<Longrightarrow> page_class_size ! (27 + c) = 64 * c + 512"
  by (simp_all add: page_class_size_eq)

lemma page_class_nth_pred:
  "c < 7 \<Longrightarrow> 0 < c \<Longrightarrow> page_class_size ! (c - 1) = 8 * c"
  "c < 12 \<Longrightarrow> page_class_size ! (7 + c - 1) = (if c = 0 then 56 else 16 * c + 48)"
  "c < 8 \<Longrightarrow> page_class_size ! (19 + c - 1) = (if c = 0 then 240 else 32 * c + 224)"
  "c < 9 \<Longrightarrow> page_class_size ! (27 + c - 1) = (if c = 0 then 480 else 64 * c + 448)"
  by (simp add: page_class_size_eq) (cases c; simp add: page_class_size_eq)+

lemma page_size_class_fits:
  assumes "0 < sz" and "sz \<le> 1024"
  shows "sz \<le> page_class_size ! page_size_class sz"
  using assms(2)
proof (rule page_size_class_range)
  assume a: "page_size_class sz = (sz + 7) div 8 - 1" "(sz + 7) div 8 - 1 < 7"
  show ?thesis unfolding a(1) page_class_nth(1) [OF a(2)] by linarith
next
  assume a: "page_size_class sz = 7 + (sz - 49) div 16" "(sz - 49) div 16 < 12"
  show ?thesis unfolding a(1) page_class_nth(2) [OF a(2)] by linarith
next
  assume a: "page_size_class sz = 19 + (sz - 225) div 32" "(sz - 225) div 32 < 8"
  show ?thesis unfolding a(1) page_class_nth(3) [OF a(2)] by linarith
next
  assume a: "page_size_class sz = 27 + (sz - 449) div 64" "(sz - 449) div 64 < 9"
  show ?thesis unfolding a(1) page_class_nth(4) [OF a(2)] by linarith
qed

lemma page_size_class_smallest:
  assumes "0 < sz" and "sz \<le> 1024" and "0 < page_size_class sz"
  shows "page_class_size ! (page_size_class sz - 1) < sz"
  using assms(2)
proof (rule page_size_class_range)
  assume a: "page_size_class sz = (sz + 7) div 8 - 1" "(sz + 7) div 8 - 1 < 7"
  have p: "0 < (sz + 7) div 8 - 1" using a assms(3) by simp
  show ?thesis unfolding a(1) page_class_nth_pred(1) [OF a(2) p] using p by linarith
next
  assume a: "page_size_class sz = 7 + (sz - 49) div 16" "(sz - 49) div 16 < 12" "56 < sz"
  show ?thesis unfolding a(1) page_class_nth_pred(2) [OF a(2)] using a(3) by (cases "(sz - 49) div 16 = 0"; simp; linarith)
next
  assume a: "page_size_class sz = 19 + (sz - 225) div 32" "(sz - 225) div 32 < 8" "240 < sz"
  show ?thesis unfolding a(1) page_class_nth_pred(3) [OF a(2)] using a(3) by (cases "(sz - 225) div 32 = 0"; simp; linarith)
next
  assume a: "page_size_class sz = 27 + (sz - 449) div 64" "(sz - 449) div 64 < 9" "480 < sz"
  show ?thesis unfolding a(1) page_class_nth_pred(4) [OF a(2)] using a(3) by (cases "(sz - 449) div 64 = 0"; simp; linarith)
qed

lemma sum_digits: "(\<Sum>i<k. (v div 256 ^ i mod 256) * 256 ^ i) = v mod 256 ^ (k::nat)" for v :: nat
proof (induction k)
  case 0
  then show ?case by simp
next
  case (Suc k)
  have "v mod (256 ^ k * 256) = 256 ^ k * (v div 256 ^ k mod 256) + v mod 256 ^ k"
    by (rule mod_mult2_eq)
  with Suc show ?case by (simp add: mult.commute)
qed

lemma load_store_ptr:
  assumes "v < 2 ^ 64"
  shows "load_ptr (store_ptr m a v) a = v"
proof -
  have "load_ptr (store_ptr m a v) a = (\<Sum>i<8. (v div 256 ^ i mod 256) * 256 ^ i)"
    by (simp add: load_ptr_def store_ptr_def unat_of_nat)
  also have "\<dots> = v mod 256 ^ 8" by (rule sum_digits)
  also have "\<dots> = v" using assms by simp
  finally show ?thesis .
qed

lemma load_ptr_cong: "(\<And>i. i < 8 \<Longrightarrow> m' (a + i) = m (a + i)) \<Longrightarrow> load_ptr m' a = load_ptr m a"
  by (simp add: load_ptr_def)

lemma load_store_other: "a + 8 \<le> b \<or> b + 8 \<le> a \<Longrightarrow> load_ptr (store_ptr m a v) b = load_ptr m b"
  by (rule load_ptr_cong) (auto simp: store_ptr_def)

section \<open>The invariant\<close>

text \<open>The block \<open>i\<close> of a page starts with its prefix word; \<open>blk\<close> is the pointer handed out.\<close>

definition blk :: "ljpage \<Rightarrow> nat \<Rightarrow> nat \<Rightarrow> nat" where
  "blk h page i = page_data page + i * stride h + LJ_PAGE_PREFIX_SIZE"

text \<open>The free list of a page: the links are stored in the blocks.\<close>

fun free_chain :: "mem \<Rightarrow> nat \<Rightarrow> nat list \<Rightarrow> bool" where
  "free_chain m p [] \<longleftrightarrow> p = 0"
| "free_chain m p (x # xs) \<longleftrightarrow> p = x \<and> x \<noteq> 0 \<and> free_chain m (load_ptr m x) xs"

definition bumped :: "ljpage \<Rightarrow> nat \<Rightarrow> nat set" where
  "bumped h page = blk h page ` {..<bump_index h}"

text \<open>The blocks of a page in use: handed out at least once and not on the free list.\<close>

definition in_use :: "ljpage \<Rightarrow> nat \<Rightarrow> nat list \<Rightarrow> nat set" where
  "in_use h page fl = bumped h page - set fl"

definition page_shape :: "nat \<Rightarrow> ljpage \<Rightarrow> bool" where
  "page_shape own h \<longleftrightarrow>
     owner h = own \<and> magic h = LJ_PAGE_MAGIC \<and> class_index h < 36 \<and>
     payload_size h = page_class_size ! class_index h \<and>
     page_size h = (if payload_size h > 512 then 32768 else 16384) \<and>
     stride h = 8 + payload_size h \<and> block_count h = (page_size h - 80) div stride h \<and>
     bump_index h \<le> block_count h \<and> on_nonfull h = (busy_count h < block_count h)"

definition page_ok :: "nat \<Rightarrow> mem \<Rightarrow> nat \<Rightarrow> ljpage \<Rightarrow> nat list \<Rightarrow> bool" where
  "page_ok own m page h fl \<longleftrightarrow>
     page_shape own h \<and> free_chain m (free_head h) fl \<and> distinct fl \<and> set fl \<subseteq> bumped h page \<and>
     busy_count h + length fl = bump_index h \<and>
     (\<forall>p\<in>in_use h page fl. load_ptr m (p - 8) = page)"

text \<open>
  The allocator's lists: \<open>ps\<close> all pages, \<open>nl ci\<close> the non-full pages of class \<open>ci\<close>, \<open>fl page\<close> the
  free list of a page. \<open>Rb\<close> are the blocks the front end owns of its backing allocator.
\<close>

definition lists_ok :: "'b pas \<Rightarrow> nat list \<Rightarrow> (nat \<Rightarrow> nat list) \<Rightarrow> bool" where
  "lists_ok s ps nl \<longleftrightarrow>
     length (nonfull_pages s) = 36 \<and> distinct ps \<and>
     dll (all_next \<circ> headers s) (all_prev \<circ> headers s) (allpages s) 0 ps \<and>
     (\<forall>ci<36. distinct (nl ci) \<and>
        dll (nonfull_next \<circ> headers s) (nonfull_prev \<circ> headers s) (nonfull_pages s ! ci) 0 (nl ci) \<and>
        set (nl ci) = {p \<in> set ps. class_index (headers s p) = ci \<and> on_nonfull (headers s p)})"

definition pages_ok :: "'b pas \<Rightarrow> mem \<Rightarrow> nat list \<Rightarrow> (nat \<Rightarrow> nat list) \<Rightarrow> bool" where
  "pages_ok s m ps fl \<longleftrightarrow> (\<forall>p\<in>set ps. page_ok (self s) m p (headers s p) (fl p))"

text \<open>The client's blocks \<open>R\<close>: small ones are blocks in use of a page, the others are the
  backing allocator's.\<close>

definition owns :: "'b pas \<Rightarrow> nat list \<Rightarrow> (nat \<Rightarrow> nat list) \<Rightarrow> regions \<Rightarrow> regions \<Rightarrow> bool" where
  "owns s ps fl Rb R \<longleftrightarrow>
     Rb (self s) = Some sizeof_LJPageAllocState \<and> self s \<notin> set ps \<and>
     (\<forall>p\<in>set ps. Rb p = Some (page_size (headers s p))) \<and>
     (\<forall>p n. p \<noteq> self s \<longrightarrow> p \<notin> set ps \<longrightarrow> Rb p = Some n \<longrightarrow> R p = Some n \<and> 1024 < n) \<and>
     (\<forall>p n. R p = Some n \<longrightarrow> 0 < n \<and>
        (if 1024 < n then Rb p = Some n \<and> p \<noteq> self s \<and> p \<notin> set ps
         else \<exists>page\<in>set ps. p \<in> in_use (headers s page) page (fl page)
                \<and> n \<le> payload_size (headers s page))) \<and>
     (\<forall>page\<in>set ps. \<forall>p\<in>in_use (headers s page) page (fl page).
        \<exists>n. R p = Some n \<and> n \<le> 1024)"

section \<open>The list operations\<close>

text \<open>Everything of a header but its links and its non-full flag.\<close>

definition core :: "ljpage \<Rightarrow> ljpage" where
  "core h = h\<lparr>nonfull_prev := 0, nonfull_next := 0, all_prev := 0, all_next := 0, on_nonfull := False\<rparr>"

lemma core_fields:
  assumes "core h = core h'"
  shows "owner h = owner h'" "free_head h = free_head h'" "magic h = magic h'"
    "page_size h = page_size h'" "stride h = stride h'" "block_count h = block_count h'"
    "bump_index h = bump_index h'" "busy_count h = busy_count h'"
    "payload_size h = payload_size h'" "class_index h = class_index h'"
  using assms by (simp_all add: core_def ljpage.ext_inject) (cases h; cases h'; simp)+

text \<open>The list operations write links and flags only, and of the state only the two anchors.\<close>

definition relinked :: "'b pas \<Rightarrow> 'b pas \<Rightarrow> bool" where
  "relinked s s' \<longleftrightarrow> self s' = self s \<and> backing s' = backing s \<and>
     (\<forall>p. core (headers s' p) = core (headers s p))"

lemma relinked_trans: "relinked s s' \<Longrightarrow> relinked s' s'' \<Longrightarrow> relinked s s''"
  by (simp add: relinked_def)

lemma relinked_ops:
  "relinked s (page_nonfull_insert s p)" "relinked s (page_nonfull_remove s p)"
  "relinked s (page_all_insert s p)" "relinked s (page_all_remove s p)"
  by (simp_all add: relinked_def page_nonfull_insert_def page_nonfull_remove_def page_all_insert_def
      page_all_remove_def upd_page_def core_def Let_def)

lemma on_nonfull_ops [simp]:
  "on_nonfull (headers (page_nonfull_insert s page) p) = (p = page \<or> on_nonfull (headers s p))"
  "on_nonfull (headers (page_nonfull_remove s page) p) = (p \<noteq> page \<and> on_nonfull (headers s p))"
  "on_nonfull (headers (page_all_insert s page) p) = on_nonfull (headers s p)"
  "on_nonfull (headers (page_all_remove s page) p) = on_nonfull (headers s p)"
  by (auto simp: page_nonfull_insert_def page_nonfull_remove_def page_all_insert_def
      page_all_remove_def upd_page_def Let_def)

lemma class_index_ops [simp]:
  "class_index (headers (page_nonfull_insert s page) p) = class_index (headers s p)"
  "class_index (headers (page_nonfull_remove s page) p) = class_index (headers s p)"
  "class_index (headers (page_all_insert s page) p) = class_index (headers s p)"
  "class_index (headers (page_all_remove s page) p) = class_index (headers s p)"
  using relinked_ops [of s page] by (auto simp: relinked_def dest: core_fields(10))

text \<open>The operations on one kind of list leave the links of the other kind alone.\<close>

lemma other_links [simp]:
  "all_next (headers (page_nonfull_insert s page) p) = all_next (headers s p)"
  "all_prev (headers (page_nonfull_insert s page) p) = all_prev (headers s p)"
  "all_next (headers (page_nonfull_remove s page) p) = all_next (headers s p)"
  "all_prev (headers (page_nonfull_remove s page) p) = all_prev (headers s p)"
  "nonfull_next (headers (page_all_insert s page) p) = nonfull_next (headers s p)"
  "nonfull_prev (headers (page_all_insert s page) p) = nonfull_prev (headers s p)"
  "nonfull_next (headers (page_all_remove s page) p) = nonfull_next (headers s p)"
  "nonfull_prev (headers (page_all_remove s page) p) = nonfull_prev (headers s p)"
  "allpages (page_nonfull_insert s page) = allpages s"
  "allpages (page_nonfull_remove s page) = allpages s"
  "nonfull_pages (page_all_insert s page) = nonfull_pages s"
  "nonfull_pages (page_all_remove s page) = nonfull_pages s"
  by (simp_all add: page_nonfull_insert_def page_nonfull_remove_def page_all_insert_def
      page_all_remove_def upd_page_def Let_def)

lemma nonfull_pages_insert:
  "nonfull_pages (page_nonfull_insert s page) =
     (nonfull_pages s)[class_index (headers s page) := page]"
  by (simp add: page_nonfull_insert_def upd_page_def Let_def)

lemma nonfull_pages_remove:
  "nonfull_pages (page_nonfull_remove s page) =
     (if nonfull_prev (headers s page) = 0
      then (nonfull_pages s)[class_index (headers s page) := nonfull_next (headers s page)]
      else nonfull_pages s)"
  by (simp add: page_nonfull_remove_def upd_page_def Let_def)

lemma nonfull_links_insert:
  assumes "h = nonfull_pages s ! class_index (headers s page)" and "h \<noteq> page"
  shows "nonfull_next (headers (page_nonfull_insert s page) p) =
      (if p = page then h else nonfull_next (headers s p))"
    and "nonfull_prev (headers (page_nonfull_insert s page) p) =
      (if p = page then 0 else if p = h \<and> h \<noteq> 0 then page else nonfull_prev (headers s p))"
  using assms by (auto simp: page_nonfull_insert_def upd_page_def Let_def)

lemma nonfull_links_remove:
  assumes "p \<noteq> page" and "p \<noteq> 0"
  shows "nonfull_next (headers (page_nonfull_remove s page) p) =
      (if p = nonfull_prev (headers s page) then nonfull_next (headers s page) else nonfull_next (headers s p))"
    and "nonfull_prev (headers (page_nonfull_remove s page) p) =
      (if p = nonfull_next (headers s page) then nonfull_prev (headers s page) else nonfull_prev (headers s p))"
  using assms by (auto simp: page_nonfull_remove_def upd_page_def Let_def)

lemma all_links_insert:
  assumes "allpages s \<noteq> page"
  shows "all_next (headers (page_all_insert s page) p) =
      (if p = page then allpages s else all_next (headers s p))"
    and "all_prev (headers (page_all_insert s page) p) =
      (if p = page then 0 else if p = allpages s \<and> p \<noteq> 0 then page else all_prev (headers s p))"
    and "allpages (page_all_insert s page) = page"
  using assms by (auto simp: page_all_insert_def upd_page_def Let_def)

lemma all_links_remove:
  assumes "p \<noteq> page" and "p \<noteq> 0"
  shows "all_next (headers (page_all_remove s page) p) =
      (if p = all_prev (headers s page) then all_next (headers s page) else all_next (headers s p))"
    and "all_prev (headers (page_all_remove s page) p) =
      (if p = all_next (headers s page) then all_prev (headers s page) else all_prev (headers s p))"
  using assms by (auto simp: page_all_remove_def upd_page_def Let_def)

lemma allpages_remove:
  "allpages (page_all_remove s page) =
     (if all_prev (headers s page) = 0 then all_next (headers s page) else allpages s)"
  by (simp add: page_all_remove_def upd_page_def Let_def)

text \<open>Each list operation keeps the lists well formed.\<close>

lemma lists_ok_nonfull_insert:
  assumes l: "lists_ok s ps nl" and page: "page \<in> set ps" "\<not> on_nonfull (headers s page)"
    and ci: "class_index (headers s page) = ci" "ci < 36"
  shows "lists_ok (page_nonfull_insert s page) ps (nl(ci := page # nl ci))"
proof -
  let ?s = "page_nonfull_insert s page" and ?h = "nonfull_pages s ! ci"
  have nz: "page \<noteq> 0" using l page dll_nonzero unfolding lists_ok_def by blast
  have mem: "\<And>c. c < 36 \<Longrightarrow> set (nl c) = {p \<in> set ps. class_index (headers s p) = c \<and> on_nonfull (headers s p)}"
    and dn: "\<And>c. c < 36 \<Longrightarrow> distinct (nl c)"
    and dl: "\<And>c. c < 36 \<Longrightarrow> dll (nonfull_next \<circ> headers s) (nonfull_prev \<circ> headers s) (nonfull_pages s ! c) 0 (nl c)"
    and len: "length (nonfull_pages s) = 36"
    using l by (auto simp: lists_ok_def)
  have notin: "\<And>c. c < 36 \<Longrightarrow> page \<notin> set (nl c)" using mem page by auto
  have hin: "\<And>c. c < 36 \<Longrightarrow> nonfull_pages s ! c \<noteq> 0 \<Longrightarrow> nonfull_pages s ! c \<in> set (nl c)"
    using dll_head [OF dl] by (auto split: list.splits)
  have h: "?h \<noteq> page" using hin [of ci] notin ci nz by auto
  note lk = nonfull_links_insert [of ?h s page, simplified ci, OF refl h]
  have "dll (nonfull_next \<circ> headers ?s) (nonfull_prev \<circ> headers ?s) (nonfull_pages ?s ! c) 0
      ((nl(ci := page # nl ci)) c)" if c: "c < 36" for c
  proof (cases "c = ci")
    case True
    have "dll (nonfull_next \<circ> headers ?s) (nonfull_prev \<circ> headers ?s) page 0 (page # nl ci)"
      using notin ci nz h
      by (intro dll_insert [OF dl [OF ci(2)] dn [OF ci(2)]]) (auto simp: lk)
    with True ci len show ?thesis by (simp add: nonfull_pages_insert)
  next
    case False
    have "x \<noteq> page \<and> (x \<noteq> ?h \<or> x = 0)" if "x \<in> set (nl c)" for x
      using that notin c False mem hin [of ci] ci by auto
    then have "dll (nonfull_next \<circ> headers ?s) (nonfull_prev \<circ> headers ?s) (nonfull_pages s ! c) 0 (nl c)
       = dll (nonfull_next \<circ> headers s) (nonfull_prev \<circ> headers s) (nonfull_pages s ! c) 0 (nl c)"
      by (intro dll_cong) (fastforce simp: lk)
    with dl c False ci len show ?thesis by (simp add: nonfull_pages_insert)
  qed
  moreover have "distinct ((nl(ci := page # nl ci)) c)" if "c < 36" for c
    using that dn notin by simp
  moreover have "set ((nl(ci := page # nl ci)) c) =
      {p \<in> set ps. class_index (headers ?s p) = c \<and> on_nonfull (headers ?s p)}" if "c < 36" for c
    using that mem page ci by auto
  moreover have "dll (all_next \<circ> headers ?s) (all_prev \<circ> headers ?s) (allpages ?s) 0 ps"
    using l by (simp add: lists_ok_def comp_def)
  ultimately show ?thesis using l unfolding lists_ok_def by (simp add: nonfull_pages_insert)
qed

lemma lists_ok_nonfull_remove:
  assumes l: "lists_ok s ps nl" and page: "page \<in> set ps" "on_nonfull (headers s page)"
    and ci: "class_index (headers s page) = ci" "ci < 36"
  shows "lists_ok (page_nonfull_remove s page) ps (nl(ci := remove1 page (nl ci)))"
proof -
  let ?s = "page_nonfull_remove s page"
  have mem: "\<And>c. c < 36 \<Longrightarrow> set (nl c) = {p \<in> set ps. class_index (headers s p) = c \<and> on_nonfull (headers s p)}"
    and dn: "\<And>c. c < 36 \<Longrightarrow> distinct (nl c)"
    and dl: "\<And>c. c < 36 \<Longrightarrow> dll (nonfull_next \<circ> headers s) (nonfull_prev \<circ> headers s) (nonfull_pages s ! c) 0 (nl c)"
    and len: "length (nonfull_pages s) = 36"
    and nz: "\<And>p. p \<in> set ps \<Longrightarrow> p \<noteq> 0"
    using l dll_nonzero unfolding lists_ok_def by (blast+)
  have pin: "page \<in> set (nl ci)" using mem page ci by auto
  have nbr: "nonfull_prev (headers s page) \<in> {0} \<union> set (nl ci)" "nonfull_next (headers s page) \<in> {0} \<union> set (nl ci)"
  proof -
    obtain as bs where nl: "nl ci = as @ page # bs" using split_list [OF pin] by blast
    note d = dl [OF ci(2), unfolded nl]
    show "nonfull_prev (headers s page) \<in> {0} \<union> set (nl ci)"
      using dll_prev_of [OF d] nl by (cases as rule: rev_cases) auto
    show "nonfull_next (headers s page) \<in> {0} \<union> set (nl ci)"
      using dll_next_of [OF d] nl by (cases bs) auto
  qed
  have "dll (nonfull_next \<circ> headers ?s) (nonfull_prev \<circ> headers ?s) (nonfull_pages ?s ! c) 0
      ((nl(ci := remove1 page (nl ci))) c)" if c: "c < 36" for c
  proof (cases "c = ci")
    case True
    have "dll (nonfull_next \<circ> headers ?s) (nonfull_prev \<circ> headers ?s) (nonfull_pages ?s ! ci) 0 (remove1 page (nl ci))"
    proof (rule dll_remove [OF dl dn pin])
      show "nonfull_pages ?s ! ci = (if (nonfull_prev \<circ> headers s) page = 0 then (nonfull_next \<circ> headers s) page else nonfull_pages s ! ci)"
        using ci len by (simp add: nonfull_pages_remove)
    next
      fix y assume y: "y \<in> set (nl ci)" "y \<noteq> page"
      then have "y \<noteq> 0" using mem ci nz [of y] by auto
      with y show "(nonfull_next \<circ> headers ?s) y =
          (if y = (nonfull_prev \<circ> headers s) page then (nonfull_next \<circ> headers s) page else (nonfull_next \<circ> headers s) y)"
        and "(nonfull_prev \<circ> headers ?s) y =
          (if y = (nonfull_next \<circ> headers s) page then (nonfull_prev \<circ> headers s) page else (nonfull_prev \<circ> headers s) y)"
        by (simp_all add: nonfull_links_remove)
    qed (use ci in simp_all)
    with True show ?thesis by simp
  next
    case False
    have "x \<noteq> page \<and> x \<noteq> 0 \<and> x \<noteq> nonfull_prev (headers s page) \<and> x \<noteq> nonfull_next (headers s page)"
      if "x \<in> set (nl c)" for x
      using that c False mem [of c] mem [of ci] ci nz [of x] nbr by auto
    then have "dll (nonfull_next \<circ> headers ?s) (nonfull_prev \<circ> headers ?s) (nonfull_pages s ! c) 0 (nl c)
       = dll (nonfull_next \<circ> headers s) (nonfull_prev \<circ> headers s) (nonfull_pages s ! c) 0 (nl c)"
      by (intro dll_cong) (simp add: nonfull_links_remove)
    with dl c False ci len show ?thesis by (simp add: nonfull_pages_remove)
  qed
  moreover have "distinct ((nl(ci := remove1 page (nl ci))) c)" if "c < 36" for c
    using that dn by (simp add: distinct_remove1)
  moreover have "set ((nl(ci := remove1 page (nl ci))) c) =
      {p \<in> set ps. class_index (headers ?s p) = c \<and> on_nonfull (headers ?s p)}" if "c < 36" for c
    using that mem page ci dn by (auto simp: set_remove1_eq)
  moreover have "dll (all_next \<circ> headers ?s) (all_prev \<circ> headers ?s) (allpages ?s) 0 ps"
    using l by (simp add: lists_ok_def comp_def)
  ultimately show ?thesis using l unfolding lists_ok_def by (simp add: nonfull_pages_remove)
qed

lemma lists_ok_all_insert:
  assumes l: "lists_ok s ps nl" and page: "page \<notin> set ps" "page \<noteq> 0" "\<not> on_nonfull (headers s page)"
  shows "lists_ok (page_all_insert s page) (page # ps) nl"
proof -
  let ?s = "page_all_insert s page"
  have dl: "dll (all_next \<circ> headers s) (all_prev \<circ> headers s) (allpages s) 0 ps" and di: "distinct ps"
    using l by (auto simp: lists_ok_def)
  have h: "allpages s \<noteq> page" using dll_head [OF dl] page by (cases ps) auto
  have "dll (all_next \<circ> headers ?s) (all_prev \<circ> headers ?s) page 0 (page # ps)"
    using page h by (intro dll_insert [OF dl di]) (auto simp: all_links_insert [OF h])
  moreover have "{p \<in> set (page # ps). class_index (headers ?s p) = c \<and> on_nonfull (headers ?s p)} =
     {p \<in> set ps. class_index (headers s p) = c \<and> on_nonfull (headers s p)}" for c
    using page by auto
  ultimately show ?thesis
    using l page all_links_insert(3) [OF h] unfolding lists_ok_def by (simp add: comp_def)
qed

lemma lists_ok_all_remove:
  assumes l: "lists_ok s ps nl" and page: "page \<in> set ps" "\<not> on_nonfull (headers s page)"
  shows "lists_ok (page_all_remove s page) (remove1 page ps) nl"
proof -
  let ?s = "page_all_remove s page"
  have dl: "dll (all_next \<circ> headers s) (all_prev \<circ> headers s) (allpages s) 0 ps" and di: "distinct ps"
    using l by (auto simp: lists_ok_def)
  have nz: "\<And>p. p \<in> set ps \<Longrightarrow> p \<noteq> 0" using dll_nonzero [OF dl] by blast
  have "dll (all_next \<circ> headers ?s) (all_prev \<circ> headers ?s) (allpages ?s) 0 (remove1 page ps)"
    by (rule dll_remove [OF dl di page(1)]) (simp_all add: allpages_remove all_links_remove nz)
  moreover have "{p \<in> set (remove1 page ps). class_index (headers ?s p) = c \<and> on_nonfull (headers ?s p)} =
     {p \<in> set ps. class_index (headers s p) = c \<and> on_nonfull (headers s p)}" for c
    using page di by (auto simp: set_remove1_eq)
  ultimately show ?thesis
    using l di unfolding lists_ok_def by (simp add: comp_def distinct_remove1)
qed

text \<open>Writes to the other fields of a header do not concern the lists.\<close>

definition same_links :: "ljpage \<Rightarrow> ljpage \<Rightarrow> bool" where
  "same_links h h' \<longleftrightarrow> nonfull_prev h' = nonfull_prev h \<and> nonfull_next h' = nonfull_next h \<and>
     all_prev h' = all_prev h \<and> all_next h' = all_next h \<and> class_index h' = class_index h \<and>
     on_nonfull h' = on_nonfull h"

lemma lists_ok_cong:
  assumes "lists_ok s ps nl" and "nonfull_pages s' = nonfull_pages s" and "allpages s' = allpages s"
    and "\<And>p. p \<in> set ps \<Longrightarrow> same_links (headers s p) (headers s' p)"
  shows "lists_ok s' ps nl"
proof -
  have "dll (all_next \<circ> headers s') (all_prev \<circ> headers s') (allpages s) 0 ps
      = dll (all_next \<circ> headers s) (all_prev \<circ> headers s) (allpages s) 0 ps"
    using assms(4) by (intro dll_cong) (simp add: same_links_def)
  moreover have "dll (nonfull_next \<circ> headers s') (nonfull_prev \<circ> headers s') (nonfull_pages s ! c) 0 (nl c)
      = dll (nonfull_next \<circ> headers s) (nonfull_prev \<circ> headers s) (nonfull_pages s ! c) 0 (nl c)"
    if "c < 36" for c
    using assms(1,4) that by (intro dll_cong) (simp add: same_links_def lists_ok_def)
  moreover have "{p \<in> set ps. class_index (headers s' p) = c \<and> on_nonfull (headers s' p)} =
     {p \<in> set ps. class_index (headers s p) = c \<and> on_nonfull (headers s p)}" for c
    using assms(4) by (auto simp: same_links_def)
  ultimately show ?thesis using assms(1-3) unfolding lists_ok_def by simp
qed

end
