(* ===== verification/PageContract.thy ===== *)
theory PageContract
  imports PageAlloc
begin

text \<open>
  The page allocator meets the \<^verbatim>\<open>lua_Alloc\<close> contract on top of any backing allocator that
  does: geometry of the blocks of a page, the effect of each internal step on the invariant of
  theory \<open>PageAlloc\<close>, and the contract's laws for \<open>lj_page_alloc_f\<close>.
\<close>

section \<open>Geometry of a page\<close>

lemma shape_numbers:
  assumes "page_shape own h"
  shows "8 \<le> payload_size h" "payload_size h \<le> 1024" "stride h = 8 + payload_size h"
    "8 dvd stride h" "block_count h * stride h + 80 \<le> page_size h" "0 < block_count h"
    "page_size h = (if payload_size h > 512 then 32768 else 16384)"
proof -
  from assms have c: "class_index h < 36" and p: "payload_size h = page_class_size ! class_index h"
    and ps: "page_size h = (if payload_size h > 512 then 32768 else 16384)"
    and st: "stride h = 8 + payload_size h"
    and bc: "block_count h = (page_size h - 80) div stride h"
    by (auto simp: page_shape_def)
  from page_class_size_ok [OF c] p have a: "8 dvd payload_size h" "8 \<le> payload_size h" "payload_size h \<le> 1024"
    by simp_all
  show "8 \<le> payload_size h" "payload_size h \<le> 1024" "stride h = 8 + payload_size h" by fact+
  show "page_size h = (if payload_size h > 512 then 32768 else 16384)" by fact
  show "8 dvd stride h" using a st by simp
  have "block_count h * stride h \<le> page_size h - 80" unfolding bc by simp
  then show "block_count h * stride h + 80 \<le> page_size h" using ps by (simp split: if_splits)
  have "stride h \<le> page_size h - 80" using ps st a by (simp split: if_splits)
  then show "0 < block_count h" unfolding bc using st by (simp add: div_greater_zero_iff)
qed

lemma shape_fields:
  assumes "page_shape own h"
  shows "on_nonfull h = (busy_count h < block_count h)" "class_index h < 36"
    "bump_index h \<le> block_count h" "payload_size h = page_class_size ! class_index h"
  using assms unfolding page_shape_def by blast+

lemma blk_range:
  assumes "page_shape own h" and "i < block_count h"
  shows "page + 88 \<le> blk h page i" and "blk h page i + payload_size h \<le> page + page_size h"
proof -
  note n = shape_numbers [OF assms(1)]
  have "Suc i * stride h \<le> block_count h * stride h" using assms(2) by (intro mult_le_mono) auto
  then show "page + 88 \<le> blk h page i" "blk h page i + payload_size h \<le> page + page_size h"
    using n(3,5) by (simp_all add: blk_def page_data_def)
qed

lemma blk_sep: "i < j \<Longrightarrow> blk h page i + stride h \<le> blk h page j"
proof -
  assume "i < j"
  then have "Suc i * stride h \<le> j * stride h" by (intro mult_le_mono) auto
  then show ?thesis by (simp add: blk_def)
qed

lemma blk_inj: "page_shape own h \<Longrightarrow> blk h page i = blk h page j \<Longrightarrow> i = j"
  using blk_sep [of i j h page] blk_sep [of j i h page] shape_numbers(3)
  by (cases "i < j"; cases "j < i") auto

lemma blk_align: "page_shape own h \<Longrightarrow> 8 dvd page \<Longrightarrow> 8 dvd blk h page i"
  using shape_numbers(4) by (simp add: blk_def page_data_def)

lemma bumped_range:
  assumes "page_shape own h" and "p \<in> bumped h page"
  shows "page + 88 \<le> p" and "p + payload_size h \<le> page + page_size h"
proof -
  have "bump_index h \<le> block_count h" using assms(1) by (rule shape_fields(3))
  with assms(2) obtain i where "p = blk h page i" "i < block_count h" by (auto simp: bumped_def)
  with blk_range [OF assms(1), of i page]
  show "page + 88 \<le> p" "p + payload_size h \<le> page + page_size h" by simp_all
qed

lemma bumped_sep:
  assumes "page_shape own h" and "p \<in> bumped h page" and "q \<in> bumped h page" and "p \<noteq> q"
  shows "p + payload_size h + 8 \<le> q \<or> q + payload_size h + 8 \<le> p"
proof -
  obtain i j where ij: "p = blk h page i" "q = blk h page j" using assms by (auto simp: bumped_def)
  with assms(4) have "i < j \<or> j < i" by (metis nat_neq_iff)
  with blk_sep [of i j h page] blk_sep [of j i h page] shape_numbers(3) [OF assms(1)] ij
  show ?thesis by linarith
qed

lemma bumped_card: "page_shape own h \<Longrightarrow> card (bumped h page) = bump_index h"
  unfolding bumped_def by (subst card_image) (auto intro!: inj_onI dest: blk_inj)

lemma in_use_card:
  assumes "page_ok own m page h fl"
  shows "card (in_use h page fl) = busy_count h"
proof -
  have sh: "page_shape own h" and fl: "distinct fl" "set fl \<subseteq> bumped h page"
    "busy_count h + length fl = bump_index h" using assms by (auto simp: page_ok_def)
  have "card (in_use h page fl) = card (bumped h page) - card (set fl)"
    unfolding in_use_def using fl by (intro card_Diff_subset) auto
  then show ?thesis using bumped_card [OF sh] distinct_card [OF fl(1)] fl(3) by simp
qed

text \<open>Headers that differ in links only describe the same blocks.\<close>

lemma core_blocks:
  assumes "core h = core h'"
  shows "blk h = blk h'" "bumped h = bumped h'" "in_use h = in_use h'"
  using core_fields [OF assms] by (auto simp: fun_eq_iff blk_def bumped_def in_use_def)

lemma page_ok_core:
  assumes "core h = core h'" and "on_nonfull h = on_nonfull h'"
  shows "page_ok own m page h fl = page_ok own m page h' fl"
  using core_fields [OF assms(1)] core_blocks [OF assms(1)] assms(2)
  by (simp add: page_ok_def page_shape_def)

section \<open>The bytes the page allocator relies on\<close>

definition meta_byte :: "ljpage \<Rightarrow> nat \<Rightarrow> nat list \<Rightarrow> nat \<Rightarrow> bool" where
  "meta_byte h page fl a \<longleftrightarrow>
     (\<exists>p\<in>set fl. p \<le> a \<and> a < p + 8) \<or> (\<exists>p\<in>in_use h page fl. p - 8 \<le> a \<and> a < p)"

lemma free_chain_cong:
  "(\<And>x. x \<in> set fl \<Longrightarrow> load_ptr m' x = load_ptr m x) \<Longrightarrow> free_chain m' p fl = free_chain m p fl"
  by (induction fl arbitrary: p) auto

lemma page_ok_mem:
  assumes ok: "page_ok own m page h fl" and m': "\<And>a. meta_byte h page fl a \<Longrightarrow> m' a = m a"
  shows "page_ok own m' page h fl"
proof -
  have "meta_byte h page fl (x + i)" if "x \<in> set fl" "i < 8" for x i
    using that unfolding meta_byte_def by (intro disjI1 bexI [of _ x]) auto
  then have "free_chain m' (free_head h) fl = free_chain m (free_head h) fl"
    by (intro free_chain_cong load_ptr_cong m')
  moreover have "load_ptr m' (p - 8) = load_ptr m (p - 8)" if "p \<in> in_use h page fl" for p
  proof (intro load_ptr_cong m')
    fix i :: nat assume "i < 8"
    moreover have "88 \<le> p" using that ok bumped_range(1) [of own h p page]
      by (auto simp: page_ok_def in_use_def)
    ultimately show "meta_byte h page fl (p - 8 + i)"
      using that unfolding meta_byte_def by (intro disjI2 bexI [of _ p]) auto
  qed
  ultimately show ?thesis using ok by (simp add: page_ok_def)
qed

lemma meta_byte_range:
  assumes ok: "page_ok own m page h fl" and a: "meta_byte h page fl a"
  shows "page \<le> a \<and> a < page + page_size h"
proof -
  have sh: "page_shape own h" using ok by (simp add: page_ok_def)
  note n = shape_numbers [OF sh]
  from a obtain p where p: "p \<in> bumped h page" "p - 8 \<le> a" "a < p + 8"
    using ok unfolding meta_byte_def page_ok_def in_use_def by fastforce
  from bumped_range [OF sh p(1)] p n(1) show ?thesis by linarith
qed

section \<open>Taking a block and giving it back, on one page\<close>

text \<open>The header after \<open>page_take\<close>, the block it hands out and the free list that remains.\<close>

definition taken :: "mem \<Rightarrow> nat \<Rightarrow> ljpage \<Rightarrow> ljpage \<times> nat" where
  "taken m page h =
     (if bump_index h < block_count h
      then (h\<lparr>bump_index := bump_index h + 1, busy_count := busy_count h + 1\<rparr>, blk h page (bump_index h))
      else (h\<lparr>free_head := load_ptr m (free_head h), busy_count := busy_count h + 1\<rparr>, free_head h))"

definition rest_free :: "ljpage \<Rightarrow> nat list \<Rightarrow> nat list" where
  "rest_free h fl = (if bump_index h < block_count h then fl else tl fl)"

definition flagged :: "ljpage \<Rightarrow> ljpage" where
  "flagged h = h\<lparr>on_nonfull := busy_count h < block_count h\<rparr>"

lemma page_take_eq:
  "page_take s m page =
     (let (h', ptr) = taken m page (headers s page);
          s1 = upd_page page (\<lambda>_. h') s
      in (if busy_count h' = block_count h' then page_nonfull_remove s1 page else s1,
          store_ptr m (ptr - 8) page, ptr))"
  by (auto simp: page_take_def taken_def upd_page_def blk_def Let_def)

lemma flagged_simps [simp]:
  "core (flagged h) = core h" "blk (flagged h) = blk h" "bumped (flagged h) = bumped h"
  "in_use (flagged h) = in_use h" "on_nonfull (flagged h) = (busy_count h < block_count h)"
  "free_head (flagged h) = free_head h" "bump_index (flagged h) = bump_index h"
  "busy_count (flagged h) = busy_count h"
  by (auto simp: flagged_def core_def fun_eq_iff blk_def bumped_def in_use_def)

lemma shape_flagged:
  "page_shape own h \<Longrightarrow> page_shape own (flagged (h\<lparr>bump_index := i, free_head := a, busy_count := c\<rparr>))
     = (i \<le> block_count h)"
  by (simp add: page_shape_def flagged_def)

text \<open>Writing the prefix of one block disturbs neither the free list nor the other prefixes.\<close>

lemma prefix_write:
  assumes sh: "page_shape own h" and ptr: "ptr \<in> bumped h page" and x: "x \<in> bumped h page" "x \<noteq> ptr"
  shows "load_ptr (store_ptr m (ptr - 8) v) x = load_ptr m x"
    and "load_ptr (store_ptr m (ptr - 8) v) (x - 8) = load_ptr m (x - 8)"
  using bumped_sep [OF sh ptr x(1)] x bumped_range(1) [OF sh ptr] bumped_range(1) [OF sh x(1)] shape_numbers(1) [OF sh]
  by (intro load_store_other; fastforce)+

text \<open>Writing the link of one block disturbs no other link and no prefix.\<close>

lemma link_write:
  assumes sh: "page_shape own h" and ptr: "ptr \<in> bumped h page" and x: "x \<in> bumped h page" "x \<noteq> ptr"
  shows "load_ptr (store_ptr m ptr v) x = load_ptr m x"
    and "load_ptr (store_ptr m ptr v) (x - 8) = load_ptr m (x - 8)"
  using bumped_sep [OF sh ptr x(1)] x bumped_range(1) [OF sh ptr] bumped_range(1) [OF sh x(1)] shape_numbers(1) [OF sh]
  by (intro load_store_other; fastforce)+

lemma bumped_Suc:
  assumes "page_shape own h"
  shows "bumped (h\<lparr>bump_index := bump_index h + 1, busy_count := b\<rparr>) page
     = insert (blk h page (bump_index h)) (bumped h page)"
    and "blk h page (bump_index h) \<notin> bumped h page"
proof -
  have "blk (h\<lparr>bump_index := bump_index h + 1, busy_count := b\<rparr>) = blk h" by (simp add: fun_eq_iff blk_def)
  then show "bumped (h\<lparr>bump_index := bump_index h + 1, busy_count := b\<rparr>) page
     = insert (blk h page (bump_index h)) (bumped h page)"
    by (auto simp: bumped_def lessThan_Suc)
  show "blk h page (bump_index h) \<notin> bumped h page"
    using blk_inj [OF assms] by (fastforce simp: bumped_def)
qed

lemma take_page_ok:
  assumes ok: "page_ok own m page h fl" and on: "on_nonfull h" and lim: "page < 2 ^ 47"
    and t: "taken m page h = (h', ptr)"
  shows "page_ok own (store_ptr m (ptr - 8) page) page (flagged h') (rest_free h fl)"
    and "ptr \<notin> in_use h page fl"
    and "in_use h' page (rest_free h fl) = insert ptr (in_use h page fl)"
    and "ptr \<in> bumped h' page" and "page_shape own (flagged h')"
    and "busy_count h' = busy_count h + 1" and "block_count h' = block_count h" and "same_links h h'"
proof -
  have sh: "page_shape own h" and ch: "free_chain m (free_head h) fl" and fl: "distinct fl" "set fl \<subseteq> bumped h page"
    and cnt: "busy_count h + length fl = bump_index h"
    and pre: "\<And>x. x \<in> in_use h page fl \<Longrightarrow> load_ptr m (x - 8) = page"
    and busy: "busy_count h < block_count h"
    using ok on by (auto simp: page_ok_def page_shape_def)
  let ?f = "rest_free h fl" and ?m = "store_ptr m (ptr - 8) page"
  show bc: "busy_count h' = busy_count h + 1" "block_count h' = block_count h" "same_links h h'"
    using t by (auto simp: taken_def same_links_def split: if_splits)
  have bi: "bump_index h \<le> block_count h" using sh unfolding page_shape_def by blast
  have main: "ptr \<notin> in_use h page fl \<and> in_use h' page ?f = insert ptr (in_use h page fl) \<and> ptr \<in> bumped h' page
    \<and> page_shape own (flagged h') \<and> free_chain ?m (free_head h') ?f \<and> distinct ?f \<and> set ?f \<subseteq> bumped h' page
    \<and> ptr \<notin> set ?f \<and> busy_count h' + length ?f = bump_index h'"
  proof (cases "bump_index h < block_count h")
    case True
    then have h': "h' = h\<lparr>bump_index := bump_index h + 1, busy_count := busy_count h + 1\<rparr>"
      and ptr: "ptr = blk h page (bump_index h)" and f: "?f = fl"
      using t by (auto simp: taken_def rest_free_def)
    note b = bumped_Suc(1) [OF sh, of "busy_count h + 1" page, folded h' ptr]
      bumped_Suc(2) [OF sh, of page, folded ptr]
    have sh': "page_shape own (flagged h')"
      using shape_flagged [OF sh, where i = "bump_index h + 1" and a = "free_head h" and c = "busy_count h + 1"] True h' by simp
    have "free_chain ?m (free_head h) fl"
    proof -
      have "load_ptr ?m x = load_ptr m x" if "x \<in> set fl" for x
        by (rule prefix_write(1) [OF sh', of _ page]) (use b fl that in auto)
      with ch show ?thesis using free_chain_cong by blast
    qed
    then show ?thesis using b fl sh' cnt h' f by (auto simp: in_use_def)
  next
    case False
    with cnt bi busy have "fl \<noteq> []" by auto
    then obtain x f where fx: "fl = x # f" by (cases fl) auto
    with ch have x: "x = free_head h" "free_chain m (load_ptr m x) f" by auto
    have h': "h' = h\<lparr>free_head := load_ptr m x, busy_count := busy_count h + 1\<rparr>" and ptr: "ptr = x"
      and f: "?f = f" using t False x fx by (auto simp: taken_def rest_free_def)
    have b: "bumped h' page = bumped h page" using h' by (simp add: bumped_def blk_def)
    have sh': "page_shape own (flagged h')"
      using shape_flagged [OF sh, where i = "bump_index h" and a = "load_ptr m x" and c = "busy_count h + 1"] bi h' by simp
    have xb: "x \<in> bumped h page" using fl fx by simp
    have "free_chain ?m (load_ptr m x) f"
    proof -
      have "load_ptr ?m y = load_ptr m y" if "y \<in> set f" for y
        by (rule prefix_write(1) [OF sh]) (use that fl fx ptr xb in auto)
      with x(2) show ?thesis using free_chain_cong by blast
    qed
    then show ?thesis using b fl sh' cnt h' f fx ptr xb by (auto simp: in_use_def)
  qed
  then show "ptr \<notin> in_use h page fl" "in_use h' page ?f = insert ptr (in_use h page fl)"
    "ptr \<in> bumped h' page" "page_shape own (flagged h')" by simp_all
  have b': "bumped h page \<subseteq> bumped h' page"
    using t bumped_Suc(1) [OF sh, of "busy_count h + 1" page]
    by (auto simp: taken_def bumped_def blk_def split: if_splits)
  have "load_ptr ?m (x - 8) = page" if "x \<in> in_use h' page ?f" for x
  proof (cases "x = ptr")
    case True
    with lim show ?thesis by (simp add: load_store_ptr)
  next
    case False
    with that main have xi: "x \<in> in_use h page fl" by simp
    have "load_ptr ?m (x - 8) = load_ptr m (x - 8)"
      by (rule prefix_write(2) [of own "flagged h'" _ page]) (use main b' False xi in \<open>auto simp: in_use_def\<close>)
    with pre [OF xi] show ?thesis by simp
  qed
  with main show "page_ok own ?m page (flagged h') ?f" unfolding page_ok_def by simp
qed

lemma page_put_eq:
  "page_put s m page ptr =
     (upd_page page (\<lambda>p. p\<lparr>free_head := ptr, busy_count := busy_count p - 1\<rparr>)
        (if busy_count (headers s page) = block_count (headers s page) then page_nonfull_insert s page else s),
      store_ptr m ptr (free_head (headers s page)))"
  using core_fields(2) [of "headers (page_nonfull_insert s page) page" "headers s page"] relinked_ops(1) [of s page]
  by (auto simp: page_put_def upd_page_def relinked_def Let_def)

lemma put_page_ok:
  assumes ok: "page_ok own m page h fl" and ptr: "ptr \<in> in_use h page fl" and lim: "page + page_size h \<le> 2 ^ 47"
    and h': "h' = h\<lparr>free_head := ptr, busy_count := busy_count h - 1\<rparr>"
  shows "page_ok own (store_ptr m ptr (free_head h)) page (flagged h') (ptr # fl)"
    and "in_use h' page (ptr # fl) = in_use h page fl - {ptr}" and "0 < busy_count h"
proof -
  have sh: "page_shape own h" and ch: "free_chain m (free_head h) fl" and fl: "distinct fl" "set fl \<subseteq> bumped h page"
    and cnt: "busy_count h + length fl = bump_index h"
    and pre: "\<And>x. x \<in> in_use h page fl \<Longrightarrow> load_ptr m (x - 8) = page"
    using ok by (auto simp: page_ok_def)
  let ?m = "store_ptr m ptr (free_head h)"
  have pb: "ptr \<in> bumped h page" "ptr \<notin> set fl" using ptr by (auto simp: in_use_def)
  have "finite (in_use h page fl)" by (simp add: in_use_def bumped_def)
  with in_use_card [OF ok] ptr show busy: "0 < busy_count h" by (metis card_gt_0_iff empty_iff)
  have b: "bumped h' page = bumped h page" using h' by (simp add: bumped_def blk_def)
  then show iu: "in_use h' page (ptr # fl) = in_use h page fl - {ptr}" by (auto simp: in_use_def)
  have bi: "bump_index h \<le> block_count h" using sh unfolding page_shape_def by blast
  have sh': "page_shape own (flagged h')"
    using shape_flagged [OF sh, where i = "bump_index h" and a = ptr and c = "busy_count h - 1"] bi h' by simp
  have "free_head h < 2 ^ 64"
  proof (cases fl)
    case Nil
    with ch show ?thesis by simp
  next
    case (Cons x xs)
    with ch fl have "free_head h \<in> bumped h page" by auto
    from bumped_range(2) [OF sh this] lim have "free_head h \<le> 2 ^ 47" by linarith
    then show ?thesis by simp
  qed
  then have "load_ptr ?m ptr = free_head h" by (rule load_store_ptr)
  moreover have "free_chain ?m (free_head h) fl"
  proof -
    have "load_ptr ?m x = load_ptr m x" if "x \<in> set fl" for x
      by (rule link_write(1) [OF sh pb(1)]) (use that fl pb in auto)
    with ch show ?thesis using free_chain_cong by blast
  qed
  moreover have "ptr \<noteq> 0" using bumped_range(1) [OF sh pb(1)] by simp
  ultimately have "free_chain ?m (free_head h') (ptr # fl)" using h' by simp
  moreover have "load_ptr ?m (x - 8) = page" if "x \<in> in_use h' page (ptr # fl)" for x
  proof -
    have xi: "x \<in> in_use h page fl" "x \<noteq> ptr" using that iu by auto
    have "load_ptr ?m (x - 8) = load_ptr m (x - 8)"
      by (rule link_write(2) [OF sh pb(1)]) (use xi in \<open>auto simp: in_use_def\<close>)
    with pre [OF xi(1)] show ?thesis by simp
  qed
  ultimately show "page_ok own ?m page (flagged h') (ptr # fl)"
    using sh' fl pb b cnt busy h' unfolding page_ok_def by simp
qed

section \<open>The invariant of the front end\<close>

definition page_state ::
    "('b \<Rightarrow> mem \<Rightarrow> regions \<Rightarrow> bool) \<Rightarrow> 'b pas \<Rightarrow> mem \<Rightarrow> regions \<Rightarrow> nat list \<Rightarrow> (nat \<Rightarrow> nat list)
      \<Rightarrow> (nat \<Rightarrow> nat list) \<Rightarrow> regions \<Rightarrow> bool" where
  "page_state binv s m Rb ps nl fl R \<longleftrightarrow>
     binv (backing s) m Rb \<and> lists_ok s ps nl \<and> pages_ok s m ps fl \<and> owns s ps fl Rb R"

text \<open>Between calls no page without a block in use is kept.\<close>

definition page_inv :: "('b \<Rightarrow> mem \<Rightarrow> regions \<Rightarrow> bool) \<Rightarrow> 'b pas \<Rightarrow> mem \<Rightarrow> regions \<Rightarrow> bool" where
  "page_inv binv s m R \<longleftrightarrow>
     (\<exists>Rb ps nl fl. page_state binv s m Rb ps nl fl R \<and> (\<forall>p\<in>set ps. 0 < busy_count (headers s p)))"

lemma pages_ok_mem:
  assumes "pages_ok s m ps fl"
    and "\<And>p a. p \<in> set ps \<Longrightarrow> meta_byte (headers s p) p (fl p) a \<Longrightarrow> m' a = m a"
  shows "pages_ok s m' ps fl"
  using assms page_ok_mem unfolding pages_ok_def by blast

lemma meta_byte_owned:
  assumes "pages_ok s m ps fl" and "owns s ps fl Rb R" and "p \<in> set ps"
    and "meta_byte (headers s p) p (fl p) a"
  shows "owned Rb a"
  using assms meta_byte_range unfolding pages_ok_def owns_def by (metis ownedI)

lemma pages_ok_agree:
  "pages_ok s m ps fl \<Longrightarrow> owns s ps fl Rb R \<Longrightarrow> agree Rb m m' \<Longrightarrow> pages_ok s m' ps fl"
  using pages_ok_mem meta_byte_owned unfolding agree_def by metis

lemma ownsI:
  assumes "Rb (self s) = Some sizeof_LJPageAllocState" and "self s \<notin> set ps"
    and "\<And>p. p \<in> set ps \<Longrightarrow> Rb p = Some (page_size (headers s p))"
    and "\<And>p n. p \<noteq> self s \<Longrightarrow> p \<notin> set ps \<Longrightarrow> Rb p = Some n \<Longrightarrow> R p = Some n \<and> 1024 < n"
    and "\<And>p n. R p = Some n \<Longrightarrow> 0 < n"
    and "\<And>p n. R p = Some n \<Longrightarrow> 1024 < n \<Longrightarrow> Rb p = Some n \<and> p \<noteq> self s \<and> p \<notin> set ps"
    and "\<And>p n. R p = Some n \<Longrightarrow> n \<le> 1024 \<Longrightarrow>
      \<exists>page\<in>set ps. p \<in> in_use (headers s page) page (fl page) \<and> n \<le> payload_size (headers s page)"
    and "\<And>page p. page \<in> set ps \<Longrightarrow> p \<in> in_use (headers s page) page (fl page) \<Longrightarrow> \<exists>n. R p = Some n \<and> n \<le> 1024"
  shows "owns s ps fl Rb R"
proof -
  have "0 < n \<and> (if 1024 < n then Rb p = Some n \<and> p \<noteq> self s \<and> p \<notin> set ps
         else \<exists>page\<in>set ps. p \<in> in_use (headers s page) page (fl page) \<and> n \<le> payload_size (headers s page))"
    if "R p = Some n" for p n
    using assms(5-7) [OF that] by (cases "1024 < n") auto
  with assms(1-4,8) show ?thesis unfolding owns_def by blast
qed

lemma ownsD:
  assumes "owns s ps fl Rb R"
  shows "Rb (self s) = Some sizeof_LJPageAllocState" and "self s \<notin> set ps"
    and "p \<in> set ps \<Longrightarrow> Rb p = Some (page_size (headers s p))"
    and "p \<noteq> self s \<Longrightarrow> p \<notin> set ps \<Longrightarrow> Rb p = Some n \<Longrightarrow> R p = Some n \<and> 1024 < n"
    and "R p = Some n \<Longrightarrow> 0 < n"
    and "R p = Some n \<Longrightarrow> 1024 < n \<Longrightarrow> Rb p = Some n \<and> p \<noteq> self s \<and> p \<notin> set ps"
    and "R p = Some n \<Longrightarrow> n \<le> 1024 \<Longrightarrow>
      \<exists>page\<in>set ps. p \<in> in_use (headers s page) page (fl page) \<and> n \<le> payload_size (headers s page)"
    and "page \<in> set ps \<Longrightarrow> p \<in> in_use (headers s page) page (fl page) \<Longrightarrow> \<exists>n. R p = Some n \<and> n \<le> 1024"
proof -
  note o = assms [unfolded owns_def]
  show "Rb (self s) = Some sizeof_LJPageAllocState" "self s \<notin> set ps" using o by blast+
  show "p \<in> set ps \<Longrightarrow> Rb p = Some (page_size (headers s p))" using o by blast
  show "p \<noteq> self s \<Longrightarrow> p \<notin> set ps \<Longrightarrow> Rb p = Some n \<Longrightarrow> R p = Some n \<and> 1024 < n" using o by blast
  show "page \<in> set ps \<Longrightarrow> p \<in> in_use (headers s page) page (fl page) \<Longrightarrow> \<exists>n. R p = Some n \<and> n \<le> 1024"
    using o by blast
  have c: "0 < n \<and> (if 1024 < n then Rb p = Some n \<and> p \<noteq> self s \<and> p \<notin> set ps
         else \<exists>page\<in>set ps. p \<in> in_use (headers s page) page (fl page) \<and> n \<le> payload_size (headers s page))"
    if "R p = Some n" for p n
    using o that by blast
  show "R p = Some n \<Longrightarrow> 0 < n" using c by blast
  show "R p = Some n \<Longrightarrow> 1024 < n \<Longrightarrow> Rb p = Some n \<and> p \<noteq> self s \<and> p \<notin> set ps"
    using c [of p n] by presburger
  show "R p = Some n \<Longrightarrow> n \<le> 1024 \<Longrightarrow>
      \<exists>page\<in>set ps. p \<in> in_use (headers s page) page (fl page) \<and> n \<le> payload_size (headers s page)"
    using c [of p n] by (meson leD)
qed

text \<open>Ownership depends on the state through the pages' blocks and sizes only.\<close>

lemma owns_cong:
  assumes "self s' = self s" and "\<And>p. p \<in> set ps \<Longrightarrow> page_size (headers s' p) = page_size (headers s p)"
    and "\<And>p. p \<in> set ps \<Longrightarrow> payload_size (headers s' p) = payload_size (headers s p)"
    and "\<And>p. p \<in> set ps \<Longrightarrow> in_use (headers s' p) p (fl' p) = in_use (headers s p) p (fl p)"
    and own: "owns s ps fl Rb R"
  shows "owns s' ps fl' Rb R"
proof (rule ownsI)
  note o = ownsD [OF own]
  show "Rb (self s') = Some sizeof_LJPageAllocState" "self s' \<notin> set ps" using o(1,2) assms(1) by simp_all
  show "p \<in> set ps \<Longrightarrow> Rb p = Some (page_size (headers s' p))" for p using o(3) assms(2) by simp
  show "p \<noteq> self s' \<Longrightarrow> p \<notin> set ps \<Longrightarrow> Rb p = Some n \<Longrightarrow> R p = Some n \<and> 1024 < n" for p n
    using o(4) assms(1) by simp
  show "R p = Some n \<Longrightarrow> 0 < n" for p n by (rule o(5))
  show "R p = Some n \<Longrightarrow> 1024 < n \<Longrightarrow> Rb p = Some n \<and> p \<noteq> self s' \<and> p \<notin> set ps" for p n
    using o(6) assms(1) by simp
  show "R p = Some n \<Longrightarrow> n \<le> 1024 \<Longrightarrow>
      \<exists>page\<in>set ps. p \<in> in_use (headers s' page) page (fl' page) \<and> n \<le> payload_size (headers s' page)" for p n
    using o(7) [of p n] assms(3,4) by metis
  show "page \<in> set ps \<Longrightarrow> p \<in> in_use (headers s' page) page (fl' page) \<Longrightarrow> \<exists>n. R p = Some n \<and> n \<le> 1024" for page p
    using o(8) [of page p] assms(4) by metis
qed

text \<open>Relinking changes neither the pages nor the ownership.\<close>

lemma owns_relinked:
  assumes "relinked s s'" and "owns s ps fl Rb R"
  shows "owns s' ps fl Rb R"
proof -
  have c: "\<And>p. core (headers s' p) = core (headers s p)" and se: "self s' = self s"
    using assms(1) by (auto simp: relinked_def)
  show ?thesis
    by (rule owns_cong [OF se _ _ _ assms(2)]) (use core_fields [OF c] core_blocks(3) [OF c] in simp_all)
qed

lemma pages_ok_relinked:
  assumes "relinked s s'" and "pages_ok s m ps fl"
    and "\<And>p. p \<in> set ps \<Longrightarrow> on_nonfull (headers s' p) = on_nonfull (headers s p)"
  shows "pages_ok s' m ps fl"
  unfolding pages_ok_def
proof
  fix p assume p: "p \<in> set ps"
  have "core (headers s' p) = core (headers s p)" "self s' = self s"
    using assms(1) by (auto simp: relinked_def)
  with page_ok_core [OF this(1) assms(3) [OF p]] assms(2) p
  show "page_ok (self s') m p (headers s' p) (fl p)" by (simp add: pages_ok_def)
qed

locale page_backing = bk: lua_alloc bf binv
  for bf :: "'b alloc_fn" and binv :: "'b \<Rightarrow> mem \<Rightarrow> regions \<Rightarrow> bool"
begin

text \<open>A failed or successful call of the backing allocator that leaves \<open>Rb\<close> alone.\<close>

lemma state_backing:
  assumes "page_state binv s m Rb ps nl fl R" and "binv b m' Rb" and "agree Rb m m'"
  shows "page_state binv (s\<lparr>backing := b\<rparr>) m' Rb ps nl fl R"
proof -
  have "pages_ok s m' ps fl" using assms pages_ok_agree unfolding page_state_def by blast
  with assms show ?thesis
    using owns_cong [of "s\<lparr>backing := b\<rparr>" s ps fl fl Rb R] lists_ok_cong [of s ps nl "s\<lparr>backing := b\<rparr>"]
    unfolding page_state_def pages_ok_def by (simp add: same_links_def)
qed

end

text \<open>\<open>page_new\<close> in two steps: the backing allocation, then the header and its linking.\<close>

definition new_size :: "nat \<Rightarrow> nat" where
  "new_size ci = (if page_class_size ! ci > 512 then 32768 else 16384)"

definition new_header :: "nat \<Rightarrow> nat \<Rightarrow> ljpage" where
  "new_header own ci = zero_page\<lparr>owner := own, magic := LJ_PAGE_MAGIC, page_size := new_size ci,
     stride := 8 + page_class_size ! ci,
     block_count := (new_size ci - 80) div (8 + page_class_size ! ci),
     payload_size := page_class_size ! ci, class_index := ci\<rparr>"

lemma page_new_eq:
  "page_new bf s m ci =
     (case bf (backing s) m 0 0 (new_size ci) of (b, m, page) \<Rightarrow>
        if page = 0 then (s\<lparr>backing := b\<rparr>, m, 0)
        else (page_nonfull_insert (page_all_insert
                (upd_page page (\<lambda>_. new_header (self s) ci) (s\<lparr>backing := b\<rparr>)) page) page, m, page))"
  by (simp add: page_new_def new_size_def new_header_def Let_def split: prod.splits)

lemma new_header_ok:
  assumes "ci < 36"
  shows "page_ok own m p ((new_header own ci)\<lparr>on_nonfull := True\<rparr>) []"
    and "in_use (new_header own ci) p [] = {}"
proof -
  have bc: "0 < (new_size ci - 80) div (8 + page_class_size ! ci)"
    using page_class_size_ok [OF assms] by (simp add: div_greater_zero_iff new_size_def)
  then show "page_ok own m p ((new_header own ci)\<lparr>on_nonfull := True\<rparr>) []"
    using assms by (simp add: page_ok_def page_shape_def in_use_def bumped_def zero_page_def new_header_def new_size_def)
  show "in_use (new_header own ci) p [] = {}"
    by (simp add: new_header_def in_use_def bumped_def zero_page_def)
qed

context page_backing
begin

lemma page_new_ok:
  assumes st: "page_state binv s m Rb ps nl fl R" and ci: "ci < 36"
    and new: "page_new bf s m ci = (s', m', p)"
  shows "agree Rb m m'" and "p = 0 \<Longrightarrow> page_state binv s' m' Rb ps nl fl R \<and> headers s' = headers s"
    and "p \<noteq> 0 \<Longrightarrow> \<exists>n. page_state binv s' m' (Rb(p \<mapsto> n)) (p # ps) (nl(ci := p # nl ci)) (fl(p := [])) R
      \<and> p \<notin> set ps \<and> class_index (headers s' p) = ci \<and> on_nonfull (headers s' p)
      \<and> (\<forall>q\<in>set ps. core (headers s' q) = core (headers s q))"
proof -
  let ?psz = "new_size ci" and ?h = "new_header (self s) ci"
  obtain b m1 q where bf: "bf (backing s) m 0 0 ?psz = (b, m1, q)"
    by (cases "bf (backing s) m 0 0 ?psz") auto
  have binv: "binv (backing s) m Rb" and lok: "lists_ok s ps nl" and pok: "pages_ok s m ps fl"
    and own: "owns s ps fl Rb R" using st by (auto simp: page_state_def)
  have "0 < ?psz" by (simp add: new_size_def)
  note mal = bk.malloc [OF binv this bf]
  have m': "m' = m1" and q: "p = q" using new bf by (auto simp: page_new_eq split: if_splits)
  show ag: "agree Rb m m'" using mal m' by simp
  show "p = 0 \<Longrightarrow> page_state binv s' m' Rb ps nl fl R \<and> headers s' = headers s"
  proof -
    assume p: "p = 0"
    then have "s' = s\<lparr>backing := b\<rparr>" using new bf q by (simp add: page_new_eq)
    moreover have "binv b m' Rb" using mal p q m' by simp
    ultimately show ?thesis using state_backing [OF st _ ag] by simp
  qed
  assume p0: "p \<noteq> 0"
  define s1 where "s1 = upd_page p (\<lambda>_. ?h) (s\<lparr>backing := b\<rparr>)"
  define s2 where "s2 = page_all_insert s1 p"
  have s': "s' = page_nonfull_insert s2 p"
    using new bf p0 q by (simp add: page_new_eq s1_def s2_def)
  from mal p0 q m' have none: "Rb p = None" and binv': "binv b m' (Rb(p \<mapsto> ?psz))" by simp_all
  have pn: "p \<notin> set ps" "p \<noteq> self s" using ownsD(1,3) [OF own] none by auto
  have h1: "headers s1 p = ?h" "\<And>x. x \<noteq> p \<Longrightarrow> headers s1 x = headers s x" "self s1 = self s" "backing s1 = b"
    "nonfull_pages s1 = nonfull_pages s" "allpages s1 = allpages s"
    by (simp_all add: s1_def upd_page_def)
  have hq: "x \<in> set ps \<Longrightarrow> headers s1 x = headers s x" for x using pn h1(2) [of x] by blast
  have hh: "class_index ?h = ci" "\<not> on_nonfull ?h" "page_size ?h = ?psz"
    by (simp_all add: new_header_def zero_page_def)
  have l1: "lists_ok s1 ps nl"
    by (rule lists_ok_cong [OF lok]) (simp_all add: h1 hq same_links_def)
  have l2: "lists_ok s2 (p # ps) nl"
    unfolding s2_def using pn p0 h1 hh by (intro lists_ok_all_insert [OF l1]) simp_all
  have c2: "class_index (headers s2 p) = ci" using h1 hh by (simp add: s2_def)
  have l3: "lists_ok s' (p # ps) (nl(ci := p # nl ci))"
    unfolding s' using l2 c2 ci h1 hh by (intro lists_ok_nonfull_insert) (simp_all add: s2_def)
  have rel: "relinked s1 s'" unfolding s' s2_def by (rule relinked_trans [OF relinked_ops(3) relinked_ops(1)])
  have core: "core (headers s' x) = core (headers s1 x)" for x using rel by (simp add: relinked_def)
  have onp: "on_nonfull (headers s' x) = (x = p \<or> on_nonfull (headers s1 x))" for x by (simp add: s' s2_def)
  have se: "self s' = self s" "backing s' = b" using rel h1 by (simp_all add: relinked_def)
  have own1: "owns s1 (p # ps) (fl(p := [])) (Rb(p \<mapsto> ?psz)) R"
  proof (rule ownsI)
    fix x n assume "R x = Some n" "1024 < n"
    with ownsD(6) [OF own] none pn h1 show "(Rb(p \<mapsto> ?psz)) x = Some n \<and> x \<noteq> self s1 \<and> x \<notin> set (p # ps)" by force
  next
    fix x n assume "R x = Some n" "n \<le> 1024"
    from ownsD(7) [OF own this] obtain page where
      "page \<in> set ps" "x \<in> in_use (headers s page) page (fl page)" "n \<le> payload_size (headers s page)" by blast
    moreover from this pn have "page \<noteq> p" by auto
    ultimately show "\<exists>page\<in>set (p # ps). x \<in> in_use (headers s1 page) page ((fl(p := [])) page)
        \<and> n \<le> payload_size (headers s1 page)"
      using hq by (intro bexI [of _ page]) auto
  next
    fix page x assume "page \<in> set (p # ps)" "x \<in> in_use (headers s1 page) page ((fl(p := [])) page)"
    then show "\<exists>n. R x = Some n \<and> n \<le> 1024"
      using ownsD(8) [OF own, of page x] h1 new_header_ok(2) [OF ci, of "self s" p] by (cases "page = p") auto
  qed (use ownsD(1-5) [OF own] pn h1 hh hq in \<open>auto split: if_splits\<close>)
  have pok1: "pages_ok s' m' (p # ps) (fl(p := []))"
    unfolding pages_ok_def
  proof
    fix x assume x: "x \<in> set (p # ps)"
    show "page_ok (self s') m' x (headers s' x) ((fl(p := [])) x)"
    proof (cases "x = p")
      case True
      have "core (headers s' p) = core (?h\<lparr>on_nonfull := True\<rparr>)" using core [of p] h1 by (simp add: core_def)
      from page_ok_core [OF this] onp [of p] new_header_ok(1) [OF ci, of "self s" m' p] se True
      show ?thesis by simp
    next
      case False
      with x pages_ok_agree [OF pok own ag] have "page_ok (self s) m' x (headers s x) (fl x)"
        by (simp add: pages_ok_def)
      with False page_ok_core [OF core [of x]] onp [of x] h1(2) [OF False] se show ?thesis by simp
    qed
  qed
  have "page_state binv s' m' (Rb(p \<mapsto> ?psz)) (p # ps) (nl(ci := p # nl ci)) (fl(p := [])) R"
    unfolding page_state_def using binv' l3 pok1 owns_relinked [OF rel own1] se by simp
  moreover have "class_index (headers s' p) = ci" using c2 by (simp add: s')
  moreover have "\<forall>x\<in>set ps. core (headers s' x) = core (headers s x)" using core hq by simp
  ultimately show "\<exists>n. page_state binv s' m' (Rb(p \<mapsto> n)) (p # ps) (nl(ci := p # nl ci)) (fl(p := [])) R
      \<and> p \<notin> set ps \<and> class_index (headers s' p) = ci \<and> on_nonfull (headers s' p)
      \<and> (\<forall>q\<in>set ps. core (headers s' q) = core (headers s q))"
    using pn onp by blast
qed

text \<open>Who owns which byte of a page: the regions of the backing allocator are disjoint.\<close>

lemma page_regions:
  assumes st: "page_state binv s m Rb ps nl fl R" and p: "page \<in> set ps"
  shows "0 < page" "8 dvd page" "page + page_size (headers s page) \<le> 2 ^ 47" "page_shape (self s) (headers s page)"
    and "q \<noteq> page \<Longrightarrow> Rb q = Some k \<Longrightarrow> page + page_size (headers s page) \<le> q \<or> q + k \<le> page"
proof -
  have b: "binv (backing s) m Rb" and o: "owns s ps fl Rb R" and "pages_ok s m ps fl"
    using st by (auto simp: page_state_def)
  then show "page_shape (self s) (headers s page)" using p by (simp add: pages_ok_def page_ok_def)
  note r = ownsD(3) [OF o p]
  from bk.pos [OF b r] show "0 < page" "8 dvd page" "page + page_size (headers s page) \<le> 2 ^ 47" by simp_all
  show "q \<noteq> page \<Longrightarrow> Rb q = Some k \<Longrightarrow> page + page_size (headers s page) \<le> q \<or> q + k \<le> page"
    using bk.sep [OF b r] by metis
qed

lemma in_use_range:
  assumes st: "page_state binv s m Rb ps nl fl R" and p: "page \<in> set ps"
    and x: "x \<in> in_use (headers s page) page (fl page)"
  shows "page + 88 \<le> x" "x + payload_size (headers s page) \<le> page + page_size (headers s page)"
  using bumped_range [OF page_regions(4) [OF st p], of x page] x by (simp_all add: in_use_def)

lemma owned_in_page:
  assumes st: "page_state binv s m Rb ps nl fl R" and p: "page \<in> set ps"
    and a: "page \<le> a" "a < page + page_size (headers s page)" and o: "owned R a"
  shows "\<exists>x\<in>in_use (headers s page) page (fl page). x \<le> a \<and> a < x + payload_size (headers s page)"
proof -
  have own: "owns s ps fl Rb R" using st by (simp add: page_state_def)
  from o obtain x n where x: "R x = Some n" "x \<le> a" "a < x + n" by (auto simp: owned_def)
  have "n \<le> 1024"
  proof (rule ccontr)
    assume "\<not> n \<le> 1024"
    with ownsD(6) [OF own x(1)] p have "Rb x = Some n" "x \<noteq> page" by auto
    with page_regions(5) [OF st p] x a show False by fastforce
  qed
  from ownsD(7) [OF own x(1) this] obtain q where q: "q \<in> set ps"
    "x \<in> in_use (headers s q) q (fl q)" "n \<le> payload_size (headers s q)" by blast
  have "q = page"
  proof (rule ccontr)
    assume "q \<noteq> page"
    from page_regions(5) [OF st p this ownsD(3) [OF own q(1)]] in_use_range [OF st q(1,2)] q x a
    show False by linarith
  qed
  with q x show ?thesis by (intro bexI [of _ x]) auto
qed

text \<open>The block of a page in use is as long as the client's block at its address.\<close>

lemma in_use_size:
  assumes st: "page_state binv s m Rb ps nl fl R" and p: "page \<in> set ps"
    and x: "x \<in> in_use (headers s page) page (fl page)" and k: "R x = Some k"
  shows "k \<le> payload_size (headers s page)" and "k \<le> 1024"
proof -
  have own: "owns s ps fl Rb R" using st by (simp add: page_state_def)
  from ownsD(8) [OF own p x] k show k1: "k \<le> 1024" by simp
  from ownsD(7) [OF own k k1] obtain q where q: "q \<in> set ps" "x \<in> in_use (headers s q) q (fl q)"
    "k \<le> payload_size (headers s q)" by blast
  have "q = page"
    using page_regions(5) [OF st p, of q] ownsD(3) [OF own q(1)] in_use_range [OF st q(1,2)] in_use_range [OF st p x]
      shape_numbers(1) [OF page_regions(4) [OF st q(1)]] shape_numbers(1) [OF page_regions(4) [OF st p]]
    by fastforce
  with q show "k \<le> payload_size (headers s page)" by simp
qed

text \<open>A client's byte is always inside a block of the backing allocator.\<close>

lemma owned_backing:
  assumes o: "owned R a" and st: "page_state binv s m Rb ps nl fl R"
  shows "owned Rb a"
proof -
  have own: "owns s ps fl Rb R" using st by (simp add: page_state_def)
  from o obtain x n where x: "R x = Some n" "x \<le> a" "a < x + n" by (auto simp: owned_def)
  show ?thesis
  proof (cases "1024 < n")
    case True
    with ownsD(6) [OF own x(1)] x show ?thesis by (auto intro: ownedI)
  next
    case False
    then have "n \<le> 1024" by simp
    from ownsD(7) [OF own x(1) this] obtain q where q: "q \<in> set ps"
      "x \<in> in_use (headers s q) q (fl q)" "n \<le> payload_size (headers s q)" by blast
    have "q \<le> a" "a < q + page_size (headers s q)" using in_use_range [OF st q(1,2)] q(3) x by linarith+
    with ownsD(3) [OF own q(1)] show ?thesis by (rule ownedI)
  qed
qed

lemma meta_other_page:
  assumes st: "page_state binv s m Rb ps nl fl R" and p: "page \<in> set ps" "q \<in> set ps" "q \<noteq> page"
    and "meta_byte (headers s q) q (fl q) a"
  shows "\<not> (page \<le> a \<and> a < page + page_size (headers s page))"
proof -
  have own: "owns s ps fl Rb R" and "page_ok (self s) m q (headers s q) (fl q)"
    using st p by (auto simp: page_state_def pages_ok_def)
  from meta_byte_range [OF this(2) assms(5)] page_regions(5) [OF st p(1,3) ownsD(3) [OF own p(2)]]
  show ?thesis by linarith
qed

lemma backing_write:
  assumes st: "page_state binv s m Rb ps nl fl R" and p: "page \<in> set ps"
    and "\<And>a. \<not> (page \<le> a \<and> a < page + page_size (headers s page)) \<Longrightarrow> m' a = m a"
  shows "binv (backing s) m' Rb"
proof (rule bk.frame)
  show "binv (backing s) m Rb" using st by (simp add: page_state_def)
  fix a assume "\<not> owned Rb a"
  with assms(3) [of a] ownsD(3) [of s ps fl Rb R page] st p show "m' a = m a"
    unfolding page_state_def owned_def by blast
qed

text \<open>One page changes: its header becomes \<open>h\<close> and its free list \<open>f\<close>, and only bytes of the page
  are written.\<close>

lemma state_update_page:
  assumes st: "page_state binv s m Rb ps nl fl R" and p: "page \<in> set ps"
    and m': "\<And>a. \<not> (page \<le> a \<and> a < page + page_size (headers s page)) \<Longrightarrow> m' a = m a"
    and s': "self s' = self s" "backing s' = backing s" "lists_ok s' ps nl'"
      "\<And>q. q \<in> set ps \<Longrightarrow> q \<noteq> page \<Longrightarrow> core (headers s' q) = core (headers s q) \<and> on_nonfull (headers s' q) = on_nonfull (headers s q)"
    and pg: "page_ok (self s) m' page (headers s' page) f" "class_index (headers s' page) = class_index (headers s page)"
    and R: "\<And>x n. x \<notin> in_use (headers s page) page (fl page) \<Longrightarrow> x \<notin> in_use (headers s' page) page f \<Longrightarrow> R' x = R x"
      "\<And>x. x \<in> in_use (headers s' page) page f \<Longrightarrow> \<exists>n. R' x = Some n \<and> 0 < n \<and> n \<le> payload_size (headers s page)"
      "\<And>x. x \<in> in_use (headers s page) page (fl page) \<Longrightarrow> x \<notin> in_use (headers s' page) page f \<Longrightarrow> R' x = None"
  shows "page_state binv s' m' Rb ps nl' (fl(page := f)) R'"
proof -
  have own: "owns s ps fl Rb R" and pok: "pages_ok s m ps fl" using st by (simp_all add: page_state_def)
  note rg = page_regions [OF st p]
  have sh': "page_shape (self s) (headers s' page)" using pg by (simp add: page_ok_def)
  have pay: "payload_size (headers s' page) = payload_size (headers s page)"
    "page_size (headers s' page) = page_size (headers s page)"
    using rg(4) sh' pg(2) by (auto simp: page_shape_def)
  note n = shape_numbers [OF sh']
  have iu': "page + 88 \<le> x \<and> x + payload_size (headers s page) \<le> page + page_size (headers s page)"
    if "x \<in> in_use (headers s' page) page f" for x
    using bumped_range [OF sh', of x page] that pay by (simp add: in_use_def)
  have outside: "x \<notin> in_use (headers s' page) page f \<and> x \<notin> in_use (headers s page) page (fl page)"
    if "\<not> (page \<le> x \<and> x < page + page_size (headers s page))" for x
    using that iu' [of x] in_use_range [OF st p, of x] n(1) pay by fastforce
  have pok': "pages_ok s' m' ps (fl(page := f))"
    unfolding pages_ok_def
  proof
    fix q assume q: "q \<in> set ps"
    show "page_ok (self s') m' q (headers s' q) ((fl(page := f)) q)"
    proof (cases "q = page")
      case True
      with pg s' show ?thesis by simp
    next
      case False
      have "page_ok (self s) m' q (headers s q) (fl q)"
      proof (rule page_ok_mem)
        show "page_ok (self s) m q (headers s q) (fl q)" using pok q by (simp add: pages_ok_def)
        show "meta_byte (headers s q) q (fl q) a \<Longrightarrow> m' a = m a" for a
          using meta_other_page [OF st p q False] m' by blast
      qed
      with page_ok_core s'(1,4) q False show ?thesis by (metis fun_upd_other)
    qed
  qed
  have cq: "page_size (headers s' q) = page_size (headers s q)" "payload_size (headers s' q) = payload_size (headers s q)"
    "q \<noteq> page \<Longrightarrow> in_use (headers s' q) = in_use (headers s q)" if "q \<in> set ps" for q
  proof -
    show "q \<noteq> page \<Longrightarrow> in_use (headers s' q) = in_use (headers s q)" using core_blocks(3) s'(4) that by blast
    show "page_size (headers s' q) = page_size (headers s q)"
      using core_fields(4) s'(4) that pay by (cases "q = page") blast+
    show "payload_size (headers s' q) = payload_size (headers s q)"
      using core_fields(9) s'(4) that pay by (cases "q = page") blast+
  qed
  have sep: "\<not> (page \<le> x \<and> x < page + page_size (headers s page))"
    if "Rb x = Some k" "x \<noteq> page" for x k
    using rg(5) [OF that(2,1)] bk.pos [of "backing s" m Rb x k] that st unfolding page_state_def by linarith
  have "owns s' ps (fl(page := f)) Rb R'"
  proof (rule ownsI)
    show "Rb (self s') = Some sizeof_LJPageAllocState" "self s' \<notin> set ps" using ownsD(1,2) [OF own] s' by simp_all
    show "q \<in> set ps \<Longrightarrow> Rb q = Some (page_size (headers s' q))" for q using ownsD(3) [OF own] cq by simp
  next
    fix x k assume x: "x \<noteq> self s'" "x \<notin> set ps" "Rb x = Some k"
    then have "x \<noteq> page" using p by auto
    with R(1) outside sep x ownsD(4) [OF own, of x k] s' show "R' x = Some k \<and> 1024 < k" by metis
  next
    fix x k assume x: "R' x = Some k"
    show "0 < k"
      using R ownsD(5) [OF own, of x k] x by (metis option.distinct(1) option.inject)
  next
    fix x k assume x: "R' x = Some k" "1024 < k"
    then have "x \<notin> in_use (headers s' page) page f" using R(2) [of x] n(2) pay by force
    then have "R x = Some k" using R(1,3) x by (metis option.distinct(1))
    with ownsD(6) [OF own _ x(2)] s' show "Rb x = Some k \<and> x \<noteq> self s' \<and> x \<notin> set ps" by simp
  next
    fix x k assume x: "R' x = Some k" "k \<le> 1024"
    show "\<exists>q\<in>set ps. x \<in> in_use (headers s' q) q ((fl(page := f)) q) \<and> k \<le> payload_size (headers s' q)"
    proof (cases "x \<in> in_use (headers s' page) page f")
      case True
      with R(2) [OF True] x pay p show ?thesis by (intro bexI [of _ page]) auto
    next
      case False
      with R(1,3) x have Rx: "R x = Some k" "x \<notin> in_use (headers s page) page (fl page)"
        by (metis option.distinct(1))+
      from ownsD(7) [OF own Rx(1) x(2)] obtain q where q: "q \<in> set ps"
        "x \<in> in_use (headers s q) q (fl q)" "k \<le> payload_size (headers s q)" by blast
      with Rx(2) have "q \<noteq> page" by auto
      with q cq [OF q(1)] show ?thesis by (intro bexI [of _ q]) auto
    qed
  next
    fix q x assume q: "q \<in> set ps" "x \<in> in_use (headers s' q) q ((fl(page := f)) q)"
    show "\<exists>k. R' x = Some k \<and> k \<le> 1024"
    proof (cases "q = page")
      case True
      with q R(2) [of x] n(2) pay show ?thesis by force
    next
      case False
      with q cq [OF q(1)] have iq: "x \<in> in_use (headers s q) q (fl q)" by simp
      have "\<not> (page \<le> x \<and> x < page + page_size (headers s page))"
        using rg(5) [OF False ownsD(3) [OF own q(1)]] in_use_range [OF st q(1) iq] shape_numbers(1) [OF page_regions(4) [OF st q(1)]]
        by linarith
      with R(1) outside ownsD(8) [OF own q(1) iq] show ?thesis by metis
    qed
  qed
  with pok' s' backing_write [OF st p m'] show ?thesis unfolding page_state_def by simp
qed

lemma page_on_list:
  assumes "page_state binv s m Rb ps nl fl R" and "ci < 36" and "page = nonfull_pages s ! ci" and "page \<noteq> 0"
  shows "page \<in> set ps" "class_index (headers s page) = ci" "on_nonfull (headers s page)"
proof -
  have l: "dll (nonfull_next \<circ> headers s) (nonfull_prev \<circ> headers s) (nonfull_pages s ! ci) 0 (nl ci)"
    "set (nl ci) = {p \<in> set ps. class_index (headers s p) = ci \<and> on_nonfull (headers s p)}"
    using assms(1,2) by (auto simp: page_state_def lists_ok_def)
  from dll_head [OF l(1)] assms(3,4) have "page \<in> set (nl ci)" by (auto split: list.splits)
  with l(2) show "page \<in> set ps" "class_index (headers s page) = ci" "on_nonfull (headers s page)" by auto
qed

text \<open>Taking a block from a non-full page.\<close>

lemma page_take_ok:
  assumes st: "page_state binv s m Rb ps nl fl R" and p: "page \<in> set ps" "on_nonfull (headers s page)"
    and n: "0 < n" "n \<le> payload_size (headers s page)" and t: "page_take s m page = (s', m', ptr)"
  shows "\<exists>nl' fl'. page_state binv s' m' Rb ps nl' fl' (R(ptr \<mapsto> n))" "R ptr = None" "ptr \<noteq> 0" "agree R m m'"
    and "0 < busy_count (headers s' page)" "\<And>q. q \<noteq> page \<Longrightarrow> core (headers s' q) = core (headers s q)"
proof -
  let ?h = "headers s page" and ?f = "rest_free (headers s page) (fl page)"
  obtain h' q where tk: "taken m page ?h = (h', q)" by (cases "taken m page ?h") auto
  define s1 where "s1 = upd_page page (\<lambda>_. h') s"
  have r: "q = ptr" "m' = store_ptr m (ptr - 8) page"
    "s' = (if busy_count h' = block_count h' then page_nonfull_remove s1 page else s1)"
    using t tk by (auto simp: page_take_eq s1_def Let_def)
  have own: "owns s ps fl Rb R" and lok: "lists_ok s ps nl"
    and pok: "page_ok (self s) m page ?h (fl page)" using st p by (auto simp: page_state_def pages_ok_def)
  note rg = page_regions [OF st p(1)]
  from rg(3) have lim: "page < 2 ^ 47" using shape_numbers(7) [OF rg(4)] by (simp split: if_splits)
  note ok = take_page_ok [OF pok p(2) lim tk [unfolded r(1)]]
  have h1: "headers s1 page = h'" "\<And>x. x \<noteq> page \<Longrightarrow> headers s1 x = headers s x" "self s1 = self s"
    "backing s1 = backing s" by (simp_all add: s1_def upd_page_def)
  have l1: "lists_ok s1 ps nl"
    by (rule lists_ok_cong [OF lok]) (use ok(8) h1 in \<open>auto simp: s1_def upd_page_def same_links_def\<close>)
  have rel: "relinked s1 s'" using r(3) relinked_ops(2) [of s1 page] by (simp add: relinked_def)
  have se: "self s' = self s" "backing s' = backing s" using rel h1 by (simp_all add: relinked_def)
  have ci: "class_index h' = class_index ?h" "class_index ?h < 36" "on_nonfull h'"
    using ok(8) rg(4) p(2) by (auto simp: same_links_def page_shape_def)
  have bb: "busy_count h' \<le> block_count h'" using ok(6,7) p(2) shape_fields(1) [OF rg(4)] by simp
  obtain nl' where l': "lists_ok s' ps nl'"
    using lists_ok_nonfull_remove [OF l1 p(1)] h1 ci l1 r(3) by (metis (full_types))
  have core: "core (headers s' x) = core (headers s1 x)" for x using rel by (simp add: relinked_def)
  have onp: "on_nonfull (headers s' page) = (busy_count h' < block_count h')"
    using r(3) bb ci h1 by auto
  have cf: "core (headers s' page) = core (flagged h')" "on_nonfull (headers s' page) = on_nonfull (flagged h')"
    using core [of page] h1 onp by simp_all
  have iu: "in_use (headers s' page) page ?f = insert ptr (in_use ?h page (fl page))"
    using core_blocks(3) [OF cf(1)] ok(3) by simp
  have fresh: "R ptr = None"
  proof (rule ccontr)
    assume "R ptr \<noteq> None"
    then obtain k where k: "R ptr = Some k" by blast
    have sh': "page_shape (self s) (flagged h')" by (rule ok(5))
    have same: "payload_size (flagged h') = payload_size ?h" "page_size (flagged h') = page_size ?h"
      using sh' rg(4) ci by (auto simp: page_shape_def flagged_def)
    have pr: "page \<le> ptr" "ptr < page + page_size ?h"
      using bumped_range [OF sh', of ptr page] ok(4) same shape_numbers(1) [OF rg(4)] by simp_all
    have "owned R ptr" using ownedI [of R ptr k ptr] k ownsD(5) [OF own k] by simp
    from owned_in_page [OF st p(1) pr this] obtain x where x: "x \<in> in_use ?h page (fl page)" "x \<le> ptr"
      "ptr < x + payload_size ?h" by blast
    have "x \<noteq> ptr" using x(1) ok(2) by auto
    moreover have "x \<in> bumped (flagged h') page" using x(1) ok(3) by (auto simp: in_use_def)
    ultimately show False using bumped_sep [OF sh' _ _, of x page ptr] ok(4) x same by simp
  qed
  have wr: "m' a = m a" if "\<not> (ptr - 8 \<le> a \<and> a < ptr)" for a
    using that bumped_range(1) [OF ok(5), of ptr page] ok(4) r(2) by (auto simp: store_ptr_def)
  have pin: "page + 88 \<le> ptr" "ptr + payload_size ?h \<le> page + page_size ?h"
  proof -
    have "payload_size (flagged h') = payload_size ?h" "page_size (flagged h') = page_size ?h"
      using ok(5) rg(4) ci by (auto simp: page_shape_def flagged_def)
    with bumped_range [OF ok(5), of ptr page] ok(4)
    show "page + 88 \<le> ptr" "ptr + payload_size ?h \<le> page + page_size ?h" by simp_all
  qed
  have "page_state binv s' m' Rb ps nl' (fl(page := ?f)) (R(ptr \<mapsto> n))"
  proof (rule state_update_page [OF st p(1) _ se l'])
    show "\<not> (page \<le> a \<and> a < page + page_size ?h) \<Longrightarrow> m' a = m a" for a using wr [of a] pin by linarith
    show "q \<in> set ps \<Longrightarrow> q \<noteq> page \<Longrightarrow> core (headers s' q) = core (headers s q)
        \<and> on_nonfull (headers s' q) = on_nonfull (headers s q)" for q
      using core [of q] h1(2) [of q] r(3) by auto
    show "page_ok (self s) m' page (headers s' page) ?f" using ok(1) page_ok_core [OF cf] r(2) by simp
    show "class_index (headers s' page) = class_index ?h" using core_fields(10) [OF core] h1 ci by metis
    show "x \<notin> in_use ?h page (fl page) \<Longrightarrow> x \<notin> in_use (headers s' page) page ?f \<Longrightarrow> (R(ptr \<mapsto> n)) x = R x" for x
      using iu by auto
    show "\<exists>k. (R(ptr \<mapsto> n)) x = Some k \<and> 0 < k \<and> k \<le> payload_size ?h"
      if "x \<in> in_use (headers s' page) page ?f" for x
    proof (cases "x = ptr")
      case True
      with n show ?thesis by simp
    next
      case False
      with that iu have xi: "x \<in> in_use ?h page (fl page)" by auto
      from ownsD(8) [OF own p(1) xi] obtain k where k: "R x = Some k" "k \<le> 1024" by blast
      with in_use_size [OF st p(1) xi k(1)] ownsD(5) [OF own k(1)] False show ?thesis by simp
    qed
  qed (use iu in auto)
  then show "\<exists>nl' fl'. page_state binv s' m' Rb ps nl' fl' (R(ptr \<mapsto> n))" by blast
  show "R ptr = None" by (rule fresh)
  show "ptr \<noteq> 0" using pin by simp
  show "0 < busy_count (headers s' page)" using core_fields(8) [OF cf(1)] ok(6) by simp
  show "q \<noteq> page \<Longrightarrow> core (headers s' q) = core (headers s q)" for q using core [of q] h1(2) by simp
  show "agree R m m'"
    unfolding agree_def
  proof (intro allI impI)
    fix a assume a: "owned R a"
    show "m' a = m a"
    proof (rule wr, rule notI)
      assume aa: "ptr - 8 \<le> a \<and> a < ptr"
      have "page \<le> a" "a < page + page_size ?h" using pin aa by linarith+
      from owned_in_page [OF st p(1) this a] obtain x where
        x: "x \<in> in_use ?h page (fl page)" "x \<le> a" "a < x + payload_size ?h" by blast
      have "x \<noteq> ptr" using x(1) ok(2) by auto
      moreover have "x \<in> bumped (flagged h') page" using x(1) ok(3) by (auto simp: in_use_def)
      moreover have "payload_size (flagged h') = payload_size ?h"
        using ok(5) rg(4) ci by (auto simp: page_shape_def flagged_def)
      ultimately show False using bumped_sep [OF ok(5) _ _, of x page ptr] ok(4) x aa by simp
    qed
  qed
qed

text \<open>Allocation of a small block.\<close>

lemma page_alloc_small_ok:
  assumes inv: "page_inv binv s m R" and n: "0 < n" "n \<le> 1024"
    and a: "page_alloc_small bf s m n = (s', m', ptr)"
  shows "agree R m m'" and "if ptr = 0 then page_inv binv s' m' R else R ptr = None \<and> page_inv binv s' m' (R(ptr \<mapsto> n))"
proof -
  from inv obtain Rb ps nl fl where st: "page_state binv s m Rb ps nl fl R"
    and busy: "\<forall>p\<in>set ps. 0 < busy_count (headers s p)" by (auto simp: page_inv_def)
  let ?ci = "page_size_class n"
  have ci: "?ci < 36" using page_size_class_less n by simp
  have fit: "n \<le> page_class_size ! ?ci" using page_size_class_fits n by simp
  have "agree R m m' \<and> (if ptr = 0 then page_inv binv s' m' R else R ptr = None \<and> page_inv binv s' m' (R(ptr \<mapsto> n)))"
  proof (cases "nonfull_pages s ! ?ci = 0")
    case False
    note p = page_on_list [OF st ci refl False]
    have t: "page_take s m (nonfull_pages s ! ?ci) = (s', m', ptr)"
      using a False by (simp add: page_alloc_small_def Let_def)
    have "n \<le> payload_size (headers s (nonfull_pages s ! ?ci))"
      using shape_fields(4) [OF page_regions(4) [OF st p(1)]] p(2) fit by simp
    note ok = page_take_ok [OF st p(1,3) n(1) this t]
    have "0 < busy_count (headers s' q)" if "q \<in> set ps" for q
      using ok(5) core_fields(8) [OF ok(6), of q] busy that by (cases "q = nonfull_pages s ! ?ci") auto
    with ok show ?thesis by (auto simp: page_inv_def)
  next
    case True
    obtain s1 m1 page where nw: "page_new bf s m ?ci = (s1, m1, page)" by (cases "page_new bf s m ?ci") auto
    note np = page_new_ok [OF st ci nw]
    have own: "owns s ps fl Rb R" using st by (simp add: page_state_def)
    have ag: "agree R m m1"
      unfolding agree_def
    proof (intro allI impI)
      fix x assume "owned R x"
      then have "owned Rb x" using st by (rule owned_backing)
      with np(1) show "m1 x = m x" by (simp add: agree_def)
    qed
    show ?thesis
    proof (cases "page = 0")
      case True
      then have "s' = s1" "m' = m1" "ptr = 0"
        using a nw \<open>nonfull_pages s ! ?ci = 0\<close> by (simp_all add: page_alloc_small_def Let_def)
      with np(2) [OF True] ag busy show ?thesis by (auto simp: page_inv_def)
    next
      case False
      from np(3) [OF this] obtain k where
        st1: "page_state binv s1 m1 (Rb(page \<mapsto> k)) (page # ps) (nl(?ci := page # nl ?ci)) (fl(page := [])) R"
        and pg: "page \<notin> set ps" "class_index (headers s1 page) = ?ci" "on_nonfull (headers s1 page)"
        and core1: "\<forall>q\<in>set ps. core (headers s1 q) = core (headers s q)" by blast
      have t: "page_take s1 m1 page = (s', m', ptr)"
        using a nw \<open>nonfull_pages s ! ?ci = 0\<close> False by (simp add: page_alloc_small_def Let_def)
      have pin: "page \<in> set (page # ps)" by simp
      have "n \<le> payload_size (headers s1 page)"
        using shape_fields(4) [OF page_regions(4) [OF st1 pin]] pg(2) fit by simp
      note ok = page_take_ok [OF st1 pin pg(3) n(1) this t]
      have "0 < busy_count (headers s' q)" if "q \<in> set (page # ps)" for q
      proof (cases "q = page")
        case True
        with ok(5) show ?thesis by simp
      next
        case False
        with that core1 have "core (headers s' q) = core (headers s q)" using ok(6) [OF False] by simp
        with core_fields(8) [OF this] busy that False show ?thesis by simp
      qed
      moreover from ok(1) obtain nl' fl' where "page_state binv s' m' (Rb(page \<mapsto> k)) (page # ps) nl' fl' (R(ptr \<mapsto> n))"
        by blast
      ultimately have "page_inv binv s' m' (R(ptr \<mapsto> n))" unfolding page_inv_def by blast
      with ok(2-4) agree_trans [OF ag] show ?thesis by simp
    qed
  qed
  then show "agree R m m'"
    "if ptr = 0 then page_inv binv s' m' R else R ptr = None \<and> page_inv binv s' m' (R(ptr \<mapsto> n))" by simp_all
qed

text \<open>Giving a block back to its page.\<close>

lemma page_put_ok:
  assumes st: "page_state binv s m Rb ps nl fl R" and p: "page \<in> set ps"
    and x: "ptr \<in> in_use (headers s page) page (fl page)" and t: "page_put s m page ptr = (s', m')"
  shows "\<exists>nl'. page_state binv s' m' Rb ps nl' (fl(page := ptr # fl page)) (R(ptr := None))"
    and "agree (R(ptr := None)) m m'" and "on_nonfull (headers s' page)"
    and "\<And>q. q \<noteq> page \<Longrightarrow> core (headers s' q) = core (headers s q)"
proof -
  let ?h = "headers s page" and ?f = "ptr # fl page"
  define h' where "h' = ?h\<lparr>free_head := ptr, busy_count := busy_count ?h - 1\<rparr>"
  define s1 where "s1 = (if busy_count ?h = block_count ?h then page_nonfull_insert s page else s)"
  have s': "s' = upd_page page (\<lambda>p. p\<lparr>free_head := ptr, busy_count := busy_count p - 1\<rparr>) s1"
    and m': "m' = store_ptr m ptr (free_head ?h)" using t by (simp_all add: page_put_eq s1_def)
  have own: "owns s ps fl Rb R" and lok: "lists_ok s ps nl" and pok: "page_ok (self s) m page ?h (fl page)"
    using st p by (auto simp: page_state_def pages_ok_def)
  note rg = page_regions [OF st p]
  note ok = put_page_ok [OF pok x rg(3) h'_def]
  note sf = shape_fields [OF rg(4)]
  have rel: "relinked s s1" using relinked_ops(1) [of s page] by (simp add: s1_def relinked_def)
  have le: "busy_count ?h \<le> block_count ?h" using pok sf(3) by (simp add: page_ok_def)
  obtain nl' where l1: "lists_ok s1 ps nl'"
    using lists_ok_nonfull_insert [OF lok p _ refl sf(2)] lok sf(1) by (metis less_irrefl s1_def)
  have l': "lists_ok s' ps nl'"
    by (rule lists_ok_cong [OF l1]) (auto simp: s' upd_page_def same_links_def)
  have se: "self s' = self s" "backing s' = backing s" using rel by (auto simp: s' upd_page_def relinked_def)
  have on1: "on_nonfull (headers s1 page)" using sf(1) le by (auto simp: s1_def)
  show onp: "on_nonfull (headers s' page)" using on1 by (simp add: s' upd_page_def)
  have other: "headers s' q = headers s1 q" if "q \<noteq> page" for q using that by (simp add: s' upd_page_def)
  have c1: "core (headers s1 q) = core (headers s q)" for q using rel by (simp add: relinked_def)
  show oc: "q \<noteq> page \<Longrightarrow> core (headers s' q) = core (headers s q)" for q using other c1 by simp
  have "core (headers s' page) = core h'"
  proof -
    have "headers s' page = (headers s1 page)\<lparr>free_head := ptr, busy_count := busy_count (headers s1 page) - 1\<rparr>"
      by (simp add: s' upd_page_def)
    with c1 [of page] core_fields(8) [OF c1 [of page]] show ?thesis
      by (simp add: core_def h'_def) (cases "headers s1 page"; cases ?h; simp)
  qed
  then have cf1: "core (headers s' page) = core (flagged h')" by simp
  have "busy_count h' < block_count h'"
    using le in_use_card [OF pok] x shape_numbers(6) [OF rg(4)] by (simp add: h'_def)
  then have cf2: "on_nonfull (headers s' page) = on_nonfull (flagged h')" using onp by simp
  note cf = cf1 cf2
  have iu: "in_use (headers s' page) page ?f = in_use ?h page (fl page) - {ptr}"
    using core_blocks(3) [OF cf(1)] ok(2) by simp
  have pb: "ptr \<in> bumped ?h page" using x by (simp add: in_use_def)
  note pr = bumped_range [OF rg(4) pb]
  note n8 = shape_numbers(1) [OF rg(4)]
  have wr: "m' a = m a" if "\<not> (ptr \<le> a \<and> a < ptr + 8)" for a
    using that m' by (auto simp: store_ptr_def)
  have "page_state binv s' m' Rb ps nl' (fl(page := ?f)) (R(ptr := None))"
  proof (rule state_update_page [OF st p _ se l'])
    show "\<not> (page \<le> a \<and> a < page + page_size ?h) \<Longrightarrow> m' a = m a" for a using wr [of a] pr n8 by linarith
    show "q \<in> set ps \<Longrightarrow> q \<noteq> page \<Longrightarrow> core (headers s' q) = core (headers s q)
        \<and> on_nonfull (headers s' q) = on_nonfull (headers s q)" for q
      using oc [of q] other [of q] by (auto simp: s1_def)
    show "page_ok (self s) m' page (headers s' page) ?f" using ok(1) page_ok_core [OF cf] m' by simp
    show "class_index (headers s' page) = class_index ?h" using core_fields(10) [OF cf(1)] by (simp add: h'_def flagged_def)
    fix y
    show "y \<notin> in_use ?h page (fl page) \<Longrightarrow> y \<notin> in_use (headers s' page) page ?f \<Longrightarrow> (R(ptr := None)) y = R y"
      using x by auto
    show "y \<in> in_use ?h page (fl page) \<Longrightarrow> y \<notin> in_use (headers s' page) page ?f \<Longrightarrow> (R(ptr := None)) y = None"
      using iu by auto
    assume y: "y \<in> in_use (headers s' page) page ?f"
    then have yi: "y \<in> in_use ?h page (fl page)" "y \<noteq> ptr" using iu by auto
    from ownsD(8) [OF own p yi(1)] obtain k where k: "R y = Some k" "k \<le> 1024" by blast
    from in_use_size [OF st p yi(1) k(1)] ownsD(5) [OF own k(1)] k yi
    show "\<exists>k. (R(ptr := None)) y = Some k \<and> 0 < k \<and> k \<le> payload_size ?h" by simp
  qed
  then show "\<exists>nl'. page_state binv s' m' Rb ps nl' (fl(page := ?f)) (R(ptr := None))" by blast
  then obtain nl2 where st': "page_state binv s' m' Rb ps nl2 (fl(page := ?f)) (R(ptr := None))" by blast
  show "agree (R(ptr := None)) m m'"
    unfolding agree_def
  proof (intro allI impI)
    fix a assume a: "owned (R(ptr := None)) a"
    show "m' a = m a"
    proof (rule wr, rule notI)
      assume aa: "ptr \<le> a \<and> a < ptr + 8"
      have sz: "payload_size (headers s' page) = payload_size ?h" "page_size (headers s' page) = page_size ?h"
        "bumped (headers s' page) = bumped ?h"
        using core_fields(4,9) [OF cf(1)] core_blocks(2) [OF cf(1)]
        by (auto simp: h'_def flagged_def bumped_def blk_def fun_eq_iff)
      have "page \<le> a" "a < page + page_size (headers s' page)" using pr n8 aa sz by linarith+
      from owned_in_page [OF st' p this a] sz obtain y where
        y: "y \<in> in_use (headers s' page) page ?f" "y \<le> a" "a < y + payload_size ?h" by auto
      with iu have "y \<in> bumped ?h page" "y \<noteq> ptr" by (auto simp: in_use_def)
      from bumped_sep [OF rg(4) this(1) pb this(2)] y aa n8 show False by linarith
    qed
  qed
qed

text \<open>An empty page goes back to the backing allocator.\<close>

lemma page_release_ok:
  assumes st: "page_state binv s m Rb ps nl fl R" and p: "page \<in> set ps" "busy_count (headers s page) = 0"
    and t: "page_release bf s m page = (s', m')"
  shows "\<exists>nl'. page_state binv s' m' (Rb(page := None)) (remove1 page ps) nl' fl R"
    and "agree R m m'" and "\<And>q. q \<noteq> page \<Longrightarrow> core (headers s' q) = core (headers s q)"
proof -
  have b: "binv (backing s) m Rb" and own: "owns s ps fl Rb R" and lok: "lists_ok s ps nl"
    and pok: "pages_ok s m ps fl" using st by (auto simp: page_state_def)
  note rg = page_regions [OF st p(1)]
  have on: "on_nonfull (headers s page)" using shape_fields(1) [OF rg(4)] shape_numbers(6) [OF rg(4)] p(2) by simp
  have dp: "distinct ps" using lok by (simp add: lists_ok_def)
  let ?ci = "class_index (headers s page)"
  define s1 where "s1 = page_nonfull_remove s page"
  define s2 where "s2 = page_all_remove s1 page"
  define s3 where "s3 = upd_page page (\<lambda>p. p\<lparr>magic := 0\<rparr>) s2"
  have rel: "relinked s s2" unfolding s2_def s1_def by (rule relinked_trans [OF relinked_ops(2) relinked_ops(4)])
  obtain bb m1 q where f: "bf (backing s) m page (page_size (headers s page)) 0 = (bb, m1, q)"
    by (cases "bf (backing s) m page (page_size (headers s page)) 0") auto
  have bk2: "backing s3 = backing s" using rel by (simp add: s3_def upd_page_def relinked_def)
  have s': "s' = s3\<lparr>backing := bb\<rparr>" and m': "m' = m1"
    using t on f bk2 by (auto simp: page_release_def s1_def s2_def s3_def Let_def split: prod.splits)
  note fr = bk.free [OF b ownsD(3) [OF own p(1)] f]
  let ?nl = "nl(?ci := remove1 page (nl ?ci))"
  have l1: "lists_ok s1 ps ?nl" unfolding s1_def by (rule lists_ok_nonfull_remove [OF lok p(1) on refl shape_fields(2) [OF rg(4)]])
  have l2: "lists_ok s2 (remove1 page ps) ?nl"
    unfolding s2_def using p(1) by (intro lists_ok_all_remove [OF l1]) (simp_all add: s1_def)
  have other: "headers s' x = headers s2 x" if "x \<noteq> page" for x using that by (simp add: s' s3_def upd_page_def)
  have c2: "core (headers s2 x) = core (headers s x)" for x using rel by (simp add: relinked_def)
  show oc: "x \<noteq> page \<Longrightarrow> core (headers s' x) = core (headers s x)" for x using other c2 by simp
  have l': "lists_ok s' (remove1 page ps) ?nl"
    by (rule lists_ok_cong [OF l2]) (auto simp: s' s3_def upd_page_def same_links_def)
  have se: "self s' = self s" using rel by (simp add: s' s3_def upd_page_def relinked_def)
  have on': "on_nonfull (headers s' x) = on_nonfull (headers s x)" if "x \<noteq> page" for x
    using other [OF that] that by (simp add: s2_def s1_def)
  have "page_ok (self s) m page (headers s page) (fl page)" using pok p(1) by (simp add: pages_ok_def)
  from in_use_card [OF this] p(2) have empty: "in_use (headers s page) page (fl page) = {}"
    by (simp add: in_use_def bumped_def)
  have cq: "page_size (headers s' x) = page_size (headers s x)" "payload_size (headers s' x) = payload_size (headers s x)"
    "in_use (headers s' x) = in_use (headers s x)" if "x \<noteq> page" for x
    using core_fields(4,9) [OF oc [OF that]] core_blocks(3) [OF oc [OF that]] by simp_all
  have own': "owns s' (remove1 page ps) fl (Rb(page := None)) R"
  proof (rule ownsI)
    fix x n assume a: "R x = Some n" "n \<le> 1024"
    from ownsD(7) [OF own this] obtain q where q: "q \<in> set ps" "x \<in> in_use (headers s q) q (fl q)"
      "n \<le> payload_size (headers s q)" by blast
    with empty have "q \<noteq> page" by auto
    with q cq dp show "\<exists>q\<in>set (remove1 page ps). x \<in> in_use (headers s' q) q (fl q) \<and> n \<le> payload_size (headers s' q)"
      by (intro bexI [of _ q]) (auto simp: set_remove1_eq)
  next
    fix q x assume "q \<in> set (remove1 page ps)" "x \<in> in_use (headers s' q) q (fl q)"
    with ownsD(8) [OF own, of q x] cq dp show "\<exists>n. R x = Some n \<and> n \<le> 1024" by (auto simp: set_remove1_eq)
  next
    fix x n assume "R x = Some n" "1024 < n"
    from ownsD(6) [OF own this] p(1) se dp
    show "(Rb(page := None)) x = Some n \<and> x \<noteq> self s' \<and> x \<notin> set (remove1 page ps)" by (auto simp: set_remove1_eq)
  next
    fix x n assume "x \<noteq> self s'" "x \<notin> set (remove1 page ps)" "(Rb(page := None)) x = Some n"
    with ownsD(4) [OF own, of x n] se dp show "R x = Some n \<and> 1024 < n" by (auto simp: set_remove1_eq split: if_splits)
  qed (use ownsD(1-3,5) [OF own] se p(1) cq dp in \<open>auto simp: set_remove1_eq\<close>)
  have pok': "pages_ok s' m' (remove1 page ps) fl"
    unfolding pages_ok_def
  proof
    fix x assume "x \<in> set (remove1 page ps)"
    then have x: "x \<in> set ps" "x \<noteq> page" using dp by (auto simp: set_remove1_eq)
    have "page_ok (self s) m' x (headers s x) (fl x)"
    proof (rule page_ok_mem)
      show px: "page_ok (self s) m x (headers s x) (fl x)" using pok x by (simp add: pages_ok_def)
      fix a assume "meta_byte (headers s x) x (fl x) a"
      from meta_byte_range [OF px this] have "owned (Rb(page := None)) a"
        using ownsD(3) [OF own x(1)] x(2) by (intro ownedI [of _ x "page_size (headers s x)"]) auto
      with fr m' show "m' a = m a" by (simp add: agree_def)
    qed
    with page_ok_core [OF oc [OF x(2)] on' [OF x(2)]] se show "page_ok (self s') m' x (headers s' x) (fl x)" by simp
  qed
  have bi: "binv (backing s') m' (Rb(page := None))" using fr m' s' by simp
  have st': "page_state binv s' m' (Rb(page := None)) (remove1 page ps) ?nl fl R"
    unfolding page_state_def using bi l' pok' own' by simp
  then show "\<exists>nl'. page_state binv s' m' (Rb(page := None)) (remove1 page ps) nl' fl R" by blast
  show "agree R m m'"
    using owned_backing [OF _ st'] fr m' unfolding agree_def by blast
qed

text \<open>Freeing a small block.\<close>

lemma page_free_small_ok:
  assumes inv: "page_inv binv s m R" and r: "R ptr = Some n" "n \<le> 1024"
    and a: "page_free_small bf s m ptr = (s', m')"
  shows "page_inv binv s' m' (R(ptr := None))" and "agree (R(ptr := None)) m m'"
proof -
  from inv obtain Rb ps nl fl where st: "page_state binv s m Rb ps nl fl R"
    and busy: "\<forall>p\<in>set ps. 0 < busy_count (headers s p)" by (auto simp: page_inv_def)
  have own: "owns s ps fl Rb R" using st by (simp add: page_state_def)
  from ownsD(7) [OF own r] obtain page where p: "page \<in> set ps" "ptr \<in> in_use (headers s page) page (fl page)" by blast
  have "page_ok (self s) m page (headers s page) (fl page)" using st p by (simp add: page_state_def pages_ok_def)
  then have pg: "page_from_ptr m ptr = page" using p by (simp add: page_from_ptr_def page_ok_def)
  obtain s1 m1 where pt: "page_put s m page ptr = (s1, m1)" by fastforce
  note ok = page_put_ok [OF st p pt]
  from ok(1) obtain nl1 where st1: "page_state binv s1 m1 Rb ps nl1 (fl(page := ptr # fl page)) (R(ptr := None))" by blast
  have busy1: "0 < busy_count (headers s1 q)" if "q \<in> set ps" "q \<noteq> page" for q
    using core_fields(8) [OF ok(4) [OF that(2)]] busy that by simp
  have "page_inv binv s' m' (R(ptr := None)) \<and> agree (R(ptr := None)) m m'"
  proof (cases "busy_count (headers s1 page) = 0")
    case False
    then have "s' = s1" "m' = m1" using a pg pt by (simp_all add: page_free_small_def Let_def)
    moreover have "\<forall>q\<in>set ps. 0 < busy_count (headers s1 q)" using busy1 False by (metis gr0I)
    ultimately show ?thesis using st1 ok(2) unfolding page_inv_def by blast
  next
    case True
    then have rl: "page_release bf s1 m1 page = (s', m')" using a pg pt by (simp add: page_free_small_def Let_def)
    note ro = page_release_ok [OF st1 p(1) True rl]
    have "distinct ps" using st by (simp add: page_state_def lists_ok_def)
    then have "\<forall>q\<in>set (remove1 page ps). 0 < busy_count (headers s' q)"
      using busy1 core_fields(8) [OF ro(3)] by (auto simp: set_remove1_eq)
    with ro(1) have "page_inv binv s' m' (R(ptr := None))" unfolding page_inv_def by blast
    with agree_trans [OF ok(2) ro(2)] show ?thesis by simp
  qed
  then show "page_inv binv s' m' (R(ptr := None))" "agree (R(ptr := None)) m m'" by simp_all
qed

end

end
