(* ===== verification/PageFront.thy ===== *)
theory PageFront
  imports PageContract
begin

text \<open>
  The client's view of the page allocator: its blocks are disjoint, aligned and never hold the
  allocator's own words; large requests pass to the backing allocator; and \<open>lj_page_alloc_f\<close>
  satisfies the contract of theory \<open>Allocator\<close> on every branch, failed requests included.
\<close>

context page_backing
begin

section \<open>Where a client's block lies\<close>

text \<open>Each block of the client lies in one block of the backing allocator, its host.\<close>

lemma host:
  assumes st: "page_state binv s m Rb ps nl fl R" and r: "R p = Some n"
  obtains q k where "Rb q = Some k" "q \<le> p" "p + n \<le> q + k"
    "1024 < n \<Longrightarrow> q = p \<and> k = n \<and> q \<notin> set ps \<and> q \<noteq> self s"
    "n \<le> 1024 \<Longrightarrow> q \<in> set ps \<and> p \<in> in_use (headers s q) q (fl q) \<and> n \<le> payload_size (headers s q)"
proof (cases "1024 < n")
  case True
  have "owns s ps fl Rb R" using st by (simp add: page_state_def)
  from ownsD(6) [OF this r True] that [of p n] True show thesis by auto
next
  case False
  then have n: "n \<le> 1024" by simp
  have own: "owns s ps fl Rb R" using st by (simp add: page_state_def)
  from ownsD(7) [OF own r n] obtain q where q: "q \<in> set ps"
    "p \<in> in_use (headers s q) q (fl q)" "n \<le> payload_size (headers s q)" by blast
  from in_use_range [OF st q(1,2)] q(3) ownsD(3) [OF own q(1)] q n
  show thesis by (intro that [of q "page_size (headers s q)"]) simp_all
qed

lemma front_pos:
  assumes "page_inv binv s m R" and r: "R p = Some n"
  shows "0 < p \<and> 0 < n \<and> 8 dvd p \<and> p + n \<le> 2 ^ 47"
proof -
  from assms obtain Rb ps nl fl where st: "page_state binv s m Rb ps nl fl R" by (auto simp: page_inv_def)
  then have own: "owns s ps fl Rb R" and b: "binv (backing s) m Rb" by (auto simp: page_state_def)
  from host [OF st r] obtain q k where q: "Rb q = Some k" "q \<le> p" "p + n \<le> q + k"
    "1024 < n \<Longrightarrow> q = p" "n \<le> 1024 \<Longrightarrow> q \<in> set ps \<and> p \<in> in_use (headers s q) q (fl q)" by metis
  note bp = bk.pos [OF b q(1)]
  have "8 dvd p"
  proof (cases "1024 < n")
    case True
    with q bp show ?thesis by simp
  next
    case False
    with q obtain i where "p = blk (headers s q) q i" "q \<in> set ps" by (auto simp: in_use_def bumped_def)
    with blk_align [OF page_regions(4) [OF st]] bp show ?thesis by simp
  qed
  with bp q ownsD(5) [OF own r] show ?thesis by linarith
qed

lemma front_sep:
  assumes "page_inv binv s m R" and r: "R p = Some n" "R p' = Some n'" and ne: "p \<noteq> p'"
  shows "p + n \<le> p' \<or> p' + n' \<le> p"
proof -
  from assms obtain Rb ps nl fl where st: "page_state binv s m Rb ps nl fl R" by (auto simp: page_inv_def)
  then have b: "binv (backing s) m Rb" by (simp add: page_state_def)
  from host [OF st r(1)] obtain q k where q: "Rb q = Some k" "q \<le> p" "p + n \<le> q + k"
    "1024 < n \<Longrightarrow> q = p \<and> q \<notin> set ps"
    "n \<le> 1024 \<Longrightarrow> q \<in> set ps \<and> p \<in> in_use (headers s q) q (fl q) \<and> n \<le> payload_size (headers s q)" by metis
  from host [OF st r(2)] obtain q' k' where q': "Rb q' = Some k'" "q' \<le> p'" "p' + n' \<le> q' + k'"
    "1024 < n' \<Longrightarrow> q' = p' \<and> q' \<notin> set ps"
    "n' \<le> 1024 \<Longrightarrow> q' \<in> set ps \<and> p' \<in> in_use (headers s q') q' (fl q') \<and> n' \<le> payload_size (headers s q')" by metis
  show ?thesis
  proof (cases "q = q'")
    case False
    from bk.sep [OF b q(1) q'(1) False] q q' show ?thesis by linarith
  next
    case True
    then have ps: "q \<in> set ps" "n \<le> 1024" "n' \<le> 1024"
      using q(4,5) q'(4,5) ne by (metis linorder_not_less)+
    with q q' True have "p \<in> bumped (headers s q) q" "p' \<in> bumped (headers s q) q" by (auto simp: in_use_def)
    from bumped_sep [OF page_regions(4) [OF st ps(1)] this ne] q q' ps True show ?thesis by auto
  qed
qed

text \<open>The words the allocator keeps in its pages are never in a client's block.\<close>

lemma meta_not_owned:
  assumes st: "page_state binv s m Rb ps nl fl R" and p: "page \<in> set ps"
    and a: "meta_byte (headers s page) page (fl page) a"
  shows "\<not> owned R a"
proof
  let ?h = "headers s page"
  assume "owned R a"
  have pok: "page_ok (self s) m page ?h (fl page)" using st p by (simp add: page_state_def pages_ok_def)
  note rg = page_regions(4) [OF st p]
  note n8 = shape_numbers(1) [OF rg]
  from meta_byte_range [OF pok a] owned_in_page [OF st p _ _ \<open>owned R a\<close>] obtain x where
    x: "x \<in> in_use ?h page (fl page)" "x \<le> a" "a < x + payload_size ?h" by blast
  have sep: "x + payload_size ?h + 8 \<le> y \<or> y + payload_size ?h + 8 \<le> x"
    if "y \<in> bumped ?h page" "y \<noteq> x" for y
    using bumped_sep [OF rg _ that(1), of x] x(1) that(2) by (auto simp: in_use_def)
  from a show False
    unfolding meta_byte_def
  proof
    assume "\<exists>y\<in>set (fl page). y \<le> a \<and> a < y + 8"
    then obtain y where y: "y \<in> set (fl page)" "y \<le> a" "a < y + 8" by blast
    then have "y \<in> bumped ?h page" "y \<noteq> x" using pok x(1) by (auto simp: page_ok_def in_use_def)
    from sep [OF this] x y n8 show False by linarith
  next
    assume "\<exists>y\<in>in_use ?h page (fl page). y - 8 \<le> a \<and> a < y"
    then obtain y where y: "y \<in> in_use ?h page (fl page)" "y - 8 \<le> a" "a < y" by blast
    then have "y \<in> bumped ?h page" "y \<noteq> x" using x by (auto simp: in_use_def)
    from sep [OF this] x y show False by linarith
  qed
qed

lemma front_frame:
  assumes i: "page_inv binv s m R" and m': "\<And>a. \<not> owned R a \<Longrightarrow> m' a = m a"
  shows "page_inv binv s m' R"
proof -
  from i obtain Rb ps nl fl where st: "page_state binv s m Rb ps nl fl R"
    and busy: "\<forall>p\<in>set ps. 0 < busy_count (headers s p)" by (auto simp: page_inv_def)
  have "binv (backing s) m' Rb"
    using st owned_backing [OF _ st] m' by (intro bk.frame [of "backing s" m Rb m']) (auto simp: page_state_def)
  moreover have "pages_ok s m' ps fl"
    using st meta_not_owned [OF st] m' by (intro pages_ok_mem [of s m ps fl m']) (auto simp: page_state_def)
  ultimately show ?thesis using st busy unfolding page_inv_def page_state_def by blast
qed

section \<open>Large blocks\<close>

text \<open>The backing allocator adds, removes or moves blocks that are neither pages nor the state.\<close>

lemma state_large:
  assumes st: "page_state binv s m Rb ps nl fl R" and b: "binv b m' Rb'"
    and keep: "Rb' (self s) = Rb (self s)" "\<And>p. p \<in> set ps \<Longrightarrow> Rb' p = Rb p"
    and mem: "\<And>p a. p \<in> set ps \<Longrightarrow> p \<le> a \<Longrightarrow> a < p + page_size (headers s p) \<Longrightarrow> m' a = m a"
    and small: "\<And>x n. n \<le> 1024 \<Longrightarrow> R' x = Some n \<longleftrightarrow> R x = Some n"
    and large: "\<And>x n. R' x = Some n \<Longrightarrow> 1024 < n \<Longrightarrow> Rb' x = Some n \<and> x \<noteq> self s \<and> x \<notin> set ps"
      "\<And>x n. x \<noteq> self s \<Longrightarrow> x \<notin> set ps \<Longrightarrow> Rb' x = Some n \<Longrightarrow> R' x = Some n \<and> 1024 < n"
  shows "page_state binv (s\<lparr>backing := b\<rparr>) m' Rb' ps nl fl R'"
proof -
  have own: "owns s ps fl Rb R" and pok: "pages_ok s m ps fl" and lok: "lists_ok s ps nl"
    using st by (auto simp: page_state_def)
  have "owns (s\<lparr>backing := b\<rparr>) ps fl Rb' R'"
  proof (rule ownsI)
    fix x n assume x: "R' x = Some n"
    with small [of n x] ownsD(5) [OF own, of x n] show "0 < n" by (cases "n \<le> 1024") auto
    show "n \<le> 1024 \<Longrightarrow> \<exists>page\<in>set ps. x \<in> in_use (headers (s\<lparr>backing := b\<rparr>) page) page (fl page)
        \<and> n \<le> payload_size (headers (s\<lparr>backing := b\<rparr>) page)"
      using ownsD(7) [OF own, of x n] small [of n x] x by simp
  next
    fix q x assume "q \<in> set ps" "x \<in> in_use (headers (s\<lparr>backing := b\<rparr>) q) q (fl q)"
    with ownsD(8) [OF own, of q x] small show "\<exists>n. R' x = Some n \<and> n \<le> 1024" by auto
  next
    show "Rb' (self (s\<lparr>backing := b\<rparr>)) = Some sizeof_LJPageAllocState" "self (s\<lparr>backing := b\<rparr>) \<notin> set ps"
      using ownsD(1,2) [OF own] keep(1) by simp_all
    show "q \<in> set ps \<Longrightarrow> Rb' q = Some (page_size (headers (s\<lparr>backing := b\<rparr>) q))" for q
      using ownsD(3) [OF own] keep(2) by simp
  next
    fix x n
    show "x \<noteq> self (s\<lparr>backing := b\<rparr>) \<Longrightarrow> x \<notin> set ps \<Longrightarrow> Rb' x = Some n \<Longrightarrow> R' x = Some n \<and> 1024 < n"
      using large(2) [of x n] by simp
    show "R' x = Some n \<Longrightarrow> 1024 < n \<Longrightarrow> Rb' x = Some n \<and> x \<noteq> self (s\<lparr>backing := b\<rparr>) \<and> x \<notin> set ps"
      using large(1) [of x n] by simp
  qed
  moreover have "pages_ok s m' ps fl"
  proof (rule pages_ok_mem [OF pok])
    fix p a assume p: "p \<in> set ps" "meta_byte (headers s p) p (fl p) a"
    then have "page_ok (self s) m p (headers s p) (fl p)" using pok by (simp add: pages_ok_def)
    from meta_byte_range [OF this p(2)] mem p show "m' a = m a" by blast
  qed
  ultimately show ?thesis
    using b lists_ok_cong [OF lok, of "s\<lparr>backing := b\<rparr>"]
    unfolding page_state_def pages_ok_def by (simp add: same_links_def)
qed

lemma owned_R_backing:
  "page_inv binv s m R \<Longrightarrow> page_state binv s m Rb ps nl fl R \<Longrightarrow> agree Rb m m' \<Longrightarrow> agree R m m'"
  using owned_backing unfolding agree_def by blast

lemma large_malloc_ok:
  assumes inv: "page_inv binv s m R" and n: "1024 < n"
    and f: "bf (backing s) m 0 0 n = (b, m', p)"
  shows "agree R m m' \<and> (if p = 0 then page_inv binv (s\<lparr>backing := b\<rparr>) m' R
     else R p = None \<and> page_inv binv (s\<lparr>backing := b\<rparr>) m' (R(p \<mapsto> n)))"
proof -
  from inv obtain Rb ps nl fl where st: "page_state binv s m Rb ps nl fl R"
    and busy: "\<forall>p\<in>set ps. 0 < busy_count (headers s p)" by (auto simp: page_inv_def)
  have own: "owns s ps fl Rb R" and bi: "binv (backing s) m Rb" using st by (auto simp: page_state_def)
  have "0 < n" using n by simp
  note mal = bk.malloc [OF bi this f]
  then have ag: "agree R m m'" using owned_R_backing [OF inv st] by simp
  show ?thesis
  proof (cases "p = 0")
    case True
    with mal have "page_state binv (s\<lparr>backing := b\<rparr>) m' Rb ps nl fl R" using state_backing [OF st] by simp
    with busy ag True show ?thesis unfolding page_inv_def by force
  next
    case False
    with mal have none: "Rb p = None" and bi': "binv b m' (Rb(p \<mapsto> n))" and agb: "agree Rb m m'" by simp_all
    have np: "p \<noteq> self s" "p \<notin> set ps" using none ownsD(1,3) [OF own] by auto
    have Rn: "R p = None"
    proof (rule ccontr)
      assume "R p \<noteq> None"
      then obtain k where k: "R p = Some k" by blast
      from host [OF st k] obtain q l where q: "Rb q = Some l" "q \<le> p" "p + k \<le> q + l" by metis
      then have "q \<noteq> p" using none by auto
      with bk.sep [OF bi', of p n q l] q n ownsD(5) [OF own k] show False by auto
    qed
    have "page_state binv (s\<lparr>backing := b\<rparr>) m' (Rb(p \<mapsto> n)) ps nl fl (R(p \<mapsto> n))"
    proof (rule state_large [OF st bi'])
      fix q a assume q: "q \<in> set ps" "q \<le> a" "a < q + page_size (headers s q)"
      then have "owned Rb a" using ownsD(3) [OF own q(1)] by (auto intro: ownedI)
      with agb show "m' a = m a" by (simp add: agree_def)
    next
      fix x k
      show "k \<le> 1024 \<Longrightarrow> ((R(p \<mapsto> n)) x = Some k) = (R x = Some k)" using Rn n by auto
      show "(R(p \<mapsto> n)) x = Some k \<Longrightarrow> 1024 < k \<Longrightarrow> (Rb(p \<mapsto> n)) x = Some k \<and> x \<noteq> self s \<and> x \<notin> set ps"
        using ownsD(6) [OF own, of x k] np by (auto split: if_splits)
      show "x \<noteq> self s \<Longrightarrow> x \<notin> set ps \<Longrightarrow> (Rb(p \<mapsto> n)) x = Some k \<Longrightarrow> (R(p \<mapsto> n)) x = Some k \<and> 1024 < k"
        using ownsD(4) [OF own, of x k] n by (auto split: if_splits)
    qed (use np in auto)
    moreover have "\<forall>p\<in>set ps. 0 < busy_count (headers (s\<lparr>backing := b\<rparr>) p)" using busy by simp
    ultimately have "page_inv binv (s\<lparr>backing := b\<rparr>) m' (R(p \<mapsto> n))" unfolding page_inv_def by blast
    with ag Rn False show ?thesis by simp
  qed
qed

lemma large_free_ok:
  assumes inv: "page_inv binv s m R" and r: "R p = Some n" "1024 < n"
    and f: "bf (backing s) m p n 0 = (b, m', q)"
  shows "page_inv binv (s\<lparr>backing := b\<rparr>) m' (R(p := None)) \<and> agree (R(p := None)) m m'"
proof -
  from inv obtain Rb ps nl fl where st: "page_state binv s m Rb ps nl fl R"
    and busy: "\<forall>p\<in>set ps. 0 < busy_count (headers s p)" by (auto simp: page_inv_def)
  have own: "owns s ps fl Rb R" and bi: "binv (backing s) m Rb" using st by (auto simp: page_state_def)
  from ownsD(6) [OF own r] have rb: "Rb p = Some n" "p \<noteq> self s" "p \<notin> set ps" by simp_all
  from bk.free [OF bi rb(1) f] have bi': "binv b m' (Rb(p := None))" and agb: "agree (Rb(p := None)) m m'" by simp_all
  have st': "page_state binv (s\<lparr>backing := b\<rparr>) m' (Rb(p := None)) ps nl fl (R(p := None))"
  proof (rule state_large [OF st bi'])
    fix q a assume q: "q \<in> set ps" "q \<le> a" "a < q + page_size (headers s q)"
    then have "owned (Rb(p := None)) a"
      using ownsD(3) [OF own q(1)] rb(3) by (intro ownedI [of _ q "page_size (headers s q)"]) auto
    with agb show "m' a = m a" by (simp add: agree_def)
  next
    fix x k
    show "k \<le> 1024 \<Longrightarrow> ((R(p := None)) x = Some k) = (R x = Some k)" using r by auto
    show "(R(p := None)) x = Some k \<Longrightarrow> 1024 < k \<Longrightarrow> (Rb(p := None)) x = Some k \<and> x \<noteq> self s \<and> x \<notin> set ps"
      using ownsD(6) [OF own, of x k] by (auto split: if_splits)
    show "x \<noteq> self s \<Longrightarrow> x \<notin> set ps \<Longrightarrow> (Rb(p := None)) x = Some k \<Longrightarrow> (R(p := None)) x = Some k \<and> 1024 < k"
      using ownsD(4) [OF own, of x k] by (auto split: if_splits)
  qed (use rb in auto)
  moreover have "\<forall>p\<in>set ps. 0 < busy_count (headers (s\<lparr>backing := b\<rparr>) p)" using busy by simp
  ultimately have i': "page_inv binv (s\<lparr>backing := b\<rparr>) m' (R(p := None))" unfolding page_inv_def by blast
  have "agree (R(p := None)) m m'"
    using agb owned_backing [OF _ st'] unfolding agree_def by blast
  with i' show ?thesis by simp
qed

lemma large_realloc_ok:
  assumes inv: "page_inv binv s m R" and r: "R p = Some n" "1024 < n" and k: "1024 < k"
    and f: "bf (backing s) m p n k = (b, m', q)"
  shows "if q = 0 then page_inv binv (s\<lparr>backing := b\<rparr>) m' R \<and> agree R m m'
       else (q = p \<or> R q = None) \<and> page_inv binv (s\<lparr>backing := b\<rparr>) m' ((R(p := None))(q \<mapsto> k))
         \<and> agree (R(p := None)) m m' \<and> (\<forall>i < min n k. m' (q + i) = m (p + i))"
proof -
  from inv obtain Rb ps nl fl where st: "page_state binv s m Rb ps nl fl R"
    and busy: "\<forall>p\<in>set ps. 0 < busy_count (headers s p)" by (auto simp: page_inv_def)
  have own: "owns s ps fl Rb R" and bi: "binv (backing s) m Rb" using st by (auto simp: page_state_def)
  from ownsD(6) [OF own r] have rb: "Rb p = Some n" "p \<noteq> self s" "p \<notin> set ps" by simp_all
  have "0 < k" using k by simp
  note re = bk.realloc [OF bi rb(1) this f]
  have busy': "\<forall>p\<in>set ps. 0 < busy_count (headers (s\<lparr>backing := b\<rparr>) p)" using busy by simp
  show ?thesis
  proof (cases "q = 0")
    case True
    with re have "page_state binv (s\<lparr>backing := b\<rparr>) m' Rb ps nl fl R" "agree Rb m m'"
      using state_backing [OF st] by auto
    with busy' owned_R_backing [OF inv st] True show ?thesis unfolding page_inv_def by auto
  next
    case False
    let ?Rb = "(Rb(p := None))(q \<mapsto> k)" and ?R = "(R(p := None))(q \<mapsto> k)"
    from False re have qn: "q = p \<or> Rb q = None" and bi': "binv b m' ?Rb"
      and agb: "agree (Rb(p := None)) m m'" and cp: "\<forall>i < min n k. m' (q + i) = m (p + i)" by simp_all
    have nq: "q \<noteq> self s" "q \<notin> set ps" using qn rb ownsD(1,3) [OF own] by auto
    have Rn: "q = p \<or> R q = None"
    proof (rule ccontr)
      assume "\<not> (q = p \<or> R q = None)"
      then obtain l where l: "R q = Some l" and qp: "q \<noteq> p" by blast
      from host [OF st l] obtain y j where y: "Rb y = Some j" "y \<le> q" "q + l \<le> y + j"
        "1024 < l \<Longrightarrow> y = q" "l \<le> 1024 \<Longrightarrow> y \<in> set ps" by metis
      then have "y \<noteq> q" using qn qp by auto
      then have "y \<noteq> p" using y(4,5) rb(3) by (cases "1024 < l") auto
      with \<open>y \<noteq> q\<close> y(1) have "?Rb y = Some j" by simp
      from bk.sep [OF bi' _ this, of q k] \<open>y \<noteq> q\<close> y ownsD(5) [OF own l] k show False by auto
    qed
    have st': "page_state binv (s\<lparr>backing := b\<rparr>) m' ?Rb ps nl fl ?R"
    proof (rule state_large [OF st bi'])
      fix y a assume y: "y \<in> set ps" "y \<le> a" "a < y + page_size (headers s y)"
      then have "owned (Rb(p := None)) a"
        using ownsD(3) [OF own y(1)] rb(3) by (intro ownedI [of _ y "page_size (headers s y)"]) auto
      with agb show "m' a = m a" by (simp add: agree_def)
    next
      fix x l
      show "l \<le> 1024 \<Longrightarrow> (?R x = Some l) = (R x = Some l)" using r k Rn by auto
      show "?R x = Some l \<Longrightarrow> 1024 < l \<Longrightarrow> ?Rb x = Some l \<and> x \<noteq> self s \<and> x \<notin> set ps"
        using ownsD(6) [OF own, of x l] nq by (auto split: if_splits)
      show "x \<noteq> self s \<Longrightarrow> x \<notin> set ps \<Longrightarrow> ?Rb x = Some l \<Longrightarrow> ?R x = Some l \<and> 1024 < l"
        using ownsD(4) [OF own, of x l] k by (auto split: if_splits)
    qed (use rb nq in auto)
    with busy' have i': "page_inv binv (s\<lparr>backing := b\<rparr>) m' ?R" unfolding page_inv_def by blast
    have "agree (R(p := None)) m m'"
      unfolding agree_def
    proof (intro allI impI)
      fix a assume o: "owned (R(p := None)) a"
      then obtain x l where x: "(R(p := None)) x = Some l" "x \<le> a" "a < x + l" by (auto simp: owned_def)
      then have xl: "R x = Some l" "x \<noteq> p" by (auto split: if_splits)
      from host [OF st xl(1)] obtain y j where y: "Rb y = Some j" "y \<le> x" "x + l \<le> y + j"
        "1024 < l \<Longrightarrow> y = x" "l \<le> 1024 \<Longrightarrow> y \<in> set ps" by metis
      then have "y \<noteq> p" using rb(3) xl(2) by (cases "1024 < l") auto
      with y x have "owned (Rb(p := None)) a" by (intro ownedI [of _ y j]) auto
      with agb show "m' a = m a" by (simp add: agree_def)
    qed
    with False Rn i' cp show ?thesis by simp
  qed
qed

section \<open>The branches of the allocation function\<close>

lemma front_malloc:
  assumes "page_inv binv s m R" and "0 < n" and "lj_page_alloc_f bf s m 0 0 n = (s', m', p)"
  shows "agree R m m' \<and> (if p = 0 then page_inv binv s' m' R else R p = None \<and> page_inv binv s' m' (R(p \<mapsto> n)))"
proof (cases "n \<le> 1024")
  case True
  with assms have "page_alloc_small bf s m n = (s', m', p)" by (simp add: lj_page_alloc_f_def)
  from page_alloc_small_ok [OF assms(1,2) True this] show ?thesis by simp
next
  case False
  obtain b m1 q where f: "bf (backing s) m 0 0 n = (b, m1, q)" by (cases "bf (backing s) m 0 0 n") auto
  with assms False have "s' = s\<lparr>backing := b\<rparr>" "m' = m1" "p = q" by (auto simp: lj_page_alloc_f_def)
  with large_malloc_ok [OF assms(1) _ f] False show ?thesis by simp
qed

lemma front_free:
  assumes "page_inv binv s m R" and "R p = Some n" and "lj_page_alloc_f bf s m p n 0 = (s', m', q)"
  shows "q = 0 \<and> page_inv binv s' m' (R(p := None)) \<and> agree (R(p := None)) m m'"
proof -
  have p: "p \<noteq> 0" using front_pos [OF assms(1,2)] by simp
  show ?thesis
  proof (cases "n \<le> 1024")
    case True
    obtain s1 m1 where f: "page_free_small bf s m p = (s1, m1)" by fastforce
    with assms True p have "s' = s1" "m' = m1" "q = 0" by (auto simp: lj_page_alloc_f_def)
    with page_free_small_ok [OF assms(1,2) True f] show ?thesis by simp
  next
    case False
    obtain b m1 r where f: "bf (backing s) m p n 0 = (b, m1, r)" by (cases "bf (backing s) m p n 0") auto
    with assms False p have "s' = s\<lparr>backing := b\<rparr>" "m' = m1" "q = 0" by (auto simp: lj_page_alloc_f_def)
    with large_free_ok [OF assms(1,2) _ f] False show ?thesis by simp
  qed
qed

text \<open>A block that stays where it is: the new size still fits the payload of its class.\<close>

lemma front_resize:
  assumes inv: "page_inv binv s m R" and r: "R p = Some n" "n \<le> 1024" and k: "0 < k"
    and fit: "k \<le> payload_size (headers s (page_from_ptr m p))"
  shows "page_inv binv s m (R(p \<mapsto> k))"
proof -
  from inv obtain Rb ps nl fl where st: "page_state binv s m Rb ps nl fl R"
    and busy: "\<forall>p\<in>set ps. 0 < busy_count (headers s p)" by (auto simp: page_inv_def)
  have own: "owns s ps fl Rb R" using st by (simp add: page_state_def)
  from ownsD(7) [OF own r] obtain q where q: "q \<in> set ps" "p \<in> in_use (headers s q) q (fl q)" by blast
  then have "page_from_ptr m p = q" using st by (simp add: page_from_ptr_def page_state_def pages_ok_def page_ok_def)
  with fit have fit: "k \<le> payload_size (headers s q)" by simp
  with shape_numbers(2) [OF page_regions(4) [OF st q(1)]] have k1: "k \<le> 1024" by simp
  have "owns s ps fl Rb (R(p \<mapsto> k))"
  proof (rule ownsI)
    fix x l assume "(R(p \<mapsto> k)) x = Some l" "l \<le> 1024"
    with ownsD(7) [OF own, of x l] q fit
    show "\<exists>q\<in>set ps. x \<in> in_use (headers s q) q (fl q) \<and> l \<le> payload_size (headers s q)"
      by (cases "x = p") auto
  next
    fix y x assume "y \<in> set ps" "x \<in> in_use (headers s y) y (fl y)"
    with ownsD(8) [OF own, of y x] k1 show "\<exists>l. (R(p \<mapsto> k)) x = Some l \<and> l \<le> 1024" by auto
  next
    fix x l assume x: "(R(p \<mapsto> k)) x = Some l"
    show "0 < l" using ownsD(5) [OF own, of x l] k x by (auto split: if_splits)
    show "1024 < l \<Longrightarrow> Rb x = Some l \<and> x \<noteq> self s \<and> x \<notin> set ps"
      using ownsD(6) [OF own, of x l] k1 x by (auto split: if_splits)
  next
    fix x l assume "x \<noteq> self s" "x \<notin> set ps" "Rb x = Some l"
    from ownsD(4) [OF own this] r show "(R(p \<mapsto> k)) x = Some l \<and> 1024 < l" by auto
  qed (use ownsD(1-3) [OF own] in auto)
  with st busy show ?thesis unfolding page_inv_def page_state_def by blast
qed

text \<open>Every other change of size is an allocation, a copy and a release.\<close>

lemma front_move_eq:
  assumes "p \<noteq> 0" and "0 < k" and "\<not> (1024 < n \<and> 1024 < k)"
    and "\<not> (n \<le> 1024 \<and> k \<le> payload_size (headers s (page_from_ptr m p)))"
  shows "lj_page_alloc_f bf s m p n k =
    (case lj_page_alloc_f bf s m 0 0 k of (s, m, q) \<Rightarrow>
       if q = 0 then (s, m, 0)
       else (case lj_page_alloc_f bf s (memcpy m q p (min n k)) p n 0 of (s, m, _) \<Rightarrow> (s, m, q)))"
proof -
  note sp = prod.splits if_splits
  show ?thesis
  proof (cases "n \<le> 1024")
    case True
    with assms show ?thesis by (cases "k \<le> 1024") (auto simp: lj_page_alloc_f_def Let_def split: sp)
  next
    case False
    with assms show ?thesis by (auto simp: lj_page_alloc_f_def Let_def split: sp)
  qed
qed

lemma front_copy:
  assumes inv: "page_inv binv s1 m1 (R(q \<mapsto> k))" and q: "R q = None" and r: "R p = Some n"
    and ag: "agree R m m1"
  defines "m2 \<equiv> memcpy m1 q p (min n k)"
  shows "page_inv binv s1 m2 (R(q \<mapsto> k))" and "agree R m m2" and "\<forall>i < min n k. m2 (q + i) = m (p + i)"
proof -
  have qp: "q \<noteq> p" using q r by auto
  show "page_inv binv s1 m2 (R(q \<mapsto> k))"
  proof (rule front_frame [OF inv])
    fix a assume "\<not> owned (R(q \<mapsto> k)) a"
    then have "\<not> (q \<le> a \<and> a < q + k)" using ownedI [of "R(q \<mapsto> k)" q k a] by auto
    then show "m2 a = m1 a" by (auto simp: m2_def memcpy_def)
  qed
  show "\<forall>i < min n k. m2 (q + i) = m (p + i)"
    using agreeD [OF ag r] by (simp add: m2_def memcpy_def)
  show "agree R m m2"
    unfolding agree_def
  proof (intro allI impI)
    fix a assume o: "owned R a"
    then obtain x l where x: "R x = Some l" "x \<le> a" "a < x + l" by (auto simp: owned_def)
    then have "x \<noteq> q" using q by auto
    with front_sep [OF inv, of x l q k] x have "\<not> (q \<le> a \<and> a < q + k)" by auto
    with o ag show "m2 a = m a" by (auto simp: m2_def memcpy_def agree_def)
  qed
qed

lemma front_realloc:
  assumes inv: "page_inv binv s m R" and r: "R p = Some n" and k: "0 < k"
    and f: "lj_page_alloc_f bf s m p n k = (s', m', q)"
  shows "if q = 0 then page_inv binv s' m' R \<and> agree R m m'
     else (q = p \<or> R q = None) \<and> page_inv binv s' m' ((R(p := None))(q \<mapsto> k))
       \<and> agree (R(p := None)) m m' \<and> (\<forall>i < min n k. m' (q + i) = m (p + i))"
proof -
  have p: "p \<noteq> 0" using front_pos [OF inv r] by simp
  consider (stay) "n \<le> 1024 \<and> k \<le> payload_size (headers s (page_from_ptr m p))"
    | (large) "1024 < n \<and> 1024 < k"
    | (move) "\<not> (n \<le> 1024 \<and> k \<le> payload_size (headers s (page_from_ptr m p)))" "\<not> (1024 < n \<and> 1024 < k)"
    by blast
  then show ?thesis
  proof cases
    case stay
    then have "s' = s" "m' = m" "q = p" using f p k by (auto simp: lj_page_alloc_f_def Let_def)
    with front_resize [OF inv r _ k] stay p show ?thesis by simp
  next
    case large
    obtain b m1 x where bfk: "bf (backing s) m p n k = (b, m1, x)" by (cases "bf (backing s) m p n k") auto
    with f p k large have "s' = s\<lparr>backing := b\<rparr>" "m' = m1" "q = x" by (auto simp: lj_page_alloc_f_def)
    with large_realloc_ok [OF inv r _ _ bfk] large show ?thesis by simp
  next
    case move
    obtain s1 m1 x where a: "lj_page_alloc_f bf s m 0 0 k = (s1, m1, x)"
      by (cases "lj_page_alloc_f bf s m 0 0 k") auto
    note al = front_malloc [OF inv k a]
    show ?thesis
    proof (cases "x = 0")
      case True
      with f a front_move_eq [OF p k move(2,1)] have "s' = s1" "m' = m1" "q = 0" by simp_all
      with True al show ?thesis by simp
    next
      case False
      with al have x: "R x = None" "page_inv binv s1 m1 (R(x \<mapsto> k))" "agree R m m1" by simp_all
      let ?m2 = "memcpy m1 x p (min n k)"
      note cp = front_copy [OF x(2,1) r x(3)]
      have xp: "x \<noteq> p" using x r by auto
      then have rp: "(R(x \<mapsto> k)) p = Some n" using r by simp
      obtain s3 m3 y where fr: "lj_page_alloc_f bf s1 ?m2 p n 0 = (s3, m3, y)"
        by (cases "lj_page_alloc_f bf s1 ?m2 p n 0") auto
      have res: "s' = s3" "m' = m3" "q = x" using f a fr False front_move_eq [OF p k move(2,1)] by simp_all
      note ff = front_free [OF cp(1) rp fr]
      have eq: "(R(x \<mapsto> k))(p := None) = (R(p := None))(x \<mapsto> k)" using xp by auto
      have "agree ((R(p := None))(x \<mapsto> k)) ?m2 m3" using ff eq by metis
      then have "\<forall>i < k. m3 (x + i) = ?m2 (x + i)" using agreeD [where p = x and n = k] by simp
      moreover have "agree (R(p := None)) m m3"
      proof (rule agree_trans)
        show "agree (R(p := None)) m ?m2" using cp(2) by (rule agree_mono) simp
        show "agree (R(p := None)) ?m2 m3"
          using \<open>agree ((R(p := None))(x \<mapsto> k)) ?m2 m3\<close> x(1) by (elim agree_mono) (simp add: map_le_insert)
      qed
      moreover have "page_inv binv s3 m3 ((R(p := None))(x \<mapsto> k))" using ff eq by metis
      ultimately show ?thesis using res cp(3) x(1) False by simp
    qed
  qed
qed

end

section \<open>The contract\<close>

sublocale page_backing \<subseteq> front: lua_alloc "lj_page_alloc_f bf" "page_inv binv"
  by unfold_locales (fact front_sep front_pos front_frame front_malloc front_free front_realloc)+

interpretation pg_sys: page_backing mem_alloc libc_inv ..



section \<open>Creation and destruction\<close>

context page_backing
begin

lemma front_lua_alloc: "lua_alloc (lj_page_alloc_f bf) (page_inv binv)"
  by (rule front.lua_alloc_axioms)

lemma front_runs:
  "reach_alloc (lj_page_alloc_f bf) (s0, m0, R0) (s, m, R) \<Longrightarrow> page_inv binv s0 m0 R0 \<Longrightarrow>
     blocks_disjoint R \<and> blocks_aligned R"
  by (rule front.reach_blocks)

text \<open>A new front end owns its state block only.\<close>

lemma create_inv:
  assumes "binv b m Rb" and "Rb = Map.empty"
    and c: "lj_page_alloc_create bf destroy (Some b) m = (Some s, m')"
  shows "page_inv binv s m' Map.empty" and "agree Rb m m'"
proof -
  obtain b1 m1 p where f: "bf b m 0 0 sizeof_LJPageAllocState = (b1, m1, p)"
    by (cases "bf b m 0 0 sizeof_LJPageAllocState") auto
  have "0 < sizeof_LJPageAllocState" by simp
  note mal = bk.malloc [OF assms(1) this f]
  from c f have p: "p \<noteq> 0" and m': "m' = m1"
    and s: "s = \<lparr>self = p, backing = b1, nonfull_pages = replicate 36 0, allpages = 0, headers = (\<lambda>_. zero_page)\<rparr>"
    by (auto simp: lj_page_alloc_create_def split: if_splits)
  show "agree Rb m m'" using mal m' by simp
  have "page_state binv s m' (Rb(p \<mapsto> sizeof_LJPageAllocState)) [] (\<lambda>_. []) (\<lambda>_. []) Map.empty"
    using mal p m' s assms(2) by (auto simp: page_state_def lists_ok_def pages_ok_def owns_def split: if_splits)
  then show "page_inv binv s m' Map.empty" unfolding page_inv_def by force
qed

lemma destroy_pages_ok:
  assumes "dll (all_next \<circ> hdr) (all_prev \<circ> hdr) page q ps" and "distinct ps" and "binv b m Rb"
    and "\<And>p. p \<in> set ps \<Longrightarrow> Rb p = Some (page_size (hdr p))"
  shows "\<exists>b' m'. destroy_pages bf hdr b m page = Some (b', m') \<and> binv b' m' (Rb |` (- set ps))
     \<and> agree (Rb |` (- set ps)) m m'"
  using assms
proof (induction ps arbitrary: page q b m Rb)
  case Nil
  then show ?case by (simp add: destroy_pages.simps)
next
  case (Cons p ps)
  obtain b1 m1 x where f: "bf b m page (page_size (hdr page)) 0 = (b1, m1, x)"
    by (cases "bf b m page (page_size (hdr page)) 0") auto
  have p: "page = p" "p \<noteq> 0" "dll (all_next \<circ> hdr) (all_prev \<circ> hdr) (all_next (hdr p)) p ps"
    using Cons.prems(1) by (simp_all add: comp_def)
  have "Rb page = Some (page_size (hdr page))" using Cons.prems(4) p by simp
  note fr = bk.free [OF Cons.prems(3) this f]
  have "\<exists>b' m'. destroy_pages bf hdr b1 m1 (all_next (hdr p)) = Some (b', m')
     \<and> binv b' m' (Rb(p := None) |` (- set ps)) \<and> agree (Rb(p := None) |` (- set ps)) m1 m'"
  proof (rule Cons.IH [OF p(3)])
    show "distinct ps" using Cons.prems(2) by simp
    show "binv b1 m1 (Rb(p := None))" using fr p(1) by metis
    show "x \<in> set ps \<Longrightarrow> (Rb(p := None)) x = Some (page_size (hdr x))" for x
      using Cons.prems(2,4) by auto
  qed
  then obtain b' m' where ih: "destroy_pages bf hdr b1 m1 (all_next (hdr p)) = Some (b', m')"
     "binv b' m' (Rb(p := None) |` (- set ps))" "agree (Rb(p := None) |` (- set ps)) m1 m'" by blast
  have eq: "Rb(p := None) |` (- set ps) = Rb |` (- set (p # ps))"
    by (auto simp: restrict_map_def fun_eq_iff)
  have "destroy_pages bf hdr b m page = Some (b', m')"
    using f p ih(1) by (simp add: destroy_pages.simps [of bf hdr b])
  moreover have "agree (Rb |` (- set (p # ps))) m m1"
  proof (rule agree_mono)
    show "agree (Rb(page := None)) m m1" using fr by (rule conjunct2 [OF conjunct2])
    show "Rb |` (- set (p # ps)) \<subseteq>\<^sub>m Rb(page := None)"
      unfolding map_le_def by (simp add: p(1))
  qed
  ultimately show ?case using ih(2,3) unfolding eq by (metis agree_trans)
qed

text \<open>Destruction ends, and hands back every page and the state block: the blocks that are left in the
  backing allocator are the client's large ones.\<close>

lemma destroy_ok:
  assumes "page_inv binv s m R"
  shows "\<exists>b' m'. lj_page_alloc_destroy bf destroy s m = Some (destroy b' m') \<and>
     binv b' m' (\<lambda>x. case R x of Some n \<Rightarrow> if 1024 < n then Some n else None | None \<Rightarrow> None)"
proof -
  from assms obtain Rb ps nl fl where st: "page_state binv s m Rb ps nl fl R" by (auto simp: page_inv_def)
  have own: "owns s ps fl Rb R" and bi: "binv (backing s) m Rb" and lok: "lists_ok s ps nl"
    using st by (auto simp: page_state_def)
  have d: "dll (all_next \<circ> headers s) (all_prev \<circ> headers s) (allpages s) 0 ps" "distinct ps"
    using lok by (auto simp: lists_ok_def)
  from destroy_pages_ok [OF d bi ownsD(3) [OF own]] obtain b1 m1 where
    dp: "destroy_pages bf (headers s) (backing s) m (allpages s) = Some (b1, m1)"
    and b1: "binv b1 m1 (Rb |` (- set ps))" by blast
  obtain b2 m2 x where f: "bf b1 m1 (self s) sizeof_LJPageAllocState 0 = (b2, m2, x)"
    by (cases "bf b1 m1 (self s) sizeof_LJPageAllocState 0") auto
  have "(Rb |` (- set ps)) (self s) = Some sizeof_LJPageAllocState" using ownsD(1,2) [OF own] by simp
  from bk.free [OF b1 this f] have b2: "binv b2 m2 ((Rb |` (- set ps))(self s := None))" by simp
  have "(Rb |` (- set ps))(self s := None) =
     (\<lambda>x. case R x of Some n \<Rightarrow> if 1024 < n then Some n else None | None \<Rightarrow> None)"
  proof (rule ext)
    fix x
    show "((Rb |` (- set ps))(self s := None)) x =
       (case R x of Some n \<Rightarrow> if 1024 < n then Some n else None | None \<Rightarrow> None)"
    proof (cases "x = self s \<or> x \<in> set ps")
      case True
      with ownsD(6) [OF own, of x] show ?thesis by (auto split: option.splits)
    next
      case False
      then have a: "\<And>n. Rb x = Some n \<Longrightarrow> R x = Some n \<and> 1024 < n" using ownsD(4) [OF own, of x] by blast
      have b: "\<And>n. R x = Some n \<Longrightarrow> 1024 < n \<Longrightarrow> Rb x = Some n" using ownsD(6) [OF own, of x] by blast
      have "((Rb |` (- set ps))(self s := None)) x = Rb x" using False by simp
      also have "\<dots> = (case R x of Some n \<Rightarrow> if 1024 < n then Some n else None | None \<Rightarrow> None)"
        using a b by (cases "Rb x") (auto split: option.split)
      finally show ?thesis .
    qed
  qed
  with b2 dp f show ?thesis by (auto simp: lj_page_alloc_destroy_def)
qed

text \<open>The assertions of \<^verbatim>\<open>page_from_ptr\<close>: the prefix of every small block names a page of this
  allocator, which carries the magic and has the block within its bounds.\<close>

lemma small_block_page:
  assumes "page_inv binv s m R" and "R ptr = Some n" and "n \<le> 1024"
  defines "h \<equiv> headers s (page_from_ptr m ptr)"
  shows "magic h = LJ_PAGE_MAGIC" and "owner h = self s" and "n \<le> payload_size h"
    and "page_from_ptr m ptr + data_offset + LJ_PAGE_PREFIX_SIZE \<le> ptr"
    and "ptr + n \<le> page_from_ptr m ptr + page_size h"
    and "(ptr - LJ_PAGE_PREFIX_SIZE - page_data (page_from_ptr m ptr)) mod stride h = 0" and "0 < busy_count h"
proof -
  from assms obtain Rb ps nl fl where st: "page_state binv s m Rb ps nl fl R" and busy: "\<forall>p\<in>set ps. 0 < busy_count (headers s p)"
    by (auto simp: page_inv_def)
  have own: "owns s ps fl Rb R" using st by (simp add: page_state_def)
  from ownsD(7) [OF own assms(2,3)] obtain q where q: "q \<in> set ps" "ptr \<in> in_use (headers s q) q (fl q)"
    "n \<le> payload_size (headers s q)" by blast
  then have pg: "page_from_ptr m ptr = q" using st by (simp add: page_from_ptr_def page_state_def pages_ok_def page_ok_def)
  from page_regions(4) [OF st q(1)] show "magic h = LJ_PAGE_MAGIC" "owner h = self s"
    using pg by (auto simp: h_def page_shape_def)
  show "n \<le> payload_size h" using q pg h_def by simp
  show "page_from_ptr m ptr + data_offset + LJ_PAGE_PREFIX_SIZE \<le> ptr"
    "ptr + n \<le> page_from_ptr m ptr + page_size h"
    using in_use_range [OF st q(1,2)] q(3) pg by (simp_all add: h_def)
  obtain i where "ptr = blk (headers s q) q i" using q(2) by (auto simp: in_use_def bumped_def)
  then show "(ptr - LJ_PAGE_PREFIX_SIZE - page_data (page_from_ptr m ptr)) mod stride h = 0" unfolding h_def pg by (simp add: blk_def)
  show "0 < busy_count h" using busy q(1) by (simp add: h_def pg)
qed

end


section \<open>Properties\<close>

lemma page_backingI: "lua_alloc bf binv \<Longrightarrow> page_backing bf binv"
  by (simp add: page_backing_def)

text \<open>C1. The page allocator implements the \<^verbatim>\<open>lua_Alloc\<close> contract: whenever its backing allocator
  does, so does \<^verbatim>\<open>lj_page_alloc_f\<close>, with the invariant \<open>page_inv\<close> on its pages, lists and free chains.
  That is, for requests of any size, small or large and across the boundary in both directions: blocks
  are disjoint and aligned, a new block is none of the client's, freeing and resizing keep every other
  block's bytes, a resized block keeps its common prefix, and a failed request changes nothing.\<close>

theorem page_alloc_contract:
  assumes "lua_alloc bf binv"
  shows "lua_alloc (lj_page_alloc_f bf) (page_inv binv)"
  by (rule page_backing.front_lua_alloc [OF page_backingI [OF assms]])

theorem page_alloc_contract_witness: "lua_alloc (lj_page_alloc_f mem_alloc) (page_inv libc_inv)"
  by (rule page_alloc_contract [OF sys.lua_alloc_axioms])


text \<open>C2. From a freshly created page allocator, whatever sequence of requests and stores a client
  makes, its blocks never overlap and are always 8-aligned and nonnull.\<close>

theorem page_alloc_run:
  assumes "lua_alloc bf binv" and "binv b m0 Map.empty"
    and "lj_page_alloc_create bf destroy (Some b) m0 = (Some s, m)"
    and "reach_alloc (lj_page_alloc_f bf) (s, m, Map.empty) (s', m', R)"
  shows "blocks_disjoint R \<and> blocks_aligned R"
proof -
  note pb = page_backingI [OF assms(1)]
  have "page_inv binv s m Map.empty" by (rule page_backing.create_inv(1) [OF pb assms(2) refl assms(3)])
  with page_backing.front_runs [OF pb assms(4)] show ?thesis by simp
qed

text \<open>A concrete start: a library heap of 64 KiB.\<close>

definition demo_heap :: "libc_heap" where
  "demo_heap = \<lparr>brk = 16, limit = 65536, blocks = []\<rparr>"

lemma demo_heap_inv: "libc_inv demo_heap m Map.empty"
  by (simp add: libc_inv_def demo_heap_def)

definition demo_state :: "libc_heap pas" where
  "demo_state = \<lparr>self = 16, backing = \<lparr>brk = 320, limit = 65536, blocks = [(16, 304)]\<rparr>,
     nonfull_pages = replicate 36 0, allpages = 0, headers = (\<lambda>_. zero_page)\<rparr>"

lemma demo_create:
  "lj_page_alloc_create mem_alloc (\<lambda>_ m. m) (Some demo_heap) (\<lambda>_. 0) = (Some demo_state, \<lambda>_. 0)"
  by (simp add: lj_page_alloc_create_def mem_alloc_def libc_realloc_def libc_malloc_def demo_heap_def demo_state_def)

lemma demo_state_inv: "page_inv libc_inv demo_state (\<lambda>_. 0) Map.empty"
  by (rule page_backing.create_inv(1) [OF page_backingI [OF sys.lua_alloc_axioms] demo_heap_inv refl demo_create])

theorem page_alloc_run_witness:
  "blocks_disjoint (snd (snd (req_step (lj_page_alloc_f mem_alloc)
       (demo_state, (\<lambda>_. 0), Map.empty) (Malloc 24)))) \<and>
   snd (snd (req_step (lj_page_alloc_f mem_alloc) (demo_state, (\<lambda>_. 0), Map.empty) (Malloc 24))) = [408 \<mapsto> 24]"
proof -
  let ?c = "req_step (lj_page_alloc_f mem_alloc) (demo_state, (\<lambda>_. 0), Map.empty) (Malloc 24)"
  have "reach_alloc (lj_page_alloc_f mem_alloc) (demo_state, (\<lambda>_. 0), Map.empty) ?c"
    by (intro reach_alloc.intros) simp
  then have "reach_alloc (lj_page_alloc_f mem_alloc) (demo_state, (\<lambda>_. 0), Map.empty)
     (fst ?c, fst (snd ?c), snd (snd ?c))" by simp
  from page_alloc_run [OF sys.lua_alloc_axioms demo_heap_inv demo_create this]
  have "blocks_disjoint (snd (snd ?c))" by simp
  moreover have "snd (snd ?c) = [408 \<mapsto> 24]"
    by (simp add: lj_page_alloc_f_def page_alloc_small_def page_size_class_def page_new_def page_take_def
        demo_state_def mem_alloc_def libc_realloc_def libc_malloc_def upd_page_def page_class_size_def
        page_all_insert_def page_nonfull_insert_def zero_page_def page_data_def Let_def)
  ultimately show ?thesis by simp
qed

text \<open>C3. Destroying a page allocator terminates in every state its clients can bring it to, and frees
  each page once and the state block: all that is left in the backing allocator are the client's own
  large blocks.\<close>

theorem page_alloc_destroy:
  assumes "lua_alloc bf binv" and "page_inv binv s m R"
  shows "\<exists>b' m'. lj_page_alloc_destroy bf destroy s m = Some (destroy b' m') \<and>
     binv b' m' (\<lambda>x. case R x of Some n \<Rightarrow> if 1024 < n then Some n else None | None \<Rightarrow> None)"
  by (rule page_backing.destroy_ok [OF page_backingI [OF assms(1)] assms(2)])

theorem page_alloc_destroy_witness:
  "\<exists>b' m'. lj_page_alloc_destroy mem_alloc (\<lambda>_ m. m) demo_state (\<lambda>_. 0) = Some m' \<and>
     libc_inv b' m' Map.empty"
  using page_alloc_destroy [OF sys.lua_alloc_axioms demo_state_inv, of "\<lambda>_ m. m"] by simp

lemma page_class_size_mono: "c \<le> d \<Longrightarrow> d < 36 \<Longrightarrow> page_class_size ! c \<le> page_class_size ! d"
  by (rule sorted_nth_mono) (simp_all add: page_class_size_def)

text \<open>C5. The size class computed by shifts is the first entry of the class table that holds the
  request.\<close>

theorem page_size_class_best:
  assumes "0 < sz" and "sz \<le> LJ_PAGE_ALLOC_MAX_SIZE"
  shows "page_size_class sz < LJ_PAGE_CLASS_COUNT \<and> sz \<le> page_class_size ! page_size_class sz \<and>
     (\<forall>c < page_size_class sz. page_class_size ! c < sz)"
proof -
  have sz: "sz \<le> 1024" using assms(2) by simp
  note lt = page_size_class_less [OF sz]
  have "page_class_size ! c < sz" if c: "c < page_size_class sz" for c
  proof -
    have "page_class_size ! c \<le> page_class_size ! (page_size_class sz - 1)"
      using c lt by (intro page_class_size_mono) simp_all
    also have "\<dots> < sz" using page_size_class_smallest [OF assms(1) sz] c by simp
    finally show ?thesis .
  qed
  with page_size_class_fits [OF assms(1) sz] lt show ?thesis by simp
qed

theorem page_size_class_best_witness: "page_class_size ! page_size_class 57 = 64"
  using page_size_class_best [of 57] by (simp add: page_size_class_def page_class_size_def)

text \<open>C4. The assertions of \<^verbatim>\<open>page_from_ptr\<close> and of the release and resize paths hold: the prefix of
  each small block of the client names a page with the magic and this owner that has the block within
  its bounds and on a block boundary, a payload that is large enough, and a block in use.\<close>

theorem page_from_ptr_live:
  assumes "lua_alloc bf binv" and "page_inv binv s m R" and "R ptr = Some n" and "n \<le> LJ_PAGE_ALLOC_MAX_SIZE"
  shows "magic (headers s (page_from_ptr m ptr)) = LJ_PAGE_MAGIC
     \<and> owner (headers s (page_from_ptr m ptr)) = self s
     \<and> n \<le> payload_size (headers s (page_from_ptr m ptr))
     \<and> page_data (page_from_ptr m ptr) + LJ_PAGE_PREFIX_SIZE \<le> ptr
     \<and> ptr + n \<le> page_from_ptr m ptr + page_size (headers s (page_from_ptr m ptr))
     \<and> (ptr - LJ_PAGE_PREFIX_SIZE - page_data (page_from_ptr m ptr)) mod stride (headers s (page_from_ptr m ptr)) = 0
     \<and> 0 < busy_count (headers s (page_from_ptr m ptr))"
  using page_backing.small_block_page [OF page_backingI [OF assms(1)] assms(2,3)] assms(4)
  by (simp add: page_data_def)

theorem page_from_ptr_live_witness:
  "case lj_page_alloc_f mem_alloc demo_state (\<lambda>_. 0) 0 0 24 of (s, m, p) \<Rightarrow>
     p = 408 \<and> magic (headers s (page_from_ptr m p)) = LJ_PAGE_MAGIC"
proof -
  obtain s m p where f: "lj_page_alloc_f mem_alloc demo_state (\<lambda>_. 0) 0 0 24 = (s, m, p)"
    by (cases "lj_page_alloc_f mem_alloc demo_state (\<lambda>_. 0) 0 0 24") auto
  have "snd (snd (lj_page_alloc_f mem_alloc demo_state (\<lambda>_. 0) 0 0 24)) = 408"
    by (simp add: lj_page_alloc_f_def page_alloc_small_def page_size_class_def page_new_def page_take_def
        demo_state_def mem_alloc_def libc_realloc_def libc_malloc_def upd_page_def page_class_size_def
        page_all_insert_def page_nonfull_insert_def zero_page_def page_data_def Let_def)
  then have p: "p = 408" using f by simp
  from page_backing.front_malloc [OF page_backingI [OF sys.lua_alloc_axioms] demo_state_inv _ f] p
  have "page_inv libc_inv s m [408 \<mapsto> 24]" by simp
  from page_from_ptr_live [OF sys.lua_alloc_axioms this, of 408 24] p f show ?thesis by simp
qed

end
