(* ===== verification/Value.thy ===== *)
theory Value
  imports Prelude
begin

text \<open>
  Tagged values, \<^verbatim>\<open>src/src/lj_obj.h\<close> and \<^verbatim>\<open>src/src/lj_obj.c\<close> (64 bit references, no dual-number
  mode): a \<^verbatim>\<open>TValue\<close> is its 64 bit pattern, either a double or a tag in the top 17 bits over a 47 bit
  payload. Doubles are kept as bit patterns; the conversions between doubles and 32 bit integers
  are those of the x64 helpers in \<^verbatim>\<open>src/src/vm_x64.dasc\<close>.
\<close>

type_synonym tvalue = u64

section \<open>Tags\<close>

definition LJ_TNIL :: u32 where "LJ_TNIL = NOT 0"
definition LJ_TFALSE :: u32 where "LJ_TFALSE = NOT 1"
definition LJ_TTRUE :: u32 where "LJ_TTRUE = NOT 2"
definition LJ_TLIGHTUD :: u32 where "LJ_TLIGHTUD = NOT 3"
definition LJ_TSTR :: u32 where "LJ_TSTR = NOT 4"
definition LJ_TUPVAL :: u32 where "LJ_TUPVAL = NOT 5"
definition LJ_TTHREAD :: u32 where "LJ_TTHREAD = NOT 6"
definition LJ_TPROTO :: u32 where "LJ_TPROTO = NOT 7"
definition LJ_TFUNC :: u32 where "LJ_TFUNC = NOT 8"
definition LJ_TTRACE :: u32 where "LJ_TTRACE = NOT 9"
definition LJ_TCDATA :: u32 where "LJ_TCDATA = NOT 10"
definition LJ_TTAB :: u32 where "LJ_TTAB = NOT 11"
definition LJ_TUDATA :: u32 where "LJ_TUDATA = NOT 12"
definition LJ_TNUMX :: u32 where "LJ_TNUMX = NOT 13"
definition LJ_TISNUM :: u32 where "LJ_TISNUM = LJ_TNUMX"
definition LJ_TISTRUECOND :: u32 where "LJ_TISTRUECOND = LJ_TFALSE"
definition LJ_TISPRI :: u32 where "LJ_TISPRI = LJ_TTRUE"
definition LJ_TISGCV :: u32 where "LJ_TISGCV = LJ_TSTR + 1"
definition LJ_KEYINDEX :: u32 where "LJ_KEYINDEX = 0xfffe7fff"

definition LJ_GCVMASK :: u64 where "LJ_GCVMASK = push_bit 47 1 - 1"

lemmas tag_defs = LJ_TNIL_def LJ_TFALSE_def LJ_TTRUE_def LJ_TLIGHTUD_def LJ_TSTR_def LJ_TUPVAL_def
  LJ_TTHREAD_def LJ_TPROTO_def LJ_TFUNC_def LJ_TTRACE_def LJ_TCDATA_def LJ_TTAB_def LJ_TUDATA_def
  LJ_TNUMX_def LJ_TISNUM_def LJ_TISTRUECOND_def LJ_TISPRI_def LJ_TISGCV_def

definition itype :: "tvalue \<Rightarrow> u32" where
  "itype v = ucast (signed_drop_bit 47 v)"

definition niltv :: tvalue where "niltv = - 1"

definition tvisnil :: "tvalue \<Rightarrow> bool" where "tvisnil v \<longleftrightarrow> v = - 1"
definition tvisfalse :: "tvalue \<Rightarrow> bool" where "tvisfalse v \<longleftrightarrow> itype v = LJ_TFALSE"
definition tvistrue :: "tvalue \<Rightarrow> bool" where "tvistrue v \<longleftrightarrow> itype v = LJ_TTRUE"
definition tvisbool :: "tvalue \<Rightarrow> bool" where "tvisbool v \<longleftrightarrow> tvisfalse v \<or> tvistrue v"
definition tvislightud :: "tvalue \<Rightarrow> bool" where "tvislightud v \<longleftrightarrow> itype v = LJ_TLIGHTUD"
definition tvisstr :: "tvalue \<Rightarrow> bool" where "tvisstr v \<longleftrightarrow> itype v = LJ_TSTR"
definition tvisfunc :: "tvalue \<Rightarrow> bool" where "tvisfunc v \<longleftrightarrow> itype v = LJ_TFUNC"
definition tvisthread :: "tvalue \<Rightarrow> bool" where "tvisthread v \<longleftrightarrow> itype v = LJ_TTHREAD"
definition tvisproto :: "tvalue \<Rightarrow> bool" where "tvisproto v \<longleftrightarrow> itype v = LJ_TPROTO"
definition tviscdata :: "tvalue \<Rightarrow> bool" where "tviscdata v \<longleftrightarrow> itype v = LJ_TCDATA"
definition tvistab :: "tvalue \<Rightarrow> bool" where "tvistab v \<longleftrightarrow> itype v = LJ_TTAB"
definition tvisudata :: "tvalue \<Rightarrow> bool" where "tvisudata v \<longleftrightarrow> itype v = LJ_TUDATA"
definition tvisnumber :: "tvalue \<Rightarrow> bool" where "tvisnumber v \<longleftrightarrow> itype v \<le> LJ_TISNUM"
definition tvisnum :: "tvalue \<Rightarrow> bool" where "tvisnum v \<longleftrightarrow> itype v < LJ_TISNUM"
definition tvistruecond :: "tvalue \<Rightarrow> bool" where "tvistruecond v \<longleftrightarrow> itype v < LJ_TISTRUECOND"
definition tvispri :: "tvalue \<Rightarrow> bool" where "tvispri v \<longleftrightarrow> itype v \<ge> LJ_TISPRI"
definition tvisgcv :: "tvalue \<Rightarrow> bool" where
  "tvisgcv v \<longleftrightarrow> itype v - LJ_TISGCV > LJ_TNUMX - LJ_TISGCV"

definition itypemap :: "tvalue \<Rightarrow> u32" where
  "itypemap v = (if tvisnumber v then NOT LJ_TNUMX else NOT (itype v))"

definition gcval :: "tvalue \<Rightarrow> u64" where "gcval v = v AND LJ_GCVMASK"
definition boolV :: "tvalue \<Rightarrow> u32" where "boolV v = LJ_TFALSE - itype v"

definition setpriV :: "u32 \<Rightarrow> tvalue" where
  "setpriV x = NOT (push_bit 47 (ucast (NOT x)))"
definition setboolV :: "u32 \<Rightarrow> tvalue" where
  "setboolV x = NOT (push_bit 47 (ucast (x + 1)))"
definition setgcVraw :: "u64 \<Rightarrow> u32 \<Rightarrow> tvalue" where
  "setgcVraw p it = p OR push_bit 47 (ucast it)"

section \<open>Doubles\<close>

definition lo32 :: "tvalue \<Rightarrow> u32" where "lo32 v = ucast v"
definition hi32 :: "tvalue \<Rightarrow> u32" where "hi32 v = ucast (drop_bit 32 v)"

definition dsign :: "u64 \<Rightarrow> bool" where "dsign w \<longleftrightarrow> bit w 63"
definition dexp :: "u64 \<Rightarrow> nat" where "dexp w = unat w div 2 ^ 52 mod 2 ^ 11"
definition dmant :: "u64 \<Rightarrow> nat" where "dmant w = unat w mod 2 ^ 52"

definition num_isnan :: "u64 \<Rightarrow> bool" where "num_isnan w \<longleftrightarrow> dexp w = 2047 \<and> dmant w \<noteq> 0"

definition tviszero :: "tvalue \<Rightarrow> bool" where "tviszero v \<longleftrightarrow> push_bit 1 v = 0"
definition tvismzero :: "tvalue \<Rightarrow> bool" where "tvismzero v \<longleftrightarrow> v = 0x8000000000000000"

text \<open>The comparison \<^verbatim>\<open>==\<close> of doubles: NaN equals nothing and both zeros are equal.\<close>

definition num_eq :: "u64 \<Rightarrow> u64 \<Rightarrow> bool" where
  "num_eq a b \<longleftrightarrow> \<not> num_isnan a \<and> \<not> num_isnan b \<and> (a = b \<or> tviszero a \<and> tviszero b)"

definition tvisnan :: "tvalue \<Rightarrow> bool" where "tvisnan v \<longleftrightarrow> \<not> num_eq v v"

text \<open>\<^verbatim>\<open>cvtsi2sd\<close>: the double of a 32 bit integer, which is exact.\<close>

definition num_of_nat :: "nat \<Rightarrow> u64" where
  "num_of_nat n = (if n = 0 then 0
     else word_of_nat ((1022 + fls_nat n) * 2 ^ 52 + n * 2 ^ (52 - fls_nat n)))"

definition num_of_int :: "int \<Rightarrow> u64" where
  "num_of_int i = (if i < 0 then num_of_nat (nat (- i)) + 0x8000000000000000 else num_of_nat (nat i))"

text \<open>\<^verbatim>\<open>cvttsd2si\<close>: truncation towards zero; \<open>-2^(w-1)\<close> when the value does not fit or is not a number.\<close>

definition num_trunc :: "u64 \<Rightarrow> nat" where
  "num_trunc w = (if dexp w < 1023 then 0
     else if dexp w \<le> 1075 then (2 ^ 52 + dmant w) div 2 ^ (1075 - dexp w)
     else (2 ^ 52 + dmant w) * 2 ^ (dexp w - 1075))"

definition cvttsd2si :: "nat \<Rightarrow> u64 \<Rightarrow> int" where
  "cvttsd2si width w =
     (let i = (if dsign w then - int (num_trunc w) else int (num_trunc w))
      in if dexp w < 2047 \<and> - (2 ^ (width - 1)) \<le> i \<and> i < 2 ^ (width - 1) then i
         else - (2 ^ (width - 1)))"

definition lj_vm_num2int_check :: "u64 \<Rightarrow> u64" where
  "lj_vm_num2int_check x =
     (let k = cvttsd2si 32 x
      in if num_eq (num_of_int k) x then ucast (word_of_int k :: u32) else 0x8000000080000000)"

definition lj_num2int_check :: "u64 \<Rightarrow> u32 option" where
  "lj_num2int_check x =
     (let i64 = lj_vm_num2int_check x
      in if 0 \<le> sint i64 then Some (ucast i64) else None)"

text \<open>\<^verbatim>\<open>lj_num2int_cond(x, i64, k, (uint32_t)i64 < lim)\<close>.\<close>

definition lj_num2int_below :: "u64 \<Rightarrow> nat \<Rightarrow> nat option" where
  "lj_num2int_below x lim =
     (let i64 = lj_vm_num2int_check x
      in if unat (ucast i64 :: u32) < lim then Some (unat (ucast i64 :: u32)) else None)"

section \<open>Raw equality\<close>

definition lj_obj_equal :: "tvalue \<Rightarrow> tvalue \<Rightarrow> bool" where
  "lj_obj_equal o1 o2 =
     (if itype o1 = itype o2 then
        if tvispri o1 then True
        else if \<not> tvisnum o1 then o1 = o2
        else num_eq o1 o2
      else if \<not> tvisnumber o1 \<or> \<not> tvisnumber o2 then False
      else num_eq o1 o2)"

section \<open>Integers as doubles\<close>

lemma dsign_iff: "dsign w \<longleftrightarrow> 2 ^ 63 \<le> unat w"
proof -
  have "dsign w \<longleftrightarrow> bit (unat w) 63" by (simp add: dsign_def bit_unsigned_iff)
  also have "\<dots> \<longleftrightarrow> odd (unat w div 2 ^ 63)" by (simp only: bit_iff_odd)
  also have "\<dots> \<longleftrightarrow> 2 ^ 63 \<le> unat w"
  proof (cases "2 ^ 63 \<le> unat w")
    case True
    moreover have "unat w < 2 * 2 ^ 63" using unsigned_less [of w] by simp
    ultimately have "unat w div 2 ^ 63 = 1" by (intro div_nat_eqI) simp_all
    with True show ?thesis by simp
  next
    case False
    then show ?thesis by simp
  qed
  finally show ?thesis .
qed

lemma num_of_nat_fields:
  assumes "0 < n" and "n < 2 ^ 53"
  shows "dexp (num_of_nat n) = 1023 + fls_nat n" "dmant (num_of_nat n) = n * 2 ^ (52 - fls_nat n) - 2 ^ 52"
    "\<not> dsign (num_of_nat n)" "fls_nat n \<le> 52"
proof -
  let ?e = "fls_nat n"
  note b = fls_nat_bounds [OF assms(1)]
  have "(2::nat) ^ ?e < 2 ^ 53" using b assms(2) by linarith
  from power_less_imp_less_exp [OF _ this] show e: "?e \<le> 52" by simp
  define m where "m = n * 2 ^ (52 - ?e) - 2 ^ 52"
  have p: "(2::nat) ^ ?e * 2 ^ (52 - ?e) = 2 ^ 52" using e by (simp flip: power_add)
  have lo: "2 ^ 52 \<le> n * 2 ^ (52 - ?e)" using b p by (metis mult_le_mono1)
  have "n * 2 ^ (52 - ?e) < 2 ^ Suc ?e * 2 ^ (52 - ?e)" using b by (intro mult_strict_right_mono) auto
  also have "\<dots> = 2 * 2 ^ 52" using p by (simp only: power_Suc mult.assoc)
  finally have hi: "n * 2 ^ (52 - ?e) < 2 * 2 ^ 52" .
  have m: "m < 2 ^ 52" using lo hi by (simp add: m_def)
  have val: "(1022 + ?e) * 2 ^ 52 + n * 2 ^ (52 - ?e) = (1023 + ?e) * 2 ^ 52 + m"
    using lo by (simp add: m_def add_mult_distrib)
  have bnd: "(1023 + ?e) * 2 ^ 52 + m < 2 ^ 63"
  proof -
    have "(1023 + ?e) * 2 ^ 52 \<le> 1075 * 2 ^ 52" using e by simp
    with m show ?thesis by simp
  qed
  have u: "unat (num_of_nat n) = (1023 + ?e) * 2 ^ 52 + m"
  proof -
    have "num_of_nat n = word_of_nat ((1023 + ?e) * 2 ^ 52 + m)"
      using assms(1) by (simp only: num_of_nat_def val) simp
    moreover have "(1023 + ?e) * 2 ^ 52 + m < 2 ^ LENGTH(64)" using bnd by simp
    ultimately show ?thesis by (simp only: unat_of_nat mod_less)
  qed
  have "unat (num_of_nat n) div 2 ^ 52 = 1023 + ?e" unfolding u using m by simp
  then show "dexp (num_of_nat n) = 1023 + ?e" using e by (simp add: dexp_def)
  show "dmant (num_of_nat n) = n * 2 ^ (52 - ?e) - 2 ^ 52" unfolding dmant_def u m_def [symmetric] using m by (simp only: mod_mult_self3 mod_less)
  show "\<not> dsign (num_of_nat n)"
    using u bnd by (simp add: dsign_iff)
qed

lemma num_trunc_of_nat: "n < 2 ^ 53 \<Longrightarrow> num_trunc (num_of_nat n) = n"
proof (cases "n = 0")
  case True
  then show ?thesis by (simp add: num_of_nat_def num_trunc_def dexp_def)
next
  case False
  assume n: "n < 2 ^ 53"
  let ?e = "fls_nat n"
  have n0: "0 < n" using False by simp
  note f = num_of_nat_fields [OF n0 n]
  have "2 ^ 52 \<le> n * 2 ^ (52 - ?e)"
  proof -
    have "(2::nat) ^ 52 = 2 ^ ?e * 2 ^ (52 - ?e)" using f(4) by (simp flip: power_add)
    then show ?thesis using fls_nat_bounds [OF n0] by (metis mult_le_mono1)
  qed
  then have "2 ^ 52 + dmant (num_of_nat n) = n * 2 ^ (52 - ?e)" using f(2) by simp
  moreover have "1075 - dexp (num_of_nat n) = 52 - ?e" using f(1) by simp
  ultimately show ?thesis using f(1,4) by (simp add: num_trunc_def)
qed

text \<open>Negation flips the sign bit.\<close>

lemma neg_fields:
  assumes "\<not> dsign w"
  shows "dsign (w + 0x8000000000000000)" "dexp (w + 0x8000000000000000) = dexp w"
    "dmant (w + 0x8000000000000000) = dmant w"
proof -
  have lt: "unat w < 2 ^ 63" using assms by (simp add: dsign_iff)
  have u: "unat (w + 0x8000000000000000) = unat w + 2 ^ 63"
    using lt by (simp add: unat_word_ariths)
  show "dsign (w + 0x8000000000000000)" using u by (simp add: dsign_iff)
  have e: "unat w + 2 ^ 63 = unat w + 2 ^ 11 * 2 ^ 52" by simp
  have "(unat w + 2 ^ 63) div 2 ^ 52 = unat w div 2 ^ 52 + 2 ^ 11"
    unfolding e by (subst div_mult_self1) simp_all
  then show "dexp (w + 0x8000000000000000) = dexp w" by (simp add: dexp_def u)
  have "(unat w + 2 ^ 63) mod 2 ^ 52 = unat w mod 2 ^ 52" unfolding e by (rule mod_mult_self1)
  then show "dmant (w + 0x8000000000000000) = dmant w" by (simp add: dmant_def u)
qed

lemma num_of_nat_0 [simp]: "num_of_nat 0 = 0"
  by (simp add: num_of_nat_def)

lemma zero_fields [simp]: "dexp 0 = 0" "dmant 0 = 0" "\<not> dsign 0"
  by (simp_all add: dexp_def dmant_def dsign_def)

lemma num_of_nat_sign: "n < 2 ^ 53 \<Longrightarrow> \<not> dsign (num_of_nat n)"
  by (cases "n = 0") (simp_all add: num_of_nat_fields)

lemma num_of_nat_exp: "n < 2 ^ 53 \<Longrightarrow> dexp (num_of_nat n) < 2047"
  using num_of_nat_fields(1,4) [of n] by (cases "n = 0") simp_all

lemma num_of_int_fields:
  assumes "\<bar>i\<bar> < 2 ^ 53"
  shows "dexp (num_of_int i) < 2047" "num_trunc (num_of_int i) = nat \<bar>i\<bar>" "dsign (num_of_int i) \<longleftrightarrow> i < 0"
proof -
  have n: "nat \<bar>i\<bar> < 2 ^ 53" using assms by (simp add: nat_less_iff)
  note s = num_of_nat_sign [OF n] and e = num_of_nat_exp [OF n] and t = num_trunc_of_nat [OF n]
  show "dexp (num_of_int i) < 2047" using e neg_fields(2) [OF s] by (auto simp: num_of_int_def)
  show "num_trunc (num_of_int i) = nat \<bar>i\<bar>"
    using t neg_fields(2,3) [OF s] by (auto simp: num_of_int_def num_trunc_def)
  show "dsign (num_of_int i) \<longleftrightarrow> i < 0" using s neg_fields(1) [OF s] by (auto simp: num_of_int_def)
qed

lemma num_of_int_inj:
  "\<bar>i\<bar> < 2 ^ 53 \<Longrightarrow> \<bar>j\<bar> < 2 ^ 53 \<Longrightarrow> num_of_int i = num_of_int j \<Longrightarrow> i = j"
  using num_of_int_fields [of i] num_of_int_fields [of j] by (metis abs_of_neg abs_of_nonneg linorder_not_less nat_eq_iff2 abs_ge_zero neg_equal_iff_equal)

lemma num_of_int_not_nan: "\<bar>i\<bar> < 2 ^ 53 \<Longrightarrow> \<not> num_isnan (num_of_int i)"
  using num_of_int_fields(1) [of i] by (auto simp: num_isnan_def)

lemma cvttsd2si_of_int:
  assumes "- (2 ^ (w - 1)) \<le> i" and "i < 2 ^ (w - 1)" and "\<bar>i\<bar> < 2 ^ 53"
  shows "cvttsd2si w (num_of_int i) = i"
  using assms num_of_int_fields [OF assms(3)] by (auto simp: cvttsd2si_def Let_def)

lemma sint_range32: "- (2 ^ 31) \<le> sint (k :: u32)" "sint k < 2 ^ 31" "\<bar>sint k\<bar> < 2 ^ 53"
  using sint_greater_eq [of k] sint_less [of k] by auto

lemma ucast_32_64_32 [simp]: "(ucast (ucast (x :: u32) :: u64) :: u32) = x"
  by (rule bit_word_eqI) (simp add: bit_simps)

text \<open>Every 32 bit integer survives the round trip through a double.\<close>

lemma num2int_of_int: "lj_num2int_check (num_of_int (sint k)) = Some k"
proof -
  note r = sint_range32 [of k]
  have c: "cvttsd2si 32 (num_of_int (sint k)) = sint k" using r by (intro cvttsd2si_of_int) simp_all
  have "num_eq (num_of_int (sint k)) (num_of_int (sint k))" using num_of_int_not_nan [OF r(3)] by (simp add: num_eq_def)
  then have v: "lj_vm_num2int_check (num_of_int (sint k)) = ucast k" by (simp add: lj_vm_num2int_check_def c)
  have "0 \<le> sint (ucast k :: u64)" 
    by (auto simp: sint_uint signed_take_bit_eq_if_positive bit_simps dest: bit_imp_le_length)
  then show ?thesis by (simp add: lj_num2int_check_def v)
qed

lemma num2int_Some: "lj_num2int_check x = Some k \<Longrightarrow> num_eq (num_of_int (sint k)) x"
proof -
  assume a: "lj_num2int_check x = Some k"
  define i where "i = cvttsd2si 32 x"
  have r: "- (2 ^ 31) \<le> i" "i < 2 ^ 31" by (auto simp: i_def cvttsd2si_def Let_def)
  have "\<not> 0 \<le> sint (0x8000000080000000 :: u64)" by simp
  with a have e: "num_eq (num_of_int i) x" and k: "k = word_of_int i"
    by (auto simp: lj_num2int_check_def lj_vm_num2int_check_def i_def Let_def split: if_splits)
  have "sint (word_of_int i :: u32) = i"
    using r by (simp add: signed_of_int signed_take_bit_int_eq_self)
  with e k show ?thesis by simp
qed

section \<open>Numeric equality and keys\<close>

lemma tviszero_iff: "tviszero v \<longleftrightarrow> v = 0 \<or> v = 0x8000000000000000"
proof
  assume "tviszero v"
  then have z: "push_bit 1 v = 0" unfolding tviszero_def .
  have "\<not> bit v i" if "i < 63" for i
  proof -
    have "\<not> bit (push_bit 1 v) (Suc i)" unfolding z by (simp only: bit_0_eq bot_apply not_False_eq_True bot_bool_def)
    then show ?thesis using that unfolding bit_push_bit_iff by simp
  qed
  then have b: "bit v n \<longleftrightarrow> n = 63 \<and> bit v 63" for n
    using bit_imp_le_length [of v n] by (cases "n = 63") (auto simp: not_less_iff_gr_or_eq)
  have bb: "bit (0x8000000000000000 :: u64) n \<longleftrightarrow> n = 63" for n
  proof -
    have "(0x8000000000000000 :: u64) = push_bit 63 1" by simp
    then show ?thesis by (auto simp only: bit_push_bit_iff possible_bit_word bit_1_iff) simp_all
  qed
  show "v = 0 \<or> v = 0x8000000000000000"
  proof (cases "bit v 63")
    case True
    have "v = 0x8000000000000000" by (rule bit_eqI) (use b bb True in blast)
    then show ?thesis ..
  next
    case False
    have "v = 0" by (rule bit_eqI) (use b False in \<open>simp add: bit_0_eq\<close>)
    then show ?thesis ..
  qed
qed (auto simp: tviszero_def)

lemma zero_not_nan: "tviszero v \<Longrightarrow> \<not> num_isnan v"
  by (auto simp: tviszero_iff num_isnan_def dmant_def)

text \<open>\<open>ckey\<close> identifies the two zeros: equality of numbers is equality of canonical bits.\<close>

definition ckey :: "tvalue \<Rightarrow> tvalue" where
  "ckey v = (if tvismzero v then 0 else v)"

lemma num_eq_ckey: "num_eq a b \<longleftrightarrow> \<not> num_isnan a \<and> \<not> num_isnan b \<and> ckey a = ckey b"
  by (auto simp: num_eq_def ckey_def tvismzero_def tviszero_iff num_isnan_def dmant_def)

lemma num_eq_sym: "num_eq a b = num_eq b a"
  by (auto simp: num_eq_def)

lemma num_eq_trans: "num_eq a b \<Longrightarrow> num_eq b c \<Longrightarrow> num_eq a c"
  by (auto simp: num_eq_ckey)

lemma tvisnan_iff: "tvisnan v = num_isnan v"
  by (auto simp: tvisnan_def num_eq_def)

lemma ckey_idem [simp]: "ckey (ckey v) = ckey v"
  by (simp add: ckey_def tvismzero_def)

lemma dexp_mzero [simp]: "dexp 0x8000000000000000 = 0" "dmant 0x8000000000000000 = 0"
  by (simp_all add: dexp_def dmant_def)

lemma num2int_ckey: "lj_num2int_check (ckey v) = lj_num2int_check v"
proof (cases "v = 0x8000000000000000")
  case True
  have "lj_vm_num2int_check 0x8000000000000000 = lj_vm_num2int_check 0"
    by (simp add: lj_vm_num2int_check_def cvttsd2si_def num_trunc_def num_of_int_def num_eq_def num_isnan_def tviszero_def)
  with True show ?thesis by (simp add: ckey_def tvismzero_def lj_num2int_check_def)
qed (simp add: ckey_def tvismzero_def)

lemma num_of_int_not_mzero: "\<bar>i\<bar> < 2 ^ 53 \<Longrightarrow> num_of_int i \<noteq> 0x8000000000000000"
proof
  assume i: "\<bar>i\<bar> < 2 ^ 53" and e: "num_of_int i = 0x8000000000000000"
  have "num_trunc (num_of_int i) = 0" unfolding e by (simp add: num_trunc_def)
  with num_of_int_fields(2) [OF i] have "i = 0" by simp
  with e show False by (simp add: num_of_int_def)
qed

lemma ckey_num_of_int: "\<bar>i\<bar> < 2 ^ 53 \<Longrightarrow> ckey (num_of_int i) = num_of_int i"
  using num_of_int_not_mzero by (simp add: ckey_def tvismzero_def)

text \<open>The integer keys are exactly the canonical doubles of 32 bit integers.\<close>

lemma num2int_iff: "lj_num2int_check x = Some k \<longleftrightarrow> ckey x = num_of_int (sint k)"
proof
  assume "lj_num2int_check x = Some k"
  then show "ckey x = num_of_int (sint k)"
    using num2int_Some [of x k] ckey_num_of_int [OF sint_range32(3)] by (simp add: num_eq_ckey)
next
  assume "ckey x = num_of_int (sint k)"
  then have "lj_num2int_check (ckey x) = Some k" by (simp add: num2int_of_int)
  then show "lj_num2int_check x = Some k" by (simp add: num2int_ckey)
qed

end
