(* ===== verification/Tab.thy ===== *)
theory Tab
  imports Value
begin

text \<open>
  Lua tables, \<^verbatim>\<open>src/src/lj_tab.c\<close> and \<^verbatim>\<open>src/src/lj_tab.h\<close>: an array part and a hash part whose
  collisions are chained through the nodes themselves (Brent's variation). A node pointer is its
  index in the node vector, \<^verbatim>\<open>NULL\<close> is \<open>None\<close>; an empty hash part is the one fallback node.
  What the code reads outside the table is in the environment: the id stored in a string object, and
  whether the allocator grants a request.
\<close>

section \<open>Data\<close>

record node =
  nval :: tvalue
  nkey :: tvalue
  nnext :: "nat option"

definition nilnode :: node where
  "nilnode = \<lparr>nval = niltv, nkey = niltv, nnext = None\<rparr>"

text \<open>\<open>array\<close> is the physical vector, \<open>asize\<close> the size the table uses. \<open>colo\<close> is the \<^verbatim>\<open>int8_t\<close> that
  tells a colocated array (positive), a separated one (negative) and none (0).\<close>

record gctab =
  nomm :: u8
  colo :: u8
  array :: "tvalue list"
  asize :: nat
  nodes :: "node list"
  hmask :: nat
  freetop :: nat
  metatable :: u64
  black :: bool

record tabenv =
  sid :: "u64 \<Rightarrow> u32"
  mem_ok :: "nat \<Rightarrow> bool"
  junk_node :: node
  junk_tv :: tvalue

datatype slot = ASlot nat | NSlot nat

definition sizeof_GCtab :: nat where "sizeof_GCtab = 64"
definition sizeof_Node :: nat where "sizeof_Node = 24"
definition sizeof_TValue :: nat where "sizeof_TValue = 8"

section \<open>Hashing\<close>

definition hashrot :: "u32 \<Rightarrow> u32 \<Rightarrow> u32" where
  "hashrot lo hi =
     (let lo = lo XOR hi; hi = lj_rol hi 14;
          lo = lo - hi; hi = lj_rol hi 5;
          hi = hi XOR lo
      in hi - lj_rol lo 13)"

definition keyhash :: "tabenv \<Rightarrow> tvalue \<Rightarrow> u32" where
  "keyhash env key =
     (if tvisstr key then sid env (gcval key)
      else if tvisnum key then hashrot (lo32 key) (push_bit 1 (hi32 key))
      else if tvisbool key then boolV key
      else hashrot (lo32 key) (hi32 key))"

definition hashmask :: "gctab \<Rightarrow> u32 \<Rightarrow> nat" where
  "hashmask t h = unat (h AND word_of_nat (hmask t))"

definition hashkey :: "tabenv \<Rightarrow> gctab \<Rightarrow> tvalue \<Rightarrow> nat" where
  "hashkey env t key = hashmask t (keyhash env key)"

definition hsize2hbits :: "nat \<Rightarrow> nat" where
  "hsize2hbits s = (if s \<noteq> 0 then if s = 1 then 1 else 1 + fls_nat (s - 1) else 0)"

section \<open>Creation\<close>

definition no_hpart :: "gctab \<Rightarrow> gctab" where
  "no_hpart t = t\<lparr>nodes := [nilnode], freetop := 0, hmask := 0\<rparr>"

definition newhpart :: "tabenv \<Rightarrow> gctab \<Rightarrow> nat \<Rightarrow> gctab comp" where
  "newhpart env t hbits =
     (if hbits > LJ_MAX_HBITS then Raise LJ_ERR_TABOV
      else let hsize = 2 ^ hbits in
        if \<not> mem_ok env (hsize * sizeof_Node) then Raise LJ_ERR_ERRMEM
        else Done (t\<lparr>nodes := replicate hsize (junk_node env), freetop := hsize, hmask := hsize - 1\<rparr>))"

definition clearhpart :: "gctab \<Rightarrow> gctab" where
  "clearhpart t = t\<lparr>nodes := map (\<lambda>i. if i \<le> hmask t then nilnode else nodes t ! i) [0..<length (nodes t)]\<rparr>"

definition clearapart :: "gctab \<Rightarrow> gctab" where
  "clearapart t = t\<lparr>array := map (\<lambda>i. if i < asize t then niltv else array t ! i) [0..<length (array t)]\<rparr>"

definition sizetabcolo :: "nat \<Rightarrow> nat" where
  "sizetabcolo n = n * sizeof_TValue + sizeof_GCtab"

definition newtab :: "tabenv \<Rightarrow> nat \<Rightarrow> nat \<Rightarrow> gctab comp" where
  "newtab env as hbits =
     cbind
       (if 0 < as \<and> as \<le> LJ_MAX_COLOSIZE then
          if \<not> mem_ok env (sizetabcolo as) then Raise LJ_ERR_ERRMEM
          else Done (no_hpart \<lparr>nomm = 0xff, colo = word_of_nat as, array = replicate as (junk_tv env),
                 asize = as, nodes = [], hmask = 0, freetop = 0, metatable = 0, black = False\<rparr>)
        else
          if \<not> mem_ok env sizeof_GCtab then Raise LJ_ERR_ERRMEM
          else let t = no_hpart \<lparr>nomm = 0xff, colo = 0, array = [], asize = 0, nodes = [], hmask = 0,
                         freetop = 0, metatable = 0, black = False\<rparr>
               in if 0 < as then
                    if as > LJ_MAX_ASIZE then Raise LJ_ERR_TABOV
                    else if \<not> mem_ok env (as * sizeof_TValue) then Raise LJ_ERR_ERRMEM
                    else Done (t\<lparr>array := replicate as (junk_tv env), asize := as\<rparr>)
                  else Done t)
       (\<lambda>t. if hbits \<noteq> 0 then newhpart env t hbits else Done t)"

definition lj_tab_new :: "tabenv \<Rightarrow> nat \<Rightarrow> nat \<Rightarrow> gctab comp" where
  "lj_tab_new env as hbits =
     cbind (newtab env as hbits) (\<lambda>t.
       let t = clearapart t in Done (if 0 < hmask t then clearhpart t else t))"

definition lj_tab_new_ah :: "tabenv \<Rightarrow> nat \<Rightarrow> nat \<Rightarrow> gctab comp" where
  "lj_tab_new_ah env a h = lj_tab_new env (if a \<noteq> 0 then a + 1 else 0) (hsize2hbits h)"

definition lj_tab_new1 :: "tabenv \<Rightarrow> u32 \<Rightarrow> gctab comp" where
  "lj_tab_new1 env ahsize =
     cbind (newtab env (unat (ahsize AND 0xffffff)) (unat (drop_bit 24 ahsize))) (\<lambda>t.
       let t = clearapart t in Done (if 0 < hmask t then clearhpart t else t))"

definition dup_node :: "bool \<Rightarrow> node \<Rightarrow> node" where
  "dup_node is_tab_clone kn =
     \<lparr>nval = (if \<not> is_tab_clone \<and> tvistab (nval kn) then niltv else nval kn), nkey = nkey kn,
      nnext = nnext kn\<rparr>"

definition lj_tab_dup_helper :: "tabenv \<Rightarrow> gctab \<Rightarrow> bool \<Rightarrow> gctab comp" where
  "lj_tab_dup_helper env kt is_tab_clone =
     cbind (newtab env (asize kt) (if 0 < hmask kt then fls_nat (hmask kt) + 1 else 0)) (\<lambda>t.
       let t = t\<lparr>nomm := 0\<rparr>;
           t = (if 0 < asize kt then t\<lparr>array := take (asize kt) (array kt) @ drop (asize kt) (array t)\<rparr> else t)
       in Done (if 0 < hmask kt
                then t\<lparr>freetop := freetop kt, nodes := map (dup_node is_tab_clone) (take (hmask kt + 1) (nodes kt))\<rparr>
                else t))"

definition lj_tab_dup :: "tabenv \<Rightarrow> gctab \<Rightarrow> gctab comp" where
  "lj_tab_dup env kt = lj_tab_dup_helper env kt False"

definition lj_tab_clone :: "tabenv \<Rightarrow> gctab \<Rightarrow> gctab comp" where
  "lj_tab_clone env src = lj_tab_dup_helper env src True"

definition lj_tab_clear :: "gctab \<Rightarrow> gctab" where
  "lj_tab_clear t =
     (let t = clearapart t
      in if 0 < hmask t then clearhpart (t\<lparr>freetop := hmask t + 1\<rparr>) else t)"

text \<open>The sizes \<^verbatim>\<open>lj_tab_free\<close> gives back, in order.\<close>

definition lj_tab_free :: "gctab \<Rightarrow> nat list" where
  "lj_tab_free t =
     (if 0 < hmask t then [(hmask t + 1) * sizeof_Node] else []) @
     (if 0 < asize t \<and> sint (colo t) \<le> 0 then [asize t * sizeof_TValue] else []) @
     [if colo t \<noteq> 0 then sizetabcolo (unat (colo t AND 0x7f)) else sizeof_GCtab]"

section \<open>Getters\<close>

text \<open>The loop \<^verbatim>\<open>do { if (P key) ...; } while ((n = nextnode(n)))\<close>.\<close>

fun chain_find :: "nat \<Rightarrow> node list \<Rightarrow> (tvalue \<Rightarrow> bool) \<Rightarrow> nat \<Rightarrow> nat option comp" where
  "chain_find 0 ns P i = Stuck"
| "chain_find (Suc f) ns P i =
     (if P (nkey (ns ! i)) then Done (Some i)
      else case nnext (ns ! i) of None \<Rightarrow> Done None | Some j \<Rightarrow> chain_find f ns P j)"

definition find_node :: "gctab \<Rightarrow> (tvalue \<Rightarrow> bool) \<Rightarrow> nat \<Rightarrow> nat option comp" where
  "find_node t P i = chain_find (length (nodes t)) (nodes t) P i"

definition inarray :: "gctab \<Rightarrow> u32 \<Rightarrow> bool" where
  "inarray t key \<longleftrightarrow> unat key < asize t"

definition node_value :: "gctab \<Rightarrow> nat option \<Rightarrow> tvalue option" where
  "node_value t i = map_option (\<lambda>i. nval (nodes t ! i)) i"

definition lj_tab_getinth :: "tabenv \<Rightarrow> gctab \<Rightarrow> u32 \<Rightarrow> tvalue option comp" where
  "lj_tab_getinth env t key =
     (let k = num_of_int (sint key)
      in cbind (find_node t (\<lambda>x. tvisnum x \<and> num_eq x k) (hashkey env t k)) (\<lambda>i. Done (node_value t i)))"

definition lj_tab_getstr :: "tabenv \<Rightarrow> gctab \<Rightarrow> u64 \<Rightarrow> tvalue option comp" where
  "lj_tab_getstr env t key =
     cbind (find_node t (\<lambda>x. tvisstr x \<and> gcval x = key) (hashmask t (sid env key)))
       (\<lambda>i. Done (node_value t i))"

definition lj_tab_getint :: "tabenv \<Rightarrow> gctab \<Rightarrow> u32 \<Rightarrow> tvalue option comp" where
  "lj_tab_getint env t key =
     (if inarray t key then Done (Some (array t ! unat key)) else lj_tab_getinth env t key)"

definition or_nil :: "tvalue option comp \<Rightarrow> tvalue comp" where
  "or_nil c = cbind c (\<lambda>v. Done (case v of Some v \<Rightarrow> v | None \<Rightarrow> niltv))"

definition lj_tab_get :: "tabenv \<Rightarrow> gctab \<Rightarrow> tvalue \<Rightarrow> tvalue comp" where
  "lj_tab_get env t key =
     (if tvisstr key then or_nil (lj_tab_getstr env t (gcval key))
      else
        let genlookup = or_nil (cbind (find_node t (\<lambda>x. lj_obj_equal x key) (hashkey env t key))
                                  (\<lambda>i. Done (node_value t i)))
        in if tvisnum key then
             case lj_num2int_check key of
               Some k \<Rightarrow> or_nil (lj_tab_getint env t k)
             | None \<Rightarrow> genlookup
           else if \<not> tvisnil key then genlookup
           else Done niltv)"

section \<open>Setters\<close>

definition upd_node :: "nat \<Rightarrow> (node \<Rightarrow> node) \<Rightarrow> node list \<Rightarrow> node list" where
  "upd_node i f ns = ns[i := f (ns ! i)]"

text \<open>The store \<^verbatim>\<open>copyTV(L, slot, v)\<close> through the pointer a setter returned.\<close>

fun store_slot :: "gctab \<Rightarrow> slot \<Rightarrow> tvalue \<Rightarrow> gctab" where
  "store_slot t (ASlot i) v = t\<lparr>array := (array t)[i := v]\<rparr>"
| "store_slot t (NSlot i) v = t\<lparr>nodes := upd_node i (\<lambda>n. n\<lparr>nval := v\<rparr>) (nodes t)\<rparr>"

text \<open>Search downwards from \<^verbatim>\<open>freetop\<close> for a node without a key.\<close>

fun scan_free :: "node list \<Rightarrow> nat \<Rightarrow> nat option" where
  "scan_free ns 0 = None"
| "scan_free ns (Suc f) = (if tvisnil (nkey (ns ! f)) then Some f else scan_free ns f)"

text \<open>The predecessor of \<open>n\<close> on the chain from \<open>c\<close>.\<close>

fun find_pred :: "nat \<Rightarrow> node list \<Rightarrow> nat \<Rightarrow> nat \<Rightarrow> nat comp" where
  "find_pred 0 ns c n = Stuck"
| "find_pred (Suc f) ns c n =
     (if nnext (ns ! c) = Some n then Done c
      else case nnext (ns ! c) of None \<Rightarrow> Stuck | Some c' \<Rightarrow> find_pred f ns c' n)"

text \<open>Rechaining of keys after a collision moved the node \<open>n\<close>: \<open>rechain_rest\<close> is the inner loop.\<close>

fun rechain_rest :: "nat \<Rightarrow> (tvalue \<Rightarrow> nat) \<Rightarrow> node list \<Rightarrow> nat \<Rightarrow> node list comp" where
  "rechain_rest 0 hk ns fr = Stuck"
| "rechain_rest (Suc f) hk ns fr =
     (case nnext (ns ! fr) of
        None \<Rightarrow> Done ns
      | Some nn \<Rightarrow>
          if \<not> tvisnil (nval (ns ! nn)) then
            let mn = hk (nkey (ns ! nn))
            in if mn \<noteq> fr \<and> mn \<noteq> nn then
                 let ns = upd_node fr (\<lambda>x. x\<lparr>nnext := nnext (ns ! nn)\<rparr>) ns;
                     ns = upd_node nn (\<lambda>x. x\<lparr>nnext := nnext (ns ! mn)\<rparr>) ns;
                     ns = upd_node mn (\<lambda>x. x\<lparr>nnext := Some nn\<rparr>) ns
                 in rechain_rest f hk ns fr
               else rechain_rest f hk ns nn
          else rechain_rest f hk ns nn)"

fun rechain :: "nat \<Rightarrow> (tvalue \<Rightarrow> nat) \<Rightarrow> node list \<Rightarrow> nat \<Rightarrow> nat \<Rightarrow> node list comp" where
  "rechain 0 hk ns n fr = Stuck"
| "rechain (Suc f) hk ns n fr =
     (case nnext (ns ! fr) of
        None \<Rightarrow> Done ns
      | Some nn \<Rightarrow>
          if \<not> tvisnil (nval (ns ! nn)) \<and> hk (nkey (ns ! nn)) = n then
            let ns = upd_node fr (\<lambda>x. x\<lparr>nnext := nnext (ns ! nn)\<rparr>) ns;
                ns = upd_node nn (\<lambda>x. x\<lparr>nnext := nnext (ns ! n)\<rparr>) ns;
                ns = upd_node n (\<lambda>x. x\<lparr>nnext := Some nn\<rparr>) ns
            in rechain_rest (length ns * length ns) hk ns fr
          else rechain f hk ns n nn)"

text \<open>The end of \<^verbatim>\<open>lj_tab_newkey\<close>: the key goes into node \<open>n\<close>.\<close>

definition place_key :: "gctab \<Rightarrow> nat \<Rightarrow> tvalue \<Rightarrow> gctab \<times> slot" where
  "place_key t n key =
     (t\<lparr>nodes := upd_node n (\<lambda>x. x\<lparr>nkey := (if tvismzero key then 0 else key)\<rparr>) (nodes t), black := False\<rparr>,
      NSlot n)"

definition lj_tab_newkey ::
    "tabenv \<Rightarrow> (gctab \<Rightarrow> tvalue \<Rightarrow> (gctab \<times> slot) comp) \<Rightarrow> gctab \<Rightarrow> tvalue \<Rightarrow> (gctab \<times> slot) comp" where
  "lj_tab_newkey env rehash_set t key =
     (let n = hashkey env t key; ns = nodes t; len = length ns
      in if \<not> tvisnil (nval (ns ! n)) \<or> hmask t = 0 then
           case scan_free ns (freetop t) of
             None \<Rightarrow> rehash_set t key
           | Some f \<Rightarrow>
               let t = t\<lparr>freetop := f\<rparr>;
                   collide = hashkey env t (nkey (ns ! n))
               in if collide \<noteq> n then
                    cbind (find_pred len ns collide n) (\<lambda>pred.
                      let ns = upd_node pred (\<lambda>x. x\<lparr>nnext := Some f\<rparr>) ns;
                          ns = upd_node f (\<lambda>_. ns ! n) ns;
                          ns = upd_node n (\<lambda>x. x\<lparr>nnext := None, nval := niltv\<rparr>) ns
                      in cbind (rechain len (hashkey env t) ns n f) (\<lambda>ns.
                           Done (place_key (t\<lparr>nodes := ns\<rparr>) n key)))
                  else
                    let ns = upd_node f (\<lambda>x. x\<lparr>nnext := nnext (ns ! n)\<rparr>) ns;
                        ns = upd_node n (\<lambda>x. x\<lparr>nnext := Some f\<rparr>) ns
                    in Done (place_key (t\<lparr>nodes := ns\<rparr>) f key)
         else Done (place_key t n key))"

definition lj_tab_setinth ::
    "tabenv \<Rightarrow> (gctab \<Rightarrow> tvalue \<Rightarrow> (gctab \<times> slot) comp) \<Rightarrow> gctab \<Rightarrow> u32 \<Rightarrow> (gctab \<times> slot) comp" where
  "lj_tab_setinth env rehash_set t key =
     (let k = num_of_int (sint key)
      in cbind (find_node t (\<lambda>x. tvisnum x \<and> num_eq x k) (hashkey env t k)) (\<lambda>i.
           case i of Some n \<Rightarrow> Done (t, NSlot n) | None \<Rightarrow> lj_tab_newkey env rehash_set t k))"

definition lj_tab_setint ::
    "tabenv \<Rightarrow> (gctab \<Rightarrow> tvalue \<Rightarrow> (gctab \<times> slot) comp) \<Rightarrow> gctab \<Rightarrow> u32 \<Rightarrow> (gctab \<times> slot) comp" where
  "lj_tab_setint env rehash_set t key =
     (if inarray t key then Done (t, ASlot (unat key)) else lj_tab_setinth env rehash_set t key)"

definition lj_tab_setstr ::
    "tabenv \<Rightarrow> (gctab \<Rightarrow> tvalue \<Rightarrow> (gctab \<times> slot) comp) \<Rightarrow> gctab \<Rightarrow> u64 \<Rightarrow> (gctab \<times> slot) comp" where
  "lj_tab_setstr env rehash_set t key =
     cbind (find_node t (\<lambda>x. tvisstr x \<and> gcval x = key) (hashmask t (sid env key))) (\<lambda>i.
       case i of Some n \<Rightarrow> Done (t, NSlot n)
       | None \<Rightarrow> lj_tab_newkey env rehash_set t (setgcVraw key LJ_TSTR))"

definition tab_set ::
    "tabenv \<Rightarrow> (gctab \<Rightarrow> tvalue \<Rightarrow> (gctab \<times> slot) comp) \<Rightarrow> gctab \<Rightarrow> tvalue \<Rightarrow> (gctab \<times> slot) comp" where
  "tab_set env rehash_set t key =
     (let t = t\<lparr>nomm := 0\<rparr>;
          generic = cbind (find_node t (\<lambda>x. lj_obj_equal x key) (hashkey env t key)) (\<lambda>i.
            case i of Some n \<Rightarrow> Done (t, NSlot n) | None \<Rightarrow> lj_tab_newkey env rehash_set t key)
      in if tvisstr key then lj_tab_setstr env rehash_set t (gcval key)
         else if tvisnum key then
           case lj_num2int_check key of
             Some k \<Rightarrow> lj_tab_setint env rehash_set t k
           | None \<Rightarrow> if tvisnan key then Raise LJ_ERR_NANIDX else generic
         else if tvisnil key then Raise LJ_ERR_NILIDX
         else generic)"

section \<open>Resizing\<close>

text \<open>\<^verbatim>\<open>lj_mem_realloc\<close> fails only for a nonzero size.\<close>

definition realloc_ok :: "tabenv \<Rightarrow> nat \<Rightarrow> bool" where
  "realloc_ok env n \<longleftrightarrow> n = 0 \<or> mem_ok env n"

definition grow_array :: "tabenv \<Rightarrow> gctab \<Rightarrow> nat \<Rightarrow> gctab comp" where
  "grow_array env t as =
     (if as > LJ_MAX_ASIZE then Raise LJ_ERR_TABOV
      else if 0 < sint (colo t) then
        if \<not> mem_ok env (as * sizeof_TValue) then Raise LJ_ERR_ERRMEM
        else Done (t\<lparr>colo := colo t OR 0x80,
               array := take (asize t) (array t) @ replicate (as - asize t) niltv, asize := as\<rparr>)
      else
        if \<not> realloc_ok env (as * sizeof_TValue) then Raise LJ_ERR_ERRMEM
        else Done (t\<lparr>array := take (asize t) (array t) @ replicate (as - asize t) niltv, asize := as\<rparr>))"

text \<open>Reinsertion of array values beyond the new size, and of the pairs of the old hash part.\<close>

fun reinsert_array ::
    "tabenv \<Rightarrow> (gctab \<Rightarrow> tvalue \<Rightarrow> (gctab \<times> slot) comp) \<Rightarrow> tvalue list \<Rightarrow> nat list \<Rightarrow> gctab \<Rightarrow> gctab comp" where
  "reinsert_array env rh arr [] t = Done t"
| "reinsert_array env rh arr (i # is) t =
     (if tvisnil (arr ! i) then reinsert_array env rh arr is t
      else cbind (lj_tab_setinth env rh t (word_of_nat i)) (\<lambda>(t, s).
             reinsert_array env rh arr is (store_slot t s (arr ! i))))"

fun reinsert_nodes ::
    "tabenv \<Rightarrow> (gctab \<Rightarrow> tvalue \<Rightarrow> (gctab \<times> slot) comp) \<Rightarrow> node list \<Rightarrow> gctab \<Rightarrow> gctab comp" where
  "reinsert_nodes env rh [] t = Done t"
| "reinsert_nodes env rh (n # ns) t =
     (if tvisnil (nval n) then reinsert_nodes env rh ns t
      else cbind (tab_set env rh t (nkey n)) (\<lambda>(t, s).
             reinsert_nodes env rh ns (store_slot t s (nval n))))"

definition tab_resize ::
    "tabenv \<Rightarrow> (gctab \<Rightarrow> tvalue \<Rightarrow> (gctab \<times> slot) comp) \<Rightarrow> gctab \<Rightarrow> nat \<Rightarrow> nat \<Rightarrow> gctab comp" where
  "tab_resize env rh t as hbits =
     (let oldnode = nodes t; oldasize = asize t; oldhmask = hmask t
      in cbind (if as > oldasize then grow_array env t as else Done t) (\<lambda>t.
         cbind (if hbits \<noteq> 0 then cbind (newhpart env t hbits) (\<lambda>t. Done (clearhpart t))
                else Done (no_hpart t)) (\<lambda>t.
         cbind (if as < oldasize then
                  let arr = array t; t = t\<lparr>asize := as\<rparr>
                  in cbind (reinsert_array env rh arr [as..<oldasize] t) (\<lambda>t.
                       if sint (colo t) \<le> 0 then
                         if realloc_ok env (as * sizeof_TValue) then Done (t\<lparr>array := take as (array t)\<rparr>)
                         else Raise LJ_ERR_ERRMEM
                       else Done t)
                else Done t) (\<lambda>t.
         if oldhmask > 0 then reinsert_nodes env rh (take (oldhmask + 1) oldnode) t
         else Done t))))"

text \<open>Counting of the integer keys by powers of two.\<close>

definition bin_of :: "nat \<Rightarrow> nat" where
  "bin_of k = (if k > 2 then fls_nat (k - 1) else 0)"

definition countint :: "tvalue \<Rightarrow> nat list \<Rightarrow> nat list \<times> nat" where
  "countint key bins =
     (if tvisnum key then
        case lj_num2int_below key LJ_MAX_ASIZE of
          Some k \<Rightarrow> (bins[bin_of k := bins ! bin_of k + 1], 1)
        | None \<Rightarrow> (bins, 0)
      else (bins, 0))"

text \<open>The loop over the bins \<open>bs\<close>; \<open>i\<close> is the next array index.\<close>

primrec countarray_loop :: "gctab \<Rightarrow> nat list \<Rightarrow> nat \<Rightarrow> nat list \<Rightarrow> nat \<Rightarrow> nat list \<times> nat" where
  "countarray_loop t [] i bins na = (bins, na)"
| "countarray_loop t (b # bs) i bins na =
     (let top = 2 * 2 ^ b
      in if top \<ge> asize t \<and> i > asize t - 1 then (bins, na)
         else
           let top = (if top \<ge> asize t then asize t - 1 else top);
               n = length (filter (\<lambda>j. \<not> tvisnil (array t ! j)) [i..<Suc top])
           in countarray_loop t bs (max i (Suc top)) (bins[b := bins ! b + n]) (na + n))"

definition countarray :: "gctab \<Rightarrow> nat list \<Rightarrow> nat list \<times> nat" where
  "countarray t bins = (if asize t = 0 then (bins, 0) else countarray_loop t [0..<LJ_MAX_ABITS] 0 bins 0)"

primrec counthash_loop :: "node list \<Rightarrow> nat list \<Rightarrow> nat \<Rightarrow> nat \<Rightarrow> nat list \<times> nat \<times> nat" where
  "counthash_loop [] bins tot na = (bins, tot, na)"
| "counthash_loop (n # ns) bins tot na =
     (if tvisnil (nval n) then counthash_loop ns bins tot na
      else case countint (nkey n) bins of (bins, c) \<Rightarrow> counthash_loop ns bins (tot + 1) (na + c))"

definition counthash :: "gctab \<Rightarrow> nat list \<Rightarrow> nat list \<times> nat \<times> nat" where
  "counthash t bins = counthash_loop (take (hmask t + 1) (nodes t)) bins 0 0"

text \<open>The loop of \<^verbatim>\<open>bestasize\<close>: returns the chosen size and the keys it holds.\<close>

function bestasize_loop :: "nat list \<Rightarrow> nat \<Rightarrow> nat \<Rightarrow> nat \<Rightarrow> nat \<Rightarrow> nat \<Rightarrow> nat \<times> nat" where
  "bestasize_loop bins nn b sm sz na =
     (if 2 * nn > 2 ^ b \<and> sm \<noteq> nn then
        if bins ! b > 0 \<and> 2 * (sm + bins ! b) > 2 ^ b
        then bestasize_loop bins nn (b + 1) (sm + bins ! b) (2 * 2 ^ b + 1) (sm + bins ! b)
        else bestasize_loop bins nn (b + 1) (sm + bins ! b) sz na
      else (sz, na))"
  by auto
termination
proof (relation "measure (\<lambda>(bins, nn, b, sm, sz, na). 2 * nn - b)")
  fix bins :: "nat list" and nn b sm sz na :: nat
  assume "2 * nn > 2 ^ b \<and> sm \<noteq> nn"
  then have "b < 2 * nn" using less_exp [of b] by linarith
  then show "((bins, nn, b + 1, sm + bins ! b, 2 * 2 ^ b + 1, sm + bins ! b), bins, nn, b, sm, sz, na)
      \<in> measure (\<lambda>(bins, nn, b, sm, sz, na). 2 * nn - b)"
    and "((bins, nn, b + 1, sm + bins ! b, sz, na), bins, nn, b, sm, sz, na)
      \<in> measure (\<lambda>(bins, nn, b, sm, sz, na). 2 * nn - b)" by simp_all
qed simp

declare bestasize_loop.simps [simp del]

definition bestasize :: "nat list \<Rightarrow> nat \<Rightarrow> nat \<times> nat" where
  "bestasize bins nn = bestasize_loop bins nn 0 0 0 0"

definition rehashtab ::
    "tabenv \<Rightarrow> (gctab \<Rightarrow> tvalue \<Rightarrow> (gctab \<times> slot) comp) \<Rightarrow> gctab \<Rightarrow> tvalue \<Rightarrow> gctab comp" where
  "rehashtab env rh t ek =
     (let bins = replicate LJ_MAX_ABITS 0;
          (bins, nas) = countarray t bins;
          tot = 1 + nas;
          (bins, th, nah) = counthash t bins;
          tot = tot + th;
          nas = nas + nah;
          (bins, c) = countint ek bins;
          nas = nas + c;
          (as, na) = bestasize bins nas;
          tot = tot - na
      in tab_resize env rh t as (hsize2hbits tot))"

text \<open>The recursion through \<^verbatim>\<open>rehashtab\<close>, to a depth.\<close>

fun rehash_set :: "nat \<Rightarrow> tabenv \<Rightarrow> gctab \<Rightarrow> tvalue \<Rightarrow> (gctab \<times> slot) comp" where
  "rehash_set 0 env t key = Stuck"
| "rehash_set (Suc d) env t key =
     cbind (rehashtab env (rehash_set d env) t key) (\<lambda>t. tab_set env (rehash_set d env) t key)"

definition rehash_depth :: nat where "rehash_depth = 2"

definition lj_tab_set :: "tabenv \<Rightarrow> gctab \<Rightarrow> tvalue \<Rightarrow> (gctab \<times> slot) comp" where
  "lj_tab_set env = tab_set env (rehash_set rehash_depth env)"

definition lj_tab_resize :: "tabenv \<Rightarrow> gctab \<Rightarrow> nat \<Rightarrow> nat \<Rightarrow> gctab comp" where
  "lj_tab_resize env = tab_resize env (rehash_set rehash_depth env)"

definition lj_tab_reasize :: "tabenv \<Rightarrow> gctab \<Rightarrow> nat \<Rightarrow> gctab comp" where
  "lj_tab_reasize env t nasize =
     lj_tab_resize env t (nasize + 1) (if 0 < hmask t then fls_nat (hmask t) + 1 else 0)"

section \<open>Traversal\<close>

definition lj_tab_keyindex :: "tabenv \<Rightarrow> gctab \<Rightarrow> tvalue \<Rightarrow> u32 comp" where
  "lj_tab_keyindex env t key =
     (case (if tvisnum key then lj_num2int_below key (asize t) else None) of
        Some k \<Rightarrow> Done (word_of_nat (k + 1))
      | None \<Rightarrow>
          if \<not> tvisnil key then
            cbind (find_node t (\<lambda>x. lj_obj_equal x key) (hashkey env t key)) (\<lambda>i.
              case i of Some n \<Rightarrow> Done (word_of_nat (asize t + (n + 1)))
              | None \<Rightarrow> Done (if hi32 key = LJ_KEYINDEX then lo32 key else NOT 0))
          else Done 0)"

datatype next_result = NextPair tvalue tvalue | NextEnd | NextInvalid

definition lj_tab_next :: "tabenv \<Rightarrow> gctab \<Rightarrow> tvalue \<Rightarrow> next_result comp" where
  "lj_tab_next env t key =
     cbind (lj_tab_keyindex env t key) (\<lambda>idx.
       case find (\<lambda>i. \<not> tvisnil (array t ! i)) [unat idx..<asize t] of
         Some i \<Rightarrow> Done (NextPair (num_of_int (int i)) (array t ! i))
       | None \<Rightarrow>
           let idx = (if unat idx < asize t then word_of_nat (asize t) else idx) - word_of_nat (asize t)
           in case find (\<lambda>i. \<not> tvisnil (nval (nodes t ! i))) [unat idx..<hmask t + 1] of
                Some i \<Rightarrow> Done (NextPair (nkey (nodes t ! i)) (nval (nodes t ! i)))
              | None \<Rightarrow>
                  let idx = (if unat idx \<le> hmask t then word_of_nat (hmask t + 1) else idx)
                  in Done (if sint idx < 0 then NextInvalid else NextEnd))"

section \<open>Length\<close>

text \<open>\<^verbatim>\<open>(tv = lj_tab_getint(t, k)) && !tvisnil(tv)\<close>.\<close>

definition has_int :: "tabenv \<Rightarrow> gctab \<Rightarrow> nat \<Rightarrow> bool comp" where
  "has_int env t k =
     cbind (lj_tab_getint env t (word_of_nat k)) (\<lambda>tv.
       Done (case tv of Some v \<Rightarrow> \<not> tvisnil v | None \<Rightarrow> False))"

text \<open>Binary search for a transition from non-nil (\<open>lo\<close>) to nil (\<open>hi\<close>), and the two searches of the slow
  path; \<open>None\<close> would be a search that never ends.\<close>

function bin_search :: "(nat \<Rightarrow> bool comp) \<Rightarrow> nat \<Rightarrow> nat \<Rightarrow> nat comp" where
  "bin_search p lo hi =
     (if hi - lo > 1 then
        cbind (p ((lo + hi) div 2)) (\<lambda>b.
          if b then bin_search p ((lo + hi) div 2) hi else bin_search p lo ((lo + hi) div 2))
      else Done lo)"
  by auto
termination
  by (relation "measure (\<lambda>(p, lo, hi). hi - lo)") auto

declare bin_search.simps [simp del]

partial_function (option) linear_search :: "(nat \<Rightarrow> bool comp) \<Rightarrow> nat \<Rightarrow> nat comp option" where
  "linear_search p lo =
     (case p lo of
        Done b \<Rightarrow> if b then linear_search p (lo + 1) else Some (Done (lo - 1))
      | Raise e \<Rightarrow> Some (Raise e)
      | Stuck \<Rightarrow> Some Stuck)"

function widen_search :: "(nat \<Rightarrow> bool comp) \<Rightarrow> nat \<Rightarrow> nat \<Rightarrow> nat comp option" where
  "widen_search p lo hi =
     (case p hi of
        Done b \<Rightarrow>
          if b then
            if 2 * hi > 0x7fffffff - 2 then linear_search p 1
            else if hi = 0 then Some Stuck
            else widen_search p hi (2 * hi)
          else Some (bin_search p lo hi)
      | Raise e \<Rightarrow> Some (Raise e)
      | Stuck \<Rightarrow> Some Stuck)"
  by pat_completeness auto
termination
  by (relation "measure (\<lambda>(p, lo, hi). 0x7fffffff - hi)") auto

declare widen_search.simps [simp del]

definition tab_len_slow :: "tabenv \<Rightarrow> gctab \<Rightarrow> nat \<Rightarrow> nat comp option" where
  "tab_len_slow env t hi = widen_search (has_int env t) hi (hi + 1)"

text \<open>The search in the array part alone.\<close>

definition has_slot :: "gctab \<Rightarrow> nat \<Rightarrow> bool comp" where
  "has_slot t k = Done (\<not> tvisnil (array t ! k))"

definition lj_tab_len :: "tabenv \<Rightarrow> gctab \<Rightarrow> nat comp option" where
  "lj_tab_len env t =
     (let hi = (if asize t \<noteq> 0 then asize t - 1 else 0)
      in if 0 < hi \<and> tvisnil (array t ! hi) then Some (bin_search (has_slot t) 0 hi)
         else if hmask t \<noteq> 0 then tab_len_slow env t hi
         else Some (Done hi))"

definition lj_tab_len_hint :: "tabenv \<Rightarrow> gctab \<Rightarrow> nat \<Rightarrow> nat comp option" where
  "lj_tab_len_hint env t hint =
     (if hint + 1 < asize t \<and> \<not> tvisnil (array t ! hint) \<and> tvisnil (array t ! (hint + 1)) then Some (Done hint)
      else if \<not> hint + 1 < asize t \<and> hint + 1 \<le> asize t \<and> hmask t = 0 \<and> \<not> tvisnil (array t ! hint)
      then Some (Done hint)
      else lj_tab_len env t)"

section \<open>Counting and classification\<close>

text \<open>\<^verbatim>\<open>rint(n) == n\<close> on bits: no fraction bits; infinities included, NaN excluded.\<close>

definition num_isint :: "u64 \<Rightarrow> bool" where
  "num_isint n \<longleftrightarrow> \<not> num_isnan n \<and>
     (dexp n \<ge> 1075 \<or> (dexp n \<ge> 1023 \<and> (2 ^ 52 + dmant n) mod 2 ^ (1075 - dexp n) = 0) \<or> tviszero n)"

definition lj_tab_isarray :: "gctab \<Rightarrow> bool" where
  "lj_tab_isarray t =
     list_all (\<lambda>n. tvisnil (nval n) \<or> tvisnum (nkey n) \<and> num_isint (nkey n))
       (rev (take (hmask t + 1) (nodes t)))"

definition lj_tab_nkeys :: "gctab \<Rightarrow> nat" where
  "lj_tab_nkeys t =
     length (filter (\<lambda>v. \<not> tvisnil v) (take (asize t) (array t))) +
     (if hmask t = 0 then 0
      else length (filter (\<lambda>n. \<not> tvisnil (nval n)) (take (hmask t + 1) (nodes t))))"

definition lj_tab_isempty :: "gctab \<Rightarrow> bool" where
  "lj_tab_isempty t \<longleftrightarrow>
     \<not> list_ex (\<lambda>v. \<not> tvisnil v) (take (asize t) (array t)) \<and>
     (hmask t = 0 \<or> \<not> list_ex (\<lambda>n. \<not> tvisnil (nval n)) (take (hmask t + 1) (nodes t)))"

end
