(* ===== verification/TabChain.thy ===== *)
theory TabChain
  imports Tab
begin

text \<open>
  The collision chains of the hash part: paths along the next links, the invariant that makes every
  key reachable from its main position, and the effect of the three ways \<^verbatim>\<open>lj_tab_newkey\<close> enters a
  key: in place, in a free node behind its main position, or at its main position after moving away a
  colliding node.
\<close>

section \<open>Paths\<close>

fun path :: "node list \<Rightarrow> nat option \<Rightarrow> nat list \<Rightarrow> bool" where
  "path ns p [] \<longleftrightarrow> p = None"
| "path ns p (x # xs) \<longleftrightarrow> p = Some x \<and> x < length ns \<and> path ns (nnext (ns ! x)) xs"

lemma path_range: "path ns p xs \<Longrightarrow> x \<in> set xs \<Longrightarrow> x < length ns"
  by (induction xs arbitrary: p) auto

lemma path_unique: "path ns p xs \<Longrightarrow> path ns p ys \<Longrightarrow> xs = ys"
proof (induction xs arbitrary: p ys)
  case Nil
  then show ?case by (cases ys) auto
next
  case (Cons x xs)
  then show ?case by (cases ys) auto
qed

lemma path_split: "path ns p (xs @ y # ys) \<Longrightarrow> path ns (Some y) (y # ys)"
  by (induction xs arbitrary: p) auto

lemma path_distinct: "path ns p xs \<Longrightarrow> distinct xs"
proof (induction xs arbitrary: p)
  case (Cons x xs)
  have "x \<notin> set xs"
  proof
    assume "x \<in> set xs"
    then obtain ys zs where s: "xs = ys @ x # zs" by (meson split_list)
    with Cons.prems have "path ns (Some x) (x # zs)" using path_split [of ns p "x # ys" x zs] by simp
    moreover have "path ns (Some x) (x # xs)" using Cons.prems by simp
    ultimately have "x # zs = x # xs" by (rule path_unique)
    with s show False by (metis append_Cons length_Cons length_append less_not_refl list.inject not_add_less2 lessI
        add_Suc_right le_add2 Suc_n_not_le_n)
  qed
  with Cons show ?case by auto
qed simp

lemma path_length: "path ns p xs \<Longrightarrow> length xs \<le> length ns"
proof -
  assume p: "path ns p xs"
  then have "set xs \<subseteq> {..<length ns}" using path_range by auto
  then have "card (set xs) \<le> card {..<length ns}" by (intro card_mono) auto
  with path_distinct [OF p] show ?thesis by (simp add: distinct_card)
qed

lemma path_pred:
  "path ns p xs \<Longrightarrow> x \<in> set xs \<Longrightarrow> p \<noteq> Some x \<Longrightarrow> \<exists>y\<in>set xs. nnext (ns ! y) = Some x"
proof (induction xs arbitrary: p)
  case (Cons z zs)
  then show ?case by (cases "nnext (ns ! z) = Some x") auto
qed simp

lemma chain_find_path:
  "path ns (Some i) xs \<Longrightarrow> length xs \<le> f \<Longrightarrow>
     chain_find f ns P i = Done (find (\<lambda>j. P (nkey (ns ! j))) xs)"
proof (induction f arbitrary: i xs)
  case 0
  then show ?case by (cases xs) auto
next
  case (Suc f)
  then obtain ys where xs: "xs = i # ys" "path ns (nnext (ns ! i)) ys" by (cases xs) auto
  show ?case
  proof (cases ys)
    case Nil
    with xs show ?thesis by simp
  next
    case (Cons j zs)
    with xs have "nnext (ns ! i) = Some j" by simp
    with Suc.IH [of j ys] Suc.prems xs show ?thesis by simp
  qed
qed

lemma find_pred_path:
  "path ns (Some c) xs \<Longrightarrow> n \<in> set xs \<Longrightarrow> c \<noteq> n \<Longrightarrow> length xs \<le> f \<Longrightarrow>
     \<exists>p. find_pred f ns c n = Done p \<and> p \<in> set xs \<and> nnext (ns ! p) = Some n"
proof (induction f arbitrary: c xs)
  case 0
  then show ?case by (cases xs) auto
next
  case (Suc f)
  then obtain ys where xs: "xs = c # ys" "path ns (nnext (ns ! c)) ys" by (cases xs) auto
  with Suc.prems have "n \<in> set ys" by auto
  show ?case
  proof (cases "nnext (ns ! c) = Some n")
    case True
    with xs show ?thesis by simp
  next
    case False
    obtain d zs where ys: "ys = d # zs" using \<open>n \<in> set ys\<close> by (cases ys) auto
    with xs False have "nnext (ns ! c) = Some d" "d \<noteq> n" by auto
    with Suc.IH [of d ys] Suc.prems xs False \<open>n \<in> set ys\<close> show ?thesis by auto
  qed
qed

lemma rechain_none:
  "path ns (Some fr) xs \<Longrightarrow> length xs \<le> f \<Longrightarrow> \<forall>x\<in>set (tl xs). hk (nkey (ns ! x)) \<noteq> n \<Longrightarrow>
     rechain f hk ns n fr = Done ns"
proof (induction f arbitrary: fr xs)
  case 0
  then show ?case by (cases xs) auto
next
  case (Suc f)
  then obtain ys where xs: "xs = fr # ys" "path ns (nnext (ns ! fr)) ys" by (cases xs) auto
  show ?case
  proof (cases ys)
    case Nil
    with xs show ?thesis by simp
  next
    case (Cons j zs)
    with Suc.IH [of j ys] Suc.prems xs show ?thesis by auto
  qed
qed

section \<open>The invariant of the hash part\<close>

definition keyed :: "node list \<Rightarrow> nat \<Rightarrow> bool" where
  "keyed ns i \<longleftrightarrow> \<not> tvisnil (nkey (ns ! i))"

text \<open>\<open>hk\<close> gives the main position of a key. Every chain ends; no node has two predecessors; every key is on
  the chain of its main position; a node that holds a key away from its main position is nobody's main
  position; a node without a key is empty, unlinked and nobody's main position; keys are distinct.\<close>

definition nodes_wf :: "(tvalue \<Rightarrow> nat) \<Rightarrow> node list \<Rightarrow> bool" where
  "nodes_wf hk ns \<longleftrightarrow>
     (\<forall>i<length ns. \<exists>xs. path ns (Some i) xs) \<and>
     (\<forall>i<length ns. \<forall>j<length ns. \<forall>k. nnext (ns ! i) = Some k \<longrightarrow> nnext (ns ! j) = Some k \<longrightarrow> i = j) \<and>
     (\<forall>i<length ns. keyed ns i \<longrightarrow> hk (nkey (ns ! i)) < length ns \<and>
        (\<exists>xs. path ns (Some (hk (nkey (ns ! i)))) xs \<and> i \<in> set xs)) \<and>
     (\<forall>i<length ns. \<forall>j<length ns. keyed ns i \<longrightarrow> hk (nkey (ns ! i)) \<noteq> i \<longrightarrow> keyed ns j \<longrightarrow> hk (nkey (ns ! j)) \<noteq> i) \<and>
     (\<forall>i<length ns. \<not> keyed ns i \<longrightarrow> nnext (ns ! i) = None \<and> tvisnil (nval (ns ! i)) \<and>
        (\<forall>j<length ns. nnext (ns ! j) \<noteq> Some i) \<and> (\<forall>j<length ns. keyed ns j \<longrightarrow> hk (nkey (ns ! j)) \<noteq> i)) \<and>
     (\<forall>i<length ns. \<forall>j<length ns. keyed ns i \<longrightarrow> keyed ns j \<longrightarrow> nkey (ns ! i) = nkey (ns ! j) \<longrightarrow> i = j)"

lemma nodes_wfD:
  assumes "nodes_wf hk ns"
  shows "i < length ns \<Longrightarrow> \<exists>xs. path ns (Some i) xs"
    and "i < length ns \<Longrightarrow> j < length ns \<Longrightarrow> nnext (ns ! i) = Some k \<Longrightarrow> nnext (ns ! j) = Some k \<Longrightarrow> i = j"
    and "i < length ns \<Longrightarrow> keyed ns i \<Longrightarrow> hk (nkey (ns ! i)) < length ns"
    and "i < length ns \<Longrightarrow> keyed ns i \<Longrightarrow> \<exists>xs. path ns (Some (hk (nkey (ns ! i)))) xs \<and> i \<in> set xs"
    and "i < length ns \<Longrightarrow> j < length ns \<Longrightarrow> keyed ns i \<Longrightarrow> hk (nkey (ns ! i)) \<noteq> i \<Longrightarrow> keyed ns j \<Longrightarrow> hk (nkey (ns ! j)) \<noteq> i"
    and "i < length ns \<Longrightarrow> \<not> keyed ns i \<Longrightarrow> nnext (ns ! i) = None"
    and "i < length ns \<Longrightarrow> \<not> keyed ns i \<Longrightarrow> tvisnil (nval (ns ! i))"
    and "i < length ns \<Longrightarrow> \<not> keyed ns i \<Longrightarrow> j < length ns \<Longrightarrow> nnext (ns ! j) \<noteq> Some i"
    and "i < length ns \<Longrightarrow> \<not> keyed ns i \<Longrightarrow> j < length ns \<Longrightarrow> keyed ns j \<Longrightarrow> hk (nkey (ns ! j)) \<noteq> i"
    and "i < length ns \<Longrightarrow> j < length ns \<Longrightarrow> keyed ns i \<Longrightarrow> keyed ns j \<Longrightarrow> nkey (ns ! i) = nkey (ns ! j) \<Longrightarrow> i = j"
proof -
  note a = assms [unfolded nodes_wf_def]
  note c1 = conjunct1 [OF a] and a = conjunct2 [OF a]
  note c2 = conjunct1 [OF a] and a = conjunct2 [OF a]
  note c3 = conjunct1 [OF a] and a = conjunct2 [OF a]
  note c4 = conjunct1 [OF a] and a = conjunct2 [OF a]
  note c5 = conjunct1 [OF a] and c6 = conjunct2 [OF a]
  show "i < length ns \<Longrightarrow> \<exists>xs. path ns (Some i) xs" using c1 by blast
  show "i < length ns \<Longrightarrow> j < length ns \<Longrightarrow> nnext (ns ! i) = Some k \<Longrightarrow> nnext (ns ! j) = Some k \<Longrightarrow> i = j"
    using c2 by blast
  show "i < length ns \<Longrightarrow> keyed ns i \<Longrightarrow> hk (nkey (ns ! i)) < length ns"
    and "i < length ns \<Longrightarrow> keyed ns i \<Longrightarrow> \<exists>xs. path ns (Some (hk (nkey (ns ! i)))) xs \<and> i \<in> set xs"
    using c3 by blast+
  show "i < length ns \<Longrightarrow> j < length ns \<Longrightarrow> keyed ns i \<Longrightarrow> hk (nkey (ns ! i)) \<noteq> i \<Longrightarrow> keyed ns j \<Longrightarrow> hk (nkey (ns ! j)) \<noteq> i"
    using c4 by blast
  show "i < length ns \<Longrightarrow> \<not> keyed ns i \<Longrightarrow> nnext (ns ! i) = None"
    and "i < length ns \<Longrightarrow> \<not> keyed ns i \<Longrightarrow> tvisnil (nval (ns ! i))"
    and "i < length ns \<Longrightarrow> \<not> keyed ns i \<Longrightarrow> j < length ns \<Longrightarrow> nnext (ns ! j) \<noteq> Some i"
    and "i < length ns \<Longrightarrow> \<not> keyed ns i \<Longrightarrow> j < length ns \<Longrightarrow> keyed ns j \<Longrightarrow> hk (nkey (ns ! j)) \<noteq> i"
    using c5 by blast+
  show "i < length ns \<Longrightarrow> j < length ns \<Longrightarrow> keyed ns i \<Longrightarrow> keyed ns j \<Longrightarrow> nkey (ns ! i) = nkey (ns ! j) \<Longrightarrow> i = j"
    using c6 by blast
qed

text \<open>Searching the chain of a key's main position finds exactly the node that holds the key.\<close>

lemma find_key:
  assumes wf: "nodes_wf hk ns" and k: "hk k < length ns" "\<not> tvisnil k"
    and P: "\<And>i. i < length ns \<Longrightarrow> P (nkey (ns ! i)) \<longleftrightarrow> nkey (ns ! i) = k"
  shows "\<exists>r. chain_find (length ns) ns P (hk k) = Done r \<and>
     (case r of Some i \<Rightarrow> i < length ns \<and> nkey (ns ! i) = k
      | None \<Rightarrow> \<forall>i<length ns. nkey (ns ! i) \<noteq> k)"
proof -
  obtain xs where xs: "path ns (Some (hk k)) xs" using nodes_wfD(1) [OF wf k(1)] by blast
  have c: "chain_find (length ns) ns P (hk k) = Done (find (\<lambda>j. P (nkey (ns ! j))) xs)"
    by (rule chain_find_path [OF xs path_length [OF xs]])
  show ?thesis
  proof (cases "find (\<lambda>j. P (nkey (ns ! j))) xs")
    case None
    have "nkey (ns ! i) \<noteq> k" if i: "i < length ns" for i
    proof
      assume e: "nkey (ns ! i) = k"
      then have "keyed ns i" using k(2) by (simp add: keyed_def)
      from nodes_wfD(4) [OF wf i this] e xs have "i \<in> set xs" using path_unique by blast
      with None P [OF i] e show False by (auto simp: find_None_iff)
    qed
    with c None show ?thesis by auto
  next
    case (Some i)
    then have "i \<in> set xs" "P (nkey (ns ! i))" by (auto simp: find_Some_iff)
    with P path_range [OF xs] c Some show ?thesis by auto
  qed
qed

lemma nodes_wfI:
  assumes "\<And>i. i < length ns \<Longrightarrow> \<exists>xs. path ns (Some i) xs"
    and "\<And>i j k. i < length ns \<Longrightarrow> j < length ns \<Longrightarrow> nnext (ns ! i) = Some k \<Longrightarrow> nnext (ns ! j) = Some k \<Longrightarrow> i = j"
    and "\<And>i. i < length ns \<Longrightarrow> keyed ns i \<Longrightarrow> hk (nkey (ns ! i)) < length ns \<and>
       (\<exists>xs. path ns (Some (hk (nkey (ns ! i)))) xs \<and> i \<in> set xs)"
    and "\<And>i j. i < length ns \<Longrightarrow> j < length ns \<Longrightarrow> keyed ns i \<Longrightarrow> hk (nkey (ns ! i)) \<noteq> i \<Longrightarrow> keyed ns j \<Longrightarrow> hk (nkey (ns ! j)) \<noteq> i"
    and "\<And>i. i < length ns \<Longrightarrow> \<not> keyed ns i \<Longrightarrow> nnext (ns ! i) = None \<and> tvisnil (nval (ns ! i))"
    and "\<And>i j. i < length ns \<Longrightarrow> \<not> keyed ns i \<Longrightarrow> j < length ns \<Longrightarrow> nnext (ns ! j) \<noteq> Some i \<and> (keyed ns j \<longrightarrow> hk (nkey (ns ! j)) \<noteq> i)"
    and "\<And>i j. i < length ns \<Longrightarrow> j < length ns \<Longrightarrow> keyed ns i \<Longrightarrow> keyed ns j \<Longrightarrow> nkey (ns ! i) = nkey (ns ! j) \<Longrightarrow> i = j"
  shows "nodes_wf hk ns"
proof -
  have "\<forall>i<length ns. \<forall>j<length ns. \<forall>k. nnext (ns ! i) = Some k \<longrightarrow> nnext (ns ! j) = Some k \<longrightarrow> i = j" using assms(2) by blast
  moreover have "\<forall>i<length ns. \<forall>j<length ns. keyed ns i \<longrightarrow> hk (nkey (ns ! i)) \<noteq> i \<longrightarrow> keyed ns j \<longrightarrow> hk (nkey (ns ! j)) \<noteq> i"
    using assms(4) by blast
  moreover have "\<forall>i<length ns. \<forall>j<length ns. keyed ns i \<longrightarrow> keyed ns j \<longrightarrow> nkey (ns ! i) = nkey (ns ! j) \<longrightarrow> i = j"
    using assms(7) by blast
  moreover have "\<forall>i<length ns. \<not> keyed ns i \<longrightarrow> nnext (ns ! i) = None \<and> tvisnil (nval (ns ! i)) \<and>
        (\<forall>j<length ns. nnext (ns ! j) \<noteq> Some i) \<and> (\<forall>j<length ns. keyed ns j \<longrightarrow> hk (nkey (ns ! j)) \<noteq> i)"
    using assms(5,6) by blast
  ultimately show ?thesis unfolding nodes_wf_def using assms(1,3) by blast
qed

lemma path_cong:
  "length ns' = length ns \<Longrightarrow> (\<And>x. x \<in> set xs \<Longrightarrow> nnext (ns' ! x) = nnext (ns ! x)) \<Longrightarrow>
     path ns' p xs = path ns p xs"
  by (induction xs arbitrary: p) auto

text \<open>Values of nodes with a key do not matter, nor does anything but links and keys.\<close>

lemma nodes_wf_vals:
  assumes wf: "nodes_wf hk ns" and l: "length ns' = length ns"
    and same: "\<And>i. i < length ns \<Longrightarrow> nkey (ns' ! i) = nkey (ns ! i) \<and> nnext (ns' ! i) = nnext (ns ! i)"
    and vals: "\<And>i. i < length ns \<Longrightarrow> \<not> keyed ns i \<Longrightarrow> tvisnil (nval (ns' ! i))"
  shows "nodes_wf hk ns'"
proof -
  have p: "path ns' q xs = path ns q xs" for q xs
  proof (induction xs arbitrary: q)
    case (Cons x xs)
    then show ?case using l same by (cases "x < length ns") auto
  qed simp
  have k: "i < length ns \<Longrightarrow> keyed ns' i = keyed ns i" for i using same by (simp add: keyed_def)
  show ?thesis
  proof (rule nodes_wfI; (simp only: l p)?)
    fix i assume i: "i < length ns"
    show "\<exists>xs. path ns (Some i) xs" by (rule nodes_wfD(1) [OF wf i])
    assume "keyed ns' i"
    with nodes_wfD(3,4) [OF wf i] k [OF i] same [OF i]
    show "hk (nkey (ns' ! i)) < length ns \<and> (\<exists>xs. path ns (Some (hk (nkey (ns' ! i)))) xs \<and> i \<in> set xs)" by simp
  next
    fix i j q assume i: "i < length ns" "j < length ns" "nnext (ns' ! i) = Some q" "nnext (ns' ! j) = Some q"
    then show "i = j" using nodes_wfD(2) [OF wf i(1,2)] same by simp
  next
    fix i j assume i: "i < length ns" "j < length ns" and "keyed ns' i" "hk (nkey (ns' ! i)) \<noteq> i" "keyed ns' j"
    then show "hk (nkey (ns' ! j)) \<noteq> i" using nodes_wfD(5) [OF wf i] k same by simp
  next
    fix i assume i: "i < length ns" and "\<not> keyed ns' i"
    then show "nnext (ns' ! i) = None \<and> tvisnil (nval (ns' ! i))" using nodes_wfD(6) [OF wf i] k same vals by simp
  next
    fix i j assume i: "i < length ns" "j < length ns" and "\<not> keyed ns' i"
    then show "nnext (ns' ! j) \<noteq> Some i \<and> (keyed ns' j \<longrightarrow> hk (nkey (ns' ! j)) \<noteq> i)"
      using nodes_wfD(8,9) [OF wf i(1) _ i(2)] k same by simp
  next
    fix i j assume i: "i < length ns" "j < length ns" and "keyed ns' i" "keyed ns' j" "nkey (ns' ! i) = nkey (ns' ! j)"
    then show "i = j" using nodes_wfD(10) [OF wf i] k same by simp
  qed
qed

text \<open>Insertion in place.\<close>

lemma insert_place:
  assumes wf: "nodes_wf hk ns" and n: "n < length ns" and k: "hk k = n" "\<not> tvisnil k"
    and new: "\<And>i. i < length ns \<Longrightarrow> nkey (ns ! i) \<noteq> k"
  shows "nodes_wf hk (ns[n := (ns ! n)\<lparr>nkey := k\<rparr>])"
proof -
  let ?ns = "ns[n := (ns ! n)\<lparr>nkey := k\<rparr>]"
  have nx: "nnext (?ns ! i) = nnext (ns ! i)" for i using n by (cases "i = n") auto
  have ky: "i < length ns \<Longrightarrow> nkey (?ns ! i) = (if i = n then k else nkey (ns ! i))" for i using n by auto
  have kd: "i < length ns \<Longrightarrow> keyed ?ns i = (i = n \<or> keyed ns i)" for i using ky k by (simp add: keyed_def)
  have p: "path ?ns q xs = path ns q xs" for q xs by (rule path_cong) (simp_all add: nx)
  show ?thesis
  proof (rule nodes_wfI; (simp only: length_list_update nx p)?)
    fix i assume i: "i < length ns" and "keyed ?ns i"
    show "hk (nkey (?ns ! i)) < length ns \<and> (\<exists>xs. path ns (Some (hk (nkey (?ns ! i)))) xs \<and> i \<in> set xs)"
    proof (cases "i = n")
      case True
      obtain xs where "path ns (Some n) xs" using nodes_wfD(1) [OF wf n] by blast
      then have "n \<in> set xs" by (cases xs) auto
      with True k n ky [OF n] \<open>path ns (Some n) xs\<close> show ?thesis by auto
    next
      case False
      with \<open>keyed ?ns i\<close> i kd have "keyed ns i" by blast
      with nodes_wfD(3,4) [OF wf i] False ky [OF i] show ?thesis by simp
    qed
  next
    fix i j assume i: "i < length ns" "j < length ns" and a: "keyed ?ns i" "hk (nkey (?ns ! i)) \<noteq> i" "keyed ?ns j"
    then have "i \<noteq> n" using ky k n by auto
    with a i kd ky have "keyed ns i" "hk (nkey (ns ! i)) \<noteq> i" by auto
    with nodes_wfD(5) [OF wf i] \<open>i \<noteq> n\<close> kd [OF i(2)] ky [OF i(2)] k a show "hk (nkey (?ns ! j)) \<noteq> i" by (cases "j = n") auto
  next
    fix i assume i: "i < length ns" and "\<not> keyed ?ns i"
    then have "\<not> keyed ns i" "i \<noteq> n" using kd by auto
    with nodes_wfD(6,7) [OF wf i] show "nnext (ns ! i) = None \<and> tvisnil (nval (?ns ! i))" by simp
  next
    fix i j assume i: "i < length ns" "j < length ns" and "\<not> keyed ?ns i"
    then have u: "\<not> keyed ns i" "i \<noteq> n" using kd by auto
    show "nnext (ns ! j) \<noteq> Some i \<and> (keyed ?ns j \<longrightarrow> hk (nkey (?ns ! j)) \<noteq> i)"
      using nodes_wfD(8,9) [OF wf i(1) u(1) i(2)] u kd [OF i(2)] ky [OF i(2)] k by (cases "j = n") auto
  next
    fix i j assume i: "i < length ns" "j < length ns" and "keyed ?ns i" "keyed ?ns j" "nkey (?ns ! i) = nkey (?ns ! j)"
    then show "i = j" using nodes_wfD(10) [OF wf i] new kd ky by (cases "i = n"; cases "j = n") auto
  qed (use nodes_wfD(1,2) [OF wf] in blast)+
qed

text \<open>Insertion of a free node behind its main position.\<close>

fun after_all :: "nat \<Rightarrow> nat \<Rightarrow> nat list \<Rightarrow> nat list" where
  "after_all n f [] = []"
| "after_all n f (x # xs) = (if x = n then n # f # after_all n f xs else x # after_all n f xs)"

lemma after_all_set: "x \<in> set xs \<Longrightarrow> x \<in> set (after_all n f xs)"
  by (induction xs) auto

lemma after_all_f: "n \<in> set xs \<Longrightarrow> f \<in> set (after_all n f xs)"
  by (induction xs) auto

lemma path_after:
  assumes l: "length ns' = length ns" and f: "f < length ns" "f \<noteq> n"
    and nx: "nnext (ns' ! n) = Some f" "nnext (ns' ! f) = nnext (ns ! n)"
      "\<And>x. x < length ns \<Longrightarrow> x \<noteq> n \<Longrightarrow> x \<noteq> f \<Longrightarrow> nnext (ns' ! x) = nnext (ns ! x)"
  shows "path ns p xs \<Longrightarrow> f \<notin> set xs \<Longrightarrow> path ns' p (after_all n f xs)"
proof (induction xs arbitrary: p)
  case (Cons x xs)
  then show ?case using l f nx by (cases "x = n") auto
qed simp

lemma unkeyed_not_on_path:
  assumes wf: "nodes_wf hk ns" and f: "f < length ns" "\<not> keyed ns f" and p: "path ns p xs" "p \<noteq> Some f"
  shows "f \<notin> set xs"
proof
  assume "f \<in> set xs"
  from path_pred [OF p(1) this p(2)] obtain y where "y \<in> set xs" "nnext (ns ! y) = Some f" by blast
  with nodes_wfD(8) [OF wf f path_range [OF p(1)]] show False by blast
qed

lemma insert_behind:
  assumes wf: "nodes_wf hk ns" and n: "n < length ns" "keyed ns n" "hk (nkey (ns ! n)) = n"
    and f: "f < length ns" "\<not> keyed ns f" and k: "hk k = n" "\<not> tvisnil k"
    and new: "\<And>i. i < length ns \<Longrightarrow> nkey (ns ! i) \<noteq> k"
  defines "ns' \<equiv> ns[f := (ns ! f)\<lparr>nkey := k, nnext := nnext (ns ! n)\<rparr>, n := (ns ! n)\<lparr>nnext := Some f\<rparr>]"
  shows "nodes_wf hk ns'"
proof -
  have fn: "f \<noteq> n" using n(2) f(2) by auto
  have l: "length ns' = length ns" by (simp add: ns'_def)
  have nxs: "nnext (ns' ! n) = Some f" "nnext (ns' ! f) = nnext (ns ! n)"
    "\<And>x. x < length ns \<Longrightarrow> x \<noteq> n \<Longrightarrow> x \<noteq> f \<Longrightarrow> nnext (ns' ! x) = nnext (ns ! x)"
    using n f fn by (auto simp: ns'_def)
  have ky: "i < length ns \<Longrightarrow> nkey (ns' ! i) = (if i = f then k else nkey (ns ! i))" for i
    using n f fn by (auto simp: ns'_def nth_list_update)
  have vl: "i < length ns \<Longrightarrow> nval (ns' ! i) = nval (ns ! i)" for i
    using n f fn by (auto simp: ns'_def nth_list_update)
  have kd: "i < length ns \<Longrightarrow> keyed ns' i = (i = f \<or> keyed ns i)" for i using ky k by (simp add: keyed_def)
  have pa: "path ns p xs \<Longrightarrow> f \<notin> set xs \<Longrightarrow> path ns' p (after_all n f xs)" for p xs
    by (rule path_after [OF l f(1) fn nxs(1,2)]) (use nxs(3) in simp_all)
  note off = unkeyed_not_on_path [OF wf f]
  have noprev: "j < length ns \<Longrightarrow> nnext (ns ! j) \<noteq> Some f" for j by (rule nodes_wfD(8) [OF wf f])
  have nomain: "j < length ns \<Longrightarrow> keyed ns j \<Longrightarrow> hk (nkey (ns ! j)) \<noteq> f" for j by (rule nodes_wfD(9) [OF wf f])
  have ends: "\<exists>xs. path ns' (Some i) xs" if i: "i < length ns" for i
  proof (cases "i = f")
    case True
    obtain xs where xs: "path ns (Some n) xs" using nodes_wfD(1) [OF wf n(1)] by blast
    then obtain ys where ys: "path ns (nnext (ns ! n)) ys" by (cases xs) auto
    have "path ns' (nnext (ns ! n)) (after_all n f ys)" by (rule pa [OF ys off [OF ys noprev [OF n(1)]]])
    then have "path ns' (Some f) (f # after_all n f ys)" using f l nxs(2) by simp
    with True show ?thesis by blast
  next
    case False
    obtain xs where "path ns (Some i) xs" using nodes_wfD(1) [OF wf i] by blast
    with pa [OF this off [OF this]] False show ?thesis by blast
  qed
  show ?thesis
  proof (rule nodes_wfI; (simp only: l)?)
    fix i assume i: "i < length ns"
    show "\<exists>xs. path ns' (Some i) xs" by (rule ends [OF i])
    assume ki: "keyed ns' i"
    show "hk (nkey (ns' ! i)) < length ns \<and> (\<exists>xs. path ns' (Some (hk (nkey (ns' ! i)))) xs \<and> i \<in> set xs)"
    proof (cases "i = f")
      case True
      obtain xs where xs: "path ns (Some n) xs" using nodes_wfD(1) [OF wf n(1)] by blast
      have "path ns' (Some n) (after_all n f xs)" using fn by (intro pa [OF xs off [OF xs]]) simp
      moreover have "n \<in> set xs" using xs by (cases xs) auto
      then have "f \<in> set (after_all n f xs)" by (rule after_all_f)
      ultimately show ?thesis using True ky [OF i] k n by auto
    next
      case False
      with ki kd i have ki': "keyed ns i" by blast
      from nodes_wfD(4) [OF wf i ki'] obtain xs where xs: "path ns (Some (hk (nkey (ns ! i)))) xs" "i \<in> set xs" by blast
      have "path ns' (Some (hk (nkey (ns ! i)))) (after_all n f xs)"
        using nomain [OF i ki'] by (intro pa [OF xs(1) off [OF xs(1)]]) simp
      with after_all_set [OF xs(2)] nodes_wfD(3) [OF wf i ki'] ky [OF i] False show ?thesis by auto
    qed
  next
    fix i j q assume i: "i < length ns" "j < length ns" "nnext (ns' ! i) = Some q" "nnext (ns' ! j) = Some q"
    define g where "g x = (if x = f then n else x)" for x
    have old: "x < length ns \<Longrightarrow> x \<noteq> n \<Longrightarrow> nnext (ns' ! x) = nnext (ns ! g x) \<and> g x < length ns" for x
      using nxs(2) nxs(3) [of x] n(1) by (auto simp: g_def)
    have nf: "x < length ns \<Longrightarrow> x \<noteq> n \<Longrightarrow> nnext (ns' ! x) \<noteq> Some f" for x
      using old [of x] noprev [of "g x"] by auto
    show "i = j"
    proof (cases "q = f")
      case True
      with i nf have "i = n" "j = n" by auto
      then show ?thesis by simp
    next
      case False
      with i nxs(1) have ne: "i \<noteq> n" "j \<noteq> n" by auto
      have "g i = g j" using nodes_wfD(2) [OF wf, of "g i" "g j" q] old ne i by auto
      with ne show ?thesis by (auto simp: g_def split: if_splits)
    qed
  next
    fix i j assume i: "i < length ns" "j < length ns" and a: "keyed ns' i" "hk (nkey (ns' ! i)) \<noteq> i" "keyed ns' j"
    show "hk (nkey (ns' ! j)) \<noteq> i"
    proof (cases "i = f")
      case True
      with nomain [OF i(2)] kd [OF i(2)] ky [OF i(2)] a(3) k fn show ?thesis by (cases "j = f") auto
    next
      case False
      with a i kd ky have b: "keyed ns i" "hk (nkey (ns ! i)) \<noteq> i" by auto
      then have "i \<noteq> n" using n(3) by auto
      with nodes_wfD(5) [OF wf i b] kd [OF i(2)] ky [OF i(2)] k a(3) show ?thesis by (cases "j = f") auto
    qed
  next
    fix i assume i: "i < length ns" and "\<not> keyed ns' i"
    then have "\<not> keyed ns i" "i \<noteq> f" using kd by auto
    moreover from this n(2) have "i \<noteq> n" by auto
    ultimately show "nnext (ns' ! i) = None \<and> tvisnil (nval (ns' ! i))"
      using nodes_wfD(6,7) [OF wf i] nxs(3) [OF i] vl [OF i] by simp
  next
    fix i j assume i: "i < length ns" "j < length ns" and "\<not> keyed ns' i"
    then have u: "\<not> keyed ns i" "i \<noteq> f" using kd by auto
    have "i \<noteq> n" using u n(2) by auto
    note no = nodes_wfD(8) [OF wf i(1) u(1)]
    have "nnext (ns' ! j) \<noteq> Some i"
      using no [OF n(1)] no [OF i(2)] u nxs(1,2) nxs(3) [OF i(2)] by (cases "j = n"; cases "j = f") auto
    moreover have "keyed ns' j \<Longrightarrow> hk (nkey (ns' ! j)) \<noteq> i"
      using nodes_wfD(9) [OF wf i(1) u(1) i(2)] kd [OF i(2)] ky [OF i(2)] k \<open>i \<noteq> n\<close> by (cases "j = f") auto
    ultimately show "nnext (ns' ! j) \<noteq> Some i \<and> (keyed ns' j \<longrightarrow> hk (nkey (ns' ! j)) \<noteq> i)" by blast
  next
    fix i j assume i: "i < length ns" "j < length ns" and "keyed ns' i" "keyed ns' j" "nkey (ns' ! i) = nkey (ns' ! j)"
    then show "i = j" using nodes_wfD(10) [OF wf i] new kd ky by (cases "i = f"; cases "j = f") auto
  qed
qed

text \<open>Insertion at a main position that holds a key of another chain.\<close>

definition moved :: "nat \<Rightarrow> nat \<Rightarrow> nat \<Rightarrow> nat" where
  "moved n f x = (if x = n then f else x)"

lemma moved_simps [simp]: "moved n f n = f" "x \<noteq> n \<Longrightarrow> moved n f x = x"
  by (simp_all add: moved_def)

lemma path_moved:
  assumes l: "length ns' = length ns" and f: "f < length ns" "f \<noteq> n"
    and nx: "nnext (ns' ! f) = map_option (moved n f) (nnext (ns ! n))"
      "\<And>x. x < length ns \<Longrightarrow> x \<noteq> n \<Longrightarrow> x \<noteq> f \<Longrightarrow> nnext (ns' ! x) = map_option (moved n f) (nnext (ns ! x))"
  shows "path ns p xs \<Longrightarrow> f \<notin> set xs \<Longrightarrow> path ns' (map_option (moved n f) p) (map (moved n f) xs)"
proof (induction xs arbitrary: p)
  case (Cons x xs)
  then have ih: "path ns' (map_option (moved n f) (nnext (ns ! x))) (map (moved n f) xs)" by simp
  show ?case
  proof (cases "x = n")
    case True
    with ih Cons.prems l f nx(1) show ?thesis by simp
  next
    case False
    with Cons.prems nx(2) [of x] ih l show ?thesis by simp
  qed
qed simp

lemma insert_move:
  assumes wf: "nodes_wf hk ns" and n: "n < length ns" "keyed ns n" "hk (nkey (ns ! n)) \<noteq> n"
    and p: "p < length ns" "nnext (ns ! p) = Some n"
    and f: "f < length ns" "\<not> keyed ns f" and k: "hk k = n" "\<not> tvisnil k"
    and new: "\<And>i. i < length ns \<Longrightarrow> nkey (ns ! i) \<noteq> k"
    and l: "length ns' = length ns"
    and nx: "nnext (ns' ! n) = None" "nnext (ns' ! f) = nnext (ns ! n)" "nnext (ns' ! p) = Some f"
      "\<And>x. x < length ns \<Longrightarrow> x \<noteq> n \<Longrightarrow> x \<noteq> f \<Longrightarrow> x \<noteq> p \<Longrightarrow> nnext (ns' ! x) = nnext (ns ! x)"
    and ky: "\<And>i. i < length ns \<Longrightarrow> nkey (ns' ! i) = (if i = n then k else if i = f then nkey (ns ! n) else nkey (ns ! i))"
    and vl: "\<And>i. i < length ns \<Longrightarrow> i \<noteq> n \<Longrightarrow> i \<noteq> f \<Longrightarrow> nval (ns' ! i) = nval (ns ! i)"
  shows "nodes_wf hk ns'"
proof -
  have fn: "f \<noteq> n" using n(2) f(2) by auto
  have noprev: "j < length ns \<Longrightarrow> nnext (ns ! j) \<noteq> Some f" for j by (rule nodes_wfD(8) [OF wf f])
  have nomain: "j < length ns \<Longrightarrow> keyed ns j \<Longrightarrow> hk (nkey (ns ! j)) \<noteq> f" for j by (rule nodes_wfD(9) [OF wf f])
  have nomainn: "j < length ns \<Longrightarrow> keyed ns j \<Longrightarrow> hk (nkey (ns ! j)) \<noteq> n" for j
    by (rule nodes_wfD(5) [OF wf n(1) _ n(2,3)])
  have fnx: "nnext (ns ! f) = None" by (rule nodes_wfD(6) [OF wf f])
  have pf: "p \<noteq> f" using p(2) fnx by auto
  have pn: "p \<noteq> n"
  proof
    assume "p = n"
    obtain xs where xs: "path ns (Some n) xs" using nodes_wfD(1) [OF wf n(1)] by blast
    with p(2) \<open>p = n\<close> obtain ys where "xs = n # n # ys" by (cases xs; cases "tl xs") auto
    with path_distinct [OF xs] show False by simp
  qed
  have other: "x < length ns \<Longrightarrow> x \<noteq> p \<Longrightarrow> nnext (ns ! x) \<noteq> Some n" for x
    using nodes_wfD(2) [OF wf _ p(1) _ p(2), of x] by blast
  have nxm: "x < length ns \<Longrightarrow> x \<noteq> n \<Longrightarrow> x \<noteq> f \<Longrightarrow> nnext (ns' ! x) = map_option (moved n f) (nnext (ns ! x))" for x
    using nx(3,4) p(2) other by (cases "x = p"; cases "nnext (ns ! x)") (auto simp: moved_def)
  have fxm: "nnext (ns' ! f) = map_option (moved n f) (nnext (ns ! n))"
    using nx(2) other [OF n(1)] pn by (cases "nnext (ns ! n)") (auto simp: moved_def)
  have pm: "path ns q xs \<Longrightarrow> f \<notin> set xs \<Longrightarrow> path ns' (map_option (moved n f) q) (map (moved n f) xs)" for q xs
    by (rule path_moved [OF l f(1) fn fxm]) (use nxm in simp_all)
  note off = unkeyed_not_on_path [OF wf f]
  have kd: "i < length ns \<Longrightarrow> keyed ns' i = (i = f \<or> keyed ns i)" for i using ky k n(2) by (auto simp: keyed_def)
  have pn': "path ns' (Some n) [n]" using l n(1) nx(1) by simp
  have ends: "\<exists>xs. path ns' (Some i) xs" if i: "i < length ns" for i
  proof -
    consider "i = n" | "i = f" | "i \<noteq> n" "i \<noteq> f" by blast
    then show ?thesis
    proof cases
      case 1
      with pn' show ?thesis by blast
    next
      case 2
      obtain xs where xs: "path ns (Some n) xs" using nodes_wfD(1) [OF wf n(1)] by blast
      from pm [OF xs off [OF xs]] fn 2 show ?thesis by (auto simp: moved_def)
    next
      case 3
      obtain xs where xs: "path ns (Some i) xs" using nodes_wfD(1) [OF wf i] by blast
      from pm [OF xs off [OF xs]] 3 show ?thesis by (auto simp: moved_def)
    qed
  qed
  have main: "hk (nkey (ns ! i)) < length ns \<and> (\<exists>xs. path ns' (Some (hk (nkey (ns ! i)))) xs \<and> moved n f i \<in> set xs)"
    if i: "i < length ns" "keyed ns i" for i
  proof -
    from nodes_wfD(4) [OF wf i] obtain xs where xs: "path ns (Some (hk (nkey (ns ! i)))) xs" "i \<in> set xs" by blast
    have "path ns' (map_option (moved n f) (Some (hk (nkey (ns ! i))))) (map (moved n f) xs)"
      using nomain [OF i] by (intro pm [OF xs(1) off [OF xs(1)]]) simp
    then have "path ns' (Some (hk (nkey (ns ! i)))) (map (moved n f) xs)"
      using nomainn [OF i] by (simp add: moved_def)
    moreover have "moved n f i \<in> set (map (moved n f) xs)" using xs(2) by simp
    ultimately show ?thesis using nodes_wfD(3) [OF wf i] by blast
  qed
  show ?thesis
  proof (rule nodes_wfI; (simp only: l)?)
    fix i assume i: "i < length ns"
    show "\<exists>xs. path ns' (Some i) xs" by (rule ends [OF i])
    assume ki: "keyed ns' i"
    show "hk (nkey (ns' ! i)) < length ns \<and> (\<exists>xs. path ns' (Some (hk (nkey (ns' ! i)))) xs \<and> i \<in> set xs)"
    proof -
      consider "i = n" | "i = f" | "i \<noteq> n" "i \<noteq> f" by blast
      then show ?thesis
      proof cases
        case 1
        have "\<exists>xs. path ns' (Some n) xs \<and> n \<in> set xs" using pn' by (intro exI [of _ "[n]"]) simp
        with 1 ky [OF n(1)] k n(1) show ?thesis by simp
      next
        case 2
        with main [OF n(1,2)] ky [OF f(1)] fn show ?thesis by (auto simp: moved_def)
      next
        case 3
        with ki kd i have "keyed ns i" by blast
        with main [OF i this] ky [OF i] 3 show ?thesis by (simp add: moved_def)
      qed
    qed
  next
    fix i j q assume i: "i < length ns" "j < length ns" "nnext (ns' ! i) = Some q" "nnext (ns' ! j) = Some q"
    define g where "g x = (if x = f then n else x)" for x
    have ne: "i \<noteq> n" "j \<noteq> n" using i nx(1) by auto
    have old: "nnext (ns' ! x) = map_option (moved n f) (nnext (ns ! g x)) \<and> g x < length ns"
      if "x < length ns" "x \<noteq> n" for x
      using fxm nxm [OF that] that n(1) by (auto simp: g_def)
    obtain a b where ab: "nnext (ns ! g i) = Some a" "moved n f a = q" "nnext (ns ! g j) = Some b" "moved n f b = q"
      using old [OF i(1) ne(1)] old [OF i(2) ne(2)] i by (cases "nnext (ns ! g i)"; cases "nnext (ns ! g j)") auto
    have "a \<noteq> f" "b \<noteq> f" using noprev ab old [OF i(1) ne(1)] old [OF i(2) ne(2)] by auto
    with ab have "a = b" by (auto simp: moved_def split: if_splits)
    then have "g i = g j" using nodes_wfD(2) [OF wf, of "g i" "g j" a] ab old ne i by auto
    with ne show "i = j" by (auto simp: g_def split: if_splits)
  next
    fix i j assume i: "i < length ns" "j < length ns" and a: "keyed ns' i" "hk (nkey (ns' ! i)) \<noteq> i" "keyed ns' j"
    have "i \<noteq> n" using a(2) ky [OF n(1)] k by auto
    have jk: "hk (nkey (ns' ! j)) = n \<or> (\<exists>j'<length ns. keyed ns j' \<and> hk (nkey (ns' ! j)) = hk (nkey (ns ! j')))"
      using ky [OF i(2)] kd [OF i(2)] a(3) k n(1,2) i(2) by (cases "j = n"; cases "j = f") auto
    show "hk (nkey (ns' ! j)) \<noteq> i"
    proof (cases "i = f")
      case True
      with jk nomain fn show ?thesis by metis
    next
      case False
      with a(1,2) kd [OF i(1)] ky [OF i(1)] \<open>i \<noteq> n\<close> have "keyed ns i" "hk (nkey (ns ! i)) \<noteq> i" by auto
      with nodes_wfD(5) [OF wf i(1) _ this] jk \<open>i \<noteq> n\<close> show ?thesis by metis
    qed
  next
    fix i assume i: "i < length ns" and "\<not> keyed ns' i"
    then have u: "\<not> keyed ns i" "i \<noteq> f" using kd by auto
    then have "i \<noteq> n" using n(2) by auto
    moreover have "i \<noteq> p" using p(2) nodes_wfD(6) [OF wf i u(1)] by auto
    ultimately show "nnext (ns' ! i) = None \<and> tvisnil (nval (ns' ! i))"
      using nodes_wfD(6,7) [OF wf i u(1)] nx(4) [OF i] vl [OF i] u by simp
  next
    fix i j assume i: "i < length ns" "j < length ns" and "\<not> keyed ns' i"
    then have u: "\<not> keyed ns i" "i \<noteq> f" using kd by auto
    have "i \<noteq> n" using u n(2) by auto
    note no = nodes_wfD(8) [OF wf i(1) u(1)]
    have "nnext (ns' ! j) \<noteq> Some i"
      using no [OF n(1)] no [OF i(2)] u nx(1,2,3) nx(4) [OF i(2)] by (cases "j = n"; cases "j = f"; cases "j = p") auto
    moreover have "keyed ns' j \<Longrightarrow> hk (nkey (ns' ! j)) \<noteq> i"
      using nodes_wfD(9) [OF wf i(1) u(1) i(2)] nodes_wfD(9) [OF wf i(1) u(1) n(1,2)]
        kd [OF i(2)] ky [OF i(2)] k \<open>i \<noteq> n\<close> by (cases "j = f"; cases "j = n") auto
    ultimately show "nnext (ns' ! j) \<noteq> Some i \<and> (keyed ns' j \<longrightarrow> hk (nkey (ns' ! j)) \<noteq> i)" by blast
  next
    fix i j assume i: "i < length ns" "j < length ns" and a: "keyed ns' i" "keyed ns' j" "nkey (ns' ! i) = nkey (ns' ! j)"
    define g where "g x = (if x = f then n else x)" for x
    have g: "x \<noteq> n \<Longrightarrow> x < length ns \<Longrightarrow> keyed ns' x \<Longrightarrow> g x < length ns \<and> keyed ns (g x) \<and> nkey (ns' ! x) = nkey (ns ! g x)" for x
      using ky [of x] kd [of x] n by (auto simp: g_def)
    show "i = j"
    proof (cases "i = n \<or> j = n")
      case True
      with a i g new ky [OF n(1)] show ?thesis by metis
    next
      case False
      then have "g i = g j" using nodes_wfD(10) [OF wf, of "g i" "g j"] g [of i] g [of j] a i by auto
      with False show ?thesis by (auto simp: g_def split: if_splits)
    qed
  qed
qed

end
