(* ===== verification/TabAbs.thy ===== *)
theory TabAbs
  imports TabChain
begin

text \<open>
  The abstract map of a table from canonical keys to values, the invariant of tables, and what a
  search of a chain finds: the tests of the lookup loops compare canonical keys.
\<close>

section \<open>Keys\<close>

text \<open>A proper key: not nil, not NaN, with a canonical primitive pattern. (There are no integer tags without
  dual-number mode.)\<close>

definition key_ok :: "tvalue \<Rightarrow> bool" where
  "key_ok k \<longleftrightarrow> \<not> tvisnil k \<and> itype k \<noteq> LJ_TISNUM \<and> (tvispri k \<longrightarrow> k = setpriV (itype k)) \<and>
     (tvisnum k \<longrightarrow> \<not> num_isnan k)"

lemma mzero_num: "tvismzero k \<Longrightarrow> tvisnum k \<and> \<not> tvisstr k \<and> \<not> tvisnil k"
proof -
  have "tvisnum 0x8000000000000000 \<and> \<not> tvisstr 0x8000000000000000 \<and> \<not> tvisnil 0x8000000000000000" by code_simp
  then show "tvismzero k \<Longrightarrow> ?thesis" by (simp add: tvismzero_def)
qed

lemma zero_num: "tvisnum 0" "\<not> tvisstr 0" "\<not> tvisnil 0"
  by code_simp+

lemma tvispri_nil: "tvisnil k \<Longrightarrow> tvispri k \<and> \<not> tvisnum k"
proof -
  have "tvispri (- 1) \<and> \<not> tvisnum (- 1)" by code_simp
  then show "tvisnil k \<Longrightarrow> ?thesis" by (simp add: tvisnil_def)
qed

lemma tvispri_cong: "itype a = itype b \<Longrightarrow> tvispri a = tvispri b"
  by (simp add: tvispri_def)

lemma ckey_tests [simp]: "tvisnum (ckey k) = tvisnum k" "tvisstr (ckey k) = tvisstr k" "tvisnil (ckey k) = tvisnil k"
  using mzero_num [of k] zero_num by (auto simp: ckey_def)

lemma ckey_nonnum: "\<not> tvisnum k \<Longrightarrow> ckey k = k"
  using mzero_num [of k] by (auto simp: ckey_def)

lemma num_not_pri: "tvisnum k \<Longrightarrow> \<not> tvispri k \<and> tvisnumber k \<and> \<not> tvisstr k \<and> \<not> tvisnil k"
  using tvispri_nil [of k]
  by (auto simp: tvisnum_def tvispri_def tvisnumber_def tvisstr_def tag_defs word_less_def word_le_def)

text \<open>Raw equality of proper keys is equality of canonical keys.\<close>

lemma equal_iff_ckey:
  assumes "key_ok a" and "key_ok b"
  shows "lj_obj_equal a b \<longleftrightarrow> ckey a = ckey b"
proof -
  have num: "\<And>x. key_ok x \<Longrightarrow> tvisnumber x = tvisnum x"
    by (auto simp: key_ok_def tvisnumber_def tvisnum_def)
  consider "tvisnum a" "tvisnum b" | "\<not> tvisnum a" "\<not> tvisnum b" | "tvisnum a \<noteq> tvisnum b" by blast
  then show ?thesis
  proof cases
    case 1
    with assms num num_not_pri [of a] show ?thesis by (auto simp: lj_obj_equal_def num_eq_ckey key_ok_def)
  next
    case 2
    then have c: "ckey a = a" "ckey b = b" by (simp_all add: ckey_nonnum)
    show ?thesis
    proof (cases "itype a = itype b")
      case True
      with assms have "tvispri a \<Longrightarrow> a = b" using tvispri_cong [OF True] by (metis key_ok_def)
      with True 2 c show ?thesis by (auto simp: lj_obj_equal_def)
    next
      case False
      with 2 assms num c show ?thesis by (auto simp: lj_obj_equal_def)
    qed
  next
    case 3
    then have "itype a \<noteq> itype b" by (auto simp: tvisnum_def)
    moreover from 3 have "ckey a \<noteq> ckey b" using ckey_tests(1) by metis
    ultimately show ?thesis using 3 assms num by (auto simp: lj_obj_equal_def)
  qed
qed

lemma key_ok_ckey: "key_ok k \<Longrightarrow> key_ok (ckey k)"
  using zero_num by (auto simp: key_ok_def ckey_def num_isnan_def itype_def tag_defs dest: num_not_pri)

text \<open>Equal keys hash alike: the sign of zero is shifted out.\<close>

lemma keyhash_ckey: "keyhash env (ckey k) = keyhash env k"
proof (cases "tvismzero k")
  case True
  then have k: "k = 0x8000000000000000" by (simp add: tvismzero_def)
  have "push_bit 1 (hi32 0x8000000000000000) = push_bit 1 (hi32 0)" "lo32 0x8000000000000000 = lo32 0"
    by (simp_all add: hi32_def lo32_def)
  with True mzero_num [of k] zero_num show ?thesis by (simp add: keyhash_def ckey_def k)
qed (simp add: ckey_def)

lemma strkey:
  assumes "tvisstr x"
  shows "x = setgcVraw (gcval x) LJ_TSTR"
proof (rule bit_word_eqI)
  fix n assume n: "n < LENGTH(64)"
  have it: "ucast (signed_drop_bit 47 x :: u64) = (LJ_TSTR :: u32)" using assms by (simp add: tvisstr_def itype_def)
  have high: "bit x m = bit (LJ_TSTR :: u32) (m - 47)" if "47 \<le> m" "m < 64" for m
  proof -
    have "bit (ucast (signed_drop_bit 47 x :: u64) :: u32) (m - 47) = bit x m"
      using that by (auto simp: bit_simps)
    then show ?thesis using it by simp
  qed
  have mask: "bit LJ_GCVMASK m = (m < 47)" for m
  proof -
    have eq: "LJ_GCVMASK = mask 47" unfolding LJ_GCVMASK_def by (simp add: mask_eq_exp_minus_1)
    show ?thesis unfolding eq by (simp only: bit_mask_iff possible_bit_word) auto
  qed
  show "bit x n = bit (setgcVraw (gcval x) LJ_TSTR) n"
    using high [of n] n by (cases "n < 47") (auto simp: setgcVraw_def gcval_def bit_simps mask)
qed

lemma num_of_int_num:
  assumes "\<bar>i\<bar> < 2 ^ 31 + 1"
  shows "tvisnum (num_of_int i)"
proof -
  let ?w = "num_of_int i"
  have "\<bar>i\<bar> < 2 ^ 53" using assms by simp
  from num_of_int_fields(1) [OF this] have e: "dexp ?w < 2047" .
  show ?thesis
  proof (rule ccontr)
    assume "\<not> tvisnum ?w"
    then have "LJ_TISNUM \<le> itype ?w" by (simp add: tvisnum_def)
    then have hi: "unat (LJ_TISNUM) \<le> unat (itype ?w)" by (simp add: word_le_nat_alt)
    have b: "bit (itype ?w) n = bit ?w (n + 47)" if "n < 16" for n
      using that by (auto simp: itype_def bit_simps ac_simps)
    have bits: "bit ?w m" if m: "52 \<le> m" "m < 63" for m
    proof (rule ccontr)
      assume nb: "\<not> bit ?w m"
      define d where "d = m - 47"
      have d: "5 \<le> d" "d < 16" using m by (auto simp: d_def)
      have "\<not> bit (itype ?w) d" using b [of d] d nb m by (simp add: d_def)
      then have "itype ?w AND NOT (push_bit d 1) = itype ?w" by (auto intro!: bit_word_eqI simp: bit_simps)
      from ord_eq_le_trans [OF this [symmetric] word_and_le1] have "itype ?w \<le> NOT (push_bit d 1)" .
      moreover have "NOT (push_bit d (1 :: u32)) < LJ_TISNUM"
      proof -
        have "d = 5 \<or> d = 6 \<or> d = 7 \<or> d = 8 \<or> d = 9 \<or> d = 10 \<or> d = 11 \<or> d = 12 \<or> d = 13 \<or> d = 14 \<or> d = 15"
          using d by arith
        then show ?thesis by (elim disjE) (simp_all add: tag_defs word_less_def)
      qed
      ultimately show False using \<open>LJ_TISNUM \<le> itype ?w\<close> by simp
    qed
    have "take_bit 11 (drop_bit 52 (unat ?w)) = mask 11"
    proof (rule bit_eqI)
      fix n
      show "bit (take_bit 11 (drop_bit 52 (unat ?w))) n = bit (mask 11 :: nat) n"
        using bits [of "52 + n"]
        by (cases "n < 11") (simp_all add: bit_take_bit_iff bit_drop_bit_eq bit_mask_iff bit_unsigned_iff)
    qed
    then have "dexp ?w = 2047" by (simp add: dexp_def take_bit_eq_mod drop_bit_eq_div mask_eq_exp_minus_1)
    with e show False by simp
  qed
qed

lemma num_of_int_key: "key_ok (num_of_int (sint (k :: u32)))" "ckey (num_of_int (sint k)) = num_of_int (sint k)"
    "tvisnum (num_of_int (sint k))"
proof -
  have "\<bar>sint k\<bar> < 2 ^ 31 + 1" using sint_range32 [of k] by linarith
  then show n: "tvisnum (num_of_int (sint k))" by (rule num_of_int_num)
  show "ckey (num_of_int (sint k)) = num_of_int (sint k)" by (rule ckey_num_of_int [OF sint_range32(3)])
  show "key_ok (num_of_int (sint k))"
    using n num_not_pri [OF n] num_of_int_not_nan [OF sint_range32(3) [of k]]
    by (auto simp: key_ok_def tvisnum_def)
qed

lemma str_key: "tvisstr k \<Longrightarrow> key_ok k \<and> ckey k = k \<and> \<not> tvisnum k \<and> \<not> tvisnil k"
proof -
  assume s: "tvisstr k"
  then have i: "itype k = LJ_TSTR" by (simp add: tvisstr_def)
  have "\<not> tvisnum k" using i by (simp add: tvisnum_def tag_defs word_less_def)
  moreover have "\<not> tvispri k" using i by (simp add: tvispri_def tag_defs word_le_def)
  moreover from this have "\<not> tvisnil k" using tvispri_nil by blast
  ultimately show ?thesis using i ckey_nonnum [of k] by (simp add: key_ok_def tag_defs)
qed

section \<open>The abstract map and the invariant\<close>

text \<open>The array index of a canonical key, if the key lies in the array part.\<close>

definition aidx :: "gctab \<Rightarrow> tvalue \<Rightarrow> nat option" where
  "aidx t k = (case (if tvisnum k then lj_num2int_check k else None) of
     Some i \<Rightarrow> if unat i < asize t then Some (unat i) else None
   | None \<Rightarrow> None)"

definition nodes_val :: "node list \<Rightarrow> tvalue \<Rightarrow> tvalue" where
  "nodes_val ns k = (case find (\<lambda>n. nkey n = k) ns of Some n \<Rightarrow> nval n | None \<Rightarrow> niltv)"

definition tab_abs :: "gctab \<Rightarrow> tvalue \<Rightarrow> tvalue" where
  "tab_abs t k =
     (if key_ok k then
        case aidx t (ckey k) of Some i \<Rightarrow> array t ! i | None \<Rightarrow> nodes_val (nodes t) (ckey k)
      else niltv)"

definition tab_wf :: "tabenv \<Rightarrow> gctab \<Rightarrow> bool" where
  "tab_wf env t \<longleftrightarrow>
     length (nodes t) = hmask t + 1 \<and> (\<exists>b \<le> LJ_MAX_HBITS. hmask t + 1 = 2 ^ b) \<and>
     asize t \<le> length (array t) \<and> asize t \<le> LJ_MAX_ASIZE \<and>
     nodes_wf (hashkey env t) (nodes t) \<and> freetop t \<le> length (nodes t) \<and>
     (hmask t = 0 \<longrightarrow> nodes t = [nilnode] \<and> freetop t = 0) \<and>
     (0 < hmask t \<longrightarrow> (\<forall>i<length (nodes t). freetop t \<le> i \<longrightarrow> keyed (nodes t) i)) \<and>
     (\<forall>i<length (nodes t). keyed (nodes t) i \<longrightarrow> key_ok (nkey (nodes t ! i)) \<and>
        ckey (nkey (nodes t ! i)) = nkey (nodes t ! i) \<and> aidx t (nkey (nodes t ! i)) = None)"

lemma tab_wfD:
  assumes "tab_wf env t"
  shows "length (nodes t) = hmask t + 1" and "\<exists>b \<le> LJ_MAX_HBITS. hmask t + 1 = 2 ^ b"
    and "asize t \<le> length (array t)" and "asize t \<le> LJ_MAX_ASIZE"
    and "nodes_wf (hashkey env t) (nodes t)" and "freetop t \<le> length (nodes t)"
    and "hmask t = 0 \<Longrightarrow> nodes t = [nilnode] \<and> freetop t = 0"
    and "0 < hmask t \<Longrightarrow> i < length (nodes t) \<Longrightarrow> freetop t \<le> i \<Longrightarrow> keyed (nodes t) i"
    and "i < length (nodes t) \<Longrightarrow> keyed (nodes t) i \<Longrightarrow> key_ok (nkey (nodes t ! i)) \<and>
        ckey (nkey (nodes t ! i)) = nkey (nodes t ! i) \<and> aidx t (nkey (nodes t ! i)) = None"
  using assms unfolding tab_wf_def by simp_all

lemma hashkey_cong: "hmask t' = hmask t \<Longrightarrow> hashkey env t' = hashkey env t"
  by (simp add: fun_eq_iff hashkey_def hashmask_def)

lemma hashkey_range: "tab_wf env t \<Longrightarrow> hashkey env t k < length (nodes t)"
proof -
  assume wf: "tab_wf env t"
  have "unat (keyhash env k AND word_of_nat (hmask t)) \<le> unat (word_of_nat (hmask t) :: u32)"
    using word_and_le1 [of "keyhash env k" "word_of_nat (hmask t)"] by (simp add: word_le_nat_alt)
  also have "\<dots> \<le> hmask t" by (simp add: unat_of_nat)
  finally show ?thesis using tab_wfD(1) [OF wf] by (simp add: hashkey_def hashmask_def)
qed

lemma hashkey_ckey: "hashkey env t (ckey k) = hashkey env t k"
  by (simp add: hashkey_def keyhash_ckey)

text \<open>Node keys are canonical, so the loops' tests compare canonical keys.\<close>

lemma find_node_key:
  assumes wf: "tab_wf env t" and k: "key_ok k"
    and P: "\<And>x. key_ok x \<Longrightarrow> P x \<longleftrightarrow> ckey x = ckey k" "\<not> P niltv"
    and h: "h = hashkey env t k"
  shows "\<exists>r. find_node t P h = Done r \<and>
     (case r of Some i \<Rightarrow> i < length (nodes t) \<and> nkey (nodes t ! i) = ckey k
      | None \<Rightarrow> \<forall>i<length (nodes t). nkey (nodes t ! i) \<noteq> ckey k)"
proof -
  have nn: "\<not> tvisnil (ckey k)" using k by (simp add: key_ok_def)
  have "P (nkey (nodes t ! i)) \<longleftrightarrow> nkey (nodes t ! i) = ckey k" if i: "i < length (nodes t)" for i
  proof (cases "keyed (nodes t) i")
    case True
    with tab_wfD(9) [OF wf i] P(1) show ?thesis by simp
  next
    case False
    then have "nkey (nodes t ! i) = niltv" by (simp add: keyed_def tvisnil_def niltv_def)
    with P(2) nn show ?thesis by (auto simp: tvisnil_def niltv_def)
  qed
  from find_key [OF tab_wfD(5) [OF wf] hashkey_range [OF wf] nn this]
  show ?thesis by (simp add: find_node_def h hashkey_ckey)
qed

lemma nodes_val_at:
  assumes "i < length ns" and "nkey (ns ! i) = k" and "\<And>j. j < length ns \<Longrightarrow> nkey (ns ! j) = k \<Longrightarrow> j = i"
  shows "nodes_val ns k = nval (ns ! i)"
proof -
  have "find (\<lambda>n. nkey n = k) ns = Some (ns ! i)"
    unfolding find_Some_iff
  proof (intro exI conjI allI impI)
    fix j assume "j < i"
    with assms(1) assms(3) [of j] show "nkey (ns ! j) \<noteq> k" by (metis less_irrefl less_trans)
  qed (use assms(1,2) in simp_all)
  then show ?thesis by (simp add: nodes_val_def)
qed

lemma nodes_val_none: "(\<And>i. i < length ns \<Longrightarrow> nkey (ns ! i) \<noteq> k) \<Longrightarrow> nodes_val ns k = niltv"
proof -
  assume a: "\<And>i. i < length ns \<Longrightarrow> nkey (ns ! i) \<noteq> k"
  then have "find (\<lambda>n. nkey n = k) ns = None" unfolding find_None_iff by (metis in_set_conv_nth)
  then show ?thesis by (simp add: nodes_val_def)
qed

lemma nodes_val_key:
  assumes wf: "tab_wf env t" and i: "i < length (nodes t)" "nkey (nodes t ! i) = k" "\<not> tvisnil k"
  shows "nodes_val (nodes t) k = nval (nodes t ! i)"
proof (rule nodes_val_at [OF i(1,2)])
  fix j assume j: "j < length (nodes t)" "nkey (nodes t ! j) = k"
  with i have "keyed (nodes t) i" "keyed (nodes t) j" by (auto simp: keyed_def)
  with nodes_wfD(10) [OF tab_wfD(5) [OF wf] j(1) i(1)] i j show "j = i" by simp
qed

lemma find_node_val:
  assumes wf: "tab_wf env t" and k: "key_ok k"
    and P: "\<And>x. key_ok x \<Longrightarrow> P x \<longleftrightarrow> ckey x = ckey k" "\<not> P niltv"
    and h: "h = hashkey env t k"
  shows "or_nil (cbind (find_node t P h) (\<lambda>i. Done (node_value t i))) = Done (nodes_val (nodes t) (ckey k))"
proof -
  from find_node_key [OF assms] obtain r where r: "find_node t P h = Done r"
    "case r of Some i \<Rightarrow> i < length (nodes t) \<and> nkey (nodes t ! i) = ckey k
      | None \<Rightarrow> \<forall>i<length (nodes t). nkey (nodes t ! i) \<noteq> ckey k" by blast
  have "\<not> tvisnil (ckey k)" using k by (simp add: key_ok_def)
  with r nodes_val_key [OF wf] nodes_val_none [of "nodes t" "ckey k"] show ?thesis
    by (cases r) (auto simp: or_nil_def node_value_def)
qed

text \<open>The tests of the three kinds of lookup.\<close>

lemma nil_not_key [simp]: "\<not> tvisnum niltv" "\<not> tvisstr niltv" "itype niltv = LJ_TNIL"
  by code_simp+

lemma test_int: "key_ok x \<Longrightarrow> tvisnum x \<and> num_eq x (num_of_int (sint (k :: u32))) \<longleftrightarrow> ckey x = ckey (num_of_int (sint k))"
  using num_of_int_key [of k] by (metis ckey_tests(1) key_ok_def num_eq_ckey)

lemma test_str:
  assumes "key_ok x" and "tvisstr k"
  shows "tvisstr x \<and> gcval x = gcval k \<longleftrightarrow> ckey x = ckey k"
proof
  assume "tvisstr x \<and> gcval x = gcval k"
  then show "ckey x = ckey k" using strkey [of x] strkey [OF assms(2)] by simp
next
  assume e: "ckey x = ckey k"
  then have "tvisstr x" using assms(2) ckey_tests(2) by metis
  with e str_key [of x] str_key [OF assms(2)] show "tvisstr x \<and> gcval x = gcval k" by simp
qed

lemma test_generic: "key_ok k \<Longrightarrow> key_ok x \<Longrightarrow> lj_obj_equal x k \<longleftrightarrow> ckey x = ckey k"
  by (rule equal_iff_ckey)

lemma test_nil: "key_ok k \<Longrightarrow> \<not> lj_obj_equal niltv k"
proof
  assume k: "key_ok k" and e: "lj_obj_equal niltv k"
  have "tvispri niltv" by code_simp
  have "\<not> tvisnumber niltv" by code_simp
  with e have "itype niltv = itype k" by (auto simp: lj_obj_equal_def split: if_splits)
  moreover from this have "tvispri k" using \<open>tvispri niltv\<close> tvispri_cong by blast
  ultimately have "k = setpriV LJ_TNIL" using k by (simp add: key_ok_def)
  moreover have "setpriV LJ_TNIL = niltv" by code_simp
  ultimately show False using k by (simp add: key_ok_def tvisnil_def niltv_def)
qed

end
