(* ===== verification/TabSet.thy ===== *)
theory TabSet
  imports TabAbs
begin

text \<open>
  Reading and writing tables: \<open>lj_tab_get\<close> reads the abstract map; as long as the hash part has a
  free node, setters return a slot of the key without changing the map, and a store through the slot
  updates the map at that key and no other.
\<close>

section \<open>Reading\<close>

lemma aidx_int: "tvisnum k \<Longrightarrow> lj_num2int_check k = Some i \<Longrightarrow>
    aidx t (ckey k) = (if inarray t i then Some (unat i) else None)"
  by (simp add: aidx_def num2int_ckey inarray_def)

lemma aidx_noint: "(tvisnum k \<Longrightarrow> lj_num2int_check k = None) \<Longrightarrow> aidx t (ckey k) = None"
  by (auto simp: aidx_def num2int_ckey)

lemma ckey_int: "lj_num2int_check k = Some i \<Longrightarrow> ckey k = num_of_int (sint i)"
  by (simp add: num2int_iff)

lemma getinth_val:
  assumes wf: "tab_wf env t"
  shows "or_nil (lj_tab_getinth env t i) = Done (nodes_val (nodes t) (num_of_int (sint i)))"
  using find_node_val [OF wf num_of_int_key(1) test_int [of _ i] _ refl]
  by (simp add: lj_tab_getinth_def Let_def num_of_int_key(2))

lemma getstr_val:
  assumes wf: "tab_wf env t" and k: "tvisstr k"
  shows "or_nil (lj_tab_getstr env t (gcval k)) = Done (nodes_val (nodes t) (ckey k))"
  using find_node_val [OF wf _ test_str [OF _ k] _ refl] str_key [OF k]
  by (simp add: lj_tab_getstr_def hashkey_def keyhash_def k)

text \<open>\<open>lj_tab_get\<close> reads the abstract map, for improper keys as well.\<close>

lemma get_improper:
  assumes wf: "tab_wf env t" and k: "tvisnum k" "num_isnan k"
  shows "lj_tab_get env t k = Done niltv"
proof -
  obtain xs where xs: "path (nodes t) (Some (hashkey env t k)) xs"
    using nodes_wfD(1) [OF tab_wfD(5) [OF wf] hashkey_range [OF wf]] by blast
  have no: "\<not> lj_obj_equal x k" for x
    using k num_not_pri [of k] num_not_pri [of x] tvispri_cong [of x k] by (auto simp: lj_obj_equal_def num_eq_def tvisnum_def)
  then have "find_node t (\<lambda>x. lj_obj_equal x k) (hashkey env t k) = Done None"
    using chain_find_path [OF xs path_length [OF xs]] by (simp add: find_node_def find_None_iff)
  moreover have "lj_num2int_check k = None"
    using num2int_Some [of k] k by (cases "lj_num2int_check k") (auto simp: num_eq_def)
  ultimately show ?thesis using k num_not_pri [OF k(1)] by (simp add: lj_tab_get_def or_nil_def node_value_def)
qed

lemma get_abs:
  assumes wf: "tab_wf env t" and k: "key_ok k"
  shows "lj_tab_get env t k = Done (tab_abs t k)"
proof -
  consider (str) "tvisstr k" | (int) i where "\<not> tvisstr k" "tvisnum k" "lj_num2int_check k = Some i"
    | (gen) "\<not> tvisstr k" "tvisnum k \<Longrightarrow> lj_num2int_check k = None"
    by (cases "lj_num2int_check k") auto
  then show ?thesis
  proof cases
    case str
    with getstr_val [OF wf str] k aidx_noint [of k t] str_key [OF str] show ?thesis
      by (simp add: lj_tab_get_def tab_abs_def)
  next
    case int
    note ck = ckey_int [OF int(3)]
    have "or_nil (lj_tab_getint env t i) = Done (tab_abs t k)"
      using getinth_val [OF wf, of i] k aidx_int [OF int(2,3), of t] ck
      by (auto simp: lj_tab_getint_def or_nil_def tab_abs_def inarray_def split: if_splits)
    with int show ?thesis by (simp add: lj_tab_get_def)
  next
    case gen
    have "or_nil (cbind (find_node t (\<lambda>x. lj_obj_equal x k) (hashkey env t k)) (\<lambda>i. Done (node_value t i)))
        = Done (nodes_val (nodes t) (ckey k))"
      using find_node_val [OF wf k test_generic [OF k] test_nil [OF k] refl] by simp
    moreover have "\<not> tvisnil k" using k by (simp add: key_ok_def)
    ultimately show ?thesis using gen k aidx_noint [of k t]
      by (cases "tvisnum k") (auto simp: lj_tab_get_def tab_abs_def Let_def split: option.split)
  qed
qed

section \<open>Entering a key\<close>

lemma scan_free_Some: "scan_free ns f = Some g \<Longrightarrow> g < f \<and> \<not> keyed ns g \<and> (\<forall>i<f. g < i \<longrightarrow> keyed ns i)"
  by (induction f) (auto simp: keyed_def less_Suc_eq split: if_splits)

lemma scan_free_None: "scan_free ns f = None \<Longrightarrow> i < f \<Longrightarrow> keyed ns i"
  by (induction f) (auto simp: keyed_def less_Suc_eq split: if_splits)

definition nfree :: "node list \<Rightarrow> nat" where
  "nfree ns = card {i. i < length ns \<and> \<not> keyed ns i}"

lemma nfree_pos: "0 < nfree ns \<longleftrightarrow> (\<exists>i<length ns. \<not> keyed ns i)"
proof -
  have "finite {i. i < length ns \<and> \<not> keyed ns i}" by simp
  then show ?thesis by (auto simp: nfree_def card_gt_0_iff)
qed

lemma nfree_step:
  assumes "length ns' = length ns" and "\<And>i. i < length ns \<Longrightarrow> keyed ns' i \<Longrightarrow> i = x \<or> keyed ns i"
  shows "nfree ns \<le> nfree ns' + 1"
proof -
  have "{i. i < length ns \<and> \<not> keyed ns i} \<subseteq> insert x {i. i < length ns' \<and> \<not> keyed ns' i}"
    using assms by auto
  then have "nfree ns \<le> card (insert x {i. i < length ns' \<and> \<not> keyed ns' i})"
    unfolding nfree_def by (intro card_mono) auto
  also have "\<dots> \<le> nfree ns' + 1" unfolding nfree_def by (simp add: card_insert_if)
  finally show ?thesis .
qed

text \<open>What a newly entered key changes: the node vector maps each other key to the same value.\<close>

definition entered :: "tabenv \<Rightarrow> gctab \<Rightarrow> tvalue \<Rightarrow> gctab \<Rightarrow> nat \<Rightarrow> bool" where
  "entered env t k t' n \<longleftrightarrow>
     tab_wf env t' \<and> n < length (nodes t') \<and> nkey (nodes t' ! n) = k \<and> tvisnil (nval (nodes t' ! n)) \<and>
     (\<forall>c. \<not> tvisnil c \<longrightarrow> nodes_val (nodes t') c = nodes_val (nodes t) c) \<and>
     asize t' = asize t \<and> array t' = array t \<and> hmask t' = hmask t \<and> colo t' = colo t \<and>
     nfree (nodes t) \<le> nfree (nodes t') + 1"

lemma aidx_cong: "asize t' = asize t \<Longrightarrow> aidx t' = aidx t"
  by (simp add: fun_eq_iff aidx_def cong: option.case_cong)

text \<open>The three insertions at the level of tables.\<close>

lemma entered_by:
  assumes wf: "tab_wf env t" and k: "key_ok k" "ckey k = k" "aidx t k = None"
    and new: "\<And>i. i < length (nodes t) \<Longrightarrow> nkey (nodes t ! i) \<noteq> k"
    and h: "0 < hmask t"
    and nwf: "nodes_wf (hashkey env t) ns'" and l: "length ns' = length (nodes t)"
    and n: "n < length ns'" "nkey (ns' ! n) = k" "tvisnil (nval (ns' ! n))"
    and from_new: "\<And>i. i < length ns' \<Longrightarrow> keyed ns' i \<Longrightarrow> nkey (ns' ! i) \<noteq> k \<Longrightarrow>
      \<exists>j<length (nodes t). nkey (nodes t ! j) = nkey (ns' ! i) \<and> nval (nodes t ! j) = nval (ns' ! i)"
    and to_new: "\<And>j. j < length (nodes t) \<Longrightarrow> keyed (nodes t) j \<Longrightarrow> \<not> tvisnil (nval (nodes t ! j)) \<Longrightarrow>
      \<exists>i<length ns'. nkey (ns' ! i) = nkey (nodes t ! j)"
    and kx: "\<And>i. i < length ns' \<Longrightarrow> keyed ns' i \<longleftrightarrow> i = x \<or> keyed (nodes t) i"
    and ft: "ft \<le> freetop t" "\<And>i. i < length ns' \<Longrightarrow> ft \<le> i \<Longrightarrow> keyed ns' i"
  shows "entered env t k (t\<lparr>freetop := ft, nodes := ns', black := False\<rparr>) n"
proof -
  let ?t = "t\<lparr>freetop := ft, nodes := ns', black := False\<rparr>"
  have hk: "hashkey env ?t = hashkey env t" by (rule hashkey_cong) simp
  have ai: "aidx ?t = aidx t" by (rule aidx_cong) simp
  note d = tab_wfD [OF wf]
  have "\<exists>b\<le>LJ_MAX_HBITS. hmask t + 1 = 2 ^ b" by (rule d(2))
  moreover have "key_ok (nkey (ns' ! i)) \<and> ckey (nkey (ns' ! i)) = nkey (ns' ! i) \<and> aidx t (nkey (ns' ! i)) = None"
    if i: "i < length ns'" "keyed ns' i" for i
  proof (cases "nkey (ns' ! i) = k")
    case True
    with k show ?thesis by simp
  next
    case False
    from from_new [OF i False] obtain j where "j < length (nodes t)" "nkey (nodes t ! j) = nkey (ns' ! i)" by blast
    with d(9) [of j] i show ?thesis by (simp add: keyed_def)
  qed
  ultimately have wf': "tab_wf env ?t"
    unfolding tab_wf_def hk ai using d(1,3,4,6) nwf l h ft by auto
  have nn: "\<not> tvisnil k" using k by (simp add: key_ok_def)
  have val: "nodes_val ns' c = nodes_val (nodes t) c" if c: "\<not> tvisnil c" for c
  proof (cases "\<exists>i<length ns'. nkey (ns' ! i) = c")
    case True
    then obtain i where i: "i < length ns'" "nkey (ns' ! i) = c" by blast
    have v: "nodes_val ns' c = nval (ns' ! i)" using nodes_val_key [OF wf', of i c] i c by simp
    show ?thesis
    proof (cases "c = k")
      case True
      with i n have "i = n" using nodes_wfD(10) [OF nwf i(1) n(1)] nn by (simp add: keyed_def)
      with v n True nodes_val_none [of "nodes t" k] new show ?thesis by (auto simp: tvisnil_def niltv_def)
    next
      case False
      have "keyed ns' i" using i c by (simp add: keyed_def)
      from from_new [OF i(1) this] i False obtain j where
        "j < length (nodes t)" "nkey (nodes t ! j) = c" "nval (nodes t ! j) = nval (ns' ! i)" by auto
      with nodes_val_key [OF wf, of j c] c v show ?thesis by simp
    qed
  next
    case False
    then have v: "nodes_val ns' c = niltv" by (intro nodes_val_none) blast
    show ?thesis
    proof (cases "\<exists>j<length (nodes t). nkey (nodes t ! j) = c")
      case True
      then obtain j where j: "j < length (nodes t)" "nkey (nodes t ! j) = c" by blast
      then have "keyed (nodes t) j" using c by (simp add: keyed_def)
      with to_new [OF j(1) this] False j have "tvisnil (nval (nodes t ! j))" by auto
      with nodes_val_key [OF wf j c] v show ?thesis by (simp add: tvisnil_def niltv_def)
    next
      case False
      with v nodes_val_none [of "nodes t" c] show ?thesis by simp
    qed
  qed
  have nf: "nfree (nodes t) \<le> nfree ns' + 1"
    by (rule nfree_step [of _ _ x]) (use l kx in auto)
  show ?thesis
    unfolding entered_def
  proof (intro conjI)
    show "tab_wf env ?t" by (rule wf')
    show "\<forall>c. \<not> tvisnil c \<longrightarrow> nodes_val (nodes ?t) c = nodes_val (nodes t) c" using val by simp
    show "nfree (nodes t) \<le> nfree (nodes ?t) + 1" using nf by simp
  qed (use n in simp_all)
qed

lemma upd_node_nth: "i < length ns \<Longrightarrow> upd_node j f ns ! i = (if i = j then f (ns ! j) else ns ! i)"
  by (auto simp: upd_node_def)

lemma length_upd_node [simp]: "length (upd_node j f ns) = length ns"
  by (simp add: upd_node_def)


lemma newkey_ok:
  assumes wf: "tab_wf env t" and k: "key_ok k" "aidx t (ckey k) = None"
    and new: "\<And>i. i < length (nodes t) \<Longrightarrow> nkey (nodes t ! i) \<noteq> ckey k"
    and room: "0 < hmask t" "tvisnil (nval (nodes t ! hashkey env t k)) \<or> 0 < nfree (nodes t)"
  shows "\<exists>t' n. lj_tab_newkey env rh t k = Done (t', NSlot n) \<and> entered env t (ckey k) t' n"
proof -
  let ?n = "hashkey env t k" and ?ns = "nodes t" and ?k = "ckey k"
  note d = tab_wfD [OF wf]
  note nwf = d(5)
  have n: "?n < length ?ns" by (rule hashkey_range [OF wf])
  have hkk: "hashkey env t ?k = ?n" by (rule hashkey_ckey)
  have nn: "\<not> tvisnil ?k" using k by (simp add: key_ok_def)
  have place: "(if tvismzero k then 0 else k) = ?k" by (simp add: ckey_def)
  note eb = entered_by [OF wf key_ok_ckey [OF k(1)] ckey_idem k(2) new room(1)]
  show ?thesis
  proof (cases "tvisnil (nval (?ns ! ?n))")
    case True
    let ?ns' = "?ns[?n := (?ns ! ?n)\<lparr>nkey := ?k\<rparr>]"
    have "entered env t ?k (t\<lparr>freetop := freetop t, nodes := ?ns', black := False\<rparr>) ?n"
    proof (rule eb [of ?ns' ?n ?n "freetop t"])
      show "nodes_wf (hashkey env t) ?ns'" by (rule insert_place [OF nwf n hkk nn new])
      fix i assume i: "i < length ?ns'"
      show kd: "keyed ?ns' i \<longleftrightarrow> i = ?n \<or> keyed ?ns i"
        using i nn by (cases "i = ?n") (auto simp: keyed_def)
      show "keyed ?ns' i \<Longrightarrow> nkey (?ns' ! i) \<noteq> ?k \<Longrightarrow>
          \<exists>j<length ?ns. nkey (?ns ! j) = nkey (?ns' ! i) \<and> nval (?ns ! j) = nval (?ns' ! i)"
        using i by (cases "i = ?n") auto
      show "freetop t \<le> i \<Longrightarrow> keyed ?ns' i" using d(8) [OF room(1)] kd i by auto
    next
      fix j assume j: "j < length ?ns" "\<not> tvisnil (nval (?ns ! j))"
      with True have "j \<noteq> ?n" by auto
      with j show "\<exists>i<length ?ns'. nkey (?ns' ! i) = nkey (?ns ! j)" by (intro exI [of _ j]) auto
    qed (use n True in auto)
    moreover have "lj_tab_newkey env rh t k = Done (t\<lparr>freetop := freetop t, nodes := ?ns', black := False\<rparr>, NSlot ?n)"
      using True room(1) place by (simp add: lj_tab_newkey_def place_key_def upd_node_def Let_def)
    ultimately show ?thesis by blast
  next
    case False
    have kn: "keyed ?ns ?n" using False nodes_wfD(7) [OF nwf n] by blast
    have "scan_free ?ns (freetop t) \<noteq> None"
    proof
      assume "scan_free ?ns (freetop t) = None"
      from scan_free_None [OF this] d(8) [OF room(1)] have "\<forall>i<length ?ns. keyed ?ns i"
        by (metis linorder_not_less)
      with room(2) [unfolded nfree_pos] False show False by blast
    qed
    then obtain f where f: "scan_free ?ns (freetop t) = Some f" by blast
    note fs = scan_free_Some [OF f]
    have fl: "f < length ?ns" using fs d(6) by linarith
    have fu: "\<not> keyed ?ns f" and fn: "f \<noteq> ?n" using fs kn by auto
    have fv: "tvisnil (nval (?ns ! f))" "nnext (?ns ! f) = None" using nodes_wfD(6,7) [OF nwf fl fu] by simp_all
    have above: "i < length ?ns \<Longrightarrow> f < i \<Longrightarrow> keyed ?ns i" for i using fs d(8) [OF room(1)] by (metis linorder_not_less)
    have hf: "hashkey env (t\<lparr>freetop := f\<rparr>) = hashkey env t" by (rule hashkey_cong) simp
    show ?thesis
    proof (cases "hashkey env t (nkey (?ns ! ?n)) = ?n")
      case True
      define ns' where "ns' = ?ns[f := (?ns ! f)\<lparr>nkey := ?k, nnext := nnext (?ns ! ?n)\<rparr>, ?n := (?ns ! ?n)\<lparr>nnext := Some f\<rparr>]"
      have at: "i < length ?ns \<Longrightarrow> nkey (ns' ! i) = (if i = f then ?k else nkey (?ns ! i)) \<and> nval (ns' ! i) = nval (?ns ! i)" for i
        using n fl fn by (auto simp: ns'_def nth_list_update)
      have l: "length ns' = length ?ns" by (simp add: ns'_def)
      have kd: "i < length ?ns \<Longrightarrow> keyed ns' i \<longleftrightarrow> i = f \<or> keyed ?ns i" for i using at nn by (simp add: keyed_def)
      have "entered env t ?k (t\<lparr>freetop := f, nodes := ns', black := False\<rparr>) f"
      proof (rule eb [of ns' f f f])
        show "nodes_wf (hashkey env t) ns'"
          unfolding ns'_def by (rule insert_behind [OF nwf n kn True fl fu hkk nn new])
        fix i assume i: "i < length ns'"
        then show "keyed ns' i \<longleftrightarrow> i = f \<or> keyed ?ns i" using kd l by simp
        show "nkey (ns' ! i) \<noteq> ?k \<Longrightarrow> \<exists>j<length ?ns. nkey (?ns ! j) = nkey (ns' ! i) \<and> nval (?ns ! j) = nval (ns' ! i)"
          using i at [of i] l by (intro exI [of _ i]) auto
        show "f \<le> i \<Longrightarrow> keyed ns' i" using i l kd above by (metis le_neq_implies_less)
      next
        fix j assume j: "j < length ?ns" "keyed ?ns j"
        with fu at [of j] l show "\<exists>i<length ns'. nkey (ns' ! i) = nkey (?ns ! j)" by (intro exI [of _ j]) auto
      qed (use fl l at fv fs in auto)
      moreover have "lj_tab_newkey env rh t k = Done (t\<lparr>freetop := f, nodes := ns', black := False\<rparr>, NSlot f)"
      proof -
        let ?a = "upd_node f (\<lambda>x. x\<lparr>nnext := nnext (?ns ! ?n)\<rparr>) ?ns"
        let ?b = "upd_node ?n (\<lambda>x. x\<lparr>nnext := Some f\<rparr>) ?a"
        have "upd_node f (\<lambda>x. x\<lparr>nkey := ?k\<rparr>) ?b = ns'"
          using n fl fn by (intro nth_equalityI) (auto simp: ns'_def upd_node_def nth_list_update)
        then show ?thesis
          using False f True place by (simp add: lj_tab_newkey_def hf place_key_def Let_def)
      qed
      ultimately show ?thesis by blast
    next
      case c: False
      let ?c = "hashkey env t (nkey (?ns ! ?n))"
      from nodes_wfD(4) [OF nwf n kn] obtain xs where xs: "path ?ns (Some ?c) xs" "?n \<in> set xs" by blast
      from find_pred_path [OF xs c path_length [OF xs(1)]] obtain p where
        p: "find_pred (length ?ns) ?ns ?c ?n = Done p" "p \<in> set xs" "nnext (?ns ! p) = Some ?n" by blast
      have pl: "p < length ?ns" by (rule path_range [OF xs(1) p(2)])
      have pf: "p \<noteq> f" using p(3) fv(2) by auto
      have pn: "p \<noteq> ?n"
      proof
        assume "p = ?n"
        obtain ys where ys: "path ?ns (Some ?n) ys" using nodes_wfD(1) [OF nwf n] by blast
        with p(3) \<open>p = ?n\<close> obtain zs where "ys = ?n # ?n # zs" by (cases ys; cases "tl ys") auto
        with path_distinct [OF ys] show False by simp
      qed
      define a where "a = upd_node p (\<lambda>x. x\<lparr>nnext := Some f\<rparr>) ?ns"
      define b where "b = upd_node f (\<lambda>_. a ! ?n) a"
      define ns2 where "ns2 = upd_node ?n (\<lambda>x. x\<lparr>nnext := None, nval := niltv\<rparr>) b"
      define ns' where "ns' = upd_node ?n (\<lambda>x. x\<lparr>nkey := ?k\<rparr>) ns2"
      have l: "length ns' = length ?ns" "length ns2 = length ?ns" by (simp_all add: ns'_def ns2_def b_def a_def)
      have an: "a ! ?n = ?ns ! ?n" using n pn by (simp add: a_def upd_node_nth)
      have at2: "i < length ?ns \<Longrightarrow> ns2 ! i = (if i = ?n then (?ns ! ?n)\<lparr>nnext := None, nval := niltv\<rparr> else if i = f then ?ns ! ?n
          else if i = p then (?ns ! p)\<lparr>nnext := Some f\<rparr> else ?ns ! i)" for i
        using n fl fn pl pn pf an by (auto simp: ns2_def b_def a_def upd_node_nth)
      have at: "i < length ?ns \<Longrightarrow> ns' ! i = (if i = ?n then (?ns ! ?n)\<lparr>nnext := None, nval := niltv, nkey := ?k\<rparr> else if i = f then ?ns ! ?n
          else if i = p then (?ns ! p)\<lparr>nnext := Some f\<rparr> else ?ns ! i)" for i
        using at2 n l by (auto simp: ns'_def upd_node_nth)
      have nwf': "nodes_wf (hashkey env t) ns'"
        by (rule insert_move [OF nwf n kn c pl p(3) fl fu hkk nn new l(1)]) (use at n fl pl fn pn pf in auto)
      have kd: "i < length ?ns \<Longrightarrow> keyed ns' i \<longleftrightarrow> i = f \<or> keyed ?ns i" for i
        using at nn kn fn by (auto simp: keyed_def)
      have ent: "entered env t ?k (t\<lparr>freetop := f, nodes := ns', black := False\<rparr>) ?n"
      proof (rule eb [of ns' ?n f f])
        show "nodes_wf (hashkey env t) ns'" by (rule nwf')
        fix i assume i: "i < length ns'"
        then show "keyed ns' i \<longleftrightarrow> i = f \<or> keyed ?ns i" using kd l by simp
        show "nkey (ns' ! i) \<noteq> ?k \<Longrightarrow> \<exists>j<length ?ns. nkey (?ns ! j) = nkey (ns' ! i) \<and> nval (?ns ! j) = nval (ns' ! i)"
          using i at [of i] l n fn by (intro exI [of _ "if i = f then ?n else i"]) (auto split: if_splits)
        show "f \<le> i \<Longrightarrow> keyed ns' i" using i l kd above by (metis le_neq_implies_less)
      next
        fix j assume j: "j < length ?ns" "keyed ?ns j"
        with fu have "j \<noteq> f" by auto
        with j at [of j] at [OF fl] l fl fn show "\<exists>i<length ns'. nkey (ns' ! i) = nkey (?ns ! j)"
          by (intro exI [of _ "if j = ?n then f else j"]) auto
      qed (use n l at fs in \<open>auto simp: tvisnil_def niltv_def\<close>)
      have rc: "rechain (length ?ns) (hashkey env t) ns2 ?n f = Done ns2"
      proof -
        obtain ys where ys: "path ns' (Some f) ys" using nodes_wfD(1) [OF nwf', of f] fl l by auto
        have "?n \<notin> set ys"
        proof
          assume "?n \<in> set ys"
          from path_pred [OF ys this] fn obtain y where y: "y \<in> set ys" "nnext (ns' ! y) = Some ?n" by auto
          have yl: "y < length ?ns" using path_range [OF ys y(1)] l by simp
          define z where "z = (if y = f then ?n else y)"
          have z: "z < length ?ns" "nnext (?ns ! z) = Some ?n" "z \<noteq> p"
            using y(2) at [OF yl] yl n fn pn by (auto simp: z_def split: if_splits)
          from nodes_wfD(2) [OF nwf z(1) pl z(2) p(3)] z(3) show False by simp
        qed
        then have same: "path ns2 (Some f) ys = path ns' (Some f) ys"
          using l at at2 path_range [OF ys] by (intro path_cong) (auto simp: l)
        have "\<forall>x\<in>set (tl ys). hashkey env t (nkey (ns2 ! x)) \<noteq> ?n"
        proof
          fix x assume x: "x \<in> set (tl ys)"
          then have xs: "x \<in> set ys" by (cases ys) auto
          then have xl: "x < length ?ns" using path_range [OF ys] l by simp
          have "ys = f # tl ys" using ys by (cases ys) auto
          with x path_distinct [OF ys] have "x \<noteq> f" by (metis distinct.simps(2))
          from path_pred [OF ys xs] this obtain y where y: "y \<in> set ys" "nnext (ns' ! y) = Some x" by auto
          have "keyed ns' x" using nodes_wfD(8) [OF nwf', of x y] xl y path_range [OF ys y(1)] l by auto
          then have kx: "keyed ?ns x" using kd [OF xl] \<open>x \<noteq> f\<close> by blast
          have "x \<noteq> ?n" using \<open>?n \<notin> set ys\<close> xs by auto
          then have "nkey (ns2 ! x) = nkey (?ns ! x)" using at2 [OF xl] \<open>x \<noteq> f\<close> by simp
          with nodes_wfD(5) [OF nwf n xl kn c kx] show "hashkey env t (nkey (ns2 ! x)) \<noteq> ?n" by simp
        qed
        with rechain_none [of ns2 f ys "length ?ns"] same ys path_length [OF ys] l show ?thesis by simp
      qed
      have "lj_tab_newkey env rh t k = Done (t\<lparr>freetop := f, nodes := ns', black := False\<rparr>, NSlot ?n)"
        using False f c p(1) rc place
        by (simp add: lj_tab_newkey_def hf place_key_def Let_def ns'_def ns2_def b_def a_def)
      with ent show ?thesis by blast
    qed
  qed
qed

section \<open>Setters with room\<close>

definition has_room :: "gctab \<Rightarrow> bool" where
  "has_room t \<longleftrightarrow> 0 < hmask t \<and> 0 < nfree (nodes t)"

text \<open>\<open>s\<close> is the slot of the key \<open>k\<close> in \<open>t'\<close>, which maps all keys as \<open>t\<close> does.\<close>

definition slot_for :: "tabenv \<Rightarrow> gctab \<Rightarrow> tvalue \<Rightarrow> gctab \<Rightarrow> slot \<Rightarrow> bool" where
  "slot_for env t k t' s \<longleftrightarrow> tab_wf env t' \<and> (\<forall>c. tab_abs t' c = tab_abs t c) \<and>
     (case s of
        ASlot i \<Rightarrow> aidx t' (ckey k) = Some i
      | NSlot n \<Rightarrow> aidx t' (ckey k) = None \<and> n < length (nodes t') \<and> nkey (nodes t' ! n) = ckey k)"

text \<open>The setter did not resize, and used up at most one free node.\<close>

definition kept_shape :: "gctab \<Rightarrow> tvalue \<Rightarrow> gctab \<Rightarrow> bool" where
  "kept_shape t k t' \<longleftrightarrow> asize t' = asize t \<and> array t' = array t \<and> hmask t' = hmask t \<and> colo t' = colo t \<and>
     nfree (nodes t) \<le> nfree (nodes t') + (if aidx t (ckey k) = None then 1 else 0)"

lemma aidx_less: "aidx t k = Some i \<Longrightarrow> i < asize t"
  by (auto simp: aidx_def split: option.splits if_splits)

lemma aidx_inj: "aidx t a = Some i \<Longrightarrow> aidx t b = Some i \<Longrightarrow> ckey a = ckey b"
proof -
  assume "aidx t a = Some i" "aidx t b = Some i"
  then obtain x y where "lj_num2int_check a = Some x" "lj_num2int_check b = Some y" "unat x = i" "unat y = i"
    by (auto simp: aidx_def split: option.splits if_splits)
  moreover from this have "x = y" by (simp add: word_unat_eq_iff)
  ultimately show ?thesis by (simp add: num2int_iff)
qed

lemma store_slot_ok:
  assumes s: "slot_for env t k t' s" and k: "key_ok k"
  shows "tab_wf env (store_slot t' s v)"
    and "tab_abs (store_slot t' s v) c = (if key_ok c \<and> ckey c = ckey k then v else tab_abs t c)"
proof -
  have wf: "tab_wf env t'" and ab: "\<And>c. tab_abs t' c = tab_abs t c" using s by (auto simp: slot_for_def)
  note d = tab_wfD [OF wf]
  have "tab_wf env (store_slot t' s v) \<and>
     tab_abs (store_slot t' s v) c = (if key_ok c \<and> ckey c = ckey k then v else tab_abs t' c)"
  proof (cases s)
    case (ASlot i)
    with s have i: "aidx t' (ckey k) = Some i" by (simp add: slot_for_def)
    let ?t = "t'\<lparr>array := (array t')[i := v]\<rparr>"
    have hk: "hashkey env ?t = hashkey env t'" by (rule hashkey_cong) simp
    have ai: "aidx ?t = aidx t'" by (rule aidx_cong) simp
    have "tab_wf env ?t" using wf unfolding tab_wf_def hk ai by simp
    moreover have "tab_abs ?t c = (if key_ok c \<and> ckey c = ckey k then v else tab_abs t' c)"
    proof (cases "aidx t' (ckey c)")
      case None
      with i have "ckey c \<noteq> ckey k" by auto
      with None show ?thesis by (simp add: tab_abs_def ai)
    next
      case (Some j)
      have "j = i \<longleftrightarrow> ckey c = ckey k"
        using aidx_inj [OF Some, of "ckey k"] i Some by auto
      moreover have "i < length (array t')" using aidx_less [OF i] d(3) by simp
      ultimately show ?thesis using Some by (auto simp: tab_abs_def ai nth_list_update split: option.split)
    qed
    ultimately show ?thesis using ASlot by simp
  next
    case (NSlot n)
    with s have n: "aidx t' (ckey k) = None" "n < length (nodes t')" "nkey (nodes t' ! n) = ckey k"
      by (auto simp: slot_for_def)
    let ?ns = "upd_node n (\<lambda>x. x\<lparr>nval := v\<rparr>) (nodes t')"
    let ?t = "t'\<lparr>nodes := ?ns\<rparr>"
    have hk: "hashkey env ?t = hashkey env t'" by (rule hashkey_cong) simp
    have ai: "aidx ?t = aidx t'" by (rule aidx_cong) simp
    have at: "i < length (nodes t') \<Longrightarrow> nkey (?ns ! i) = nkey (nodes t' ! i) \<and> nnext (?ns ! i) = nnext (nodes t' ! i)
        \<and> nval (?ns ! i) = (if i = n then v else nval (nodes t' ! i))" for i
      by (simp add: upd_node_nth)
    have nn: "\<not> tvisnil (ckey k)" using k by (simp add: key_ok_def)
    then have kn: "keyed (nodes t') n" using n by (simp add: keyed_def)
    have kd: "i < length (nodes t') \<Longrightarrow> keyed ?ns i = keyed (nodes t') i" for i using at by (simp add: keyed_def)
    have "nodes_wf (hashkey env t') ?ns"
      by (rule nodes_wf_vals [OF d(5)]) (use at kn nodes_wfD(7) [OF d(5)] in auto)
    moreover have "hmask t' \<noteq> 0"
    proof
      assume "hmask t' = 0"
      with d(7) have "nodes t' = [nilnode]" by simp
      with n kn show False by (simp add: keyed_def nilnode_def tvisnil_def niltv_def)
    qed
    ultimately have wf': "tab_wf env ?t"
      unfolding tab_wf_def hk ai using d(1-4,6,8,9) kd at by auto
    have "nodes_val ?ns c' = (if c' = ckey k then v else nodes_val (nodes t') c')" if c: "\<not> tvisnil c'" for c'
    proof (cases "\<exists>i<length (nodes t'). nkey (nodes t' ! i) = c'")
      case True
      then obtain i where i: "i < length (nodes t')" "nkey (nodes t' ! i) = c'" by blast
      have "nodes_val ?ns c' = nval (?ns ! i)" using nodes_val_key [OF wf', of i c'] at i c by simp
      moreover have "nodes_val (nodes t') c' = nval (nodes t' ! i)" by (rule nodes_val_key [OF wf i c])
      moreover have "i = n \<longleftrightarrow> c' = ckey k"
        using nodes_wfD(10) [OF d(5) i(1) n(2)] i n kn c by (auto simp: keyed_def)
      ultimately show ?thesis using at [OF i(1)] by simp
    next
      case False
      then have "nodes_val (nodes t') c' = niltv" by (intro nodes_val_none) blast
      moreover have "nodes_val ?ns c' = niltv" using False at by (intro nodes_val_none) auto
      moreover have "c' \<noteq> ckey k" using False n by auto
      ultimately show ?thesis by simp
    qed
    moreover have "key_ok c \<Longrightarrow> \<not> tvisnil (ckey c)" by (simp add: key_ok_def)
    ultimately have "tab_abs ?t c = (if key_ok c \<and> ckey c = ckey k then v else tab_abs t' c)"
      using n(1) by (cases "ckey c = ckey k") (simp_all add: tab_abs_def ai split: option.split)
    with wf' NSlot show ?thesis by simp
  qed
  then show "tab_wf env (store_slot t' s v)"
    and "tab_abs (store_slot t' s v) c = (if key_ok c \<and> ckey c = ckey k then v else tab_abs t c)"
    using ab by simp_all
qed

lemma entered_slot:
  assumes wf: "tab_wf env t" and k: "aidx t (ckey k) = None" and e: "entered env t (ckey k) t' n"
  shows "slot_for env t k t' (NSlot n) \<and> kept_shape t k t'"
proof -
  from e have a: "tab_wf env t'" "n < length (nodes t')" "nkey (nodes t' ! n) = ckey k"
    and v: "\<And>c. \<not> tvisnil c \<Longrightarrow> nodes_val (nodes t') c = nodes_val (nodes t) c"
    and s: "asize t' = asize t" "array t' = array t" "hmask t' = hmask t" "colo t' = colo t"
    and nf: "nfree (nodes t) \<le> nfree (nodes t') + 1"
    by (simp_all add: entered_def)
  have ai: "aidx t' = aidx t" by (rule aidx_cong [OF s(1)])
  have "tab_abs t' c = tab_abs t c" for c
    using v [of "ckey c"] s by (auto simp: tab_abs_def ai key_ok_def split: option.split)
  with a k ai s nf show ?thesis by (simp add: slot_for_def kept_shape_def)
qed

lemma found_slot:
  assumes wf: "tab_wf env t" and "aidx t (ckey k) = None" and "n < length (nodes t)" "nkey (nodes t ! n) = ckey k"
  shows "slot_for env t k t (NSlot n) \<and> kept_shape t k t"
  using assms by (simp add: slot_for_def kept_shape_def)

text \<open>The common end of the setters: search the chain, enter the key if it is not found.\<close>

lemma find_or_enter:
  assumes wf: "tab_wf env t" and k: "key_ok k" "aidx t (ckey k) = None"
    and P: "\<And>x. key_ok x \<Longrightarrow> P x \<longleftrightarrow> ckey x = ckey k" "\<not> P niltv" and h: "h = hashkey env t k"
    and room: "(\<forall>i<length (nodes t). nkey (nodes t ! i) \<noteq> ckey k) \<Longrightarrow> has_room t"
  shows "\<exists>t' s. cbind (find_node t P h) (\<lambda>i. case i of Some n \<Rightarrow> Done (t, NSlot n) | None \<Rightarrow> lj_tab_newkey env rh t k)
      = Done (t', s) \<and> slot_for env t k t' s \<and> kept_shape t k t'"
proof -
  from find_node_key [OF wf k(1) P h] obtain r where r: "find_node t P h = Done r"
    "case r of Some i \<Rightarrow> i < length (nodes t) \<and> nkey (nodes t ! i) = ckey k
      | None \<Rightarrow> \<forall>i<length (nodes t). nkey (nodes t ! i) \<noteq> ckey k" by blast
  show ?thesis
  proof (cases r)
    case (Some n)
    with r found_slot [OF wf k(2)] show ?thesis by auto
  next
    case None
    with r have new: "\<And>i. i < length (nodes t) \<Longrightarrow> nkey (nodes t ! i) \<noteq> ckey k" by simp
    with room have "0 < hmask t" "tvisnil (nval (nodes t ! hashkey env t k)) \<or> 0 < nfree (nodes t)"
      by (auto simp: has_room_def)
    from newkey_ok [OF wf k new this] obtain t' n where
      "lj_tab_newkey env rh t k = Done (t', NSlot n)" "entered env t (ckey k) t' n" by blast
    with entered_slot [OF wf k(2)] None r show ?thesis by auto
  qed
qed

lemma setinth_room:
  fixes i :: u32
  assumes wf: "tab_wf env t" and i: "\<not> inarray t i"
    and room: "(\<forall>j<length (nodes t). nkey (nodes t ! j) \<noteq> num_of_int (sint i)) \<Longrightarrow> has_room t"
  shows "\<exists>t' s. lj_tab_setinth env rh t i = Done (t', s) \<and> slot_for env t (num_of_int (sint i)) t' s
     \<and> kept_shape t (num_of_int (sint i)) t'"
proof -
  note k = num_of_int_key [of i]
  have "aidx t (num_of_int (sint i)) = None"
    using aidx_int [OF k(3) num2int_of_int, of t] i k by simp
  then have "aidx t (ckey (num_of_int (sint i))) = None" using k(2) by simp
  from find_or_enter [OF wf k(1) this test_int [of _ i] _ refl, of rh] room k(2)
  show ?thesis by (simp add: lj_tab_setinth_def Let_def)
qed

lemma tab_wf_nomm [simp]: "tab_wf env (t\<lparr>nomm := x\<rparr>) = tab_wf env t"
proof -
  have "hashkey env (t\<lparr>nomm := x\<rparr>) = hashkey env t" by (rule hashkey_cong) simp
  moreover have "aidx (t\<lparr>nomm := x\<rparr>) = aidx t" by (rule aidx_cong) simp
  ultimately show ?thesis by (simp add: tab_wf_def)
qed

lemma nomm_cong [simp]: "aidx (t\<lparr>nomm := x\<rparr>) = aidx t" "tab_abs (t\<lparr>nomm := x\<rparr>) = tab_abs t"
    "has_room (t\<lparr>nomm := x\<rparr>) = has_room t" "hashkey env (t\<lparr>nomm := x\<rparr>) = hashkey env t"
    "inarray (t\<lparr>nomm := x\<rparr>) = inarray t" "hashmask (t\<lparr>nomm := x\<rparr>) = hashmask t"
    "slot_for env (t\<lparr>nomm := x\<rparr>) k t' s = slot_for env t k t' s" "kept_shape (t\<lparr>nomm := x\<rparr>) k t' = kept_shape t k t'"
proof -
  show a: "aidx (t\<lparr>nomm := x\<rparr>) = aidx t" by (rule aidx_cong) simp
  show "tab_abs (t\<lparr>nomm := x\<rparr>) = tab_abs t" by (simp add: fun_eq_iff tab_abs_def a split: option.split)
  then show "slot_for env (t\<lparr>nomm := x\<rparr>) k t' s = slot_for env t k t' s" by (simp add: slot_for_def)
  show "kept_shape (t\<lparr>nomm := x\<rparr>) k t' = kept_shape t k t'" by (simp add: kept_shape_def a)
qed (simp_all add: has_room_def fun_eq_iff hashkey_def hashmask_def inarray_def)

lemma set_room:
  assumes wf: "tab_wf env t" and k: "key_ok k"
    and room: "aidx t (ckey k) = None \<Longrightarrow> (\<forall>j<length (nodes t). nkey (nodes t ! j) \<noteq> ckey k) \<Longrightarrow> has_room t"
  shows "\<exists>t' s. tab_set env rh t k = Done (t', s) \<and> slot_for env t k t' s \<and> kept_shape t k t'"
proof -
  let ?t = "t\<lparr>nomm := 0\<rparr>"
  have wf': "tab_wf env ?t" using wf by simp
  have nn: "\<not> tvisnil k" "\<not> (tvisnum k \<and> tvisnan k)" using k by (auto simp: key_ok_def tvisnan_iff)
  consider (str) "tvisstr k" | (int) i where "\<not> tvisstr k" "tvisnum k" "lj_num2int_check k = Some i"
    | (gen) "\<not> tvisstr k" "tvisnum k \<Longrightarrow> lj_num2int_check k = None"
    by (cases "lj_num2int_check k") auto
  then show ?thesis
  proof cases
    case str
    have ai: "aidx t (ckey k) = None" using str_key [OF str] by (intro aidx_noint) simp
    have h: "hashmask ?t (sid env (gcval k)) = hashkey env ?t k" using str by (simp add: hashkey_def keyhash_def)
    have "\<exists>t' s. cbind (find_node ?t (\<lambda>x. tvisstr x \<and> gcval x = gcval k) (hashmask ?t (sid env (gcval k))))
        (\<lambda>i. case i of Some n \<Rightarrow> Done (?t, NSlot n) | None \<Rightarrow> lj_tab_newkey env rh ?t k)
      = Done (t', s) \<and> slot_for env ?t k t' s \<and> kept_shape ?t k t'"
      by (rule find_or_enter [OF wf' k]) (use ai room h test_str [OF _ str] in simp_all)
    with str strkey [OF str] show ?thesis by (simp add: tab_set_def lj_tab_setstr_def Let_def)
  next
    case int
    note ck = ckey_int [OF int(3)]
    have ri: "tab_set env rh t k = lj_tab_setint env rh ?t i" using int by (simp add: tab_set_def Let_def)
    have sl: "slot_for env t (num_of_int (sint i)) = slot_for env t k" "kept_shape t (num_of_int (sint i)) = kept_shape t k"
    proof -
      have e: "ckey (num_of_int (sint i)) = ckey k" using ck num_of_int_key(2) [of i] by simp
      show "slot_for env t (num_of_int (sint i)) = slot_for env t k" unfolding slot_for_def e ..
      show "kept_shape t (num_of_int (sint i)) = kept_shape t k" unfolding kept_shape_def e ..
    qed
    show ?thesis
    proof (cases "inarray t i")
      case True
      have "slot_for env t k ?t (ASlot (unat i)) \<and> kept_shape t k ?t"
        using wf aidx_int [OF int(2,3), of t] True by (simp add: slot_for_def kept_shape_def)
      with ri True show ?thesis by (simp add: lj_tab_setint_def)
    next
      case False
      have "aidx t (ckey k) = None" using aidx_int [OF int(2,3), of t] False by simp
      with room ck have r: "(\<forall>j<length (nodes ?t). nkey (nodes ?t ! j) \<noteq> num_of_int (sint i)) \<Longrightarrow> has_room ?t" by simp
      have "\<not> inarray ?t i" using False by simp
      from setinth_room [OF wf' this r, of rh] False ri show ?thesis by (simp add: lj_tab_setint_def sl)
    qed
  next
    case gen
    have ai: "aidx t (ckey k) = None" using gen by (intro aidx_noint) simp
    have "\<exists>t' s. cbind (find_node ?t (\<lambda>x. lj_obj_equal x k) (hashkey env ?t k))
        (\<lambda>i. case i of Some n \<Rightarrow> Done (?t, NSlot n) | None \<Rightarrow> lj_tab_newkey env rh ?t k)
      = Done (t', s) \<and> slot_for env ?t k t' s \<and> kept_shape ?t k t'"
      by (rule find_or_enter [OF wf' k]) (use ai room test_generic [OF k] test_nil [OF k] in simp_all)
    with gen nn show ?thesis by (cases "tvisnum k") (simp_all add: tab_set_def Let_def)
  qed
qed

end
