(* ===== verification/TabResize.thy ===== *)
theory TabResize
  imports TabSet
begin

text \<open>
  Resizing keeps the contents of a table, and the sizes \<^verbatim>\<open>rehashtab\<close> computes always make room: no
  insertion of a rehash runs out of nodes, so the recursion through \<^verbatim>\<open>lj_tab_set\<close> ends at once.
\<close>

declare option.case_cong [cong]

section \<open>Reinsertion\<close>

text \<open>The live entries of a node list, as a partial map with a default.\<close>

definition live_val :: "node list \<Rightarrow> tvalue \<Rightarrow> tvalue \<Rightarrow> tvalue" where
  "live_val ns c d = (case find (\<lambda>n. nkey n = c \<and> \<not> tvisnil (nval n)) ns of Some n \<Rightarrow> nval n | None \<Rightarrow> d)"

definition live_ok :: "node list \<Rightarrow> bool" where
  "live_ok ns \<longleftrightarrow> (\<forall>n\<in>set ns. \<not> tvisnil (nval n) \<longrightarrow> key_ok (nkey n) \<and> ckey (nkey n) = nkey n) \<and>
     distinct (map nkey (filter (\<lambda>n. \<not> tvisnil (nval n)) ns))"

text \<open>How many entries of a list go to the hash part of \<open>t\<close>.\<close>

definition hash_need :: "gctab \<Rightarrow> node list \<Rightarrow> nat" where
  "hash_need t ns = length (filter (\<lambda>n. \<not> tvisnil (nval n) \<and> aidx t (nkey n) = None) ns)"

definition same_sizes :: "gctab \<Rightarrow> gctab \<Rightarrow> bool" where
  "same_sizes t t' \<longleftrightarrow> asize t' = asize t \<and> length (array t') = length (array t) \<and> hmask t' = hmask t \<and> colo t' = colo t"

lemma same_sizes_trans: "same_sizes t t' \<Longrightarrow> same_sizes t' t'' \<Longrightarrow> same_sizes t t''"
  by (simp add: same_sizes_def)

lemma store_sizes: "same_sizes t (store_slot t s v)"
  by (cases s) (simp_all add: same_sizes_def)

lemma kept_sizes: "kept_shape t k t' \<Longrightarrow> same_sizes t t'"
  by (simp add: kept_shape_def same_sizes_def)

lemma store_nfree [simp]: "nfree (nodes (store_slot t s v)) = nfree (nodes t)"
proof (cases s)
  case (NSlot n)
  have "keyed (upd_node n (\<lambda>x. x\<lparr>nval := v\<rparr>) (nodes t)) i = keyed (nodes t) i" if "i < length (nodes t)" for i
    using that by (simp add: keyed_def upd_node_nth)
  then have "{i. i < length (nodes t) \<and> \<not> keyed (upd_node n (\<lambda>x. x\<lparr>nval := v\<rparr>) (nodes t)) i}
     = {i. i < length (nodes t) \<and> \<not> keyed (nodes t) i}" by auto
  with NSlot show ?thesis by (simp add: nfree_def)
qed simp

text \<open>One insertion: the setter and the store.\<close>

lemma set_store:
  assumes "slot_for env t k t' s" and "kept_shape t k t'" and k: "key_ok k"
  shows "tab_wf env (store_slot t' s v)" "same_sizes t (store_slot t' s v)"
    "nfree (nodes t) \<le> nfree (nodes (store_slot t' s v)) + (if aidx t (ckey k) = None then 1 else 0)"
    "tab_abs (store_slot t' s v) c = (if key_ok c \<and> ckey c = ckey k then v else tab_abs t c)"
  using store_slot_ok [OF assms(1) k] same_sizes_trans [OF kept_sizes [OF assms(2)] store_sizes] assms(2)
  by (simp_all add: kept_shape_def)

lemma reinsert_nodes_ok:
  assumes "tab_wf env t" and "live_ok ns" and "hash_need t ns \<le> nfree (nodes t)" and "0 < hash_need t ns \<Longrightarrow> 0 < hmask t"
  shows "\<exists>t'. reinsert_nodes env rh ns t = Done t' \<and> tab_wf env t' \<and> same_sizes t t' \<and>
     nfree (nodes t) \<le> nfree (nodes t') + hash_need t ns \<and>
     (\<forall>c. key_ok c \<longrightarrow> tab_abs t' c = live_val ns (ckey c) (tab_abs t c))"
  using assms
proof (induction ns arbitrary: t)
  case Nil
  then show ?case by (simp add: live_val_def same_sizes_def)
next
  case (Cons n ns)
  have lo: "live_ok ns" using Cons.prems(2) by (auto simp: live_ok_def split: if_splits)
  show ?case
  proof (cases "tvisnil (nval n)")
    case True
    then have "hash_need t (n # ns) = hash_need t ns" by (simp add: hash_need_def)
    with Cons.IH [OF Cons.prems(1) lo] Cons.prems(3,4) True show ?thesis by (simp add: live_val_def)
  next
    case False
    let ?k = "nkey n"
    have k: "key_ok ?k" "ckey ?k = ?k" and fresh: "\<forall>m\<in>set ns. \<not> tvisnil (nval m) \<longrightarrow> nkey m \<noteq> ?k"
      using Cons.prems(2) False by (auto simp: live_ok_def image_iff)
    have need: "hash_need t (n # ns) = hash_need t ns + (if aidx t ?k = None then 1 else 0)"
      using False by (simp add: hash_need_def)
    have room: "aidx t (ckey ?k) = None \<Longrightarrow> has_room t"
      using need Cons.prems(3,4) k by (simp add: has_room_def)
    obtain t1 s where set: "tab_set env rh t ?k = Done (t1, s)" "slot_for env t ?k t1 s" "kept_shape t ?k t1"
      using set_room [OF Cons.prems(1) k(1), of rh] room by blast
    let ?t = "store_slot t1 s (nval n)"
    note ss = set_store [OF set(2,3) k(1), of "nval n"]
    have ai: "aidx ?t = aidx t" using ss(2) by (intro aidx_cong) (simp add: same_sizes_def)
    have hn: "hash_need ?t ns = hash_need t ns" by (simp add: hash_need_def ai)
    have "hash_need ?t ns \<le> nfree (nodes ?t)" using ss(3) need Cons.prems(3) hn k(2) by (simp split: if_splits)
    moreover have "0 < hash_need ?t ns \<Longrightarrow> 0 < hmask ?t"
      using hn need Cons.prems(4) ss(2) by (simp add: same_sizes_def split: if_splits)
    ultimately obtain t' where t': "reinsert_nodes env rh ns ?t = Done t'" "tab_wf env t'" "same_sizes ?t t'"
      "nfree (nodes ?t) \<le> nfree (nodes t') + hash_need t ns"
      "\<forall>c. key_ok c \<longrightarrow> tab_abs t' c = live_val ns (ckey c) (tab_abs ?t c)"
      using Cons.IH [OF ss(1) lo] hn by auto
    have "tab_abs t' c = live_val (n # ns) (ckey c) (tab_abs t c)" if c: "key_ok c" for c
    proof (cases "ckey c = ?k")
      case True
      then have "find (\<lambda>m. nkey m = ckey c \<and> \<not> tvisnil (nval m)) ns = None"
        using fresh by (auto simp: find_None_iff)
      with True t'(5) c ss(4) [of c] k False show ?thesis by (simp add: live_val_def)
    next
      case neq: False
      with t'(5) c ss(4) [of c] k show ?thesis by (auto simp: live_val_def)
    qed
    moreover have "nfree (nodes t) \<le> nfree (nodes t') + hash_need t (n # ns)"
      using t'(4) ss(3) need k(2) by (simp split: if_splits)
    ultimately show ?thesis
      using t' set(1) False same_sizes_trans [OF ss(2)] by auto
  qed
qed

lemma sint_of_nat_index: "i < 2 ^ 31 \<Longrightarrow> sint (word_of_nat i :: u32) = int i" "i < 2 ^ 32 \<Longrightarrow> unat (word_of_nat i :: u32) = i"
  by (simp_all add: signed_of_nat signed_take_bit_int_eq_self unat_of_nat)

lemma num_of_index_inj: "i < 2 ^ 31 \<Longrightarrow> j < 2 ^ 31 \<Longrightarrow> num_of_int (int i) = num_of_int (int j) \<Longrightarrow> i = j"
  using num_of_int_inj [of "int i" "int j"] by simp

definition arr_need :: "tvalue list \<Rightarrow> nat list \<Rightarrow> nat" where
  "arr_need arr is = length (filter (\<lambda>i. \<not> tvisnil (arr ! i)) is)"

lemma reinsert_array_ok:
  assumes "tab_wf env t" and "distinct is" and "\<forall>i\<in>set is. asize t \<le> i \<and> i < 2 ^ 31"
    and "arr_need arr is \<le> nfree (nodes t)" and "0 < arr_need arr is \<Longrightarrow> 0 < hmask t"
  shows "\<exists>t'. reinsert_array env rh arr is t = Done t' \<and> tab_wf env t' \<and> same_sizes t t' \<and>
     nfree (nodes t) \<le> nfree (nodes t') + arr_need arr is \<and>
     (\<forall>c. key_ok c \<longrightarrow> tab_abs t' c =
       (case find (\<lambda>i. ckey c = num_of_int (int i) \<and> \<not> tvisnil (arr ! i)) is of
          Some i \<Rightarrow> arr ! i | None \<Rightarrow> tab_abs t c))"
  using assms
proof (induction "is" arbitrary: t)
  case Nil
  then show ?case by (simp add: same_sizes_def)
next
  case (Cons i "is")
  show ?case
  proof (cases "tvisnil (arr ! i)")
    case True
    then have "arr_need arr (i # is) = arr_need arr is" by (simp add: arr_need_def)
    with Cons.IH [OF Cons.prems(1)] Cons.prems True show ?thesis by simp
  next
    case False
    have i: "asize t \<le> i" "i < 2 ^ 31" using Cons.prems(3) by auto
    let ?w = "word_of_nat i :: u32"
    let ?k = "num_of_int (int i)"
    have w: "sint ?w = int i" "unat ?w = i" using i sint_of_nat_index by simp_all
    have k: "key_ok ?k" "ckey ?k = ?k" "tvisnum ?k" using num_of_int_key [of ?w] w by simp_all
    have need: "arr_need arr (i # is) = arr_need arr is + 1" using False by (simp add: arr_need_def)
    have room: "has_room t" using need Cons.prems(4,5) by (simp add: has_room_def)
    have na: "\<not> inarray t ?w" using w i by (simp add: inarray_def)
    from setinth_room [OF Cons.prems(1) na, of rh] room w obtain t1 s where
      set: "lj_tab_setinth env rh t ?w = Done (t1, s)" "slot_for env t ?k t1 s" "kept_shape t ?k t1" by auto
    let ?t = "store_slot t1 s (arr ! i)"
    note ss = set_store [OF set(2,3) k(1), of "arr ! i"]
    have sz: "asize ?t = asize t" "hmask ?t = hmask t" using ss(2) by (simp_all add: same_sizes_def)
    have "arr_need arr is \<le> nfree (nodes ?t)" using ss(3) need Cons.prems(4) by (simp split: if_splits)
    moreover have "0 < arr_need arr is \<Longrightarrow> 0 < hmask ?t" using need Cons.prems(5) sz by simp
    moreover have "\<forall>i\<in>set is. asize ?t \<le> i \<and> i < 2 ^ 31" using Cons.prems(3) sz by simp
    ultimately obtain t' where t': "reinsert_array env rh arr is ?t = Done t'" "tab_wf env t'" "same_sizes ?t t'"
      "nfree (nodes ?t) \<le> nfree (nodes t') + arr_need arr is"
      "\<forall>c. key_ok c \<longrightarrow> tab_abs t' c =
       (case find (\<lambda>i. ckey c = num_of_int (int i) \<and> \<not> tvisnil (arr ! i)) is of
          Some i \<Rightarrow> arr ! i | None \<Rightarrow> tab_abs ?t c)"
      using Cons.IH [OF ss(1)] Cons.prems(2) by auto
    have "tab_abs t' c = (case find (\<lambda>i. ckey c = num_of_int (int i) \<and> \<not> tvisnil (arr ! i)) (i # is) of
          Some i \<Rightarrow> arr ! i | None \<Rightarrow> tab_abs t c)" if c: "key_ok c" for c
    proof (cases "ckey c = ?k")
      case True
      have "\<forall>j\<in>set is. num_of_int (int i) \<noteq> num_of_int (int j)"
        using Cons.prems(2,3) i num_of_index_inj by (metis distinct.simps(2) list.set_intros(2))
      then have "find (\<lambda>i. ckey c = num_of_int (int i) \<and> \<not> tvisnil (arr ! i)) is = None"
        using True by (auto simp: find_None_iff)
      with True t'(5) c ss(4) [of c] k False show ?thesis by simp
    next
      case neq: False
      with t'(5) c ss(4) [of c] k show ?thesis by (auto split: option.split)
    qed
    moreover have "nfree (nodes t) \<le> nfree (nodes t') + arr_need arr (i # is)"
      using t'(4) ss(3) need by (simp split: if_splits)
    ultimately show ?thesis
      using t' set(1) False same_sizes_trans [OF ss(2)] by auto
  qed
qed

section \<open>Resizing\<close>

text \<open>The array part alone, as a map.\<close>

definition array_abs :: "gctab \<Rightarrow> tvalue \<Rightarrow> tvalue" where
  "array_abs t c = (case aidx t (ckey c) of Some i \<Rightarrow> array t ! i | None \<Rightarrow> niltv)"

text \<open>How many hash nodes the table needs when its array part has size \<open>as\<close>.\<close>

definition resize_need :: "gctab \<Rightarrow> nat \<Rightarrow> nat" where
  "resize_need t as = arr_need (array t) [as..<asize t] + hash_need (t\<lparr>asize := as\<rparr>) (nodes t)"

lemma nilnode_simps [simp]: "nval nilnode = niltv" "nkey nilnode = niltv" "nnext nilnode = None" "tvisnil niltv"
  by (simp_all add: nilnode_def tvisnil_def niltv_def)

lemma blank_wf: "nodes_wf h (replicate n nilnode)"
proof -
  let ?ns = "replicate n nilnode"
  have k: "i < n \<Longrightarrow> \<not> keyed ?ns i" for i by (simp add: keyed_def)
  have p: "i < n \<Longrightarrow> path ?ns (Some i) [i]" for i by simp
  show ?thesis
    by (rule nodes_wfI) (use k p in \<open>auto simp del: path.simps\<close>)
qed

lemma empty_hpart_wf:
  assumes "asize t \<le> length (array t)" and "asize t \<le> LJ_MAX_ASIZE" and "b \<le> LJ_MAX_HBITS" and "0 < b"
  defines "t' \<equiv> t\<lparr>nodes := replicate (2 ^ b) nilnode, freetop := 2 ^ b, hmask := 2 ^ b - 1\<rparr>"
  shows "tab_wf env t'" "nfree (nodes t') = 2 ^ b"
proof -
  have k: "i < 2 ^ b \<Longrightarrow> \<not> keyed (replicate (2 ^ b) nilnode) i" for i
    by (simp add: keyed_def)
  note blank_wf [of _ "2 ^ b"]
  moreover have "Suc (2 ^ b - Suc 0) = 2 ^ b" by (simp add: Suc_diff_Suc)
  moreover have "(0::nat) < 2 ^ b - 1" using one_less_power [of "2::nat" b] \<open>0 < b\<close> by simp
  ultimately show "tab_wf env t'" using assms k by (auto simp: tab_wf_def)
  have "{i. i < 2 ^ b \<and> \<not> keyed (replicate (2 ^ b) nilnode) i} = {..<2 ^ b}" using k by auto
  then show "nfree (nodes t') = 2 ^ b" by (simp add: nfree_def t'_def)
qed

lemma no_hpart_wf:
  assumes "asize t \<le> length (array t)" and "asize t \<le> LJ_MAX_ASIZE"
  shows "tab_wf env (no_hpart t)"
proof -
  have "nodes_wf h [nilnode]" for h using blank_wf [of h 1] by simp
  with assms show ?thesis
    by (auto simp: tab_wf_def no_hpart_def keyed_def intro!: exI [of _ 0])
qed

text \<open>Setting up the new hash part.\<close>

definition new_hash :: "tabenv \<Rightarrow> gctab \<Rightarrow> nat \<Rightarrow> gctab comp" where
  "new_hash env t hbits =
     (if hbits \<noteq> 0 then cbind (newhpart env t hbits) (\<lambda>t. Done (clearhpart t)) else Done (no_hpart t))"

lemma map_const_upt: "map (\<lambda>i. c) [0..<n] = replicate n c"
  by (simp add: map_replicate_const)

lemma clear_new_hpart:
  assumes "newhpart env t b = Done t'"
  shows "clearhpart t' = t\<lparr>nodes := replicate (2 ^ b) nilnode, freetop := 2 ^ b, hmask := 2 ^ b - 1\<rparr> \<and> b \<le> LJ_MAX_HBITS"
proof -
  from assms have t': "t' = t\<lparr>nodes := replicate (2 ^ b) (junk_node env), freetop := 2 ^ b, hmask := 2 ^ b - 1\<rparr>"
    and b: "b \<le> LJ_MAX_HBITS" by (auto simp: newhpart_def Let_def split: if_splits)
  have "map (\<lambda>i. if i \<le> 2 ^ b - 1 then nilnode else replicate (2 ^ b) (junk_node env) ! i) [0..<2 ^ b] = replicate (2 ^ b) nilnode"
    by (rule nth_equalityI) auto
  with t' b show ?thesis by (simp add: clearhpart_def cong: if_cong)
qed

lemma new_hash_ok:
  assumes "asize t \<le> length (array t)" and "asize t \<le> LJ_MAX_ASIZE" and n: "new_hash env t b = Done t'"
  shows "tab_wf env t' \<and> asize t' = asize t \<and> array t' = array t \<and> colo t' = colo t \<and> hmask t' = 2 ^ b - 1 \<and>
     (0 < b \<longrightarrow> nfree (nodes t') = 2 ^ b) \<and> (\<forall>c. \<not> tvisnil c \<longrightarrow> nodes_val (nodes t') c = niltv)"
proof -
  have nv: "nodes_val (replicate m nilnode) c = niltv" if "\<not> tvisnil c" for c m
    using that by (intro nodes_val_none) auto
  show ?thesis
  proof (cases "b = 0")
    case True
    with n have t': "t' = no_hpart t" by (simp add: new_hash_def)
    with no_hpart_wf [OF assms(1,2)] nv [of _ 1] True show ?thesis by (auto simp: no_hpart_def)
  next
    case False
    with n obtain u where u: "newhpart env t b = Done u" "t' = clearhpart u"
      by (auto simp: new_hash_def cbind_Done_iff)
    note cn = clear_new_hpart [OF u(1)]
    have b: "b \<le> LJ_MAX_HBITS" "0 < b" using cn False by simp_all
    note e = empty_hpart_wf(1) [OF assms(1,2) b, of env] empty_hpart_wf(2) [OF assms(1,2) b]
    with nv [of _ "2 ^ b"] u cn False show ?thesis by auto
  qed
qed

lemma blank_abs:
  "(\<And>c. \<not> tvisnil c \<Longrightarrow> nodes_val (nodes u) c = niltv) \<Longrightarrow> key_ok c \<Longrightarrow> tab_abs u c = array_abs u c"
  by (simp add: tab_abs_def array_abs_def key_ok_def)

text \<open>Growing keeps the array part's map.\<close>

lemma grow_array_ok:
  assumes "asize t \<le> length (array t)" and "asize t < as" and g: "grow_array env t as = Done t'"
  shows "asize t' = as" "length (array t') = as" "as \<le> LJ_MAX_ASIZE" "nodes t' = nodes t" "hmask t' = hmask t"
    "\<And>c. array_abs t' c = array_abs t c"
proof -
  let ?a = "take (asize t) (array t) @ replicate (as - asize t) niltv"
  from g have t': "asize t' = as" "array t' = ?a" "nodes t' = nodes t" "hmask t' = hmask t" and "as \<le> LJ_MAX_ASIZE"
    by (auto simp: grow_array_def Let_def split: if_splits)
  then show "asize t' = as" "length (array t') = as" "as \<le> LJ_MAX_ASIZE" "nodes t' = nodes t" "hmask t' = hmask t"
    using assms by auto
  show "array_abs t' c = array_abs t c" for c
    using t' assms by (auto simp: array_abs_def aidx_def nth_append split: option.split)
qed

lemma live_ok_nodes: "tab_wf env t \<Longrightarrow> live_ok (nodes t)"
proof -
  assume wf: "tab_wf env t"
  note d = tab_wfD [OF wf]
  have liv: "key_ok (nkey n) \<and> ckey (nkey n) = nkey n" if "n \<in> set (nodes t)" "\<not> tvisnil (nval n)" for n
  proof -
    note n = that
    obtain i where i: "i < length (nodes t)" "nodes t ! i = n" using n(1) by (auto simp: in_set_conv_nth)
    with n(2) nodes_wfD(7) [OF d(5) i(1)] have "keyed (nodes t) i" by blast
    with d(9) [OF i(1)] i show ?thesis by simp
  qed
  have "distinct (map nkey (filter (\<lambda>n. \<not> tvisnil (nval n)) (nodes t)))"
  proof -
    let ?P = "\<lambda>n. \<not> tvisnil (nval n)"
    have "filter ?P (nodes t) = map (\<lambda>i. nodes t ! i) (filter (\<lambda>i. ?P (nodes t ! i)) [0..<length (nodes t)])"
      by (metis (mono_tags, lifting) filter_map map_nth comp_def filter_cong)
    then have e: "map nkey (filter ?P (nodes t)) = map (\<lambda>i. nkey (nodes t ! i)) (filter (\<lambda>i. ?P (nodes t ! i)) [0..<length (nodes t)])"
      by (simp add: comp_def)
    have "inj_on (\<lambda>i. nkey (nodes t ! i)) (set (filter (\<lambda>i. ?P (nodes t ! i)) [0..<length (nodes t)]))"
    proof (rule inj_onI)
      fix i j assume a: "i \<in> set (filter (\<lambda>i. ?P (nodes t ! i)) [0..<length (nodes t)])"
        "j \<in> set (filter (\<lambda>i. ?P (nodes t ! i)) [0..<length (nodes t)])" "nkey (nodes t ! i) = nkey (nodes t ! j)"
      then have "i < length (nodes t)" "j < length (nodes t)" "keyed (nodes t) i" "keyed (nodes t) j"
        using nodes_wfD(7) [OF d(5)] by auto
      with nodes_wfD(10) [OF d(5)] a(3) show "i = j" by blast
    qed
    then show ?thesis unfolding e by (simp only: distinct_map distinct_filter distinct_upt simp_thms)
  qed
  with liv show ?thesis by (auto simp: live_ok_def)
qed

text \<open>The old map, from the array part and the live nodes.\<close>

lemma tab_abs_parts:
  assumes wf: "tab_wf env t" and c: "key_ok c"
  shows "tab_abs t c = live_val (nodes t) (ckey c) (array_abs t c)"
proof -
  note d = tab_wfD [OF wf]
  have nn: "\<not> tvisnil (ckey c)" using c by (simp add: key_ok_def)
  have nk: "nkey n \<noteq> ckey c" if "aidx t (ckey c) = Some i" "n \<in> set (nodes t)" for n i
  proof
    assume e: "nkey n = ckey c"
    note n = that
    obtain j where j: "j < length (nodes t)" "nodes t ! j = n" using n(2) by (auto simp: in_set_conv_nth)
    with e nn have "keyed (nodes t) j" by (simp add: keyed_def)
    with d(9) [OF j(1)] j e n(1) show False by simp
  qed
  show ?thesis
  proof (cases "aidx t (ckey c)")
    case (Some i)
    with nk have "find (\<lambda>n. nkey n = ckey c \<and> \<not> tvisnil (nval n)) (nodes t) = None"
      by (auto simp: find_None_iff)
    with Some c show ?thesis by (simp add: tab_abs_def live_val_def array_abs_def)
  next
    case None
    have "nodes_val (nodes t) (ckey c) = live_val (nodes t) (ckey c) niltv"
    proof (cases "find (\<lambda>n. nkey n = ckey c \<and> \<not> tvisnil (nval n)) (nodes t)")
      case None
      then have "tvisnil (nval n)" if "n \<in> set (nodes t)" "nkey n = ckey c" for n
        using that by (auto simp: find_None_iff)
      then have "nodes_val (nodes t) (ckey c) = niltv"
        by (auto simp: nodes_val_def find_Some_iff tvisnil_def niltv_def split: option.split)
      with None show ?thesis by (simp add: live_val_def)
    next
      case (Some n)
      then obtain i where i: "i < length (nodes t)" "nodes t ! i = n" "nkey n = ckey c"
        by (auto simp: find_Some_iff)
      with nodes_val_key [OF wf i(1) _ nn] Some show ?thesis by (simp add: live_val_def)
    qed
    with None c show ?thesis by (simp add: tab_abs_def array_abs_def)
  qed
qed

lemma shrink_wf:
  assumes wf: "tab_wf env t" and "as \<le> asize t"
  shows "tab_wf env (t\<lparr>asize := as\<rparr>)"
proof -
  have hk: "hashkey env (t\<lparr>asize := as\<rparr>) = hashkey env t" by (rule hashkey_cong) simp
  have ai: "aidx (t\<lparr>asize := as\<rparr>) k = None" if "aidx t k = None" for k
    using that assms(2) by (auto simp: aidx_def split: option.splits if_splits)
  show ?thesis
    using tab_wfD [OF wf] assms(2) ai unfolding tab_wf_def hk by auto
qed

lemma take_array_wf:
  assumes wf: "tab_wf env t"
  shows "tab_wf env (t\<lparr>array := take (asize t) (array t)\<rparr>)"
    and "tab_abs (t\<lparr>array := take (asize t) (array t)\<rparr>) c = tab_abs t c"
proof -
  let ?t = "t\<lparr>array := take (asize t) (array t)\<rparr>"
  have hk: "hashkey env ?t = hashkey env t" by (rule hashkey_cong) simp
  have ai: "aidx ?t = aidx t" by (rule aidx_cong) simp
  show "tab_wf env ?t" using tab_wfD [OF wf] unfolding tab_wf_def hk ai by auto
  show "tab_abs ?t c = tab_abs t c"
    using aidx_less [of t "ckey c"] by (auto simp: tab_abs_def ai split: option.split)
qed

lemma aidx_Some_iff:
  assumes "asize t \<le> 2 ^ 31" and "ckey c = c"
  shows "aidx t c = Some i \<longleftrightarrow> i < asize t \<and> c = num_of_int (int i)"
proof
  assume a: "aidx t c = Some i"
  then obtain w where w: "lj_num2int_check c = Some w" "unat w = i" "i < asize t"
    by (auto simp: aidx_def split: option.splits if_splits)
  from w(2) have "w = word_of_nat i" by auto
  with w(3) assms(1) sint_of_nat_index(1) [of i] have "sint w = int i" by simp
  with w assms(2) show "i < asize t \<and> c = num_of_int (int i)" by (simp add: num2int_iff)
next
  assume a: "i < asize t \<and> c = num_of_int (int i)"
  then have i: "i < 2 ^ 31" using assms(1) by simp
  have "sint (word_of_nat i :: u32) = int i" "unat (word_of_nat i :: u32) = i"
    using i sint_of_nat_index by simp_all
  with a num2int_of_int [of "word_of_nat i"] num_of_int_key(3) [of "word_of_nat i"]
  show "aidx t c = Some i" by (simp add: aidx_def)
qed

lemma MAX_ASIZE_lim: "n \<le> LJ_MAX_ASIZE \<Longrightarrow> n \<le> 2 ^ 31"
  by (simp add: LJ_MAX_ASIZE_def)

text \<open>Cutting the array part: the cut values are reinserted into the hash part.\<close>

lemma cut_array_map:
  assumes "asize t \<le> 2 ^ 31" and "as < asize t" and c: "ckey c = c"
    and u: "asize u = as" "array u = array t"
  shows "(case find (\<lambda>i. c = num_of_int (int i) \<and> \<not> tvisnil (array t ! i)) [as..<asize t] of
            Some i \<Rightarrow> array t ! i | None \<Rightarrow> array_abs u c) = array_abs t c"
proof -
  have ai: "aidx t c = Some i \<longleftrightarrow> i < asize t \<and> c = num_of_int (int i)" for i
    using aidx_Some_iff [OF assms(1) c] .
  have au: "aidx u c = Some i \<longleftrightarrow> i < as \<and> c = num_of_int (int i)" for i
    using aidx_Some_iff [of u, OF _ c] assms(1,2) u by simp
  show ?thesis
  proof (cases "find (\<lambda>i. c = num_of_int (int i) \<and> \<not> tvisnil (array t ! i)) [as..<asize t]")
    case (Some i)
    then have "i \<in> set [as..<asize t]" "c = num_of_int (int i)" by (auto simp: find_Some_iff)
    with ai [of i] Some c show ?thesis by (simp add: array_abs_def)
  next
    case None
    then have no: "tvisnil (array t ! i)" if "as \<le> i" "i < asize t" "c = num_of_int (int i)" for i
      using that by (auto simp: find_None_iff)
    show ?thesis
    proof (cases "aidx t c")
      case n: None
      have "aidx u c = None"
      proof (rule ccontr)
        assume "aidx u c \<noteq> None"
        then obtain a where "aidx u c = Some a" by blast
        with au [of a] ai [of a] n assms(2) show False by simp
      qed
      with None n c show ?thesis by (simp add: array_abs_def)
    next
      case (Some i)
      with ai [of i] have i: "i < asize t" "c = num_of_int (int i)" by simp_all
      have "aidx u c = (if i < as then Some i else None)"
      proof (cases "aidx u c")
        case None
        with au [of i] i show ?thesis by simp
      next
        case (Some a)
        with au [of a] have a: "a < as" "c = num_of_int (int a)" by simp_all
        have "num_of_int (int i) = num_of_int (int a)" using i(2) a(2) by metis
        moreover have "i < 2 ^ 31" "a < 2 ^ 31" using i(1) a(1) assms(1,2) by simp_all
        ultimately have "i = a" by (intro num_of_index_inj)
        with Some a(1) show ?thesis by simp
      qed
      moreover have "\<not> i < as \<Longrightarrow> array t ! i = niltv"
        using no [OF _ i] by (simp add: tvisnil_def niltv_def)
      ultimately have "array_abs u (ckey c) = array_abs t (ckey c)"
        using Some u c by (simp add: array_abs_def)
      with None c show ?thesis by simp
    qed
  qed
qed

definition resize_post :: "tabenv \<Rightarrow> gctab \<Rightarrow> nat \<Rightarrow> nat \<Rightarrow> gctab comp \<Rightarrow> bool" where
  "resize_post env t as hbits r \<longleftrightarrow>
     (case r of
        Done t' \<Rightarrow> tab_wf env t' \<and> (\<forall>c. tab_abs t' c = tab_abs t c) \<and> asize t' = as \<and> hmask t' = 2 ^ hbits - 1 \<and>
          (0 < hbits \<longrightarrow> 2 ^ hbits \<le> nfree (nodes t') + resize_need t as)
      | Raise e \<Rightarrow> e = LJ_ERR_TABOV \<or> e = LJ_ERR_ERRMEM
      | Stuck \<Rightarrow> False)"

lemma tab_resize_eq:
  "tab_resize env rh t as hbits =
     cbind (if asize t < as then grow_array env t as else Done t) (\<lambda>t1.
       cbind (new_hash env t1 hbits) (\<lambda>t2.
       cbind (if as < asize t then
                cbind (reinsert_array env rh (array t2) [as..<asize t] (t2\<lparr>asize := as\<rparr>)) (\<lambda>t.
                  if sint (colo t) \<le> 0 then
                    if realloc_ok env (as * sizeof_TValue) then Done (t\<lparr>array := take as (array t)\<rparr>)
                    else Raise LJ_ERR_ERRMEM
                  else Done t)
              else Done t2) (\<lambda>t3.
       if 0 < hmask t then reinsert_nodes env rh (take (hmask t + 1) (nodes t)) t3 else Done t3)))"
  by (simp add: tab_resize_def new_hash_def Let_def)

lemma grow_array_errors: "grow_array env t as \<noteq> Stuck" "grow_array env t as = Raise e \<Longrightarrow> e = LJ_ERR_TABOV \<or> e = LJ_ERR_ERRMEM"
  by (auto simp: grow_array_def split: if_splits)

lemma new_hash_errors: "new_hash env t b \<noteq> Stuck" "new_hash env t b = Raise e \<Longrightarrow> e = LJ_ERR_TABOV \<or> e = LJ_ERR_ERRMEM"
  by (auto simp: new_hash_def newhpart_def Let_def split: if_splits)

lemma hash_need_cong: "asize t' = asize t \<Longrightarrow> hash_need t' ns = hash_need t ns"
  using aidx_cong [of t' t] by (simp add: hash_need_def)

lemma tab_resize_ok:
  assumes wf: "tab_wf env t" and need: "resize_need t as \<le> (if hbits = 0 then 0 else 2 ^ hbits)"
  shows "resize_post env t as hbits (tab_resize env rh t as hbits)"
proof (cases "if asize t < as then grow_array env t as else Done t")
  case (Raise e)
  then show ?thesis using grow_array_errors(2)
    by (auto simp: resize_post_def tab_resize_eq split: if_splits)
next
  case Stuck
  then show ?thesis using grow_array_errors(1) by (auto split: if_splits)
next
  case t1: (Done t1)
  note d = tab_wfD [OF wf]
  have s1: "asize t1 = max (asize t) as" "asize t1 \<le> length (array t1)" "asize t1 \<le> LJ_MAX_ASIZE"
    "asize t < as \<or> t1 = t" "\<And>c. array_abs t1 c = array_abs t c"
    using t1 grow_array_ok [OF d(3), of as env t1] d(3,4) by (auto simp: max_def split: if_splits)
  show ?thesis
  proof (cases "new_hash env t1 hbits")
    case (Raise e)
    with t1 new_hash_errors(2) [OF Raise] show ?thesis by (simp add: resize_post_def tab_resize_eq)
  next
    case Stuck
    with new_hash_errors(1) show ?thesis by simp
  next
    case t2: (Done t2)
    note nh = new_hash_ok [OF s1(2,3) t2]
    have hm: "0 < hbits \<Longrightarrow> 0 < hmask t2" using nh one_less_power [of "2::nat" hbits] by simp
    define r3 where "r3 = (if as < asize t then
                cbind (reinsert_array env rh (array t2) [as..<asize t] (t2\<lparr>asize := as\<rparr>)) (\<lambda>t.
                  if sint (colo t) \<le> 0 then
                    if realloc_ok env (as * sizeof_TValue) then Done (t\<lparr>array := take as (array t)\<rparr>)
                    else Raise LJ_ERR_ERRMEM
                  else Done t)
              else Done t2)"
    have stage3: "r3 = Raise LJ_ERR_ERRMEM \<or> (\<exists>t3. r3 = Done t3 \<and> tab_wf env t3 \<and> asize t3 = as \<and> hmask t3 = 2 ^ hbits - 1 \<and>
        (0 < hbits \<longrightarrow> 2 ^ hbits \<le> nfree (nodes t3) + arr_need (array t) [as..<asize t]) \<and>
        (\<forall>c. key_ok c \<longrightarrow> tab_abs t3 c = array_abs t c))"
    proof (cases "as < asize t")
      case False
      then have "r3 = Done t2" by (simp add: r3_def)
      moreover have "tab_abs t2 c = array_abs t c" if c: "key_ok c" for c
        using blank_abs [of t2 c] c nh s1(5) [of c] aidx_cong [of t2 t1] by (simp add: array_abs_def)
      ultimately show ?thesis using nh s1(1) False by (auto simp: max_def)
    next
      case True
      then have tt: "t1 = t" using s1(4) by auto
      let ?t2 = "t2\<lparr>asize := as\<rparr>"
      have wf2: "tab_wf env ?t2" using nh True tt by (intro shrink_wf) auto
      have lim: "\<forall>i\<in>set [as..<asize t]. asize ?t2 \<le> i \<and> i < 2 ^ 31"
        using d(4) by (auto simp: LJ_MAX_ASIZE_def)
      have an: "arr_need (array t2) [as..<asize t] \<le> resize_need t as" using nh tt by (simp add: resize_need_def)
      have room: "arr_need (array t2) [as..<asize t] \<le> nfree (nodes ?t2)"
        using an need nh by (cases "hbits = 0") auto
      have pos: "0 < arr_need (array t2) [as..<asize t] \<Longrightarrow> 0 < hmask ?t2"
        using an need hm by (cases "hbits = 0") auto
      from reinsert_array_ok [OF wf2 distinct_upt lim room pos, of rh] obtain u where
        u: "reinsert_array env rh (array t2) [as..<asize t] ?t2 = Done u" "tab_wf env u" "same_sizes ?t2 u"
          "nfree (nodes ?t2) \<le> nfree (nodes u) + arr_need (array t2) [as..<asize t]"
        and ua: "\<forall>c. key_ok c \<longrightarrow> tab_abs u c =
           (case find (\<lambda>i. ckey c = num_of_int (int i) \<and> \<not> tvisnil (array t2 ! i)) [as..<asize t] of
              Some i \<Rightarrow> array t2 ! i | None \<Rightarrow> tab_abs ?t2 c)" by blast
      have us: "asize u = as" "hmask u = 2 ^ hbits - 1" using u(3) nh by (simp_all add: same_sizes_def)
      have uabs: "tab_abs u c = array_abs t c" if c: "key_ok c" for c
      proof -
        have "tab_abs ?t2 c = array_abs ?t2 (ckey c)"
          using blank_abs [of ?t2 c] c nh by (simp add: array_abs_def)
        moreover have "array_abs t c = array_abs t (ckey c)" by (simp add: array_abs_def)
        moreover have "array t2 = array t" using nh tt by simp
        ultimately show ?thesis
          using ua c cut_array_map [OF MAX_ASIZE_lim [OF d(4)] True ckey_idem, of ?t2 c] by simp
      qed
      have nf: "0 < hbits \<longrightarrow> 2 ^ hbits \<le> nfree (nodes u) + arr_need (array t) [as..<asize t]"
        using u(4) nh tt by auto
      show ?thesis
      proof (cases "sint (colo u) \<le> 0")
        case False
        then have "r3 = Done u" using u(1) True by (simp add: r3_def)
        with u(2) us uabs nf show ?thesis by blast
      next
        case c0: True
        show ?thesis
        proof (cases "realloc_ok env (as * sizeof_TValue)")
          case False
          with c0 u(1) True show ?thesis by (simp add: r3_def)
        next
          case ok: True
          then have "r3 = Done (u\<lparr>array := take as (array u)\<rparr>)" using u(1) True c0 by (simp add: r3_def)
          with take_array_wf [OF u(2)] us uabs nf show ?thesis by simp
        qed
      qed
    qed
    have eq: "tab_resize env rh t as hbits =
        cbind r3 (\<lambda>t3. if 0 < hmask t then reinsert_nodes env rh (take (hmask t + 1) (nodes t)) t3 else Done t3)"
      using t1 t2 by (simp add: tab_resize_eq r3_def)
    show ?thesis
    proof (cases "r3 = Raise LJ_ERR_ERRMEM")
      case True
      with eq show ?thesis by (simp add: resize_post_def)
    next
      case False
      with stage3 obtain t3 where r3: "r3 = Done t3" and wf3: "tab_wf env t3" and sz: "asize t3 = as" "hmask t3 = 2 ^ hbits - 1"
        and nf: "0 < hbits \<longrightarrow> 2 ^ hbits \<le> nfree (nodes t3) + arr_need (array t) [as..<asize t]"
        and abs: "\<forall>c. key_ok c \<longrightarrow> tab_abs t3 c = array_abs t c" by blast
      have hn: "hash_need t3 (nodes t) = hash_need (t\<lparr>asize := as\<rparr>) (nodes t)" using sz by (intro hash_need_cong) simp
      have room: "hash_need t3 (nodes t) \<le> nfree (nodes t3)"
        using need nf by (cases "hbits = 0") (auto simp: hn resize_need_def)
      have pos: "0 < hash_need t3 (nodes t) \<Longrightarrow> 0 < hmask t3"
        using need sz one_less_power [of "2::nat" hbits] by (cases "hbits = 0") (auto simp: hn resize_need_def)
      from reinsert_nodes_ok [OF wf3 live_ok_nodes [OF wf] room pos, of rh] obtain t4 where
        t4: "reinsert_nodes env rh (nodes t) t3 = Done t4" "tab_wf env t4" "same_sizes t3 t4"
          "nfree (nodes t3) \<le> nfree (nodes t4) + hash_need t3 (nodes t)"
          "\<forall>c. key_ok c \<longrightarrow> tab_abs t4 c = live_val (nodes t) (ckey c) (tab_abs t3 c)" by blast
      have all: "take (hmask t + 1) (nodes t) = nodes t" using d(1) by simp
      have parts: "tab_abs t c = live_val (nodes t) (ckey c) (tab_abs t3 c)" if "key_ok c" for c
        using tab_abs_parts [OF wf that] abs that by simp
      have bad: "tab_abs u c = niltv" if "\<not> key_ok c" for u c using that by (simp add: tab_abs_def)
      show ?thesis
      proof (cases "hmask t = 0")
        case True
        then have "nodes t = [nilnode]" using d(7) by simp
        then have "tab_abs t c = tab_abs t3 c" if "key_ok c" for c using parts [OF that] by (simp add: live_val_def)
        then have "tab_abs t3 c = tab_abs t c" for c using bad by (cases "key_ok c") simp_all
        with eq r3 True wf3 sz nf show ?thesis by (auto simp: resize_post_def resize_need_def)
      next
        case False
        have "tab_abs t4 c = tab_abs t c" for c using bad t4(5) parts by (cases "key_ok c") simp_all
        moreover have "0 < hbits \<longrightarrow> 2 ^ hbits \<le> nfree (nodes t4) + resize_need t as"
          using nf t4(4) by (auto simp: resize_need_def hn)
        ultimately show ?thesis using eq r3 False t4 sz all by (simp add: resize_post_def same_sizes_def)
      qed
    qed
  qed
qed

end
