(* ===== verification/TabRehash.thy ===== *)
theory TabRehash
  imports TabResize
begin

text \<open>
  The counting of \<^verbatim>\<open>rehashtab\<close>: the bins hold the number of integer keys per power of two, \<^verbatim>\<open>bestasize\<close>
  picks an array size of which more than a quarter is used, and the hash size left over is enough for
  all other keys and the new one.
\<close>

section \<open>Bins\<close>

definition bins_of :: "nat list \<Rightarrow> nat list \<Rightarrow> bool" where
  "bins_of bins K \<longleftrightarrow> length bins = LJ_MAX_ABITS \<and>
     (\<forall>b < LJ_MAX_ABITS. bins ! b = length (filter (\<lambda>k. bin_of k = b) K))"

lemma bins_of_empty: "bins_of (replicate LJ_MAX_ABITS 0) []"
  by (simp add: bins_of_def)

lemma bin_of_le: "k \<le> 2 * 2 ^ b \<longleftrightarrow> bin_of k \<le> b"
proof (cases "k > 2")
  case True
  then have p: "0 < k - 1" by simp
  note f = fls_nat_bounds [OF p]
  have "k \<le> 2 * 2 ^ b \<longleftrightarrow> k - 1 < 2 ^ Suc b" using True by simp linarith
  also have "\<dots> \<longleftrightarrow> fls_nat (k - 1) \<le> b"
  proof
    assume "k - 1 < 2 ^ Suc b"
    with f have "(2::nat) ^ fls_nat (k - 1) < 2 ^ Suc b" by linarith
    from power_less_imp_less_exp [OF _ this] show "fls_nat (k - 1) \<le> b" by simp
  next
    assume "fls_nat (k - 1) \<le> b"
    then have "(2::nat) ^ Suc (fls_nat (k - 1)) \<le> 2 ^ Suc b" by (intro power_increasing) auto
    with f show "k - 1 < 2 ^ Suc b" by linarith
  qed
  finally show ?thesis using True by (simp add: bin_of_def)
next
  case False
  have "(1::nat) \<le> 2 ^ b" by simp
  with False have "k \<le> 2 * 2 ^ b" by linarith
  with False show ?thesis by (simp add: bin_of_def)
qed

lemma bin_of_max: "k < LJ_MAX_ASIZE \<Longrightarrow> bin_of k \<le> 26"
  using bin_of_le [of k 26] by (simp add: LJ_MAX_ASIZE_def)

lemma bins_of_Cons:
  assumes "bins_of bins K" and "k < LJ_MAX_ASIZE"
  shows "bins_of (bins[bin_of k := bins ! bin_of k + 1]) (k # K)"
  using assms bin_of_max [OF assms(2)]
  by (auto simp: bins_of_def LJ_MAX_ABITS_def nth_list_update)

lemma below_iff:
  assumes "lim \<le> 2 ^ 31"
  shows "lj_num2int_below x lim = Some k \<longleftrightarrow> (\<exists>w. lj_num2int_check x = Some w \<and> unat w = k \<and> k < lim)"
proof (cases "num_eq (num_of_int (cvttsd2si 32 x)) x")
  case True
  let ?w = "word_of_int (cvttsd2si 32 x) :: u32"
  have v: "lj_vm_num2int_check x = ucast ?w" using True by (simp add: lj_vm_num2int_check_def Let_def)
  have "0 \<le> sint (ucast ?w :: u64)"
    by (auto simp: sint_uint signed_take_bit_eq_if_positive bit_simps dest: bit_imp_le_length)
  then show ?thesis by (auto simp: lj_num2int_below_def lj_num2int_check_def v)
next
  case False
  then have v: "lj_vm_num2int_check x = 0x8000000080000000" by (simp add: lj_vm_num2int_check_def Let_def)
  have "unat (ucast (0x8000000080000000 :: u64) :: u32) = 2 ^ 31" by simp
  with assms show ?thesis by (auto simp: lj_num2int_below_def lj_num2int_check_def v)
qed

definition int_key :: "tvalue \<Rightarrow> nat option" where
  "int_key k = (if tvisnum k then lj_num2int_below k LJ_MAX_ASIZE else None)"

lemma countint_eq: "countint k bins =
    (case int_key k of Some i \<Rightarrow> (bins[bin_of i := bins ! bin_of i + 1], 1) | None \<Rightarrow> (bins, 0))"
  by (simp add: countint_def int_key_def)

lemma int_key_less: "int_key k = Some i \<Longrightarrow> i < LJ_MAX_ASIZE"
  by (auto simp: int_key_def lj_num2int_below_def Let_def split: if_splits)

text \<open>The array index of a key in a table with an array part of size \<open>as\<close>.\<close>

lemma aidx_int_key:
  assumes "asize t \<le> LJ_MAX_ASIZE"
  shows "aidx t k = (case int_key k of Some i \<Rightarrow> if i < asize t then Some i else None | None \<Rightarrow> None)"
proof -
  have "LJ_MAX_ASIZE \<le> 2 ^ 31" by (simp add: LJ_MAX_ASIZE_def)
  note b = below_iff [OF this, of k]
  show ?thesis
  proof (cases "lj_num2int_check k")
    case None
    then have "lj_num2int_below k LJ_MAX_ASIZE = None" using b by (cases "lj_num2int_below k LJ_MAX_ASIZE") auto
    with None show ?thesis by (simp add: aidx_def int_key_def)
  next
    case (Some w)
    show ?thesis
    proof (cases "unat w < LJ_MAX_ASIZE")
      case True
      with b [of "unat w"] Some show ?thesis by (simp add: aidx_def int_key_def)
    next
      case False
      have "lj_num2int_below k LJ_MAX_ASIZE = None"
      proof (rule ccontr)
        assume "lj_num2int_below k LJ_MAX_ASIZE \<noteq> None"
        then obtain i where "lj_num2int_below k LJ_MAX_ASIZE = Some i" by blast
        with b [of i] Some False show False by auto
      qed
      with Some False assms show ?thesis by (simp add: aidx_def int_key_def)
    qed
  qed
qed

section \<open>Counting\<close>

definition arr_keys :: "gctab \<Rightarrow> nat list" where
  "arr_keys t = filter (\<lambda>i. \<not> tvisnil (array t ! i)) [0..<asize t]"

definition node_keys :: "node list \<Rightarrow> nat list" where
  "node_keys ns = map (\<lambda>n. the (int_key (nkey n)))
     (filter (\<lambda>n. \<not> tvisnil (nval n) \<and> int_key (nkey n) \<noteq> None) ns)"

definition live :: "node list \<Rightarrow> nat" where
  "live ns = length (filter (\<lambda>n. \<not> tvisnil (nval n)) ns)"

lemma counthash_loop_ok:
  assumes "bins_of bins K" and "counthash_loop ns bins tot na = (bins', tot', na')"
  shows "bins_of bins' (rev (node_keys ns) @ K) \<and> tot' = tot + live ns \<and> na' = na + length (node_keys ns)"
  using assms
proof (induction ns arbitrary: bins K tot na)
  case Nil
  then show ?case by (simp add: node_keys_def live_def)
next
  case (Cons n ns)
  show ?case
  proof (cases "tvisnil (nval n)")
    case True
    with Cons show ?thesis by (simp add: node_keys_def live_def)
  next
    case False
    show ?thesis
    proof (cases "int_key (nkey n)")
      case None
      with False Cons.prems have "counthash_loop ns bins (tot + 1) na = (bins', tot', na')" by (simp add: countint_eq)
      from Cons.IH [OF Cons.prems(1) this] None False show ?thesis by (simp add: node_keys_def live_def)
    next
      case (Some i)
      with False Cons.prems have "counthash_loop ns (bins[bin_of i := bins ! bin_of i + 1]) (tot + 1) (na + 1) = (bins', tot', na')"
        by (simp add: countint_eq)
      from Cons.IH [OF bins_of_Cons [OF Cons.prems(1) int_key_less [OF Some]] this] Some False
      show ?thesis by (simp add: node_keys_def live_def)
    qed
  qed
qed

text \<open>The loop over the array part, from bin \<open>b\<close> and index \<open>i\<close> on.\<close>

definition live_idx :: "gctab \<Rightarrow> nat \<Rightarrow> nat \<Rightarrow> nat list" where
  "live_idx t i j = filter (\<lambda>i. \<not> tvisnil (array t ! i)) [i..<j]"

lemma live_idx_split: "i \<le> j \<Longrightarrow> j \<le> k \<Longrightarrow> live_idx t i k = live_idx t i j @ live_idx t j k"
  unfolding live_idx_def by (metis filter_append upt_add_eq_append le_Suc_ex)

lemma countarray_loop_ok:
  assumes "length bins = LJ_MAX_ABITS" and "bs = [b..<LJ_MAX_ABITS]" and "b \<le> LJ_MAX_ABITS"
    and "0 < asize t" and "asize t \<le> 2 * 2 ^ 27 + 1"
    and i: "i = min (if b = 0 then 0 else 2 ^ b + 1) (asize t)"
    and r: "countarray_loop t bs i bins na = (bins', na')"
  shows "length bins' = LJ_MAX_ABITS \<and> na' = na + length (live_idx t i (asize t)) \<and>
    (\<forall>c < LJ_MAX_ABITS. bins' ! c = bins ! c + length (filter (\<lambda>k. bin_of k = c) (live_idx t i (asize t))))"
  using assms
proof (induction bs arbitrary: b i bins na)
  case Nil
  then have "[b..<28] = []" "b \<le> 28" by (simp_all add: LJ_MAX_ABITS_def)
  then have "b = 28" by simp
  with Nil.prems have "i = asize t" by (simp add: min_def)
  with Nil.prems show ?case by (simp add: live_idx_def)
next
  case (Cons x bs)
  from Cons.prems(2) have "[b..<LJ_MAX_ABITS] = x # bs" by simp
  then have b: "b < LJ_MAX_ABITS" "x = b" "bs = [Suc b..<LJ_MAX_ABITS]" by (auto simp: upt_eq_Cons_conv)
  let ?top = "2 * 2 ^ b :: nat"
  show ?case
  proof (cases "asize t \<le> ?top \<and> asize t - 1 < i")
    case True
    have "i \<le> asize t" using Cons.prems(6) by simp
    with True have "i = asize t" by linarith
    have "(bins', na') = (bins, na)" using Cons.prems(7) True \<open>i = asize t\<close> b(2) by (simp add: Let_def)
    with \<open>i = asize t\<close> Cons.prems(1) show ?thesis by (simp add: live_idx_def)
  next
    case False
    define m where "m = min (?top + 1) (asize t)"
    have top: "Suc (if ?top \<ge> asize t then asize t - 1 else ?top) = m" using Cons.prems(4) by (auto simp: m_def)
    have ilt: "i < asize t" using False Cons.prems(6,4)
    proof (cases "asize t \<le> ?top")
      case True
      with False Cons.prems(4) show ?thesis by linarith
    next
      case gt: False
      have "(if b = 0 then 0 else 2 ^ b + 1) \<le> ?top" by (cases "b = 0") auto
      with gt Cons.prems(6) show ?thesis by simp
    qed
    have im: "i \<le> m" using Cons.prems(6) ilt by (auto simp: m_def split: if_splits)
    let ?n = "length (live_idx t i m)"
    have step: "countarray_loop t bs m (bins[b := bins ! b + ?n]) (na + ?n) = (bins', na')"
      using Cons.prems(7) False top im b(2)
      by (simp only: countarray_loop.simps Let_def top False if_False live_idx_def max_absorb2)
    have m: "m = min (if Suc b = 0 then 0 else 2 ^ Suc b + 1) (asize t)" by (simp add: m_def)
    have "length bins' = LJ_MAX_ABITS \<and> na' = na + ?n + length (live_idx t m (asize t)) \<and>
      (\<forall>c < LJ_MAX_ABITS. bins' ! c = bins[b := bins ! b + ?n] ! c + length (filter (\<lambda>k. bin_of k = c) (live_idx t m (asize t))))"
      by (rule Cons.IH [OF _ b(3) _ Cons.prems(4,5) m step]) (use Cons.prems(1) b(1) in auto)
    moreover have "live_idx t i (asize t) = live_idx t i m @ live_idx t m (asize t)"
      using im by (intro live_idx_split) (auto simp: m_def)
    moreover have "filter (\<lambda>k. bin_of k = c) (live_idx t i m) = (if c = b then live_idx t i m else [])" for c
    proof -
      have "bin_of k = b" if k: "k \<in> set (live_idx t i m)" for k
      proof -
        have "i \<le> k" "k < m" using k by (auto simp: live_idx_def)
        then have "k \<le> 2 * 2 ^ b" by (simp add: m_def)
        then have le: "bin_of k \<le> b" by (simp only: bin_of_le)
        show ?thesis
        proof (cases "b = 0")
          case True
          with le show ?thesis by simp
        next
          case False
          then obtain b' where b': "b = Suc b'" by (cases b) auto
          have "2 ^ b + 1 \<le> k" using \<open>i \<le> k\<close> Cons.prems(6) False ilt by (simp add: min_def split: if_splits)
          then have "\<not> k \<le> 2 * 2 ^ b'" using b' by simp
          then have "\<not> bin_of k \<le> b'" using bin_of_le [of k b'] by blast
          with le b' show ?thesis by simp
        qed
      qed
      then show ?thesis by (auto simp: filter_id_conv filter_empty_conv)
    qed
    ultimately show ?thesis using Cons.prems(1) b(1) by (auto simp: nth_list_update)
  qed
qed

lemma countarray_ok:
  assumes "asize t \<le> LJ_MAX_ASIZE" and r: "countarray t (replicate LJ_MAX_ABITS 0) = (bins, na)"
  shows "bins_of bins (arr_keys t) \<and> na = length (arr_keys t)"
proof (cases "asize t = 0")
  case True
  with r bins_of_empty show ?thesis by (auto simp: countarray_def arr_keys_def)
next
  case False
  with r have l: "countarray_loop t [0..<LJ_MAX_ABITS] 0 (replicate LJ_MAX_ABITS 0) 0 = (bins, na)"
    by (simp add: countarray_def)
  have "asize t \<le> 2 * 2 ^ 27 + 1" using assms(1) by (simp add: LJ_MAX_ASIZE_def)
  from countarray_loop_ok [OF _ refl _ _ this _ l] False show ?thesis
    by (simp add: bins_of_def live_idx_def arr_keys_def)
qed

section \<open>The best array size\<close>

text \<open>How many of the keys \<open>K\<close> lie in an array part of size \<open>sz\<close>.\<close>

definition below :: "nat list \<Rightarrow> nat \<Rightarrow> nat" where
  "below K sz = length (filter (\<lambda>k. k < sz) K)"

definition good_size :: "nat list \<Rightarrow> nat \<Rightarrow> nat \<Rightarrow> bool" where
  "good_size K sz na \<longleftrightarrow> na = below K sz \<and> sz \<le> LJ_MAX_ASIZE \<and> (sz = 0 \<or> sz - 1 < 4 * na)"

lemma length_filter_split: "length (filter (\<lambda>k. P k \<or> Q k) K) = length (filter P K) + length (filter Q K)"
  if "\<And>k. k \<in> set K \<Longrightarrow> \<not> (P k \<and> Q k)"
  using that by (induction K) auto

lemma bin_sum:
  "length (filter (\<lambda>k. bin_of k < Suc b) K) = length (filter (\<lambda>k. bin_of k < b) K) + length (filter (\<lambda>k. bin_of k = b) K)"
proof -
  have "(\<lambda>k. bin_of k < Suc b) = (\<lambda>k. bin_of k < b \<or> bin_of k = b)" by (auto simp: fun_eq_iff)
  then show ?thesis using length_filter_split [of K "\<lambda>k. bin_of k < b" "\<lambda>k. bin_of k = b"] by simp
qed

lemma bestasize_loop_ok:
  assumes K: "bins_of bins K" "\<forall>k\<in>set K. k < LJ_MAX_ASIZE"
    and sm: "sm = length (filter (\<lambda>k. bin_of k < b) K)"
    and g: "good_size K sz na" and r: "bestasize_loop bins (length K) b sm sz na = (sz', na')"
  shows "good_size K sz' na'"
  using sm g r
proof (induction "LJ_MAX_ABITS - b" arbitrary: b sm sz na)
  case 0
  have all: "filter (\<lambda>k. bin_of k < b) K = K"
  proof (rule filter_True, rule ballI)
    fix k assume "k \<in> set K"
    with K(2) bin_of_max [of k] 0 show "bin_of k < b" by (auto simp: LJ_MAX_ABITS_def)
  qed
  have smK: "sm = length K" using 0(2) all by simp
  have "bestasize_loop bins (length K) b sm sz na = (sz, na)"
    by (simp add: bestasize_loop.simps [of bins "length K" b] smK)
  with 0(3,4) show ?case by simp
next
  case (Suc d)
  then have b: "b < LJ_MAX_ABITS" by simp
  then have bb: "bins ! b = length (filter (\<lambda>k. bin_of k = b) K)" using K(1) by (simp add: bins_of_def)
  have sm': "sm + bins ! b = length (filter (\<lambda>k. bin_of k < b + 1) K)"
    using Suc.prems(1) bb bin_sum [of b K] by simp
  have d: "d = LJ_MAX_ABITS - (b + 1)" using Suc.hyps(2) by simp
  show ?case
  proof (cases "2 * length K > 2 ^ b \<and> sm \<noteq> length K")
    case False
    with Suc.prems show ?thesis by (auto simp: bestasize_loop.simps [of bins "length K" b])
  next
    case cont: True
    show ?thesis
    proof (cases "bins ! b > 0 \<and> 2 * (sm + bins ! b) > 2 ^ b")
      case False
      then have "bestasize_loop bins (length K) (b + 1) (sm + bins ! b) sz na = (sz', na')"
        using Suc.prems(3) cont by (simp add: bestasize_loop.simps [of bins "length K" b] split: if_splits)
      from Suc.hyps(1) [OF d sm' Suc.prems(2) this] show ?thesis .
    next
      case True
      then have rec: "bestasize_loop bins (length K) (b + 1) (sm + bins ! b) (2 * 2 ^ b + 1) (sm + bins ! b) = (sz', na')"
        using Suc.prems(3) cont by (simp add: bestasize_loop.simps [of bins "length K" b])
      have "filter (\<lambda>k. k < 2 * 2 ^ b + 1) K = filter (\<lambda>k. bin_of k < b + 1) K"
        by (intro filter_cong) (simp_all add: less_Suc_eq_le bin_of_le)
      then have na: "sm + bins ! b = below K (2 * 2 ^ b + 1)" using sm' by (simp add: below_def)
      have "filter (\<lambda>k. bin_of k = b) K \<noteq> []" using True bb by auto
      then obtain k where "k \<in> set K" "bin_of k = b" by (auto simp: filter_empty_conv)
      with K(2) bin_of_max [of k] have "b \<le> 26" by auto
      then have "(2::nat) ^ b \<le> 2 ^ 26" by (intro power_increasing) auto
      then have "2 * 2 ^ b + 1 \<le> LJ_MAX_ASIZE" by (simp add: LJ_MAX_ASIZE_def)
      moreover have "2 * 2 ^ b < 4 * (sm + bins ! b)" using True by simp
      ultimately have "good_size K (2 * 2 ^ b + 1) (sm + bins ! b)" using na by (simp add: good_size_def)
      from Suc.hyps(1) [OF d sm' this rec] show ?thesis .
    qed
  qed
qed

lemma bestasize_ok:
  assumes "bins_of bins K" and "\<forall>k\<in>set K. k < LJ_MAX_ASIZE" and "bestasize bins (length K) = (sz, na)"
  shows "good_size K sz na"
  by (rule bestasize_loop_ok [OF assms(1,2) _ _ assms(3) [unfolded bestasize_def]])
     (simp_all add: good_size_def below_def)

lemma hsize2hbits_ok: "n \<le> (if hsize2hbits n = 0 then 0 else 2 ^ hsize2hbits n)"
proof -
  have "n \<le> 2 ^ (1 + fls_nat (n - 1))" if "n \<noteq> 0" "n \<noteq> 1"
  proof -
    have "0 < n - 1" using that by simp
    from fls_nat_bounds [OF this] show ?thesis using that by simp linarith
  qed
  then show ?thesis by (auto simp: hsize2hbits_def)
qed

section \<open>Rehashing\<close>

lemma below_append: "below (xs @ ys) n = below xs n + below ys n" "below (rev xs) n = below xs n"
  by (simp_all add: below_def flip: rev_filter)

lemma below_Cons: "below (i # xs) n = (if i < n then 1 else 0) + below xs n"
  by (simp add: below_def)

lemma node_need:
  assumes "as \<le> LJ_MAX_ASIZE"
  shows "live ns = hash_need (t\<lparr>asize := as\<rparr>) ns + below (node_keys ns) as"
proof (induction ns)
  case (Cons n ns)
  have "aidx (t\<lparr>asize := as\<rparr>) (nkey n) = (case int_key (nkey n) of Some i \<Rightarrow> if i < as then Some i else None | None \<Rightarrow> None)"
    using aidx_int_key [of "t\<lparr>asize := as\<rparr>" "nkey n"] assms by simp
  with Cons show ?case
    by (cases "int_key (nkey n)") (auto simp: live_def hash_need_def below_def node_keys_def)
qed (simp add: live_def hash_need_def below_def node_keys_def)

lemma arr_keys_need: "length (arr_keys t) = arr_need (array t) [as..<asize t] + below (arr_keys t) as"
proof -
  have "below (arr_keys t) as = length (live_idx t 0 (min as (asize t)))"
  proof -
    have "filter (\<lambda>k. k < as) (arr_keys t) = filter (\<lambda>i. \<not> tvisnil (array t ! i)) (filter (\<lambda>k. k < as) [0..<asize t])"
      by (simp add: arr_keys_def conj_commute)
    also have "filter (\<lambda>k. k < as) [0..<asize t] = [0..<min as (asize t)]"
      by (rule sorted_distinct_set_unique) (auto simp: sorted_wrt_filter)
    finally show ?thesis by (simp add: below_def live_idx_def)
  qed
  moreover have "arr_need (array t) [as..<asize t] = length (live_idx t (min as (asize t)) (asize t))"
    by (cases "as \<le> asize t") (simp_all add: arr_need_def live_idx_def min_def)
  moreover have "arr_keys t = live_idx t 0 (min as (asize t)) @ live_idx t (min as (asize t)) (asize t)"
    unfolding arr_keys_def live_idx_def [of t 0 "asize t", symmetric] by (rule live_idx_split) auto
  ultimately show ?thesis by simp
qed

text \<open>After a rehash for \<open>k\<close> the table has its old contents and room for \<open>k\<close>.\<close>

lemma rehashtab_ok:
  assumes wf: "tab_wf env t"
  shows "case rehashtab env rh t k of
     Done t' \<Rightarrow> tab_wf env t' \<and> (\<forall>c. tab_abs t' c = tab_abs t c) \<and> (aidx t' k = None \<longrightarrow> has_room t')
   | Raise e \<Rightarrow> e = LJ_ERR_TABOV \<or> e = LJ_ERR_ERRMEM
   | Stuck \<Rightarrow> False"
proof -
  note d = tab_wfD [OF wf]
  have all: "take (hmask t + 1) (nodes t) = nodes t" using d(1) by simp
  obtain bins1 na1 where c1: "countarray t (replicate LJ_MAX_ABITS 0) = (bins1, na1)" by fastforce
  obtain bins2 th na2 where c2: "counthash t bins1 = (bins2, th, na2)" by (cases "counthash t bins1") auto
  obtain bins3 c where c3: "countint k bins2 = (bins3, c)" by fastforce
  note a1 = countarray_ok [OF d(4) c1]
  have "counthash_loop (nodes t) bins1 0 0 = (bins2, th, na2)" using c2 all by (simp add: counthash_def)
  note a2 = counthash_loop_ok [OF conjunct1 [OF a1] this]
  define K2 where "K2 = rev (node_keys (nodes t)) @ arr_keys t"
  define K where "K = (case int_key k of Some i \<Rightarrow> i # K2 | None \<Rightarrow> K2)"
  have b2: "bins_of bins2 K2" using a2 by (simp add: K2_def)
  have b3: "bins_of bins3 K" and cK: "length K = length K2 + c"
    using b2 c3 bins_of_Cons [OF b2 int_key_less [of k]] by (auto simp: countint_eq K_def split: option.splits)
  have "i < LJ_MAX_ASIZE" if "i \<in> set (node_keys (nodes t))" for i
    using that int_key_less by (auto simp: node_keys_def)
  moreover have "i < LJ_MAX_ASIZE" if "i \<in> set (arr_keys t)" for i using that d(4) by (simp add: arr_keys_def)
  ultimately have lK: "\<forall>i\<in>set K. i < LJ_MAX_ASIZE" using int_key_less [of k] by (auto simp: K_def K2_def split: option.splits)
  have lenK: "length K = na1 + na2 + c" using a1 a2 cK by (simp add: K2_def)
  obtain as na where best: "bestasize bins3 (length K) = (as, na)" by fastforce
  have gs: "na = below K as" "as \<le> LJ_MAX_ASIZE" using bestasize_ok [OF b3 lK best] by (auto simp: good_size_def)
  define tot where "tot = 1 + na1 + th - na"
  have rt: "rehashtab env rh t k = tab_resize env rh t as (hsize2hbits tot)"
    using c1 c2 c3 best lenK by (simp add: rehashtab_def tot_def Let_def)
  have ai: "aidx u k = (case int_key k of Some i \<Rightarrow> if i < as then Some i else None | None \<Rightarrow> None)" if "asize u = as" for u
    using aidx_int_key [of u k] that gs(2) by simp
  have "th = live (nodes t)" "na1 = length (arr_keys t)" using a1 a2 by simp_all
  moreover have "below K as = below (node_keys (nodes t)) as + below (arr_keys t) as + (case int_key k of Some i \<Rightarrow> if i < as then 1 else 0 | None \<Rightarrow> 0)"
    by (auto simp: K_def K2_def below_append below_Cons split: option.split)
  ultimately have tot: "tot = resize_need t as + (case int_key k of Some i \<Rightarrow> if i < as then 0 else 1 | None \<Rightarrow> 1)"
    using node_need [OF gs(2), of "nodes t" t] arr_keys_need [of t as] gs(1)
    by (simp add: tot_def resize_need_def split: option.split)
  have "resize_need t as \<le> (if hsize2hbits tot = 0 then 0 else 2 ^ hsize2hbits tot)"
    using hsize2hbits_ok [of tot] tot by (simp split: if_splits)
  note post = tab_resize_ok [OF wf this, of rh]
  show ?thesis
  proof (cases "rehashtab env rh t k")
    case (Done t')
    then have "tab_resize env rh t as (hsize2hbits tot) = Done t'" using rt by simp
    from post [unfolded this] have t': "tab_wf env t'" "\<forall>c. tab_abs t' c = tab_abs t c" "asize t' = as"
      "hmask t' = 2 ^ hsize2hbits tot - 1"
      "0 < hsize2hbits tot \<longrightarrow> 2 ^ hsize2hbits tot \<le> nfree (nodes t') + resize_need t as"
      by (simp_all add: resize_post_def)
    have "has_room t'" if "aidx t' k = None"
    proof -
      have "tot = resize_need t as + 1" using tot ai [OF t'(3)] that by (auto split: option.splits if_splits)
      moreover from this hsize2hbits_ok [of tot] have "0 < hsize2hbits tot" "tot \<le> 2 ^ hsize2hbits tot"
        by (auto split: if_splits)
      ultimately show ?thesis using t'(4,5) one_less_power [of "2::nat" "hsize2hbits tot"] by (simp add: has_room_def)
    qed
    with t' Done show ?thesis by simp
  next
    case (Raise e)
    then have "tab_resize env rh t as (hsize2hbits tot) = Raise e" using rt by simp
    from post [unfolded this] Raise show ?thesis by (simp add: resize_post_def)
  next
    case Stuck
    then have "tab_resize env rh t as (hsize2hbits tot) = Stuck" using rt by simp
    from post [unfolded this] show ?thesis by (simp add: resize_post_def)
  qed
qed

end
