(* ===== verification/TabMain.thy ===== *)
theory TabMain
  imports TabRehash
begin

text \<open>
  The table operations as a whole: setters with rehashing, the refinement of the abstract map, and
  the remaining operations on top of it (creation, duplication, clearing, counting, traversal, length).
\<close>

section \<open>Setters\<close>

lemma newkey_rehash:
  assumes wf: "tab_wf env t" and "\<not> (0 < hmask t \<and> (tvisnil (nval (nodes t ! hashkey env t k)) \<or> 0 < nfree (nodes t)))"
  shows "lj_tab_newkey env rh t k = rh t k"
proof -
  have "scan_free (nodes t) (freetop t) = None"
  proof (cases "scan_free (nodes t) (freetop t)")
    case (Some f)
    note f = scan_free_Some [OF Some]
    have fl: "f < length (nodes t)" using f tab_wfD(6) [OF wf] by linarith
    have "hmask t \<noteq> 0" using f tab_wfD(7) [OF wf] by auto
    with assms(2) have "nfree (nodes t) = 0" by simp
    with f fl nfree_pos [of "nodes t"] show ?thesis by auto
  qed
  with assms(2) show ?thesis by (auto simp: lj_tab_newkey_def Let_def)
qed

lemma find_or_rehash:
  assumes wf: "tab_wf env t" and k: "key_ok k" "aidx t (ckey k) = None"
    and P: "\<And>x. key_ok x \<Longrightarrow> P x \<longleftrightarrow> ckey x = ckey k" "\<not> P niltv" and h: "h = hashkey env t k"
    and r: "r = cbind (find_node t P h) (\<lambda>i. case i of Some n \<Rightarrow> Done (t, NSlot n) | None \<Rightarrow> lj_tab_newkey env rh t k)"
  shows "(\<exists>t' s. r = Done (t', s) \<and> slot_for env t k t' s) \<or> r = rh t k"
proof -
  from find_node_key [OF wf k(1) P h] obtain q where q: "find_node t P h = Done q"
    "case q of Some i \<Rightarrow> i < length (nodes t) \<and> nkey (nodes t ! i) = ckey k
      | None \<Rightarrow> \<forall>i<length (nodes t). nkey (nodes t ! i) \<noteq> ckey k" by blast
  show ?thesis
  proof (cases q)
    case (Some n)
    with q found_slot [OF wf k(2)] show ?thesis by (auto simp: r)
  next
    case None
    with q have new: "\<And>i. i < length (nodes t) \<Longrightarrow> nkey (nodes t ! i) \<noteq> ckey k" by simp
    show ?thesis
    proof (cases "0 < hmask t \<and> (tvisnil (nval (nodes t ! hashkey env t k)) \<or> 0 < nfree (nodes t))")
      case True
      from newkey_ok [OF wf k new] True obtain t' n where
        "lj_tab_newkey env rh t k = Done (t', NSlot n)" "entered env t (ckey k) t' n" by blast
      with entered_slot [OF wf k(2)] None q show ?thesis by (auto simp: r)
    next
      case False
      from newkey_rehash [OF wf this] None q show ?thesis by (simp add: r)
    qed
  qed
qed

lemma set_cases:
  assumes wf: "tab_wf env t" and k: "key_ok k"
  shows "(\<exists>t' s. tab_set env rh t k = Done (t', s) \<and> slot_for env t k t' s) \<or>
     (\<exists>k'. key_ok k' \<and> ckey k' = ckey k \<and> tab_set env rh t k = rh (t\<lparr>nomm := 0\<rparr>) k')"
proof -
  let ?t = "t\<lparr>nomm := 0\<rparr>"
  have wf': "tab_wf env ?t" using wf by simp
  have nn: "\<not> tvisnil k" "\<not> (tvisnum k \<and> tvisnan k)" using k by (auto simp: key_ok_def tvisnan_iff)
  consider (str) "tvisstr k" | (int) i where "\<not> tvisstr k" "tvisnum k" "lj_num2int_check k = Some i"
    | (gen) "\<not> tvisstr k" "tvisnum k \<Longrightarrow> lj_num2int_check k = None"
    by (cases "lj_num2int_check k") auto
  then show ?thesis
  proof cases
    case str
    have ai: "aidx ?t (ckey k) = None" using aidx_noint [of k t] str_key [OF str] by simp
    have h: "hashmask ?t (sid env (gcval k)) = hashkey env ?t k" using str by (simp add: hashkey_def keyhash_def)
    have "tab_set env rh t k = cbind (find_node ?t (\<lambda>x. tvisstr x \<and> gcval x = gcval k) (hashmask ?t (sid env (gcval k))))
        (\<lambda>i. case i of Some n \<Rightarrow> Done (?t, NSlot n) | None \<Rightarrow> lj_tab_newkey env rh ?t k)"
      using str strkey [OF str] by (simp add: tab_set_def lj_tab_setstr_def Let_def)
    with find_or_rehash [OF wf' k ai test_str [OF _ str] _ h refl, of rh] k show ?thesis by auto
  next
    case int
    note ck = ckey_int [OF int(3)]
    have ri: "tab_set env rh t k = lj_tab_setint env rh ?t i" using int by (simp add: tab_set_def Let_def)
    show ?thesis
    proof (cases "inarray t i")
      case True
      have "slot_for env t k ?t (ASlot (unat i))"
        using wf aidx_int [OF int(2,3), of t] True by (simp add: slot_for_def)
      with ri True show ?thesis by (simp add: lj_tab_setint_def)
    next
      case False
      let ?k = "num_of_int (sint i)"
      note nk = num_of_int_key [of i]
      have ai: "aidx ?t (ckey ?k) = None" using aidx_int [OF int(2,3), of t] False ck nk(2) by simp
      have "lj_tab_setint env rh ?t i = cbind (find_node ?t (\<lambda>x. tvisnum x \<and> num_eq x ?k) (hashkey env ?t ?k))
          (\<lambda>i. case i of Some n \<Rightarrow> Done (?t, NSlot n) | None \<Rightarrow> lj_tab_newkey env rh ?t ?k)"
        using False by (simp add: lj_tab_setint_def lj_tab_setinth_def Let_def)
      moreover have "slot_for env t ?k = slot_for env t k"
      proof -
        have e: "ckey ?k = ckey k" using ck nk(2) by simp
        show ?thesis unfolding slot_for_def e ..
      qed
      ultimately show ?thesis
        using find_or_rehash [OF wf' nk(1) ai test_int [of _ i] _ refl refl, of rh] ri nk ck by auto
    qed
  next
    case gen
    have ai: "aidx ?t (ckey k) = None" using aidx_noint [of k t] gen by simp
    have "tab_set env rh t k = cbind (find_node ?t (\<lambda>x. lj_obj_equal x k) (hashkey env ?t k))
        (\<lambda>i. case i of Some n \<Rightarrow> Done (?t, NSlot n) | None \<Rightarrow> lj_tab_newkey env rh ?t k)"
      using gen nn by (cases "tvisnum k") (simp_all add: tab_set_def Let_def)
    with find_or_rehash [OF wf' k ai test_generic [OF k] test_nil [OF k] refl refl, of rh] k show ?thesis by auto
  qed
qed

lemma aidx_ckey: "aidx t (ckey k) = aidx t k"
  by (simp add: aidx_def num2int_ckey)

text \<open>One rehash is enough.\<close>

lemma rehash_set_ok:
  assumes wf: "tab_wf env t" and k: "key_ok k"
  shows "case rehash_set (Suc d) env t k of
     Done (t', s) \<Rightarrow> slot_for env t k t' s
   | Raise e \<Rightarrow> e = LJ_ERR_TABOV \<or> e = LJ_ERR_ERRMEM
   | Stuck \<Rightarrow> False"
proof -
  note rh = rehashtab_ok [OF wf, where rh = "rehash_set d env" and k = k]
  show ?thesis
  proof (cases "rehashtab env (rehash_set d env) t k")
    case (Done t1)
    with rh have t1: "tab_wf env t1" "\<forall>c. tab_abs t1 c = tab_abs t c" "aidx t1 k = None \<longrightarrow> has_room t1" by simp_all
    have "\<exists>t' s. tab_set env (rehash_set d env) t1 k = Done (t', s) \<and> slot_for env t1 k t' s \<and> kept_shape t1 k t'"
      by (rule set_room [OF t1(1) k]) (use t1(3) aidx_ckey in simp)
    then obtain t' s where "tab_set env (rehash_set d env) t1 k = Done (t', s)" "slot_for env t1 k t' s" by blast
    with Done t1(2) show ?thesis by (simp add: slot_for_def)
  qed (use rh in simp_all)
qed

lemma set_ok:
  assumes wf: "tab_wf env t" and k: "key_ok k"
  shows "case tab_set env (rehash_set (Suc d) env) t k of
     Done (t', s) \<Rightarrow> slot_for env t k t' s
   | Raise e \<Rightarrow> e = LJ_ERR_TABOV \<or> e = LJ_ERR_ERRMEM
   | Stuck \<Rightarrow> False"
proof -
  from set_cases [OF assms, of "rehash_set (Suc d) env"] show ?thesis
  proof
    assume "\<exists>t' s. tab_set env (rehash_set (Suc d) env) t k = Done (t', s) \<and> slot_for env t k t' s"
    then show ?thesis by auto
  next
    assume "\<exists>k'. key_ok k' \<and> ckey k' = ckey k \<and> tab_set env (rehash_set (Suc d) env) t k = rehash_set (Suc d) env (t\<lparr>nomm := 0\<rparr>) k'"
    then obtain k' where k': "key_ok k'" "ckey k' = ckey k"
      "tab_set env (rehash_set (Suc d) env) t k = rehash_set (Suc d) env (t\<lparr>nomm := 0\<rparr>) k'" by blast
    have "slot_for env t k' = slot_for env t k" unfolding slot_for_def k'(2) ..
    with rehash_set_ok [of env "t\<lparr>nomm := 0\<rparr>" k' d] wf k' show ?thesis
      by (auto split: comp.splits)
  qed
qed

section \<open>Creation, clearing and copying\<close>

lemma fresh_wf:
  assumes "asize t \<le> length (array t)" and "asize t \<le> LJ_MAX_ASIZE"
    and "(hmask t = 0 \<and> nodes t = [nilnode] \<and> freetop t = 0) \<or>
      (\<exists>b. 0 < b \<and> b \<le> LJ_MAX_HBITS \<and> hmask t = 2 ^ b - 1 \<and> nodes t = replicate (2 ^ b) nilnode \<and> freetop t = 2 ^ b)"
    and nil: "\<And>i. i < asize t \<Longrightarrow> tvisnil (array t ! i)"
  shows "tab_wf env t" and "tab_abs t c = niltv"
proof -
  obtain n where n: "nodes t = replicate n nilnode" using assms(3) by (metis replicate_0 replicate_Suc)
  show "tab_wf env t"
    using assms(3)
  proof
    assume a: "hmask t = 0 \<and> nodes t = [nilnode] \<and> freetop t = 0"
    then have "no_hpart t = t" by (simp add: no_hpart_def)
    with no_hpart_wf [OF assms(1,2)] show ?thesis by metis
  next
    assume "\<exists>b. 0 < b \<and> b \<le> LJ_MAX_HBITS \<and> hmask t = 2 ^ b - 1 \<and> nodes t = replicate (2 ^ b) nilnode \<and> freetop t = 2 ^ b"
    then obtain b where b: "0 < b" "b \<le> LJ_MAX_HBITS" "hmask t = 2 ^ b - 1" "nodes t = replicate (2 ^ b) nilnode" "freetop t = 2 ^ b"
      by blast
    then have "t\<lparr>nodes := replicate (2 ^ b) nilnode, freetop := 2 ^ b, hmask := 2 ^ b - 1\<rparr> = t" by simp
    with empty_hpart_wf(1) [OF assms(1,2) b(2,1)] show ?thesis by metis
  qed
  show "tab_abs t c = niltv"
  proof (cases "aidx t (ckey c)")
    case None
    have "nodes_val (nodes t) (ckey c) = niltv" if k: "key_ok c"
    proof (rule nodes_val_none)
      fix i assume "i < length (nodes t)"
      then have "nkey (nodes t ! i) = niltv" unfolding n by (simp add: nilnode_def)
      moreover have "ckey c \<noteq> niltv" using k ckey_tests(3) [of c] by (auto simp: key_ok_def tvisnil_def niltv_def)
      ultimately show "nkey (nodes t ! i) \<noteq> ckey c" by metis
    qed
    with None show ?thesis by (simp add: tab_abs_def)
  next
    case (Some i)
    with nil [of i] aidx_less [OF Some] show ?thesis by (simp add: tab_abs_def tvisnil_def niltv_def)
  qed
qed

lemma clearhpart_nodes:
  "length (nodes t) = hmask t + 1 \<Longrightarrow> nodes (clearhpart t) = replicate (hmask t + 1) nilnode"
  unfolding clearhpart_def by (rule nth_equalityI) (auto simp del: upt_Suc replicate_Suc)

lemma clearapart_array: "i < asize t \<Longrightarrow> asize t \<le> length (array t) \<Longrightarrow> array (clearapart t) ! i = niltv"
  by (simp add: clearapart_def)

lemma clear_sizes [simp]: "hmask (clearapart t) = hmask t" "nodes (clearapart t) = nodes t" "freetop (clearapart t) = freetop t"
    "asize (clearapart t) = asize t" "length (array (clearapart t)) = length (array t)" "colo (clearapart t) = colo t"
    "hmask (clearhpart t) = hmask t" "asize (clearhpart t) = asize t" "array (clearhpart t) = array t" "freetop (clearhpart t) = freetop t"
  by (simp_all add: clearapart_def clearhpart_def)

lemma clear_all:
  assumes "asize t \<le> length (array t)" and "asize t \<le> LJ_MAX_ASIZE" and "length (nodes t) = hmask t + 1"
    and "(hmask t = 0 \<and> nodes t = [nilnode] \<and> freetop t = 0) \<or>
      (\<exists>b. 0 < b \<and> b \<le> LJ_MAX_HBITS \<and> hmask t = 2 ^ b - 1 \<and> freetop t = 2 ^ b)"
  defines "t' \<equiv> (let t = clearapart t in if 0 < hmask t then clearhpart t else t)"
  shows "tab_wf env t'" "tab_abs t' c = niltv" "asize t' = asize t" "hmask t' = hmask t"
proof -
  show "asize t' = asize t" "hmask t' = hmask t" by (simp_all add: t'_def Let_def)
  have arr: "asize t' \<le> length (array t')" "asize t' \<le> LJ_MAX_ASIZE" using assms(1,2) by (simp_all add: t'_def Let_def)
  have nil: "i < asize t' \<Longrightarrow> tvisnil (array t' ! i)" for i
    using assms(1) clearapart_array [of i t] by (cases "0 < hmask t") (simp_all add: t'_def Let_def tvisnil_def niltv_def)
  have hp: "(hmask t' = 0 \<and> nodes t' = [nilnode] \<and> freetop t' = 0) \<or>
      (\<exists>b. 0 < b \<and> b \<le> LJ_MAX_HBITS \<and> hmask t' = 2 ^ b - 1 \<and> nodes t' = replicate (2 ^ b) nilnode \<and> freetop t' = 2 ^ b)"
    using assms(4)
  proof
    assume "hmask t = 0 \<and> nodes t = [nilnode] \<and> freetop t = 0"
    then show ?thesis by (simp add: t'_def Let_def)
  next
    assume "\<exists>b. 0 < b \<and> b \<le> LJ_MAX_HBITS \<and> hmask t = 2 ^ b - 1 \<and> freetop t = 2 ^ b"
    then obtain b where b: "0 < b" "b \<le> LJ_MAX_HBITS" "hmask t = 2 ^ b - 1" "freetop t = 2 ^ b" by blast
    have "0 < hmask t" using b one_less_power [of "2::nat" b] by simp
    moreover have "hmask t + 1 = 2 ^ b" using b by simp
    ultimately show ?thesis using b assms(3) clearhpart_nodes [of "clearapart t"]
      by (intro disjI2 exI [of _ b]) (simp add: t'_def Let_def)
  qed
  show "tab_wf env t'" by (rule fresh_wf(1) [OF arr hp nil])
  show "tab_abs t' c = niltv" by (rule fresh_wf(2) [OF arr hp nil])
qed

lemma newtab_shape:
  assumes n: "newtab env as hbits = Done t"
  shows "asize t = as" "length (array t) = as" "as \<le> LJ_MAX_ASIZE" "length (nodes t) = hmask t + 1"
    "hmask t = 2 ^ hbits - 1" "nomm t = 0xff"
    "(hmask t = 0 \<and> nodes t = [nilnode] \<and> freetop t = 0) \<or>
      (\<exists>b. 0 < b \<and> b \<le> LJ_MAX_HBITS \<and> hmask t = 2 ^ b - 1 \<and> freetop t = 2 ^ b)"
proof -
  obtain t0 where t0: "asize t0 = as" "length (array t0) = as" "as \<le> LJ_MAX_ASIZE" "nomm t0 = 0xff"
    and h0: "hmask t0 = 0" "nodes t0 = [nilnode]" "freetop t0 = 0"
    and h: "(if hbits \<noteq> 0 then newhpart env t0 hbits else Done t0) = Done t"
  proof -
    from n obtain t0 where a: "(if hbits \<noteq> 0 then newhpart env t0 hbits else Done t0) = Done t"
      and b: "(if 0 < as \<and> as \<le> LJ_MAX_COLOSIZE then
          if \<not> mem_ok env (sizetabcolo as) then Raise LJ_ERR_ERRMEM
          else Done (no_hpart \<lparr>nomm = 0xff, colo = word_of_nat as, array = replicate as (junk_tv env),
                 asize = as, nodes = [], hmask = 0, freetop = 0, metatable = 0, black = False\<rparr>)
        else
          if \<not> mem_ok env sizeof_GCtab then Raise LJ_ERR_ERRMEM
          else let t = no_hpart \<lparr>nomm = 0xff, colo = 0, array = [], asize = 0, nodes = [], hmask = 0,
                         freetop = 0, metatable = 0, black = False\<rparr>
               in if 0 < as then
                    if as > LJ_MAX_ASIZE then Raise LJ_ERR_TABOV
                    else if \<not> mem_ok env (as * sizeof_TValue) then Raise LJ_ERR_ERRMEM
                    else Done (t\<lparr>array := replicate as (junk_tv env), asize := as\<rparr>)
                  else Done t) = Done t0"
      by (auto simp: newtab_def cbind_Done_iff simp del: One_nat_def)
    from b have "asize t0 = as" "length (array t0) = as" "as \<le> LJ_MAX_ASIZE" "nomm t0 = 0xff"
      "hmask t0 = 0" "nodes t0 = [nilnode]" "freetop t0 = 0"
      by (auto simp: no_hpart_def Let_def LJ_MAX_ASIZE_def LJ_MAX_COLOSIZE_def split: if_splits)
    with a show thesis by (intro that)
  qed
  have "t = (if hbits \<noteq> 0 then t0\<lparr>nodes := replicate (2 ^ hbits) (junk_node env), freetop := 2 ^ hbits, hmask := 2 ^ hbits - 1\<rparr> else t0)
     \<and> (hbits \<noteq> 0 \<longrightarrow> hbits \<le> LJ_MAX_HBITS)"
    using h by (auto simp: newhpart_def Let_def split: if_splits)
  with t0 h0 show "asize t = as" "length (array t) = as" "as \<le> LJ_MAX_ASIZE" "length (nodes t) = hmask t + 1"
    "hmask t = 2 ^ hbits - 1" "nomm t = 0xff"
    "(hmask t = 0 \<and> nodes t = [nilnode] \<and> freetop t = 0) \<or>
      (\<exists>b. 0 < b \<and> b \<le> LJ_MAX_HBITS \<and> hmask t = 2 ^ b - 1 \<and> freetop t = 2 ^ b)"
    by (auto split: if_splits)
qed

lemma tab_new_ok:
  assumes "lj_tab_new env as hbits = Done t"
  shows "tab_wf env t" "tab_abs t c = niltv" "asize t = as" "hmask t = 2 ^ hbits - 1"
proof -
  from assms obtain t0 where n: "newtab env as hbits = Done t0"
    and t: "t = (let t = clearapart t0 in if 0 < hmask t then clearhpart t else t)"
    by (auto simp: lj_tab_new_def cbind_Done_iff Let_def)
  note s = newtab_shape [OF n]
  have "asize t0 \<le> length (array t0)" "asize t0 \<le> LJ_MAX_ASIZE" using s by simp_all
  note c = clear_all [OF this s(4,7), folded t]
  show "tab_wf env t" "tab_abs t c = niltv" by (rule c(1), rule c(2))
  show "asize t = as" "hmask t = 2 ^ hbits - 1" using c(3,4) s by simp_all
qed

lemma tab_clear_ok:
  assumes wf: "tab_wf env t"
  shows "tab_wf env (lj_tab_clear t)" "tab_abs (lj_tab_clear t) c = niltv"
proof -
  note d = tab_wfD [OF wf]
  let ?t = "if 0 < hmask t then t\<lparr>freetop := hmask t + 1\<rparr> else t"
  have eq: "lj_tab_clear t = (let t = clearapart ?t in if 0 < hmask t then clearhpart t else t)"
    by (cases "0 < hmask t") (simp_all add: lj_tab_clear_def Let_def clearapart_def clearhpart_def)
  obtain b where b: "b \<le> LJ_MAX_HBITS" "hmask t + 1 = 2 ^ b" using d(2) by blast
  have hp: "(hmask ?t = 0 \<and> nodes ?t = [nilnode] \<and> freetop ?t = 0) \<or>
      (\<exists>b. 0 < b \<and> b \<le> LJ_MAX_HBITS \<and> hmask ?t = 2 ^ b - 1 \<and> freetop ?t = 2 ^ b)"
  proof (cases "hmask t = 0")
    case True
    with d(7) show ?thesis by simp
  next
    case False
    with b have "0 < b" "hmask t = 2 ^ b - 1" by (cases b; simp)+
    with b False show ?thesis by auto
  qed
  have "asize ?t \<le> length (array ?t)" "asize ?t \<le> LJ_MAX_ASIZE" "length (nodes ?t) = hmask ?t + 1"
    using d(1,3,4) by simp_all
  note c = clear_all [OF this hp, folded eq]
  show "tab_wf env (lj_tab_clear t)" "tab_abs (lj_tab_clear t) c = niltv" by (rule c(1), rule c(2))
qed

text \<open>Copies: the node vector keeps its links, the values are kept or replaced by nil.\<close>

lemma tab_dup_ok:
  assumes wf: "tab_wf env t" and r: "lj_tab_dup_helper env t cl = Done t'"
  shows "tab_wf env t'"
    and "tab_abs t' c = (case (if key_ok c then aidx t (ckey c) else None) of
        None \<Rightarrow> if \<not> cl \<and> tvistab (tab_abs t c) then niltv else tab_abs t c | Some i \<Rightarrow> tab_abs t c)"
proof -
  note d = tab_wfD [OF wf]
  let ?hb = "if 0 < hmask t then fls_nat (hmask t) + 1 else 0"
  from r obtain t0 where n: "newtab env (asize t) ?hb = Done t0"
    and t': "t' = (let t1 = t0\<lparr>nomm := 0\<rparr>;
           t1 = (if 0 < asize t then t1\<lparr>array := take (asize t) (array t) @ drop (asize t) (array t1)\<rparr> else t1)
       in if 0 < hmask t then t1\<lparr>freetop := freetop t, nodes := map (dup_node cl) (take (hmask t + 1) (nodes t))\<rparr> else t1)"
    by (auto simp: lj_tab_dup_helper_def cbind_Done_iff Let_def)
  note s = newtab_shape [OF n]
  obtain b where b: "b \<le> LJ_MAX_HBITS" "hmask t + 1 = 2 ^ b" using d(2) by blast
  have hm: "hmask t0 = hmask t"
  proof (cases "0 < hmask t")
    case True
    then obtain b' where b': "b = Suc b'" using b by (cases b) auto
    have "hmask t < 2 ^ Suc b'" using b b' by simp
    moreover have "2 ^ b' \<le> hmask t" using b b' True by simp
    ultimately have "fls_nat (hmask t) = b'" by (intro fls_nat_unique)
    with s(5) b b' True show ?thesis by simp
  next
    case False
    with s(5) show ?thesis by simp
  qed
  have arr: "asize t' = asize t" "array t' = take (asize t) (array t)"
    using s(1,2) d(3) by (auto simp: t' Let_def)
  have hm': "hmask t' = hmask t" using hm by (simp add: t' Let_def)
  have nil_dup: "map (dup_node cl) [nilnode] = [nilnode]" by (simp add: dup_node_def nilnode_def tvistab_def itype_def niltv_def tag_defs)
  have nds: "nodes t' = map (dup_node cl) (nodes t)" "freetop t' = freetop t"
  proof -
    have empty: "nodes t0 = [nilnode] \<and> freetop t0 = 0" if "hmask t = 0"
    proof -
      have "hmask t0 \<noteq> 2 ^ b - 1" if "0 < b" for b
        using \<open>hmask t = 0\<close> hm one_less_power [of "2::nat" b] that by simp
      then show ?thesis using s(7) by blast
    qed
    show "nodes t' = map (dup_node cl) (nodes t)" "freetop t' = freetop t"
      using d(1,7) empty nil_dup by (cases "hmask t = 0"; simp add: t' Let_def)+
  qed
  have ai: "aidx t' = aidx t" by (rule aidx_cong [OF arr(1)])
  have hk: "hashkey env t' = hashkey env t" by (rule hashkey_cong [OF hm'])
  have at: "i < length (nodes t) \<Longrightarrow> nkey (nodes t' ! i) = nkey (nodes t ! i) \<and> nnext (nodes t' ! i) = nnext (nodes t ! i)
      \<and> nval (nodes t' ! i) = (if \<not> cl \<and> tvistab (nval (nodes t ! i)) then niltv else nval (nodes t ! i))" for i
    by (simp add: nds dup_node_def)
  have kd: "i < length (nodes t) \<Longrightarrow> keyed (nodes t') i = keyed (nodes t) i" for i using at by (simp add: keyed_def)
  have "nodes_wf (hashkey env t) (nodes t')"
    by (rule nodes_wf_vals [OF d(5)]) (use at nodes_wfD(7) [OF d(5)] nds in \<open>auto simp: tvisnil_def niltv_def\<close>)
  moreover have "hmask t = 0 \<longrightarrow> nodes t' = [nilnode]" using nds d(7) nil_dup by simp
  ultimately show wf': "tab_wf env t'"
    unfolding tab_wf_def hk ai hm' using d(1,2,3,4,6,7,8,9) arr nds kd at by auto
  have nv: "nodes_val (nodes t') k = (if \<not> cl \<and> tvistab (nodes_val (nodes t) k) then niltv else nodes_val (nodes t) k)"
    if k: "\<not> tvisnil k" for k
  proof (cases "\<exists>i<length (nodes t). nkey (nodes t ! i) = k")
    case True
    then obtain i where i: "i < length (nodes t)" "nkey (nodes t ! i) = k" by blast
    then have i': "i < length (nodes t')" "nkey (nodes t' ! i) = k" using at nds by simp_all
    show ?thesis using nodes_val_key [OF wf i k] nodes_val_key [OF wf' i' k] at [OF i(1)] by simp
  next
    case False
    then have "nodes_val (nodes t) k = niltv" "nodes_val (nodes t') k = niltv"
      using at nds by (auto intro!: nodes_val_none)
    then show ?thesis by simp
  qed
  show "tab_abs t' c = (case (if key_ok c then aidx t (ckey c) else None) of
        None \<Rightarrow> if \<not> cl \<and> tvistab (tab_abs t c) then niltv else tab_abs t c | Some i \<Rightarrow> tab_abs t c)"
    using nv [of "ckey c"] arr(2) aidx_less [of t "ckey c"] by (auto simp: tab_abs_def ai key_ok_def split: option.split)
qed

end
