(* ===== verification/TabLaws.thy ===== *)
theory TabLaws
  imports TabMain
begin

text \<open>
  What the tables of \<^verbatim>\<open>src/src/lj_tab.c\<close> promise to their users: the interface is the locale
  \<open>lua_map\<close> (a store that reads back), its interpretation is the table itself, and the statements
  about runs of stores, length and traversal are over the interface or the entry list.
\<close>

section \<open>The interface\<close>

text \<open>\<^verbatim>\<open>copyTV(L, lj_tab_set(L, t, key), v)\<close>, the body of \<^verbatim>\<open>lua_rawset\<close>.\<close>

definition tab_store :: "tabenv \<Rightarrow> gctab \<Rightarrow> tvalue \<Rightarrow> tvalue \<Rightarrow> gctab comp" where
  "tab_store env t k v = cbind (lj_tab_set env t k) (\<lambda>(t, s). Done (store_slot t s v))"

locale lua_map =
  fixes inv :: "'t \<Rightarrow> bool"
    and lookup :: "'t \<Rightarrow> 'k \<Rightarrow> 'v comp"
    and store :: "'t \<Rightarrow> 'k \<Rightarrow> 'v \<Rightarrow> 't comp"
    and proper :: "'k \<Rightarrow> bool"
    and same :: "'k \<Rightarrow> 'k \<Rightarrow> bool"
  assumes store_inv: "inv t \<Longrightarrow> proper k \<Longrightarrow> store t k v = Done t' \<Longrightarrow> inv t'"
    and store_lookup: "inv t \<Longrightarrow> proper k \<Longrightarrow> store t k v = Done t' \<Longrightarrow> proper c \<Longrightarrow>
        lookup t' c = (if same c k then Done v else lookup t c)"
    and store_ends: "inv t \<Longrightarrow> proper k \<Longrightarrow> store t k v \<noteq> Stuck"
begin

primrec store_all :: "'t \<Rightarrow> ('k \<times> 'v) list \<Rightarrow> 't comp" where
  "store_all t [] = Done t"
| "store_all t (kv # kvs) = cbind (store t (fst kv) (snd kv)) (\<lambda>t. store_all t kvs)"

lemma store_all_ok:
  assumes "inv t" and "\<forall>kv\<in>set kvs. proper (fst kv)" and "store_all t kvs = Done t'"
  shows "inv t'" and "proper c \<Longrightarrow> lookup t' c =
      (case find (\<lambda>kv. same c (fst kv)) (rev kvs) of Some kv \<Rightarrow> Done (snd kv) | None \<Rightarrow> lookup t c)"
proof -
  have "inv t' \<and> (proper c \<longrightarrow> lookup t' c =
      (case find (\<lambda>kv. same c (fst kv)) (rev kvs) of Some kv \<Rightarrow> Done (snd kv) | None \<Rightarrow> lookup t c))"
    using assms
  proof (induction kvs arbitrary: t)
    case (Cons kv kvs)
    then obtain t1 where t1: "store t (fst kv) (snd kv) = Done t1" "store_all t1 kvs = Done t'"
      by (auto simp: cbind_Done_iff)
    have p: "proper (fst kv)" using Cons.prems by simp
    have "find P (xs @ [y]) = (case find P xs of Some x \<Rightarrow> Some x | None \<Rightarrow> if P y then Some y else None)" for P xs and y :: "'k \<times> 'v"
      by (induction xs) auto
    with Cons.IH [OF store_inv [OF Cons.prems(1) p t1(1)] _ t1(2)] Cons.prems(2)
      store_lookup [OF Cons.prems(1) p t1(1)] show ?case by (auto split: option.splits)
  qed simp
  then show "inv t'" and "proper c \<Longrightarrow> lookup t' c =
      (case find (\<lambda>kv. same c (fst kv)) (rev kvs) of Some kv \<Rightarrow> Done (snd kv) | None \<Rightarrow> lookup t c)" by simp_all
qed

lemma store_all_ends: "inv t \<Longrightarrow> \<forall>kv\<in>set kvs. proper (fst kv) \<Longrightarrow> store_all t kvs \<noteq> Stuck"
proof (induction kvs arbitrary: t)
  case (Cons kv kvs)
  then show ?case using store_ends store_inv by (cases "store t (fst kv) (snd kv)") auto
qed simp

end

lemma lj_tab_set_ok:
  assumes "tab_wf env t" and "key_ok k"
  shows "case lj_tab_set env t k of Done (t', s) \<Rightarrow> slot_for env t k t' s
     | Raise e \<Rightarrow> e = LJ_ERR_TABOV \<or> e = LJ_ERR_ERRMEM | Stuck \<Rightarrow> False"
  using set_ok [OF assms, of 1] by (simp add: lj_tab_set_def rehash_depth_def eval_nat_numeral)

lemma tab_store_Done:
  assumes "tab_wf env t" and "key_ok k" and "tab_store env t k v = Done t'"
  shows "tab_wf env t'" and "tab_abs t' c = (if key_ok c \<and> ckey c = ckey k then v else tab_abs t c)"
proof -
  from assms(3) obtain t1 s where r: "lj_tab_set env t k = Done (t1, s)" "t' = store_slot t1 s v"
    by (auto simp: tab_store_def cbind_Done_iff)
  with lj_tab_set_ok [OF assms(1,2)] have "slot_for env t k t1 s" by simp
  from store_slot_ok [OF this assms(2)] r(2) show "tab_wf env t'"
    and "tab_abs t' c = (if key_ok c \<and> ckey c = ckey k then v else tab_abs t c)" by simp_all
qed

lemma tab_store_not_stuck: "tab_wf env t \<Longrightarrow> key_ok k \<Longrightarrow> tab_store env t k v \<noteq> Stuck"
  using lj_tab_set_ok [of env t k] by (cases "lj_tab_set env t k") (auto simp: tab_store_def)

lemma tab_get_ok: "tab_wf env t \<Longrightarrow> key_ok k \<Longrightarrow> lj_tab_get env t k = Done (tab_abs t k)"
  by (rule get_abs)

interpretation tm: lua_map "tab_wf env" "lj_tab_get env" "tab_store env" key_ok lj_obj_equal for env
  by unfold_locales (auto simp: get_abs tab_store_Done tab_store_not_stuck equal_iff_ckey)

section \<open>Runs of stores\<close>

text \<open>A new table and a list of stores into it, as \<^verbatim>\<open>lua_createtable\<close> and \<^verbatim>\<open>lua_rawset\<close> do.\<close>

primrec tab_stores :: "tabenv \<Rightarrow> gctab \<Rightarrow> (tvalue \<times> tvalue) list \<Rightarrow> gctab comp" where
  "tab_stores env t [] = Done t"
| "tab_stores env t (kv # kvs) = cbind (tab_store env t (fst kv) (snd kv)) (\<lambda>t. tab_stores env t kvs)"

lemma tab_stores_eq: "tab_stores env t kvs = tm.store_all env t kvs"
proof (induction kvs arbitrary: t)
  case (Cons kv kvs)
  then show ?case by (cases "tab_store env t (fst kv) (snd kv)") simp_all
qed simp

section \<open>A small table\<close>

text \<open>One array slot and one hash node in use; the inputs of the witnesses.\<close>

definition env0 :: tabenv where
  "env0 = \<lparr>sid = (\<lambda>p. ucast p), mem_ok = (\<lambda>n. True), junk_node = nilnode, junk_tv = 0\<rparr>"

abbreviation (input) one_tv :: tvalue where "one_tv \<equiv> 0x3FF0000000000000"
abbreviation (input) str_tv :: tvalue where "str_tv \<equiv> 0xFFFD800000000040"

definition ex_tab :: "u8 \<Rightarrow> tvalue \<Rightarrow> tvalue \<Rightarrow> tvalue \<Rightarrow> gctab" where
  "ex_tab mm v k kv = \<lparr>nomm = mm, colo = 3, array = [niltv, v, niltv], asize = 3,
     nodes = [\<lparr>nval = kv, nkey = k, nnext = None\<rparr>, nilnode], hmask = 1, freetop = 2,
     metatable = 0, black = False\<rparr>"

definition is_done :: "'a comp \<Rightarrow> bool" where
  "is_done c = (case c of Done _ \<Rightarrow> True | _ \<Rightarrow> False)"

lemma is_done_iff: "is_done c \<longleftrightarrow> (\<exists>x. c = Done x)"
  by (cases c) (simp_all add: is_done_def)

lemma itype_eval: "itype v = word_of_int (drop_bit 47 (sint v))"
  by (rule bit_word_eqI) (auto simp: itype_def bit_simps)

lemmas tv_eval = itype_eval tvisnum_def tvisstr_def tvisbool_def tvisfalse_def tvistrue_def tvisnil_def
  tvispri_def tvisnumber_def tvistab_def tag_defs

lemma num_of_int_1: "num_of_int 1 = one_tv"
  by (simp add: num_of_int_def num_of_nat_def fls_nat.simps [of "Suc 0"])

lemma one_num2int: "lj_num2int_check one_tv = Some 1"
  using num2int_of_int [of 1] by (simp add: num_of_int_1)

lemma one_tv_eval: "itype one_tv = 0x7fe0" "tvisnum one_tv" "\<not> tvisstr one_tv" "\<not> tvisnil one_tv"
    "key_ok one_tv" "lj_obj_equal one_tv one_tv"
  by (simp_all add: tv_eval num_isnan_def dexp_def dmant_def key_ok_def lj_obj_equal_def num_eq_def)

lemma str_tv_eval: "itype str_tv = LJ_TSTR" "\<not> tvisnum str_tv" "tvisstr str_tv" "\<not> tvisnil str_tv"
    "key_ok str_tv" "\<not> lj_obj_equal one_tv str_tv" "gcval str_tv = 0x40"
  by (simp_all add: tv_eval num_isnan_def dexp_def dmant_def key_ok_def lj_obj_equal_def num_eq_def
      gcval_def LJ_GCVMASK_def)

lemma ex_new: "lj_tab_new env0 3 1 = Done (ex_tab 0xff niltv niltv niltv)"
  by (simp add: lj_tab_new_def newtab_def LJ_MAX_COLOSIZE_def env0_def newhpart_def LJ_MAX_HBITS_def
      no_hpart_def numeral_eq_Suc clearapart_def clearhpart_def ex_tab_def nilnode_def)

lemma ex_store_int: "tab_store env0 (ex_tab mm v k kv) one_tv w = Done (ex_tab 0 w k kv)"
  by (simp add: tab_store_def lj_tab_set_def tab_set_def Let_def one_tv_eval one_num2int lj_tab_setint_def
      inarray_def ex_tab_def)

lemma ex_store_str: "tab_store env0 (ex_tab mm v niltv niltv) str_tv w = Done (ex_tab 0 v str_tv w)"
proof -
  let ?t = "ex_tab 0 v niltv niltv"
  have h1: "hashmask ?t 0x40 = 0" and h2: "sid env0 0x40 = 0x40"
    by (simp_all add: hashmask_def env0_def ex_tab_def)
  have h3: "find_node ?t (\<lambda>x. tvisstr x \<and> gcval x = 0x40) 0 = Done None"
    by (simp add: find_node_def ex_tab_def)
  have h4: "setgcVraw 0x40 LJ_TSTR = str_tv" by (simp add: setgcVraw_def LJ_TSTR_def)
  have h5: "hashkey env0 ?t str_tv = 0" by (simp add: hashkey_def keyhash_def str_tv_eval h1 h2)
  have h6: "lj_tab_newkey env0 rh ?t str_tv = Done (ex_tab 0 v str_tv niltv, NSlot 0)" for rh
    unfolding lj_tab_newkey_def h5 by (simp add: place_key_def upd_node_def tvismzero_def ex_tab_def nilnode_def)
  have t: "ex_tab mm v niltv niltv\<lparr>nomm := 0\<rparr> = ?t" by (simp add: ex_tab_def)
  have "lj_tab_set env0 (ex_tab mm v niltv niltv) str_tv = Done (ex_tab 0 v str_tv niltv, NSlot 0)"
    unfolding lj_tab_set_def tab_set_def Let_def t
    by (simp add: str_tv_eval lj_tab_setstr_def h1 h2 h3 h4 h6)
  then show ?thesis by (simp add: tab_store_def ex_tab_def upd_node_def)
qed

lemma ex_run: "tab_stores env0 (ex_tab 0xff niltv niltv niltv) [(one_tv, 7), (str_tv, 8), (one_tv, 9)] = Done (ex_tab 0 9 str_tv 8)"
  by (simp add: ex_store_int ex_store_str)

lemma ex_wf: "tab_wf env0 (ex_tab 0 9 str_tv 8)"
  by (rule tm.store_all_ok(1) [OF tab_new_ok(1) [OF ex_new] _ ex_run [unfolded tab_stores_eq]])
    (simp add: one_tv_eval str_tv_eval)

section \<open>Reading back\<close>

text \<open>C6. After any run of stores with proper keys into a new table of any size, a lookup gives the
  value of the last store with an equal key, and nil when there was none: the hash part, the array
  part, the collision chains and every rehash in between do not show.\<close>

theorem tab_run_reads_back:
  assumes "lj_tab_new env na hbits = Done t" and "\<forall>kv\<in>set kvs. key_ok (fst kv)"
    and "tab_stores env t kvs = Done t'" and "key_ok c"
  shows "lj_tab_get env t' c =
    Done (case find (\<lambda>kv. lj_obj_equal c (fst kv)) (rev kvs) of Some kv \<Rightarrow> snd kv | None \<Rightarrow> niltv)"
proof -
  note n = tab_new_ok [OF assms(1)]
  show ?thesis
    using tm.store_all_ok(2) [OF n(1) assms(2) assms(3) [unfolded tab_stores_eq] assms(4)]
      get_abs [OF n(1) assms(4)] n(2) by (auto split: option.splits)
qed

lemma tab_run_reads_back_witness:
  "lj_tab_get env0 (ex_tab 0 9 str_tv 8) one_tv = Done 9"
  using tab_run_reads_back [OF ex_new _ ex_run one_tv_eval(5)]
  by (simp add: one_tv_eval str_tv_eval)

text \<open>C7. Storing into a well-formed table ends: with a proper key it returns or raises the overflow or the
  memory error, whatever the allocator grants, and the table that returns is again well-formed.\<close>

theorem tab_store_total:
  assumes "tab_wf env t" and "key_ok k"
  shows "(\<exists>t'. tab_store env t k v = Done t' \<and> tab_wf env t') \<or>
    tab_store env t k v = Raise LJ_ERR_TABOV \<or> tab_store env t k v = Raise LJ_ERR_ERRMEM"
proof (cases "lj_tab_set env t k")
  case (Done x)
  obtain t1 s where x: "x = (t1, s)" by (cases x)
  then have r: "tab_store env t k v = Done (store_slot t1 s v)" using Done by (simp add: tab_store_def)
  with tab_store_Done(1) [OF assms r] show ?thesis by blast
qed (use lj_tab_set_ok [OF assms] in \<open>auto simp: tab_store_def\<close>)

lemma tab_store_total_witness:
  "\<exists>t'. tab_store env0 (ex_tab 0 9 str_tv 8) one_tv 1 = Done t' \<and> tab_wf env0 t'"
  using tab_store_total [OF ex_wf one_tv_eval(5), of 1] by (auto simp: ex_store_int)

text \<open>C8. The keys a Lua table cannot hold are errors of the setter and absent for the getter:
  nil raises the nil index error, NaN the NaN index error, and both read as nil.\<close>

theorem tab_improper_keys:
  assumes "tab_wf env t"
  shows "lj_tab_set env t niltv = Raise LJ_ERR_NILIDX \<and> lj_tab_get env t niltv = Done niltv \<and>
    (tvisnum k \<and> num_isnan k \<longrightarrow> lj_tab_set env t k = Raise LJ_ERR_NANIDX \<and> lj_tab_get env t k = Done niltv)"
proof (intro conjI impI)
  show "lj_tab_set env t niltv = Raise LJ_ERR_NILIDX" by (simp add: lj_tab_set_def tab_set_def Let_def)
  show "lj_tab_get env t niltv = Done niltv" by (simp add: lj_tab_get_def Let_def)
  assume k: "tvisnum k \<and> num_isnan k"
  have "lj_num2int_check k = None"
    using k num2int_Some [of k] by (cases "lj_num2int_check k") (auto simp: num_eq_def)
  with k num_not_pri [of k] show "lj_tab_set env t k = Raise LJ_ERR_NANIDX"
    by (simp add: lj_tab_set_def tab_set_def Let_def tvisnan_iff)
  show "lj_tab_get env t k = Done niltv" using get_improper [OF assms] k by simp
qed

lemma tab_improper_keys_witness:
  "lj_tab_set env0 (ex_tab 0 9 str_tv 8) niltv = Raise LJ_ERR_NILIDX \<and>
   lj_tab_set env0 (ex_tab 0 9 str_tv 8) 0x7FF8000000000000 = Raise LJ_ERR_NANIDX"
  using tab_improper_keys [OF ex_wf, of "0x7FF8000000000000"] by (simp add: tv_eval num_isnan_def dexp_def dmant_def)

end
