(* ===== verification/TabWalk.thy ===== *)
theory TabWalk
  imports TabLaws
begin

text \<open>
  Reading whole tables: the length operator finds a border and always ends, the traversal visits each
  entry once, and the counting functions agree with the abstract map.
\<close>

section \<open>The length operator\<close>

text \<open>\<open>int_val t n\<close> is \<^verbatim>\<open>t[n]\<close>.\<close>

definition int_val :: "gctab \<Rightarrow> nat \<Rightarrow> tvalue" where
  "int_val t n = tab_abs t (num_of_int (int n))"

definition border :: "gctab \<Rightarrow> nat \<Rightarrow> bool" where
  "border t n \<longleftrightarrow> (n = 0 \<or> \<not> tvisnil (int_val t n)) \<and> tvisnil (int_val t (n + 1))"

lemma sint_small: "n < 2 ^ 31 \<Longrightarrow> sint (word_of_nat n :: u32) = int n"
  by (simp add: sint_uint unsigned_of_nat take_bit_nat_eq_self signed_take_bit_int_eq_self uint_nat flip: of_nat_take_bit)

lemma unat_small: "n < 2 ^ 31 \<Longrightarrow> unat (word_of_nat n :: u32) = n"
  by (simp add: unsigned_of_nat take_bit_nat_eq_self)

lemma small_key:
  assumes "n < 2 ^ 31"
  shows "key_ok (num_of_int (int n))" "ckey (num_of_int (int n)) = num_of_int (int n)"
    "tvisnum (num_of_int (int n))" "lj_num2int_check (num_of_int (int n)) = Some (word_of_nat n)"
  using num_of_int_key [of "word_of_nat n"] num2int_of_int [of "word_of_nat n"] sint_small [OF assms] by simp_all

lemma aidx_small: "n < 2 ^ 31 \<Longrightarrow> aidx t (num_of_int (int n)) = (if n < asize t then Some n else None)"
  by (simp add: aidx_def small_key unat_small)

lemma int_val_eq: "n < 2 ^ 31 \<Longrightarrow> int_val t n =
    (if n < asize t then array t ! n else nodes_val (nodes t) (num_of_int (int n)))"
  by (simp add: int_val_def tab_abs_def small_key aidx_small)

lemma has_int_ok:
  assumes wf: "tab_wf env t" and n: "n < 2 ^ 31"
  shows "has_int env t n = Done (\<not> tvisnil (int_val t n))"
proof -
  have o: "or_nil (lj_tab_getint env t (word_of_nat n)) = Done (int_val t n)"
    using n getinth_val [OF wf, of "word_of_nat n"]
    by (simp add: lj_tab_getint_def inarray_def unat_small sint_small int_val_eq or_nil_def)
  then show ?thesis
    by (cases "lj_tab_getint env t (word_of_nat n)") (auto simp: has_int_def or_nil_def split: option.splits)
qed

lemma bin_search_ok:
  assumes "lo < hi" and "\<And>k. k \<le> hi \<Longrightarrow> p k = Done (q k)" and "lo = 0 \<or> q lo" and "\<not> q hi"
  shows "\<exists>n. bin_search p lo hi = Done n \<and> n < hi \<and> (n = 0 \<or> q n) \<and> \<not> q (n + 1)"
  using assms
proof (induction p lo hi rule: bin_search.induct)
  case (1 p lo hi)
  show ?case
  proof (cases "hi - lo > 1")
    case False
    then have "hi = lo + 1" using "1.prems"(1) by simp
    with "1.prems" show ?thesis by (simp add: bin_search.simps)
  next
    case True
    let ?m = "(lo + hi) div 2"
    have m: "lo < ?m" "?m < hi" using True by simp_all
    have p: "p ?m = Done (q ?m)" using "1.prems"(2) m by simp
    show ?thesis
    proof (cases "q ?m")
      case qm: True
      from "1.IH"(1) [OF True qm m(2) "1.prems"(2)] qm "1.prems" p True
      show ?thesis by (subst bin_search.simps) auto
    next
      case qm: False
      from "1.IH"(2) [OF True qm m(1) "1.prems"(2)] qm "1.prems" p True m
      show ?thesis by (subst bin_search.simps) (auto intro: less_trans)
    qed
  qed
qed

text \<open>A table has too few slots for all integers: the searches run into a nil.\<close>

lemma some_nil:
  assumes wf: "tab_wf env t"
  shows "\<exists>n. 0 < n \<and> n < 2 ^ 28 \<and> tvisnil (int_val t n)"
proof (rule ccontr)
  assume no: "\<not> ?thesis"
  let ?M = "asize t + length (nodes t) + 1"
  note d = tab_wfD [OF wf]
  obtain b where b: "b \<le> LJ_MAX_HBITS" "hmask t + 1 = 2 ^ b" using d(2) by blast
  have "length (nodes t) \<le> 2 ^ 26" using b d(1) power_increasing [of b 26 "2::nat"] by (simp add: LJ_MAX_HBITS_def)
  then have M: "?M < 2 ^ 28" using d(4) by (simp add: LJ_MAX_ASIZE_def)
  have ex: "\<exists>i<length (nodes t). nkey (nodes t ! i) = num_of_int (int n)" if n: "asize t < n" "n \<le> ?M" for n
  proof (rule ccontr)
    assume "\<not> ?thesis"
    then have "nodes_val (nodes t) (num_of_int (int n)) = niltv" by (intro nodes_val_none) auto
    moreover have "0 < n" "n < 2 ^ 28" using n M by simp_all
    ultimately show False using no n int_val_eq [of n t] by (auto simp: tvisnil_def niltv_def)
  qed
  define f where "f n = (SOME i. i < length (nodes t) \<and> nkey (nodes t ! i) = num_of_int (int n))" for n
  have f: "f n < length (nodes t) \<and> nkey (nodes t ! f n) = num_of_int (int n)" if "n \<in> {asize t + 1..?M}" for n
    unfolding f_def by (rule someI_ex) (use ex [of n] that in auto)
  have "inj_on f {asize t + 1..?M}"
  proof (rule inj_onI)
    fix x y assume xy: "x \<in> {asize t + 1..?M}" "y \<in> {asize t + 1..?M}" "f x = f y"
    then have "num_of_int (int x) = num_of_int (int y)" using f by metis
    moreover have "\<bar>int x\<bar> < 2 ^ 53" "\<bar>int y\<bar> < 2 ^ 53" using xy M by simp_all
    ultimately have "int x = int y" by (intro num_of_int_inj)
    then show "x = y" by simp
  qed
  moreover have "f ` {asize t + 1..?M} \<subseteq> {..<length (nodes t)}" using f by blast
  ultimately have "card {asize t + 1..?M} \<le> card {..<length (nodes t)}" by (intro card_inj_on_le) simp_all
  then show False by simp
qed

declare linear_search.simps [code]

lemma linear_search_ok:
  assumes "\<And>k. k \<le> N \<Longrightarrow> p k = Done (q k)" and "\<not> q N" and "0 < lo" "lo \<le> N" and "lo = 1 \<or> q (lo - 1)"
  shows "\<exists>n. linear_search p lo = Some (Done n) \<and> (n = 0 \<or> q n) \<and> \<not> q (n + 1)"
  using assms
proof (induction "N - lo" arbitrary: lo)
  case 0
  then have "lo = N" by simp
  with "0.prems" show ?case by (subst linear_search.simps) auto
next
  case (Suc d)
  show ?case
  proof (cases "q lo")
    case True
    then have "lo < N" using Suc.prems by (metis le_neq_implies_less)
    with Suc.hyps(1) [of "lo + 1"] Suc.hyps(2) Suc.prems True show ?thesis
      by (subst linear_search.simps) simp
  next
    case False
    with Suc.prems show ?thesis by (subst linear_search.simps) auto
  qed
qed

lemma widen_search_ok:
  assumes "\<And>k. k < 2 ^ 31 \<Longrightarrow> p k = Done (q k)" and "0 < N" "N < 2 ^ 31" "\<not> q N"
    and "lo < hi" "hi < 2 ^ 31" "lo = 0 \<or> q lo"
  shows "\<exists>n. widen_search p lo hi = Some (Done n) \<and> (n = 0 \<or> q n) \<and> \<not> q (n + 1)"
  using assms
proof (induction p lo hi rule: widen_search.induct)
  case (1 p lo hi)
  have p: "p hi = Done (q hi)" using "1.prems" by simp
  show ?case
  proof (cases "q hi")
    case False
    have "p k = Done (q k)" if "k \<le> hi" for k using "1.prems"(1,6) that by simp
    from bin_search_ok [OF "1.prems"(5) this "1.prems"(7) False] p False show ?thesis
      by (subst widen_search.simps) auto
  next
    case True
    show ?thesis
    proof (cases "2 * hi > 0x7fffffff - 2")
      case big: True
      have "p k = Done (q k)" if "k \<le> N" for k using "1.prems"(1,3) that by simp
      from linear_search_ok [of N p q 1, OF this "1.prems"(4)] "1.prems"(2) p True big show ?thesis
        by (subst widen_search.simps) auto
    next
      case small: False
      have "\<exists>n. widen_search p hi (2 * hi) = Some (Done n) \<and> (n = 0 \<or> q n) \<and> \<not> q (n + 1)"
        by (rule "1.IH" [OF p True small]) (use "1.prems" True small in auto)
      with p True small "1.prems"(5) show ?thesis by (subst widen_search.simps) auto
    qed
  qed
qed

text \<open>C9. The length operator returns, on every well-formed table, and what it returns is a border: zero or
  an index with a value, whose successor has none. The binary search, the widening search with its
  overflow guard and the linear fallback all end.\<close>

theorem tab_len_border:
  assumes wf: "tab_wf env t"
  shows "\<exists>n. lj_tab_len env t = Some (Done n) \<and> border t n"
proof -
  let ?hi = "if asize t \<noteq> 0 then asize t - 1 else 0"
  note d = tab_wfD [OF wf]
  have hi: "?hi < 2 ^ 27 + 1" using d(4) by (auto simp: LJ_MAX_ASIZE_def)
  consider (arr) "0 < ?hi" "tvisnil (array t ! ?hi)" | (slow) "?hi = 0 \<or> \<not> tvisnil (array t ! ?hi)" "hmask t \<noteq> 0"
    | (full) "?hi = 0 \<or> \<not> tvisnil (array t ! ?hi)" "hmask t = 0" by blast
  then show ?thesis
  proof cases
    case arr
    have "\<exists>n. bin_search (has_slot t) 0 ?hi = Done n \<and> n < ?hi \<and> (n = 0 \<or> \<not> tvisnil (array t ! n)) \<and> \<not> \<not> tvisnil (array t ! (n + 1))"
      by (rule bin_search_ok) (use arr in \<open>auto simp: has_slot_def\<close>)
    then obtain n where n: "bin_search (has_slot t) 0 ?hi = Done n" "n < ?hi" "n = 0 \<or> \<not> tvisnil (array t ! n)"
      "tvisnil (array t ! (n + 1))" by blast
    have "n < asize t" "n + 1 < asize t" "n + 1 < 2 ^ 31" using n(2) hi by (auto split: if_splits)
    then have "border t n" using n(3,4) by (simp add: border_def int_val_eq)
    with n(1) arr show ?thesis by (auto simp: lj_tab_len_def Let_def)
  next
    case slow
    obtain N where N: "0 < N" "N < 2 ^ 28" "tvisnil (int_val t N)" using some_nil [OF wf] by blast
    have lo: "?hi = 0 \<or> \<not> tvisnil (int_val t ?hi)" using slow hi by (auto simp: int_val_eq split: if_splits)
    have "\<exists>n. widen_search (has_int env t) ?hi (?hi + 1) = Some (Done n) \<and> (n = 0 \<or> \<not> tvisnil (int_val t n)) \<and> \<not> \<not> tvisnil (int_val t (n + 1))"
      by (rule widen_search_ok [where N = N]) (use N lo hi has_int_ok [OF wf] in auto)
    with slow show ?thesis by (auto simp: lj_tab_len_def tab_len_slow_def border_def Let_def)
  next
    case full
    have "nodes t = [nilnode]" using d(7) full by simp
    then have "nodes_val (nodes t) k = niltv" for k by (auto simp: nodes_val_def nilnode_def)
    then have "border t ?hi" using full hi by (auto simp: border_def int_val_eq tvisnil_def niltv_def)
    with full show ?thesis by (auto simp: lj_tab_len_def Let_def)
  qed
qed

lemma tab_len_border_witness: "\<exists>n. lj_tab_len env0 (ex_tab 0 9 str_tv 8) = Some (Done n) \<and> border (ex_tab 0 9 str_tv 8) n"
  using tab_len_border [OF ex_wf] .

section \<open>Traversal\<close>

definition slots :: "gctab \<Rightarrow> (tvalue \<times> tvalue) list" where
  "slots t = map (\<lambda>i. (num_of_int (int i), array t ! i)) [0..<asize t] @ map (\<lambda>n. (nkey n, nval n)) (nodes t)"

definition entries :: "gctab \<Rightarrow> (tvalue \<times> tvalue) list" where
  "entries t = filter (\<lambda>kv. \<not> tvisnil (snd kv)) (slots t)"

definition next_of :: "(tvalue \<times> tvalue) list \<Rightarrow> next_result" where
  "next_of kvs = (case find (\<lambda>kv. \<not> tvisnil (snd kv)) kvs of Some kv \<Rightarrow> NextPair (fst kv) (snd kv) | None \<Rightarrow> NextEnd)"

text \<open>The loop \<^verbatim>\<open>for k, v in next, t\<close> from the key \<open>k\<close>.\<close>

primrec tab_walk :: "nat \<Rightarrow> tabenv \<Rightarrow> gctab \<Rightarrow> tvalue \<Rightarrow> (tvalue \<times> tvalue) list comp" where
  "tab_walk 0 env t k = Stuck"
| "tab_walk (Suc f) env t k =
     cbind (lj_tab_next env t k) (\<lambda>r. case r of
       NextPair k v \<Rightarrow> cbind (tab_walk f env t k) (\<lambda>kvs. Done ((k, v) # kvs))
     | NextEnd \<Rightarrow> Done []
     | NextInvalid \<Rightarrow> Raise LJ_ERR_NEXTIDX)"

lemma distinct_map_filterI:
  "(\<And>i j. i < length xs \<Longrightarrow> j < length xs \<Longrightarrow> P (xs ! i) \<Longrightarrow> P (xs ! j) \<Longrightarrow> f (xs ! i) = f (xs ! j) \<Longrightarrow> i = j) \<Longrightarrow>
    distinct (map f (filter P xs))"
proof (induction xs)
  case (Cons x xs)
  have "distinct (map f (filter P xs))"
  proof (rule Cons.IH)
    fix i j assume "i < length xs" "j < length xs" "P (xs ! i)" "P (xs ! j)" "f (xs ! i) = f (xs ! j)"
    with Cons.prems [of "Suc i" "Suc j"] show "i = j" by simp
  qed
  moreover have "f x \<noteq> f y" if "P x" "P y" "y \<in> set xs" for y
  proof
    assume e: "f x = f y"
    from that obtain j where "j < length xs" "xs ! j = y" by (auto simp: in_set_conv_nth)
    with Cons.prems [of 0 "Suc j"] that e show False by simp
  qed
  ultimately show ?case by auto
qed simp

lemma length_slots: "length (slots t) = asize t + length (nodes t)"
  by (simp add: slots_def)

lemma find_append: "find P (xs @ ys) = (case find P xs of Some x \<Rightarrow> Some x | None \<Rightarrow> find P ys)"
  by (induction xs) auto

lemma find_map: "find P (map f xs) = map_option f (find (P \<circ> f) xs)"
  by (induction xs) auto

lemma map_nth_drop: "map (\<lambda>i. f (xs ! i)) [j..<length xs] = map f (drop j xs)"
  by (rule nth_equalityI) (auto simp: nth_append)

text \<open>From index \<open>j\<close> on, the next live slot.\<close>

lemma next_from:
  assumes wf: "tab_wf env t" and idx: "lj_tab_keyindex env t k = Done (word_of_nat j)" "j \<le> asize t + length (nodes t)"
  shows "lj_tab_next env t k = Done (next_of (drop j (slots t)))"
proof -
  let ?P = "\<lambda>i. \<not> tvisnil (array t ! i)" and ?Q = "\<lambda>i. \<not> tvisnil (nval (nodes t ! i))"
  note d = tab_wfD [OF wf]
  obtain b where b: "b \<le> LJ_MAX_HBITS" "hmask t + 1 = 2 ^ b" using d(2) by blast
  have ln: "length (nodes t) \<le> 2 ^ 26" using b d(1) power_increasing [of b 26 "2::nat"] by (simp add: LJ_MAX_HBITS_def)
  have j: "j < 2 ^ 31" using idx(2) ln d(4) by (simp add: LJ_MAX_ASIZE_def)
  note uj = unat_small [OF j]
  have as: "asize t < 2 ^ 31" using d(4) by (simp add: LJ_MAX_ASIZE_def)
  have hm: "hmask t + 1 = length (nodes t)" using d(1) by simp
  have arr: "find (\<lambda>kv. \<not> tvisnil (snd kv)) (map (\<lambda>i. (num_of_int (int i), array t ! i)) [j..<asize t]) =
      map_option (\<lambda>i. (num_of_int (int i), array t ! i)) (find ?P [j..<asize t])"
    by (simp add: find_map o_def)
  have nds: "find (\<lambda>kv. \<not> tvisnil (snd kv)) (map (\<lambda>n. (nkey n, nval n)) (drop i (nodes t))) =
      map_option (\<lambda>i. (nkey (nodes t ! i), nval (nodes t ! i))) (find ?Q [i..<length (nodes t)])" for i
    unfolding map_nth_drop [symmetric] by (simp add: find_map o_def)
  have sl: "drop j (slots t) = map (\<lambda>i. (num_of_int (int i), array t ! i)) [j..<asize t] @
      map (\<lambda>n. (nkey n, nval n)) (drop (j - asize t) (nodes t))"
    by (simp add: slots_def drop_map)
  define w where "w = (if j < asize t then 0 else j - asize t)"
  have w: "(if j < asize t then word_of_nat (asize t) else word_of_nat j :: u32) - word_of_nat (asize t) = word_of_nat w"
    by (auto simp: w_def)
  have w31: "w < 2 ^ 31" "w \<le> length (nodes t)" using j idx(2) by (auto simp: w_def)
  have dw: "drop (j - asize t) (nodes t) = drop w (nodes t)" by (simp add: w_def)
  have hl: "sint (word_of_nat (hmask t + 1) :: u32) = int (length (nodes t))"
    unfolding hm using ln by (intro sint_small) simp
  have s: "\<not> sint (if w \<le> hmask t then word_of_nat (length (nodes t)) else word_of_nat w :: u32) < 0"
    using hl hm sint_small [OF w31(1)] by (simp only: split: if_split) simp
  show ?thesis
    unfolding lj_tab_next_def idx(1) cbind.simps uj w Let_def unat_small [OF w31(1)] hm next_of_def sl find_append arr dw nds
    using s by (auto simp: hm split: option.splits)
qed

text \<open>The key of a live slot leads to the slot behind it.\<close>

lemma keyindex_slot:
  assumes wf: "tab_wf env t" and j: "j < length (slots t)" "\<not> tvisnil (snd (slots t ! j))"
  shows "lj_tab_keyindex env t (fst (slots t ! j)) = Done (word_of_nat (Suc j))"
proof (cases "j < asize t")
  case True
  note d = tab_wfD [OF wf]
  have j31: "j < 2 ^ 31" using True d(4) by (simp add: LJ_MAX_ASIZE_def)
  have k: "fst (slots t ! j) = num_of_int (int j)" using True by (simp add: slots_def nth_append)
  have "lj_num2int_below (num_of_int (int j)) (asize t) = Some j"
    using below_iff [of "asize t" "num_of_int (int j)" j] True d(4) small_key(4) [OF j31] unat_small [OF j31]
    by (simp add: LJ_MAX_ASIZE_def)
  then show ?thesis unfolding k by (simp add: lj_tab_keyindex_def small_key [OF j31])
next
  case False
  let ?n = "j - asize t"
  have n: "?n < length (nodes t)" using j(1) False by (simp add: length_slots)
  have sl: "slots t ! j = (nkey (nodes t ! ?n), nval (nodes t ! ?n))"
    using False n by (simp add: slots_def nth_append)
  let ?k = "nkey (nodes t ! ?n)"
  note d = tab_wfD [OF wf]
  have kd: "keyed (nodes t) ?n" using nodes_wfD(7) [OF d(5) n] j(2) sl by auto
  note kk = d(9) [OF n kd]
  obtain r where r: "find_node t (\<lambda>x. lj_obj_equal x ?k) (hashkey env t ?k) = Done r"
    "case r of Some i \<Rightarrow> i < length (nodes t) \<and> nkey (nodes t ! i) = ckey ?k
      | None \<Rightarrow> \<forall>i<length (nodes t). nkey (nodes t ! i) \<noteq> ckey ?k"
    using find_node_key [OF wf _ test_generic test_nil refl] kk by blast
  obtain i where i: "r = Some i" using r(2) n kk by (cases r) auto
  then have "i < length (nodes t)" "nkey (nodes t ! i) = ?k" using r(2) kk by simp_all
  moreover from this have "keyed (nodes t) i" using kd by (simp add: keyed_def)
  ultimately have "i = ?n" using nodes_wfD(10) [OF d(5) _ n _ kd] by blast
  with r(1) i have f: "find_node t (\<lambda>x. lj_obj_equal x ?k) (hashkey env t ?k) = Done (Some ?n)" by simp
  have nb: "(if tvisnum ?k then lj_num2int_below ?k (asize t) else None) = None"
  proof (rule ccontr)
    assume "\<not> ?thesis"
    then obtain m where m: "tvisnum ?k" "lj_num2int_below ?k (asize t) = Some m" by (auto split: if_splits)
    have "asize t \<le> 2 ^ 31" using d(4) by (simp add: LJ_MAX_ASIZE_def)
    from below_iff [OF this, of ?k m] m(2) obtain w where "lj_num2int_check ?k = Some w" "unat w = m" "m < asize t" by blast
    then have "aidx t ?k = Some m" using m(1) by (simp add: aidx_def)
    with kk show False by simp
  qed
  have e: "asize t + (?n + 1) = Suc j" using False by simp
  show ?thesis
    unfolding sl fst_conv lj_tab_keyindex_def nb f
    using kd by (simp only: keyed_def option.case cbind.simps if_True not_False_eq_True e)
qed

lemma find_split: "find P xs = Some x \<Longrightarrow>
    \<exists>i<length xs. xs ! i = x \<and> P x \<and> filter P xs = x # filter P (drop (Suc i) xs)"
proof (induction xs)
  case (Cons y xs)
  show ?case
  proof (cases "P y")
    case True
    with Cons.prems show ?thesis by (intro exI [of _ 0]) simp
  next
    case False
    with Cons obtain i where "i < length xs" "xs ! i = x" "P x" "filter P xs = x # filter P (drop (Suc i) xs)" by auto
    with False show ?thesis by (intro exI [of _ "Suc i"]) simp
  qed
qed simp

lemma tab_walk_from:
  assumes wf: "tab_wf env t" and "lj_tab_keyindex env t k = Done (word_of_nat j)" and "j \<le> length (slots t)"
    and "length (filter (\<lambda>kv. \<not> tvisnil (snd kv)) (drop j (slots t))) < f"
  shows "tab_walk f env t k = Done (filter (\<lambda>kv. \<not> tvisnil (snd kv)) (drop j (slots t)))"
  using assms(2-4)
proof (induction f arbitrary: j k)
  case (Suc f)
  let ?live = "\<lambda>kv. \<not> tvisnil (snd kv)" and ?xs = "drop j (slots t)"
  note nx = next_from [OF wf Suc.prems(1) Suc.prems(2) [unfolded length_slots]]
  show ?case
  proof (cases "find ?live ?xs")
    case None
    then have "filter ?live ?xs = []" unfolding find_None_iff filter_empty_conv by blast
    with None nx show ?thesis by (simp add: next_of_def)
  next
    case (Some kv)
    from find_split [OF Some] obtain i where i: "i < length ?xs" "?xs ! i = kv" "?live kv"
      "filter ?live ?xs = kv # filter ?live (drop (Suc i) ?xs)" by blast
    let ?j = "j + i"
    have j: "?j < length (slots t)" using i(1) by simp
    have kv: "slots t ! ?j = kv" using i(1,2) by simp
    have ki: "lj_tab_keyindex env t (fst kv) = Done (word_of_nat (Suc ?j))"
      using keyindex_slot [OF wf j] kv i(3) by simp
    have dd: "drop (Suc i) ?xs = drop (Suc ?j) (slots t)" by (simp add: add.commute)
    have "tab_walk f env t (fst kv) = Done (filter ?live (drop (Suc ?j) (slots t)))"
      by (rule Suc.IH [OF ki]) (use j Suc.prems(3) i(4) dd in auto)
    with nx Some i(4) dd show ?thesis by (simp add: next_of_def)
  qed
qed simp

lemma entries_iff:
  assumes wf: "tab_wf env t"
  shows "(k, v) \<in> set (entries t) \<longleftrightarrow> key_ok k \<and> ckey k = k \<and> tab_abs t k = v \<and> \<not> tvisnil v"
proof -
  note d = tab_wfD [OF wf]
  have small: "i < asize t \<Longrightarrow> i < 2 ^ 31" for i using d(4) by (simp add: LJ_MAX_ASIZE_def)
  have "(k, v) \<in> set (slots t) \<and> \<not> tvisnil v \<longleftrightarrow>
     (\<exists>i<asize t. k = num_of_int (int i) \<and> v = array t ! i \<and> \<not> tvisnil v) \<or>
     (\<exists>i<length (nodes t). k = nkey (nodes t ! i) \<and> v = nval (nodes t ! i) \<and> \<not> tvisnil v)"
    unfolding slots_def set_append Un_iff in_set_conv_nth by auto
  also have "\<dots> \<longleftrightarrow> key_ok k \<and> ckey k = k \<and> tab_abs t k = v \<and> \<not> tvisnil v" (is "?A \<or> ?B \<longleftrightarrow> ?C")
  proof
    assume "?A \<or> ?B"
    then show ?C
    proof
      assume ?A
      then obtain i where "i < asize t" "k = num_of_int (int i)" "v = array t ! i" "\<not> tvisnil v" by blast
      with small [of i] show ?C by (simp add: small_key tab_abs_def aidx_small)
    next
      assume ?B
      then obtain i where i: "i < length (nodes t)" "k = nkey (nodes t ! i)" "v = nval (nodes t ! i)" "\<not> tvisnil v" by blast
      then have kd: "keyed (nodes t) i" using nodes_wfD(7) [OF d(5) i(1)] by auto
      note kk = d(9) [OF i(1) kd]
      have "\<not> tvisnil k" using kd i(2) by (simp add: keyed_def)
      from nodes_val_key [OF wf i(1) i(2) [symmetric] this] kk i show ?C by (simp add: tab_abs_def)
    qed
  next
    assume c: ?C
    show "?A \<or> ?B"
    proof (cases "aidx t k")
      case (Some i)
      then obtain w where w: "lj_num2int_check k = Some w" "unat w = i" "i < asize t"
        by (auto simp: aidx_def split: option.splits if_splits)
      have "num_of_int (sint w) = k" using w(1) c by (simp add: num2int_iff)
      moreover have "w = word_of_nat i" using w(2) by auto
      ultimately have "k = num_of_int (int i)" using sint_small [OF small [OF w(3)]] by simp
      then have ?A using c Some w(3) by (auto simp: tab_abs_def)
      then show ?thesis ..
    next
      case None
      then have nv: "nodes_val (nodes t) k = v" using c by (auto simp: tab_abs_def)
      have "\<exists>i<length (nodes t). nkey (nodes t ! i) = k"
        using nodes_val_none [of "nodes t" k] nv c by (auto simp: tvisnil_def niltv_def)
      then obtain i where i: "i < length (nodes t)" "nkey (nodes t ! i) = k" by blast
      have "\<not> tvisnil k" using c by (simp add: key_ok_def)
      with nodes_val_key [OF wf i] nv c i have ?B by auto
      then show ?thesis ..
    qed
  qed
  finally show ?thesis by (simp add: entries_def)
qed

lemma entries_distinct:
  assumes wf: "tab_wf env t"
  shows "distinct (map fst (entries t))"
proof -
  note d = tab_wfD [OF wf]
  let ?ns = "filter (\<lambda>n. \<not> tvisnil (nval n)) (nodes t)"
  have e: "map fst (entries t) = map (\<lambda>i. num_of_int (int i)) (filter (\<lambda>i. \<not> tvisnil (array t ! i)) [0..<asize t]) @ map nkey ?ns"
    by (simp add: entries_def slots_def filter_map o_def)
  have inj: "inj_on (\<lambda>i. num_of_int (int i)) {i. i < 2 ^ 31}"
  proof (rule inj_onI)
    fix x y :: nat assume a: "x \<in> {i. i < 2 ^ 31}" "y \<in> {i. i < 2 ^ 31}" "num_of_int (int x) = num_of_int (int y)"
    then have "\<bar>int x\<bar> < 2 ^ 53" "\<bar>int y\<bar> < 2 ^ 53" by simp_all
    from num_of_int_inj [OF this a(3)] show "x = y" by simp
  qed
  have kd: "i < length (nodes t) \<Longrightarrow> \<not> tvisnil (nval (nodes t ! i)) \<Longrightarrow> keyed (nodes t) i" for i
    using nodes_wfD(7) [OF d(5)] by blast
  have "distinct (map nkey ?ns)"
    by (rule distinct_map_filterI) (use nodes_wfD(10) [OF d(5)] kd in blast)
  moreover have "distinct (map (\<lambda>i. num_of_int (int i)) (filter (\<lambda>i. \<not> tvisnil (array t ! i)) [0..<asize t]))"
    using d(4) by (auto simp: distinct_map LJ_MAX_ASIZE_def intro!: inj_on_subset [OF inj])
  moreover have "num_of_int (int i) \<noteq> nkey n" if i: "i < asize t" and n: "n \<in> set ?ns" for i n
  proof
    assume e: "num_of_int (int i) = nkey n"
    from n obtain j where j: "j < length (nodes t)" "nodes t ! j = n" "\<not> tvisnil (nval n)" by (auto simp: in_set_conv_nth)
    have "aidx t (nkey n) = None" using d(9) [OF j(1)] kd [OF j(1)] j by simp
    moreover have "i < 2 ^ 31" using i d(4) by (simp add: LJ_MAX_ASIZE_def)
    ultimately show False using aidx_small [of i t] i e by simp
  qed
  ultimately show ?thesis unfolding e by auto
qed

text \<open>C10. Traversal with \<^verbatim>\<open>next\<close> from nil ends without an error, and visits exactly the entries of the table
  (canonical keys with their non-nil values), each key once.\<close>

theorem tab_walk_all:
  assumes wf: "tab_wf env t" and f: "length (entries t) < f"
  shows "\<exists>kvs. tab_walk f env t niltv = Done kvs \<and> distinct (map fst kvs) \<and>
    (\<forall>k v. (k, v) \<in> set kvs \<longleftrightarrow> key_ok k \<and> ckey k = k \<and> lj_tab_get env t k = Done v \<and> \<not> tvisnil v)"
proof -
  have "lj_tab_keyindex env t niltv = Done (word_of_nat 0)" by (simp add: lj_tab_keyindex_def)
  from tab_walk_from [OF wf this, of f] f have "tab_walk f env t niltv = Done (entries t)" by (simp add: entries_def)
  with entries_distinct [OF wf] entries_iff [OF wf] get_abs [OF wf] show ?thesis by auto
qed

lemma ex_entries: "entries (ex_tab 0 9 str_tv 8) = [(one_tv, 9), (str_tv, 8)]"
  by (simp add: entries_def slots_def ex_tab_def num_of_int_1 tvisnil_def niltv_def nilnode_def upt_rec)

lemma tab_walk_all_witness:
  "\<exists>kvs. tab_walk 3 env0 (ex_tab 0 9 str_tv 8) niltv = Done kvs \<and> distinct (map fst kvs) \<and>
    (\<forall>k v. (k, v) \<in> set kvs \<longleftrightarrow> key_ok k \<and> ckey k = k \<and> lj_tab_get env0 (ex_tab 0 9 str_tv 8) k = Done v \<and> \<not> tvisnil v)"
  using tab_walk_all [OF ex_wf, of 3] by (simp add: ex_entries)

section \<open>Counting\<close>

text \<open>C12. The key count is the number of distinct keys that read as non-nil, and the emptiness test is its
  being zero.\<close>

theorem tab_nkeys_card:
  assumes wf: "tab_wf env t"
  shows "lj_tab_nkeys t = card {k. key_ok k \<and> ckey k = k \<and> \<not> tvisnil (tab_abs t k)} \<and>
    (lj_tab_isempty t \<longleftrightarrow> lj_tab_nkeys t = 0)"
proof
  note d = tab_wfD [OF wf]
  have arr: "filter (\<lambda>v. \<not> tvisnil v) (take (asize t) (array t)) = map ((!) (array t)) (filter (\<lambda>i. \<not> tvisnil (array t ! i)) [0..<asize t])"
  proof -
    have "take (asize t) (array t) = map ((!) (array t)) [0..<asize t]" using d(3) by (intro nth_equalityI) simp_all
    then show ?thesis by (simp add: filter_map o_def)
  qed
  have nds: "hmask t = 0 \<Longrightarrow> filter (\<lambda>n. \<not> tvisnil (nval n)) (nodes t) = []" using d(7) by simp
  have nk: "lj_tab_nkeys t = length (entries t)"
    using d(1) nds by (simp add: lj_tab_nkeys_def arr entries_def slots_def filter_map o_def)
  have "set (map fst (entries t)) = {k. key_ok k \<and> ckey k = k \<and> \<not> tvisnil (tab_abs t k)}"
    using entries_iff [OF wf] by force
  with distinct_card [OF entries_distinct [OF wf]]
  show "lj_tab_nkeys t = card {k. key_ok k \<and> ckey k = k \<and> \<not> tvisnil (tab_abs t k)}" by (simp add: nk)
  show "lj_tab_isempty t \<longleftrightarrow> lj_tab_nkeys t = 0"
    using nds by (auto simp: lj_tab_isempty_def lj_tab_nkeys_def list_ex_iff filter_empty_conv)
qed

lemma tab_nkeys_card_witness: "card {k. key_ok k \<and> ckey k = k \<and> \<not> tvisnil (tab_abs (ex_tab 0 9 str_tv 8) k)} = 2"
proof -
  have "lj_tab_nkeys (ex_tab 0 9 str_tv 8) = 2" by (simp add: lj_tab_nkeys_def ex_tab_def tvisnil_def niltv_def nilnode_def)
  then show ?thesis using tab_nkeys_card [OF ex_wf] by simp
qed

section \<open>Resizing and copying\<close>

lemma same_abs_get:
  assumes "tab_wf env t" and "tab_wf env t'" and "\<And>c. tab_abs t' c = tab_abs t c" and "key_ok c"
  shows "lj_tab_get env t' c = lj_tab_get env t c"
  using get_abs [OF assms(1,4)] get_abs [OF assms(2,4)] assms(3) by simp

text \<open>C11. Resizing to any array size and any hash size that has room for the entries outside the new array
  part keeps the value of every key, gives exactly the requested sizes and a well-formed table, or
  raises the overflow or the memory error; it never gets stuck in a rehash of its own.\<close>

theorem tab_resize_keeps:
  assumes wf: "tab_wf env t" and need: "resize_need t na \<le> (if hbits = 0 then 0 else 2 ^ hbits)"
  shows "case lj_tab_resize env t na hbits of
      Done t' \<Rightarrow> tab_wf env t' \<and> asize t' = na \<and> hmask t' = 2 ^ hbits - 1 \<and>
        (\<forall>c. key_ok c \<longrightarrow> lj_tab_get env t' c = lj_tab_get env t c)
    | Raise e \<Rightarrow> e = LJ_ERR_TABOV \<or> e = LJ_ERR_ERRMEM
    | Stuck \<Rightarrow> False"
proof -
  have "resize_post env t na hbits (lj_tab_resize env t na hbits)"
    unfolding lj_tab_resize_def by (rule tab_resize_ok [OF wf need])
  then show ?thesis
    using same_abs_get [OF wf] by (cases "lj_tab_resize env t na hbits") (auto simp: resize_post_def)
qed

lemma tab_resize_keeps_witness:
  "case lj_tab_resize env0 (ex_tab 0 9 str_tv 8) 9 2 of
      Done t' \<Rightarrow> tab_wf env0 t' \<and> asize t' = 9 \<and> hmask t' = 2 ^ 2 - 1 \<and>
        (\<forall>c. key_ok c \<longrightarrow> lj_tab_get env0 t' c = lj_tab_get env0 (ex_tab 0 9 str_tv 8) c)
    | Raise e \<Rightarrow> e = LJ_ERR_TABOV \<or> e = LJ_ERR_ERRMEM
    | Stuck \<Rightarrow> False"
proof (rule tab_resize_keeps [OF ex_wf])
  have "length (nodes (ex_tab 0 9 str_tv 8)) = 2" by (simp add: ex_tab_def)
  then have "hash_need (ex_tab 0 9 str_tv 8\<lparr>asize := 9\<rparr>) (nodes (ex_tab 0 9 str_tv 8)) \<le> 2"
    unfolding hash_need_def by (intro order.trans [OF length_filter_le]) simp
  moreover have "arr_need (array (ex_tab 0 9 str_tv 8)) [9..<asize (ex_tab 0 9 str_tv 8)] = 0"
    by (simp add: arr_need_def ex_tab_def)
  ultimately show "resize_need (ex_tab 0 9 str_tv 8) 9 \<le> (if (2::nat) = 0 then 0 else 2 ^ 2)"
    by (simp add: resize_need_def)
qed

text \<open>C13. A clone is a well-formed table with the same value for every key; a duplicated template
  differs in one thing, that values of the hash part that are themselves tables become nil.\<close>

theorem tab_copies:
  assumes wf: "tab_wf env t" and r: "lj_tab_dup_helper env t cl = Done t'" and c: "key_ok c"
  shows "tab_wf env t' \<and> lj_tab_get env t' c = cbind (lj_tab_get env t c) (\<lambda>v.
      Done (if \<not> cl \<and> tvistab v \<and> aidx t c = None then niltv else v))"
  using tab_dup_ok [OF wf r] get_abs [OF wf c] get_abs [OF tab_dup_ok(1) [OF wf r] c] c aidx_ckey [of t c]
  by (auto split: option.splits)

lemma tab_copies_witness:
  "\<exists>t'. lj_tab_clone env0 (ex_tab 0 9 str_tv 8) = Done t' \<and> lj_tab_get env0 t' one_tv = Done 9"
proof -
  have "is_done (lj_tab_dup_helper env0 (ex_tab 0 9 str_tv 8) True)"
    by (simp add: is_done_def lj_tab_dup_helper_def newtab_def newhpart_def ex_tab_def env0_def LJ_MAX_COLOSIZE_def
        LJ_MAX_HBITS_def Let_def fls_nat.simps [of "Suc 0"])
  then obtain t' where t': "lj_tab_dup_helper env0 (ex_tab 0 9 str_tv 8) True = Done t'" by (auto simp: is_done_iff)
  have "lj_tab_get env0 (ex_tab 0 9 str_tv 8) one_tv = Done 9"
    using get_abs [OF ex_wf one_tv_eval(5)] by (simp add: lj_tab_get_def one_tv_eval one_num2int lj_tab_getint_def
        inarray_def or_nil_def ex_tab_def)
  with tab_copies [OF ex_wf t' one_tv_eval(5)] t' show ?thesis by (simp add: lj_tab_clone_def)
qed

end
