(* ===== verification/Ir.thy ===== *)
theory Ir
  imports Prelude
begin

text \<open>
  The SSA intermediate representation of the JIT compiler, \<^verbatim>\<open>src/src/lj_ir.h\<close> and
  \<^verbatim>\<open>src/src/lj_ir.c\<close>: the instruction format, the emitter, the interning of constants and
  the common-subexpression search of \<^verbatim>\<open>src/src/lj_opt_fold.c\<close>. The IR buffer is a function from
  references to instructions; its growth is not modelled. The second slot of a 64 bit constant is the
  field \<open>tv\<close> of the instruction, and the literal of a 32 bit constant, which overlaps the operands, is
  the field \<open>ik\<close>.
\<close>

section \<open>Instructions\<close>

text \<open>Opcodes are numbers, in the order of \<^verbatim>\<open>IRDEF\<close>: the comparisons are aligned so that bit operations
  on the opcode flip them.\<close>

type_synonym irop = u8

definition IR_LT :: irop where "IR_LT = 0"
definition IR_GE :: irop where "IR_GE = 1"
definition IR_LE :: irop where "IR_LE = 2"
definition IR_GT :: irop where "IR_GT = 3"
definition IR_ULT :: irop where "IR_ULT = 4"
definition IR_UGE :: irop where "IR_UGE = 5"
definition IR_ULE :: irop where "IR_ULE = 6"
definition IR_UGT :: irop where "IR_UGT = 7"
definition IR_EQ :: irop where "IR_EQ = 8"
definition IR_NE :: irop where "IR_NE = 9"
definition IR_ABC :: irop where "IR_ABC = 10"
definition IR_RETF :: irop where "IR_RETF = 11"
definition IR_NOP :: irop where "IR_NOP = 12"
definition IR_BASE :: irop where "IR_BASE = 13"
definition IR_PVAL :: irop where "IR_PVAL = 14"
definition IR_GCSTEP :: irop where "IR_GCSTEP = 15"
definition IR_HIOP :: irop where "IR_HIOP = 16"
definition IR_LOOP :: irop where "IR_LOOP = 17"
definition IR_USE :: irop where "IR_USE = 18"
definition IR_PHI :: irop where "IR_PHI = 19"
definition IR_RENAME :: irop where "IR_RENAME = 20"
definition IR_PROF :: irop where "IR_PROF = 21"
definition IR_KPRI :: irop where "IR_KPRI = 22"
definition IR_KINT :: irop where "IR_KINT = 23"
definition IR_KGC :: irop where "IR_KGC = 24"
definition IR_KPTR :: irop where "IR_KPTR = 25"
definition IR_KKPTR :: irop where "IR_KKPTR = 26"
definition IR_KNULL :: irop where "IR_KNULL = 27"
definition IR_KNUM :: irop where "IR_KNUM = 28"
definition IR_KINT64 :: irop where "IR_KINT64 = 29"
definition IR_KSLOT :: irop where "IR_KSLOT = 30"
definition IR_BNOT :: irop where "IR_BNOT = 31"
definition IR_BSWAP :: irop where "IR_BSWAP = 32"
definition IR_BAND :: irop where "IR_BAND = 33"
definition IR_BOR :: irop where "IR_BOR = 34"
definition IR_BXOR :: irop where "IR_BXOR = 35"
definition IR_BSHL :: irop where "IR_BSHL = 36"
definition IR_BSHR :: irop where "IR_BSHR = 37"
definition IR_BSAR :: irop where "IR_BSAR = 38"
definition IR_BROL :: irop where "IR_BROL = 39"
definition IR_BROR :: irop where "IR_BROR = 40"
definition IR_ADD :: irop where "IR_ADD = 41"
definition IR_SUB :: irop where "IR_SUB = 42"
definition IR_MUL :: irop where "IR_MUL = 43"
definition IR_DIV :: irop where "IR_DIV = 44"
definition IR_MOD :: irop where "IR_MOD = 45"
definition IR_POW :: irop where "IR_POW = 46"
definition IR_NEG :: irop where "IR_NEG = 47"
definition IR_ABS :: irop where "IR_ABS = 48"
definition IR_LDEXP :: irop where "IR_LDEXP = 49"
definition IR_MIN :: irop where "IR_MIN = 50"
definition IR_MAX :: irop where "IR_MAX = 51"
definition IR_FPMATH :: irop where "IR_FPMATH = 52"
definition IR_ADDOV :: irop where "IR_ADDOV = 53"
definition IR_SUBOV :: irop where "IR_SUBOV = 54"
definition IR_MULOV :: irop where "IR_MULOV = 55"
definition IR_AREF :: irop where "IR_AREF = 56"
definition IR_HREFK :: irop where "IR_HREFK = 57"
definition IR_HREF :: irop where "IR_HREF = 58"
definition IR_NEWREF :: irop where "IR_NEWREF = 59"
definition IR_UREFO :: irop where "IR_UREFO = 60"
definition IR_UREFC :: irop where "IR_UREFC = 61"
definition IR_FREF :: irop where "IR_FREF = 62"
definition IR_TMPREF :: irop where "IR_TMPREF = 63"
definition IR_STRREF :: irop where "IR_STRREF = 64"
definition IR_LREF :: irop where "IR_LREF = 65"
definition IR_ALOAD :: irop where "IR_ALOAD = 66"
definition IR_HLOAD :: irop where "IR_HLOAD = 67"
definition IR_ULOAD :: irop where "IR_ULOAD = 68"
definition IR_FLOAD :: irop where "IR_FLOAD = 69"
definition IR_XLOAD :: irop where "IR_XLOAD = 70"
definition IR_SLOAD :: irop where "IR_SLOAD = 71"
definition IR_VLOAD :: irop where "IR_VLOAD = 72"
definition IR_ALEN :: irop where "IR_ALEN = 73"
definition IR_ASTORE :: irop where "IR_ASTORE = 74"
definition IR_HSTORE :: irop where "IR_HSTORE = 75"
definition IR_USTORE :: irop where "IR_USTORE = 76"
definition IR_FSTORE :: irop where "IR_FSTORE = 77"
definition IR_XSTORE :: irop where "IR_XSTORE = 78"
definition IR_SNEW :: irop where "IR_SNEW = 79"
definition IR_XSNEW :: irop where "IR_XSNEW = 80"
definition IR_TNEW :: irop where "IR_TNEW = 81"
definition IR_TDUP :: irop where "IR_TDUP = 82"
definition IR_CNEW :: irop where "IR_CNEW = 83"
definition IR_CNEWI :: irop where "IR_CNEWI = 84"
definition IR_BUFHDR :: irop where "IR_BUFHDR = 85"
definition IR_BUFPUT :: irop where "IR_BUFPUT = 86"
definition IR_BUFSTR :: irop where "IR_BUFSTR = 87"
definition IR_TBAR :: irop where "IR_TBAR = 88"
definition IR_OBAR :: irop where "IR_OBAR = 89"
definition IR_XBAR :: irop where "IR_XBAR = 90"
definition IR_CONV :: irop where "IR_CONV = 91"
definition IR_TOBIT :: irop where "IR_TOBIT = 92"
definition IR_TOSTR :: irop where "IR_TOSTR = 93"
definition IR_STRTO :: irop where "IR_STRTO = 94"
definition IR_CALLN :: irop where "IR_CALLN = 95"
definition IR_CALLA :: irop where "IR_CALLA = 96"
definition IR_CALLL :: irop where "IR_CALLL = 97"
definition IR_CALLS :: irop where "IR_CALLS = 98"
definition IR_CALLXS :: irop where "IR_CALLXS = 99"
definition IR_CARG :: irop where "IR_CARG = 100"

lemmas ir_defs =
  IR_LT_def IR_GE_def IR_LE_def IR_GT_def IR_ULT_def IR_UGE_def IR_ULE_def IR_UGT_def IR_EQ_def
   IR_NE_def IR_ABC_def IR_NOP_def IR_BASE_def IR_LOOP_def IR_KPRI_def IR_KINT_def IR_KGC_def
   IR_KPTR_def IR_KKPTR_def IR_KNULL_def IR_KNUM_def IR_KINT64_def IR_KSLOT_def IR_BNOT_def
   IR_BSWAP_def IR_BAND_def IR_BOR_def IR_BXOR_def IR_BSHL_def IR_BSHR_def IR_BSAR_def IR_BROL_def
   IR_BROR_def IR_ADD_def IR_SUB_def IR_MUL_def IR_DIV_def IR_MOD_def IR_POW_def IR_NEG_def
   IR_ABS_def IR_LDEXP_def IR_MIN_def IR_MAX_def IR_FPMATH_def IR_ADDOV_def IR_SUBOV_def IR_MULOV_def
   IR_CONV_def

text \<open>Types are the low five bits of the type byte.\<close>

definition IRT_NIL :: u8 where "IRT_NIL = 0"
definition IRT_FALSE :: u8 where "IRT_FALSE = 1"
definition IRT_TRUE :: u8 where "IRT_TRUE = 2"
definition IRT_LIGHTUD :: u8 where "IRT_LIGHTUD = 3"
definition IRT_STR :: u8 where "IRT_STR = 4"
definition IRT_P32 :: u8 where "IRT_P32 = 5"
definition IRT_THREAD :: u8 where "IRT_THREAD = 6"
definition IRT_PROTO :: u8 where "IRT_PROTO = 7"
definition IRT_FUNC :: u8 where "IRT_FUNC = 8"
definition IRT_P64 :: u8 where "IRT_P64 = 9"
definition IRT_CDATA :: u8 where "IRT_CDATA = 10"
definition IRT_TAB :: u8 where "IRT_TAB = 11"
definition IRT_UDATA :: u8 where "IRT_UDATA = 12"
definition IRT_FLOAT :: u8 where "IRT_FLOAT = 13"
definition IRT_NUM :: u8 where "IRT_NUM = 14"
definition IRT_I8 :: u8 where "IRT_I8 = 15"
definition IRT_U8 :: u8 where "IRT_U8 = 16"
definition IRT_I16 :: u8 where "IRT_I16 = 17"
definition IRT_U16 :: u8 where "IRT_U16 = 18"
definition IRT_INT :: u8 where "IRT_INT = 19"
definition IRT_U32 :: u8 where "IRT_U32 = 20"
definition IRT_I64 :: u8 where "IRT_I64 = 21"
definition IRT_U64 :: u8 where "IRT_U64 = 22"
definition IRT_SOFTFP :: u8 where "IRT_SOFTFP = 23"
definition IRT_MARK :: u8 where "IRT_MARK = 0x20"
definition IRT_ISPHI :: u8 where "IRT_ISPHI = 0x40"
definition IRT_GUARD :: u8 where "IRT_GUARD = 0x80"
definition IRT_PGC :: u8 where "IRT_PGC = IRT_P64"

lemmas irt_defs = IRT_NUM_def IRT_INT_def IRT_U32_def IRT_I64_def IRT_U64_def IRT_FLOAT_def IRT_P64_def
  IRT_LIGHTUD_def IRT_STR_def IRT_THREAD_def IRT_PROTO_def IRT_FUNC_def IRT_CDATA_def IRT_TAB_def
  IRT_UDATA_def IRT_NIL_def IRT_GUARD_def IRT_ISPHI_def IRT_P32_def

definition irt_type :: "u8 \<Rightarrow> u8" where "irt_type t = t AND 0x1f"
definition irt_isnum :: "u8 \<Rightarrow> bool" where "irt_isnum t \<longleftrightarrow> irt_type t = IRT_NUM"
definition irt_isint :: "u8 \<Rightarrow> bool" where "irt_isint t \<longleftrightarrow> irt_type t = IRT_INT"
definition irt_isu32 :: "u8 \<Rightarrow> bool" where "irt_isu32 t \<longleftrightarrow> irt_type t = IRT_U32"
definition irt_isi64 :: "u8 \<Rightarrow> bool" where "irt_isi64 t \<longleftrightarrow> irt_type t = IRT_I64"
definition irt_isu64 :: "u8 \<Rightarrow> bool" where "irt_isu64 t \<longleftrightarrow> irt_type t = IRT_U64"
definition irt_isguard :: "u8 \<Rightarrow> bool" where "irt_isguard t \<longleftrightarrow> t AND IRT_GUARD \<noteq> 0"
definition irt_isphi :: "u8 \<Rightarrow> bool" where "irt_isphi t \<longleftrightarrow> t AND IRT_ISPHI \<noteq> 0"

definition irt_is64 :: "u8 \<Rightarrow> bool" where
  "irt_is64 t \<longleftrightarrow> irt_type t \<in> {IRT_NUM, IRT_I64, IRT_U64, IRT_P64, IRT_LIGHTUD, IRT_STR, IRT_THREAD,
     IRT_PROTO, IRT_FUNC, IRT_CDATA, IRT_TAB, IRT_UDATA, IRT_NIL}"

definition REF_BIAS :: nat where "REF_BIAS = 0x8000"
definition REF_TRUE :: nat where "REF_TRUE = REF_BIAS - 3"
definition REF_FALSE :: nat where "REF_FALSE = REF_BIAS - 2"
definition REF_NIL :: nat where "REF_NIL = REF_BIAS - 1"
definition REF_BASE :: nat where "REF_BASE = REF_BIAS"
definition REF_FIRST :: nat where "REF_FIRST = REF_BIAS + 1"
definition REF_DROP :: nat where "REF_DROP = 0xffff"

definition irref_isk :: "nat \<Rightarrow> bool" where "irref_isk ref \<longleftrightarrow> ref < REF_BIAS"

record irins =
  op1 :: nat
  op2 :: nat
  irt :: u8
  opc :: irop
  prev :: nat
  ik :: u32
  tv :: u64

record jit_State =
  ir :: "nat \<Rightarrow> irins"
  nins :: nat
  nk :: nat
  chain :: "irop \<Rightarrow> nat"
  guardemit :: u8
  opt_fold :: bool
  opt_cse :: bool
  opt_abc :: bool

section \<open>Emitting\<close>

definition lj_ir_nextins :: "jit_State \<Rightarrow> jit_State \<times> nat" where
  "lj_ir_nextins J = (J\<lparr>nins := nins J + 1\<rparr>, nins J)"

definition lj_ir_emit :: "jit_State \<Rightarrow> irins \<Rightarrow> jit_State \<times> nat" where
  "lj_ir_emit J fins =
     (let (J, ref) = lj_ir_nextins J; op = opc fins
      in (J\<lparr>ir := (ir J)(ref := (ir J ref)\<lparr>prev := chain J op, opc := op, op1 := op1 fins, op2 := op2 fins,
             irt := irt fins\<rparr>),
           chain := (chain J)(op := ref), guardemit := guardemit J OR irt fins\<rparr>, ref))"

text \<open>The search \<^verbatim>\<open>while (ref > lim) { if (P) ...; ref = IR(ref)->prev; }\<close>; chains of instructions go
  down, so \<open>ref\<close> steps are enough.\<close>

fun chain_down :: "nat \<Rightarrow> jit_State \<Rightarrow> nat \<Rightarrow> (irins \<Rightarrow> bool) \<Rightarrow> nat \<Rightarrow> nat option" where
  "chain_down 0 J lim P ref = None"
| "chain_down (Suc f) J lim P ref =
     (if lim < ref then if P (ir J ref) then Some ref else chain_down f J lim P (prev (ir J ref)) else None)"

definition same_op12 :: "irins \<Rightarrow> irins \<Rightarrow> bool" where
  "same_op12 fins i \<longleftrightarrow> op1 i = op1 fins \<and> op2 i = op2 fins"

definition lj_opt_cse :: "jit_State \<Rightarrow> irins \<Rightarrow> jit_State \<times> nat" where
  "lj_opt_cse J fins =
     (let op = opc fins; ref = chain J op; lim = max (op1 fins) (op2 fins)
      in case (if opt_cse J then chain_down ref J lim (same_op12 fins) ref else None) of
           Some ref \<Rightarrow> (J, ref)
         | None \<Rightarrow> lj_ir_emit J fins)"

definition lj_opt_cselim :: "jit_State \<Rightarrow> irins \<Rightarrow> nat \<Rightarrow> jit_State \<times> nat" where
  "lj_opt_cselim J fins lim =
     (let ref = chain J (opc fins)
      in case chain_down ref J lim (same_op12 fins) ref of
           Some ref \<Rightarrow> (J, ref)
         | None \<Rightarrow> lj_ir_emit J fins)"

text \<open>\<^verbatim>\<open>lj_ir_rollback\<close> unlinks the instructions from the top down to \<open>ref\<close>.\<close>

function rollback_loop :: "jit_State \<Rightarrow> nat \<Rightarrow> nat \<Rightarrow> jit_State" where
  "rollback_loop J ref n =
     (if ref < n then
        let n = n - 1; i = ir J n
        in rollback_loop (J\<lparr>chain := (chain J)(opc i := prev i)\<rparr>) ref n
      else J\<lparr>nins := n\<rparr>)"
  by auto
termination by (relation "measure (\<lambda>(J, ref, n). n)") auto

declare rollback_loop.simps [simp del]

definition lj_ir_rollback :: "jit_State \<Rightarrow> nat \<Rightarrow> jit_State" where
  "lj_ir_rollback J ref = rollback_loop J ref (nins J)"

section \<open>Constants\<close>

definition ir_nextk :: "jit_State \<Rightarrow> jit_State \<times> nat" where
  "ir_nextk J = (let ref = nk J - 1 in (J\<lparr>nk := ref\<rparr>, ref))"

definition ir_nextk64 :: "jit_State \<Rightarrow> jit_State \<times> nat" where
  "ir_nextk64 J = (let ref = nk J - 2 in (J\<lparr>nk := ref\<rparr>, ref))"

text \<open>The search \<^verbatim>\<open>for (ref = J->chain[op]; ref; ref = cir[ref].prev) if (P) goto found;\<close>. Chains of constants
  go up and end before \<^verbatim>\<open>REF_BIAS\<close>, so \<^verbatim>\<open>REF_BIAS\<close> steps are enough.\<close>

fun chain_up :: "nat \<Rightarrow> jit_State \<Rightarrow> (irins \<Rightarrow> bool) \<Rightarrow> nat \<Rightarrow> nat option" where
  "chain_up 0 J P ref = None"
| "chain_up (Suc f) J P ref =
     (if ref \<noteq> 0 then if P (ir J ref) then Some ref else chain_up f J P (prev (ir J ref)) else None)"

definition ksearch :: "jit_State \<Rightarrow> irop \<Rightarrow> (irins \<Rightarrow> bool) \<Rightarrow> nat option" where
  "ksearch J op P = chain_up REF_BIAS J P (chain J op)"

text \<open>The new constant at the head of its chain.\<close>

definition klink :: "jit_State \<times> nat \<Rightarrow> irop \<Rightarrow> (irins \<Rightarrow> irins) \<Rightarrow> jit_State \<times> nat" where
  "klink Jr op f =
     (case Jr of (J, ref) \<Rightarrow>
        (J\<lparr>ir := (ir J)(ref := (f (ir J ref))\<lparr>opc := op, prev := chain J op\<rparr>), chain := (chain J)(op := ref)\<rparr>, ref))"

definition lj_ir_kint :: "jit_State \<Rightarrow> u32 \<Rightarrow> jit_State \<times> nat" where
  "lj_ir_kint J k =
     (case ksearch J IR_KINT (\<lambda>i. ik i = k) of
        Some ref \<Rightarrow> (J, ref)
      | None \<Rightarrow> klink (ir_nextk J) IR_KINT (\<lambda>i. i\<lparr>ik := k, irt := IRT_INT\<rparr>))"

definition lj_ir_k64 :: "jit_State \<Rightarrow> irop \<Rightarrow> u64 \<Rightarrow> jit_State \<times> nat" where
  "lj_ir_k64 J op u =
     (let t = (if op = IR_KNUM then IRT_NUM else IRT_I64)
      in case ksearch J op (\<lambda>i. tv i = u) of
           Some ref \<Rightarrow> (J, ref)
         | None \<Rightarrow> klink (ir_nextk64 J) op (\<lambda>i. i\<lparr>tv := u, irt := t, op1 := 0, op2 := 0\<rparr>))"

definition lj_ir_knum_u64 :: "jit_State \<Rightarrow> u64 \<Rightarrow> jit_State \<times> nat" where
  "lj_ir_knum_u64 J u = lj_ir_k64 J IR_KNUM u"

definition lj_ir_kint64 :: "jit_State \<Rightarrow> u64 \<Rightarrow> jit_State \<times> nat" where
  "lj_ir_kint64 J u = lj_ir_k64 J IR_KINT64 u"

definition lj_ir_kgc :: "jit_State \<Rightarrow> u64 \<Rightarrow> u8 \<Rightarrow> jit_State \<times> nat" where
  "lj_ir_kgc J ob t =
     (case ksearch J IR_KGC (\<lambda>i. tv i = ob) of
        Some ref \<Rightarrow> (J, ref)
      | None \<Rightarrow> klink (ir_nextk64 J) IR_KGC (\<lambda>i. i\<lparr>op1 := 0, op2 := 0, tv := ob, irt := t\<rparr>))"

definition lj_ir_kptr :: "jit_State \<Rightarrow> irop \<Rightarrow> u64 \<Rightarrow> jit_State \<times> nat" where
  "lj_ir_kptr J op p =
     (case ksearch J op (\<lambda>i. tv i = p) of
        Some ref \<Rightarrow> (J, ref)
      | None \<Rightarrow> klink (ir_nextk64 J) op (\<lambda>i. i\<lparr>op1 := 0, op2 := 0, tv := p, irt := IRT_PGC\<rparr>))"

definition lj_ir_knull :: "jit_State \<Rightarrow> u8 \<Rightarrow> jit_State \<times> nat" where
  "lj_ir_knull J t =
     (case ksearch J IR_KNULL (\<lambda>i. irt i = t) of
        Some ref \<Rightarrow> (J, ref)
      | None \<Rightarrow> klink (ir_nextk J) IR_KNULL (\<lambda>i. i\<lparr>ik := 0, irt := t\<rparr>))"

definition lj_ir_kslot :: "jit_State \<Rightarrow> nat \<Rightarrow> nat \<Rightarrow> jit_State \<times> nat" where
  "lj_ir_kslot J key slot =
     (case ksearch J IR_KSLOT (\<lambda>i. op1 i = key \<and> op2 i = slot) of
        Some ref \<Rightarrow> (J, ref)
      | None \<Rightarrow> klink (ir_nextk J) IR_KSLOT (\<lambda>i. i\<lparr>op1 := key, op2 := slot, irt := IRT_P32\<rparr>))"

definition lj_ir_ktrace :: "jit_State \<Rightarrow> jit_State \<times> nat" where
  "lj_ir_ktrace J =
     (case ir_nextk64 J of (J, ref) \<Rightarrow>
        (J\<lparr>ir := (ir J)(ref := (ir J ref)\<lparr>irt := IRT_P64, opc := IR_KNUM, op1 := 0, op2 := 0, prev := 0\<rparr>)\<rparr>, ref))"

section \<open>Well-formed buffers\<close>

text \<open>The references reachable over \<^verbatim>\<open>prev\<close>.\<close>

inductive reach :: "jit_State \<Rightarrow> nat \<Rightarrow> nat \<Rightarrow> bool" for J a where
  head: "a \<noteq> 0 \<Longrightarrow> reach J a a"
| step: "reach J a r \<Longrightarrow> prev (ir J r) \<noteq> 0 \<Longrightarrow> reach J a (prev (ir J r))"

inductive_cases reachE: "reach J a r"

definition on_chain :: "jit_State \<Rightarrow> irop \<Rightarrow> nat \<Rightarrow> bool" where
  "on_chain J op r \<longleftrightarrow> reach J (chain J op) r"

definition iskop :: "irop \<Rightarrow> bool" where
  "iskop op \<longleftrightarrow> IR_KPRI \<le> op \<and> op \<le> IR_KSLOT"

definition kval_ok :: "irop \<Rightarrow> irins \<Rightarrow> bool" where
  "kval_ok op i \<longleftrightarrow> (op = IR_KINT \<longrightarrow> irt i = IRT_INT) \<and> (op = IR_KINT64 \<longrightarrow> irt i = IRT_I64)"

definition ir_wf :: "jit_State \<Rightarrow> bool" where
  "ir_wf J \<longleftrightarrow> nk J \<le> REF_TRUE \<and> REF_BASE < nins J \<and>
     (\<forall>op r. on_chain J op r \<longrightarrow> opc (ir J r) = op \<and> kval_ok op (ir J r) \<and>
        (if iskop op then nk J \<le> r \<and> r < REF_BIAS \<and> (prev (ir J r) = 0 \<or> r < prev (ir J r))
         else REF_BIAS < r \<and> r < nins J \<and> prev (ir J r) < r)) \<and>
     (\<forall>r s. on_chain J IR_KINT r \<longrightarrow> on_chain J IR_KINT s \<longrightarrow> ik (ir J r) = ik (ir J s) \<longrightarrow> r = s) \<and>
     (\<forall>r s. on_chain J IR_KINT64 r \<longrightarrow> on_chain J IR_KINT64 s \<longrightarrow> tv (ir J r) = tv (ir J s) \<longrightarrow> r = s)"

lemma ir_wfD:
  assumes "ir_wf J"
  shows "nk J \<le> REF_TRUE" and "REF_BASE < nins J"
    and "on_chain J op r \<Longrightarrow> opc (ir J r) = op"
    and "on_chain J op r \<Longrightarrow> kval_ok op (ir J r)"
    and "on_chain J op r \<Longrightarrow> iskop op \<Longrightarrow> nk J \<le> r \<and> r < REF_BIAS \<and> (prev (ir J r) = 0 \<or> r < prev (ir J r))"
    and "on_chain J op r \<Longrightarrow> \<not> iskop op \<Longrightarrow> REF_BIAS < r \<and> r < nins J \<and> prev (ir J r) < r"
    and "on_chain J IR_KINT r \<Longrightarrow> on_chain J IR_KINT s \<Longrightarrow> ik (ir J r) = ik (ir J s) \<Longrightarrow> r = s"
    and "on_chain J IR_KINT64 r \<Longrightarrow> on_chain J IR_KINT64 s \<Longrightarrow> tv (ir J r) = tv (ir J s) \<Longrightarrow> r = s"
  using assms unfolding ir_wf_def by auto

lemma reach_nonzero: "reach J a r \<Longrightarrow> r \<noteq> 0 \<and> a \<noteq> 0"
  by (induction rule: reach.induct) auto

lemma reach_front: "reach J a r \<Longrightarrow> r = a \<or> reach J (prev (ir J a)) r"
proof (induction rule: reach.induct)
  case (step r)
  then show ?case using reach.head reach.step by metis
qed simp

lemma reach_trans: "reach J b r \<Longrightarrow> reach J a b \<Longrightarrow> reach J a r"
  by (induction rule: reach.induct) (auto intro: reach.step)

lemma on_chain_range: "ir_wf J \<Longrightarrow> on_chain J op r \<Longrightarrow> nk J \<le> r \<and> r < nins J \<and> r \<noteq> 0 \<and> (r < REF_BIAS \<longleftrightarrow> iskop op)"
  using ir_wfD(1,2) [of J] ir_wfD(5,6) [of J op r] reach_nonzero [of J "chain J op" r]
  by (cases "iskop op") (auto simp: on_chain_def REF_TRUE_def REF_BASE_def REF_BIAS_def)

lemma chain_up_Some: "chain_up f J P a = Some r \<Longrightarrow> reach J a r \<and> P (ir J r)"
proof (induction f arbitrary: a)
  case (Suc f)
  show ?case
  proof (cases "P (ir J a)")
    case True
    with Suc.prems show ?thesis by (auto split: if_splits intro: reach.head)
  next
    case False
    with Suc.prems have a: "a \<noteq> 0" and r: "chain_up f J P (prev (ir J a)) = Some r" by (auto split: if_splits)
    from Suc.IH [OF r] have "reach J (prev (ir J a)) r" "P (ir J r)" by simp_all
    moreover from this have "reach J a (prev (ir J a))" using reach_nonzero reach.step [OF reach.head [OF a]] by blast
    ultimately show ?thesis using reach_trans by blast
  qed
qed simp

lemma chain_up_None:
  assumes "ir_wf J" "iskop op" and "chain_up f J P a = None" and "a = 0 \<or> on_chain J op a" and "a \<noteq> 0 \<longrightarrow> REF_BIAS - a < f"
    and "reach J a r"
  shows "\<not> P (ir J r)"
  using assms(3-6)
proof (induction f arbitrary: a)
  case 0
  then show ?case using reach_nonzero by auto
next
  case (Suc f)
  have a: "a \<noteq> 0" using Suc.prems(4) reach_nonzero by blast
  then have oa: "on_chain J op a" using Suc.prems(2) by simp
  note d = ir_wfD(5) [OF assms(1) oa assms(2)]
  have np: "\<not> P (ir J a)" and rest: "chain_up f J P (prev (ir J a)) = None" using Suc.prems(1) a by (auto split: if_splits)
  have pr: "prev (ir J a) = 0 \<or> on_chain J op (prev (ir J a))" using oa by (auto simp: on_chain_def intro: reach.step)
  from reach_front [OF Suc.prems(4)] show ?case
  proof
    assume "r = a"
    with np show ?thesis by simp
  next
    assume r: "reach J (prev (ir J a)) r"
    show ?thesis by (rule Suc.IH [OF rest pr _ r]) (use d Suc.prems(3) a in auto)
  qed
qed

lemma ksearch_Some: "ksearch J op P = Some r \<Longrightarrow> on_chain J op r \<and> P (ir J r)"
  unfolding ksearch_def on_chain_def by (rule chain_up_Some)

lemma ksearch_None: "ir_wf J \<Longrightarrow> iskop op \<Longrightarrow> ksearch J op P = None \<Longrightarrow> on_chain J op r \<Longrightarrow> \<not> P (ir J r)"
  unfolding ksearch_def
  by (rule chain_up_None [of J op]) (auto simp: on_chain_def REF_BIAS_def intro: reach.head dest: reach_nonzero)

text \<open>\<open>J'\<close> keeps the instructions of \<open>J\<close>.\<close>

definition extends :: "jit_State \<Rightarrow> jit_State \<Rightarrow> bool" where
  "extends J J' \<longleftrightarrow> (\<forall>op r. on_chain J op r \<longrightarrow> on_chain J' op r \<and> ir J' r = ir J r) \<and>
     (\<forall>op. REF_BIAS \<le> chain J op \<longrightarrow> chain J op \<le> chain J' op) \<and> nins J \<le> nins J' \<and> opt_fold J' = opt_fold J \<and> opt_cse J' = opt_cse J \<and> opt_abc J' = opt_abc J"

lemma extends_refl [simp]: "extends J J"
  by (simp add: extends_def)

text \<open>Adding an instruction at a fresh reference, at the head of its chain.\<close>

lemma link_chain:
  assumes wf: "ir_wf J" and fresh: "\<And>op r. on_chain J op r \<Longrightarrow> r \<noteq> ref" and "ref \<noteq> 0"
    and ir: "ir J' = (ir J)(ref := i)" and ch: "chain J' = (chain J)(op := ref)" and p: "prev i = chain J op"
  shows "on_chain J' o' r \<longleftrightarrow> on_chain J o' r \<or> o' = op \<and> r = ref"
    and "on_chain J o' r \<Longrightarrow> ir J' r = ir J r"
proof -
  show same: "on_chain J o' r \<Longrightarrow> ir J' r = ir J r" for o' r using fresh ir by auto
  have old: "reach J' a r" if "reach J a r" "\<And>s. reach J a s \<Longrightarrow> s \<noteq> ref" for a r
    using that(1)
  proof (induction rule: reach.induct)
    case (step r)
    then have "r \<noteq> ref" using that(2) by blast
    then have "prev (ir J' r) = prev (ir J r)" by (simp add: ir)
    with step reach.step [of J' a r] show ?case by simp
  qed (rule reach.head)
  have new: "reach J a r" if "reach J' a r" "\<And>s. reach J a s \<Longrightarrow> s \<noteq> ref" "a \<noteq> ref" for a r
    using that(1)
  proof (induction rule: reach.induct)
    case (step r)
    then have "r \<noteq> ref" using that(2) by blast
    then have "prev (ir J' r) = prev (ir J r)" by (simp add: ir)
    with step reach.step [of J a r] show ?case by simp
  qed (rule reach.head)
  have nr: "chain J o' \<noteq> 0 \<Longrightarrow> chain J o' \<noteq> ref" for o' using fresh [of o' "chain J o'"] by (auto simp: on_chain_def intro: reach.head)
  show "on_chain J' o' r \<longleftrightarrow> on_chain J o' r \<or> o' = op \<and> r = ref"
  proof (cases "o' = op")
    case False
    then have c: "chain J' o' = chain J o'" by (simp add: ch)
    show ?thesis
    proof (cases "chain J o' = 0")
      case True
      then show ?thesis using False c reach_nonzero by (auto simp: on_chain_def)
    next
      case nz: False
      have f: "\<And>s. reach J (chain J o') s \<Longrightarrow> s \<noteq> ref" using fresh by (auto simp: on_chain_def)
      show ?thesis using old [OF _ f] new [OF _ f nr [OF nz]] False c by (auto simp: on_chain_def)
    qed
  next
    case True
    have c: "chain J' op = ref" by (simp add: ch)
    have pr: "prev (ir J' ref) = chain J op" using p by (simp add: ir)
    have f: "\<And>s. reach J (chain J op) s \<Longrightarrow> s \<noteq> ref" using fresh by (auto simp: on_chain_def)
    show ?thesis
    proof
      assume "on_chain J' o' r"
      then have "reach J' ref r" using True c by (simp add: on_chain_def)
      then have "r = ref \<or> reach J' (chain J op) r" using reach_front pr by metis
      then show "on_chain J o' r \<or> o' = op \<and> r = ref"
        using new [OF _ f] nr [of op] True reach_nonzero by (auto simp: on_chain_def)
    next
      assume "on_chain J o' r \<or> o' = op \<and> r = ref"
      then show "on_chain J' o' r"
      proof
        assume "on_chain J o' r"
        then have "reach J (chain J op) r" using True by (simp add: on_chain_def)
        then have "reach J' (chain J op) r" and "chain J op \<noteq> 0" using old [OF _ f] reach_nonzero by blast+
        moreover have "reach J' ref (chain J op)"
          using reach.step [OF reach.head [OF assms(3)], of J'] pr calculation(2) by simp
        ultimately show ?thesis using True c reach_trans by (simp add: on_chain_def)
      next
        assume "o' = op \<and> r = ref"
        then show ?thesis using True c reach.head [OF assms(3)] by (simp add: on_chain_def)
      qed
    qed
  qed
qed

end
