(* ===== verification/Carith.thy ===== *)
theory Carith
  imports Prelude "HOL-Library.Signed_Division"
begin

text \<open>
  Integer arithmetic helpers of the VM and of the constant folder: the floored modulo of
  \<^verbatim>\<open>src/src/lj_vmmath.c\<close> and the 64 bit division, modulo, power and shifts of
  \<^verbatim>\<open>src/src/lj_carith.c\<close>.
\<close>

section \<open>Modulo\<close>

definition neg32 :: "u32 \<Rightarrow> bool" where "neg32 x \<longleftrightarrow> sint x < 0"

definition lj_vm_modi :: "u32 \<Rightarrow> u32 \<Rightarrow> u32" where
  "lj_vm_modi a b =
     (let ua = (if neg32 a then NOT a + 1 else a);
          ub = (if neg32 b then NOT b + 1 else b);
          y = ua mod ub;
          y = (if y \<noteq> 0 \<and> neg32 (a XOR b) then y - ub else y);
          y = (if neg32 (y XOR b) then NOT y + 1 else y)
      in y)"

section \<open>64 bit shifts\<close>

definition lj_rol64 :: "u64 \<Rightarrow> nat \<Rightarrow> u64" where
  "lj_rol64 x n = (push_bit n x) OR (drop_bit ((64 - n) mod 64) x)"

definition lj_ror64 :: "u64 \<Rightarrow> nat \<Rightarrow> u64" where
  "lj_ror64 x n = (push_bit ((64 - n) mod 64) x) OR (drop_bit n x)"

definition shmask :: "u32 \<Rightarrow> nat" where "shmask sh = unat (sh AND 63)"

definition lj_carith_shl64 :: "u64 \<Rightarrow> u32 \<Rightarrow> u64" where "lj_carith_shl64 x sh = push_bit (shmask sh) x"
definition lj_carith_shr64 :: "u64 \<Rightarrow> u32 \<Rightarrow> u64" where "lj_carith_shr64 x sh = drop_bit (shmask sh) x"
definition lj_carith_sar64 :: "u64 \<Rightarrow> u32 \<Rightarrow> u64" where "lj_carith_sar64 x sh = signed_drop_bit (shmask sh) x"
definition lj_carith_rol64 :: "u64 \<Rightarrow> u32 \<Rightarrow> u64" where "lj_carith_rol64 x sh = lj_rol64 x (shmask sh)"
definition lj_carith_ror64 :: "u64 \<Rightarrow> u32 \<Rightarrow> u64" where "lj_carith_ror64 x sh = lj_ror64 x (shmask sh)"

section \<open>64 bit division and power\<close>

definition I64_MIN :: u64 where "I64_MIN = 0x8000000000000000"

definition lj_carith_divu64 :: "u64 \<Rightarrow> u64 \<Rightarrow> u64" where
  "lj_carith_divu64 a b = (if b = 0 then I64_MIN else a div b)"

text \<open>C division truncates towards zero.\<close>

definition lj_carith_divi64 :: "u64 \<Rightarrow> u64 \<Rightarrow> u64" where
  "lj_carith_divi64 a b =
     (if b = 0 \<or> a = I64_MIN \<and> b = - 1 then I64_MIN else word_of_int (sint a sdiv sint b))"

definition lj_carith_modu64 :: "u64 \<Rightarrow> u64 \<Rightarrow> u64" where
  "lj_carith_modu64 a b = (if b = 0 then I64_MIN else a mod b)"

definition lj_carith_modi64 :: "u64 \<Rightarrow> u64 \<Rightarrow> u64" where
  "lj_carith_modi64 a b =
     (if b = 0 then I64_MIN else if a = I64_MIN \<and> b = - 1 then 0 else word_of_int (sint a smod sint b))"

text \<open>\<^verbatim>\<open>for (; (k & 1) == 0; k >>= 1) x *= x;\<close> is entered with a nonzero exponent.\<close>

function pow_even :: "u64 \<Rightarrow> u64 \<Rightarrow> u64 \<times> u64" where
  "pow_even x k = (if k \<noteq> 0 \<and> k AND 1 = 0 then pow_even (x * x) (drop_bit 1 k) else (x, k))"
  by auto
termination
proof (relation "measure (\<lambda>(x, k). unat k)")
  fix x k :: u64
  assume "k \<noteq> 0 \<and> k AND 1 = 0"
  then have "0 < unat k" by (simp add: unat_gt_0)
  then show "((x * x, drop_bit 1 k), x, k) \<in> measure (\<lambda>(x, k). unat k)"
    by (simp add: drop_bit_Suc unat_div_distrib)
qed simp

declare pow_even.simps [simp del]

function pow_loop :: "u64 \<Rightarrow> u64 \<Rightarrow> u64 \<Rightarrow> u64" where
  "pow_loop x y k =
     (let x = x * x
      in if k = 1 \<or> k = 0 then y * x
         else pow_loop x (if k AND 1 \<noteq> 0 then y * x else y) (drop_bit 1 k))"
  by auto
termination
proof (relation "measure (\<lambda>(x, y, k). unat k)")
  fix x y k z :: u64
  assume "\<not> (k = 1 \<or> k = 0)"
  then have "0 < unat k" by (simp add: unat_gt_0)
  then show "((z, if k AND 1 \<noteq> 0 then y * z else y, drop_bit 1 k), x, y, k) \<in> measure (\<lambda>(x, y, k). unat k)"
    by (simp add: drop_bit_Suc unat_div_distrib)
qed simp

declare pow_loop.simps [simp del]

definition lj_carith_powu64 :: "u64 \<Rightarrow> u64 \<Rightarrow> u64" where
  "lj_carith_powu64 x k =
     (if k = 0 then 1
      else case pow_even x k of (x, k) \<Rightarrow>
        let y = x; k = drop_bit 1 k in if k \<noteq> 0 then pow_loop x y k else y)"

definition lj_carith_powi64 :: "u64 \<Rightarrow> u64 \<Rightarrow> u64" where
  "lj_carith_powi64 x k =
     (if k = 0 then 1
      else if sint k < 0 then
        if x = 0 then 0x7fffffffffffffff
        else if x = 1 then 1
        else if x = - 1 then (if k AND 1 \<noteq> 0 then - 1 else 1)
        else 0
      else lj_carith_powu64 x k)"

section \<open>The power is the power\<close>

lemma and_one: "(k :: u64) AND 1 = 0 \<longleftrightarrow> even (unat k)"
proof -
  have "k AND 1 = 0 \<longleftrightarrow> \<not> bit k 0" by (simp add: and_one_eq even_iff_mod_2_eq_zero bit_0)
  also have "\<dots> \<longleftrightarrow> \<not> bit (unat k) 0" by (simp add: bit_unsigned_iff)
  also have "\<dots> \<longleftrightarrow> even (unat k)" by (simp add: bit_0)
  finally show ?thesis .
qed

lemma unat_half: "unat (drop_bit (Suc 0) (k :: u64)) = unat k div 2"
  by (simp add: drop_bit_Suc unat_div_distrib)

lemma pow_even_ok: "k \<noteq> 0 \<Longrightarrow> pow_even x k = (x', k') \<Longrightarrow> x' ^ unat k' = x ^ unat k \<and> odd (unat k')"
proof (induction x k rule: pow_even.induct)
  case (1 x k)
  show ?case
  proof (cases "k AND 1 = 0")
    case True
    have e: "even (unat k)" and p: "0 < unat k" using True 1(2) and_one by (auto simp: unat_gt_0)
    then have "0 < unat k div 2" by (simp add: div_greater_zero_iff) (metis dvd_imp_le)
    then have nz: "drop_bit 1 k \<noteq> 0" using unat_half [of k] by (metis less_numeral_extra(3) unat_0 One_nat_def)
    have "pow_even (x * x) (drop_bit 1 k) = (x', k')" using 1(3) True 1(2) by (subst (asm) pow_even.simps) simp
    from 1(1) [OF _ nz this] True 1(2) have "x' ^ unat k' = (x * x) ^ (unat k div 2) \<and> odd (unat k')"
      by (simp add: unat_half)
    moreover have "(x * x) ^ (unat k div 2) = x ^ unat k"
      using e by (simp flip: power2_eq_square power_mult)
    ultimately show ?thesis by simp
  next
    case False
    then show ?thesis using 1(3) and_one by (subst (asm) pow_even.simps) auto
  qed
qed

lemma pow_loop_ok: "k \<noteq> 0 \<Longrightarrow> pow_loop x y k = y * (x * x) ^ unat k"
proof (induction x y k rule: pow_loop.induct)
  case (1 x y k)
  show ?case
  proof (cases "k = 1")
    case True
    then show ?thesis by (subst pow_loop.simps) (simp add: Let_def)
  next
    case False
    then have k: "1 < unat k" using 1(2)
      by (metis One_nat_def nat_neq_iff unat_1 unat_gt_0 less_Suc0 word_unat_eq_iff gr_implies_not0)
    then have "0 < unat k div 2" by simp
    then have nz: "drop_bit 1 k \<noteq> 0" using unat_half [of k] by (metis less_numeral_extra(3) unat_0 One_nat_def)
    let ?z = "x * x" and ?y = "if k AND 1 \<noteq> 0 then y * (x * x) else y"
    have "pow_loop x y k = pow_loop ?z ?y (drop_bit 1 k)"
      using False 1(2) by (subst pow_loop.simps) (simp add: Let_def)
    also have "\<dots> = ?y * (?z * ?z) ^ (unat k div 2)"
      using 1(1) [OF refl _ nz] False 1(2) by (simp add: unat_half)
    also have "(?z * ?z) ^ (unat k div 2) = ?z ^ (2 * (unat k div 2))" by (simp flip: power2_eq_square power_mult)
    also have "?y * ?z ^ (2 * (unat k div 2)) = y * ?z ^ unat k"
    proof (cases "even (unat k)")
      case True
      then show ?thesis using and_one by simp
    next
      case odd: False
      then have "unat k = Suc (2 * (unat k div 2))" by (simp add: odd_two_times_div_two_succ)
      then have "?z ^ unat k = ?z * ?z ^ (2 * (unat k div 2))" by (metis power_Suc)
      with odd show ?thesis using and_one by (simp add: mult.assoc)
    qed
    finally show ?thesis .
  qed
qed

text \<open>C15. The 64 bit unsigned power by repeated squaring ends and is the power modulo 2 to the 64th.\<close>

theorem powu64_power: "lj_carith_powu64 x k = x ^ unat k"
proof (cases "k = 0")
  case True
  then show ?thesis by (simp add: lj_carith_powu64_def)
next
  case False
  obtain x' k' where e: "pow_even x k = (x', k')" by fastforce
  from pow_even_ok [OF False e] have v: "x' ^ unat k' = x ^ unat k" "odd (unat k')" by simp_all
  have k': "unat k' = Suc (2 * (unat k' div 2))" using v(2) by (simp add: odd_two_times_div_two_succ)
  show ?thesis
  proof (cases "drop_bit 1 k' = 0")
    case True
    then have "unat k' div 2 = 0" using unat_half [of k'] by simp
    with k' have "unat k' = 1" by simp
    with v False e True show ?thesis by (simp add: lj_carith_powu64_def Let_def)
  next
    case nz: False
    have "pow_loop x' x' (drop_bit 1 k') = x' * (x' * x') ^ (unat k' div 2)"
      using pow_loop_ok [OF nz] by (simp add: unat_half)
    also have "\<dots> = x' ^ unat k'" using k' by (metis power2_eq_square power_Suc power_mult)
    finally show ?thesis using v False e nz by (simp add: lj_carith_powu64_def Let_def)
  qed
qed

section \<open>The modulo is floored\<close>

lemma neg32_xor: "neg32 (a XOR b) \<longleftrightarrow> neg32 a \<noteq> neg32 b"
  by (simp add: neg32_def bit_last_iff [symmetric] bit_xor_iff)

lemma abs_word: "unat (if neg32 x then NOT x + 1 else x) = nat \<bar>sint x\<bar>"
  unfolding neg32_def by (rule unat_abs_word)

lemma sint_wi: "- (2 ^ 31) \<le> i \<Longrightarrow> i < 2 ^ 31 \<Longrightarrow> sint (word_of_int i :: u32) = i"
  by (simp add: signed_of_int signed_take_bit_int_eq_self)

lemma unat_wi: "unat x = nat i \<Longrightarrow> 0 \<le> i \<Longrightarrow> x = word_of_int i"
  by (metis int_nat_eq of_nat_unat word_of_int_uint)

lemma floor_mod_cases:
  fixes A B :: int
  defines "M \<equiv> \<bar>A\<bar> mod \<bar>B\<bar>"
  assumes "B \<noteq> 0"
  shows "A mod B = (if M = 0 then 0 else if (A < 0) = (B < 0) then (if B < 0 then - M else M) else if B < 0 then M + B else B - M)"
proof -
  consider "0 \<le> A" "0 < B" | "0 \<le> A" "B < 0" | "A < 0" "0 < B" | "A < 0" "B < 0" using assms(2) by linarith
  then show ?thesis
  proof cases
    case 2
    then show ?thesis using zmod_zminus2_eq_if [of A "- B"] by (auto simp: M_def)
  next
    case 3
    then show ?thesis using zmod_zminus1_eq_if [of "- A" B] by (auto simp: M_def)
  next
    case 4
    then show ?thesis using mod_minus_minus [of "- A" "- B"] by (auto simp: M_def)
  qed (auto simp: M_def)
qed

lemma sint_bounds: "- (2 ^ 31) \<le> sint (x :: u32)" "sint x < 2 ^ 31"
  using sint_greater_eq [of x] sint_less [of x] by simp_all

lemma vm_modi_floor:
  assumes "b \<noteq> 0"
  shows "sint (lj_vm_modi a b) = sint a mod sint b"
proof -
  let ?A = "sint a" and ?B = "sint b"
  define M where "M = \<bar>?A\<bar> mod \<bar>?B\<bar>"
  have B: "?B \<noteq> 0" using assms word_eq_iff_signed [of b 0] by simp
  have M: "0 \<le> M" "M < \<bar>?B\<bar>" using B by (simp_all add: M_def)
  have b31: "\<bar>?B\<bar> \<le> 2 ^ 31" using sint_bounds [of b] by linarith
  define ua ub where "ua = (if neg32 a then NOT a + 1 else a)" and "ub = (if neg32 b then NOT b + 1 else b)"
  have u: "unat ua = nat \<bar>?A\<bar>" "unat ub = nat \<bar>?B\<bar>" unfolding ua_def ub_def by (rule abs_word)+
  define y where "y = ua mod ub"
  have "unat y = nat M" by (simp add: y_def unat_mod_distrib u M_def nat_mod_distrib)
  then have yw: "y = word_of_int M" by (rule unat_wi) (rule M(1))
  have ubw: "ub = word_of_int \<bar>?B\<bar>" using u(2) by (rule unat_wi) simp
  have sy: "sint y = M" unfolding yw using M b31 by (intro sint_wi) simp_all
  have y0: "y = 0 \<longleftrightarrow> M = 0" using sy word_eq_iff_signed [of y 0, where 'a = int] by simp
  define y1 where "y1 = (if y \<noteq> 0 \<and> neg32 (a XOR b) then y - ub else y)"
  define m1 where "m1 = (if M \<noteq> 0 \<and> (?A < 0) \<noteq> (?B < 0) then M - \<bar>?B\<bar> else M)"
  have nx: "neg32 (a XOR b) \<longleftrightarrow> (?A < 0) \<noteq> (?B < 0)" unfolding neg32_xor by (simp add: neg32_def)
  have "y - ub = word_of_int (M - \<bar>?B\<bar>)" by (simp add: yw ubw)
  then have y1w: "y1 = word_of_int m1" unfolding y1_def m1_def y0 nx using yw by simp
  have m1: "- (2 ^ 31) < m1" "m1 < 2 ^ 31" using M b31 by (auto simp: m1_def)
  have s1: "sint y1 = m1" unfolding y1w using m1 by (intro sint_wi) simp_all
  define m2 where "m2 = (if (m1 < 0) \<noteq> (?B < 0) then - m1 else m1)"
  have "lj_vm_modi a b = (if neg32 (y1 XOR b) then NOT y1 + 1 else y1)"
    unfolding lj_vm_modi_def Let_def ua_def [symmetric] ub_def [symmetric] y_def [symmetric] y1_def [symmetric] ..
  also have "\<dots> = word_of_int m2"
  proof -
    have "neg32 (y1 XOR b) \<longleftrightarrow> (m1 < 0) \<noteq> (?B < 0)" unfolding neg32_xor by (simp add: neg32_def s1)
    moreover have "NOT y1 + 1 = word_of_int (- m1)" unfolding y1w by (simp flip: minus_eq_not_plus_1)
    ultimately show ?thesis using y1w by (simp add: m2_def)
  qed
  finally have "lj_vm_modi a b = word_of_int m2" .
  moreover have "sint (word_of_int m2 :: u32) = m2" using m1 by (intro sint_wi) (auto simp: m2_def)
  moreover have "m2 = ?A mod ?B"
    unfolding floor_mod_cases [OF B] M_def [symmetric] using M by (auto simp: m2_def m1_def)
  ultimately show ?thesis by simp
qed

text \<open>C16. For every nonzero divisor the 32 bit modulo is the floored one: the result has the sign of the
  divisor, at \<open>-2^31\<close> too.\<close>

theorem modi_floor:
  assumes "b \<noteq> 0"
  shows "sint (lj_vm_modi a b) = sint a mod sint b"
  using assms by (rule vm_modi_floor)

lemma modi_floor_witness: "sint (lj_vm_modi (- 5) 3) = 1 \<and> sint (lj_vm_modi 5 0x80000000) = 5 - 2 ^ 31"
  using modi_floor [of 3 "- 5"] modi_floor [of "0x80000000" 5] by simp

end
