(* ===== verification/Fold.thy ===== *)
theory Fold
  imports Ir Carith
begin

text \<open>
  The integer part of the FOLD engine, \<^verbatim>\<open>src/src/lj_opt_fold.c\<close>: constant folding, algebraic
  simplification, reassociation, array bounds check elimination and commutativity for 32 and 64 bit
  integers, with the rule dispatch and the retry loop of \<^verbatim>\<open>lj_opt_fold\<close>. A fold function takes the
  state and the current instruction; \<open>fl\<close> and \<open>fr\<close> are the instructions of its operands. It is a
  function of the folding of nested instructions too, which one rule uses. The rules for floating
  point, strings, buffers, pointers, conversions, loads and stores are not modelled, so the table
  holds the keys whose operands are integers.
\<close>

section \<open>Results of a fold function\<close>

datatype fres = NEXTFOLD | RETRYFOLD irins | KINTFOLD u32 | FAILFOLD | DROPFOLD | FREF nat

datatype trerr = LJ_TRERR_GFAIL

type_synonym fout = "(jit_State \<times> (trerr + nat)) option"
type_synonym frule = "(jit_State \<Rightarrow> irins \<Rightarrow> fout) \<Rightarrow> jit_State \<Rightarrow> irins \<Rightarrow> (jit_State \<times> fres) option"

definition CONDFOLD :: "bool \<Rightarrow> fres" where "CONDFOLD c = (if c then DROPFOLD else FAILFOLD)"

definition LEFTFOLD :: "irins \<Rightarrow> fres" where "LEFTFOLD fins = FREF (op1 fins)"
definition RIGHTFOLD :: "irins \<Rightarrow> fres" where "RIGHTFOLD fins = FREF (op2 fins)"

definition INT64FOLD :: "jit_State \<Rightarrow> u64 \<Rightarrow> jit_State \<times> fres" where
  "INT64FOLD J k = (case lj_ir_kint64 J k of (J, ref) \<Rightarrow> (J, FREF ref))"

definition EMITFOLD :: "jit_State \<Rightarrow> irins \<Rightarrow> jit_State \<times> fres" where
  "EMITFOLD J fins = (case lj_ir_emit J fins of (J, ref) \<Rightarrow> (J, FREF ref))"

abbreviation fl :: "jit_State \<Rightarrow> irins \<Rightarrow> irins" where "fl J fins \<equiv> ir J (op1 fins)"
abbreviation fr :: "jit_State \<Rightarrow> irins \<Rightarrow> irins" where "fr J fins \<equiv> ir J (op2 fins)"

definition checki32 :: "u64 \<Rightarrow> bool" where
  "checki32 x \<longleftrightarrow> x = scast (ucast x :: u32)"

text \<open>The 64 bit value of a \<^verbatim>\<open>KINT\<close> or \<^verbatim>\<open>KINT64\<close>.\<close>

definition kval :: "irins \<Rightarrow> u64" where
  "kval i = (if opc i = IR_KINT then scast (ik i) else tv i)"

section \<open>Constant folding for 32 bit integers\<close>

definition kfold_intop :: "u32 \<Rightarrow> u32 \<Rightarrow> irop \<Rightarrow> u32" where
  "kfold_intop k1 k2 op =
     (let sh = unat (k2 AND 31)
      in if op = IR_ADD then k1 + k2
         else if op = IR_SUB then k1 - k2
         else if op = IR_MUL then k1 * k2
         else if op = IR_MOD then lj_vm_modi k1 k2
         else if op = IR_NEG then NOT k1 + 1
         else if op = IR_BAND then k1 AND k2
         else if op = IR_BOR then k1 OR k2
         else if op = IR_BXOR then k1 XOR k2
         else if op = IR_BSHL then push_bit sh k1
         else if op = IR_BSHR then drop_bit sh k1
         else if op = IR_BSAR then signed_drop_bit sh k1
         else if op = IR_BROL then lj_rol k1 sh
         else if op = IR_BROR then lj_ror k1 sh
         else if op = IR_MIN then if k1 <s k2 then k1 else k2
         else if op = IR_MAX then if k2 <s k1 then k1 else k2
         else k1)"

definition kfold_int64arith :: "u64 \<Rightarrow> u64 \<Rightarrow> irop \<Rightarrow> u64" where
  "kfold_int64arith k1 k2 op =
     (let sh = unat (k2 AND 63)
      in if op = IR_ADD then k1 + k2
         else if op = IR_SUB then k1 - k2
         else if op = IR_MUL then k1 * k2
         else if op = IR_BAND then k1 AND k2
         else if op = IR_BOR then k1 OR k2
         else if op = IR_BXOR then k1 XOR k2
         else if op = IR_BSHL then push_bit sh k1
         else if op = IR_BSHR then drop_bit sh k1
         else if op = IR_BSAR then signed_drop_bit sh k1
         else if op = IR_BROL then lj_rol64 k1 sh
         else if op = IR_BROR then lj_ror64 k1 sh
         else k1)"

definition fold_kfold_intarith :: frule where
  "fold_kfold_intarith rf J fins = Some (J, KINTFOLD (kfold_intop (ik (fl J fins)) (ik (fr J fins)) (opc fins)))"

definition fold_kfold_intovarith :: frule where
  "fold_kfold_intovarith rf J fins =
     (let k = kfold_int64arith (scast (ik (fl J fins))) (scast (ik (fr J fins))) (opc fins - IR_ADDOV + IR_ADD)
      in Some (J, if checki32 k then KINTFOLD (ucast k) else FAILFOLD))"

definition fold_kfold_bnot :: frule where
  "fold_kfold_bnot rf J fins = Some (J, KINTFOLD (NOT (ik (fl J fins))))"

definition fold_kfold_bswap :: frule where
  "fold_kfold_bswap rf J fins = Some (J, KINTFOLD (lj_bswap (ik (fl J fins))))"

definition fold_kfold_intcomp :: frule where
  "fold_kfold_intcomp rf J fins =
     (let a = ik (fl J fins); b = ik (fr J fins); o' = opc fins
      in Some (J, if o' = IR_LT then CONDFOLD (a <s b)
                  else if o' = IR_GE then CONDFOLD (b <=s a)
                  else if o' = IR_LE then CONDFOLD (a <=s b)
                  else if o' = IR_GT then CONDFOLD (b <s a)
                  else if o' = IR_ULT then CONDFOLD (a < b)
                  else if o' = IR_UGE then CONDFOLD (b \<le> a)
                  else if o' = IR_ULE then CONDFOLD (a \<le> b)
                  else if o' = IR_ABC \<or> o' = IR_UGT then CONDFOLD (b < a)
                  else FAILFOLD))"

definition fold_kfold_intcomp0 :: frule where
  "fold_kfold_intcomp0 rf J fins = Some (J, if ik (fr J fins) = 0 then DROPFOLD else NEXTFOLD)"

section \<open>Constant folding for 64 bit integers\<close>

definition fold_kfold_int64arith :: frule where
  "fold_kfold_int64arith rf J fins =
     Some (INT64FOLD J (kfold_int64arith (tv (fl J fins)) (tv (fr J fins)) (opc fins)))"

definition fold_kfold_int64arith2 :: frule where
  "fold_kfold_int64arith2 rf J fins =
     (let k1 = tv (fl J fins); k2 = tv (fr J fins);
          k = (if irt_isi64 (irt fins) then
                 if opc fins = IR_DIV then lj_carith_divi64 k1 k2
                 else if opc fins = IR_MOD then lj_carith_modi64 k1 k2
                 else lj_carith_powi64 k1 k2
               else
                 if opc fins = IR_DIV then lj_carith_divu64 k1 k2
                 else if opc fins = IR_MOD then lj_carith_modu64 k1 k2
                 else lj_carith_powu64 k1 k2)
      in Some (INT64FOLD J k))"

definition lj_carith_shift64 :: "u64 \<Rightarrow> u32 \<Rightarrow> irop \<Rightarrow> u64" where
  "lj_carith_shift64 x sh op =
     (if op = IR_BSHL - IR_BSHL then lj_carith_shl64 x sh
      else if op = IR_BSHR - IR_BSHL then lj_carith_shr64 x sh
      else if op = IR_BSAR - IR_BSHL then lj_carith_sar64 x sh
      else if op = IR_BROL - IR_BSHL then lj_carith_rol64 x sh
      else if op = IR_BROR - IR_BSHL then lj_carith_ror64 x sh
      else x)"

definition fold_kfold_int64shift :: frule where
  "fold_kfold_int64shift rf J fins =
     (let k = tv (fl J fins); sh = ik (fr J fins) AND 63
      in Some (INT64FOLD J (lj_carith_shift64 k sh (opc fins - IR_BSHL))))"

definition fold_kfold_bnot64 :: frule where
  "fold_kfold_bnot64 rf J fins = Some (INT64FOLD J (NOT (tv (fl J fins))))"

definition fold_kfold_bswap64 :: frule where
  "fold_kfold_bswap64 rf J fins = Some (INT64FOLD J (lj_bswap64 (tv (fl J fins))))"

definition fold_kfold_int64comp :: frule where
  "fold_kfold_int64comp rf J fins =
     (let a = tv (fl J fins); b = tv (fr J fins); o' = opc fins
      in Some (J, if o' = IR_LT then CONDFOLD (a <s b)
                  else if o' = IR_GE then CONDFOLD (b <=s a)
                  else if o' = IR_LE then CONDFOLD (a <=s b)
                  else if o' = IR_GT then CONDFOLD (b <s a)
                  else if o' = IR_ULT then CONDFOLD (a < b)
                  else if o' = IR_UGE then CONDFOLD (b \<le> a)
                  else if o' = IR_ULE then CONDFOLD (a \<le> b)
                  else if o' = IR_UGT then CONDFOLD (b < a)
                  else FAILFOLD))"

definition fold_kfold_int64comp0 :: frule where
  "fold_kfold_int64comp0 rf J fins = Some (J, if tv (fr J fins) = 0 then DROPFOLD else NEXTFOLD)"

definition fold_kfold_kref :: frule where
  "fold_kfold_kref rf J fins = Some (J, CONDFOLD ((op1 fins = op2 fins) \<noteq> (opc fins = IR_NE)))"

section \<open>Shortcuts\<close>

definition fold_shortcut_leftleft :: frule where
  "fold_shortcut_leftleft rf J fins =
     Some (J, if irt_isphi (irt (fl J fins)) then NEXTFOLD else FREF (op1 (fl J fins)))"

definition fold_simplify_numadd_negx :: frule where
  "fold_simplify_numadd_negx rf J fins =
     Some (J, if irt_isphi (irt (fl J fins)) then NEXTFOLD
              else RETRYFOLD (fins\<lparr>opc := IR_SUB, op1 := op2 fins, op2 := op1 (fl J fins)\<rparr>))"

definition fold_simplify_numadd_xneg :: frule where
  "fold_simplify_numadd_xneg rf J fins =
     Some (J, if irt_isphi (irt (fr J fins)) then NEXTFOLD
              else RETRYFOLD (fins\<lparr>opc := IR_SUB, op2 := op1 (fr J fins)\<rparr>))"

definition fold_simplify_numsub_xneg :: frule where
  "fold_simplify_numsub_xneg rf J fins =
     Some (J, if irt_isphi (irt (fr J fins)) then NEXTFOLD
              else RETRYFOLD (fins\<lparr>opc := IR_ADD, op2 := op1 (fr J fins)\<rparr>))"

definition fold_simplify_nummuldiv_negneg :: frule where
  "fold_simplify_nummuldiv_negneg rf J fins =
     Some (J, if opc fins = IR_DIV \<and> (irt_isu32 (irt fins) \<or> irt_isu64 (irt fins)) then NEXTFOLD
              else if irt_isphi (irt (fl J fins)) then NEXTFOLD
              else if irt_isphi (irt (fr J fins)) then NEXTFOLD
              else RETRYFOLD (fins\<lparr>op1 := op1 (fl J fins), op2 := op1 (fr J fins)\<rparr>))"

section \<open>Integer algebraic simplifications\<close>

definition fold_simplify_intadd_k :: frule where
  "fold_simplify_intadd_k rf J fins = Some (J, if ik (fr J fins) = 0 then LEFTFOLD fins else NEXTFOLD)"

definition fold_simplify_intmul_k :: frule where
  "fold_simplify_intmul_k rf J fins =
     (let i = ik (fr J fins)
      in Some (J, if i = 0 then RIGHTFOLD fins
                  else if i = 1 then LEFTFOLD fins
                  else if i = 2 then RETRYFOLD (fins\<lparr>opc := IR_ADDOV, op2 := op1 fins\<rparr>)
                  else NEXTFOLD))"

text \<open>\<^verbatim>\<open>fins->op2 = lj_ir_kint(J, k); return RETRYFOLD;\<close> after the other changes of the instruction.\<close>

definition retry_kint :: "jit_State \<Rightarrow> irins \<Rightarrow> u32 \<Rightarrow> (jit_State \<times> fres) option" where
  "retry_kint J fins k = (case lj_ir_kint J k of (J, ref) \<Rightarrow> Some (J, RETRYFOLD (fins\<lparr>op2 := ref\<rparr>)))"

definition retry_kint64 :: "jit_State \<Rightarrow> irins \<Rightarrow> u64 \<Rightarrow> (jit_State \<times> fres) option" where
  "retry_kint64 J fins k = (case lj_ir_kint64 J k of (J, ref) \<Rightarrow> Some (J, RETRYFOLD (fins\<lparr>op2 := ref\<rparr>)))"

definition fold_simplify_intsub_k :: frule where
  "fold_simplify_intsub_k rf J fins =
     (if ik (fr J fins) = 0 then Some (J, LEFTFOLD fins)
      else retry_kint J (fins\<lparr>opc := IR_ADD\<rparr>) (NOT (ik (fr J fins)) + 1))"

definition fold_simplify_intsub_kleft :: frule where
  "fold_simplify_intsub_kleft rf J fins =
     Some (J, if (if opc (fl J fins) = IR_KINT then ik (fl J fins) = 0 else tv (fl J fins) = 0)
              then RETRYFOLD (fins\<lparr>opc := IR_NEG, op1 := op2 fins\<rparr>) else NEXTFOLD)"

definition fold_simplify_intadd_k64 :: frule where
  "fold_simplify_intadd_k64 rf J fins = Some (J, if tv (fr J fins) = 0 then LEFTFOLD fins else NEXTFOLD)"

definition fold_simplify_intsub_k64 :: frule where
  "fold_simplify_intsub_k64 rf J fins =
     (let k = tv (fr J fins)
      in if k = 0 then Some (J, LEFTFOLD fins) else retry_kint64 J (fins\<lparr>opc := IR_ADD\<rparr>) (NOT k + 1))"

definition simplify_intmul_k :: "jit_State \<Rightarrow> irins \<Rightarrow> u32 \<Rightarrow> (jit_State \<times> fres) option" where
  "simplify_intmul_k J fins k =
     (if k = 0 then Some (J, RIGHTFOLD fins)
      else if k = 1 then Some (J, LEFTFOLD fins)
      else if k AND (k - 1) = 0 then retry_kint J (fins\<lparr>opc := IR_BSHL\<rparr>) (word_of_nat (lj_fls k))
      else Some (J, NEXTFOLD))"

definition fold_simplify_intmul_k32 :: frule where
  "fold_simplify_intmul_k32 rf J fins =
     (if 0 <=s ik (fr J fins) then simplify_intmul_k J fins (ik (fr J fins)) else Some (J, NEXTFOLD))"

definition fold_simplify_intmul_k64 :: frule where
  "fold_simplify_intmul_k64 rf J fins =
     (if tv (fr J fins) < 0x80000000 then simplify_intmul_k J fins (ucast (tv (fr J fins))) else Some (J, NEXTFOLD))"

definition fold_simplify_intmod_k :: frule where
  "fold_simplify_intmod_k rf J fins =
     (let k = ik (fr J fins)
      in if 0 <s k \<and> k AND (k - 1) = 0 then retry_kint J (fins\<lparr>opc := IR_BAND\<rparr>) (k - 1)
         else Some (J, NEXTFOLD))"

definition fold_simplify_intmod_kleft :: frule where
  "fold_simplify_intmod_kleft rf J fins = Some (J, if ik (fl J fins) = 0 then KINTFOLD 0 else NEXTFOLD)"

definition zero_fold :: "jit_State \<Rightarrow> irins \<Rightarrow> jit_State \<times> fres" where
  "zero_fold J fins = (if irt_is64 (irt fins) then INT64FOLD J 0 else (J, KINTFOLD 0))"

definition fold_simplify_intsub :: frule where
  "fold_simplify_intsub rf J fins =
     Some (if op1 fins = op2 fins \<and> \<not> irt_isnum (irt fins) then zero_fold J fins else (J, NEXTFOLD))"

definition fold_simplify_intsubadd_leftcancel :: frule where
  "fold_simplify_intsubadd_leftcancel rf J fins =
     Some (J, if \<not> irt_isnum (irt fins) then
                if irt_isphi (irt (fl J fins)) then NEXTFOLD
                else if op2 fins = op1 (fl J fins) then FREF (op2 (fl J fins))
                else if op2 fins = op2 (fl J fins) then FREF (op1 (fl J fins))
                else NEXTFOLD
              else NEXTFOLD)"

text \<open>\<^verbatim>\<open>fins->op1 = lj_ir_kint(J, 0); fins->op2 = ref; return RETRYFOLD;\<close>\<close>

definition retry_neg :: "jit_State \<Rightarrow> irins \<Rightarrow> nat \<Rightarrow> (jit_State \<times> fres) option" where
  "retry_neg J fins ref = (case lj_ir_kint J 0 of (J, k) \<Rightarrow> Some (J, RETRYFOLD (fins\<lparr>op1 := k, op2 := ref\<rparr>)))"

definition fold_simplify_intsubsub_leftcancel :: frule where
  "fold_simplify_intsubsub_leftcancel rf J fins =
     (if \<not> irt_isnum (irt fins) then
        if irt_isphi (irt (fl J fins)) then Some (J, NEXTFOLD)
        else if op2 fins = op1 (fl J fins) then retry_neg J fins (op2 (fl J fins))
        else Some (J, NEXTFOLD)
      else Some (J, NEXTFOLD))"

definition fold_simplify_intsubsub_rightcancel :: frule where
  "fold_simplify_intsubsub_rightcancel rf J fins =
     Some (J, if \<not> irt_isnum (irt fins) then
                if irt_isphi (irt (fr J fins)) then NEXTFOLD
                else if op1 fins = op1 (fr J fins) then FREF (op2 (fr J fins))
                else NEXTFOLD
              else NEXTFOLD)"

definition fold_simplify_intsubadd_rightcancel :: frule where
  "fold_simplify_intsubadd_rightcancel rf J fins =
     (if \<not> irt_isnum (irt fins) then
        if irt_isphi (irt (fr J fins)) then Some (J, NEXTFOLD)
        else if op1 fins = op1 (fr J fins) then retry_neg J fins (op2 (fr J fins))
        else if op1 fins = op2 (fr J fins) then retry_neg J fins (op1 (fr J fins))
        else Some (J, NEXTFOLD)
      else Some (J, NEXTFOLD))"

definition fold_simplify_intsubaddadd_cancel :: frule where
  "fold_simplify_intsubaddadd_cancel rf J fins =
     (let l = fl J fins; r = fr J fins
      in Some (J, if \<not> irt_isnum (irt fins) then
                    if irt_isphi (irt l) then NEXTFOLD
                    else if irt_isphi (irt r) then NEXTFOLD
                    else if op1 l = op1 r then RETRYFOLD (fins\<lparr>op1 := op2 l, op2 := op2 r\<rparr>)
                    else if op1 l = op2 r then RETRYFOLD (fins\<lparr>op1 := op2 l, op2 := op1 r\<rparr>)
                    else if op2 l = op1 r then RETRYFOLD (fins\<lparr>op1 := op1 l, op2 := op2 r\<rparr>)
                    else if op2 l = op2 r then RETRYFOLD (fins\<lparr>op1 := op1 l, op2 := op1 r\<rparr>)
                    else NEXTFOLD
                  else NEXTFOLD))"

definition fold_simplify_band_k :: frule where
  "fold_simplify_band_k rf J fins =
     (let k = kval (fr J fins)
      in Some (J, if k = 0 then RIGHTFOLD fins else if k = - 1 then LEFTFOLD fins else NEXTFOLD))"

definition fold_simplify_bor_k :: frule where
  "fold_simplify_bor_k rf J fins =
     (let k = kval (fr J fins)
      in Some (J, if k = 0 then LEFTFOLD fins else if k = - 1 then RIGHTFOLD fins else NEXTFOLD))"

definition fold_simplify_bxor_k :: frule where
  "fold_simplify_bxor_k rf J fins =
     (let k = kval (fr J fins)
      in Some (J, if k = 0 then LEFTFOLD fins
                  else if k = - 1 then RETRYFOLD (fins\<lparr>opc := IR_BNOT, op2 := 0\<rparr>)
                  else NEXTFOLD))"

definition shiftmask :: "irins \<Rightarrow> u32" where
  "shiftmask fins = (if irt_is64 (irt fins) then 63 else 31)"

definition fold_simplify_shift_ik :: frule where
  "fold_simplify_shift_ik rf J fins =
     (let mask = shiftmask fins; k = ik (fr J fins) AND mask
      in if k = 0 then Some (J, LEFTFOLD fins)
         else if k = 1 \<and> opc fins = IR_BSHL then Some (J, RETRYFOLD (fins\<lparr>opc := IR_ADD, op2 := op1 fins\<rparr>))
         else if k \<noteq> ik (fr J fins) then retry_kint J fins k
         else if opc fins = IR_BROR then retry_kint J (fins\<lparr>opc := IR_BROL\<rparr>) ((- k) AND mask)
         else Some (J, NEXTFOLD))"

text \<open>The x64 backend masks shift and rotate counts (\<^verbatim>\<open>LJ_TARGET_MASKSHIFT\<close>, \<^verbatim>\<open>LJ_TARGET_MASKROT\<close>).\<close>

definition LJ_TARGET_MASKSHIFT :: bool where "LJ_TARGET_MASKSHIFT = True"
definition LJ_TARGET_MASKROT :: bool where "LJ_TARGET_MASKROT = True"

definition fold_simplify_shift_andk :: frule where
  "fold_simplify_shift_andk rf J fins =
     (let irk = ir J (op2 (fr J fins))
      in Some (J, if irt_isphi (irt (fr J fins)) then NEXTFOLD
                  else if (if opc fins < IR_BROL then LJ_TARGET_MASKSHIFT else LJ_TARGET_MASKROT) \<and> opc irk = IR_KINT then
                    let mask = shiftmask fins; k = ik irk AND mask
                    in if k = mask then RETRYFOLD (fins\<lparr>op2 := op1 (fr J fins)\<rparr>) else NEXTFOLD
                  else NEXTFOLD))"

definition fold_simplify_shift1_ki :: frule where
  "fold_simplify_shift1_ki rf J fins =
     Some (J, if kval (fl J fins) = 0 then LEFTFOLD fins else NEXTFOLD)"

definition fold_simplify_shift2_ki :: frule where
  "fold_simplify_shift2_ki rf J fins =
     (let k = kval (fl J fins) in Some (J, if k = 0 \<or> k = - 1 then LEFTFOLD fins else NEXTFOLD))"

text \<open>The nested fold is of an instruction without a guard, so it always returns a reference; an
  error would abort the trace.\<close>

definition IRTI_BAND :: "irins \<Rightarrow> irins" where
  "IRTI_BAND fins = fins\<lparr>opc := IR_BAND, irt := IRT_INT\<rparr>"

definition fold_simplify_shiftk_andk :: frule where
  "fold_simplify_shiftk_andk rf J fins =
     (let l = fl J fins; irk = ir J (op2 l); r = fr J fins
      in if irt_isphi (irt l) then Some (J, NEXTFOLD)
         else if opc irk = IR_KINT then
           (let k = kfold_intop (ik irk) (ik r) (opc fins)
            in case rf J (fins\<lparr>op1 := op1 l\<rparr>) of
                 Some (J, Inr ref) \<Rightarrow> retry_kint J (IRTI_BAND (fins\<lparr>op1 := ref\<rparr>)) k
               | Some (J, Inl e) \<Rightarrow> Some (J, FAILFOLD)
               | None \<Rightarrow> None)
         else if opc irk = IR_KINT64 then
           (let k = kfold_int64arith (tv irk) (scast (ik r)) (opc fins)
            in case rf J (fins\<lparr>op1 := op1 l\<rparr>) of
                 Some (J, Inr ref) \<Rightarrow> retry_kint64 J (fins\<lparr>op1 := ref, opc := opc l, irt := irt l\<rparr>) k
               | Some (J, Inl e) \<Rightarrow> Some (J, FAILFOLD)
               | None \<Rightarrow> None)
         else Some (J, NEXTFOLD))"

definition fold_simplify_andk_shiftk :: frule where
  "fold_simplify_andk_shiftk rf J fins =
     (let irk = ir J (op2 (fl J fins))
      in Some (J, if opc irk = IR_KINT \<and> kfold_intop (- 1) (ik irk) (opc (fl J fins)) = ik (fr J fins)
                  then LEFTFOLD fins else NEXTFOLD))"

definition fold_simplify_andor_k :: frule where
  "fold_simplify_andor_k rf J fins =
     (let irk = ir J (op2 (fl J fins))
      in Some (J, if irt_isphi (irt (fl J fins)) then NEXTFOLD
                  else if opc irk = IR_KINT then
                    (let k = kfold_intop (ik irk) (ik (fr J fins)) (opc fins)
                     in if k = (if opc fins = IR_BAND then 0 else - 1)
                        then RETRYFOLD (fins\<lparr>op1 := op1 (fl J fins)\<rparr>) else NEXTFOLD)
                  else NEXTFOLD))"

definition fold_simplify_andor_k64 :: frule where
  "fold_simplify_andor_k64 rf J fins =
     (let irk = ir J (op2 (fl J fins))
      in Some (J, if irt_isphi (irt (fl J fins)) then NEXTFOLD
                  else if opc irk = IR_KINT64 then
                    (let k = kfold_int64arith (tv irk) (tv (fr J fins)) (opc fins)
                     in if k = (if opc fins = IR_BAND then 0 else - 1)
                        then RETRYFOLD (fins\<lparr>op1 := op1 (fl J fins)\<rparr>) else NEXTFOLD)
                  else NEXTFOLD))"

section \<open>Reassociation\<close>

definition fold_reassoc_intarith_k :: frule where
  "fold_reassoc_intarith_k rf J fins =
     (let irk = ir J (op2 (fl J fins))
      in if opc irk = IR_KINT then
           (let k = kfold_intop (ik irk) (ik (fr J fins)) (opc fins)
            in if k = ik irk then Some (J, LEFTFOLD fins)
               else if irt_isphi (irt (fl J fins)) then Some (J, NEXTFOLD)
               else retry_kint J (fins\<lparr>op1 := op1 (fl J fins)\<rparr>) k)
         else Some (J, NEXTFOLD))"

definition fold_reassoc_intarith_k64 :: frule where
  "fold_reassoc_intarith_k64 rf J fins =
     (let irk = ir J (op2 (fl J fins))
      in if opc irk = IR_KINT64 then
           (let k = kfold_int64arith (tv irk) (tv (fr J fins)) (opc fins)
            in if irt_isphi (irt (fl J fins)) then Some (J, NEXTFOLD)
               else retry_kint64 J (fins\<lparr>op1 := op1 (fl J fins)\<rparr>) k)
         else Some (J, NEXTFOLD))"

definition fold_reassoc_dup :: frule where
  "fold_reassoc_dup rf J fins =
     Some (J, if op2 fins = op1 (fl J fins) \<or> op2 fins = op2 (fl J fins) then LEFTFOLD fins else NEXTFOLD)"

definition fold_reassoc_dup_minmax :: frule where
  "fold_reassoc_dup_minmax rf J fins =
     Some (J, if op2 fins = op2 (fl J fins) then LEFTFOLD fins else NEXTFOLD)"

definition fold_reassoc_bxor :: frule where
  "fold_reassoc_bxor rf J fins =
     Some (J, if irt_isphi (irt (fl J fins)) then NEXTFOLD
              else if op2 fins = op1 (fl J fins) then FREF (op2 (fl J fins))
              else if op2 fins = op2 (fl J fins) then FREF (op1 (fl J fins))
              else NEXTFOLD)"

definition fold_reassoc_shift :: frule where
  "fold_reassoc_shift rf J fins =
     (let irk = ir J (op2 (fl J fins)); mask = shiftmask fins;
          k = (ik irk AND mask) + (ik (fr J fins) AND mask); fins' = fins\<lparr>op1 := op1 (fl J fins)\<rparr>
      in if irt_isphi (irt (fl J fins)) then Some (J, NEXTFOLD)
         else if opc irk = IR_KINT then
           if mask < k then
             if opc fins = IR_BSHL \<or> opc fins = IR_BSHR then
               Some (if mask = 31 then (J, KINTFOLD 0) else INT64FOLD J 0)
             else if opc fins = IR_BSAR then retry_kint J fins' mask
             else retry_kint J fins' (k AND mask)
           else retry_kint J fins' k
         else Some (J, NEXTFOLD))"

definition fold_reassoc_minmax_k :: frule where
  "fold_reassoc_minmax_k rf J fins =
     (let irk = ir J (op2 (fl J fins))
      in if opc irk = IR_KINT then
           (let a = ik irk; y = kfold_intop a (ik (fr J fins)) (opc fins)
            in if a = y then Some (J, LEFTFOLD fins)
               else if irt_isphi (irt (fl J fins)) then Some (J, NEXTFOLD)
               else retry_kint J (fins\<lparr>op1 := op1 (fl J fins)\<rparr>) y)
         else Some (J, NEXTFOLD))"

section \<open>Array bounds check elimination\<close>

definition fold_abc_fwd :: frule where
  "fold_abc_fwd rf J fins =
     (if opt_abc J then
        if irref_isk (op2 (fr J fins)) then
          let add2 = ir J (op1 (fr J fins))
          in if opc add2 = IR_ADD \<and> irref_isk (op2 add2) \<and>
                ik (ir J (op2 (fr J fins))) = - ik (ir J (op2 add2)) then
               let ref = chain J IR_ABC; lim = max (op1 add2) (op1 fins)
               in case chain_down ref J lim (\<lambda>i. op1 i = op1 fins \<and> op2 i = op1 add2) ref of
                    Some r \<Rightarrow> Some (J, DROPFOLD)
                  | None \<Rightarrow> Some (J, NEXTFOLD)
             else Some (J, NEXTFOLD)
        else Some (J, NEXTFOLD)
      else Some (J, NEXTFOLD))"

definition fold_abc_k :: frule where
  "fold_abc_k rf J fins =
     (if irt_isphi (irt (fl J fins)) then Some (J, NEXTFOLD)
      else if opt_abc J then
        let ref = chain J IR_ABC; asize = op1 fins
        in case chain_down ref J asize (\<lambda>i. op1 i = asize \<and> irref_isk (op2 i)) ref of
             Some r \<Rightarrow>
               (let k = ik (ir J (op2 (ir J r)))
                in Some (if k < ik (fr J fins) then J\<lparr>ir := (ir J)(r := (ir J r)\<lparr>op2 := op2 fins\<rparr>)\<rparr> else J, DROPFOLD))
           | None \<Rightarrow> Some (EMITFOLD J fins)
      else Some (J, NEXTFOLD))"

definition fold_abc_invar :: frule where
  "fold_abc_invar rf J fins =
     Some (J, if \<not> irt_isint (irt fins) \<and> op1 fins < chain J IR_LOOP \<and>
                 (irt_isu32 (irt fins) \<or> \<not> irref_isk (op1 fins) \<and> \<not> irt_isphi (irt (fl J fins)))
              then DROPFOLD else NEXTFOLD)"

section \<open>Commutativity\<close>

definition fold_comm_swap :: frule where
  "fold_comm_swap rf J fins =
     Some (J, if op1 fins < op2 fins then RETRYFOLD (fins\<lparr>op1 := op2 fins, op2 := op1 fins\<rparr>) else NEXTFOLD)"

definition IRCONV_SRCMASK :: nat where "IRCONV_SRCMASK = 0x1f"

definition fold_comm_equal :: frule where
  "fold_comm_equal rf J fins =
     (if op1 fins = op2 fins \<and>
         (\<not> irt_isnum (irt fins) \<or>
          opc (fl J fins) = IR_CONV \<and>
          (of_nat (op2 (fl J fins) AND IRCONV_SRCMASK) :: u32) - ucast IRT_I8 \<le> ucast (IRT_U64 - IRT_U8))
      then Some (J, CONDFOLD (opc fins = IR_EQ))
      else fold_comm_swap rf J fins)"

definition fold_comm_comp :: frule where
  "fold_comm_comp rf J fins =
     Some (J, if op1 fins = op2 fins \<and> \<not> irt_isnum (irt fins)
              then CONDFOLD ((opc fins XOR drop_bit 1 (opc fins)) AND 1 \<noteq> 0)
              else if op1 fins < op2 fins
              then RETRYFOLD (fins\<lparr>op1 := op2 fins, op2 := op1 fins, opc := opc fins XOR 3\<rparr>)
              else NEXTFOLD)"

definition fold_comm_dup :: frule where
  "fold_comm_dup rf J fins =
     (if op1 fins = op2 fins then Some (J, LEFTFOLD fins) else fold_comm_swap rf J fins)"

definition fold_comm_dup_minmax :: frule where
  "fold_comm_dup_minmax rf J fins = Some (J, if op1 fins = op2 fins then LEFTFOLD fins else NEXTFOLD)"

definition fold_comm_bxor :: frule where
  "fold_comm_bxor rf J fins =
     (if op1 fins = op2 fins then Some (zero_fold J fins) else fold_comm_swap rf J fins)"

section \<open>The rule table\<close>

text \<open>The keys of the \<^verbatim>\<open>LJFOLD\<close> lines above each fold function: opcode, left opcode and right opcode or
  literal, where \<open>None\<close> is \<^verbatim>\<open>any\<close> and an absent operand is 0. The build turns them into the semi-perfect
  hash table \<^verbatim>\<open>fold_hash\<close>, in which a key has at most one entry.\<close>

type_synonym fkey = "irop \<times> irop option \<times> u16 option"

definition fkey1 :: "irop \<Rightarrow> irop \<Rightarrow> fkey" where "fkey1 o' l = (o', Some l, Some 0)"
definition fkey2 :: "irop \<Rightarrow> irop option \<Rightarrow> irop option \<Rightarrow> fkey" where
  "fkey2 o' l r = (o', l, map_option ucast r)"

definition kfold_rules :: "(fkey list \<times> frule) list" where
  "kfold_rules = [
   ([fkey2 IR_ADD (Some IR_KINT) (Some IR_KINT), fkey2 IR_SUB (Some IR_KINT) (Some IR_KINT), fkey2 IR_MUL
      (Some IR_KINT) (Some IR_KINT), fkey2 IR_MOD (Some IR_KINT) (Some IR_KINT), fkey2 IR_NEG (Some
      IR_KINT) (Some IR_KINT), fkey2 IR_BAND (Some IR_KINT) (Some IR_KINT), fkey2 IR_BOR (Some IR_KINT)
      (Some IR_KINT), fkey2 IR_BXOR (Some IR_KINT) (Some IR_KINT), fkey2 IR_BSHL (Some IR_KINT) (Some
      IR_KINT), fkey2 IR_BSHR (Some IR_KINT) (Some IR_KINT), fkey2 IR_BSAR (Some IR_KINT) (Some IR_KINT),
      fkey2 IR_BROL (Some IR_KINT) (Some IR_KINT), fkey2 IR_BROR (Some IR_KINT) (Some IR_KINT), fkey2
      IR_MIN (Some IR_KINT) (Some IR_KINT), fkey2 IR_MAX (Some IR_KINT) (Some IR_KINT)],
     fold_kfold_intarith),
   ([fkey2 IR_ADDOV (Some IR_KINT) (Some IR_KINT), fkey2 IR_SUBOV (Some IR_KINT) (Some IR_KINT), fkey2
      IR_MULOV (Some IR_KINT) (Some IR_KINT)],
     fold_kfold_intovarith),
   ([fkey1 IR_BNOT IR_KINT],
     fold_kfold_bnot),
   ([fkey1 IR_BSWAP IR_KINT],
     fold_kfold_bswap),
   ([fkey2 IR_LT (Some IR_KINT) (Some IR_KINT), fkey2 IR_GE (Some IR_KINT) (Some IR_KINT), fkey2 IR_LE
      (Some IR_KINT) (Some IR_KINT), fkey2 IR_GT (Some IR_KINT) (Some IR_KINT), fkey2 IR_ULT (Some
      IR_KINT) (Some IR_KINT), fkey2 IR_UGE (Some IR_KINT) (Some IR_KINT), fkey2 IR_ULE (Some IR_KINT)
      (Some IR_KINT), fkey2 IR_UGT (Some IR_KINT) (Some IR_KINT), fkey2 IR_ABC (Some IR_KINT) (Some
      IR_KINT)],
     fold_kfold_intcomp),
   ([fkey2 IR_UGE None (Some IR_KINT)],
     fold_kfold_intcomp0),
   ([fkey2 IR_ADD (Some IR_KINT64) (Some IR_KINT64), fkey2 IR_SUB (Some IR_KINT64) (Some IR_KINT64),
      fkey2 IR_MUL (Some IR_KINT64) (Some IR_KINT64), fkey2 IR_BAND (Some IR_KINT64) (Some IR_KINT64),
      fkey2 IR_BOR (Some IR_KINT64) (Some IR_KINT64), fkey2 IR_BXOR (Some IR_KINT64) (Some IR_KINT64)],
     fold_kfold_int64arith),
   ([fkey2 IR_DIV (Some IR_KINT64) (Some IR_KINT64), fkey2 IR_MOD (Some IR_KINT64) (Some IR_KINT64),
      fkey2 IR_POW (Some IR_KINT64) (Some IR_KINT64)],
     fold_kfold_int64arith2),
   ([fkey2 IR_BSHL (Some IR_KINT64) (Some IR_KINT), fkey2 IR_BSHR (Some IR_KINT64) (Some IR_KINT), fkey2
      IR_BSAR (Some IR_KINT64) (Some IR_KINT), fkey2 IR_BROL (Some IR_KINT64) (Some IR_KINT), fkey2
      IR_BROR (Some IR_KINT64) (Some IR_KINT)],
     fold_kfold_int64shift),
   ([fkey1 IR_BNOT IR_KINT64],
     fold_kfold_bnot64),
   ([fkey1 IR_BSWAP IR_KINT64],
     fold_kfold_bswap64),
   ([fkey2 IR_LT (Some IR_KINT64) (Some IR_KINT64), fkey2 IR_GE (Some IR_KINT64) (Some IR_KINT64), fkey2
      IR_LE (Some IR_KINT64) (Some IR_KINT64), fkey2 IR_GT (Some IR_KINT64) (Some IR_KINT64), fkey2 IR_ULT
      (Some IR_KINT64) (Some IR_KINT64), fkey2 IR_UGE (Some IR_KINT64) (Some IR_KINT64), fkey2 IR_ULE
      (Some IR_KINT64) (Some IR_KINT64), fkey2 IR_UGT (Some IR_KINT64) (Some IR_KINT64)],
     fold_kfold_int64comp),
   ([fkey2 IR_UGE None (Some IR_KINT64)],
     fold_kfold_int64comp0),
   ([fkey2 IR_EQ (Some IR_KINT) (Some IR_KINT), fkey2 IR_NE (Some IR_KINT) (Some IR_KINT), fkey2 IR_EQ
      (Some IR_KINT64) (Some IR_KINT64), fkey2 IR_NE (Some IR_KINT64) (Some IR_KINT64)],
     fold_kfold_kref)]"

definition simplify_rules :: "(fkey list \<times> frule) list" where
  "simplify_rules = [
   ([fkey2 IR_NEG (Some IR_NEG) None, fkey1 IR_BNOT IR_BNOT, fkey1 IR_BSWAP IR_BSWAP],
     fold_shortcut_leftleft),
   ([fkey2 IR_ADD (Some IR_NEG) None],
     fold_simplify_numadd_negx),
   ([fkey2 IR_ADD None (Some IR_NEG)],
     fold_simplify_numadd_xneg),
   ([fkey2 IR_SUB None (Some IR_NEG)],
     fold_simplify_numsub_xneg),
   ([fkey2 IR_MUL (Some IR_NEG) (Some IR_NEG), fkey2 IR_DIV (Some IR_NEG) (Some IR_NEG)],
     fold_simplify_nummuldiv_negneg),
   ([fkey2 IR_ADD None (Some IR_KINT), fkey2 IR_ADDOV None (Some IR_KINT), fkey2 IR_SUBOV None (Some
      IR_KINT)],
     fold_simplify_intadd_k),
   ([fkey2 IR_MULOV None (Some IR_KINT)],
     fold_simplify_intmul_k),
   ([fkey2 IR_SUB None (Some IR_KINT)],
     fold_simplify_intsub_k),
   ([fkey2 IR_SUB (Some IR_KINT) None, fkey2 IR_SUB (Some IR_KINT64) None],
     fold_simplify_intsub_kleft),
   ([fkey2 IR_ADD None (Some IR_KINT64)],
     fold_simplify_intadd_k64),
   ([fkey2 IR_SUB None (Some IR_KINT64)],
     fold_simplify_intsub_k64),
   ([fkey2 IR_MUL None (Some IR_KINT)],
     fold_simplify_intmul_k32),
   ([fkey2 IR_MUL None (Some IR_KINT64)],
     fold_simplify_intmul_k64),
   ([fkey2 IR_MOD None (Some IR_KINT)],
     fold_simplify_intmod_k),
   ([fkey2 IR_MOD (Some IR_KINT) None],
     fold_simplify_intmod_kleft),
   ([fkey2 IR_SUB None None, fkey2 IR_SUBOV None None],
     fold_simplify_intsub),
   ([fkey2 IR_SUB (Some IR_ADD) None],
     fold_simplify_intsubadd_leftcancel),
   ([fkey2 IR_SUB (Some IR_SUB) None],
     fold_simplify_intsubsub_leftcancel),
   ([fkey2 IR_SUB None (Some IR_SUB)],
     fold_simplify_intsubsub_rightcancel),
   ([fkey2 IR_SUB None (Some IR_ADD)],
     fold_simplify_intsubadd_rightcancel),
   ([fkey2 IR_SUB (Some IR_ADD) (Some IR_ADD)],
     fold_simplify_intsubaddadd_cancel),
   ([fkey2 IR_BAND None (Some IR_KINT), fkey2 IR_BAND None (Some IR_KINT64)],
     fold_simplify_band_k),
   ([fkey2 IR_BOR None (Some IR_KINT), fkey2 IR_BOR None (Some IR_KINT64)],
     fold_simplify_bor_k),
   ([fkey2 IR_BXOR None (Some IR_KINT), fkey2 IR_BXOR None (Some IR_KINT64)],
     fold_simplify_bxor_k),
   ([fkey2 IR_BSHL None (Some IR_KINT), fkey2 IR_BSHR None (Some IR_KINT), fkey2 IR_BSAR None (Some
      IR_KINT), fkey2 IR_BROL None (Some IR_KINT), fkey2 IR_BROR None (Some IR_KINT)],
     fold_simplify_shift_ik),
   ([fkey2 IR_BSHL None (Some IR_BAND), fkey2 IR_BSHR None (Some IR_BAND), fkey2 IR_BSAR None (Some
      IR_BAND), fkey2 IR_BROL None (Some IR_BAND), fkey2 IR_BROR None (Some IR_BAND)],
     fold_simplify_shift_andk),
   ([fkey2 IR_BSHL (Some IR_KINT) None, fkey2 IR_BSHR (Some IR_KINT) None, fkey2 IR_BSHL (Some IR_KINT64)
      None, fkey2 IR_BSHR (Some IR_KINT64) None],
     fold_simplify_shift1_ki),
   ([fkey2 IR_BSAR (Some IR_KINT) None, fkey2 IR_BROL (Some IR_KINT) None, fkey2 IR_BROR (Some IR_KINT)
      None, fkey2 IR_BSAR (Some IR_KINT64) None, fkey2 IR_BROL (Some IR_KINT64) None, fkey2 IR_BROR (Some
      IR_KINT64) None],
     fold_simplify_shift2_ki),
   ([fkey2 IR_BSHL (Some IR_BAND) (Some IR_KINT), fkey2 IR_BSHR (Some IR_BAND) (Some IR_KINT), fkey2
      IR_BROL (Some IR_BAND) (Some IR_KINT), fkey2 IR_BROR (Some IR_BAND) (Some IR_KINT)],
     fold_simplify_shiftk_andk),
   ([fkey2 IR_BAND (Some IR_BSHL) (Some IR_KINT), fkey2 IR_BAND (Some IR_BSHR) (Some IR_KINT)],
     fold_simplify_andk_shiftk),
   ([fkey2 IR_BAND (Some IR_BOR) (Some IR_KINT), fkey2 IR_BOR (Some IR_BAND) (Some IR_KINT)],
     fold_simplify_andor_k),
   ([fkey2 IR_BAND (Some IR_BOR) (Some IR_KINT64), fkey2 IR_BOR (Some IR_BAND) (Some IR_KINT64)],
     fold_simplify_andor_k64)]"

definition reassoc_rules :: "(fkey list \<times> frule) list" where
  "reassoc_rules = [
   ([fkey2 IR_ADD (Some IR_ADD) (Some IR_KINT), fkey2 IR_MUL (Some IR_MUL) (Some IR_KINT), fkey2 IR_BAND
      (Some IR_BAND) (Some IR_KINT), fkey2 IR_BOR (Some IR_BOR) (Some IR_KINT), fkey2 IR_BXOR (Some
      IR_BXOR) (Some IR_KINT)],
     fold_reassoc_intarith_k),
   ([fkey2 IR_ADD (Some IR_ADD) (Some IR_KINT64), fkey2 IR_MUL (Some IR_MUL) (Some IR_KINT64), fkey2
      IR_BAND (Some IR_BAND) (Some IR_KINT64), fkey2 IR_BOR (Some IR_BOR) (Some IR_KINT64), fkey2 IR_BXOR
      (Some IR_BXOR) (Some IR_KINT64)],
     fold_reassoc_intarith_k64),
   ([fkey2 IR_BAND (Some IR_BAND) None, fkey2 IR_BOR (Some IR_BOR) None],
     fold_reassoc_dup),
   ([fkey2 IR_MIN (Some IR_MIN) None, fkey2 IR_MAX (Some IR_MAX) None],
     fold_reassoc_dup_minmax),
   ([fkey2 IR_BXOR (Some IR_BXOR) None],
     fold_reassoc_bxor),
   ([fkey2 IR_BSHL (Some IR_BSHL) (Some IR_KINT), fkey2 IR_BSHR (Some IR_BSHR) (Some IR_KINT), fkey2
      IR_BSAR (Some IR_BSAR) (Some IR_KINT), fkey2 IR_BROL (Some IR_BROL) (Some IR_KINT), fkey2 IR_BROR
      (Some IR_BROR) (Some IR_KINT)],
     fold_reassoc_shift),
   ([fkey2 IR_MIN (Some IR_MIN) (Some IR_KINT), fkey2 IR_MAX (Some IR_MAX) (Some IR_KINT)],
     fold_reassoc_minmax_k)]"

definition abc_comm_rules :: "(fkey list \<times> frule) list" where
  "abc_comm_rules = [
   ([fkey2 IR_ABC None (Some IR_ADD)],
     fold_abc_fwd),
   ([fkey2 IR_ABC None (Some IR_KINT)],
     fold_abc_k),
   ([fkey2 IR_ABC None None],
     fold_abc_invar),
   ([fkey2 IR_ADD None None, fkey2 IR_MUL None None, fkey2 IR_ADDOV None None, fkey2 IR_MULOV None None],
     fold_comm_swap),
   ([fkey2 IR_EQ None None, fkey2 IR_NE None None],
     fold_comm_equal),
   ([fkey2 IR_LT None None, fkey2 IR_GE None None, fkey2 IR_LE None None, fkey2 IR_GT None None, fkey2
      IR_ULT None None, fkey2 IR_UGE None None, fkey2 IR_ULE None None, fkey2 IR_UGT None None],
     fold_comm_comp),
   ([fkey2 IR_BAND None None, fkey2 IR_BOR None None],
     fold_comm_dup),
   ([fkey2 IR_MIN None None, fkey2 IR_MAX None None],
     fold_comm_dup_minmax),
   ([fkey2 IR_BXOR None None],
     fold_comm_bxor)]"

definition fold_rules :: "(fkey list \<times> frule) list" where
  "fold_rules = kfold_rules @ simplify_rules @ reassoc_rules @ abc_comm_rules"

definition rule_for :: "fkey \<Rightarrow> frule option" where
  "rule_for k = map_option snd (find (\<lambda>r. k \<in> set (fst r)) fold_rules)"

section \<open>The engine\<close>

text \<open>The keys tried for an instruction, from the most to the least specific. An operand below \<^verbatim>\<open>nk\<close> is
  a literal or absent.\<close>

definition key_left :: "jit_State \<Rightarrow> irins \<Rightarrow> irop" where
  "key_left J fins = (if nk J \<le> op1 fins then opc (fl J fins) else 0)"

definition key_right :: "jit_State \<Rightarrow> irins \<Rightarrow> u16" where
  "key_right J fins = (if nk J \<le> op2 fins then ucast (opc (fr J fins)) else of_nat (op2 fins) AND 0x3ff)"

definition fold_keys :: "jit_State \<Rightarrow> irins \<Rightarrow> fkey list" where
  "fold_keys J fins =
     (let o' = opc fins; l = key_left J fins; r = key_right J fins
      in [(o', Some l, Some r), (o', None, Some r), (o', Some l, None), (o', None, None)])"

fun fold_match :: "fkey list \<Rightarrow> frule" where
  "fold_match [] rf J fins = Some (J, NEXTFOLD)"
| "fold_match (k # ks) rf J fins =
     (case rule_for k of
        None \<Rightarrow> fold_match ks rf J fins
      | Some f \<Rightarrow>
          (case f rf J fins of
             None \<Rightarrow> None
           | Some (J, NEXTFOLD) \<Rightarrow> fold_match ks rf J fins
           | Some res \<Rightarrow> Some res))"

text \<open>\<^verbatim>\<open>lj_opt_fold\<close> with fuel for the retries and the nested calls; without the FOLD flag the
  instructions of the model, which all have the mode kind N, go to CSE.\<close>

definition lift_ref :: "jit_State \<times> nat \<Rightarrow> fout" where
  "lift_ref Jr = (case Jr of (J, ref) \<Rightarrow> Some (J, Inr ref))"

fun lj_opt_fold :: "nat \<Rightarrow> jit_State \<Rightarrow> irins \<Rightarrow> fout" where
  "lj_opt_fold 0 J fins = None"
| "lj_opt_fold (Suc f) J fins =
     (if \<not> opt_fold J then lift_ref (lj_opt_cse J fins)
      else case fold_match (fold_keys J fins) (lj_opt_fold f) J fins of
             None \<Rightarrow> None
           | Some (J, NEXTFOLD) \<Rightarrow> lift_ref (lj_opt_cse J fins)
           | Some (J, RETRYFOLD fins') \<Rightarrow> lj_opt_fold f J fins'
           | Some (J, KINTFOLD k) \<Rightarrow> lift_ref (lj_ir_kint J k)
           | Some (J, FAILFOLD) \<Rightarrow> Some (J, Inl LJ_TRERR_GFAIL)
           | Some (J, DROPFOLD) \<Rightarrow> Some (J, Inr REF_DROP)
           | Some (J, FREF ref) \<Rightarrow> Some (J, Inr ref))"

end
