(* ===== verification/FoldSem.thy ===== *)
theory FoldSem
  imports Fold
begin

text \<open>
  The meaning of the integer IR and what an optimisation has to preserve. A valuation gives every
  reference its 64 bit value, 32 bit values sign-extended; it agrees with a buffer when every
  instruction on the chains has the value its operands give it and every guard holds. A step
  \<open>refines\<close> a buffer when the valuations of the new buffer are, up to the new references, those of
  the old one in which the guard added by the step holds.
\<close>

section \<open>Values\<close>

definition sx :: "u32 \<Rightarrow> u64" where "sx = scast"
definition lo :: "u64 \<Rightarrow> u32" where "lo = ucast"

lemma lo_sx [simp]: "lo (sx x) = x"
proof (rule bit_word_eqI)
  fix n assume "n < LENGTH(32)"
  then consider "n < 31" | "n = 31" by force
  then show "bit (lo (sx x)) n = bit x n" by cases (auto simp: lo_def sx_def bit_simps min_def)
qed

definition op32 :: "irop \<Rightarrow> u32 \<Rightarrow> u32 \<Rightarrow> u32" where
  "op32 op a b =
     (let n = unat b mod 32
      in if op = IR_BNOT then NOT a
         else if op = IR_BSWAP then get_le32 (rev (put_le32 a))
         else if op = IR_BAND then a AND b
         else if op = IR_BOR then a OR b
         else if op = IR_BXOR then a XOR b
         else if op = IR_BSHL then a * 2 ^ n
         else if op = IR_BSHR then word_of_nat (unat a div 2 ^ n)
         else if op = IR_BSAR then word_of_int (sint a div 2 ^ n)
         else if op = IR_BROL then word_rotl n a
         else if op = IR_BROR then word_rotr n a
         else if op = IR_ADD \<or> op = IR_ADDOV then a + b
         else if op = IR_SUB \<or> op = IR_SUBOV then a - b
         else if op = IR_MUL \<or> op = IR_MULOV then a * b
         else if op = IR_MOD then word_of_int (sint a mod sint b)
         else if op = IR_NEG then - a
         else if op = IR_MIN then word_of_int (min (sint a) (sint b))
         else word_of_int (max (sint a) (sint b)))"

definition op64 :: "irop \<Rightarrow> bool \<Rightarrow> u64 \<Rightarrow> u64 \<Rightarrow> u64" where
  "op64 op s a b =
     (let n = unat b mod 64
      in if op = IR_BNOT then NOT a
         else if op = IR_BSWAP then get_le64 (rev (put_le64 a))
         else if op = IR_BAND then a AND b
         else if op = IR_BOR then a OR b
         else if op = IR_BXOR then a XOR b
         else if op = IR_BSHL then a * 2 ^ n
         else if op = IR_BSHR then word_of_nat (unat a div 2 ^ n)
         else if op = IR_BSAR then word_of_int (sint a div 2 ^ n)
         else if op = IR_BROL then word_rotl n a
         else if op = IR_BROR then word_rotr n a
         else if op = IR_ADD then a + b
         else if op = IR_SUB then a - b
         else if op = IR_MUL then a * b
         else if op = IR_DIV then if s then lj_carith_divi64 a b else lj_carith_divu64 a b
         else if op = IR_MOD then if s then lj_carith_modi64 a b else lj_carith_modu64 a b
         else if op = IR_POW then if s then lj_carith_powi64 a b else lj_carith_powu64 a b
         else - a)"

definition cmp :: "irop \<Rightarrow> 'a::len word \<Rightarrow> 'a word \<Rightarrow> bool" where
  "cmp op a b =
     (if op = IR_LT then sint a < sint b
      else if op = IR_GE then sint a \<ge> sint b
      else if op = IR_LE then sint a \<le> sint b
      else if op = IR_GT then sint a > sint b
      else if op = IR_ULT then uint a < uint b
      else if op = IR_UGE then uint a \<ge> uint b
      else if op = IR_ULE then uint a \<le> uint b
      else if op = IR_UGT \<or> op = IR_ABC then uint a > uint b
      else if op = IR_EQ then a = b
      else a \<noteq> b)"

definition in_i32 :: "int \<Rightarrow> bool" where "in_i32 i \<longleftrightarrow> - (2 ^ 31) \<le> i \<and> i < 2 ^ 31"

text \<open>The comparisons are opcodes 0 to 10; the overflow checks hold when the exact result fits.\<close>

definition iscmp :: "irop \<Rightarrow> bool" where "iscmp op \<longleftrightarrow> op \<le> IR_ABC"

definition int32t :: "u8 \<Rightarrow> bool" where "int32t t \<longleftrightarrow> IRT_I8 \<le> irt_type t \<and> irt_type t \<le> IRT_U32"
definition int64t :: "u8 \<Rightarrow> bool" where "int64t t \<longleftrightarrow> irt_type t = IRT_I64 \<or> irt_type t = IRT_U64"

definition eval :: "irins \<Rightarrow> (nat \<Rightarrow> u64) \<Rightarrow> u64" where
  "eval i \<nu> =
     (if int64t (irt i) then op64 (opc i) (irt_isi64 (irt i)) (\<nu> (op1 i)) (\<nu> (op2 i))
      else sx (op32 (opc i) (lo (\<nu> (op1 i))) (lo (\<nu> (op2 i)))))"

definition guard :: "irins \<Rightarrow> (nat \<Rightarrow> u64) \<Rightarrow> bool" where
  "guard i \<nu> =
     (let a = lo (\<nu> (op1 i)); b = lo (\<nu> (op2 i))
      in if iscmp (opc i) then if int64t (irt i) then cmp (opc i) (\<nu> (op1 i)) (\<nu> (op2 i)) else cmp (opc i) a b
         else if opc i = IR_ADDOV then in_i32 (sint a + sint b)
         else if opc i = IR_SUBOV then in_i32 (sint a - sint b)
         else if opc i = IR_MULOV then in_i32 (sint a * sint b)
         else True)"

section \<open>Typing\<close>

definition vref :: "jit_State \<Rightarrow> nat \<Rightarrow> bool" where
  "vref J r \<longleftrightarrow> on_chain J (opc (ir J r)) r"

definition w32 :: "jit_State \<Rightarrow> nat \<Rightarrow> bool" where "w32 J r \<longleftrightarrow> vref J r \<and> int32t (irt (ir J r))"
definition w64 :: "jit_State \<Rightarrow> nat \<Rightarrow> bool" where "w64 J r \<longleftrightarrow> vref J r \<and> int64t (irt (ir J r))"
definition k0 :: "jit_State \<Rightarrow> nat \<Rightarrow> bool" where "k0 J r \<longleftrightarrow> vref J r \<and> opc (ir J r) = IR_KINT \<and> ik (ir J r) = 0"

definition wt :: "jit_State \<Rightarrow> u8 \<Rightarrow> nat \<Rightarrow> bool" where
  "wt J t r \<longleftrightarrow> (if int64t t then w64 J r else w32 J r)"

definition unop :: "irop \<Rightarrow> bool" where "unop op \<longleftrightarrow> op = IR_BNOT \<or> op = IR_BSWAP"
definition shiftop :: "irop \<Rightarrow> bool" where "shiftop op \<longleftrightarrow> IR_BSHL \<le> op \<and> op \<le> IR_BROR"
definition op32only :: "irop \<Rightarrow> bool" where
  "op32only op \<longleftrightarrow> op = IR_MIN \<or> op = IR_MAX \<or> op = IR_ADDOV \<or> op = IR_SUBOV \<or> op = IR_MULOV"
definition divop :: "irop \<Rightarrow> bool" where "divop op \<longleftrightarrow> op = IR_DIV \<or> op = IR_MOD \<or> op = IR_POW"
definition binop :: "irop \<Rightarrow> bool" where
  "binop op \<longleftrightarrow> iscmp op \<or> op = IR_BAND \<or> op = IR_BOR \<or> op = IR_BXOR \<or> op = IR_MUL \<or> divop op \<or> op32only op"
definition addop :: "irop \<Rightarrow> bool" where "addop op \<longleftrightarrow> op = IR_ADD \<or> op = IR_SUB"

definition foldop :: "irop \<Rightarrow> bool" where
  "foldop op \<longleftrightarrow> unop op \<or> shiftop op \<or> binop op \<or> addop op \<or> op = IR_NEG"

text \<open>Operands have the width of the instruction, shift counts 32 bits. The cancellation rules put a
  32 bit zero into 64 bit additions and subtractions, which is allowed on one side; between two
  retries, where \<open>b\<close> holds, both sides may be zero.\<close>

definition addt :: "bool \<Rightarrow> jit_State \<Rightarrow> u8 \<Rightarrow> nat \<Rightarrow> nat \<Rightarrow> bool" where
  "addt b J t l r \<longleftrightarrow>
     (if int64t t then (w64 J l \<or> k0 J l) \<and> (w64 J r \<or> k0 J r) \<and> (b \<or> \<not> (k0 J l \<and> k0 J r))
      else w32 J l \<and> w32 J r)"

definition typed :: "bool \<Rightarrow> jit_State \<Rightarrow> irins \<Rightarrow> bool" where
  "typed b J i \<longleftrightarrow>
     (let o' = opc i; t = irt i; l = op1 i; r = op2 i
      in (int32t t \<or> int64t t) \<and> foldop o' \<and>
         (unop o' \<longrightarrow> wt J t l \<and> r = 0) \<and>
         (shiftop o' \<longrightarrow> wt J t l \<and> w32 J r) \<and>
         (binop o' \<longrightarrow> wt J t l \<and> wt J t r) \<and>
         (addop o' \<longrightarrow> addt b J t l r) \<and>
         (o' = IR_NEG \<longrightarrow> wt J t l \<and> wt J t r \<or> b \<and> int64t t \<and> k0 J l \<and> k0 J r) \<and>
         (op32only o' \<longrightarrow> int32t t) \<and> (o' = IR_DIV \<or> o' = IR_POW \<longrightarrow> int64t t) \<and>
         (o' = IR_ABC \<longrightarrow> irt_isint t) \<and>
         (o' = IR_MOD \<and> int32t t \<longrightarrow> \<not> k0 J r))"

text \<open>The opcodes are shared with floating point and pointer arithmetic: the integer instructions are those
  whose first operand is an integer. An instruction of integer type with another first operand is
  a pointer difference.\<close>

definition intt :: "u8 \<Rightarrow> bool" where "intt t \<longleftrightarrow> int32t t \<or> int64t t"

definition intins :: "jit_State \<Rightarrow> irins \<Rightarrow> bool" where
  "intins J i \<longleftrightarrow> foldop (opc i) \<and> intt (irt (ir J (op1 i)))"

definition ir_typed :: "jit_State \<Rightarrow> bool" where
  "ir_typed J \<longleftrightarrow>
     (\<forall>r. vref J r \<longrightarrow> foldop (opc (ir J r)) \<longrightarrow>
        nk J \<le> op1 (ir J r) \<and> op1 (ir J r) < nins J \<and> (intins J (ir J r) \<longrightarrow> typed False J (ir J r)) \<and>
        (intt (irt (ir J r)) \<longrightarrow> \<not> iscmp (opc (ir J r)) \<longrightarrow> opc (ir J r) \<noteq> IR_SUB \<longrightarrow> intins J (ir J r))) \<and>
     (\<forall>r. vref J r \<longrightarrow> iskop (opc (ir J r)) \<longrightarrow> intt (irt (ir J r)) \<longrightarrow> opc (ir J r) = IR_KINT \<or> opc (ir J r) = IR_KINT64)"

text \<open>The division opcodes do not tell signed from unsigned and CSE compares only opcodes and operands, so
  the divisions of the buffer have to agree with the new one. A signed division of two negations is
  excluded: the rule that cancels the signs is wrong for the smallest dividend.\<close>

definition sgn_ok :: "jit_State \<Rightarrow> irins \<Rightarrow> bool" where
  "sgn_ok J i \<longleftrightarrow>
     (divop (opc i) \<longrightarrow> (\<forall>r. vref J r \<longrightarrow> opc (ir J r) = opc i \<longrightarrow> irt_isi64 (irt (ir J r)) = irt_isi64 (irt i))) \<and>
     (opc i = IR_DIV \<longrightarrow> irt_isi64 (irt i) \<longrightarrow> \<not> (opc (fl J i) = IR_NEG \<and> opc (fr J i) = IR_NEG))"

text \<open>The rule that moves a shift through a mask would put a 64 bit operand that folds to the 32 bit zero
  under the mask, so 64 bit shifts and multiplications are folded in buffers without a 64 bit mask.\<close>

definition mask_free :: "jit_State \<Rightarrow> bool" where
  "mask_free J \<longleftrightarrow>
     (\<forall>r. vref J r \<longrightarrow> opc (ir J r) = IR_BAND \<longrightarrow> int64t (irt (ir J r)) \<longrightarrow> opc (fr J (ir J r)) \<noteq> IR_KINT64)"

definition shmul :: "irop \<Rightarrow> bool" where "shmul op \<longleftrightarrow> shiftop op \<or> op = IR_MUL"

definition nomask :: "jit_State \<Rightarrow> irins \<Rightarrow> bool" where
  "nomask J i \<longleftrightarrow> (int64t (irt i) \<and> shmul (opc i) \<longrightarrow> mask_free J)"

section \<open>Agreement and refinement\<close>

definition agrees1 :: "jit_State \<Rightarrow> irins \<Rightarrow> u64 \<Rightarrow> (nat \<Rightarrow> u64) \<Rightarrow> bool" where
  "agrees1 J i v \<nu> \<longleftrightarrow>
     (opc i = IR_KINT \<longrightarrow> v = sx (ik i)) \<and> (opc i = IR_KINT64 \<longrightarrow> v = tv i) \<and> (int32t (irt i) \<longrightarrow> v = sx (lo v)) \<and>
     (intins J i \<longrightarrow> (\<not> iscmp (opc i) \<longrightarrow> v = eval i \<nu>) \<and> guard i \<nu>)"

definition agrees :: "jit_State \<Rightarrow> (nat \<Rightarrow> u64) \<Rightarrow> bool" where
  "agrees J \<nu> \<longleftrightarrow> (\<forall>r. vref J r \<longrightarrow> agrees1 J (ir J r) (\<nu> r) \<nu>)"

definition keeps :: "jit_State \<Rightarrow> jit_State \<Rightarrow> bool" where
  "keeps J J' \<longleftrightarrow> nk J' \<le> nk J \<and> nins J \<le> nins J' \<and>
     (\<forall>r. nk J \<le> r \<longrightarrow> r < nins J \<longrightarrow> irt (ir J' r) = irt (ir J r)) \<and>
     (\<forall>r. vref J r \<longrightarrow> vref J' r \<and>
      (\<exists>n. ir J' r = ir J r \<lparr>op2 := n\<rparr> \<and> (opc (ir J r) \<noteq> IR_ABC \<longrightarrow> n = op2 (ir J r))))"

definition refines :: "jit_State \<Rightarrow> jit_State \<Rightarrow> ((nat \<Rightarrow> u64) \<Rightarrow> bool) \<Rightarrow> bool" where
  "refines J J' G \<longleftrightarrow>
     (\<forall>\<nu>. agrees J' \<nu> \<longrightarrow> agrees J \<nu> \<and> G \<nu>) \<and>
     (\<forall>\<nu>. agrees J \<nu> \<longrightarrow> G \<nu> \<longrightarrow> (\<exists>\<nu>'. agrees J' \<nu>' \<and> (\<forall>r. vref J r \<longrightarrow> \<nu>' r = \<nu> r)))"

end
