(* ===== verification/FoldSteps.thy ===== *)
theory FoldSteps
  imports FoldSem
begin

text \<open>
  The steps that change the buffer: adding an instruction or a constant at the head of its chain
  refines the buffer and keeps it well-formed and typed. The interning functions, the emitter and
  CSE are instances.
\<close>

definition ok :: "jit_State \<Rightarrow> bool" where "ok J \<longleftrightarrow> ir_wf J \<and> ir_typed J"

definition flags_eq :: "jit_State \<Rightarrow> jit_State \<Rightarrow> bool" where
  "flags_eq J J' \<longleftrightarrow> opt_fold J' = opt_fold J \<and> opt_cse J' = opt_cse J \<and> opt_abc J' = opt_abc J"

text \<open>What every step establishes: \<open>G\<close> is the guard that it adds.\<close>

definition post :: "jit_State \<Rightarrow> jit_State \<Rightarrow> ((nat \<Rightarrow> u64) \<Rightarrow> bool) \<Rightarrow> bool" where
  "post J J' G \<longleftrightarrow> ok J' \<and> keeps J J' \<and> refines J J' G \<and> flags_eq J J'"

section \<open>Composition\<close>

lemma keeps_refl [simp]: "keeps J J"
  unfolding keeps_def by simp (metis irins.surjective irins.update_convs(2))

lemma keepsD:
  assumes "keeps J J'" "vref J r"
  shows "vref J' r" and "opc (ir J' r) = opc (ir J r)" and "irt (ir J' r) = irt (ir J r)"
    and "op1 (ir J' r) = op1 (ir J r)" and "ik (ir J' r) = ik (ir J r)" and "tv (ir J' r) = tv (ir J r)"
    and "opc (ir J r) \<noteq> IR_ABC \<Longrightarrow> ir J' r = ir J r"
proof -
  from assms obtain n where n: "vref J' r" "ir J' r = ir J r \<lparr>op2 := n\<rparr>" "opc (ir J r) \<noteq> IR_ABC \<longrightarrow> n = op2 (ir J r)"
    unfolding keeps_def by blast
  then show "vref J' r" and "opc (ir J' r) = opc (ir J r)" and "irt (ir J' r) = irt (ir J r)"
    and "op1 (ir J' r) = op1 (ir J r)" and "ik (ir J' r) = ik (ir J r)" and "tv (ir J' r) = tv (ir J r)" by simp_all
  show "ir J' r = ir J r" if "opc (ir J r) \<noteq> IR_ABC" using n that by simp
qed

lemma keeps_trans:
  assumes "keeps J J1" "keeps J1 J2"
  shows "keeps J J2"
proof -
  have n: "nk J2 \<le> nk J \<and> nins J \<le> nins J2" using assms by (auto simp: keeps_def)
  have t: "irt (ir J2 r) = irt (ir J r)" if "nk J \<le> r" "r < nins J" for r
    using assms that unfolding keeps_def by (metis le_trans less_le_trans)
  have "vref J2 r \<and> (\<exists>n. ir J2 r = ir J r \<lparr>op2 := n\<rparr> \<and> (opc (ir J r) \<noteq> IR_ABC \<longrightarrow> n = op2 (ir J r)))" if r: "vref J r" for r
  proof -
  from assms(1) r obtain n where n: "vref J1 r" "ir J1 r = ir J r \<lparr>op2 := n\<rparr>" "opc (ir J r) \<noteq> IR_ABC \<longrightarrow> n = op2 (ir J r)"
    unfolding keeps_def by blast
  from assms(2) n(1) obtain m where m: "vref J2 r" "ir J2 r = ir J1 r \<lparr>op2 := m\<rparr>" "opc (ir J1 r) \<noteq> IR_ABC \<longrightarrow> m = op2 (ir J1 r)"
    unfolding keeps_def by blast
  show ?thesis
    using m n by (intro conjI exI [of _ m]) auto
  qed
  with n t show ?thesis unfolding keeps_def by blast
qed

lemma keeps_wt:
  assumes "keeps J J'"
  shows "w32 J r \<Longrightarrow> w32 J' r" and "w64 J r \<Longrightarrow> w64 J' r" and "k0 J r \<Longrightarrow> k0 J' r" and "wt J t r \<Longrightarrow> wt J' t r"
  using keepsD [OF assms] by (auto simp: w32_def w64_def k0_def wt_def split: if_splits)

lemma int3264: "\<not> (int32t t \<and> int64t t)"
  by (auto simp: int32t_def int64t_def irt_defs IRT_I8_def)

lemma kval_okD:
  assumes "ok J" "vref J r"
  shows "opc (ir J r) = IR_KINT \<Longrightarrow> irt (ir J r) = IRT_INT" and "opc (ir J r) = IR_KINT64 \<Longrightarrow> irt (ir J r) = IRT_I64"
  using ir_wfD(4) [of J "opc (ir J r)" r] assms by (auto simp: ok_def vref_def kval_ok_def)

lemma k0_w32: "ok J \<Longrightarrow> k0 J r \<Longrightarrow> w32 J r"
  using kval_okD(1) [of J r] by (auto simp: k0_def w32_def int32t_def irt_type_def irt_defs IRT_I8_def)

lemma keeps_k0:
  assumes "keeps J J'" "vref J r"
  shows "k0 J' r \<longleftrightarrow> k0 J r"
  using keepsD [OF assms] assms(2) by (auto simp: k0_def)

lemma typed_vref:
  assumes "typed b J i"
  shows "vref J (op1 i)" and "vref J (op2 i) \<or> unop (opc i)"
  using assms by (auto simp: typed_def Let_def foldop_def wt_def w32_def w64_def k0_def addt_def split: if_splits)

lemma typedD:
  assumes "typed b J i"
  shows "int32t (irt i) \<or> int64t (irt i)" and "foldop (opc i)"
    and "unop (opc i) \<Longrightarrow> wt J (irt i) (op1 i) \<and> op2 i = 0"
    and "shiftop (opc i) \<Longrightarrow> wt J (irt i) (op1 i) \<and> w32 J (op2 i)"
    and "binop (opc i) \<Longrightarrow> wt J (irt i) (op1 i) \<and> wt J (irt i) (op2 i)"
    and "addop (opc i) \<Longrightarrow> addt b J (irt i) (op1 i) (op2 i)"
    and "opc i = IR_NEG \<Longrightarrow> wt J (irt i) (op1 i) \<and> wt J (irt i) (op2 i) \<or> b \<and> int64t (irt i) \<and> k0 J (op1 i) \<and> k0 J (op2 i)"
    and "op32only (opc i) \<Longrightarrow> int32t (irt i)" and "opc i = IR_DIV \<or> opc i = IR_POW \<Longrightarrow> int64t (irt i)"
    and "opc i = IR_ABC \<Longrightarrow> irt_isint (irt i)" and "opc i = IR_MOD \<Longrightarrow> int32t (irt i) \<Longrightarrow> \<not> k0 J (op2 i)"
  using assms unfolding typed_def Let_def by blast+

lemma typedI:
  assumes "int32t (irt i) \<or> int64t (irt i)" and "foldop (opc i)"
    and "unop (opc i) \<longrightarrow> wt J (irt i) (op1 i) \<and> op2 i = 0"
    and "shiftop (opc i) \<longrightarrow> wt J (irt i) (op1 i) \<and> w32 J (op2 i)"
    and "binop (opc i) \<longrightarrow> wt J (irt i) (op1 i) \<and> wt J (irt i) (op2 i)"
    and "addop (opc i) \<longrightarrow> addt b J (irt i) (op1 i) (op2 i)"
    and "opc i = IR_NEG \<longrightarrow> wt J (irt i) (op1 i) \<and> wt J (irt i) (op2 i) \<or> b \<and> int64t (irt i) \<and> k0 J (op1 i) \<and> k0 J (op2 i)"
    and "op32only (opc i) \<Longrightarrow> int32t (irt i)" and "opc i = IR_DIV \<or> opc i = IR_POW \<Longrightarrow> int64t (irt i)"
    and "opc i = IR_ABC \<Longrightarrow> irt_isint (irt i)" and "opc i = IR_MOD \<and> int32t (irt i) \<longrightarrow> \<not> k0 J (op2 i)"
  shows "typed b J i"
  unfolding typed_def Let_def
  by (intro conjI assms(1-7,11)) (use assms(8-10) in blast)+

lemma keeps_typed:
  assumes "keeps J J'" "typed b J i"
  shows "typed b J' i"
proof -
  note v = typed_vref [OF assms(2)] and t = typedD [OF assms(2)]
  have k: "k0 J' (op1 i) \<longleftrightarrow> k0 J (op1 i)" by (rule keeps_k0 [OF assms(1) v(1)])
  have k2: "k0 J' (op2 i) \<longleftrightarrow> k0 J (op2 i)" if "\<not> unop (opc i)" using v(2) keeps_k0 [OF assms(1)] that by blast
  note w = keeps_wt [OF assms(1)]
  have a: "addt b J' (irt i) (op1 i) (op2 i)" if "addop (opc i)"
  proof -
    have "\<not> unop (opc i)" using that by (auto simp: addop_def unop_def ir_defs)
    then show ?thesis using t(6) [OF that] w(1,2) unfolding addt_def k k2 [OF \<open>\<not> unop (opc i)\<close>] by (auto split: if_splits)
  qed
  have m: "\<not> k0 J' (op2 i)" if "opc i = IR_MOD" "int32t (irt i)"
    using t(11) [OF that] k2 that(1) by (simp add: unop_def ir_defs)
  have n: "wt J' (irt i) (op1 i) \<and> wt J' (irt i) (op2 i) \<or> b \<and> int64t (irt i) \<and> k0 J' (op1 i) \<and> k0 J' (op2 i)"
    if "opc i = IR_NEG" using t(7) [OF that] w(3,4) by blast
  have u: "unop (opc i) \<longrightarrow> wt J' (irt i) (op1 i) \<and> op2 i = 0" using t(3) w(4) by blast
  have sh: "shiftop (opc i) \<longrightarrow> wt J' (irt i) (op1 i) \<and> w32 J' (op2 i)" using t(4) w(1,4) by blast
  have bi: "binop (opc i) \<longrightarrow> wt J' (irt i) (op1 i) \<and> wt J' (irt i) (op2 i)" using t(5) w(4) by blast
  show ?thesis by (rule typedI [OF t(1,2) u sh bi _ _ t(8,9,10)]) (use a n m in auto)
qed

lemma typed_intins:
  assumes "ok J" "typed b J i"
  shows "intins J i"
proof -
  have k: "w32 J r \<or> w64 J r \<or> k0 J r \<Longrightarrow> intt (irt (ir J r))" for r
    using k0_w32 [OF assms(1), of r] by (auto simp: intt_def w32_def w64_def)
  have "w32 J (op1 i) \<or> w64 J (op1 i) \<or> k0 J (op1 i)"
    using typedD(2-7) [OF assms(2)] by (auto simp: foldop_def wt_def addt_def split: if_splits)
  then show ?thesis using k typedD(2) [OF assms(2)] by (simp add: intins_def)
qed

lemma ok_typed:
  assumes "ok J" "vref J r" "intins J (ir J r)"
  shows "typed False J (ir J r)"
  using assms by (auto simp: ok_def ir_typed_def intins_def)

lemma ok_intins:
  assumes "ok J" "vref J r" "foldop (opc (ir J r))" "intt (irt (ir J r))" "\<not> iscmp (opc (ir J r))" "opc (ir J r) \<noteq> IR_SUB"
  shows "intins J (ir J r)"
  using assms by (auto simp: ok_def ir_typed_def)

lemma ok_const:
  assumes "ok J" "vref J r" "r < REF_BIAS" "intt (irt (ir J r))"
  shows "opc (ir J r) = IR_KINT \<or> opc (ir J r) = IR_KINT64"
  using assms on_chain_range [of J "opc (ir J r)" r] by (auto simp: ok_def ir_typed_def vref_def)

lemma op1_range:
  assumes "ok J" "vref J r" "foldop (opc (ir J r))"
  shows "nk J \<le> op1 (ir J r) \<and> op1 (ir J r) < nins J"
  using assms by (auto simp: ok_def ir_typed_def)

lemma vref_range: "ok J \<Longrightarrow> vref J r \<Longrightarrow> nk J \<le> r \<and> r < nins J"
  using on_chain_range [of J "opc (ir J r)" r] by (simp add: ok_def vref_def)

lemma refines_refl: "(\<And>\<nu>. agrees J \<nu> \<Longrightarrow> G \<nu>) \<Longrightarrow> refines J J G"
  unfolding refines_def by blast

lemma refines_trans:
  assumes a: "refines J J1 G" and b: "refines J1 J2 H" and k: "keeps J J1"
    and H: "\<And>\<nu> \<nu>'. (\<And>r. vref J r \<Longrightarrow> \<nu>' r = \<nu> r) \<Longrightarrow> agrees J1 \<nu>' \<Longrightarrow> H' \<nu> = H \<nu>'"
  shows "refines J J2 (\<lambda>\<nu>. G \<nu> \<and> H' \<nu>)"
  unfolding refines_def
proof (intro conjI allI impI)
  fix \<nu> assume "agrees J2 \<nu>"
  with b have "agrees J1 \<nu>" "H \<nu>" by (auto simp: refines_def)
  moreover from this have "agrees J \<nu>" "G \<nu>" using a by (auto simp: refines_def)
  ultimately show "agrees J \<nu>" "G \<nu>" "H' \<nu>" using H [of \<nu> \<nu>] by auto
next
  fix \<nu> assume j: "agrees J \<nu>" and g: "G \<nu> \<and> H' \<nu>"
  from a j g obtain \<nu>1 where 1: "agrees J1 \<nu>1" "\<And>r. vref J r \<Longrightarrow> \<nu>1 r = \<nu> r" unfolding refines_def by blast
  then have "H \<nu>1" using H [of \<nu>1 \<nu>] g by blast
  with b 1(1) obtain \<nu>2 where 2: "agrees J2 \<nu>2" "\<And>r. vref J1 r \<Longrightarrow> \<nu>2 r = \<nu>1 r" unfolding refines_def by blast
  show "\<exists>\<nu>'. agrees J2 \<nu>' \<and> (\<forall>r. vref J r \<longrightarrow> \<nu>' r = \<nu> r)"
    using 1 2 keepsD(1) [OF k] by (intro exI [of _ \<nu>2]) auto
qed

lemma flags_refl [simp]: "flags_eq J J"
  by (simp add: flags_eq_def)

lemma post_refl: "ok J \<Longrightarrow> (\<And>\<nu>. agrees J \<nu> \<Longrightarrow> G \<nu>) \<Longrightarrow> post J J G"
  by (simp add: post_def refines_refl)

lemma post_trans:
  assumes "post J J1 G" "post J1 J2 H"
    and "\<And>\<nu> \<nu>'. (\<And>r. vref J r \<Longrightarrow> \<nu>' r = \<nu> r) \<Longrightarrow> agrees J1 \<nu>' \<Longrightarrow> H' \<nu> = H \<nu>'"
  shows "post J J2 (\<lambda>\<nu>. G \<nu> \<and> H' \<nu>)"
  using assms refines_trans [of J J1 G J2 H H'] keeps_trans [of J J1 J2] by (auto simp: post_def flags_eq_def)

lemma postD:
  assumes "post J J' G"
  shows "ok J'" and "keeps J J'" and "agrees J' \<nu> \<Longrightarrow> agrees J \<nu>" and "agrees J' \<nu> \<Longrightarrow> G \<nu>"
  using assms by (auto simp: post_def refines_def)

text \<open>Values and guards depend only on the operands.\<close>

lemma eval_cong: "\<nu> (op1 i) = \<nu>' (op1 i) \<Longrightarrow> \<nu> (op2 i) = \<nu>' (op2 i) \<Longrightarrow> eval i \<nu> = eval i \<nu>'"
  by (simp add: eval_def)

lemma guard_cong: "\<nu> (op1 i) = \<nu>' (op1 i) \<Longrightarrow> \<nu> (op2 i) = \<nu>' (op2 i) \<Longrightarrow> guard i \<nu> = guard i \<nu>'"
  by (simp add: guard_def)

lemma unop_guard: "unop (opc i) \<Longrightarrow> guard i \<nu>"
  by (auto simp: unop_def guard_def iscmp_def Let_def ir_defs)

lemma typed_guard_cong:
  assumes "typed b J i" "\<And>r. vref J r \<Longrightarrow> \<nu>' r = \<nu> r"
  shows "guard i \<nu>' = guard i \<nu>"
  using typed_vref [OF assms(1)] assms(2) unop_guard guard_cong by metis

section \<open>Adding an instruction\<close>

lemma link_ok:
  assumes J: "ok J" and fresh: "\<And>op r. on_chain J op r \<Longrightarrow> r \<noteq> ref" and nz: "ref \<noteq> 0"
    and ir: "ir J' = (ir J)(ref := i)" and ch: "chain J' = (chain J)(op := ref)" and p: "prev i = chain J op"
    and o': "opc i = op" and fl: "flags_eq J J'" and kv: "kval_ok op i"
    and n: "if iskop op then nk J' = ref \<and> ref < nk J \<and> nins J' = nins J
            else nins J' = Suc (nins J) \<and> ref = nins J \<and> nk J' = nk J"
    and ki: "\<And>r. op = IR_KINT \<Longrightarrow> on_chain J op r \<Longrightarrow> ik (ir J r) \<noteq> ik i"
    and kt: "\<And>r. op = IR_KINT64 \<Longrightarrow> on_chain J op r \<Longrightarrow> tv (ir J r) \<noteq> tv i"
    and ty: "foldop op \<Longrightarrow> typed False J i" and kc: "iskop op \<Longrightarrow> op = IR_KINT \<or> op = IR_KINT64"
    and ex: "\<And>\<nu>. agrees J \<nu> \<Longrightarrow> G \<nu> \<Longrightarrow> \<exists>v. agrees1 J i v \<nu>" and g: "\<And>\<nu> v. agrees1 J i v \<nu> \<Longrightarrow> G \<nu>"
  shows "post J J' G" and "vref J' ref" and "ir J' ref = i" and "vref J' r \<longleftrightarrow> vref J r \<or> r = ref"
proof -
  have wf: "ir_wf J" and ty0: "ir_typed J" using J by (simp_all add: ok_def)
  have lc: "on_chain J' o' r \<longleftrightarrow> on_chain J o' r \<or> o' = op \<and> r = ref" for o' r
    by (rule link_chain(1) [OF wf fresh nz ir ch p])
  show iref: "ir J' ref = i" by (simp add: ir)
  have vr: "vref J' r \<longleftrightarrow> vref J r \<or> r = ref" for r
    using lc [of "opc (ir J' r)" r] fresh o' by (cases "r = ref") (auto simp: vref_def ir)
  show "vref J' r \<longleftrightarrow> vref J r \<or> r = ref" by (rule vr)
  show "vref J' ref" using vr by simp
  have old: "vref J r \<Longrightarrow> r \<noteq> ref \<and> ir J' r = ir J r" for r using fresh ir by (auto simp: vref_def)
  have rng: "nk J' \<le> nk J" "nins J \<le> nins J'" using n by (auto split: if_splits)
  have ne: "nk J \<le> s \<Longrightarrow> s < nins J \<Longrightarrow> s \<noteq> ref" for s using n by (auto split: if_splits)
  have keeps: "keeps J J'"
    unfolding keeps_def
  proof (intro conjI allI impI)
    show "nk J' \<le> nk J" "nins J \<le> nins J'" by (rule rng)+
    show "irt (ir J' r) = irt (ir J r)" if "nk J \<le> r" "r < nins J" for r using ne that ir by simp
    fix r assume r: "vref J r"
    then show "vref J' r" using vr by blast
    show "\<exists>n. ir J' r = ir J r \<lparr>op2 := n\<rparr> \<and> (opc (ir J r) \<noteq> IR_ABC \<longrightarrow> n = op2 (ir J r))"
      using old [OF r] by (intro exI [of _ "op2 (ir J r)"]) simp
  qed
  have wf': "ir_wf J'"
    unfolding ir_wf_def
  proof (intro conjI allI impI)
    show "nk J' \<le> REF_TRUE" using n ir_wfD(1) [OF wf] by (auto split: if_splits)
    show "REF_BASE < nins J'" using n ir_wfD(2) [OF wf] by (auto split: if_splits)
    fix o' r assume oc: "on_chain J' o' r"
    then have c: "on_chain J o' r \<and> r \<noteq> ref \<and> ir J' r = ir J r \<or> o' = op \<and> r = ref \<and> ir J' r = i"
      using lc fresh ir by auto
    show "opc (ir J' r) = o'" "kval_ok o' (ir J' r)" using c ir_wfD(3,4) [OF wf] o' kv by auto
    show "if iskop o' then nk J' \<le> r \<and> r < REF_BIAS \<and> (prev (ir J' r) = 0 \<or> r < prev (ir J' r))
          else REF_BIAS < r \<and> r < nins J' \<and> prev (ir J' r) < r"
    proof (cases "on_chain J o' r")
      case True
      then have i: "ir J' r = ir J r" using c fresh by blast
      have "nk J' \<le> nk J" "nins J \<le> nins J'" using n by (auto split: if_splits)
      then show ?thesis using ir_wfD(5,6) [OF wf True] i by auto
    next
      case False
      then have r: "o' = op" "r = ref" "ir J' r = i" using c by auto
      have ch0: "chain J op = 0 \<or> on_chain J op (chain J op)" by (auto simp: on_chain_def intro: reach.head)
      show ?thesis
      proof (cases "iskop op")
        case True
        with n have "nk J' = ref" "ref < nk J" by auto
        moreover have "chain J op = 0 \<or> nk J \<le> chain J op" using ch0 ir_wfD(5) [OF wf _ True] by blast
        moreover have "ref < REF_BIAS" using ir_wfD(1) [OF wf] \<open>ref < nk J\<close> by (simp add: REF_TRUE_def REF_BIAS_def)
        ultimately show ?thesis using r p True by auto
      next
        case F: False
        with n have "ref = nins J" "nins J' = Suc (nins J)" by auto
        moreover have "chain J op < nins J" using ch0 ir_wfD(6) [OF wf _ F] ir_wfD(2) [OF wf] by auto
        ultimately show ?thesis using r p F ir_wfD(2) [OF wf] by (auto simp: REF_BASE_def)
      qed
    qed
  next
    fix r s assume "on_chain J' IR_KINT r" "on_chain J' IR_KINT s" and e: "ik (ir J' r) = ik (ir J' s)"
    then have "on_chain J IR_KINT r \<and> ir J' r = ir J r \<or> IR_KINT = op \<and> r = ref \<and> ir J' r = i"
      "on_chain J IR_KINT s \<and> ir J' s = ir J s \<or> IR_KINT = op \<and> s = ref \<and> ir J' s = i"
      using lc fresh ir by auto
    then show "r = s" using ki [of r] ki [of s] ir_wfD(7) [OF wf, of r s] e by metis
  next
    fix r s assume "on_chain J' IR_KINT64 r" "on_chain J' IR_KINT64 s" and e: "tv (ir J' r) = tv (ir J' s)"
    then have "on_chain J IR_KINT64 r \<and> ir J' r = ir J r \<or> IR_KINT64 = op \<and> r = ref \<and> ir J' r = i"
      "on_chain J IR_KINT64 s \<and> ir J' s = ir J s \<or> IR_KINT64 = op \<and> s = ref \<and> ir J' s = i"
      using lc fresh ir by auto
    then show "r = s" using kt [of r] kt [of s] ir_wfD(8) [OF wf, of r s] e by metis
  qed
  have ii: "intins J' j \<longleftrightarrow> intins J j" if "foldop (opc j) \<longrightarrow> nk J \<le> op1 j \<and> op1 j < nins J" for j
    using ne that ir by (auto simp: intins_def)
  have iir: "intins J' (ir J r) \<longleftrightarrow> intins J (ir J r)" if "vref J r" for r
    using ii op1_range [OF J that] by blast
  have oi: "foldop op \<Longrightarrow> nk J \<le> op1 i \<and> op1 i < nins J" using vref_range [OF J typed_vref(1) [OF ty]] .
  have iii: "intins J' i \<longleftrightarrow> intins J i" using ii oi o' by blast
  have ty': "ir_typed J'"
    unfolding ir_typed_def
  proof (rule conjI; intro allI impI)
    fix r assume r: "vref J' r" "iskop (opc (ir J' r))" "intt (irt (ir J' r))"
    show "opc (ir J' r) = IR_KINT \<or> opc (ir J' r) = IR_KINT64"
    proof (cases "r = ref")
      case True
      then show ?thesis using kc r o' iref by auto
    next
      case False
      then have "vref J r" "ir J' r = ir J r" using r(1) vr old by auto
      then show ?thesis using r J by (auto simp: ok_def ir_typed_def)
    qed
  next
    fix r assume a: "vref J' r" "foldop (opc (ir J' r))"
    show "nk J' \<le> op1 (ir J' r) \<and> op1 (ir J' r) < nins J' \<and> (intins J' (ir J' r) \<longrightarrow> typed False J' (ir J' r)) \<and>
        (intt (irt (ir J' r)) \<longrightarrow> \<not> iscmp (opc (ir J' r)) \<longrightarrow> opc (ir J' r) \<noteq> IR_SUB \<longrightarrow> intins J' (ir J' r))"
    proof (cases "r = ref")
      case True
      then have "foldop op" using a o' iref by simp
      then show ?thesis using True iref oi rng keeps_typed [OF keeps ty] typed_intins [OF J ty] iii by auto
    next
      case False
      then have r: "vref J r" "ir J' r = ir J r" using a(1) vr old by auto
      then have "intins J' (ir J' r) \<Longrightarrow> typed False J' (ir J' r)" using iir keeps_typed [OF keeps] ok_typed [OF J r(1)] by simp
      moreover have "intt (irt (ir J r)) \<longrightarrow> \<not> iscmp (opc (ir J r)) \<longrightarrow> opc (ir J r) \<noteq> IR_SUB \<longrightarrow> intins J' (ir J r)"
        using iir [OF r(1)] J a(2) r by (auto simp: ok_def ir_typed_def)
      ultimately show ?thesis using r a op1_range [OF J r(1)] rng by simp
    qed
  qed
  have opn: "agrees1 J' (ir J r) v (\<nu>(ref := w)) = agrees1 J (ir J r) v \<nu>" if "vref J r" for r v w \<nu>
  proof (cases "intins J (ir J r)")
    case True
    have t: "typed False J (ir J r)" by (rule ok_typed [OF J that True])
    have "op1 (ir J r) \<noteq> ref" using typed_vref(1) [OF t] old by blast
    moreover have "op2 (ir J r) \<noteq> ref" using typed_vref(2) [OF t] typedD(3) [OF t] old nz by metis
    ultimately show ?thesis using eval_cong [of "\<nu>(ref := w)" "ir J r" \<nu>] guard_cong [of "\<nu>(ref := w)" "ir J r" \<nu>]
      by (simp add: agrees1_def iir [OF that])
  qed (auto simp: agrees1_def iir [OF that])
  have opi: "agrees1 J' i v (\<nu>(ref := w)) = agrees1 J i v \<nu>" for v w \<nu>
  proof (cases "foldop (opc i)")
    case True
    then have t: "typed False J i" using ty o' by simp
    have "op1 i \<noteq> ref" using typed_vref(1) [OF t] old by blast
    moreover have "op2 i \<noteq> ref" using typed_vref(2) [OF t] typedD(3) [OF t] old nz by metis
    ultimately show ?thesis using eval_cong [of "\<nu>(ref := w)" i \<nu>] guard_cong [of "\<nu>(ref := w)" i \<nu>]
      by (simp add: agrees1_def iii)
  qed (auto simp: agrees1_def intins_def)
  have upd: "\<nu>(ref := \<nu> ref) = \<nu>" for \<nu> :: "nat \<Rightarrow> u64" by simp
  have "refines J J' G"
    unfolding refines_def
  proof (intro conjI allI impI)
    fix \<nu> assume a: "agrees J' \<nu>"
    show "agrees J \<nu>"
      unfolding agrees_def
    proof (intro allI impI)
      fix r assume r: "vref J r"
      then have "vref J' r" "ir J' r = ir J r" using vr old by blast+
      then have "agrees1 J' (ir J r) (\<nu> r) (\<nu>(ref := \<nu> ref))" using a unfolding agrees_def upd by metis
      then show "agrees1 J (ir J r) (\<nu> r) \<nu>" unfolding opn [OF r] .
    qed
    have "agrees1 J' i (\<nu> ref) (\<nu>(ref := \<nu> ref))" using a vr iref unfolding agrees_def upd by metis
    then have "agrees1 J i (\<nu> ref) \<nu>" unfolding opi .
    then show "G \<nu>" by (rule g)
  next
    fix \<nu> assume a: "agrees J \<nu>" "G \<nu>"
    then obtain v where v: "agrees1 J i v \<nu>" using ex by blast
    have "agrees J' (\<nu>(ref := v))"
      unfolding agrees_def
    proof (intro allI impI)
      fix r assume "vref J' r"
      then consider "r = ref" | "vref J r" "r \<noteq> ref" "ir J' r = ir J r" using vr old by blast
      then show "agrees1 J' (ir J' r) ((\<nu>(ref := v)) r) (\<nu>(ref := v))"
      proof cases
        case 1
        then show ?thesis using v iref opi by simp
      next
        case 2
        then show ?thesis using a(1) opn [OF 2(1)] by (simp add: agrees_def)
      qed
    qed
    then show "\<exists>\<nu>'. agrees J' \<nu>' \<and> (\<forall>r. vref J r \<longrightarrow> \<nu>' r = \<nu> r)" using old by (intro exI [of _ "\<nu>(ref := v)"]) auto
  qed
  with wf' ty' keeps fl show "post J J' G" by (simp add: post_def ok_def)
qed

section \<open>Constants\<close>

lemma kfresh: "ir_wf J \<Longrightarrow> ref < nk J \<Longrightarrow> on_chain J op r \<Longrightarrow> r \<noteq> ref"
  using on_chain_range [of J op r] by auto

lemma klink_post:
  assumes J: "ok J" and op: "op = IR_KINT \<or> op = IR_KINT64" and n: "0 < n" "nk J - n \<noteq> 0"
    and J': "klink (J\<lparr>nk := nk J - n\<rparr>, nk J - n) op f = (J', ref)"
    and f: "ik (f (ir J (nk J - n))) = k" "tv (f (ir J (nk J - n))) = t" "irt (f (ir J (nk J - n))) = (if op = IR_KINT then IRT_INT else IRT_I64)"
    and u: "\<And>r. op = IR_KINT \<Longrightarrow> on_chain J op r \<Longrightarrow> ik (ir J r) \<noteq> k" "\<And>r. op = IR_KINT64 \<Longrightarrow> on_chain J op r \<Longrightarrow> tv (ir J r) \<noteq> t"
  shows "post J J' (\<lambda>_. True) \<and> vref J' ref \<and> opc (ir J' ref) = op \<and> ik (ir J' ref) = k \<and> tv (ir J' ref) = t \<and>
    irt (ir J' ref) = (if op = IR_KINT then IRT_INT else IRT_I64) \<and> (\<forall>r. vref J' r \<longrightarrow> vref J r \<or> r = ref)"
proof -
  have wf: "ir_wf J" using J by (simp add: ok_def)
  define i where "i = (f (ir J (nk J - n)))\<lparr>opc := op, prev := chain J op\<rparr>"
  have ref: "ref = nk J - n" and j: "J' = J\<lparr>nk := ref, ir := (ir J)(ref := i), chain := (chain J)(op := ref)\<rparr>"
    using J' by (auto simp: klink_def i_def)
  have lt: "ref < nk J" and nz: "ref \<noteq> 0" using n ref by simp_all
  have isk: "iskop op" using op by (auto simp: iskop_def ir_defs IR_KSLOT_def)
  have i: "opc i = op" "ik i = k" "tv i = t" "irt i = (if op = IR_KINT then IRT_INT else IRT_I64)" using f by (simp_all add: i_def)
  have nf: "\<not> foldop op" using op by (auto simp: foldop_def unop_def shiftop_def binop_def iscmp_def addop_def divop_def op32only_def ir_defs)
  have ne: "IR_KINT \<noteq> IR_KINT64" by (simp add: ir_defs)
  have ag: "agrees1 J i (if op = IR_KINT then sx k else t) \<nu>" for \<nu>
    using op nf i ne by (auto simp: agrees1_def intins_def int32t_def irt_type_def irt_defs IRT_I8_def)
  have L: "post J J' (\<lambda>_. True) \<and> vref J' ref \<and> (\<forall>r. vref J' r \<longrightarrow> vref J r \<or> r = ref) \<and> ir J' ref = i"
  proof (intro conjI)
    note l = link_ok [OF J kfresh [OF wf lt] nz, where i = i and op = op and J' = J' and G = "\<lambda>_. True"]
    have a: "ir J' = (ir J)(ref := i)" "chain J' = (chain J)(op := ref)" "prev i = chain J op" "flags_eq J J'"
      by (simp_all add: j i_def flags_eq_def)
    have kv: "kval_ok op i" using op i ne by (auto simp: kval_ok_def)
    have b: "if iskop op then nk J' = ref \<and> ref < nk J \<and> nins J' = nins J
            else nins J' = Suc (nins J) \<and> ref = nins J \<and> nk J' = nk J" using isk lt by (simp add: j)
    have c: "\<And>r. op = IR_KINT \<Longrightarrow> on_chain J op r \<Longrightarrow> ik (ir J r) \<noteq> ik i" using u(1) i by auto
    have d: "\<And>r. op = IR_KINT64 \<Longrightarrow> on_chain J op r \<Longrightarrow> tv (ir J r) \<noteq> tv i" using u(2) i by auto
    show "post J J' (\<lambda>_. True)" by (rule l(1) [OF _ a(1,2,3) i(1) a(4) kv b c d]) (use nf ag op in auto)
    show "vref J' ref" by (rule l(2) [OF _ a(1,2,3) i(1) a(4) kv b c d]) (use nf ag op in auto)
    show "\<forall>r. vref J' r \<longrightarrow> vref J r \<or> r = ref"
    proof
      fix r
      have "vref J' r \<longleftrightarrow> vref J r \<or> r = ref" by (rule l(4) [OF _ a(1,2,3) i(1) a(4) kv b c d]) (use nf ag op in auto)
      then show "vref J' r \<longrightarrow> vref J r \<or> r = ref" by blast
    qed
    show "ir J' ref = i" by (simp add: a)
  qed
  then show ?thesis using i by simp
qed

lemma kint_ok:
  assumes J: "ok J" and e: "lj_ir_kint J k = (J', ref)" and nz: "0 < nk J'"
  shows "post J J' (\<lambda>_. True)" and "vref J' ref" and "opc (ir J' ref) = IR_KINT" and "ik (ir J' ref) = k"
    and "irt (ir J' ref) = IRT_INT" and "vref J' r \<Longrightarrow> vref J r \<or> r = ref"
proof -
  have wf: "ir_wf J" using J by (simp add: ok_def)
  have isk: "iskop IR_KINT" by (simp add: iskop_def ir_defs IR_KSLOT_def)
  have "post J J' (\<lambda>_. True) \<and> vref J' ref \<and> opc (ir J' ref) = IR_KINT \<and> ik (ir J' ref) = k \<and> irt (ir J' ref) = IRT_INT \<and>
      (\<forall>r. vref J' r \<longrightarrow> vref J r \<or> r = ref)"
  proof (cases "ksearch J IR_KINT (\<lambda>i. ik i = k)")
    case (Some r)
    then have "J' = J" "ref = r" using e by (simp_all add: lj_ir_kint_def)
    moreover from ksearch_Some [OF Some] have "on_chain J IR_KINT r" "ik (ir J r) = k" by auto
    moreover from this have "opc (ir J r) = IR_KINT" "irt (ir J r) = IRT_INT" using ir_wfD(3,4) [OF wf] by (auto simp: kval_ok_def)
    ultimately show ?thesis using post_refl [OF J] by (simp add: vref_def)
  next
    case None
    have e': "klink (J\<lparr>nk := nk J - 1\<rparr>, nk J - 1) IR_KINT (\<lambda>i. i\<lparr>ik := k, irt := IRT_INT\<rparr>) = (J', ref)"
      using e None by (simp add: lj_ir_kint_def ir_nextk_def Let_def)
    have z: "nk J - 1 \<noteq> 0" using e' nz by (auto simp: klink_def)
    have ne: "IR_KINT \<noteq> IR_KINT64" by (simp add: ir_defs)
    have u: "ik (ir J r) \<noteq> k" if "on_chain J IR_KINT r" for r using ksearch_None [OF wf isk None that] by simp
    have "post J J' (\<lambda>_. True) \<and> vref J' ref \<and> opc (ir J' ref) = IR_KINT \<and> ik (ir J' ref) = k \<and>
        tv (ir J' ref) = tv (ir J (nk J - 1)) \<and> irt (ir J' ref) = (if IR_KINT = IR_KINT then IRT_INT else IRT_I64) \<and>
        (\<forall>r. vref J' r \<longrightarrow> vref J r \<or> r = ref)"
      by (rule klink_post [OF J _ _ z e']) (use u ne in auto)
    then show ?thesis by simp
  qed
  then show "post J J' (\<lambda>_. True)" and "vref J' ref" and "opc (ir J' ref) = IR_KINT" and "ik (ir J' ref) = k"
    and "irt (ir J' ref) = IRT_INT" and "vref J' r \<Longrightarrow> vref J r \<or> r = ref" by blast+
qed

lemma kint64_ok:
  assumes J: "ok J" and e: "lj_ir_kint64 J k = (J', ref)" and nz: "0 < nk J'"
  shows "post J J' (\<lambda>_. True)" and "vref J' ref" and "opc (ir J' ref) = IR_KINT64" and "tv (ir J' ref) = k"
    and "irt (ir J' ref) = IRT_I64" and "vref J' r \<Longrightarrow> vref J r \<or> r = ref"
proof -
  have wf: "ir_wf J" using J by (simp add: ok_def)
  have isk: "iskop IR_KINT64" by (simp add: iskop_def ir_defs IR_KSLOT_def)
  have ne: "IR_KINT64 \<noteq> IR_KINT" "IR_KINT64 \<noteq> IR_KNUM" by (simp_all add: ir_defs)
  have "post J J' (\<lambda>_. True) \<and> vref J' ref \<and> opc (ir J' ref) = IR_KINT64 \<and> tv (ir J' ref) = k \<and> irt (ir J' ref) = IRT_I64 \<and>
      (\<forall>r. vref J' r \<longrightarrow> vref J r \<or> r = ref)"
  proof (cases "ksearch J IR_KINT64 (\<lambda>i. tv i = k)")
    case (Some r)
    then have "J' = J" "ref = r" using e by (simp_all add: lj_ir_kint64_def lj_ir_k64_def)
    moreover from ksearch_Some [OF Some] have "on_chain J IR_KINT64 r" "tv (ir J r) = k" by auto
    moreover from this have "opc (ir J r) = IR_KINT64" "irt (ir J r) = IRT_I64" using ir_wfD(3,4) [OF wf] by (auto simp: kval_ok_def)
    ultimately show ?thesis using post_refl [OF J] by (simp add: vref_def)
  next
    case None
    have e': "klink (J\<lparr>nk := nk J - 2\<rparr>, nk J - 2) IR_KINT64 (\<lambda>i. i\<lparr>tv := k, irt := IRT_I64, op1 := 0, op2 := 0\<rparr>) = (J', ref)"
      using e None ne by (simp add: lj_ir_kint64_def lj_ir_k64_def ir_nextk64_def Let_def)
    have z: "nk J - 2 \<noteq> 0" using e' nz by (auto simp: klink_def)
    have u: "tv (ir J r) \<noteq> k" if "on_chain J IR_KINT64 r" for r using ksearch_None [OF wf isk None that] by simp
    have "post J J' (\<lambda>_. True) \<and> vref J' ref \<and> opc (ir J' ref) = IR_KINT64 \<and> ik (ir J' ref) = ik (ir J (nk J - 2)) \<and>
        tv (ir J' ref) = k \<and> irt (ir J' ref) = (if IR_KINT64 = IR_KINT then IRT_INT else IRT_I64) \<and>
        (\<forall>r. vref J' r \<longrightarrow> vref J r \<or> r = ref)"
      by (rule klink_post [OF J _ _ z e']) (use u ne in auto)
    then show ?thesis using ne by simp
  qed
  then show "post J J' (\<lambda>_. True)" and "vref J' ref" and "opc (ir J' ref) = IR_KINT64" and "tv (ir J' ref) = k"
    and "irt (ir J' ref) = IRT_I64" and "vref J' r \<Longrightarrow> vref J r \<or> r = ref" by blast+
qed

text \<open>Constants do not add a mask.\<close>

lemma mask_free_const:
  assumes J: "ok J" and kp: "keeps J J'" and v: "\<And>r. vref J' r \<Longrightarrow> vref J r \<or> r = ref" and k: "opc (ir J' ref) \<noteq> IR_BAND"
    and m: "mask_free J"
  shows "mask_free J'"
  unfolding mask_free_def
proof (intro allI impI)
  fix r assume r: "vref J' r" "opc (ir J' r) = IR_BAND" "int64t (irt (ir J' r))"
  then have vr: "vref J r" using v k by auto
  note e = keepsD [OF kp vr]
  have b: "opc (ir J r) = IR_BAND" "int64t (irt (ir J r))" using r e by simp_all
  have nc: "foldop IR_BAND" "\<not> iscmp IR_BAND" "IR_BAND \<noteq> IR_SUB" "\<not> unop IR_BAND" "IR_BAND \<noteq> IR_ABC"
    by (simp_all add: foldop_def binop_def iscmp_def unop_def ir_defs)
  have "intins J (ir J r)" using ok_intins [OF J vr] b nc by (simp add: intt_def)
  then have "vref J (op2 (ir J r))" using typed_vref(2) [OF ok_typed [OF J vr]] b nc by simp
  then have "opc (ir J' (op2 (ir J r))) = opc (ir J (op2 (ir J r)))" by (rule keepsD(2) [OF kp])
  then show "opc (fr J' (ir J' r)) \<noteq> IR_KINT64" using m vr b e(7) nc by (simp add: mask_free_def)
qed

section \<open>Emitting and CSE\<close>

lemma foldop_not_k: "foldop op \<Longrightarrow> \<not> iskop op \<and> op \<noteq> IR_KINT \<and> op \<noteq> IR_KINT64"
  by (auto simp: foldop_def unop_def shiftop_def binop_def iscmp_def addop_def divop_def op32only_def iskop_def
      ir_defs IR_KSLOT_def word_le_nat_alt)

lemma agrees1_ex: "foldop (opc i) \<Longrightarrow> guard i \<nu> \<Longrightarrow> \<exists>v. agrees1 J i v \<nu>"
  using foldop_not_k [of "opc i"] int3264 [of "irt i"]
  by (intro exI [of _ "eval i \<nu>"]) (auto simp: agrees1_def eval_def)

lemma emit_ok:
  assumes J: "ok J" and t: "typed False J fins" and e: "lj_ir_emit J fins = (J', ref)"
  shows "post J J' (guard fins)" and "vref J' ref" and "opc (ir J' ref) = opc fins" and "irt (ir J' ref) = irt fins"
    and "op1 (ir J' ref) = op1 fins" and "op2 (ir J' ref) = op2 fins"
proof -
  have wf: "ir_wf J" using J by (simp add: ok_def)
  define i where "i = (ir J (nins J))\<lparr>prev := chain J (opc fins), opc := opc fins, op1 := op1 fins, op2 := op2 fins, irt := irt fins\<rparr>"
  have j: "J' = J\<lparr>nins := nins J + 1, ir := (ir J)(nins J := i), chain := (chain J)(opc fins := nins J),
      guardemit := guardemit J OR irt fins\<rparr>" "ref = nins J"
    using e by (auto simp: lj_ir_emit_def lj_ir_nextins_def Let_def i_def)
  have fo: "foldop (opc fins)" and ty: "int32t (irt fins) \<or> int64t (irt fins)" using typedD(1,2) [OF t] by simp_all
  note nk = foldop_not_k [OF fo]
  have i: "opc i = opc fins" "op1 i = op1 fins" "op2 i = op2 fins" "irt i = irt fins" "prev i = chain J (opc fins)" by (simp_all add: i_def)
  have fresh: "on_chain J op r \<Longrightarrow> r \<noteq> nins J" for op r using on_chain_range [OF wf] by auto
  have nz: "nins J \<noteq> 0" using ir_wfD(2) [OF wf] by simp
  have ti: "typed False J i" using t unfolding typed_def Let_def i .
  have gi: "guard i = guard fins" by (rule ext) (simp add: guard_def i)
  have ag: "agrees1 J i v \<nu> \<Longrightarrow> guard fins \<nu>" for v \<nu> using typed_intins [OF J ti] by (auto simp: agrees1_def gi)
  have ex: "guard fins \<nu> \<Longrightarrow> \<exists>v. agrees1 J i v \<nu>" for \<nu> using agrees1_ex [of i \<nu>] fo i gi by simp
  note l = link_ok [OF J fresh nz, where i = i and op = "opc fins" and J' = J' and G = "guard fins"]
  have a: "ir J' = (ir J)(nins J := i)" "chain J' = (chain J)(opc fins := nins J)" "flags_eq J J'"
    by (simp_all add: j flags_eq_def)
  have kv: "kval_ok (opc fins) i" using nk by (simp add: kval_ok_def)
  have b: "if iskop (opc fins) then nk J' = nins J \<and> nins J < nk J \<and> nins J' = nins J
          else nins J' = Suc (nins J) \<and> nins J = nins J \<and> nk J' = nk J" using nk by (simp add: j)
  show "post J J' (guard fins)" by (rule l(1) [OF _ a(1,2) i(5,1) a(3) kv b]) (use nk ti ag ex in auto)
  show "vref J' ref" unfolding j(2) by (rule l(2) [OF _ a(1,2) i(5,1) a(3) kv b]) (use nk ti ag ex in auto)
  show "opc (ir J' ref) = opc fins" and "irt (ir J' ref) = irt fins"
    and "op1 (ir J' ref) = op1 fins" and "op2 (ir J' ref) = op2 fins" by (simp_all add: a j(2) i)
qed

lemma chain_down_Some: "chain_down f J lim P a = Some r \<Longrightarrow> reach J a r \<and> P (ir J r) \<and> lim < r"
proof (induction f arbitrary: a)
  case (Suc f)
  show ?case
  proof (cases "P (ir J a)")
    case True
    with Suc.prems show ?thesis by (auto split: if_splits intro: reach.head)
  next
    case False
    with Suc.prems have a: "lim < a" and r: "chain_down f J lim P (prev (ir J a)) = Some r" by (auto split: if_splits)
    from Suc.IH [OF r] have r': "reach J (prev (ir J a)) r" "P (ir J r)" "lim < r" by simp_all
    moreover have "a \<noteq> 0" using a by simp
    moreover from r'(1) have "reach J a (prev (ir J a))" using reach_nonzero reach.step [OF reach.head [OF \<open>a \<noteq> 0\<close>]] by blast
    ultimately show ?thesis using reach_trans by blast
  qed
qed simp

text \<open>An instruction with the same opcode and the same operands has the same width, so the same value and
  guard.\<close>

lemma same_width:
  assumes J: "ok J" and t: "typed False J i" and t': "typed False J i'" and o': "opc i' = opc i" and "op1 i' = op1 i" "op2 i' = op2 i"
  shows "int64t (irt i') \<longleftrightarrow> int64t (irt i)"
proof -
  have d: "\<not> (w32 J r \<and> w64 J r)" for r using int3264 by (auto simp: w32_def w64_def)
  have "opc i = IR_NEG \<or> unop (opc i) \<or> shiftop (opc i) \<or> binop (opc i) \<or> addop (opc i)" using typedD(2) [OF t] by (auto simp: foldop_def)
  then show ?thesis
  proof (elim disjE)
    assume "addop (opc i)"
    then have a: "addt False J (irt i) (op1 i) (op2 i)" and b: "addt False J (irt i') (op1 i) (op2 i)"
      using typedD(6) [OF t] typedD(6) [OF t', unfolded assms(4-6)] by auto
    have k: "k0 J r \<Longrightarrow> w32 J r" for r using k0_w32 [OF J] .
    show ?thesis using a b d k unfolding addt_def by (metis (full_types))
  next
    assume "opc i = IR_NEG"
    then show ?thesis using typedD(7) [OF t] typedD(7) [OF t'] assms(4-6) d [of "op1 i"] by (auto simp: wt_def split: if_splits)
  next
    assume "unop (opc i)"
    then show ?thesis using typedD(3) [OF t] typedD(3) [OF t'] assms(4-6) d [of "op1 i"] by (auto simp: wt_def split: if_splits)
  next
    assume "shiftop (opc i)"
    then show ?thesis using typedD(4) [OF t] typedD(4) [OF t'] assms(4-6) d [of "op1 i"] by (auto simp: wt_def split: if_splits)
  next
    assume "binop (opc i)"
    then show ?thesis using typedD(5) [OF t] typedD(5) [OF t'] assms(4-6) d [of "op1 i"] by (auto simp: wt_def split: if_splits)
  qed
qed

lemma op64_sign: "\<not> divop op \<Longrightarrow> op64 op s a b = op64 op s' a b"
  by (simp add: op64_def divop_def Let_def)

text \<open>What the result reference of an instruction with a value has to satisfy.\<close>

definition rval :: "jit_State \<Rightarrow> jit_State \<Rightarrow> irins \<Rightarrow> nat \<Rightarrow> bool" where
  "rval J J' fins ref \<longleftrightarrow> (iscmp (opc fins) \<or> vref J' ref \<and>
      (wt J' (irt fins) ref \<or> k0 J' ref) \<and> (\<forall>\<nu>. agrees J' \<nu> \<longrightarrow> \<nu> ref = eval fins \<nu>))"

lemma typed_intt: "typed b J i \<Longrightarrow> intt (irt i)"
  using typedD(1) by (auto simp: intt_def)

lemma agreesD: "agrees J \<nu> \<Longrightarrow> vref J r \<Longrightarrow> intins J (ir J r) \<Longrightarrow> \<not> iscmp (opc (ir J r)) \<Longrightarrow> \<nu> r = eval (ir J r) \<nu>"
  and agrees_guard: "agrees J \<nu> \<Longrightarrow> vref J r \<Longrightarrow> intins J (ir J r) \<Longrightarrow> guard (ir J r) \<nu>"
  by (auto simp: agrees_def agrees1_def)

lemma rval_same:
  assumes "ok J'" "vref J' r" "typed False J' (ir J' r)" "opc (ir J' r) = opc fins" "int64t (irt (ir J' r)) = int64t (irt fins)"
    and "\<And>\<nu>. eval (ir J' r) \<nu> = eval fins \<nu>"
  shows "rval J J' fins r"
proof -
  have "wt J' (irt fins) r" using assms(2,5) typedD(1) [OF assms(3)] by (auto simp: wt_def w32_def w64_def)
  moreover have "\<nu> r = eval fins \<nu>" if "agrees J' \<nu>" "\<not> iscmp (opc fins)" for \<nu>
    using agreesD [OF that(1) assms(2) typed_intins [OF assms(1,3)]] that(2) assms(4,6) by simp
  ultimately show ?thesis using assms(2) by (auto simp: rval_def)
qed

lemma cse_ok:
  assumes J: "ok J" and t: "typed False J fins" and s: "sgn_ok J fins" and e: "lj_opt_cse J fins = (J', ref)"
  shows "post J J' (guard fins) \<and> rval J J' fins ref"
proof -
  have wf: "ir_wf J" using J by (simp add: ok_def)
  have fo: "foldop (opc fins)" by (rule typedD(2) [OF t])
  define found where "found = (if opt_cse J then chain_down (chain J (opc fins)) J (max (op1 fins) (op2 fins)) (same_op12 fins) (chain J (opc fins)) else None)"
  show ?thesis
  proof (cases found)
    case None
    then have em: "lj_ir_emit J fins = (J', ref)" using e by (simp add: lj_opt_cse_def Let_def found_def)
    note m = emit_ok [OF J t em]
    have J': "ok J'" using m(1) by (rule postD)
    have i: "intins J' (ir J' ref)" using typed_intins [OF J' keeps_typed [OF postD(2) [OF m(1)] t]] m(3,5) by (simp add: intins_def)
    have ev: "eval (ir J' ref) \<nu> = eval fins \<nu>" for \<nu> by (simp add: eval_def m)
    have "rval J J' fins ref" by (rule rval_same [OF J' m(2) ok_typed [OF J' m(2) i] m(3) _ ev]) (simp add: m)
    with m(1) show ?thesis by simp
  next
    case (Some r)
    then have "J' = J" "ref = r" using e by (auto simp: lj_opt_cse_def Let_def found_def split: option.splits)
    have "opt_cse J" using Some by (auto simp: found_def split: if_splits)
    then have "reach J (chain J (opc fins)) r" "same_op12 fins (ir J r)" using chain_down_Some Some unfolding found_def by (simp_all, blast+)
    then have oc: "on_chain J (opc fins) r" and o12: "op1 (ir J r) = op1 fins" "op2 (ir J r) = op2 fins"
      by (auto simp: on_chain_def same_op12_def)
    have o': "opc (ir J r) = opc fins" by (rule ir_wfD(3) [OF wf oc])
    have v: "vref J r" using oc o' by (simp add: vref_def)
    have i: "intins J (ir J r)" using typed_intins [OF J t] o' o12 by (simp add: intins_def)
    note tr = ok_typed [OF J v i]
    have w: "int64t (irt (ir J r)) \<longleftrightarrow> int64t (irt fins)" by (rule same_width [OF J t tr o' o12])
    have sg: "divop (opc fins) \<Longrightarrow> irt_isi64 (irt (ir J r)) = irt_isi64 (irt fins)" using s v o' by (simp add: sgn_ok_def)
    have ev: "eval (ir J r) \<nu> = eval fins \<nu>" for \<nu>
      using sg op64_sign [of "opc fins"] by (cases "divop (opc fins)") (simp_all add: eval_def o' o12 w)
    have gd: "guard (ir J r) \<nu> = guard fins \<nu>" for \<nu> by (simp add: guard_def o' o12 w)
    have "rval J J fins r" by (rule rval_same [OF J v tr o' w ev])
    moreover have "guard fins \<nu>" if "agrees J \<nu>" for \<nu> using agrees_guard [OF that v i] gd by simp
    ultimately show ?thesis using post_refl [OF J, of "guard fins"] \<open>J' = J\<close> \<open>ref = r\<close> by simp
  qed
qed

end
