(* ===== verification/FoldWord.thy ===== *)
theory FoldWord
  imports FoldSem
begin

text \<open>
  The word arithmetic behind the fold rules: the folding functions of the code agree with the
  operations of the semantics, and the algebraic identities the rules rely on.
\<close>

section \<open>Shift counts\<close>

lemma and31: "unat ((k :: u32) AND 31) = unat k mod 32"
proof -
  have "k AND 31 = take_bit 5 k" by (simp add: take_bit_eq_mask mask_eq_exp_minus_1)
  then show ?thesis by (simp only: unsigned_take_bit_eq) (simp add: take_bit_eq_mod)
qed

lemma and63: "unat ((k :: u32) AND 63) = unat k mod 64"
proof -
  have "k AND 63 = take_bit 6 k" by (simp add: take_bit_eq_mask mask_eq_exp_minus_1)
  then show ?thesis by (simp only: unsigned_take_bit_eq) (simp add: take_bit_eq_mod)
qed

lemma and63_64: "unat ((k :: u64) AND 63) = unat k mod 64"
proof -
  have "k AND 63 = take_bit 6 k" by (simp add: take_bit_eq_mask mask_eq_exp_minus_1)
  then show ?thesis by (simp only: unsigned_take_bit_eq) (simp add: take_bit_eq_mod)
qed

lemma sx_count: "unat (sx k) mod 64 = unat k mod 64"
proof -
  have "take_bit 6 (sx k) = ucast (take_bit 6 k)"
    by (rule bit_word_eqI) (auto simp: sx_def bit_simps min_def)
  then have "unat (take_bit 6 (sx k)) = unat (take_bit 6 k)"
    by (simp only: unsigned_ucast_eq unsigned_take_bit_eq) simp
  then show ?thesis by (simp only: unsigned_take_bit_eq) (simp add: take_bit_eq_mod)
qed

section \<open>Shifts and rotates\<close>

lemma push_is_mult: "push_bit n (x :: 'a::len word) = x * 2 ^ n"
  by (simp add: push_bit_eq_mult)

lemma drop_is_div: "drop_bit n (x :: 'a::len word) = word_of_nat (unat x div 2 ^ n)"
proof -
  have "unat (drop_bit n x) = unat x div 2 ^ n" by (metis unat_drop_bit_eq drop_bit_eq_div)
  moreover have "word_of_nat (unat (drop_bit n x)) = drop_bit n x" by simp
  ultimately show ?thesis by metis
qed

lemma sdrop_is_div: "signed_drop_bit n (x :: 'a::len word) = word_of_int (sint x div 2 ^ n)"
proof -
  have "sint (signed_drop_bit n x) = sint x div 2 ^ n" by (simp add: sint_signed_drop_bit_eq drop_bit_eq_div)
  moreover have "word_of_int (sint (signed_drop_bit n x)) = signed_drop_bit n x" by simp
  ultimately show ?thesis by metis
qed

lemma rot_index:
  fixes i n m :: nat
  assumes "n < m" "i < m"
  shows "(i + (m - n)) mod m = (if n \<le> i then i - n else i + (m - n))" and "(i + n) mod m = (if i + n < m then i + n else i + n - m)"
proof -
  show "(i + (m - n)) mod m = (if n \<le> i then i - n else i + (m - n))"
  proof (cases "n \<le> i")
    case True
    then have "i + (m - n) = (i - n) + m" using assms by simp
    then show ?thesis using True assms by (simp only: mod_add_self2) simp
  qed (use assms in simp)
  show "(i + n) mod m = (if i + n < m then i + n else i + n - m)"
    using assms by (simp add: mod_if)
qed

lemma bit_rotl: "n < LENGTH('a) \<Longrightarrow> bit (word_rotl n (x :: 'a::len word)) i \<longleftrightarrow>
    i < LENGTH('a) \<and> bit x (if n \<le> i then i - n else i + (LENGTH('a) - n))"
  using rot_index(1) [of n "LENGTH('a)" i] by (auto simp: bit_word_rotl_iff)

lemma bit_rotr: "n < LENGTH('a) \<Longrightarrow> bit (word_rotr n (x :: 'a::len word)) i \<longleftrightarrow>
    i < LENGTH('a) \<and> bit x (if i + n < LENGTH('a) then i + n else i + n - LENGTH('a))"
  using rot_index(2) [of n "LENGTH('a)" i] by (auto simp: bit_word_rotr_iff)

lemma rol_is_rotl:
  assumes n: "n < 32"
  shows "lj_rol x n = word_rotl n x"
proof (rule bit_word_eqI)
  fix i assume i: "i < LENGTH(32)"
  have m: "(32 - n) mod 32 = (if n = 0 then 0 else 32 - n)" using n by simp
  have "bit (word_rotl n x) i \<longleftrightarrow> bit x (if n \<le> i then i - n else i + (32 - n))" using bit_rotl [of n x i] n i by simp
  moreover have "bit (lj_rol x n) i \<longleftrightarrow> bit x (if n \<le> i then i - n else i + (32 - n))"
  proof (cases "n \<le> i")
    case True
    then show ?thesis using n i m by (auto simp: lj_rol_def bit_simps dest: bit_imp_le_length)
  next
    case False
    then show ?thesis using n i m by (auto simp: lj_rol_def bit_simps algebra_simps dest: bit_imp_le_length)
  qed
  ultimately show "bit (lj_rol x n) i = bit (word_rotl n x) i" by simp
qed

lemma ror_is_rotr:
  assumes n: "n < 32"
  shows "lj_ror x n = word_rotr n x"
proof (rule bit_word_eqI)
  fix i assume i: "i < LENGTH(32)"
  have m: "(32 - n) mod 32 = (if n = 0 then 0 else 32 - n)" using n by simp
  have "bit (word_rotr n x) i \<longleftrightarrow> bit x (if i + n < 32 then i + n else i + n - 32)" using bit_rotr [of n x i] n i by simp
  moreover have "bit (lj_ror x n) i \<longleftrightarrow> bit x (if i + n < 32 then i + n else i + n - 32)"
  proof (cases "i + n < 32")
    case True
    then show ?thesis using n i m by (auto simp: lj_ror_def bit_simps add.commute dest: bit_imp_le_length)
  next
    case False
    then show ?thesis using n i m by (auto simp: lj_ror_def bit_simps add.commute dest: bit_imp_le_length)
  qed
  ultimately show "bit (lj_ror x n) i = bit (word_rotr n x) i" by simp
qed

lemma rol64_is_rotl:
  assumes n: "n < 64"
  shows "lj_rol64 x n = word_rotl n x"
proof (rule bit_word_eqI)
  fix i assume i: "i < LENGTH(64)"
  have m: "(64 - n) mod 64 = (if n = 0 then 0 else 64 - n)" using n by simp
  have "bit (word_rotl n x) i \<longleftrightarrow> bit x (if n \<le> i then i - n else i + (64 - n))" using bit_rotl [of n x i] n i by simp
  moreover have "bit (lj_rol64 x n) i \<longleftrightarrow> bit x (if n \<le> i then i - n else i + (64 - n))"
  proof (cases "n \<le> i")
    case True
    then show ?thesis using n i m by (auto simp: lj_rol64_def bit_simps dest: bit_imp_le_length)
  next
    case False
    then show ?thesis using n i m by (auto simp: lj_rol64_def bit_simps algebra_simps dest: bit_imp_le_length)
  qed
  ultimately show "bit (lj_rol64 x n) i = bit (word_rotl n x) i" by simp
qed

lemma ror64_is_rotr:
  assumes n: "n < 64"
  shows "lj_ror64 x n = word_rotr n x"
proof (rule bit_word_eqI)
  fix i assume i: "i < LENGTH(64)"
  have m: "(64 - n) mod 64 = (if n = 0 then 0 else 64 - n)" using n by simp
  have "bit (word_rotr n x) i \<longleftrightarrow> bit x (if i + n < 64 then i + n else i + n - 64)" using bit_rotr [of n x i] n i by simp
  moreover have "bit (lj_ror64 x n) i \<longleftrightarrow> bit x (if i + n < 64 then i + n else i + n - 64)"
  proof (cases "i + n < 64")
    case True
    then show ?thesis using n i m by (auto simp: lj_ror64_def bit_simps add.commute dest: bit_imp_le_length)
  next
    case False
    then show ?thesis using n i m by (auto simp: lj_ror64_def bit_simps add.commute dest: bit_imp_le_length)
  qed
  ultimately show "bit (lj_ror64 x n) i = bit (word_rotr n x) i" by simp
qed

lemma bit_ff00: "bit (0xff00 :: int) n \<longleftrightarrow> 8 \<le> n \<and> n < 16" "bit (0xff0000 :: int) n \<longleftrightarrow> 16 \<le> n \<and> n < 24"
proof -
  have "(0xff00 :: int) = push_bit 8 (mask 8)" "(0xff0000 :: int) = push_bit 16 (mask 8)"
    by (simp_all add: mask_eq_exp_minus_1 push_bit_eq_mult)
  then show "bit (0xff00 :: int) n \<longleftrightarrow> 8 \<le> n \<and> n < 16" "bit (0xff0000 :: int) n \<longleftrightarrow> 16 \<le> n \<and> n < 24"
    by (simp_all only: bit_push_bit_iff bit_mask_iff) auto
qed

lemma bswap_rev: "lj_bswap x = get_le32 (rev (put_le32 x))"
proof (rule bit_word_eqI)
  fix n assume "n < LENGTH(32)"
  then consider "n < 8" | "8 \<le> n" "n < 16" | "16 \<le> n" "n < 24" | "24 \<le> n" "n < 32" by force
  then show "bit (lj_bswap x) n = bit (get_le32 (rev (put_le32 x))) n"
    by cases (auto simp: get_le32_def put_le32_def lj_bswap_def bit_simps bit_ff00 nth_append dest: bit_imp_le_length)
qed

lemma bswap64_rev: "lj_bswap64 x = get_le64 (rev (put_le64 x))"
proof -
  have "get_le64 (rev (put_le64 x)) =
      ucast (get_le32 (rev (put_le32 (ucast (drop_bit 32 x))))) OR push_bit 32 (ucast (get_le32 (rev (put_le32 (ucast x)))))"
    by (simp add: get_le64_def put_le64_def)
  then show ?thesis by (simp add: lj_bswap64_def bswap_rev)
qed

lemma wmin: "(if (a :: 'a::len word) <s b then a else b) = word_of_int (min (sint a) (sint b))"
  by (simp add: word_sless_alt min_def)

lemma wmax: "(if (b :: 'a::len word) <s a then a else b) = word_of_int (max (sint a) (sint b))"
  by (simp add: word_sless_alt max_def)

section \<open>The folding functions compute the operations\<close>

definition kop32 :: "irop \<Rightarrow> bool" where
  "kop32 op \<longleftrightarrow> addop op \<or> op = IR_MUL \<or> op = IR_MOD \<or> op = IR_NEG \<or> op = IR_BAND \<or> op = IR_BOR \<or> op = IR_BXOR \<or>
     shiftop op \<or> op = IR_MIN \<or> op = IR_MAX"

lemma shiftop_cases: "shiftop op \<longleftrightarrow> op = IR_BSHL \<or> op = IR_BSHR \<or> op = IR_BSAR \<or> op = IR_BROL \<or> op = IR_BROR"
proof -
  have "36 \<le> op \<and> op \<le> 40 \<longleftrightarrow> op = 36 \<or> op = 37 \<or> op = 38 \<or> op = 39 \<or> op = (40 :: u8)"
    by (simp only: word_le_nat_alt word_unat_eq_iff) (simp, arith)
  then show ?thesis by (simp add: shiftop_def ir_defs)
qed

lemma vm_modi_word: "b \<noteq> 0 \<Longrightarrow> lj_vm_modi a b = word_of_int (sint a mod sint b)"
proof -
  assume "b \<noteq> 0"
  then have "sint (lj_vm_modi a b) = sint a mod sint b" by (rule vm_modi_floor)
  moreover have "word_of_int (sint (lj_vm_modi a b)) = lj_vm_modi a b" by simp
  ultimately show ?thesis by metis
qed

lemma kfold_intop_shift: "shiftop op \<Longrightarrow> kfold_intop k1 k2 op = op32 op k1 k2"
  unfolding shiftop_cases
  by (elim disjE; simp add: kfold_intop_def op32_def ir_defs and31 push_is_mult drop_is_div sdrop_is_div rol_is_rotl ror_is_rotr Let_def)

lemma kfold_intop_minmax: "op = IR_MIN \<or> op = IR_MAX \<Longrightarrow> kfold_intop k1 k2 op = op32 op k1 k2"
  by (elim disjE; simp add: kfold_intop_def op32_def ir_defs wmin wmax Let_def)

lemma not_plus_1: "NOT k + 1 = - (k :: 'a::len word)"
  by (simp add: minus_eq_not_plus_1)

lemma kfold_intop_op32: "kop32 op \<Longrightarrow> (op = IR_MOD \<Longrightarrow> k2 \<noteq> 0) \<Longrightarrow> kfold_intop k1 k2 op = op32 op k1 k2"
  unfolding kop32_def addop_def
  by (elim disjE; (simp add: kfold_intop_shift kfold_intop_minmax; fail)?;
      simp add: kfold_intop_def op32_def ir_defs Let_def not_plus_1 vm_modi_word)

definition kop64 :: "irop \<Rightarrow> bool" where
  "kop64 op \<longleftrightarrow> addop op \<or> op = IR_MUL \<or> op = IR_BAND \<or> op = IR_BOR \<or> op = IR_BXOR \<or> shiftop op"

lemma kfold_int64arith_op64: "kop64 op \<Longrightarrow> kfold_int64arith k1 k2 op = op64 op s k1 k2"
  unfolding kop64_def addop_def shiftop_cases
  by (elim disjE; simp add: kfold_int64arith_def op64_def ir_defs and63_64 push_is_mult drop_is_div sdrop_is_div rol64_is_rotl
      ror64_is_rotr Let_def)

lemma shift64_op64: "shiftop op \<Longrightarrow> lj_carith_shift64 k (sh AND 63) (op - IR_BSHL) = op64 op s k (sx sh)"
  unfolding shiftop_cases
  by (elim disjE; simp add: lj_carith_shift64_def op64_def ir_defs and63 sx_count push_is_mult drop_is_div sdrop_is_div rol64_is_rotl
      ror64_is_rotr Let_def shmask_def lj_carith_shl64_def lj_carith_shr64_def lj_carith_sar64_def lj_carith_rol64_def
      lj_carith_ror64_def)

lemma kfold_intop_min1: "op = IR_BSHL \<or> op = IR_BSHR \<Longrightarrow> kfold_intop k1 k2 op = op32 op k1 k2"
  by (rule kfold_intop_op32) (auto simp: kop32_def shiftop_cases ir_defs)

lemma scmp: "(a <s b) = cmp IR_LT a b" "(b <=s a) = cmp IR_GE a b" "(a <=s b) = cmp IR_LE a b" "(b <s a) = cmp IR_GT a b"
  "(a < b) = cmp IR_ULT a b" "(b \<le> a) = cmp IR_UGE a b" "(a \<le> b) = cmp IR_ULE a b" "(b < a) = cmp IR_UGT a b" "cmp IR_ABC a b = cmp IR_UGT a b"
  by (simp_all add: cmp_def word_sless_alt word_sle_eq word_less_def word_le_def ir_defs)

section \<open>Sign extension\<close>

lemma sx_inj [simp]: "sx a = sx b \<longleftrightarrow> a = b"
  by (metis lo_sx)

lemma sint_sx [simp]: "sint (sx x) = sint x"
  unfolding sx_def by (rule sint_up_scast) (simp add: is_up)

lemma sx_0 [simp]: "sx 0 = 0" and sx_m1 [simp]: "sx (- 1) = - 1" and lo_0 [simp]: "lo 0 = 0" and lo_m1 [simp]: "lo (- 1) = - 1"
  using lo_sx [of "- 1"] by (simp_all add: sx_def lo_def)

lemma checki32_sx: "checki32 k \<longleftrightarrow> k = sx (lo k)"
  by (simp add: checki32_def sx_def lo_def)

lemma sint64_wi: "- (2 ^ 63) \<le> i \<Longrightarrow> i < 2 ^ 63 \<Longrightarrow> sint (word_of_int i :: u64) = i"
  by (simp add: signed_of_int signed_take_bit_int_eq_self)

lemma sint_inj: "sint a = sint b \<longleftrightarrow> (a :: 'a::len word) = b"
  by (metis of_int_sint scast_id)

text \<open>The overflow check on the exact result in 64 bits.\<close>

lemma checki32_int:
  assumes "- (2 ^ 63) \<le> i" "i < 2 ^ 63"
  shows "checki32 (word_of_int i) \<longleftrightarrow> in_i32 i" and "in_i32 i \<Longrightarrow> lo (word_of_int i) = word_of_int i"
proof -
  note s = sint64_wi [OF assms]
  have w: "(word_of_int i :: u64) = sx (word_of_int i)" if "in_i32 i"
    using that s by (simp flip: sint_inj add: in_i32_def sint_wi)
  show "lo (word_of_int i) = word_of_int i" if "in_i32 i" using w [OF that] by simp
  show "checki32 (word_of_int i) \<longleftrightarrow> in_i32 i"
  proof
    assume "checki32 (word_of_int i)"
    then have "i = sint (lo (word_of_int i))" using s by (metis checki32_sx sint_sx)
    then show "in_i32 i" using sint_bounds [of "lo (word_of_int i)"] by (simp add: in_i32_def)
  next
    assume "in_i32 i"
    then show "checki32 (word_of_int i)" unfolding checki32_sx using w by simp
  qed
qed

lemma sx_wi: "sx a = word_of_int (sint a)"
  by (simp add: sx_def)

lemma sint_mult_bound: "\<bar>sint (a :: u32) * sint b\<bar> \<le> 2 ^ 62" for b :: u32
proof -
  have "\<bar>sint a\<bar> \<le> 2 ^ 31" "\<bar>sint b\<bar> \<le> 2 ^ 31" using sint_bounds [of a] sint_bounds [of b] by linarith+
  then have "\<bar>sint a\<bar> * \<bar>sint b\<bar> \<le> 2 ^ 31 * 2 ^ 31" by (intro mult_mono) auto
  then show ?thesis by (simp add: abs_mult)
qed

lemma word32_ops: "(a :: u32) + b = word_of_int (sint a + sint b)" "a - b = word_of_int (sint a - sint b)" "a * b = word_of_int (sint a * sint b)"
  by simp_all

end
