(* ===== verification/FoldRules.thy ===== *)
theory FoldRules
  imports FoldSteps FoldWord
begin

text \<open>
  What a fold function has to establish, and the facts about the operands of a typed instruction
  that the soundness proofs of the rules share.
\<close>

section \<open>Soundness of a rule\<close>

definition equiv :: "jit_State \<Rightarrow> irins \<Rightarrow> irins \<Rightarrow> bool" where
  "equiv J i i' \<longleftrightarrow> (iscmp (opc i') \<longleftrightarrow> iscmp (opc i)) \<and> (int64t (irt i') \<longleftrightarrow> int64t (irt i)) \<and>
     (\<forall>\<nu>. agrees J \<nu> \<longrightarrow> (guard i' \<nu> \<longleftrightarrow> guard i \<nu>) \<and> (\<not> iscmp (opc i) \<longrightarrow> eval i' \<nu> = eval i \<nu>))"

definition res_ok :: "jit_State \<Rightarrow> irins \<Rightarrow> jit_State \<Rightarrow> fres \<Rightarrow> bool" where
  "res_ok J fins J' res =
     (case res of
        NEXTFOLD \<Rightarrow> J' = J
      | RETRYFOLD fins' \<Rightarrow> post J J' (\<lambda>_. True) \<and> typed True J' fins' \<and> sgn_ok J' fins' \<and> equiv J' fins fins' \<and>
          (nomask J fins \<longrightarrow> nomask J' fins')
      | KINTFOLD k \<Rightarrow> post J J' (\<lambda>_. True) \<and> \<not> iscmp (opc fins) \<and> (int64t (irt fins) \<longrightarrow> k = 0) \<and>
          (\<forall>\<nu>. agrees J' \<nu> \<longrightarrow> eval fins \<nu> = sx k \<and> guard fins \<nu>)
      | FAILFOLD \<Rightarrow> post J J' (\<lambda>_. True) \<and> (\<forall>\<nu>. agrees J' \<nu> \<longrightarrow> \<not> guard fins \<nu>)
      | DROPFOLD \<Rightarrow> iscmp (opc fins) \<and> post J J' (guard fins)
      | FREF r \<Rightarrow> post J J' (guard fins) \<and> rval J J' fins r)"

text \<open>What the rule with a nested fold may assume of it.\<close>

definition fold_ok :: "(jit_State \<Rightarrow> irins \<Rightarrow> fout) \<Rightarrow> bool" where
  "fold_ok rf \<longleftrightarrow>
     (\<forall>J fins J' r. rf J fins = Some (J', r) \<longrightarrow> nk J' \<le> nk J \<and>
        (0 < nk J' \<longrightarrow> ok J \<longrightarrow> typed True J fins \<longrightarrow> opt_fold J \<or> typed False J fins \<longrightarrow> sgn_ok J fins \<longrightarrow> nomask J fins \<longrightarrow>
           (case r of Inl e \<Rightarrow> post J J' (\<lambda>_. True) \<and> (\<forall>\<nu>. agrees J' \<nu> \<longrightarrow> \<not> guard fins \<nu>)
                    | Inr ref \<Rightarrow> post J J' (guard fins) \<and> rval J J' fins ref)))"

definition key_of :: "fkey \<Rightarrow> jit_State \<Rightarrow> irins \<Rightarrow> bool" where
  "key_of k J fins \<longleftrightarrow>
     (case k of (o', l, r) \<Rightarrow> opc fins = o' \<and> (\<forall>x. l = Some x \<longrightarrow> opc (fl J fins) = x) \<and>
        (\<forall>x. r = Some x \<longrightarrow> \<not> unop o' \<longrightarrow> ucast (opc (fr J fins)) = x))"

definition rule_ok :: "frule \<Rightarrow> fkey \<Rightarrow> bool" where
  "rule_ok f k \<longleftrightarrow>
     (\<forall>rf J fins J' res. fold_ok rf \<longrightarrow> ok J \<longrightarrow> typed True J fins \<longrightarrow> sgn_ok J fins \<longrightarrow> key_of k J fins \<longrightarrow>
        f rf J fins = Some (J', res) \<longrightarrow> 0 < nk J' \<longrightarrow> nomask J fins \<longrightarrow> res_ok J fins J' res)"

lemma rule_okI:
  assumes "\<And>rf J fins J' res. fold_ok rf \<Longrightarrow> ok J \<Longrightarrow> typed True J fins \<Longrightarrow> sgn_ok J fins \<Longrightarrow> key_of k J fins \<Longrightarrow>
    f rf J fins = Some (J', res) \<Longrightarrow> 0 < nk J' \<Longrightarrow> nomask J fins \<Longrightarrow> res_ok J fins J' res"
  shows "rule_ok f k"
  using assms unfolding rule_ok_def by blast

lemma ucast_u8: "(ucast (a :: u8) :: u16) = ucast b \<longleftrightarrow> a = b"
proof
  assume e: "(ucast a :: u16) = ucast b"
  show "a = b"
  proof (rule bit_word_eqI)
    fix n assume "n < LENGTH(8)"
    moreover have "bit (ucast a :: u16) n = bit (ucast b :: u16) n" using e by simp
    ultimately show "bit a n = bit b n" by (simp add: bit_simps)
  qed
qed simp

lemma key2 [simp]: "key_of (fkey2 o' l r) J fins \<longleftrightarrow> opc fins = o' \<and> (\<forall>x. l = Some x \<longrightarrow> opc (fl J fins) = x) \<and>
    (\<forall>x. r = Some x \<longrightarrow> \<not> unop o' \<longrightarrow> opc (fr J fins) = x)"
  by (auto simp: key_of_def fkey2_def ucast_u8)

lemma key1 [simp]: "unop o' \<Longrightarrow> key_of (fkey1 o' l) J fins \<longleftrightarrow> opc fins = o' \<and> opc (fl J fins) = l"
  by (auto simp: key_of_def fkey1_def)

lemmas op_classes = unop_def binop_def addop_def op32only_def divop_def foldop_def

section \<open>Opcode classes, by evaluation\<close>

lemma ops_distinct:
  "distinct [IR_KINT, IR_KINT64, IR_BNOT, IR_BSWAP, IR_BAND, IR_BOR, IR_BXOR, IR_BSHL, IR_BSHR, IR_BSAR, IR_BROL,
      IR_BROR, IR_ADD, IR_SUB, IR_MUL, IR_DIV, IR_MOD, IR_POW, IR_NEG, IR_MIN, IR_MAX, IR_ADDOV, IR_SUBOV,
      IR_MULOV, IR_LT, IR_GE, IR_LE, IR_GT, IR_ULT, IR_UGE, IR_ULE, IR_UGT, IR_EQ, IR_NE, IR_ABC]"
  "distinct [IR_ABC, IR_NE, IR_EQ, IR_UGT, IR_ULE, IR_UGE, IR_ULT, IR_GT, IR_LE, IR_GE, IR_LT, IR_MULOV,
      IR_SUBOV, IR_ADDOV, IR_MAX, IR_MIN, IR_NEG, IR_POW, IR_MOD, IR_DIV, IR_MUL, IR_SUB, IR_ADD, IR_BROR,
      IR_BROL, IR_BSAR, IR_BSHR, IR_BSHL, IR_BXOR, IR_BOR, IR_BAND, IR_BSWAP, IR_BNOT, IR_KINT64, IR_KINT]"
  by (simp_all add: ir_defs)

lemmas ops_neq [simp] = ops_distinct [simplified]

lemma iscmp_simps [simp]:
  "\<not> iscmp IR_KINT" "\<not> iscmp IR_KINT64" "\<not> iscmp IR_BNOT" "\<not> iscmp IR_BSWAP"
  "\<not> iscmp IR_BAND" "\<not> iscmp IR_BOR" "\<not> iscmp IR_BXOR" "\<not> iscmp IR_BSHL"
  "\<not> iscmp IR_BSHR" "\<not> iscmp IR_BSAR" "\<not> iscmp IR_BROL" "\<not> iscmp IR_BROR"
  "\<not> iscmp IR_ADD" "\<not> iscmp IR_SUB" "\<not> iscmp IR_MUL" "\<not> iscmp IR_DIV" "\<not> iscmp IR_MOD"
  "\<not> iscmp IR_POW" "\<not> iscmp IR_NEG" "\<not> iscmp IR_MIN" "\<not> iscmp IR_MAX"
  "\<not> iscmp IR_ADDOV" "\<not> iscmp IR_SUBOV" "\<not> iscmp IR_MULOV" "iscmp IR_LT" "iscmp IR_GE"
  "iscmp IR_LE" "iscmp IR_GT" "iscmp IR_ULT" "iscmp IR_UGE" "iscmp IR_ULE" "iscmp IR_UGT" "iscmp IR_EQ"
  "iscmp IR_NE" "iscmp IR_ABC"
  by (simp_all add: iscmp_def ir_defs)

lemma addop_simps [simp]:
  "\<not> addop IR_KINT" "\<not> addop IR_KINT64" "\<not> addop IR_BNOT" "\<not> addop IR_BSWAP"
  "\<not> addop IR_BAND" "\<not> addop IR_BOR" "\<not> addop IR_BXOR" "\<not> addop IR_BSHL"
  "\<not> addop IR_BSHR" "\<not> addop IR_BSAR" "\<not> addop IR_BROL" "\<not> addop IR_BROR" "addop IR_ADD"
  "addop IR_SUB" "\<not> addop IR_MUL" "\<not> addop IR_DIV" "\<not> addop IR_MOD" "\<not> addop IR_POW"
  "\<not> addop IR_NEG" "\<not> addop IR_MIN" "\<not> addop IR_MAX" "\<not> addop IR_ADDOV"
  "\<not> addop IR_SUBOV" "\<not> addop IR_MULOV" "\<not> addop IR_LT" "\<not> addop IR_GE" "\<not> addop IR_LE"
  "\<not> addop IR_GT" "\<not> addop IR_ULT" "\<not> addop IR_UGE" "\<not> addop IR_ULE" "\<not> addop IR_UGT"
  "\<not> addop IR_EQ" "\<not> addop IR_NE" "\<not> addop IR_ABC"
  by (simp_all add: addop_def ir_defs)

lemma unop_simps [simp]:
  "\<not> unop IR_KINT" "\<not> unop IR_KINT64" "unop IR_BNOT" "unop IR_BSWAP" "\<not> unop IR_BAND"
  "\<not> unop IR_BOR" "\<not> unop IR_BXOR" "\<not> unop IR_BSHL" "\<not> unop IR_BSHR" "\<not> unop IR_BSAR"
  "\<not> unop IR_BROL" "\<not> unop IR_BROR" "\<not> unop IR_ADD" "\<not> unop IR_SUB" "\<not> unop IR_MUL"
  "\<not> unop IR_DIV" "\<not> unop IR_MOD" "\<not> unop IR_POW" "\<not> unop IR_NEG" "\<not> unop IR_MIN"
  "\<not> unop IR_MAX" "\<not> unop IR_ADDOV" "\<not> unop IR_SUBOV" "\<not> unop IR_MULOV" "\<not> unop IR_LT"
  "\<not> unop IR_GE" "\<not> unop IR_LE" "\<not> unop IR_GT" "\<not> unop IR_ULT" "\<not> unop IR_UGE"
  "\<not> unop IR_ULE" "\<not> unop IR_UGT" "\<not> unop IR_EQ" "\<not> unop IR_NE" "\<not> unop IR_ABC"
  by (simp_all add: unop_def ir_defs)

lemma shiftop_simps [simp]:
  "\<not> shiftop IR_KINT" "\<not> shiftop IR_KINT64" "\<not> shiftop IR_BNOT" "\<not> shiftop IR_BSWAP"
  "\<not> shiftop IR_BAND" "\<not> shiftop IR_BOR" "\<not> shiftop IR_BXOR" "shiftop IR_BSHL" "shiftop IR_BSHR"
  "shiftop IR_BSAR" "shiftop IR_BROL" "shiftop IR_BROR" "\<not> shiftop IR_ADD" "\<not> shiftop IR_SUB"
  "\<not> shiftop IR_MUL" "\<not> shiftop IR_DIV" "\<not> shiftop IR_MOD" "\<not> shiftop IR_POW"
  "\<not> shiftop IR_NEG" "\<not> shiftop IR_MIN" "\<not> shiftop IR_MAX" "\<not> shiftop IR_ADDOV"
  "\<not> shiftop IR_SUBOV" "\<not> shiftop IR_MULOV" "\<not> shiftop IR_LT" "\<not> shiftop IR_GE"
  "\<not> shiftop IR_LE" "\<not> shiftop IR_GT" "\<not> shiftop IR_ULT" "\<not> shiftop IR_UGE"
  "\<not> shiftop IR_ULE" "\<not> shiftop IR_UGT" "\<not> shiftop IR_EQ" "\<not> shiftop IR_NE"
  "\<not> shiftop IR_ABC"
  by (simp_all add: shiftop_cases ir_defs)

lemma op32only_simps [simp]:
  "\<not> op32only IR_KINT" "\<not> op32only IR_KINT64" "\<not> op32only IR_BNOT" "\<not> op32only IR_BSWAP"
  "\<not> op32only IR_BAND" "\<not> op32only IR_BOR" "\<not> op32only IR_BXOR" "\<not> op32only IR_BSHL"
  "\<not> op32only IR_BSHR" "\<not> op32only IR_BSAR" "\<not> op32only IR_BROL" "\<not> op32only IR_BROR"
  "\<not> op32only IR_ADD" "\<not> op32only IR_SUB" "\<not> op32only IR_MUL" "\<not> op32only IR_DIV"
  "\<not> op32only IR_MOD" "\<not> op32only IR_POW" "\<not> op32only IR_NEG" "op32only IR_MIN" "op32only IR_MAX"
  "op32only IR_ADDOV" "op32only IR_SUBOV" "op32only IR_MULOV" "\<not> op32only IR_LT" "\<not> op32only IR_GE"
  "\<not> op32only IR_LE" "\<not> op32only IR_GT" "\<not> op32only IR_ULT" "\<not> op32only IR_UGE"
  "\<not> op32only IR_ULE" "\<not> op32only IR_UGT" "\<not> op32only IR_EQ" "\<not> op32only IR_NE"
  "\<not> op32only IR_ABC"
  by (simp_all add: op32only_def ir_defs)

lemma divop_simps [simp]:
  "\<not> divop IR_KINT" "\<not> divop IR_KINT64" "\<not> divop IR_BNOT" "\<not> divop IR_BSWAP"
  "\<not> divop IR_BAND" "\<not> divop IR_BOR" "\<not> divop IR_BXOR" "\<not> divop IR_BSHL"
  "\<not> divop IR_BSHR" "\<not> divop IR_BSAR" "\<not> divop IR_BROL" "\<not> divop IR_BROR"
  "\<not> divop IR_ADD" "\<not> divop IR_SUB" "\<not> divop IR_MUL" "divop IR_DIV" "divop IR_MOD" "divop IR_POW"
  "\<not> divop IR_NEG" "\<not> divop IR_MIN" "\<not> divop IR_MAX" "\<not> divop IR_ADDOV"
  "\<not> divop IR_SUBOV" "\<not> divop IR_MULOV" "\<not> divop IR_LT" "\<not> divop IR_GE" "\<not> divop IR_LE"
  "\<not> divop IR_GT" "\<not> divop IR_ULT" "\<not> divop IR_UGE" "\<not> divop IR_ULE" "\<not> divop IR_UGT"
  "\<not> divop IR_EQ" "\<not> divop IR_NE" "\<not> divop IR_ABC"
  by (simp_all add: divop_def ir_defs)

lemma binop_simps [simp]:
  "\<not> binop IR_KINT" "\<not> binop IR_KINT64" "\<not> binop IR_BNOT" "\<not> binop IR_BSWAP" "binop IR_BAND"
  "binop IR_BOR" "binop IR_BXOR" "\<not> binop IR_BSHL" "\<not> binop IR_BSHR" "\<not> binop IR_BSAR"
  "\<not> binop IR_BROL" "\<not> binop IR_BROR" "\<not> binop IR_ADD" "\<not> binop IR_SUB" "binop IR_MUL"
  "binop IR_DIV" "binop IR_MOD" "binop IR_POW" "\<not> binop IR_NEG" "binop IR_MIN" "binop IR_MAX"
  "binop IR_ADDOV" "binop IR_SUBOV" "binop IR_MULOV" "binop IR_LT" "binop IR_GE" "binop IR_LE" "binop IR_GT"
  "binop IR_ULT" "binop IR_UGE" "binop IR_ULE" "binop IR_UGT" "binop IR_EQ" "binop IR_NE" "binop IR_ABC"
  by (simp_all add: binop_def iscmp_def divop_def op32only_def ir_defs)

lemma shmul_simps [simp]: "shiftop op \<Longrightarrow> shmul op" "shmul IR_MUL" "iscmp op \<Longrightarrow> \<not> shmul op" "addop op \<Longrightarrow> \<not> shmul op"
  "unop op \<Longrightarrow> \<not> shmul op" "\<not> shmul IR_BAND" "\<not> shmul IR_BOR" "\<not> shmul IR_BXOR" "\<not> shmul IR_NEG"
  "\<not> shmul IR_ADD" "\<not> shmul IR_SUB" "\<not> shmul IR_DIV" "\<not> shmul IR_MOD" "\<not> shmul IR_POW" "\<not> shmul IR_MIN" "\<not> shmul IR_MAX"
  "\<not> shmul IR_ADDOV" "\<not> shmul IR_SUBOV" "\<not> shmul IR_MULOV"
  by (auto simp: shmul_def shiftop_cases op_classes iscmp_def ir_defs)

lemma foldop_simps [simp]:
  "\<not> foldop IR_KINT" "\<not> foldop IR_KINT64" "foldop IR_BNOT" "foldop IR_BSWAP" "foldop IR_BAND"
  "foldop IR_BOR" "foldop IR_BXOR" "foldop IR_BSHL" "foldop IR_BSHR" "foldop IR_BSAR" "foldop IR_BROL"
  "foldop IR_BROR" "foldop IR_ADD" "foldop IR_SUB" "foldop IR_MUL" "foldop IR_DIV" "foldop IR_MOD"
  "foldop IR_POW" "foldop IR_NEG" "foldop IR_MIN" "foldop IR_MAX" "foldop IR_ADDOV" "foldop IR_SUBOV"
  "foldop IR_MULOV" "foldop IR_LT" "foldop IR_GE" "foldop IR_LE" "foldop IR_GT" "foldop IR_ULT" "foldop IR_UGE"
  "foldop IR_ULE" "foldop IR_UGT" "foldop IR_EQ" "foldop IR_NE" "foldop IR_ABC"
  by (simp_all add: foldop_def op_classes shiftop_cases iscmp_def ir_defs)

lemma foldop_classes [simp]: "unop op \<Longrightarrow> foldop op" "binop op \<Longrightarrow> foldop op" "shiftop op \<Longrightarrow> foldop op" "addop op \<Longrightarrow> foldop op"
  by (simp_all add: foldop_def)

lemma iscmp_classes [simp]: "iscmp op \<Longrightarrow> \<not> unop op" "iscmp op \<Longrightarrow> \<not> divop op" "iscmp op \<Longrightarrow> \<not> shiftop op" "iscmp op \<Longrightarrow> binop op"
  "iscmp op \<Longrightarrow> foldop op"
  by (auto simp: op_classes iscmp_def shiftop_cases ir_defs)

section \<open>Operations, by opcode\<close>

lemma op32_simps [simp]:
  "op32 IR_BNOT a b = NOT a" "op32 IR_BSWAP a b = get_le32 (rev (put_le32 a))" "op32 IR_BAND a b = a AND b"
  "op32 IR_BOR a b = a OR b" "op32 IR_BXOR a b = a XOR b" "op32 IR_ADD a b = a + b" "op32 IR_SUB a b = a - b"
  "op32 IR_MUL a b = a * b" "op32 IR_ADDOV a b = a + b" "op32 IR_SUBOV a b = a - b" "op32 IR_MULOV a b = a * b"
  "op32 IR_MOD a b = word_of_int (sint a mod sint b)" "op32 IR_NEG a b = - a"
  "op32 IR_MIN a b = word_of_int (min (sint a) (sint b))" "op32 IR_MAX a b = word_of_int (max (sint a) (sint b))"
  by (simp_all add: op32_def ir_defs Let_def)

lemma op64_simps [simp]:
  "op64 IR_BNOT s a b = NOT a" "op64 IR_BSWAP s a b = get_le64 (rev (put_le64 a))" "op64 IR_BAND s a b = a AND b"
  "op64 IR_BOR s a b = a OR b" "op64 IR_BXOR s a b = a XOR b" "op64 IR_ADD s a b = a + b" "op64 IR_SUB s a b = a - b"
  "op64 IR_MUL s a b = a * b" "op64 IR_NEG s a b = - a"
  "op64 IR_DIV s a b = (if s then lj_carith_divi64 a b else lj_carith_divu64 a b)"
  "op64 IR_MOD s a b = (if s then lj_carith_modi64 a b else lj_carith_modu64 a b)"
  "op64 IR_POW s a b = (if s then lj_carith_powi64 a b else lj_carith_powu64 a b)"
  by (simp_all add: op64_def ir_defs Let_def)

lemma op32_shift:
  "op32 IR_BSHL a b = push_bit (unat b mod 32) a" "op32 IR_BSHR a b = drop_bit (unat b mod 32) a"
  "op32 IR_BSAR a b = signed_drop_bit (unat b mod 32) a" "op32 IR_BROL a b = word_rotl (unat b mod 32) a"
  "op32 IR_BROR a b = word_rotr (unat b mod 32) a"
  by (simp_all add: op32_def ir_defs Let_def push_is_mult drop_is_div sdrop_is_div)

lemma op64_shift:
  "op64 IR_BSHL s a b = push_bit (unat b mod 64) a" "op64 IR_BSHR s a b = drop_bit (unat b mod 64) a"
  "op64 IR_BSAR s a b = signed_drop_bit (unat b mod 64) a" "op64 IR_BROL s a b = word_rotl (unat b mod 64) a"
  "op64 IR_BROR s a b = word_rotr (unat b mod 64) a"
  by (simp_all add: op64_def ir_defs Let_def push_is_mult drop_is_div sdrop_is_div)

lemma guard_simps [simp]:
  "opc i = IR_ADDOV \<Longrightarrow> guard i \<nu> = in_i32 (sint (lo (\<nu> (op1 i))) + sint (lo (\<nu> (op2 i))))"
  "opc i = IR_SUBOV \<Longrightarrow> guard i \<nu> = in_i32 (sint (lo (\<nu> (op1 i))) - sint (lo (\<nu> (op2 i))))"
  "opc i = IR_MULOV \<Longrightarrow> guard i \<nu> = in_i32 (sint (lo (\<nu> (op1 i))) * sint (lo (\<nu> (op2 i))))"
  by (simp_all add: guard_def iscmp_def ir_defs Let_def)

lemma guard_cmp: "iscmp (opc i) \<Longrightarrow> guard i \<nu> =
    (if int64t (irt i) then cmp (opc i) (\<nu> (op1 i)) (\<nu> (op2 i)) else cmp (opc i) (lo (\<nu> (op1 i))) (lo (\<nu> (op2 i))))"
  by (simp add: guard_def Let_def)

lemma cmp_simps [simp]:
  "cmp IR_LT a b \<longleftrightarrow> sint a < sint b" "cmp IR_GE a b \<longleftrightarrow> sint b \<le> sint a" "cmp IR_LE a b \<longleftrightarrow> sint a \<le> sint b"
  "cmp IR_GT a b \<longleftrightarrow> sint b < sint a" "cmp IR_ULT a b \<longleftrightarrow> uint a < uint b" "cmp IR_UGE a b \<longleftrightarrow> uint b \<le> uint a"
  "cmp IR_ULE a b \<longleftrightarrow> uint a \<le> uint b" "cmp IR_UGT a b \<longleftrightarrow> uint b < uint a" "cmp IR_ABC a b \<longleftrightarrow> uint b < uint a"
  "cmp IR_EQ a b \<longleftrightarrow> a = b" "cmp IR_NE a b \<longleftrightarrow> a \<noteq> b"
  by (simp_all add: cmp_def ir_defs)

definition noguard :: "irop \<Rightarrow> bool" where
  "noguard op \<longleftrightarrow> \<not> iscmp op \<and> op \<noteq> IR_ADDOV \<and> op \<noteq> IR_SUBOV \<and> op \<noteq> IR_MULOV"

lemma noguard_guard: "noguard (opc i) \<Longrightarrow> guard i \<nu>"
  by (simp add: noguard_def guard_def Let_def)

lemma noguard_simps [simp]:
  "noguard IR_KINT" "noguard IR_KINT64" "noguard IR_BNOT" "noguard IR_BSWAP" "noguard IR_BAND" "noguard IR_BOR"
  "noguard IR_BXOR" "noguard IR_BSHL" "noguard IR_BSHR" "noguard IR_BSAR" "noguard IR_BROL" "noguard IR_BROR"
  "noguard IR_ADD" "noguard IR_SUB" "noguard IR_MUL" "noguard IR_DIV" "noguard IR_MOD" "noguard IR_POW"
  "noguard IR_NEG" "noguard IR_MIN" "noguard IR_MAX" "\<not> noguard IR_ADDOV" "\<not> noguard IR_SUBOV"
  "\<not> noguard IR_MULOV" "\<not> noguard IR_LT" "\<not> noguard IR_GE" "\<not> noguard IR_LE"
  "\<not> noguard IR_GT" "\<not> noguard IR_ULT" "\<not> noguard IR_UGE" "\<not> noguard IR_ULE"
  "\<not> noguard IR_UGT" "\<not> noguard IR_EQ" "\<not> noguard IR_NE" "\<not> noguard IR_ABC"
  by (simp_all add: noguard_def iscmp_def ir_defs)

section \<open>Operands\<close>

lemma kint_type: "int32t IRT_INT" "\<not> int64t IRT_INT" "int64t IRT_I64" "\<not> int32t IRT_I64"
  by (simp_all add: int32t_def int64t_def irt_type_def irt_defs IRT_I8_def)

lemma kint_val:
  assumes "ok J" "agrees J \<nu>" "vref J r"
  shows "opc (ir J r) = IR_KINT \<Longrightarrow> \<nu> r = sx (ik (ir J r))" and "opc (ir J r) = IR_KINT64 \<Longrightarrow> \<nu> r = tv (ir J r)"
    and "int32t (irt (ir J r)) \<Longrightarrow> sx (lo (\<nu> r)) = \<nu> r"
  using assms(2,3) by (auto simp: agrees_def agrees1_def)

lemma k0_val: "ok J \<Longrightarrow> agrees J \<nu> \<Longrightarrow> k0 J r \<Longrightarrow> \<nu> r = 0"
  using kint_val(1) [of J \<nu> r] by (simp add: k0_def)

lemma wt_kint:
  assumes "ok J" "wt J t r"
  shows "opc (ir J r) = IR_KINT \<Longrightarrow> \<not> int64t t" and "opc (ir J r) = IR_KINT64 \<Longrightarrow> int64t t" and "vref J r"
    and "int64t (irt (ir J r)) \<longleftrightarrow> int64t t" and "intt (irt (ir J r))"
  using assms kval_okD [OF assms(1), of r] kint_type int3264
  by (auto simp: wt_def w32_def w64_def intt_def split: if_splits)

text \<open>An operand is strict unless it is the zero of an addition.\<close>

lemma op1_wt:
  assumes "ok J" "typed True J fins" "opc (fl J fins) \<noteq> IR_KINT \<or> binop (opc fins) \<or> shiftop (opc fins) \<or> unop (opc fins) \<or> int32t (irt fins)"
  shows "wt J (irt fins) (op1 fins)"
proof -
  note t = typedD [OF assms(2)]
  show ?thesis
  proof (cases "binop (opc fins) \<or> shiftop (opc fins) \<or> unop (opc fins)")
    case True
    then show ?thesis using t(3-5) by blast
  next
    case False
    then have "opc fins = IR_NEG \<or> addop (opc fins)" using t(2) by (auto simp: foldop_def)
    then show ?thesis using t(6,7) assms(3) False int3264 [of "irt fins"] by (auto simp: wt_def k0_def addt_def split: if_splits)
  qed
qed

lemma op2_wt:
  assumes "ok J" "typed True J fins" "\<not> shiftop (opc fins)" "\<not> unop (opc fins)" "opc (fr J fins) \<noteq> IR_KINT \<or> binop (opc fins) \<or> int32t (irt fins)"
  shows "wt J (irt fins) (op2 fins)"
proof -
  note t = typedD [OF assms(2)]
  show ?thesis
  proof (cases "binop (opc fins)")
    case True
    then show ?thesis using t(5) by blast
  next
    case False
    then have "opc fins = IR_NEG \<or> addop (opc fins)" using t(2) assms(3,4) by (auto simp: foldop_def)
    then show ?thesis using t(6,7) assms(5) False int3264 [of "irt fins"] by (auto simp: wt_def k0_def addt_def split: if_splits)
  qed
qed

text \<open>The instruction behind an operand.\<close>

lemma inner:
  assumes J: "ok J" and w: "wt J t r" and f: "foldop (opc (ir J r))" "\<not> iscmp (opc (ir J r))"
    and i: "opc (ir J r) \<noteq> IR_SUB \<or> intt (irt (ir J (op1 (ir J r))))"
  shows "typed False J (ir J r)" and "int64t (irt (ir J r)) \<longleftrightarrow> int64t t"
    and "agrees J \<nu> \<Longrightarrow> \<nu> r = eval (ir J r) \<nu>"
proof -
  note k = wt_kint [OF J w]
  have ii: "intins J (ir J r)" using ok_intins [OF J k(3) f(1) k(5) f(2)] i f(1) by (auto simp: intins_def)
  show "typed False J (ir J r)" by (rule ok_typed [OF J k(3) ii])
  show "int64t (irt (ir J r)) \<longleftrightarrow> int64t t" by (rule k(4))
  show "agrees J \<nu> \<Longrightarrow> \<nu> r = eval (ir J r) \<nu>" by (rule agreesD [OF _ k(3) ii f(2)])
qed

lemma addt_weak: "addt False J t l r \<Longrightarrow> addt True J t l r"
  by (auto simp: addt_def split: if_splits)

lemma typed_weak: "typed False J i \<Longrightarrow> typed True J i"
  using addt_weak unfolding typed_def Let_def by blast

lemma canon: "ok J \<Longrightarrow> agrees J \<nu> \<Longrightarrow> wt J t r \<Longrightarrow> \<not> int64t t \<Longrightarrow> sx (lo (\<nu> r)) = \<nu> r"
  using kint_val(3) [of J \<nu> r] by (auto simp: wt_def w32_def)

lemma wt_width: "wt J t r \<Longrightarrow> int64t t' = int64t t \<Longrightarrow> wt J t' r"
  by (simp add: wt_def)

lemma is64_int: "typed b J i \<Longrightarrow> irt_is64 (irt i) \<longleftrightarrow> int64t (irt i)"
  using typedD(1) [of b J i] by (auto simp: irt_is64_def int64t_def int32t_def irt_defs IRT_I8_def)

lemma notnum: "typed b J i \<Longrightarrow> \<not> irt_isnum (irt i)"
  using typedD(1) [of b J i] by (auto simp: irt_isnum_def int64t_def int32t_def irt_defs IRT_I8_def)

section \<open>Introduction rules for the results\<close>

lemma res_next [simp]: "res_ok J fins J NEXTFOLD"
  by (simp add: res_ok_def)

lemma res_kint:
  assumes "ok J" "noguard (opc fins)" "int64t (irt fins) \<Longrightarrow> k = 0" "\<And>\<nu>. agrees J \<nu> \<Longrightarrow> eval fins \<nu> = sx k"
  shows "res_ok J fins J (KINTFOLD k)"
  using assms noguard_guard [OF assms(2)] by (simp add: res_ok_def post_refl noguard_def)

lemma res_ref:
  assumes "ok J" "wt J (irt fins) r \<or> k0 J r" "\<And>\<nu>. agrees J \<nu> \<Longrightarrow> guard fins \<nu>" "\<And>\<nu>. agrees J \<nu> \<Longrightarrow> \<nu> r = eval fins \<nu>"
  shows "res_ok J fins J (FREF r)"
  using assms by (auto simp: res_ok_def post_refl rval_def wt_def w32_def w64_def k0_def split: if_splits)

lemma res_cond:
  assumes "ok J" "iscmp (opc fins)" "\<And>\<nu>. agrees J \<nu> \<Longrightarrow> guard fins \<nu> = c"
  shows "res_ok J fins J (CONDFOLD c)"
  using assms by (auto simp: res_ok_def CONDFOLD_def post_refl)

lemma sgn_nodiv: "\<not> divop (opc i) \<Longrightarrow> sgn_ok J i"
  by (auto simp: sgn_ok_def)

lemma res_retry:
  assumes "ok J" "typed True J fins'" "\<not> divop (opc fins')"
    "iscmp (opc fins') \<longleftrightarrow> iscmp (opc fins)" "int64t (irt fins') \<longleftrightarrow> int64t (irt fins)"
    "\<And>\<nu>. agrees J \<nu> \<Longrightarrow> guard fins' \<nu> \<longleftrightarrow> guard fins \<nu>" "\<And>\<nu>. agrees J \<nu> \<Longrightarrow> \<not> iscmp (opc fins) \<Longrightarrow> eval fins' \<nu> = eval fins \<nu>"
    "shmul (opc fins') \<longrightarrow> shmul (opc fins)"
  shows "res_ok J fins J (RETRYFOLD fins')"
  using assms by (auto simp: res_ok_def post_refl equiv_def sgn_nodiv nomask_def)

lemma res_kint64:
  assumes J: "ok J" and w: "int64t (irt fins)" and n: "noguard (opc fins)" and k: "\<And>\<nu>. agrees J \<nu> \<Longrightarrow> eval fins \<nu> = k"
    and e: "INT64FOLD J k = (J', res)" and nz: "0 < nk J'"
  shows "res_ok J fins J' res"
proof -
  obtain r where r: "lj_ir_kint64 J k = (J', r)" "res = FREF r" using e by (auto simp: INT64FOLD_def split: prod.splits)
  note m = kint64_ok [OF J r(1) nz]
  have "vref J' r \<and> wt J' (irt fins) r" using m w kint_type by (simp add: wt_def w64_def)
  moreover have "\<nu> r = eval fins \<nu>" if "agrees J' \<nu>" for \<nu>
    using kint_val(2) [OF postD(1) [OF m(1)] that m(2,3)] m(4) k [OF postD(3) [OF m(1) that]] by simp
  moreover have "post J J' (guard fins)" using m(1) noguard_guard [OF n] by (auto simp: post_def refines_def)
  ultimately show ?thesis by (auto simp: res_ok_def r rval_def)
qed

lemma post_retry:
  assumes p: "post J J' (\<lambda>_. True)" and t: "typed True J' fins'" and d: "\<not> divop (opc fins')"
    and c: "iscmp (opc fins') \<longleftrightarrow> iscmp (opc fins)" "int64t (irt fins') \<longleftrightarrow> int64t (irt fins)"
    and e: "\<And>\<nu>. agrees J' \<nu> \<Longrightarrow> guard fins' \<nu> \<longleftrightarrow> guard fins \<nu>" "\<And>\<nu>. agrees J' \<nu> \<Longrightarrow> \<not> iscmp (opc fins) \<Longrightarrow> eval fins' \<nu> = eval fins \<nu>"
    and sm: "shmul (opc fins') \<longrightarrow> shmul (opc fins)" and mf: "mask_free J \<Longrightarrow> mask_free J'"
  shows "res_ok J fins J' (RETRYFOLD fins')"
  using assms by (auto simp: res_ok_def equiv_def sgn_nodiv nomask_def)

end
