(* ===== verification/FoldConst.thy ===== *)
theory FoldConst
  imports FoldRules
begin

text \<open>Soundness of the constant folding rules and of the shortcuts.\<close>

section \<open>Constant operands\<close>

text \<open>Two \<^verbatim>\<open>KINT\<close> operands: the instruction has 32 bits, or is an addition of two zeros.\<close>

lemma kk_cases:
  assumes J: "ok J" and t: "typed True J fins" and k: "opc (fl J fins) = IR_KINT" "opc (fr J fins) = IR_KINT" and u: "\<not> unop (opc fins)"
  shows "\<not> int64t (irt fins) \<or> (addop (opc fins) \<or> opc fins = IR_NEG) \<and> int64t (irt fins) \<and> ik (fl J fins) = 0 \<and> ik (fr J fins) = 0"
    and "vref J (op1 fins)" and "vref J (op2 fins)"
proof -
  note d = typedD [OF t]
  have w: "\<not> w64 J r" if "opc (ir J r) = IR_KINT" for r
    using kval_okD(1) [OF J, of r] that kint_type by (auto simp: w64_def)
  show "vref J (op1 fins)" "vref J (op2 fins)" using typed_vref [OF t] u by auto
  have "\<not> (wt J (irt fins) (op1 fins) \<and> int64t (irt fins))" using w k by (simp add: wt_def)
  moreover have "addop (opc fins) \<Longrightarrow> int64t (irt fins) \<Longrightarrow> k0 J (op1 fins) \<and> k0 J (op2 fins)" using d(6) w k by (auto simp: addt_def)
  ultimately show "\<not> int64t (irt fins) \<or> (addop (opc fins) \<or> opc fins = IR_NEG) \<and> int64t (irt fins) \<and> ik (fl J fins) = 0 \<and> ik (fr J fins) = 0"
    using d(2-5,7) by (auto simp: foldop_def k0_def)
qed

lemma kk_vals:
  assumes J: "ok J" and t: "typed True J fins" and k: "opc (fl J fins) = IR_KINT" "opc (fr J fins) = IR_KINT" and u: "\<not> unop (opc fins)"
    and a: "agrees J \<nu>"
  shows "\<nu> (op1 fins) = sx (ik (fl J fins))" and "\<nu> (op2 fins) = sx (ik (fr J fins))"
  using kint_val(1) [OF J a] kk_cases(2,3) [OF J t k u] k by auto

lemma kfold_intarith_ok: "kop32 op \<Longrightarrow> rule_ok fold_kfold_intarith (fkey2 op (Some IR_KINT) (Some IR_KINT))"
proof (rule rule_okI)
  fix rf J fins J' res
  assume op: "kop32 op" and J: "ok J" and t: "typed True J fins" and k: "key_of (fkey2 op (Some IR_KINT) (Some IR_KINT)) J fins"
    and e: "fold_kfold_intarith rf J fins = Some (J', res)"
  have cl: "\<not> unop op" "noguard op" using op by (auto simp: kop32_def addop_def shiftop_cases)
  have k': "opc fins = op" "opc (fl J fins) = IR_KINT" "opc (fr J fins) = IR_KINT" using k cl by auto
  have r: "J' = J" "res = KINTFOLD (kfold_intop (ik (fl J fins)) (ik (fr J fins)) op)" using e k' by (auto simp: fold_kfold_intarith_def)
  note kc = kk_cases [OF J t k'(2,3)] and kv = kk_vals [OF J t k'(2,3)]
  have z: "kfold_intop 0 0 op = 0" "op64 op s 0 0 = 0" if "addop op \<or> op = IR_NEG" for s
    using that by (auto simp: addop_def kfold_intop_def ir_defs op64_def Let_def not_plus_1)
  show "res_ok J fins J' res"
    unfolding r
  proof (rule res_kint [OF J])
    show "noguard (opc fins)" using cl k' by simp
    show "kfold_intop (ik (fl J fins)) (ik (fr J fins)) op = 0" if "int64t (irt fins)" using kc(1) that z cl k' by auto
    fix \<nu> assume a: "agrees J \<nu>"
    show "eval fins \<nu> = sx (kfold_intop (ik (fl J fins)) (ik (fr J fins)) op)"
    proof (cases "int64t (irt fins)")
      case True
      then show ?thesis using kc(1) z cl k' kv [OF _ a] by (auto simp: eval_def)
    next
      case False
      have "ik (fr J fins) \<noteq> 0" if "op = IR_MOD"
        using typedD(1,11) [OF t] that k' kc(3) cl False by (auto simp: k0_def)
      then show ?thesis using kfold_intop_op32 [OF op] False kv [OF _ a] k' cl by (simp add: eval_def)
    qed
  qed
qed

lemma kfold_bnot_ok: "rule_ok fold_kfold_bnot (fkey1 IR_BNOT IR_KINT)"
proof (rule rule_okI)
  fix rf J fins J' res
  assume J: "ok J" and t: "typed True J fins" and k: "key_of (fkey1 IR_BNOT IR_KINT) J fins"
    and e: "fold_kfold_bnot rf J fins = Some (J', res)"
  from k have o': "opc fins = IR_BNOT" "opc (fl J fins) = IR_KINT" by simp_all
  have w: "wt J (irt fins) (op1 fins)" by (rule op1_wt [OF J t]) (simp add: o')
  note wk = wt_kint [OF J w]
  have r: "J' = J" "res = KINTFOLD (NOT (ik (fl J fins)))" using e by (auto simp: fold_kfold_bnot_def)
  show "res_ok J fins J' res" unfolding r
  proof (rule res_kint [OF J])
    fix \<nu> assume a: "agrees J \<nu>"
    show "eval fins \<nu> = sx (NOT (ik (fl J fins)))"
      using o' wk(1) kint_val(1) [OF J a wk(3)] by (simp add: eval_def)
  qed (use o' wk in simp_all)
qed

lemma kfold_bswap_ok: "rule_ok fold_kfold_bswap (fkey1 IR_BSWAP IR_KINT)"
proof (rule rule_okI)
  fix rf J fins J' res
  assume J: "ok J" and t: "typed True J fins" and k: "key_of (fkey1 IR_BSWAP IR_KINT) J fins"
    and e: "fold_kfold_bswap rf J fins = Some (J', res)"
  from k have o': "opc fins = IR_BSWAP" "opc (fl J fins) = IR_KINT" by simp_all
  have w: "wt J (irt fins) (op1 fins)" by (rule op1_wt [OF J t]) (simp add: o')
  note wk = wt_kint [OF J w]
  have r: "J' = J" "res = KINTFOLD (lj_bswap (ik (fl J fins)))" using e by (auto simp: fold_kfold_bswap_def)
  show "res_ok J fins J' res" unfolding r
  proof (rule res_kint [OF J])
    fix \<nu> assume a: "agrees J \<nu>"
    show "eval fins \<nu> = sx (lj_bswap (ik (fl J fins)))"
      using o' wk(1) kint_val(1) [OF J a wk(3)] by (simp add: eval_def bswap_rev)
  qed (use o' wk in simp_all)
qed

lemma kfold_intovarith_ok:
  assumes "op = IR_ADDOV \<or> op = IR_SUBOV \<or> op = IR_MULOV"
  shows "rule_ok fold_kfold_intovarith (fkey2 op (Some IR_KINT) (Some IR_KINT))"
proof (rule rule_okI)
  fix rf J fins J' res
  assume J: "ok J" and t: "typed True J fins" and k: "key_of (fkey2 op (Some IR_KINT) (Some IR_KINT)) J fins"
    and e: "fold_kfold_intovarith rf J fins = Some (J', res)"
  have cl: "\<not> unop op" "op32only op" "\<not> iscmp op" using assms by auto
  have k': "opc fins = op" "opc (fl J fins) = IR_KINT" "opc (fr J fins) = IR_KINT" using k cl by auto
  note kv = kk_vals [OF J t k'(2,3)]
  have n64: "\<not> int64t (irt fins)" using typedD(8) [OF t] cl k' int3264 by blast
  define a b where "a = ik (fl J fins)" and "b = ik (fr J fins)"
  define i where "i = (if op = IR_ADDOV then sint a + sint b else if op = IR_SUBOV then sint a - sint b else sint a * sint b)"
  have bd: "- (2 ^ 63) \<le> i" "i < 2 ^ 63"
    using sint_bounds [of a] sint_bounds [of b] sint_mult_bound [of a b] by (auto simp: i_def)
  have ki: "kfold_int64arith (sx a) (sx b) (op - IR_ADDOV + IR_ADD) = word_of_int i"
    using assms by (elim disjE) (simp_all add: kfold_int64arith_def i_def ir_defs sx_wi)
  have ev: "op32 op a b = word_of_int i" using assms by (elim disjE) (simp_all add: i_def ir_defs op32_def)
  have gd: "guard fins \<nu> = in_i32 i" "\<not> int64t (irt fins) \<Longrightarrow> eval fins \<nu> = sx (word_of_int i)" if "agrees J \<nu>" for \<nu>
    using assms k'(1) kv [OF _ that] ev cl by (auto simp: i_def a_def b_def eval_def ir_defs)
  have r: "J' = J" "res = (if in_i32 i then KINTFOLD (word_of_int i) else FAILFOLD)"
    using e k' checki32_int [OF bd] by (auto simp: fold_kfold_intovarith_def Let_def ki [unfolded a_def b_def sx_def] lo_def split: if_splits)
  show "res_ok J fins J' res" using gd n64 cl k' post_refl [OF J] by (auto simp: r res_ok_def)
qed

lemma kfold_intcomp_ok:
  assumes "op \<in> {IR_LT, IR_GE, IR_LE, IR_GT, IR_ULT, IR_UGE, IR_ULE, IR_UGT, IR_ABC}"
  shows "rule_ok fold_kfold_intcomp (fkey2 op (Some IR_KINT) (Some IR_KINT))"
proof (rule rule_okI)
  fix rf J fins J' res
  assume J: "ok J" and t: "typed True J fins" and k: "key_of (fkey2 op (Some IR_KINT) (Some IR_KINT)) J fins"
    and e: "fold_kfold_intcomp rf J fins = Some (J', res)"
  have cl: "iscmp op" using assms by auto
  have k': "opc fins = op" "opc (fl J fins) = IR_KINT" "opc (fr J fins) = IR_KINT" using k cl by auto
  note kc = kk_cases [OF J t k'(2,3)] and kv = kk_vals [OF J t k'(2,3)]
  have n64: "\<not> int64t (irt fins)" using kc(1) k' cl by (auto simp: addop_def)
  have r: "J' = J" "res = CONDFOLD (cmp op (ik (fl J fins)) (ik (fr J fins)))"
  proof -
    define a b where "a = ik (fl J fins)" and "b = ik (fr J fins)"
    have "(if op = IR_LT then CONDFOLD (a <s b) else if op = IR_GE then CONDFOLD (b <=s a) else if op = IR_LE then CONDFOLD (a <=s b)
        else if op = IR_GT then CONDFOLD (b <s a) else if op = IR_ULT then CONDFOLD (a < b) else if op = IR_UGE then CONDFOLD (b \<le> a)
        else if op = IR_ULE then CONDFOLD (a \<le> b) else if op = IR_ABC \<or> op = IR_UGT then CONDFOLD (b < a) else FAILFOLD) = CONDFOLD (cmp op a b)"
      using assms unfolding insert_iff empty_iff by (elim disjE) (simp_all add: ir_defs cmp_def word_sless_alt word_sle_eq word_less_def word_le_def)
    moreover from e have "J' = J" by (simp add: fold_kfold_intcomp_def Let_def)
    ultimately show "J' = J" "res = CONDFOLD (cmp op (ik (fl J fins)) (ik (fr J fins)))"
      using e unfolding fold_kfold_intcomp_def Let_def k'(1) a_def b_def by (simp_all only: option.inject prod.inject)
  qed
  have "guard fins \<nu> = cmp op (ik (fl J fins)) (ik (fr J fins))" if "agrees J \<nu>" for \<nu>
    using kv [OF _ that] n64 cl k' by (simp add: guard_cmp)
  then show "res_ok J fins J' res" unfolding r by (intro res_cond [OF J]) (use cl k' in auto)
qed

lemma kfold_intcomp0_ok: "rule_ok fold_kfold_intcomp0 (fkey2 IR_UGE None (Some IR_KINT))"
proof (rule rule_okI)
  fix rf J fins J' res
  assume J: "ok J" and t: "typed True J fins" and k: "key_of (fkey2 IR_UGE None (Some IR_KINT)) J fins"
    and e: "fold_kfold_intcomp0 rf J fins = Some (J', res)"
  from k have o': "opc fins = IR_UGE" "opc (fr J fins) = IR_KINT" by simp_all
  have w: "wt J (irt fins) (op2 fins)" using typedD(5) [OF t] o' by simp
  note wk = wt_kint [OF J w]
  have r: "J' = J" "res = (if ik (fr J fins) = 0 then DROPFOLD else NEXTFOLD)" using e by (auto simp: fold_kfold_intcomp0_def)
  have "guard fins \<nu>" if "agrees J \<nu>" "ik (fr J fins) = 0" for \<nu>
    using kint_val(1) [OF J that(1) wk(3) o'(2)] that(2) wk(1) [OF o'(2)] o'(1) by (simp add: guard_cmp)
  then show "res_ok J fins J' res" using o' by (auto simp: r res_ok_def intro!: post_refl [OF J])
qed

section \<open>64 bit constants\<close>

text \<open>Two \<^verbatim>\<open>KINT64\<close> operands.\<close>

lemma k64_left:
  assumes J: "ok J" and t: "typed True J fins" and k: "opc (fl J fins) = IR_KINT64"
  shows "int64t (irt fins)" and "agrees J \<nu> \<Longrightarrow> \<nu> (op1 fins) = tv (fl J fins)"
proof -
  have w: "wt J (irt fins) (op1 fins)" by (rule op1_wt [OF J t]) (simp add: k ir_defs)
  show "int64t (irt fins)" by (rule wt_kint(2) [OF J w k])
  show "agrees J \<nu> \<Longrightarrow> \<nu> (op1 fins) = tv (fl J fins)" using kint_val(2) [OF J _ wt_kint(3) [OF J w] k] .
qed

lemma k64_right:
  assumes J: "ok J" and t: "typed True J fins" and k: "opc (fr J fins) = IR_KINT64" and s: "\<not> shiftop (opc fins)" "\<not> unop (opc fins)"
  shows "int64t (irt fins)" and "agrees J \<nu> \<Longrightarrow> \<nu> (op2 fins) = tv (fr J fins)"
proof -
  have w: "wt J (irt fins) (op2 fins)" by (rule op2_wt [OF J t s]) (simp add: k ir_defs)
  show "int64t (irt fins)" by (rule wt_kint(2) [OF J w k])
  show "agrees J \<nu> \<Longrightarrow> \<nu> (op2 fins) = tv (fr J fins)" using kint_val(2) [OF J _ wt_kint(3) [OF J w] k] .
qed

lemma kfold_int64arith_ok:
  assumes "op \<in> {IR_ADD, IR_SUB, IR_MUL, IR_BAND, IR_BOR, IR_BXOR}"
  shows "rule_ok fold_kfold_int64arith (fkey2 op (Some IR_KINT64) (Some IR_KINT64))"
proof (rule rule_okI)
  fix rf J fins J' res
  assume J: "ok J" and t: "typed True J fins" and k: "key_of (fkey2 op (Some IR_KINT64) (Some IR_KINT64)) J fins"
    and e: "fold_kfold_int64arith rf J fins = Some (J', res)" and nz: "0 < nk J'"
  have cl: "\<not> unop op" "\<not> shiftop op" "noguard op" "kop64 op" using assms by (auto simp: kop64_def)
  have k': "opc fins = op" "opc (fl J fins) = IR_KINT64" "opc (fr J fins) = IR_KINT64" using k cl by auto
  note L = k64_left [OF J t k'(2)] and R = k64_right [OF J t k'(3)]
  have e': "INT64FOLD J (kfold_int64arith (tv (fl J fins)) (tv (fr J fins)) op) = (J', res)"
    using e k' by (simp add: fold_kfold_int64arith_def)
  show "res_ok J fins J' res"
  proof (rule res_kint64 [OF J L(1) _ _ e' nz])
    fix \<nu> assume a: "agrees J \<nu>"
    show "eval fins \<nu> = kfold_int64arith (tv (fl J fins)) (tv (fr J fins)) op"
      using L(1) L(2) [OF a] R(2) [OF _ _ a] cl k' kfold_int64arith_op64 [OF cl(4)] by (simp add: eval_def)
  qed (use cl k' in simp)
qed

lemma kfold_int64arith2_ok:
  assumes "op = IR_DIV \<or> op = IR_MOD \<or> op = IR_POW"
  shows "rule_ok fold_kfold_int64arith2 (fkey2 op (Some IR_KINT64) (Some IR_KINT64))"
proof (rule rule_okI)
  fix rf J fins J' res
  assume J: "ok J" and t: "typed True J fins" and k: "key_of (fkey2 op (Some IR_KINT64) (Some IR_KINT64)) J fins"
    and e: "fold_kfold_int64arith2 rf J fins = Some (J', res)" and nz: "0 < nk J'"
  have cl: "\<not> unop op" "\<not> shiftop op" "noguard op" using assms by auto
  have k': "opc fins = op" "opc (fl J fins) = IR_KINT64" "opc (fr J fins) = IR_KINT64" using k cl by auto
  note L = k64_left [OF J t k'(2)] and R = k64_right [OF J t k'(3)]
  have e': "INT64FOLD J (op64 op (irt_isi64 (irt fins)) (tv (fl J fins)) (tv (fr J fins))) = (J', res)"
    using e k'(1) assms by (elim disjE) (simp_all add: fold_kfold_int64arith2_def Let_def op64_def ir_defs split: if_splits)
  show "res_ok J fins J' res"
  proof (rule res_kint64 [OF J L(1) _ _ e' nz])
    fix \<nu> assume a: "agrees J \<nu>"
    show "eval fins \<nu> = op64 op (irt_isi64 (irt fins)) (tv (fl J fins)) (tv (fr J fins))"
      using L(1) L(2) [OF a] R(2) [OF _ _ a] cl k' by (simp add: eval_def)
  qed (use cl k' in simp)
qed

lemma kfold_int64shift_ok:
  assumes "shiftop op"
  shows "rule_ok fold_kfold_int64shift (fkey2 op (Some IR_KINT64) (Some IR_KINT))"
proof (rule rule_okI)
  fix rf J fins J' res
  assume J: "ok J" and t: "typed True J fins" and k: "key_of (fkey2 op (Some IR_KINT64) (Some IR_KINT)) J fins"
    and e: "fold_kfold_int64shift rf J fins = Some (J', res)" and nz: "0 < nk J'"
  have cl: "\<not> unop op" "noguard op" using assms by (auto simp: shiftop_cases)
  have k': "opc fins = op" "opc (fl J fins) = IR_KINT64" "opc (fr J fins) = IR_KINT" using k cl by auto
  note L = k64_left [OF J t k'(2)]
  have v: "vref J (op2 fins)" using typed_vref(2) [OF t] cl k' by simp
  have e': "INT64FOLD J (op64 op (irt_isi64 (irt fins)) (tv (fl J fins)) (sx (ik (fr J fins)))) = (J', res)"
    using e k' shift64_op64 [OF assms] by (simp add: fold_kfold_int64shift_def Let_def)
  show "res_ok J fins J' res"
  proof (rule res_kint64 [OF J L(1) _ _ e' nz])
    fix \<nu> assume a: "agrees J \<nu>"
    show "eval fins \<nu> = op64 op (irt_isi64 (irt fins)) (tv (fl J fins)) (sx (ik (fr J fins)))"
      using L(1) L(2) [OF a] kint_val(1) [OF J a v k'(3)] k' by (simp add: eval_def)
  qed (use cl k' in simp)
qed

lemma kfold_bnot64_ok: "rule_ok fold_kfold_bnot64 (fkey1 IR_BNOT IR_KINT64)"
proof (rule rule_okI)
  fix rf J fins J' res
  assume J: "ok J" and t: "typed True J fins" and k: "key_of (fkey1 IR_BNOT IR_KINT64) J fins"
    and e: "fold_kfold_bnot64 rf J fins = Some (J', res)" and nz: "0 < nk J'"
  from k have o': "opc fins = IR_BNOT" "opc (fl J fins) = IR_KINT64" by simp_all
  note L = k64_left [OF J t o'(2)]
  have e': "INT64FOLD J (NOT (tv (fl J fins))) = (J', res)" using e by (simp add: fold_kfold_bnot64_def)
  show "res_ok J fins J' res"
    by (rule res_kint64 [OF J L(1) _ _ e' nz]) (use L o' in \<open>simp_all add: eval_def\<close>)
qed

lemma kfold_bswap64_ok: "rule_ok fold_kfold_bswap64 (fkey1 IR_BSWAP IR_KINT64)"
proof (rule rule_okI)
  fix rf J fins J' res
  assume J: "ok J" and t: "typed True J fins" and k: "key_of (fkey1 IR_BSWAP IR_KINT64) J fins"
    and e: "fold_kfold_bswap64 rf J fins = Some (J', res)" and nz: "0 < nk J'"
  from k have o': "opc fins = IR_BSWAP" "opc (fl J fins) = IR_KINT64" by simp_all
  note L = k64_left [OF J t o'(2)]
  have e': "INT64FOLD J (lj_bswap64 (tv (fl J fins))) = (J', res)" using e by (simp add: fold_kfold_bswap64_def)
  show "res_ok J fins J' res"
    by (rule res_kint64 [OF J L(1) _ _ e' nz]) (use L o' in \<open>simp_all add: eval_def bswap64_rev\<close>)
qed

lemma kfold_int64comp_ok:
  assumes "op \<in> {IR_LT, IR_GE, IR_LE, IR_GT, IR_ULT, IR_UGE, IR_ULE, IR_UGT}"
  shows "rule_ok fold_kfold_int64comp (fkey2 op (Some IR_KINT64) (Some IR_KINT64))"
proof (rule rule_okI)
  fix rf J fins J' res
  assume J: "ok J" and t: "typed True J fins" and k: "key_of (fkey2 op (Some IR_KINT64) (Some IR_KINT64)) J fins"
    and e: "fold_kfold_int64comp rf J fins = Some (J', res)"
  have cl: "iscmp op" "\<not> shiftop op" using assms by auto
  have k': "opc fins = op" "opc (fl J fins) = IR_KINT64" "opc (fr J fins) = IR_KINT64" using k cl by auto
  note L = k64_left [OF J t k'(2)] and R = k64_right [OF J t k'(3)]
  have r: "J' = J" "res = CONDFOLD (cmp op (tv (fl J fins)) (tv (fr J fins)))"
  proof -
    define a b where "a = tv (fl J fins)" and "b = tv (fr J fins)"
    have "(if op = IR_LT then CONDFOLD (a <s b) else if op = IR_GE then CONDFOLD (b <=s a) else if op = IR_LE then CONDFOLD (a <=s b)
        else if op = IR_GT then CONDFOLD (b <s a) else if op = IR_ULT then CONDFOLD (a < b) else if op = IR_UGE then CONDFOLD (b \<le> a)
        else if op = IR_ULE then CONDFOLD (a \<le> b) else if op = IR_UGT then CONDFOLD (b < a) else FAILFOLD) = CONDFOLD (cmp op a b)"
      using assms unfolding insert_iff empty_iff
      by (elim disjE) (simp_all add: ir_defs cmp_def word_sless_alt word_sle_eq word_less_def word_le_def)
    moreover from e have "J' = J" by (simp add: fold_kfold_int64comp_def Let_def)
    ultimately show "J' = J" "res = CONDFOLD (cmp op (tv (fl J fins)) (tv (fr J fins)))"
      using e unfolding fold_kfold_int64comp_def Let_def k'(1) a_def b_def by (simp_all only: option.inject prod.inject)
  qed
  have "guard fins \<nu> = cmp op (tv (fl J fins)) (tv (fr J fins))" if "agrees J \<nu>" for \<nu>
    using L(1) L(2) [OF that] R(2) [OF _ _ that] cl k' by (simp add: guard_cmp)
  then show "res_ok J fins J' res" unfolding r by (intro res_cond [OF J]) (use cl k' in auto)
qed

lemma kfold_int64comp0_ok: "rule_ok fold_kfold_int64comp0 (fkey2 IR_UGE None (Some IR_KINT64))"
proof (rule rule_okI)
  fix rf J fins J' res
  assume J: "ok J" and t: "typed True J fins" and k: "key_of (fkey2 IR_UGE None (Some IR_KINT64)) J fins"
    and e: "fold_kfold_int64comp0 rf J fins = Some (J', res)"
  from k have o': "opc fins = IR_UGE" "opc (fr J fins) = IR_KINT64" by simp_all
  have s: "\<not> shiftop (opc fins)" by (simp add: o')
  note R = k64_right [OF J t o'(2) s]
  have r: "J' = J" "res = (if tv (fr J fins) = 0 then DROPFOLD else NEXTFOLD)" using e by (auto simp: fold_kfold_int64comp0_def)
  have "guard fins \<nu>" if "agrees J \<nu>" "tv (fr J fins) = 0" for \<nu>
    using R(1) R(2) [OF _ that(1)] that(2) o' by (simp add: guard_cmp)
  then show "res_ok J fins J' res" using o' by (auto simp: r res_ok_def intro!: post_refl [OF J])
qed

section \<open>Equality and shortcuts\<close>

lemma vref_uniq:
  assumes "ok J" "vref J r" "vref J s"
  shows "opc (ir J r) = IR_KINT \<Longrightarrow> opc (ir J s) = IR_KINT \<Longrightarrow> ik (ir J r) = ik (ir J s) \<Longrightarrow> r = s"
    and "opc (ir J r) = IR_KINT64 \<Longrightarrow> opc (ir J s) = IR_KINT64 \<Longrightarrow> tv (ir J r) = tv (ir J s) \<Longrightarrow> r = s"
  using assms ir_wfD(7,8) [of J r s] by (auto simp: ok_def vref_def)

lemma kfold_kref_ok:
  assumes "op = IR_EQ \<or> op = IR_NE" and "k = IR_KINT \<or> k = IR_KINT64"
  shows "rule_ok fold_kfold_kref (fkey2 op (Some k) (Some k))"
proof (rule rule_okI)
  fix rf J fins J' res
  assume J: "ok J" and t: "typed True J fins" and k: "key_of (fkey2 op (Some k) (Some k)) J fins"
    and e: "fold_kfold_kref rf J fins = Some (J', res)"
  have cl: "iscmp op" "\<not> shiftop op" "\<not> unop op" using assms by auto
  have k': "opc fins = op" "opc (fl J fins) = k" "opc (fr J fins) = k" using k cl by auto
  have v: "vref J (op1 fins)" "vref J (op2 fins)" using typed_vref [OF t] cl k' by auto
  have w: "wt J (irt fins) (op1 fins)" "wt J (irt fins) (op2 fins)" using typedD(5) [OF t] cl k' by auto
  have g: "guard fins \<nu> = ((op1 fins = op2 fins) \<noteq> (opc fins = IR_NE))" if a: "agrees J \<nu>" for \<nu>
  proof -
    have "(op1 fins = op2 fins) = (if int64t (irt fins) then \<nu> (op1 fins) = \<nu> (op2 fins) else lo (\<nu> (op1 fins)) = lo (\<nu> (op2 fins)))"
      using assms(2)
    proof
      assume K: "k = IR_KINT"
      have "\<nu> (op1 fins) = sx (ik (fl J fins))" "\<nu> (op2 fins) = sx (ik (fr J fins))"
        using kint_val(1) [OF J a v(1)] kint_val(1) [OF J a v(2)] k' K by auto
      then show ?thesis using vref_uniq(1) [OF J v] k' K by auto
    next
      assume K: "k = IR_KINT64"
      have "\<nu> (op1 fins) = tv (fl J fins)" "\<nu> (op2 fins) = tv (fr J fins)"
        using kint_val(2) [OF J a v(1)] kint_val(2) [OF J a v(2)] k' K by auto
      moreover have "int64t (irt fins)" using wt_kint(2) [OF J w(1)] k' K by simp
      ultimately show ?thesis using vref_uniq(2) [OF J v] k' K by auto
    qed
    then show ?thesis using assms(1) k' cl by (auto simp: guard_cmp)
  qed
  have r: "J' = J" "res = CONDFOLD ((op1 fins = op2 fins) \<noteq> (opc fins = IR_NE))" using e by (auto simp: fold_kfold_kref_def)
  show "res_ok J fins J' res" unfolding r by (rule res_cond [OF J]) (use cl k' g in auto)
qed

end
