(* ===== verification/FoldAlg.thy ===== *)
theory FoldAlg
  imports FoldConst
begin

text \<open>Soundness of the shortcuts and of the integer algebraic simplifications without shifts.\<close>

section \<open>Typing of the rewritten instruction\<close>

text \<open>The operand of an addition or subtraction.\<close>

definition opr :: "jit_State \<Rightarrow> u8 \<Rightarrow> nat \<Rightarrow> bool" where
  "opr J t r \<longleftrightarrow> wt J t r \<or> int64t t \<and> k0 J r"

lemma wt_opr: "wt J t r \<Longrightarrow> opr J t r"
  by (simp add: opr_def)

lemma opr_ref: "opr J t r \<Longrightarrow> wt J t r \<or> k0 J r"
  by (auto simp: opr_def)

lemma opr_keeps: "keeps J J' \<Longrightarrow> opr J t r \<Longrightarrow> opr J' t r"
  using keeps_wt(3,4) [of J J'] by (auto simp: opr_def)

lemma opr_strict: "opr J t r \<Longrightarrow> opc (ir J r) \<noteq> IR_KINT \<Longrightarrow> wt J t r"
  by (auto simp: opr_def k0_def)

lemma opr_canon: "ok J \<Longrightarrow> agrees J \<nu> \<Longrightarrow> opr J t r \<Longrightarrow> \<not> int64t t \<Longrightarrow> sx (lo (\<nu> r)) = \<nu> r"
  using canon [of J \<nu> t r] by (auto simp: opr_def)

lemma typed_addI:
  assumes "addop (opc i)" "intt (irt i)" "opr J (irt i) (op1 i)" "opr J (irt i) (op2 i)"
  shows "typed True J i"
proof (rule typedI)
  show "addop (opc i) \<longrightarrow> addt True J (irt i) (op1 i) (op2 i)"
    using assms(3,4) by (auto simp: addt_def opr_def wt_def split: if_splits)
  have "opc i = IR_ADD \<or> opc i = IR_SUB" using assms(1) by (simp add: addop_def)
  then show "binop (opc i) \<longrightarrow> wt J (irt i) (op1 i) \<and> wt J (irt i) (op2 i)"
    "opc i = IR_NEG \<longrightarrow> wt J (irt i) (op1 i) \<and> wt J (irt i) (op2 i) \<or> True \<and> int64t (irt i) \<and> k0 J (op1 i) \<and> k0 J (op2 i)"
    "opc i = IR_MOD \<and> int32t (irt i) \<longrightarrow> \<not> k0 J (op2 i)"
    "unop (opc i) \<longrightarrow> wt J (irt i) (op1 i) \<and> op2 i = 0" "shiftop (opc i) \<longrightarrow> wt J (irt i) (op1 i) \<and> w32 J (op2 i)"
    "op32only (opc i) \<Longrightarrow> int32t (irt i)" "opc i = IR_DIV \<or> opc i = IR_POW \<Longrightarrow> int64t (irt i)"
    "opc i = IR_ABC \<Longrightarrow> irt_isint (irt i)"
    by auto
qed (use assms in \<open>auto simp: intt_def\<close>)

lemma typed_negI:
  assumes "opc i = IR_NEG" "intt (irt i)" "wt J (irt i) (op1 i) \<and> wt J (irt i) (op2 i) \<or> int64t (irt i) \<and> k0 J (op1 i) \<and> k0 J (op2 i)"
  shows "typed True J i"
  using assms by (intro typedI) (auto simp: intt_def)

lemma typed_unI:
  assumes "unop (opc i)" "intt (irt i)" "wt J (irt i) (op1 i)" "op2 i = 0"
  shows "typed b J i"
proof (rule typedI)
  have "opc i = IR_BNOT \<or> opc i = IR_BSWAP" using assms(1) by (simp add: unop_def)
  then have n: "\<not> shiftop (opc i)" "\<not> binop (opc i)" "\<not> addop (opc i)" "opc i \<noteq> IR_NEG" "\<not> op32only (opc i)"
    "opc i \<noteq> IR_DIV" "opc i \<noteq> IR_POW" "opc i \<noteq> IR_ABC" "opc i \<noteq> IR_MOD"
    by auto
  note [simp] = n
  show "shiftop (opc i) \<longrightarrow> wt J (irt i) (op1 i) \<and> w32 J (op2 i)" "binop (opc i) \<longrightarrow> wt J (irt i) (op1 i) \<and> wt J (irt i) (op2 i)"
    "addop (opc i) \<longrightarrow> addt b J (irt i) (op1 i) (op2 i)"
    "opc i = IR_NEG \<longrightarrow> wt J (irt i) (op1 i) \<and> wt J (irt i) (op2 i) \<or> b \<and> int64t (irt i) \<and> k0 J (op1 i) \<and> k0 J (op2 i)"
    "op32only (opc i) \<Longrightarrow> int32t (irt i)" "opc i = IR_DIV \<or> opc i = IR_POW \<Longrightarrow> int64t (irt i)"
    "opc i = IR_ABC \<Longrightarrow> irt_isint (irt i)" "opc i = IR_MOD \<and> int32t (irt i) \<longrightarrow> \<not> k0 J (op2 i)"
    by simp_all
qed (use assms in \<open>auto simp: intt_def\<close>)

lemma typed_shiftI:
  assumes "shiftop (opc i)" "intt (irt i)" "wt J (irt i) (op1 i)" "w32 J (op2 i)"
  shows "typed b J i"
proof (rule typedI)
  have "opc i = IR_BSHL \<or> opc i = IR_BSHR \<or> opc i = IR_BSAR \<or> opc i = IR_BROL \<or> opc i = IR_BROR" using assms(1) by (simp add: shiftop_cases)
  then have n: "\<not> unop (opc i)" "\<not> binop (opc i)" "\<not> addop (opc i)" "opc i \<noteq> IR_NEG" "\<not> op32only (opc i)"
    "opc i \<noteq> IR_DIV" "opc i \<noteq> IR_POW" "opc i \<noteq> IR_ABC" "opc i \<noteq> IR_MOD"
    by auto
  note [simp] = n
  show "unop (opc i) \<longrightarrow> wt J (irt i) (op1 i) \<and> op2 i = 0" "binop (opc i) \<longrightarrow> wt J (irt i) (op1 i) \<and> wt J (irt i) (op2 i)"
    "addop (opc i) \<longrightarrow> addt b J (irt i) (op1 i) (op2 i)"
    "opc i = IR_NEG \<longrightarrow> wt J (irt i) (op1 i) \<and> wt J (irt i) (op2 i) \<or> b \<and> int64t (irt i) \<and> k0 J (op1 i) \<and> k0 J (op2 i)"
    "op32only (opc i) \<Longrightarrow> int32t (irt i)" "opc i = IR_DIV \<or> opc i = IR_POW \<Longrightarrow> int64t (irt i)"
    "opc i = IR_ABC \<Longrightarrow> irt_isint (irt i)" "opc i = IR_MOD \<and> int32t (irt i) \<longrightarrow> \<not> k0 J (op2 i)"
    by simp_all
qed (use assms in \<open>auto simp: intt_def\<close>)

lemma typed_binI:
  assumes "binop (opc i)" "intt (irt i)" "wt J (irt i) (op1 i)" "wt J (irt i) (op2 i)" "op32only (opc i) \<Longrightarrow> int32t (irt i)"
    "opc i = IR_DIV \<or> opc i = IR_POW \<Longrightarrow> int64t (irt i)" "opc i = IR_ABC \<Longrightarrow> irt_isint (irt i)" "opc i = IR_MOD \<Longrightarrow> \<not> k0 J (op2 i)"
  shows "typed b J i"
proof (rule typedI)
  have n: "\<not> unop (opc i)" "\<not> shiftop (opc i)" "\<not> addop (opc i)" "opc i \<noteq> IR_NEG"
    using assms(1) by (auto simp: ir_defs op_classes iscmp_def shiftop_cases)
  note [simp] = n
  show "unop (opc i) \<longrightarrow> wt J (irt i) (op1 i) \<and> op2 i = 0" "shiftop (opc i) \<longrightarrow> wt J (irt i) (op1 i) \<and> w32 J (op2 i)"
    "addop (opc i) \<longrightarrow> addt b J (irt i) (op1 i) (op2 i)"
    "opc i = IR_NEG \<longrightarrow> wt J (irt i) (op1 i) \<and> wt J (irt i) (op2 i) \<or> b \<and> int64t (irt i) \<and> k0 J (op1 i) \<and> k0 J (op2 i)"
    by simp_all
qed (use assms in \<open>auto simp: intt_def\<close>)

lemma add_opr:
  assumes "typed b J i" "addop (opc i)"
  shows "opr J (irt i) (op1 i)" and "opr J (irt i) (op2 i)"
  using typedD(6) [OF assms] by (auto simp: addt_def opr_def wt_def split: if_splits)

lemma bin_wt:
  assumes "typed b J i" "binop (opc i)"
  shows "wt J (irt i) (op1 i)" and "wt J (irt i) (op2 i)"
  using typedD(5) [OF assms] by auto

section \<open>Shortcuts\<close>

lemma put_get_le32: "put_le32 (get_le32 [a, b, c, d]) = [a, b, c, d]"
proof -
  have "bit (get_le32 [a, b, c, d]) n \<longleftrightarrow> (if n < 8 then bit a n else if n < 16 then bit b (n - 8) else if n < 24 then bit c (n - 16) else bit d (n - 24))"
    if "n < 32" for n
    using that by (auto simp: get_le32_def bit_simps dest: bit_imp_le_length)
  then show ?thesis
    by (auto simp: put_le32_def intro!: bit_word_eqI simp: bit_ucast_iff bit_drop_bit_eq add.commute)
qed

lemma bswap_bswap: "lj_bswap (lj_bswap x) = x"
proof -
  obtain a b c d where p: "put_le32 x = [a, b, c, d]" by (simp add: put_le32_def)
  then have "lj_bswap (lj_bswap x) = get_le32 (put_le32 x)" by (simp add: bswap_rev put_get_le32)
  then show ?thesis by simp
qed

lemma bswap64_bswap64: "lj_bswap64 (lj_bswap64 x) = x"
proof -
  have h: "(ucast (drop_bit 32 (lj_bswap64 x)) :: u32) = lj_bswap (ucast x)" "(ucast (lj_bswap64 x) :: u32) = lj_bswap (ucast (drop_bit 32 x))"
    by (rule bit_word_eqI, auto simp: lj_bswap64_def bit_simps dest: bit_imp_le_length)+
  show ?thesis unfolding lj_bswap64_def [of "lj_bswap64 x"] h bswap_bswap
    by (rule bit_word_eqI) (auto simp: bit_simps)
qed

lemma shortcut_leftleft_ok:
  assumes "op = IR_NEG \<or> op = IR_BNOT \<or> op = IR_BSWAP" and "k = (if op = IR_NEG then fkey2 op (Some op) None else fkey1 op op)"
  shows "rule_ok fold_shortcut_leftleft k"
proof (rule rule_okI)
  fix rf J fins J' res
  assume J: "ok J" and t: "typed True J fins" and key: "key_of k J fins" and e: "fold_shortcut_leftleft rf J fins = Some (J', res)"
  have o': "opc fins = op" "opc (fl J fins) = op" using key assms by (auto split: if_splits)
  have w: "wt J (irt fins) (op1 fins)" by (rule op1_wt [OF J t]) (use o' assms in auto)
  have cl: "foldop op" "\<not> iscmp op" "op \<noteq> IR_SUB" "noguard op" using assms by auto
  note inn = inner [OF J w, unfolded o', OF cl(1,2)]
  have ti: "typed False J (fl J fins)" "int64t (irt (fl J fins)) \<longleftrightarrow> int64t (irt fins)" using inn(1,2) cl by auto
  have w1: "wt J (irt (fl J fins)) (op1 (fl J fins))" using typedD(3,7) [OF ti(1)] o' assms by auto
  have w1': "wt J (irt fins) (op1 (fl J fins))" using wt_width [OF w1] ti(2) by simp
  have r: "J' = J" "res = (if irt_isphi (irt (fl J fins)) then NEXTFOLD else FREF (op1 (fl J fins)))"
    using e by (auto simp: fold_shortcut_leftleft_def)
  have v: "\<nu> (op1 (fl J fins)) = eval fins \<nu>" if a: "agrees J \<nu>" for \<nu>
  proof -
    have "\<nu> (op1 fins) = eval (fl J fins) \<nu>" using inn(3) a cl by simp
    then show ?thesis using assms(1) ti(2) o' canon [OF J a w1']
      by (cases "int64t (irt fins)") (auto simp: eval_def bswap_rev [symmetric] bswap64_rev [symmetric] bswap_bswap bswap64_bswap64)
  qed
  show "res_ok J fins J' res" unfolding r
    using res_ref [OF J, of fins "op1 (fl J fins)"] w1' v noguard_guard [of fins] cl o' by auto
qed

section \<open>Negations\<close>

lemma negl:
  assumes J: "ok J" and w: "wt J t r" and o': "opc (ir J r) = IR_NEG"
  shows "wt J t (op1 (ir J r))" and "agrees J \<nu> \<Longrightarrow> \<nu> r = (if int64t t then - \<nu> (op1 (ir J r)) else sx (- lo (\<nu> (op1 (ir J r)))))"
proof -
  note inn = inner [OF J w, unfolded o']
  have ti: "typed False J (ir J r)" "int64t (irt (ir J r)) \<longleftrightarrow> int64t t" using inn(1,2) by auto
  have "wt J (irt (ir J r)) (op1 (ir J r))" using typedD(7) [OF ti(1)] o' by auto
  then show "wt J t (op1 (ir J r))" using wt_width ti(2) by blast
  show "\<nu> r = (if int64t t then - \<nu> (op1 (ir J r)) else sx (- lo (\<nu> (op1 (ir J r)))))" if "agrees J \<nu>"
    using inn(3) [OF _ _ _ that] o' ti(2) by (simp add: eval_def)
qed

lemma typed_intt': "typed b J i \<Longrightarrow> intt (irt i)"
  by (rule typed_intt)

lemma numadd_negx_ok: "rule_ok fold_simplify_numadd_negx (fkey2 IR_ADD (Some IR_NEG) None)"
proof (rule rule_okI)
  fix rf J fins J' res
  assume J: "ok J" and t: "typed True J fins" and key: "key_of (fkey2 IR_ADD (Some IR_NEG) None) J fins"
    and e: "fold_simplify_numadd_negx rf J fins = Some (J', res)"
  have o': "opc fins = IR_ADD" "opc (fl J fins) = IR_NEG" using key by simp_all
  have w: "wt J (irt fins) (op1 fins)" by (rule op1_wt [OF J t]) (simp add: o')
  note n = negl [OF J w o'(2)] and a = add_opr [OF t, unfolded o', simplified]
  define f where "f = fins\<lparr>opc := IR_SUB, op1 := op2 fins, op2 := op1 (fl J fins)\<rparr>"
  have r: "J' = J" "res = (if irt_isphi (irt (fl J fins)) then NEXTFOLD else RETRYFOLD f)"
    using e by (auto simp: fold_simplify_numadd_negx_def f_def)
  have "res_ok J fins J (RETRYFOLD f)"
  proof (rule res_retry [OF J])
    show "typed True J f" by (rule typed_addI) (use a n(1) typed_intt [OF t] in \<open>auto simp: f_def intro: wt_opr\<close>)
    fix \<nu> assume ag: "agrees J \<nu>"
    show "eval f \<nu> = eval fins \<nu>" using n(2) [OF ag] o' by (simp add: eval_def f_def)
    show "guard f \<nu> \<longleftrightarrow> guard fins \<nu>" using o' noguard_guard [of f] noguard_guard [of fins] by (simp add: f_def)
  qed (simp_all add: f_def o')
  then show "res_ok J fins J' res" by (simp add: r)
qed

lemma numadd_xneg_ok: "rule_ok fold_simplify_numadd_xneg (fkey2 IR_ADD None (Some IR_NEG))"
proof (rule rule_okI)
  fix rf J fins J' res
  assume J: "ok J" and t: "typed True J fins" and key: "key_of (fkey2 IR_ADD None (Some IR_NEG)) J fins"
    and e: "fold_simplify_numadd_xneg rf J fins = Some (J', res)"
  have o': "opc fins = IR_ADD" "opc (fr J fins) = IR_NEG" using key by simp_all
  have w: "wt J (irt fins) (op2 fins)" by (rule op2_wt [OF J t]) (simp_all add: o')
  note n = negl [OF J w o'(2)] and a = add_opr [OF t, unfolded o', simplified]
  define f where "f = fins\<lparr>opc := IR_SUB, op2 := op1 (fr J fins)\<rparr>"
  have r: "J' = J" "res = (if irt_isphi (irt (fr J fins)) then NEXTFOLD else RETRYFOLD f)"
    using e by (auto simp: fold_simplify_numadd_xneg_def f_def)
  have "res_ok J fins J (RETRYFOLD f)"
  proof (rule res_retry [OF J])
    show "typed True J f" by (rule typed_addI) (use a n(1) typed_intt [OF t] in \<open>auto simp: f_def intro: wt_opr\<close>)
    fix \<nu> assume ag: "agrees J \<nu>"
    show "eval f \<nu> = eval fins \<nu>" using n(2) [OF ag] o' by (simp add: eval_def f_def)
    show "guard f \<nu> \<longleftrightarrow> guard fins \<nu>" using o' noguard_guard [of f] noguard_guard [of fins] by (simp add: f_def)
  qed (simp_all add: f_def o')
  then show "res_ok J fins J' res" by (simp add: r)
qed

lemma numsub_xneg_ok: "rule_ok fold_simplify_numsub_xneg (fkey2 IR_SUB None (Some IR_NEG))"
proof (rule rule_okI)
  fix rf J fins J' res
  assume J: "ok J" and t: "typed True J fins" and key: "key_of (fkey2 IR_SUB None (Some IR_NEG)) J fins"
    and e: "fold_simplify_numsub_xneg rf J fins = Some (J', res)"
  have o': "opc fins = IR_SUB" "opc (fr J fins) = IR_NEG" using key by simp_all
  have w: "wt J (irt fins) (op2 fins)" by (rule op2_wt [OF J t]) (simp_all add: o')
  note n = negl [OF J w o'(2)] and a = add_opr [OF t, unfolded o', simplified]
  define f where "f = fins\<lparr>opc := IR_ADD, op2 := op1 (fr J fins)\<rparr>"
  have r: "J' = J" "res = (if irt_isphi (irt (fr J fins)) then NEXTFOLD else RETRYFOLD f)"
    using e by (auto simp: fold_simplify_numsub_xneg_def f_def)
  have "res_ok J fins J (RETRYFOLD f)"
  proof (rule res_retry [OF J])
    show "typed True J f" by (rule typed_addI) (use a n(1) typed_intt [OF t] in \<open>auto simp: f_def intro: wt_opr\<close>)
    fix \<nu> assume ag: "agrees J \<nu>"
    show "eval f \<nu> = eval fins \<nu>" using n(2) [OF ag] o' by (simp add: eval_def f_def)
    show "guard f \<nu> \<longleftrightarrow> guard fins \<nu>" using o' noguard_guard [of f] noguard_guard [of fins] by (simp add: f_def)
  qed (simp_all add: f_def o')
  then show "res_ok J fins J' res" by (simp add: r)
qed

lemma nummuldiv_negneg_ok:
  assumes "op = IR_MUL \<or> op = IR_DIV"
  shows "rule_ok fold_simplify_nummuldiv_negneg (fkey2 op (Some IR_NEG) (Some IR_NEG))"
proof (rule rule_okI)
  fix rf J fins J' res
  assume J: "ok J" and t: "typed True J fins" and s: "sgn_ok J fins" and key: "key_of (fkey2 op (Some IR_NEG) (Some IR_NEG)) J fins"
    and e: "fold_simplify_nummuldiv_negneg rf J fins = Some (J', res)"
  have o': "opc fins = op" "opc (fl J fins) = IR_NEG" "opc (fr J fins) = IR_NEG" using key assms by auto
  define f where "f = fins\<lparr>op1 := op1 (fl J fins), op2 := op1 (fr J fins)\<rparr>"
  show "res_ok J fins J' res"
  proof (cases "op = IR_DIV")
    case True
    have "irt_type (irt fins) = IRT_I64 \<or> irt_type (irt fins) = IRT_U64" using typedD(9) [OF t] o' True by (simp add: int64t_def)
    then have "irt_isu64 (irt fins)" using s o' True by (auto simp: sgn_ok_def irt_isi64_def irt_isu64_def)
    then show ?thesis using e o' True by (simp add: fold_simplify_nummuldiv_negneg_def)
  next
    case False
    then have m: "op = IR_MUL" using assms by simp
    have w: "wt J (irt fins) (op1 fins)" "wt J (irt fins) (op2 fins)" using bin_wt [OF t] o' m by auto
    note l = negl [OF J w(1) o'(2)] and r = negl [OF J w(2) o'(3)]
    have "res_ok J fins J (RETRYFOLD f)"
    proof (rule res_retry [OF J])
      show "typed True J f" by (rule typed_binI) (use l(1) r(1) typed_intt [OF t] o' m in \<open>auto simp: f_def\<close>)
      fix \<nu> assume ag: "agrees J \<nu>"
      show "eval f \<nu> = eval fins \<nu>" using l(2) [OF ag] r(2) [OF ag] o' m by (simp add: eval_def f_def)
      show "guard f \<nu> \<longleftrightarrow> guard fins \<nu>" using o' m noguard_guard [of f] noguard_guard [of fins] by (simp add: f_def)
    qed (simp_all add: f_def o' m)
    then show ?thesis using e o' m by (auto simp: fold_simplify_nummuldiv_negneg_def f_def)
  qed
qed

section \<open>Constants on the right\<close>

text \<open>The value of a \<^verbatim>\<open>KINT\<close> on the right of an addition or of a binary operation.\<close>

lemma kright:
  assumes J: "ok J" and t: "typed True J fins" and k: "opc (fr J fins) = IR_KINT" and u: "\<not> unop (opc fins)"
  shows "vref J (op2 fins)" and "agrees J \<nu> \<Longrightarrow> \<nu> (op2 fins) = sx (ik (fr J fins))"
    and "binop (opc fins) \<Longrightarrow> \<not> int64t (irt fins)" and "addop (opc fins) \<Longrightarrow> int64t (irt fins) \<Longrightarrow> ik (fr J fins) = 0"
proof -
  show v: "vref J (op2 fins)" using typed_vref(2) [OF t] u by blast
  show "agrees J \<nu> \<Longrightarrow> \<nu> (op2 fins) = sx (ik (fr J fins))" using kint_val(1) [OF J _ v k] .
  show "binop (opc fins) \<Longrightarrow> \<not> int64t (irt fins)" using bin_wt(2) [OF t] wt_kint(1) [OF J _ k] by blast
  show "addop (opc fins) \<Longrightarrow> int64t (irt fins) \<Longrightarrow> ik (fr J fins) = 0"
    using add_opr(2) [OF t] wt_kint(1) [OF J _ k] by (auto simp: opr_def k0_def)
qed

lemma kval_right:
  assumes J: "ok J" and t: "typed True J fins" and k: "opc (fr J fins) = IR_KINT \<or> opc (fr J fins) = IR_KINT64" and b: "binop (opc fins)"
    and a: "agrees J \<nu>"
  shows "\<nu> (op2 fins) = kval (fr J fins)"
  using kint_val(1,2) [OF J a wt_kint(3) [OF J bin_wt(2) [OF t b]]] k by (auto simp: kval_def sx_def)

lemma intadd_k_ok:
  assumes "op = IR_ADD \<or> op = IR_ADDOV \<or> op = IR_SUBOV"
  shows "rule_ok fold_simplify_intadd_k (fkey2 op None (Some IR_KINT))"
proof (rule rule_okI)
  fix rf J fins J' res
  assume J: "ok J" and t: "typed True J fins" and key: "key_of (fkey2 op None (Some IR_KINT)) J fins"
    and e: "fold_simplify_intadd_k rf J fins = Some (J', res)"
  have o': "opc fins = op" "opc (fr J fins) = IR_KINT" using key assms by auto
  have w: "opr J (irt fins) (op1 fins)" using add_opr(1) [OF t] bin_wt(1) [OF t] assms o' by (auto intro: wt_opr)
  have n64: "int64t (irt fins) \<Longrightarrow> op = IR_ADD" using typedD(8) [OF t] o' assms int3264 by auto
  note kr = kright(2) [OF J t o'(2)]
  have "res_ok J fins J (FREF (op1 fins))" if z: "ik (fr J fins) = 0"
  proof (rule res_ref [OF J opr_ref [OF w]])
    fix \<nu> assume a: "agrees J \<nu>"
    have v: "\<nu> (op2 fins) = 0" using kr [OF _ a] z o' assms by auto
    show "guard fins \<nu>" using v assms o' noguard_guard [of fins] sint_bounds [of "lo (\<nu> (op1 fins))"] by (auto simp: in_i32_def)
    show "\<nu> (op1 fins) = eval fins \<nu>" using v assms o' n64 opr_canon [OF J a w] by (auto simp: eval_def)
  qed
  then show "res_ok J fins J' res" using e by (auto simp: fold_simplify_intadd_k_def LEFTFOLD_def)
qed

lemma intmul_k_ok: "rule_ok fold_simplify_intmul_k (fkey2 IR_MULOV None (Some IR_KINT))"
proof (rule rule_okI)
  fix rf J fins J' res
  assume J: "ok J" and t: "typed True J fins" and key: "key_of (fkey2 IR_MULOV None (Some IR_KINT)) J fins"
    and e: "fold_simplify_intmul_k rf J fins = Some (J', res)"
  have o': "opc fins = IR_MULOV" "opc (fr J fins) = IR_KINT" using key by auto
  have w: "wt J (irt fins) (op1 fins)" "wt J (irt fins) (op2 fins)" using bin_wt [OF t] o' by auto
  have n64: "\<not> int64t (irt fins)" using typedD(8) [OF t] o' int3264 by auto
  have kr: "\<nu> (op2 fins) = sx (ik (fr J fins))" if "agrees J \<nu>" for \<nu> using kright(2) [OF J t o'(2) _ that] o' by simp
  have "res_ok J fins J (FREF (op2 fins))" if z: "ik (fr J fins) = 0"
  proof (rule res_ref [OF J])
    fix \<nu> assume a: "agrees J \<nu>"
    show "guard fins \<nu>" "\<nu> (op2 fins) = eval fins \<nu>" using kr [OF a] z o' n64 by (auto simp: in_i32_def eval_def)
  qed (use w in simp)
  moreover have "res_ok J fins J (FREF (op1 fins))" if z: "ik (fr J fins) = 1"
  proof (rule res_ref [OF J])
    fix \<nu> assume a: "agrees J \<nu>"
    have "sint (1 :: u32) = 1" by simp
    then show "guard fins \<nu>" "\<nu> (op1 fins) = eval fins \<nu>"
      using kr [OF a] z o' n64 canon [OF J a w(1) n64] sint_bounds [of "lo (\<nu> (op1 fins))"] by (auto simp: in_i32_def eval_def)
  qed (use w in simp)
  moreover have "res_ok J fins J (RETRYFOLD (fins\<lparr>opc := IR_ADDOV, op2 := op1 fins\<rparr>))" if z: "ik (fr J fins) = 2"
  proof (rule res_retry [OF J])
    show "typed True J (fins\<lparr>opc := IR_ADDOV, op2 := op1 fins\<rparr>)"
      by (rule typed_binI) (use w typed_intt [OF t] typedD(8) [OF t] o' in auto)
    fix \<nu> assume a: "agrees J \<nu>"
    have s2: "sint (2 :: u32) = 2" by simp
    show "guard (fins\<lparr>opc := IR_ADDOV, op2 := op1 fins\<rparr>) \<nu> \<longleftrightarrow> guard fins \<nu>" using kr [OF a] z o' s2 by (simp add: mult.commute)
    show "eval (fins\<lparr>opc := IR_ADDOV, op2 := op1 fins\<rparr>) \<nu> = eval fins \<nu>" using kr [OF a] z o' n64 by (simp add: eval_def)
  qed (simp_all add: o')
  ultimately show "res_ok J fins J' res"
    using e by (auto simp: fold_simplify_intmul_k_def LEFTFOLD_def RIGHTFOLD_def Let_def split: if_splits)
qed

text \<open>A retry with a new constant on the right.\<close>

lemma retry_kint_ok:
  assumes J: "ok J" and e: "retry_kint J f k = Some (J', res)" and nz: "0 < nk J'"
    and d: "\<not> divop (opc f)" "iscmp (opc f) \<longleftrightarrow> iscmp (opc fins)" "int64t (irt f) \<longleftrightarrow> int64t (irt fins)"
    and T: "\<And>J' r. ok J' \<Longrightarrow> keeps J J' \<Longrightarrow> opc (ir J' r) = IR_KINT \<Longrightarrow> ik (ir J' r) = k \<Longrightarrow> w32 J' r \<Longrightarrow> typed True J' (f\<lparr>op2 := r\<rparr>)"
    and G: "\<And>r \<nu>. agrees J \<nu> \<Longrightarrow> \<nu> r = sx k \<Longrightarrow> guard (f\<lparr>op2 := r\<rparr>) \<nu> \<longleftrightarrow> guard fins \<nu>"
    and E: "\<And>r \<nu>. agrees J \<nu> \<Longrightarrow> \<nu> r = sx k \<Longrightarrow> \<not> iscmp (opc fins) \<Longrightarrow> eval (f\<lparr>op2 := r\<rparr>) \<nu> = eval fins \<nu>"
    and sm: "shmul (opc f) \<longrightarrow> shmul (opc fins)"
  shows "res_ok J fins J' res"
proof -
  obtain r where r: "lj_ir_kint J k = (J', r)" "res = RETRYFOLD (f\<lparr>op2 := r\<rparr>)" using e by (auto simp: retry_kint_def split: prod.splits)
  note m = kint_ok [OF J r(1) nz]
  have J': "ok J'" and kp: "keeps J J'" using postD(1,2) [OF m(1)] .
  have w: "w32 J' r" using m(2,5) kint_type by (simp add: w32_def)
  note h = T [OF J' kp m(3,4) w]
  show ?thesis unfolding r(2)
  proof (rule post_retry [OF m(1)])
    fix \<nu> assume a: "agrees J' \<nu>"
    have "agrees J \<nu>" "\<nu> r = sx k" using postD(3) [OF m(1) a] kint_val(1) [OF J' a m(2,3)] m(4) by simp_all
    then show "guard (f\<lparr>op2 := r\<rparr>) \<nu> \<longleftrightarrow> guard fins \<nu>" "\<not> iscmp (opc fins) \<Longrightarrow> eval (f\<lparr>op2 := r\<rparr>) \<nu> = eval fins \<nu>" using G E by blast+
  next
    show "mask_free J \<Longrightarrow> mask_free J'" by (rule mask_free_const [OF J kp m(6)]) (simp_all add: m(3))
  qed (use h d sm in auto)
qed

lemma retry_kint64_ok:
  assumes J: "ok J" and e: "retry_kint64 J f k = Some (J', res)" and nz: "0 < nk J'"
    and d: "\<not> divop (opc f)" "iscmp (opc f) \<longleftrightarrow> iscmp (opc fins)" "int64t (irt f) \<longleftrightarrow> int64t (irt fins)"
    and T: "\<And>J' r. ok J' \<Longrightarrow> keeps J J' \<Longrightarrow> opc (ir J' r) = IR_KINT64 \<Longrightarrow> tv (ir J' r) = k \<Longrightarrow> w64 J' r \<Longrightarrow> typed True J' (f\<lparr>op2 := r\<rparr>)"
    and G: "\<And>r \<nu>. agrees J \<nu> \<Longrightarrow> \<nu> r = k \<Longrightarrow> guard (f\<lparr>op2 := r\<rparr>) \<nu> \<longleftrightarrow> guard fins \<nu>"
    and E: "\<And>r \<nu>. agrees J \<nu> \<Longrightarrow> \<nu> r = k \<Longrightarrow> \<not> iscmp (opc fins) \<Longrightarrow> eval (f\<lparr>op2 := r\<rparr>) \<nu> = eval fins \<nu>"
    and sm: "shmul (opc f) \<longrightarrow> shmul (opc fins)"
  shows "res_ok J fins J' res"
proof -
  obtain r where r: "lj_ir_kint64 J k = (J', r)" "res = RETRYFOLD (f\<lparr>op2 := r\<rparr>)" using e by (auto simp: retry_kint64_def split: prod.splits)
  note m = kint64_ok [OF J r(1) nz]
  have J': "ok J'" and kp: "keeps J J'" using postD(1,2) [OF m(1)] .
  have w: "w64 J' r" using m(2,5) kint_type by (simp add: w64_def)
  note h = T [OF J' kp m(3,4) w]
  show ?thesis unfolding r(2)
  proof (rule post_retry [OF m(1)])
    fix \<nu> assume a: "agrees J' \<nu>"
    have "agrees J \<nu>" "\<nu> r = k" using postD(3) [OF m(1) a] kint_val(2) [OF J' a m(2,3)] m(4) by simp_all
    then show "guard (f\<lparr>op2 := r\<rparr>) \<nu> \<longleftrightarrow> guard fins \<nu>" "\<not> iscmp (opc fins) \<Longrightarrow> eval (f\<lparr>op2 := r\<rparr>) \<nu> = eval fins \<nu>" using G E by blast+
  next
    show "mask_free J \<Longrightarrow> mask_free J'" by (rule mask_free_const [OF J kp m(6)]) (simp_all add: m(3))
  qed (use h d sm in auto)
qed

lemma intsub_k_ok: "rule_ok fold_simplify_intsub_k (fkey2 IR_SUB None (Some IR_KINT))"
proof (rule rule_okI)
  fix rf J fins J' res
  assume J: "ok J" and t: "typed True J fins" and key: "key_of (fkey2 IR_SUB None (Some IR_KINT)) J fins"
    and e: "fold_simplify_intsub_k rf J fins = Some (J', res)" and nz: "0 < nk J'"
  have o': "opc fins = IR_SUB" "opc (fr J fins) = IR_KINT" using key by auto
  have w: "opr J (irt fins) (op1 fins)" using add_opr(1) [OF t] o' by simp
  have k64: "ik (fr J fins) = 0" if "int64t (irt fins)" using kright(4) [OF J t o'(2)] o' that by simp
  have kr: "\<nu> (op2 fins) = sx (ik (fr J fins))" if "agrees J \<nu>" for \<nu> using kright(2) [OF J t o'(2) _ that] o' by simp
  show "res_ok J fins J' res"
  proof (cases "ik (fr J fins) = 0")
    case True
    have "res_ok J fins J (FREF (op1 fins))"
    proof (rule res_ref [OF J opr_ref [OF w]])
      fix \<nu> assume a: "agrees J \<nu>"
      show "guard fins \<nu>" using noguard_guard [of fins] o' by simp
      show "\<nu> (op1 fins) = eval fins \<nu>" using kr [OF a] True o' opr_canon [OF J a w] by (auto simp: eval_def)
    qed
    then show ?thesis using e True by (auto simp: fold_simplify_intsub_k_def LEFTFOLD_def)
  next
    case False
    then have n64: "\<not> int64t (irt fins)" using k64 by blast
    have e': "retry_kint J (fins\<lparr>opc := IR_ADD\<rparr>) (- ik (fr J fins)) = Some (J', res)"
      using e False by (simp add: fold_simplify_intsub_k_def not_plus_1)
    show ?thesis
    proof (rule retry_kint_ok [OF J e' nz])
      fix J1 r assume kp: "keeps J J1" and r: "w32 J1 r"
      show "typed True J1 (fins\<lparr>opc := IR_ADD\<rparr>\<lparr>op2 := r\<rparr>)"
        by (rule typed_addI) (use typed_intt [OF t] opr_keeps [OF kp w] r n64 in \<open>auto simp: opr_def wt_def\<close>)
    next
      fix r \<nu> assume a: "agrees J \<nu>" and r: "\<nu> r = sx (- ik (fr J fins))"
      show "eval (fins\<lparr>opc := IR_ADD\<rparr>\<lparr>op2 := r\<rparr>) \<nu> = eval fins \<nu>" using kr [OF a] r o' n64 by (simp add: eval_def)
    qed (simp_all add: o' noguard_guard)
  qed
qed

end
