(* ===== verification/FoldArith.thy ===== *)
theory FoldArith
  imports FoldAlg
begin

text \<open>Soundness of the rules for subtraction, multiplication and modulo.\<close>

section \<open>Powers of two\<close>

lemma pow2_nat:
  assumes "(k :: 'a::len word) \<noteq> 0" "k AND (k - 1) = 0"
  shows "unat k = 2 ^ fls_nat (unat k)" and "fls_nat (unat k) < LENGTH('a)"
proof -
  let ?n = "fls_nat (unat k)"
  have pos: "0 < unat k" using assms(1) by (simp add: unat_gt_0)
  note b = fls_nat_bounds [OF pos]
  have "2 ^ ?n < (2 :: nat) ^ LENGTH('a)" using b unsigned_less [of k, where 'a = nat] by linarith
  then show n: "?n < LENGTH('a)" by simp
  have "unat (k - 1) = unat k - 1" using pos assms(1) by (metis unat_minus_one)
  have odd1: "m div 2 ^ ?n = 1" if "2 ^ ?n \<le> m" "m < 2 ^ Suc ?n" for m :: nat
    using that by (simp add: div_nat_eqI)
  show "unat k = 2 ^ ?n"
  proof (rule ccontr)
    assume "unat k \<noteq> 2 ^ ?n"
    then have l: "2 ^ ?n < unat k" using b by simp
    have "bit (unat k) ?n" using odd1 [of "unat k"] b by (simp add: bit_iff_odd)
    moreover have "bit (unat k - 1) ?n" using odd1 [of "unat k - 1"] b l by (simp add: bit_iff_odd)
    ultimately have "bit k ?n" "bit (k - 1) ?n" using n \<open>unat (k - 1) = unat k - 1\<close> by (metis bit_unsigned_iff)+
    then have "bit (k AND (k - 1)) ?n" by (simp add: bit_and_iff)
    with assms(2) show False by simp
  qed
qed

lemma pow2_word:
  assumes "(k :: 'a::len word) \<noteq> 0" "k AND (k - 1) = 0"
  shows "k = 2 ^ fls_nat (unat k)"
proof -
  have "k = of_nat (unat k)" by simp
  also have "\<dots> = of_nat (2 ^ fls_nat (unat k))" using pow2_nat(1) [OF assms] by simp
  finally show ?thesis by simp
qed

text \<open>The floored modulo by a power of two is a mask, also of negative numbers.\<close>

lemma mod_pow2_mask:
  assumes "n < 31"
  shows "(word_of_int (sint (a :: u32) mod 2 ^ n) :: u32) = a AND (2 ^ n - 1)"
proof -
  have "(word_of_int (take_bit n (sint a)) :: u32) = take_bit n (word_of_int (sint a))"
    by (rule bit_word_eqI) (auto simp: bit_simps bit_word_of_int_iff)
  then show ?thesis by (simp add: take_bit_eq_mod [symmetric] take_bit_eq_mask mask_eq_exp_minus_1)
qed

lemma lo_ucast: "lo (ucast k) = k"
  by (rule bit_word_eqI) (simp add: lo_def bit_simps)

section \<open>Subtraction and addition\<close>

lemma intsub_kleft_ok:
  assumes "k = IR_KINT \<or> k = IR_KINT64"
  shows "rule_ok fold_simplify_intsub_kleft (fkey2 IR_SUB (Some k) None)"
proof (rule rule_okI)
  fix rf J fins J' res
  assume J: "ok J" and t: "typed True J fins" and key: "key_of (fkey2 IR_SUB (Some k) None) J fins"
    and e: "fold_simplify_intsub_kleft rf J fins = Some (J', res)"
  have o': "opc fins = IR_SUB" "opc (fl J fins) = k" using key by auto
  have w: "opr J (irt fins) (op1 fins)" "opr J (irt fins) (op2 fins)" using add_opr [OF t] o' by auto
  define f where "f = fins\<lparr>opc := IR_NEG, op1 := op2 fins\<rparr>"
  have "res_ok J fins J (RETRYFOLD f)" if z: "if opc (fl J fins) = IR_KINT then ik (fl J fins) = 0 else tv (fl J fins) = 0"
  proof (rule res_retry [OF J])
    show "typed True J f" by (rule typed_negI) (use w typed_intt [OF t] in \<open>auto simp: f_def opr_def\<close>)
    fix \<nu> assume a: "agrees J \<nu>"
    have v: "vref J (op1 fins)" using typed_vref(1) [OF t] .
    have "\<nu> (op1 fins) = 0" using kint_val(1,2) [OF J a v] assms o' z by (auto split: if_splits)
    then show "eval f \<nu> = eval fins \<nu>" using o' by (simp add: eval_def f_def)
    show "guard f \<nu> \<longleftrightarrow> guard fins \<nu>" using o' by (simp add: noguard_guard f_def)
  qed (simp_all add: f_def o')
  then show "res_ok J fins J' res" using e by (auto simp: fold_simplify_intsub_kleft_def f_def split: if_splits)
qed

lemma intadd_k64_ok: "rule_ok fold_simplify_intadd_k64 (fkey2 IR_ADD None (Some IR_KINT64))"
proof (rule rule_okI)
  fix rf J fins J' res
  assume J: "ok J" and t: "typed True J fins" and key: "key_of (fkey2 IR_ADD None (Some IR_KINT64)) J fins"
    and e: "fold_simplify_intadd_k64 rf J fins = Some (J', res)"
  have o': "opc fins = IR_ADD" "opc (fr J fins) = IR_KINT64" using key by auto
  have w: "opr J (irt fins) (op1 fins)" using add_opr(1) [OF t] o' by simp
  have sh: "\<not> shiftop (opc fins)" "\<not> unop (opc fins)" using o' by simp_all
  note R = k64_right [OF J t o'(2) sh]
  have "res_ok J fins J (FREF (op1 fins))" if z: "tv (fr J fins) = 0"
  proof (rule res_ref [OF J opr_ref [OF w]])
    fix \<nu> assume a: "agrees J \<nu>"
    show "\<nu> (op1 fins) = eval fins \<nu>" using R(1) R(2) [OF a] z o' by (simp add: eval_def)
  qed (simp add: noguard_guard o')
  then show "res_ok J fins J' res" using e by (auto simp: fold_simplify_intadd_k64_def LEFTFOLD_def)
qed

lemma intsub_k64_ok: "rule_ok fold_simplify_intsub_k64 (fkey2 IR_SUB None (Some IR_KINT64))"
proof (rule rule_okI)
  fix rf J fins J' res
  assume J: "ok J" and t: "typed True J fins" and key: "key_of (fkey2 IR_SUB None (Some IR_KINT64)) J fins"
    and e: "fold_simplify_intsub_k64 rf J fins = Some (J', res)" and nz: "0 < nk J'"
  have o': "opc fins = IR_SUB" "opc (fr J fins) = IR_KINT64" using key by auto
  have w: "opr J (irt fins) (op1 fins)" using add_opr(1) [OF t] o' by simp
  have sh: "\<not> shiftop (opc fins)" "\<not> unop (opc fins)" using o' by simp_all
  note R = k64_right [OF J t o'(2) sh]
  show "res_ok J fins J' res"
  proof (cases "tv (fr J fins) = 0")
    case True
    have "res_ok J fins J (FREF (op1 fins))"
    proof (rule res_ref [OF J opr_ref [OF w]])
      fix \<nu> assume a: "agrees J \<nu>"
      show "\<nu> (op1 fins) = eval fins \<nu>" using R(1) R(2) [OF a] True o' by (simp add: eval_def)
    qed (simp add: noguard_guard o')
    then show ?thesis using e True by (auto simp: fold_simplify_intsub_k64_def LEFTFOLD_def)
  next
    case False
    have e': "retry_kint64 J (fins\<lparr>opc := IR_ADD\<rparr>) (- tv (fr J fins)) = Some (J', res)"
      using e False by (simp add: fold_simplify_intsub_k64_def not_plus_1 Let_def)
    show ?thesis
    proof (rule retry_kint64_ok [OF J e' nz])
      fix J1 r assume kp: "keeps J J1" and r: "w64 J1 r"
      show "typed True J1 (fins\<lparr>opc := IR_ADD\<rparr>\<lparr>op2 := r\<rparr>)"
        by (rule typed_addI) (use typed_intt [OF t] opr_keeps [OF kp w] r R(1) in \<open>auto simp: opr_def wt_def\<close>)
    next
      fix r \<nu> assume a: "agrees J \<nu>" and r: "\<nu> r = - tv (fr J fins)"
      show "eval (fins\<lparr>opc := IR_ADD\<rparr>\<lparr>op2 := r\<rparr>) \<nu> = eval fins \<nu>" using R(1) R(2) [OF a] r o' by (simp add: eval_def)
    qed (simp_all add: o' noguard_guard)
  qed
qed

section \<open>Multiplication and modulo\<close>

text \<open>The shared part of the multiplication rules: the constant \<open>k\<close> is the value of the right operand.\<close>

lemma mul_k_ok:
  assumes J: "ok J" and t: "typed True J fins" and o': "opc fins = IR_MUL" and e: "simplify_intmul_k J fins k = Some (J', res)" and nz: "0 < nk J'"
    and v: "\<And>\<nu>. agrees J \<nu> \<Longrightarrow> \<nu> (op2 fins) = of_nat (unat k)" and k: "unat k < 2 ^ 31"
  shows "res_ok J fins J' res"
proof -
  have w: "wt J (irt fins) (op1 fins)" "wt J (irt fins) (op2 fins)" using bin_wt [OF t] o' by auto
  have lov: "lo (\<nu> (op2 fins)) = k" if "agrees J \<nu>" for \<nu> using v [OF that] by (simp add: lo_ucast)
  consider "k = 0" | "k = 1" | "k \<noteq> 0" "k \<noteq> 1" "k AND (k - 1) = 0" | "k \<noteq> 0" "k \<noteq> 1" "k AND (k - 1) \<noteq> 0" by blast
  then show ?thesis
  proof cases
    case 1
    have "res_ok J fins J (FREF (op2 fins))"
    proof (rule res_ref [OF J])
      fix \<nu> assume a: "agrees J \<nu>"
      show "\<nu> (op2 fins) = eval fins \<nu>" using v [OF a] 1 o' by (simp add: eval_def)
    qed (simp_all add: w noguard_guard o')
    then show ?thesis using e 1 by (auto simp: simplify_intmul_k_def RIGHTFOLD_def)
  next
    case 2
    have "res_ok J fins J (FREF (op1 fins))"
    proof (rule res_ref [OF J])
      fix \<nu> assume a: "agrees J \<nu>"
      show "\<nu> (op1 fins) = eval fins \<nu>" using v [OF a] 2 o' canon [OF J a w(1)] by (simp add: eval_def lo_def)
    qed (simp_all add: w noguard_guard o')
    then show ?thesis using e 2 by (auto simp: simplify_intmul_k_def LEFTFOLD_def)
  next
    case 3
    let ?n = "fls_nat (unat k)"
    note p = pow2_nat [OF 3(1,3)]
    have "(2 :: nat) ^ ?n < 2 ^ 31" using p(1) k by metis
    then have n31: "?n < 31" by (rule power_less_imp_less_exp [rotated]) simp
    have e': "retry_kint J (fins\<lparr>opc := IR_BSHL\<rparr>) (word_of_nat ?n) = Some (J', res)"
      using e 3 by (simp add: simplify_intmul_k_def lj_fls_def)
    have un: "unat (word_of_nat ?n :: u32) = ?n" using n31 by (simp add: unsigned_of_nat take_bit_nat_eq_self)
    show ?thesis
    proof (rule retry_kint_ok [OF J e' nz])
      fix J1 r assume kp: "keeps J J1" and r: "w32 J1 r"
      show "typed True J1 (fins\<lparr>opc := IR_BSHL\<rparr>\<lparr>op2 := r\<rparr>)"
        by (rule typed_shiftI) (use typed_intt [OF t] keeps_wt(4) [OF kp w(1)] r in auto)
    next
      fix r \<nu> assume a: "agrees J \<nu>" and r: "\<nu> r = sx (word_of_nat ?n)"
      have "unat (\<nu> r) mod 64 = ?n" using sx_count [of "word_of_nat ?n"] n31 un by (simp add: r)
      moreover have "(of_nat (unat k) :: u64) = of_nat (2 ^ ?n)" using p(1) by metis
      then have "(of_nat (unat k) :: u64) = 2 ^ ?n" by (simp only: of_nat_power of_nat_numeral)
      moreover have "k = 2 ^ ?n" by (rule pow2_word [OF 3(1,3)])
      ultimately show "eval (fins\<lparr>opc := IR_BSHL\<rparr>\<lparr>op2 := r\<rparr>) \<nu> = eval fins \<nu>"
        using v [OF a] lov [OF a] r o' un n31 by (simp add: eval_def op32_shift op64_shift push_is_mult)
    qed (simp_all add: o' noguard_guard)
  next
    case 4
    then show ?thesis using e by (simp add: simplify_intmul_k_def)
  qed
qed

lemma nonneg_unat: "0 <=s (k :: u32) \<Longrightarrow> unat k < 2 ^ 31 \<and> sx k = of_nat (unat k) \<and> sint k = int (unat k)"
proof -
  assume "0 <=s k"
  then have s: "0 \<le> sint k" by (simp add: word_sle_eq)
  have "uint k = sint k" using s sint_less [of k] by (simp add: uint_sint take_bit_int_eq_self)
  then have u: "int (unat k) = sint k" by simp
  have "uint k < 2 ^ 31" using \<open>uint k = sint k\<close> sint_less [of k] by simp
  then have "unat k < 2 ^ 31" by (simp flip: nat_uint_eq)
  moreover have "sx k = of_nat (unat k)" unfolding sx_wi u [symmetric] by simp
  ultimately show ?thesis using u by simp
qed

lemma intmul_k32_ok: "rule_ok fold_simplify_intmul_k32 (fkey2 IR_MUL None (Some IR_KINT))"
proof (rule rule_okI)
  fix rf J fins J' res
  assume J: "ok J" and t: "typed True J fins" and key: "key_of (fkey2 IR_MUL None (Some IR_KINT)) J fins"
    and e: "fold_simplify_intmul_k32 rf J fins = Some (J', res)" and nz: "0 < nk J'"
  have o': "opc fins = IR_MUL" "opc (fr J fins) = IR_KINT" using key by auto
  show "res_ok J fins J' res"
  proof (cases "0 <=s ik (fr J fins)")
    case True
    have e': "simplify_intmul_k J fins (ik (fr J fins)) = Some (J', res)" using e True by (simp add: fold_simplify_intmul_k32_def)
    show ?thesis
      by (rule mul_k_ok [OF J t o'(1) e' nz]) (use nonneg_unat [OF True] kright(2) [OF J t o'(2)] o' in auto)
  next
    case False
    then show ?thesis using e by (auto simp: fold_simplify_intmul_k32_def)
  qed
qed

lemma intmul_k64_ok: "rule_ok fold_simplify_intmul_k64 (fkey2 IR_MUL None (Some IR_KINT64))"
proof (rule rule_okI)
  fix rf J fins J' res
  assume J: "ok J" and t: "typed True J fins" and key: "key_of (fkey2 IR_MUL None (Some IR_KINT64)) J fins"
    and e: "fold_simplify_intmul_k64 rf J fins = Some (J', res)" and nz: "0 < nk J'"
  have o': "opc fins = IR_MUL" "opc (fr J fins) = IR_KINT64" using key by auto
  have sh: "\<not> shiftop (opc fins)" "\<not> unop (opc fins)" using o' by simp_all
  note R = k64_right [OF J t o'(2) sh]
  show "res_ok J fins J' res"
  proof (cases "tv (fr J fins) < 0x80000000")
    case True
    then have b: "unat (tv (fr J fins)) < 2 ^ 31" by (simp add: word_less_nat_alt)
    then have u: "unat (ucast (tv (fr J fins)) :: u32) = unat (tv (fr J fins))" by (simp add: unsigned_ucast_eq take_bit_nat_eq_self)
    have e': "simplify_intmul_k J fins (ucast (tv (fr J fins))) = Some (J', res)" using e True by (simp add: fold_simplify_intmul_k64_def)
    show ?thesis by (rule mul_k_ok [OF J t o'(1) e' nz]) (use R(2) u b in auto)
  next
    case False
    then show ?thesis using e by (auto simp: fold_simplify_intmul_k64_def)
  qed
qed

lemma intmod_k_ok: "rule_ok fold_simplify_intmod_k (fkey2 IR_MOD None (Some IR_KINT))"
proof (rule rule_okI)
  fix rf J fins J' res
  assume J: "ok J" and t: "typed True J fins" and key: "key_of (fkey2 IR_MOD None (Some IR_KINT)) J fins"
    and e: "fold_simplify_intmod_k rf J fins = Some (J', res)" and nz: "0 < nk J'"
  have o': "opc fins = IR_MOD" "opc (fr J fins) = IR_KINT" using key by auto
  have w: "wt J (irt fins) (op1 fins)" using bin_wt [OF t] o' by auto
  have n64: "\<not> int64t (irt fins)" using kright(3) [OF J t o'(2)] o' by simp
  define k where "k = ik (fr J fins)"
  show "res_ok J fins J' res"
  proof (cases "0 <s k \<and> k AND (k - 1) = 0")
    case True
    then have nzk: "k \<noteq> 0" by auto
    have kn: "0 <=s k" using True by (simp add: word_sless_alt word_sle_eq)
    let ?n = "fls_nat (unat k)"
    note p = pow2_nat [OF nzk True [THEN conjunct2]]
    have "unat k < 2 ^ 31" using nonneg_unat [OF kn] by blast
    then have "(2 :: nat) ^ ?n < 2 ^ 31" using p(1) by metis
    then have n31: "?n < 31" by (rule power_less_imp_less_exp [rotated]) simp
    have k2: "k = 2 ^ ?n" by (rule pow2_word [OF nzk True [THEN conjunct2]])
    have "sint k = int (unat k)" using nonneg_unat [OF kn] by blast
    then have "sint k = int (2 ^ ?n)" using p(1) by metis
    then have sk: "sint k = 2 ^ ?n" by (simp only: of_nat_power of_nat_numeral)
    have e': "retry_kint J (fins\<lparr>opc := IR_BAND\<rparr>) (k - 1) = Some (J', res)"
      using e True by (simp add: fold_simplify_intmod_k_def Let_def k_def)
    show ?thesis
    proof (rule retry_kint_ok [OF J e' nz])
      fix J1 r assume kp: "keeps J J1" and r: "w32 J1 r"
      show "typed True J1 (fins\<lparr>opc := IR_BAND\<rparr>\<lparr>op2 := r\<rparr>)"
        by (rule typed_binI) (use typed_intt [OF t] keeps_wt(4) [OF kp w] r n64 in \<open>auto simp: wt_def\<close>)
    next
      fix r \<nu> assume a: "agrees J \<nu>" and r: "\<nu> r = sx (k - 1)"
      have "\<nu> (op2 fins) = sx k" using kright(2) [OF J t o'(2) _ a] o' by (simp add: k_def)
      then show "eval (fins\<lparr>opc := IR_BAND\<rparr>\<lparr>op2 := r\<rparr>) \<nu> = eval fins \<nu>"
        using r o' n64 mod_pow2_mask [OF n31, of "lo (\<nu> (op1 fins))"] sk k2 by (simp add: eval_def)
    qed (simp_all add: o' noguard_guard)
  next
    case False
    then show ?thesis using e by (auto simp: fold_simplify_intmod_k_def Let_def k_def)
  qed
qed

lemma intmod_kleft_ok: "rule_ok fold_simplify_intmod_kleft (fkey2 IR_MOD (Some IR_KINT) None)"
proof (rule rule_okI)
  fix rf J fins J' res
  assume J: "ok J" and t: "typed True J fins" and key: "key_of (fkey2 IR_MOD (Some IR_KINT) None) J fins"
    and e: "fold_simplify_intmod_kleft rf J fins = Some (J', res)"
  have o': "opc fins = IR_MOD" "opc (fl J fins) = IR_KINT" using key by auto
  have w: "wt J (irt fins) (op1 fins)" using bin_wt [OF t] o' by auto
  have n64: "\<not> int64t (irt fins)" by (rule wt_kint(1) [OF J w o'(2)])
  have "res_ok J fins J (KINTFOLD 0)" if z: "ik (fl J fins) = 0"
  proof (rule res_kint [OF J])
    fix \<nu> assume a: "agrees J \<nu>"
    have "\<nu> (op1 fins) = 0" using kint_val(1) [OF J a wt_kint(3) [OF J w] o'(2)] z by simp
    then show "eval fins \<nu> = sx 0" using o' n64 by (simp add: eval_def)
  qed (use o' n64 in auto)
  then show "res_ok J fins J' res" using e by (auto simp: fold_simplify_intmod_kleft_def split: if_splits)
qed

end
