(* ===== verification/FoldCancel.thy ===== *)
theory FoldCancel
  imports FoldArith
begin

text \<open>Soundness of the cancellation, duplication and commutativity rules and of the mask rules.\<close>

section \<open>The instruction behind an operand\<close>

lemma inner_val:
  assumes J: "ok J" and w: "wt J t r" and o': "opc (ir J r) = op" and f: "foldop op" "\<not> iscmp op" "op \<noteq> IR_SUB \<or> intt (irt (ir J (op1 (ir J r))))"
    and a: "agrees J \<nu>"
  shows "\<nu> r = (if int64t t then op64 op (irt_isi64 (irt (ir J r))) (\<nu> (op1 (ir J r))) (\<nu> (op2 (ir J r)))
                else sx (op32 op (lo (\<nu> (op1 (ir J r)))) (lo (\<nu> (op2 (ir J r))))))"
  using inner(2) [OF J w, unfolded o', OF f] inner(3) [OF J w, unfolded o', OF f a] o' by (simp add: eval_def)

lemma inner_add:
  assumes J: "ok J" and w: "wt J t r" and o': "opc (ir J r) = op" and f: "op = IR_ADD \<or> op = IR_SUB \<and> intt (irt (ir J (op1 (ir J r))))"
  shows "opr J t (op1 (ir J r))" and "opr J t (op2 (ir J r))"
    and "agrees J \<nu> \<Longrightarrow> \<nu> r = (if int64t t then op64 op True (\<nu> (op1 (ir J r))) (\<nu> (op2 (ir J r)))
                else sx (op32 op (lo (\<nu> (op1 (ir J r)))) (lo (\<nu> (op2 (ir J r))))))"
proof -
  have c: "foldop op" "\<not> iscmp op" "op \<noteq> IR_SUB \<or> intt (irt (ir J (op1 (ir J r))))" "addop op" using f by auto
  note inn = inner(1,2) [OF J w, unfolded o', OF c(1-3)]
  have "opr J (irt (ir J r)) (op1 (ir J r))" "opr J (irt (ir J r)) (op2 (ir J r))" using add_opr [OF inn(1)] o' c(4) by auto
  then show "opr J t (op1 (ir J r))" "opr J t (op2 (ir J r))" using inn(2) by (simp_all add: opr_def wt_def)
  show "agrees J \<nu> \<Longrightarrow> \<nu> r = (if int64t t then op64 op True (\<nu> (op1 (ir J r))) (\<nu> (op2 (ir J r)))
                else sx (op32 op (lo (\<nu> (op1 (ir J r)))) (lo (\<nu> (op2 (ir J r))))))"
    using inner_val [OF J w o' c(1-3)] f by auto
qed

lemma inner_bin:
  assumes J: "ok J" and w: "wt J t r" and o': "opc (ir J r) = op" and f: "binop op" "\<not> iscmp op"
  shows "wt J t (op1 (ir J r))" and "wt J t (op2 (ir J r))"
    and "agrees J \<nu> \<Longrightarrow> \<nu> r = (if int64t t then op64 op (irt_isi64 (irt (ir J r))) (\<nu> (op1 (ir J r))) (\<nu> (op2 (ir J r)))
                else sx (op32 op (lo (\<nu> (op1 (ir J r)))) (lo (\<nu> (op2 (ir J r))))))"
proof -
  have c: "foldop op" "op \<noteq> IR_SUB \<or> intt (irt (ir J (op1 (ir J r))))" using f by auto
  note inn = inner(1,2) [OF J w, unfolded o', OF c(1) f(2) c(2)]
  have "wt J (irt (ir J r)) (op1 (ir J r))" "wt J (irt (ir J r)) (op2 (ir J r))" using bin_wt [OF inn(1)] o' f(1) by auto
  then show "wt J t (op1 (ir J r))" "wt J t (op2 (ir J r))" using inn(2) by (simp_all add: wt_def)
  show "agrees J \<nu> \<Longrightarrow> \<nu> r = (if int64t t then op64 op (irt_isi64 (irt (ir J r))) (\<nu> (op1 (ir J r))) (\<nu> (op2 (ir J r)))
                else sx (op32 op (lo (\<nu> (op1 (ir J r)))) (lo (\<nu> (op2 (ir J r))))))"
    by (rule inner_val [OF J w o' c(1) f(2) c(2)])
qed

lemma opr_intt: "ok J \<Longrightarrow> opr J t r \<Longrightarrow> intt (irt (ir J r))"
  using k0_w32 [of J r] by (auto simp: opr_def wt_def w32_def w64_def intt_def split: if_splits)

lemma zero_fold_ok:
  assumes J: "ok J" and t: "typed True J fins" and n: "noguard (opc fins)" and z: "\<And>\<nu>. agrees J \<nu> \<Longrightarrow> eval fins \<nu> = 0"
    and e: "zero_fold J fins = (J', res)" and nz: "0 < nk J'"
  shows "res_ok J fins J' res"
proof (cases "int64t (irt fins)")
  case True
  have e': "INT64FOLD J 0 = (J', res)" using e True is64_int [OF t] by (simp add: zero_fold_def)
  show ?thesis by (rule res_kint64 [OF J True n z e' nz])
next
  case False
  then have "J' = J" "res = KINTFOLD 0" using e is64_int [OF t] by (auto simp: zero_fold_def)
  then show ?thesis using res_kint [OF J n, of 0] z by simp
qed

section \<open>Cancellation\<close>

lemma intsub_ok:
  assumes "op = IR_SUB \<or> op = IR_SUBOV"
  shows "rule_ok fold_simplify_intsub (fkey2 op None None)"
proof (rule rule_okI)
  fix rf J fins J' res
  assume J: "ok J" and t: "typed True J fins" and key: "key_of (fkey2 op None None) J fins"
    and e: "fold_simplify_intsub rf J fins = Some (J', res)" and nz: "0 < nk J'"
  have o': "opc fins = op" using key by auto
  have ev: "eval fins \<nu> = 0" "guard fins \<nu>" if "op1 fins = op2 fins" for \<nu>
    using that o' assms typedD(8) [OF t] int3264 noguard_guard [of fins] by (auto simp: eval_def in_i32_def)
  show "res_ok J fins J' res"
  proof (cases "op1 fins = op2 fins")
    case True
    have e': "zero_fold J fins = (J', res)" using e True notnum [OF t] by (simp add: fold_simplify_intsub_def)
    show ?thesis
    proof (cases "op = IR_SUB")
      case True
      then show ?thesis using zero_fold_ok [OF J t _ _ e' nz] o' ev \<open>op1 fins = op2 fins\<close> by simp
    next
      case False
      then have so: "op = IR_SUBOV" using assms by simp
      then have "\<not> int64t (irt fins)" using typedD(8) [OF t] o' int3264 by auto
      then have "J' = J" "res = KINTFOLD 0" using e' is64_int [OF t] by (auto simp: zero_fold_def)
      then show ?thesis using ev [OF \<open>op1 fins = op2 fins\<close>] o' so post_refl [OF J] by (simp add: res_ok_def)
    qed
  next
    case False
    then show ?thesis using e by (auto simp: fold_simplify_intsub_def)
  qed
qed

lemma leftcancel_ok: "rule_ok fold_simplify_intsubadd_leftcancel (fkey2 IR_SUB (Some IR_ADD) None)"
proof (rule rule_okI)
  fix rf J fins J' res
  assume J: "ok J" and t: "typed True J fins" and key: "key_of (fkey2 IR_SUB (Some IR_ADD) None) J fins"
    and e: "fold_simplify_intsubadd_leftcancel rf J fins = Some (J', res)"
  have o': "opc fins = IR_SUB" "opc (fl J fins) = IR_ADD" using key by auto
  have w: "wt J (irt fins) (op1 fins)" by (rule op1_wt [OF J t]) (simp add: o')
  note i = inner_add [OF J w o'(2)]
  have "res_ok J fins J (FREF (op2 (fl J fins)))" if "op2 fins = op1 (fl J fins)"
  proof (rule res_ref [OF J opr_ref [OF i(2)]])
    fix \<nu> assume a: "agrees J \<nu>"
    show "\<nu> (op2 (fl J fins)) = eval fins \<nu>" using i(3) [OF _ a] that o' opr_canon [OF J a i(2)] by (simp add: eval_def)
  qed (simp_all add: noguard_guard o')
  moreover have "res_ok J fins J (FREF (op1 (fl J fins)))" if "op2 fins = op2 (fl J fins)"
  proof (rule res_ref [OF J opr_ref [OF i(1)]])
    fix \<nu> assume a: "agrees J \<nu>"
    show "\<nu> (op1 (fl J fins)) = eval fins \<nu>" using i(3) [OF _ a] that o' opr_canon [OF J a i(1)] by (simp add: eval_def)
  qed (simp_all add: noguard_guard o')
  ultimately show "res_ok J fins J' res" using e by (auto simp: fold_simplify_intsubadd_leftcancel_def)
qed

lemma retry_neg_ok:
  assumes J: "ok J" and t: "typed True J fins" and o': "opc fins = IR_SUB" and e: "retry_neg J fins s = Some (J', res)" and nz: "0 < nk J'"
    and s: "opr J (irt fins) s" and v: "\<And>\<nu>. agrees J \<nu> \<Longrightarrow> eval fins \<nu> = (if int64t (irt fins) then - \<nu> s else sx (- lo (\<nu> s)))"
  shows "res_ok J fins J' res"
proof -
  obtain r where r: "lj_ir_kint J 0 = (J', r)" "res = RETRYFOLD (fins\<lparr>op1 := r, op2 := s\<rparr>)" using e by (auto simp: retry_neg_def split: prod.splits)
  note m = kint_ok [OF J r(1) nz]
  have J': "ok J'" and kp: "keeps J J'" using postD(1,2) [OF m(1)] .
  have k: "opr J' (irt fins) r" using m kint_type by (auto simp: opr_def wt_def w32_def k0_def)
  show ?thesis unfolding r(2)
  proof (rule post_retry [OF m(1)])
    show "typed True J' (fins\<lparr>op1 := r, op2 := s\<rparr>)" by (rule typed_addI) (use o' k opr_keeps [OF kp s] typed_intt [OF t] in auto)
    fix \<nu> assume a: "agrees J' \<nu>"
    have "\<nu> r = 0" using kint_val(1) [OF J' a m(2,3)] m(4) by simp
    then show "eval (fins\<lparr>op1 := r, op2 := s\<rparr>) \<nu> = eval fins \<nu>" using v [OF postD(3) [OF m(1) a]] o' by (simp add: eval_def)
  next
    show "mask_free J \<Longrightarrow> mask_free J'" by (rule mask_free_const [OF J kp m(6)]) (simp_all add: m(3))
  qed (simp_all add: o' noguard_guard)
qed

lemma intsubsub_leftcancel_ok: "rule_ok fold_simplify_intsubsub_leftcancel (fkey2 IR_SUB (Some IR_SUB) None)"
proof (rule rule_okI)
  fix rf J fins J' res
  assume J: "ok J" and t: "typed True J fins" and key: "key_of (fkey2 IR_SUB (Some IR_SUB) None) J fins"
    and e: "fold_simplify_intsubsub_leftcancel rf J fins = Some (J', res)" and nz: "0 < nk J'"
  have o': "opc fins = IR_SUB" "opc (fl J fins) = IR_SUB" using key by auto
  have w: "wt J (irt fins) (op1 fins)" by (rule op1_wt [OF J t]) (simp add: o')
  show "res_ok J fins J' res"
  proof (cases "\<not> irt_isphi (irt (fl J fins)) \<and> op2 fins = op1 (fl J fins)")
    case True
    have "intt (irt (ir J (op1 (fl J fins))))" using opr_intt [OF J add_opr(2) [OF t]] o' True by simp
    note i = inner_add [OF J w o'(2)] this
    have e': "retry_neg J fins (op2 (fl J fins)) = Some (J', res)" using e True notnum [OF t] by (simp add: fold_simplify_intsubsub_leftcancel_def)
    show ?thesis
    proof (rule retry_neg_ok [OF J t o'(1) e' nz])
      show "opr J (irt fins) (op2 (fl J fins))" using i(2,4) by simp
      fix \<nu> assume a: "agrees J \<nu>"
      show "eval fins \<nu> = (if int64t (irt fins) then - \<nu> (op2 (fl J fins)) else sx (- lo (\<nu> (op2 (fl J fins)))))"
        using i(3) [OF _ a] i(4) True o' by (simp add: eval_def)
    qed
  next
    case False
    then show ?thesis using e by (auto simp: fold_simplify_intsubsub_leftcancel_def split: if_splits)
  qed
qed

lemma intsubsub_rightcancel_ok: "rule_ok fold_simplify_intsubsub_rightcancel (fkey2 IR_SUB None (Some IR_SUB))"
proof (rule rule_okI)
  fix rf J fins J' res
  assume J: "ok J" and t: "typed True J fins" and key: "key_of (fkey2 IR_SUB None (Some IR_SUB)) J fins"
    and e: "fold_simplify_intsubsub_rightcancel rf J fins = Some (J', res)"
  have o': "opc fins = IR_SUB" "opc (fr J fins) = IR_SUB" using key by auto
  have w: "wt J (irt fins) (op2 fins)" by (rule op2_wt [OF J t]) (simp_all add: o')
  have "res_ok J fins J (FREF (op2 (fr J fins)))" if eq: "op1 fins = op1 (fr J fins)"
  proof -
    have "intt (irt (ir J (op1 (fr J fins))))" using opr_intt [OF J add_opr(1) [OF t]] o' eq by simp
    note i = inner_add [OF J w o'(2)] this
    have s: "opr J (irt fins) (op2 (fr J fins))" using i(2,4) by simp
    show ?thesis
    proof (rule res_ref [OF J opr_ref [OF s]])
      fix \<nu> assume a: "agrees J \<nu>"
      show "\<nu> (op2 (fr J fins)) = eval fins \<nu>" using i(3) [OF _ a] i(4) eq o' opr_canon [OF J a s] by (simp add: eval_def)
    qed (simp_all add: noguard_guard o')
  qed
  then show "res_ok J fins J' res" using e by (auto simp: fold_simplify_intsubsub_rightcancel_def)
qed

lemma intsubadd_rightcancel_ok: "rule_ok fold_simplify_intsubadd_rightcancel (fkey2 IR_SUB None (Some IR_ADD))"
proof (rule rule_okI)
  fix rf J fins J' res
  assume J: "ok J" and t: "typed True J fins" and key: "key_of (fkey2 IR_SUB None (Some IR_ADD)) J fins"
    and e: "fold_simplify_intsubadd_rightcancel rf J fins = Some (J', res)" and nz: "0 < nk J'"
  have o': "opc fins = IR_SUB" "opc (fr J fins) = IR_ADD" using key by auto
  have w: "wt J (irt fins) (op2 fins)" by (rule op2_wt [OF J t]) (simp_all add: o')
  note i = inner_add [OF J w o'(2)]
  have c: "res_ok J fins J' res" if "retry_neg J fins s = Some (J', res)" "s = op1 (fr J fins) \<and> op1 fins = op2 (fr J fins) \<or> s = op2 (fr J fins) \<and> op1 fins = op1 (fr J fins)" for s
  proof (rule retry_neg_ok [OF J t o'(1) that(1) nz])
    show "opr J (irt fins) s" using that(2) i(1,2) by auto
    fix \<nu> assume a: "agrees J \<nu>"
    show "eval fins \<nu> = (if int64t (irt fins) then - \<nu> s else sx (- lo (\<nu> s)))" using i(3) [OF _ a] that(2) o' by (auto simp: eval_def)
  qed
  show "res_ok J fins J' res"
    using e c by (auto simp: fold_simplify_intsubadd_rightcancel_def split: if_splits)
qed

lemma intsubaddadd_cancel_ok: "rule_ok fold_simplify_intsubaddadd_cancel (fkey2 IR_SUB (Some IR_ADD) (Some IR_ADD))"
proof (rule rule_okI)
  fix rf J fins J' res
  assume J: "ok J" and t: "typed True J fins" and key: "key_of (fkey2 IR_SUB (Some IR_ADD) (Some IR_ADD)) J fins"
    and e: "fold_simplify_intsubaddadd_cancel rf J fins = Some (J', res)"
  have o': "opc fins = IR_SUB" "opc (fl J fins) = IR_ADD" "opc (fr J fins) = IR_ADD" using key by auto
  have wl: "wt J (irt fins) (op1 fins)" by (rule op1_wt [OF J t]) (simp add: o')
  have wr: "wt J (irt fins) (op2 fins)" by (rule op2_wt [OF J t]) (simp_all add: o')
  note l = inner_add [OF J wl o'(2)] and r = inner_add [OF J wr o'(3)]
  have c: "res_ok J fins J (RETRYFOLD (fins\<lparr>op1 := a, op2 := b\<rparr>))"
    if ab: "opr J (irt fins) a" "opr J (irt fins) b"
      and v: "\<And>\<nu>. agrees J \<nu> \<Longrightarrow> if int64t (irt fins) then \<nu> (op1 fins) - \<nu> (op2 fins) = \<nu> a - \<nu> b
        else lo (\<nu> (op1 fins)) - lo (\<nu> (op2 fins)) = lo (\<nu> a) - lo (\<nu> b)" for a b
  proof (rule res_retry [OF J])
    show "typed True J (fins\<lparr>op1 := a, op2 := b\<rparr>)" by (rule typed_addI) (use ab o' typed_intt [OF t] in auto)
    fix \<nu> assume a: "agrees J \<nu>"
    show "eval (fins\<lparr>op1 := a, op2 := b\<rparr>) \<nu> = eval fins \<nu>" using v [OF a] o' by (simp add: eval_def split: if_splits)
  qed (simp_all add: o' noguard_guard)
  have lv: "\<nu> (op1 fins) = \<nu> (op1 (fl J fins)) + \<nu> (op2 (fl J fins))" "\<nu> (op2 fins) = \<nu> (op1 (fr J fins)) + \<nu> (op2 (fr J fins))"
    if "agrees J \<nu>" "int64t (irt fins)" for \<nu> using l(3) [OF _ that(1)] r(3) [OF _ that(1)] that(2) by simp_all
  have sv: "lo (\<nu> (op1 fins)) = lo (\<nu> (op1 (fl J fins))) + lo (\<nu> (op2 (fl J fins)))" "lo (\<nu> (op2 fins)) = lo (\<nu> (op1 (fr J fins))) + lo (\<nu> (op2 (fr J fins)))"
    if "agrees J \<nu>" "\<not> int64t (irt fins)" for \<nu> using l(3) [OF _ that(1)] r(3) [OF _ that(1)] that(2) by simp_all
  have "op1 (fl J fins) = op1 (fr J fins) \<Longrightarrow> res_ok J fins J (RETRYFOLD (fins\<lparr>op1 := op2 (fl J fins), op2 := op2 (fr J fins)\<rparr>))"
    "op1 (fl J fins) = op2 (fr J fins) \<Longrightarrow> res_ok J fins J (RETRYFOLD (fins\<lparr>op1 := op2 (fl J fins), op2 := op1 (fr J fins)\<rparr>))"
    "op2 (fl J fins) = op1 (fr J fins) \<Longrightarrow> res_ok J fins J (RETRYFOLD (fins\<lparr>op1 := op1 (fl J fins), op2 := op2 (fr J fins)\<rparr>))"
    "op2 (fl J fins) = op2 (fr J fins) \<Longrightarrow> res_ok J fins J (RETRYFOLD (fins\<lparr>op1 := op1 (fl J fins), op2 := op1 (fr J fins)\<rparr>))"
    by (rule c; use l(1,2) r(1,2) in \<open>simp add: lv sv\<close>)+
  then show "res_ok J fins J' res" using e by (auto simp: fold_simplify_intsubaddadd_cancel_def Let_def split: if_splits)
qed

section \<open>Masks\<close>

lemma kval_cases:
  assumes J: "ok J" and t: "typed True J fins" and k: "opc (fr J fins) = IR_KINT \<or> opc (fr J fins) = IR_KINT64" and b: "binop (opc fins)"
    and a: "agrees J \<nu>" and v: "kval (fr J fins) = c"
  shows "\<nu> (op2 fins) = c"
  using kval_right [OF J t k b a] v by simp

lemma mask_k_ok:
  assumes k: "k = IR_KINT \<or> k = IR_KINT64"
  shows "rule_ok fold_simplify_band_k (fkey2 IR_BAND None (Some k))" and "rule_ok fold_simplify_bor_k (fkey2 IR_BOR None (Some k))"
    and "rule_ok fold_simplify_bxor_k (fkey2 IR_BXOR None (Some k))"
proof -
  have ref: "res_ok J fins J (FREF r)" if "ok J" "wt J (irt fins) r" "noguard (opc fins)" "\<And>\<nu>. agrees J \<nu> \<Longrightarrow> \<nu> r = eval fins \<nu>" for J fins r
    using that res_ref [of J fins r] noguard_guard by blast
  show "rule_ok fold_simplify_band_k (fkey2 IR_BAND None (Some k))"
  proof (rule rule_okI)
    fix rf J fins J' res
    assume J: "ok J" and t: "typed True J fins" and key: "key_of (fkey2 IR_BAND None (Some k)) J fins"
      and e: "fold_simplify_band_k rf J fins = Some (J', res)"
    have o': "opc fins = IR_BAND" "opc (fr J fins) = k" using key by auto
    have w: "wt J (irt fins) (op1 fins)" "wt J (irt fins) (op2 fins)" using bin_wt [OF t] o' by auto
    have v: "kval (fr J fins) = c \<Longrightarrow> \<nu> (op2 fins) = c" if "agrees J \<nu>" for \<nu> c using kval_cases [OF J t _ _ that] k o' by simp
    have "kval (fr J fins) = 0 \<Longrightarrow> res_ok J fins J (FREF (op2 fins))" 
    proof (rule ref [OF J w(2)])
      fix \<nu> assume z: "kval (fr J fins) = 0" and a: "agrees J \<nu>"
      show "\<nu> (op2 fins) = eval fins \<nu>" using v [OF a z] o' by (simp add: eval_def)
    qed (simp_all add: o')
    moreover have "kval (fr J fins) = - 1 \<Longrightarrow> res_ok J fins J (FREF (op1 fins))"
    proof (rule ref [OF J w(1)])
      fix \<nu> assume z: "kval (fr J fins) = - 1" and a: "agrees J \<nu>"
      show "\<nu> (op1 fins) = eval fins \<nu>" using v [OF a z] o' canon [OF J a w(1)] by (simp add: eval_def)
    qed (simp_all add: o')
    ultimately show "res_ok J fins J' res" using e by (auto simp: fold_simplify_band_k_def Let_def LEFTFOLD_def RIGHTFOLD_def split: if_splits)
  qed
  show "rule_ok fold_simplify_bor_k (fkey2 IR_BOR None (Some k))"
  proof (rule rule_okI)
    fix rf J fins J' res
    assume J: "ok J" and t: "typed True J fins" and key: "key_of (fkey2 IR_BOR None (Some k)) J fins"
      and e: "fold_simplify_bor_k rf J fins = Some (J', res)"
    have o': "opc fins = IR_BOR" "opc (fr J fins) = k" using key by auto
    have w: "wt J (irt fins) (op1 fins)" "wt J (irt fins) (op2 fins)" using bin_wt [OF t] o' by auto
    have v: "kval (fr J fins) = c \<Longrightarrow> \<nu> (op2 fins) = c" if "agrees J \<nu>" for \<nu> c using kval_cases [OF J t _ _ that] k o' by simp
    have "kval (fr J fins) = - 1 \<Longrightarrow> res_ok J fins J (FREF (op2 fins))" 
    proof (rule ref [OF J w(2)])
      fix \<nu> assume z: "kval (fr J fins) = - 1" and a: "agrees J \<nu>"
      show "\<nu> (op2 fins) = eval fins \<nu>" using v [OF a z] o' by (simp add: eval_def)
    qed (simp_all add: o')
    moreover have "kval (fr J fins) = 0 \<Longrightarrow> res_ok J fins J (FREF (op1 fins))"
    proof (rule ref [OF J w(1)])
      fix \<nu> assume z: "kval (fr J fins) = 0" and a: "agrees J \<nu>"
      show "\<nu> (op1 fins) = eval fins \<nu>" using v [OF a z] o' canon [OF J a w(1)] by (simp add: eval_def)
    qed (simp_all add: o')
    ultimately show "res_ok J fins J' res" using e by (auto simp: fold_simplify_bor_k_def Let_def LEFTFOLD_def RIGHTFOLD_def split: if_splits)
  qed
  show "rule_ok fold_simplify_bxor_k (fkey2 IR_BXOR None (Some k))"
  proof (rule rule_okI)
    fix rf J fins J' res
    assume J: "ok J" and t: "typed True J fins" and key: "key_of (fkey2 IR_BXOR None (Some k)) J fins"
      and e: "fold_simplify_bxor_k rf J fins = Some (J', res)"
    have o': "opc fins = IR_BXOR" "opc (fr J fins) = k" using key by auto
    have w: "wt J (irt fins) (op1 fins)" "wt J (irt fins) (op2 fins)" using bin_wt [OF t] o' by auto
    have v: "kval (fr J fins) = c \<Longrightarrow> \<nu> (op2 fins) = c" if "agrees J \<nu>" for \<nu> c using kval_cases [OF J t _ _ that] k o' by simp
    have "kval (fr J fins) = 0 \<Longrightarrow> res_ok J fins J (FREF (op1 fins))"
    proof (rule ref [OF J w(1)])
      fix \<nu> assume z: "kval (fr J fins) = 0" and a: "agrees J \<nu>"
      show "\<nu> (op1 fins) = eval fins \<nu>" using v [OF a z] o' canon [OF J a w(1)] by (simp add: eval_def)
    qed (simp_all add: o')
    moreover have "res_ok J fins J (RETRYFOLD (fins\<lparr>opc := IR_BNOT, op2 := 0\<rparr>))" if m: "kval (fr J fins) = - 1"
    proof (rule res_retry [OF J])
      show "typed True J (fins\<lparr>opc := IR_BNOT, op2 := 0\<rparr>)" by (rule typed_unI) (use w typed_intt [OF t] in auto)
      fix \<nu> assume a: "agrees J \<nu>"
      show "eval (fins\<lparr>opc := IR_BNOT, op2 := 0\<rparr>) \<nu> = eval fins \<nu>" using v [OF a m] o' by (simp add: eval_def)
    qed (simp_all add: o' noguard_guard)
    ultimately show "res_ok J fins J' res" using e by (auto simp: fold_simplify_bxor_k_def Let_def LEFTFOLD_def split: if_splits)
  qed
qed

end
