(* ===== verification/FoldReassoc.thy ===== *)
theory FoldReassoc
  imports FoldCancel
begin

text \<open>Soundness of the reassociation rules without shifts, of the mask rules with an inner constant and
  of the commutativity rules.\<close>

section \<open>The constant inside the left operand\<close>

text \<open>The left operand is \<open>i o k1\<close> with a constant \<open>k1\<close> and the right operand the constant \<open>k2\<close>.\<close>

lemma sint_minmax:
  "sint (word_of_int (min (sint (a :: u32)) (sint (b :: u32))) :: u32) = min (sint a) (sint b)"
  "sint (word_of_int (max (sint a) (sint b)) :: u32) = max (sint a) (sint b)"
proof -
  have "(word_of_int (min (sint a) (sint b)) :: u32) = (if a <s b then a else b)" by (rule wmin [symmetric])
  then show "sint (word_of_int (min (sint a) (sint b)) :: u32) = min (sint a) (sint b)" by (simp add: word_sless_alt)
  have "(word_of_int (max (sint a) (sint b)) :: u32) = (if b <s a then a else b)" by (rule wmax [symmetric])
  then show "sint (word_of_int (max (sint a) (sint b)) :: u32) = max (sint a) (sint b)" by (simp add: word_sless_alt)
qed

lemma op32_assoc:
  assumes "op = IR_ADD \<or> op = IR_MUL \<or> op = IR_BAND \<or> op = IR_BOR \<or> op = IR_BXOR \<or> op = IR_MIN \<or> op = IR_MAX"
  shows "op32 op (op32 op a b) c = op32 op a (op32 op b c)"
  using assms by (elim disjE) (simp_all add: ac_simps sint_minmax)

lemma op64_assoc:
  assumes "op = IR_ADD \<or> op = IR_MUL \<or> op = IR_BAND \<or> op = IR_BOR \<or> op = IR_BXOR"
  shows "op64 op s (op64 op s' a b) c = op64 op s a (op64 op s b c)"
  using assms by (elim disjE) (simp_all add: ac_simps)

lemma reassoc_k_ok:
  assumes op: "op = IR_ADD \<or> op = IR_MUL \<or> op = IR_BAND \<or> op = IR_BOR \<or> op = IR_BXOR"
  shows "rule_ok fold_reassoc_intarith_k (fkey2 op (Some op) (Some IR_KINT))"
proof (rule rule_okI)
  fix rf J fins J' res
  assume J: "ok J" and t: "typed True J fins" and key: "key_of (fkey2 op (Some op) (Some IR_KINT)) J fins"
    and e: "fold_reassoc_intarith_k rf J fins = Some (J', res)" and nz: "0 < nk J'"
  have cl: "\<not> unop op" "noguard op" "kop32 op" "op \<noteq> IR_MOD" "\<not> shiftop op" "op \<noteq> IR_KINT" "foldop op" "op \<noteq> IR_SUB" "\<not> iscmp op" "\<not> divop op" "\<not> op32only op"
    using op by (auto simp: kop32_def)
  have o': "opc fins = op" "opc (fl J fins) = op" "opc (fr J fins) = IR_KINT" using key cl by auto
  have w: "wt J (irt fins) (op1 fins)" by (rule op1_wt [OF J t]) (use o' cl in simp)
  have c: "binop op \<or> op = IR_ADD" using op by auto
  let ?l = "fl J fins"
  have il: "opr J (irt fins) (op1 ?l)" "opr J (irt fins) (op2 ?l)" "op \<noteq> IR_ADD \<Longrightarrow> wt J (irt fins) (op1 ?l)"
    using inner_add(1,2) [OF J w o'(2)] inner_bin(1,2) [OF J w o'(2) _ cl(9)] c by (auto intro: wt_opr)
  note lv = inner_val [OF J w o'(2) cl(7,9)]
  have kr: "\<nu> (op2 fins) = sx (ik (fr J fins))" if "agrees J \<nu>" for \<nu> using kright(2) [OF J t o'(3) _ that] o' cl by simp
  have k64: "op = IR_ADD \<and> ik (fr J fins) = 0" if "int64t (irt fins)" using kright(3,4) [OF J t o'(3)] o' cl c that by auto
  show "res_ok J fins J' res"
  proof (cases "opc (ir J (op2 ?l)) = IR_KINT")
    case False
    then show ?thesis using e by (simp add: fold_reassoc_intarith_k_def Let_def)
  next
    case True
    let ?k1 = "ik (ir J (op2 ?l))" and ?k2 = "ik (fr J fins)"
    have v2: "vref J (op2 ?l)" using il(2) by (auto simp: opr_def wt_def w32_def w64_def k0_def split: if_splits)
    have k1v: "\<nu> (op2 ?l) = sx ?k1" if "agrees J \<nu>" for \<nu> using kint_val(1) [OF J that v2 True] .
    have k1z: "?k1 = 0" if "int64t (irt fins)" using il(2) wt_kint(1) [OF J _ True] that by (auto simp: opr_def k0_def)
    have kk: "kfold_intop ?k1 ?k2 op = op32 op ?k1 ?k2" using kfold_intop_op32 [OF cl(3)] cl(4) by simp
    have ev: "eval fins \<nu> = (if int64t (irt fins) then \<nu> (op1 ?l) else sx (op32 op (lo (\<nu> (op1 ?l))) (op32 op ?k1 ?k2)))" if a: "agrees J \<nu>" for \<nu>
    proof (cases "int64t (irt fins)")
      case True
      then show ?thesis using lv [OF _ a] k64 [OF True] k1z [OF True] k1v [OF a] kr [OF a] o' by (simp add: eval_def)
    next
      case False
      then show ?thesis using lv [OF _ a] k1v [OF a] kr [OF a] o' cl op32_assoc [of op "lo (\<nu> (op1 ?l))" ?k1 ?k2] op by (auto simp: eval_def)
    qed
    show ?thesis
    proof (cases "kfold_intop ?k1 ?k2 op = ?k1")
      case kk1: True
      have "res_ok J fins J (FREF (op1 fins))"
      proof (rule res_ref [OF J])
        fix \<nu> assume a: "agrees J \<nu>"
        show "\<nu> (op1 fins) = eval fins \<nu>"
          using ev [OF a] lv [OF _ a] kk1 kk k1v [OF a] k1z k64 cl by (cases "int64t (irt fins)") auto
      qed (use w o' cl noguard_guard in auto)
      then show ?thesis using e True kk1 o' by (auto simp: fold_reassoc_intarith_k_def LEFTFOLD_def Let_def)
    next
      case kk1: False
      then have n64: "\<not> int64t (irt fins)" using k1z k64 kk by (auto simp: op32_def)
      show ?thesis
      proof (cases "irt_isphi (irt ?l)")
        case ph: True
        then show ?thesis using e True kk1 o' by (auto simp: fold_reassoc_intarith_k_def Let_def)
      next
        case ph: False
        have e': "retry_kint J (fins\<lparr>op1 := op1 ?l\<rparr>) (op32 op ?k1 ?k2) = Some (J', res)"
          using e True kk1 ph kk o' by (simp add: fold_reassoc_intarith_k_def Let_def)
        show ?thesis
        proof (rule retry_kint_ok [OF J e' nz])
          fix J1 r assume kp: "keeps J J1" and r: "w32 J1 r"
          have "opr J1 (irt fins) r" using r n64 by (simp add: opr_def wt_def)
          then show "typed True J1 (fins\<lparr>op1 := op1 ?l\<rparr>\<lparr>op2 := r\<rparr>)"
            using op typed_addI [of "fins\<lparr>op1 := op1 ?l\<rparr>\<lparr>op2 := r\<rparr>" J1] typed_binI [of "fins\<lparr>op1 := op1 ?l\<rparr>\<lparr>op2 := r\<rparr>" J1 True]
              o' typed_intt [OF t] opr_keeps [OF kp il(1)] keeps_wt(4) [OF kp il(3)] r n64 cl by (auto simp: wt_def)
        next
          fix r \<nu> assume a: "agrees J \<nu>" and r: "\<nu> r = sx (op32 op ?k1 ?k2)"
          show "eval (fins\<lparr>op1 := op1 ?l\<rparr>\<lparr>op2 := r\<rparr>) \<nu> = eval fins \<nu>" unfolding ev [OF a] using r o' n64 by (simp add: eval_def)
        qed (use o' cl in \<open>simp_all add: noguard_guard\<close>)
      qed
    qed
  qed
qed

lemma inner_k64:
  assumes J: "ok J" and w: "opr J t r" and k: "opc (ir J r) = IR_KINT64" and a: "agrees J \<nu>"
  shows "\<nu> r = tv (ir J r)"
  using kint_val(2) [OF J a wt_kint(3) [OF J opr_strict [OF w]]] k by simp

lemma reassoc_k64_ok:
  assumes op: "op = IR_ADD \<or> op = IR_MUL \<or> op = IR_BAND \<or> op = IR_BOR \<or> op = IR_BXOR"
  shows "rule_ok fold_reassoc_intarith_k64 (fkey2 op (Some op) (Some IR_KINT64))"
proof (rule rule_okI)
  fix rf J fins J' res
  assume J: "ok J" and t: "typed True J fins" and key: "key_of (fkey2 op (Some op) (Some IR_KINT64)) J fins"
    and e: "fold_reassoc_intarith_k64 rf J fins = Some (J', res)" and nz: "0 < nk J'"
  have cl: "\<not> unop op" "noguard op" "kop64 op" "\<not> shiftop op" "op \<noteq> IR_KINT" "foldop op" "op \<noteq> IR_SUB" "\<not> iscmp op" "\<not> divop op" "\<not> op32only op"
    using op by (auto simp: kop64_def)
  have o': "opc fins = op" "opc (fl J fins) = op" "opc (fr J fins) = IR_KINT64" using key cl by auto
  have sh: "\<not> shiftop (opc fins)" "\<not> unop (opc fins)" using o' cl by simp_all
  note R = k64_right [OF J t o'(3) sh]
  have w: "wt J (irt fins) (op1 fins)" by (rule op1_wt [OF J t]) (use o' cl in simp)
  have c: "binop op \<or> op = IR_ADD" using op by auto
  let ?l = "fl J fins"
  have il: "opr J (irt fins) (op1 ?l)" "opr J (irt fins) (op2 ?l)" "op \<noteq> IR_ADD \<Longrightarrow> wt J (irt fins) (op1 ?l)"
    using inner_add(1,2) [OF J w o'(2)] inner_bin(1,2) [OF J w o'(2) _ cl(8)] c by (auto intro: wt_opr)
  note lv = inner_val [OF J w o'(2) cl(6,8)]
  show "res_ok J fins J' res"
  proof (cases "opc (ir J (op2 ?l)) = IR_KINT64 \<and> \<not> irt_isphi (irt ?l)")
    case False
    then show ?thesis using e by (auto simp: fold_reassoc_intarith_k64_def Let_def split: if_splits)
  next
    case True
    let ?k1 = "tv (ir J (op2 ?l))" and ?k2 = "tv (fr J fins)" and ?s = "irt_isi64 (irt fins)"
    have e': "retry_kint64 J (fins\<lparr>op1 := op1 ?l\<rparr>) (op64 op ?s ?k1 ?k2) = Some (J', res)"
      using e True o' kfold_int64arith_op64 [OF cl(3)] by (simp add: fold_reassoc_intarith_k64_def Let_def)
    show ?thesis
    proof (rule retry_kint64_ok [OF J e' nz])
      fix J1 r assume kp: "keeps J J1" and r: "w64 J1 r"
      have "opr J1 (irt fins) r" using r R(1) by (simp add: opr_def wt_def)
      then show "typed True J1 (fins\<lparr>op1 := op1 ?l\<rparr>\<lparr>op2 := r\<rparr>)"
        using op typed_addI [of "fins\<lparr>op1 := op1 ?l\<rparr>\<lparr>op2 := r\<rparr>" J1] typed_binI [of "fins\<lparr>op1 := op1 ?l\<rparr>\<lparr>op2 := r\<rparr>" J1 True]
          o' typed_intt [OF t] opr_keeps [OF kp il(1)] keeps_wt(4) [OF kp il(3)] r R(1) cl by (auto simp: wt_def)
    next
      fix r \<nu> assume a: "agrees J \<nu>" and r: "\<nu> r = op64 op ?s ?k1 ?k2"
      have "\<nu> (op2 ?l) = ?k1" by (rule inner_k64 [OF J il(2) _ a]) (use True in simp)
      then show "eval (fins\<lparr>op1 := op1 ?l\<rparr>\<lparr>op2 := r\<rparr>) \<nu> = eval fins \<nu>"
        using lv [OF _ a] cl R(1) R(2) [OF a] r o' op64_assoc [OF op] by (simp add: eval_def)
    qed (use o' cl in \<open>simp_all add: noguard_guard\<close>)
  qed
qed

section \<open>Masks with an inner constant\<close>

lemma andor_word:
  "k1 AND k2 = 0 \<Longrightarrow> (a OR k1) AND k2 = (a :: 'a::len word) AND k2" "k1 OR k2 = - 1 \<Longrightarrow> (a AND k1) OR k2 = (a :: 'a::len word) OR k2"
  by (simp_all add: bit.conj_disj_distrib2 bit.disj_conj_distrib2)

lemma kfold_and_or: "kfold_intop a b IR_BAND = a AND b" "kfold_intop a b IR_BOR = a OR b"
  "kfold_int64arith c d IR_BAND = c AND d" "kfold_int64arith c d IR_BOR = c OR d"
  using kfold_intop_op32 [of IR_BAND b a] kfold_intop_op32 [of IR_BOR b a] kfold_int64arith_op64 [of IR_BAND c d True]
    kfold_int64arith_op64 [of IR_BOR c d True]
  by (simp_all add: kop32_def kop64_def)

lemma andor_k_ok:
  assumes op: "op = IR_BAND \<and> op' = IR_BOR \<or> op = IR_BOR \<and> op' = IR_BAND"
  shows "rule_ok fold_simplify_andor_k (fkey2 op (Some op') (Some IR_KINT))"
proof (rule rule_okI)
  fix rf J fins J' res
  assume J: "ok J" and t: "typed True J fins" and key: "key_of (fkey2 op (Some op') (Some IR_KINT)) J fins"
    and e: "fold_simplify_andor_k rf J fins = Some (J', res)"
  have o': "opc fins = op" "opc (fl J fins) = op'" "opc (fr J fins) = IR_KINT" using key op by auto
  have w: "wt J (irt fins) (op1 fins)" "wt J (irt fins) (op2 fins)" using bin_wt [OF t] o' op by auto
  have n64: "\<not> int64t (irt fins)" by (rule wt_kint(1) [OF J w(2) o'(3)])
  let ?l = "fl J fins" and ?f = "fins\<lparr>op1 := op1 (fl J fins)\<rparr>"
  have cl: "binop op'" "\<not> iscmp op'" using op by auto
  note i = inner_bin [OF J w(1) o'(2) cl]
  have "res_ok J fins J (RETRYFOLD ?f)" if k: "opc (ir J (op2 ?l)) = IR_KINT"
    and kk: "kfold_intop (ik (ir J (op2 ?l))) (ik (fr J fins)) op = (if op = IR_BAND then 0 else - 1)"
  proof (rule res_retry [OF J])
    show "typed True J ?f" by (rule typed_binI) (use op o' i(1) w typed_intt [OF t] in auto)
    fix \<nu> assume a: "agrees J \<nu>"
    have "\<nu> (op2 ?l) = sx (ik (ir J (op2 ?l)))" "\<nu> (op2 fins) = sx (ik (fr J fins))"
      using kint_val(1) [OF J a wt_kint(3) [OF J i(2)] k] kint_val(1) [OF J a wt_kint(3) [OF J w(2)] o'(3)] .
    then show "eval ?f \<nu> = eval fins \<nu>" using op kk i(3) [OF a] o' n64
      by (auto simp: eval_def kfold_and_or andor_word)
  qed (use o' op in \<open>auto simp: noguard_guard\<close>)
  then show "res_ok J fins J' res" using e o' by (auto simp: fold_simplify_andor_k_def Let_def split: if_splits)
qed

lemma andor_k64_ok:
  assumes op: "op = IR_BAND \<and> op' = IR_BOR \<or> op = IR_BOR \<and> op' = IR_BAND"
  shows "rule_ok fold_simplify_andor_k64 (fkey2 op (Some op') (Some IR_KINT64))"
proof (rule rule_okI)
  fix rf J fins J' res
  assume J: "ok J" and t: "typed True J fins" and key: "key_of (fkey2 op (Some op') (Some IR_KINT64)) J fins"
    and e: "fold_simplify_andor_k64 rf J fins = Some (J', res)"
  have o': "opc fins = op" "opc (fl J fins) = op'" "opc (fr J fins) = IR_KINT64" using key op by auto
  have w: "wt J (irt fins) (op1 fins)" "wt J (irt fins) (op2 fins)" using bin_wt [OF t] o' op by auto
  have n64: "int64t (irt fins)" by (rule wt_kint(2) [OF J w(2) o'(3)])
  let ?l = "fl J fins" and ?f = "fins\<lparr>op1 := op1 (fl J fins)\<rparr>"
  have cl: "binop op'" "\<not> iscmp op'" using op by auto
  note i = inner_bin [OF J w(1) o'(2) cl]
  have "res_ok J fins J (RETRYFOLD ?f)" if k: "opc (ir J (op2 ?l)) = IR_KINT64"
    and kk: "kfold_int64arith (tv (ir J (op2 ?l))) (tv (fr J fins)) op = (if op = IR_BAND then 0 else - 1)"
  proof (rule res_retry [OF J])
    show "typed True J ?f" by (rule typed_binI) (use op o' i(1) w typed_intt [OF t] in auto)
    fix \<nu> assume a: "agrees J \<nu>"
    have "\<nu> (op2 ?l) = tv (ir J (op2 ?l))" "\<nu> (op2 fins) = tv (fr J fins)"
      using kint_val(2) [OF J a wt_kint(3) [OF J i(2)] k] kint_val(2) [OF J a wt_kint(3) [OF J w(2)] o'(3)] .
    then show "eval ?f \<nu> = eval fins \<nu>" using op kk i(3) [OF a] o' n64
      by (auto simp: eval_def kfold_and_or andor_word)
  qed (use o' op in \<open>auto simp: noguard_guard\<close>)
  then show "res_ok J fins J' res" using e o' by (auto simp: fold_simplify_andor_k64_def Let_def split: if_splits)
qed

section \<open>Duplicates\<close>

lemma reassoc_dup_ok:
  assumes op: "op = IR_BAND \<or> op = IR_BOR"
  shows "rule_ok fold_reassoc_dup (fkey2 op (Some op) None)"
proof (rule rule_okI)
  fix rf J fins J' res
  assume J: "ok J" and t: "typed True J fins" and key: "key_of (fkey2 op (Some op) None) J fins"
    and e: "fold_reassoc_dup rf J fins = Some (J', res)"
  have o': "opc fins = op" "opc (fl J fins) = op" using key by auto
  have w: "wt J (irt fins) (op1 fins)" using bin_wt [OF t] o' op by auto
  have cl: "binop op" "\<not> iscmp op" using op by auto
  note i = inner_bin [OF J w o'(2) cl]
  have "res_ok J fins J (FREF (op1 fins))" if "op2 fins = op1 (fl J fins) \<or> op2 fins = op2 (fl J fins)"
  proof (rule res_ref [OF J])
    fix \<nu> assume a: "agrees J \<nu>"
    show "\<nu> (op1 fins) = eval fins \<nu>" using i(3) [OF a] that op o' by (auto simp: eval_def ac_simps)
  qed (use w o' op in \<open>auto simp: noguard_guard\<close>)
  then show "res_ok J fins J' res" using e by (auto simp: fold_reassoc_dup_def LEFTFOLD_def split: if_splits)
qed

lemma reassoc_dup_minmax_ok:
  assumes op: "op = IR_MIN \<or> op = IR_MAX"
  shows "rule_ok fold_reassoc_dup_minmax (fkey2 op (Some op) None)"
proof (rule rule_okI)
  fix rf J fins J' res
  assume J: "ok J" and t: "typed True J fins" and key: "key_of (fkey2 op (Some op) None) J fins"
    and e: "fold_reassoc_dup_minmax rf J fins = Some (J', res)"
  have o': "opc fins = op" "opc (fl J fins) = op" using key by auto
  have w: "wt J (irt fins) (op1 fins)" using bin_wt [OF t] o' op by auto
  have n64: "\<not> int64t (irt fins)" using typedD(8) [OF t] o' op int3264 by auto
  have cl: "binop op" "\<not> iscmp op" using op by auto
  note i = inner_bin [OF J w o'(2) cl]
  have "res_ok J fins J (FREF (op1 fins))" if "op2 fins = op2 (fl J fins)"
  proof (rule res_ref [OF J])
    fix \<nu> assume a: "agrees J \<nu>"
    show "\<nu> (op1 fins) = eval fins \<nu>" using i(3) [OF a] that op o' n64 by (auto simp: eval_def sint_minmax)
  qed (use w o' op in \<open>auto simp: noguard_guard\<close>)
  then show "res_ok J fins J' res" using e by (auto simp: fold_reassoc_dup_minmax_def LEFTFOLD_def split: if_splits)
qed

lemma xor_cancel: "((a :: 'a::len word) XOR b) XOR a = b" "(a XOR b) XOR b = a"
  by (simp_all add: ac_simps)

lemma reassoc_bxor_ok: "rule_ok fold_reassoc_bxor (fkey2 IR_BXOR (Some IR_BXOR) None)"
proof (rule rule_okI)
  fix rf J fins J' res
  assume J: "ok J" and t: "typed True J fins" and key: "key_of (fkey2 IR_BXOR (Some IR_BXOR) None) J fins"
    and e: "fold_reassoc_bxor rf J fins = Some (J', res)"
  have o': "opc fins = IR_BXOR" "opc (fl J fins) = IR_BXOR" using key by auto
  have w: "wt J (irt fins) (op1 fins)" using bin_wt [OF t] o' by auto
  note i = inner_bin [OF J w o'(2)]
  have w': "wt J (irt fins) (op1 (fl J fins))" "wt J (irt fins) (op2 (fl J fins))" using i(1,2) by simp_all
  have "res_ok J fins J (FREF (op2 (fl J fins)))" if "op2 fins = op1 (fl J fins)"
  proof (rule res_ref [OF J])
    fix \<nu> assume a: "agrees J \<nu>"
    show "\<nu> (op2 (fl J fins)) = eval fins \<nu>" using i(3) [OF _ _ a] that o' canon [OF J a w'(2)] by (simp add: eval_def xor_cancel)
  qed (use w' o' in \<open>auto simp: noguard_guard\<close>)
  moreover have "res_ok J fins J (FREF (op1 (fl J fins)))" if "op2 fins = op2 (fl J fins)"
  proof (rule res_ref [OF J])
    fix \<nu> assume a: "agrees J \<nu>"
    show "\<nu> (op1 (fl J fins)) = eval fins \<nu>" using i(3) [OF _ _ a] that o' canon [OF J a w'(1)] by (simp add: eval_def xor_cancel)
  qed (use w' o' in \<open>auto simp: noguard_guard\<close>)
  ultimately show "res_ok J fins J' res" using e by (auto simp: fold_reassoc_bxor_def split: if_splits)
qed

lemma minmax_word: "kfold_intop a b IR_MIN = op32 IR_MIN a b" "kfold_intop a b IR_MAX = op32 IR_MAX a b"
  by (rule kfold_intop_minmax; simp)+

lemma reassoc_minmax_k_ok:
  assumes op: "op = IR_MIN \<or> op = IR_MAX"
  shows "rule_ok fold_reassoc_minmax_k (fkey2 op (Some op) (Some IR_KINT))"
proof (rule rule_okI)
  fix rf J fins J' res
  assume J: "ok J" and t: "typed True J fins" and key: "key_of (fkey2 op (Some op) (Some IR_KINT)) J fins"
    and e: "fold_reassoc_minmax_k rf J fins = Some (J', res)" and nz: "0 < nk J'"
  have o': "opc fins = op" "opc (fl J fins) = op" "opc (fr J fins) = IR_KINT" using key op by auto
  have w: "wt J (irt fins) (op1 fins)" "wt J (irt fins) (op2 fins)" using bin_wt [OF t] o' op by auto
  have n64: "\<not> int64t (irt fins)" using typedD(8) [OF t] o' op int3264 by auto
  have cl: "binop op" "\<not> iscmp op" using op by auto
  let ?l = "fl J fins"
  note i = inner_bin [OF J w(1) o'(2) cl]
  let ?k1 = "ik (ir J (op2 ?l))" and ?k2 = "ik (fr J fins)"
  have kk: "kfold_intop ?k1 ?k2 op = op32 op ?k1 ?k2" using op minmax_word by auto
  show "res_ok J fins J' res"
  proof (cases "opc (ir J (op2 ?l)) = IR_KINT")
    case False
    then show ?thesis using e by (simp add: fold_reassoc_minmax_k_def Let_def)
  next
    case k: True
    have ev: "eval fins \<nu> = sx (op32 op (lo (\<nu> (op1 ?l))) (op32 op ?k1 ?k2))" "\<nu> (op1 fins) = sx (op32 op (lo (\<nu> (op1 ?l))) ?k1)" if a: "agrees J \<nu>" for \<nu>
    proof -
      have "\<nu> (op2 ?l) = sx ?k1" "\<nu> (op2 fins) = sx ?k2"
        using kint_val(1) [OF J a wt_kint(3) [OF J i(2)] k] kint_val(1) [OF J a wt_kint(3) [OF J w(2)] o'(3)] .
      then show "eval fins \<nu> = sx (op32 op (lo (\<nu> (op1 ?l))) (op32 op ?k1 ?k2))" "\<nu> (op1 fins) = sx (op32 op (lo (\<nu> (op1 ?l))) ?k1)"
        using i(3) [OF a] o' n64 op32_assoc [of op "lo (\<nu> (op1 ?l))" ?k1 ?k2] op by (simp_all add: eval_def)
    qed
    show ?thesis
    proof (cases "?k1 = kfold_intop ?k1 ?k2 op")
      case True
      have "res_ok J fins J (FREF (op1 fins))"
      proof (rule res_ref [OF J])
        fix \<nu> assume a: "agrees J \<nu>"
        show "\<nu> (op1 fins) = eval fins \<nu>" using ev [OF a] True kk by simp
      qed (use w o' op in \<open>auto simp: noguard_guard\<close>)
      then show ?thesis using e k True o' by (auto simp: fold_reassoc_minmax_k_def LEFTFOLD_def Let_def)
    next
      case False
      show ?thesis
      proof (cases "irt_isphi (irt ?l)")
        case True
        then show ?thesis using e k False o' by (auto simp: fold_reassoc_minmax_k_def Let_def)
      next
        case ph: False
        have e': "retry_kint J (fins\<lparr>op1 := op1 ?l\<rparr>) (op32 op ?k1 ?k2) = Some (J', res)"
          using e k False ph kk o' by (simp add: fold_reassoc_minmax_k_def Let_def)
        show ?thesis
        proof (rule retry_kint_ok [OF J e' nz])
          fix J1 r assume kp: "keeps J J1" and r: "w32 J1 r"
          show "typed True J1 (fins\<lparr>op1 := op1 ?l\<rparr>\<lparr>op2 := r\<rparr>)"
            by (rule typed_binI) (use op o' typed_intt [OF t] keeps_wt(4) [OF kp i(1)] r n64 typedD(8) [OF t] in \<open>auto simp: wt_def\<close>)
        next
          fix r \<nu> assume a: "agrees J \<nu>" and r: "\<nu> r = sx (op32 op ?k1 ?k2)"
          show "eval (fins\<lparr>op1 := op1 ?l\<rparr>\<lparr>op2 := r\<rparr>) \<nu> = eval fins \<nu>" unfolding ev [OF a] using r o' n64 by (simp add: eval_def)
        qed (use o' op in \<open>auto simp: noguard_guard\<close>)
      qed
    qed
  qed
qed

end
