(* ===== verification/FoldComm.thy ===== *)
theory FoldComm
  imports FoldReassoc
begin

text \<open>Soundness of the commutativity rules and of the array bounds check elimination.\<close>

section \<open>Commutativity\<close>

definition commop :: "irop \<Rightarrow> bool" where
  "commop op \<longleftrightarrow> op \<in> {IR_ADD, IR_MUL, IR_ADDOV, IR_MULOV, IR_EQ, IR_NE, IR_BAND, IR_BOR, IR_BXOR}"

text \<open>The operands of an addition or of a binary operation can be exchanged.\<close>

lemma typed_swap:
  assumes t: "typed True J fins" and o': "addop (opc fins) \<or> binop (opc fins)" "addop op' \<longleftrightarrow> addop (opc fins)" "binop op' \<longleftrightarrow> binop (opc fins)"
    "opc fins \<notin> {IR_DIV, IR_MOD, IR_POW}" "op' \<notin> {IR_DIV, IR_MOD, IR_POW, IR_ABC}" "op32only op' \<longrightarrow> op32only (opc fins)"
  shows "typed True J (fins\<lparr>op1 := op2 fins, op2 := op1 fins, opc := op'\<rparr>)"
proof (cases "addop (opc fins)")
  case True
  then show ?thesis using add_opr [OF t] o' typed_intt [OF t] by (intro typed_addI) auto
next
  case False
  then show ?thesis using bin_wt [OF t] o' typed_intt [OF t] typedD(8) [OF t] by (intro typed_binI) auto
qed

lemma swap_ok:
  assumes J: "ok J" and t: "typed True J fins" and c: "commop (opc fins)"
  shows "res_ok J fins J (RETRYFOLD (fins\<lparr>op1 := op2 fins, op2 := op1 fins\<rparr>))"
proof (rule res_retry [OF J])
  have "typed True J (fins\<lparr>op1 := op2 fins, op2 := op1 fins, opc := opc fins\<rparr>)"
    by (rule typed_swap [OF t]) (use c in \<open>auto simp: commop_def\<close>)
  then show "typed True J (fins\<lparr>op1 := op2 fins, op2 := op1 fins\<rparr>)" by simp
  fix \<nu> :: "nat \<Rightarrow> u64"
  show "eval (fins\<lparr>op1 := op2 fins, op2 := op1 fins\<rparr>) \<nu> = eval fins \<nu>" if "\<not> iscmp (opc fins)"
    using c that typedD(8) [OF t] int3264 by (auto simp: commop_def noguard_guard eval_def ac_simps)
  show "guard (fins\<lparr>op1 := op2 fins, op2 := op1 fins\<rparr>) \<nu> \<longleftrightarrow> guard fins \<nu>"
    using c by (auto simp: commop_def noguard_guard guard_cmp ac_simps)
qed (use c in \<open>auto simp: commop_def\<close>)

lemma comm_swap_res:
  assumes J: "ok J" and t: "typed True J fins" and c: "commop (opc fins)" and e: "fold_comm_swap rf J fins = Some (J', res)"
  shows "res_ok J fins J' res"
  using e swap_ok [OF J t c] by (auto simp: fold_comm_swap_def)

lemma comm_swap_ok:
  assumes "op \<in> {IR_ADD, IR_MUL, IR_ADDOV, IR_MULOV}"
  shows "rule_ok fold_comm_swap (fkey2 op None None)"
proof (rule rule_okI)
  fix rf J fins J' res
  assume J: "ok J" and t: "typed True J fins" and key: "key_of (fkey2 op None None) J fins" and e: "fold_comm_swap rf J fins = Some (J', res)"
  show "res_ok J fins J' res" by (rule comm_swap_res [OF J t _ e]) (use key assms in \<open>auto simp: commop_def\<close>)
qed

lemma comm_equal_ok:
  assumes "op = IR_EQ \<or> op = IR_NE"
  shows "rule_ok fold_comm_equal (fkey2 op None None)"
proof (rule rule_okI)
  fix rf J fins J' res
  assume J: "ok J" and t: "typed True J fins" and key: "key_of (fkey2 op None None) J fins" and e: "fold_comm_equal rf J fins = Some (J', res)"
  have o': "opc fins = op" using key by simp
  show "res_ok J fins J' res"
  proof (cases "op1 fins = op2 fins")
    case True
    then have r: "J' = J" "res = CONDFOLD (op = IR_EQ)" using e notnum [OF t] o' by (auto simp: fold_comm_equal_def)
    have "guard fins \<nu> = (op = IR_EQ)" for \<nu> using assms o' True by (cases "int64t (irt fins)") (auto simp: guard_cmp)
    then show ?thesis unfolding r by (intro res_cond [OF J]) (use assms o' in auto)
  next
    case False
    then have "fold_comm_swap rf J fins = Some (J', res)" using e by (simp add: fold_comm_equal_def)
    then show ?thesis by (rule comm_swap_res [OF J t, rotated]) (use o' assms in \<open>auto simp: commop_def\<close>)
  qed
qed

lemma cmp_flip:
  assumes "op \<in> {IR_LT, IR_GE, IR_LE, IR_GT, IR_ULT, IR_UGE, IR_ULE, IR_UGT}"
  shows "cmp (op XOR 3) a b = cmp op b a" and "op XOR 3 \<in> {IR_LT, IR_GE, IR_LE, IR_GT, IR_ULT, IR_UGE, IR_ULE, IR_UGT}"
    and "cmp op a a = ((op XOR drop_bit 1 op) AND 1 \<noteq> 0)"
  using assms unfolding insert_iff empty_iff by (elim disjE; simp add: ir_defs cmp_def)+

lemma comm_comp_ok:
  assumes op: "op \<in> {IR_LT, IR_GE, IR_LE, IR_GT, IR_ULT, IR_UGE, IR_ULE, IR_UGT}"
  shows "rule_ok fold_comm_comp (fkey2 op None None)"
proof (rule rule_okI)
  fix rf J fins J' res
  assume J: "ok J" and t: "typed True J fins" and key: "key_of (fkey2 op None None) J fins" and e: "fold_comm_comp rf J fins = Some (J', res)"
  have o': "opc fins = op" using key by simp
  have c: "iscmp q \<and> \<not> addop q \<and> \<not> op32only q \<and> q \<notin> {IR_DIV, IR_MOD, IR_POW, IR_ABC}"
    if "q \<in> {IR_LT, IR_GE, IR_LE, IR_GT, IR_ULT, IR_UGE, IR_ULE, IR_UGT}" for q
    using that unfolding insert_iff empty_iff by (elim disjE) simp_all
  note cq = c [OF op] c [OF cmp_flip(2) [OF op]]
  then have cl: "iscmp op" "iscmp (op XOR 3)" by blast+
  have "res_ok J fins J (CONDFOLD ((op XOR drop_bit 1 op) AND 1 \<noteq> 0))" if "op1 fins = op2 fins"
    by (rule res_cond [OF J]) (use o' cl that cmp_flip(3) [OF op, where 'a = 32] cmp_flip(3) [OF op, where 'a = 64] in \<open>auto simp: guard_cmp\<close>)
  moreover have "res_ok J fins J (RETRYFOLD (fins\<lparr>op1 := op2 fins, op2 := op1 fins, opc := op XOR 3\<rparr>))"
  proof (rule res_retry [OF J])
    show "typed True J (fins\<lparr>op1 := op2 fins, op2 := op1 fins, opc := op XOR 3\<rparr>)"
      by (rule typed_swap [OF t]) (use o' cq in simp_all)
    fix \<nu> assume "agrees J \<nu>"
    show "guard (fins\<lparr>op1 := op2 fins, op2 := op1 fins, opc := op XOR 3\<rparr>) \<nu> \<longleftrightarrow> guard fins \<nu>"
      using o' cl cmp_flip(1) [OF op, where 'a = 32] cmp_flip(1) [OF op, where 'a = 64] by (simp add: guard_cmp)
  qed (use o' cl in auto)
  ultimately show "res_ok J fins J' res"
    using e o' notnum [OF t] by (auto simp: fold_comm_comp_def split: if_splits)
qed

lemma comm_dup_ok:
  assumes "op = IR_BAND \<or> op = IR_BOR"
  shows "rule_ok fold_comm_dup (fkey2 op None None)"
proof (rule rule_okI)
  fix rf J fins J' res
  assume J: "ok J" and t: "typed True J fins" and key: "key_of (fkey2 op None None) J fins" and e: "fold_comm_dup rf J fins = Some (J', res)"
  have o': "opc fins = op" using key by simp
  have w: "wt J (irt fins) (op1 fins)" using bin_wt [OF t] o' assms by auto
  show "res_ok J fins J' res"
  proof (cases "op1 fins = op2 fins")
    case True
    have "res_ok J fins J (FREF (op1 fins))"
    proof (rule res_ref [OF J])
      fix \<nu> assume a: "agrees J \<nu>"
      show "\<nu> (op1 fins) = eval fins \<nu>" using True o' assms canon [OF J a w] by (auto simp: eval_def)
    qed (use w o' assms in \<open>auto simp: noguard_guard\<close>)
    then show ?thesis using e True by (auto simp: fold_comm_dup_def LEFTFOLD_def)
  next
    case False
    then have "fold_comm_swap rf J fins = Some (J', res)" using e by (simp add: fold_comm_dup_def)
    then show ?thesis by (rule comm_swap_res [OF J t, rotated]) (use o' assms in \<open>auto simp: commop_def\<close>)
  qed
qed

lemma comm_dup_minmax_ok:
  assumes "op = IR_MIN \<or> op = IR_MAX"
  shows "rule_ok fold_comm_dup_minmax (fkey2 op None None)"
proof (rule rule_okI)
  fix rf J fins J' res
  assume J: "ok J" and t: "typed True J fins" and key: "key_of (fkey2 op None None) J fins" and e: "fold_comm_dup_minmax rf J fins = Some (J', res)"
  have o': "opc fins = op" using key by simp
  have w: "wt J (irt fins) (op1 fins)" using bin_wt [OF t] o' assms by auto
  have n64: "\<not> int64t (irt fins)" using typedD(8) [OF t] o' assms int3264 by auto
  have "res_ok J fins J (FREF (op1 fins))" if eq: "op1 fins = op2 fins"
  proof (rule res_ref [OF J])
    fix \<nu> assume a: "agrees J \<nu>"
    have "\<nu> (op1 fins) = sx (lo (\<nu> (op1 fins)))" using canon [OF J a w n64] by simp
    then show "\<nu> (op1 fins) = eval fins \<nu>" using eq o' assms n64 by (auto simp: eval_def)
  qed (use w o' assms in \<open>auto simp: noguard_guard\<close>)
  then show "res_ok J fins J' res" using e by (auto simp: fold_comm_dup_minmax_def LEFTFOLD_def)
qed

lemma comm_bxor_ok: "rule_ok fold_comm_bxor (fkey2 IR_BXOR None None)"
proof (rule rule_okI)
  fix rf J fins J' res
  assume J: "ok J" and t: "typed True J fins" and key: "key_of (fkey2 IR_BXOR None None) J fins" and e: "fold_comm_bxor rf J fins = Some (J', res)"
    and nz: "0 < nk J'"
  have o': "opc fins = IR_BXOR" using key by simp
  show "res_ok J fins J' res"
  proof (cases "op1 fins = op2 fins")
    case True
    have e': "zero_fold J fins = (J', res)" using e True by (simp add: fold_comm_bxor_def)
    show ?thesis by (rule zero_fold_ok [OF J t _ _ e' nz]) (use o' True in \<open>simp_all add: eval_def\<close>)
  next
    case False
    then have "fold_comm_swap rf J fins = Some (J', res)" using e by (simp add: fold_comm_bxor_def)
    then show ?thesis by (rule comm_swap_res [OF J t, rotated]) (use o' in \<open>auto simp: commop_def\<close>)
  qed
qed

section \<open>Array bounds checks\<close>

lemma abc_facts:
  assumes "typed b J i" "opc i = IR_ABC"
  shows "wt J (irt i) (op1 i)" "wt J (irt i) (op2 i)" "\<not> int64t (irt i)"
  using bin_wt [OF assms(1)] typedD(1,10) [OF assms(1)] assms(2) int3264
  by (auto simp: irt_isint_def int64t_def irt_defs)

lemma abc_found:
  assumes J: "ok J" and f: "chain_down n J lim P (chain J IR_ABC) = Some r" and P: "P (ir J r) \<Longrightarrow> op1 (ir J r) = op1 fins"
    and t: "typed True J fins" "opc fins = IR_ABC"
  shows "vref J r" and "opc (ir J r) = IR_ABC" and "P (ir J r)" and "intins J (ir J r)" and "typed False J (ir J r)"
proof -
  from chain_down_Some [OF f] have oc: "on_chain J IR_ABC r" and p: "P (ir J r)" by (simp_all add: on_chain_def)
  show o': "opc (ir J r) = IR_ABC" using ir_wfD(3) [OF _ oc] J by (simp add: ok_def)
  show v: "vref J r" using oc o' by (simp add: vref_def)
  show "P (ir J r)" by (rule p)
  have "intt (irt (ir J (op1 fins)))" using typed_intins [OF J t(1)] by (simp add: intins_def)
  then show i: "intins J (ir J r)" using o' P [OF p] by (simp add: intins_def)
  show "typed False J (ir J r)" by (rule ok_typed [OF J v i])
qed

lemma abc_fwd_ok: "rule_ok fold_abc_fwd (fkey2 IR_ABC None (Some IR_ADD))"
proof (rule rule_okI)
  fix rf J fins J' res
  assume J: "ok J" and t: "typed True J fins" and key: "key_of (fkey2 IR_ABC None (Some IR_ADD)) J fins" and e: "fold_abc_fwd rf J fins = Some (J', res)"
  have o': "opc fins = IR_ABC" "opc (fr J fins) = IR_ADD" using key by auto
  note af = abc_facts [OF t o'(1)]
  let ?r = "fr J fins"
  let ?a = "ir J (op1 ?r)"
  show "res_ok J fins J' res"
  proof (cases "opt_abc J \<and> irref_isk (op2 ?r) \<and> opc ?a = IR_ADD \<and> irref_isk (op2 ?a) \<and> ik (ir J (op2 ?r)) = - ik (ir J (op2 ?a)) \<and>
      chain_down (chain J IR_ABC) J (max (op1 ?a) (op1 fins)) (\<lambda>i. op1 i = op1 fins \<and> op2 i = op1 ?a) (chain J IR_ABC) \<noteq> None")
    case False
    then have "J' = J" "res = NEXTFOLD" using e by (auto simp: fold_abc_fwd_def Let_def split: if_splits option.splits)
    then show ?thesis by simp
  next
    case True
    then obtain s where s: "chain_down (chain J IR_ABC) J (max (op1 ?a) (op1 fins)) (\<lambda>i. op1 i = op1 fins \<and> op2 i = op1 ?a) (chain J IR_ABC) = Some s" by blast
    have r: "J' = J" "res = DROPFOLD" using e True s by (auto simp: fold_abc_fwd_def Let_def)
    note fd = abc_found [OF J s _ t o'(1)]
    note i = inner_add [OF J af(2) o'(2)]
    have c: "binop IR_ADD \<longleftrightarrow> False" by simp
    have w1: "wt J (irt fins) (op1 ?r)" "wt J (irt fins) (op2 ?r)" using i(1,2) af(3) by (simp_all add: opr_def)
    have oa: "opc ?a = IR_ADD" using True by simp
    note i2 = inner_add [OF J w1(1) oa]
    have w2: "wt J (irt fins) (op1 ?a)" "wt J (irt fins) (op2 ?a)" using i2(1,2) af(3) by (simp_all add: opr_def)
    have kc: "opc (ir J x) = IR_KINT" if "wt J (irt fins) x" "irref_isk x" for x
      using ok_const [OF J wt_kint(3) [OF J that(1)] _ wt_kint(5) [OF J that(1)]] that(2) wt_kint(2) [OF J that(1)] af(3) by (auto simp: irref_isk_def)
    have "guard fins \<nu>" if a: "agrees J \<nu>" for \<nu>
    proof -
      have k: "\<nu> (op2 ?r) = sx (ik (ir J (op2 ?r)))" "\<nu> (op2 ?a) = sx (ik (ir J (op2 ?a)))"
        using kint_val(1) [OF J a wt_kint(3) [OF J w1(2)]] kint_val(1) [OF J a wt_kint(3) [OF J w2(2)]] kc w1(2) w2(2) True by auto
      have "lo (\<nu> (op2 fins)) = lo (\<nu> (op1 ?a))" using i(3) [OF _ a] i2(3) [OF _ a] k True af(3) by simp
      moreover have "guard (ir J s) \<nu>" by (rule agrees_guard [OF a]) (use fd in auto)
      moreover have "op1 (ir J s) = op1 fins" "op2 (ir J s) = op1 ?a" "opc (ir J s) = IR_ABC" using fd by auto
      moreover have "\<not> int64t (irt (ir J s))" using abc_facts(3) [OF fd(5,2)] by simp
      ultimately show ?thesis using o' af(3) by (simp add: guard_cmp)
    qed
    then show ?thesis using o' by (auto simp: r res_ok_def intro!: post_refl [OF J])
  qed
qed

lemma abc_invar_ok: "rule_ok fold_abc_invar (fkey2 IR_ABC None None)"
proof (rule rule_okI)
  fix rf J fins J' res
  assume t: "typed True J fins" and key: "key_of (fkey2 IR_ABC None None) J fins" and e: "fold_abc_invar rf J fins = Some (J', res)"
  have "irt_isint (irt fins)" using typedD(10) [OF t] key by simp
  then have "J' = J" "res = NEXTFOLD" using e by (auto simp: fold_abc_invar_def)
  then show "res_ok J fins J' res" by simp
qed

end
