(* ===== verification/FoldAbc.thy ===== *)
theory FoldAbc
  imports FoldComm
begin

text \<open>
  The bounds check against a constant: an older check of the same array size is widened in place, or
  a new one is emitted. It is the only rule that changes an instruction that is already in the buffer.
\<close>

definition patch :: "jit_State \<Rightarrow> nat \<Rightarrow> nat \<Rightarrow> jit_State" where
  "patch J r n = J\<lparr>ir := (ir J)(r := (ir J r)\<lparr>op2 := n\<rparr>)\<rparr>"

lemma patch_simps [simp]: "nk (patch J r n) = nk J" "nins (patch J r n) = nins J" "chain (patch J r n) = chain J"
  "opc (ir (patch J r n) s) = opc (ir J s)" "irt (ir (patch J r n) s) = irt (ir J s)" "prev (ir (patch J r n) s) = prev (ir J s)"
  "op1 (ir (patch J r n) s) = op1 (ir J s)" "ik (ir (patch J r n) s) = ik (ir J s)" "tv (ir (patch J r n) s) = tv (ir J s)"
  "s \<noteq> r \<Longrightarrow> ir (patch J r n) s = ir J s" "op2 (ir (patch J r n) r) = n" "flags_eq J (patch J r n)"
  by (simp_all add: patch_def flags_eq_def)

lemma patch_reach: "reach (patch J r n) a s \<longleftrightarrow> reach J a s"
proof
  assume "reach (patch J r n) a s"
  then show "reach J a s"
  proof (induction rule: reach.induct)
    case (step s) then show ?case using reach.step [of J a s] by simp
  qed (rule reach.head)
next
  assume "reach J a s"
  then show "reach (patch J r n) a s"
  proof (induction rule: reach.induct)
    case (step s) then show ?case using reach.step [of "patch J r n" a s] by simp
  qed (rule reach.head)
qed

lemma patch_chain [simp]: "on_chain (patch J r n) op s \<longleftrightarrow> on_chain J op s"
  by (simp add: on_chain_def patch_reach)

lemma patch_vref [simp]: "vref (patch J r n) s \<longleftrightarrow> vref J s"
  by (simp add: vref_def)

lemma patch_intins [simp]: "intins (patch J r n) (ir (patch J r n) s) \<longleftrightarrow> intins J (ir J s)"
  by (simp add: intins_def)

lemma patch_keeps:
  assumes "opc (ir J r) = IR_ABC"
  shows "keeps J (patch J r n)"
  unfolding keeps_def
proof (intro conjI allI impI)
  fix s assume "vref J s"
  then show "\<exists>m. ir (patch J r n) s = ir J s \<lparr>op2 := m\<rparr> \<and> (opc (ir J s) \<noteq> IR_ABC \<longrightarrow> m = op2 (ir J s))"
    using assms by (cases "s = r") (auto simp: patch_def intro: exI [of _ "op2 (ir J s)"])
qed simp_all

lemma patch_ok:
  assumes J: "ok J" and o': "opc (ir J r) = IR_ABC" and t: "typed False J (ir J r)" and w: "wt J (irt (ir J r)) n"
  shows "ok (patch J r n)"
proof -
  let ?J = "patch J r n"
  note k = patch_keeps [OF o', of n]
  have wf: "ir_wf ?J" using J by (simp add: ok_def ir_wf_def kval_ok_def)
  have ty: "typed False ?J (ir ?J s)" if "typed False J (ir J s)" for s
  proof (cases "s = r")
    case False
    then show ?thesis using keeps_typed [OF k that] by simp
  next
    case True
    have "wt ?J (irt (ir J r)) (op1 (ir J r))" "wt ?J (irt (ir J r)) n"
      using keeps_wt(4) [OF k] abc_facts(1) [OF t o'] w by auto
    then show ?thesis using True o' typedD(1,10) [OF t] by (intro typedI) auto
  qed
  have tj: "ir_typed J" using J by (simp add: ok_def)
  have "ir_typed ?J"
    unfolding ir_typed_def
  proof (intro conjI allI impI)
    fix s assume v: "vref ?J s" and f: "foldop (opc (ir ?J s))"
    then show "nk ?J \<le> op1 (ir ?J s)" "op1 (ir ?J s) < nins ?J" using tj by (simp_all add: ir_typed_def)
    show "typed False ?J (ir ?J s)" if "intins ?J (ir ?J s)" using ty tj v f that by (simp add: ir_typed_def)
    show "intins ?J (ir ?J s)" if "intt (irt (ir ?J s))" "\<not> iscmp (opc (ir ?J s))" "opc (ir ?J s) \<noteq> IR_SUB"
      using tj v f that by (simp add: ir_typed_def)
  next
    fix s assume "vref ?J s" "iskop (opc (ir ?J s))" "intt (irt (ir ?J s))"
    then show "opc (ir ?J s) = IR_KINT \<or> opc (ir ?J s) = IR_KINT64" using tj by (simp add: ir_typed_def)
  qed
  with wf show ?thesis by (simp add: ok_def)
qed

lemma patch_agrees:
  assumes o': "opc (ir J r) = IR_ABC" and v: "vref J r" and i: "intins J (ir J r)"
  shows "agrees (patch J r n) \<nu> \<longleftrightarrow>
    (\<forall>s. vref J s \<longrightarrow> s \<noteq> r \<longrightarrow> agrees1 J (ir J s) (\<nu> s) \<nu>) \<and> (int32t (irt (ir J r)) \<longrightarrow> \<nu> r = sx (lo (\<nu> r))) \<and>
    guard (ir J r\<lparr>op2 := n\<rparr>) \<nu>"
proof -
  have 1: "agrees1 (patch J r n) (ir (patch J r n) s) (\<nu> s) \<nu> \<longleftrightarrow> agrees1 J (ir J s) (\<nu> s) \<nu>" if "s \<noteq> r" for s
    using patch_intins [of J r n s] that by (simp add: agrees1_def)
  have p: "ir (patch J r n) r = ir J r\<lparr>op2 := n\<rparr>" by (simp add: patch_def)
  have 2: "agrees1 (patch J r n) (ir (patch J r n) r) (\<nu> r) \<nu> \<longleftrightarrow>
      (int32t (irt (ir J r)) \<longrightarrow> \<nu> r = sx (lo (\<nu> r))) \<and> guard (ir J r\<lparr>op2 := n\<rparr>) \<nu>"
    using patch_intins [of J r n r] i o' unfolding p agrees1_def by (auto simp: intins_def)
  show ?thesis using 1 2 v unfolding agrees_def patch_vref by metis
qed

lemma abc_k_ok: "rule_ok fold_abc_k (fkey2 IR_ABC None (Some IR_KINT))"
proof (rule rule_okI)
  fix rf J fins J' res
  assume J: "ok J" and t: "typed True J fins" and key: "key_of (fkey2 IR_ABC None (Some IR_KINT)) J fins"
    and e: "fold_abc_k rf J fins = Some (J', res)"
  have o': "opc fins = IR_ABC" "opc (fr J fins) = IR_KINT" using key by auto
  note af = abc_facts [OF t o'(1)]
  let ?s = "chain_down (chain J IR_ABC) J (op1 fins) (\<lambda>i. op1 i = op1 fins \<and> irref_isk (op2 i)) (chain J IR_ABC)"
  have kv: "\<nu> (op2 fins) = sx (ik (fr J fins))" if "agrees J \<nu>" for \<nu>
    using kint_val(1) [OF J that wt_kint(3) [OF J af(2)] o'(2)] .
  consider "J' = J" "res = NEXTFOLD" | "?s = None" "(J', res) = EMITFOLD J fins"
    | r where "?s = Some r" "res = DROPFOLD" "J' = (if ik (ir J (op2 (ir J r))) < ik (fr J fins) then patch J r (op2 fins) else J)"
  proof (cases "irt_isphi (irt (fl J fins)) \<or> \<not> opt_abc J")
    case True
    with e have "J' = J" "res = NEXTFOLD" by (auto simp: fold_abc_k_def split: if_splits)
    then show ?thesis by (rule that(1))
  next
    case False
    show ?thesis
    proof (cases ?s)
      case None
      with e False have "(J', res) = EMITFOLD J fins" by (simp add: fold_abc_k_def Let_def)
      with None show ?thesis by (rule that(2))
    next
      case (Some r)
      with e False have "res = DROPFOLD" "J' = (if ik (ir J (op2 (ir J r))) < ik (fr J fins) then patch J r (op2 fins) else J)"
        by (auto simp: fold_abc_k_def Let_def patch_def)
      with Some show ?thesis by (rule that(3))
    qed
  qed
  then show "res_ok J fins J' res"
  proof cases
    case 2
    then obtain ref where r: "lj_ir_emit J fins = (J', ref)" "res = FREF ref" by (auto simp: EMITFOLD_def split: prod.splits)
    have t': "typed False J fins" using o' typedD [OF t] by (intro typedI) auto
    have "post J J' (guard fins)" "rval J J' fins ref" using emit_ok [OF J t' r(1)] o' by (auto simp: rval_def)
    then show ?thesis by (simp add: r res_ok_def)
  next
    case (3 r)
    note fd = abc_found [OF J 3(1) _ t o'(1)]
    have f: "vref J r" "opc (ir J r) = IR_ABC" "op1 (ir J r) = op1 fins" "irref_isk (op2 (ir J r))" "intins J (ir J r)" "typed False J (ir J r)"
      using fd by auto
    note ag = abc_facts [OF f(6,2)]
    have ko: "opc (ir J (op2 (ir J r))) = IR_KINT"
      using ok_const [OF J wt_kint(3) [OF J ag(2)] _ wt_kint(5) [OF J ag(2)]] f(4) wt_kint(2) [OF J ag(2)] ag(3) by (auto simp: irref_isk_def)
    have old: "\<nu> (op2 (ir J r)) = sx (ik (ir J (op2 (ir J r))))" if "agrees J \<nu>" for \<nu>
      by (rule kint_val(1) [OF J that wt_kint(3) [OF J ag(2)] ko])
    let ?k = "ik (ir J (op2 (ir J r)))"
    have gf: "guard fins \<nu> \<longleftrightarrow> uint (ik (fr J fins)) < uint (lo (\<nu> (op1 fins)))" if "agrees J \<nu>" for \<nu>
      using o' af(3) kv [OF that] by (simp add: guard_cmp)
    have gr: "uint ?k < uint (lo (\<nu> (op1 fins)))" if "agrees J \<nu>" for \<nu>
      using agrees_guard [OF that f(1,5)] f(2,3) ag(3) old [OF that] by (simp add: guard_cmp)
    show ?thesis
    proof (cases "?k < ik (fr J fins)")
      case False
      have "guard fins \<nu>" if "agrees J \<nu>" for \<nu> using gf [OF that] gr [OF that] False by (simp add: word_less_def)
      then show ?thesis using 3 False o' post_refl [OF J] by (simp add: res_ok_def)
    next
      case True
      have w: "wt J (irt (ir J r)) (op2 fins)" using af(2,3) ag(3) by (simp add: wt_def)
      note pa = patch_agrees [OF f(2,1,5), of "op2 fins"]
      have g': "guard (ir J r\<lparr>op2 := op2 fins\<rparr>) \<nu> \<longleftrightarrow> guard fins \<nu>" for \<nu>
        using o' f(2,3) af(3) ag(3) by (simp add: guard_cmp)
      have rk: "op2 fins \<noteq> r" "op2 (ir J r) \<noteq> r" using o'(2) ko f(2) by auto
      have a1: "agrees J \<nu> \<longleftrightarrow> (\<forall>s. vref J s \<longrightarrow> s \<noteq> r \<longrightarrow> agrees1 J (ir J s) (\<nu> s) \<nu>) \<and>
          (int32t (irt (ir J r)) \<longrightarrow> \<nu> r = sx (lo (\<nu> r))) \<and> guard (ir J r) \<nu>" for \<nu>
        using patch_agrees [OF f(2,1,5), of "op2 (ir J r)" \<nu>] by (simp add: patch_def)
      have kk: "\<nu> s = sx (ik (ir J s))" if "\<forall>s. vref J s \<longrightarrow> s \<noteq> r \<longrightarrow> agrees1 J (ir J s) (\<nu> s) \<nu>" "s \<noteq> r" "vref J s" "opc (ir J s) = IR_KINT" for \<nu> s
        using that by (simp add: agrees1_def)
      have "agrees (patch J r (op2 fins)) \<nu> \<longleftrightarrow> agrees J \<nu> \<and> guard fins \<nu>" for \<nu>
      proof
        assume "agrees J \<nu> \<and> guard fins \<nu>"
        then show "agrees (patch J r (op2 fins)) \<nu>" using a1 pa g' by blast
      next
        assume a: "agrees (patch J r (op2 fins)) \<nu>"
        then have b: "\<forall>s. vref J s \<longrightarrow> s \<noteq> r \<longrightarrow> agrees1 J (ir J s) (\<nu> s) \<nu>" "guard fins \<nu>" "int32t (irt (ir J r)) \<longrightarrow> \<nu> r = sx (lo (\<nu> r))"
          using pa g' by blast+
        have "\<nu> (op2 fins) = sx (ik (fr J fins))" "\<nu> (op2 (ir J r)) = sx ?k"
          using kk [OF b(1)] rk o'(2) ko wt_kint(3) [OF J af(2)] wt_kint(3) [OF J ag(2)] by auto
        then have "guard (ir J r) \<nu>" using b(2) True o' f(2,3) af(3) ag(3) by (simp add: guard_cmp word_less_def)
        with a1 b show "agrees J \<nu> \<and> guard fins \<nu>" by blast
      qed
      then have "refines J (patch J r (op2 fins)) (guard fins)" unfolding refines_def by blast
      then have "post J (patch J r (op2 fins)) (guard fins)"
        using patch_ok [OF J f(2,6) w] patch_keeps [OF f(2)] by (simp add: post_def)
      then show ?thesis using 3 True o' by (simp add: res_ok_def)
    qed
  qed simp
qed

end
