(* ===== verification/FoldShift.thy ===== *)
theory FoldShift
  imports FoldAbc
begin

text \<open>
  The shift and rotate rules. A shift depends on its count only through the low five or six bits, so
  the rules are statements about one function \<open>shf\<close> of an opcode, a count below the width and a word.
\<close>

section \<open>Shifts by a count\<close>

definition shf :: "irop \<Rightarrow> nat \<Rightarrow> 'a::len word \<Rightarrow> 'a word" where
  "shf op n a =
     (if op = IR_BSHL then push_bit n a else if op = IR_BSHR then drop_bit n a
      else if op = IR_BSAR then signed_drop_bit n a else if op = IR_BROL then word_rotl n a else word_rotr n a)"

lemma shf_simps [simp]:
  "shf IR_BSHL n a = push_bit n a" "shf IR_BSHR n a = drop_bit n a" "shf IR_BSAR n a = signed_drop_bit n a"
  "shf IR_BROL n a = word_rotl n a" "shf IR_BROR n a = word_rotr n a"
  by (simp_all add: shf_def)

lemma rot_0: "word_rotr 0 a = (a :: 'a::len word)" "word_rotr LENGTH('a) a = a"
  by (rule bit_word_eqI, simp add: bit_word_rotr_iff)+

lemma rotl_as_rotr: "word_rotl n a = b \<longleftrightarrow> word_rotr n b = a"
  using word_rot_gal [of n b a] by auto

lemma rotl_rotl: "word_rotl m (word_rotl n a) = word_rotl (n + m) a"
proof -
  have "word_rotr (n + m) (word_rotl m (word_rotl n a)) = a" by (simp flip: word_rotr_word_rotr_eq)
  then have "word_rotl (n + m) a = word_rotl m (word_rotl n a)" by (rule rotl_as_rotr [THEN iffD2])
  then show ?thesis by simp
qed

lemma shf_0 [simp]: "shiftop op \<Longrightarrow> shf op 0 a = a"
  by (auto simp: shiftop_cases rot_0 rotl_as_rotr)

lemma shf_comp: "shiftop op \<Longrightarrow> shf op m (shf op n a) = shf op (n + m) a"
  unfolding shiftop_cases by (elim disjE) (simp_all add: rotl_rotl word_rotr_word_rotr_eq add.commute)

lemma shf_wrap:
  assumes "LENGTH('a) \<le> n"
  shows "op = IR_BSHL \<or> op = IR_BSHR \<Longrightarrow> shf op n (a :: 'a::len word) = 0"
    and "op = IR_BSAR \<Longrightarrow> shf op n a = shf op (LENGTH('a) - 1) a"
    and "op = IR_BROL \<or> op = IR_BROR \<Longrightarrow> shf op n a = shf op (n - LENGTH('a)) a"
proof -
  show "op = IR_BSHL \<or> op = IR_BSHR \<Longrightarrow> shf op n a = 0"
    by (rule bit_word_eqI) (use assms in \<open>auto simp: bit_simps dest: bit_imp_le_length\<close>)
  show "op = IR_BSAR \<Longrightarrow> shf op n a = shf op (LENGTH('a) - 1) a"
    by (rule bit_word_eqI) (use assms in \<open>auto simp: bit_signed_drop_bit_iff min_def Suc_le_eq\<close>)
  have r: "word_rotr n a = word_rotr (n - LENGTH('a)) a" for a :: "'a word"
    using assms word_rotr_word_rotr_eq [of "n - LENGTH('a)" "LENGTH('a)" a] by (simp add: rot_0)
  then have "word_rotr n (word_rotl (n - LENGTH('a)) a) = a" by (simp add: rotl_as_rotr)
  then have "word_rotl n a = word_rotl (n - LENGTH('a)) a" by (simp add: rotl_as_rotr)
  with r show "op = IR_BROL \<or> op = IR_BROR \<Longrightarrow> shf op n a = shf op (n - LENGTH('a)) a" by auto
qed

lemma shf_ror: "n \<le> LENGTH('a) \<Longrightarrow> shf IR_BROL (LENGTH('a) - n) (a :: 'a::len word) = shf IR_BROR n a"
  using word_rotr_word_rotr_eq [of "LENGTH('a) - n" n a] by (simp add: rotl_as_rotr rot_0)

lemma shf_and: "shf op n (a AND b) = shf op n a AND shf op n b"
proof -
  have "signed_drop_bit n (a AND b) = signed_drop_bit n a AND signed_drop_bit n b"
    by (rule bit_word_eqI) (auto simp: bit_simps)
  then show ?thesis by (simp add: shf_def word_rot_logs)
qed

lemma shf_zero: "shf op n 0 = 0"
  by (rule bit_word_eqI) (simp add: shf_def bit_simps)

lemma shf_ones: "op = IR_BSAR \<or> op = IR_BROL \<or> op = IR_BROR \<Longrightarrow> shf op n (- 1 :: 'a::len word) = - 1"
  by (rule bit_word_eqI) (auto simp: bit_simps)

lemma shf_mask: "shf op n a AND shf op n (- 1) = shf op n a"
  using shf_and [of op n a "- 1"] by simp

lemma neg_count:
  fixes k :: u32
  shows "unat k mod 32 \<noteq> 0 \<Longrightarrow> unat ((- k) AND 31) mod 32 = 32 - unat k mod 32"
    and "unat k mod 64 \<noteq> 0 \<Longrightarrow> unat ((- k) AND 63) mod 64 = 64 - unat k mod 64"
proof -
  have m: "unat (- k) mod n = n - unat k mod n" if n: "int n dvd 2 ^ 32" and z: "unat k mod n \<noteq> 0" for n
  proof -
    have "uint (- k) mod int n = (- uint k) mod int n" using n by (simp add: uint_word_ariths mod_mod_cancel)
    moreover have e: "uint x mod int n = int (unat x mod n)" for x :: u32 by (simp add: of_nat_mod)
    ultimately have "int (unat (- k) mod n) = int n - int (unat k mod n)" using z by (simp add: zmod_zminus1_eq_if)
    then show ?thesis by linarith
  qed
  show "unat k mod 32 \<noteq> 0 \<Longrightarrow> unat ((- k) AND 31) mod 32 = 32 - unat k mod 32" using m [of 32] by (simp add: and31)
  show "unat k mod 64 \<noteq> 0 \<Longrightarrow> unat ((- k) AND 63) mod 64 = 64 - unat k mod 64" using m [of 64] by (simp add: and63)
qed

section \<open>Shift instructions\<close>

lemma op_shf: "shiftop op \<Longrightarrow> op32 op a b = shf op (unat b mod 32) a" "shiftop op \<Longrightarrow> op64 op s c d = shf op (unat d mod 64) c"
  unfolding shiftop_cases by (elim disjE; simp add: op32_shift op64_shift)+

definition cnt :: "irins \<Rightarrow> u32 \<Rightarrow> nat" where "cnt i k = unat (k AND shiftmask i)"

lemma cnt_simps:
  assumes "typed b J i"
  shows "cnt i k = (if int64t (irt i) then unat k mod 64 else unat k mod 32)"
  by (simp add: cnt_def shiftmask_def is64_int [OF assms] and31 and63)

lemma shift_facts:
  assumes "typed b J i" "shiftop (opc i)"
  shows "wt J (irt i) (op1 i)" and "w32 J (op2 i)" and "noguard (opc i)" and "\<not> divop (opc i)" and "\<not> iscmp (opc i)" and "\<not> unop (opc i)"
  using typedD(4) [OF assms] assms(2) by (auto simp: shiftop_cases)

lemma w32_wt: "wt J IRT_INT r \<longleftrightarrow> w32 J r"
  using kint_type by (simp add: wt_def)

lemma w32_canon: "ok J \<Longrightarrow> agrees J \<nu> \<Longrightarrow> w32 J r \<Longrightarrow> sx (lo (\<nu> r)) = \<nu> r"
  using canon [of J \<nu> IRT_INT r] kint_type by (simp add: w32_wt)

lemma shift_eval:
  assumes "shiftop (opc i)" "\<nu> (op2 i) = sx k"
  shows "eval i \<nu> = (if int64t (irt i) then shf (opc i) (unat k mod 64) (\<nu> (op1 i))
    else sx (shf (opc i) (unat k mod 32) (lo (\<nu> (op1 i)))))"
  using assms sx_count [of k] by (simp add: eval_def op_shf)

lemma shift_ik_ok:
  assumes op: "shiftop op"
  shows "rule_ok fold_simplify_shift_ik (fkey2 op None (Some IR_KINT))"
proof (rule rule_okI)
  fix rf J fins J' res
  assume J: "ok J" and t: "typed True J fins" and key: "key_of (fkey2 op None (Some IR_KINT)) J fins"
    and e: "fold_simplify_shift_ik rf J fins = Some (J', res)" and nz: "0 < nk J'"
  have o': "opc fins = op" "opc (fr J fins) = IR_KINT" using key op by (auto simp: shiftop_cases)
  note sf = shift_facts [OF t, unfolded o', OF op]
  let ?k = "ik (fr J fins)" and ?m = "shiftmask fins"
  have kr: "\<nu> (op2 fins) = sx ?k" if "agrees J \<nu>" for \<nu> using kright(2) [OF J t o'(2) _ that] sf(6) o' by simp
  have ev: "eval fins \<nu> = (if int64t (irt fins) then shf op (unat ?k mod 64) (\<nu> (op1 fins)) else sx (shf op (unat ?k mod 32) (lo (\<nu> (op1 fins)))))"
    if "agrees J \<nu>" for \<nu> using shift_eval [of fins \<nu>] kr [OF that] op o' by simp
  have c: "cnt fins k = (if int64t (irt fins) then unat k mod 64 else unat k mod 32)" for k by (rule cnt_simps [OF t])
  have l1: "shiftop op \<Longrightarrow> typed True J1 (fins\<lparr>opc := op, op2 := r\<rparr>)" if "keeps J J1" "w32 J1 r" for J1 r op
    by (rule typed_shiftI) (use that sf typed_intt [OF t] keeps_wt(4) [OF that(1) sf(1)] in auto)
  consider "?k AND ?m = 0" | "?k AND ?m = 1" "op = IR_BSHL" | "?k AND ?m \<noteq> 0" "\<not> (?k AND ?m = 1 \<and> op = IR_BSHL)" by blast
  then show "res_ok J fins J' res"
  proof cases
    case 1
    then have "cnt fins ?k = 0" by (simp add: cnt_def)
    then have "res_ok J fins J (FREF (op1 fins))"
      using ev sf o' op canon [OF J _ sf(1)] by (intro res_ref [OF J]) (auto simp: c noguard_guard split: if_splits)
    then show ?thesis using e 1 by (auto simp: fold_simplify_shift_ik_def LEFTFOLD_def Let_def)
  next
    case 2
    then have c1: "cnt fins ?k = 1" by (simp add: cnt_def)
    have "res_ok J fins J (RETRYFOLD (fins\<lparr>opc := IR_ADD, op2 := op1 fins\<rparr>))"
    proof (rule res_retry [OF J])
      show "typed True J (fins\<lparr>opc := IR_ADD, op2 := op1 fins\<rparr>)"
        using sf(1) by (intro typed_addI) (auto simp: typed_intt [OF t] opr_def)
      show "eval (fins\<lparr>opc := IR_ADD, op2 := op1 fins\<rparr>) \<nu> = eval fins \<nu>" if "agrees J \<nu>" for \<nu>
        using ev [OF that] c1 2 by (auto simp: c eval_def push_bit_eq_mult split: if_splits)
    qed (use 2 o' in \<open>simp_all add: noguard_guard\<close>)
    then show ?thesis using e 2 o' by (auto simp: fold_simplify_shift_ik_def Let_def)
  next
    case 3
    consider (m) "?k AND ?m \<noteq> ?k" | (r) "?k AND ?m = ?k" "op = IR_BROR" | (n) "?k AND ?m = ?k" "op \<noteq> IR_BROR" by blast
    then show ?thesis
    proof cases
      case m
      have e': "retry_kint J fins (?k AND ?m) = Some (J', res)" using e 3 m o' by (auto simp: fold_simplify_shift_ik_def Let_def split: if_splits)
      show ?thesis
      proof (rule retry_kint_ok [OF J e' nz])
        show "typed True J1 (fins\<lparr>op2 := r\<rparr>)" if "keeps J J1" "w32 J1 r" for J1 r
          using l1 [OF that op] o' by (metis irins.surjective irins.update_convs(2,4))
        fix r \<nu> assume a: "agrees J \<nu>" and r: "\<nu> r = sx (?k AND ?m)"
        have "unat (?k AND 31) mod 32 = unat ?k mod 32" "unat (?k AND 63) mod 64 = unat ?k mod 64" by (simp_all add: and31 and63)
        then show "eval (fins\<lparr>op2 := r\<rparr>) \<nu> = eval fins \<nu>"
          using ev [OF a] shift_eval [of "fins\<lparr>op2 := r\<rparr>" \<nu>] r op o' by (auto simp: shiftmask_def is64_int [OF t])
      qed (use sf o' in \<open>simp_all add: noguard_guard\<close>)
    next
      case r
      have e': "retry_kint J (fins\<lparr>opc := IR_BROL\<rparr>) ((- ?k) AND ?m) = Some (J', res)"
        using e 3 r o' by (auto simp: fold_simplify_shift_ik_def Let_def split: if_splits)
      have cn: "cnt fins ?k \<noteq> 0" using 3 by (simp add: cnt_def unat_eq_0)
      note neg = neg_count(1) [of ?k] and neg64 = neg_count(2) [of ?k]
      show ?thesis
      proof (rule retry_kint_ok [OF J e' nz])
        show "typed True J1 (fins\<lparr>opc := IR_BROL\<rparr>\<lparr>op2 := r\<rparr>)" if "keeps J J1" "w32 J1 r" for J1 r
          using l1 [OF that, of IR_BROL] by simp
        fix q \<nu> assume a: "agrees J \<nu>" and q: "\<nu> q = sx ((- ?k) AND ?m)"
        show "eval (fins\<lparr>opc := IR_BROL\<rparr>\<lparr>op2 := q\<rparr>) \<nu> = eval fins \<nu>"
        proof (cases "int64t (irt fins)")
          case True
          then have z: "unat ?k mod 64 \<noteq> 0" using cn by (simp add: c)
          have "shf IR_BROL (64 - unat ?k mod 64) (\<nu> (op1 fins)) = shf IR_BROR (unat ?k mod 64) (\<nu> (op1 fins))"
            using shf_ror [of "unat ?k mod 64" "\<nu> (op1 fins)"] z by simp
          then show ?thesis using ev [OF a] shift_eval [of "fins\<lparr>opc := IR_BROL\<rparr>\<lparr>op2 := q\<rparr>" \<nu>] q neg64 [OF z] r True
            by (simp add: shiftmask_def is64_int [OF t])
        next
          case False
          then have z: "unat ?k mod 32 \<noteq> 0" using cn by (simp add: c)
          have "shf IR_BROL (32 - unat ?k mod 32) (lo (\<nu> (op1 fins))) = shf IR_BROR (unat ?k mod 32) (lo (\<nu> (op1 fins)))"
            using shf_ror [of "unat ?k mod 32" "lo (\<nu> (op1 fins))"] z by simp
          then show ?thesis using ev [OF a] shift_eval [of "fins\<lparr>opc := IR_BROL\<rparr>\<lparr>op2 := q\<rparr>" \<nu>] q neg [OF z] r False
            by (simp add: shiftmask_def is64_int [OF t])
        qed
      qed (use r o' in \<open>simp_all add: noguard_guard\<close>)
    next
      case n
      then have "J' = J" "res = NEXTFOLD" using e 3 o' by (auto simp: fold_simplify_shift_ik_def Let_def split: if_splits)
      then show ?thesis by simp
    qed
  qed
qed

text \<open>A mask that covers the significant bits of a count.\<close>

lemma count_mask:
  fixes x k :: u32
  shows "k AND 31 = 31 \<Longrightarrow> unat (x AND k) mod 32 = unat x mod 32" and "k AND 63 = 63 \<Longrightarrow> unat (x AND k) mod 64 = unat x mod 64"
proof -
  assume "k AND 31 = 31"
  then have "(x AND k) AND 31 = x AND 31" by (simp add: and.assoc)
  then show "unat (x AND k) mod 32 = unat x mod 32" by (metis and31)
next
  assume "k AND 63 = 63"
  then have "(x AND k) AND 63 = x AND 63" by (simp add: and.assoc)
  then show "unat (x AND k) mod 64 = unat x mod 64" by (metis and63)
qed

lemma shift_andk_ok:
  assumes op: "shiftop op"
  shows "rule_ok fold_simplify_shift_andk (fkey2 op None (Some IR_BAND))"
proof (rule rule_okI)
  fix rf J fins J' res
  assume J: "ok J" and t: "typed True J fins" and key: "key_of (fkey2 op None (Some IR_BAND)) J fins"
    and e: "fold_simplify_shift_andk rf J fins = Some (J', res)"
  have o': "opc fins = op" "opc (fr J fins) = IR_BAND" using key op by (auto simp: shiftop_cases)
  note sf = shift_facts [OF t, unfolded o', OF op]
  let ?r = "fr J fins" and ?f = "fins\<lparr>op2 := op1 (fr J fins)\<rparr>"
  have w: "wt J IRT_INT (op2 fins)" using sf(2) by (simp add: w32_wt)
  have cl: "binop IR_BAND" "\<not> iscmp IR_BAND" by simp_all
  note i = inner_bin [OF J w o'(2) cl]
  have "res_ok J fins J (RETRYFOLD ?f)" if k: "opc (ir J (op2 ?r)) = IR_KINT" "ik (ir J (op2 ?r)) AND shiftmask fins = shiftmask fins"
  proof (rule res_retry [OF J])
    have w1: "w32 J (op1 ?r)" using i(1) by (simp add: w32_wt)
    show "typed True J ?f" by (rule typed_shiftI) (use op o' sf w1 typed_intt [OF t] in auto)
    fix \<nu> assume a: "agrees J \<nu>"
    have "\<nu> (op2 ?r) = sx (ik (ir J (op2 ?r)))" by (rule kint_val(1) [OF J a wt_kint(3) [OF J i(2)] k(1)])
    then have v: "\<nu> (op2 fins) = sx (lo (\<nu> (op1 ?r)) AND ik (ir J (op2 ?r)))" using i(3) [OF a] kint_type by simp
    have v1: "\<nu> (op1 ?r) = sx (lo (\<nu> (op1 ?r)))" using w32_canon [OF J a w1] by simp
    show "eval ?f \<nu> = eval fins \<nu>"
      using shift_eval [of fins \<nu>, OF _ v] shift_eval [of ?f \<nu> "lo (\<nu> (op1 ?r))"] v1 op o' k(2)
        count_mask [of "ik (ir J (op2 ?r))" "lo (\<nu> (op1 ?r))"]
      by (auto simp: shiftmask_def is64_int [OF t] split: if_splits)
  qed (use sf o' in \<open>simp_all add: noguard_guard\<close>)
  then show "res_ok J fins J' res" using e by (auto simp: fold_simplify_shift_andk_def Let_def split: if_splits)
qed

lemma kval_left:
  assumes J: "ok J" and t: "typed True J fins" and s: "shiftop (opc fins)" and k: "opc (fl J fins) = IR_KINT \<or> opc (fl J fins) = IR_KINT64"
    and a: "agrees J \<nu>"
  shows "\<nu> (op1 fins) = kval (fl J fins)"
  using kint_val(1,2) [OF J a wt_kint(3) [OF J shift_facts(1) [OF t s]]] k by (auto simp: kval_def sx_def)

lemma shift_const_ok:
  assumes op: "shiftop op" and k: "k = IR_KINT \<or> k = IR_KINT64"
    and z: "\<And>x. c x \<Longrightarrow> x = 0 \<or> x = - 1 \<and> (op = IR_BSAR \<or> op = IR_BROL \<or> op = IR_BROR)"
    and f: "\<And>rf J fins. f rf J fins = Some (J, if c (kval (fl J fins)) then LEFTFOLD fins else NEXTFOLD)"
  shows "rule_ok f (fkey2 op (Some k) None)"
proof (rule rule_okI)
  fix rf J fins J' res
  assume J: "ok J" and t: "typed True J fins" and key: "key_of (fkey2 op (Some k) None) J fins" and e: "f rf J fins = Some (J', res)"
  have o': "opc fins = op" "opc (fl J fins) = k" using key by auto
  note sf = shift_facts [OF t, unfolded o', OF op]
  have "res_ok J fins J (FREF (op1 fins))" if c: "c (kval (fl J fins))"
  proof (rule res_ref [OF J])
    fix \<nu> assume a: "agrees J \<nu>"
    have v: "\<nu> (op1 fins) = kval (fl J fins)" using kval_left [OF J t _ _ a] o' op k by simp
    have v2: "\<nu> (op2 fins) = sx (lo (\<nu> (op2 fins)))" using w32_canon [OF J a sf(2)] by simp
    show "\<nu> (op1 fins) = eval fins \<nu>"
      using z [OF c] shift_eval [of fins \<nu>, OF _ v2] op o' v by (auto simp: shf_zero shf_ones simp del: shf_simps)
  qed (use sf o' in \<open>simp_all add: noguard_guard\<close>)
  then show "res_ok J fins J' res" using e f by (auto simp: LEFTFOLD_def split: if_splits)
qed

lemma shift1_ki_ok: "op = IR_BSHL \<or> op = IR_BSHR \<Longrightarrow> k = IR_KINT \<or> k = IR_KINT64 \<Longrightarrow> rule_ok fold_simplify_shift1_ki (fkey2 op (Some k) None)"
  by (rule shift_const_ok [where c = "\<lambda>x. x = 0"]) (auto simp: shiftop_cases fold_simplify_shift1_ki_def)

lemma shift2_ki_ok: "op = IR_BSAR \<or> op = IR_BROL \<or> op = IR_BROR \<Longrightarrow> k = IR_KINT \<or> k = IR_KINT64 \<Longrightarrow>
    rule_ok fold_simplify_shift2_ki (fkey2 op (Some k) None)"
  by (rule shift_const_ok [where c = "\<lambda>x. x = 0 \<or> x = - 1"]) (auto simp: shiftop_cases fold_simplify_shift2_ki_def)

text \<open>The shift behind an operand.\<close>

lemma inner_shift:
  assumes J: "ok J" and w: "wt J t r" and o': "opc (ir J r) = op" and f: "shiftop op"
  shows "wt J t (op1 (ir J r))" and "w32 J (op2 (ir J r))"
    and "agrees J \<nu> \<Longrightarrow> \<nu> (op2 (ir J r)) = sx k \<Longrightarrow> \<nu> r = (if int64t t then shf op (unat k mod 64) (\<nu> (op1 (ir J r)))
      else sx (shf op (unat k mod 32) (lo (\<nu> (op1 (ir J r))))))"
proof -
  have c: "foldop op" "\<not> iscmp op" "op \<noteq> IR_SUB \<or> intt (irt (ir J (op1 (ir J r))))" using f by (auto simp: shiftop_cases)
  note inn = inner [OF J w, unfolded o', OF c]
  show "wt J t (op1 (ir J r))" "w32 J (op2 (ir J r))" using shift_facts(1,2) [OF inn(1)] o' f inn(2) by (auto simp: wt_def)
  assume a: "agrees J \<nu>" and k: "\<nu> (op2 (ir J r)) = sx k"
  show "\<nu> r = (if int64t t then shf op (unat k mod 64) (\<nu> (op1 (ir J r))) else sx (shf op (unat k mod 32) (lo (\<nu> (op1 (ir J r))))))"
    using inn(3) [OF a] shift_eval [of "ir J r" \<nu>, OF _ k] o' f inn(2) by simp
qed

lemma andk_shiftk_ok:
  assumes op: "op = IR_BSHL \<or> op = IR_BSHR"
  shows "rule_ok fold_simplify_andk_shiftk (fkey2 IR_BAND (Some op) (Some IR_KINT))"
proof (rule rule_okI)
  fix rf J fins J' res
  assume J: "ok J" and t: "typed True J fins" and key: "key_of (fkey2 IR_BAND (Some op) (Some IR_KINT)) J fins"
    and e: "fold_simplify_andk_shiftk rf J fins = Some (J', res)"
  have o': "opc fins = IR_BAND" "opc (fl J fins) = op" "opc (fr J fins) = IR_KINT" using key by auto
  have w: "wt J (irt fins) (op1 fins)" "wt J (irt fins) (op2 fins)" using bin_wt [OF t] o' by auto
  have n64: "\<not> int64t (irt fins)" by (rule wt_kint(1) [OF J w(2) o'(3)])
  have sh: "shiftop op" using op by (auto simp: shiftop_cases)
  note i = inner_shift [OF J w(1) o'(2) sh]
  let ?k = "ir J (op2 (fl J fins))"
  have "res_ok J fins J (FREF (op1 fins))" if k: "opc ?k = IR_KINT" "kfold_intop (- 1) (ik ?k) op = ik (fr J fins)"
  proof (rule res_ref [OF J])
    fix \<nu> assume a: "agrees J \<nu>"
    have v: "\<nu> (op2 (fl J fins)) = sx (ik ?k)" using kint_val(1) [OF J a _ k(1)] i(2) by (simp add: w32_def)
    have r: "\<nu> (op2 fins) = sx (ik (fr J fins))" by (rule kint_val(1) [OF J a wt_kint(3) [OF J w(2)] o'(3)])
    have "ik (fr J fins) = shf op (unat (ik ?k) mod 32) (- 1)" using k(2) kfold_intop_min1 [OF op] op_shf(1) [OF sh] by simp
    then show "\<nu> (op1 fins) = eval fins \<nu>" using i(3) [OF a v] r n64 o' by (simp add: eval_def shf_mask)
  qed (use w o' in \<open>simp_all add: noguard_guard\<close>)
  then show "res_ok J fins J' res" using e o' by (auto simp: fold_simplify_andk_shiftk_def LEFTFOLD_def Let_def split: if_splits)
qed


section \<open>Two shifts by constants\<close>

lemma mask_sum:
  fixes k1 k2 :: u32
  shows "unat ((k1 AND 31) + (k2 AND 31)) = unat k1 mod 32 + unat k2 mod 32"
    and "unat ((k1 AND 63) + (k2 AND 63)) = unat k1 mod 64 + unat k2 mod 64"
proof -
  have b: "unat k1 mod 32 < 32" "unat k2 mod 32 < 32" "unat k1 mod 64 < 64" "unat k2 mod 64 < 64" by simp_all
  have "unat (k1 AND 31) + unat (k2 AND 31) < 2 ^ 32" "unat (k1 AND 63) + unat (k2 AND 63) < 2 ^ 32"
    using b unfolding and31 and63 by simp_all
  then show "unat ((k1 AND 31) + (k2 AND 31)) = unat k1 mod 32 + unat k2 mod 32"
    "unat ((k1 AND 63) + (k2 AND 63)) = unat k1 mod 64 + unat k2 mod 64"
    by (simp_all add: unat_word_ariths and31 and63)
qed

text \<open>The count that replaces the two, for the width \<open>L\<close>; \<open>None\<close> when nothing is left.\<close>

definition ccount :: "irop \<Rightarrow> nat \<Rightarrow> nat \<Rightarrow> nat option" where
  "ccount op L n =
     (if L \<le> n then if op = IR_BSHL \<or> op = IR_BSHR then None else if op = IR_BSAR then Some (L - 1) else Some (n - L) else Some n)"

lemma shf_ccount:
  assumes "shiftop op"
  shows "shf op m (shf op n (a :: 'a::len word)) = (case ccount op LENGTH('a) (n + m) of None \<Rightarrow> 0 | Some c \<Rightarrow> shf op c a)"
  unfolding shf_comp [OF assms] using assms shf_wrap [of "n + m" op a]
  by (auto simp: ccount_def shiftop_cases simp del: shf_simps)

lemma reassoc_shift_ok:
  assumes op: "shiftop op"
  shows "rule_ok fold_reassoc_shift (fkey2 op (Some op) (Some IR_KINT))"
proof (rule rule_okI)
  fix rf J fins J' res
  assume J: "ok J" and t: "typed True J fins" and key: "key_of (fkey2 op (Some op) (Some IR_KINT)) J fins"
    and e: "fold_reassoc_shift rf J fins = Some (J', res)" and nz: "0 < nk J'"
  have o': "opc fins = op" "opc (fl J fins) = op" "opc (fr J fins) = IR_KINT" using key op by (auto simp: shiftop_cases)
  note sf = shift_facts [OF t, unfolded o', OF op]
  note i = inner_shift [OF J sf(1) o'(2) op]
  let ?l = "fl J fins" and ?k = "ir J (op2 (fl J fins))" and ?L = "if int64t (irt fins) then 64 else 32 :: nat"
  let ?n = "unat (ik ?k) mod ?L + unat (ik (fr J fins)) mod ?L"
  let ?s = "(ik ?k AND shiftmask fins) + (ik (fr J fins) AND shiftmask fins)"
  have us: "unat ?s = ?n" using mask_sum [of "ik ?k" "ik (fr J fins)"] by (simp add: shiftmask_def is64_int [OF t])
  have un: "?n < 2 * ?L" using mod_less_divisor [of ?L "unat (ik ?k)"] mod_less_divisor [of ?L "unat (ik (fr J fins))"] by (simp only: mult_2) (auto split: if_splits)
  have lt: "shiftmask fins < ?s \<longleftrightarrow> ?L \<le> ?n" unfolding word_less_nat_alt us by (simp add: shiftmask_def is64_int [OF t]) arith
  show "res_ok J fins J' res"
  proof (cases "opc ?k = IR_KINT \<and> \<not> irt_isphi (irt ?l)")
    case False
    then have "J' = J" "res = NEXTFOLD" using e by (auto simp: fold_reassoc_shift_def Let_def split: if_splits)
    then show ?thesis by simp
  next
    case True
    have k1: "\<nu> (op2 ?l) = sx (ik ?k)" if "agrees J \<nu>" for \<nu> using kint_val(1) [OF J that, of "op2 ?l"] i(2) True by (simp add: w32_def)
    have k2: "\<nu> (op2 fins) = sx (ik (fr J fins))" if "agrees J \<nu>" for \<nu> using kint_val(1) [OF J that, of "op2 fins"] sf(2) o' by (simp add: w32_def)
    have ev: "eval fins \<nu> = (case ccount op ?L ?n of None \<Rightarrow> 0 | Some c \<Rightarrow>
        if int64t (irt fins) then shf op c (\<nu> (op1 ?l)) else sx (shf op c (lo (\<nu> (op1 ?l)))))" if a: "agrees J \<nu>" for \<nu>
      using shift_eval [of fins \<nu>, OF _ k2 [OF a]] i(3) [OF a k1 [OF a]] o' op
        shf_ccount [OF op, of _ _ "\<nu> (op1 ?l)"] shf_ccount [OF op, of _ _ "lo (\<nu> (op1 ?l))"]
      by (auto split: option.splits)
    have rt: "res_ok J fins J' res" if e': "retry_kint J (fins\<lparr>op1 := op1 ?l\<rparr>) c = Some (J', res)" and c: "ccount op ?L ?n = Some (unat c)" "unat c < ?L" for c
    proof (rule retry_kint_ok [OF J e' nz])
      show "typed True J1 (fins\<lparr>op1 := op1 ?l\<rparr>\<lparr>op2 := r\<rparr>)" if "keeps J J1" "w32 J1 r" for J1 r
        by (rule typed_shiftI) (use that op o' keeps_wt(4) [OF that(1) i(1)] typed_intt [OF t] in auto)
      fix r \<nu> assume a: "agrees J \<nu>" and r: "\<nu> r = sx c"
      show "eval (fins\<lparr>op1 := op1 ?l\<rparr>\<lparr>op2 := r\<rparr>) \<nu> = eval fins \<nu>"
        unfolding ev [OF a] c(1) using shift_eval [of "fins\<lparr>op1 := op1 ?l\<rparr>\<lparr>op2 := r\<rparr>" \<nu> c] r o' op c(2) by (auto split: if_splits)
    qed (use sf o' in \<open>simp_all add: noguard_guard\<close>)
    have um: "unat (shiftmask fins) = ?L - 1" by (simp add: shiftmask_def is64_int [OF t])
    consider (z) "?L \<le> ?n" "op = IR_BSHL \<or> op = IR_BSHR" | (s) "?L \<le> ?n" "op = IR_BSAR"
      | (r) "?L \<le> ?n" "op = IR_BROL \<or> op = IR_BROR" | (n) "?n < ?L"
      using op not_le_imp_less [of ?L ?n] unfolding shiftop_cases by blast
    then show ?thesis
    proof cases
      case z
      then have c: "ccount op ?L ?n = None" by (simp add: ccount_def)
      have m: "shiftmask fins = 31 \<longleftrightarrow> \<not> int64t (irt fins)" by (simp add: shiftmask_def is64_int [OF t])
      have e': "(if shiftmask fins = 31 then (J, KINTFOLD 0) else INT64FOLD J 0) = (J', res)"
        using e True z lt o' by (simp add: fold_reassoc_shift_def Let_def)
      show ?thesis
      proof (cases "int64t (irt fins)")
        case True
        then have e2: "INT64FOLD J 0 = (J', res)" using e' m by simp
        show ?thesis by (rule res_kint64 [OF J True _ _ e2 nz]) (use ev c sf o' in auto)
      next
        case False
        then have "J' = J" "res = KINTFOLD 0" using e' m by auto
        then show ?thesis using res_kint [OF J, of fins 0] sf o' ev c by simp
      qed
    next
      case s
      have e': "retry_kint J (fins\<lparr>op1 := op1 ?l\<rparr>) (shiftmask fins) = Some (J', res)"
        using e True s lt o' by (simp add: fold_reassoc_shift_def Let_def)
      show ?thesis by (rule rt [OF e']) (use s in \<open>simp_all add: ccount_def um\<close>)
    next
      case r
      have e': "retry_kint J (fins\<lparr>op1 := op1 ?l\<rparr>) (?s AND shiftmask fins) = Some (J', res)"
        using e True r lt o' by (auto simp: fold_reassoc_shift_def Let_def)
      have "unat (?s AND shiftmask fins) = ?n mod ?L" unfolding us [symmetric] by (simp add: shiftmask_def is64_int [OF t] and31 and63)
      moreover have "?n mod ?L = ?n - ?L" using r(1) un by (simp add: le_mod_geq)
      ultimately show ?thesis using r un by (intro rt [OF e']) (auto simp: ccount_def)
    next
      case n
      have e': "retry_kint J (fins\<lparr>op1 := op1 ?l\<rparr>) ?s = Some (J', res)"
        using e True n lt by (simp add: fold_reassoc_shift_def Let_def not_le [symmetric])
      show ?thesis by (rule rt [OF e']) (use n us in \<open>simp_all add: ccount_def\<close>)
    qed
  qed
qed

end
