(* ===== verification/FoldNest.thy ===== *)
theory FoldNest
  imports FoldShift
begin

text \<open>
  The rule that folds an inner instruction: \<open>(i & k1) o k2\<close> becomes \<open>(i o k2) & (k1 o k2)\<close>, where the
  shift of \<open>i\<close> goes through the whole engine before the outer instruction is retried.
\<close>

section \<open>Constants only grow downwards\<close>

lemma kint_nk: "lj_ir_kint J k = (J', r) \<Longrightarrow> nk J' \<le> nk J"
  unfolding lj_ir_kint_def klink_def ir_nextk_def Let_def by (auto split: option.splits)

lemma kint64_nk: "lj_ir_kint64 J k = (J', r) \<Longrightarrow> nk J' \<le> nk J"
  unfolding lj_ir_kint64_def lj_ir_k64_def klink_def ir_nextk64_def Let_def by (auto split: option.splits)

lemma emit_nk: "lj_ir_emit J fins = (J', r) \<Longrightarrow> nk J' = nk J"
  by (auto simp: lj_ir_emit_def lj_ir_nextins_def Let_def)

lemma cse_nk: "lj_opt_cse J fins = (J', r) \<Longrightarrow> nk J' = nk J"
  by (auto simp: lj_opt_cse_def emit_nk Let_def split: option.splits if_splits)

lemma retry_kint_nk: "retry_kint J f k = Some (J', res) \<Longrightarrow> nk J' \<le> nk J"
  by (auto simp: retry_kint_def dest: kint_nk split: prod.splits)

lemma retry_kint64_nk: "retry_kint64 J f k = Some (J', res) \<Longrightarrow> nk J' \<le> nk J"
  by (auto simp: retry_kint64_def dest: kint64_nk split: prod.splits)

section \<open>The rule\<close>

lemma retry_kint_res: "retry_kint J f k = Some (J', res) \<Longrightarrow> \<exists>g. res = RETRYFOLD g"
  and retry_kint64_res: "retry_kint64 J f k' = Some (J', res) \<Longrightarrow> \<exists>g. res = RETRYFOLD g"
  by (auto simp: retry_kint_def retry_kint64_def split: prod.splits)

lemma res_pre:
  assumes "post J J1 (\<lambda>_. True)" "res_ok J1 fins J' (RETRYFOLD f)" "\<not> int64t (irt fins)"
  shows "res_ok J fins J' (RETRYFOLD f)"
  using assms post_trans [of J J1 "\<lambda>_. True" J' "\<lambda>_. True" "\<lambda>_. True"] by (auto simp: res_ok_def equiv_def nomask_def)

lemma shiftk_andk_ok:
  assumes op: "op = IR_BSHL \<or> op = IR_BSHR \<or> op = IR_BROL \<or> op = IR_BROR"
  shows "rule_ok fold_simplify_shiftk_andk (fkey2 op (Some IR_BAND) (Some IR_KINT))"
proof (rule rule_okI)
  fix rf J fins J' res
  assume rf: "fold_ok rf" and J: "ok J" and t: "typed True J fins" and key: "key_of (fkey2 op (Some IR_BAND) (Some IR_KINT)) J fins"
    and e: "fold_simplify_shiftk_andk rf J fins = Some (J', res)" and nz: "0 < nk J'" and nm: "nomask J fins"
  have sh: "shiftop op" using op by (auto simp: shiftop_cases)
  have o': "opc fins = op" "opc (fl J fins) = IR_BAND" "opc (fr J fins) = IR_KINT" using key op by auto
  note sf = shift_facts [OF t, unfolded o', OF sh]
  have ba: "binop IR_BAND" "\<not> iscmp IR_BAND" by simp_all
  note i = inner_bin [OF J sf(1) o'(2) ba]
  let ?l = "fl J fins" and ?k = "ir J (op2 (fl J fins))" and ?kr = "ik (fr J fins)" and ?f = "fins\<lparr>op1 := op1 (fl J fins)\<rparr>"
  have k2: "\<nu> (op2 fins) = sx ?kr" if "agrees J \<nu>" for \<nu> using kint_val(1) [OF J that, of "op2 fins"] sf(2) o' by (simp add: w32_def)
  have tf: "typed b J ?f" for b by (rule typed_shiftI) (use sh o' i(1) sf typed_intt [OF t] in auto)
  have gf: "guard ?f \<nu>" "guard fins \<nu>" for \<nu> by (simp_all add: noguard_guard o' sf)
  show "res_ok J fins J' res"
  proof (cases "irt_isphi (irt ?l) \<or> opc ?k \<noteq> IR_KINT \<and> opc ?k \<noteq> IR_KINT64")
    case True
    then have "J' = J" "res = NEXTFOLD" using e by (auto simp: fold_simplify_shiftk_andk_def Let_def split: if_splits)
    then show ?thesis by simp
  next
    case False
    then obtain J1 r where r: "rf J ?f = Some (J1, r)"
      using e by (auto simp: fold_simplify_shiftk_andk_def Let_def split: if_splits option.splits sum.splits)
    have n1: "nk J' \<le> nk J1"
      using e r False by (auto simp: fold_simplify_shiftk_andk_def Let_def dest: retry_kint_nk retry_kint64_nk split: if_splits sum.splits)
    have sg: "sgn_ok J ?f" using sf o' by (simp add: sgn_nodiv)
    have nf: "nomask J ?f" using nm by (simp add: nomask_def)
    have fo: "case r of Inl e \<Rightarrow> post J J1 (\<lambda>_. True) \<and> (\<forall>\<nu>. agrees J1 \<nu> \<longrightarrow> \<not> guard ?f \<nu>)
        | Inr ref \<Rightarrow> post J J1 (guard ?f) \<and> rval J J1 ?f ref"
      using rf r n1 nz J tf [of True] tf [of False] sg nf unfolding fold_ok_def by (meson less_le_trans)
    show ?thesis
    proof (cases r)
      case (Inl x)
      then have "J' = J1" "res = FAILFOLD" using e r False by (auto simp: fold_simplify_shiftk_andk_def Let_def split: if_splits)
      then show ?thesis using fo Inl gf by (simp add: res_ok_def)
    next
      case (Inr ref)
      have gt: "guard ?f = (\<lambda>_. True)" using gf by auto
      have p: "post J J1 (\<lambda>_. True)" and rv: "rval J J1 ?f ref" using fo Inr gt by simp_all
      note p1 = postD [OF p]
      have wr: "vref J1 ref" "wt J1 (irt fins) ref \<or> k0 J1 ref" "\<And>\<nu>. agrees J1 \<nu> \<Longrightarrow> \<nu> ref = eval ?f \<nu>"
        using rv sf o' by (auto simp: rval_def)
      have ev: "eval ?f \<nu> = (if int64t (irt fins) then shf op (unat ?kr mod 64) (\<nu> (op1 ?l)) else sx (shf op (unat ?kr mod 32) (lo (\<nu> (op1 ?l)))))"
        "eval fins \<nu> = (if int64t (irt fins) then shf op (unat ?kr mod 64) (\<nu> (op1 fins)) else sx (shf op (unat ?kr mod 32) (lo (\<nu> (op1 fins)))))"
        if "agrees J1 \<nu>" for \<nu>
        using shift_eval [of ?f \<nu>] shift_eval [of fins \<nu>] k2 [OF p1(3) [OF that]] sh o' by auto
      show ?thesis
      proof (cases "opc ?k = IR_KINT")
        case k: True
        have n64: "\<not> int64t (irt fins)" by (rule wt_kint(1) [OF J i(2) k])
        have w1: "wt J1 (irt fins) ref" using wr(2) n64 k0_w32 [OF p1(1)] by (auto simp: wt_def)
        have e': "retry_kint J1 (IRTI_BAND (fins\<lparr>op1 := ref\<rparr>)) (kfold_intop (ik ?k) ?kr op) = Some (J', res)"
          using e r Inr False k o' by (simp add: fold_simplify_shiftk_andk_def Let_def)
        obtain g where g: "res = RETRYFOLD g" using retry_kint_res [OF e'] by blast
        have "res_ok J1 fins J' res"
        proof (rule retry_kint_ok [OF p1(1) e' nz])
          fix J2 q assume kp: "keeps J1 J2" and q: "w32 J2 q"
          have "w32 J2 ref" using keeps_wt(4) [OF kp w1] n64 by (simp add: wt_def)
          then show "typed True J2 (IRTI_BAND (fins\<lparr>op1 := ref\<rparr>)\<lparr>op2 := q\<rparr>)"
            using q kint_type by (intro typed_binI) (auto simp: IRTI_BAND_def wt_def intt_def)
        next
          fix q \<nu> assume a: "agrees J1 \<nu>" and q: "\<nu> q = sx (kfold_intop (ik ?k) ?kr op)"
          have kk: "kfold_intop (ik ?k) ?kr op = shf op (unat ?kr mod 32) (ik ?k)"
            using kfold_intop_shift [OF sh] op_shf(1) [OF sh] by simp
          have "\<nu> (op2 ?l) = sx (ik ?k)" by (rule kint_val(1) [OF J p1(3) [OF a] wt_kint(3) [OF J i(2)] k])
          then show "eval (IRTI_BAND (fins\<lparr>op1 := ref\<rparr>)\<lparr>op2 := q\<rparr>) \<nu> = eval fins \<nu>"
            using ev [OF a] wr(3) [OF a] i(3) [OF p1(3) [OF a]] n64 kint_type q kk
            by (simp add: IRTI_BAND_def eval_def shf_and)
        qed (use sf o' sh n64 kint_type gf in \<open>auto simp: IRTI_BAND_def noguard_guard\<close>)
        then show ?thesis using res_pre [OF p] g n64 by simp
      next
        case k: False
        then have k: "opc ?k = IR_KINT64" using False by auto
        have y64: "int64t (irt fins)" by (rule wt_kint(2) [OF J i(2) k])
        have "mask_free J" using nm y64 sh o' by (simp add: nomask_def)
        moreover have "vref J (op1 fins)" "int64t (irt ?l)" using wt_kint(3,4) [OF J sf(1)] y64 by auto
        ultimately have False using k o'(2) by (auto simp: mask_free_def)
        then show ?thesis ..
      qed
    qed
  qed
qed

end
