(* ===== verification/FoldSound.thy ===== *)
theory FoldSound
  imports FoldNest
begin

text \<open>
  Soundness of the FOLD engine on integer instructions: every entry of the rule table is sound, so the
  dispatch is, and by induction on the fuel so are the retry loop and the nested folds.
\<close>

section \<open>The rule table\<close>

definition sound_table :: "(fkey list \<times> frule) list \<Rightarrow> bool" where
  "sound_table rs \<longleftrightarrow> list_all (\<lambda>(ks, f). list_all (rule_ok f) ks) rs"

lemma kfold_sound: "sound_table kfold_rules"
  unfolding sound_table_def kfold_rules_def
  by (simp add: kfold_intarith_ok kop32_def kfold_bnot_ok kfold_bswap_ok kfold_intovarith_ok kfold_intcomp_ok kfold_intcomp0_ok
      kfold_int64arith_ok kfold_int64arith2_ok kfold_int64shift_ok kfold_bnot64_ok kfold_bswap64_ok kfold_int64comp_ok
      kfold_int64comp0_ok kfold_kref_ok)

lemma simplify_sound: "sound_table simplify_rules"
  unfolding sound_table_def simplify_rules_def
  using shortcut_leftleft_ok [OF _ refl, of IR_NEG] shortcut_leftleft_ok [OF _ refl, of IR_BNOT] shortcut_leftleft_ok [OF _ refl, of IR_BSWAP]
  by (simp add: numadd_negx_ok numadd_xneg_ok numsub_xneg_ok nummuldiv_negneg_ok intadd_k_ok intmul_k_ok
      intsub_k_ok intsub_kleft_ok intadd_k64_ok intsub_k64_ok intmul_k32_ok intmul_k64_ok intmod_k_ok intmod_kleft_ok intsub_ok
      leftcancel_ok intsubsub_leftcancel_ok intsubsub_rightcancel_ok intsubadd_rightcancel_ok intsubaddadd_cancel_ok mask_k_ok
      shift_ik_ok shift_andk_ok shift1_ki_ok shift2_ki_ok shiftk_andk_ok andk_shiftk_ok andor_k_ok andor_k64_ok)

lemma reassoc_sound: "sound_table reassoc_rules"
  unfolding sound_table_def reassoc_rules_def
  by (simp add: reassoc_k_ok reassoc_k64_ok reassoc_dup_ok reassoc_dup_minmax_ok reassoc_bxor_ok reassoc_shift_ok reassoc_minmax_k_ok)

lemma abc_comm_sound: "sound_table abc_comm_rules"
  unfolding sound_table_def abc_comm_rules_def
  by (simp add: abc_fwd_ok abc_k_ok abc_invar_ok comm_swap_ok comm_equal_ok comm_comp_ok comm_dup_ok comm_dup_minmax_ok comm_bxor_ok)

lemma rule_for_mem: "rule_for k = Some f \<Longrightarrow> \<exists>ks. (ks, f) \<in> set fold_rules \<and> k \<in> set ks"
  unfolding rule_for_def by (auto simp: find_Some_iff) (metis fst_conv nth_mem)

lemma rule_for_ok:
  assumes "rule_for k = Some f"
  shows "rule_ok f k"
proof -
  have "sound_table fold_rules"
    using kfold_sound simplify_sound reassoc_sound abc_comm_sound by (simp add: sound_table_def fold_rules_def)
  then show ?thesis using rule_for_mem [OF assms] by (auto simp: sound_table_def list_all_iff)
qed

text \<open>No rule takes constants back.\<close>

definition rf_nk :: "(jit_State \<Rightarrow> irins \<Rightarrow> fout) \<Rightarrow> bool" where
  "rf_nk rf \<longleftrightarrow> (\<forall>J fins J' r. rf J fins = Some (J', r) \<longrightarrow> nk J' \<le> nk J)"

definition rule_nk :: "frule \<Rightarrow> bool" where
  "rule_nk f \<longleftrightarrow> (\<forall>rf J fins J' res. rf_nk rf \<longrightarrow> f rf J fins = Some (J', res) \<longrightarrow> nk J' \<le> nk J)"

definition keep_rule :: "frule \<Rightarrow> bool" where
  "keep_rule f \<longleftrightarrow> (\<forall>rf J fins J' res. f rf J fins = Some (J', res) \<longrightarrow> J' = J)"

lemma keep_nk: "keep_rule f \<Longrightarrow> rule_nk f"
  unfolding keep_rule_def rule_nk_def by blast

lemma zero_fold_nk: "zero_fold J fins = (J', res) \<Longrightarrow> nk J' \<le> nk J"
  by (auto simp: zero_fold_def INT64FOLD_def dest: kint64_nk split: if_splits prod.splits)

lemma int64fold_nk: "INT64FOLD J k = (J', res) \<Longrightarrow> nk J' \<le> nk J"
  by (auto simp: INT64FOLD_def dest: kint64_nk split: prod.splits)

lemma emitfold_nk: "EMITFOLD J fins = (J', res) \<Longrightarrow> nk J' \<le> nk J"
  by (auto simp: EMITFOLD_def dest: emit_nk split: prod.splits)

lemmas nk_dests = retry_kint_nk retry_kint64_nk zero_fold_nk int64fold_nk emitfold_nk

lemma keep_rules1: "keep_rule fold_kfold_intarith" "keep_rule fold_kfold_intovarith" "keep_rule fold_kfold_bnot" "keep_rule fold_kfold_bswap"
  "keep_rule fold_kfold_intcomp" "keep_rule fold_kfold_intcomp0" "keep_rule fold_kfold_int64comp" "keep_rule fold_kfold_int64comp0"
  "keep_rule fold_kfold_kref"
  by (simp_all add: keep_rule_def Let_def fold_kfold_intarith_def fold_kfold_intovarith_def fold_kfold_bnot_def fold_kfold_bswap_def
      fold_kfold_intcomp_def fold_kfold_intcomp0_def fold_kfold_int64comp_def fold_kfold_int64comp0_def fold_kfold_kref_def)

lemma nk_rules1: "rule_nk fold_kfold_int64arith" "rule_nk fold_kfold_int64arith2" "rule_nk fold_kfold_int64shift" "rule_nk fold_kfold_bnot64"
  "rule_nk fold_kfold_bswap64"
  by (simp_all add: rule_nk_def Let_def fold_kfold_int64arith_def fold_kfold_int64arith2_def fold_kfold_int64shift_def fold_kfold_bnot64_def
      fold_kfold_bswap64_def int64fold_nk)

lemma keep_rules2: "keep_rule fold_shortcut_leftleft" "keep_rule fold_simplify_numadd_negx" "keep_rule fold_simplify_numadd_xneg"
  "keep_rule fold_simplify_numsub_xneg" "keep_rule fold_simplify_nummuldiv_negneg" "keep_rule fold_simplify_intadd_k"
  "keep_rule fold_simplify_intmul_k" "keep_rule fold_simplify_intsub_kleft" "keep_rule fold_simplify_intadd_k64"
  "keep_rule fold_simplify_intmod_kleft" "keep_rule fold_simplify_intsubadd_leftcancel" "keep_rule fold_simplify_intsubsub_rightcancel"
  "keep_rule fold_simplify_intsubaddadd_cancel" "keep_rule fold_simplify_band_k" "keep_rule fold_simplify_bor_k" "keep_rule fold_simplify_shift_andk"
  "keep_rule fold_simplify_shift1_ki" "keep_rule fold_simplify_shift2_ki" "keep_rule fold_simplify_andk_shiftk" "keep_rule fold_simplify_andor_k"
  "keep_rule fold_simplify_andor_k64"
  by (simp_all add: keep_rule_def Let_def fold_shortcut_leftleft_def fold_simplify_numadd_negx_def fold_simplify_numadd_xneg_def
      fold_simplify_numsub_xneg_def fold_simplify_nummuldiv_negneg_def fold_simplify_intadd_k_def fold_simplify_intmul_k_def
      fold_simplify_intsub_kleft_def fold_simplify_intadd_k64_def fold_simplify_intmod_kleft_def fold_simplify_intsubadd_leftcancel_def
      fold_simplify_intsubsub_rightcancel_def fold_simplify_intsubaddadd_cancel_def fold_simplify_band_k_def fold_simplify_bor_k_def
      fold_simplify_shift_andk_def fold_simplify_shift1_ki_def fold_simplify_shift2_ki_def fold_simplify_andk_shiftk_def
      fold_simplify_andor_k_def fold_simplify_andor_k64_def)

lemma retry_neg_nk: "retry_neg J f k = Some (J', res) \<Longrightarrow> nk J' \<le> nk J"
  by (auto simp: retry_neg_def dest: kint_nk split: prod.splits)

lemma simplify_intmul_k_nk: "simplify_intmul_k J f k = Some (J', res) \<Longrightarrow> nk J' \<le> nk J"
  by (auto simp: simplify_intmul_k_def dest: retry_kint_nk split: if_splits)

lemma nk_rules2: "rule_nk fold_simplify_intsub_k" "rule_nk fold_simplify_intsub_k64" "rule_nk fold_simplify_intmul_k32"
  "rule_nk fold_simplify_intmul_k64" "rule_nk fold_simplify_intmod_k" "rule_nk fold_simplify_intsub" "rule_nk fold_simplify_intsubsub_leftcancel"
  "rule_nk fold_simplify_intsubadd_rightcancel" "rule_nk fold_simplify_bxor_k" "rule_nk fold_simplify_shift_ik"
  unfolding rule_nk_def Let_def fold_simplify_intsub_k_def fold_simplify_intsub_k64_def fold_simplify_intmul_k32_def fold_simplify_intmul_k64_def
    fold_simplify_intmod_k_def fold_simplify_intsub_def fold_simplify_intsubsub_leftcancel_def fold_simplify_intsubadd_rightcancel_def
    fold_simplify_bxor_k_def fold_simplify_shift_ik_def
  by (auto dest: nk_dests retry_neg_nk simplify_intmul_k_nk split: if_splits)

lemma nk_shiftk_andk: "rule_nk fold_simplify_shiftk_andk"
  unfolding rule_nk_def
proof (intro allI impI)
  fix rf :: "jit_State \<Rightarrow> irins \<Rightarrow> fout" and J fins J' res
  assume rf: "rf_nk rf" and e: "fold_simplify_shiftk_andk rf J fins = Some (J', res)"
  show "nk J' \<le> nk J"
  proof (cases "rf J (fins\<lparr>op1 := op1 (fl J fins)\<rparr>)")
    case None
    then show ?thesis using e by (auto simp: fold_simplify_shiftk_andk_def Let_def split: if_splits)
  next
    case (Some a)
    obtain J1 r where a: "a = (J1, r)" by (cases a)
    then have "nk J1 \<le> nk J" using rf Some by (auto simp: rf_nk_def)
    moreover have "J' = J \<or> nk J' \<le> nk J1"
      using e Some a by (auto simp: fold_simplify_shiftk_andk_def Let_def dest: nk_dests split: if_splits sum.splits)
    ultimately show ?thesis by auto
  qed
qed

lemma keep_rules3: "keep_rule fold_reassoc_dup" "keep_rule fold_reassoc_dup_minmax" "keep_rule fold_reassoc_bxor" "keep_rule fold_abc_invar"
  "keep_rule fold_comm_swap" "keep_rule fold_comm_comp" "keep_rule fold_comm_dup_minmax"
  by (simp_all add: keep_rule_def Let_def fold_reassoc_dup_def fold_reassoc_dup_minmax_def fold_reassoc_bxor_def fold_abc_invar_def
      fold_comm_swap_def fold_comm_comp_def fold_comm_dup_minmax_def)

lemma nk_rules3: "rule_nk fold_reassoc_intarith_k" "rule_nk fold_reassoc_intarith_k64" "rule_nk fold_reassoc_shift" "rule_nk fold_reassoc_minmax_k"
  "rule_nk fold_comm_equal" "rule_nk fold_comm_dup" "rule_nk fold_comm_bxor" "rule_nk fold_abc_fwd"
  unfolding rule_nk_def Let_def fold_reassoc_intarith_k_def fold_reassoc_intarith_k64_def fold_reassoc_shift_def fold_reassoc_minmax_k_def
    fold_comm_equal_def fold_comm_dup_def fold_comm_bxor_def fold_comm_swap_def fold_abc_fwd_def
  by (auto dest: nk_dests split: if_splits option.splits)

lemma nk_abc_k: "rule_nk fold_abc_k"
  unfolding rule_nk_def Let_def fold_abc_k_def by (auto dest: nk_dests split: if_splits option.splits)

lemma rule_for_nk: "rule_for k = Some f \<Longrightarrow> rule_nk f"
proof -
  assume r: "rule_for k = Some f"
  have "list_all (\<lambda>r. rule_nk (snd r)) fold_rules"
    unfolding fold_rules_def kfold_rules_def simplify_rules_def reassoc_rules_def abc_comm_rules_def
    by (simp add: keep_nk keep_rules1 keep_rules2 keep_rules3 nk_rules1 nk_rules2 nk_rules3 nk_shiftk_andk nk_abc_k)
  then show ?thesis using rule_for_mem [OF r] by (auto simp: list_all_iff)
qed

section \<open>The dispatch\<close>

lemma fold_match_nk: "rf_nk rf \<Longrightarrow> fold_match ks rf J fins = Some (J', res) \<Longrightarrow> nk J' \<le> nk J"
proof (induction ks arbitrary: J)
  case (Cons k ks)
  show ?case
  proof (cases "rule_for k")
    case None
    then show ?thesis using Cons by simp
  next
    case (Some f)
    have f: "f rf J fins = Some (J1, r) \<Longrightarrow> nk J1 \<le> nk J" for J1 r
      using rule_for_nk [OF Some] Cons.prems(1) unfolding rule_nk_def by blast
    obtain J1 r where r: "f rf J fins = Some (J1, r)" using Cons.prems(2) Some by (auto split: option.splits)
    have "r = NEXTFOLD \<Longrightarrow> nk J' \<le> nk J1" using Cons.IH [of J1] Cons.prems Some r by simp
    moreover have "r \<noteq> NEXTFOLD \<Longrightarrow> J' = J1" using Cons.prems Some r by (cases r) auto
    ultimately show ?thesis using f [OF r] by force
  qed
qed simp

lemma fold_match_ok:
  assumes rf: "fold_ok rf" "rf_nk rf" and J: "ok J" and t: "typed True J fins" and s: "sgn_ok J fins" and n: "nomask J fins"
    and k: "\<And>k. k \<in> set ks \<Longrightarrow> key_of k J fins" and e: "fold_match ks rf J fins = Some (J', res)" and nz: "0 < nk J'"
  shows "res_ok J fins J' res"
  using k e
proof (induction ks)
  case (Cons k ks)
  show ?case
  proof (cases "rule_for k")
    case None
    then show ?thesis using Cons by simp
  next
    case (Some f)
    obtain J1 r where r: "f rf J fins = Some (J1, r)" using Cons.prems(2) Some by (auto split: option.splits)
    have "r = NEXTFOLD \<Longrightarrow> fold_match ks rf J1 fins = Some (J', res)" "r \<noteq> NEXTFOLD \<Longrightarrow> J' = J1 \<and> res = r"
      using Cons.prems Some r by (cases r; simp)+
    note c = this
    have "0 < nk J1" using nz c fold_match_nk [OF rf(2)] by (cases "r = NEXTFOLD") force+
    then have ro: "res_ok J fins J1 r"
      using rule_for_ok [OF Some] rf(1) J t s n Cons.prems(1) r unfolding rule_ok_def by (meson list.set_intros(1))
    show ?thesis
    proof (cases "r = NEXTFOLD")
      case True
      then have "J1 = J" using ro by (simp add: res_ok_def)
      then show ?thesis using Cons.IH Cons.prems(1) c(1) True by simp
    next
      case False
      then show ?thesis using c(2) ro by simp
    qed
  qed
qed simp

lemma keys_match:
  assumes J: "ok J" and t: "typed b J fins" and k: "k \<in> set (fold_keys J fins)"
  shows "key_of k J fins"
proof -
  have l: "nk J \<le> op1 fins" using vref_range [OF J typed_vref(1) [OF t]] by simp
  have r: "nk J \<le> op2 fins" if "\<not> unop (opc fins)" using vref_range [OF J] typed_vref(2) [OF t] that by blast
  show ?thesis using k l r
    by (auto simp: fold_keys_def Let_def key_left_def key_right_def key_of_def)
qed

text \<open>The most specific key of an addition of two zeros belongs to a rule that folds it.\<close>

lemma rule_kk: "op = IR_ADD \<or> op = IR_SUB \<or> op = IR_NEG \<Longrightarrow> rule_for (fkey2 op (Some IR_KINT) (Some IR_KINT)) = Some fold_kfold_intarith"
  unfolding rule_for_def fold_rules_def kfold_rules_def by (elim disjE) simp_all

lemma fold_match_next:
  assumes J: "ok J" and t: "typed True J fins" and nt: "\<not> typed False J fins"
  shows "fold_match (fold_keys J fins) rf J fins \<noteq> Some (J', NEXTFOLD)"
proof -
  have "(addop (opc fins) \<or> opc fins = IR_NEG) \<and> k0 J (op1 fins) \<and> k0 J (op2 fins)"
  proof (rule ccontr)
    assume a: "\<not> ?thesis"
    note d = typedD [OF t]
    have "typed False J fins"
    proof (rule typedI)
      show "addop (opc fins) \<longrightarrow> addt False J (irt fins) (op1 fins) (op2 fins)"
        using d(6) a by (auto simp: addt_def split: if_splits)
      show "opc fins = IR_NEG \<longrightarrow> wt J (irt fins) (op1 fins) \<and> wt J (irt fins) (op2 fins) \<or>
          False \<and> int64t (irt fins) \<and> k0 J (op1 fins) \<and> k0 J (op2 fins)"
        using d(7) a by auto
    qed (use d in blast)+
    then show False using nt by blast
  qed
  then have o': "opc fins = IR_ADD \<or> opc fins = IR_SUB \<or> opc fins = IR_NEG" and k: "opc (fl J fins) = IR_KINT" "opc (fr J fins) = IR_KINT"
    by (auto simp: addop_def k0_def)
  have nu: "\<not> unop (opc fins)" using o' by auto
  have "nk J \<le> op1 fins" "nk J \<le> op2 fins"
    using vref_range [OF J typed_vref(1) [OF t]] vref_range [OF J, of "op2 fins"] typed_vref(2) [OF t] nu by auto
  then have "fold_keys J fins = fkey2 (opc fins) (Some IR_KINT) (Some IR_KINT) # tl (fold_keys J fins)"
    using k by (simp add: fold_keys_def Let_def key_left_def key_right_def fkey2_def)
  then obtain ks where ks: "fold_keys J fins = fkey2 (opc fins) (Some IR_KINT) (Some IR_KINT) # ks" by blast
  show ?thesis unfolding ks by (simp add: rule_kk [OF o'] fold_kfold_intarith_def)
qed

section \<open>The engine\<close>

lemma driver_nk: "rf_nk (lj_opt_fold f)"
proof (induction f)
  case (Suc f)
  show ?case
    unfolding rf_nk_def
  proof (intro allI impI)
    fix J fins J' r
    assume e: "lj_opt_fold (Suc f) J fins = Some (J', r)"
    show "nk J' \<le> nk J"
    proof (cases "opt_fold J")
      case False
      then show ?thesis using e by (auto simp: lift_ref_def dest: cse_nk split: prod.splits)
    next
      case True
      obtain J1 res where m: "fold_match (fold_keys J fins) (lj_opt_fold f) J fins = Some (J1, res)"
        using e True by (auto split: option.splits)
      have 1: "nk J1 \<le> nk J" by (rule fold_match_nk [OF Suc m])
      have "nk J' \<le> nk J1"
        using e True m Suc
        by (cases res) (auto simp: lift_ref_def rf_nk_def dest: cse_nk kint_nk split: prod.splits)
      with 1 show ?thesis by simp
    qed
  qed
qed (simp add: rf_nk_def)

lemma rval_trans:
  assumes p: "post J J1 (\<lambda>_. True)" and q: "equiv J1 fins fins'" and r: "rval J1 J' fins' ref" and p': "post J1 J' G"
  shows "rval J J' fins ref"
proof (cases "iscmp (opc fins)")
  case False
  then have "\<not> iscmp (opc fins')" using q by (simp add: equiv_def)
  then have "vref J' ref" "wt J' (irt fins') ref \<or> k0 J' ref" and v: "\<And>\<nu>. agrees J' \<nu> \<Longrightarrow> \<nu> ref = eval fins' \<nu>"
    using r by (auto simp: rval_def)
  moreover have "eval fins' \<nu> = eval fins \<nu>" if "agrees J' \<nu>" for \<nu>
    using q False postD(3) [OF p' that] by (simp add: equiv_def)
  ultimately show ?thesis using q False by (simp add: rval_def wt_def equiv_def)
qed (simp add: rval_def)

lemma retry_post:
  assumes p: "post J J1 (\<lambda>_. True)" and t: "typed True J fins" and t': "typed True J1 fins'" and q: "equiv J1 fins fins'"
    and p': "post J1 J' (guard fins')"
  shows "post J J' (guard fins)"
proof -
  have "post J1 J' (guard fins)"
    using p' q postD(3) [OF p'] by (auto simp: post_def refines_def equiv_def)
  moreover have "guard fins \<nu> = guard fins \<nu>'" if "\<And>r. vref J r \<Longrightarrow> \<nu>' r = \<nu> r" for \<nu> \<nu>'
    using typed_guard_cong [OF t, of \<nu>' \<nu>] that by simp
  ultimately have "post J J' (\<lambda>\<nu>. True \<and> guard fins \<nu>)" by (intro post_trans [OF p]) blast+
  then show ?thesis by simp
qed

lemma driver_ok: "fold_ok (lj_opt_fold f)"
proof (induction f)
  case (Suc f)
  show ?case
    unfolding fold_ok_def
  proof (intro allI impI conjI)
    fix J fins J' r
    assume e: "lj_opt_fold (Suc f) J fins = Some (J', r)"
    show "nk J' \<le> nk J" using driver_nk [of "Suc f"] e unfolding rf_nk_def by blast
    assume nz: "0 < nk J'" and J: "ok J" and t: "typed True J fins" and of: "opt_fold J \<or> typed False J fins"
      and s: "sgn_ok J fins" and n: "nomask J fins"
    have cse: "post J J' (guard fins) \<and> rval J J' fins ref" if "lift_ref (lj_opt_cse J fins) = Some (J', Inr ref)" "typed False J fins" for ref
      using cse_ok [OF J that(2) s] that(1) by (auto simp: lift_ref_def split: prod.splits)
    show "case r of Inl e \<Rightarrow> post J J' (\<lambda>_. True) \<and> (\<forall>\<nu>. agrees J' \<nu> \<longrightarrow> \<not> guard fins \<nu>)
        | Inr ref \<Rightarrow> post J J' (guard fins) \<and> rval J J' fins ref"
    proof (cases "opt_fold J")
      case False
      then have l: "lift_ref (lj_opt_cse J fins) = Some (J', r)" using e by simp
      then obtain ref where "r = Inr ref" by (auto simp: lift_ref_def split: prod.splits)
      then show ?thesis using cse l of False by simp
    next
      case True
      obtain J1 res where m: "fold_match (fold_keys J fins) (lj_opt_fold f) J fins = Some (J1, res)"
        using e True by (auto split: option.splits)
      have n1: "nk J' \<le> nk J1"
        using e True m driver_nk [of f]
        by (cases res) (auto simp: lift_ref_def rf_nk_def dest: cse_nk kint_nk split: prod.splits)
      have ro: "res_ok J fins J1 res"
        by (rule fold_match_ok [OF Suc driver_nk J t s n keys_match [OF J t] m]) (use nz n1 in auto)
      show ?thesis
      proof (cases res)
        case NEXTFOLD
        then have "J1 = J" using ro by (simp add: res_ok_def)
        moreover have "typed False J fins" using fold_match_next [OF J t] m NEXTFOLD by blast
        moreover have l: "lift_ref (lj_opt_cse J1 fins) = Some (J', r)" using e True m NEXTFOLD by simp
        moreover obtain ref where "r = Inr ref" using l by (auto simp: lift_ref_def split: prod.splits)
        ultimately show ?thesis using cse by simp
      next
        case (RETRYFOLD fins')
        have p: "post J J1 (\<lambda>_. True)" and t': "typed True J1 fins'" and s': "sgn_ok J1 fins'" and q: "equiv J1 fins fins'" and n': "nomask J1 fins'"
          using ro n RETRYFOLD by (auto simp: res_ok_def)
        have of': "opt_fold J1" using p True by (simp add: post_def flags_eq_def)
        have "lj_opt_fold f J1 fins' = Some (J', r)" using e True m RETRYFOLD by simp
        then have h: "case r of Inl e \<Rightarrow> post J1 J' (\<lambda>_. True) \<and> (\<forall>\<nu>. agrees J' \<nu> \<longrightarrow> \<not> guard fins' \<nu>)
            | Inr ref \<Rightarrow> post J1 J' (guard fins') \<and> rval J1 J' fins' ref"
          using Suc nz postD(1) [OF p] t' of' s' n' unfolding fold_ok_def by blast
        show ?thesis
        proof (cases r)
          case (Inl x)
          then have p1: "post J1 J' (\<lambda>_. True)" and g: "\<And>\<nu>. agrees J' \<nu> \<Longrightarrow> \<not> guard fins' \<nu>" using h by auto
          have "post J J' (\<lambda>_. True)" using post_trans [OF p p1, of "\<lambda>_. True"] by simp
          moreover have "\<not> guard fins \<nu>" if "agrees J' \<nu>" for \<nu>
            using q g [OF that] postD(3) [OF p1 that] by (simp add: equiv_def)
          ultimately show ?thesis using Inl by simp
        next
          case (Inr ref)
          then have p1: "post J1 J' (guard fins')" and rv: "rval J1 J' fins' ref" using h by simp_all
          show ?thesis using Inr retry_post [OF p t t' q p1] rval_trans [OF p q rv p1] by simp
        qed
      next
        case (KINTFOLD k)
        have p: "post J J1 (\<lambda>_. True)" and nc: "\<not> iscmp (opc fins)" and z: "int64t (irt fins) \<longrightarrow> k = 0"
          and v: "\<And>\<nu>. agrees J1 \<nu> \<Longrightarrow> eval fins \<nu> = sx k \<and> guard fins \<nu>" using ro KINTFOLD by (auto simp: res_ok_def)
        obtain ref where ki: "lj_ir_kint J1 k = (J', ref)" and r: "r = Inr ref" using e True m KINTFOLD by (auto simp: lift_ref_def split: prod.splits)
        note m = kint_ok [OF postD(1) [OF p] ki nz]
        have p1: "post J1 J' (guard fins)" using m(1) v postD(3) [OF m(1)] by (auto simp: post_def refines_def)
        have "guard fins \<nu> = guard fins \<nu>'" if "\<And>r. vref J r \<Longrightarrow> \<nu>' r = \<nu> r" for \<nu> \<nu>'
          using typed_guard_cong [OF t, of \<nu>' \<nu>] that by simp
        then have "post J J' (\<lambda>\<nu>. True \<and> guard fins \<nu>)" by (intro post_trans [OF p p1]) blast+
        moreover have "rval J J' fins ref"
        proof -
          have "wt J' (irt fins) ref \<or> k0 J' ref" using m(2-5) z kint_type by (auto simp: wt_def w32_def k0_def)
          moreover have "\<nu> ref = eval fins \<nu>" if a: "agrees J' \<nu>" for \<nu>
            using kint_val(1) [OF postD(1) [OF m(1)] a m(2,3)] m(4) v [OF postD(3) [OF m(1) a]] by simp
          ultimately show ?thesis using m(2) by (simp add: rval_def)
        qed
        ultimately show ?thesis using r by simp
      next
        case FAILFOLD
        then show ?thesis using e True m ro by (auto simp: res_ok_def)
      next
        case DROPFOLD
        then have "J' = J1" "r = Inr REF_DROP" using e True m by auto
        then show ?thesis using ro DROPFOLD by (simp add: res_ok_def rval_def)
      next
        case (FREF ref)
        then have "J' = J1" "r = Inr ref" using e True m by auto
        then show ?thesis using ro FREF by (simp add: res_ok_def)
      qed
    qed
  qed
qed (simp add: fold_ok_def)

end
