(* ===== verification/FoldTerm.thy ===== *)
theory FoldTerm
  imports FoldSound
begin

text \<open>
  Termination of \<^verbatim>\<open>lj_opt_fold\<close>: every retry makes the instruction smaller in a lexicographic measure, so there is a
  number of retries and nested folds that is enough. The argument needs of the buffer only that the operands of an arithmetic
  instruction come before it, and it does not depend on the buffer having room for the constants.
\<close>

section \<open>Operands\<close>

text \<open>Arithmetic instructions are in SSA form: an operand is an earlier instruction or a constant.\<close>

definition arith :: "irop \<Rightarrow> bool" where "arith op \<longleftrightarrow> foldop op \<and> \<not> iscmp op"

definition gop :: "jit_State \<Rightarrow> nat \<Rightarrow> nat \<Rightarrow> bool" where
  "gop J n x \<longleftrightarrow> nk J \<le> x \<and> x < n \<and> (x < REF_BIAS \<longrightarrow> iskop (opc (ir J x)))"

definition gops :: "jit_State \<Rightarrow> nat \<Rightarrow> irins \<Rightarrow> bool" where
  "gops J n i \<longleftrightarrow> gop J n (op1 i) \<and> (unop (opc i) \<or> gop J n (op2 i))"

definition ssa :: "jit_State \<Rightarrow> bool" where
  "ssa J \<longleftrightarrow> (\<forall>r. REF_BIAS \<le> r \<longrightarrow> r < nins J \<longrightarrow> arith (opc (ir J r)) \<longrightarrow> gops J r (ir J r))"

definition chains_ok :: "jit_State \<Rightarrow> bool" where
  "chains_ok J \<longleftrightarrow> (\<forall>op r. on_chain J op r \<longrightarrow> opc (ir J r) = op \<and> nk J \<le> r \<and> r < nins J \<and> (r < REF_BIAS \<longleftrightarrow> iskop op))"

definition tinv :: "jit_State \<Rightarrow> bool" where
  "tinv J \<longleftrightarrow> nk J \<le> REF_BIAS \<and> REF_BIAS \<le> nins J \<and> chains_ok J \<and> ssa J"

definition grows :: "jit_State \<Rightarrow> jit_State \<Rightarrow> bool" where
  "grows J J' \<longleftrightarrow> tinv J' \<and> nk J' \<le> nk J \<and> nins J \<le> nins J' \<and> (\<forall>n x. gop J n x \<longrightarrow> gop J' n x)"

lemma ok_tinv: "ok J \<Longrightarrow> ssa J \<Longrightarrow> tinv J"
  using ir_wfD(1,2) [of J] on_chain_range [of J] ir_wfD(3) [of J]
  unfolding ok_def tinv_def chains_ok_def REF_TRUE_def REF_BASE_def by fastforce

lemma vref_gop: "ok J \<Longrightarrow> vref J r \<Longrightarrow> gop J (nins J) r"
  using on_chain_range [of J "opc (ir J r)" r] by (simp add: ok_def vref_def gop_def)

lemma typed_gops: "ok J \<Longrightarrow> typed b J i \<Longrightarrow> gops J (nins J) i"
  using typed_vref [of b J i] vref_gop [of J] unfolding gops_def by blast

lemma gop_le: "gop J n x \<Longrightarrow> n \<le> m \<Longrightarrow> gop J m x"
  by (simp add: gop_def)

lemma grows_refl: "tinv J \<Longrightarrow> grows J J"
  by (simp add: grows_def)

lemma grows_trans: "grows J J1 \<Longrightarrow> grows J1 J2 \<Longrightarrow> grows J J2"
  by (auto simp: grows_def)

lemma grows_gop: "grows J J' \<Longrightarrow> gop J (nins J) x \<Longrightarrow> gop J' (nins J') x"
  unfolding grows_def using gop_le by blast

lemma grows_gops: "grows J J' \<Longrightarrow> gops J (nins J) i \<Longrightarrow> gops J' (nins J') i"
  using grows_gop unfolding gops_def by blast

text \<open>An operand of an operand is smaller; constants weigh nothing.\<close>

definition wref :: "nat \<Rightarrow> nat" where "wref r = (if r < REF_BIAS then 0 else r)"

lemma arith_not_k: "arith op \<Longrightarrow> \<not> iskop op"
  using foldop_not_k by (auto simp: arith_def)

lemma wref_less: "x < y \<Longrightarrow> \<not> y < REF_BIAS \<Longrightarrow> wref x < wref y"
  by (simp add: wref_def)

lemma inner_ops:
  assumes "tinv J" and "gop J (nins J) x" and "arith (opc (ir J x))"
  shows "gop J (nins J) (op1 (ir J x))" and "wref (op1 (ir J x)) < wref x"
    and "\<not> unop (opc (ir J x)) \<Longrightarrow> gop J (nins J) (op2 (ir J x))" and "\<not> unop (opc (ir J x)) \<Longrightarrow> wref (op2 (ir J x)) < wref x"
proof -
  have x: "\<not> x < REF_BIAS" "x < nins J" using assms arith_not_k by (auto simp: gop_def)
  then have g: "gops J x (ir J x)" using assms by (simp add: tinv_def ssa_def)
  have up: "gop J x y \<Longrightarrow> gop J (nins J) y" for y using x(2) by (simp add: gop_def)
  have w: "gop J x y \<Longrightarrow> wref y < wref x" for y using x(1) by (simp add: gop_def wref_less)
  show "gop J (nins J) (op1 (ir J x))" "wref (op1 (ir J x)) < wref x" using g up w by (simp_all add: gops_def)
  show "gop J (nins J) (op2 (ir J x))" "wref (op2 (ir J x)) < wref x" if "\<not> unop (opc (ir J x))"
    using g up w that by (simp_all add: gops_def)
qed

section \<open>Constants and instructions\<close>

text \<open>A new head of a chain adds nothing else to the chains.\<close>

lemma link_new:
  assumes ir: "ir J' = (ir J)(ref := i)" and ch: "chain J' = (chain J)(op := ref)" and p: "prev i = chain J op"
    and fresh: "\<And>op r. on_chain J op r \<Longrightarrow> r \<noteq> ref"
  shows "on_chain J' o' r \<Longrightarrow> on_chain J o' r \<or> o' = op \<and> r = ref"
proof -
  have "on_chain J o' r \<or> o' = op \<and> r = ref" if "reach J' a r" "a = chain J' o'" for a
    using that
  proof (induction rule: reach.induct)
    case head
    then show ?case by (cases "o' = op") (auto simp: ch on_chain_def intro: reach.head)
  next
    case (step r)
    from step.IH [OF step.prems] show ?case
    proof
      assume c: "on_chain J o' r"
      from fresh [OF c] have "prev (ir J' r) = prev (ir J r)" by (simp add: ir)
      then show ?thesis using c step.hyps(2) by (simp add: on_chain_def reach.step)
    next
      assume c: "o' = op \<and> r = ref"
      then have "prev (ir J' r) = chain J o'" by (simp add: ir p)
      then show ?thesis using step.hyps(2) by (simp add: on_chain_def reach.head)
    qed
  qed
  then show "on_chain J' o' r \<Longrightarrow> on_chain J o' r \<or> o' = op \<and> r = ref" by (simp add: on_chain_def)
qed

lemma chains_okD: "chains_ok J \<Longrightarrow> on_chain J op r \<Longrightarrow> opc (ir J r) = op \<and> nk J \<le> r \<and> r < nins J \<and> (r < REF_BIAS \<longleftrightarrow> iskop op)"
  unfolding chains_ok_def by blast

lemma on_chain_gop: "tinv J \<Longrightarrow> on_chain J op r \<Longrightarrow> gop J (nins J) r"
  using chains_okD [of J op r] by (simp add: tinv_def gop_def)

lemma link_grows:
  assumes J: "tinv J" and ir: "ir J' = (ir J)(ref := i)" and ch: "chain J' = (chain J)(op := ref)" and p: "prev i = chain J op" "opc i = op"
    and fresh: "\<And>op r. on_chain J op r \<Longrightarrow> r \<noteq> ref"
    and n: "nk J' \<le> nk J" "nins J \<le> nins J'" "nins J' \<le> Suc (nins J)" "nins J \<noteq> nins J' \<longrightarrow> ref = nins J"
    and ref: "nk J' \<le> ref" "ref < nins J'" "ref < REF_BIAS \<longleftrightarrow> iskop op"
    and ops: "REF_BIAS \<le> ref \<Longrightarrow> arith op \<Longrightarrow> gops J ref i"
  shows "grows J J' \<and> gop J' (nins J') ref"
proof -
  have c: "chains_ok J" and s: "ssa J" and b: "nk J \<le> REF_BIAS" "REF_BIAS \<le> nins J" using J by (simp_all add: tinv_def)
  have g: "gop J' n x" if "gop J n x" for n x using that ref(3) n(1) p(2) by (auto simp: gop_def ir)
  have gs: "gops J' m k" if "gops J m k" for m k using that g by (auto simp: gops_def)
  have "chains_ok J'"
    unfolding chains_ok_def
  proof (intro allI impI)
    fix o' r assume "on_chain J' o' r"
    from link_new [OF ir ch p(1) fresh this]
    show "opc (ir J' r) = o' \<and> nk J' \<le> r \<and> r < nins J' \<and> (r < REF_BIAS) = iskop o'"
    proof
      assume r: "on_chain J o' r"
      from fresh [OF r] chains_okD [OF c r] n show ?thesis by (simp add: ir)
    qed (use ref p(2) in \<open>auto simp: ir\<close>)
  qed
  moreover have "ssa J'"
    unfolding ssa_def
  proof (intro allI impI)
    fix r assume r: "REF_BIAS \<le> r" "r < nins J'" "arith (opc (ir J' r))"
    show "gops J' r (ir J' r)"
    proof (cases "r = ref")
      case True
      then show ?thesis using ops r gs p(2) by (simp add: ir)
    next
      case False
      then have "r < nins J" using r(2) n by (cases "nins J = nins J'") auto
      then have "gops J r (ir J r)" using s r False by (simp add: ssa_def ir)
      then show ?thesis using gs False by (simp add: ir)
    qed
  qed
  ultimately have "tinv J'" using b n by (simp add: tinv_def)
  then show ?thesis using n g ref p(2) by (simp add: grows_def gop_def ir)
qed

lemma kops: "iskop IR_KINT" "iskop IR_KINT64"
  by (simp_all add: iskop_def ir_defs)

lemma kint_grows:
  assumes J: "tinv J" and k: "lj_ir_kint J k = (J', ref)"
  shows "grows J J'" and "gop J' (nins J') ref" and "wref ref = 0" and "ik (ir J' ref) = k"
proof -
  have "(grows J J' \<and> gop J' (nins J') ref) \<and> ref < REF_BIAS \<and> ik (ir J' ref) = k"
  proof (cases "ksearch J IR_KINT (\<lambda>i. ik i = k)")
    case (Some r)
    then have r: "J' = J" "ref = r" using k by (simp_all add: lj_ir_kint_def)
    from ksearch_Some [OF Some] have "on_chain J IR_KINT r" "ik (ir J r) = k" by simp_all
    moreover have "chains_ok J" using J by (simp add: tinv_def)
    ultimately show ?thesis using on_chain_gop [OF J] chains_okD kops(1) grows_refl [OF J] unfolding r by blast
  next
    case None
    have b: "nk J \<le> REF_BIAS" "REF_BIAS \<le> nins J" and c: "chains_ok J" using J by (simp_all add: tinv_def)
    let ?i = "(ir J ref)\<lparr>ik := k, irt := IRT_INT, opc := IR_KINT, prev := chain J IR_KINT\<rparr>"
    have r: "ref = nk J - 1" and J': "ir J' = (ir J)(ref := ?i)" "chain J' = (chain J)(IR_KINT := ref)" "nk J' = nk J - 1" "nins J' = nins J"
      using k None by (auto simp: lj_ir_kint_def klink_def ir_nextk_def Let_def)
    have bias: "ref < REF_BIAS" using r b by (simp add: REF_BIAS_def)
    have fresh: "s \<noteq> ref" if "on_chain J o' s" for o' s
      using chains_okD [OF c that] reach_nonzero [of J "chain J o'" s] that r by (auto simp: on_chain_def)
    have "grows J J' \<and> gop J' (nins J') ref"
      by (rule link_grows [OF J J'(1,2) _ _ fresh]) (use J' r bias b kops in auto)
    then show ?thesis using bias by (simp add: J')
  qed
  then show "grows J J'" "gop J' (nins J') ref" "wref ref = 0" "ik (ir J' ref) = k" by (simp_all add: wref_def)
qed

lemma kint64_grows:
  assumes J: "tinv J" and k: "lj_ir_kint64 J k = (J', ref)"
  shows "grows J J'" and "gop J' (nins J') ref" and "wref ref = 0"
proof -
  have "(grows J J' \<and> gop J' (nins J') ref) \<and> ref < REF_BIAS"
  proof (cases "ksearch J IR_KINT64 (\<lambda>i. tv i = k)")
    case (Some r)
    then have r: "J' = J" "ref = r" using k by (simp_all add: lj_ir_kint64_def lj_ir_k64_def)
    from ksearch_Some [OF Some] have "on_chain J IR_KINT64 r" by simp
    moreover have "chains_ok J" using J by (simp add: tinv_def)
    ultimately show ?thesis using on_chain_gop [OF J] chains_okD kops(2) grows_refl [OF J] unfolding r by blast
  next
    case None
    have b: "nk J \<le> REF_BIAS" "REF_BIAS \<le> nins J" and c: "chains_ok J" using J by (simp_all add: tinv_def)
    let ?i = "(ir J ref)\<lparr>tv := k, irt := IRT_I64, op1 := 0, op2 := 0, opc := IR_KINT64, prev := chain J IR_KINT64\<rparr>"
    have r: "ref = nk J - 2" and J': "ir J' = (ir J)(ref := ?i)" "chain J' = (chain J)(IR_KINT64 := ref)" "nk J' = nk J - 2" "nins J' = nins J"
      using k None by (auto simp: lj_ir_kint64_def lj_ir_k64_def klink_def ir_nextk64_def Let_def ir_defs)
    have bias: "ref < REF_BIAS" using r b by (simp add: REF_BIAS_def)
    have fresh: "s \<noteq> ref" if "on_chain J o' s" for o' s
      using chains_okD [OF c that] reach_nonzero [of J "chain J o'" s] that r by (auto simp: on_chain_def)
    have "grows J J' \<and> gop J' (nins J') ref"
      by (rule link_grows [OF J J'(1,2) _ _ fresh]) (use J' r bias b kops in auto)
    then show ?thesis using bias by simp
  qed
  then show "grows J J'" "gop J' (nins J') ref" "wref ref = 0" by (simp_all add: wref_def)
qed

lemma emit_grows:
  assumes J: "tinv J" and i: "gops J (nins J) i" "foldop (opc i)" and e: "lj_ir_emit J i = (J', ref)"
  shows "grows J J'" and "gop J' (nins J') ref"
proof -
  have b: "nk J \<le> REF_BIAS" "REF_BIAS \<le> nins J" and c: "chains_ok J" using J by (simp_all add: tinv_def)
  let ?i = "(ir J ref)\<lparr>prev := chain J (opc i), opc := opc i, op1 := op1 i, op2 := op2 i, irt := irt i\<rparr>"
  have r: "ref = nins J" and J': "ir J' = (ir J)(ref := ?i)" "chain J' = (chain J)(opc i := ref)" "nk J' = nk J" "nins J' = Suc (nins J)"
    using e by (auto simp: lj_ir_emit_def lj_ir_nextins_def Let_def)
  have fresh: "s \<noteq> ref" if "on_chain J o' s" for o' s using chains_okD [OF c that] r by simp
  have g: "gops J ref ?i" using i(1) by (simp add: gops_def r)
  have nk: "\<not> iskop (opc i)" using foldop_not_k [OF i(2)] by simp
  have "grows J J' \<and> gop J' (nins J') ref"
    by (rule link_grows [OF J J'(1,2) _ _ fresh _ _ _ _ _ _ _ g]) (use J' r b nk in auto)
  then show "grows J J'" "gop J' (nins J') ref" by simp_all
qed

lemma cse_grows:
  assumes J: "tinv J" and i: "gops J (nins J) i" "foldop (opc i)" and e: "lj_opt_cse J i = (J', ref)"
  shows "grows J J'" and "gop J' (nins J') ref"
proof -
  let ?c = "if opt_cse J then chain_down (chain J (opc i)) J (max (op1 i) (op2 i)) (same_op12 i) (chain J (opc i)) else None"
  have "grows J J' \<and> gop J' (nins J') ref"
  proof (cases ?c)
    case None
    then have "lj_ir_emit J i = (J', ref)" using e unfolding lj_opt_cse_def Let_def None by simp
    then show ?thesis using emit_grows [OF J i] by simp
  next
    case (Some r)
    then have r: "J' = J" "ref = r" using e unfolding lj_opt_cse_def Let_def Some by simp_all
    from Some have "chain_down (chain J (opc i)) J (max (op1 i) (op2 i)) (same_op12 i) (chain J (opc i)) = Some r" by (simp split: if_splits)
    then have "on_chain J (opc i) r" using chain_down_Some by (simp add: on_chain_def)
    then show ?thesis using on_chain_gop [OF J] grows_refl [OF J] r by blast
  qed
  then show "grows J J'" "gop J' (nins J') ref" by simp_all
qed

section \<open>The measure\<close>

text \<open>Multiplications and divisions become shifts or masks, shifts become additions or masks, and the rules of additions stay among
  additions, subtractions and exclusive ors or leave them. Within a group the operands get smaller, or stay and the constant is put into its normal form, or are
  swapped into their order.\<close>

definition oprank :: "irop \<Rightarrow> nat" where
  "oprank op =
     (if op \<in> {IR_MUL, IR_MULOV, IR_MOD} then 3 else if shiftop op then 2 else if op \<in> {IR_ADD, IR_SUB, IR_BXOR} then 1 else 0)"

definition weight :: "irins \<Rightarrow> nat" where "weight i = wref (op1 i) + wref (op2 i)"

definition optail :: "jit_State \<Rightarrow> irins \<Rightarrow> nat" where
  "optail J i =
     (if opc i = IR_SUB then 1
      else if shiftop (opc i) then
        (if opc i = IR_BROR then 2 else 0) + (if ik (fr J i) AND shiftmask i \<noteq> ik (fr J i) then 1 else 0)
      else 0)"

definition swapped :: "irins \<Rightarrow> nat" where "swapped i = (if op1 i < op2 i then 1 else 0)"

definition fold_less :: "((jit_State \<times> irins) \<times> (jit_State \<times> irins)) set" where
  "fold_less = measures [\<lambda>(J, i). oprank (opc i), \<lambda>(J, i). weight i, \<lambda>(J, i). optail J i, \<lambda>(J, i). swapped i]"

lemma wf_fold_less: "wf fold_less"
  unfolding fold_less_def by (rule wf_measures)

lemma fold_less_iff:
  "((J', i'), (J, i)) \<in> fold_less \<longleftrightarrow>
     oprank (opc i') < oprank (opc i) \<or> oprank (opc i') = oprank (opc i) \<and>
     (weight i' < weight i \<or> weight i' = weight i \<and>
      (optail J' i' < optail J i \<or> optail J' i' = optail J i \<and> swapped i' < swapped i))"
  unfolding fold_less_def by simp

lemma oprank_simps [simp]:
  "oprank IR_MUL = 3" "oprank IR_MULOV = 3" "oprank IR_MOD = 3" "shiftop op \<Longrightarrow> oprank op = 2" "oprank IR_ADD = 1" "oprank IR_SUB = 1"
  "oprank IR_BXOR = 1" "oprank IR_NEG = 0" "oprank IR_BNOT = 0" "oprank IR_BAND = 0" "oprank IR_BOR = 0" "oprank IR_ADDOV = 0"
  "iscmp op \<Longrightarrow> oprank op = 0"
  by (auto simp: oprank_def)

lemma optail_simps [simp]:
  "opc i = IR_SUB \<Longrightarrow> optail J i = 1" "\<not> shiftop (opc i) \<Longrightarrow> opc i \<noteq> IR_SUB \<Longrightarrow> optail J i = 0"
  by (simp_all add: optail_def)

section \<open>What a rule establishes\<close>

definition tout :: "jit_State \<Rightarrow> irins \<Rightarrow> jit_State \<Rightarrow> trerr + nat \<Rightarrow> bool" where
  "tout J i J' r \<longleftrightarrow> grows J J' \<and> (\<forall>ref. r = Inr ref \<longrightarrow> \<not> iscmp (opc i) \<longrightarrow> gop J' (nins J') ref)"

definition smaller :: "jit_State \<Rightarrow> irins \<Rightarrow> jit_State \<Rightarrow> irins \<Rightarrow> bool" where
  "smaller J i J' i' \<longleftrightarrow> gops J' (nins J') i' \<and> foldop (opc i') \<and> (iscmp (opc i') \<longrightarrow> iscmp (opc i)) \<and> ((J', i'), (J, i)) \<in> fold_less"

definition tres :: "jit_State \<Rightarrow> irins \<Rightarrow> jit_State \<times> fres \<Rightarrow> bool" where
  "tres J i = (\<lambda>(J', res). grows J J' \<and>
     (case res of
        NEXTFOLD \<Rightarrow> J' = J
      | RETRYFOLD i' \<Rightarrow> smaller J i J' i'
      | FREF ref \<Rightarrow> gop J' (nins J') ref
      | DROPFOLD \<Rightarrow> iscmp (opc i)
      | _ \<Rightarrow> True))"

definition nested :: "(jit_State \<Rightarrow> irins \<Rightarrow> fout) \<Rightarrow> jit_State \<Rightarrow> irins \<Rightarrow> bool" where
  "nested rf J i \<longleftrightarrow> (opc (fl J i) = IR_BAND \<longrightarrow> shiftop (opc i) \<longrightarrow>
     (\<exists>J' r. rf J (i\<lparr>op1 := op1 (fl J i)\<rparr>) = Some (J', r) \<and> tout J i J' r))"

definition term_rule :: "frule \<Rightarrow> fkey \<Rightarrow> bool" where
  "term_rule f k \<longleftrightarrow> (\<forall>rf J i. tinv J \<longrightarrow> gops J (nins J) i \<longrightarrow> foldop (opc i) \<longrightarrow> key_of k J i \<longrightarrow> nested rf J i \<longrightarrow>
     (\<exists>x. f rf J i = Some x \<and> tres J i x))"

lemma term_ruleI:
  assumes "\<And>rf J i. tinv J \<Longrightarrow> gops J (nins J) i \<Longrightarrow> foldop (opc i) \<Longrightarrow> key_of k J i \<Longrightarrow> nested rf J i \<Longrightarrow>
    \<exists>x. f rf J i = Some x \<and> tres J i x"
  shows "term_rule f k"
  using assms unfolding term_rule_def by blast

lemma tres_simps [simp]:
  "tres J i (J, NEXTFOLD) \<longleftrightarrow> tinv J" "tres J i (J', KINTFOLD k) \<longleftrightarrow> grows J J'" "tres J i (J', FAILFOLD) \<longleftrightarrow> grows J J'"
  "tres J i (J', DROPFOLD) \<longleftrightarrow> grows J J' \<and> iscmp (opc i)" "tres J i (J', FREF ref) \<longleftrightarrow> grows J J' \<and> gop J' (nins J') ref"
  "tres J i (J', RETRYFOLD i') \<longleftrightarrow> grows J J' \<and> smaller J i J' i'" "tres J i (J, CONDFOLD c) \<longleftrightarrow> tinv J \<and> (c \<longrightarrow> iscmp (opc i))"
  using grows_refl [of J] by (auto simp: tres_def CONDFOLD_def grows_def)

lemma grows_same [simp]: "grows J J \<longleftrightarrow> tinv J"
  using grows_refl by (auto simp: grows_def)

lemma gopsD: "gops J n i \<Longrightarrow> gop J n (op1 i)" "gops J n i \<Longrightarrow> \<not> unop (opc i) \<Longrightarrow> gop J n (op2 i)"
  by (simp_all add: gops_def)

lemma int64fold_t: "tinv J \<Longrightarrow> tres J i (INT64FOLD J k)"
  using kint64_grows [of J k] by (auto simp: INT64FOLD_def split: prod.splits)

lemma zero_fold_t: "tinv J \<Longrightarrow> tres J i (zero_fold J i)"
  using int64fold_t by (simp add: zero_fold_def)

text \<open>A retry with a new constant as its second operand.\<close>

lemma retry_kint_t:
  assumes J: "tinv J" "grows J0 J" and i: "gop J (nins J) (op1 i)" "foldop (opc i)" "iscmp (opc i) \<Longrightarrow> iscmp (opc i0)"
    and less: "\<And>J' ref. wref ref = 0 \<Longrightarrow> ik (ir J' ref) = k \<Longrightarrow> ((J', i\<lparr>op2 := ref\<rparr>), (J0, i0)) \<in> fold_less"
  shows "\<exists>x. retry_kint J i k = Some x \<and> tres J0 i0 x"
proof -
  obtain J' ref where k: "lj_ir_kint J k = (J', ref)" by (cases "lj_ir_kint J k")
  note g = kint_grows [OF J(1) k]
  have "tres J0 i0 (J', RETRYFOLD (i\<lparr>op2 := ref\<rparr>))"
    using grows_trans [OF J(2) g(1)] grows_gop [OF g(1) i(1)] g(2) i(2,3) less [OF g(3,4)] by (simp add: smaller_def gops_def)
  then show ?thesis by (simp add: retry_kint_def k)
qed

lemma retry_kint64_t:
  assumes J: "tinv J" "grows J0 J" and i: "gop J (nins J) (op1 i)" "foldop (opc i)" "iscmp (opc i) \<Longrightarrow> iscmp (opc i0)"
    and less: "\<And>J' ref. wref ref = 0 \<Longrightarrow> ((J', i\<lparr>op2 := ref\<rparr>), (J0, i0)) \<in> fold_less"
  shows "\<exists>x. retry_kint64 J i k = Some x \<and> tres J0 i0 x"
proof -
  obtain J' ref where k: "lj_ir_kint64 J k = (J', ref)" by (cases "lj_ir_kint64 J k")
  note g = kint64_grows [OF J(1) k]
  have "tres J0 i0 (J', RETRYFOLD (i\<lparr>op2 := ref\<rparr>))"
    using grows_trans [OF J(2) g(1)] grows_gop [OF g(1) i(1)] g(2) i(2,3) less [OF g(3)] by (simp add: smaller_def gops_def)
  then show ?thesis by (simp add: retry_kint64_def k)
qed

lemma retry_neg_t:
  assumes J: "tinv J" and i: "gop J (nins J) x" "opc i = IR_SUB" "wref x < weight i"
  shows "\<exists>x'. retry_neg J i x = Some x' \<and> tres J i x'"
proof -
  obtain J' ref where k: "lj_ir_kint J 0 = (J', ref)" by (cases "lj_ir_kint J 0")
  note g = kint_grows [OF J k]
  have "tres J i (J', RETRYFOLD (i\<lparr>op1 := ref, op2 := x\<rparr>))"
    using g grows_gop [OF g(1) i(1)] i(2,3) by (simp add: smaller_def gops_def fold_less_iff weight_def)
  then show ?thesis by (simp add: retry_neg_def k)
qed

section \<open>Rules that do not retry\<close>

lemma kfold_t: "term_rule fold_kfold_intarith k" "term_rule fold_kfold_intovarith k" "term_rule fold_kfold_bnot k" "term_rule fold_kfold_bswap k"
  by (intro term_ruleI; simp add: fold_kfold_intarith_def fold_kfold_intovarith_def fold_kfold_bnot_def fold_kfold_bswap_def Let_def)+

lemma kfold64_t: "term_rule fold_kfold_int64arith k" "term_rule fold_kfold_int64arith2 k" "term_rule fold_kfold_int64shift k"
    "term_rule fold_kfold_bnot64 k" "term_rule fold_kfold_bswap64 k"
  by (intro term_ruleI; simp add: fold_kfold_int64arith_def fold_kfold_int64arith2_def fold_kfold_int64shift_def fold_kfold_bnot64_def
      fold_kfold_bswap64_def Let_def int64fold_t)+

lemma kcomp_t:
  assumes "iscmp op"
  shows "term_rule fold_kfold_intcomp (fkey2 op l r)" "term_rule fold_kfold_intcomp0 (fkey2 op l r)"
    "term_rule fold_kfold_int64comp (fkey2 op l r)" "term_rule fold_kfold_int64comp0 (fkey2 op l r)" "term_rule fold_kfold_kref (fkey2 op l r)"
  using assms
  by (intro term_ruleI; simp add: fold_kfold_intcomp_def fold_kfold_intcomp0_def fold_kfold_int64comp_def fold_kfold_int64comp0_def
      fold_kfold_kref_def Let_def)+

lemma left_t: "term_rule fold_simplify_intadd_k k" "term_rule fold_simplify_intadd_k64 k" "term_rule fold_simplify_intmod_kleft k"
    "term_rule fold_simplify_shift1_ki k" "term_rule fold_simplify_shift2_ki k" "term_rule fold_simplify_andk_shiftk k"
    "term_rule fold_reassoc_dup k" "term_rule fold_reassoc_dup_minmax k"
  by (intro term_ruleI; simp add: fold_simplify_intadd_k_def fold_simplify_intadd_k64_def fold_simplify_intmod_kleft_def
      fold_simplify_shift1_ki_def fold_simplify_shift2_ki_def fold_simplify_andk_shiftk_def fold_reassoc_dup_def fold_reassoc_dup_minmax_def
      LEFTFOLD_def Let_def gopsD)+

lemma comm_dup_minmax_t: "term_rule fold_comm_dup_minmax k"
proof (rule term_ruleI)
  fix rf J i assume "tinv J" "gops J (nins J) i"
  then have "tres J i (J, LEFTFOLD i)" by (simp add: LEFTFOLD_def gopsD)
  then show "\<exists>x. fold_comm_dup_minmax rf J i = Some x \<and> tres J i x" using \<open>tinv J\<close> by (simp add: fold_comm_dup_minmax_def)
qed

lemma leftright_t:
  assumes "\<not> unop op"
  shows "term_rule fold_simplify_band_k (fkey2 op l r)" "term_rule fold_simplify_bor_k (fkey2 op l r)"
  using assms
  by (intro term_ruleI; simp add: fold_simplify_band_k_def fold_simplify_bor_k_def LEFTFOLD_def RIGHTFOLD_def Let_def gopsD)+

lemma intsub_t: "term_rule fold_simplify_intsub k"
  by (rule term_ruleI) (simp add: fold_simplify_intsub_def zero_fold_t)

lemma left_op1: "tinv J \<Longrightarrow> gops J (nins J) i \<Longrightarrow> arith (opc (fl J i)) \<Longrightarrow> gop J (nins J) (op1 (fl J i))"
  using inner_ops(1) gopsD(1) by blast

lemma shortcut_t: "unop op \<Longrightarrow> term_rule fold_shortcut_leftleft (fkey1 op op)" "term_rule fold_shortcut_leftleft (fkey2 IR_NEG (Some IR_NEG) r)"
proof -
  have a: "arith op" if "unop op" for op using that by (auto simp: arith_def)
  show "term_rule fold_shortcut_leftleft (fkey1 op op)" if "unop op"
    by (rule term_ruleI) (use that a [OF that] left_op1 in \<open>auto simp: fold_shortcut_leftleft_def\<close>)
  show "term_rule fold_shortcut_leftleft (fkey2 IR_NEG (Some IR_NEG) r)"
    by (rule term_ruleI) (use left_op1 in \<open>auto simp: fold_shortcut_leftleft_def arith_def\<close>)
qed

lemma cancel_t:
  "term_rule fold_simplify_intsubadd_leftcancel (fkey2 IR_SUB (Some IR_ADD) r)" "term_rule fold_reassoc_bxor (fkey2 IR_BXOR (Some IR_BXOR) r)"
  "term_rule fold_simplify_intsubsub_rightcancel (fkey2 IR_SUB l (Some IR_SUB))"
proof -
  have l: "gop J (nins J) (op1 (fl J i)) \<and> gop J (nins J) (op2 (fl J i))"
    if "tinv J" "gops J (nins J) i" "opc (fl J i) = IR_ADD \<or> opc (fl J i) = IR_BXOR" for J i
    using that by (intro conjI inner_ops) (auto simp: arith_def intro: gopsD)
  have r: "gop J (nins J) (op2 (fr J i))"
    if "tinv J" "gops J (nins J) i" "\<not> unop (opc i)" "opc (fr J i) = IR_SUB" for J i
    using that by (intro inner_ops) (auto simp: arith_def intro: gopsD)
  show "term_rule fold_simplify_intsubadd_leftcancel (fkey2 IR_SUB (Some IR_ADD) r)"
    by (rule term_ruleI) (use l in \<open>simp add: fold_simplify_intsubadd_leftcancel_def\<close>)
  show "term_rule fold_reassoc_bxor (fkey2 IR_BXOR (Some IR_BXOR) r)"
    by (rule term_ruleI) (use l in \<open>simp add: fold_reassoc_bxor_def\<close>)
  show "term_rule fold_simplify_intsubsub_rightcancel (fkey2 IR_SUB l (Some IR_SUB))"
    by (rule term_ruleI) (use r in \<open>simp add: fold_simplify_intsubsub_rightcancel_def\<close>)
qed

lemma abc_t: "term_rule fold_abc_fwd (fkey2 IR_ABC l r)" "term_rule fold_abc_invar (fkey2 IR_ABC l r)"
  by (intro term_ruleI; simp add: fold_abc_fwd_def fold_abc_invar_def Let_def split: option.split)+

text \<open>Replacing the second operand of an \<^verbatim>\<open>ABC\<close> changes no chain and no arithmetic instruction.\<close>

lemma abc_update_grows:
  assumes J: "tinv J" and r: "opc (ir J r) = IR_ABC"
  shows "grows J (J\<lparr>ir := (ir J)(r := (ir J r)\<lparr>op2 := n\<rparr>)\<rparr>)"
proof -
  let ?J = "J\<lparr>ir := (ir J)(r := (ir J r)\<lparr>op2 := n\<rparr>)\<rparr>"
  have f: "opc (ir ?J s) = opc (ir J s)" "prev (ir ?J s) = prev (ir J s)" for s by simp_all
  have "reach J a s" if "reach ?J a s" for a s
    using that
  proof (induction rule: reach.induct)
    case (step s)
    then show ?case using reach.step [of J a s] f(2) [of s] by metis
  qed (rule reach.head)
  then have "on_chain J op s" if "on_chain ?J op s" for op s using that by (simp add: on_chain_def)
  moreover have "chains_ok J" using J by (simp add: tinv_def)
  ultimately have c: "chains_ok ?J" unfolding chains_ok_def f by (simp; blast)
  have g: "gop ?J n x \<longleftrightarrow> gop J n x" for n x unfolding gop_def f by simp
  have "ssa ?J"
    unfolding ssa_def
  proof (intro allI impI)
    fix s assume s: "REF_BIAS \<le> s" "s < nins ?J" "arith (opc (ir ?J s))"
    then have "s \<noteq> r" using r by (auto simp: arith_def)
    then show "gops ?J s (ir ?J s)" using s J by (simp add: gops_def g tinv_def ssa_def)
  qed
  then show ?thesis using c g J by (simp add: grows_def tinv_def)
qed

lemma abc_k_t: "term_rule fold_abc_k (fkey2 IR_ABC l r)"
proof (rule term_ruleI)
  fix rf J i assume J: "tinv J" "gops J (nins J) i" "foldop (opc i)" "key_of (fkey2 IR_ABC l r) J i"
  let ?P = "\<lambda>j. op1 j = op1 i \<and> irref_isk (op2 j)"
  have emit: "tres J i (EMITFOLD J i)"
    using emit_grows [OF J(1-3)] by (auto simp: EMITFOLD_def split: prod.split)
  show "\<exists>x. fold_abc_k rf J i = Some x \<and> tres J i x"
  proof (cases "chain_down (chain J IR_ABC) J (op1 i) ?P (chain J IR_ABC)")
    case None
    then show ?thesis using emit J by (cases "EMITFOLD J i") (simp add: fold_abc_k_def Let_def)
  next
    case (Some s)
    then have "on_chain J IR_ABC s" using chain_down_Some by (simp add: on_chain_def)
    then have "opc (ir J s) = IR_ABC" using chains_okD J(1) by (simp add: tinv_def)
    from abc_update_grows [OF J(1) this] show ?thesis using J Some by (simp add: fold_abc_k_def Let_def)
  qed
qed

section \<open>Rules that retry\<close>

lemma comm_swap_t:
  assumes "\<not> unop op" and "\<not> shiftop op" and "op \<noteq> IR_SUB"
  shows "term_rule fold_comm_swap (fkey2 op l r)"
  by (rule term_ruleI)
    (use assms in \<open>auto simp: fold_comm_swap_def smaller_def gops_def fold_less_iff weight_def swapped_def\<close>)

lemma comm_t: "term_rule fold_comm_dup (fkey2 IR_BAND l r)" "term_rule fold_comm_dup (fkey2 IR_BOR l r)"
    "term_rule fold_comm_bxor (fkey2 IR_BXOR l r)"
    "term_rule fold_comm_equal (fkey2 IR_EQ l r)" "term_rule fold_comm_equal (fkey2 IR_NE l r)"
proof -
  have sw: "\<exists>x. fold_comm_swap rf J i = Some x \<and> tres J i x"
    if "tinv J" "gops J (nins J) i" "foldop (opc i)" "nested rf J i" "opc i \<in> {IR_BAND, IR_BOR, IR_BXOR, IR_EQ, IR_NE}" for rf J i
    using comm_swap_t [of "opc i" None None] that unfolding term_rule_def by auto
  have dup: "\<exists>x. fold_comm_dup rf J i = Some x \<and> tres J i x"
    if "tinv J" "gops J (nins J) i" "foldop (opc i)" "nested rf J i" "opc i \<in> {IR_BAND, IR_BOR}" for rf J i
    using sw [OF that(1-4)] that gopsD(1) [OF that(2)] by (auto simp: fold_comm_dup_def LEFTFOLD_def)
  show "term_rule fold_comm_dup (fkey2 IR_BAND l r)" "term_rule fold_comm_dup (fkey2 IR_BOR l r)"
    by (intro term_ruleI dup; simp)+
  show "term_rule fold_comm_bxor (fkey2 IR_BXOR l r)"
  proof (rule term_ruleI)
    fix rf J i assume a: "tinv J" "gops J (nins J) i" "foldop (opc i)" "key_of (fkey2 IR_BXOR l r) J i" "nested rf J i"
    show "\<exists>x. fold_comm_bxor rf J i = Some x \<and> tres J i x"
      using sw [OF a(1-3,5)] a(4) zero_fold_t [OF a(1), of i] by (cases "zero_fold J i") (simp add: fold_comm_bxor_def)
  qed
  have eq: "\<exists>x. fold_comm_equal rf J i = Some x \<and> tres J i x"
    if "tinv J" "gops J (nins J) i" "foldop (opc i)" "nested rf J i" "opc i \<in> {IR_EQ, IR_NE}" for rf J i
  proof -
    have "iscmp (opc i)" using that(5) by auto
    then show ?thesis using sw [OF that(1-4)] that(1,5) by (auto simp: fold_comm_equal_def)
  qed
  show "term_rule fold_comm_equal (fkey2 IR_EQ l r)" "term_rule fold_comm_equal (fkey2 IR_NE l r)"
    by (intro term_ruleI eq; simp)+
qed

lemma comm_comp_t:
  assumes "op \<in> {IR_LT, IR_GE, IR_LE, IR_GT, IR_ULT, IR_UGE, IR_ULE, IR_UGT}"
  shows "term_rule fold_comm_comp (fkey2 op l r)"
proof -
  have c: "iscmp op" "iscmp (op XOR 3)" using assms by (auto simp: ir_defs iscmp_def)
  then have n: "op XOR 3 \<noteq> IR_SUB" "op \<noteq> IR_SUB" by auto
  show ?thesis
    by (rule term_ruleI) (use c n in \<open>auto simp: fold_comm_comp_def smaller_def gops_def fold_less_iff weight_def swapped_def\<close>)
qed

lemma inner_l:
  assumes "tinv J" "gops J (nins J) i" "arith (opc (fl J i))"
  shows "gop J (nins J) (op1 (fl J i))" "wref (op1 (fl J i)) < wref (op1 i)"
    "\<not> unop (opc (fl J i)) \<Longrightarrow> gop J (nins J) (op2 (fl J i))" "\<not> unop (opc (fl J i)) \<Longrightarrow> wref (op2 (fl J i)) < wref (op1 i)"
  using inner_ops [OF assms(1) gopsD(1) [OF assms(2)] assms(3)] by simp_all

lemma inner_r:
  assumes "tinv J" "gops J (nins J) i" "\<not> unop (opc i)" "arith (opc (fr J i))"
  shows "gop J (nins J) (op1 (fr J i))" "wref (op1 (fr J i)) < wref (op2 i)"
    "\<not> unop (opc (fr J i)) \<Longrightarrow> gop J (nins J) (op2 (fr J i))" "\<not> unop (opc (fr J i)) \<Longrightarrow> wref (op2 (fr J i)) < wref (op2 i)"
  using inner_ops [OF assms(1) gopsD(2) [OF assms(2,3)] assms(4)] by simp_all

lemma neg_t: "term_rule fold_simplify_numadd_negx (fkey2 IR_ADD (Some IR_NEG) r)" "term_rule fold_simplify_numadd_xneg (fkey2 IR_ADD l (Some IR_NEG))"
    "term_rule fold_simplify_numsub_xneg (fkey2 IR_SUB l (Some IR_NEG))"
proof -
  have n: "arith IR_NEG" by (simp add: arith_def)
  show "term_rule fold_simplify_numadd_negx (fkey2 IR_ADD (Some IR_NEG) r)"
    by (rule term_ruleI)
      (use inner_l n in \<open>auto simp: fold_simplify_numadd_negx_def smaller_def gops_def fold_less_iff weight_def\<close>)
  show "term_rule fold_simplify_numadd_xneg (fkey2 IR_ADD l (Some IR_NEG))"
    by (rule term_ruleI)
      (use inner_r n in \<open>auto simp: fold_simplify_numadd_xneg_def smaller_def gops_def fold_less_iff weight_def\<close>)
  show "term_rule fold_simplify_numsub_xneg (fkey2 IR_SUB l (Some IR_NEG))"
    by (rule term_ruleI)
      (use inner_r n in \<open>auto simp: fold_simplify_numsub_xneg_def smaller_def gops_def fold_less_iff weight_def\<close>)
qed

lemma negneg_t: "op = IR_MUL \<or> op = IR_DIV \<Longrightarrow> term_rule fold_simplify_nummuldiv_negneg (fkey2 op (Some IR_NEG) (Some IR_NEG))"
proof (rule term_ruleI)
  fix rf J i
  assume o': "op = IR_MUL \<or> op = IR_DIV" and J: "tinv J" "gops J (nins J) i" and k: "key_of (fkey2 op (Some IR_NEG) (Some IR_NEG)) J i"
  have u: "opc i = op" "\<not> unop (opc i)" "opc (fl J i) = IR_NEG" "opc (fr J i) = IR_NEG" using k o' by auto
  then have "arith (opc (fl J i))" "arith (opc (fr J i))" by (simp_all add: arith_def)
  note l = inner_l [OF J this(1)] and r = inner_r [OF J u(2) this(2)]
  show "\<exists>x. fold_simplify_nummuldiv_negneg rf J i = Some x \<and> tres J i x"
    using l r u o' J(1) by (auto simp: fold_simplify_nummuldiv_negneg_def smaller_def gops_def fold_less_iff weight_def)
qed

lemma sub_t: "term_rule fold_simplify_intsub_k (fkey2 IR_SUB l r)" "term_rule fold_simplify_intsub_k64 (fkey2 IR_SUB l r)"
    "term_rule fold_simplify_intsub_kleft (fkey2 IR_SUB l r)"
proof -
  show "term_rule fold_simplify_intsub_k (fkey2 IR_SUB l r)"
  proof (rule term_ruleI)
    fix rf J i assume J: "tinv J" "gops J (nins J) i" and k: "key_of (fkey2 IR_SUB l r) J i"
    have "\<exists>x. retry_kint J (i\<lparr>opc := IR_ADD\<rparr>) c = Some x \<and> tres J i x" for c
      by (rule retry_kint_t [OF J(1)]) (use J k in \<open>auto simp: gopsD fold_less_iff weight_def\<close>)
    then show "\<exists>x. fold_simplify_intsub_k rf J i = Some x \<and> tres J i x"
      using J by (simp add: fold_simplify_intsub_k_def LEFTFOLD_def gopsD)
  qed
  show "term_rule fold_simplify_intsub_k64 (fkey2 IR_SUB l r)"
  proof (rule term_ruleI)
    fix rf J i assume J: "tinv J" "gops J (nins J) i" and k: "key_of (fkey2 IR_SUB l r) J i"
    have "\<exists>x. retry_kint64 J (i\<lparr>opc := IR_ADD\<rparr>) c = Some x \<and> tres J i x" for c
      by (rule retry_kint64_t [OF J(1)]) (use J k in \<open>auto simp: gopsD fold_less_iff weight_def\<close>)
    then show "\<exists>x. fold_simplify_intsub_k64 rf J i = Some x \<and> tres J i x"
      using J by (simp add: fold_simplify_intsub_k64_def LEFTFOLD_def gopsD Let_def)
  qed
  show "term_rule fold_simplify_intsub_kleft (fkey2 IR_SUB l r)"
    by (rule term_ruleI) (auto simp: fold_simplify_intsub_kleft_def smaller_def gops_def fold_less_iff)
qed

lemma mul_t: "term_rule fold_simplify_intmul_k (fkey2 IR_MULOV l r)" "term_rule fold_simplify_intmul_k32 (fkey2 IR_MUL l r)"
    "term_rule fold_simplify_intmul_k64 (fkey2 IR_MUL l r)" "term_rule fold_simplify_intmod_k (fkey2 IR_MOD l r)"
proof -
  have m: "\<exists>x. simplify_intmul_k J i c = Some x \<and> tres J i x" if J: "tinv J" "gops J (nins J) i" "opc i = IR_MUL" for J i c
  proof -
    have "\<exists>x. retry_kint J (i\<lparr>opc := IR_BSHL\<rparr>) c = Some x \<and> tres J i x" for c
      by (rule retry_kint_t [OF J(1)]) (use J in \<open>auto simp: gopsD fold_less_iff\<close>)
    then show ?thesis using J by (simp add: simplify_intmul_k_def LEFTFOLD_def RIGHTFOLD_def gopsD)
  qed
  show "term_rule fold_simplify_intmul_k (fkey2 IR_MULOV l r)"
    by (rule term_ruleI) (auto simp: fold_simplify_intmul_k_def LEFTFOLD_def RIGHTFOLD_def Let_def smaller_def gops_def fold_less_iff)
  show "term_rule fold_simplify_intmul_k32 (fkey2 IR_MUL l r)" "term_rule fold_simplify_intmul_k64 (fkey2 IR_MUL l r)"
    by (intro term_ruleI; use m in \<open>simp add: fold_simplify_intmul_k32_def fold_simplify_intmul_k64_def\<close>)+
  show "term_rule fold_simplify_intmod_k (fkey2 IR_MOD l r)"
  proof (rule term_ruleI)
    fix rf J i assume J: "tinv J" "gops J (nins J) i" and k: "key_of (fkey2 IR_MOD l r) J i"
    have "\<exists>x. retry_kint J (i\<lparr>opc := IR_BAND\<rparr>) c = Some x \<and> tres J i x" for c
      by (rule retry_kint_t [OF J(1)]) (use J k in \<open>auto simp: gopsD fold_less_iff\<close>)
    then show "\<exists>x. fold_simplify_intmod_k rf J i = Some x \<and> tres J i x"
      using J by (simp add: fold_simplify_intmod_k_def Let_def)
  qed
qed

lemma subcancel_t: "term_rule fold_simplify_intsubsub_leftcancel (fkey2 IR_SUB (Some IR_SUB) r)"
    "term_rule fold_simplify_intsubadd_rightcancel (fkey2 IR_SUB l (Some IR_ADD))"
    "term_rule fold_simplify_intsubaddadd_cancel (fkey2 IR_SUB (Some IR_ADD) (Some IR_ADD))"
proof -
  have a: "arith IR_ADD" "arith IR_SUB" by (simp_all add: arith_def)
  show "term_rule fold_simplify_intsubsub_leftcancel (fkey2 IR_SUB (Some IR_SUB) r)"
  proof (rule term_ruleI)
    fix rf J i assume J: "tinv J" "gops J (nins J) i" and k: "key_of (fkey2 IR_SUB (Some IR_SUB) r) J i"
    note l = inner_l [OF J]
    have "\<exists>x. retry_neg J i (op2 (fl J i)) = Some x \<and> tres J i x"
      by (rule retry_neg_t [OF J(1)]) (use l a k in \<open>auto simp: weight_def\<close>)
    then show "\<exists>x. fold_simplify_intsubsub_leftcancel rf J i = Some x \<and> tres J i x"
      using J by (simp add: fold_simplify_intsubsub_leftcancel_def)
  qed
  show "term_rule fold_simplify_intsubadd_rightcancel (fkey2 IR_SUB l (Some IR_ADD))"
  proof (rule term_ruleI)
    fix rf J i assume J: "tinv J" "gops J (nins J) i" and k: "key_of (fkey2 IR_SUB l (Some IR_ADD)) J i"
    note r = inner_r [OF J]
    have "\<exists>x. retry_neg J i (op2 (fr J i)) = Some x \<and> tres J i x" "\<exists>x. retry_neg J i (op1 (fr J i)) = Some x \<and> tres J i x"
      by (rule retry_neg_t [OF J(1)]; use r a k in \<open>auto simp: weight_def\<close>)+
    then show "\<exists>x. fold_simplify_intsubadd_rightcancel rf J i = Some x \<and> tres J i x"
      using J by (simp add: fold_simplify_intsubadd_rightcancel_def)
  qed
  show "term_rule fold_simplify_intsubaddadd_cancel (fkey2 IR_SUB (Some IR_ADD) (Some IR_ADD))"
  proof (rule term_ruleI)
    fix rf J i assume J: "tinv J" "gops J (nins J) i" and k: "key_of (fkey2 IR_SUB (Some IR_ADD) (Some IR_ADD)) J i"
    have u: "opc i = IR_SUB" "opc (fl J i) = IR_ADD" "opc (fr J i) = IR_ADD" using k by auto
    note l = inner_l [OF J, unfolded u, OF a(1)] and r = inner_r [OF J, unfolded u, OF _ a(1)]
    have "smaller J i J (i\<lparr>op1 := x, op2 := y\<rparr>)"
      if "x \<in> {op1 (fl J i), op2 (fl J i)}" "y \<in> {op1 (fr J i), op2 (fr J i)}" for x y
      using that l r u(1) by (auto simp: smaller_def gops_def fold_less_iff weight_def)
    then show "\<exists>x. fold_simplify_intsubaddadd_cancel rf J i = Some x \<and> tres J i x"
      using J(1) by (simp add: fold_simplify_intsubaddadd_cancel_def Let_def)
  qed
qed

lemma bxor_k_t: "term_rule fold_simplify_bxor_k (fkey2 IR_BXOR l r)"
  by (rule term_ruleI) (auto simp: fold_simplify_bxor_k_def LEFTFOLD_def Let_def smaller_def gops_def fold_less_iff)

text \<open>A shift count is masked once, and a right rotation becomes a left one once.\<close>

lemma shiftmask_upd [simp]: "shiftmask (i\<lparr>op1 := x\<rparr>) = shiftmask i" "shiftmask (i\<lparr>op2 := x\<rparr>) = shiftmask i" "shiftmask (i\<lparr>opc := o'\<rparr>) = shiftmask i"
  by (simp_all add: shiftmask_def)

lemma shift_not_sub: "shiftop op \<Longrightarrow> op \<noteq> IR_SUB \<and> foldop op \<and> \<not> iscmp op \<and> \<not> unop op \<and> arith op"
  using unop_simps(3,4) shiftop_simps(3,4) by (auto simp: arith_def unop_def)

lemma shift_ik_t:
  assumes "shiftop op"
  shows "term_rule fold_simplify_shift_ik (fkey2 op l r)"
proof (rule term_ruleI)
  fix rf J i assume J: "tinv J" "gops J (nins J) i" "foldop (opc i)" and k: "key_of (fkey2 op l r) J i"
  have s: "shiftop (opc i)" using k assms by simp
  note n = shift_not_sub [OF s]
  let ?m = "shiftmask i"
  let ?k = "ik (fr J i) AND ?m"
  have "\<exists>x. retry_kint J i ?k = Some x \<and> tres J i x" if "?k \<noteq> ik (fr J i)"
  proof (rule retry_kint_t [OF J(1) _ gopsD(1) [OF J(2)] J(3)])
    fix J' :: jit_State and ref assume r: "wref ref = 0" "ik (ir J' ref) = ?k"
    have "optail J' (i\<lparr>op2 := ref\<rparr>) < optail J i" using that s n r(2) by (simp add: optail_def and.assoc)
    then show "((J', i\<lparr>op2 := ref\<rparr>), (J, i)) \<in> fold_less" using s r(1) by (auto simp: fold_less_iff weight_def)
  qed (use J in simp_all)
  moreover have "\<exists>x. retry_kint J (i\<lparr>opc := IR_BROL\<rparr>) c = Some x \<and> tres J i x" if b: "opc i = IR_BROR" for c
  proof (rule retry_kint_t [OF J(1)])
    fix J' :: jit_State and ref assume r: "wref ref = 0"
    have "optail J' (i\<lparr>opc := IR_BROL, op2 := ref\<rparr>) < optail J i" using b by (simp add: optail_def)
    then show "((J', i\<lparr>opc := IR_BROL, op2 := ref\<rparr>), (J, i)) \<in> fold_less" using s r by (auto simp: fold_less_iff weight_def)
  qed (use J gopsD(1) in simp_all)
  moreover have "tres J i (J, RETRYFOLD (i\<lparr>opc := IR_ADD, op2 := op1 i\<rparr>))"
    using J s gopsD(1) [OF J(2)] by (simp add: smaller_def gops_def fold_less_iff)
  moreover have "tres J i (J, LEFTFOLD i)" using J gopsD(1) by (simp add: LEFTFOLD_def)
  ultimately show "\<exists>x. fold_simplify_shift_ik rf J i = Some x \<and> tres J i x"
    using J by (simp add: fold_simplify_shift_ik_def Let_def)
qed

lemma shift_andk_t:
  assumes "shiftop op"
  shows "term_rule fold_simplify_shift_andk (fkey2 op l (Some IR_BAND))"
proof (rule term_ruleI)
  fix rf J i assume J: "tinv J" "gops J (nins J) i" "foldop (opc i)" and k: "key_of (fkey2 op l (Some IR_BAND)) J i"
  have s: "shiftop (opc i)" using k assms by simp
  note n = shift_not_sub [OF s]
  have "opc (fr J i) = IR_BAND" using k n by auto
  then have "arith (opc (fr J i))" by (simp add: arith_def)
  note r = inner_r [OF J(1,2) _ this]
  have "smaller J i J (i\<lparr>op2 := op1 (fr J i)\<rparr>)"
    using r n s J gopsD(1) by (simp add: smaller_def gops_def fold_less_iff weight_def)
  then show "\<exists>x. fold_simplify_shift_andk rf J i = Some x \<and> tres J i x"
    using J by (simp add: fold_simplify_shift_andk_def Let_def)
qed

lemma shiftk_andk_t:
  assumes "shiftop op"
  shows "term_rule fold_simplify_shiftk_andk (fkey2 op (Some IR_BAND) r)"
proof (rule term_ruleI)
  fix rf J i assume J: "tinv J" "gops J (nins J) i" "foldop (opc i)" and k: "key_of (fkey2 op (Some IR_BAND) r) J i" and rf: "nested rf J i"
  have s: "shiftop (opc i)" and b: "opc (fl J i) = IR_BAND" using k assms by simp_all
  note n = shift_not_sub [OF s]
  obtain J1 x where 1: "rf J (i\<lparr>op1 := op1 (fl J i)\<rparr>) = Some (J1, x)" "tout J i J1 x" using rf s b by (auto simp: nested_def)
  then have g: "grows J J1" "tinv J1" by (simp_all add: tout_def grows_def)
  have "\<exists>y. retry_kint J1 (IRTI_BAND (i\<lparr>op1 := ref\<rparr>)) c = Some y \<and> tres J i y"
    "\<exists>y. retry_kint64 J1 (i\<lparr>op1 := ref, opc := opc (fl J i), irt := irt (fl J i)\<rparr>) c' = Some y \<and> tres J i y" if "x = Inr ref" for ref c c'
  proof -
    have "gop J1 (nins J1) ref" using 1(2) that n by (simp add: tout_def)
    then show "\<exists>y. retry_kint J1 (IRTI_BAND (i\<lparr>op1 := ref\<rparr>)) c = Some y \<and> tres J i y"
      "\<exists>y. retry_kint64 J1 (i\<lparr>op1 := ref, opc := opc (fl J i), irt := irt (fl J i)\<rparr>) c' = Some y \<and> tres J i y"
      by - (rule retry_kint_t [OF g(2,1)] retry_kint64_t [OF g(2,1)]; use s b in \<open>simp add: IRTI_BAND_def fold_less_iff\<close>)+
  qed
  then show "\<exists>x. fold_simplify_shiftk_andk rf J i = Some x \<and> tres J i x"
    using J g by (cases x) (simp_all add: fold_simplify_shiftk_andk_def Let_def 1(1))
qed

text \<open>The rules that take an operand of the left operand instead of it, some with a new constant.\<close>

lemma left_smaller:
  assumes "tinv J" "gops J (nins J) i" "foldop (opc i)" "\<not> unop (opc i)" "arith (opc (fl J i))"
  shows "smaller J i J (i\<lparr>op1 := op1 (fl J i)\<rparr>)"
  using inner_l [OF assms(1,2,5)] assms gopsD(2) by (simp add: smaller_def gops_def fold_less_iff weight_def)

lemma left_retry:
  assumes "tinv J" "gops J (nins J) i" "foldop (opc i)" "arith (opc (fl J i))"
  shows "\<exists>x. retry_kint J (i\<lparr>op1 := op1 (fl J i)\<rparr>) k = Some x \<and> tres J i x"
    and "\<exists>x. retry_kint64 J (i\<lparr>op1 := op1 (fl J i)\<rparr>) k' = Some x \<and> tres J i x"
  by (rule retry_kint_t [OF assms(1)] retry_kint64_t [OF assms(1)];
      use inner_l [OF assms(1,2,4)] assms in \<open>simp add: fold_less_iff weight_def\<close>)+

lemma andor_t:
  assumes "\<not> unop op" and "arith op'"
  shows "term_rule fold_simplify_andor_k (fkey2 op (Some op') r)" "term_rule fold_simplify_andor_k64 (fkey2 op (Some op') r)"
  by (intro term_ruleI;
      use assms left_smaller in \<open>simp add: fold_simplify_andor_k_def fold_simplify_andor_k64_def Let_def\<close>)+

lemma reassoc_t:
  assumes "arith op'"
  shows "term_rule fold_reassoc_intarith_k (fkey2 op (Some op') r)" "term_rule fold_reassoc_intarith_k64 (fkey2 op (Some op') r)"
    "term_rule fold_reassoc_minmax_k (fkey2 op (Some op') r)"
  by (intro term_ruleI;
      use assms left_retry in \<open>simp add: fold_reassoc_intarith_k_def fold_reassoc_intarith_k64_def fold_reassoc_minmax_k_def Let_def LEFTFOLD_def gopsD\<close>)+

lemma reassoc_shift_t:
  assumes "arith op'"
  shows "term_rule fold_reassoc_shift (fkey2 op (Some op') r)"
proof (rule term_ruleI)
  fix rf J i assume J: "tinv J" "gops J (nins J) i" "foldop (opc i)" and k: "key_of (fkey2 op (Some op') r) J i"
  have "arith (opc (fl J i))" using k assms by simp
  note l = left_retry(1) [OF J this]
  show "\<exists>x. fold_reassoc_shift rf J i = Some x \<and> tres J i x"
    using l J(1) int64fold_t [OF J(1), of i 0]
    by (cases "INT64FOLD J 0") (simp add: fold_reassoc_shift_def Let_def)
qed

section \<open>The table\<close>

definition term_table :: "(fkey list \<times> frule) list \<Rightarrow> bool" where
  "term_table rs \<longleftrightarrow> list_all (\<lambda>(ks, f). list_all (term_rule f) ks) rs"

lemma kfold_term: "term_table kfold_rules"
  unfolding term_table_def kfold_rules_def by (simp add: kfold_t kfold64_t kcomp_t)

lemma simplify_term: "term_table simplify_rules"
  unfolding term_table_def simplify_rules_def
  by (simp add: shortcut_t neg_t negneg_t left_t leftright_t intsub_t sub_t mul_t cancel_t subcancel_t bxor_k_t shift_ik_t shift_andk_t shiftk_andk_t
      andor_t arith_def)

lemma reassoc_term: "term_table reassoc_rules"
  unfolding term_table_def reassoc_rules_def
  by (simp add: reassoc_t reassoc_shift_t left_t cancel_t arith_def)

lemma abc_comm_term: "term_table abc_comm_rules"
  unfolding term_table_def abc_comm_rules_def
  by (simp add: abc_t abc_k_t comm_swap_t comm_t comm_comp_t comm_dup_minmax_t)

lemma rule_for_term:
  assumes "rule_for k = Some f"
  shows "term_rule f k"
proof -
  have "term_table fold_rules"
    using kfold_term simplify_term reassoc_term abc_comm_term by (simp add: term_table_def fold_rules_def)
  then show ?thesis using rule_for_mem [OF assms] by (auto simp: term_table_def list_all_iff)
qed

section \<open>More fuel\<close>

text \<open>A result with some fuel is the result with more.\<close>

definition rf_le :: "(jit_State \<Rightarrow> irins \<Rightarrow> fout) \<Rightarrow> (jit_State \<Rightarrow> irins \<Rightarrow> fout) \<Rightarrow> bool" where
  "rf_le rf rf' \<longleftrightarrow> (\<forall>J i x. rf J i = Some x \<longrightarrow> rf' J i = Some x)"

definition mono_rule :: "frule \<Rightarrow> bool" where
  "mono_rule f \<longleftrightarrow> (\<forall>rf rf' J i x. rf_le rf rf' \<longrightarrow> f rf J i = Some x \<longrightarrow> f rf' J i = Some x)"

lemma mono_const: "(\<And>rf rf' J i. f rf J i = f rf' J i) \<Longrightarrow> mono_rule f"
  unfolding mono_rule_def by metis

lemma mono_kfold: "list_all (\<lambda>r. mono_rule (snd r)) kfold_rules"
  unfolding kfold_rules_def list.pred_inject prod.sel
  by (intro conjI TrueI mono_const; simp add: fold_kfold_intarith_def fold_kfold_intovarith_def fold_kfold_bnot_def fold_kfold_bswap_def
      fold_kfold_intcomp_def fold_kfold_intcomp0_def fold_kfold_int64arith_def fold_kfold_int64arith2_def fold_kfold_int64shift_def
      fold_kfold_bnot64_def fold_kfold_bswap64_def fold_kfold_int64comp_def fold_kfold_int64comp0_def fold_kfold_kref_def)

lemma mono_shiftk_andk: "mono_rule fold_simplify_shiftk_andk"
  unfolding mono_rule_def
proof (intro allI impI)
  fix rf rf' :: "jit_State \<Rightarrow> irins \<Rightarrow> fout" and J i x
  assume le: "rf_le rf rf'" and e: "fold_simplify_shiftk_andk rf J i = Some x"
  let ?i = "i\<lparr>op1 := op1 (fl J i)\<rparr>"
  show "fold_simplify_shiftk_andk rf' J i = Some x"
  proof (cases "rf J ?i")
    case None
    then show ?thesis using e by (simp add: fold_simplify_shiftk_andk_def Let_def split: if_splits)
  next
    case (Some y)
    then have "rf' J ?i = rf J ?i" using le unfolding rf_le_def by metis
    then have "fold_simplify_shiftk_andk rf' J i = fold_simplify_shiftk_andk rf J i" by (simp only: fold_simplify_shiftk_andk_def Let_def)
    then show ?thesis using e by simp
  qed
qed

lemma mono_simplify: "list_all (\<lambda>r. mono_rule (snd r)) simplify_rules"
  unfolding simplify_rules_def list.pred_inject prod.sel
  by (intro conjI; (rule mono_shiftk_andk | (rule mono_const, simp only: fold_shortcut_leftleft_def fold_simplify_numadd_negx_def
      fold_simplify_numadd_xneg_def fold_simplify_numsub_xneg_def fold_simplify_nummuldiv_negneg_def fold_simplify_intadd_k_def
      fold_simplify_intmul_k_def fold_simplify_intsub_k_def fold_simplify_intsub_kleft_def fold_simplify_intadd_k64_def
      fold_simplify_intsub_k64_def fold_simplify_intmul_k32_def fold_simplify_intmul_k64_def fold_simplify_intmod_k_def
      fold_simplify_intmod_kleft_def fold_simplify_intsub_def fold_simplify_intsubadd_leftcancel_def fold_simplify_intsubsub_leftcancel_def
      fold_simplify_intsubsub_rightcancel_def fold_simplify_intsubadd_rightcancel_def fold_simplify_intsubaddadd_cancel_def
      fold_simplify_band_k_def fold_simplify_bor_k_def fold_simplify_bxor_k_def fold_simplify_shift_ik_def fold_simplify_shift_andk_def
      fold_simplify_shift1_ki_def fold_simplify_shift2_ki_def fold_simplify_andk_shiftk_def fold_simplify_andor_k_def
      fold_simplify_andor_k64_def) | simp))

lemma mono_rest: "list_all (\<lambda>r. mono_rule (snd r)) (reassoc_rules @ abc_comm_rules)"
  unfolding reassoc_rules_def abc_comm_rules_def append.simps list.pred_inject prod.sel
  by (intro conjI; ((rule mono_const, simp only: fold_reassoc_intarith_k_def fold_reassoc_intarith_k64_def fold_reassoc_dup_def
      fold_reassoc_dup_minmax_def fold_reassoc_bxor_def fold_reassoc_shift_def fold_reassoc_minmax_k_def fold_abc_fwd_def fold_abc_k_def
      fold_abc_invar_def fold_comm_swap_def fold_comm_equal_def fold_comm_comp_def fold_comm_dup_def fold_comm_dup_minmax_def fold_comm_bxor_def) | simp))

lemma rule_for_mono: "rule_for k = Some f \<Longrightarrow> mono_rule f"
proof -
  assume r: "rule_for k = Some f"
  have "list_all (\<lambda>r. mono_rule (snd r)) fold_rules"
    using mono_kfold mono_simplify mono_rest by (simp add: fold_rules_def)
  then show ?thesis using rule_for_mem [OF r] by (auto simp: list_all_iff)
qed

lemma match_mono: "rf_le rf rf' \<Longrightarrow> fold_match ks rf J i = Some x \<Longrightarrow> fold_match ks rf' J i = Some x"
proof (induction ks arbitrary: J)
  case (Cons k ks)
  show ?case
  proof (cases "rule_for k")
    case None
    then show ?thesis using Cons by simp
  next
    case (Some f)
    obtain J1 res where r: "f rf J i = Some (J1, res)" using Cons.prems(2) Some by (auto split: option.splits)
    then have "f rf' J i = Some (J1, res)" using rule_for_mono [OF Some] Cons.prems(1) unfolding mono_rule_def by blast
    then show ?thesis using Cons Some r by (cases res) auto
  qed
qed simp

lemma fuel_Suc: "rf_le (lj_opt_fold n) (lj_opt_fold (Suc n))"
proof (induction n)
  case (Suc n)
  show ?case
    unfolding rf_le_def
  proof (intro allI impI)
    fix J i x assume e: "lj_opt_fold (Suc n) J i = Some x"
    show "lj_opt_fold (Suc (Suc n)) J i = Some x"
    proof (cases "opt_fold J")
      case True
      then obtain J1 res where m: "fold_match (fold_keys J i) (lj_opt_fold n) J i = Some (J1, res)" using e by (auto split: option.splits)
      note m' = match_mono [OF Suc m]
      have r: "lj_opt_fold n J1 i' = Some x \<Longrightarrow> lj_opt_fold (Suc n) J1 i' = Some x" for i' using Suc by (simp only: rf_le_def)
      show ?thesis
        using e True m m' r unfolding lj_opt_fold.simps(2) [of "Suc n"] lj_opt_fold.simps(2) [of n J i] by (cases res) (simp_all only: option.case prod.case fres.case if_False simp_thms)
    qed (use e in simp)
  qed
qed (simp add: rf_le_def)

lemma rf_le_trans: "rf_le f g \<Longrightarrow> rf_le g h \<Longrightarrow> rf_le f h"
  by (simp only: rf_le_def) blast

lemma fuel_le: "n \<le> m \<Longrightarrow> rf_le (lj_opt_fold n) (lj_opt_fold m)"
proof (induction m rule: dec_induct)
  case base
  show ?case by (simp only: rf_le_def) blast
next
  case (step m)
  from rf_le_trans [OF step.IH fuel_Suc] show ?case .
qed

lemma fuel_more: "lj_opt_fold n J i = Some x \<Longrightarrow> n \<le> m \<Longrightarrow> lj_opt_fold m J i = Some x"
  by (rule fuel_le [unfolded rf_le_def, rule_format])

section \<open>Termination\<close>

lemma keys_of_gops:
  assumes "gops J (nins J) i" and "k \<in> set (fold_keys J i)"
  shows "key_of k J i"
proof -
  have "nk J \<le> op1 i" "\<not> unop (opc i) \<Longrightarrow> nk J \<le> op2 i" using gopsD [OF assms(1)] by (simp_all add: gop_def)
  then show ?thesis using assms(2)
    by (auto simp: fold_keys_def Let_def key_left_def key_right_def key_of_def)
qed

lemma match_term:
  assumes "tinv J" "gops J (nins J) i" "foldop (opc i)" "nested rf J i" and "\<And>k. k \<in> set ks \<Longrightarrow> key_of k J i"
  shows "\<exists>x. fold_match ks rf J i = Some x \<and> tres J i x"
  using assms(5)
proof (induction ks)
  case Nil
  then show ?case using assms(1) by simp
next
  case (Cons k ks)
  show ?case
  proof (cases "rule_for k")
    case None
    then show ?thesis using Cons by simp
  next
    case (Some f)
    have "key_of k J i" by (rule Cons.prems) simp
    with rule_for_term [OF Some] assms(1-4) have "\<exists>x. f rf J i = Some x \<and> tres J i x" unfolding term_rule_def by blast
    then obtain J1 res where r: "f rf J i = Some (J1, res)" "tres J i (J1, res)" by (metis prod.collapse)
    then have "res = NEXTFOLD \<Longrightarrow> J1 = J" by (simp add: tres_def)
    then show ?thesis using Cons Some r by (cases res) simp_all
  qed
qed

lemma lift_ref_t:
  assumes "grows J J1" and "snd x = ref" "grows J1 (fst x)" "gop (fst x) (nins (fst x)) ref"
  shows "\<exists>J' r. lift_ref x = Some (J', r) \<and> tout J i J' r"
  using assms grows_trans [of J J1 "fst x"] by (cases x) (simp add: lift_ref_def tout_def)

theorem fold_halts:
  "tinv J \<Longrightarrow> gops J (nins J) i \<Longrightarrow> foldop (opc i) \<Longrightarrow> \<exists>n J' r. lj_opt_fold n J i = Some (J', r) \<and> tout J i J' r"
proof (induction "(J, i)" arbitrary: J i rule: wf_induct_rule [OF wf_fold_less])
  case (1 J i)
  note J = "1.prems"
  have IH: "\<exists>n J'' r. lj_opt_fold n J' i' = Some (J'', r) \<and> tout J' i' J'' r" if "tinv J'" "smaller J i J' i'" for J' i'
    using "1.hyps" [of J' i'] that unfolding smaller_def by blast
  have cse: "\<exists>J' r. lift_ref (lj_opt_cse J i) = Some (J', r) \<and> tout J i J' r"
    using cse_grows [OF J] grows_refl [OF J(1)] by (intro lift_ref_t [of J J]) (auto simp: prod_eq_iff)
  show ?case
  proof (cases "opt_fold J")
    case False
    then have "lj_opt_fold (Suc 0) J i = lift_ref (lj_opt_cse J i)" by simp
    with cse show ?thesis by metis
  next
    case on: True
    have "\<exists>n. nested (lj_opt_fold n) J i"
    proof (cases "opc (fl J i) = IR_BAND \<and> shiftop (opc i)")
      case True
      then have "smaller J i J (i\<lparr>op1 := op1 (fl J i)\<rparr>)" using J shift_not_sub [of "opc i"] by (intro left_smaller) (auto simp: arith_def)
      from IH [OF J(1) this] show ?thesis by (auto simp: nested_def tout_def)
    qed (auto simp: nested_def)
    then obtain n where n: "nested (lj_opt_fold n) J i" by blast
    obtain J1 res where m: "fold_match (fold_keys J i) (lj_opt_fold n) J i = Some (J1, res)" and t: "tres J i (J1, res)"
      using match_term [OF J n, of "fold_keys J i"] keys_of_gops [OF J(2)] by auto
    have g: "grows J J1" "tinv J1" using t by (auto simp: tres_def grows_def)
    show ?thesis
    proof (cases "\<exists>i'. res = RETRYFOLD i'")
      case True
      then obtain i' where r: "res = RETRYFOLD i'" by blast
      have s: "smaller J i J1 i'" using t r by simp
      from IH [OF g(2) s] obtain n' J' r' where i': "lj_opt_fold n' J1 i' = Some (J', r')" "tout J1 i' J' r'" by blast
      have "fold_match (fold_keys J i) (lj_opt_fold (max n n')) J i = Some (J1, res)"
        by (rule match_mono [OF fuel_le m]) simp
      moreover have "lj_opt_fold (max n n') J1 i' = Some (J', r')" by (rule fuel_more [OF i'(1)]) simp
      ultimately have "lj_opt_fold (Suc (max n n')) J i = Some (J', r')" using on r by simp
      moreover have "tout J i J' r'" using i'(2) s grows_trans [OF g(1)] by (auto simp: tout_def smaller_def)
      ultimately show ?thesis by blast
    next
      case False
      have "\<exists>J' r. lj_opt_fold (Suc n) J i = Some (J', r) \<and> tout J i J' r"
      proof (cases res)
        case NEXTFOLD
        then have "J1 = J" using t by (simp add: tres_def)
        with NEXTFOLD cse on m show ?thesis by simp
      next
        case (KINTFOLD k)
        have "\<exists>J' r. lift_ref (lj_ir_kint J1 k) = Some (J', r) \<and> tout J i J' r"
          using kint_grows [OF g(2)] by (intro lift_ref_t [OF g(1) refl]) (auto simp: prod_eq_iff)
        with KINTFOLD on m show ?thesis by simp
      qed (use t on m False in \<open>auto simp: tout_def\<close>)
      then show ?thesis by blast
    qed
  qed
qed

end
