(* ===== verification/FoldMain.thy ===== *)
theory FoldMain
  imports FoldTerm
begin

text \<open>Total correctness of the FOLD engine, from soundness and termination, and a concrete run to which it applies.\<close>

section \<open>Soundness\<close>

lemma fold_run_sound:
  assumes "lj_opt_fold f J fins = Some (J', r)" and "0 < nk J'" and "ok J" and "typed False J fins"
    and "sgn_ok J fins" and "nomask J fins"
  shows "ok J' \<and>
    (case r of
       Inl e \<Rightarrow> refines J J' (\<lambda>_. True) \<and> (\<forall>\<nu>. agrees J \<nu> \<longrightarrow> \<not> guard fins \<nu>)
     | Inr ref \<Rightarrow> refines J J' (guard fins) \<and> (\<not> iscmp (opc fins) \<longrightarrow> (\<forall>\<nu>. agrees J' \<nu> \<longrightarrow> \<nu> ref = eval fins \<nu>)))"
proof -
  have h: "case r of Inl e \<Rightarrow> post J J' (\<lambda>_. True) \<and> (\<forall>\<nu>. agrees J' \<nu> \<longrightarrow> \<not> guard fins \<nu>)
      | Inr ref \<Rightarrow> post J J' (guard fins) \<and> rval J J' fins ref"
    using driver_ok [of f] assms typed_weak [OF assms(4)] unfolding fold_ok_def by blast
  show ?thesis
  proof (cases r)
    case (Inl e)
    then have p: "post J J' (\<lambda>_. True)" and g: "\<And>\<nu>. agrees J' \<nu> \<Longrightarrow> \<not> guard fins \<nu>" using h by auto
    have "\<not> guard fins \<nu>" if a: "agrees J \<nu>" for \<nu>
    proof -
      obtain \<nu>' where "agrees J' \<nu>'" "\<And>r. vref J r \<Longrightarrow> \<nu>' r = \<nu> r" using p a by (auto simp: post_def refines_def)
      then show ?thesis using g typed_guard_cong [OF assms(4)] by blast
    qed
    then show ?thesis using p Inl by (simp add: post_def)
  next
    case (Inr ref)
    then show ?thesis using h by (auto simp: post_def rval_def)
  qed
qed

section \<open>Total correctness\<close>

text \<open>C14. Folding an integer instruction ends, and it is a refinement of emitting it. From some fuel on \<^verbatim>\<open>lj_opt_fold\<close> always has
  the same result, so the retries and nested folds come to an end whatever the buffer holds. If its constants fit
  into the buffer, the new buffer is well formed and in SSA form, its valuations are those of the
  old buffer in which the guard of the instruction holds, and the reference that is returned has the value
  of the instruction. When the trace is aborted because a guard would always fail, the guard is false in every
  valuation of the buffer. The buffer is in SSA form, the operands of its arithmetic instructions being earlier instructions or
  constants; divisions with the same operands have to agree in their sign and a signed division is not one of two negations; and 64 bit
  shifts and multiplications need a buffer without 64 bit masks.\<close>

theorem fold_sound:
  assumes "ok J" and "ssa J" and "typed False J fins" and "sgn_ok J fins" and "nomask J fins"
  shows "\<exists>J' r. (\<exists>n. \<forall>f\<ge>n. lj_opt_fold f J fins = Some (J', r)) \<and>
    (0 < nk J' \<longrightarrow> ok J' \<and> ssa J' \<and>
      (case r of
         Inl e \<Rightarrow> refines J J' (\<lambda>_. True) \<and> (\<forall>\<nu>. agrees J \<nu> \<longrightarrow> \<not> guard fins \<nu>)
       | Inr ref \<Rightarrow> refines J J' (guard fins) \<and> (\<not> iscmp (opc fins) \<longrightarrow> (\<forall>\<nu>. agrees J' \<nu> \<longrightarrow> \<nu> ref = eval fins \<nu>))))"
proof -
  from fold_halts [OF ok_tinv [OF assms(1,2)] typed_gops [OF assms(1,3)] typedD(2) [OF assms(3)]]
  obtain n J' r where e: "lj_opt_fold n J fins = Some (J', r)" and t: "tout J fins J' r" by (elim exE conjE)
  have "\<forall>f\<ge>n. lj_opt_fold f J fins = Some (J', r)" using fuel_more [OF e] by (intro allI impI)
  moreover have "ssa J'" using t by (simp add: tout_def grows_def tinv_def)
  moreover note fold_run_sound [OF e _ assms(1,3-5)]
  ultimately show ?thesis by (intro exI [of _ J'] exI [of _ r] conjI exI [of _ n] impI) simp_all
qed

section \<open>An example\<close>

text \<open>A buffer with one integer \<^verbatim>\<open>SLOAD\<close> and the constant 0.\<close>

definition blank :: irins where
  "blank = \<lparr>op1 = 0, op2 = 0, irt = 0, opc = 0, prev = 0, ik = 0, tv = 0\<rparr>"

definition demo0 :: jit_State where
  "demo0 = \<lparr>ir = (\<lambda>r. blank)(REF_FIRST := blank\<lparr>opc := IR_SLOAD, irt := IRT_INT\<rparr>), nins = REF_FIRST + 1, nk = REF_TRUE,
     chain = (\<lambda>o'. 0)(IR_SLOAD := REF_FIRST), guardemit = 0, opt_fold = True, opt_cse = True, opt_abc = True\<rparr>"

definition demo :: jit_State where "demo = fst (lj_ir_kint demo0 0)"

definition demo_ins :: irins where
  "demo_ins = blank\<lparr>opc := IR_ADD, irt := IRT_INT, op1 := REF_FIRST, op2 := REF_TRUE - 1\<rparr>"

lemma sload_class: "\<not> iskop IR_SLOAD" "\<not> foldop IR_SLOAD" "IR_SLOAD \<noteq> IR_KINT" "IR_SLOAD \<noteq> IR_KINT64" "IR_SLOAD \<noteq> IR_ADD" "IR_SLOAD \<noteq> IR_BAND"
  by (simp_all add: iskop_def foldop_def op_classes shiftop_cases iscmp_def ir_defs IR_SLOAD_def IR_KSLOT_def)

lemma demo0_chain: "on_chain demo0 op r \<longleftrightarrow> op = IR_SLOAD \<and> r = REF_FIRST"
proof
  have R: "reach demo0 a r \<Longrightarrow> a = REF_FIRST \<Longrightarrow> r = REF_FIRST" for a
    by (induction rule: reach.induct) (auto simp: demo0_def blank_def)
  assume a: "on_chain demo0 op r"
  then have "op = IR_SLOAD" using reach_nonzero by (fastforce simp: on_chain_def demo0_def split: if_splits)
  with a R show "op = IR_SLOAD \<and> r = REF_FIRST" by (auto simp: on_chain_def demo0_def)
qed (auto simp: on_chain_def demo0_def REF_FIRST_def intro: reach.head)

lemma demo0_ok: "ok demo0"
proof -
  have "ir_wf demo0"
    using sload_class unfolding ir_wf_def demo0_chain
    by (simp add: demo0_def blank_def REF_FIRST_def REF_BASE_def REF_BIAS_def kval_ok_def)
  moreover have "ir_typed demo0"
    using sload_class unfolding ir_typed_def vref_def demo0_chain by (auto simp: demo0_def)
  ultimately show ?thesis by (simp add: ok_def)
qed

lemma demo0_ssa: "ssa demo0"
proof -
  have "\<not> arith (opc (ir demo0 r))" for r
    using sload_class by (simp add: demo0_def blank_def arith_def iscmp_def)
  then show ?thesis by (simp add: ssa_def)
qed

lemma chain_up_0: "chain_up n J P 0 = None"
  by (cases n) simp_all

lemma demo_kint: "lj_ir_kint demo0 0 = (demo, REF_TRUE - 1)" and demo_nk: "nk demo = REF_TRUE - 1"
proof -
  have "ksearch demo0 IR_KINT P = None" for P
    using sload_class by (simp add: ksearch_def demo0_def chain_up_0)
  then have k: "lj_ir_kint demo0 0 = klink (ir_nextk demo0) IR_KINT (\<lambda>i. i\<lparr>ik := 0, irt := IRT_INT\<rparr>)"
    by (simp add: lj_ir_kint_def)
  then show n: "nk demo = REF_TRUE - 1"
    by (simp add: demo_def demo0_def klink_def ir_nextk_def Let_def)
  from k have "snd (lj_ir_kint demo0 0) = REF_TRUE - 1"
    by (simp add: demo0_def klink_def ir_nextk_def Let_def)
  then show "lj_ir_kint demo0 0 = (demo, REF_TRUE - 1)"
    by (simp only: demo_def prod_eq_iff fst_conv snd_conv simp_thms)
qed

lemma ref_true_pos: "0 < REF_TRUE - 1"
  by (simp add: REF_TRUE_def REF_BIAS_def)

lemma demo_ok: "ok demo" and demo_vref: "vref demo REF_FIRST" and demo_typed: "typed False demo demo_ins"
  and demo_x: "ir demo REF_FIRST = blank\<lparr>opc := IR_SLOAD, irt := IRT_INT\<rparr>"
  and demo_k: "opc (ir demo (REF_TRUE - 1)) = IR_KINT" "ik (ir demo (REF_TRUE - 1)) = 0"
proof -
  note k = kint_ok [OF demo0_ok demo_kint] 
  have nz: "0 < nk demo" unfolding demo_nk by (rule ref_true_pos)
  show J: "ok demo" using postD(1) [OF k(1) [OF nz]] .
  have v0: "vref demo0 REF_FIRST" unfolding vref_def demo0_chain by (simp add: demo0_def)
  note e = keepsD [OF postD(2) [OF k(1) [OF nz]] v0]
  show v: "vref demo REF_FIRST" by (rule e(1))
  have ne: "opc (ir demo0 REF_FIRST) \<noteq> IR_ABC" by (simp add: demo0_def IR_SLOAD_def IR_ABC_def)
  show x: "ir demo REF_FIRST = blank\<lparr>opc := IR_SLOAD, irt := IRT_INT\<rparr>" using e(7) [OF ne] by (simp add: demo0_def)
  show "opc (ir demo (REF_TRUE - 1)) = IR_KINT" "ik (ir demo (REF_TRUE - 1)) = 0" using k(3,4) [OF nz] .
  have "w32 demo REF_FIRST" "w32 demo (REF_TRUE - 1)"
    using v x k(2,5) [OF nz] kint_type by (simp_all add: w32_def)
  then show "typed False demo demo_ins"
    using kint_type by (intro typedI) (auto simp: demo_ins_def addt_def blank_def)
qed

lemma demo_fold: "lj_opt_fold (Suc 0) demo demo_ins = Some (demo, Inr REF_FIRST)"
proof -
  have r1: "rule_for (IR_ADD, Some IR_SLOAD, Some (ucast IR_KINT)) = None"
    unfolding rule_for_def fold_rules_def kfold_rules_def simplify_rules_def reassoc_rules_def abc_comm_rules_def fkey1_def fkey2_def
    by (simp add: ir_defs IR_SLOAD_def)
  have r2: "rule_for (IR_ADD, None, Some (ucast IR_KINT)) = Some fold_simplify_intadd_k"
    unfolding rule_for_def fold_rules_def kfold_rules_def simplify_rules_def fkey1_def fkey2_def
    by (simp add: ir_defs)
  have of: "opt_fold demo" using demo_kint by (auto simp: demo_def demo0_def lj_ir_kint_def klink_def ir_nextk_def Let_def split: option.splits)
  have "nk demo \<le> REF_FIRST" by (simp add: demo_nk REF_FIRST_def REF_TRUE_def)
  then have "fold_keys demo demo_ins = (IR_ADD, Some IR_SLOAD, Some (ucast IR_KINT)) # (IR_ADD, None, Some (ucast IR_KINT)) #
      tl (tl (fold_keys demo demo_ins))"
    using demo_x demo_k by (simp add: fold_keys_def key_left_def key_right_def demo_ins_def Let_def demo_nk blank_def)
  then obtain ks where ks: "fold_keys demo demo_ins = (IR_ADD, Some IR_SLOAD, Some (ucast IR_KINT)) # (IR_ADD, None, Some (ucast IR_KINT)) # ks"
    by blast
  have i: "ik (fr demo demo_ins) = 0" using demo_k by (simp add: demo_ins_def)
  have m: "fold_match (fold_keys demo demo_ins) (lj_opt_fold 0) demo demo_ins = Some (demo, FREF REF_FIRST)"
    using i by (simp add: ks r1 r2 fold_simplify_intadd_k_def LEFTFOLD_def) (simp add: demo_ins_def)
  then show ?thesis using of by simp
qed

lemma demo_agrees: "agrees demo ((\<lambda>_. 0)(REF_FIRST := 7))"
proof -
  have nz: "0 < nk demo" unfolding demo_nk by (rule ref_true_pos)
  have ne: "REF_TRUE - 1 \<noteq> REF_FIRST" by (simp add: REF_TRUE_def REF_FIRST_def REF_BIAS_def)
  have c: "\<not> iscmp IR_KINT" "\<not> foldop IR_KINT" "IR_KINT \<noteq> IR_KINT64" "\<not> iscmp IR_SLOAD"
      "\<not> int64t IRT_INT" "IR_KINT \<noteq> IR_ABC" "IR_SLOAD \<noteq> IR_ABC"
    by (simp_all add: foldop_def op_classes shiftop_cases iscmp_def ir_defs IR_SLOAD_def int64t_def irt_defs irt_type_def)
  have "agrees1 demo (ir demo r) (((\<lambda>_. 0)(REF_FIRST := 7)) r) \<nu>" if v: "vref demo r" for r \<nu>
  proof -
    have "vref demo0 r \<or> r = REF_TRUE - 1" using kint_ok(6) [OF demo0_ok demo_kint nz v] .
    moreover have "vref demo0 r \<Longrightarrow> r = REF_FIRST" unfolding vref_def demo0_chain by simp
    ultimately show ?thesis
      using demo_x demo_k ne sload_class c by (auto simp: agrees1_def intins_def sx_def lo_def)
  qed
  then show ?thesis by (simp add: agrees_def)
qed

lemma demo_ssa: "ssa demo"
  using kint_grows(1) [OF ok_tinv [OF demo0_ok demo0_ssa] demo_kint] by (simp add: grows_def tinv_def)

lemma fold_sound_witness:
  "lj_opt_fold (Suc 0) demo demo_ins = Some (demo, Inr REF_FIRST) \<and> eval demo_ins ((\<lambda>_. 0)(REF_FIRST := 7)) = 7"
proof -
  have nz: "0 < nk demo" unfolding demo_nk by (rule ref_true_pos)
  have o': "opc demo_ins = IR_ADD" "\<not> iscmp IR_ADD" by (simp_all add: demo_ins_def iscmp_def ir_defs)
  have s: "sgn_ok demo demo_ins" by (simp add: sgn_nodiv o')
  have m: "nomask demo demo_ins" by (simp add: nomask_def demo_ins_def int64t_def irt_defs irt_type_def)
  from fold_sound [OF demo_ok demo_ssa demo_typed s m]
  obtain J' r n where f: "\<forall>f\<ge>n. lj_opt_fold f demo demo_ins = Some (J', r)"
    and c: "0 < nk J' \<longrightarrow> ok J' \<and> ssa J' \<and>
      (case r of
         Inl e \<Rightarrow> refines demo J' (\<lambda>_. True) \<and> (\<forall>\<nu>. agrees demo \<nu> \<longrightarrow> \<not> guard demo_ins \<nu>)
       | Inr ref \<Rightarrow> refines demo J' (guard demo_ins) \<and> (\<not> iscmp (opc demo_ins) \<longrightarrow> (\<forall>\<nu>. agrees J' \<nu> \<longrightarrow> \<nu> ref = eval demo_ins \<nu>)))"
    by (elim exE conjE)
  have "lj_opt_fold (max n (Suc 0)) demo demo_ins = Some (demo, Inr REF_FIRST)"
    by (rule fuel_more [OF demo_fold]) simp
  moreover have "lj_opt_fold (max n (Suc 0)) demo demo_ins = Some (J', r)" by (rule f [rule_format]) simp
  ultimately have r: "J' = demo" "r = Inr REF_FIRST" by simp_all
  have "((\<lambda>_. 0)(REF_FIRST := 7)) REF_FIRST = eval demo_ins ((\<lambda>_. 0)(REF_FIRST := 7))"
    using c nz o' demo_agrees unfolding r by simp
  then show ?thesis using demo_fold by simp
qed

end
