(* ===== verification/Buf.thy ===== *)
theory Buf
  imports Prelude
begin

text \<open>
  String buffers, \<^verbatim>\<open>src/src/lj_buf.c\<close> and \<^verbatim>\<open>src/src/lj_buf.h\<close>. A buffer is the memory from its base pointer to
  its end pointer, the offsets of the write and of the read pointer, and the flags that the code keeps in the
  low bits of the state reference. A plain buffer reads from offset 0. The memory of a copy-on-write
  buffer is that of a string, to which a write is \<open>Stuck\<close>, as is every write beyond the end; that growing may
  not end is \<open>Stuck\<close> too. Sizes are 32 bit words as in the code. A borrowed buffer shares the memory,
  so of the lender only the size and the write offset are kept.
\<close>

section \<open>Buffers\<close>

definition LJ_MAX_BUF :: nat where "LJ_MAX_BUF = LJ_MAX_MEM32"
definition LJ_MIN_SBUF :: u32 where "LJ_MIN_SBUF = 32"

definition SBUF_FLAG_EXT :: u8 where "SBUF_FLAG_EXT = 1"
definition SBUF_FLAG_COW :: u8 where "SBUF_FLAG_COW = 2"
definition SBUF_FLAG_BORROW :: u8 where "SBUF_FLAG_BORROW = 4"

text \<open>What the allocator grants, and the contents of fresh memory.\<close>

record bufenv =
  grant :: "nat \<Rightarrow> bool"
  junk :: "nat \<Rightarrow> u8"

record SBuf =
  bmem :: bytes
  bw :: nat
  br :: nat
  bflag :: u8
  bsb :: "u32 \<times> u32"

definition sbufsz :: "SBuf \<Rightarrow> u32" where "sbufsz sb = word_of_nat (length (bmem sb))"
definition sbuflen :: "SBuf \<Rightarrow> u32" where "sbuflen sb = word_of_nat (bw sb)"
definition sbufleft :: "SBuf \<Rightarrow> u32" where "sbufleft sb = word_of_nat (length (bmem sb) - bw sb)"
definition sbufxlen :: "SBuf \<Rightarrow> u32" where "sbufxlen sb = word_of_nat (bw sb - br sb)"
definition sbufxslack :: "SBuf \<Rightarrow> u32" where "sbufxslack sb = word_of_nat (br sb)"

definition sbufisext :: "SBuf \<Rightarrow> bool" where "sbufisext sb \<longleftrightarrow> bflag sb AND SBUF_FLAG_EXT \<noteq> 0"
definition sbufiscow :: "SBuf \<Rightarrow> bool" where "sbufiscow sb \<longleftrightarrow> bflag sb AND SBUF_FLAG_COW \<noteq> 0"
definition sbufisborrow :: "SBuf \<Rightarrow> bool" where "sbufisborrow sb \<longleftrightarrow> bflag sb AND SBUF_FLAG_BORROW \<noteq> 0"

section \<open>Growing\<close>

text \<open>\<^verbatim>\<open>while (nsz < sz) nsz += nsz;\<close> in 32 bits, which need not end.\<close>

partial_function (option) buf_size :: "u32 \<Rightarrow> u32 \<Rightarrow> u32 option" where
  "buf_size nsz sz = (if nsz < sz then buf_size (nsz + nsz) sz else Some nsz)"

declare buf_size.simps [code]

definition newmem :: "bufenv \<Rightarrow> bytes \<Rightarrow> nat \<Rightarrow> bytes" where
  "newmem env mem n = map (\<lambda>i. if i < length mem then mem ! i else junk env i) [0..<n]"

definition buf_grow :: "bufenv \<Rightarrow> SBuf \<Rightarrow> u32 \<Rightarrow> SBuf comp" where
  "buf_grow env sb sz =
     (let osz = sbufsz sb; len = sbuflen sb; nsz = (if osz < LJ_MIN_SBUF then LJ_MIN_SBUF else osz)
      in case buf_size nsz sz of
           None \<Rightarrow> Stuck
         | Some nsz \<Rightarrow>
             if \<not> grant env (unat nsz) then Raise LJ_ERR_ERRMEM
             else if sbufiscow sb \<and> nsz < osz then Stuck
             else Done (sb\<lparr>bmem := newmem env (bmem sb) (unat nsz), bw := unat len,
                    bflag := (if sbufiscow sb then bflag sb AND NOT SBUF_FLAG_COW else bflag sb),
                    bsb := (if sbufisborrow sb then (nsz, len) else bsb sb)\<rparr>))"

definition lj_buf_need2 :: "bufenv \<Rightarrow> SBuf \<Rightarrow> u32 \<Rightarrow> SBuf comp" where
  "lj_buf_need2 env sb sz = (if unat sz > LJ_MAX_BUF then Raise LJ_ERR_ERRMEM else buf_grow env sb sz)"

text \<open>Compaction: \<^verbatim>\<open>memmove(sbx->b, sbx->r, len)\<close>, which must stay in the buffer and must not write into a string.\<close>

definition buf_compact :: "SBuf \<Rightarrow> u32 \<Rightarrow> SBuf comp" where
  "buf_compact sb len =
     (if br sb \<noteq> 0 then
        let n = unat len
        in if sbufiscow sb \<or> length (bmem sb) < br sb + n then Stuck
           else Done (sb\<lparr>bmem := take n (drop (br sb) (bmem sb)) @ drop n (bmem sb), br := 0, bw := n\<rparr>)
      else Done sb)"

definition lj_buf_more2 :: "bufenv \<Rightarrow> SBuf \<Rightarrow> u32 \<Rightarrow> SBuf comp" where
  "lj_buf_more2 env sb sz =
     (if sbufisext sb then
        let len = sbufxlen sb
        in if unat sz > LJ_MAX_BUF \<or> unat (len + sz) > LJ_MAX_BUF then Raise LJ_ERR_ERRMEM
           else if len + sz > sbufsz sb then
             cbind (buf_grow env sb (len + sz)) (\<lambda>sb. buf_compact sb len)
           else if sbufiscow sb \<or> sbufxslack sb < drop_bit 3 (sbufsz sb) then
             buf_grow env sb (sbuflen sb + sz)
           else buf_compact sb len
      else
        let len = sbuflen sb
        in if unat sz > LJ_MAX_BUF \<or> unat (len + sz) > LJ_MAX_BUF then Raise LJ_ERR_ERRMEM
           else buf_grow env sb (len + sz))"

definition lj_buf_need :: "bufenv \<Rightarrow> SBuf \<Rightarrow> u32 \<Rightarrow> SBuf comp" where
  "lj_buf_need env sb sz = (if sz > sbufsz sb then lj_buf_need2 env sb sz else Done sb)"

definition lj_buf_more :: "bufenv \<Rightarrow> SBuf \<Rightarrow> u32 \<Rightarrow> SBuf comp" where
  "lj_buf_more env sb sz = (if sz > sbufleft sb then lj_buf_more2 env sb sz else Done sb)"

definition lj_bufx_more :: "bufenv \<Rightarrow> SBuf \<Rightarrow> u32 \<Rightarrow> (SBuf \<times> u32) comp" where
  "lj_bufx_more env sb sz = cbind (lj_buf_more env sb sz) (\<lambda>sb. Done (sb, sbufleft sb))"

section \<open>Life cycle\<close>

definition lj_buf_init :: SBuf where
  "lj_buf_init = \<lparr>bmem = [], bw = 0, br = 0, bflag = 0, bsb = (0, 0)\<rparr>"

definition lj_buf_reset :: "SBuf \<Rightarrow> SBuf" where "lj_buf_reset sb = sb\<lparr>bw := 0\<rparr>"

definition lj_buf_shrink :: "bufenv \<Rightarrow> SBuf \<Rightarrow> SBuf comp" where
  "lj_buf_shrink env sb =
     (let osz = sbufsz sb
      in if osz > 2 * LJ_MIN_SBUF then
           if \<not> grant env (unat (drop_bit 1 osz)) then Raise LJ_ERR_ERRMEM
           else Done (sb\<lparr>bmem := newmem env (bmem sb) (unat (drop_bit 1 osz)), bw := 0\<rparr>)
         else Done sb)"

definition lj_buf_tmp :: "bufenv \<Rightarrow> SBuf \<Rightarrow> u32 \<Rightarrow> SBuf comp" where
  "lj_buf_tmp env tmpbuf sz = lj_buf_need env tmpbuf sz"

definition lj_bufx_init :: SBuf where
  "lj_bufx_init = \<lparr>bmem = [], bw = 0, br = 0, bflag = SBUF_FLAG_EXT, bsb = (0, 0)\<rparr>"

definition lj_bufx_set_borrow :: "SBuf \<Rightarrow> SBuf \<Rightarrow> SBuf" where
  "lj_bufx_set_borrow sbx sb =
     sbx\<lparr>bflag := SBUF_FLAG_EXT OR SBUF_FLAG_BORROW, bsb := (sbufsz sb, sbuflen sb), bmem := bmem sb, br := 0, bw := 0\<rparr>"

definition lj_bufx_set_cow :: "SBuf \<Rightarrow> bytes \<Rightarrow> SBuf" where
  "lj_bufx_set_cow sbx p = sbx\<lparr>bflag := SBUF_FLAG_EXT OR SBUF_FLAG_COW, bmem := p, br := 0, bw := length p\<rparr>"

definition lj_bufx_reset :: "SBuf \<Rightarrow> SBuf" where
  "lj_bufx_reset sbx =
     (let sbx = (if sbufiscow sbx then sbx\<lparr>bflag := bflag sbx AND NOT SBUF_FLAG_COW, bmem := []\<rparr> else sbx)
      in sbx\<lparr>br := 0, bw := 0\<rparr>)"

text \<open>The block that is freed, if any, and the empty buffer.\<close>

definition lj_bufx_free :: "SBuf \<Rightarrow> bytes option \<times> SBuf" where
  "lj_bufx_free sbx =
     (if sbufiscow sbx \<or> sbufisborrow sbx then None else Some (bmem sbx),
      sbx\<lparr>bflag := SBUF_FLAG_EXT, bmem := [], br := 0, bw := 0\<rparr>)"

definition lj_bufx_set :: "SBuf \<Rightarrow> bytes \<Rightarrow> SBuf" where
  "lj_bufx_set sbx p = lj_bufx_set_cow (snd (lj_bufx_free sbx)) p"

section \<open>Writing\<close>

text \<open>\<^verbatim>\<open>w = lj_buf_wmem(w, q, len)\<close> at the write pointer; the bytes have to fit and must not be those of
  a string.\<close>

definition lj_buf_wmem :: "bytes \<Rightarrow> SBuf \<Rightarrow> SBuf comp" where
  "lj_buf_wmem q sb =
     (if q = [] then Done sb
      else if sbufiscow sb \<or> length (bmem sb) < bw sb + length q then Stuck
      else Done (sb\<lparr>bmem := take (bw sb) (bmem sb) @ q @ drop (bw sb + length q) (bmem sb), bw := bw sb + length q\<rparr>))"

text \<open>\<^verbatim>\<open>*w++ = c\<close>.\<close>

definition wbyte :: "u8 \<Rightarrow> SBuf \<Rightarrow> SBuf comp" where
  "wbyte c sb =
     (if sbufiscow sb \<or> length (bmem sb) \<le> bw sb then Stuck
      else Done (sb\<lparr>bmem := (bmem sb)[bw sb := c], bw := bw sb + 1\<rparr>))"

definition lj_buf_putmem :: "bufenv \<Rightarrow> SBuf \<Rightarrow> bytes \<Rightarrow> SBuf comp" where
  "lj_buf_putmem env sb q = cbind (lj_buf_more env sb (word_of_nat (length q))) (lj_buf_wmem q)"

definition lj_buf_putb :: "bufenv \<Rightarrow> SBuf \<Rightarrow> u8 \<Rightarrow> SBuf comp" where
  "lj_buf_putb env sb c = cbind (lj_buf_more env sb 1) (wbyte c)"

definition lj_buf_putchar2 :: "bufenv \<Rightarrow> SBuf \<Rightarrow> u8 \<Rightarrow> SBuf comp" where
  "lj_buf_putchar2 env sb c = cbind (lj_buf_more2 env sb 1) (wbyte c)"

definition lj_buf_putchar :: "bufenv \<Rightarrow> SBuf \<Rightarrow> u8 \<Rightarrow> SBuf comp" where
  "lj_buf_putchar env sb c = (if bw sb < length (bmem sb) then wbyte c sb else lj_buf_putchar2 env sb c)"

definition lj_buf_putstr :: "bufenv \<Rightarrow> SBuf \<Rightarrow> bytes \<Rightarrow> SBuf comp" where
  "lj_buf_putstr env sb s = cbind (lj_buf_more env sb (word_of_nat (length s))) (lj_buf_wmem s)"

text \<open>\<^verbatim>\<open>while (w < e) *w++ = *q--;\<close> with \<open>n\<close> bytes left.\<close>

fun reverse_loop :: "bytes \<Rightarrow> nat \<Rightarrow> SBuf \<Rightarrow> SBuf comp" where
  "reverse_loop s 0 sb = Done sb"
| "reverse_loop s (Suc n) sb = cbind (wbyte (s ! n) sb) (reverse_loop s n)"

definition lj_buf_putstr_reverse :: "bufenv \<Rightarrow> SBuf \<Rightarrow> bytes \<Rightarrow> SBuf comp" where
  "lj_buf_putstr_reverse env sb s =
     cbind (lj_buf_more env sb (word_of_nat (length s))) (reverse_loop s (length s))"

fun lower_loop :: "bytes \<Rightarrow> SBuf \<Rightarrow> SBuf comp" where
  "lower_loop [] sb = Done sb"
| "lower_loop (c # q) sb = cbind (wbyte (if 65 \<le> c \<and> c \<le> 90 then c + 0x20 else c) sb) (lower_loop q)"

definition lj_buf_putstr_lower :: "bufenv \<Rightarrow> SBuf \<Rightarrow> bytes \<Rightarrow> SBuf comp" where
  "lj_buf_putstr_lower env sb s = cbind (lj_buf_more env sb (word_of_nat (length s))) (lower_loop s)"

fun upper_loop :: "bytes \<Rightarrow> SBuf \<Rightarrow> SBuf comp" where
  "upper_loop [] sb = Done sb"
| "upper_loop (c # q) sb = cbind (wbyte (if 97 \<le> c \<and> c \<le> 122 then c - 0x20 else c) sb) (upper_loop q)"

definition lj_buf_putstr_upper :: "bufenv \<Rightarrow> SBuf \<Rightarrow> bytes \<Rightarrow> SBuf comp" where
  "lj_buf_putstr_upper env sb s = cbind (lj_buf_more env sb (word_of_nat (length s))) (upper_loop s)"

text \<open>The copy loops of \<^verbatim>\<open>lj_buf_putstr_rep\<close>: one byte, or byte by byte the whole string, \<open>Suc n\<close> times.\<close>

fun wbytes :: "bytes \<Rightarrow> SBuf \<Rightarrow> SBuf comp" where
  "wbytes [] sb = Done sb"
| "wbytes (c # q) sb = cbind (wbyte c sb) (wbytes q)"

fun rep_loop :: "bytes \<Rightarrow> nat \<Rightarrow> SBuf \<Rightarrow> SBuf comp" where
  "rep_loop s 0 sb = Done sb"
| "rep_loop s (Suc n) sb = cbind (if length s = 1 then wbyte (s ! 0) sb else wbytes s sb) (rep_loop s n)"

definition lj_buf_putstr_rep :: "bufenv \<Rightarrow> SBuf \<Rightarrow> bytes \<Rightarrow> int \<Rightarrow> SBuf comp" where
  "lj_buf_putstr_rep env sb s rep =
     (if 0 < rep \<and> s \<noteq> [] then
        let tlen = nat rep * length s
        in if tlen > LJ_MAX_STR then Raise LJ_ERR_ERRMEM
           else cbind (lj_buf_more env sb (word_of_nat tlen)) (rep_loop s (nat rep))
      else Done sb)"

text \<open>\<^verbatim>\<open>lj_buf_cat2str\<close>: the bytes of the new string, from the start of the temporary buffer.\<close>

definition lj_buf_cat2str :: "bufenv \<Rightarrow> SBuf \<Rightarrow> bytes \<Rightarrow> bytes \<Rightarrow> (SBuf \<times> bytes) comp" where
  "lj_buf_cat2str env tmpbuf s1 s2 =
     cbind (lj_buf_tmp env tmpbuf (word_of_nat (length s1) + word_of_nat (length s2))) (\<lambda>sb.
       let n1 = length s1; n2 = length s2
       in if length (bmem sb) < n1 + n2 then Stuck
          else let sb = sb\<lparr>bmem := s1 @ s2 @ drop (n1 + n2) (bmem sb)\<rparr>
               in Done (sb, take (unat (word_of_nat n1 + word_of_nat n2 :: u32)) (bmem sb)))"

definition lj_buf_tostr :: "SBuf \<Rightarrow> bytes" where
  "lj_buf_tostr sb = take (unat (sbuflen sb)) (bmem sb)"

section \<open>ULEB128\<close>

text \<open>\<^verbatim>\<open>lj_buf_ruleb128\<close>: the value and the bytes behind it. The readable bytes are a list; reading beyond them,
  or shifting by more than the width of an \<^verbatim>\<open>int\<close>, is \<open>Stuck\<close>.\<close>

fun ruleb_loop :: "nat \<Rightarrow> u32 \<Rightarrow> bytes \<Rightarrow> (u32 \<times> bytes) comp" where
  "ruleb_loop sh v [] = Stuck"
| "ruleb_loop sh v (b # w) =
     (let sh = sh + 7; x = v OR push_bit sh (ucast (b AND 0x7f))
      in if 32 \<le> sh then Stuck
         else if b \<ge> 0x80 then ruleb_loop sh x w else Done (x, w))"

fun lj_buf_ruleb128 :: "bytes \<Rightarrow> (u32 \<times> bytes) comp" where
  "lj_buf_ruleb128 [] = Stuck"
| "lj_buf_ruleb128 (b # w) =
     (if b \<ge> 0x80 then ruleb_loop 0 (ucast b AND 0x7f) w else Done (ucast b, w))"

end
