(* ===== verification/LjChar.thy ===== *)
theory LjChar
  imports Prelude
begin

text \<open>
  The character classes of \<^verbatim>\<open>src/src/lj_char.c\<close> and \<^verbatim>\<open>src/src/lj_char.h\<close>: one table of bit sets, indexed from
  \<open>-1\<close> (the end of the input), and what its bits mean on ASCII characters.
\<close>

definition LJ_CHAR_CNTRL :: u8 where "LJ_CHAR_CNTRL = 0x01"
definition LJ_CHAR_SPACE :: u8 where "LJ_CHAR_SPACE = 0x02"
definition LJ_CHAR_PUNCT :: u8 where "LJ_CHAR_PUNCT = 0x04"
definition LJ_CHAR_DIGIT :: u8 where "LJ_CHAR_DIGIT = 0x08"
definition LJ_CHAR_XDIGIT :: u8 where "LJ_CHAR_XDIGIT = 0x10"
definition LJ_CHAR_UPPER :: u8 where "LJ_CHAR_UPPER = 0x20"
definition LJ_CHAR_LOWER :: u8 where "LJ_CHAR_LOWER = 0x40"
definition LJ_CHAR_IDENT :: u8 where "LJ_CHAR_IDENT = 0x80"
definition LJ_CHAR_ALPHA :: u8 where "LJ_CHAR_ALPHA = LJ_CHAR_LOWER OR LJ_CHAR_UPPER"
definition LJ_CHAR_ALNUM :: u8 where "LJ_CHAR_ALNUM = LJ_CHAR_ALPHA OR LJ_CHAR_DIGIT"
definition LJ_CHAR_GRAPH :: u8 where "LJ_CHAR_GRAPH = LJ_CHAR_ALNUM OR LJ_CHAR_PUNCT"

lemmas char_defs = LJ_CHAR_CNTRL_def LJ_CHAR_SPACE_def LJ_CHAR_PUNCT_def LJ_CHAR_DIGIT_def LJ_CHAR_XDIGIT_def
  LJ_CHAR_UPPER_def LJ_CHAR_LOWER_def LJ_CHAR_IDENT_def LJ_CHAR_ALPHA_def LJ_CHAR_ALNUM_def LJ_CHAR_GRAPH_def

definition lj_char_bits :: "u8 list" where
  "lj_char_bits =
    [0,
     1, 1, 1, 1, 1, 1, 1, 1, 1, 3, 3, 3, 3, 3, 1, 1,
     1, 1, 1, 1, 1, 1, 1, 1, 1, 1, 1, 1, 1, 1, 1, 1,
     2, 4, 4, 4, 4, 4, 4, 4, 4, 4, 4, 4, 4, 4, 4, 4,
     152, 152, 152, 152, 152, 152, 152, 152, 152, 152, 4, 4, 4, 4, 4, 4,
     4, 176, 176, 176, 176, 176, 176, 160, 160, 160, 160, 160, 160, 160, 160, 160,
     160, 160, 160, 160, 160, 160, 160, 160, 160, 160, 160, 4, 4, 4, 4, 132,
     4, 208, 208, 208, 208, 208, 208, 192, 192, 192, 192, 192, 192, 192, 192, 192,
     192, 192, 192, 192, 192, 192, 192, 192, 192, 192, 192, 4, 4, 4, 4, 1,
     128, 128, 128, 128, 128, 128, 128, 128, 128, 128, 128, 128, 128, 128, 128, 128,
     128, 128, 128, 128, 128, 128, 128, 128, 128, 128, 128, 128, 128, 128, 128, 128,
     128, 128, 128, 128, 128, 128, 128, 128, 128, 128, 128, 128, 128, 128, 128, 128,
     128, 128, 128, 128, 128, 128, 128, 128, 128, 128, 128, 128, 128, 128, 128, 128,
     128, 128, 128, 128, 128, 128, 128, 128, 128, 128, 128, 128, 128, 128, 128, 128,
     128, 128, 128, 128, 128, 128, 128, 128, 128, 128, 128, 128, 128, 128, 128, 128,
     128, 128, 128, 128, 128, 128, 128, 128, 128, 128, 128, 128, 128, 128, 128, 128,
     128, 128, 128, 128, 128, 128, 128, 128, 128, 128, 128, 128, 128, 128, 128, 128]"

text \<open>\<^verbatim>\<open>lj_char_isa(c, t)\<close> for \<open>-1\<close> and for characters.\<close>

definition lj_char_isa :: "int \<Rightarrow> u8 \<Rightarrow> u8" where
  "lj_char_isa c t = lj_char_bits ! nat (c + 1) AND t"

definition lj_char_iscntrl :: "u8 \<Rightarrow> bool" where "lj_char_iscntrl c \<longleftrightarrow> lj_char_isa (uint c) LJ_CHAR_CNTRL \<noteq> 0"
definition lj_char_isspace :: "u8 \<Rightarrow> bool" where "lj_char_isspace c \<longleftrightarrow> lj_char_isa (uint c) LJ_CHAR_SPACE \<noteq> 0"
definition lj_char_ispunct :: "u8 \<Rightarrow> bool" where "lj_char_ispunct c \<longleftrightarrow> lj_char_isa (uint c) LJ_CHAR_PUNCT \<noteq> 0"
definition lj_char_isdigit :: "u8 \<Rightarrow> bool" where "lj_char_isdigit c \<longleftrightarrow> lj_char_isa (uint c) LJ_CHAR_DIGIT \<noteq> 0"
definition lj_char_isxdigit :: "u8 \<Rightarrow> bool" where "lj_char_isxdigit c \<longleftrightarrow> lj_char_isa (uint c) LJ_CHAR_XDIGIT \<noteq> 0"
definition lj_char_isident :: "u8 \<Rightarrow> bool" where "lj_char_isident c \<longleftrightarrow> lj_char_isa (uint c) LJ_CHAR_IDENT \<noteq> 0"
definition lj_char_isalpha :: "u8 \<Rightarrow> bool" where "lj_char_isalpha c \<longleftrightarrow> lj_char_isa (uint c) LJ_CHAR_ALPHA \<noteq> 0"
definition lj_char_isalnum :: "u8 \<Rightarrow> bool" where "lj_char_isalnum c \<longleftrightarrow> lj_char_isa (uint c) LJ_CHAR_ALNUM \<noteq> 0"
definition lj_char_toupper :: "u8 \<Rightarrow> u8" where "lj_char_toupper c = c - drop_bit 1 (lj_char_isa (uint c) LJ_CHAR_LOWER)"
definition lj_char_tolower :: "u8 \<Rightarrow> u8" where "lj_char_tolower c = c + lj_char_isa (uint c) LJ_CHAR_UPPER"

section \<open>Classes\<close>

lemma length_char_bits: "length lj_char_bits = 257"
  by (simp add: lj_char_bits_def)

lemma isa_table: "lj_char_isa (uint c) t = lj_char_bits ! Suc (unat c) AND t"
proof -
  have "nat (uint c + 1) = Suc (unat c)" by (simp add: nat_add_distrib)
  then show ?thesis by (simp only: lj_char_isa_def)
qed

lemma class_table:
  "list_all2 (\<lambda>n b. (b AND LJ_CHAR_DIGIT \<noteq> 0 \<longleftrightarrow> 48 \<le> n \<and> n \<le> 57) \<and> (b AND LJ_CHAR_CNTRL \<noteq> 0 \<longleftrightarrow> n \<le> 31 \<or> n = 127) \<and>
      (b AND LJ_CHAR_UPPER = (if 65 \<le> n \<and> n \<le> 90 then 32 else 0)) \<and> (b AND LJ_CHAR_LOWER = (if 97 \<le> n \<and> n \<le> 122 then 64 else 0)) \<and>
      (b AND LJ_CHAR_SPACE \<noteq> 0 \<longleftrightarrow> 9 \<le> n \<and> n \<le> 13 \<or> n = 32))
     [0..<256] (tl lj_char_bits)"
  by code_simp

lemma class_nth:
  fixes c :: u8
  defines "b \<equiv> lj_char_bits ! Suc (unat c)"
  shows "b AND LJ_CHAR_DIGIT \<noteq> 0 \<longleftrightarrow> 48 \<le> unat c \<and> unat c \<le> 57" and "b AND LJ_CHAR_CNTRL \<noteq> 0 \<longleftrightarrow> unat c \<le> 31 \<or> unat c = 127"
    and "b AND LJ_CHAR_UPPER = (if 65 \<le> unat c \<and> unat c \<le> 90 then 32 else 0)"
    and "b AND LJ_CHAR_LOWER = (if 97 \<le> unat c \<and> unat c \<le> 122 then 64 else 0)"
    and "b AND LJ_CHAR_SPACE \<noteq> 0 \<longleftrightarrow> 9 \<le> unat c \<and> unat c \<le> 13 \<or> unat c = 32"
proof -
  have "unat c < 256" using unsigned_less [of c] by simp
  then have n: "unat c < length [0..<256]" "[0..<256] ! unat c = unat c" by simp_all
  have b: "tl lj_char_bits ! unat c = b" unfolding b_def by (rule nth_tl) (simp add: length_char_bits n(1) \<open>unat c < 256\<close>)
  note t = list_all2_nthD [OF class_table n(1), unfolded n(2) b]
  show "b AND LJ_CHAR_DIGIT \<noteq> 0 \<longleftrightarrow> 48 \<le> unat c \<and> unat c \<le> 57" "b AND LJ_CHAR_CNTRL \<noteq> 0 \<longleftrightarrow> unat c \<le> 31 \<or> unat c = 127"
    "b AND LJ_CHAR_UPPER = (if 65 \<le> unat c \<and> unat c \<le> 90 then 32 else 0)"
    "b AND LJ_CHAR_LOWER = (if 97 \<le> unat c \<and> unat c \<le> 122 then 64 else 0)"
    "b AND LJ_CHAR_SPACE \<noteq> 0 \<longleftrightarrow> 9 \<le> unat c \<and> unat c \<le> 13 \<or> unat c = 32" using t by blast+
qed

lemma isdigit_iff: "lj_char_isdigit c \<longleftrightarrow> 48 \<le> unat c \<and> unat c \<le> 57"
  and iscntrl_iff: "lj_char_iscntrl c \<longleftrightarrow> unat c \<le> 31 \<or> unat c = 127"
  and isspace_iff: "lj_char_isspace c \<longleftrightarrow> 9 \<le> unat c \<and> unat c \<le> 13 \<or> unat c = 32"
  unfolding lj_char_isdigit_def lj_char_iscntrl_def lj_char_isspace_def isa_table by (rule class_nth)+

lemma toupper_eq: "lj_char_toupper c = (if 97 \<le> unat c \<and> unat c \<le> 122 then c - 32 else c)"
  and tolower_eq: "lj_char_tolower c = (if 65 \<le> unat c \<and> unat c \<le> 90 then c + 32 else c)"
proof -
  have "drop_bit 1 (64 :: u8) = 32" by code_simp
  then show "lj_char_toupper c = (if 97 \<le> unat c \<and> unat c \<le> 122 then c - 32 else c)"
    unfolding lj_char_toupper_def isa_table class_nth by simp
  show "lj_char_tolower c = (if 65 \<le> unat c \<and> unat c \<le> 90 then c + 32 else c)"
    unfolding lj_char_tolower_def isa_table class_nth by simp
qed

end
