(* ===== verification/BufLaws.thy ===== *)
theory BufLaws
  imports Buf LjChar
begin

text \<open>
  Correctness of the string buffers: growing, compacting and copying on write keep the contents and give
  the room that was asked for, and every operation that puts bytes appends exactly those bytes.
\<close>

section \<open>Well-formed buffers\<close>

definition sb_wf :: "SBuf \<Rightarrow> bool" where
  "sb_wf sb \<longleftrightarrow> br sb \<le> bw sb \<and> bw sb \<le> length (bmem sb) \<and> length (bmem sb) < 2 ^ 32 \<and>
     (\<not> sbufisext sb \<longrightarrow> br sb = 0 \<and> \<not> sbufiscow sb \<and> \<not> sbufisborrow sb) \<and>
     (sbufiscow sb \<longrightarrow> bw sb = length (bmem sb))"

text \<open>The bytes between the read and the write pointer.\<close>

definition content :: "SBuf \<Rightarrow> bytes" where
  "content sb = drop (br sb) (take (bw sb) (bmem sb))"

text \<open>Up to this size no size computation of the code wraps around.\<close>

definition roomy :: "SBuf \<Rightarrow> bool" where
  "roomy sb \<longleftrightarrow> length (bmem sb) < 2 ^ 31 \<or> br sb = 0 \<and> length (bmem sb) = 2 ^ 31"

text \<open>The sizes of buffers that have grown from nothing and have not been read from.\<close>

definition pow_sized :: "SBuf \<Rightarrow> bool" where
  "pow_sized sb \<longleftrightarrow> br sb = 0 \<and> (length (bmem sb) = 0 \<or> (\<exists>k. 5 \<le> k \<and> k \<le> 31 \<and> length (bmem sb) = 2 ^ k))"

lemma unat32: "n < 2 ^ 32 \<Longrightarrow> unat (word_of_nat n :: u32) = n"
  by (simp add: unat_of_nat take_bit_nat_eq_self)

lemma unat_plus32: "unat a + unat b < 2 ^ 32 \<Longrightarrow> unat (a + b :: u32) = unat a + unat b"
  by (simp add: unat_word_ariths)

lemma flag_keep:
  "((f :: u8) AND NOT SBUF_FLAG_COW) AND SBUF_FLAG_EXT = f AND SBUF_FLAG_EXT"
  "(f AND NOT SBUF_FLAG_COW) AND SBUF_FLAG_BORROW = f AND SBUF_FLAG_BORROW"
  "(f AND NOT SBUF_FLAG_COW) AND SBUF_FLAG_COW = 0"
proof -
  have e: "NOT SBUF_FLAG_COW AND SBUF_FLAG_EXT = SBUF_FLAG_EXT" "NOT SBUF_FLAG_COW AND SBUF_FLAG_BORROW = SBUF_FLAG_BORROW"
    "NOT SBUF_FLAG_COW AND SBUF_FLAG_COW = 0" by code_simp+
  show "(f AND NOT SBUF_FLAG_COW) AND SBUF_FLAG_EXT = f AND SBUF_FLAG_EXT"
    "(f AND NOT SBUF_FLAG_COW) AND SBUF_FLAG_BORROW = f AND SBUF_FLAG_BORROW"
    "(f AND NOT SBUF_FLAG_COW) AND SBUF_FLAG_COW = 0" by (simp_all only: and.assoc e and_zero_eq)
qed

lemma pow_sized_roomy: "pow_sized sb \<Longrightarrow> roomy sb"
proof -
  have k: "k \<le> 31 \<Longrightarrow> (2::nat) ^ k < 2 ^ 31 \<or> (2::nat) ^ k = 2 ^ 31" for k
    using power_increasing [of k 31 "2::nat"] by linarith
  assume p: "pow_sized sb"
  then consider "length (bmem sb) = 0" | k where "k \<le> 31" "length (bmem sb) = 2 ^ k" by (auto simp: pow_sized_def)
  then show "roomy sb"
  proof cases
    case 2
    then show ?thesis using k [OF 2(1)] p unfolding roomy_def pow_sized_def 2(2) by blast
  qed (simp add: roomy_def)
qed

lemma sb_sizes:
  assumes "sb_wf sb"
  shows "unat (sbufsz sb) = length (bmem sb)" and "unat (sbuflen sb) = bw sb" and "unat (sbufxlen sb) = bw sb - br sb"
    and "unat (sbufxslack sb) = br sb" and "unat (sbufleft sb) = length (bmem sb) - bw sb"
  unfolding sbufsz_def sbuflen_def sbufxlen_def sbufxslack_def sbufleft_def
  by (rule unat32; use assms in \<open>auto simp: sb_wf_def\<close>)+

section \<open>The size loop\<close>

lemma buf_size_ok:
  assumes "0 < unat nsz" and "unat sz \<le> 2 ^ 31 \<or> unat nsz < 2 ^ 31 \<and> unat sz \<le> 2 * unat nsz"
  shows "\<exists>n. buf_size nsz sz = Some n \<and> unat sz \<le> unat n \<and> unat nsz \<le> unat n \<and>
    (\<forall>k. unat nsz = 2 ^ k \<longrightarrow> k \<le> 31 \<longrightarrow> (\<exists>j. k \<le> j \<and> j \<le> 31 \<and> unat n = 2 ^ j))"
  using assms
proof (induction "2 ^ 32 - unat nsz" arbitrary: nsz rule: less_induct)
  case less
  show ?case
  proof (cases "nsz < sz")
    case False
    then show ?thesis using less.prems by (subst buf_size.simps) (auto simp: word_less_nat_alt)
  next
    case True
    then have lt: "unat nsz < unat sz" by (simp add: word_less_nat_alt)
    have b: "unat nsz < 2 ^ 31" using less.prems(2) lt by linarith
    have u: "unat (nsz + nsz) = 2 * unat nsz" using unat_plus32 [of nsz nsz] b by simp
    have u2: "unat (2 * nsz) = 2 * unat nsz" using u by (simp only: mult_2)
    have r: "unat sz \<le> 2 ^ 31 \<or> unat (nsz + nsz) < 2 ^ 31 \<and> unat sz \<le> 2 * unat (nsz + nsz) \<or> sz \<le> nsz + nsz"
      using less.prems(2) u by (auto simp: word_le_nat_alt)
    have "\<exists>n. buf_size (nsz + nsz) sz = Some n \<and> unat sz \<le> unat n \<and> unat (nsz + nsz) \<le> unat n \<and>
      (\<forall>k. unat (nsz + nsz) = 2 ^ k \<longrightarrow> k \<le> 31 \<longrightarrow> (\<exists>j. k \<le> j \<and> j \<le> 31 \<and> unat n = 2 ^ j))"
    proof (cases "nsz + nsz < sz")
      case True
      show ?thesis using r True less.prems(1) b by (intro less.hyps) (auto simp: u2 word_le_nat_alt word_less_nat_alt)
    next
      case False
      then show ?thesis by (subst buf_size.simps) (auto simp: word_less_nat_alt)
    qed
    then obtain n where n: "buf_size (nsz + nsz) sz = Some n" "unat sz \<le> unat n" "2 * unat nsz \<le> unat n"
      and p: "\<And>k. unat (nsz + nsz) = 2 ^ k \<Longrightarrow> k \<le> 31 \<Longrightarrow> \<exists>j. k \<le> j \<and> j \<le> 31 \<and> unat n = 2 ^ j" by (auto simp: u u2)
    have "\<exists>j. k \<le> j \<and> j \<le> 31 \<and> unat n = 2 ^ j" if k: "unat nsz = 2 ^ k" "k \<le> 31" for k
    proof -
      have "k < 31" using b k(1) power_strict_increasing_iff [of "2::nat" k 31] by simp
      then show ?thesis using p [of "Suc k"] k u by (auto intro: Suc_leD)
    qed
    then show ?thesis using True n by (subst buf_size.simps) auto
  qed
qed

text \<open>From zero the loop never ends.\<close>

lemma buf_size_0: "0 < sz \<Longrightarrow> buf_size 0 sz = None"
proof -
  have "\<not> (n = 0 \<and> 0 < sz)" if "buf_size n sz = Some y" for n sz y
    using that by (rule buf_size.raw_induct [of "\<lambda>n sz y. \<not> (n = 0 \<and> 0 < sz)", rotated]) (auto split: if_splits)
  then show "0 < sz \<Longrightarrow> buf_size 0 sz = None" by (cases "buf_size 0 sz") auto
qed

section \<open>Growing\<close>

lemma length_newmem [simp]: "length (newmem env m n) = n"
  by (simp add: newmem_def)

lemma take_newmem: "k \<le> length m \<Longrightarrow> k \<le> n \<Longrightarrow> take k (newmem env m n) = take k m"
  by (rule nth_equalityI) (auto simp: newmem_def)

definition grown :: "SBuf \<Rightarrow> nat \<Rightarrow> SBuf \<Rightarrow> bool" where
  "grown sb n sb' \<longleftrightarrow> sb_wf sb' \<and> br sb' = br sb \<and> bw sb' = bw sb \<and> take (bw sb) (bmem sb') = take (bw sb) (bmem sb) \<and>
     n \<le> length (bmem sb') \<and> length (bmem sb) \<le> length (bmem sb') \<and> \<not> sbufiscow sb' \<and> sbufisext sb' = sbufisext sb \<and>
     (pow_sized sb \<longrightarrow> pow_sized sb')"

lemma grow_ok:
  assumes wf: "sb_wf sb" and sz: "unat sz \<le> 2 ^ 31 \<or> length (bmem sb) < 2 ^ 31 \<and> unat sz \<le> 2 * length (bmem sb)"
  shows "yields (buf_grow env sb sz) (grown sb (unat sz)) (\<lambda>e. e = LJ_ERR_ERRMEM)"
proof -
  define nsz where "nsz = (if sbufsz sb < LJ_MIN_SBUF then LJ_MIN_SBUF else sbufsz sb)"
  have L: "length (bmem sb) < 2 ^ 32" and W: "br sb \<le> bw sb" "bw sb \<le> length (bmem sb)" using wf by (auto simp: sb_wf_def)
  have o: "unat (sbufsz sb) = length (bmem sb)" "unat (sbuflen sb) = bw sb"
    using L W by (simp_all add: sbufsz_def sbuflen_def unat32)
  have m: "unat LJ_MIN_SBUF = 32" by (simp add: LJ_MIN_SBUF_def)
  have n: "unat nsz = (if length (bmem sb) < 32 then 32 else length (bmem sb))"
    by (simp add: nsz_def word_less_nat_alt o m)
  have "\<exists>n. buf_size nsz sz = Some n \<and> unat sz \<le> unat n \<and> unat nsz \<le> unat n \<and>
    (\<forall>k. unat nsz = 2 ^ k \<longrightarrow> k \<le> 31 \<longrightarrow> (\<exists>j. k \<le> j \<and> j \<le> 31 \<and> unat n = 2 ^ j))"
    by (rule buf_size_ok) (use sz n in auto)
  then obtain N where N: "buf_size nsz sz = Some N" "unat sz \<le> unat N" "unat nsz \<le> unat N"
    and p: "\<And>k. unat nsz = 2 ^ k \<Longrightarrow> k \<le> 31 \<Longrightarrow> \<exists>j. k \<le> j \<and> j \<le> 31 \<and> unat N = 2 ^ j" by blast
  have le: "length (bmem sb) \<le> unat N" using N(3) n by (auto split: if_splits)
  have b: "unat N < 2 ^ 32" using unsigned_less [of N] by simp
  have pw: "\<exists>k. 5 \<le> k \<and> k \<le> 31 \<and> unat N = 2 ^ k" if "pow_sized sb"
  proof -
    from that obtain k where "5 \<le> k" "k \<le> 31" "unat nsz = 2 ^ k"
    proof -
      assume a: "\<And>k. 5 \<le> k \<Longrightarrow> k \<le> 31 \<Longrightarrow> unat nsz = 2 ^ k \<Longrightarrow> thesis"
      from \<open>pow_sized sb\<close> consider "length (bmem sb) = 0" | k where "5 \<le> k" "k \<le> 31" "length (bmem sb) = 2 ^ k"
        by (auto simp: pow_sized_def)
      then show thesis
      proof cases
        case 1
        then show thesis using a [of 5] n by simp
      next
        case 2
        have "(2::nat) ^ 5 \<le> 2 ^ k" using 2(1) by (intro power_increasing) auto
        then show thesis using a [OF 2(1,2)] n 2(3) by simp
      qed
    qed
    with p show ?thesis using le_trans by blast
  qed
  have g: "buf_grow env sb sz = (if \<not> grant env (unat N) then Raise LJ_ERR_ERRMEM
     else Done (sb\<lparr>bmem := newmem env (bmem sb) (unat N), bw := bw sb,
                    bflag := (if sbufiscow sb then bflag sb AND NOT SBUF_FLAG_COW else bflag sb),
                    bsb := (if sbufisborrow sb then (N, sbuflen sb) else bsb sb)\<rparr>))"
  proof -
    have "\<not> N < sbufsz sb" using le o by (simp add: word_less_nat_alt)
    then show ?thesis unfolding buf_grow_def Let_def nsz_def [symmetric] N(1) o by simp
  qed
  define n where "n = sb\<lparr>bmem := newmem env (bmem sb) (unat N), bw := bw sb,
                    bflag := (if sbufiscow sb then bflag sb AND NOT SBUF_FLAG_COW else bflag sb),
                    bsb := (if sbufisborrow sb then (N, sbuflen sb) else bsb sb)\<rparr>"
  have f: "sbufisext n = sbufisext sb" "\<not> sbufiscow n" "sbufisborrow n = sbufisborrow sb"
    by (auto simp: n_def sbufisext_def sbufiscow_def sbufisborrow_def flag_keep)
  have e: "bmem n = newmem env (bmem sb) (unat N)" "bw n = bw sb" "br n = br sb" by (simp_all add: n_def)
  have t: "take (bw sb) (newmem env (bmem sb) (unat N)) = take (bw sb) (bmem sb)"
    using W le by (intro take_newmem) auto
  have "sb_wf n" using wf f le b W by (simp add: sb_wf_def e)
  moreover have "pow_sized n" if "pow_sized sb" using pw [OF that] that by (simp add: pow_sized_def e)
  ultimately have "grown sb (unat sz) n" using f t N(2) le by (simp add: grown_def e)
  then show ?thesis using g [folded n_def] by simp
qed

section \<open>Making room\<close>

definition made :: "SBuf \<Rightarrow> nat \<Rightarrow> SBuf \<Rightarrow> bool" where
  "made sb n sb' \<longleftrightarrow> sb_wf sb' \<and> content sb' = content sb \<and> n \<le> length (bmem sb') - bw sb' \<and> (0 < n \<longrightarrow> \<not> sbufiscow sb') \<and>
     sbufisext sb' = sbufisext sb \<and> (pow_sized sb \<longrightarrow> pow_sized sb')"

lemma compact_ok:
  assumes wf: "sb_wf sb" and len: "unat len = bw sb - br sb" and c: "\<not> sbufiscow sb" and n: "n \<le> length (bmem sb) - (bw sb - br sb)"
  shows "\<exists>s. buf_compact sb len = Done s \<and> made sb n s"
proof (cases "br sb = 0")
  case True
  then show ?thesis using wf c n by (simp add: made_def buf_compact_def)
next
  case False
  have W: "br sb \<le> bw sb" "bw sb \<le> length (bmem sb)" using wf by (auto simp: sb_wf_def)
  then obtain s where s: "buf_compact sb len = Done s" "s = sb\<lparr>bmem := take (bw sb - br sb) (drop (br sb) (bmem sb)) @
      drop (bw sb - br sb) (bmem sb), br := 0, bw := bw sb - br sb\<rparr>" using False c by (simp add: buf_compact_def len Let_def)
  have e: "bmem s = take (bw sb - br sb) (drop (br sb) (bmem sb)) @ drop (bw sb - br sb) (bmem sb)" "br s = 0" "bw s = bw sb - br sb"
    "bflag s = bflag sb" by (simp_all add: s(2))
  have l: "length (bmem s) = length (bmem sb)" using W by (simp add: e)
  have "content s = content sb" using W by (simp add: content_def e drop_take)
  moreover have "sb_wf s" using wf c W False by (auto simp: sb_wf_def e(2-4) l sbufisext_def sbufiscow_def sbufisborrow_def)
  ultimately have "made sb n s" using c n False by (simp add: made_def e(2-4) l pow_sized_def sbufiscow_def sbufisext_def)
  with s(1) show ?thesis by blast
qed

lemma grown_made:
  assumes "sb_wf sb" and "grown sb n sb'" and "bw sb + k \<le> n"
  shows "made sb k sb'"
proof -
  have "take (bw sb) (bmem sb') = take (bw sb) (bmem sb)" "bw sb' = bw sb" "br sb' = br sb" using assms(2) by (auto simp: grown_def)
  then have "content sb' = content sb" by (simp add: content_def)
  then show ?thesis using assms by (auto simp: made_def grown_def)
qed

lemma more2_ok:
  assumes wf: "sb_wf sb" and rm: "roomy sb" and lt: "sbufleft sb < sz"
  shows "yields (lj_buf_more2 env sb sz) (made sb (unat sz)) (\<lambda>e. e = LJ_ERR_ERRMEM)"
proof -
  have L: "length (bmem sb) < 2 ^ 32" and W: "br sb \<le> bw sb" "bw sb \<le> length (bmem sb)" using wf by (auto simp: sb_wf_def)
  have S: "length (bmem sb) \<le> 2 ^ 31" using rm by (auto simp: roomy_def)
  have u: "unat (sbufsz sb) = length (bmem sb)" "unat (sbuflen sb) = bw sb" "unat (sbufxlen sb) = bw sb - br sb"
    "unat (sbufxslack sb) = br sb" "unat (sbufleft sb) = length (bmem sb) - bw sb"
    by (rule sb_sizes [OF wf])+
  have lt': "length (bmem sb) - bw sb < unat sz" using lt by (simp add: word_less_nat_alt u)
  have M: "LJ_MAX_BUF < 2 ^ 31" by (simp add: LJ_MAX_BUF_def LJ_MAX_MEM32_def)
  show ?thesis
  proof (cases "sbufisext sb")
    case False
    then have r: "br sb = 0" using wf by (simp add: sb_wf_def)
    show ?thesis
    proof (cases "unat sz > LJ_MAX_BUF \<or> unat (sbuflen sb + sz) > LJ_MAX_BUF")
      case True
      then show ?thesis using False by (simp add: lj_buf_more2_def Let_def)
    next
      case a: False
      have s: "unat (sbuflen sb + sz) = bw sb + unat sz" using a M W S by (subst unat_plus32) (auto simp: u)
      have "yields (buf_grow env sb (sbuflen sb + sz)) (grown sb (unat (sbuflen sb + sz))) (\<lambda>e. e = LJ_ERR_ERRMEM)"
        using a M by (intro grow_ok [OF wf]) linarith
      then have "yields (buf_grow env sb (sbuflen sb + sz)) (made sb (unat sz)) (\<lambda>e. e = LJ_ERR_ERRMEM)"
        by (rule yields_mono) (simp_all add: grown_made [OF wf] s)
      then show ?thesis using False a by (simp add: lj_buf_more2_def Let_def)
    qed
  next
    case ext: True
    show ?thesis
    proof (cases "unat sz > LJ_MAX_BUF \<or> unat (sbufxlen sb + sz) > LJ_MAX_BUF")
      case True
      then show ?thesis using ext by (simp add: lj_buf_more2_def Let_def)
    next
      case a: False
      have s: "unat (sbufxlen sb + sz) = bw sb - br sb + unat sz" using a M W S by (subst unat_plus32) (auto simp: u)
      consider (big) "sbufxlen sb + sz > sbufsz sb"
        | (slack) "\<not> sbufxlen sb + sz > sbufsz sb" "sbufiscow sb \<or> sbufxslack sb < drop_bit 3 (sbufsz sb)"
        | (fits) "\<not> sbufxlen sb + sz > sbufsz sb" "\<not> (sbufiscow sb \<or> sbufxslack sb < drop_bit 3 (sbufsz sb))" by blast
      then show ?thesis
      proof cases
        case big
        have "yields (buf_grow env sb (sbufxlen sb + sz)) (grown sb (unat (sbufxlen sb + sz))) (\<lambda>e. e = LJ_ERR_ERRMEM)"
          using a M by (intro grow_ok [OF wf]) linarith
        moreover have "yields (buf_compact sb' (sbufxlen sb)) (made sb (unat sz)) (\<lambda>e. e = LJ_ERR_ERRMEM)" if g: "grown sb (unat (sbufxlen sb + sz)) sb'" for sb'
        proof -
          have h: "sb_wf sb'" "bw sb' = bw sb" "br sb' = br sb" "\<not> sbufiscow sb'" "bw sb - br sb + unat sz \<le> length (bmem sb')"
            "take (bw sb) (bmem sb') = take (bw sb) (bmem sb)" "sbufisext sb' = sbufisext sb" "pow_sized sb \<longrightarrow> pow_sized sb'"
            using g s by (auto simp: grown_def)
          obtain s' where "buf_compact sb' (sbufxlen sb) = Done s'" "made sb' (unat sz) s'"
            using compact_ok [OF h(1) _ h(4), of "sbufxlen sb" "unat sz"] h(2,3,5) u(3) by (metis le_diff_conv2 add.commute le_add1 le_trans)
          then show ?thesis using h by (auto simp: made_def content_def)
        qed
        ultimately show ?thesis using ext a big by (simp add: lj_buf_more2_def Let_def) (rule yields_cbind, auto)
      next
        case slack
        have d: "unat (drop_bit 3 (sbufsz sb)) = length (bmem sb) div 8" by (simp add: drop_bit_eq_div unat_div u)
        have sm: "bw sb - br sb + unat sz \<le> length (bmem sb)" using slack(1) s u by (simp add: word_less_nat_alt)
        have b31: "length (bmem sb) < 2 ^ 31"
        proof (rule ccontr)
          assume "\<not> ?thesis"
          then have "br sb = 0" "length (bmem sb) = 2 ^ 31" using rm by (auto simp: roomy_def)
          then show False using sm lt' W by linarith
        qed
        have sl: "sbufiscow sb \<or> br sb < length (bmem sb) div 8" using slack(2) by (simp add: word_less_nat_alt d u)
        have dbl: "bw sb + unat sz \<le> 2 * length (bmem sb)" using sm W by linarith
        have s2: "unat (sbuflen sb + sz) = bw sb + unat sz" using b31 W a M by (subst unat_plus32) (auto simp: u)
        have "yields (buf_grow env sb (sbuflen sb + sz)) (grown sb (unat (sbuflen sb + sz))) (\<lambda>e. e = LJ_ERR_ERRMEM)"
          using dbl b31 by (intro grow_ok [OF wf]) (simp add: s2)
        then have "yields (buf_grow env sb (sbuflen sb + sz)) (made sb (unat sz)) (\<lambda>e. e = LJ_ERR_ERRMEM)"
          by (rule yields_mono) (simp_all add: grown_made [OF wf] s2)
        then show ?thesis using ext a slack by (simp add: lj_buf_more2_def Let_def)
      next
        case fits
        have sm: "bw sb - br sb + unat sz \<le> length (bmem sb)" using fits(1) s u by (simp add: word_less_nat_alt)
        obtain s' where "buf_compact sb (sbufxlen sb) = Done s'" "made sb (unat sz) s'"
          using compact_ok [OF wf u(3), of "unat sz"] fits(2) sm by fastforce
        then show ?thesis using ext a fits by (simp add: lj_buf_more2_def Let_def)
      qed
    qed
  qed
qed

lemma more_ok:
  assumes wf: "sb_wf sb" and rm: "roomy sb"
  shows "yields (lj_buf_more env sb sz) (made sb (unat sz)) (\<lambda>e. e = LJ_ERR_ERRMEM)"
proof (cases "sbufleft sb < sz")
  case True
  then show ?thesis using more2_ok [OF assms] by (simp add: lj_buf_more_def)
next
  case False
  have L: "length (bmem sb) < 2 ^ 32" and W: "bw sb \<le> length (bmem sb)" using wf by (auto simp: sb_wf_def)
  have l: "unat sz \<le> length (bmem sb) - bw sb" using False sb_sizes(5) [OF wf] by (simp add: word_less_nat_alt)
  moreover have "\<not> sbufiscow sb" if "0 < unat sz" using that l wf by (auto simp: sb_wf_def)
  ultimately show ?thesis using False wf by (simp add: lj_buf_more_def made_def)
qed

section \<open>Writing\<close>

definition "fits" :: "bytes \<Rightarrow> SBuf \<Rightarrow> bool" where
  "fits q sb \<longleftrightarrow> bw sb + length q \<le> length (bmem sb) \<and> (q \<noteq> [] \<longrightarrow> \<not> sbufiscow sb)"

definition written :: "bytes \<Rightarrow> SBuf \<Rightarrow> SBuf" where
  "written q sb = sb\<lparr>bmem := take (bw sb) (bmem sb) @ q @ drop (bw sb + length q) (bmem sb), bw := bw sb + length q\<rparr>"

lemma written_Nil [simp]: "written [] sb = sb"
  by (simp add: written_def)

lemma wmem_fits: "fits q sb \<Longrightarrow> lj_buf_wmem q sb = Done (written q sb)"
  by (auto simp: lj_buf_wmem_def fits_def written_def)

lemma wbyte_fits: "fits [c] sb \<Longrightarrow> wbyte c sb = Done (written [c] sb)"
  by (auto simp: wbyte_def fits_def written_def upd_conv_take_nth_drop)

lemma written_fields:
  assumes "fits q sb"
  shows "bw (written q sb) = bw sb + length q" and "length (bmem (written q sb)) = length (bmem sb)" and "br (written q sb) = br sb"
    and "bflag (written q sb) = bflag sb" and "take (bw sb + length q) (bmem (written q sb)) = take (bw sb) (bmem sb) @ q"
    and "sbufiscow (written q sb) = sbufiscow sb" and "sbufisext (written q sb) = sbufisext sb" and "sbufisborrow (written q sb) = sbufisborrow sb"
  using assms by (auto simp: written_def fits_def sbufiscow_def sbufisext_def sbufisborrow_def)

lemma fits_append:
  assumes "fits (p @ q) sb"
  shows "fits p sb" and "fits q (written p sb)" and "written q (written p sb) = written (p @ q) sb"
proof -
  show p: "fits p sb" using assms by (auto simp: fits_def)
  show "fits q (written p sb)" using assms by (auto simp: fits_def written_fields [OF p])
  have "bw sb \<le> length (bmem sb)" using p by (simp add: fits_def)
  then show "written q (written p sb) = written (p @ q) sb" by (simp add: written_def ac_simps)
qed

lemma fits_Cons:
  assumes "fits (c # q) sb"
  shows "wbyte c sb = Done (written [c] sb)" and "fits q (written [c] sb)" and "written q (written [c] sb) = written (c # q) sb"
  using fits_append [of "[c]" q sb] assms by (simp_all add: wbyte_fits)

lemma wbytes_fits: "fits q sb \<Longrightarrow> wbytes q sb = Done (written q sb)"
  by (induction q arbitrary: sb) (simp_all add: fits_Cons)

lemma reverse_loop_fits:
  "n \<le> length s \<Longrightarrow> fits (rev (take n s)) sb \<Longrightarrow> reverse_loop s n sb = Done (written (rev (take n s)) sb)"
proof (induction n arbitrary: sb)
  case (Suc n)
  have e: "rev (take (Suc n) s) = s ! n # rev (take n s)" using Suc.prems(1) by (simp add: take_Suc_conv_app_nth)
  show ?case using Suc fits_Cons [of "s ! n" "rev (take n s)" sb] by (simp add: e)
qed simp

lemma lower_loop_fits: "fits (map lj_char_tolower s) sb \<Longrightarrow> lower_loop s sb = Done (written (map lj_char_tolower s) sb)"
proof (induction s arbitrary: sb)
  case (Cons c s)
  have "(if 65 \<le> c \<and> c \<le> 90 then c + 0x20 else c) = lj_char_tolower c" by (simp add: tolower_eq word_le_nat_alt)
  then show ?case using Cons fits_Cons [of "lj_char_tolower c" "map lj_char_tolower s" sb] by simp
qed simp

lemma upper_loop_fits: "fits (map lj_char_toupper s) sb \<Longrightarrow> upper_loop s sb = Done (written (map lj_char_toupper s) sb)"
proof (induction s arbitrary: sb)
  case (Cons c s)
  have "(if 97 \<le> c \<and> c \<le> 122 then c - 0x20 else c) = lj_char_toupper c" by (simp add: toupper_eq word_le_nat_alt)
  then show ?case using Cons fits_Cons [of "lj_char_toupper c" "map lj_char_toupper s" sb] by simp
qed simp

lemma rep_loop_fits:
  "fits (concat (replicate n s)) sb \<Longrightarrow> rep_loop s n sb = Done (written (concat (replicate n s)) sb)"
proof (induction n arbitrary: sb)
  case (Suc n)
  then have f: "fits (s @ concat (replicate n s)) sb" by simp
  note a = fits_append [OF f]
  have "length s = 1 \<Longrightarrow> s = [s ! 0]" by (cases s) auto
  then have "(if length s = 1 then wbyte (s ! 0) sb else wbytes s sb) = Done (written s sb)"
    using wbytes_fits [OF a(1)] wbyte_fits [of "s ! 0" sb] a(1) by (metis (full_types))
  then show ?case using Suc.IH [OF a(2)] a(3) by simp
qed simp

section \<open>Appending\<close>

definition appended :: "SBuf \<Rightarrow> bytes \<Rightarrow> SBuf \<Rightarrow> bool" where
  "appended sb q sb' \<longleftrightarrow> sb_wf sb' \<and> content sb' = content sb @ q \<and> sbufisext sb' = sbufisext sb \<and> (pow_sized sb \<longrightarrow> pow_sized sb')"

lemma written_appended:
  assumes "sb_wf sb" and "fits q sb"
  shows "appended sb q (written q sb)"
proof -
  note f = written_fields [OF assms(2)]
  have W: "br sb \<le> bw sb" "bw sb \<le> length (bmem sb)" using assms(1) by (auto simp: sb_wf_def)
  have "content (written q sb) = content sb @ q" using W by (simp add: content_def f)
  moreover have "sb_wf (written q sb)" using assms unfolding sb_wf_def f fits_def by auto
  ultimately show ?thesis by (simp add: appended_def f pow_sized_def)
qed

lemma put_ok:
  assumes "sb_wf sb" and "roomy sb" and "length q \<le> unat n" and "\<And>sb'. fits q sb' \<Longrightarrow> g sb' = Done (written q sb')"
  shows "yields (cbind (lj_buf_more env sb n) g) (appended sb q) (\<lambda>e. e = LJ_ERR_ERRMEM)"
proof (rule yields_cbind [OF more_ok [OF assms(1,2)]])
  fix sb' assume m: "made sb (unat n) sb'"
  then have wf: "sb_wf sb'" by (simp add: made_def)
  then have f: "fits q sb'" using m assms(3) by (auto simp: made_def fits_def sb_wf_def)
  show "yields (g sb') (appended sb q) (\<lambda>e. e = LJ_ERR_ERRMEM)"
    using assms(4) [OF f] written_appended [OF wf f] m by (simp add: appended_def made_def)
qed

lemma unat_length: "length s \<le> LJ_MAX_STR \<Longrightarrow> unat (word_of_nat (length s) :: u32) = length s"
  by (rule unat32) (simp add: LJ_MAX_STR_def LJ_MAX_MEM32_def)

section \<open>The operations as a byte sink\<close>

text \<open>The operations that put bytes, and the bytes that each of them promises to append.\<close>

datatype buf_op =
    OpMem bytes | OpByte u8 | OpChar u8 | OpStr bytes | OpReverse bytes | OpLower bytes | OpUpper bytes | OpRep bytes int

fun run_op :: "bufenv \<Rightarrow> SBuf \<Rightarrow> buf_op \<Rightarrow> SBuf comp" where
  "run_op env sb (OpMem q) = lj_buf_putmem env sb q"
| "run_op env sb (OpByte c) = lj_buf_putb env sb c"
| "run_op env sb (OpChar c) = lj_buf_putchar env sb c"
| "run_op env sb (OpStr s) = lj_buf_putstr env sb s"
| "run_op env sb (OpReverse s) = lj_buf_putstr_reverse env sb s"
| "run_op env sb (OpLower s) = lj_buf_putstr_lower env sb s"
| "run_op env sb (OpUpper s) = lj_buf_putstr_upper env sb s"
| "run_op env sb (OpRep s n) = lj_buf_putstr_rep env sb s n"

fun op_bytes :: "buf_op \<Rightarrow> bytes" where
  "op_bytes (OpMem q) = q"
| "op_bytes (OpByte c) = [c]"
| "op_bytes (OpChar c) = [c]"
| "op_bytes (OpStr s) = s"
| "op_bytes (OpReverse s) = rev s"
| "op_bytes (OpLower s) = map lj_char_tolower s"
| "op_bytes (OpUpper s) = map lj_char_toupper s"
| "op_bytes (OpRep s n) = concat (replicate (nat n) s)"

text \<open>The operands are Lua strings.\<close>

fun op_ok :: "buf_op \<Rightarrow> bool" where
  "op_ok (OpMem q) = (length q \<le> LJ_MAX_STR)"
| "op_ok (OpStr s) = (length s \<le> LJ_MAX_STR)"
| "op_ok (OpReverse s) = (length s \<le> LJ_MAX_STR)"
| "op_ok (OpLower s) = (length s \<le> LJ_MAX_STR)"
| "op_ok (OpUpper s) = (length s \<le> LJ_MAX_STR)"
| "op_ok _ = True"

lemma putrep_ok:
  assumes "sb_wf sb" and "roomy sb"
  shows "yields (lj_buf_putstr_rep env sb s n) (appended sb (concat (replicate (nat n) s))) (\<lambda>e. e = LJ_ERR_ERRMEM)"
proof (cases "0 < n \<and> s \<noteq> [] \<and> nat n * length s \<le> LJ_MAX_STR")
  case True
  have l: "length (concat (replicate (nat n) s)) = nat n * length s" by (simp add: length_concat sum_list_replicate)
  have u: "unat (word_of_nat (nat n * length s) :: u32) = nat n * length s"
    using True by (intro unat32) (simp add: LJ_MAX_STR_def LJ_MAX_MEM32_def)
  have "yields (cbind (lj_buf_more env sb (word_of_nat (nat n * length s))) (rep_loop s (nat n))) (appended sb (concat (replicate (nat n) s))) (\<lambda>e. e = LJ_ERR_ERRMEM)"
    by (rule put_ok [OF assms]) (simp only: u l, rule rep_loop_fits)
  then show ?thesis using True by (simp only: lj_buf_putstr_rep_def Let_def simp_thms if_True not_le [symmetric] if_False)
next
  case False
  then consider "n \<le> 0 \<or> s = []" | "0 < n" "s \<noteq> []" "nat n * length s > LJ_MAX_STR" by linarith
  then show ?thesis
  proof cases
    case 1
    then have "concat (replicate (nat n) s) = []" "\<not> (0 < n \<and> s \<noteq> [])" by auto
    then show ?thesis using assms(1) unfolding lj_buf_putstr_rep_def by (auto simp: appended_def)
  qed (simp add: lj_buf_putstr_rep_def Let_def)
qed

lemma putchar_ok:
  assumes "sb_wf sb" and "roomy sb"
  shows "yields (lj_buf_putchar env sb c) (appended sb [c]) (\<lambda>e. e = LJ_ERR_ERRMEM)"
proof (cases "bw sb < length (bmem sb)")
  case True
  then have f: "fits [c] sb" using assms(1) by (auto simp: fits_def sb_wf_def)
  show ?thesis using True written_appended [OF assms(1) f] by (simp add: lj_buf_putchar_def wbyte_fits [OF f])
next
  case False
  then have "sbufleft sb < 1" by (simp add: sbufleft_def)
  then have "lj_buf_putchar env sb c = cbind (lj_buf_more env sb 1) (wbyte c)"
    using False by (simp add: lj_buf_putchar_def lj_buf_putchar2_def lj_buf_more_def)
  then show ?thesis using put_ok [OF assms, of "[c]" 1 "wbyte c" env] wbyte_fits by simp
qed

lemma run_op_ok:
  assumes "sb_wf sb" and "roomy sb" and "op_ok op"
  shows "yields (run_op env sb op) (appended sb (op_bytes op)) (\<lambda>e. e = LJ_ERR_ERRMEM)"
proof (cases op)
  case (OpMem q)
  then show ?thesis using assms
    by (auto simp: lj_buf_putmem_def unat_length intro!: put_ok wmem_fits)
next
  case (OpByte c)
  then show ?thesis using assms by (auto simp: lj_buf_putb_def intro!: put_ok wbyte_fits)
next
  case (OpChar c)
  then show ?thesis using putchar_ok [OF assms(1,2)] by simp
next
  case (OpStr s)
  then show ?thesis using assms by (auto simp: lj_buf_putstr_def unat_length intro!: put_ok wmem_fits)
next
  case (OpReverse s)
  then show ?thesis using assms reverse_loop_fits [of "length s" s]
    by (auto simp: lj_buf_putstr_reverse_def unat_length intro!: put_ok)
next
  case (OpLower s)
  then show ?thesis using assms by (auto simp: lj_buf_putstr_lower_def unat_length intro!: put_ok lower_loop_fits)
next
  case (OpUpper s)
  then show ?thesis using assms by (auto simp: lj_buf_putstr_upper_def unat_length intro!: put_ok upper_loop_fits)
next
  case (OpRep s n)
  then show ?thesis using putrep_ok [OF assms(1,2)] by simp
qed

text \<open>An interface: a store of bytes with operations that append.\<close>

locale byte_sink =
  fixes inv :: "'b \<Rightarrow> bool"
    and data :: "'b \<Rightarrow> 'c list"
    and run :: "'b \<Rightarrow> 'o \<Rightarrow> 'b comp"
    and proper :: "'o \<Rightarrow> bool"
    and emits :: "'o \<Rightarrow> 'c list"
  assumes run_appends: "inv b \<Longrightarrow> proper p \<Longrightarrow>
    yields (run b p) (\<lambda>b'. inv b' \<and> data b' = data b @ emits p) (\<lambda>e. e = LJ_ERR_ERRMEM)"
begin

primrec run_all :: "'b \<Rightarrow> 'o list \<Rightarrow> 'b comp" where
  "run_all b [] = Done b"
| "run_all b (p # ps) = cbind (run b p) (\<lambda>b. run_all b ps)"

lemma run_all_appends:
  "inv b \<Longrightarrow> \<forall>p\<in>set ps. proper p \<Longrightarrow>
    yields (run_all b ps) (\<lambda>b'. inv b' \<and> data b' = data b @ concat (map emits ps)) (\<lambda>e. e = LJ_ERR_ERRMEM)"
proof (induction ps arbitrary: b)
  case (Cons p ps)
  have "yields (cbind (run b p) (\<lambda>b. run_all b ps))
      (\<lambda>b'. inv b' \<and> data b' = data b @ concat (map emits (p # ps))) (\<lambda>e. e = LJ_ERR_ERRMEM)"
  proof (rule yields_cbind [OF run_appends])
    fix b1 assume b1: "inv b1 \<and> data b1 = data b @ emits p"
    show "yields (run_all b1 ps) (\<lambda>b'. inv b' \<and> data b' = data b @ concat (map emits (p # ps))) (\<lambda>e. e = LJ_ERR_ERRMEM)"
      using b1 Cons.prems by (intro yields_mono [OF Cons.IH]) auto
  qed (use Cons.prems in auto)
  then show ?case by simp
qed simp

end

definition buf_inv :: "SBuf \<Rightarrow> bool" where
  "buf_inv sb \<longleftrightarrow> sb_wf sb \<and> pow_sized sb"

interpretation sink: byte_sink buf_inv content "run_op env" op_ok op_bytes for env
proof
  fix b :: SBuf and p
  assume "buf_inv b" and "op_ok p"
  then have wf: "sb_wf b" and pw: "pow_sized b" by (auto simp: buf_inv_def)
  show "yields (run_op env b p) (\<lambda>b'. buf_inv b' \<and> content b' = content b @ op_bytes p) (\<lambda>e. e = LJ_ERR_ERRMEM)"
    using run_op_ok [OF wf pow_sized_roomy [OF pw] \<open>op_ok p\<close>]
    by (rule yields_mono) (auto simp: appended_def buf_inv_def pw)
qed

section \<open>Composing output\<close>

text \<open>\<open>writes q f\<close>: with enough room \<open>f\<close> writes exactly \<open>q\<close>. \<open>puts q f\<close>: \<open>f\<close> makes room itself and appends \<open>q\<close>.\<close>

definition writes :: "bytes \<Rightarrow> (SBuf \<Rightarrow> SBuf comp) \<Rightarrow> bool" where
  "writes q f \<longleftrightarrow> (\<forall>sb. fits q sb \<longrightarrow> f sb = Done (written q sb))"

definition puts :: "bytes \<Rightarrow> (SBuf \<Rightarrow> SBuf comp) \<Rightarrow> bool" where
  "puts q f \<longleftrightarrow> (\<forall>sb. buf_inv sb \<longrightarrow> yields (f sb)
     (\<lambda>sb'. buf_inv sb' \<and> content sb' = content sb @ q \<and> sbufisext sb' = sbufisext sb) (\<lambda>e. e = LJ_ERR_ERRMEM))"

named_theorems puts_intros

lemma writes_wmem [puts_intros]: "writes q (lj_buf_wmem q)"
  by (simp add: writes_def wmem_fits)

lemma writes_wbyte [puts_intros]: "writes [c] (wbyte c)"
  by (simp add: writes_def wbyte_fits)

lemma writes_Done [puts_intros]: "writes [] Done"
  by (simp add: writes_def)

lemma writes_cbind [puts_intros]: "writes p f \<Longrightarrow> writes q g \<Longrightarrow> writes (p @ q) (\<lambda>sb. cbind (f sb) g)"
  by (simp add: writes_def fits_append)

lemma puts_appended:
  "(\<And>sb. sb_wf sb \<Longrightarrow> roomy sb \<Longrightarrow> yields (f sb) (appended sb q) (\<lambda>e. e = LJ_ERR_ERRMEM)) \<Longrightarrow> puts q f"
proof -
  assume a: "\<And>sb. sb_wf sb \<Longrightarrow> roomy sb \<Longrightarrow> yields (f sb) (appended sb q) (\<lambda>e. e = LJ_ERR_ERRMEM)"
  have "yields (f sb) (\<lambda>sb'. buf_inv sb' \<and> content sb' = content sb @ q \<and> sbufisext sb' = sbufisext sb) (\<lambda>e. e = LJ_ERR_ERRMEM)"
    if i: "buf_inv sb" for sb
  proof -
    have i': "sb_wf sb" "pow_sized sb" using i by (simp_all add: buf_inv_def)
    show ?thesis by (rule yields_mono [OF a [OF i'(1) pow_sized_roomy [OF i'(2)]]]) (auto simp: appended_def buf_inv_def i')
  qed
  then show ?thesis by (simp add: puts_def)
qed

lemma puts_more: "writes q g \<Longrightarrow> length q \<le> unat n \<Longrightarrow> puts q (\<lambda>sb. cbind (lj_buf_more env sb n) g)"
  by (rule puts_appended) (auto simp: writes_def intro: put_ok)

lemma puts_cbind [puts_intros]:
  assumes "puts p f" and "puts q g"
  shows "puts (p @ q) (\<lambda>sb. cbind (f sb) g)"
  unfolding puts_def
proof (intro allI impI)
  fix sb assume "buf_inv sb"
  then have f: "yields (f sb) (\<lambda>sb'. buf_inv sb' \<and> content sb' = content sb @ p \<and> sbufisext sb' = sbufisext sb) (\<lambda>e. e = LJ_ERR_ERRMEM)"
    using assms(1) by (simp add: puts_def)
  show "yields (cbind (f sb) g) (\<lambda>sb'. buf_inv sb' \<and> content sb' = content sb @ p @ q \<and> sbufisext sb' = sbufisext sb) (\<lambda>e. e = LJ_ERR_ERRMEM)"
  proof (rule yields_cbind [OF f])
    fix sb1 assume 1: "buf_inv sb1 \<and> content sb1 = content sb @ p \<and> sbufisext sb1 = sbufisext sb"
    then have "yields (g sb1) (\<lambda>sb'. buf_inv sb' \<and> content sb' = content sb1 @ q \<and> sbufisext sb' = sbufisext sb1) (\<lambda>e. e = LJ_ERR_ERRMEM)"
      using assms(2) unfolding puts_def by blast
    then show "yields (g sb1) (\<lambda>sb'. buf_inv sb' \<and> content sb' = content sb @ p @ q \<and> sbufisext sb' = sbufisext sb) (\<lambda>e. e = LJ_ERR_ERRMEM)"
      by (rule yields_mono) (simp_all add: 1)
  qed
qed

lemma puts_Done [puts_intros]: "puts [] Done"
  by (simp add: puts_def)

lemma putsD: "puts q f \<Longrightarrow> buf_inv sb \<Longrightarrow> f sb = Done sb' \<Longrightarrow> buf_inv sb' \<and> content sb' = content sb @ q"
  by (auto simp: puts_def dest!: spec [of _ sb])

section \<open>Properties\<close>

lemma init_inv: "buf_inv lj_buf_init" and init_content: "content lj_buf_init = []"
  by (simp_all add: buf_inv_def sb_wf_def pow_sized_def lj_buf_init_def content_def sbufiscow_def sbufisborrow_def)

lemma tostr_content: "sb_wf sb \<Longrightarrow> br sb = 0 \<Longrightarrow> lj_buf_tostr sb = content sb"
  using sb_sizes(2) [of sb] by (simp add: lj_buf_tostr_def content_def)

text \<open>C17. A buffer is a byte sink: after any sequence of put operations on a new buffer, \<^verbatim>\<open>lj_buf_tostr\<close> gives
  the concatenation of what the operations promise to append, whatever reallocations happen in between; the only
  other outcome is the memory error. No operation writes outside the memory of the buffer.\<close>

theorem buf_run:
  assumes "\<forall>p\<in>set ps. op_ok p"
  shows "yields (sink.run_all env lj_buf_init ps) (\<lambda>sb. buf_inv sb \<and> lj_buf_tostr sb = concat (map op_bytes ps)) (\<lambda>e. e = LJ_ERR_ERRMEM)"
  by (rule yields_mono [OF sink.run_all_appends [OF init_inv assms]])
    (auto simp: init_content tostr_content buf_inv_def pow_sized_def)

definition env_all :: bufenv where "env_all = \<lparr>grant = (\<lambda>_. True), junk = (\<lambda>_. 0)\<rparr>"

lemma buf_run_witness:
  "yields (sink.run_all env_all lj_buf_init [OpMem [1, 2], OpReverse [3, 4], OpRep [5] 3, OpLower [65]])
     (\<lambda>sb. buf_inv sb \<and> lj_buf_tostr sb = [1, 2, 4, 3, 5, 5, 5, 97]) (\<lambda>e. e = LJ_ERR_ERRMEM)"
proof -
  have ok: "\<forall>p\<in>set [OpMem [1, 2], OpReverse [3, 4], OpRep [5] 3, OpLower [65]]. op_ok p"
    by (simp add: LJ_MAX_STR_def LJ_MAX_MEM32_def)
  have b: "concat (map op_bytes [OpMem [1, 2], OpReverse [3, 4], OpRep [5] 3, OpLower [65]]) = [1, 2, 4, 3, 5, 5, 5, 97]"
    by (simp add: tolower_eq numeral_3_eq_3)
  show ?thesis using buf_run [OF ok, of env_all] unfolding b .
qed

text \<open>C18. \<^verbatim>\<open>lj_buf_more\<close> on any well-formed buffer, plain, extended, copy-on-write or borrowed: below two gigabytes
  it returns a well-formed buffer with the same contents and room for the requested bytes, which is no longer the
  memory of a string when bytes are to be written, or raises the memory error. It always returns.\<close>

theorem buf_more_room:
  assumes "sb_wf sb" and "roomy sb"
  shows "yields (lj_buf_more env sb sz)
     (\<lambda>sb'. sb_wf sb' \<and> content sb' = content sb \<and> unat sz \<le> unat (sbufleft sb') \<and> (sz \<noteq> 0 \<longrightarrow> \<not> sbufiscow sb'))
     (\<lambda>e. e = LJ_ERR_ERRMEM)"
  by (rule yields_mono [OF more_ok [OF assms]]) (auto simp: made_def sb_sizes(5) unat_gt_0)

lemma buf_more_room_witness:
  "yields (lj_buf_more env_all (lj_bufx_set_cow lj_bufx_init [1, 2, 3]) 9)
     (\<lambda>sb'. content sb' = [1, 2, 3] \<and> 9 \<le> unat (sbufleft sb') \<and> \<not> sbufiscow sb') (\<lambda>e. e = LJ_ERR_ERRMEM)"
proof -
  have f: "(SBUF_FLAG_EXT OR SBUF_FLAG_COW) AND SBUF_FLAG_EXT \<noteq> 0" by code_simp
  have wf: "sb_wf (lj_bufx_set_cow lj_bufx_init [1, 2, 3])" "roomy (lj_bufx_set_cow lj_bufx_init [1, 2, 3])"
    "content (lj_bufx_set_cow lj_bufx_init [1, 2, 3]) = [1, 2, 3]"
    using f by (simp_all add: sb_wf_def roomy_def content_def lj_bufx_set_cow_def lj_bufx_init_def sbufisext_def)
  show ?thesis by (rule yields_mono [OF buf_more_room [OF wf(1,2)]]) (simp_all add: wf(3))
qed

section \<open>Beyond two gigabytes\<close>

text \<open>Without the bound the size computations of the code wrap around.\<close>

text \<open>C33. On an extended buffer of two gigabytes of which a little has been read, making room for a few more bytes
  than are left never ends, although the contents and the request are below the limit: the size that
  \<^verbatim>\<open>buf_grow\<close> doubles becomes zero.\<close>

theorem buf_more_hangs:
  assumes "sb_wf sb" and "sbufisext sb" and "\<not> sbufiscow sb" and "length (bmem sb) = 2 ^ 31" and "br sb < 2 ^ 28"
    and "unat sz \<le> LJ_MAX_BUF" and "bw sb - br sb + unat sz \<le> LJ_MAX_BUF" and "2 ^ 31 - bw sb < unat sz"
  shows "buf_size (sbufsz sb) (sbuflen sb + sz) = None \<and> lj_buf_more env sb sz = Stuck"
proof

  note u = sb_sizes [OF assms(1)]
  have W: "br sb \<le> bw sb" "bw sb \<le> 2 ^ 31" using assms(1,4) by (auto simp: sb_wf_def)
  have M: "LJ_MAX_BUF < 2 ^ 31" by (simp add: LJ_MAX_BUF_def LJ_MAX_MEM32_def)
  have s: "unat (sbuflen sb + sz) = bw sb + unat sz" using W assms(6) M by (subst unat_plus32) (auto simp: u)
  have x: "unat (sbufxlen sb + sz) = bw sb - br sb + unat sz" using W assms(7) M by (subst unat_plus32) (auto simp: u)
  have z: "sbufsz sb = 0x80000000" by (simp add: sbufsz_def assms(4))
  have lt: "sbufsz sb < sbuflen sb + sz" using assms(8) W by (simp add: word_less_nat_alt u(1) s assms(4))
  have zz: "sbufsz sb + sbufsz sb = 0" by (simp add: z)
  show n: "buf_size (sbufsz sb) (sbuflen sb + sz) = None"
    using lt buf_size_0 [of "sbuflen sb + sz"] zz by (subst buf_size.simps) (metis word_gt_0 not_less0 word_not_simps(1))
  have d: "sbufxslack sb < drop_bit 3 (sbufsz sb)"
    using assms(5) by (simp add: word_less_nat_alt u(4) drop_bit_eq_div unat_div u(1) assms(4))
  have "\<not> sbufxlen sb + sz > sbufsz sb" using assms(7) M by (simp add: word_less_nat_alt u(1) x assms(4))
  moreover have "sbufleft sb < sz" using assms(8) by (simp add: word_less_nat_alt u(5) assms(4))
  moreover have "\<not> sbufsz sb < LJ_MIN_SBUF" by (simp add: z LJ_MIN_SBUF_def)
  ultimately show "lj_buf_more env sb sz = Stuck"
    using assms(2,6,7) d n by (simp add: lj_buf_more_def lj_buf_more2_def buf_grow_def Let_def x)
qed

lemma buf_more_hangs_witness:
  "lj_buf_more env_all \<lparr>bmem = replicate (2 ^ 31) 0, bw = 2 ^ 31 - 256, br = 300, bflag = SBUF_FLAG_EXT, bsb = (0, 0)\<rparr> 290 = Stuck"
proof -
  define sb where "sb = \<lparr>bmem = replicate (2 ^ 31) (0 :: u8), bw = 2 ^ 31 - 256, br = 300, bflag = SBUF_FLAG_EXT, bsb = (0, 0)\<rparr>"
  have f: "SBUF_FLAG_EXT AND SBUF_FLAG_EXT \<noteq> 0" "SBUF_FLAG_EXT AND SBUF_FLAG_COW = 0" by code_simp+
  have e: "length (bmem sb) = 2 ^ 31" "bw sb = 2 ^ 31 - 256" "br sb = 300" "sbufisext sb" "\<not> sbufiscow sb"
    unfolding sb_def sbufisext_def sbufiscow_def by (simp_all only: SBuf.simps length_replicate f) simp_all
  have wf: "sb_wf sb" using e unfolding sb_wf_def by simp
  show ?thesis using buf_more_hangs [OF wf e(4,5,1), of 290 env_all] e(2,3)
    unfolding sb_def [symmetric] by (simp add: LJ_MAX_BUF_def LJ_MAX_MEM32_def)
qed

text \<open>C34. Near four gigabytes the 32 bit sum of the length and the request wraps around, so the buffer
  does not grow and the write goes beyond its end: making room for 2048 bytes succeeds on a full buffer and leaves
  its size as it was, with no byte left. The run starts from a buffer object that is set to a string of two
  gigabytes; all the strings are shorter than the limit.\<close>

theorem buf_put_overflows:
  assumes "length p = 0x7ffffe00" and "length q = 0x7ffffdff" and "length r = 0x800"
  shows "\<exists>sb1 sb2 sb3. lj_buf_putb env_all (lj_bufx_set_cow lj_bufx_init p) c = Done sb1 \<and> lj_buf_putmem env_all sb1 q = Done sb2 \<and>
    length (bmem sb2) = 0xfffffc00 \<and> lj_buf_more env_all sb2 (word_of_nat (length r)) = Done sb3 \<and> \<not> sbufiscow sb3 \<and>
    length (bmem sb3) = length (bmem sb2) \<and> bw sb3 = length (bmem sb3) \<and> lj_buf_putmem env_all sb2 r = Stuck"
proof -
  define sb0 where "sb0 = lj_bufx_set_cow lj_bufx_init p"
  have f: "(SBUF_FLAG_EXT OR SBUF_FLAG_COW) AND SBUF_FLAG_EXT \<noteq> 0" "(SBUF_FLAG_EXT OR SBUF_FLAG_COW) AND SBUF_FLAG_COW \<noteq> 0"
    "(SBUF_FLAG_EXT OR SBUF_FLAG_COW) AND SBUF_FLAG_BORROW = 0" "(SBUF_FLAG_EXT OR SBUF_FLAG_COW) AND NOT SBUF_FLAG_COW = SBUF_FLAG_EXT"
    "SBUF_FLAG_EXT AND SBUF_FLAG_EXT \<noteq> 0" "SBUF_FLAG_EXT AND SBUF_FLAG_COW = 0" by code_simp+
  have s0: "bmem sb0 = p" "bw sb0 = 0x7ffffe00" "br sb0 = 0" "sbufisext sb0" "sbufiscow sb0" "\<not> sbufisborrow sb0"
    "bflag sb0 = SBUF_FLAG_EXT OR SBUF_FLAG_COW"
    using f by (simp_all add: sb0_def lj_bufx_set_cow_def assms sbufisext_def sbufiscow_def sbufisborrow_def)
  have bs: "buf_size 0x7ffffe00 0x7ffffe01 = Some 0xfffffc00" by (simp add: buf_size.simps)
  define m where "m = newmem env_all p 0xfffffc00"
  define g where "g = sb0\<lparr>bmem := m, bflag := SBUF_FLAG_EXT\<rparr>"
  have gr: "grant env_all n" for n by (simp add: env_all_def)
  have lm: "length m = 0xfffffc00" by (simp add: m_def)
  have "buf_grow env_all sb0 0x7ffffe01 = Done g"
    by (simp add: buf_grow_def sbufsz_def sbuflen_def s0 assms LJ_MIN_SBUF_def bs gr f(4) g_def m_def Let_def)
  then have 1: "lj_buf_more env_all sb0 1 = Done g"
    using s0 by (simp add: lj_buf_more_def lj_buf_more2_def sbufleft_def sbufxlen_def sbufsz_def assms LJ_MAX_BUF_def LJ_MAX_MEM32_def buf_compact_def g_def)
  define sb1 where "sb1 = g\<lparr>bmem := m[0x7ffffe00 := c], bw := 0x7ffffe01\<rparr>"
  have gc: "sbufiscow g = False" "bw g = 0x7ffffe00" "bmem g = m" using f(6) s0 by (simp_all add: g_def sbufiscow_def)
  have "wbyte c g = Done sb1" by (simp add: wbyte_def gc lm sb1_def)
  with 1 have a: "lj_buf_putb env_all sb0 c = Done sb1" by (simp add: lj_buf_putb_def)
  have s1: "bw sb1 = 0x7ffffe01" "length (bmem sb1) = 0xfffffc00" "br sb1 = 0" "bflag sb1 = SBUF_FLAG_EXT"
    by (simp_all add: sb1_def lm) (simp_all add: g_def s0)
  then have x1: "sbufisext sb1" "\<not> sbufiscow sb1" using f by (simp_all add: sbufisext_def sbufiscow_def)
  have ft: "fits q sb1" using x1 by (simp add: fits_def s1 assms)
  have "lj_buf_more env_all sb1 0x7ffffdff = Done sb1" by (simp add: lj_buf_more_def sbufleft_def s1)
  then have b: "lj_buf_putmem env_all sb1 q = Done (written q sb1)"
    by (simp add: lj_buf_putmem_def assms wmem_fits [OF ft])
  define sb2 where "sb2 = written q sb1"
  have s2: "bw sb2 = 0xfffffc00" "length (bmem sb2) = 0xfffffc00" "br sb2 = 0" "sbufisext sb2" "\<not> sbufiscow sb2"
    by (simp_all add: sb2_def written_fields [OF ft] s1 assms x1)
  have bs2: "buf_size 0xfffffc00 0x400 = Some 0xfffffc00" by (simp add: buf_size.simps)
  obtain sb3 where sb3: "buf_grow env_all sb2 0x400 = Done sb3" "bw sb3 = 0xfffffc00" "length (bmem sb3) = 0xfffffc00" "\<not> sbufiscow sb3"
    using s2 by (simp add: sbufiscow_def buf_grow_def sbufsz_def sbuflen_def LJ_MIN_SBUF_def bs2 gr Let_def)
  have w: "drop_bit 3 (0xfffffc00 :: u32) = 0x1fffff80" "(4294968320 :: u32) = 0x400" by simp_all
  have m: "lj_buf_more env_all sb2 0x800 = Done sb3"
    using s2 sb3(1) by (simp add: w lj_buf_more_def lj_buf_more2_def sbufleft_def sbufxlen_def sbufsz_def sbuflen_def sbufxslack_def LJ_MAX_BUF_def LJ_MAX_MEM32_def)
  have "r \<noteq> []" using assms(3) by auto
  with m have d: "lj_buf_putmem env_all sb2 r = Stuck"
    by (simp add: lj_buf_putmem_def assms lj_buf_wmem_def sb3)
  have m': "lj_buf_more env_all sb2 (word_of_nat (length r)) = Done sb3" using m by (simp add: assms(3))
  have l: "length (bmem sb3) = length (bmem sb2)" "bw sb3 = length (bmem sb3)" using sb3 s2 by simp_all
  show ?thesis unfolding sb0_def [symmetric]
    by (rule exI [of _ sb1], rule exI [of _ sb2], rule exI [of _ sb3])
      (intro conjI a b [folded sb2_def] s2(2) m' sb3(4) l d)
qed

lemma buf_put_overflows_witness:
  "\<exists>sb1 sb2 sb3. lj_buf_putb env_all (lj_bufx_set_cow lj_bufx_init (replicate 0x7ffffe00 1)) 2 = Done sb1 \<and>
    lj_buf_putmem env_all sb1 (replicate 0x7ffffdff 3) = Done sb2 \<and>
    length (bmem sb2) = 0xfffffc00 \<and> lj_buf_more env_all sb2 (word_of_nat (length (replicate 0x800 (4 :: u8)))) = Done sb3 \<and> \<not> sbufiscow sb3 \<and>
    length (bmem sb3) = length (bmem sb2) \<and> bw sb3 = length (bmem sb3) \<and> lj_buf_putmem env_all sb2 (replicate 0x800 4) = Stuck"
  by (rule buf_put_overflows [OF length_replicate length_replicate length_replicate])

end
