(* ===== verification/Strfmt.thy ===== *)
theory Strfmt
  imports BufLaws
begin

text \<open>
  String formatting, \<^verbatim>\<open>src/src/lj_strfmt.c\<close> and \<^verbatim>\<open>src/src/lj_strfmt.h\<close>: the format parser, the raw conversions
  of integers and pointers, and the formatted output of integers, characters and strings. The raw
  conversions give the bytes that the code writes. The conversion of doubles is not modelled.
\<close>

section \<open>Formats\<close>

type_synonym SFormat = u32

definition STRFMT_EOF :: SFormat where "STRFMT_EOF = 0"
definition STRFMT_ERR :: SFormat where "STRFMT_ERR = 1"
definition STRFMT_LIT :: SFormat where "STRFMT_LIT = 2"
definition STRFMT_INT :: SFormat where "STRFMT_INT = 3"
definition STRFMT_UINT :: SFormat where "STRFMT_UINT = 4"
definition STRFMT_NUM :: SFormat where "STRFMT_NUM = 5"
definition STRFMT_STR :: SFormat where "STRFMT_STR = 6"
definition STRFMT_CHAR :: SFormat where "STRFMT_CHAR = 7"
definition STRFMT_PTR :: SFormat where "STRFMT_PTR = 8"

definition STRFMT_T_HEX :: SFormat where "STRFMT_T_HEX = 0x0010"
definition STRFMT_T_OCT :: SFormat where "STRFMT_T_OCT = 0x0020"
definition STRFMT_T_FP_A :: SFormat where "STRFMT_T_FP_A = 0x0000"
definition STRFMT_T_FP_E :: SFormat where "STRFMT_T_FP_E = 0x0010"
definition STRFMT_T_FP_F :: SFormat where "STRFMT_T_FP_F = 0x0020"
definition STRFMT_T_FP_G :: SFormat where "STRFMT_T_FP_G = 0x0030"
definition STRFMT_T_QUOTED :: SFormat where "STRFMT_T_QUOTED = 0x0010"

definition STRFMT_F_LEFT :: SFormat where "STRFMT_F_LEFT = 0x0100"
definition STRFMT_F_PLUS :: SFormat where "STRFMT_F_PLUS = 0x0200"
definition STRFMT_F_ZERO :: SFormat where "STRFMT_F_ZERO = 0x0400"
definition STRFMT_F_SPACE :: SFormat where "STRFMT_F_SPACE = 0x0800"
definition STRFMT_F_ALT :: SFormat where "STRFMT_F_ALT = 0x1000"
definition STRFMT_F_UPPER :: SFormat where "STRFMT_F_UPPER = 0x2000"

definition STRFMT_SH_WIDTH :: nat where "STRFMT_SH_WIDTH = 16"
definition STRFMT_SH_PREC :: nat where "STRFMT_SH_PREC = 24"

definition STRFMT_TYPE :: "SFormat \<Rightarrow> SFormat" where "STRFMT_TYPE sf = sf AND 15"
definition STRFMT_WIDTH :: "SFormat \<Rightarrow> u32" where "STRFMT_WIDTH sf = drop_bit STRFMT_SH_WIDTH sf AND 255"
definition STRFMT_PREC :: "SFormat \<Rightarrow> u32" where "STRFMT_PREC sf = (drop_bit STRFMT_SH_PREC sf AND 255) - 1"

definition STRFMT_A :: SFormat where "STRFMT_A = STRFMT_NUM OR STRFMT_T_FP_A"
definition STRFMT_C :: SFormat where "STRFMT_C = STRFMT_CHAR"
definition STRFMT_D :: SFormat where "STRFMT_D = STRFMT_INT"
definition STRFMT_E :: SFormat where "STRFMT_E = STRFMT_NUM OR STRFMT_T_FP_E"
definition STRFMT_F :: SFormat where "STRFMT_F = STRFMT_NUM OR STRFMT_T_FP_F"
definition STRFMT_G :: SFormat where "STRFMT_G = STRFMT_NUM OR STRFMT_T_FP_G"
definition STRFMT_I :: SFormat where "STRFMT_I = STRFMT_D"
definition STRFMT_O :: SFormat where "STRFMT_O = STRFMT_UINT OR STRFMT_T_OCT"
definition STRFMT_P :: SFormat where "STRFMT_P = STRFMT_PTR"
definition STRFMT_Q :: SFormat where "STRFMT_Q = STRFMT_STR OR STRFMT_T_QUOTED"
definition STRFMT_S :: SFormat where "STRFMT_S = STRFMT_STR"
definition STRFMT_U :: SFormat where "STRFMT_U = STRFMT_UINT"
definition STRFMT_X :: SFormat where "STRFMT_X = STRFMT_UINT OR STRFMT_T_HEX"

definition STRFMT_MAXBUF_XINT :: nat where "STRFMT_MAXBUF_XINT = 1 + 22"
definition STRFMT_MAXBUF_INT :: nat where "STRFMT_MAXBUF_INT = 1 + 10"
definition STRFMT_MAXBUF_PTR :: nat where "STRFMT_MAXBUF_PTR = 2 + 2 * 8"

section \<open>The format parser\<close>

definition strfmt_map :: "SFormat list" where
  "strfmt_map =
     [STRFMT_A, 0, 0, 0, STRFMT_E, STRFMT_F, STRFMT_G, 0, 0, 0, 0, 0, 0,
      0, 0, 0, 0, 0, 0, 0, 0, 0, 0, STRFMT_X, 0, 0,
      0, 0, 0, 0, 0, 0,
      STRFMT_A, 0, STRFMT_C, STRFMT_D, STRFMT_E, STRFMT_F, STRFMT_G, 0, STRFMT_I, 0, 0, 0, 0,
      0, STRFMT_O, STRFMT_P, STRFMT_Q, 0, STRFMT_S, 0, STRFMT_U, 0, 0, STRFMT_X]"

text \<open>The format from the read pointer on, without the terminating NUL, and the byte at a pointer.\<close>

definition peek :: "bytes \<Rightarrow> u32" where
  "peek p = (case p of [] \<Rightarrow> 0 | c # _ \<Rightarrow> ucast c)"

text \<open>\<^verbatim>\<open>for (p++; *p - ' ' <= '0' - ' '; p++)\<close>: the flags.\<close>

fun parse_flags :: "bytes \<Rightarrow> SFormat \<Rightarrow> SFormat \<times> bytes" where
  "parse_flags [] sf = (sf, [])"
| "parse_flags (c # p) sf =
     (if (ucast c :: u32) - 32 \<le> 48 - 32 then
        if c = 45 then parse_flags p (sf OR STRFMT_F_LEFT)
        else if c = 43 then parse_flags p (sf OR STRFMT_F_PLUS)
        else if c = 48 then parse_flags p (sf OR STRFMT_F_ZERO)
        else if c = 32 then parse_flags p (sf OR STRFMT_F_SPACE)
        else if c = 35 then parse_flags p (sf OR STRFMT_F_ALT)
        else (sf, c # p)
      else (sf, c # p))"

definition parse_width :: "bytes \<Rightarrow> SFormat \<Rightarrow> SFormat \<times> bytes" where
  "parse_width p sf =
     (if peek p - 48 < 10 then
        let width = peek p - 48; p = tl p;
            (width, p) = (if peek p - 48 < 10 then (peek p - 48 + width * 10, tl p) else (width, p))
        in (sf OR push_bit STRFMT_SH_WIDTH width, p)
      else (sf, p))"

definition parse_prec :: "bytes \<Rightarrow> SFormat \<Rightarrow> SFormat \<times> bytes" where
  "parse_prec p sf =
     (if peek p = 46 then
        let p = tl p;
            (prec, p) =
              (if peek p - 48 < 10 then
                 let prec = peek p - 48; p = tl p
                 in if peek p - 48 < 10 then (peek p - 48 + prec * 10, tl p) else (prec, p)
               else (0, p))
        in (sf OR push_bit STRFMT_SH_PREC (prec + 1), p)
      else (sf, p))"

text \<open>The result of a call: what is returned, the literal string, and the read pointer.\<close>

record fmt_result =
  fsf :: SFormat
  fstr :: bytes
  frest :: bytes

text \<open>The conversion after \<^verbatim>\<open>%\<close>; \<open>p0\<close> is the pointer to the escape.\<close>

definition parse_conv :: "bytes \<Rightarrow> fmt_result" where
  "parse_conv p0 =
     (let (sf, p) = parse_flags (tl p0) 0; (sf, p) = parse_width p sf; (sf, p) = parse_prec p sf;
          c = peek p - 65;
          sx = (if c \<le> 120 - 65 then strfmt_map ! unat c else 0)
      in if sx \<noteq> 0 then
           \<lparr>fsf = sf OR sx OR (if c AND 0x20 \<noteq> 0 then 0 else STRFMT_F_UPPER), fstr = [], frest = tl p\<rparr>
         else
           let p = (if peek p \<ge> 32 then tl p else p)
           in \<lparr>fsf = STRFMT_ERR, fstr = take (length p0 - length p) p0, frest = []\<rparr>)"

text \<open>The outer loop; \<open>lit\<close> is the literal read so far.\<close>

fun parse_loop :: "bytes \<Rightarrow> bytes \<Rightarrow> fmt_result" where
  "parse_loop lit [] = \<lparr>fsf = (if lit \<noteq> [] then STRFMT_LIT else STRFMT_EOF), fstr = lit, frest = []\<rparr>"
| "parse_loop lit (c # p) =
     (if c = 37 then
        if peek p = 37 then \<lparr>fsf = STRFMT_LIT, fstr = lit @ [c], frest = tl p\<rparr>
        else if lit \<noteq> [] then \<lparr>fsf = STRFMT_LIT, fstr = lit, frest = c # p\<rparr>
        else parse_conv (c # p)
      else parse_loop (lit @ [c]) p)"

definition lj_strfmt_parse :: "bytes \<Rightarrow> fmt_result" where
  "lj_strfmt_parse p = parse_loop [] p"

section \<open>Raw conversions\<close>

text \<open>\<^verbatim>\<open>WINT_R(x, sh, sc)\<close>: a digit by multiplication and shift, and the rest.\<close>

definition WINT_R :: "u32 \<Rightarrow> nat \<Rightarrow> u32 \<Rightarrow> u32 \<times> u8" where
  "WINT_R x sh sc =
     (let d = drop_bit sh (x * ((push_bit sh 1 + sc - 1) div sc)) in (x - d * sc, ucast (48 + d)))"

text \<open>\<^verbatim>\<open>lj_strfmt_wint\<close> from its labels on, and the whole.\<close>

definition dig1 :: "u32 \<Rightarrow> bytes" where "dig1 u = [ucast (48 + u)]"
definition dig2 :: "u32 \<Rightarrow> bytes" where "dig2 u = (let (u, c) = WINT_R u 10 10 in c # dig1 u)"
definition dig3 :: "u32 \<Rightarrow> bytes" where "dig3 u = (let (u, c) = WINT_R u 12 100 in c # dig2 u)"
definition dig4 :: "u32 \<Rightarrow> bytes" where "dig4 u = (let (u, c) = WINT_R u 23 1000 in c # dig3 u)"
definition dig5 :: "u32 \<Rightarrow> u32 \<Rightarrow> bytes" where "dig5 v u = ucast (48 + v) # dig4 u"
definition dig6 :: "u32 \<Rightarrow> u32 \<Rightarrow> bytes" where "dig6 v u = (let (v, c) = WINT_R v 10 10 in c # dig5 v u)"
definition dig7 :: "u32 \<Rightarrow> u32 \<Rightarrow> bytes" where "dig7 v u = (let (v, c) = WINT_R v 12 100 in c # dig6 v u)"
definition dig8 :: "u32 \<Rightarrow> u32 \<Rightarrow> bytes" where "dig8 v u = (let (v, c) = WINT_R v 23 1000 in c # dig7 v u)"

definition lj_strfmt_wint :: "u32 \<Rightarrow> bytes" where
  "lj_strfmt_wint k =
     (let (sgn, u) = (if sint k < 0 then ([45], NOT k + 1) else ([], k))
      in sgn @
        (if u < 10000 then
           if u < 10 then dig1 u else if u < 100 then dig2 u else if u < 1000 then dig3 u else dig4 u
         else
           let v = u div 10000; u = u - v * 10000
           in if v < 10000 then
                if v < 10 then dig5 v u else if v < 100 then dig6 v u else if v < 1000 then dig7 v u else dig8 v u
              else
                let w = v div 10000; v = v - w * 10000
                in if w \<ge> 10 then let (w, c) = WINT_R w 10 10 in c # ucast (48 + w) # dig8 v u
                   else ucast (48 + w) # dig8 v u))"

definition hexdigit :: "bool \<Rightarrow> u64 \<Rightarrow> u8" where
  "hexdigit upper x = (if x < 10 then ucast (48 + x) else ucast ((if upper then 55 else 87) + x))"

text \<open>\<^verbatim>\<open>for (i = n-1; i >= 2; i--, x >>= 4) p[i] = ...\<close>.\<close>

fun ptr_digits :: "nat \<Rightarrow> u64 \<Rightarrow> bytes \<Rightarrow> bytes" where
  "ptr_digits 0 x acc = acc"
| "ptr_digits (Suc n) x acc = ptr_digits n (signed_drop_bit 4 x) (hexdigit False (x AND 15) # acc)"

definition lj_strfmt_wptr :: "u64 \<Rightarrow> bytes" where
  "lj_strfmt_wptr x =
     (if x = 0 then [78, 85, 76, 76]
      else let h = ucast (signed_drop_bit 32 x) :: u32;
               n = 2 + 2 * 4 + (if signed_drop_bit 32 x \<noteq> 0 then 2 + 2 * (lj_fls h div 8) else 0)
           in 48 # 120 # ptr_digits (n - 2) x [])"

function lj_strfmt_wuleb128 :: "u32 \<Rightarrow> bytes" where
  "lj_strfmt_wuleb128 v =
     (if v \<ge> 0x80 then ucast ((v AND 0x7f) OR 0x80) # lj_strfmt_wuleb128 (drop_bit 7 v) else [ucast v])"
  by pat_completeness auto
termination by (relation "measure unat") (auto simp: drop_bit_eq_div unat_div word_le_nat_alt)

declare lj_strfmt_wuleb128.simps [simp del]

section \<open>Unformatted output\<close>

definition lj_strfmt_putint :: "bufenv \<Rightarrow> SBuf \<Rightarrow> u32 \<Rightarrow> SBuf comp" where
  "lj_strfmt_putint env sb k =
     cbind (lj_buf_more env sb (word_of_nat STRFMT_MAXBUF_INT)) (lj_buf_wmem (lj_strfmt_wint k))"

definition lj_strfmt_putptr :: "bufenv \<Rightarrow> SBuf \<Rightarrow> u64 \<Rightarrow> SBuf comp" where
  "lj_strfmt_putptr env sb v =
     cbind (lj_buf_more env sb (word_of_nat STRFMT_MAXBUF_PTR)) (lj_buf_wmem (lj_strfmt_wptr v))"

text \<open>The bytes for one character of a quoted string; \<open>n\<close> is the next character, NUL at the end.\<close>

definition quote_char :: "u8 \<Rightarrow> u8 \<Rightarrow> bytes" where
  "quote_char b n =
     (let c = ucast b :: u32
      in if c = 34 \<or> c = 92 \<or> c = 10 then [92, ucast c]
         else if lj_char_iscntrl b then
           if c \<ge> 100 \<or> lj_char_isdigit n then
             let h = ucast (48 + (if c \<ge> 100 then 1 else 0 :: u32)); c = (if c \<ge> 100 then c - 100 else c);
                 d = drop_bit 11 (c * 205); c = c - d * 10
             in [92, h, ucast (48 + d), ucast (c + 48)]
           else if c \<ge> 10 then
             let d = drop_bit 11 (c * 205); c = c - d * 10 in [92, ucast (48 + d), ucast (c + 48)]
           else [92, ucast (c + 48)]
         else [ucast c])"

fun quote_loop :: "bufenv \<Rightarrow> bytes \<Rightarrow> SBuf \<Rightarrow> SBuf comp" where
  "quote_loop env [] sb = Done sb"
| "quote_loop env (c # s) sb =
     cbind (lj_buf_more env sb 4) (\<lambda>sb.
     cbind (lj_buf_wmem (quote_char c (case s of [] \<Rightarrow> 0 | n # _ \<Rightarrow> n)) sb) (quote_loop env s))"

definition strfmt_putquotedlen :: "bufenv \<Rightarrow> SBuf \<Rightarrow> bytes \<Rightarrow> SBuf comp" where
  "strfmt_putquotedlen env sb s =
     cbind (lj_buf_putb env sb 34) (\<lambda>sb. cbind (quote_loop env s sb) (\<lambda>sb. lj_buf_putb env sb 34))"

section \<open>Formatted output\<close>

text \<open>\<^verbatim>\<open>while (width-- > len) *w++ = c\<close>.\<close>

definition padding :: "u32 \<Rightarrow> u32 \<Rightarrow> u8 \<Rightarrow> bytes" where
  "padding width len c = replicate (unat width - unat len) c"

definition lj_strfmt_putfchar :: "bufenv \<Rightarrow> SBuf \<Rightarrow> SFormat \<Rightarrow> u32 \<Rightarrow> SBuf comp" where
  "lj_strfmt_putfchar env sb sf c =
     (let width = STRFMT_WIDTH sf; left = (sf AND STRFMT_F_LEFT \<noteq> 0)
      in cbind (lj_buf_more env sb (if width > 1 then width else 1)) (lj_buf_wmem
           ((if left then [ucast c] else []) @ padding width 1 32 @ (if left then [] else [ucast c]))))"

definition strfmt_putfstrlen :: "bufenv \<Rightarrow> SBuf \<Rightarrow> SFormat \<Rightarrow> bytes \<Rightarrow> SBuf comp" where
  "strfmt_putfstrlen env sb sf s =
     (let width = STRFMT_WIDTH sf; left = (sf AND STRFMT_F_LEFT \<noteq> 0); len = word_of_nat (length s);
          len = (if len > STRFMT_PREC sf then STRFMT_PREC sf else len);
          q = take (unat len) s
      in cbind (lj_buf_more env sb (if width > len then width else len)) (lj_buf_wmem
           ((if left then q else []) @ padding width len 32 @ (if left then [] else q))))"

text \<open>The digit loops of \<^verbatim>\<open>lj_strfmt_putfxint\<close>, which fill the fixed-size buffer from its end.\<close>

function xint_dec64 :: "u64 \<Rightarrow> bytes \<Rightarrow> u64 \<times> bytes" where
  "xint_dec64 k q = (if drop_bit 32 k \<noteq> 0 then xint_dec64 (k div 10) (ucast (48 + k mod 10) # q) else (k, q))"
  by pat_completeness auto
termination
proof (relation "measure (unat \<circ> fst)")
  fix k :: u64 and q :: bytes
  assume a: "drop_bit 32 k \<noteq> 0"
  then have "k \<noteq> 0" by auto
  then have "0 < unat k" by (simp add: unat_gt_0)
  then show "((k div 10, ucast (48 + k mod 10) # q), k, q) \<in> measure (unat \<circ> fst)" by (simp add: unat_div)
qed simp

function xint_dec32 :: "u32 \<Rightarrow> bytes \<Rightarrow> bytes" where
  "xint_dec32 k q = (let q = ucast (48 + k mod 10) # q in if k div 10 \<noteq> 0 then xint_dec32 (k div 10) q else q)"
  by pat_completeness auto
termination
proof (relation "measure (unat \<circ> fst)")
  fix k :: u32 and q x :: bytes
  assume a: "k div 10 \<noteq> 0"
  then have "k \<noteq> 0" by auto
  then have "0 < unat k" by (simp add: unat_gt_0)
  then show "((k div 10, x), k, q) \<in> measure (unat \<circ> fst)" by (simp add: unat_div)
qed simp

function xint_hex :: "bool \<Rightarrow> u64 \<Rightarrow> bytes \<Rightarrow> bytes" where
  "xint_hex up k q = (let q = hexdigit up (k AND 15) # q in if drop_bit 4 k \<noteq> 0 then xint_hex up (drop_bit 4 k) q else q)"
  by pat_completeness auto
termination
proof (relation "measure (unat \<circ> (fst \<circ> snd))")
  fix k :: u64 and q x :: bytes and up :: bool
  assume a: "drop_bit 4 k \<noteq> 0"
  then have "k \<noteq> 0" by auto
  then have "0 < unat k" by (simp add: unat_gt_0)
  then show "((up, drop_bit 4 k, x), up, k, q) \<in> measure (unat \<circ> (fst \<circ> snd))" by (simp add: drop_bit_eq_div unat_div)
qed simp

function xint_oct :: "u64 \<Rightarrow> bytes \<Rightarrow> bytes" where
  "xint_oct k q = (let q = ucast (48 + (ucast (k AND 7) :: u32)) # q in if drop_bit 3 k \<noteq> 0 then xint_oct (drop_bit 3 k) q else q)"
  by pat_completeness auto
termination
proof (relation "measure (unat \<circ> fst)")
  fix k :: u64 and q x :: bytes
  assume a: "drop_bit 3 k \<noteq> 0"
  then have "k \<noteq> 0" by auto
  then have "0 < unat k" by (simp add: unat_gt_0)
  then show "((drop_bit 3 k, x), k, q) \<in> measure (unat \<circ> fst)" by (simp add: drop_bit_eq_div unat_div)
qed simp

declare xint_dec64.simps [simp del] xint_dec32.simps [simp del] xint_hex.simps [simp del] xint_oct.simps [simp del]

text \<open>The sign of a signed conversion: the magnitude and the prefix, whose second byte is its length.\<close>

definition xint_sign :: "SFormat \<Rightarrow> u64 \<Rightarrow> u64 \<times> u32" where
  "xint_sign sf k =
     (if STRFMT_TYPE sf = STRFMT_INT then
        if sint k < 0 then (NOT k + 1, 256 + 45)
        else if sf AND STRFMT_F_PLUS \<noteq> 0 then (k, 256 + 43)
        else if sf AND STRFMT_F_SPACE \<noteq> 0 then (k, 256 + 32)
        else (k, 0)
      else (k, 0))"

text \<open>The digits and the prefix after the conversion.\<close>

definition xint_digits :: "SFormat \<Rightarrow> u32 \<Rightarrow> u64 \<Rightarrow> u32 \<Rightarrow> bytes \<times> u32" where
  "xint_digits sf prec k prefix =
     (if k = 0 then
        (if prec \<noteq> 0 \<or> sf AND (STRFMT_T_OCT OR STRFMT_F_ALT) = STRFMT_T_OCT OR STRFMT_F_ALT then [48] else [], prefix)
      else if sf AND (STRFMT_T_HEX OR STRFMT_T_OCT) = 0 then
        (let (k, q) = xint_dec64 k [] in xint_dec32 (ucast k) q, prefix)
      else if sf AND STRFMT_T_HEX \<noteq> 0 then
        let up = (sf AND STRFMT_F_UPPER \<noteq> 0)
        in (xint_hex up k [], if sf AND STRFMT_F_ALT \<noteq> 0 then 512 + (if up then 88 else 120) else prefix)
      else
        let q = xint_oct k [] in (if sf AND STRFMT_F_ALT \<noteq> 0 then 48 # q else q, prefix))"

definition lj_strfmt_putfxint :: "bufenv \<Rightarrow> SBuf \<Rightarrow> SFormat \<Rightarrow> u64 \<Rightarrow> SBuf comp" where
  "lj_strfmt_putfxint env sb sf k =
     (let (k, prefix) = xint_sign sf k;
          prec = STRFMT_PREC sf;
          sf = (if 0 \<le> sint prec then sf AND NOT STRFMT_F_ZERO else sf);
          (q, prefix) = xint_digits sf prec k prefix;
          len = word_of_nat (length q);
          prec = (if sint len \<ge> sint prec then len else prec);
          width = STRFMT_WIDTH sf;
          pprec = prec + drop_bit 8 prefix;
          need = (if width > pprec then width else pprec)
      in if length q > STRFMT_MAXBUF_XINT then Stuck
         else cbind (lj_buf_more env sb need) (lj_buf_wmem
           ((if sf AND (STRFMT_F_LEFT OR STRFMT_F_ZERO) = 0 then padding width pprec 32 else []) @
            (if prefix \<noteq> 0 then
               (if ucast prefix \<ge> (88 :: u8) then [48] else []) @ [ucast prefix]
             else []) @
            (if sf AND (STRFMT_F_LEFT OR STRFMT_F_ZERO) = STRFMT_F_ZERO then padding width pprec 48 else []) @
            padding prec len 48 @ q @
            (if sf AND STRFMT_F_LEFT \<noteq> 0 then padding width pprec 32 else []))))"

end
