(* ===== verification/StrfmtLaws.thy ===== *)
theory StrfmtLaws
  imports Strfmt
begin

text \<open>
  The numbers that the conversions write: the reference is positional notation over the natural numbers,
  and for the formatted conversion a description in the style of \<^verbatim>\<open>printf\<close>.
\<close>

section \<open>Positional notation\<close>

definition digit :: "bool \<Rightarrow> nat \<Rightarrow> u8" where
  "digit up d = word_of_nat ((if d < 10 then 48 else if up then 55 else 87) + d)"

function digits :: "nat \<Rightarrow> bool \<Rightarrow> nat \<Rightarrow> bytes" where
  "digits b up n = (if b < 2 \<or> n < b then [digit up n] else digits b up (n div b) @ [digit up (n mod b)])"
  by pat_completeness auto
termination by (relation "measure (\<lambda>(b, up, n). n)") auto

declare digits.simps [simp del]

definition digit_val :: "u8 \<Rightarrow> nat" where
  "digit_val c = (if unat c < 65 then unat c - 48 else if unat c < 97 then unat c - 55 else unat c - 87)"

definition number_of :: "nat \<Rightarrow> bytes \<Rightarrow> nat" where
  "number_of b q = foldl (\<lambda>a c. a * b + digit_val c) 0 q"

lemma unat_digit: "d < 16 \<Longrightarrow> unat (digit up d) = (if d < 10 then 48 else if up then 55 else 87) + d"
  unfolding digit_def by (subst unat_of_nat) (auto simp: take_bit_nat_eq_self)

lemma digit_val_digit: "d < 16 \<Longrightarrow> digit_val (digit up d) = d"
  by (auto simp: digit_val_def unat_digit)

lemma number_of_digits: "2 \<le> b \<Longrightarrow> b \<le> 16 \<Longrightarrow> number_of b (digits b up n) = n"
proof (induction b up n rule: digits.induct)
  case (1 b up n)
  show ?case
  proof (cases "n < b")
    case True
    with "1.prems" show ?thesis by (subst digits.simps) (simp add: number_of_def digit_val_digit)
  next
    case False
    have "n mod b < 16" using mod_less_divisor [of b n] "1.prems" by linarith
    then show ?thesis using False "1.IH" "1.prems"
      by (subst digits.simps) (simp add: number_of_def digit_val_digit)
  qed
qed

lemma length_digits: "0 < i \<Longrightarrow> 2 \<le> b \<Longrightarrow> n < b ^ i \<Longrightarrow> length (digits b up n) \<le> i"
proof (induction i arbitrary: n)
  case (Suc i)
  show ?case
  proof (cases "n < b")
    case False
    have i: "0 < i" using False Suc.prems by (cases i) auto
    have "n div b < b ^ i" using Suc.prems by (simp add: div_less_iff_less_mult mult.commute)
    from Suc.IH [OF i Suc.prems(2) this] False show ?thesis by (subst digits.simps) simp
  qed (subst digits.simps, simp)
qed simp

text \<open>A number of exactly \<open>i\<close> digits, with leading zeros.\<close>

fun dpad :: "nat \<Rightarrow> nat \<Rightarrow> bytes" where
  "dpad 0 n = []"
| "dpad (Suc i) n = digit False (n div 10 ^ i) # dpad i (n mod 10 ^ i)"

lemma length_dpad [simp]: "length (dpad i n) = i"
  by (induction i arbitrary: n) simp_all

lemma dpad_snoc: "n < 10 ^ Suc i \<Longrightarrow> dpad (Suc i) n = dpad i (n div 10) @ [digit False (n mod 10)]"
proof (induction i arbitrary: n)
  case (Suc i)
  have lt: "n mod 10 ^ Suc i < 10 ^ Suc i" by simp
  have a: "n mod 10 ^ Suc i div 10 = n div 10 mod 10 ^ i" by (simp add: mod_mult2_eq)
  have b: "n mod 10 ^ Suc i mod 10 = n mod 10" by (simp add: mod_mult2_eq)
  have c: "n div 10 div 10 ^ i = n div 10 ^ Suc i" by (simp add: div_mult2_eq)
  have "dpad (Suc (Suc i)) n = digit False (n div 10 ^ Suc i) # dpad (Suc i) (n mod 10 ^ Suc i)" by simp
  also have "\<dots> = digit False (n div 10 ^ Suc i) # dpad i (n div 10 mod 10 ^ i) @ [digit False (n mod 10)]"
    by (simp only: Suc.IH [OF lt] a b append_Cons)
  also have "\<dots> = dpad (Suc i) (n div 10) @ [digit False (n mod 10)]" by (simp only: dpad.simps c append_Cons)
  finally show ?case .
qed simp

lemma digits_dpad: "n < 10 ^ Suc i \<Longrightarrow> 10 ^ i \<le> n \<or> i = 0 \<Longrightarrow> digits 10 False n = dpad (Suc i) n"
proof (induction i arbitrary: n)
  case 0
  then show ?case by (subst digits.simps) simp
next
  case (Suc i)
  have "(1::nat) \<le> 10 ^ i" by simp
  then have "\<not> n < 10" using Suc.prems(2) unfolding power_Suc by linarith
  then have "digits 10 False n = digits 10 False (n div 10) @ [digit False (n mod 10)]" by (subst digits.simps) simp
  also have "digits 10 False (n div 10) = dpad (Suc i) (n div 10)" using Suc.prems by (intro Suc.IH) auto
  also have "dpad (Suc i) (n div 10) @ [digit False (n mod 10)] = dpad (Suc (Suc i)) n"
    using dpad_snoc [OF Suc.prems(1)] by simp
  finally show ?case .
qed

text \<open>Splitting a number into groups of four digits, as the code does.\<close>

lemma dpad_append: "n < 10 ^ (i + j) \<Longrightarrow> dpad (i + j) n = dpad i (n div 10 ^ j) @ dpad j (n mod 10 ^ j)"
proof (induction i arbitrary: n)
  case (Suc i)
  have lt: "n mod 10 ^ (i + j) < 10 ^ (i + j)" by simp
  have a: "n mod 10 ^ (i + j) div 10 ^ j = n div 10 ^ j mod 10 ^ i" "n mod 10 ^ (i + j) mod 10 ^ j = n mod 10 ^ j"
    by (simp_all add: power_add mod_mult2_eq mult.commute [of "10 ^ i"])
  have b: "n div 10 ^ j div 10 ^ i = n div 10 ^ (i + j)" by (simp only: div_mult2_eq power_add mult.commute [of "10 ^ i"])
  have "dpad (Suc i + j) n = digit False (n div 10 ^ (i + j)) # dpad (i + j) (n mod 10 ^ (i + j))" by simp
  then show ?case by (simp only: Suc.IH [OF lt] a dpad.simps b append_Cons)
qed simp

section \<open>Integers\<close>

lemma unat_word_of_nat_id: "word_of_nat (unat w) = w"
  by simp

lemma ucast_byte: "m < 256 \<Longrightarrow> ucast (word_of_nat m :: u32) = (word_of_nat m :: u8)"
  by (simp add: unsigned_of_nat take_bit_nat_eq_self)

lemma WINT_R_ok:
  assumes K: "(push_bit sh 1 + sc - 1) div sc = (word_of_nat K :: u32)" and "n * K < 2 ^ 32" and "n * K div 2 ^ sh = n div unat sc"
    and "n < 2 ^ 32" and "n div unat sc < 10"
  shows "WINT_R (word_of_nat n) sh sc = (word_of_nat (n mod unat sc), digit False (n div unat sc))"
proof -
  have u: "unat (word_of_nat n :: u32) = n" using assms(4) by (rule unat32)
  have "unat (word_of_nat (n * K) :: u32) = n * K" using assms(2) by (rule unat32)
  then have "unat (drop_bit sh (word_of_nat n * word_of_nat K) :: u32) = n div unat sc"
    unfolding of_nat_mult [symmetric] unat_drop_bit_eq by (simp only: drop_bit_eq_div assms(3))
  then have dw: "drop_bit sh (word_of_nat n * word_of_nat K) = (word_of_nat (n div unat sc) :: u32)"
    by (metis unat_word_of_nat_id)
  have "word_of_nat n - word_of_nat (n div unat sc) * sc = (word_of_nat (n mod unat sc) :: u32)"
  proof -
    have "(word_of_nat n :: u32) = word_of_nat (n div unat sc * unat sc + n mod unat sc)" by simp
    also have "\<dots> = word_of_nat (n div unat sc) * sc + word_of_nat (n mod unat sc)" by (simp only: of_nat_add of_nat_mult unat_word_of_nat_id)
    finally show ?thesis by simp
  qed
  moreover have "ucast (48 + word_of_nat (n div unat sc) :: u32) = digit False (n div unat sc)"
    using assms(5) ucast_byte [of "48 + n div unat sc"] by (simp add: digit_def)
  ultimately show ?thesis by (simp only: WINT_R_def Let_def K dw)
qed

lemma div_by_mult:
  fixes n d P K :: nat
  assumes "n < 10 * d" and "0 < d" and "P \<le> d * K" and "9 * (d * K - P) + (d - 1) * K < P"
  shows "n * K div P = n div d"
proof -
  define q r where "q = n div d" and "r = n mod d"
  have n: "n = q * d + r" and r: "r \<le> d - 1" using assms(2) by (simp_all add: q_def r_def less_Suc_eq_le [symmetric])
  have "q \<le> 9" using assms(1) less_mult_imp_div_less [of n 10 d] by (simp add: q_def)
  then have "q * (d * K - P) \<le> 9 * (d * K - P)" "r * K \<le> (d - 1) * K" using r by (auto intro: mult_le_mono1)
  then have le: "q * (d * K - P) + r * K < P" using assms(4) by linarith
  have "n * K = q * (d * K) + r * K" by (simp add: n algebra_simps)
  also have "\<dots> = q * (P + (d * K - P)) + r * K" using assms(3) by simp
  also have "\<dots> = P * q + (q * (d * K - P) + r * K)" by (simp only: distrib_left mult.commute add.assoc)
  finally have e: "n * K = P * q + (q * (d * K - P) + r * K)" .
  show ?thesis unfolding e q_def [symmetric] using le by simp
qed

lemma WINT_R_10: "n < 100 \<Longrightarrow> WINT_R (word_of_nat n) 10 10 = (word_of_nat (n mod 10), digit False (n div 10))"
  using WINT_R_ok [of 10 10 103 n] div_by_mult [of n 10 "2 ^ 10" 103] by simp

lemma WINT_R_100: "n < 1000 \<Longrightarrow> WINT_R (word_of_nat n) 12 100 = (word_of_nat (n mod 100), digit False (n div 100))"
  using WINT_R_ok [of 12 100 41 n] div_by_mult [of n 100 "2 ^ 12" 41] by simp

lemma WINT_R_1000: "n < 10000 \<Longrightarrow> WINT_R (word_of_nat n) 23 1000 = (word_of_nat (n mod 1000), digit False (n div 1000))"
  using WINT_R_ok [of 23 1000 8389 n] div_by_mult [of n 1000 "2 ^ 23" 8389] by simp

lemma digit_small: "n < 10 \<Longrightarrow> ucast (48 + word_of_nat n :: u32) = digit False n"
  using ucast_byte [of "48 + n"] by (simp add: digit_def)

lemma dig1_eq: "n < 10 \<Longrightarrow> dig1 (word_of_nat n) = dpad 1 n"
  by (simp add: dig1_def digit_small)

lemma dig2_eq: "n < 100 \<Longrightarrow> dig2 (word_of_nat n) = dpad 2 n"
  using dig1_eq [of "n mod 10"] by (simp add: dig2_def WINT_R_10 numeral_2_eq_2)

lemma dig3_eq: "n < 1000 \<Longrightarrow> dig3 (word_of_nat n) = dpad 3 n"
  using dig2_eq [of "n mod 100"] by (simp add: dig3_def WINT_R_100 numeral_3_eq_3 numeral_2_eq_2)

lemma dig4_eq: "n < 10000 \<Longrightarrow> dig4 (word_of_nat n) = dpad 4 n"
  using dig3_eq [of "n mod 1000"] by (simp add: dig4_def WINT_R_1000 dpad.simps(2) [of 3, simplified])

lemma dpad2: "dpad 2 n = [digit False (n div 10), digit False (n mod 10)]"
  by (simp add: numeral_2_eq_2)

lemma dig5_eq: "v < 10 \<Longrightarrow> u < 10000 \<Longrightarrow> dig5 (word_of_nat v) (word_of_nat u) = dpad 1 v @ dpad 4 u"
  by (simp add: dig5_def digit_small dig4_eq)

lemma dig6_eq: "v < 100 \<Longrightarrow> u < 10000 \<Longrightarrow> dig6 (word_of_nat v) (word_of_nat u) = dpad 2 v @ dpad 4 u"
  using dig5_eq [of "v mod 10" u] by (simp add: dig6_def WINT_R_10 numeral_2_eq_2)

lemma dig7_eq: "v < 1000 \<Longrightarrow> u < 10000 \<Longrightarrow> dig7 (word_of_nat v) (word_of_nat u) = dpad 3 v @ dpad 4 u"
  using dig6_eq [of "v mod 100" u] by (simp add: dig7_def WINT_R_100 numeral_3_eq_3 numeral_2_eq_2)

lemma dig8_eq: "v < 10000 \<Longrightarrow> u < 10000 \<Longrightarrow> dig8 (word_of_nat v) (word_of_nat u) = dpad 4 v @ dpad 4 u"
  using dig7_eq [of "v mod 1000" u] by (simp add: dig8_def WINT_R_1000 dpad.simps(2) [of 3, simplified])

text \<open>The part of \<^verbatim>\<open>lj_strfmt_wint\<close> after the sign.\<close>

definition wint_mag :: "u32 \<Rightarrow> bytes" where
  "wint_mag u =
     (if u < 10000 then
        if u < 10 then dig1 u else if u < 100 then dig2 u else if u < 1000 then dig3 u else dig4 u
      else
        let v = u div 10000; u = u - v * 10000
        in if v < 10000 then
             if v < 10 then dig5 v u else if v < 100 then dig6 v u else if v < 1000 then dig7 v u else dig8 v u
           else
             let w = v div 10000; v = v - w * 10000
             in if w \<ge> 10 then let (w, c) = WINT_R w 10 10 in c # ucast (48 + w) # dig8 v u
                else ucast (48 + w) # dig8 v u)"

lemma wint_mag: "lj_strfmt_wint k = (if sint k < 0 then 45 # wint_mag (NOT k + 1) else wint_mag k)"
  by (simp add: lj_strfmt_wint_def wint_mag_def)

lemma word_divmod:
  assumes "n < 2 ^ 32"
  shows "(word_of_nat n :: u32) div 10000 = word_of_nat (n div 10000)"
    and "(word_of_nat n :: u32) - word_of_nat (n div 10000) * 10000 = word_of_nat (n mod 10000)"
proof -
  have u: "unat (word_of_nat n :: u32) = n" using assms by (rule unat32)
  have "unat ((word_of_nat n :: u32) div 10000) = n div 10000" by (simp only: unat_div u) simp
  then show "(word_of_nat n :: u32) div 10000 = word_of_nat (n div 10000)" by (metis unat_word_of_nat_id)
  have "(word_of_nat n :: u32) = word_of_nat (n div 10000 * 10000 + n mod 10000)" by simp
  also have "\<dots> = word_of_nat (n div 10000) * 10000 + word_of_nat (n mod 10000)" by (simp only: of_nat_add of_nat_mult of_nat_numeral)
  finally show "(word_of_nat n :: u32) - word_of_nat (n div 10000) * 10000 = word_of_nat (n mod 10000)" by simp
qed

lemma word_less_num: "n < 2 ^ 32 \<Longrightarrow> (word_of_nat n :: u32) < numeral m \<longleftrightarrow> n < unat (numeral m :: u32)"
  by (simp only: word_less_nat_alt unat32)

lemma wint_mag_digits:
  assumes "n < 2 ^ 32"
  shows "wint_mag (word_of_nat n) = digits 10 False n"
proof (cases "n < 10000")
  case True
  then have c: "(word_of_nat n :: u32) < 10000" "(word_of_nat n :: u32) < 10 \<longleftrightarrow> n < 10" "(word_of_nat n :: u32) < 100 \<longleftrightarrow> n < 100"
    "(word_of_nat n :: u32) < 1000 \<longleftrightarrow> n < 1000" by (simp_all add: word_less_num)
  show ?thesis
    using True digits_dpad [of n 0] digits_dpad [of n 1] digits_dpad [of n 2] digits_dpad [of n 3]
    by (simp add: wint_mag_def c dig1_eq dig2_eq dig3_eq dig4_eq dpad2)
next
  case False
  define v u where "v = n div 10000" and "u = n mod 10000"
  have b: "v < 2 ^ 32" "u < 10000" "v < 429497" "1 \<le> v" using assms False by (auto simp: v_def u_def)
  have "10000 \<le> (word_of_nat n :: u32)" using False unat32 [OF assms] by (simp only: word_le_nat_alt) simp
  then have n: "wint_mag (word_of_nat n) =
      (if (word_of_nat v :: u32) < 10000 then
         if (word_of_nat v :: u32) < 10 then dig5 (word_of_nat v) (word_of_nat u) else if (word_of_nat v :: u32) < 100 then dig6 (word_of_nat v) (word_of_nat u)
         else if (word_of_nat v :: u32) < 1000 then dig7 (word_of_nat v) (word_of_nat u) else dig8 (word_of_nat v) (word_of_nat u)
       else let w = word_of_nat v div 10000; x = word_of_nat v - w * 10000
         in if w \<ge> 10 then let (w, c) = WINT_R w 10 10 in c # ucast (48 + w) # dig8 x (word_of_nat u)
            else ucast (48 + w) # dig8 x (word_of_nat u))"
    by (simp only: wint_mag_def Let_def word_divmod [OF assms, folded v_def u_def] not_less [symmetric] if_False simp_thms)
  have sp: "dpad (i + 4) n = dpad i v @ dpad 4 u" if "n < 10 ^ (i + 4)" for i
    using dpad_append [OF that] by (simp add: v_def u_def)
  show ?thesis
  proof (cases "v < 10000")
    case True
    have nb: "v < 10 \<longleftrightarrow> n < 10 ^ 5" "v < 100 \<longleftrightarrow> n < 10 ^ 6" "v < 1000 \<longleftrightarrow> n < 10 ^ 7" "n < 10 ^ 8"
      using True by (auto simp: v_def)
    have c: "(word_of_nat v :: u32) < 10000" "(word_of_nat v :: u32) < 10 \<longleftrightarrow> v < 10" "(word_of_nat v :: u32) < 100 \<longleftrightarrow> v < 100"
      "(word_of_nat v :: u32) < 1000 \<longleftrightarrow> v < 1000" using True b(1) by (simp_all add: word_less_num)
    show ?thesis
      using False True nb sp [of 1] sp [of 2] sp [of 3] sp [of 4] b(2)
        digits_dpad [of n 4] digits_dpad [of n 5] digits_dpad [of n 6] digits_dpad [of n 7]
      unfolding n by (simp add: c dig5_eq dig6_eq dig7_eq dig8_eq)
  next
    case big: False
    define w x where "w = v div 10000" and "x = v mod 10000"
    have bw: "w < 43" "x < 10000" "w < 2 ^ 32" using b by (auto simp: w_def x_def)
    have ge: "\<not> (word_of_nat v :: u32) < 10000" using big b(1) by (simp add: word_less_num)
    have w10: "10 \<le> (word_of_nat w :: u32) \<longleftrightarrow> 10 \<le> w" using bw(3) by (simp add: not_less [symmetric] word_less_num)
    have sx: "dpad (i + 4 + 4) n = dpad i w @ dpad 4 x @ dpad 4 u" if "n < 10 ^ (i + 4 + 4)" for i
    proof -
      have "v < 10 ^ (i + 4)" using that by (simp add: v_def power_add div_less_iff_less_mult)
      then have "dpad (i + 4) v = dpad i w @ dpad 4 x" using dpad_append [of v i 4] by (simp add: w_def x_def)
      then show ?thesis using sp [OF that] by simp
    qed
    have d8: "dig8 (word_of_nat x) (word_of_nat u) = dpad 4 x @ dpad 4 u" using bw b by (intro dig8_eq)
    have nn: "10 ^ 8 \<le> n" using big by (auto simp: v_def)
    have n10: "w < 10 \<longleftrightarrow> n < 10 ^ 9" by (auto simp: w_def v_def)
    show ?thesis
    proof (cases "w < 10")
      case True
      then have "digits 10 False n = dpad (1 + 4 + 4) n" using n10 nn digits_dpad [of n 8] by simp
      also have "\<dots> = dpad 1 w @ dpad 4 x @ dpad 4 u" using True n10 by (intro sx) simp
      finally show ?thesis using True w10 unfolding n
        by (simp add: ge Let_def word_divmod [OF b(1), folded w_def x_def] d8 digit_small)
    next
      case False
      have "n < 10 ^ 10" using assms by simp
      then have "digits 10 False n = dpad (2 + 4 + 4) n" using n10 False digits_dpad [of n 9] by simp
      also have "\<dots> = dpad 2 w @ dpad 4 x @ dpad 4 u" using \<open>n < 10 ^ 10\<close> by (intro sx) simp
      finally show ?thesis using False w10 bw unfolding n
        by (simp add: ge Let_def word_divmod [OF b(1), folded w_def x_def] d8 digit_small WINT_R_10 numeral_2_eq_2)
    qed
  qed
qed

lemma wint_eq: "lj_strfmt_wint k = (if sint k < 0 then [45] else []) @ digits 10 False (nat \<bar>sint k\<bar>)"
proof -
  have m: "wint_mag w = digits 10 False (unat w)" for w :: u32
    using wint_mag_digits [of "unat w"] unsigned_less [of w] by simp
  show ?thesis using unat_abs_word [of k] by (cases "sint k < 0") (simp_all add: wint_mag m)
qed

lemma wint_len: "length (lj_strfmt_wint k) \<le> 11"
proof -
  have "nat \<bar>sint k\<bar> \<le> 2 ^ 31" using sint_greater_eq [of k] sint_less [of k] by auto
  then have "nat \<bar>sint k\<bar> < 10 ^ 10" by simp
  then have "length (digits 10 False (nat \<bar>sint k\<bar>)) \<le> 10" by (rule length_digits [rotated 2]) simp_all
  then show ?thesis by (cases "sint k < 0") (simp_all add: wint_eq)
qed

text \<open>C20. \<^verbatim>\<open>lj_strfmt_wint\<close> writes the decimal numeral of every 32 bit integer, \<open>-2^31\<close> included: an optional
  minus sign and the digits without leading zeros, which are read back as the absolute value. The bytes fit
  into what the callers reserve.\<close>

theorem wint_decimal:
  "lj_strfmt_wint k = (if sint k < 0 then [45] else []) @ digits 10 False (nat \<bar>sint k\<bar>) \<and>
   number_of 10 (digits 10 False (nat \<bar>sint k\<bar>)) = nat \<bar>sint k\<bar> \<and> length (lj_strfmt_wint k) \<le> STRFMT_MAXBUF_INT"
  using wint_len by (simp add: wint_eq number_of_digits STRFMT_MAXBUF_INT_def)

section \<open>ULEB128\<close>

lemma uleb_masks: "(0x7f :: u32) = mask 7" "(0x7f :: u8) = mask 7" "(0x80 :: u32) = 2 ^ 7"
  by (simp_all add: mask_eq_exp_minus_1)

lemma bit_0x80: "bit (0x80 :: u32) n \<longleftrightarrow> n = 7" "bit (0x80 :: u8) n \<longleftrightarrow> n = 7" "bit (0x80 :: nat) n \<longleftrightarrow> n = 7" "bit (0x80 :: int) n \<longleftrightarrow> n = 7"
proof -
  have "bit ((2 :: u32) ^ 7) n \<longleftrightarrow> n = 7" "bit ((2 :: u8) ^ 7) n \<longleftrightarrow> n = 7" by (auto simp only: bit_exp_iff possible_bit_def) auto
  moreover have "bit ((2 :: nat) ^ 7) n \<longleftrightarrow> n = 7" "bit ((2 :: int) ^ 7) n \<longleftrightarrow> n = 7" by (auto simp only: bit_exp_iff possible_bit_def) auto
  ultimately show "bit (0x80 :: u32) n \<longleftrightarrow> n = 7" "bit (0x80 :: u8) n \<longleftrightarrow> n = 7" "bit (0x80 :: nat) n \<longleftrightarrow> n = 7"
    "bit (0x80 :: int) n \<longleftrightarrow> n = 7" by simp_all
qed

lemma bit7_le: "bit b 7 \<Longrightarrow> 0x80 \<le> b" for b :: u8
proof (rule ccontr)
  assume "bit b 7" and "\<not> 0x80 \<le> b"
  then have "bit (unat b) 7" "unat b < 128" by (simp_all add: bit_unsigned_iff word_le_nat_alt)
  then show False by (simp add: bit_iff_odd)
qed

lemma unat_drop7: "unat (drop_bit 7 u) = unat u div 2 ^ 7" for u :: u32
  by (simp add: drop_bit_eq_div unat_div)

lemma uleb_byte:
  "ucast (ucast v AND 0x7f :: u8) = v AND 0x7f" "(ucast ((v AND 0x7f) OR 0x80) :: u8) \<ge> 0x80"
  "ucast ((ucast ((v AND 0x7f) OR 0x80) :: u8) AND 0x7f) = v AND 0x7f"
  "ucast (ucast ((v AND 0x7f) OR 0x80) :: u8) AND 0x7f = v AND 0x7f" for v :: u32
proof -
  show a: "ucast (ucast v AND 0x7f :: u8) = v AND 0x7f" "ucast ((ucast ((v AND 0x7f) OR 0x80) :: u8) AND 0x7f) = v AND 0x7f"
    "ucast (ucast ((v AND 0x7f) OR 0x80) :: u8) AND 0x7f = v AND 0x7f"
    unfolding uleb_masks(1,2) by (rule bit_word_eqI; auto simp: bit_simps bit_0x80)+
  have "bit (ucast ((v AND 0x7f) OR 0x80) :: u8) 7" by (simp add: bit_simps bit_0x80)
  then show "(ucast ((v AND 0x7f) OR 0x80) :: u8) \<ge> 0x80" by (rule bit7_le)
qed

lemma uleb_split: "push_bit n (v AND 0x7f) OR push_bit (n + 7) (drop_bit 7 v) = push_bit n v" for v :: u32
proof (rule bit_word_eqI)
  fix m assume m: "m < LENGTH(32)"
  have "7 + (m - (n + 7)) = m - n" if "n \<le> m" "\<not> m - n < 7" using that by simp
  then show "bit (push_bit n (v AND 0x7f) OR push_bit (n + 7) (drop_bit 7 v)) m = bit (push_bit n v) m"
    unfolding uleb_masks using m by (cases "m - n < 7") (auto simp: bit_simps)
qed

lemma uleb_small: "\<not> v \<ge> 0x80 \<Longrightarrow> v AND 0x7f = v \<and> \<not> (ucast v :: u8) \<ge> 0x80" for v :: u32
proof -
  assume "\<not> v \<ge> 0x80"
  then have lt: "unat v < 2 ^ 7" by (simp add: word_le_nat_alt)
  have "v AND 0x7f = take_bit 7 v" by (simp only: uleb_masks take_bit_eq_mask)
  also have "\<dots> = v" using lt by (rule take_bit_small)
  finally have a: "v AND 0x7f = v" .
  have "unat (ucast v :: u8) = unat v" using lt by (simp add: unsigned_ucast_eq take_bit_nat_eq_self)
  then show ?thesis using a lt by (simp add: word_le_nat_alt)
qed

lemma ruleb_loop_ok:
  "unat v < 2 ^ (25 - sh) \<Longrightarrow> sh < 25 \<Longrightarrow> ruleb_loop sh x (lj_strfmt_wuleb128 v @ rest) = Done (x OR push_bit (sh + 7) v, rest)"
proof (induction v arbitrary: sh x rule: lj_strfmt_wuleb128.induct)
  case (1 v)
  show ?case
  proof (cases "v \<ge> 0x80")
    case False
    with uleb_small [OF this] "1.prems" show ?thesis by (subst lj_strfmt_wuleb128.simps) (simp add: Let_def uleb_byte)
  next
    case True
    have "128 \<le> unat v" using True by (simp add: word_le_nat_alt)
    then have "(2::nat) ^ 7 < 2 ^ (25 - sh)" using "1.prems" by simp
    then have s: "7 < 25 - sh" by (simp only: power_strict_increasing_iff)
    have "unat v < 2 ^ (25 - (sh + 7)) * 2 ^ 7" using "1.prems"(1) s unfolding power_add [symmetric] by simp
    then have "unat (drop_bit 7 v) < 2 ^ (25 - (sh + 7))" by (simp add: unat_drop7 div_less_iff_less_mult)
    then have ih: "ruleb_loop (sh + 7) y (lj_strfmt_wuleb128 (drop_bit 7 v) @ rest) = Done (y OR push_bit (sh + 7 + 7) (drop_bit 7 v), rest)" for y
      using s by (intro "1.IH" [OF True]) auto
    define b where "b = (ucast ((v AND 0x7f) OR 0x80) :: u8)"
    have b: "b \<ge> 0x80" "ucast (b AND 0x7f) = v AND 0x7f" unfolding b_def by (rule uleb_byte)+
    have "lj_strfmt_wuleb128 v = b # lj_strfmt_wuleb128 (drop_bit 7 v)" using True by (simp only: lj_strfmt_wuleb128.simps [of v] b_def if_True)
    then have "ruleb_loop sh x (lj_strfmt_wuleb128 v @ rest) = ruleb_loop (sh + 7) (x OR push_bit (sh + 7) (v AND 0x7f)) (lj_strfmt_wuleb128 (drop_bit 7 v) @ rest)"
    proof -
      have "sh + 7 < 32" using s by linarith
      then show ?thesis using b(1) \<open>lj_strfmt_wuleb128 v = _\<close> by (simp only: append_Cons ruleb_loop.simps b(2) Let_def) simp
    qed
    then show ?thesis by (simp only: ih or.assoc uleb_split)
  qed
qed

text \<open>C19. ULEB128 is a round trip: reading what \<^verbatim>\<open>lj_strfmt_wuleb128\<close> wrote gives the number and the bytes that
  follow it, for every 32 bit number; at most five bytes are written, which is what the callers reserve.\<close>

theorem uleb128_roundtrip:
  "lj_buf_ruleb128 (lj_strfmt_wuleb128 v @ rest) = Done (v, rest) \<and> length (lj_strfmt_wuleb128 v) \<le> 5"
proof -
  have len: "0 < i \<Longrightarrow> unat u < 2 ^ (7 * i) \<Longrightarrow> length (lj_strfmt_wuleb128 u) \<le> i" for i u
  proof (induction i arbitrary: u)
    case (Suc i)
    show ?case
    proof (cases "u \<ge> 0x80")
      case True
      then have i: "0 < i" using Suc.prems by (cases i) (auto simp: word_le_nat_alt)
      have "unat u < 2 ^ (7 * i) * 2 ^ 7" using Suc.prems(2) by (simp add: power_add mult.commute)
      then have "unat (drop_bit 7 u) < 2 ^ (7 * i)" by (simp add: unat_drop7 div_less_iff_less_mult)
      from Suc.IH [OF i this] True show ?thesis by (subst lj_strfmt_wuleb128.simps) simp
    qed (subst lj_strfmt_wuleb128.simps, simp)
  qed simp
  have "unat v < 2 ^ 32" using unsigned_less [of v] by simp
  then have l: "length (lj_strfmt_wuleb128 v) \<le> 5" by (intro len) auto
  show ?thesis
  proof (cases "v \<ge> 0x80")
    case False
    then have "take_bit 8 v = v" by (intro take_bit_small) (simp add: word_le_nat_alt)
    then have "ucast (ucast v :: u8) = v" by (simp only: unsigned_ucast_eq) simp
    with uleb_small [OF False] l False show ?thesis by (simp add: lj_strfmt_wuleb128.simps [of v])
  next
    case True
    have "unat v < 2 ^ 25 * 2 ^ 7" using unsigned_less [of v] by simp
    then have "unat (drop_bit 7 v) < 2 ^ (25 - 0)" by (simp add: unat_drop7 div_less_iff_less_mult)
    note l2 = ruleb_loop_ok [OF this, of "v AND 0x7f" rest]
    define b where "b = (ucast ((v AND 0x7f) OR 0x80) :: u8)"
    have b: "b \<ge> 0x80" "ucast b AND 0x7f = v AND 0x7f" unfolding b_def by (rule uleb_byte)+
    have "lj_strfmt_wuleb128 v = b # lj_strfmt_wuleb128 (drop_bit 7 v)" using True by (simp only: lj_strfmt_wuleb128.simps [of v] b_def if_True)
    then have "lj_buf_ruleb128 (lj_strfmt_wuleb128 v @ rest) = Done ((v AND 0x7f) OR push_bit (0 + 7) (drop_bit 7 v), rest)"
      using b l2 by simp
    then show ?thesis using uleb_split [of 0 v] l by simp
  qed
qed


end
