(* ===== verification/StrfmtInt.thy ===== *)
theory StrfmtInt
  imports StrfmtLaws
begin

text \<open>
  The formatted conversion of integers, \<^verbatim>\<open>lj_strfmt_putfxint\<close>, against a description of what a format means,
  and the other formatted conversions.
\<close>

section \<open>Flags as bits\<close>

lemma and_bit: "a AND 2 ^ n = 0 \<longleftrightarrow> \<not> bit a n" if "n < 32" for a :: u32
proof -
  have "a AND 2 ^ n = (if bit a n then 2 ^ n else 0)"
    by (rule bit_word_eqI) (use that in \<open>auto simp: bit_simps\<close>)
  moreover have "(2 :: u32) ^ n \<noteq> 0" using that by (simp add: exp_eq_zero_iff)
  ultimately show ?thesis by simp
qed

lemma and_bits:
  fixes a :: u32
  assumes "m < 32" and "n < 32" and "m \<noteq> n"
  shows "a AND (2 ^ m OR 2 ^ n) = 0 \<longleftrightarrow> \<not> bit a m \<and> \<not> bit a n" and "a AND (2 ^ m OR 2 ^ n) = 2 ^ n \<longleftrightarrow> \<not> bit a m \<and> bit a n"
    and "a AND (2 ^ m OR 2 ^ n) = 2 ^ m OR 2 ^ n \<longleftrightarrow> bit a m \<and> bit a n"
proof -
  have b: "bit (a AND (2 ^ m OR 2 ^ n)) i \<longleftrightarrow> bit a i \<and> (i = m \<or> i = n)" "bit ((2 :: u32) ^ n) i \<longleftrightarrow> i = n"
    "bit ((2 :: u32) ^ m OR 2 ^ n) i \<longleftrightarrow> i = m \<or> i = n" for i
    using assms by (auto simp: bit_simps)
  show "a AND (2 ^ m OR 2 ^ n) = 0 \<longleftrightarrow> \<not> bit a m \<and> \<not> bit a n" unfolding bit_eq_iff [of "a AND (2 ^ m OR 2 ^ n)"] b bit_0_eq using assms by auto
  show "a AND (2 ^ m OR 2 ^ n) = 2 ^ n \<longleftrightarrow> \<not> bit a m \<and> bit a n" unfolding bit_eq_iff [of "a AND (2 ^ m OR 2 ^ n)"] b using assms by auto
  show "a AND (2 ^ m OR 2 ^ n) = 2 ^ m OR 2 ^ n \<longleftrightarrow> bit a m \<and> bit a n" unfolding bit_eq_iff [of "a AND (2 ^ m OR 2 ^ n)"] b using assms by auto
qed

lemma flag_pow: "STRFMT_T_HEX = 2 ^ 4" "STRFMT_T_OCT = 2 ^ 5" "STRFMT_F_LEFT = 2 ^ 8" "STRFMT_F_PLUS = 2 ^ 9" "STRFMT_F_ZERO = 2 ^ 10"
  "STRFMT_F_SPACE = 2 ^ 11" "STRFMT_F_ALT = 2 ^ 12" "STRFMT_F_UPPER = 2 ^ 13"
  by (simp_all add: STRFMT_T_HEX_def STRFMT_T_OCT_def STRFMT_F_LEFT_def STRFMT_F_PLUS_def STRFMT_F_ZERO_def STRFMT_F_SPACE_def
    STRFMT_F_ALT_def STRFMT_F_UPPER_def)

lemma flag_bits:
  "sf AND STRFMT_T_HEX = 0 \<longleftrightarrow> \<not> bit sf 4" "sf AND STRFMT_T_OCT = 0 \<longleftrightarrow> \<not> bit sf 5" "sf AND STRFMT_F_LEFT = 0 \<longleftrightarrow> \<not> bit sf 8"
  "sf AND STRFMT_F_PLUS = 0 \<longleftrightarrow> \<not> bit sf 9" "sf AND STRFMT_F_ZERO = 0 \<longleftrightarrow> \<not> bit sf 10" "sf AND STRFMT_F_SPACE = 0 \<longleftrightarrow> \<not> bit sf 11"
  "sf AND STRFMT_F_ALT = 0 \<longleftrightarrow> \<not> bit sf 12" "sf AND STRFMT_F_UPPER = 0 \<longleftrightarrow> \<not> bit sf 13"
  "sf AND (STRFMT_F_LEFT OR STRFMT_F_ZERO) = 0 \<longleftrightarrow> \<not> bit sf 8 \<and> \<not> bit sf 10"
  "sf AND (STRFMT_F_LEFT OR STRFMT_F_ZERO) = STRFMT_F_ZERO \<longleftrightarrow> \<not> bit sf 8 \<and> bit sf 10"
  "sf AND (STRFMT_T_OCT OR STRFMT_F_ALT) = STRFMT_T_OCT OR STRFMT_F_ALT \<longleftrightarrow> bit sf 5 \<and> bit sf 12"
  "sf AND (STRFMT_T_HEX OR STRFMT_T_OCT) = 0 \<longleftrightarrow> \<not> bit sf 4 \<and> \<not> bit sf 5"
  unfolding flag_pow by (subst and_bit and_bits; simp)+

lemma clear_zero: "bit (sf AND NOT STRFMT_F_ZERO) n \<longleftrightarrow> n \<noteq> 10 \<and> bit sf n" if "n < 32"
proof -
  have "bit ((2 :: u32) ^ 10) n \<longleftrightarrow> n = 10" by (auto simp only: bit_exp_iff possible_bit_def) auto
  then show ?thesis using that by (simp only: flag_pow bit_and_iff bit_not_iff possible_bit_def) auto
qed

section \<open>Digits\<close>

lemma digits_step: "1 < b \<Longrightarrow> b \<le> n \<Longrightarrow> digits b up n = digits b up (n div b) @ [digit up (n mod b)]"
  by (subst digits.simps) simp

lemma digits_last: "1 < b \<Longrightarrow> n < b \<Longrightarrow> digits b up n = [digit up n]"
  by (subst digits.simps) simp

lemma ucast_byte64: "m < 256 \<Longrightarrow> ucast (word_of_nat m :: u64) = (word_of_nat m :: u8)"
  by (simp add: unsigned_of_nat take_bit_nat_eq_self)

lemma ucast_small64: "n < 10 \<Longrightarrow> ucast (word_of_nat n :: u64) = (word_of_nat n :: u32)"
  by (simp add: unsigned_of_nat take_bit_nat_eq_self)

lemma word_mod_num:
  "k mod 10 = word_of_nat (unat k mod 10)" "j mod 10 = word_of_nat (unat j mod 10)" "k AND 15 = word_of_nat (unat k mod 16)"
  "k AND 7 = word_of_nat (unat k mod 8)" for k :: u64 and j :: u32
proof -
  have u: "unat (k mod 10) = unat k mod 10" "unat (j mod 10) = unat j mod 10" by (simp_all add: unat_mod)
  show "k mod 10 = word_of_nat (unat k mod 10)" "j mod 10 = word_of_nat (unat j mod 10)"
    by (simp_all only: u [symmetric] unat_word_of_nat_id)
  have m: "(15 :: u64) = mask 4" "(7 :: u64) = mask 3" by (simp_all add: mask_eq_exp_minus_1)
  have v: "unat (k AND 15) = unat k mod 16" "unat (k AND 7) = unat k mod 8"
    unfolding m take_bit_eq_mask [symmetric] by (simp_all only: unsigned_take_bit_eq take_bit_eq_mod) (simp_all add: unat_mod)
  show "k AND 15 = word_of_nat (unat k mod 16)" "k AND 7 = word_of_nat (unat k mod 8)"
    by (simp_all only: v [symmetric] unat_word_of_nat_id)
qed

lemma dec_digits:
  "ucast (48 + k mod 10) = digit False (unat k mod 10)" "ucast (48 + j mod 10) = digit False (unat j mod 10)"
  "ucast (48 + (ucast (k AND 7) :: u32)) = digit False (unat k mod 8)" for k :: u64 and j :: u32
proof -
  have d: "d < 10 \<Longrightarrow> ucast (48 + word_of_nat d :: u64) = digit False d" for d
    using ucast_byte64 [of "48 + d"] by (simp add: digit_def)
  have "unat k mod 10 < 10" "unat j mod 10 < 10" "unat k mod 8 < 8" by simp_all
  then show "ucast (48 + k mod 10) = digit False (unat k mod 10)" "ucast (48 + j mod 10) = digit False (unat j mod 10)"
    "ucast (48 + (ucast (k AND 7) :: u32)) = digit False (unat k mod 8)"
    unfolding word_mod_num by (simp_all add: d digit_small ucast_small64)
qed

lemma hexdigit_digit: "hexdigit up (k AND 15) = digit up (unat k mod 16)" for k :: u64
proof -
  have "hexdigit up (word_of_nat d) = digit up d" if "d < 16" for d
  proof -
    have "unat (word_of_nat d :: u64) = d" using that by (simp add: unat_of_nat take_bit_nat_eq_self)
    then have lt: "(word_of_nat d :: u64) < 10 \<longleftrightarrow> d < 10" by (simp add: word_less_nat_alt)
    show ?thesis using that ucast_byte64 [of "48 + d"] ucast_byte64 [of "(if up then 55 else 87) + d"]
      by (auto simp: hexdigit_def digit_def lt split: if_splits)
  qed
  then show ?thesis unfolding word_mod_num by simp
qed

section \<open>The digit loops\<close>

lemma xint_dec32: "xint_dec32 k q = digits 10 False (unat k) @ q"
proof (induction k q rule: xint_dec32.induct)
  case (1 k q)
  have z: "k div 10 = 0 \<longleftrightarrow> unat k < 10" 
  proof -
    have "unat (k div 10) = unat k div 10" by (simp add: unat_div)
    then show ?thesis by (metis unsigned_eq_0_iff div_eq_0_iff zero_neq_numeral)
  qed
  show ?case
  proof (cases "unat k < 10")
    case True
    then show ?thesis using z by (simp add: xint_dec32.simps [of k q] Let_def dec_digits digits_last)
  next
    case False
    then show ?thesis using z "1.IH" [OF refl]
      by (simp add: xint_dec32.simps [of k q] Let_def dec_digits digits_step unat_div)
  qed
qed

lemma xint_dec64: "(case xint_dec64 k q of (k', q') \<Rightarrow> xint_dec32 (ucast k') q') = digits 10 False (unat k) @ q"
proof (induction k q rule: xint_dec64.induct)
  case (1 k q)
  show ?case
  proof (cases "drop_bit 32 k = 0")
    case True
    have "unat (drop_bit 32 k) = unat k div 2 ^ 32" by (simp add: drop_bit_eq_div unat_div)
    then have "unat k < 2 ^ 32" using True by (simp add: div_eq_0_iff)
    then have "unat (ucast k :: u32) = unat k" by (simp add: unsigned_ucast_eq take_bit_nat_eq_self)
    then show ?thesis using True by (simp add: xint_dec64.simps [of k q] xint_dec32)
  next
    case False
    have "unat (drop_bit 32 k) = unat k div 2 ^ 32" by (simp add: drop_bit_eq_div unat_div)
    then have "unat k div 2 ^ 32 \<noteq> 0" using False by (metis unsigned_eq_0_iff)
    then have "10 \<le> unat k" by (simp add: div_eq_0_iff)
    then show ?thesis using False "1.IH" [OF False]
      by (simp add: xint_dec64.simps [of k q] dec_digits digits_step unat_div)
  qed
qed

lemma unat_drop34: "unat (drop_bit 4 k) = unat k div 16" "unat (drop_bit 3 k) = unat k div 8" for k :: u64
  by (simp_all add: drop_bit_eq_div unat_div)

lemma xint_hex: "xint_hex up k q = digits 16 up (unat k) @ q"
proof (induction up k q rule: xint_hex.induct)
  case (1 up k q)
  have z: "drop_bit 4 k = 0 \<longleftrightarrow> unat k < 16" using unat_drop34(1) [of k] by (metis unsigned_eq_0_iff div_eq_0_iff zero_neq_numeral)
  show ?case
  proof (cases "unat k < 16")
    case True
    then show ?thesis using z by (simp add: xint_hex.simps [of up k q] Let_def hexdigit_digit digits_last)
  next
    case False
    then show ?thesis using z "1.IH" [OF refl]
      by (simp add: xint_hex.simps [of up k q] Let_def hexdigit_digit digits_step unat_drop34)
  qed
qed

lemma xint_oct: "xint_oct k q = digits 8 False (unat k) @ q"
proof (induction k q rule: xint_oct.induct)
  case (1 k q)
  have z: "drop_bit 3 k = 0 \<longleftrightarrow> unat k < 8" using unat_drop34(2) [of k] by (metis unsigned_eq_0_iff div_eq_0_iff zero_neq_numeral)
  show ?case
  proof (cases "unat k < 8")
    case True
    then show ?thesis using z by (simp add: xint_oct.simps [of k q] Let_def dec_digits digits_last)
  next
    case False
    then show ?thesis using z "1.IH" [OF refl]
      by (simp add: xint_oct.simps [of k q] Let_def dec_digits digits_step unat_drop34)
  qed
qed

section \<open>The meaning of an integer format\<close>

text \<open>Magnitude and base, precision (plus one, zero when absent), minimal width and flags, over natural numbers: digits,
  zeros up to the precision, a prefix of base or sign, and padding to the width.\<close>

definition printf_int :: "SFormat \<Rightarrow> u64 \<Rightarrow> bytes" where
  "printf_int sf k =
     (let signed = (STRFMT_TYPE sf = STRFMT_INT);
          n = (if signed then nat \<bar>sint k\<bar> else unat k);
          hex = bit sf 4; oct = bit sf 5; left = bit sf 8; plus = bit sf 9; zero = bit sf 10; space = bit sf 11;
          alt = bit sf 12; up = bit sf 13;
          P = unat (drop_bit STRFMT_SH_PREC sf AND 255); W = unat (STRFMT_WIDTH sf);
          num = (if n = 0 \<and> P = 1 then [] else digits (if hex then 16 else if oct then 8 else 10) (hex \<and> up) n);
          num = (if oct \<and> alt \<and> (num = [] \<or> n \<noteq> 0 \<and> \<not> hex) then 48 # num else num);
          sgn = (if signed \<and> sint k < 0 then [45] else if signed \<and> plus then [43] else if signed \<and> space then [32] else []);
          prefix = (if n \<noteq> 0 \<and> hex \<and> alt then [48, if up then 88 else 120] else sgn);
          zeros = replicate (P - 1 - length num) 48;
          pad = W - length (prefix @ zeros @ num)
      in if left then prefix @ zeros @ num @ replicate pad 32
         else if zero \<and> P = 0 then prefix @ replicate pad 48 @ zeros @ num
         else replicate pad 32 @ prefix @ zeros @ num)"

section \<open>The fields of a format\<close>

lemma unat_and_255: "unat (x AND 255 :: u32) \<le> 255"
  using word_and_le1 [of x 255] by (simp add: word_le_nat_alt)

lemma width_le: "unat (STRFMT_WIDTH sf) \<le> 255"
  unfolding STRFMT_WIDTH_def by (rule unat_and_255)

lemma sint_of_small: "n < 2 ^ 31 \<Longrightarrow> sint (word_of_nat n :: u32) = int n"
  by (simp add: signed_of_nat signed_take_bit_int_eq_self)

lemma prec_cases:
  fixes sf :: SFormat
  defines "P \<equiv> unat (drop_bit STRFMT_SH_PREC sf AND 255)"
  shows "P = 0 \<and> STRFMT_PREC sf = - 1 \<or> 0 < P \<and> P \<le> 255 \<and> unat (STRFMT_PREC sf) = P - 1 \<and> sint (STRFMT_PREC sf) = int (P - 1)"
proof -
  define x where "x = drop_bit STRFMT_SH_PREC sf AND 255"
  have e: "STRFMT_PREC sf = word_of_nat P - 1" unfolding STRFMT_PREC_def P_def by simp
  have b: "P \<le> 255" unfolding P_def by (rule unat_and_255)
  show ?thesis
  proof (cases "P = 0")
    case False
    then have w: "STRFMT_PREC sf = word_of_nat (P - 1)" by (simp add: e of_nat_diff)
    have "P - 1 < 2 ^ 32" "P - 1 < 2 ^ 31" using b by auto
    then have "unat (STRFMT_PREC sf) = P - 1" "sint (STRFMT_PREC sf) = int (P - 1)" unfolding w by (simp_all only: unat32 sint_of_small)
    then show ?thesis using False b by simp
  qed (use e in simp)
qed

lemma length_num:
  assumes "n < 2 ^ 64"
  shows "length (digits (if hex then 16 else if oct then 8 else 10) up n) \<le> 22"
proof -
  have a: "length (digits 10 up n) \<le> 20" "length (digits 16 up n) \<le> 16" "length (digits 8 up n) \<le> 22"
    using assms by (auto intro!: length_digits)
  then show ?thesis by auto
qed

section \<open>The conversion means what the format says\<close>

lemma xint_sign_eq:
  "\<exists>K. xint_sign sf k = (K, if STRFMT_TYPE sf = STRFMT_INT \<and> sint k < 0 then 256 + 45
        else if STRFMT_TYPE sf = STRFMT_INT \<and> bit sf 9 then 256 + 43 else if STRFMT_TYPE sf = STRFMT_INT \<and> bit sf 11 then 256 + 32 else 0) \<and>
     unat K = (if STRFMT_TYPE sf = STRFMT_INT then nat \<bar>sint k\<bar> else unat k)"
  using unat_abs_word [of k] by (auto simp: xint_sign_def flag_bits)

lemma xint_digits_eq:
  fixes sf :: SFormat and K :: u64
  defines "P \<equiv> unat (drop_bit STRFMT_SH_PREC sf AND 255)" and "n \<equiv> unat K"
  assumes f: "\<And>i. i < 32 \<Longrightarrow> i \<noteq> 10 \<Longrightarrow> bit sf' i = bit sf i"
  shows "xint_digits sf' (STRFMT_PREC sf) K p =
    (let num = (if n = 0 \<and> P = 1 then [] else digits (if bit sf 4 then 16 else if bit sf 5 then 8 else 10) (bit sf 4 \<and> bit sf 13) n)
     in (if bit sf 5 \<and> bit sf 12 \<and> (num = [] \<or> n \<noteq> 0 \<and> \<not> bit sf 4) then 48 # num else num,
         if n \<noteq> 0 \<and> bit sf 4 \<and> bit sf 12 then 512 + (if bit sf 13 then 88 else 120) else p))"
proof -
  have P: "STRFMT_PREC sf \<noteq> 0 \<longleftrightarrow> P \<noteq> 1"
  proof (cases "P = 0")
    case True
    then show ?thesis using prec_cases [of sf] unfolding P_def [symmetric] by auto
  next
    case False
    then have "unat (STRFMT_PREC sf) = P - 1" using prec_cases [of sf] unfolding P_def [symmetric] by auto
    moreover have "STRFMT_PREC sf = 0 \<longleftrightarrow> unat (STRFMT_PREC sf) = 0" by (simp add: unsigned_eq_0_iff)
    ultimately show ?thesis using False by auto
  qed
  have z: "K = 0 \<longleftrightarrow> n = 0" by (simp add: n_def unsigned_eq_0_iff)
  have d0: "digits b up 0 = [48]" if "1 < b" for b up using that by (simp add: digits_last digit_def)
  have f4: "bit sf' 4 = bit sf 4" "bit sf' 5 = bit sf 5" "bit sf' 12 = bit sf 12" "bit sf' 13 = bit sf 13" by (simp_all add: f)
  have ne: "digits b up m \<noteq> []" for b up m by (subst digits.simps) simp
  show ?thesis
  proof (cases "n = 0")
    case True
    then show ?thesis using z by (simp add: xint_digits_def P flag_bits f4 d0 Let_def)
  next
    case False
    have K: "K \<noteq> 0" using z False by simp
    have d: "xint_digits sf' (STRFMT_PREC sf) K p =
      (if \<not> bit sf 4 \<and> \<not> bit sf 5 then (digits 10 False n, p)
       else if bit sf 4 then (digits 16 (bit sf 13) n, if bit sf 12 then 512 + (if bit sf 13 then 88 else 120) else p)
       else (if bit sf 12 then 48 # digits 8 False n else digits 8 False n, p))"
      using xint_dec64 [of K "[]"] by (simp only: xint_digits_def flag_bits f4 K if_False Let_def xint_hex xint_oct n_def append_Nil2 not_not)
    show ?thesis using False ne
      by (cases "bit sf 4"; cases "bit sf 5"; cases "bit sf 12"; cases "bit sf 13") (simp_all add: d Let_def)
  qed
qed

text \<open>The bytes that \<^verbatim>\<open>lj_strfmt_putfxint\<close> writes for a prefix, digits and field sizes.\<close>

definition xint_layout :: "SFormat \<Rightarrow> u32 \<Rightarrow> u32 \<Rightarrow> u32 \<Rightarrow> bytes \<Rightarrow> bytes" where
  "xint_layout sf prefix width prec q =
     (let len = word_of_nat (length q); pprec = prec + drop_bit 8 prefix
      in (if sf AND (STRFMT_F_LEFT OR STRFMT_F_ZERO) = 0 then padding width pprec 32 else []) @
         (if prefix \<noteq> 0 then (if ucast prefix \<ge> (88 :: u8) then [48] else []) @ [ucast prefix] else []) @
         (if sf AND (STRFMT_F_LEFT OR STRFMT_F_ZERO) = STRFMT_F_ZERO then padding width pprec 48 else []) @
         padding prec len 48 @ q @
         (if sf AND STRFMT_F_LEFT \<noteq> 0 then padding width pprec 32 else []))"

lemma layout_eq:
  assumes p: "pb = (if prefix \<noteq> 0 then (if ucast prefix \<ge> (88 :: u8) then [48] else []) @ [ucast prefix] else [])"
    and l: "drop_bit 8 prefix = word_of_nat (length pb)" "length pb \<le> 2" and q: "length q \<le> 23"
    and pr: "unat prec = max (length q) M" "M \<le> 255" and w: "unat width \<le> 255"
  defines "pad \<equiv> unat width - length (pb @ replicate (M - length q) 48 @ q)"
  shows "xint_layout sf prefix width prec q =
      (if bit sf 8 then pb @ replicate (M - length q) 48 @ q @ replicate pad 32
       else if bit sf 10 then pb @ replicate pad 48 @ replicate (M - length q) 48 @ q
       else replicate pad 32 @ pb @ replicate (M - length q) 48 @ q)"
    and "unat (if width > prec + drop_bit 8 prefix then width else prec + drop_bit 8 prefix) = length (xint_layout sf prefix width prec q)"
proof -
  have u: "unat (word_of_nat (length pb) :: u32) = length pb" "unat (word_of_nat (length q) :: u32) = length q" using l q by (intro unat32; simp)+
  have pp: "unat (prec + drop_bit 8 prefix) = max (length q) M + length pb"
    using l q pr by (subst unat_plus32) (auto simp: u)
  have a: "padding prec (word_of_nat (length q)) 48 = replicate (M - length q) 48" by (simp add: padding_def u pr)
  have b: "padding width (prec + drop_bit 8 prefix) c = replicate pad c" for c by (simp add: padding_def pp pad_def)
  show e: "xint_layout sf prefix width prec q =
      (if bit sf 8 then pb @ replicate (M - length q) 48 @ q @ replicate pad 32
       else if bit sf 10 then pb @ replicate pad 48 @ replicate (M - length q) 48 @ q
       else replicate pad 32 @ pb @ replicate (M - length q) 48 @ q)"
    unfolding xint_layout_def Let_def a b p [symmetric] flag_bits by auto
  have "length (xint_layout sf prefix width prec q) = pad + (length pb + (M - length q) + length q)" unfolding e by auto
  moreover have "unat (if width > prec + drop_bit 8 prefix then width else prec + drop_bit 8 prefix) = max (unat width) (max (length q) M + length pb)"
    by (auto simp: word_less_nat_alt pp)
  ultimately show "unat (if width > prec + drop_bit 8 prefix then width else prec + drop_bit 8 prefix) = length (xint_layout sf prefix width prec q)"
    by (auto simp: pad_def max_def)
qed

lemma putfxint_eq:
  "\<exists>need. lj_strfmt_putfxint env sb sf k = cbind (lj_buf_more env sb need) (lj_buf_wmem (printf_int sf k)) \<and>
     unat need = length (printf_int sf k)"
proof -
  define P n where "P = unat (drop_bit STRFMT_SH_PREC sf AND 255)" and "n = (if STRFMT_TYPE sf = STRFMT_INT then nat \<bar>sint k\<bar> else unat k)"
  define sgn where "sgn = (if STRFMT_TYPE sf = STRFMT_INT \<and> sint k < 0 then [45] else if STRFMT_TYPE sf = STRFMT_INT \<and> bit sf 9 then [43]
      else if STRFMT_TYPE sf = STRFMT_INT \<and> bit sf 11 then [32] else [] :: bytes)"
  define p0 where "p0 = (if STRFMT_TYPE sf = STRFMT_INT \<and> sint k < 0 then 256 + 45
        else if STRFMT_TYPE sf = STRFMT_INT \<and> bit sf 9 then 256 + 43 else if STRFMT_TYPE sf = STRFMT_INT \<and> bit sf 11 then 256 + 32 else 0 :: u32)"
  define sf' where "sf' = (if 0 \<le> sint (STRFMT_PREC sf) then sf AND NOT STRFMT_F_ZERO else sf)"
  define num0 where "num0 = (if n = 0 \<and> P = 1 then [] else digits (if bit sf 4 then 16 else if bit sf 5 then 8 else 10) (bit sf 4 \<and> bit sf 13) n)"
  define num where "num = (if bit sf 5 \<and> bit sf 12 \<and> (num0 = [] \<or> n \<noteq> 0 \<and> \<not> bit sf 4) then 48 # num0 else num0)"
  define pfx where "pfx = (if n \<noteq> 0 \<and> bit sf 4 \<and> bit sf 12 then 512 + (if bit sf 13 then 88 else 120) else p0)"
  define pb where "pb = (if n \<noteq> 0 \<and> bit sf 4 \<and> bit sf 12 then [48, if bit sf 13 then 88 else 120] else sgn)"
  obtain K where K: "xint_sign sf k = (K, p0)" "unat K = n" using xint_sign_eq [of sf k] unfolding p0_def n_def by blast
  have f: "bit sf' i = bit sf i" if "i < 32" "i \<noteq> 10" for i using that by (simp add: sf'_def clear_zero)
  have dg: "xint_digits sf' (STRFMT_PREC sf) K p0 = (num, pfx)"
    unfolding pfx_def num_def num0_def P_def K(2) [symmetric] by (subst xint_digits_eq [where sf = sf]) (auto simp: f Let_def)
  have n64: "n < 2 ^ 64" using unsigned_less [where ?'a = nat, of K] K(2) by simp
  have ln: "length num \<le> 23" using length_num [OF n64, of "bit sf 4" "bit sf 5" "bit sf 4 \<and> bit sf 13"] by (auto simp: num_def num0_def)
  have ul: "unat (word_of_nat (length num) :: u32) = length num" "sint (word_of_nat (length num) :: u32) = int (length num)"
    using ln by (auto intro!: unat32 sint_of_small)
  define prec where "prec = (if sint (word_of_nat (length num) :: u32) \<ge> sint (STRFMT_PREC sf) then word_of_nat (length num) else STRFMT_PREC sf)"
  have pr: "unat prec = max (length num) (P - 1)" "P - 1 \<le> 255" "0 \<le> sint (STRFMT_PREC sf) \<longleftrightarrow> P \<noteq> 0"
    using prec_cases [of sf] unfolding P_def [symmetric]
    by (auto simp: prec_def ul sint_of_small unat32)
  have b10: "bit sf' 10 \<longleftrightarrow> bit sf 10 \<and> P = 0" using pr(3) clear_zero [of 10 sf] by (auto simp: sf'_def)
  have b8: "bit sf' 8 = bit sf 8" by (simp add: f)
  have pbeq: "pb = (if pfx \<noteq> 0 then (if ucast pfx \<ge> (88 :: u8) then [48] else []) @ [ucast pfx] else [])"
    "drop_bit 8 pfx = word_of_nat (length pb)" "length pb \<le> 2"
    unfolding pb_def pfx_def p0_def sgn_def by auto
  note lay = layout_eq [OF pbeq ln pr(1,2) width_le [of sf], of sf']
  have tx: "xint_layout sf' pfx (STRFMT_WIDTH sf) prec num = printf_int sf k"
    unfolding lay(1) printf_int_def Let_def b8 b10 P_def [symmetric] n_def [symmetric] num0_def [symmetric] num_def [symmetric] sgn_def [symmetric] pb_def [symmetric]
    by simp
  have w: "STRFMT_WIDTH sf' = STRFMT_WIDTH sf" 
  proof -
    have z: "bit (NOT STRFMT_F_ZERO) (16 + i)" if "i < 8" for i using that clear_zero [of "16 + i" "- 1"] by simp
    have m: "(255 :: u32) = mask 8" by (simp add: mask_eq_exp_minus_1)
    show ?thesis unfolding STRFMT_WIDTH_def sf'_def m STRFMT_SH_WIDTH_def
      by (rule bit_word_eqI) (auto simp: bit_and_iff bit_drop_bit_eq bit_mask_iff z)
  qed
  have "lj_strfmt_putfxint env sb sf k = cbind (lj_buf_more env sb (if STRFMT_WIDTH sf > prec + drop_bit 8 pfx then STRFMT_WIDTH sf else prec + drop_bit 8 pfx))
      (lj_buf_wmem (xint_layout sf' pfx (STRFMT_WIDTH sf) prec num))"
    using ln unfolding lj_strfmt_putfxint_def Let_def K(1) prod.case sf'_def [symmetric] dg prec_def [symmetric] w xint_layout_def
    by (simp add: STRFMT_MAXBUF_XINT_def)
  then show ?thesis using lay(2) tx by auto
qed

text \<open>C21. \<^verbatim>\<open>lj_strfmt_putfxint\<close> implements the format: for every format word and every 64 bit number it appends
  the text that the format denotes (base, sign or base prefix, precision, minimal width, justification, zero padding):
  it makes room for exactly the length of the text and writes it, which can fail only for lack of memory; the fixed buffer
  for the digits never overflows.\<close>

theorem putfxint_printf:
  assumes "buf_inv sb"
  shows "\<exists>need. unat need = length (printf_int sf k) \<and>
    lj_strfmt_putfxint env sb sf k = cbind (lj_buf_more env sb need) (lj_buf_wmem (printf_int sf k)) \<and>
    yields (lj_strfmt_putfxint env sb sf k) (\<lambda>sb'. buf_inv sb' \<and> content sb' = content sb @ printf_int sf k) (\<lambda>e. e = LJ_ERR_ERRMEM)"
proof -
  obtain need where n: "lj_strfmt_putfxint env sb sf k = cbind (lj_buf_more env sb need) (lj_buf_wmem (printf_int sf k))"
    "unat need = length (printf_int sf k)" using putfxint_eq by blast
  have i: "sb_wf sb" "pow_sized sb" using assms by (simp_all add: buf_inv_def)
  have "yields (lj_strfmt_putfxint env sb sf k) (appended sb (printf_int sf k)) (\<lambda>e. e = LJ_ERR_ERRMEM)"
    unfolding n(1) using i n(2) by (intro put_ok wmem_fits) (simp_all add: pow_sized_roomy)
  then have "yields (lj_strfmt_putfxint env sb sf k) (\<lambda>sb'. buf_inv sb' \<and> content sb' = content sb @ printf_int sf k)
      (\<lambda>e. e = LJ_ERR_ERRMEM)"
    by (rule yields_mono) (auto simp: appended_def buf_inv_def i)
  with n show ?thesis by blast
qed

text \<open>\<^verbatim>\<open>string.format("%+06d", -42)\<close>.\<close>

lemma putfxint_printf_witness:
  "\<exists>need. unat need = 6 \<and>
     lj_strfmt_putfxint env_all lj_buf_init (STRFMT_D OR STRFMT_F_PLUS OR STRFMT_F_ZERO OR push_bit 16 6) (- 42) =
       cbind (lj_buf_more env_all lj_buf_init need) (lj_buf_wmem [45, 48, 48, 48, 52, 50]) \<and>
     yields (lj_strfmt_putfxint env_all lj_buf_init (STRFMT_D OR STRFMT_F_PLUS OR STRFMT_F_ZERO OR push_bit 16 6) (- 42))
       (\<lambda>sb'. buf_inv sb' \<and> content sb' = [45, 48, 48, 48, 52, 50]) (\<lambda>e. e = LJ_ERR_ERRMEM)"
proof -
  have p: "printf_int (STRFMT_D OR STRFMT_F_PLUS OR STRFMT_F_ZERO OR push_bit 16 6) (- 42) = [45, 48, 48, 48, 52, 50]"
    by code_simp
  have l: "length [45, 48, 48, 48, 52, 50 :: u8] = 6" by simp
  show ?thesis using putfxint_printf [OF init_inv, of "STRFMT_D OR STRFMT_F_PLUS OR STRFMT_F_ZERO OR push_bit 16 6" "- 42" env_all]
    unfolding p l init_content append_Nil .
qed

end
