(* ===== verification/StrfmtOut.thy ===== *)
theory StrfmtOut
  imports StrfmtInt
begin

text \<open>
  The other conversions of \<^verbatim>\<open>src/src/lj_strfmt.c\<close>: padded strings and characters, quoted strings, pointers,
  and the progress of the format parser.
\<close>

section \<open>Padding\<close>

text \<open>What \<^verbatim>\<open>%s\<close> and \<^verbatim>\<open>%c\<close> denote: the text, cut to the precision, justified in the field.\<close>

definition justify :: "SFormat \<Rightarrow> bytes \<Rightarrow> bytes" where
  "justify sf q =
     (let pad = replicate (unat (STRFMT_WIDTH sf) - length q) 32 in if bit sf 8 then q @ pad else pad @ q)"

definition printf_str :: "SFormat \<Rightarrow> bytes \<Rightarrow> bytes" where
  "printf_str sf s =
     (let P = unat (drop_bit STRFMT_SH_PREC sf AND 255) in justify sf (if P = 0 then s else take (P - 1) s))"

lemma length_justify: "length (justify sf q) = max (unat (STRFMT_WIDTH sf)) (length q)"
  by (auto simp: justify_def Let_def)

lemma max_word: "unat (if a > b then a else b :: u32) = max (unat a) (unat b)"
  by (auto simp: word_less_nat_alt)

lemma putfchar_ok:
  assumes "sb_wf sb" and "roomy sb"
  shows "yields (lj_strfmt_putfchar env sb sf c) (appended sb (justify sf [ucast c])) (\<lambda>e. e = LJ_ERR_ERRMEM)"
proof -
  let ?w = "STRFMT_WIDTH sf"
  have t: "(if sf AND STRFMT_F_LEFT \<noteq> 0 then [ucast c] else []) @ padding ?w 1 32 @ (if sf AND STRFMT_F_LEFT \<noteq> 0 then [] else [ucast c])
      = justify sf [ucast c]"
    by (simp add: justify_def padding_def flag_bits Let_def)
  have n: "length (justify sf [ucast c]) \<le> unat (if ?w > 1 then ?w else 1)"
    unfolding max_word length_justify by simp
  show ?thesis unfolding lj_strfmt_putfchar_def Let_def t
    by (rule put_ok [OF assms n]) (rule wmem_fits)
qed

lemma putfstr_ok:
  assumes "sb_wf sb" and "roomy sb" and "length s \<le> LJ_MAX_STR"
  shows "yields (strfmt_putfstrlen env sb sf s) (appended sb (printf_str sf s)) (\<lambda>e. e = LJ_ERR_ERRMEM)"
proof -
  define P where "P = unat (drop_bit STRFMT_SH_PREC sf AND 255)"
  define q where "q = (if P = 0 then s else take (P - 1) s)"
  define len where "len = (if word_of_nat (length s) > STRFMT_PREC sf then STRFMT_PREC sf else word_of_nat (length s))"
  let ?w = "STRFMT_WIDTH sf"
  have u: "unat (word_of_nat (length s) :: u32) = length s" by (rule unat_length [OF assms(3)])
  have ul: "unat len = length q" and tk: "take (unat len) s = q"
  proof -
    have "unat len = length q \<and> take (unat len) s = q"
    proof (cases "P = 0")
      case True
      then have "STRFMT_PREC sf = - 1" using prec_cases [of sf] unfolding P_def [symmetric] by auto
      then have "len = word_of_nat (length s)" by (simp add: len_def)
      then show ?thesis using True by (simp add: u q_def)
    next
      case False
      then have "unat (STRFMT_PREC sf) = P - 1" using prec_cases [of sf] unfolding P_def [symmetric] by auto
      then show ?thesis using False by (auto simp: len_def word_less_nat_alt u q_def)
    qed
    then show "unat len = length q" "take (unat len) s = q" by blast+
  qed
  have t: "(if sf AND STRFMT_F_LEFT \<noteq> 0 then q else []) @ padding ?w len 32 @ (if sf AND STRFMT_F_LEFT \<noteq> 0 then [] else q) = justify sf q"
    by (simp add: justify_def padding_def flag_bits Let_def ul)
  have n: "length (justify sf q) \<le> unat (if ?w > len then ?w else len)"
    unfolding max_word length_justify by (simp add: ul)
  have e: "printf_str sf s = justify sf q" by (simp add: printf_str_def q_def P_def Let_def)
  show ?thesis unfolding strfmt_putfstrlen_def Let_def len_def [symmetric] tk t e
    by (rule put_ok [OF assms(1,2) n]) (rule wmem_fits)
qed

lemma putint_ok:
  assumes "sb_wf sb" and "roomy sb"
  shows "yields (lj_strfmt_putint env sb k) (appended sb (lj_strfmt_wint k)) (\<lambda>e. e = LJ_ERR_ERRMEM)"
proof -
  have "length (lj_strfmt_wint k) \<le> unat (word_of_nat STRFMT_MAXBUF_INT :: u32)"
    using wint_len [of k] by (simp add: STRFMT_MAXBUF_INT_def)
  then show ?thesis unfolding lj_strfmt_putint_def by (rule put_ok [OF assms]) (rule wmem_fits)
qed

section \<open>Pointers\<close>

lemma length_ptr_digits: "length (ptr_digits n x acc) = n + length acc"
  by (induction n arbitrary: x acc) simp_all

lemma fls_le: "lj_fls h \<le> 31"
proof (cases "unat h = 0")
  case False
  then have "2 ^ fls_nat (unat h) \<le> unat h" using fls_nat_bounds [of "unat h"] by simp
  then have "(2::nat) ^ fls_nat (unat h) < 2 ^ 32" using unsigned_less [where ?'a = nat, of h] by simp
  then have "fls_nat (unat h) < 32" by (rule power_less_imp_less_exp [rotated]) simp
  then show ?thesis by (simp add: lj_fls_def)
qed (simp add: lj_fls_def fls_nat.simps)

text \<open>What \<^verbatim>\<open>%p\<close> denotes: \<^verbatim>\<open>NULL\<close>, or the address in base 16 with leading zeros up to whole bytes, of which there are at
  least four.\<close>

definition ptr_text :: "nat \<Rightarrow> bytes" where
  "ptr_text n =
     (if n = 0 then [78, 85, 76, 76]
      else let d = digits 16 False n; w = max 8 (2 * ((length d + 1) div 2))
           in [48, 120] @ replicate (w - length d) 48 @ d)"

text \<open>The lowest \<open>i\<close> digits.\<close>

fun hpad :: "nat \<Rightarrow> nat \<Rightarrow> bytes" where
  "hpad 0 n = []"
| "hpad (Suc i) n = hpad i (n div 16) @ [digit False (n mod 16)]"

lemma hpad_0: "hpad i 0 = replicate i 48"
  by (induction i) (simp_all add: digit_def replicate_append_same flip: replicate_Suc)

lemma hpad_digits: "n < 16 ^ i \<Longrightarrow> 0 < i \<Longrightarrow> hpad i n = replicate (i - length (digits 16 False n)) 48 @ digits 16 False n"
proof (induction i arbitrary: n)
  case (Suc i)
  show ?case
  proof (cases "n < 16")
    case True
    then show ?thesis by (simp add: hpad_0 digits.simps [of 16 False n])
  next
    case False
    then have "0 < i" using Suc.prems by (cases i) auto
    moreover have "n div 16 < 16 ^ i" using Suc.prems by (simp add: div_less_iff_less_mult mult.commute)
    ultimately have "hpad i (n div 16) = replicate (i - length (digits 16 False (n div 16))) 48 @ digits 16 False (n div 16)"
      using Suc.IH by simp
    then show ?thesis using False by (simp add: digits.simps [of 16 False n])
  qed
qed simp

lemma and15_shift: "m < 16 \<Longrightarrow> signed_drop_bit (4 * m) v AND 15 = drop_bit (4 * m) v AND 15" for v :: u64
proof -
  assume m: "m < 16"
  have "x AND 15 = take_bit 4 x" for x :: u64 by (simp add: take_bit_eq_mask mask_eq_exp_minus_1)
  moreover have "take_bit 4 (signed_drop_bit (4 * m) v) = take_bit 4 (drop_bit (4 * m) v)"
    using m by (intro bit_word_eqI) (auto simp: bit_simps)
  ultimately show ?thesis by simp
qed

lemma length_digits_ge: "2 \<le> b \<Longrightarrow> b ^ i \<le> n \<Longrightarrow> i < length (digits b up n)"
proof (induction i arbitrary: n)
  case 0
  show ?case by (simp add: digits.simps [of b up n])
next
  case (Suc i)
  have "1 \<le> b ^ i" using Suc.prems by simp
  then have "b * 1 \<le> b * b ^ i" by (rule mult_le_mono2)
  then have "\<not> n < b" using Suc.prems(2) unfolding power_Suc by linarith
  moreover have "b ^ i \<le> n div b" using Suc.prems by (simp add: less_eq_div_iff_mult_less_eq mult.commute)
  ultimately show ?case using Suc.IH Suc.prems(1) by (simp add: digits.simps [of b up n])
qed

lemma ptr_digits_eq: "i + m \<le> 16 \<Longrightarrow> ptr_digits i (signed_drop_bit (4 * m) v) acc = hpad i (unat v div 16 ^ m) @ acc"
proof (induction i arbitrary: m acc)
  case (Suc i)
  have s: "signed_drop_bit 4 (signed_drop_bit (4 * m) v) = signed_drop_bit (4 * Suc m) v" by (simp add: signed_drop_bit_signed_drop_bit ac_simps)
  have d: "unat (drop_bit (4 * m) v) = unat v div 16 ^ m" 
  proof -
    have "take_bit 64 (unat v) = unat v" using unsigned_less [where ?'a = nat, of v] by (simp add: take_bit_nat_eq_self)
    then have "unat (drop_bit (4 * m) v) = drop_bit (4 * m) (unat v)" by (simp add: unsigned_drop_bit_eq)
    then show ?thesis by (simp add: drop_bit_eq_div power_mult)
  qed
  have "hexdigit False (signed_drop_bit (4 * m) v AND 15) = digit False (unat v div 16 ^ m mod 16)"
    using Suc.prems by (simp add: and15_shift hexdigit_digit d)
  moreover have "unat v div 16 ^ m div 16 = unat v div 16 ^ Suc m" by (simp only: div_mult2_eq [symmetric] power_Suc2)
  ultimately show ?case using Suc.IH [of "Suc m"] Suc.prems by (simp add: s)
qed simp

lemma wptr_text: "lj_strfmt_wptr v = ptr_text (unat v)"
proof (cases "v = 0")
  case False
  then have nz: "unat v \<noteq> 0" by (simp add: unsigned_eq_0_iff)
  define h where "h = (ucast (signed_drop_bit 32 v) :: u32)"
  have h: "unat h = unat v div 2 ^ 32"
  proof -
    have "h = ucast (drop_bit 32 v)" unfolding h_def by (rule bit_word_eqI) (auto simp: bit_simps)
    then have "unat h = take_bit 32 (unat (drop_bit 32 v))" by (simp add: unsigned_ucast_eq unsigned_take_bit_eq)
    moreover have "unat (drop_bit 32 v) = unat v div 2 ^ 32" by (simp add: drop_bit_eq_div unat_div)
    moreover have "unat v div 2 ^ 32 < 2 ^ 32" using unsigned_less [where ?'a = nat, of v] by (simp add: div_less_iff_less_mult)
    ultimately show ?thesis by (simp add: take_bit_nat_eq_self)
  qed
  have hz: "signed_drop_bit 32 v = 0 \<longleftrightarrow> unat v < 2 ^ 32"
  proof
    assume "signed_drop_bit 32 v = 0"
    then have "h = 0" by (simp add: h_def)
    then show "unat v < 2 ^ 32" using h by (simp add: div_eq_0_iff)
  next
    assume a: "unat v < 2 ^ 32"
    have "\<not> bit v n" if "32 \<le> n" for n
      using that by (metis a bit_take_bit_iff linorder_not_less take_bit_small)
    then show "signed_drop_bit 32 v = 0" by (intro bit_word_eqI) (auto simp: bit_simps)
  qed
  define d where "d = digits 16 False (unat v)"
  have p: "lj_strfmt_wptr v = [48, 120] @ hpad (8 + (if unat v < 2 ^ 32 then 0 else 2 + 2 * (lj_fls h div 8))) (unat v)"
    using False fls_le [of h] ptr_digits_eq [of _ 0 v "[]"] by (simp add: lj_strfmt_wptr_def hz h_def [symmetric] Let_def)
  have pw: "(16 :: nat) ^ i = 2 ^ (4 * i)" for i by (simp add: power_mult)
  have pad: "hpad w (unat v) = replicate (w - length d) 48 @ d" if "unat v < 16 ^ i" "i \<le> w" "0 < w" for i w
  proof -
    have "(16 :: nat) ^ i \<le> 16 ^ w" using that(2) by (rule power_increasing) simp
    then show ?thesis unfolding d_def using that by (intro hpad_digits) linarith+
  qed
  show ?thesis
  proof (cases "unat v < 2 ^ 32")
    case True
    then have l: "length d \<le> 8" unfolding d_def by (intro length_digits) simp_all
    have "unat v < 16 ^ 8" using True by simp
    moreover have "max 8 (2 * ((length d + 1) div 2)) = 8" using l by (simp add: max_def) presburger
    ultimately show ?thesis using pad [of 8 8] True nz unfolding p by (simp add: ptr_text_def d_def [symmetric] Let_def)
  next
    case big: False
    define f where "f = lj_fls h"
    have "0 < unat h" using h big by (simp add: div_greater_zero_iff)
    then have f: "2 ^ f \<le> unat h" "unat h < 2 ^ Suc f" unfolding f_def lj_fls_def by (rule fls_nat_bounds [THEN conjunct1], rule fls_nat_bounds [THEN conjunct2])
    have "2 ^ f * 2 ^ 32 \<le> unat v" using f(1) unfolding h by (simp add: less_eq_div_iff_mult_less_eq)
    moreover have "unat v < 2 ^ Suc f * 2 ^ 32" using f(2) unfolding h by (simp add: div_less_iff_less_mult)
    ultimately have v: "2 ^ (f + 32) \<le> unat v" "unat v < 2 ^ (f + 33)" by (simp_all add: power_add)
    have "(2 :: nat) ^ (4 * (8 + f div 4)) \<le> 2 ^ (f + 32)" "(2 :: nat) ^ (f + 33) \<le> 2 ^ (4 * (9 + f div 4))"
      by (rule power_increasing; simp; presburger)+
    then have b: "16 ^ (8 + f div 4) \<le> unat v" "unat v < 16 ^ (9 + f div 4)" unfolding pw using v by linarith+
    have "length d = 9 + f div 4" using length_digits_ge [OF _ b(1), of False] length_digits [OF _ _ b(2), of False] by (simp add: d_def)
    moreover have "2 * ((9 + f div 4 + 1) div 2) = 10 + 2 * (f div 8)" "9 + f div 4 \<le> 10 + 2 * (f div 8)" by presburger+
    ultimately show ?thesis
      unfolding p using big nz pad [OF b(2), of "10 + 2 * (f div 8)"] by (simp add: ptr_text_def d_def [symmetric] f_def [symmetric] Let_def max_def)
  qed
qed (simp add: lj_strfmt_wptr_def ptr_text_def)

lemma putptr_ok:
  assumes "sb_wf sb" and "roomy sb"
  shows "yields (lj_strfmt_putptr env sb v) (appended sb (lj_strfmt_wptr v)) (\<lambda>e. e = LJ_ERR_ERRMEM)"
proof -
  note f = fls_le
  have "length (lj_strfmt_wptr v) \<le> 18"
    using f [of "ucast (signed_drop_bit 32 v)"] by (simp add: lj_strfmt_wptr_def Let_def length_ptr_digits) presburger
  then have "length (lj_strfmt_wptr v) \<le> unat (word_of_nat STRFMT_MAXBUF_PTR :: u32)" by (simp add: STRFMT_MAXBUF_PTR_def)
  then show ?thesis unfolding lj_strfmt_putptr_def by (rule put_ok [OF assms]) (rule wmem_fits)
qed

section \<open>Quoted strings\<close>

text \<open>What \<^verbatim>\<open>%q\<close> denotes between the quotes: a backslash before quotes, backslashes and newlines; for the other control
  characters a backslash and the decimal code, which has three digits if a digit follows; and every other character itself.\<close>

definition quoted_char :: "u8 \<Rightarrow> bool \<Rightarrow> bytes" where
  "quoted_char c digit_follows =
     (if c = 34 \<or> c = 92 \<or> c = 10 then [92, c]
      else if unat c < 32 \<or> unat c = 127 then
        let d = digits 10 False (unat c) in 92 # (if digit_follows then replicate (3 - length d) 48 else []) @ d
      else [c])"

fun quoted :: "bytes \<Rightarrow> bytes" where
  "quoted [] = []"
| "quoted (c # s) = quoted_char c (s \<noteq> [] \<and> 48 \<le> unat (hd s) \<and> unat (hd s) \<le> 57) @ quoted s"

text \<open>The escapes of the code for control characters, with three digits and with as many as there are.\<close>

definition esc3 :: "u32 \<Rightarrow> bytes" where
  "esc3 c = (let h = ucast (48 + (if c \<ge> 100 then 1 else 0 :: u32)); c = (if c \<ge> 100 then c - 100 else c);
     d = drop_bit 11 (c * 205); c = c - d * 10 in [92, h, ucast (48 + d), ucast (c + 48)])"

definition esc :: "u32 \<Rightarrow> bytes" where
  "esc c = (if c \<ge> 100 then esc3 c
     else if c \<ge> 10 then let d = drop_bit 11 (c * 205); c = c - d * 10 in [92, ucast (48 + d), ucast (c + 48)]
     else [92, ucast (c + 48)])"

lemma esc_table:
  "list_all (\<lambda>n. esc3 (word_of_nat n) = 92 # (let d = digits 10 False n in replicate (3 - length d) 48 @ d) \<and>
     esc (word_of_nat n) = 92 # digits 10 False n) (127 # [0..<32])"
  by code_simp

lemma ucast8_eq: "(ucast (c :: u8) :: u32) = ucast d \<longleftrightarrow> c = d"
proof
  assume e: "(ucast c :: u32) = ucast d"
  show "c = d"
  proof (rule bit_word_eqI)
    fix n assume "n < LENGTH(8)"
    moreover have "bit (ucast c :: u32) n = bit (ucast d :: u32) n" using e by simp
    ultimately show "bit c n = bit d n" by (simp add: bit_simps)
  qed
qed simp

lemma ucast8_back: "ucast (ucast c :: u32) = c" for c :: u8
  by (rule bit_word_eqI) (simp add: bit_simps)

lemma ucast8_num: "ucast c = (34 :: u32) \<longleftrightarrow> c = 34" "ucast c = (92 :: u32) \<longleftrightarrow> c = 92" "ucast c = (10 :: u32) \<longleftrightarrow> c = 10" for c :: u8
  using ucast8_eq [of c 34] ucast8_eq [of c 92] ucast8_eq [of c 10] by simp_all

lemma quote_char_eq: "quote_char c n = quoted_char c (48 \<le> unat n \<and> unat n \<le> 57)"
proof (cases "c \<noteq> 34 \<and> c \<noteq> 92 \<and> c \<noteq> 10 \<and> (unat c < 32 \<or> unat c = 127)")
  case True
  have e: "(ucast c :: u32) = word_of_nat (unat c)" by simp
  have t: "esc3 (ucast c) = 92 # (let d = digits 10 False (unat c) in replicate (3 - length d) 48 @ d)"
    "esc (ucast c) = 92 # digits 10 False (unat c)"
    using esc_table True unfolding e list_all_iff by (metis atLeast_upt lessThan_iff list.set_intros(1,2))+
  have ne: "ucast c \<noteq> (34 :: u32)" "ucast c \<noteq> (92 :: u32)" "ucast c \<noteq> (10 :: u32)" using True by (simp_all add: ucast8_num)
  have "quote_char c n = (if 48 \<le> unat n \<and> unat n \<le> 57 then esc3 (ucast c) else esc (ucast c))"
    using True ne unfolding quote_char_def esc3_def esc_def Let_def by (auto simp: iscntrl_iff isdigit_iff)
  then show ?thesis using True by (auto simp: t quoted_char_def Let_def)
next
  case False
  then show ?thesis unfolding quote_char_def quoted_char_def Let_def by (auto simp: iscntrl_iff ucast8_num ucast8_back)
qed

lemma length_quote_char: "length (quote_char c n) \<le> 4"
  by (simp add: quote_char_def Let_def)

lemma puts_quote_loop: "puts (quoted s) (quote_loop env s)"
proof (induction s)
  case (Cons c s)
  define q where "q = quote_char c (case s of [] \<Rightarrow> 0 | n # _ \<Rightarrow> n)"
  have e: "q = quoted_char c (s \<noteq> [] \<and> 48 \<le> unat (hd s) \<and> unat (hd s) \<le> 57)"
    unfolding q_def quote_char_eq by (cases s) simp_all
  have "puts (q @ quoted s) (\<lambda>sb. cbind (cbind (lj_buf_more env sb 4) (lj_buf_wmem q)) (quote_loop env s))"
    using Cons length_quote_char by (intro puts_intros puts_more) (simp_all add: q_def)
  then show ?case by (simp add: puts_def cbind_assoc q_def [symmetric]) (simp add: e)
qed (simp add: puts_def)

lemma puts_putb: "puts [c] (\<lambda>sb. lj_buf_putb env sb c)"
  unfolding lj_buf_putb_def by (intro puts_more puts_intros) simp

lemma puts_quoted: "puts (34 # quoted s @ [34]) (\<lambda>sb. strfmt_putquotedlen env sb s)"
proof -
  have "puts ([34] @ quoted s @ [34]) (\<lambda>sb. cbind (lj_buf_putb env sb 34) (\<lambda>sb. cbind (quote_loop env s sb) (\<lambda>sb. lj_buf_putb env sb 34)))"
    by (intro puts_intros puts_putb puts_quote_loop)
  then show ?thesis by (simp add: strfmt_putquotedlen_def)
qed

section \<open>The format parser makes progress\<close>

lemma parse_flags_le: "length (snd (parse_flags p sf)) \<le> length p"
proof (induction p arbitrary: sf)
  case (Cons c p)
  have "length (snd (parse_flags p x)) \<le> Suc (length p)" for x using Cons [of x] by simp
  then show ?case by auto
qed simp

lemma parse_width_le: "length (snd (parse_width p sf)) \<le> length p"
  by (auto simp: parse_width_def Let_def)

lemma parse_prec_le: "length (snd (parse_prec p sf)) \<le> length p"
  by (auto simp: parse_prec_def Let_def)

lemma parse_conv_progress: "p0 \<noteq> [] \<Longrightarrow> length (frest (parse_conv p0)) < length p0"
proof -
  assume ne: "p0 \<noteq> []"
  obtain sf1 p1 where 1: "parse_flags (tl p0) 0 = (sf1, p1)" by fastforce
  obtain sf2 p2 where 2: "parse_width p1 sf1 = (sf2, p2)" by fastforce
  obtain sf3 p3 where 3: "parse_prec p2 sf2 = (sf3, p3)" by fastforce
  have "length p3 \<le> length p2" "length p2 \<le> length p1" "length p1 \<le> length (tl p0)"
    using parse_prec_le [of p2 sf2] parse_width_le [of p1 sf1] parse_flags_le [of "tl p0" 0] by (simp_all add: 1 2 3)
  then have "length p3 < length p0" using ne by (cases p0) auto
  then have "length (tl p3) < length p0" "0 < length p0" by auto
  then show ?thesis by (simp add: parse_conv_def 1 2 3 Let_def)
qed

text \<open>The fields of the format word stay within their bits.\<close>

lemma parse_flags_fields: "drop_bit 16 sf = 0 \<Longrightarrow> take_bit 4 sf = 0 \<Longrightarrow>
    drop_bit 16 (fst (parse_flags p sf)) = 0 \<and> take_bit 4 (fst (parse_flags p sf)) = 0"
proof (induction p arbitrary: sf)
  case (Cons c p)
  have f: "drop_bit 16 x = 0 \<and> take_bit 4 x = 0" if "x \<in> {STRFMT_F_LEFT, STRFMT_F_PLUS, STRFMT_F_ZERO, STRFMT_F_SPACE, STRFMT_F_ALT}" for x
    using that unfolding STRFMT_F_LEFT_def STRFMT_F_PLUS_def STRFMT_F_ZERO_def STRFMT_F_SPACE_def STRFMT_F_ALT_def by auto
  have "drop_bit 16 (sf OR x) = 0" "take_bit 4 (sf OR x) = 0" if "x \<in> {STRFMT_F_LEFT, STRFMT_F_PLUS, STRFMT_F_ZERO, STRFMT_F_SPACE, STRFMT_F_ALT}" for x
    using Cons.prems f [OF that] by (simp_all only: drop_bit_or take_bit_or or.left_neutral)
  then show ?case using Cons.IH Cons.prems by simp
qed simp

definition field_ok :: "SFormat \<Rightarrow> nat \<Rightarrow> nat \<Rightarrow> bool" where
  "field_ok sf w q \<longleftrightarrow> unat (STRFMT_WIDTH sf) \<le> w \<and> unat (drop_bit STRFMT_SH_PREC sf AND 255) \<le> q \<and> take_bit 4 sf = 0"

lemma two_digits:
  fixes a b :: u32
  assumes "a < 10" and "b < 10"
  shows "unat (b + a * 10) \<le> 99"
proof -
  have "unat a < 10" "unat b < 10" using assms by (simp_all add: word_less_nat_alt)
  then have "unat (a * 10) = unat a * 10" by (simp add: unat_word_ariths)
  then show ?thesis using \<open>unat a < 10\<close> \<open>unat b < 10\<close> by (subst unat_plus32) auto
qed

lemma parse_width_fields:
  assumes "drop_bit 16 sf = 0" and "take_bit 4 sf = 0"
  shows "\<exists>w. unat w \<le> 99 \<and> fst (parse_width p sf) = sf OR push_bit 16 w"
proof (cases "peek p - 48 < 10")
  case True
  let ?a = "peek p - 48" and ?b = "peek (tl p) - 48"
  have "unat ?a \<le> 99" using True by (simp add: word_less_nat_alt)
  then show ?thesis using True two_digits [of ?a ?b]
    by (cases "?b < 10") (auto simp: parse_width_def Let_def STRFMT_SH_WIDTH_def)
next
  case False
  then show ?thesis by (intro exI [of _ 0]) (simp add: parse_width_def)
qed

lemma parse_prec_fields: "\<exists>q. unat q \<le> 100 \<and> fst (parse_prec p sf) = sf OR push_bit 24 q"
proof (cases "peek p = 46")
  case True
  let ?a = "peek (tl p) - 48" and ?b = "peek (tl (tl p)) - 48"
  define v where "v = (if ?a < 10 then if ?b < 10 then ?b + ?a * 10 else ?a else 0)"
  have "?a < 10 \<Longrightarrow> unat ?a \<le> 99" by (simp add: word_less_nat_alt)
  then have "unat v \<le> 99" using two_digits [of ?a ?b] by (simp add: v_def)
  then have "unat (v + 1) \<le> 100" by (subst unat_plus32) auto
  moreover have "fst (parse_prec p sf) = sf OR push_bit 24 (v + 1)"
    using True by (simp add: parse_prec_def Let_def STRFMT_SH_PREC_def v_def split_beta)
  ultimately show ?thesis by blast
next
  case False
  then show ?thesis by (intro exI [of _ 0]) (simp add: parse_prec_def)
qed

lemma map_types: "list_all (\<lambda>sx. sx = 0 \<or> sx AND 15 \<in> {3, 4, 5, 6, 7, 8} \<and> drop_bit 16 sx = 0 \<and> drop_bit 16 (sx OR STRFMT_F_UPPER) = 0) strfmt_map"
  by code_simp

lemma conv_fields:
  fixes sf0 w q x :: u32
  assumes "drop_bit 16 sf0 = 0" and "take_bit 4 sf0 = 0" and "unat w \<le> 99" and "unat q \<le> 100" and "drop_bit 16 x = 0"
  defines "sf \<equiv> sf0 OR push_bit 16 w OR push_bit 24 q OR x"
  shows "unat (STRFMT_WIDTH sf) \<le> 99" and "unat (drop_bit STRFMT_SH_PREC sf AND 255) \<le> 100" and "STRFMT_TYPE sf = x AND 15"
proof -
  have small: "bit y i \<Longrightarrow> i < 8" if "unat y \<le> 100" for y :: u32 and i
  proof -
    assume "bit y i"
    moreover have "take_bit 8 y = y" using that by (intro take_bit_small) simp
    ultimately show "i < 8" by (metis bit_take_bit_iff)
  qed
  have bw: "bit w i \<Longrightarrow> i < 8" and bq: "bit q i \<Longrightarrow> i < 8" for i using small [of w i] small [of q i] assms(3,4) by auto
  have m: "(255 :: u32) = mask 8" "(15 :: u32) = mask 4" by (simp_all add: mask_eq_exp_minus_1)
  have hi: "bit a (16 + i) = False" if "drop_bit 16 a = 0" for a :: u32 and i using arg_cong [OF that, of "\<lambda>v. bit v i"] by (simp add: bit_drop_bit_eq)
  have lo: "bit sf0 i = False" if "i < 4" for i using arg_cong [OF assms(2), of "\<lambda>v. bit v i"] that by (simp add: bit_take_bit_iff)
  have "STRFMT_WIDTH sf = w"
    unfolding STRFMT_WIDTH_def STRFMT_SH_WIDTH_def m sf_def
    by (rule bit_word_eqI) (auto simp: bit_simps hi [OF assms(1)] hi [OF assms(5)] dest: bw)
  then show "unat (STRFMT_WIDTH sf) \<le> 99" using assms(3) by simp
  have hi24: "bit a (24 + i) = False" if "drop_bit 16 a = 0" for a :: u32 and i using hi [OF that, of "8 + i"] by simp
  have "drop_bit 24 sf AND 255 = q"
    unfolding m sf_def
    by (rule bit_word_eqI) (auto simp: bit_simps hi24 [OF assms(1)] hi24 [OF assms(5)] dest: bw bq)
  then show "unat (drop_bit STRFMT_SH_PREC sf AND 255) \<le> 100" using assms(4) by (simp add: STRFMT_SH_PREC_def)
  show "STRFMT_TYPE sf = x AND 15"
    unfolding STRFMT_TYPE_def m sf_def by (rule bit_word_eqI) (auto simp: bit_simps lo)
qed

lemma parse_conv_fields:
  assumes "fsf (parse_conv p0) \<noteq> STRFMT_ERR"
  shows "unat (STRFMT_WIDTH (fsf (parse_conv p0))) \<le> 99 \<and> unat (drop_bit STRFMT_SH_PREC (fsf (parse_conv p0)) AND 255) \<le> 100 \<and>
    STRFMT_TYPE (fsf (parse_conv p0)) \<in> {3, 4, 5, 6, 7, 8}"
proof -
  obtain sf1 p1 where 1: "parse_flags (tl p0) 0 = (sf1, p1)" by fastforce
  obtain sf2 p2 where 2: "parse_width p1 sf1 = (sf2, p2)" by fastforce
  obtain sf3 p3 where 3: "parse_prec p2 sf2 = (sf3, p3)" by fastforce
  have f1: "drop_bit 16 sf1 = 0" "take_bit 4 sf1 = 0" using parse_flags_fields [of 0 "tl p0"] by (simp_all add: 1)
  obtain w where w: "unat w \<le> 99" "sf2 = sf1 OR push_bit 16 w" using parse_width_fields [OF f1, of p1] by (auto simp: 2)
  obtain q where q: "unat q \<le> 100" "sf3 = sf2 OR push_bit 24 q" using parse_prec_fields [of p2 sf2] by (auto simp: 3)
  define c where "c = peek p3 - 65"
  define sx where "sx = (if c \<le> 120 - 65 then strfmt_map ! unat c else 0)"
  have pc: "parse_conv p0 = (if sx \<noteq> 0 then \<lparr>fsf = sf3 OR sx OR (if c AND 0x20 \<noteq> 0 then 0 else STRFMT_F_UPPER), fstr = [], frest = tl p3\<rparr>
      else let p = (if peek p3 \<ge> 32 then tl p3 else p3) in \<lparr>fsf = STRFMT_ERR, fstr = take (length p0 - length p) p0, frest = []\<rparr>)"
    unfolding parse_conv_def 1 2 3 Let_def prod.case c_def sx_def by (rule refl)
  have nz: "sx \<noteq> 0" using assms by (auto simp: pc Let_def)
  then have "c \<le> 55" by (auto simp: sx_def split: if_splits)
  then have "unat c < length strfmt_map" by (simp add: strfmt_map_def word_le_nat_alt)
  then have sx: "sx AND 15 \<in> {3, 4, 5, 6, 7, 8}" "drop_bit 16 sx = 0" "drop_bit 16 (sx OR STRFMT_F_UPPER) = 0"
    using map_types nz \<open>c \<le> 55\<close> unfolding list_all_length sx_def by auto
  define x where "x = (if c AND 0x20 \<noteq> 0 then sx else sx OR STRFMT_F_UPPER)"
  have x: "drop_bit 16 x = 0" "x AND 15 = sx AND 15"
    using sx by (auto simp: x_def STRFMT_F_UPPER_def and.commute [of _ 15] bit.conj_disj_distrib)
  have "fsf (parse_conv p0) = sf1 OR push_bit 16 w OR push_bit 24 q OR x"
    using nz by (simp add: pc x_def w(2) q(2) or.assoc)
  then show ?thesis using conv_fields [OF f1 w(1) q(1) x(1)] x(2) sx(1) by simp
qed

lemma parse_loop_ok:
  fixes lit p
  defines "r \<equiv> parse_loop lit p"
  shows "(fsf r = STRFMT_EOF \<longrightarrow> lit = [] \<and> p = []) \<and>
    (p \<noteq> [] \<longrightarrow> length (frest r) < length lit + length p) \<and>
    (fsf r \<notin> {STRFMT_EOF, STRFMT_ERR, STRFMT_LIT} \<longrightarrow> unat (STRFMT_WIDTH (fsf r)) \<le> 99 \<and>
       unat (drop_bit STRFMT_SH_PREC (fsf r) AND 255) \<le> 100 \<and> STRFMT_TYPE (fsf r) \<in> {3, 4, 5, 6, 7, 8})"
  unfolding r_def
proof (induction lit p rule: parse_loop.induct)
  case (1 lit)
  then show ?case by (simp add: STRFMT_LIT_def STRFMT_EOF_def)
next
  case (2 lit c p)
  have ne: "fsf (parse_conv (c # p)) \<noteq> STRFMT_EOF"
    using parse_conv_fields [of "c # p"] by (cases "fsf (parse_conv (c # p)) = STRFMT_ERR") (auto simp: STRFMT_EOF_def STRFMT_ERR_def STRFMT_TYPE_def)
  show ?case
    using 2 ne parse_conv_fields [of "c # p"] parse_conv_progress [of "c # p"]
    by (auto simp: STRFMT_LIT_def STRFMT_EOF_def)
qed

text \<open>C22. The format parser makes progress and stays in its fields: it reports the end only for the empty
  rest of a format, otherwise it moves forward, so that a format is processed in finitely many calls, and the
  conversions it returns have one of the six types, a width of at most 99 and a precision of at most 99.\<close>

theorem strfmt_parse_bounds:
  "(fsf (lj_strfmt_parse p) = STRFMT_EOF \<longleftrightarrow> p = []) \<and>
   (p \<noteq> [] \<longrightarrow> length (frest (lj_strfmt_parse p)) < length p) \<and>
   (fsf (lj_strfmt_parse p) \<notin> {STRFMT_EOF, STRFMT_ERR, STRFMT_LIT} \<longrightarrow>
      unat (STRFMT_WIDTH (fsf (lj_strfmt_parse p))) \<le> 99 \<and> unat (STRFMT_PREC (fsf (lj_strfmt_parse p)) + 1) \<le> 100 \<and>
      STRFMT_TYPE (fsf (lj_strfmt_parse p)) \<in> {STRFMT_INT, STRFMT_UINT, STRFMT_NUM, STRFMT_STR, STRFMT_CHAR, STRFMT_PTR})"
  using parse_loop_ok [of "[]" p] unfolding lj_strfmt_parse_def STRFMT_PREC_def
  by (auto simp: STRFMT_INT_def STRFMT_UINT_def STRFMT_NUM_def STRFMT_STR_def STRFMT_CHAR_def STRFMT_PTR_def STRFMT_LIT_def STRFMT_EOF_def)

lemma strfmt_parse_bounds_witness:
  "length (frest (lj_strfmt_parse [37, 45, 53, 46, 50, 102, 33])) < 7 \<and> fsf (lj_strfmt_parse [37, 45, 53, 46, 50, 102, 33]) \<noteq> STRFMT_EOF \<and>
   unat (STRFMT_WIDTH (fsf (lj_strfmt_parse [37, 45, 53, 46, 50, 102, 33]))) \<le> 99"
proof -
  have "fsf (lj_strfmt_parse [37, 45, 53, 46, 50, 102, 33]) \<notin> {STRFMT_EOF, STRFMT_ERR, STRFMT_LIT}" by code_simp
  then show ?thesis using strfmt_parse_bounds [of "[37, 45, 53, 46, 50, 102, 33]"] by simp
qed

text \<open>C23. The other conversions append what their format denotes, in buffers of any size: integers in decimal,
  pointers in base 16, characters and strings cut to the precision and justified in the field, and strings between quotes
  with their special characters escaped.\<close>

theorem strfmt_outputs:
  assumes "length s \<le> LJ_MAX_STR"
  shows "puts ((if sint k < 0 then [45] else []) @ digits 10 False (nat \<bar>sint k\<bar>)) (\<lambda>sb. lj_strfmt_putint env sb k) \<and>
    puts (ptr_text (unat v)) (\<lambda>sb. lj_strfmt_putptr env sb v) \<and>
    puts (justify sf [ucast c]) (\<lambda>sb. lj_strfmt_putfchar env sb sf c) \<and> puts (printf_str sf s) (\<lambda>sb. strfmt_putfstrlen env sb sf s) \<and>
    puts (34 # quoted s @ [34]) (\<lambda>sb. strfmt_putquotedlen env sb s)"
  unfolding wint_eq [symmetric] wptr_text [symmetric]
  using puts_quoted by (auto intro!: puts_appended putint_ok putptr_ok putfchar_ok putfstr_ok assms)

lemma strfmt_outputs_witness:
  "puts [32, 32, 97, 98] (\<lambda>sb. strfmt_putfstrlen env_all sb (STRFMT_S OR push_bit 16 4 OR push_bit 24 3) [97, 98, 99])"
proof -
  have p: "printf_str (STRFMT_S OR push_bit 16 4 OR push_bit 24 3) [97, 98, 99] = [32, 32, 97, 98]" by code_simp
  have l: "length [97, 98, 99 :: u8] \<le> LJ_MAX_STR" by (simp add: LJ_MAX_STR_def LJ_MAX_MEM32_def)
  show ?thesis using strfmt_outputs [OF l, of 0 env_all 0 "STRFMT_S OR push_bit 16 4 OR push_bit 24 3" 0] unfolding p by blast
qed

end
