(* ===== verification/Prng.thy ===== *)
theory Prng
  imports Prelude
begin

text \<open>
  The pseudo-random number generator of \<^verbatim>\<open>src/src/lj_prng.c\<close>: four linear feedback shift registers whose
  outputs are combined by exclusive or. Seeding from the operating system is a parameter. The main result
  is that no register of a conditioned state ever degenerates.
\<close>

section \<open>The generator\<close>

record PRNGState =
  u0 :: u64
  u1 :: u64
  u2 :: u64
  u3 :: u64

definition TW223_GEN :: "nat \<Rightarrow> nat \<Rightarrow> nat \<Rightarrow> u64 \<Rightarrow> u64" where
  "TW223_GEN k q s z =
     drop_bit (k - s) (push_bit q z XOR z) XOR push_bit s (z AND push_bit (64 - k) (- 1))"

definition TW223_STEP :: "PRNGState \<Rightarrow> PRNGState \<times> u64" where
  "TW223_STEP rs =
     (let z0 = TW223_GEN 63 31 18 (u0 rs); r = 0 XOR z0;
          z1 = TW223_GEN 58 19 28 (u1 rs); r = r XOR z1;
          z2 = TW223_GEN 55 24 7 (u2 rs); r = r XOR z2;
          z3 = TW223_GEN 47 21 8 (u3 rs); r = r XOR z3
      in (\<lparr>u0 = z0, u1 = z1, u2 = z2, u3 = z3\<rparr>, r))"

definition lj_prng_u64 :: "PRNGState \<Rightarrow> PRNGState \<times> u64" where
  "lj_prng_u64 rs = TW223_STEP rs"

definition lj_prng_u64d :: "PRNGState \<Rightarrow> PRNGState \<times> u64" where
  "lj_prng_u64d rs =
     (let (rs, r) = TW223_STEP rs in (rs, (r AND 0x000fffffffffffff) OR 0x3ff0000000000000))"

definition lj_prng_condition :: "PRNGState \<Rightarrow> PRNGState" where
  "lj_prng_condition rs =
     (let rs = (if u0 rs < 2 then rs\<lparr>u0 := u0 rs + 2\<rparr> else rs);
          rs = (if u1 rs < 64 then rs\<lparr>u1 := u1 rs + 64\<rparr> else rs);
          rs = (if u2 rs < 512 then rs\<lparr>u2 := u2 rs + 512\<rparr> else rs)
      in if u3 rs < 131072 then rs\<lparr>u3 := u3 rs + 131072\<rparr> else rs)"

text \<open>Seeding: \<open>sys\<close> is what the operating system delivers, if anything.\<close>

definition lj_prng_seed_secure :: "PRNGState option \<Rightarrow> PRNGState option" where
  "lj_prng_seed_secure sys =
     (case sys of None \<Rightarrow> None | Some rs \<Rightarrow> Some (fst (lj_prng_u64 (lj_prng_condition rs))))"

definition lj_prng_seed_fixed :: PRNGState where
  "lj_prng_seed_fixed = \<lparr>u0 = 0xa0d277570a345b8c, u1 = 0x764a296c5d4aa64f, u2 = 0x51220704070adeaa, u3 = 0x2a2717b5a7b7b927\<rparr>"

section \<open>Registers do not degenerate\<close>

text \<open>Only the top \<open>k\<close> bits of a register count. They are a linear shift register: the step is injective on
  them, so a register that is not zero there never becomes zero.\<close>

definition alive :: "nat \<Rightarrow> u64 \<Rightarrow> bool" where
  "alive k z \<longleftrightarrow> drop_bit (64 - k) z \<noteq> 0"

definition prng_ok :: "PRNGState \<Rightarrow> bool" where
  "prng_ok rs \<longleftrightarrow> alive 63 (u0 rs) \<and> alive 58 (u1 rs) \<and> alive 55 (u2 rs) \<and> alive 47 (u3 rs)"

lemma bit_gen:
  assumes "s < k" and "k \<le> 64" and "j < 64"
  shows "bit (TW223_GEN k q s z) j \<longleftrightarrow>
     ((j + (k - s) < 64 \<and> (bit z (j + (k - s)) \<noteq> (q \<le> j + (k - s) \<and> bit z (j + (k - s) - q)))) \<noteq>
      (s \<le> j \<and> 64 - k \<le> j - s \<and> bit z (j - s)))"
  using assms bit_imp_le_length [of z "j + (k - s)"]
  by (auto simp: TW223_GEN_def bit_simps add.commute)

lemma gen_top_injective:
  assumes a: "0 < s" "s < k" "k \<le> 63" "0 < q" "64 - k \<le> k - s - q" "q < k - s"
    and z: "\<And>j. 64 - k \<le> j \<Longrightarrow> j < 64 \<Longrightarrow> bit (TW223_GEN k q s z) j = bit (TW223_GEN k q s y) j"
    and i: "64 - k \<le> i" "i < 64"
  shows "bit z i = bit y i"
  using i
proof (induction i rule: less_induct)
  case (less i)
  show ?case
  proof (cases "i < 64 - s")
    case True
    then have "\<not> i + s + (k - s) < 64" using a less.prems by simp
    moreover have "i + s < 64" "64 - k \<le> i + s" using True less.prems a by simp_all
    ultimately show ?thesis using z [of "i + s"] a less.prems by (simp add: bit_gen)
  next
    case False
    define j where "j = i - (k - s)"
    have j: "i = j + (k - s)" "j < 64" "64 - k \<le> j" using False a less.prems by (auto simp: j_def)
    have q: "q \<le> i" "64 - k \<le> i - q" "i - q < i" using j a by linarith+
    have rec: "bit z (i - q) = bit y (i - q)" using q less.prems by (intro less.IH) auto
    have sec: "bit z (j - s) = bit y (j - s)" if "64 - k \<le> j - s" "s \<le> j"
      using that j a by (intro less.IH) auto
    show ?thesis using z [OF j(3,2)] a j rec sec less.prems q
      by (auto simp: bit_gen)
  qed
qed

lemma drop_bit_zero_iff: "drop_bit n (z :: u64) = 0 \<longleftrightarrow> (\<forall>i. n \<le> i \<and> i < 64 \<longrightarrow> \<not> bit z i)"
proof
  assume 0: "drop_bit n z = 0"
  show "\<forall>i. n \<le> i \<and> i < 64 \<longrightarrow> \<not> bit z i"
  proof (intro allI impI)
    fix i assume "n \<le> i \<and> i < 64"
    moreover have "\<not> bit (drop_bit n z) (i - n)" unfolding 0 by simp
    ultimately show "\<not> bit z i" by (simp add: bit_simps)
  qed
next
  assume a: "\<forall>i. n \<le> i \<and> i < 64 \<longrightarrow> \<not> bit z i"
  show "drop_bit n z = 0"
  proof (rule bit_word_eqI)
    fix m assume "m < LENGTH(64)"
    show "bit (drop_bit n z) m = bit 0 m" using a bit_imp_le_length [of z "n + m"] by (auto simp: bit_simps)
  qed
qed

lemma gen_alive:
  assumes "0 < s" "s < k" "k \<le> 63" "0 < q" "64 - k \<le> k - s - q" "q < k - s" and "alive k z"
  shows "alive k (TW223_GEN k q s z)"
proof (rule ccontr)
  assume "\<not> alive k (TW223_GEN k q s z)"
  then have d: "\<not> bit (TW223_GEN k q s z) j" if "64 - k \<le> j" "j < 64" for j
    using that by (simp add: alive_def drop_bit_zero_iff)
  have z0: "\<not> bit (TW223_GEN k q s 0) j" if "j < 64" for j
    using that assms by (simp add: bit_gen)
  have "bit z i = bit (0 :: u64) i" if "64 - k \<le> i" "i < 64" for i
    by (rule gen_top_injective [OF assms(1-6) _ that(1,2)]) (use d z0 in auto)
  then show False using assms(7) by (simp add: alive_def drop_bit_zero_iff)
qed

lemma alive_le: "0 < k \<Longrightarrow> k \<le> 64 \<Longrightarrow> alive k z \<longleftrightarrow> 2 ^ (64 - k) \<le> unat z"
proof -
  assume "0 < k" "k \<le> 64"
  have "unat (drop_bit (64 - k) z) = unat z div 2 ^ (64 - k)" by (simp only: unat_drop_bit_eq drop_bit_nat_def)
  then show ?thesis by (simp add: alive_def div_eq_0_iff not_less flip: unat_eq_0)
qed

lemma condition_fields:
  "u0 (lj_prng_condition rs) = (if u0 rs < 2 then u0 rs + 2 else u0 rs)"
  "u1 (lj_prng_condition rs) = (if u1 rs < 64 then u1 rs + 64 else u1 rs)"
  "u2 (lj_prng_condition rs) = (if u2 rs < 512 then u2 rs + 512 else u2 rs)"
  "u3 (lj_prng_condition rs) = (if u3 rs < 131072 then u3 rs + 131072 else u3 rs)"
  by (simp_all add: lj_prng_condition_def)

lemma raise_low: "n \<le> 17 \<Longrightarrow> 2 ^ n \<le> unat (if z < word_of_nat (2 ^ n) then z + word_of_nat (2 ^ n) else z)"
  for z :: u64
proof -
  assume n: "n \<le> 17"
  have p: "(2::nat) ^ n \<le> 2 ^ 17" using n by (intro power_increasing) auto
  then have u: "unat (word_of_nat (2 ^ n) :: u64) = 2 ^ n"
    unfolding unat_of_nat by (intro mod_less) simp
  have l: "z < word_of_nat (2 ^ n) \<longleftrightarrow> unat z < 2 ^ n" by (simp only: word_less_nat_alt u)
  have w: "unat (z + word_of_nat (2 ^ n)) = unat z + 2 ^ n" if "unat z < 2 ^ n"
    using that p by (simp only: unat_word_ariths u) simp
  show ?thesis using l w by simp
qed

lemma condition_ok: "prng_ok (lj_prng_condition rs)"
  using raise_low [of 1 "u0 rs"] raise_low [of 6 "u1 rs"] raise_low [of 9 "u2 rs"] raise_low [of 17 "u3 rs"]
  unfolding prng_ok_def condition_fields by (simp add: alive_le split del: if_split cong: if_cong)

lemma fixed_ok: "prng_ok lj_prng_seed_fixed"
  by (simp add: prng_ok_def alive_le lj_prng_seed_fixed_def)

lemma step_ok: "prng_ok rs \<Longrightarrow> prng_ok (fst (TW223_STEP rs))"
  by (simp add: prng_ok_def TW223_STEP_def Let_def gen_alive)

lemma u64d_range: "0x3ff0000000000000 \<le> snd (lj_prng_u64d rs) \<and> snd (lj_prng_u64d rs) < 0x4000000000000000"
proof -
  define r where "r = snd (TW223_STEP rs) AND 0x000fffffffffffff"
  have m: "(0x000fffffffffffff :: u64) = mask 52" by (simp add: mask_eq_decr_exp)
  have b: "\<not> bit r i" if "52 \<le> i" for i using that by (simp add: r_def m bit_simps)
  have lt: "unat r < 2 ^ 52"
  proof -
    have "r = take_bit 52 r" by (rule bit_word_eqI) (use b in \<open>auto simp: bit_simps intro: leI\<close>)
    then have "unat r = take_bit 52 (unat r)" by (metis unsigned_take_bit_eq)
    then show ?thesis by (metis take_bit_nat_less_exp)
  qed
  have e: "(0x3ff0000000000000 :: u64) = push_bit 52 0x3ff" by simp
  have "r AND 0x3ff0000000000000 = 0"
  proof (rule bit_word_eqI)
    fix m assume "m < LENGTH(64)"
    show "bit (r AND 0x3ff0000000000000) m = bit 0 m"
      unfolding e using b [of m] by (simp only: bit_and_iff bit_push_bit_iff bit_0_eq bot_apply bot_bool_def) auto
  qed
  then have o: "r OR 0x3ff0000000000000 = r + 0x3ff0000000000000" by (simp add: disjunctive_add_eq_or)
  have s: "snd (lj_prng_u64d rs) = r + 0x3ff0000000000000"
    using o by (simp add: lj_prng_u64d_def r_def split_beta)
  have u: "unat (r + 0x3ff0000000000000) = unat r + 0x3ff0000000000000"
    using lt by (simp add: unat_word_ariths)
  show ?thesis
    using lt by (simp_all add: s word_le_nat_alt word_less_nat_alt u)
qed

text \<open>C27. The generator behind \<^verbatim>\<open>math.random\<close> and the string ids never degenerates: conditioning makes the bits
  that count non-zero in every register of an arbitrary state, the fixed seed has that property, and any number of
  steps keeps it. The step for doubles gives the bit pattern of a number in the interval from 1 to below 2.\<close>

theorem prng_conditioned:
  "prng_ok (((\<lambda>rs. fst (lj_prng_u64 rs)) ^^ n) (lj_prng_condition rs)) \<and>
   prng_ok (((\<lambda>rs. fst (lj_prng_u64d rs)) ^^ n) lj_prng_seed_fixed) \<and>
   0x3ff0000000000000 \<le> snd (lj_prng_u64d rs) \<and> snd (lj_prng_u64d rs) < 0x4000000000000000"
proof (intro conjI)
  show "prng_ok (((\<lambda>rs. fst (lj_prng_u64 rs)) ^^ n) (lj_prng_condition rs))"
    by (induction n) (simp_all add: condition_ok step_ok lj_prng_u64_def)
  show "prng_ok (((\<lambda>rs. fst (lj_prng_u64d rs)) ^^ n) lj_prng_seed_fixed)"
    by (induction n) (simp_all add: fixed_ok step_ok lj_prng_u64d_def split_beta)
qed (simp_all add: u64d_range)

end
