(* ===== verification/Str.thy ===== *)
theory Str
  imports LjChar Prng
begin

text \<open>
  Strings, \<^verbatim>\<open>src/src/lj_str.c\<close>: ordered comparison, substring search, the two keyed hash functions and the
  interning table with its chains, secondary hashes and resizing. An anchor of the table is its mark (the
  lowest bit of the pointer) and the list of the string objects on the chain, from the first to the last.
  What the allocator returns is in the environment; the garbage collector is present as the colours of
  strings and the flag that strings are being swept.
\<close>

section \<open>Comparison and search\<close>

text \<open>The bytes of a string object behind its header: the last word is cleared before the data is copied.\<close>

definition strmem :: "bytes \<Rightarrow> bytes" where
  "strmem s = s @ replicate (4 - length s mod 4) 0"

function cmp_loop :: "bytes \<Rightarrow> bytes \<Rightarrow> nat \<Rightarrow> nat \<Rightarrow> u32" where
  "cmp_loop a b n i =
     (if i < n then
        let va = get_le32 (drop i (strmem a)); vb = get_le32 (drop i (strmem b))
        in if va \<noteq> vb then
             let va = lj_bswap va; vb = lj_bswap vb; k = (word_of_nat i - word_of_nat n :: u32)
             in if - 3 \<le> sint k then
                  let sh = unat (32 + push_bit 3 k)
                  in if drop_bit sh va = drop_bit sh vb then word_of_nat (length a) - word_of_nat (length b)
                     else if drop_bit sh va < drop_bit sh vb then - 1 else 1
                else if va < vb then - 1 else 1
           else cmp_loop a b n (i + 4)
      else word_of_nat (length a) - word_of_nat (length b))"
  by pat_completeness auto
termination by (relation "measure (\<lambda>(a, b, n, i). n - i)") auto

declare cmp_loop.simps [simp del]

definition lj_str_cmp :: "bytes \<Rightarrow> bytes \<Rightarrow> int" where
  "lj_str_cmp a b =
     (let n = (if length a > length b then length b else length a) in sint (cmp_loop a b n 0))"

fun memchr :: "u8 \<Rightarrow> bytes \<Rightarrow> nat option" where
  "memchr c [] = None"
| "memchr c (x # xs) = (if x = c then Some 0 else map_option Suc (memchr c xs))"

lemma memchr_less: "memchr c xs = Some q \<Longrightarrow> q < length xs"
  by (induction xs arbitrary: q) (auto split: if_splits)

text \<open>The loop of \<^verbatim>\<open>lj_str_find\<close>: \<open>s\<close> is what is left of the string, \<open>off\<close> its offset.\<close>

function find_loop :: "u8 \<Rightarrow> bytes \<Rightarrow> bytes \<Rightarrow> nat \<Rightarrow> nat \<Rightarrow> nat option" where
  "find_loop c p s slen off =
     (if slen = 0 then None
      else case memchr c (take slen s) of
          None \<Rightarrow> None
        | Some q \<Rightarrow> if take (length p) (drop (q + 1) s) = p then Some (off + q)
                    else find_loop c p (drop (q + 1) s) (slen - (q + 1)) (off + (q + 1)))"
  by pat_completeness auto
termination by (relation "measure (\<lambda>(c, p, s, slen, off). slen)") auto

declare find_loop.simps [simp del]

definition lj_str_find :: "bytes \<Rightarrow> bytes \<Rightarrow> nat option" where
  "lj_str_find s p =
     (if length p \<le> length s then
        if p = [] then Some 0
        else find_loop (hd p) (tl p) s (length s - (length p - 1)) 0
      else None)"

definition magic_chars :: bytes where
  "magic_chars = [94, 36, 42, 43, 63, 46, 40, 91, 37, 45]"

fun lj_str_haspattern :: "bytes \<Rightarrow> bool" where
  "lj_str_haspattern [] = False"
| "lj_str_haspattern (c # p) =
     (if lj_char_ispunct c \<and> (c \<in> set magic_chars \<or> c = 0) then True else lj_str_haspattern p)"

section \<open>Hashing\<close>

definition getu32 :: "bytes \<Rightarrow> nat \<Rightarrow> u32" where
  "getu32 s i = get_le32 (drop i s)"

definition hash_sparse :: "u64 \<Rightarrow> bytes \<Rightarrow> u32" where
  "hash_sparse seed s =
     (let len = length s; h = word_of_nat len XOR ucast seed;
          (a, b, h) =
            (if 4 \<le> len then
               let a = getu32 s 0; h = h XOR getu32 s (len - 4); b = getu32 s (len div 2 - 2);
                   h = h XOR b; h = h - lj_rol b 14
               in (a, b + getu32 s (len div 4 - 1), h)
             else
               let a = ucast (s ! 0); h = h XOR ucast (s ! (len - 1)); b = ucast (s ! (len div 2));
                   h = h XOR b
               in (a, b, h - lj_rol b 14));
          a = a XOR h; a = a - lj_rol h 11;
          b = b XOR a; b = b - lj_rol a 25;
          h = h XOR b
      in h - lj_rol b 16)"

function dense_loop :: "bytes \<Rightarrow> nat \<Rightarrow> nat \<Rightarrow> nat \<Rightarrow> u32 \<times> u32 \<times> u32 \<Rightarrow> u32 \<times> u32 \<times> u32" where
  "dense_loop s pe p q (a, b, h) =
     (let a = a + getu32 s p; b = b + getu32 s (p + 4); h = h + getu32 s (p + 8);
          p = q; q = q + 12;
          h = h XOR b; h = h - lj_rol b 14;
          a = a XOR h; a = a - lj_rol h 11;
          b = b XOR a; b = b - lj_rol a 25
      in if p < pe then dense_loop s pe p q (a, b, h) else (a, b, h))"
  by pat_completeness auto
termination by (relation "measure (\<lambda>(s, pe, p, q, x). pe - q)") auto

declare dense_loop.simps [simp del]

definition hash_dense :: "u64 \<Rightarrow> u32 \<Rightarrow> bytes \<Rightarrow> u32" where
  "hash_dense seed h s =
     (let b = lj_bswap (lj_rol (h XOR ucast (drop_bit 32 seed)) 4)
      in if 12 < length s then
           let (a, b, h) = dense_loop s (length s - 12) (length s - 12) 0 (ucast seed, b, h);
               h = h XOR b; h = h - lj_rol b 16;
               a = a XOR h; a = a - lj_rol h 4;
               b = b XOR a
           in b - lj_rol a 14
         else b)"

section \<open>Interning\<close>

definition LJ_GC_WHITES :: u8 where "LJ_GC_WHITES = 3"
definition LJ_GC_COLORS :: u8 where "LJ_GC_COLORS = 7"
definition LJ_STR_MAXCOLL :: u32 where "LJ_STR_MAXCOLL = 32"
definition LJ_MAX_STRTAB :: nat where "LJ_MAX_STRTAB = 2 ^ 26"
definition LJ_MIN_STRTAB :: nat where "LJ_MIN_STRTAB = 256"
definition sizeof_GCstr :: nat where "sizeof_GCstr = 24"

record gcstr =
  smarked :: u8
  hashalg :: bool
  ssid :: u32
  shash :: u32
  sdata :: bytes

record strstate =
  sobj :: "u64 \<Rightarrow> gcstr option"
  stab :: "(bool \<times> u64 list) list"
  snum :: u32
  strid :: u32
  idreseed :: u8
  second :: bool
  seed :: u64
  prng :: PRNGState
  currentwhite :: u8
  sweepstring :: bool

record strenv =
  newstr :: "(u64 \<Rightarrow> gcstr option) \<Rightarrow> nat \<Rightarrow> u64"
  vec_ok :: "nat \<Rightarrow> bool"
  strempty :: u64

definition lj_str_size :: "nat \<Rightarrow> nat" where "lj_str_size len = sizeof_GCstr + (len + 4) div 4 * 4"

definition otherwhite :: "strstate \<Rightarrow> u8" where "otherwhite g = currentwhite g XOR LJ_GC_WHITES"
definition curwhite :: "strstate \<Rightarrow> u8" where "curwhite g = currentwhite g AND LJ_GC_WHITES"
definition isdead :: "strstate \<Rightarrow> gcstr \<Rightarrow> bool" where
  "isdead g s \<longleftrightarrow> smarked s AND otherwhite g AND LJ_GC_WHITES \<noteq> 0"
definition flipwhite :: "gcstr \<Rightarrow> gcstr" where "flipwhite s = s\<lparr>smarked := smarked s XOR LJ_GC_WHITES\<rparr>"
definition makewhite :: "strstate \<Rightarrow> gcstr \<Rightarrow> gcstr" where
  "makewhite g s = s\<lparr>smarked := (smarked s AND NOT LJ_GC_COLORS) OR curwhite g\<rparr>"

text \<open>The index of a hash in a table, \<^verbatim>\<open>hash & mask\<close>.\<close>

definition anchor :: "nat \<Rightarrow> u32 \<Rightarrow> nat" where
  "anchor n h = unat (h AND word_of_nat (n - 1))"

definition push_chain :: "nat \<Rightarrow> u64 \<Rightarrow> (bool \<times> u64 list) list \<Rightarrow> (bool \<times> u64 list) list" where
  "push_chain i p tab = tab[i := (fst (tab ! i), p # snd (tab ! i))]"

text \<open>The order in which a resize visits the strings: the chains from the last to the first.\<close>

definition all_chained :: "(bool \<times> u64 list) list \<Rightarrow> u64 list" where
  "all_chained tab = concat (map snd (rev tab))"

definition primary_hash :: "strstate \<Rightarrow> gcstr \<Rightarrow> u32" where
  "primary_hash g s = (if hashalg s then hash_sparse (seed g) (sdata s) else shash s)"

text \<open>The primary chain lengths, then the marks of the chains that are too long.\<close>

fun chain_lengths :: "strstate \<Rightarrow> nat \<Rightarrow> u64 list \<Rightarrow> nat list \<Rightarrow> nat list comp" where
  "chain_lengths g n [] cs = Done cs"
| "chain_lengths g n (p # ps) cs =
     (case sobj g p of
        None \<Rightarrow> Stuck
      | Some s \<Rightarrow> let i = anchor n (primary_hash g s) in chain_lengths g n ps (cs[i := cs ! i + 1]))"

definition secondary_marks :: "strstate \<Rightarrow> nat \<Rightarrow> (bool list \<times> bool) comp" where
  "secondary_marks g n =
     (if second g then
        cbind (chain_lengths g n (all_chained (stab g)) (replicate n 0)) (\<lambda>cs.
          let ms = map (\<lambda>c. unat LJ_STR_MAXCOLL < c) cs in Done (ms, True \<in> set ms))
      else Done (replicate n False, False))"

text \<open>Reinsert one string into the new table.\<close>

definition reinsert_str :: "strstate \<Rightarrow> (bool \<times> u64 list) list \<Rightarrow> gcstr \<Rightarrow> gcstr \<times> nat" where
  "reinsert_str g tab s =
     (let n = length tab
      in if \<not> hashalg s then
           let i = anchor n (shash s)
           in if fst (tab ! i) then
                let h = hash_dense (seed g) (shash s) (sdata s) in (s\<lparr>shash := h, hashalg := True\<rparr>, anchor n h)
              else (s, i)
         else
           let h = hash_sparse (seed g) (sdata s)
           in if fst (tab ! anchor n h) then (s, anchor n (shash s))
              else (s\<lparr>shash := h, hashalg := False\<rparr>, anchor n h))"

fun reinsert_all :: "strstate \<Rightarrow> u64 list \<Rightarrow> (bool \<times> u64 list) list \<Rightarrow> (strstate \<times> (bool \<times> u64 list) list) comp" where
  "reinsert_all g [] tab = Done (g, tab)"
| "reinsert_all g (p # ps) tab =
     (case sobj g p of
        None \<Rightarrow> Stuck
      | Some s \<Rightarrow> let (s, i) = reinsert_str g tab s
                  in reinsert_all (g\<lparr>sobj := (sobj g)(p \<mapsto> s)\<rparr>) ps (push_chain i p tab))"

definition lj_str_resize :: "strenv \<Rightarrow> strstate \<Rightarrow> nat \<Rightarrow> strstate comp" where
  "lj_str_resize env g newmask =
     (if sweepstring g \<or> LJ_MAX_STRTAB - 1 \<le> newmask then Done g
      else if \<not> vec_ok env (newmask + 1) then Raise LJ_ERR_ERRMEM
      else cbind (secondary_marks g (newmask + 1)) (\<lambda>(ms, sec).
        cbind (reinsert_all (g\<lparr>second := sec\<rparr>) (all_chained (stab g)) (map (\<lambda>m. (m, [])) ms)) (\<lambda>(g, tab).
          Done (g\<lparr>stab := tab\<rparr>))))"

definition lj_str_free :: "strstate \<Rightarrow> u64 \<Rightarrow> strstate" where
  "lj_str_free g p = g\<lparr>snum := snum g - 1, sobj := (sobj g)(p := None)\<rparr>"

text \<open>Rehash and rechain the strings of a chain; dead ones are freed when strings are being swept.\<close>

fun rechain_all :: "strstate \<Rightarrow> u8 \<Rightarrow> u64 list \<Rightarrow> strstate comp" where
  "rechain_all g ow [] = Done g"
| "rechain_all g ow (p # ps) =
     (case sobj g p of
        None \<Rightarrow> Stuck
      | Some s \<Rightarrow>
          if ow \<noteq> 0 \<and> (smarked s XOR LJ_GC_WHITES) AND ow = 0 then rechain_all (lj_str_free g p) ow ps
          else
            let s = (if ow \<noteq> 0 then makewhite g s else s);
                s = (if \<not> hashalg s then s\<lparr>shash := hash_dense (seed g) (shash s) (sdata s), hashalg := True\<rparr> else s)
            in rechain_all (g\<lparr>sobj := (sobj g)(p \<mapsto> s),
                 stab := push_chain (anchor (length (stab g)) (shash s)) p (stab g)\<rparr>) ow ps)"

definition lj_str_rehash_chain :: "strstate \<Rightarrow> u32 \<Rightarrow> strstate comp" where
  "lj_str_rehash_chain g hashc =
     (let ow = (if sweepstring g then otherwhite g else 0); i = anchor (length (stab g)) hashc
      in rechain_all (g\<lparr>stab := (stab g)[i := (True, [])], second := True\<rparr>) ow (snd (stab g ! i)))"

text \<open>The next string id; the ids are reseeded after random intervals.\<close>

definition next_strid :: "strstate \<Rightarrow> strstate \<times> u32" where
  "next_strid g =
     (let g = (if idreseed g = 0
               then let (rs, r) = lj_prng_u64 (prng g)
                    in g\<lparr>prng := rs, strid := ucast r, idreseed := ucast (drop_bit (64 - 8) r)\<rparr>
               else g\<lparr>idreseed := idreseed g - 1\<rparr>)
      in (g\<lparr>strid := strid g + 1\<rparr>, strid g))"

definition lj_str_alloc :: "strenv \<Rightarrow> strstate \<Rightarrow> bytes \<Rightarrow> u32 \<Rightarrow> bool \<Rightarrow> (strstate \<times> u64) comp" where
  "lj_str_alloc env g str hash alg =
     (let p = newstr env (sobj g) (lj_str_size (length str))
      in if p = 0 then Raise LJ_ERR_ERRMEM
         else
           let (g, sid) = next_strid g;
               s = \<lparr>smarked = curwhite g, hashalg = alg, ssid = sid, shash = hash, sdata = str\<rparr>;
               mask = length (stab g) - 1; num = snum g;
               g = g\<lparr>sobj := (sobj g)(p \<mapsto> s), stab := push_chain (anchor (length (stab g)) hash) p (stab g), snum := num + 1\<rparr>
           in cbind (if mask < unat num then lj_str_resize env g (mask * 2 + 1) else Done g) (\<lambda>g. Done (g, p)))"

text \<open>The search of a chain: the string, if any, and the number of collisions.\<close>

fun chain_search :: "strstate \<Rightarrow> u64 list \<Rightarrow> u32 \<Rightarrow> bytes \<Rightarrow> u32 \<Rightarrow> (u64 option \<times> u32) comp" where
  "chain_search g [] hash str coll = Done (None, coll)"
| "chain_search g (p # ps) hash str coll =
     (case sobj g p of
        None \<Rightarrow> Stuck
      | Some s \<Rightarrow>
          if shash s = hash \<and> length (sdata s) = length str then
            if sdata s = str then Done (Some p, coll) else chain_search g ps hash str (coll + 1 + 1)
          else chain_search g ps hash str (coll + 1))"

definition str_intern :: "(strstate \<Rightarrow> (strstate \<times> u64) comp) \<Rightarrow> strenv \<Rightarrow> strstate \<Rightarrow> bytes \<Rightarrow> (strstate \<times> u64) comp" where
  "str_intern again env g str =
     (if length str \<noteq> 0 \<and> length str < LJ_MAX_STR then
        let n = length (stab g); hash = hash_sparse (seed g) str; alg = fst (stab g ! anchor n hash);
            hash = (if alg then hash_dense (seed g) hash str else hash)
        in cbind (chain_search g (snd (stab g ! anchor n hash)) hash str 0) (\<lambda>(found, coll).
             case found of
               Some p \<Rightarrow>
                 (case sobj g p of
                    None \<Rightarrow> Stuck
                  | Some s \<Rightarrow> Done (if isdead g s then g\<lparr>sobj := (sobj g)(p \<mapsto> flipwhite s)\<rparr> else g, p))
             | None \<Rightarrow>
                 if LJ_STR_MAXCOLL < coll \<and> \<not> alg then cbind (lj_str_rehash_chain g hash) again
                 else lj_str_alloc env g str hash alg)
      else if length str \<noteq> 0 then Raise LJ_ERR_STROV
      else Done (g, strempty env))"

text \<open>\<^verbatim>\<open>lj_str_rehash_chain\<close> calls \<^verbatim>\<open>lj_str_new\<close> again; the second call does not rehash.\<close>

definition lj_str_new :: "strenv \<Rightarrow> strstate \<Rightarrow> bytes \<Rightarrow> (strstate \<times> u64) comp" where
  "lj_str_new env g str = str_intern (\<lambda>g. str_intern (\<lambda>_. Stuck) env g str) env g str"

text \<open>The table is empty before the initialisation.\<close>

definition lj_str_init :: "strenv \<Rightarrow> strstate \<Rightarrow> strstate comp" where
  "lj_str_init env g =
     (let (rs, r) = lj_prng_u64 (prng g)
      in lj_str_resize env (g\<lparr>prng := rs, seed := r\<rparr>) (LJ_MIN_STRTAB - 1))"

end
