(* ===== verification/StrLaws.thy ===== *)
theory StrLaws
  imports Str "HOL-Library.Multiset"
begin

text \<open>
  Correctness of the interning of strings: the invariant of the table, that interning keeps it and returns
  the one string object with the given data, and that comparison and search are what they should be.
\<close>

section \<open>The invariant\<close>

definition consistent :: "u64 \<Rightarrow> gcstr \<Rightarrow> bool" where
  "consistent sd s \<longleftrightarrow>
     (let h = hash_sparse sd (sdata s) in shash s = (if hashalg s then hash_dense sd h (sdata s) else h))"

text \<open>A string uses the secondary hash when the chain of its primary hash is marked, and is on the chain of the hash it uses.\<close>

definition placed :: "(bool \<times> u64 list) list \<Rightarrow> u64 \<Rightarrow> u64 \<Rightarrow> gcstr \<Rightarrow> bool" where
  "placed tab sd p s \<longleftrightarrow> consistent sd s \<and>
     hashalg s = fst (tab ! anchor (length tab) (hash_sparse sd (sdata s))) \<and>
     p \<in> set (snd (tab ! anchor (length tab) (shash s)))"

definition chained :: "(bool \<times> u64 list) list \<Rightarrow> u64 list" where
  "chained tab = concat (map snd tab)"

definition str_ok :: "strenv \<Rightarrow> strstate \<Rightarrow> bool" where
  "str_ok env g \<longleftrightarrow>
     (\<exists>k. k \<le> 26 \<and> length (stab g) = 2 ^ k) \<and> distinct (chained (stab g)) \<and>
     (\<forall>p. p \<in> set (chained (stab g)) \<longleftrightarrow> p \<noteq> strempty env \<and> sobj g p \<noteq> None) \<and>
     (\<exists>s. sobj g (strempty env) = Some s \<and> sdata s = [] \<and> \<not> isdead g s) \<and>
     (\<forall>p s. sobj g p = Some s \<longrightarrow> p \<noteq> strempty env \<longrightarrow>
        placed (stab g) (seed g) p s \<and> sdata s \<noteq> [] \<and> length (sdata s) < LJ_MAX_STR \<and> p \<noteq> 0 \<and> p < 2 ^ 47) \<and>
     (\<forall>p q s t. sobj g p = Some s \<longrightarrow> sobj g q = Some t \<longrightarrow> sdata s = sdata t \<longrightarrow> p = q) \<and>
     (\<not> second g \<longrightarrow> (\<forall>a\<in>set (stab g). \<not> fst a)) \<and>
     snum g = word_of_nat (length (chained (stab g))) \<and>
     (curwhite g = 1 \<or> curwhite g = 2)"

text \<open>Allocation gives an unused address that fits into a tagged value, or fails.\<close>

definition strenv_ok :: "strenv \<Rightarrow> bool" where
  "strenv_ok env \<longleftrightarrow> strempty env \<noteq> 0 \<and> strempty env < 2 ^ 47 \<and>
     (\<forall>obj n. newstr env obj n < 2 ^ 47 \<and> (newstr env obj n \<noteq> 0 \<longrightarrow> obj (newstr env obj n) = None))"

section \<open>Chains\<close>

lemma anchor_less: "0 < n \<Longrightarrow> n \<le> 2 ^ 32 \<Longrightarrow> anchor n h < n"
proof -
  assume n: "0 < n" "n \<le> 2 ^ 32"
  have "h AND word_of_nat (n - 1) \<le> (word_of_nat (n - 1) :: u32)" by (rule word_and_le1)
  then have "anchor n h \<le> unat (word_of_nat (n - 1) :: u32)" by (simp add: anchor_def word_le_nat_alt)
  moreover have "unat (word_of_nat (n - 1) :: u32) = n - 1"
    unfolding unat_of_nat using n by (intro mod_less) simp
  ultimately show ?thesis using n by simp
qed

lemma set_chained: "set (chained tab) = (\<Union>a\<in>set tab. set (snd a))"
  by (simp add: chained_def)

lemma all_chained_set [simp]: "set (all_chained tab) = set (chained tab)"
  by (simp add: all_chained_def chained_def)

lemma all_chained_mset: "mset (all_chained tab) = mset (chained tab)"
proof -
  have "mset (concat (rev xs)) = mset (concat xs)" for xs :: "u64 list list" by (induction xs) auto
  then show ?thesis by (simp add: all_chained_def chained_def flip: rev_map)
qed

lemma in_chain: "i < length tab \<Longrightarrow> p \<in> set (snd (tab ! i)) \<Longrightarrow> p \<in> set (chained tab)"
  by (auto simp: set_chained)

lemma push_length [simp]: "length (push_chain i p tab) = length tab"
  by (simp add: push_chain_def)

lemma push_mark [simp]: "fst (push_chain i p tab ! j) = fst (tab ! j)"
  by (cases "i < length tab") (auto simp: push_chain_def nth_list_update list_update_beyond)

lemma push_marks: "map fst (push_chain i p tab) = map fst tab"
  by (rule nth_equalityI) simp_all

lemma push_member: "i < length tab \<Longrightarrow> p \<in> set (snd (push_chain i p tab ! i))"
  by (simp add: push_chain_def)

lemma push_keeps: "q \<in> set (snd (tab ! j)) \<Longrightarrow> q \<in> set (snd (push_chain i p tab ! j))"
  by (cases "i < length tab") (auto simp: push_chain_def nth_list_update list_update_beyond)

lemma push_chained: "i < length tab \<Longrightarrow> mset (chained (push_chain i p tab)) = add_mset p (mset (chained tab))"
proof -
  assume i: "i < length tab"
  have e: "push_chain i p tab = take i tab @ (fst (tab ! i), p # snd (tab ! i)) # drop (Suc i) tab"
    using i by (simp add: push_chain_def upd_conv_take_nth_drop)
  have "chained tab = chained (take i tab @ tab ! i # drop (Suc i) tab)" using i by (simp add: id_take_nth_drop [symmetric])
  then show ?thesis unfolding e by (simp add: chained_def)
qed

lemma push_placed: "placed tab sd q s \<Longrightarrow> placed (push_chain i p tab) sd q s"
  by (auto simp: placed_def intro: push_keeps)

section \<open>Colours\<close>

lemma other_white: "curwhite g = 1 \<or> curwhite g = 2 \<Longrightarrow> otherwhite g AND LJ_GC_WHITES = 3 - curwhite g"
proof -
  assume a: "curwhite g = 1 \<or> curwhite g = 2"
  have "otherwhite g AND LJ_GC_WHITES = curwhite g XOR LJ_GC_WHITES"
    unfolding otherwhite_def curwhite_def LJ_GC_WHITES_def by (rule bit_word_eqI) (auto simp: bit_simps)
  with a show ?thesis by (auto simp: LJ_GC_WHITES_def)
qed

lemma isdead_alt: "curwhite g = 1 \<or> curwhite g = 2 \<Longrightarrow> isdead g s \<longleftrightarrow> smarked s AND (3 - curwhite g) \<noteq> 0"
  by (simp add: isdead_def other_white and.assoc)

lemma bit_small: "bit (1 :: u8) n \<longleftrightarrow> n = 0" "bit (2 :: u8) n \<longleftrightarrow> n = 1" "bit (3 :: u8) n \<longleftrightarrow> n < 2" "bit (7 :: u8) n \<longleftrightarrow> n < 3"
proof -
  have e: "(2 :: u8) = push_bit 1 1" "(3 :: u8) = mask 2" "(7 :: u8) = mask 3" by (simp_all add: mask_eq_decr_exp)
  show "bit (1 :: u8) n \<longleftrightarrow> n = 0" by (simp add: bit_1_iff)
  show "bit (2 :: u8) n \<longleftrightarrow> n = 1" unfolding e by (simp only: bit_push_bit_iff bit_1_iff possible_bit_word) auto
  show "bit (3 :: u8) n \<longleftrightarrow> n < 2" unfolding e by (simp only: bit_mask_iff possible_bit_word) auto
  show "bit (7 :: u8) n \<longleftrightarrow> n < 3" unfolding e by (simp only: bit_mask_iff possible_bit_word) auto
qed

lemma and_one_bit: "(x :: u8) AND 1 = 0 \<longleftrightarrow> \<not> bit x 0" "x AND 2 = 0 \<longleftrightarrow> \<not> bit x 1"
proof -
  have e: "x AND y = 0 \<longleftrightarrow> \<not> bit x k" if "\<And>n. bit y n \<longleftrightarrow> n = k" for y k
  proof
    assume "x AND y = 0"
    moreover have "bit (x AND y) k \<longleftrightarrow> bit x k" using that by (simp add: bit_and_iff)
    ultimately show "\<not> bit x k" by simp
  next
    assume "\<not> bit x k"
    then show "x AND y = 0" using that by (auto intro: bit_word_eqI simp: bit_and_iff)
  qed
  show "x AND 1 = 0 \<longleftrightarrow> \<not> bit x 0" by (rule e) (rule bit_small)
  show "x AND 2 = 0 \<longleftrightarrow> \<not> bit x 1" by (rule e) (rule bit_small)
qed

lemma dead_bit: "curwhite g = 1 \<or> curwhite g = 2 \<Longrightarrow> isdead g s \<longleftrightarrow> bit (smarked s) (if curwhite g = 1 then 1 else 0)"
  by (auto simp: isdead_alt and_one_bit)

lemma flip_alive: "curwhite g = 1 \<or> curwhite g = 2 \<Longrightarrow> isdead g s \<Longrightarrow> \<not> isdead g (flipwhite s)"
  by (auto simp: dead_bit flipwhite_def LJ_GC_WHITES_def bit_simps bit_small split: if_splits)

lemma new_alive: "curwhite g = 1 \<or> curwhite g = 2 \<Longrightarrow> \<not> isdead g (s\<lparr>smarked := curwhite g\<rparr>)"
  by (auto simp: isdead_alt)

lemma make_alive: "curwhite g = 1 \<or> curwhite g = 2 \<Longrightarrow> \<not> isdead g (makewhite g s)"
proof -
  assume a: "curwhite g = 1 \<or> curwhite g = 2"
  have "\<not> bit (curwhite g) (if curwhite g = 1 then 1 else 0)" using a by (auto simp: bit_0 bit_1_iff and_one_bit [symmetric])
  then show ?thesis using a by (auto simp: dead_bit makewhite_def LJ_GC_COLORS_def bit_simps bit_small split: if_splits)
qed

lemma swept_dead:
  assumes "curwhite g = 1 \<or> curwhite g = 2" and "(smarked s XOR LJ_GC_WHITES) AND otherwhite g = 0"
  shows "isdead g s"
proof (rule ccontr)
  assume n: "\<not> isdead g s"
  let ?n = "if curwhite g = 1 then 1 else (0 :: nat)"
  have "bit (3 - curwhite g) ?n" using assms(1) by (auto simp: bit_0 and_one_bit [symmetric])
  then have "bit (otherwhite g AND LJ_GC_WHITES) ?n" using other_white [OF assms(1)] by simp
  then have "bit (otherwhite g) ?n" by (simp add: bit_and_iff)
  moreover have "\<not> bit ((smarked s XOR LJ_GC_WHITES) AND otherwhite g) ?n" unfolding assms(2) by simp
  ultimately show False using n dead_bit [OF assms(1), of s] by (auto simp: bit_simps LJ_GC_WHITES_def bit_small split: if_splits)
qed

section \<open>What happens to the other strings\<close>

definition same_string :: "strstate \<Rightarrow> gcstr \<Rightarrow> gcstr \<Rightarrow> bool" where
  "same_string g s s' \<longleftrightarrow> sdata s' = sdata s \<and> ssid s' = ssid s \<and> (isdead g s' \<longrightarrow> isdead g s)"

text \<open>Every string stays, with its data and id, but for dead ones that are freed while strings are being swept.\<close>

definition kept :: "strstate \<Rightarrow> strstate \<Rightarrow> bool" where
  "kept g g' \<longleftrightarrow> seed g' = seed g \<and> currentwhite g' = currentwhite g \<and> sweepstring g' = sweepstring g \<and>
     (\<forall>p s. sobj g p = Some s \<longrightarrow> (\<exists>s'. sobj g' p = Some s' \<and> same_string g s s') \<or> sweepstring g \<and> isdead g s)"

lemma isdead_cong: "currentwhite g' = currentwhite g \<Longrightarrow> isdead g' = isdead g"
  by (simp add: isdead_def otherwhite_def fun_eq_iff)

lemma curwhite_cong: "currentwhite g' = currentwhite g \<Longrightarrow> curwhite g' = curwhite g"
  by (simp add: curwhite_def)

lemma same_refl [simp]: "same_string g s s"
  by (simp add: same_string_def)

lemma kept_refl: "kept g g"
  by (auto simp: kept_def)

lemma kept_trans:
  assumes "kept g g'" and "kept g' g''"
  shows "kept g g''"
proof -
  have d: "isdead g' = isdead g" using assms(1) by (intro isdead_cong) (simp add: kept_def)
  have "\<exists>s'. sobj g'' p = Some s' \<and> same_string g s s'"
    if p: "sobj g p = Some s" and n: "\<not> (sweepstring g \<and> isdead g s)" for p s
  proof -
    obtain s1 where 1: "sobj g' p = Some s1" "same_string g s s1" using assms(1) p n by (auto simp: kept_def)
    then have "\<not> (sweepstring g' \<and> isdead g' s1)" using assms(1) n unfolding kept_def same_string_def d by blast
    then obtain s2 where "sobj g'' p = Some s2" "same_string g' s1 s2" using assms(2) 1(1) by (auto simp: kept_def)
    with 1(2) show ?thesis unfolding same_string_def d by auto
  qed
  then show ?thesis using assms by (auto simp: kept_def)
qed

section \<open>Reinserting and rechaining\<close>

lemma reinsert_str_ok:
  assumes "consistent (seed g) s" and "0 < length tab" and "length tab \<le> 2 ^ 32" and "reinsert_str g tab s = (s', i)"
  shows "i < length tab" and "placed (push_chain i p tab) (seed g) p s'" and "s' = s\<lparr>shash := shash s', hashalg := hashalg s'\<rparr>"
proof -
  note al = anchor_less [OF assms(2,3)]
  show i: "i < length tab" using assms(4) al by (auto simp: reinsert_str_def Let_def split: if_splits)
  have "consistent (seed g) s' \<and> i = anchor (length tab) (shash s') \<and>
      hashalg s' = fst (tab ! anchor (length tab) (hash_sparse (seed g) (sdata s'))) \<and> sdata s' = sdata s"
    using assms(1,4) by (auto simp: reinsert_str_def consistent_def Let_def split: if_splits)
  then show "placed (push_chain i p tab) (seed g) p s'" using push_member [OF i] by (simp add: placed_def)
  show "s' = s\<lparr>shash := shash s', hashalg := hashalg s'\<rparr>"
    using assms(4) by (auto simp: reinsert_str_def Let_def split: if_splits)
qed

lemma reinsert_all_ok:
  assumes "0 < length tab" and "length tab \<le> 2 ^ 32" and "distinct ps"
    and "\<forall>p\<in>set ps. \<exists>s. sobj g p = Some s \<and> consistent (seed g) s"
    and "\<forall>p\<in>Q. \<forall>s. sobj g p = Some s \<longrightarrow> placed tab (seed g) p s" and "Q \<inter> set ps = {}"
  shows "\<exists>obj tab'. reinsert_all g ps tab = Done (g\<lparr>sobj := obj\<rparr>, tab') \<and> map fst tab' = map fst tab \<and>
     mset (chained tab') = mset (chained tab) + mset ps \<and>
     (\<forall>p. p \<notin> set ps \<longrightarrow> obj p = sobj g p) \<and>
     (\<forall>p\<in>set ps. \<exists>s s'. sobj g p = Some s \<and> obj p = Some s' \<and> s' = s\<lparr>shash := shash s', hashalg := hashalg s'\<rparr>) \<and>
     (\<forall>p\<in>Q \<union> set ps. \<forall>s. obj p = Some s \<longrightarrow> placed tab' (seed g) p s)"
  using assms
proof (induction ps arbitrary: g tab Q)
  case (Cons p ps)
  from Cons.prems(4) obtain s where s: "sobj g p = Some s" "consistent (seed g) s" by auto
  obtain s1 i where r: "reinsert_str g tab s = (s1, i)" by fastforce
  note ok = reinsert_str_ok [OF s(2) Cons.prems(1,2) r]
  let ?g = "g\<lparr>sobj := (sobj g)(p \<mapsto> s1)\<rparr>" and ?tab = "push_chain i p tab"
  have "\<exists>obj tab'. reinsert_all ?g ps ?tab = Done (?g\<lparr>sobj := obj\<rparr>, tab') \<and> map fst tab' = map fst ?tab \<and>
     mset (chained tab') = mset (chained ?tab) + mset ps \<and>
     (\<forall>p. p \<notin> set ps \<longrightarrow> obj p = sobj ?g p) \<and>
     (\<forall>p\<in>set ps. \<exists>s s'. sobj ?g p = Some s \<and> obj p = Some s' \<and> s' = s\<lparr>shash := shash s', hashalg := hashalg s'\<rparr>) \<and>
     (\<forall>p\<in>insert p Q \<union> set ps. \<forall>s. obj p = Some s \<longrightarrow> placed tab' (seed ?g) p s)"
  proof (rule Cons.IH)
    show "\<forall>q\<in>insert p Q. \<forall>s. sobj ?g q = Some s \<longrightarrow> placed ?tab (seed ?g) q s"
      using Cons.prems(5,6) ok(2) by (auto intro: push_placed)
  qed (use Cons.prems in auto)
  then obtain obj tab' where I: "reinsert_all ?g ps ?tab = Done (?g\<lparr>sobj := obj\<rparr>, tab')" "map fst tab' = map fst ?tab"
     "mset (chained tab') = mset (chained ?tab) + mset ps" "\<And>p. p \<notin> set ps \<Longrightarrow> obj p = sobj ?g p"
     "\<And>p. p\<in>set ps \<Longrightarrow> \<exists>s s'. sobj ?g p = Some s \<and> obj p = Some s' \<and> s' = s\<lparr>shash := shash s', hashalg := hashalg s'\<rparr>"
     "\<And>q s. q\<in>insert p Q \<union> set ps \<Longrightarrow> obj q = Some s \<Longrightarrow> placed tab' (seed ?g) q s"
    by blast
  have "p \<notin> set ps" using Cons.prems(3) by simp
  show ?case
  proof (intro exI [of _ obj] exI [of _ tab'] conjI allI ballI impI)
    show "reinsert_all g (p # ps) tab = Done (g\<lparr>sobj := obj\<rparr>, tab')" using I(1) by (simp add: s r)
    show "map fst tab' = map fst tab" using I(2) by (simp add: push_marks)
    show "mset (chained tab') = mset (chained tab) + mset (p # ps)" using I(3) push_chained [OF ok(1)] by simp
    show "obj q = sobj g q" if "q \<notin> set (p # ps)" for q using I(4) [of q] that by simp
    show "\<exists>s s'. sobj g q = Some s \<and> obj q = Some s' \<and> s' = s\<lparr>shash := shash s', hashalg := hashalg s'\<rparr>"
      if "q \<in> set (p # ps)" for q
      using that I(4) [OF \<open>p \<notin> set ps\<close>] ok(3) s I(5) [of q] \<open>p \<notin> set ps\<close> by (cases "q = p") auto
    show "placed tab' (seed g) q t" if "q \<in> Q \<union> set (p # ps)" "obj q = Some t" for q t using that I(6) [of q t] by auto
  qed
next
  case Nil
  then show ?case by (intro exI [of _ "sobj g"] exI [of _ tab]) auto
qed

text \<open>Rechaining a chain: \<open>ks\<close> are the strings that are not freed.\<close>

lemma rechain_all_ok:
  assumes "0 < length (stab g)" and "length (stab g) \<le> 2 ^ 32" and "distinct ps"
    and "\<forall>p\<in>set ps. \<exists>s. sobj g p = Some s \<and> consistent (seed g) s \<and>
      fst (stab g ! anchor (length (stab g)) (hash_sparse (seed g) (sdata s)))"
    and "\<forall>p\<in>Q. \<forall>s. sobj g p = Some s \<longrightarrow> placed (stab g) (seed g) p s" and "Q \<inter> set ps = {}"
    and "curwhite g = 1 \<or> curwhite g = 2" and "ow = (if sweepstring g then otherwhite g else 0)"
  shows "\<exists>obj tab' ks. rechain_all g ow ps =
       Done (g\<lparr>sobj := obj, stab := tab', snum := snum g - word_of_nat (length ps) + word_of_nat (length ks)\<rparr>) \<and>
     map fst tab' = map fst (stab g) \<and> mset (chained tab') = mset (chained (stab g)) + mset ks \<and>
     set ks \<subseteq> set ps \<and> distinct ks \<and>
     (\<forall>p. p \<notin> set ps \<longrightarrow> obj p = sobj g p) \<and> (\<forall>p\<in>set ps - set ks. obj p = None) \<and>
     (\<forall>p\<in>set ks. \<exists>s s'. sobj g p = Some s \<and> obj p = Some s' \<and> same_string g s s') \<and>
     (\<forall>p\<in>set ps - set ks. \<forall>s. sobj g p = Some s \<longrightarrow> sweepstring g \<and> isdead g s) \<and>
     (\<forall>p\<in>Q \<union> set ks. \<forall>s. obj p = Some s \<longrightarrow> placed tab' (seed g) p s)"
  using assms
proof (induction ps arbitrary: g Q)
  case Nil
  then show ?case by (intro exI [of _ "sobj g"] exI [of _ "stab g"] exI [of _ "[]"]) auto
next
  case (Cons p ps)
  from Cons.prems(4) obtain s where s: "sobj g p = Some s" "consistent (seed g) s"
    "fst (stab g ! anchor (length (stab g)) (hash_sparse (seed g) (sdata s)))" by auto
  have p: "p \<notin> set ps" "distinct ps" using Cons.prems(3) by auto
  show ?case
  proof (cases "ow \<noteq> 0 \<and> (smarked s XOR LJ_GC_WHITES) AND ow = 0")
    case True
    define g1 where "g1 = lj_str_free g p"
    have sw: "sweepstring g" "isdead g s" using True Cons.prems(7,8) swept_dead by (auto split: if_splits)
    have f: "sobj g1 = (sobj g)(p := None)" "stab g1 = stab g" "snum g1 = snum g - 1" "seed g1 = seed g"
      "currentwhite g1 = currentwhite g" "sweepstring g1 = sweepstring g" "otherwhite g1 = otherwhite g"
      by (simp_all add: g1_def lj_str_free_def otherwhite_def)
    have "\<exists>obj tab' ks. rechain_all g1 ow ps =
         Done (g1\<lparr>sobj := obj, stab := tab', snum := snum g1 - word_of_nat (length ps) + word_of_nat (length ks)\<rparr>) \<and>
       map fst tab' = map fst (stab g1) \<and> mset (chained tab') = mset (chained (stab g1)) + mset ks \<and>
       set ks \<subseteq> set ps \<and> distinct ks \<and>
       (\<forall>p. p \<notin> set ps \<longrightarrow> obj p = sobj g1 p) \<and> (\<forall>p\<in>set ps - set ks. obj p = None) \<and>
       (\<forall>p\<in>set ks. \<exists>s s'. sobj g1 p = Some s \<and> obj p = Some s' \<and> same_string g1 s s') \<and>
       (\<forall>p\<in>set ps - set ks. \<forall>s. sobj g1 p = Some s \<longrightarrow> sweepstring g1 \<and> isdead g1 s) \<and>
       (\<forall>p\<in>Q \<union> set ks. \<forall>s. obj p = Some s \<longrightarrow> placed tab' (seed g1) p s)"
      by (rule Cons.IH) (use Cons.prems p in \<open>auto simp: f curwhite_cong [OF f(5)]\<close>)
    then obtain obj tab' ks where I: "rechain_all g1 ow ps =
         Done (g1\<lparr>sobj := obj, stab := tab', snum := snum g1 - word_of_nat (length ps) + word_of_nat (length ks)\<rparr>)"
       "map fst tab' = map fst (stab g1)" "mset (chained tab') = mset (chained (stab g1)) + mset ks"
       "set ks \<subseteq> set ps" "distinct ks" "\<And>p. p \<notin> set ps \<Longrightarrow> obj p = sobj g1 p" "\<And>p. p\<in>set ps - set ks \<Longrightarrow> obj p = None"
       "\<And>p. p\<in>set ks \<Longrightarrow> \<exists>s s'. sobj g1 p = Some s \<and> obj p = Some s' \<and> same_string g1 s s'"
       "\<And>p s. p\<in>set ps - set ks \<Longrightarrow> sobj g1 p = Some s \<Longrightarrow> sweepstring g1 \<and> isdead g1 s"
       "\<And>p s. p\<in>Q \<union> set ks \<Longrightarrow> obj p = Some s \<Longrightarrow> placed tab' (seed g1) p s"
      by blast
    show ?thesis
    proof (intro exI [of _ obj] exI [of _ tab'] exI [of _ ks] conjI allI ballI impI)
      show "rechain_all g ow (p # ps) = Done (g\<lparr>sobj := obj, stab := tab',
          snum := snum g - word_of_nat (length (p # ps)) + word_of_nat (length ks)\<rparr>)"
        using I(1) True by (simp add: s(1) f g1_def [symmetric]) (simp add: g1_def lj_str_free_def)
      show "map fst tab' = map fst (stab g)" "mset (chained tab') = mset (chained (stab g)) + mset ks"
        "set ks \<subseteq> set (p # ps)" "distinct ks" using I f by auto
      show "obj q = sobj g q" if "q \<notin> set (p # ps)" for q using that I(6) [of q] f by simp
      show "obj q = None" if "q \<in> set (p # ps) - set ks" for q using that I(6) [of p] I(7) [of q] p f by (cases "q = p") auto
      show "\<exists>s s'. sobj g q = Some s \<and> obj q = Some s' \<and> same_string g s s'" if "q \<in> set ks" for q
        using I(8) [OF that] f by (auto simp: same_string_def isdead_cong [OF f(5)] split: if_splits)
      show "sweepstring g" "isdead g t" if "q \<in> set (p # ps) - set ks" "sobj g q = Some t" for q t
        using that I(9) [of q t] sw s(1) f by (cases "q = p"; auto simp: isdead_cong [OF f(5)])+
      show "placed tab' (seed g) q t" if "q \<in> Q \<union> set ks" "obj q = Some t" for q t using I(10) [OF that] f by simp
    qed
  next
    case False
    define s1 where "s1 = (if ow \<noteq> 0 then makewhite g s else s)"
    define s2 where "s2 = (if \<not> hashalg s1 then s1\<lparr>shash := hash_dense (seed g) (shash s1) (sdata s1), hashalg := True\<rparr> else s1)"
    have s1: "hashalg s1 = hashalg s" "shash s1 = shash s" "sdata s1 = sdata s" "ssid s1 = ssid s" "isdead g s1 \<longrightarrow> isdead g s"
      using make_alive [OF Cons.prems(7)] by (auto simp: s1_def makewhite_def)
    have s2: "hashalg s2" "consistent (seed g) s2" "sdata s2 = sdata s" "same_string g s s2"
      using s(2) s1 by (auto simp: s2_def consistent_def Let_def same_string_def isdead_def)
    define i where "i = anchor (length (stab g)) (shash s2)"
    have i: "i < length (stab g)" unfolding i_def by (rule anchor_less [OF Cons.prems(1,2)])
    define g1 where "g1 = g\<lparr>sobj := (sobj g)(p \<mapsto> s2), stab := push_chain i p (stab g)\<rparr>"
    have f: "sobj g1 = (sobj g)(p \<mapsto> s2)" "stab g1 = push_chain i p (stab g)" "snum g1 = snum g" "seed g1 = seed g"
      "currentwhite g1 = currentwhite g" "sweepstring g1 = sweepstring g" "otherwhite g1 = otherwhite g"
      by (simp_all add: g1_def otherwhite_def)
    have pl: "placed (stab g1) (seed g1) p s2"
      using s2 s(3) push_member [OF i] by (simp add: placed_def f i_def [symmetric])
    have "\<exists>obj tab' ks. rechain_all g1 ow ps =
         Done (g1\<lparr>sobj := obj, stab := tab', snum := snum g1 - word_of_nat (length ps) + word_of_nat (length ks)\<rparr>) \<and>
       map fst tab' = map fst (stab g1) \<and> mset (chained tab') = mset (chained (stab g1)) + mset ks \<and>
       set ks \<subseteq> set ps \<and> distinct ks \<and>
       (\<forall>p. p \<notin> set ps \<longrightarrow> obj p = sobj g1 p) \<and> (\<forall>p\<in>set ps - set ks. obj p = None) \<and>
       (\<forall>p\<in>set ks. \<exists>s s'. sobj g1 p = Some s \<and> obj p = Some s' \<and> same_string g1 s s') \<and>
       (\<forall>p\<in>set ps - set ks. \<forall>s. sobj g1 p = Some s \<longrightarrow> sweepstring g1 \<and> isdead g1 s) \<and>
       (\<forall>p\<in>insert p Q \<union> set ks. \<forall>s. obj p = Some s \<longrightarrow> placed tab' (seed g1) p s)"
    proof (rule Cons.IH)
      show "\<forall>q\<in>insert p Q. \<forall>s. sobj g1 q = Some s \<longrightarrow> placed (stab g1) (seed g1) q s"
        using Cons.prems(5,6) pl by (auto simp: f intro: push_placed)
    qed (use Cons.prems p in \<open>auto simp: f curwhite_cong [OF f(5)]\<close>)
    then obtain obj tab' ks where I: "rechain_all g1 ow ps =
         Done (g1\<lparr>sobj := obj, stab := tab', snum := snum g1 - word_of_nat (length ps) + word_of_nat (length ks)\<rparr>)"
       "map fst tab' = map fst (stab g1)" "mset (chained tab') = mset (chained (stab g1)) + mset ks"
       "set ks \<subseteq> set ps" "distinct ks" "\<And>p. p \<notin> set ps \<Longrightarrow> obj p = sobj g1 p" "\<And>p. p\<in>set ps - set ks \<Longrightarrow> obj p = None"
       "\<And>p. p\<in>set ks \<Longrightarrow> \<exists>s s'. sobj g1 p = Some s \<and> obj p = Some s' \<and> same_string g1 s s'"
       "\<And>p s. p\<in>set ps - set ks \<Longrightarrow> sobj g1 p = Some s \<Longrightarrow> sweepstring g1 \<and> isdead g1 s"
       "\<And>q s. q\<in>insert p Q \<union> set ks \<Longrightarrow> obj q = Some s \<Longrightarrow> placed tab' (seed g1) q s"
      by blast
    have pk: "p \<notin> set ks" "obj p = Some s2" using I(4,6) p f by auto
    show ?thesis
    proof (intro exI [of _ obj] exI [of _ tab'] exI [of _ "p # ks"] conjI allI ballI impI)
      show "rechain_all g ow (p # ps) = Done (g\<lparr>sobj := obj, stab := tab',
          snum := snum g - word_of_nat (length (p # ps)) + word_of_nat (length (p # ks))\<rparr>)"
      proof -
        have "rechain_all g ow (p # ps) = rechain_all g1 ow ps"
          unfolding rechain_all.simps s(1) option.case if_not_P [OF False] Let_def
            s1_def [symmetric] s2_def [symmetric] i_def [symmetric] g1_def [symmetric] ..
        then show ?thesis using I(1) by (simp add: g1_def)
      qed
      show "map fst tab' = map fst (stab g)" using I(2) f by (simp add: push_marks)
      show "mset (chained tab') = mset (chained (stab g)) + mset (p # ks)" using I(3) push_chained [OF i] f by simp
      show "set (p # ks) \<subseteq> set (p # ps)" "distinct (p # ks)" using I pk by auto
      show "obj q = sobj g q" if "q \<notin> set (p # ps)" for q using that I(6) [of q] f by simp
      show "obj q = None" if "q \<in> set (p # ps) - set (p # ks)" for q using that I(7) [of q] by auto
      show "\<exists>s s'. sobj g q = Some s \<and> obj q = Some s' \<and> same_string g s s'" if "q \<in> set (p # ks)" for q
      proof (cases "q = p")
        case True
        then show ?thesis using s(1) s2(4) pk by simp
      next
        case False
        then show ?thesis using I(8) [of q] that f by (auto simp: same_string_def isdead_cong [OF f(5)])
      qed
      show "sweepstring g" "isdead g t" if "q \<in> set (p # ps) - set (p # ks)" "sobj g q = Some t" for q t
        using that I(9) [of q t] f by (auto simp: isdead_cong [OF f(5)])
      show "placed tab' (seed g) q t" if "q \<in> Q \<union> set (p # ks)" "obj q = Some t" for q t using I(10) [of q t] that f by simp
    qed
  qed
qed

section \<open>Keeping the invariant\<close>

lemma str_ok_tab:
  assumes "str_ok env g"
  shows "0 < length (stab g)" and "length (stab g) \<le> 2 ^ 26" and "length (stab g) \<le> 2 ^ 32"
    and "distinct (chained (stab g))" and "p \<in> set (chained (stab g)) \<longleftrightarrow> p \<noteq> strempty env \<and> sobj g p \<noteq> None"
    and "snum g = word_of_nat (length (chained (stab g)))" and "curwhite g = 1 \<or> curwhite g = 2"
proof -
  obtain k where k: "k \<le> 26" "length (stab g) = 2 ^ k" using assms by (auto simp: str_ok_def)
  have "(2::nat) ^ k \<le> 2 ^ 26" using k(1) by (intro power_increasing) auto
  with k show "0 < length (stab g)" "length (stab g) \<le> 2 ^ 26" "length (stab g) \<le> 2 ^ 32" by simp_all
qed (use assms in \<open>simp_all add: str_ok_def\<close>)

lemma str_ok_empty: "str_ok env g \<Longrightarrow> \<exists>s. sobj g (strempty env) = Some s \<and> sdata s = [] \<and> \<not> isdead g s"
  by (simp add: str_ok_def)

lemma str_ok_obj:
  assumes "str_ok env g" and "sobj g p = Some s"
  shows "p \<noteq> strempty env \<Longrightarrow> placed (stab g) (seed g) p s" and "p \<noteq> strempty env \<Longrightarrow> sdata s \<noteq> []"
    and "p \<noteq> strempty env \<Longrightarrow> length (sdata s) < LJ_MAX_STR"
    and "p \<noteq> strempty env \<Longrightarrow> p \<noteq> 0 \<and> p < 2 ^ 47"
    and "sobj g q = Some t \<Longrightarrow> sdata s = sdata t \<Longrightarrow> p = q"
  using assms unfolding str_ok_def by blast+

text \<open>A change of the table keeps the invariant when every string of the new state has its data from the old one.\<close>

lemma str_ok_change:
  assumes ok: "str_ok env g" and l: "\<exists>k. k \<le> 26 \<and> length (stab g') = 2 ^ k" and d: "distinct (chained (stab g'))"
    and m: "\<And>p. p \<in> set (chained (stab g')) \<longleftrightarrow> p \<noteq> strempty env \<and> sobj g' p \<noteq> None"
    and e: "sobj g' (strempty env) = sobj g (strempty env)"
    and p: "\<And>p s. sobj g' p = Some s \<Longrightarrow> p \<noteq> strempty env \<Longrightarrow> placed (stab g') (seed g') p s"
    and o: "\<And>p s. sobj g' p = Some s \<Longrightarrow> \<exists>s0. sobj g p = Some s0 \<and> sdata s = sdata s0"
    and n: "snum g' = word_of_nat (length (chained (stab g')))" and c: "currentwhite g' = currentwhite g"
    and s2: "\<And>a. \<not> second g' \<Longrightarrow> a \<in> set (stab g') \<Longrightarrow> \<not> fst a"
  shows "str_ok env g'"
  unfolding str_ok_def
proof (intro conjI allI impI)
  show "\<exists>s. sobj g' (strempty env) = Some s \<and> sdata s = [] \<and> \<not> isdead g' s"
    using str_ok_empty [OF ok] by (simp add: e isdead_cong [OF c])
  show "q1 = q2" if q: "sobj g' q1 = Some t1" "sobj g' q2 = Some t2" "sdata t1 = sdata t2" for q1 q2 t1 t2
  proof -
    obtain u1 u2 where "sobj g q1 = Some u1" "sdata t1 = sdata u1" "sobj g q2 = Some u2" "sdata t2 = sdata u2"
      using o [OF q(1)] o [OF q(2)] by auto
    then show ?thesis using str_ok_obj(5) [OF ok] q(3) by metis
  qed
  show "sdata t \<noteq> []" "length (sdata t) < LJ_MAX_STR" "q \<noteq> 0" "q < 2 ^ 47" if q: "sobj g' q = Some t" "q \<noteq> strempty env" for q t
    using o [OF q(1)] str_ok_obj(2-4) [OF ok _ q(2)] by auto
qed (use l d m p n s2 str_ok_tab(7) [OF ok] curwhite_cong [OF c] in auto)

lemma chained_update: "i < length tab \<Longrightarrow> mset (chained tab) = mset (chained (tab[i := (b, [])])) + mset (snd (tab ! i))"
proof -
  assume i: "i < length tab"
  have "chained tab = chained (take i tab @ tab ! i # drop (Suc i) tab)" using i by (simp add: id_take_nth_drop [symmetric])
  moreover have "tab[i := (b, [])] = take i tab @ (b, []) # drop (Suc i) tab" using i by (simp add: upd_conv_take_nth_drop)
  ultimately show ?thesis by (simp add: chained_def)
qed

lemma rehash_chain_ok:
  assumes ok: "str_ok env g" and m: "\<not> fst (stab g ! anchor (length (stab g)) h)"
  shows "\<exists>g'. lj_str_rehash_chain g h = Done g' \<and> str_ok env g' \<and> kept g g' \<and> length (stab g') = length (stab g) \<and>
     fst (stab g' ! anchor (length (stab g)) h)"
proof -
  note T = str_ok_tab [OF ok]
  define i where "i = anchor (length (stab g)) h"
  have i: "i < length (stab g)" unfolding i_def by (rule anchor_less [OF T(1,3)])
  define ps where "ps = snd (stab g ! i)"
  define tab0 where "tab0 = (stab g)[i := (True, [])]"
  define g0 where "g0 = g\<lparr>stab := tab0, second := True\<rparr>"
  define Q where "Q = set (chained tab0)"
  have f: "sobj g0 = sobj g" "stab g0 = tab0" "snum g0 = snum g" "seed g0 = seed g" "currentwhite g0 = currentwhite g"
    "sweepstring g0 = sweepstring g" "otherwhite g0 = otherwhite g" "second g0" "length tab0 = length (stab g)"
    by (simp_all add: g0_def otherwhite_def tab0_def)
  have ms: "mset (chained (stab g)) = mset (chained tab0) + mset ps"
    unfolding tab0_def ps_def by (rule chained_update [OF i])
  have st: "set (chained (stab g)) = Q \<union> set ps" using arg_cong [OF ms, of set_mset] by (simp add: Q_def)
  have dis: "distinct (chained tab0 @ ps)"
    using T(4) ms by (metis distinct_count_atmost_1 mset_append set_mset_mset)
  have mem: "p \<in> Q \<union> set ps \<longleftrightarrow> p \<noteq> strempty env \<and> sobj g p \<noteq> None" for p using T(5) [of p] st by simp
  have pl: "placed (stab g) (seed g) p s" if "p \<in> Q \<union> set ps" "sobj g p = Some s" for p s
    using that mem [of p] str_ok_obj(1) [OF ok that(2)] by blast
  have "\<exists>obj tab' ks. rechain_all g0 (if sweepstring g0 then otherwhite g0 else 0) ps =
       Done (g0\<lparr>sobj := obj, stab := tab', snum := snum g0 - word_of_nat (length ps) + word_of_nat (length ks)\<rparr>) \<and>
     map fst tab' = map fst (stab g0) \<and> mset (chained tab') = mset (chained (stab g0)) + mset ks \<and>
     set ks \<subseteq> set ps \<and> distinct ks \<and>
     (\<forall>p. p \<notin> set ps \<longrightarrow> obj p = sobj g0 p) \<and> (\<forall>p\<in>set ps - set ks. obj p = None) \<and>
     (\<forall>p\<in>set ks. \<exists>s s'. sobj g0 p = Some s \<and> obj p = Some s' \<and> same_string g0 s s') \<and>
     (\<forall>p\<in>set ps - set ks. \<forall>s. sobj g0 p = Some s \<longrightarrow> sweepstring g0 \<and> isdead g0 s) \<and>
     (\<forall>p\<in>Q \<union> set ks. \<forall>s. obj p = Some s \<longrightarrow> placed tab' (seed g0) p s)"
  proof (rule rechain_all_ok)
    show "0 < length (stab g0)" "length (stab g0) \<le> 2 ^ 32" using T f by simp_all
    show "distinct ps" "Q \<inter> set ps = {}" using dis by (auto simp: Q_def)
    show "\<forall>p\<in>set ps. \<exists>s. sobj g0 p = Some s \<and> consistent (seed g0) s \<and>
        fst (stab g0 ! anchor (length (stab g0)) (hash_sparse (seed g0) (sdata s)))"
    proof
      fix p assume p: "p \<in> set ps"
      then obtain s where s: "sobj g p = Some s" using mem by auto
      note P = pl [OF _ s] 
      have "fst (tab0 ! anchor (length (stab g)) (hash_sparse (seed g) (sdata s)))"
      proof (cases "anchor (length (stab g)) (hash_sparse (seed g) (sdata s)) = i")
        case True
        then show ?thesis using i by (simp add: tab0_def)
      next
        case False
        have "hashalg s"
        proof (rule ccontr)
          assume "\<not> hashalg s"
          then have "p \<in> set (snd (stab g ! anchor (length (stab g)) (hash_sparse (seed g) (sdata s))))"
            using P p by (auto simp: placed_def consistent_def Let_def)
          then have "p \<in> Q" using False anchor_less [OF T(1,3)] unfolding Q_def set_chained tab0_def
            by (metis (no_types, lifting) UN_iff length_list_update nth_list_update_neq nth_mem)
          then show False using dis p by (auto simp: Q_def)
        qed
        then show ?thesis using P p False by (auto simp: placed_def tab0_def)
      qed
      then show "\<exists>s. sobj g0 p = Some s \<and> consistent (seed g0) s \<and>
        fst (stab g0 ! anchor (length (stab g0)) (hash_sparse (seed g0) (sdata s)))"
        using s P p by (simp add: f placed_def)
    qed
    show "\<forall>q\<in>Q. \<forall>s. sobj g0 q = Some s \<longrightarrow> placed (stab g0) (seed g0) q s"
    proof (intro ballI allI impI)
      fix q s assume q: "q \<in> Q" "sobj g0 q = Some s"
      then have P: "placed (stab g) (seed g) q s" using pl by (simp add: f)
      have nq: "q \<notin> set ps" using dis q by (auto simp: Q_def)
      have a: "anchor (length (stab g)) (shash s) \<noteq> i" using P nq by (auto simp: placed_def ps_def)
      have b: "anchor (length (stab g)) (hash_sparse (seed g) (sdata s)) \<noteq> i"
      proof
        assume e: "anchor (length (stab g)) (hash_sparse (seed g) (sdata s)) = i"
        then have "\<not> hashalg s" using P m by (simp add: placed_def i_def)
        then show False using P a e by (simp add: placed_def consistent_def)
      qed
      show "placed (stab g0) (seed g0) q s" using P a b by (simp add: placed_def f tab0_def)
    qed
    show "curwhite g0 = 1 \<or> curwhite g0 = 2" using T(7) curwhite_cong [OF f(5)] by simp
  qed (simp_all add: f)
  then obtain obj tab' ks where I: "rechain_all g0 (if sweepstring g0 then otherwhite g0 else 0) ps =
       Done (g0\<lparr>sobj := obj, stab := tab', snum := snum g0 - word_of_nat (length ps) + word_of_nat (length ks)\<rparr>)"
     "map fst tab' = map fst (stab g0)" "mset (chained tab') = mset (chained (stab g0)) + mset ks"
     "set ks \<subseteq> set ps" "distinct ks"
     "\<And>p. p \<notin> set ps \<Longrightarrow> obj p = sobj g0 p" "\<And>p. p\<in>set ps - set ks \<Longrightarrow> obj p = None"
     "\<And>p. p\<in>set ks \<Longrightarrow> \<exists>s s'. sobj g0 p = Some s \<and> obj p = Some s' \<and> same_string g0 s s'"
     "\<And>p s. p\<in>set ps - set ks \<Longrightarrow> sobj g0 p = Some s \<Longrightarrow> sweepstring g0 \<and> isdead g0 s"
     "\<And>p s. p\<in>Q \<union> set ks \<Longrightarrow> obj p = Some s \<Longrightarrow> placed tab' (seed g0) p s" by blast
  define g1 where "g1 = g0\<lparr>sobj := obj, stab := tab', snum := snum g0 - word_of_nat (length ps) + word_of_nat (length ks)\<rparr>"
  have f1: "sobj g1 = obj" "stab g1 = tab'" "seed g1 = seed g" "currentwhite g1 = currentwhite g"
    "sweepstring g1 = sweepstring g" "second g1" by (simp_all add: g1_def f)
  have len: "length tab' = length (stab g)" using I(2) f by (metis length_map)
  have s': "set (chained tab') = Q \<union> set ks" using arg_cong [OF I(3), of set_mset] by (simp add: f Q_def)
  have ne: "strempty env \<notin> set ps" using mem by blast
  have "str_ok env g1"
  proof (rule str_ok_change [OF ok])
    show "\<exists>k\<le>26. length (stab g1) = 2 ^ k" using ok by (simp add: f1 len str_ok_def)
    show "distinct (chained (stab g1))"
      using I(3-5) dis unfolding f1 f by (metis (no_types, lifting) disjoint_iff distinct_append mset_append mset_eq_imp_distinct_iff subset_iff)
    show "p \<in> set (chained (stab g1)) \<longleftrightarrow> p \<noteq> strempty env \<and> sobj g1 p \<noteq> None" for p
    proof (cases "p \<in> set ps")
      case True
      then have "p \<notin> Q" using dis by (auto simp: Q_def)
      have "obj p \<noteq> None \<longleftrightarrow> p \<in> set ks"
      proof (cases "p \<in> set ks")
        case True
        then show ?thesis using I(8) [OF True] by blast
      next
        case False
        then show ?thesis using I(7) [of p] \<open>p \<in> set ps\<close> by simp
      qed
      moreover have "p \<noteq> strempty env" using True ne by blast
      ultimately show ?thesis using \<open>p \<notin> Q\<close> unfolding f1 s' by blast
    next
      case False
      then have "p \<notin> set ks" using I(4) by auto
      then show ?thesis using False I(6) [of p] mem [of p] s' by (auto simp: f1 f)
    qed
    show "sobj g1 (strempty env) = sobj g (strempty env)" using I(6) [OF ne] by (simp add: f1 f)
    show "placed (stab g1) (seed g1) p s" if "sobj g1 p = Some s" "p \<noteq> strempty env" for p s
    proof -
      have "p \<in> Q \<union> set ks"
      proof (cases "p \<in> set ps")
        case True
        then show ?thesis using I(7) [of p] that(1) by (auto simp: f1)
      next
        case False
        then show ?thesis using I(6) [of p] mem [of p] that by (auto simp: f1 f)
      qed
      then show ?thesis using I(10) that by (simp add: f1 f)
    qed
    show "\<exists>s0. sobj g p = Some s0 \<and> sdata s = sdata s0" if "sobj g1 p = Some s" for p s
      using that I(6) [of p] I(7) [of p] I(8) [of p] by (cases "p \<in> set ks"; cases "p \<in> set ps") (auto simp: f1 f same_string_def)
    have "length (chained (stab g)) = length (chained tab0) + length ps" "length (chained tab') = length (chained tab0) + length ks"
      using arg_cong [OF ms, of size] arg_cong [OF I(3), of size] by (simp_all add: f)
    then show "snum g1 = word_of_nat (length (chained (stab g1)))" using T(6) by (simp add: f1 g1_def f)
    show "currentwhite g1 = currentwhite g" by (rule f1)
  qed (use f1 in simp)
  moreover have "kept g g1"
    unfolding kept_def
  proof (intro conjI allI impI)
    fix p s assume s: "sobj g p = Some s"
    have d: "isdead g0 = isdead g" by (rule isdead_cong) (rule f)
    show "(\<exists>s'. sobj g1 p = Some s' \<and> same_string g s s') \<or> sweepstring g \<and> isdead g s"
      using s I(6) [of p] I(8) [of p] I(9) [of p s] by (cases "p \<in> set ks"; cases "p \<in> set ps") (auto simp: f1 f d same_string_def)
  qed (simp_all add: f1)
  moreover have "fst (stab g1 ! i)"
  proof -
    have "fst (tab' ! i) = fst (tab0 ! i)" using I(2) i len f by (metis nth_map)
    then show ?thesis using i by (simp add: f1 tab0_def)
  qed
  moreover have "lj_str_rehash_chain g h = Done g1"
    using I(1) unfolding f(6,7) ps_def g1_def [symmetric]
    by (simp add: lj_str_rehash_chain_def Let_def g0_def tab0_def g1_def ps_def flip: i_def)
  ultimately show ?thesis using len by (auto simp: f1 i_def)
qed

lemma chain_lengths_ok:
  "\<forall>p\<in>set ps. sobj g p \<noteq> None \<Longrightarrow> \<exists>cs'. chain_lengths g n ps cs = Done cs' \<and> length cs' = length cs"
proof (induction ps arbitrary: cs)
  case (Cons p ps)
  from Cons.prems obtain s where s: "sobj g p = Some s" by auto
  show ?case using Cons.IH Cons.prems by (fastforce simp: s Let_def)
qed auto

lemma secondary_marks_ok:
  assumes "\<forall>p\<in>set (chained (stab g)). sobj g p \<noteq> None"
  shows "\<exists>ms sec. secondary_marks g n = Done (ms, sec) \<and> length ms = n \<and> (\<not> sec \<longrightarrow> True \<notin> set ms)"
proof (cases "second g")
  case True
  obtain cs where "chain_lengths g n (all_chained (stab g)) (replicate n 0) = Done cs" "length cs = n"
    using chain_lengths_ok [of "all_chained (stab g)" g n "replicate n 0"] assms by auto
  with True show ?thesis by (simp add: secondary_marks_def Let_def)
qed (auto simp: secondary_marks_def)

lemma resize_ok:
  assumes ok: "str_ok env g" and n: "n + 1 = 2 ^ k"
  shows "yields (lj_str_resize env g n) (\<lambda>g'. str_ok env g' \<and> kept g g' \<and> (\<forall>p. sobj g' p = None \<longleftrightarrow> sobj g p = None))
    (\<lambda>e. e = LJ_ERR_ERRMEM)"
proof (cases "sweepstring g \<or> LJ_MAX_STRTAB - 1 \<le> n")
  case True
  then show ?thesis using ok by (auto simp: lj_str_resize_def kept_refl)
next
  case False
  note T = str_ok_tab [OF ok]
  have nl: "n + 1 < 2 ^ 26" using False by (simp add: LJ_MAX_STRTAB_def)
  have "(2::nat) ^ k < 2 ^ 26" using nl n by simp
  then have "k < 26" by (rule power_less_imp_less_exp [rotated]) simp
  then have k: "k \<le> 26" by simp
  have "\<forall>p\<in>set (chained (stab g)). sobj g p \<noteq> None" using T(5) by blast
  from secondary_marks_ok [OF this, of "n + 1"] obtain ms sec
    where ms: "secondary_marks g (n + 1) = Done (ms, sec)" "length ms = n + 1" "\<not> sec \<longrightarrow> True \<notin> set ms" by blast
  define tab0 where "tab0 = map (\<lambda>m. (m, [] :: u64 list)) ms"
  define g0 where "g0 = g\<lparr>second := sec\<rparr>"
  define ps where "ps = all_chained (stab g)"
  have f: "sobj g0 = sobj g" "seed g0 = seed g" "currentwhite g0 = currentwhite g" "length tab0 = n + 1"
    using ms(2) by (simp_all add: g0_def tab0_def)
  have c0: "chained tab0 = []" by (simp add: chained_def tab0_def)
  have ps: "set ps = set (chained (stab g))" "mset ps = mset (chained (stab g))"
    by (simp_all add: ps_def all_chained_mset)
  have "\<exists>obj tab'. reinsert_all g0 ps tab0 = Done (g0\<lparr>sobj := obj\<rparr>, tab') \<and> map fst tab' = map fst tab0 \<and>
     mset (chained tab') = mset (chained tab0) + mset ps \<and>
     (\<forall>p. p \<notin> set ps \<longrightarrow> obj p = sobj g0 p) \<and>
     (\<forall>p\<in>set ps. \<exists>s s'. sobj g0 p = Some s \<and> obj p = Some s' \<and> s' = s\<lparr>shash := shash s', hashalg := hashalg s'\<rparr>) \<and>
     (\<forall>p\<in>{} \<union> set ps. \<forall>s. obj p = Some s \<longrightarrow> placed tab' (seed g0) p s)"
  proof (rule reinsert_all_ok)
    show "distinct ps" using T(4) ps(2) by (metis mset_eq_imp_distinct_iff)
    show "\<forall>p\<in>set ps. \<exists>s. sobj g0 p = Some s \<and> consistent (seed g0) s"
      using T(5) str_ok_obj(1) [OF ok] unfolding f ps by (fastforce simp: placed_def)
  qed (use f nl in auto)
  then obtain obj tab' where I: "reinsert_all g0 ps tab0 = Done (g0\<lparr>sobj := obj\<rparr>, tab')" "map fst tab' = map fst tab0"
     "mset (chained tab') = mset (chained tab0) + mset ps" "\<And>p. p \<notin> set ps \<Longrightarrow> obj p = sobj g0 p"
     "\<And>p. p\<in>set ps \<Longrightarrow> \<exists>s s'. sobj g0 p = Some s \<and> obj p = Some s' \<and> s' = s\<lparr>shash := shash s', hashalg := hashalg s'\<rparr>"
     "\<And>p s. p\<in>{} \<union> set ps \<Longrightarrow> obj p = Some s \<Longrightarrow> placed tab' (seed g0) p s" by blast
  define g1 where "g1 = g0\<lparr>sobj := obj, stab := tab'\<rparr>"
  have f1: "sobj g1 = obj" "stab g1 = tab'" "seed g1 = seed g" "currentwhite g1 = currentwhite g" "sweepstring g1 = sweepstring g"
    "snum g1 = snum g" "second g1 = sec" by (simp_all add: g1_def g0_def)
  have run: "lj_str_resize env g n = (if vec_ok env (n + 1) then Done g1 else Raise LJ_ERR_ERRMEM)"
    using False ms(1) I(1) by (simp add: lj_str_resize_def ps_def g0_def tab0_def g1_def)
  have len: "length tab' = 2 ^ k" using I(2) f n by (metis length_map)
  have mt: "mset (chained tab') = mset (chained (stab g))" using I(3) c0 ps by simp
  have same: "\<exists>s'. obj p = Some s' \<and> sdata s' = sdata s \<and> ssid s' = ssid s \<and> smarked s' = smarked s" if q: "sobj g p = Some s" for p s
  proof (cases "p \<in> set ps")
    case True
    from I(5) [OF this] obtain s' where "obj p = Some s'" "s' = s\<lparr>shash := shash s', hashalg := hashalg s'\<rparr>" using q f by auto
    moreover from this(2) have "sdata s' = sdata s \<and> ssid s' = ssid s \<and> smarked s' = smarked s" by (cases s, cases s') simp
    ultimately show ?thesis by blast
  next
    case False
    then show ?thesis using I(4) q f by simp
  qed
  have dom: "obj p = None \<longleftrightarrow> sobj g p = None" for p
    using same I(4) [of p] I(5) [of p] f by (cases "p \<in> set ps") auto
  have "str_ok env g1"
  proof (rule str_ok_change [OF ok])
    show "\<exists>k\<le>26. length (stab g1) = 2 ^ k" using k len f1 by blast
    show "distinct (chained (stab g1))" using T(4) mt unfolding f1 by (metis mset_eq_imp_distinct_iff)
    show "p \<in> set (chained (stab g1)) \<longleftrightarrow> p \<noteq> strempty env \<and> sobj g1 p \<noteq> None" for p
      using T(5) dom mt unfolding f1 by (metis set_mset_mset)
    have "strempty env \<notin> set ps" using T(5) ps by blast
    then show "sobj g1 (strempty env) = sobj g (strempty env)" using I(4) by (simp add: f1 f)
    show "placed (stab g1) (seed g1) p s" if "sobj g1 p = Some s" "p \<noteq> strempty env" for p s
      using that I(6) [of p s] dom [of p] T(5) [of p] ps by (simp add: f1 f)
    show "\<exists>s0. sobj g p = Some s0 \<and> sdata s = sdata s0" if "sobj g1 p = Some s" for p s
      using that dom [of p] same [of p] by (auto simp: f1)
    show "snum g1 = word_of_nat (length (chained (stab g1)))" using T(6) arg_cong [OF mt, of size] by (simp add: f1)
    show "\<not> fst a" if "\<not> second g1" "a \<in> set (stab g1)" for a
    proof -
      have "map fst tab' = ms" using I(2) by (simp add: tab0_def comp_def)
      moreover have "fst a \<in> set (map fst tab')" using that f1 by simp
      moreover have "True \<notin> set ms" using that ms(3) f1 by simp
      ultimately show ?thesis by auto
    qed
  qed (simp add: f1)
  moreover have "kept g g1"
    using same by (fastforce simp: kept_def f1 same_string_def isdead_def)
  ultimately show ?thesis using dom by (simp add: run f1)
qed


section \<open>Interning\<close>

lemma next_strid_fields:
  "sobj (fst (next_strid g)) = sobj g" "stab (fst (next_strid g)) = stab g" "snum (fst (next_strid g)) = snum g"
  "second (fst (next_strid g)) = second g" "seed (fst (next_strid g)) = seed g"
  "currentwhite (fst (next_strid g)) = currentwhite g" "sweepstring (fst (next_strid g)) = sweepstring g"
  by (simp_all add: next_strid_def Let_def split_beta)

text \<open>The string object \<open>p\<close> holds the given bytes and is alive.\<close>

definition holds :: "strstate \<Rightarrow> u64 \<Rightarrow> bytes \<Rightarrow> bool" where
  "holds g p b \<longleftrightarrow> (\<exists>s. sobj g p = Some s \<and> sdata s = b \<and> \<not> isdead g s)"

lemma kept_holds: "kept g g' \<Longrightarrow> holds g p b \<Longrightarrow> holds g' p b"
proof -
  assume k: "kept g g'" and "holds g p b"
  then obtain s where s: "sobj g p = Some s" "sdata s = b" "\<not> isdead g s" by (auto simp: holds_def)
  moreover obtain s' where "sobj g' p = Some s'" "same_string g s s'" using k s by (auto simp: kept_def)
  moreover have "isdead g' = isdead g" using k by (intro isdead_cong) (simp add: kept_def)
  ultimately show ?thesis by (auto simp: holds_def same_string_def)
qed

lemma holds_inj: "str_ok env g \<Longrightarrow> holds g p b \<Longrightarrow> holds g q c \<Longrightarrow> p = q \<longleftrightarrow> b = c"
  using str_ok_obj(5) by (fastforce simp: holds_def)

lemma alloc_ok:
  assumes env: "strenv_ok env" and ok: "str_ok env g" and str: "str \<noteq> []" "length str < LJ_MAX_STR"
    and new: "\<And>p s. sobj g p = Some s \<Longrightarrow> sdata s \<noteq> str"
    and alg: "alg = fst (stab g ! anchor (length (stab g)) (hash_sparse (seed g) str))"
    and hash: "hash = (if alg then hash_dense (seed g) (hash_sparse (seed g) str) str else hash_sparse (seed g) str)"
  shows "yields (lj_str_alloc env g str hash alg)
    (\<lambda>(g', p). str_ok env g' \<and> kept g g' \<and> holds g' p str \<and> p \<noteq> 0 \<and> p < 2 ^ 47) (\<lambda>e. e = LJ_ERR_ERRMEM)"
proof (cases "newstr env (sobj g) (lj_str_size (length str)) = 0")
  case False
  note T = str_ok_tab [OF ok]
  define p where "p = newstr env (sobj g) (lj_str_size (length str))"
  have p: "p \<noteq> 0" "p < 2 ^ 47" "sobj g p = None" using env False by (auto simp: strenv_ok_def p_def)
  define g0 sid where "g0 = fst (next_strid g)" and "sid = snd (next_strid g)"
  have f0: "sobj g0 = sobj g" "stab g0 = stab g" "snum g0 = snum g" "second g0 = second g" "seed g0 = seed g"
    "currentwhite g0 = currentwhite g" "sweepstring g0 = sweepstring g"
    by (simp_all add: g0_def next_strid_fields)
  define s where "s = \<lparr>smarked = curwhite g0, hashalg = alg, ssid = sid, shash = hash, sdata = str\<rparr>"
  define i where "i = anchor (length (stab g)) hash"
  have i: "i < length (stab g)" unfolding i_def by (rule anchor_less [OF T(1,3)])
  define g1 where "g1 = g0\<lparr>sobj := (sobj g0)(p \<mapsto> s), stab := push_chain i p (stab g0), snum := snum g0 + 1\<rparr>"
  have f: "sobj g1 = (sobj g)(p \<mapsto> s)" "stab g1 = push_chain i p (stab g)" "snum g1 = snum g + 1" "second g1 = second g"
    "seed g1 = seed g" "currentwhite g1 = currentwhite g" "sweepstring g1 = sweepstring g"
    by (simp_all add: g1_def f0)
  have al: "\<not> isdead g s" using T(7) by (simp add: s_def isdead_alt curwhite_cong [OF f0(6)]) auto
  have mt: "mset (chained (stab g1)) = add_mset p (mset (chained (stab g)))" using push_chained [OF i] by (simp add: f)
  have pn: "p \<notin> set (chained (stab g))" using T(5) p(3) by simp
  have pe: "p \<noteq> strempty env" using str_ok_empty [OF ok] p(3) by auto
  have ok1: "str_ok env g1"
    unfolding str_ok_def
  proof (intro conjI allI impI)
    show "\<exists>k\<le>26. length (stab g1) = 2 ^ k" using ok by (simp add: str_ok_def f)
    show "distinct (chained (stab g1))" using mt pn T(4) by (metis distinct.simps(2) mset.simps(2) mset_eq_imp_distinct_iff)
    have "set (chained (stab g1)) = insert p (set (chained (stab g)))" using arg_cong [OF mt, of set_mset] by simp
    then show "q \<in> set (chained (stab g1)) \<longleftrightarrow> q \<noteq> strempty env \<and> sobj g1 q \<noteq> None" for q using T(5) [of q] pe by (simp add: f)
    show "\<exists>s. sobj g1 (strempty env) = Some s \<and> sdata s = [] \<and> \<not> isdead g1 s"
      using str_ok_empty [OF ok] pe by (simp add: f isdead_cong [OF f(6)])
    show "placed (stab g1) (seed g1) q t" if "sobj g1 q = Some t" "q \<noteq> strempty env" for q t
    proof (cases "q = p")
      case True
      then have t: "t = s" using that f by simp
      have "placed (push_chain i p (stab g)) (seed g) p s"
        unfolding placed_def
      proof (intro conjI)
        show "consistent (seed g) s" using hash by (simp add: consistent_def s_def Let_def)
        show "hashalg s = fst (push_chain i p (stab g) ! anchor (length (push_chain i p (stab g))) (hash_sparse (seed g) (sdata s)))"
          using alg by (simp add: s_def)
        have "anchor (length (push_chain i p (stab g))) (shash s) = i" by (simp add: s_def i_def)
        then show "p \<in> set (snd (push_chain i p (stab g) ! anchor (length (push_chain i p (stab g))) (shash s)))"
          using push_member [OF i] by simp
      qed
      then show ?thesis using True t f by simp
    next
      case False
      then show ?thesis using that str_ok_obj(1) [OF ok, of q t] f by (simp add: push_placed)
    qed
    show "sdata t \<noteq> []" "length (sdata t) < LJ_MAX_STR" "q \<noteq> 0" "q < 2 ^ 47" if "sobj g1 q = Some t" "q \<noteq> strempty env" for q t
      using that str p(1,2) str_ok_obj(2-4) [OF ok, of q t] by (auto simp: f s_def split: if_splits)
    show "q1 = q2" if "sobj g1 q1 = Some t1" "sobj g1 q2 = Some t2" "sdata t1 = sdata t2" for q1 q2 t1 t2
      using that new [of q1 t1] new [of q2 t2] str_ok_obj(5) [OF ok, of q1 t1 q2 t2] by (auto simp: f s_def split: if_splits)
    show "\<forall>a\<in>set (stab g1). \<not> fst a" if "\<not> second g1"
    proof -
      have "\<forall>a\<in>set (stab g). \<not> fst a" using ok that by (simp add: str_ok_def f)
      then have "True \<notin> set (map fst (stab g1))" unfolding f push_marks by auto
      then show ?thesis by force
    qed
    show "snum g1 = word_of_nat (length (chained (stab g1)))" using T(6) arg_cong [OF mt, of size] by (simp add: f)
    show "curwhite g1 = 1 \<or> curwhite g1 = 2" using T(7) curwhite_cong [OF f(6)] by simp
  qed
  have k1: "kept g g1" using p(3) by (auto simp: kept_def f)
  have h1: "holds g1 p str" using al by (simp add: holds_def f s_def isdead_cong [OF f(6)])
  have run: "lj_str_alloc env g str hash alg =
      cbind (if length (stab g) - 1 < unat (snum g) then lj_str_resize env g1 ((length (stab g) - 1) * 2 + 1) else Done g1) (\<lambda>g. Done (g, p))"
    using False by (simp add: lj_str_alloc_def Let_def split_beta g1_def s_def i_def f0 flip: p_def g0_def sid_def)
  obtain k where "length (stab g) = 2 ^ k" using ok by (auto simp: str_ok_def)
  moreover have "(length (stab g) - 1) * 2 + 1 + 1 = 2 * length (stab g)" using T(1) by linarith
  ultimately have n: "(length (stab g) - 1) * 2 + 1 + 1 = 2 ^ (k + 1)" by simp
  have "yields (if length (stab g) - 1 < unat (snum g) then lj_str_resize env g1 ((length (stab g) - 1) * 2 + 1) else Done g1)
      (\<lambda>g'. str_ok env g' \<and> kept g1 g') (\<lambda>e. e = LJ_ERR_ERRMEM)"
    using yields_mono [OF resize_ok [OF ok1 n]] ok1 kept_refl by auto
  then show ?thesis unfolding run
    by (rule yields_cbind) (use k1 h1 p kept_trans kept_holds in auto)
qed (simp add: lj_str_alloc_def)

lemma chain_search_ok:
  assumes "\<forall>p\<in>set ps. sobj g p \<noteq> None"
  shows "\<exists>r c. chain_search g ps hash str coll = Done (r, c) \<and>
    (case r of
       Some p \<Rightarrow> p \<in> set ps \<and> (\<exists>s. sobj g p = Some s \<and> sdata s = str)
     | None \<Rightarrow> \<forall>p\<in>set ps. \<forall>s. sobj g p = Some s \<longrightarrow> shash s = hash \<longrightarrow> sdata s \<noteq> str)"
  using assms
proof (induction ps arbitrary: coll)
  case (Cons p ps)
  then obtain s where s: "sobj g p = Some s" by auto
  have I: "\<exists>r c. chain_search g ps hash str coll = Done (r, c) \<and>
    (case r of
       Some p \<Rightarrow> p \<in> set ps \<and> (\<exists>s. sobj g p = Some s \<and> sdata s = str)
     | None \<Rightarrow> \<forall>p\<in>set ps. \<forall>s. sobj g p = Some s \<longrightarrow> shash s = hash \<longrightarrow> sdata s \<noteq> str)" for coll
    using Cons by simp
  show ?case using I [of "coll + 1 + 1"] I [of "coll + 1"] by (auto simp: s split: option.splits)
qed simp

lemma intern_ok:
  assumes env: "strenv_ok env" and ok: "str_ok env g"
    and again: "\<And>g'. str_ok env g' \<Longrightarrow> kept g g' \<Longrightarrow> \<not> fst (stab g ! anchor (length (stab g)) (hash_sparse (seed g) str)) \<Longrightarrow>
      fst (stab g' ! anchor (length (stab g')) (hash_sparse (seed g') str)) \<Longrightarrow>
      yields (again g') (\<lambda>(g'', p). str_ok env g'' \<and> kept g' g'' \<and> holds g'' p str \<and> p \<noteq> 0 \<and> p < 2 ^ 47)
        (\<lambda>e. e = LJ_ERR_ERRMEM \<or> e = LJ_ERR_STROV \<and> LJ_MAX_STR \<le> length str)"
  shows "yields (str_intern again env g str) (\<lambda>(g', p). str_ok env g' \<and> kept g g' \<and> holds g' p str \<and> p \<noteq> 0 \<and> p < 2 ^ 47)
    (\<lambda>e. e = LJ_ERR_ERRMEM \<or> e = LJ_ERR_STROV \<and> LJ_MAX_STR \<le> length str)"
proof -
  note T = str_ok_tab [OF ok]
  consider "str = []" | "LJ_MAX_STR \<le> length str" "str \<noteq> []" | "str \<noteq> []" "length str < LJ_MAX_STR" by fastforce
  then show ?thesis
  proof cases
    case 1
    then show ?thesis using ok kept_refl [of g] str_ok_empty [OF ok] env by (auto simp: str_intern_def holds_def strenv_ok_def)
  next
    case 2
    then show ?thesis by (simp add: str_intern_def)
  next
    case 3
    let ?n = "length (stab g)" and ?h = "hash_sparse (seed g) str"
    define alg where "alg = fst (stab g ! anchor ?n ?h)"
    define hash where "hash = (if alg then hash_dense (seed g) ?h str else ?h)"
    define ps where "ps = snd (stab g ! anchor ?n hash)"
    have sub: "set ps \<subseteq> set (chained (stab g))" using anchor_less [OF T(1,3)] by (auto simp: ps_def intro: in_chain)
    then have all: "\<forall>p\<in>set ps. sobj g p \<noteq> None" using T(5) by blast
    obtain r c where rc: "chain_search g ps hash str 0 = Done (r, c)"
      "case r of Some p \<Rightarrow> p \<in> set ps \<and> (\<exists>s. sobj g p = Some s \<and> sdata s = str)
        | None \<Rightarrow> \<forall>p\<in>set ps. \<forall>s. sobj g p = Some s \<longrightarrow> shash s = hash \<longrightarrow> sdata s \<noteq> str"
      using chain_search_ok [OF all] by blast
    have run: "str_intern again env g str = (case r of
               Some p \<Rightarrow> (case sobj g p of None \<Rightarrow> Stuck
                  | Some s \<Rightarrow> Done (if isdead g s then g\<lparr>sobj := (sobj g)(p \<mapsto> flipwhite s)\<rparr> else g, p))
             | None \<Rightarrow> if LJ_STR_MAXCOLL < c \<and> \<not> alg then cbind (lj_str_rehash_chain g hash) again
                 else lj_str_alloc env g str hash alg)"
      unfolding str_intern_def Let_def alg_def [symmetric] hash_def [symmetric] ps_def [symmetric] rc(1) using 3 by simp
    show ?thesis
    proof (cases r)
      case (Some p)
      then obtain s where s: "p \<in> set ps" "sobj g p = Some s" "sdata s = str" using rc(2) by auto
      have pb: "p \<noteq> strempty env" using s(1) sub T(5) by blast
      define g1 where "g1 = (if isdead g s then g\<lparr>sobj := (sobj g)(p \<mapsto> flipwhite s)\<rparr> else g)"
      define s1 where "s1 = (if isdead g s then flipwhite s else s)"
      have f: "sobj g1 = (sobj g)(p \<mapsto> s1)" "stab g1 = stab g" "seed g1 = seed g" "snum g1 = snum g" "second g1 = second g"
        "currentwhite g1 = currentwhite g" "sweepstring g1 = sweepstring g"
        using s(2) by (auto simp: g1_def s1_def)
      have s1: "sdata s1 = sdata s" "ssid s1 = ssid s" "shash s1 = shash s" "hashalg s1 = hashalg s" "\<not> isdead g s1"
        using flip_alive [OF T(7)] by (auto simp: s1_def flipwhite_def)
      have "str_ok env g1"
      proof (rule str_ok_change [OF ok])
        show "placed (stab g1) (seed g1) q t" if "sobj g1 q = Some t" "q \<noteq> strempty env" for q t
          using that str_ok_obj(1) [OF ok s(2) pb] str_ok_obj(1) [OF ok, of q t] s1
          by (auto simp: f placed_def consistent_def split: if_splits)
        show "q \<in> set (chained (stab g1)) \<longleftrightarrow> q \<noteq> strempty env \<and> sobj g1 q \<noteq> None" for q
          using T(5) [of q] s(2) pb by (simp add: f)
        show "\<exists>s0. sobj g q = Some s0 \<and> sdata t = sdata s0" if "sobj g1 q = Some t" for q t
          using that s s1 by (auto simp: f split: if_splits)
        show "\<not> fst a" if "\<not> second g1" "a \<in> set (stab g1)" for a using ok that by (auto simp: str_ok_def f)
      qed (use ok T pb in \<open>auto simp: f str_ok_def\<close>)
      moreover have "kept g g1" using s(2) s1 by (auto simp: kept_def f same_string_def)
      moreover have "holds g1 p str" using s s1 by (simp add: holds_def f isdead_cong [OF f(6)])
      ultimately show ?thesis using str_ok_obj(4) [OF ok s(2) pb] by (simp add: run Some s(2) g1_def)
    next
      case None
      have new: "sdata s \<noteq> str" if "sobj g p = Some s" for p s
      proof
        assume e: "sdata s = str"
        then have "p \<noteq> strempty env" using str_ok_empty [OF ok] that 3(1) by auto
        from str_ok_obj(1) [OF ok that this] have "shash s = hash" "p \<in> set ps"
          using e by (auto simp: placed_def consistent_def Let_def hash_def alg_def ps_def)
        with rc(2) None that e show False by auto
      qed
      show ?thesis
      proof (cases "LJ_STR_MAXCOLL < c \<and> \<not> alg")
        case True
        then have m: "\<not> fst (stab g ! anchor ?n hash)" and h: "hash = ?h" by (simp_all add: hash_def alg_def)
        obtain g' where g': "lj_str_rehash_chain g hash = Done g'" "str_ok env g'" "kept g g'" "length (stab g') = ?n"
            "fst (stab g' ! anchor ?n hash)" using rehash_chain_ok [OF ok m] by blast
        have "seed g' = seed g" using g'(3) by (simp add: kept_def)
        with g' True again [OF g'(2,3)] have "yields (again g') (\<lambda>(g'', p). str_ok env g'' \<and> kept g' g'' \<and> holds g'' p str \<and> p \<noteq> 0 \<and> p < 2 ^ 47)
            (\<lambda>e. e = LJ_ERR_ERRMEM \<or> e = LJ_ERR_STROV \<and> LJ_MAX_STR \<le> length str)" by (simp add: h alg_def)
        then have "yields (again g') (\<lambda>(g'', p). str_ok env g'' \<and> kept g g'' \<and> holds g'' p str \<and> p \<noteq> 0 \<and> p < 2 ^ 47)
            (\<lambda>e. e = LJ_ERR_ERRMEM \<or> e = LJ_ERR_STROV \<and> LJ_MAX_STR \<le> length str)"
          by (rule yields_mono) (auto intro: kept_trans [OF g'(3)])
        then show ?thesis using True g'(1) by (simp add: run None)
      next
        case False
        show ?thesis unfolding run None option.case if_not_P [OF False]
          by (rule yields_mono [OF alloc_ok [OF env ok 3 new alg_def]]) (auto simp: hash_def)
      qed
    qed
  qed
qed

section \<open>Interning any number of strings\<close>

lemma str_new_ok:
  assumes env: "strenv_ok env" and ok: "str_ok env g"
  shows "yields (lj_str_new env g str) (\<lambda>(g', p). str_ok env g' \<and> kept g g' \<and> holds g' p str \<and> p \<noteq> 0 \<and> p < 2 ^ 47)
    (\<lambda>e. e = LJ_ERR_ERRMEM \<or> e = LJ_ERR_STROV \<and> LJ_MAX_STR \<le> length str)"
  unfolding lj_str_new_def
proof (rule intern_ok [OF env ok])
  fix g' assume "str_ok env g'" and m: "fst (stab g' ! anchor (length (stab g')) (hash_sparse (seed g') str))"
  then show "yields (str_intern (\<lambda>_. Stuck) env g' str)
      (\<lambda>(g'', p). str_ok env g'' \<and> kept g' g'' \<and> holds g'' p str \<and> p \<noteq> 0 \<and> p < 2 ^ 47)
      (\<lambda>e. e = LJ_ERR_ERRMEM \<or> e = LJ_ERR_STROV \<and> LJ_MAX_STR \<le> length str)"
    by (intro intern_ok [OF env]) simp_all
qed

text \<open>The interface of an interner: one handle per datum, for as long as the handle is held.\<close>

locale interner =
  fixes intern :: "'s \<Rightarrow> 'd \<Rightarrow> ('s \<times> 'p) comp" and inv :: "'s \<Rightarrow> bool" and rep :: "'s \<Rightarrow> 'p \<Rightarrow> 'd \<Rightarrow> bool"
    and later :: "'s \<Rightarrow> 's \<Rightarrow> bool" and fails :: "'d \<Rightarrow> lj_error \<Rightarrow> bool"
  assumes intern: "inv s \<Longrightarrow> yields (intern s d) (\<lambda>(s', p). inv s' \<and> later s s' \<and> rep s' p d) (fails d)"
    and later_rep: "later s s' \<Longrightarrow> rep s p d \<Longrightarrow> rep s' p d"
    and unique: "inv s \<Longrightarrow> rep s p d \<Longrightarrow> rep s q e \<Longrightarrow> p = q \<longleftrightarrow> d = e"
begin

primrec intern_all :: "'s \<Rightarrow> 'd list \<Rightarrow> ('s \<times> 'p list) comp" where
  "intern_all s [] = Done (s, [])"
| "intern_all s (d # ds) =
     cbind (intern s d) (\<lambda>(s, p). cbind (intern_all s ds) (\<lambda>(s, ps). Done (s, p # ps)))"

lemma intern_all_rep:
  "inv s \<Longrightarrow> yields (intern_all s ds)
     (\<lambda>(s', ps). inv s' \<and> list_all2 (rep s') ps ds \<and> (\<forall>p d. rep s p d \<longrightarrow> rep s' p d)) (\<lambda>e. \<exists>d\<in>set ds. fails d e)"
proof (induction ds arbitrary: s)
  case (Cons d ds)
  have "yields (intern s d) (\<lambda>(s', p). inv s' \<and> later s s' \<and> rep s' p d) (\<lambda>e. \<exists>d\<in>set (d # ds). fails d e)"
    by (rule yields_mono [OF intern [OF Cons.prems]]) auto
  then show ?case unfolding intern_all.simps
  proof (rule yields_cbind)
    fix x assume "case x of (s', p) \<Rightarrow> inv s' \<and> later s s' \<and> rep s' p d"
    then obtain s1 p where x: "x = (s1, p)" "inv s1" "later s s1" "rep s1 p d" by (cases x) auto
    have "yields (cbind (intern_all s1 ds) (\<lambda>(s, ps). Done (s, p # ps)))
      (\<lambda>(s', ps). inv s' \<and> list_all2 (rep s') ps (d # ds) \<and> (\<forall>p d. rep s p d \<longrightarrow> rep s' p d)) (\<lambda>e. \<exists>d\<in>set (d # ds). fails d e)"
      by (rule yields_cbind [OF yields_mono [OF Cons.IH [OF x(2)]]]) (use later_rep [OF x(3)] x(4) in auto)
    then show "yields (case x of (s, p) \<Rightarrow> cbind (intern_all s ds) (\<lambda>(s, ps). Done (s, p # ps)))
      (\<lambda>(s', ps). inv s' \<and> list_all2 (rep s') ps (d # ds) \<and> (\<forall>p d. rep s p d \<longrightarrow> rep s' p d)) (\<lambda>e. \<exists>d\<in>set (d # ds). fails d e)"
      by (simp add: x(1))
  qed
qed simp

lemma intern_all_unique:
  "inv s \<Longrightarrow> yields (intern_all s ds)
     (\<lambda>(s', ps). inv s' \<and> list_all2 (rep s') ps ds \<and>
        (\<forall>i<length ds. \<forall>j<length ds. ps ! i = ps ! j \<longleftrightarrow> ds ! i = ds ! j)) (\<lambda>e. \<exists>d\<in>set ds. fails d e)"
proof (rule yields_mono [OF intern_all_rep], assumption, goal_cases)
  case (1 x)
  obtain s' ps where x: "x = (s', ps)" "inv s'" "list_all2 (rep s') ps ds" using 1 by (cases x) auto
  have "ps ! i = ps ! j \<longleftrightarrow> ds ! i = ds ! j" if "i < length ds" "j < length ds" for i j
    using unique [OF x(2)] x(3) that by (simp add: list_all2_conv_all_nth)
  then show ?case using x by simp
qed simp

end

text \<open>The string table of the code is one.\<close>

interpretation strs: interner "lj_str_new env" "\<lambda>g. strenv_ok env \<and> str_ok env g" holds kept
    "\<lambda>str e. e = LJ_ERR_ERRMEM \<or> e = LJ_ERR_STROV \<and> LJ_MAX_STR \<le> length str" for env
proof
  fix g d assume "strenv_ok env \<and> str_ok env g"
  then show "yields (lj_str_new env g d) (\<lambda>(s', p). (strenv_ok env \<and> str_ok env s') \<and> kept g s' \<and> holds s' p d)
      (\<lambda>e. e = LJ_ERR_ERRMEM \<or> e = LJ_ERR_STROV \<and> LJ_MAX_STR \<le> length d)"
    by (intro yields_mono [OF str_new_ok]) auto
qed (use kept_holds holds_inj in blast)+

text \<open>The state \<^verbatim>\<open>lua_newstate\<close> starts from: no table yet, and the empty string as an object of its own.\<close>

definition blank_strings :: "strenv \<Rightarrow> PRNGState \<Rightarrow> strstate" where
  "blank_strings env rs =
     \<lparr>sobj = [strempty env \<mapsto> \<lparr>smarked = 1, hashalg = False, ssid = 0, shash = 0, sdata = []\<rparr>], stab = [],
      snum = 0, strid = 0, idreseed = 0, second = False, seed = 0, prng = rs, currentwhite = 0x21, sweepstring = False\<rparr>"

lemma str_init_ok: "yields (lj_str_init env (blank_strings env rs)) (str_ok env) (\<lambda>e. e = LJ_ERR_ERRMEM)"
proof -
  define g where "g = (blank_strings env rs)\<lparr>prng := fst (lj_prng_u64 rs), seed := snd (lj_prng_u64 rs)\<rparr>"
  have f: "sobj g = [strempty env \<mapsto> \<lparr>smarked = 1, hashalg = False, ssid = 0, shash = 0, sdata = []\<rparr>]" "stab g = []"
    "snum g = 0" "\<not> second g" "currentwhite g = 0x21" "\<not> sweepstring g"
    by (simp_all add: g_def blank_strings_def)
  have "lj_str_resize env g 255 = (if vec_ok env 256 then Done (g\<lparr>second := False, stab := replicate 256 (False, [])\<rparr>) else Raise LJ_ERR_ERRMEM)"
    by (simp add: lj_str_resize_def secondary_marks_def f LJ_MAX_STRTAB_def all_chained_def map_replicate_const del: replicate_Suc)
  moreover have "lj_str_init env (blank_strings env rs) = lj_str_resize env g 255"
    by (simp add: lj_str_init_def g_def LJ_MIN_STRTAB_def split_beta) (simp add: blank_strings_def)
  moreover have "str_ok env (g\<lparr>second := False, stab := replicate 256 (False, [])\<rparr>)" (is "str_ok env ?g")
  proof -
    have c: "chained (stab ?g) = []" by (simp add: chained_def del: replicate_Suc)
    have w: "curwhite ?g = 1" by (simp add: curwhite_def f LJ_GC_WHITES_def)
    have "\<exists>k\<le>26. length (stab ?g) = 2 ^ k" by (intro exI [of _ 8]) simp
    moreover have "\<not> isdead ?g \<lparr>smarked = 1, hashalg = False, ssid = 0, shash = 0, sdata = []\<rparr>" using w by (simp add: isdead_alt)
    ultimately show ?thesis unfolding str_ok_def c using w by (auto simp: f split: if_splits simp del: replicate_Suc)
  qed
  ultimately show ?thesis by simp
qed

text \<open>C24. Strings are interned. Starting from the table that the VM sets up, after any number of calls of \<^verbatim>\<open>lj_str_new\<close>
  every handle that was returned is a live object with the bytes that were asked for, and two handles are the
  same pointer exactly when the bytes are the same, whatever resizes of the table and rehashes of its chains happened in between.
  The only errors are a failed allocation and a string that is too long; no chain leaves the table and no
  rehash repeats.\<close>

theorem strings_interned:
  assumes "strenv_ok env"
  shows "yields (cbind (lj_str_init env (blank_strings env rs)) (\<lambda>g. strs.intern_all env g bs))
    (\<lambda>(g, ps). str_ok env g \<and> list_all2 (holds g) ps bs \<and>
       (\<forall>i<length bs. \<forall>j<length bs. ps ! i = ps ! j \<longleftrightarrow> bs ! i = bs ! j))
    (\<lambda>e. e = LJ_ERR_ERRMEM \<or> e = LJ_ERR_STROV \<and> (\<exists>b\<in>set bs. LJ_MAX_STR \<le> length b))"
proof (rule yields_cbind [OF yields_mono [OF str_init_ok]])
  fix g assume "str_ok env g"
  with assms have "strenv_ok env \<and> str_ok env g" by simp
  from strs.intern_all_unique [OF this] show "yields (strs.intern_all env g bs)
    (\<lambda>(g, ps). str_ok env g \<and> list_all2 (holds g) ps bs \<and>
       (\<forall>i<length bs. \<forall>j<length bs. ps ! i = ps ! j \<longleftrightarrow> bs ! i = bs ! j))
    (\<lambda>e. e = LJ_ERR_ERRMEM \<or> e = LJ_ERR_STROV \<and> (\<exists>b\<in>set bs. LJ_MAX_STR \<le> length b))"
    by (rule yields_mono) auto
qed simp_all

definition env_two :: strenv where
  "env_two = \<lparr>newstr = (\<lambda>obj n. if obj 32 = None then 32 else if obj 64 = None then 64 else 0), vec_ok = (\<lambda>_. True), strempty = 8\<rparr>"

lemma strings_interned_witness:
  "yields (cbind (lj_str_init env_two (blank_strings env_two lj_prng_seed_fixed)) (\<lambda>g. strs.intern_all env_two g [[97], [98], [97], []]))
    (\<lambda>(g, ps). list_all2 (holds g) ps [[97], [98], [97], []] \<and> ps ! 0 = ps ! 2 \<and> ps ! 0 \<noteq> ps ! 1) (\<lambda>e. e = LJ_ERR_ERRMEM)"
proof -
  have "strenv_ok env_two" by (simp add: strenv_ok_def env_two_def)
  from strings_interned [OF this, of lj_prng_seed_fixed "[[97], [98], [97], []]"] show ?thesis
    by (rule yields_mono) (auto simp: LJ_MAX_STR_def LJ_MAX_MEM32_def numeral_2_eq_2 All_less_Suc)
qed

end
