(* ===== verification/StrFind.thy ===== *)
theory StrFind
  imports StrLaws
begin

text \<open>Comparison and search of strings agree with their textbook definitions.\<close>

section \<open>Comparison\<close>

text \<open>Four bytes in big-endian order.\<close>

fun bevalue :: "bytes \<Rightarrow> nat" where
  "bevalue [] = 0"
| "bevalue (x # xs) = unat x * 256 ^ length xs + bevalue xs"

lemma unat_byte: "unat (x :: u8) < 256"
  using unsigned_less [of x] by simp

lemma bevalue_less: "bevalue xs < 256 ^ length xs"
proof (induction xs)
  case (Cons x xs)
  have "unat x * 256 ^ length xs + bevalue xs < unat x * 256 ^ length xs + 256 ^ length xs" using Cons by simp
  also have "\<dots> = Suc (unat x) * 256 ^ length xs" by simp
  also have "\<dots> \<le> 256 * 256 ^ length xs" using unat_byte [of x] by (intro mult_right_mono) simp_all
  finally show ?case by simp
qed simp

lemma bevalue_lex: "length xs = length ys \<Longrightarrow> bevalue xs < bevalue ys \<longleftrightarrow> ord_class.lexordp xs ys"
proof (induction xs ys rule: list_induct2)
  case (Cons x xs y ys)
  have less: "unat a * 256 ^ n + u < unat b * 256 ^ n + v" if "unat a < unat b" "u < 256 ^ n" for a b :: u8 and n u v :: nat
  proof -
    have "unat a * 256 ^ n + u < Suc (unat a) * 256 ^ n" using that by simp
    also have "\<dots> \<le> unat b * 256 ^ n" using that by (intro mult_right_mono) simp_all
    finally show ?thesis by simp
  qed
  consider "unat x < unat y" | "unat y < unat x" | "x = y" by (metis linorder_neqE_nat word_unat_eq_iff)
  then show ?case
  proof cases
    case 1
    then show ?thesis using less [OF 1 bevalue_less [of xs]] Cons.hyps by (simp add: word_less_nat_alt)
  next
    case 2
    then show ?thesis using less [OF 2 bevalue_less [of ys], of "bevalue xs"] Cons.hyps by (auto simp: word_less_nat_alt)
  next
    case 3
    then show ?thesis using Cons by simp
  qed
qed simp

lemma bevalue_eq: "length xs = length ys \<Longrightarrow> bevalue xs = bevalue ys \<longleftrightarrow> xs = ys"
proof -
  assume l: "length xs = length ys"
  have "xs = ys" if e: "bevalue xs = bevalue ys"
  proof -
    have n: "\<not> ord_class.lexordp xs ys" "\<not> ord_class.lexordp ys xs" using bevalue_lex [OF l] bevalue_lex [OF l [symmetric]] e by auto
    have "xs = ys \<or> ord_class.lexordp xs ys \<or> ord_class.lexordp ys xs" using lexordp_linear [of xs ys] by blast
    with n show ?thesis by blast
  qed
  then show ?thesis by auto
qed

lemma bit_mid_byte: "bit (0xff00 :: u32) n \<longleftrightarrow> 8 \<le> n \<and> n < 16"
proof -
  have e: "(0xff00 :: u32) = push_bit 8 (mask 8)" by (simp add: mask_eq_decr_exp)
  show ?thesis unfolding e by (simp only: bit_push_bit_iff bit_mask_iff possible_bit_word) auto
qed

lemma byte_ranges:
  fixes n :: nat
  obtains "n < 8" | "8 \<le> n" "n < 16" | "16 \<le> n" "n < 24" | "24 \<le> n" "n < 32" | "32 \<le> n"
  by linarith

lemma bit_bswap: "bit (lj_bswap x) n \<longleftrightarrow>
  n < 8 \<and> bit x (n + 24) \<or> 8 \<le> n \<and> n < 16 \<and> bit x (n + 8) \<or> 16 \<le> n \<and> n < 24 \<and> bit x (n - 8) \<or> 24 \<le> n \<and> n < 32 \<and> bit x (n - 24)"
proof -
  have "\<not> bit x m" if "32 \<le> m" for m using that bit_imp_le_length [of x m] by auto
  then show ?thesis
    unfolding lj_bswap_def bit_or_iff bit_and_iff bit_push_bit_iff bit_drop_bit_eq bit_mid_byte comp_apply possible_bit_word
    by (cases n rule: byte_ranges) (auto simp: add.commute)
qed

lemma bit_get_le32: "bit (get_le32 (b0 # b1 # b2 # b3 # r)) n \<longleftrightarrow>
  n < 8 \<and> bit b0 n \<or> 8 \<le> n \<and> n < 16 \<and> bit b1 (n - 8) \<or> 16 \<le> n \<and> n < 24 \<and> bit b2 (n - 16) \<or> 24 \<le> n \<and> n < 32 \<and> bit b3 (n - 24)"
proof -
  have b8: "\<not> bit x m" if "8 \<le> m" for x :: u8 and m using that bit_imp_le_length [of x m] by auto
  show ?thesis
    unfolding get_le32_def
    by (cases n rule: byte_ranges) (auto simp: bit_or_iff bit_push_bit_iff bit_unsigned_iff b8)
qed

lemma word_bytes:
  fixes b0 b1 b2 b3 :: u8 and r :: bytes
  defines "w \<equiv> lj_bswap (get_le32 (b0 # b1 # b2 # b3 # r))"
  shows "unat (drop_bit 24 w) = bevalue [b0]" "unat (drop_bit 16 w) = bevalue [b0, b1]"
    "unat (drop_bit 8 w) = bevalue [b0, b1, b2]" "unat w = bevalue [b0, b1, b2, b3]"
proof -
  have b8: "\<not> bit x n" if "8 \<le> n" for x :: u8 and n using that bit_imp_le_length [of x n] by auto
  have bw: "bit w n \<longleftrightarrow> n < 32 \<and> (24 \<le> n \<and> bit b0 (n - 24) \<or> 16 \<le> n \<and> n < 24 \<and> bit b1 (n - 16) \<or>
      8 \<le> n \<and> n < 16 \<and> bit b2 (n - 8) \<or> n < 8 \<and> bit b3 n)" for n
    unfolding w_def bit_bswap bit_get_le32 by (cases n rule: byte_ranges) auto
  have b: "drop_bit 24 w = ucast b0" "take_bit 8 (drop_bit 16 w) = ucast b1" "take_bit 8 (drop_bit 8 w) = ucast b2" "take_bit 8 w = ucast b3"
    by (rule bit_word_eqI, auto simp: bit_take_bit_iff bit_drop_bit_eq bit_unsigned_iff bw dest: bit_imp_le_length [where ?'a = 8])+
  define u where "u = unat w"
  have d: "unat (drop_bit k w) = u div 2 ^ k" for k unfolding u_def by (simp only: unat_drop_bit_eq drop_bit_nat_def)
  have u8: "unat (ucast x :: u32) = unat x" for x :: u8 by (simp add: unsigned_ucast_eq take_bit_nat_eq_self unat_byte less_trans [OF unat_byte])
  have t: "unat (take_bit 8 v) = unat v mod 256" for v :: u32 by (simp add: unsigned_take_bit_eq take_bit_nat_def)
  have e: "u div 2 ^ 24 = unat b0" "u div 2 ^ 16 mod 256 = unat b1" "u div 2 ^ 8 mod 256 = unat b2" "u mod 256 = unat b3"
    using arg_cong [OF b(1), of unat] arg_cong [OF b(2), of unat] arg_cong [OF b(3), of unat] arg_cong [OF b(4), of unat]
    unfolding t d u8 u_def [symmetric] .
  have x: "u div 2 ^ 24 = u div 2 ^ 16 div 256" "u div 2 ^ 16 = u div 2 ^ 8 div 256" "u div 2 ^ 8 = u div 256"
    by (simp_all flip: div_mult2_eq)
  show 24: "unat (drop_bit 24 w) = bevalue [b0]" unfolding d e by simp
  have "u div 2 ^ 16 = u div 2 ^ 24 * 256 + u div 2 ^ 16 mod 256" unfolding x(1) by simp
  then show "unat (drop_bit 16 w) = bevalue [b0, b1]" unfolding d e by simp
  then have 16: "u div 2 ^ 16 = bevalue [b0, b1]" by (simp add: d)
  have "u div 2 ^ 8 = u div 2 ^ 16 * 256 + u div 2 ^ 8 mod 256" unfolding x(2) by simp
  then show "unat (drop_bit 8 w) = bevalue [b0, b1, b2]" unfolding d e 16 by simp
  then have 8: "u div 2 ^ 8 = bevalue [b0, b1, b2]" by (simp add: d)
  have "u = u div 2 ^ 8 * 256 + u mod 256" unfolding x(3) by simp
  then show "unat w = bevalue [b0, b1, b2, b3]" unfolding e 8 by (simp add: u_def)
qed

lemma word_prefix:
  assumes "4 \<le> length p" and "0 < m" and "m \<le> 4"
  shows "unat (drop_bit (32 - 8 * m) (lj_bswap (get_le32 p))) = bevalue (take m p)"
proof -
  obtain b0 b1 b2 b3 r where p: "p = b0 # b1 # b2 # b3 # r"
    using assms(1) by (auto simp: eval_nat_numeral Suc_le_length_iff)
  from assms(2,3) consider "m = 1" | "m = 2" | "m = 3" | "m = 4" by linarith
  then show ?thesis using word_bytes [of b0 b1 b2 b3 r]
    by cases (simp_all add: p)
qed

lemma strmem_prefix: "i + m \<le> length s \<Longrightarrow> take m (drop i (strmem s)) = take m (drop i s)"
  by (simp add: strmem_def)

lemma strmem_room: "i < length s \<Longrightarrow> i mod 4 = 0 \<Longrightarrow> 4 \<le> length (drop i (strmem s))"
proof -
  assume i: "i < length s" "i mod 4 = 0"
  define q r where "q = i div 4" and "r = length s div 4"
  have "i = 4 * q" using i(2) by (simp add: q_def) presburger
  moreover have l: "length s = 4 * r + length s mod 4" "length s mod 4 < 4" by (simp_all add: r_def)
  ultimately have "q \<le> r" using i(1) by linarith
  moreover have "length s + (4 - length s mod 4) = 4 * r + 4" using l by linarith
  ultimately have "i + 4 \<le> length s + (4 - length s mod 4)" using \<open>i = 4 * q\<close> by linarith
  then show ?thesis by (simp add: strmem_def)
qed

lemma sint_diff:
  assumes "a < 2 ^ 31" and "b < 2 ^ 31"
  shows "sint (word_of_nat a - word_of_nat b :: u32) = int a - int b"
proof -
  have e: "(word_of_nat a - word_of_nat b :: u32) = word_of_int (int a - int b)" by simp
  show ?thesis unfolding e signed_of_int of_int_eq_id id_apply by (rule signed_take_bit_int_eq_self) (use assms in simp_all)
qed

lemma lex_skip: "take i a = take i b \<Longrightarrow> i \<le> length a \<Longrightarrow> i \<le> length b \<Longrightarrow>
  ord_class.lexordp a b \<longleftrightarrow> ord_class.lexordp (drop i a) (drop i b)" for a b :: bytes
proof (induction i arbitrary: a b)
  case (Suc i)
  then show ?case by (cases a; cases b) simp_all
qed simp

lemma lex_differ:
  fixes a b :: bytes
  assumes "take m a \<noteq> take m b" and "m \<le> length a" and "m \<le> length b"
  shows "ord_class.lexordp a b \<longleftrightarrow> ord_class.lexordp (take m a) (take m b)"
  using assms
proof (induction m arbitrary: a b)
  case (Suc m)
  obtain x a' y b' where ab: "a = x # a'" "b = y # b'" using Suc.prems(2,3) by (cases a; cases b) auto
  show ?case
  proof (cases "x = y")
    case True
    then show ?thesis using Suc.IH [of a' b'] Suc.prems by (simp add: ab)
  qed (auto simp: ab)
qed simp

text \<open>The ordering that the sign of the result stands for.\<close>

definition cmp_spec :: "bytes \<Rightarrow> bytes \<Rightarrow> int \<Rightarrow> bool" where
  "cmp_spec a b r \<longleftrightarrow> (r < 0 \<longleftrightarrow> ord_class.lexordp a b) \<and> (r = 0 \<longleftrightarrow> a = b)"

lemma cmp_end:
  assumes "length a < 2 ^ 31" and "length b < 2 ^ 31" and "n = min (length a) (length b)" and "take n a = take n b"
  shows "cmp_spec a b (sint (word_of_nat (length a) - word_of_nat (length b) :: u32))"
proof -
  have s: "sint (word_of_nat (length a) - word_of_nat (length b) :: u32) = int (length a) - int (length b)"
    by (rule sint_diff [OF assms(1,2)])
  have l: "ord_class.lexordp a b \<longleftrightarrow> ord_class.lexordp (drop n a) (drop n b)"
    using assms by (intro lex_skip) auto
  show ?thesis
  proof (cases "length a < length b")
    case True
    then have "drop n a = []" "drop n b \<noteq> []" using assms(3) by auto
    then have "ord_class.lexordp a b" using l by (cases "drop n b") auto
    with True show ?thesis by (auto simp: cmp_spec_def s)
  next
    case False
    then have n: "n = length b" using assms(3) by simp
    then have "\<not> ord_class.lexordp a b" using l by simp
    moreover have "a = b \<longleftrightarrow> length a = length b" using assms(4) n False by auto
    ultimately show ?thesis using False by (auto simp: cmp_spec_def s)
  qed
qed

lemma cmp_differ:
  assumes "take m (drop i a) \<noteq> take m (drop i b)" and "take i a = take i b" and "i + m \<le> length a" and "i + m \<le> length b"
  shows "cmp_spec a b (if bevalue (take m (drop i a)) < bevalue (take m (drop i b)) then - 1 else 1)"
proof -
  have "ord_class.lexordp a b \<longleftrightarrow> ord_class.lexordp (take m (drop i a)) (take m (drop i b))"
    using lex_skip [OF assms(2)] lex_differ [OF assms(1)] assms(3,4) by simp
  then show ?thesis using assms by (auto simp: cmp_spec_def bevalue_lex)
qed

lemma take_add_eq: "take (i + m) a = take (i + m) b \<longleftrightarrow> take i a = take i b \<and> take m (drop i a) = take m (drop i b)"
  if "i + m \<le> length a" "i + m \<le> length b"
proof -
  have "length (take i a) = length (take i b)" using that by simp
  then show ?thesis by (simp add: take_add append_eq_append_conv)
qed

lemma cmp_loop_ok:
  assumes "length a < 2 ^ 31" and "length b < 2 ^ 31" and "n = min (length a) (length b)"
    and "i mod 4 = 0" and "take (min i n) a = take (min i n) b"
  shows "cmp_spec a b (sint (cmp_loop a b n i))"
  using assms
proof (induction a b n i rule: cmp_loop.induct)
  case (1 a b n i)
  note len = "1.prems"(1-3)
  show ?case
  proof (cases "i < n")
    case False
    then show ?thesis using cmp_end [OF len] "1.prems"(5) by (simp add: cmp_loop.simps [of a b n i])
  next
    case True
    define m where "m = min 4 (n - i)"
    have m: "0 < m" "m \<le> 4" "i + m \<le> n" using True by (auto simp: m_def)
    have ml: "i + m \<le> length a" "i + m \<le> length b" "i < length a" "i < length b" using m True len(3) by auto
    have pre: "take i a = take i b" using "1.prems"(5) True by simp
    define va vb where "va = get_le32 (drop i (strmem a))" and "vb = get_le32 (drop i (strmem b))"
    note rooms = strmem_room [OF ml(3) "1.prems"(4)] strmem_room [OF ml(4) "1.prems"(4)]
    have vals: "unat (drop_bit (32 - 8 * m) (lj_bswap va)) = bevalue (take m (drop i a))"
      "unat (drop_bit (32 - 8 * m) (lj_bswap vb)) = bevalue (take m (drop i b))"
      using word_prefix [OF rooms(1) m(1,2)] word_prefix [OF rooms(2) m(1,2)] strmem_prefix ml by (simp_all add: va_def vb_def)
    have eqv: "take m (drop i a) = take m (drop i b) \<longleftrightarrow> drop_bit (32 - 8 * m) (lj_bswap va) = drop_bit (32 - 8 * m) (lj_bswap vb)"
      using vals ml by (simp add: word_unat_eq_iff bevalue_eq)
    have ltv: "bevalue (take m (drop i a)) < bevalue (take m (drop i b)) \<longleftrightarrow> drop_bit (32 - 8 * m) (lj_bswap va) < drop_bit (32 - 8 * m) (lj_bswap vb)"
      using vals by (simp add: word_less_nat_alt)
    define k where "k = (word_of_nat i - word_of_nat n :: u32)"
    have ni: "i < 2 ^ 31" "n < 2 ^ 31" using True len by auto
    have k: "sint k = int i - int n" unfolding k_def by (rule sint_diff [OF ni])
    show ?thesis
    proof (cases "va = vb")
      case eq: True
      have "take m (drop i a) = take m (drop i b)" using eqv eq by simp
      then have "take (i + m) a = take (i + m) b" using pre take_add_eq [OF ml(1,2)] by simp
      moreover have "min (i + 4) n = i + m" using True by (auto simp: m_def)
      ultimately have "cmp_spec a b (sint (cmp_loop a b n (i + 4)))"
        using "1.IH" [OF True va_def vb_def, unfolded eq] len "1.prems"(4) by auto
      then show ?thesis using True eq by (simp add: cmp_loop.simps [of a b n i] va_def vb_def)
    next
      case neq: False
      have r: "sint (- 1 :: u32) = - 1" "sint (1 :: u32) = 1" by simp_all
      show ?thesis
      proof (cases "- 3 \<le> sint k")
        case False
        then have m4: "m = 4" using k by (auto simp: m_def)
        have sw: "lj_bswap va = lj_bswap vb \<longleftrightarrow> take 4 (drop i a) = take 4 (drop i b)" using eqv m4 by simp
        have "take 4 (drop i (strmem a)) \<noteq> take 4 (drop i (strmem b))"
        proof
          assume t: "take 4 (drop i (strmem a)) = take 4 (drop i (strmem b))"
          have "get_le32 x = get_le32 (take 4 x)" for x by (simp add: get_le32_def)
          then show False using t neq by (metis va_def vb_def)
        qed
        then have d: "take m (drop i a) \<noteq> take m (drop i b)" using strmem_prefix ml m4 by metis
        have "cmp_loop a b n i = (if lj_bswap va < lj_bswap vb then - 1 else 1)"
          using True neq False by (simp add: cmp_loop.simps [of a b n i] Let_def flip: va_def vb_def k_def)
        then show ?thesis using cmp_differ [OF d pre ml(1,2)] ltv m4 by (simp add: r split: if_splits)
      next
        case small: True
        then have mn: "m = n - i" "n - i \<le> 3" using k True by (auto simp: m_def)
        have kk: "k = - word_of_nat m" using True by (simp add: k_def mn(1) of_nat_diff)
        from mn m have "m = 1 \<or> m = 2 \<or> m = 3" by auto
        then have sh: "unat (32 + push_bit 3 k) = 32 - 8 * m" unfolding kk by (elim disjE) (simp_all add: mask_eq_decr_exp)
        have run: "cmp_loop a b n i = (if drop_bit (32 - 8 * m) (lj_bswap va) = drop_bit (32 - 8 * m) (lj_bswap vb)
            then word_of_nat (length a) - word_of_nat (length b)
            else if drop_bit (32 - 8 * m) (lj_bswap va) < drop_bit (32 - 8 * m) (lj_bswap vb) then - 1 else 1)"
          using True neq small by (simp add: cmp_loop.simps [of a b n i] Let_def sh flip: va_def vb_def k_def)
        show ?thesis
        proof (cases "take m (drop i a) = take m (drop i b)")
          case True
          have "i + m = n" using mn \<open>i < n\<close> by simp
          then have "take n a = take n b" using True pre take_add_eq [OF ml(1,2)] by simp
          then show ?thesis using cmp_end [OF len] True eqv by (simp add: run)
        next
          case False
          then show ?thesis using cmp_differ [OF False pre ml(1,2)] ltv eqv by (simp add: run r split: if_splits)
        qed
      qed
    qed
  qed
qed

section \<open>Search\<close>

lemma memchr_find: "memchr c xs = find (\<lambda>i. xs ! i = c) [0..<length xs]"
proof (induction xs)
  case (Cons x xs)
  have "find P (map Suc ks) = map_option Suc (find (\<lambda>i. P (Suc i)) ks)" for P ks by (induction ks) auto
  then show ?case using Cons by (simp add: upt_conv_Cons map_Suc_upt [symmetric] del: upt_Suc)
qed simp

lemma find_upt: "find P [a..<b] = (if \<exists>i. a \<le> i \<and> i < b \<and> P i then Some (LEAST i. a \<le> i \<and> P i) else None)"
proof (induction "b - a" arbitrary: a)
  case (Suc n)
  then have "a < b" "n = b - Suc a" by auto
  note u = upt_conv_Cons [OF this(1)]
  show ?case
  proof (cases "P a")
    case True
    then have "(LEAST i. a \<le> i \<and> P i) = a" by (intro Least_equality) auto
    then show ?thesis using True \<open>a < b\<close> by (auto simp: u)
  next
    case False
    then have e: "(a \<le> i \<and> P i) = (Suc a \<le> i \<and> P i)" for i by (metis Suc_leD Suc_leI le_neq_implies_less)
    have "(\<exists>i. a \<le> i \<and> i < b \<and> P i) = (\<exists>i. Suc a \<le> i \<and> i < b \<and> P i)" using e by blast
    then show ?thesis using False Suc.hyps(1) [OF \<open>n = b - Suc a\<close>] by (simp add: u e cong: conj_cong)
  qed
qed auto

lemma find_least: "find P [0..<n] = (if \<exists>i<n. P i then Some (LEAST i. P i) else None)"
  using find_upt [of P 0 n] by simp

text \<open>A match at \<open>i\<close> of a pattern that starts with \<open>c\<close>.\<close>

definition occurs :: "bytes \<Rightarrow> bytes \<Rightarrow> nat \<Rightarrow> bool" where
  "occurs s p i \<longleftrightarrow> take (length p) (drop i s) = p"

lemma occurs_Cons: "i < length s \<Longrightarrow> occurs s (c # p) i \<longleftrightarrow> s ! i = c \<and> take (length p) (drop (Suc i) s) = p"
  by (auto simp: occurs_def Cons_nth_drop_Suc [symmetric])

lemma find_loop_find:
  "slen + length p \<le> length s \<or> slen = 0 \<Longrightarrow>
   find_loop c p s slen off = map_option ((+) off) (find (occurs s (c # p)) [0..<slen])"
proof (induction c p s slen off rule: find_loop.induct)
  case (1 c p s slen off)
  show ?case
  proof (cases "slen = 0")
    case False
    then have l: "slen + length p \<le> length s" using "1.prems" by simp
    have nth: "take slen s ! i = s ! i" if "i < slen" for i using that by simp
    have fm: "memchr c (take slen s) = find (\<lambda>i. s ! i = c) [0..<slen]"
      using l nth by (simp add: memchr_find) (rule find_cong, auto)
    show ?thesis
    proof (cases "memchr c (take slen s)")
      case None
      then have "\<forall>i < slen. s ! i \<noteq> c" using fm by (auto simp: find_least split: if_splits)
      then have "find (occurs s (c # p)) [0..<slen] = None" using l by (auto simp: find_least occurs_Cons)
      then show ?thesis using False None by (simp add: find_loop.simps [of c p s slen])
    next
      case (Some q)
      then have "find (\<lambda>i. s ! i = c) [0..<slen] = Some q" using fm by simp
      then have q: "q < slen" "s ! q = c" "\<And>i. i < q \<Longrightarrow> s ! i \<noteq> c"
        unfolding find_Some_iff by auto
      have before: "\<not> occurs s (c # p) i" if "i < q" for i using q(3) [OF that] that q(1) l by (simp add: occurs_Cons)
      have at: "occurs s (c # p) q \<longleftrightarrow> take (length p) (drop (q + 1) s) = p" using q l by (simp add: occurs_Cons)
      have split: "[0..<slen] = [0..<q] @ q # [Suc q..<slen]" 
        using q(1) upt_add_eq_append [of 0 q "slen - q"] upt_conv_Cons [of q slen] by simp
      have f0: "find (occurs s (c # p)) [0..<q] = None" using before by (simp add: find_None_iff)
      have app: "find P (xs @ ys) = (case find P xs of None \<Rightarrow> find P ys | Some x \<Rightarrow> Some x)" for P :: "nat \<Rightarrow> bool" and xs ys
        by (induction xs) auto
      show ?thesis
      proof (cases "take (length p) (drop (q + 1) s) = p")
        case True
        then show ?thesis using False Some at f0 by (simp add: find_loop.simps [of c p s slen] split app)
      next
        case ne: False
        have "find_loop c p (drop (q + 1) s) (slen - (q + 1)) (off + (q + 1)) =
            map_option ((+) (off + (q + 1))) (find (occurs (drop (q + 1) s) (c # p)) [0..<slen - (q + 1)])"
          by (rule "1.IH" [OF False Some ne]) (use l in auto)
        also have "\<dots> = map_option ((+) off) (find (occurs s (c # p)) [Suc q..<slen])"
        proof -
          have m: "find P (map ((+) k) ks) = map_option ((+) k) (find (\<lambda>i. P (k + i)) ks)" for P and k :: nat and ks by (induction ks) auto
          have "[Suc q..<slen] = map ((+) (Suc q)) [0..<slen - Suc q]" using q(1) by (intro nth_equalityI) auto
          moreover have "occurs (drop (q + 1) s) (c # p) = (\<lambda>i. occurs s (c # p) (Suc q + i))" by (auto simp: occurs_def fun_eq_iff add.commute)
          ultimately show ?thesis by (cases "find (\<lambda>i. occurs s (c # p) (Suc (q + i))) [0..<slen - Suc q]") (simp_all add: m)
        qed
        finally show ?thesis using False Some ne at f0 by (simp add: find_loop.simps [of c p s slen] split app)
      qed
    qed
  qed (simp add: find_loop.simps [of c p s 0])
qed

section \<open>Properties\<close>

text \<open>C25. \<^verbatim>\<open>lj_str_cmp\<close>, which compares four bytes at a time and reads beyond the end of the shorter string, is the
  lexicographic order of unsigned bytes: the result is negative exactly when the first string comes before
  the second one, and zero exactly when they are equal.\<close>

theorem str_cmp_lexicographic:
  assumes "length a < LJ_MAX_STR" and "length b < LJ_MAX_STR"
  shows "(lj_str_cmp a b < 0 \<longleftrightarrow> ord_class.lexordp a b) \<and> (lj_str_cmp a b = 0 \<longleftrightarrow> a = b)"
proof -
  have "(if length a > length b then length b else length a) = min (length a) (length b)" by simp
  then have "cmp_spec a b (lj_str_cmp a b)"
    unfolding lj_str_cmp_def Let_def using assms
    by (simp only:) (rule cmp_loop_ok, auto simp: LJ_MAX_STR_def LJ_MAX_MEM32_def)
  then show ?thesis by (simp add: cmp_spec_def)
qed

lemma str_cmp_lexicographic_witness:
  "lj_str_cmp [97, 98, 99, 100, 101] [97, 98, 99, 100, 200, 1] < 0 \<and> lj_str_cmp [97, 0] [97] \<noteq> 0"
proof -
  have "length [97, 98, 99, 100, 101 :: u8] < LJ_MAX_STR" "length [97, 98, 99, 100, 200, 1 :: u8] < LJ_MAX_STR"
    "length [97, 0 :: u8] < LJ_MAX_STR" "length [97 :: u8] < LJ_MAX_STR" by (simp_all add: LJ_MAX_STR_def LJ_MAX_MEM32_def)
  then show ?thesis using str_cmp_lexicographic [of "[97, 98, 99, 100, 101]" "[97, 98, 99, 100, 200, 1]"]
    str_cmp_lexicographic [of "[97, 0]" "[97]"] by simp
qed

text \<open>C26. \<^verbatim>\<open>lj_str_find\<close> agrees with the naive search: it returns the first offset at which the pattern occurs in
  the string, and no offset when there is none. The empty pattern occurs at the start.\<close>

theorem str_find_first:
  "lj_str_find s p =
     (if \<exists>i. i + length p \<le> length s \<and> occurs s p i then Some (LEAST i. i + length p \<le> length s \<and> occurs s p i) else None)"
proof (cases "length p \<le> length s")
  case False
  then show ?thesis by (auto simp: lj_str_find_def)
next
  case True
  have b: "(\<exists>i. i + length p \<le> length s \<and> P i) = (\<exists>i<length s + 1 - length p. i + length p \<le> length s \<and> P i)" for P
    using True by (metis Suc_eq_plus1 add.commute le_imp_less_Suc less_diff_conv)
  have "lj_str_find s p = find (occurs s p) [0..<length s + 1 - length p]"
  proof (cases p)
    case Nil
    then show ?thesis by (simp add: lj_str_find_def occurs_def upt_conv_Cons del: upt_Suc)
  next
    case (Cons c p')
    have "map_option ((+) 0) x = x" for x :: "nat option" by (cases x) auto
    then show ?thesis using True Cons find_loop_find [of "length s - length p'" p' s c 0]
      by (simp add: lj_str_find_def)
  qed
  also have "\<dots> = find (\<lambda>i. i + length p \<le> length s \<and> occurs s p i) [0..<length s + 1 - length p]"
    using True by (intro find_cong) auto
  finally show ?thesis unfolding find_least b .
qed

lemma str_haspattern_iff: "lj_str_haspattern s \<longleftrightarrow> (\<exists>c\<in>set s. c \<in> set magic_chars)"
proof -
  have p: "list_all lj_char_ispunct magic_chars" "\<not> lj_char_ispunct 0" by code_simp+
  have "lj_char_ispunct c \<and> (c \<in> set magic_chars \<or> c = 0) \<longleftrightarrow> c \<in> set magic_chars" for c
    using p by (auto simp: list_all_iff)
  then show ?thesis by (induction s) auto
qed

end
