(* ===== verification/Serialize.thy ===== *)
theory Serialize
  imports TabWalk StrLaws BufLaws Ir
begin

text \<open>
  Serialization of objects, \<^verbatim>\<open>src/src/lj_serialize.c\<close>: the encoder writes an object graph into a string buffer,
  the decoder reads bytes and builds new objects. The objects are in a heap of strings, tables and C data; an
  address is looked up in the part its tag says. Of a C type only what the code asks is kept: whether it is a 64 bit integer,
  signed or not, a complex number, or something else. The recursion of both directions is bounded by the
  depth counter of the code.
\<close>

section \<open>The heap\<close>

datatype cdkind = CD_INT64 | CD_UINT64 | CD_COMPLEX | CD_OTHER

record gccdata =
  cdkind :: cdkind
  cdbytes :: bytes

text \<open>\<open>hseg\<close> is the map of light userdata segments, empty when it has not been allocated.\<close>

record heap =
  hstr :: strstate
  htab :: "u64 \<Rightarrow> gctab option"
  hcd :: "u64 \<Rightarrow> gccdata option"
  hseg :: "u32 list"

record heapenv =
  hestr :: strenv
  hetab :: tabenv
  newtabaddr :: "(u64 \<Rightarrow> gctab option) \<Rightarrow> u64"
  newcdaddr :: "(u64 \<Rightarrow> gccdata option) \<Rightarrow> u64"
  seg_ok :: "nat \<Rightarrow> bool"
  has_cts :: bool

text \<open>The tables read the ids of strings from the heap.\<close>

definition tabenv_of :: "heapenv \<Rightarrow> heap \<Rightarrow> tabenv" where
  "tabenv_of E h = (hetab E)\<lparr>sid := (\<lambda>p. case sobj (hstr h) p of Some s \<Rightarrow> ssid s | None \<Rightarrow> 0)\<rparr>"

definition str_data :: "heap \<Rightarrow> u64 \<Rightarrow> bytes comp" where
  "str_data h p = (case sobj (hstr h) p of None \<Rightarrow> Stuck | Some s \<Rightarrow> Done (sdata s))"

definition get_tab :: "heap \<Rightarrow> u64 \<Rightarrow> gctab comp" where
  "get_tab h p = (case htab h p of None \<Rightarrow> Stuck | Some t \<Rightarrow> Done t)"

definition heap_str_new :: "heapenv \<Rightarrow> heap \<Rightarrow> bytes \<Rightarrow> (heap \<times> u64) comp" where
  "heap_str_new E h b = cbind (lj_str_new (hestr E) (hstr h) b) (\<lambda>(g, p). Done (h\<lparr>hstr := g\<rparr>, p))"

text \<open>An address of 0 is an allocation that failed.\<close>

definition heap_tab_new :: "heapenv \<Rightarrow> heap \<Rightarrow> nat \<Rightarrow> nat \<Rightarrow> u64 \<Rightarrow> (heap \<times> u64) comp" where
  "heap_tab_new E h as hbits mt =
     (let p = newtabaddr E (htab h)
      in if p = 0 then Raise LJ_ERR_ERRMEM
         else cbind (lj_tab_new (tabenv_of E h) as hbits) (\<lambda>t.
           Done (h\<lparr>htab := (htab h)(p \<mapsto> t\<lparr>metatable := mt\<rparr>)\<rparr>, p)))"

definition heap_cdata_new :: "heapenv \<Rightarrow> heap \<Rightarrow> gccdata \<Rightarrow> (heap \<times> u64) comp" where
  "heap_cdata_new E h c =
     (let p = newcdaddr E (hcd h)
      in if p = 0 then Raise LJ_ERR_ERRMEM else Done (h\<lparr>hcd := (hcd h)(p \<mapsto> c)\<rparr>, p))"

section \<open>Light userdata\<close>

definition LJ_LIGHTUD_BITS_SEG :: nat where "LJ_LIGHTUD_BITS_SEG = 8"
definition LJ_LIGHTUD_BITS_LO :: nat where "LJ_LIGHTUD_BITS_LO = 47 - 8"

definition lightudseg :: "u64 \<Rightarrow> u64" where "lightudseg u = drop_bit LJ_LIGHTUD_BITS_LO u AND 255"
definition lightudlo :: "u64 \<Rightarrow> u64" where "lightudlo u = u AND (push_bit LJ_LIGHTUD_BITS_LO 1 - 1)"
definition lightudup :: "u64 \<Rightarrow> u32" where
  "lightudup p = ucast (push_bit (LJ_LIGHTUD_BITS_LO - 32) (drop_bit LJ_LIGHTUD_BITS_LO p))"

definition lightudV :: "heap \<Rightarrow> tvalue \<Rightarrow> u64 comp" where
  "lightudV h o' =
     (let seg = unat (lightudseg o')
      in if seg = 255 then Done 0
         else if length (hseg h) \<le> seg then Stuck
         else Done (push_bit 32 (ucast (hseg h ! seg)) OR lightudlo o'))"

text \<open>\<^verbatim>\<open>lj_lightud_intern\<close> of \<^verbatim>\<open>src/src/lj_udata.c\<close>: the first segment with the upper bits, or a new one.\<close>

definition lj_lightud_intern :: "heapenv \<Rightarrow> heap \<Rightarrow> u64 \<Rightarrow> (heap \<times> u64) comp" where
  "lj_lightud_intern E h p =
     (let up = lightudup p
      in case find (\<lambda>i. hseg h ! i = up) [0..<length (hseg h)] of
           Some seg \<Rightarrow> Done (h, push_bit LJ_LIGHTUD_BITS_LO (word_of_nat seg) OR lightudlo p)
         | None \<Rightarrow>
             let segnum = length (hseg h)
             in if segnum \<noteq> 0 \<and> 255 \<le> segnum then Raise LJ_ERR_BADLU
                else if (segnum = 0 \<or> (\<exists>k<8. segnum = 2 ^ k)) \<and> segnum \<noteq> 1 \<and> \<not> seg_ok E (if segnum = 0 then 2 else 2 * segnum)
                then Raise LJ_ERR_ERRMEM
                else Done (h\<lparr>hseg := hseg h @ [up]\<rparr>, push_bit LJ_LIGHTUD_BITS_LO (word_of_nat segnum) OR lightudlo p))"

section \<open>Tags and numbers\<close>

definition SER_TAG_NIL :: u32 where "SER_TAG_NIL = 0x00"
definition SER_TAG_FALSE :: u32 where "SER_TAG_FALSE = 0x01"
definition SER_TAG_TRUE :: u32 where "SER_TAG_TRUE = 0x02"
definition SER_TAG_NULL :: u32 where "SER_TAG_NULL = 0x03"
definition SER_TAG_LIGHTUD32 :: u32 where "SER_TAG_LIGHTUD32 = 0x04"
definition SER_TAG_LIGHTUD64 :: u32 where "SER_TAG_LIGHTUD64 = 0x05"
definition SER_TAG_INT :: u32 where "SER_TAG_INT = 0x06"
definition SER_TAG_NUM :: u32 where "SER_TAG_NUM = 0x07"
definition SER_TAG_TAB :: u32 where "SER_TAG_TAB = 0x08"
definition SER_TAG_DICT_MT :: u32 where "SER_TAG_DICT_MT = SER_TAG_TAB + 6"
definition SER_TAG_DICT_STR :: u32 where "SER_TAG_DICT_STR = 0x0f"
definition SER_TAG_INT64 :: u32 where "SER_TAG_INT64 = 0x10"
definition SER_TAG_UINT64 :: u32 where "SER_TAG_UINT64 = 0x11"
definition SER_TAG_COMPLEX :: u32 where "SER_TAG_COMPLEX = 0x12"
definition SER_TAG_STR :: u32 where "SER_TAG_STR = 0x20"

lemmas ser_tags = SER_TAG_NIL_def SER_TAG_FALSE_def SER_TAG_TRUE_def SER_TAG_NULL_def SER_TAG_LIGHTUD32_def
  SER_TAG_LIGHTUD64_def SER_TAG_INT_def SER_TAG_NUM_def SER_TAG_TAB_def SER_TAG_DICT_MT_def SER_TAG_DICT_STR_def
  SER_TAG_INT64_def SER_TAG_UINT64_def SER_TAG_COMPLEX_def SER_TAG_STR_def

definition LJ_SERIALIZE_DEPTH :: nat where "LJ_SERIALIZE_DEPTH = 100"

definition serialize_more :: "bufenv \<Rightarrow> u32 \<Rightarrow> SBuf \<Rightarrow> SBuf comp" where
  "serialize_more B sz sb = (if sbufleft sb < sz then lj_buf_more2 B sb sz else Done sb)"

definition serialize_wu124x :: "u32 \<Rightarrow> SBuf \<Rightarrow> SBuf comp" where
  "serialize_wu124x v sb =
     (if v < 0x1fe0 then
        let v = v - 0xe0 in cbind (wbyte (ucast (0xe0 OR drop_bit 8 v)) sb) (wbyte (ucast v))
      else cbind (wbyte 0xff sb) (lj_buf_wmem (put_le32 v)))"

definition serialize_wu124 :: "u32 \<Rightarrow> SBuf \<Rightarrow> SBuf comp" where
  "serialize_wu124 v sb = (if v < 0xe0 then wbyte (ucast v) sb else serialize_wu124x v sb)"

text \<open>The reader is at the front of a list, the bytes up to the end of the data. Reading beyond the end is stuck.\<close>

definition rd :: "nat \<Rightarrow> bytes \<Rightarrow> bytes comp" where
  "rd n r = (if length r < n then Stuck else Done (take n r))"

definition serialize_ru124x :: "bytes \<Rightarrow> u32 \<Rightarrow> (u32 \<times> bytes) option comp" where
  "serialize_ru124x r v =
     (if v \<noteq> 0xff then
        if r = [] then Done None
        else cbind (rd 1 r) (\<lambda>b. Done (Some (push_bit 8 (v AND 0x1f) + ucast (hd b) + 0xe0, drop 1 r)))
      else if length r < 4 then Done None
      else cbind (rd 4 r) (\<lambda>b. Done (Some (get_le32 b, drop 4 r))))"

definition serialize_ru124 :: "bytes \<Rightarrow> (u32 \<times> bytes) option comp" where
  "serialize_ru124 r =
     (if r \<noteq> [] then
        cbind (rd 1 r) (\<lambda>b. let v = ucast (hd b)
          in if 0xe0 \<le> v then serialize_ru124x (drop 1 r) v else Done (Some (v, drop 1 r)))
      else Done None)"

section \<open>Dictionaries\<close>

record sdict =
  dict_str :: "gctab option"
  dict_mt :: "gctab option"

text \<open>The loops over the array part, which map each string (or table) to its index less one.\<close>

fun dict_str_loop :: "tabenv \<Rightarrow> nat list \<Rightarrow> gctab \<Rightarrow> gctab comp" where
  "dict_str_loop env [] dict = Done dict"
| "dict_str_loop env (i # ks) dict =
     (if asize dict \<le> i then Done dict
      else
        let o' = array dict ! i
        in if tvisstr o' then
             cbind (lj_tab_getstr env dict (gcval o')) (\<lambda>r.
               if r = None then
                 cbind (lj_tab_newkey env (rehash_set rehash_depth env) dict o') (\<lambda>(dict, s).
                   dict_str_loop env ks (store_slot dict s (word_of_nat (i - 1))))
               else dict_str_loop env ks dict)
           else if tvisfalse o' then dict_str_loop env ks dict
           else Raise LJ_ERR_BUFFER_BADOPT)"

fun dict_mt_loop :: "tabenv \<Rightarrow> nat list \<Rightarrow> gctab \<Rightarrow> gctab comp" where
  "dict_mt_loop env [] dict = Done dict"
| "dict_mt_loop env (i # ks) dict =
     (if asize dict \<le> i then Done dict
      else
        let o' = array dict ! i
        in if tvistab o' then
             cbind (lj_tab_get env dict o') (\<lambda>v.
               if tvisnil v then
                 cbind (lj_tab_newkey env (rehash_set rehash_depth env) dict o') (\<lambda>(dict, s).
                   dict_mt_loop env ks (store_slot dict s (word_of_nat (i - 1))))
               else dict_mt_loop env ks dict)
           else if tvisfalse o' then dict_mt_loop env ks dict
           else Raise LJ_ERR_BUFFER_BADOPT)"

definition dict_prep :: "(tabenv \<Rightarrow> nat list \<Rightarrow> gctab \<Rightarrow> gctab comp) \<Rightarrow> tabenv \<Rightarrow> gctab \<Rightarrow> gctab comp" where
  "dict_prep loop env dict =
     (if hmask dict = 0 then
        case lj_tab_len env dict of
          None \<Rightarrow> Stuck
        | Some c \<Rightarrow> cbind c (\<lambda>len.
            if len = 0 then Done dict
            else cbind (lj_tab_resize env dict (asize dict) (hsize2hbits len)) (loop env [1..<len + 1]))
      else Done dict)"

definition lj_serialize_dict_prep_str :: "tabenv \<Rightarrow> gctab \<Rightarrow> gctab comp" where
  "lj_serialize_dict_prep_str = dict_prep dict_str_loop"

definition lj_serialize_dict_prep_mt :: "tabenv \<Rightarrow> gctab \<Rightarrow> gctab comp" where
  "lj_serialize_dict_prep_mt = dict_prep dict_mt_loop"

section \<open>The encoder\<close>

definition put_str :: "bufenv \<Rightarrow> bytes \<Rightarrow> SBuf \<Rightarrow> SBuf comp" where
  "put_str B str sb =
     (let len = word_of_nat (length str)
      in cbind (serialize_more B (5 + len) sb) (\<lambda>sb. cbind (serialize_wu124 (SER_TAG_STR + len) sb) (lj_buf_wmem str)))"

text \<open>A tag and the bytes that follow it.\<close>

definition put_tagged :: "bufenv \<Rightarrow> u32 \<Rightarrow> bytes \<Rightarrow> SBuf \<Rightarrow> SBuf comp" where
  "put_tagged B tag q sb =
     cbind (serialize_more B (1 + word_of_nat (length q)) sb) (\<lambda>sb. cbind (wbyte (ucast tag) sb) (lj_buf_wmem q))"

definition put_dict_index :: "bufenv \<Rightarrow> u32 \<Rightarrow> u32 \<Rightarrow> SBuf \<Rightarrow> SBuf comp" where
  "put_dict_index B tag idx sb =
     cbind (serialize_more B (1 + 5) sb) (\<lambda>sb. cbind (wbyte (ucast tag) sb) (serialize_wu124 idx))"

fun put_array :: "(tvalue \<Rightarrow> SBuf \<Rightarrow> SBuf comp) \<Rightarrow> tvalue list \<Rightarrow> SBuf \<Rightarrow> SBuf comp" where
  "put_array put [] sb = Done sb"
| "put_array put (o' # os) sb = cbind (put o' sb) (put_array put os)"

text \<open>The hash entries, from the last node to the first, until \<open>nhash\<close> have been written.\<close>

fun put_hash :: "(tvalue \<Rightarrow> SBuf \<Rightarrow> SBuf comp) \<Rightarrow> (tvalue \<Rightarrow> SBuf \<Rightarrow> SBuf comp) \<Rightarrow> node list \<Rightarrow> nat \<Rightarrow> SBuf \<Rightarrow> SBuf comp" where
  "put_hash putkey put [] nhash sb = Stuck"
| "put_hash putkey put (n # ns) nhash sb =
     (if tvisnil (nval n) then put_hash putkey put ns nhash sb
      else cbind (putkey (nkey n) sb) (\<lambda>sb. cbind (put (nval n) sb) (\<lambda>sb.
        if nhash = 1 then Done sb else put_hash putkey put ns (nhash - 1) sb)))"

text \<open>A key is replaced by its index when it is in the dictionary.\<close>

definition put_dict_key :: "bufenv \<Rightarrow> heapenv \<Rightarrow> heap \<Rightarrow> gctab \<Rightarrow> (tvalue \<Rightarrow> SBuf \<Rightarrow> SBuf comp) \<Rightarrow> tvalue \<Rightarrow> SBuf \<Rightarrow> SBuf comp" where
  "put_dict_key B E h dict put k sb =
     (if tvisstr k then
        cbind (lj_tab_getstr (tabenv_of E h) dict (gcval k)) (\<lambda>r.
          case r of
            Some v \<Rightarrow> put_dict_index B SER_TAG_DICT_STR (lo32 v) sb
          | None \<Rightarrow> cbind (str_data h (gcval k)) (\<lambda>str. put_str B str sb))
      else put k sb)"

definition put_metatable :: "bufenv \<Rightarrow> sdict \<Rightarrow> gctab \<Rightarrow> SBuf \<Rightarrow> SBuf comp" where
  "put_metatable B D t sb =
     (case dict_mt D of
        None \<Rightarrow> Done sb
      | Some dict \<Rightarrow>
          if metatable t = 0 then Done sb
          else let mto = setgcVraw (metatable t) LJ_TTAB
               in cbind (find_node dict (\<lambda>k. k = mto) (hashmask dict (hashrot (lo32 mto) (hi32 mto)))) (\<lambda>i.
                    case i of
                      Some n \<Rightarrow> put_dict_index B SER_TAG_DICT_MT (lo32 (nval (nodes dict ! n))) sb
                    | None \<Rightarrow> Done sb))"

text \<open>The length of the array part up to its last value, and the number of used nodes.\<close>

definition ser_narray :: "gctab \<Rightarrow> nat" where
  "ser_narray t = (case find (\<lambda>i. \<not> tvisnil (array t ! i)) (rev [0..<asize t]) of Some i \<Rightarrow> i + 1 | None \<Rightarrow> 0)"

definition ser_nhash :: "gctab \<Rightarrow> nat" where
  "ser_nhash t = (if 0 < hmask t then length (filter (\<lambda>n. \<not> tvisnil (nval n)) (take (hmask t + 1) (nodes t))) else 0)"

text \<open>The bits of the tag for the array part: 4 tells that the slot 0 is skipped.\<close>

definition ser_one :: "gctab \<Rightarrow> nat" where
  "ser_one t = (if ser_narray t \<noteq> 0 \<and> tvisnil (array t ! 0) then 4 else 2)"

definition put_tab ::
    "bufenv \<Rightarrow> heapenv \<Rightarrow> heap \<Rightarrow> sdict \<Rightarrow> (tvalue \<Rightarrow> SBuf \<Rightarrow> SBuf comp) \<Rightarrow> gctab \<Rightarrow> SBuf \<Rightarrow> SBuf comp" where
  "put_tab B E h D put t sb =
     (let narray = ser_narray t; nhash = ser_nhash t; one = ser_one t
      in cbind (put_metatable B D t sb) (\<lambda>sb.
         cbind (serialize_more B (1 + 2 * 5) sb) (\<lambda>sb.
         cbind (wbyte (ucast (SER_TAG_TAB + (if nhash \<noteq> 0 then 1 else 0) + (if narray \<noteq> 0 then word_of_nat one else 0))) sb) (\<lambda>sb.
         cbind (if narray \<noteq> 0 then serialize_wu124 (word_of_nat narray) sb else Done sb) (\<lambda>sb.
         cbind (if nhash \<noteq> 0 then serialize_wu124 (word_of_nat nhash) sb else Done sb) (\<lambda>sb.
         cbind (if narray \<noteq> 0 then put_array put (map ((!) (array t)) [one div 4..<narray]) sb else Done sb) (\<lambda>sb.
         if nhash \<noteq> 0 then
           put_hash (case dict_str D of None \<Rightarrow> put | Some dict \<Rightarrow> put_dict_key B E h dict put) put
             (rev (take (hmask t + 1) (nodes t))) nhash sb
         else Done sb)))))))"

definition put_lightud :: "bufenv \<Rightarrow> u64 \<Rightarrow> SBuf \<Rightarrow> SBuf comp" where
  "put_lightud B ud sb =
     cbind (serialize_more B (1 + 8) sb) (\<lambda>sb.
       if ud = 0 then wbyte (ucast SER_TAG_NULL) sb
       else if unat ud < 2 ^ 32 then cbind (wbyte (ucast SER_TAG_LIGHTUD32) sb) (lj_buf_wmem (take 4 (put_le64 ud)))
       else cbind (wbyte (ucast SER_TAG_LIGHTUD64) sb) (lj_buf_wmem (put_le64 ud)))"

text \<open>One object; \<open>puttab\<close> writes a table. (There are no integer tags without dual-number mode.)\<close>

definition put_value ::
    "bufenv \<Rightarrow> heap \<Rightarrow> (gctab \<Rightarrow> SBuf \<Rightarrow> SBuf comp) \<Rightarrow> tvalue \<Rightarrow> SBuf \<Rightarrow> SBuf comp" where
  "put_value B h puttab o' sb =
     (if tvisstr o' then cbind (str_data h (gcval o')) (\<lambda>str. put_str B str sb)
      else if tvisnum o' then put_tagged B SER_TAG_NUM (put_le64 o') sb
      else if tvispri o' then
        cbind (serialize_more B 1 sb) (wbyte (ucast (SER_TAG_NIL + NOT (itype o'))))
      else if tvistab o' then cbind (get_tab h (gcval o')) (\<lambda>t. puttab t sb)
      else if tviscdata o' then
        (case hcd h (gcval o') of
           None \<Rightarrow> Stuck
         | Some c \<Rightarrow>
             (case cdkind c of
                CD_INT64 \<Rightarrow> put_tagged B SER_TAG_INT64 (take 8 (cdbytes c)) sb
              | CD_UINT64 \<Rightarrow> put_tagged B SER_TAG_UINT64 (take 8 (cdbytes c)) sb
              | CD_COMPLEX \<Rightarrow> put_tagged B SER_TAG_COMPLEX (take 16 (cdbytes c)) sb
              | CD_OTHER \<Rightarrow> Raise LJ_ERR_BUFFER_BADENC))
      else if tvislightud o' then cbind (lightudV h o') (\<lambda>ud. put_lightud B ud sb)
      else Raise LJ_ERR_BUFFER_BADENC)"

fun serialize_put :: "nat \<Rightarrow> bufenv \<Rightarrow> heapenv \<Rightarrow> heap \<Rightarrow> sdict \<Rightarrow> tvalue \<Rightarrow> SBuf \<Rightarrow> SBuf comp" where
  "serialize_put 0 B E h D = put_value B h (\<lambda>_ _. Raise LJ_ERR_BUFFER_DEPTH)"
| "serialize_put (Suc depth) B E h D = put_value B h (put_tab B E h D (serialize_put depth B E h D))"

section \<open>The decoder\<close>

text \<open>Storing into a slot of a table of the heap; the slot has to be one of the table.\<close>

definition slot_in :: "gctab \<Rightarrow> slot \<Rightarrow> bool" where
  "slot_in t s = (case s of ASlot i \<Rightarrow> i < length (array t) | NSlot n \<Rightarrow> n < length (nodes t))"

definition heap_store :: "heap \<Rightarrow> u64 \<Rightarrow> slot \<Rightarrow> tvalue \<Rightarrow> heap comp" where
  "heap_store h p s v =
     cbind (get_tab h p) (\<lambda>t.
       if slot_in t s then Done (h\<lparr>htab := (htab h)(p \<mapsto> store_slot t s v)\<rparr>) else Stuck)"

definition slot_value :: "gctab \<Rightarrow> slot \<Rightarrow> tvalue" where
  "slot_value t s = (case s of ASlot i \<Rightarrow> array t ! i | NSlot n \<Rightarrow> nval (nodes t ! n))"

type_synonym getter = "heap \<Rightarrow> bytes \<Rightarrow> (heap \<times> tvalue \<times> bytes) comp"

fun get_array :: "getter \<Rightarrow> u64 \<Rightarrow> nat list \<Rightarrow> heap \<Rightarrow> bytes \<Rightarrow> (heap \<times> bytes) comp" where
  "get_array get p [] h r = Done (h, r)"
| "get_array get p (i # ks) h r =
     cbind (get h r) (\<lambda>(h, v, r). cbind (heap_store h p (ASlot i) v) (\<lambda>h. get_array get p ks h r))"

primrec get_hash :: "getter \<Rightarrow> heapenv \<Rightarrow> u64 \<Rightarrow> nat \<Rightarrow> heap \<Rightarrow> bytes \<Rightarrow> (heap \<times> bytes) comp" where
  "get_hash get E p 0 h r = Done (h, r)"
| "get_hash get E p (Suc n) h r =
     cbind (get h r) (\<lambda>(h, k, r).
     cbind (get_tab h p) (\<lambda>t.
     cbind (lj_tab_set (tabenv_of E h) t k) (\<lambda>(t, s).
       if \<not> tvisnil (slot_value t s) then Raise LJ_ERR_BUFFER_DUPKEY
       else
         cbind (get (h\<lparr>htab := (htab h)(p \<mapsto> t)\<rparr>) r) (\<lambda>(h, v, r).
         cbind (heap_store h p s v) (\<lambda>h. get_hash get E p n h r)))))"

definition eob :: "'a option comp \<Rightarrow> ('a \<Rightarrow> 'b comp) \<Rightarrow> 'b comp" where
  "eob c f = cbind c (\<lambda>c. case c of None \<Rightarrow> Raise LJ_ERR_BUFFER_EOB | Some x \<Rightarrow> f x)"

text \<open>The metatable of the tag \<^verbatim>\<open>SER_TAG_DICT_MT\<close>, and the tag of the table that follows it.\<close>

definition get_metatable :: "sdict \<Rightarrow> u32 \<Rightarrow> bytes \<Rightarrow> (u64 \<times> u32 \<times> bytes) comp" where
  "get_metatable D tp r =
     (if tp = SER_TAG_DICT_MT then
        eob (serialize_ru124 r) (\<lambda>(idx, r).
          let idx = idx + 1
          in case dict_mt D of
               Some dict \<Rightarrow>
                 if unat idx < asize dict \<and> tvistab (array dict ! unat idx) then
                   eob (serialize_ru124 r) (\<lambda>(tp, r).
                     if SER_TAG_TAB \<le> tp \<and> tp < SER_TAG_DICT_MT then Done (gcval (array dict ! unat idx), tp, r)
                     else Raise (LJ_ERR_BUFFER_BADDEC tp))
                 else Raise (LJ_ERR_BUFFER_BADDICTX idx)
             | None \<Rightarrow> Raise (LJ_ERR_BUFFER_BADDICTX idx))
      else Done (0, tp, r))"

definition get_table :: "getter \<Rightarrow> heapenv \<Rightarrow> sdict \<Rightarrow> u32 \<Rightarrow> getter" where
  "get_table get E D tp h r =
     cbind (get_metatable D tp r) (\<lambda>(mt, tp, r).
     eob (if SER_TAG_TAB + 2 \<le> tp then serialize_ru124 r else Done (Some (0, r))) (\<lambda>(narray, r).
     eob (if tp AND 1 \<noteq> 0 then serialize_ru124 r else Done (Some (0, r))) (\<lambda>(nhash, r).
     cbind (heap_tab_new E h (unat narray) (hsize2hbits (unat nhash)) mt) (\<lambda>(h, p).
     cbind (if narray \<noteq> 0 then get_array get p [(if SER_TAG_TAB + 4 \<le> tp then 1 else 0)..<unat narray] h r else Done (h, r)) (\<lambda>(h, r).
     cbind (if nhash \<noteq> 0 then get_hash get E p (unat nhash) h r else Done (h, r)) (\<lambda>(h, r).
       Done (h, setgcVraw p LJ_TTAB, r)))))))"

definition nanV :: tvalue where "nanV = 0xfff8000000000000"

definition fix_nan :: "u64 \<Rightarrow> u64" where "fix_nan x = (if \<not> tvisnum x then nanV else x)"

definition get_cdata :: "heapenv \<Rightarrow> u32 \<Rightarrow> getter" where
  "get_cdata E tp h r =
     (let sz = (if tp = SER_TAG_COMPLEX then 16 else 8)
      in if length r < sz then Raise LJ_ERR_BUFFER_EOB
         else if \<not> has_cts E then Raise (LJ_ERR_BUFFER_BADDEC tp)
         else cbind (rd sz r) (\<lambda>b.
           let c = (if tp = SER_TAG_INT64 then \<lparr>cdkind = CD_INT64, cdbytes = b\<rparr>
                    else if tp = SER_TAG_UINT64 then \<lparr>cdkind = CD_UINT64, cdbytes = b\<rparr>
                    else \<lparr>cdkind = CD_COMPLEX, cdbytes = put_le64 (fix_nan (get_le64 b)) @ put_le64 (fix_nan (get_le64 (drop 8 b)))\<rparr>)
           in cbind (heap_cdata_new E h c) (\<lambda>(h, p). Done (h, setgcVraw p LJ_TCDATA, drop sz r))))"

definition get_lightud :: "heapenv \<Rightarrow> u32 \<Rightarrow> getter" where
  "get_lightud E tp h r =
     eob (if tp = SER_TAG_LIGHTUD32 then
            if length r < 4 then Done None else cbind (rd 4 r) (\<lambda>b. Done (Some (ucast (get_le32 b), drop 4 r)))
          else if tp = SER_TAG_LIGHTUD64 then
            if length r < 8 then Done None else cbind (rd 8 r) (\<lambda>b. Done (Some (get_le64 b, drop 8 r)))
          else Done (Some (0, r))) (\<lambda>(ud, r).
     cbind (lj_lightud_intern E h ud) (\<lambda>(h, p). Done (h, setgcVraw p LJ_TLIGHTUD, r)))"

definition get_dict_str :: "sdict \<Rightarrow> getter" where
  "get_dict_str D h r =
     eob (serialize_ru124 r) (\<lambda>(idx, r).
       let idx = idx + 1
       in case dict_str D of
            Some dict \<Rightarrow>
              if unat idx < asize dict \<and> tvisstr (array dict ! unat idx) then Done (h, array dict ! unat idx, r)
              else Raise (LJ_ERR_BUFFER_BADDICTX idx)
          | None \<Rightarrow> Raise (LJ_ERR_BUFFER_BADDICTX idx))"

definition get_value :: "heapenv \<Rightarrow> sdict \<Rightarrow> (u32 \<Rightarrow> getter) \<Rightarrow> getter" where
  "get_value E D gettab h r =
     eob (serialize_ru124 r) (\<lambda>(tp, r).
       if SER_TAG_STR \<le> tp then
         let len = unat (tp - SER_TAG_STR)
         in if length r < len then Raise LJ_ERR_BUFFER_EOB
            else cbind (rd len r) (\<lambda>b.
              cbind (heap_str_new E h b) (\<lambda>(h, p). Done (h, setgcVraw p LJ_TSTR, drop len r)))
       else if tp = SER_TAG_INT then
         if length r < 4 then Raise LJ_ERR_BUFFER_EOB
         else cbind (rd 4 r) (\<lambda>b. Done (h, num_of_int (sint (get_le32 b)), drop 4 r))
       else if tp = SER_TAG_NUM then
         if length r < 8 then Raise LJ_ERR_BUFFER_EOB
         else cbind (rd 8 r) (\<lambda>b. Done (h, fix_nan (get_le64 b), drop 8 r))
       else if tp \<le> SER_TAG_TRUE then Done (h, setpriV (NOT tp), r)
       else if tp = SER_TAG_DICT_STR then get_dict_str D h r
       else if SER_TAG_TAB \<le> tp \<and> tp \<le> SER_TAG_DICT_MT then gettab tp h r
       else if SER_TAG_INT64 \<le> tp \<and> tp \<le> SER_TAG_COMPLEX then get_cdata E tp h r
       else if tp \<le> SER_TAG_LIGHTUD64 then get_lightud E tp h r
       else Raise (LJ_ERR_BUFFER_BADDEC tp))"

fun serialize_get :: "nat \<Rightarrow> heapenv \<Rightarrow> sdict \<Rightarrow> getter" where
  "serialize_get 0 E D = get_value E D (\<lambda>_ _ _. Raise LJ_ERR_BUFFER_DEPTH)"
| "serialize_get (Suc depth) E D = get_value E D (get_table (serialize_get depth E D) E D)"

section \<open>The interface\<close>

definition lj_serialize_put :: "bufenv \<Rightarrow> heapenv \<Rightarrow> heap \<Rightarrow> sdict \<Rightarrow> SBuf \<Rightarrow> tvalue \<Rightarrow> SBuf comp" where
  "lj_serialize_put B E h D sbx o' = serialize_put LJ_SERIALIZE_DEPTH B E h D o' sbx"

text \<open>The readable bytes of a buffer are those between its read and its write pointer.\<close>

definition lj_serialize_get :: "heapenv \<Rightarrow> heap \<Rightarrow> sdict \<Rightarrow> SBuf \<Rightarrow> (heap \<times> tvalue \<times> bytes) comp" where
  "lj_serialize_get E h D sbx = serialize_get LJ_SERIALIZE_DEPTH E D h (drop (br sbx) (take (bw sbx) (bmem sbx)))"

definition no_dict :: sdict where "no_dict = \<lparr>dict_str = None, dict_mt = None\<rparr>"

definition lj_serialize_encode :: "bufenv \<Rightarrow> heapenv \<Rightarrow> heap \<Rightarrow> SBuf \<Rightarrow> tvalue \<Rightarrow> (heap \<times> u64) comp" where
  "lj_serialize_encode B E h tmpbuf o' =
     cbind (serialize_put LJ_SERIALIZE_DEPTH B E h no_dict o' (lj_bufx_set_borrow lj_bufx_init tmpbuf)) (\<lambda>sbx.
       heap_str_new E h (take (bw sbx) (bmem sbx)))"

definition lj_serialize_decode :: "heapenv \<Rightarrow> heap \<Rightarrow> u64 \<Rightarrow> (heap \<times> tvalue) comp" where
  "lj_serialize_decode E h str =
     cbind (str_data h str) (\<lambda>b.
     cbind (lj_serialize_get E h no_dict (lj_bufx_set_cow lj_bufx_init b)) (\<lambda>(h, o', r).
       if r \<noteq> [] then Raise LJ_ERR_BUFFER_LEFTOV else Done (h, o')))"

text \<open>\<^verbatim>\<open>itype2irt\<close> of \<^verbatim>\<open>src/src/lj_ir.h\<close>.\<close>

definition itype2irt :: "tvalue \<Rightarrow> u8" where
  "itype2irt v = (if tvisnum v then IRT_NUM else ucast (NOT (itype v)))"

text \<open>The type of the next object, seen from its tag.\<close>

definition lj_serialize_peektype :: "bytes \<Rightarrow> u8 comp" where
  "lj_serialize_peektype r =
     cbind (serialize_ru124 r) (\<lambda>c. Done (case c of
        None \<Rightarrow> IRT_NIL
      | Some (tp, _) \<Rightarrow>
          if tp = SER_TAG_NIL then IRT_NIL
          else if tp = SER_TAG_FALSE then IRT_FALSE
          else if tp = SER_TAG_TRUE then IRT_TRUE
          else if tp \<in> {SER_TAG_NULL, SER_TAG_LIGHTUD32, SER_TAG_LIGHTUD64} then IRT_LIGHTUD
          else if tp = SER_TAG_INT \<or> tp = SER_TAG_NUM then IRT_NUM
          else if tp \<in> {SER_TAG_TAB, SER_TAG_TAB + 1, SER_TAG_TAB + 2, SER_TAG_TAB + 3, SER_TAG_TAB + 4, SER_TAG_TAB + 5, SER_TAG_DICT_MT}
          then IRT_TAB
          else if tp \<in> {SER_TAG_INT64, SER_TAG_UINT64, SER_TAG_COMPLEX} then IRT_CDATA
          else IRT_STR))"

end
