(* ===== verification/SerWire.thy ===== *)
theory SerWire
  imports Serialize
begin

text \<open>
  The wire format of \<^verbatim>\<open>src/src/lj_serialize.c\<close>: the variable-length numbers read back, and the tag of an
  object tells the type of the value that decoding it gives.
\<close>

section \<open>Numbers\<close>

text \<open>The bytes of a number.\<close>

definition u124 :: "u32 \<Rightarrow> bytes" where
  "u124 v = (if v < 0xe0 then [ucast v]
     else if v < 0x1fe0 then [ucast (0xe0 OR drop_bit 8 (v - 0xe0)), ucast (v - 0xe0)]
     else 0xff # put_le32 v)"

lemma unat_ucast8: "unat (ucast (b :: u8) :: u32) = unat b"
proof -
  have "unat b < 2 ^ LENGTH(8)" by (rule unsigned_less)
  then show ?thesis by (simp add: unsigned_ucast_eq take_bit_nat_eq_self)
qed

lemma length_u124: "u124 v \<noteq> []" "length (u124 v) \<le> 5"
  by (simp_all add: u124_def)

lemma writes_wu124 [puts_intros]: "writes (u124 v) (serialize_wu124 v)"
proof -
  have "writes (u124 v) (serialize_wu124x v)" if "\<not> v < 0xe0"
  proof (cases "v < 0x1fe0")
    case True
    have "writes ([ucast (0xe0 OR drop_bit 8 (v - 0xe0))] @ [ucast (v - 0xe0)]) (serialize_wu124x v)"
      using writes_cbind [OF writes_wbyte writes_wbyte] True unfolding serialize_wu124x_def Let_def by (simp del: append.simps)
    with True that show ?thesis by (simp add: u124_def)
  next
    case False
    have "writes ([0xff] @ put_le32 v) (serialize_wu124x v)"
      using writes_cbind [OF writes_wbyte writes_wmem] False unfolding serialize_wu124x_def Let_def by (simp del: append.simps)
    with False that show ?thesis by (simp add: u124_def)
  qed
  moreover have "serialize_wu124 v = (if v < 0xe0 then wbyte (ucast v) else serialize_wu124x v)"
    by (simp add: fun_eq_iff serialize_wu124_def)
  moreover have "u124 v = [ucast v]" if "v < 0xe0" using that by (simp add: u124_def)
  ultimately show ?thesis using writes_wbyte by (cases "v < 0xe0") simp_all
qed

lemma two_bytes:
  fixes v :: u32
  assumes "0xe0 \<le> v" and "v < 0x1fe0"
  defines "b \<equiv> ucast (0xe0 OR drop_bit 8 (v - 0xe0)) :: u8"
  shows "0xe0 \<le> b" and "b \<noteq> 0xff" and "push_bit 8 (ucast b AND 0x1f) + ucast (ucast (v - 0xe0) :: u8) + 0xe0 = v"
proof -
  define x where "x = v - 0xe0"
  have e: "uint v = uint x + 0xe0" using assms(1) by (simp add: x_def uint_sub_if' word_le_def)
  have x: "x < 0x1f00" using e assms(2) by (simp add: word_less_def)
  then have d: "drop_bit 8 x < 0x1f" by (simp add: word_less_nat_alt drop_bit_eq_div unat_div)
  have hi: "\<not> bit (drop_bit 8 x) n" if "5 \<le> n" for n
  proof -
    have "take_bit 5 (drop_bit 8 x) = drop_bit 8 x" using d by (intro take_bit_small) (simp add: word_less_nat_alt)
    then show ?thesis using that by (metis bit_take_bit_iff linorder_not_less)
  qed
  have b5: "bit (0x1f :: u32) n \<longleftrightarrow> n < 5" for n
  proof -
    have "(0x1f :: u32) = mask 5" by (simp add: mask_eq_decr_exp)
    then show ?thesis by (simp only: bit_mask_iff possible_bit_word) auto
  qed
  have e0: "bit (0xe0 :: u32) n \<longleftrightarrow> 5 \<le> n \<and> n < 8" for n
  proof -
    have "(0xe0 :: u32) = push_bit 5 (mask 3)" by (simp add: mask_eq_decr_exp)
    then show ?thesis by (simp only: bit_push_bit_iff bit_mask_iff possible_bit_word) auto
  qed
  have low: "ucast b AND 0x1f = drop_bit 8 x"
  proof (rule bit_word_eqI)
    fix n assume "n < LENGTH(32)"
    show "bit (ucast b AND 0x1f :: u32) n = bit (drop_bit 8 x) n"
      using hi [of n] unfolding b_def x_def [symmetric] bit_and_iff bit_or_iff bit_unsigned_iff possible_bit_word b5 e0
      by (cases "n < 5") auto
  qed
  have ub: "(ucast b :: u32) = 0xe0 OR drop_bit 8 x"
  proof (rule bit_word_eqI)
    fix n assume "n < LENGTH(32)"
    show "bit (ucast b :: u32) n = bit (0xe0 OR drop_bit 8 x) n"
      using hi [of n] unfolding b_def x_def [symmetric] bit_or_iff bit_unsigned_iff possible_bit_word e0
      by (cases "n < 8") auto
  qed
  have "0xe0 OR drop_bit 8 x = 0xe0 + drop_bit 8 x"
    by (rule disjunctive_add [symmetric]) (use hi e0 in auto)
  with ub have u: "(ucast b :: u32) = 0xe0 + drop_bit 8 x" by simp
  then have "unat (ucast b :: u32) = 0xe0 + unat (drop_bit 8 x)"
    using d by (simp add: unat_word_ariths word_less_nat_alt)
  then have n: "unat b = 0xe0 + unat (drop_bit 8 x)" by (simp add: unat_ucast8)
  show "0xe0 \<le> b" using n by (simp add: word_le_nat_alt)
  show "b \<noteq> 0xff" using n d by (auto simp: word_less_nat_alt)
  have "push_bit 8 (drop_bit 8 x) + ucast (ucast x :: u8) = x"
  proof -
    have "push_bit 8 (drop_bit 8 x) + ucast (ucast x :: u8) = push_bit 8 (drop_bit 8 x) OR ucast (ucast x :: u8)"
      by (rule disjunctive_add) (auto simp: bit_simps)
    also have "\<dots> = x" by (rule bit_word_eqI) (auto simp: bit_simps)
    finally show ?thesis .
  qed
  then show "push_bit 8 (ucast b AND 0x1f) + ucast (ucast (v - 0xe0) :: u8) + 0xe0 = v"
    unfolding low x_def [symmetric] by (simp add: x_def)
qed

lemma read_two:
  assumes "0xe0 \<le> b" and "b \<noteq> 0xff"
  shows "serialize_ru124 (b # c # r) = Done (Some (push_bit 8 (ucast b AND 0x1f) + ucast c + 0xe0, r))"
proof -
  have "(ucast b :: u32) \<noteq> 0xff" using assms(2) by (auto simp: word_unat_eq_iff unat_ucast8)
  moreover have "0xe0 \<le> (ucast b :: u32)" using assms(1) by (simp add: word_le_nat_alt unat_ucast8)
  ultimately show ?thesis by (simp add: serialize_ru124_def serialize_ru124x_def rd_def Let_def)
qed

lemma take_put_le32: "take 4 (put_le32 v @ r) = put_le32 v"
  by simp

lemma read_u124 [simp]: "serialize_ru124 (u124 v @ r) = Done (Some (v, r))"
proof -
  consider "v < 0xe0" | "0xe0 \<le> v" "v < 0x1fe0" | "0xe0 \<le> v" "0x1fe0 \<le> v" by force
  then show ?thesis
  proof cases
    case 1
    have "(ucast (ucast v :: u8) :: u32) = v"
    proof -
      have "take_bit 8 v = v" using 1 by (intro take_bit_small) (simp add: word_less_nat_alt)
      then show ?thesis by (simp add: word_unat_eq_iff unsigned_ucast_eq)
    qed
    with 1 show ?thesis by (simp add: u124_def serialize_ru124_def rd_def Let_def linorder_not_less [symmetric])
  next
    case 2
    note t = two_bytes [OF 2]
    have "u124 v @ r = ucast (0xe0 OR drop_bit 8 (v - 0xe0)) # ucast (v - 0xe0) # r" using 2 by (simp add: u124_def)
    then show ?thesis using read_two [OF t(1,2), of "ucast (v - 0xe0)" r] t(3) by simp
  next
    case 3
    then have "u124 v = 0xff # put_le32 v" by (simp add: u124_def linorder_not_less [symmetric])
    then show ?thesis by (simp add: serialize_ru124_def serialize_ru124x_def rd_def Let_def take_put_le32)
  qed
qed

text \<open>C32. Numbers of the wire format read back: with five bytes free, writing a 32 bit number appends one, two or
  five bytes, and the reader gets the number from them and leaves exactly the bytes after them.\<close>

theorem u124_reads_back:
  assumes "bw sb + 5 \<le> length (bmem sb)" and "\<not> sbufiscow sb"
  shows "\<exists>w. serialize_wu124 v sb = Done (written w sb) \<and> length w \<in> {1, 2, 5} \<and>
    serialize_ru124 (w @ r) = Done (Some (v, r))"
proof (intro exI conjI)
  have "fits (u124 v) sb" using assms length_u124 [of v] by (simp add: fits_def)
  then show "serialize_wu124 v sb = Done (written (u124 v) sb)" using writes_wu124 [of v] by (simp add: writes_def)
  show "length (u124 v) \<in> {1, 2, 5}" by (simp add: u124_def)
qed simp

theorem u124_reads_back_witness:
  "let sb = \<lparr>bmem = replicate 8 0, bw = 0, br = 0, bflag = 0, bsb = (0, 0)\<rparr> in
    \<exists>w. serialize_wu124 0x2000 sb = Done (written w sb) \<and> length w \<in> {1, 2, 5} \<and>
      serialize_ru124 (w @ [0xff]) = Done (Some (0x2000, [0xff]))"
  unfolding Let_def by (rule u124_reads_back) (simp_all add: sbufiscow_def)

end
