(* ===== verification/SerHeap.thy ===== *)
theory SerHeap
  imports SerWire
begin

text \<open>
  The heap of \<^verbatim>\<open>src/src/lj_serialize.c\<close>: tagged references, the keys of the tables, the invariant of
  the heap and what decoding keeps of it.
\<close>

section \<open>Tagged references\<close>

lemma itype_ref:
  assumes p: "p < 2 ^ 47" and it: "it = NOT k" "k < 16"
  shows "itype (setgcVraw p it) = it" and "gcval (setgcVraw p it) = p"
proof -
  have pb: "\<not> bit p n" if "47 \<le> n" for n
  proof -
    have "take_bit 47 p = p" using p by (intro take_bit_small) (simp add: word_less_nat_alt)
    then show ?thesis using that by (metis bit_take_bit_iff linorder_not_less)
  qed
  have kb: "\<not> bit k n" if "4 \<le> n" for n
  proof -
    have "take_bit 4 k = k" using it(2) by (intro take_bit_small) (simp add: word_less_nat_alt)
    then show ?thesis using that by (metis bit_take_bit_iff linorder_not_less)
  qed
  have v: "bit (setgcVraw p it) n \<longleftrightarrow> bit p n \<or> 47 \<le> n \<and> n < 64 \<and> bit it (n - 47)" for n
    unfolding setgcVraw_def bit_or_iff bit_push_bit_iff bit_unsigned_iff possible_bit_word by auto
  show "itype (setgcVraw p it) = it"
  proof (rule bit_word_eqI)
    fix n assume n: "n < LENGTH(32)"
    have "bit (itype (setgcVraw p it)) n = bit (setgcVraw p it) (if n < 17 then 47 + n else 63)"
      using n unfolding itype_def bit_unsigned_iff possible_bit_word bit_signed_drop_bit_iff by auto
    then show "bit (itype (setgcVraw p it)) n = bit it n"
      unfolding v using n pb kb [of n] kb [of 16] by (auto simp: it(1) bit_not_iff)
  qed
  have m: "LJ_GCVMASK = mask 47" by (simp add: LJ_GCVMASK_def mask_eq_decr_exp)
  show "gcval (setgcVraw p it) = p"
  proof (rule bit_word_eqI)
    fix n assume "n < LENGTH(64)"
    show "bit (gcval (setgcVraw p it)) n = bit p n"
      unfolding gcval_def m bit_and_iff bit_mask_iff v using pb [of n] by (cases "n < 47") (auto simp: possible_bit_word)
  qed
qed

lemma ref_tags [simp]:
  assumes "p < 2 ^ 47"
  shows "itype (setgcVraw p LJ_TSTR) = LJ_TSTR" "gcval (setgcVraw p LJ_TSTR) = p"
    "itype (setgcVraw p LJ_TTAB) = LJ_TTAB" "gcval (setgcVraw p LJ_TTAB) = p"
    "itype (setgcVraw p LJ_TCDATA) = LJ_TCDATA" "gcval (setgcVraw p LJ_TCDATA) = p"
    "itype (setgcVraw p LJ_TLIGHTUD) = LJ_TLIGHTUD" "gcval (setgcVraw p LJ_TLIGHTUD) = p"
  using itype_ref [OF assms, of "LJ_TSTR" 4] itype_ref [OF assms, of "LJ_TTAB" 11]
    itype_ref [OF assms, of "LJ_TCDATA" 10] itype_ref [OF assms, of "LJ_TLIGHTUD" 3]
  by (simp_all add: tag_defs)

text \<open>The tag of a value that is not a number tells what it is.\<close>

lemma ref_tests:
  "itype v = LJ_TSTR \<Longrightarrow> tvisstr v \<and> \<not> tvisnum v \<and> \<not> tvispri v"
  "itype v = LJ_TTAB \<Longrightarrow> tvistab v \<and> \<not> tvisstr v \<and> \<not> tvisnum v \<and> \<not> tvispri v"
  "itype v = LJ_TCDATA \<Longrightarrow> tviscdata v \<and> \<not> tvisstr v \<and> \<not> tvisnum v \<and> \<not> tvispri v"
  "itype v = LJ_TLIGHTUD \<Longrightarrow> tvislightud v \<and> \<not> tvisstr v \<and> \<not> tvisnum v \<and> \<not> tvispri v"
  by (simp_all add: tvisstr_def tvistab_def tviscdata_def tvislightud_def tvisnum_def tvispri_def tag_defs word_less_def word_le_def)

lemma fix_nan_num: "tvisnum (fix_nan x)"
proof -
  have "tvisnum nanV" by (simp add: nanV_def tvisnum_def itype_eval tag_defs)
  then show ?thesis by (simp add: fix_nan_def)
qed

lemma pri_values:
  "setpriV (NOT 0) = niltv" "setpriV (NOT 1) = 0xFFFF7FFFFFFFFFFF" "setpriV (NOT 2) = 0xFFFEFFFFFFFFFFFF"
  by (simp_all add: setpriV_def niltv_def)

section \<open>Keys\<close>

text \<open>All keys of the hash part satisfy \<open>P\<close>.\<close>

definition keys_in :: "(tvalue \<Rightarrow> bool) \<Rightarrow> gctab \<Rightarrow> bool" where
  "keys_in P t \<longleftrightarrow> hmask t < length (nodes t) \<and> (\<forall>k\<in>set (map nkey (nodes t)). P k)"

lemma upd_node_keys: "(\<And>x. nkey (f x) = nkey x) \<Longrightarrow> map nkey (upd_node i f ns) = map nkey ns"
  by (cases "i < length ns") (simp_all add: upd_node_def map_update list_update_same_conv list_update_beyond)

lemma upd_node_key_set: "set (map nkey (upd_node i f ns)) \<subseteq> insert (nkey (f (ns ! i))) (set (map nkey ns))"
  using set_update_subset_insert [of "map nkey ns" i] by (simp add: upd_node_def map_update)

lemma hashkey_mask: "hashkey env t k \<le> hmask t"
proof -
  have "keyhash env k AND word_of_nat (hmask t) \<le> (word_of_nat (hmask t) :: u32)" by (rule word_and_le1)
  then have "unat (keyhash env k AND word_of_nat (hmask t)) \<le> unat (word_of_nat (hmask t) :: u32)" by (simp add: word_le_nat_alt)
  also have "\<dots> \<le> hmask t" by (simp add: unat_of_nat)
  finally show ?thesis by (simp add: hashkey_def hashmask_def)
qed

lemma rechain_rest_keys: "rechain_rest f hk ns fr = Done ns' \<Longrightarrow> map nkey ns' = map nkey ns"
  by (induction f hk ns fr rule: rechain_rest.induct)
    (auto simp: Let_def upd_node_keys split: option.splits if_splits)

lemma rechain_keys: "rechain f hk ns n fr = Done ns' \<Longrightarrow> map nkey ns' = map nkey ns"
  by (induction f hk ns n fr rule: rechain.induct)
    (auto simp: Let_def upd_node_keys dest: rechain_rest_keys split: option.splits if_splits)

text \<open>What the setters do with the keys, for a rehash that keeps them.\<close>

locale key_set =
  fixes P :: "tvalue \<Rightarrow> bool"
  assumes keys_nil: "P niltv" and keys_num: "P (num_of_int (sint (i :: u32)))" and keys_zero: "P 0"
begin

definition adds_keys :: "(gctab \<Rightarrow> tvalue \<Rightarrow> (gctab \<times> slot) comp) \<Rightarrow> bool" where
  "adds_keys rh \<longleftrightarrow> (\<forall>t k t' s. keys_in P t \<longrightarrow> P k \<longrightarrow> rh t k = Done (t', s) \<longrightarrow> keys_in P t')"

lemma keys_fields [simp]: "keys_in P (t\<lparr>nomm := a\<rparr>) = keys_in P t" "keys_in P (t\<lparr>freetop := f\<rparr>) = keys_in P t"
    "keys_in P (t\<lparr>asize := n\<rparr>) = keys_in P t" "keys_in P (t\<lparr>array := xs\<rparr>) = keys_in P t" "keys_in P (t\<lparr>colo := c\<rparr>) = keys_in P t"
    "keys_in P (t\<lparr>metatable := m\<rparr>) = keys_in P t" "keys_in P (t\<lparr>black := b\<rparr>) = keys_in P t"
  by (simp_all add: keys_in_def)

lemma keys_same: "keys_in P t \<Longrightarrow> map nkey ns = map nkey (nodes t) \<Longrightarrow> keys_in P (t\<lparr>nodes := ns\<rparr>)"
  using map_eq_imp_length_eq [of nkey ns nkey "nodes t"] unfolding keys_in_def by simp

lemma keys_store: "keys_in P t \<Longrightarrow> keys_in P (store_slot t s v)"
  by (cases s) (auto intro!: keys_same upd_node_keys)

lemma keys_sub:
  "keys_in P t \<Longrightarrow> P x \<Longrightarrow> set (map nkey ns) \<subseteq> insert x (set (map nkey (nodes t))) \<Longrightarrow> length ns = length (nodes t) \<Longrightarrow>
   keys_in P (t\<lparr>nodes := ns\<rparr>)"
  unfolding keys_in_def by (simp del: set_map) blast

lemma keys_place: "keys_in P t \<Longrightarrow> P k \<Longrightarrow> place_key t n k = (t', s) \<Longrightarrow> keys_in P t'"
proof -
  assume a: "keys_in P t" "P k" "place_key t n k = (t', s)"
  let ?k = "if tvismzero k then 0 else k"
  have "keys_in P (t\<lparr>nodes := upd_node n (\<lambda>x. x\<lparr>nkey := ?k\<rparr>) (nodes t)\<rparr>)"
    using upd_node_key_set [of n "\<lambda>x. x\<lparr>nkey := ?k\<rparr>" "nodes t"] a keys_zero by (intro keys_sub [where x = ?k]) auto
  with a(3) show ?thesis by (auto simp: place_key_def)
qed

lemma keys_newkey:
  assumes rh: "adds_keys rh" and t: "keys_in P t" and k: "P k" and r: "lj_tab_newkey env rh t k = Done (t', s)"
  shows "keys_in P t'"
proof -
  let ?n = "hashkey env t k"
  have n: "?n < length (nodes t)" using hashkey_mask [of env t k] t by (simp add: keys_in_def)
  show ?thesis
  proof (cases "\<not> tvisnil (nval (nodes t ! ?n)) \<or> hmask t = 0")
    case False
    with r keys_place [OF t k] show ?thesis by (simp add: lj_tab_newkey_def Let_def)
  next
    case True
    show ?thesis
    proof (cases "scan_free (nodes t) (freetop t)")
      case None
      with True r rh t k show ?thesis by (auto simp: lj_tab_newkey_def Let_def adds_keys_def)
    next
      case (Some f)
      have tf: "keys_in P (t\<lparr>freetop := f\<rparr>)" using t by simp
      show ?thesis
      proof (cases "hashkey env (t\<lparr>freetop := f\<rparr>) (nkey (nodes t ! ?n)) = ?n")
        case same: True
        with True Some r have "place_key (t\<lparr>freetop := f, nodes := upd_node ?n (\<lambda>x. x\<lparr>nnext := Some f\<rparr>)
            (upd_node f (\<lambda>x. x\<lparr>nnext := nnext (nodes t ! ?n)\<rparr>) (nodes t))\<rparr>) f k = (t', s)"
          by (simp add: lj_tab_newkey_def Let_def)
        moreover have "keys_in P (t\<lparr>freetop := f, nodes := upd_node ?n (\<lambda>x. x\<lparr>nnext := Some f\<rparr>)
            (upd_node f (\<lambda>x. x\<lparr>nnext := nnext (nodes t ! ?n)\<rparr>) (nodes t))\<rparr>)"
          by (rule keys_same [OF tf]) (simp add: upd_node_keys)
        ultimately show ?thesis using keys_place [OF _ k] by blast
      next
        case False
        with True Some r obtain pred ns where
          ns: "rechain (length (nodes t)) (hashkey env (t\<lparr>freetop := f\<rparr>)) (upd_node ?n (\<lambda>x. x\<lparr>nnext := None, nval := niltv\<rparr>)
            (upd_node f (\<lambda>_. upd_node pred (\<lambda>x. x\<lparr>nnext := Some f\<rparr>) (nodes t) ! ?n) (upd_node pred (\<lambda>x. x\<lparr>nnext := Some f\<rparr>) (nodes t)))) ?n f = Done ns"
          and p: "place_key (t\<lparr>freetop := f, nodes := ns\<rparr>) ?n k = (t', s)"
          by (auto simp: lj_tab_newkey_def Let_def cbind_Done_iff)
        let ?m = "upd_node pred (\<lambda>x. x\<lparr>nnext := Some f\<rparr>) (nodes t)"
        have m: "map nkey ?m = map nkey (nodes t)" by (rule upd_node_keys) simp
        have lm: "length ?m = length (nodes t)" by simp
        have "nkey (?m ! ?n) \<in> set (map nkey (nodes t))" using n m lm by (metis length_map nth_map nth_mem)
        moreover have "map nkey ns = map nkey (upd_node f (\<lambda>_. ?m ! ?n) ?m)"
          using rechain_keys [OF ns] by (simp add: upd_node_keys)
        ultimately have sub: "set (map nkey ns) \<subseteq> set (map nkey (nodes t))" and l: "length ns = length (nodes t)"
          using upd_node_key_set [of f "\<lambda>_. ?m ! ?n" ?m] m map_eq_imp_length_eq [of nkey ns nkey "upd_node f (\<lambda>_. ?m ! ?n) ?m"] by auto
        have "keys_in P (t\<lparr>freetop := f, nodes := ns\<rparr>)" using t sub l by (auto simp: keys_in_def)
        with p keys_place [OF _ k] show ?thesis by blast
      qed
    qed
  qed
qed

lemma keys_find:
  assumes "adds_keys rh" and "keys_in P t" and "P k"
    and "cbind c (\<lambda>i. case i of Some n \<Rightarrow> Done (t, NSlot n) | None \<Rightarrow> lj_tab_newkey env rh t k) = Done (t', s)"
  shows "keys_in P t'"
  using assms(4) keys_newkey [OF assms(1-3)] assms(2) by (auto simp: cbind_Done_iff split: option.splits)

lemma keys_setinth: "adds_keys rh \<Longrightarrow> keys_in P t \<Longrightarrow> lj_tab_setinth env rh t i = Done (t', s) \<Longrightarrow> keys_in P t'"
  using keys_find keys_num unfolding lj_tab_setinth_def Let_def by blast

lemma keys_tab_set:
  assumes rh: "adds_keys rh" and t: "keys_in P t" and k: "P k" and r: "tab_set env rh t k = Done (t', s)"
  shows "keys_in P t'"
proof -
  have t0: "keys_in P (t\<lparr>nomm := 0\<rparr>)" using t by simp
  have "tvisstr k \<Longrightarrow> P (setgcVraw (gcval k) LJ_TSTR)" using k strkey by simp
  then show ?thesis
    using r keys_find [OF rh t0 k] keys_setinth [OF rh t0] keys_find [OF rh t0] t0
    by (auto simp: tab_set_def lj_tab_setstr_def lj_tab_setint_def Let_def split: if_splits option.splits)
qed

lemma keys_reinsert_array: "adds_keys rh \<Longrightarrow> keys_in P t \<Longrightarrow> reinsert_array env rh arr is t = Done t' \<Longrightarrow> keys_in P t'"
  by (induction env rh arr "is" t rule: reinsert_array.induct)
    (auto simp: cbind_Done_iff split: if_splits dest: keys_setinth intro: keys_store)

lemma keys_reinsert_nodes:
  "adds_keys rh \<Longrightarrow> keys_in P t \<Longrightarrow> \<forall>n\<in>set ns. P (nkey n) \<Longrightarrow> reinsert_nodes env rh ns t = Done t' \<Longrightarrow> keys_in P t'"
  by (induction env rh ns t rule: reinsert_nodes.induct)
    (auto simp: cbind_Done_iff split: if_splits dest: keys_tab_set intro: keys_store)

lemma keys_nilnode: "nkey nilnode = niltv"
  by (simp add: nilnode_def)

lemma keys_no_hpart: "keys_in P (no_hpart t)"
  by (simp add: keys_in_def no_hpart_def keys_nilnode keys_nil)

lemma keys_newhpart: "newhpart env t hbits = Done t' \<Longrightarrow> keys_in P (clearhpart t')"
  by (auto simp: keys_in_def newhpart_def clearhpart_def Let_def keys_nilnode keys_nil split: if_splits)

lemma keys_resize:
  assumes rh: "adds_keys rh" and t: "keys_in P t" and r: "tab_resize env rh t as hbits = Done t'"
  shows "keys_in P t'"
proof -
  from r obtain t1 t2 t3 where
    1: "(if as > asize t then grow_array env t as else Done t) = Done t1"
    and 2: "(if hbits \<noteq> 0 then cbind (newhpart env t1 hbits) (\<lambda>t. Done (clearhpart t)) else Done (no_hpart t1)) = Done t2"
    and 3: "(if as < asize t then
         cbind (reinsert_array env rh (array t2) [as..<asize t] (t2\<lparr>asize := as\<rparr>)) (\<lambda>t.
           if sint (colo t) \<le> 0 then
             if realloc_ok env (as * sizeof_TValue) then Done (t\<lparr>array := take as (array t)\<rparr>) else Raise LJ_ERR_ERRMEM
           else Done t)
       else Done t2) = Done t3"
    and 4: "(if hmask t > 0 then reinsert_nodes env rh (take (hmask t + 1) (nodes t)) t3 else Done t3) = Done t'"
    unfolding tab_resize_def Let_def cbind_Done_iff by blast
  have t2: "keys_in P t2" using 2 keys_newhpart keys_no_hpart by (auto simp: cbind_Done_iff split: if_splits)
  have t3: "keys_in P t3" using 3 t2 keys_reinsert_array [OF rh, of "t2\<lparr>asize := as\<rparr>"]
    by (auto simp: cbind_Done_iff split: if_splits)
  have "\<forall>n\<in>set (take (hmask t + 1) (nodes t)). P (nkey n)" using t by (auto simp: keys_in_def dest: in_set_takeD)
  with 4 t3 keys_reinsert_nodes [OF rh t3] show ?thesis by (auto split: if_splits)
qed

lemma adds_keys_rehash: "adds_keys (rehash_set d env)"
proof (induction d)
  case (Suc d)
  show ?case
    unfolding adds_keys_def
  proof (intro allI impI)
    fix t k t' s assume t: "keys_in P t" and k: "P k" and "rehash_set (Suc d) env t k = Done (t', s)"
    then obtain t1 where 1: "rehashtab env (rehash_set d env) t k = Done t1" "tab_set env (rehash_set d env) t1 k = Done (t', s)"
      by (auto simp: cbind_Done_iff)
    have "keys_in P t1" using 1(1) keys_resize [OF Suc t] by (auto simp: rehashtab_def Let_def split: prod.splits)
    then show "keys_in P t'" using keys_tab_set [OF Suc _ k 1(2)] by simp
  qed
qed (simp add: adds_keys_def)

lemma lj_tab_set_keys: "keys_in P t \<Longrightarrow> P k \<Longrightarrow> lj_tab_set env t k = Done (t', s) \<Longrightarrow> keys_in P t'"
  using keys_tab_set [OF adds_keys_rehash] by (simp add: lj_tab_set_def)

lemma lj_tab_new_keys: "lj_tab_new env as hbits = Done t \<Longrightarrow> keys_in P t"
proof -
  assume "lj_tab_new env as hbits = Done t"
  then obtain t0 where n: "newtab env as hbits = Done t0" and t: "t = (let t = clearapart t0 in if 0 < hmask t then clearhpart t else t)"
    by (auto simp: lj_tab_new_def Let_def cbind_Done_iff)
  note sh = newtab_shape [OF n]
  have "nodes t0 = [nilnode]" if "hmask t0 = 0"
    using sh(7) that one_less_power [of "2 :: nat"] by (metis diff_is_0_eq not_less one_less_numeral_iff semiring_norm(76))
  then have "nodes t = replicate (hmask t0 + 1) nilnode"
    using sh(4) clearhpart_nodes [of "clearapart t0"] unfolding t Let_def by (cases "0 < hmask t0") auto
  moreover have "hmask t = hmask t0" unfolding t Let_def by simp
  ultimately show ?thesis by (simp add: keys_in_def keys_nilnode keys_nil del: replicate_Suc)
qed

end

section \<open>The invariant of the heap\<close>

definition live_key :: "heap \<Rightarrow> tvalue \<Rightarrow> bool" where
  "live_key h v \<longleftrightarrow> (tvisstr v \<longrightarrow> sobj (hstr h) (gcval v) \<noteq> None)"

interpretation hk: key_set "live_key h" for h
  by unfold_locales (use num_of_int_key(3) num_not_pri in \<open>auto simp: live_key_def zero_num\<close>)

text \<open>A C object has the size of its type.\<close>

definition cd_ok :: "gccdata \<Rightarrow> bool" where
  "cd_ok c \<longleftrightarrow> (case cdkind c of CD_INT64 \<Rightarrow> length (cdbytes c) = 8 | CD_UINT64 \<Rightarrow> length (cdbytes c) = 8
     | CD_COMPLEX \<Rightarrow> length (cdbytes c) = 16 | CD_OTHER \<Rightarrow> True)"

text \<open>Strings are not being swept; tables are well-formed and their string keys exist.\<close>

definition heap_ok :: "heapenv \<Rightarrow> heap \<Rightarrow> bool" where
  "heap_ok E h \<longleftrightarrow> str_ok (hestr E) (hstr h) \<and> \<not> sweepstring (hstr h) \<and> length (hseg h) \<le> 255 \<and>
     (\<forall>p t. htab h p = Some t \<longrightarrow> tab_wf (tabenv_of E h) t \<and> keys_in (live_key h) t) \<and>
     (\<forall>p c. hcd h p = Some c \<longrightarrow> cd_ok c)"

definition heapenv_ok :: "heapenv \<Rightarrow> bool" where
  "heapenv_ok E \<longleftrightarrow> strenv_ok (hestr E) \<and>
     (\<forall>m. newtabaddr E m < 2 ^ 47 \<and> (newtabaddr E m \<noteq> 0 \<longrightarrow> m (newtabaddr E m) = None)) \<and>
     (\<forall>m. newcdaddr E m < 2 ^ 47 \<and> (newcdaddr E m \<noteq> 0 \<longrightarrow> m (newcdaddr E m) = None))"

text \<open>The objects of \<open>h\<close> are in \<open>h'\<close>, unchanged but for the table \<open>p\<close>, if any.\<close>

definition frame :: "u64 option \<Rightarrow> heap \<Rightarrow> heap \<Rightarrow> bool" where
  "frame x h h' \<longleftrightarrow> kept (hstr h) (hstr h') \<and> (\<forall>p t. x \<noteq> Some p \<longrightarrow> htab h p = Some t \<longrightarrow> htab h' p = Some t) \<and>
     hcd h \<subseteq>\<^sub>m hcd h' \<and> (\<exists>s. hseg h' = hseg h @ s)"

abbreviation later :: "heap \<Rightarrow> heap \<Rightarrow> bool" where "later \<equiv> frame None"

lemma frame_refl [simp]: "frame x h h"
  by (simp add: frame_def kept_refl)

lemma frame_trans: "frame x h h' \<Longrightarrow> frame x h' h'' \<Longrightarrow> frame x h h''"
  using kept_trans [of "hstr h" "hstr h'" "hstr h''"] map_le_trans [of "hcd h" "hcd h'" "hcd h''"] by (auto simp: frame_def)

lemma later_frame: "later h h' \<Longrightarrow> frame x h h'"
  by (simp add: frame_def)

lemma frame_fresh: "frame (Some p) h h' \<Longrightarrow> htab h p = None \<Longrightarrow> later h h'"
  unfolding frame_def by (metis option.distinct(1) option.inject)

lemma hk_cong: "tabenv_of E (h\<lparr>htab := a\<rparr>) = tabenv_of E h" "live_key (h\<lparr>htab := a\<rparr>) = live_key h"
    "tabenv_of E (h\<lparr>hcd := b\<rparr>) = tabenv_of E h" "live_key (h\<lparr>hcd := b\<rparr>) = live_key h"
    "tabenv_of E (h\<lparr>hseg := c\<rparr>) = tabenv_of E h" "live_key (h\<lparr>hseg := c\<rparr>) = live_key h"
  by (simp_all add: tabenv_of_def live_key_def fun_eq_iff)

lemma sid_tabenv: "sid (tabenv_of E h) p = (case sobj (hstr h) p of Some s \<Rightarrow> ssid s | None \<Rightarrow> 0)"
  by (simp add: tabenv_of_def)

lemma keyhash_cong: "(tvisstr k \<Longrightarrow> sid env' (gcval k) = sid env (gcval k)) \<Longrightarrow> keyhash env' k = keyhash env k"
  by (simp add: keyhash_def)

lemma nodes_wf_cong:
  assumes "\<And>i. i < length ns \<Longrightarrow> hk' (nkey (ns ! i)) = hk (nkey (ns ! i))"
  shows "nodes_wf hk' ns = nodes_wf hk ns"
proof -
  have "nodes_wf b ns" if e: "\<And>i. i < length ns \<Longrightarrow> b (nkey (ns ! i)) = a (nkey (ns ! i))" and w: "nodes_wf a ns" for a b
    using w e unfolding nodes_wf_def by simp
  from this [of hk' hk] this [of hk hk'] assms show ?thesis by auto
qed

lemma tab_wf_cong:
  assumes "\<And>k. k \<in> set (map nkey (nodes t)) \<Longrightarrow> tvisstr k \<Longrightarrow> sid env' (gcval k) = sid env (gcval k)"
  shows "tab_wf env' t = tab_wf env t"
proof -
  have "hashkey env' t (nkey (nodes t ! i)) = hashkey env t (nkey (nodes t ! i))" if "i < length (nodes t)" for i
    using assms [of "nkey (nodes t ! i)"] that keyhash_cong [of "nkey (nodes t ! i)" env' env] by (simp add: hashkey_def)
  then have "nodes_wf (hashkey env' t) (nodes t) = nodes_wf (hashkey env t) (nodes t)" by (rule nodes_wf_cong)
  then show ?thesis by (simp add: tab_wf_def)
qed

lemma kept_obj: "kept g g' \<Longrightarrow> \<not> sweepstring g \<Longrightarrow> sobj g p = Some s \<Longrightarrow> \<exists>s'. sobj g' p = Some s' \<and> sdata s' = sdata s \<and> ssid s' = ssid s"
  unfolding kept_def same_string_def by metis

lemma live_kept: "kept (hstr h) (hstr h') \<Longrightarrow> \<not> sweepstring (hstr h) \<Longrightarrow> live_key h v \<Longrightarrow> live_key h' v"
  using kept_obj by (fastforce simp: live_key_def)

lemma tab_kept:
  assumes k: "kept (hstr h) (hstr h')" "\<not> sweepstring (hstr h)" and t: "tab_wf (tabenv_of E h) t" "keys_in (live_key h) t"
  shows "tab_wf (tabenv_of E h') t" and "keys_in (live_key h') t"
proof -
  have "sid (tabenv_of E h') (gcval x) = sid (tabenv_of E h) (gcval x)" if x: "x \<in> set (map nkey (nodes t))" "tvisstr x" for x
  proof -
    have "live_key h x" using t(2) x unfolding keys_in_def by blast
    then obtain s where "sobj (hstr h) (gcval x) = Some s" using x(2) by (auto simp: live_key_def)
    with kept_obj [OF k this] show ?thesis by (auto simp: sid_tabenv)
  qed
  note e = this
  from tab_wf_cong [of t, OF e] t(1) show "tab_wf (tabenv_of E h') t" by simp
  show "keys_in (live_key h') t" using t(2) live_kept [OF k] by (auto simp: keys_in_def)
qed

lemma heap_ok_str:
  assumes ok: "heap_ok E h" and g: "str_ok (hestr E) g'" "kept (hstr h) g'"
  shows "heap_ok E (h\<lparr>hstr := g'\<rparr>)" and "later h (h\<lparr>hstr := g'\<rparr>)"
proof -
  have "sweepstring g' = sweepstring (hstr h)" using g(2) by (simp add: kept_def)
  then show "heap_ok E (h\<lparr>hstr := g'\<rparr>)"
    using ok g tab_kept [of h "h\<lparr>hstr := g'\<rparr>" E] by (auto simp: heap_ok_def)
  show "later h (h\<lparr>hstr := g'\<rparr>)" using g(2) by (simp add: frame_def)
qed

lemma heap_ok_tab:
  assumes ok: "heap_ok E h" and t: "tab_wf (tabenv_of E h) t" "keys_in (live_key h) t"
  shows "heap_ok E (h\<lparr>htab := (htab h)(p \<mapsto> t)\<rparr>)" and "frame (Some p) h (h\<lparr>htab := (htab h)(p \<mapsto> t)\<rparr>)"
  using ok t by (auto simp: heap_ok_def hk_cong frame_def kept_refl)

lemma heap_ok_cd:
  assumes ok: "heap_ok E h" and c: "cd_ok c" and p: "hcd h p = None"
  shows "heap_ok E (h\<lparr>hcd := (hcd h)(p \<mapsto> c)\<rparr>)" and "later h (h\<lparr>hcd := (hcd h)(p \<mapsto> c)\<rparr>)"
  using assms by (auto simp: heap_ok_def hk_cong frame_def kept_refl map_le_def)

lemma heap_ok_seg:
  assumes ok: "heap_ok E h" and "length (hseg h) < 255"
  shows "heap_ok E (h\<lparr>hseg := hseg h @ [u]\<rparr>)" and "later h (h\<lparr>hseg := hseg h @ [u]\<rparr>)"
  using assms by (auto simp: heap_ok_def hk_cong frame_def kept_refl)

lemma heap_okD:
  assumes "heap_ok E h" and "htab h p = Some t"
  shows "tab_wf (tabenv_of E h) t" and "keys_in (live_key h) t"
  using assms by (simp_all add: heap_ok_def)

lemma live_frame: "heap_ok E h \<Longrightarrow> frame x h h' \<Longrightarrow> live_key h v \<Longrightarrow> live_key h' v"
  by (rule live_kept) (auto simp: frame_def heap_ok_def)

end
