(* ===== verification/SerSafe.thy ===== *)
theory SerSafe
  imports SerHeap
begin

text \<open>
  The decoder of \<^verbatim>\<open>src/src/lj_serialize.c\<close> on arbitrary bytes: it ends, raises only the errors of the
  format or of the allocators, leaves every existing object alone, and the tag tells the type of the result.
\<close>

section \<open>Results\<close>

definition dec_err :: "lj_error \<Rightarrow> bool" where
  "dec_err e \<longleftrightarrow> e \<in> {LJ_ERR_BUFFER_EOB, LJ_ERR_BUFFER_DEPTH, LJ_ERR_BUFFER_DUPKEY, LJ_ERR_NILIDX, LJ_ERR_NANIDX, LJ_ERR_TABOV,
      LJ_ERR_ERRMEM, LJ_ERR_STROV, LJ_ERR_BADLU} \<or> (\<exists>x. e = LJ_ERR_BUFFER_BADDEC x \<or> e = LJ_ERR_BUFFER_BADDICTX x)"

lemma dec_err [simp]: "dec_err LJ_ERR_BUFFER_EOB" "dec_err LJ_ERR_BUFFER_DEPTH" "dec_err LJ_ERR_BUFFER_DUPKEY" "dec_err LJ_ERR_NILIDX"
    "dec_err LJ_ERR_NANIDX" "dec_err LJ_ERR_TABOV" "dec_err LJ_ERR_ERRMEM" "dec_err LJ_ERR_STROV" "dec_err LJ_ERR_BADLU"
    "dec_err (LJ_ERR_BUFFER_BADDEC x)" "dec_err (LJ_ERR_BUFFER_BADDICTX x)"
  by (simp_all add: dec_err_def)

text \<open>A value the decoder may produce: a key, or one of the two that are not keys.\<close>

definition keylike :: "tvalue \<Rightarrow> bool" where
  "keylike v \<longleftrightarrow> key_ok v \<or> v = niltv \<or> tvisnum v"

text \<open>The tables of the options; strings in them exist.\<close>

definition dict_ok :: "heap \<Rightarrow> sdict \<Rightarrow> bool" where
  "dict_ok h D \<longleftrightarrow> (\<forall>d. dict_str D = Some d \<or> dict_mt D = Some d \<longrightarrow>
     asize d \<le> length (array d) \<and> (\<forall>v\<in>set (array d). live_key h v))"

definition tail_of :: "bytes \<Rightarrow> bytes \<Rightarrow> bool" where
  "tail_of r r' \<longleftrightarrow> (\<exists>u. r = u @ r')"

lemma tail_refl [simp]: "tail_of r r" by (simp add: tail_of_def)

lemma tail_trans: "tail_of a b \<Longrightarrow> tail_of b c \<Longrightarrow> tail_of a c"
  by (auto simp: tail_of_def)

lemma tail_drop [simp]: "tail_of r (drop n r)"
  unfolding tail_of_def by (metis append_take_drop_id)

definition decoded :: "heapenv \<Rightarrow> heap \<Rightarrow> bytes \<Rightarrow> heap \<times> tvalue \<times> bytes \<Rightarrow> bool" where
  "decoded E h r = (\<lambda>(h', v, r'). heap_ok E h' \<and> later h h' \<and> live_key h' v \<and> keylike v \<and> tail_of r r' \<and> r' \<noteq> r)"

definition getter_ok :: "heapenv \<Rightarrow> sdict \<Rightarrow> getter \<Rightarrow> bool" where
  "getter_ok E D g \<longleftrightarrow> (\<forall>h r. heap_ok E h \<longrightarrow> dict_ok h D \<longrightarrow> yields (g h r) (decoded E h r) dec_err)"

lemma dict_frame: "heap_ok E h \<Longrightarrow> frame x h h' \<Longrightarrow> dict_ok h D \<Longrightarrow> dict_ok h' D"
  using live_frame unfolding dict_ok_def by blast

lemma rd_ok [simp]: "n \<le> length r \<Longrightarrow> rd n r = Done (take n r)"
  by (simp add: rd_def)

lemma ru124x_done: "\<exists>c. serialize_ru124x r v = Done c"
  by (cases r) (simp_all add: serialize_ru124x_def)

lemma ru124_done [simp]: "\<exists>c. serialize_ru124 r = Done c"
  using ru124x_done by (cases r) (simp_all add: serialize_ru124_def Let_def)

lemma yields_eob:
  "(\<And>x. c = Done (Some x) \<Longrightarrow> yields (f x) Q E) \<Longrightarrow> \<exists>d. c = Done d \<Longrightarrow> E LJ_ERR_BUFFER_EOB \<Longrightarrow> yields (eob c f) Q E"
  by (auto simp: eob_def split: option.splits)

lemma ru124_tail: "serialize_ru124 r = Done (Some (v, r')) \<Longrightarrow> tail_of r r' \<and> r' \<noteq> r"
proof -
  assume a: "serialize_ru124 r = Done (Some (v, r'))"
  then obtain b r1 where r: "r = b # r1" by (cases r) (auto simp: serialize_ru124_def)
  have "tail_of r1 r'"
  proof (cases "0xe0 \<le> (ucast b :: u32)")
    case True
    with a r show ?thesis by (auto simp: serialize_ru124_def serialize_ru124x_def Let_def Suc_le_eq split: if_splits)
  qed (use a r in \<open>simp add: serialize_ru124_def Let_def\<close>)
  then obtain u where "r1 = u @ r'" by (auto simp: tail_of_def)
  then have "r = (b # u) @ r'" using r by simp
  then show ?thesis by (auto simp: tail_of_def)
qed

section \<open>Keys and slots\<close>

lemma tab_set_yields:
  assumes "tab_wf env t" and "keylike k"
  shows "yields (lj_tab_set env t k) (\<lambda>(t', s). key_ok k \<and> slot_for env t k t' s) dec_err"
proof (cases "key_ok k")
  case True
  from lj_tab_set_ok [OF assms(1) this] show ?thesis by (cases "lj_tab_set env t k") (auto simp: True)
next
  case False
  show ?thesis
  proof (cases "k = niltv")
    case True
    then show ?thesis by (simp add: lj_tab_set_def tab_set_def Let_def)
  next
    case nil: False
    with assms(2) False have n: "tvisnum k" by (simp add: keylike_def)
    with False num_not_pri [OF n] have "num_isnan k" by (auto simp: key_ok_def tvisnum_def)
    moreover have "lj_num2int_check k = None"
      using \<open>num_isnan k\<close> num2int_Some [of k] by (cases "lj_num2int_check k") (auto simp: num_eq_def)
    ultimately show ?thesis using n num_not_pri [OF n] by (simp add: lj_tab_set_def tab_set_def Let_def tvisnan_iff)
  qed
qed

lemma slot_value_abs:
  assumes "slot_for env t k t' s" and "key_ok k"
  shows "slot_value t' s = tab_abs t k"
proof -
  have wf: "tab_wf env t'" and ab: "tab_abs t' k = tab_abs t k" using assms(1) by (auto simp: slot_for_def)
  show ?thesis
  proof (cases s)
    case (ASlot i)
    with assms ab show ?thesis by (simp add: slot_for_def slot_value_def tab_abs_def)
  next
    case (NSlot n)
    with assms(1) have n: "aidx t' (ckey k) = None" "n < length (nodes t')" "nkey (nodes t' ! n) = ckey k" by (auto simp: slot_for_def)
    have "\<not> tvisnil (ckey k)" using assms(2) by (simp add: key_ok_def)
    from nodes_val_key [OF wf n(2,3) this] NSlot n(1) ab assms(2) show ?thesis by (simp add: slot_value_def tab_abs_def)
  qed
qed

text \<open>The environment may change between the setter and the store.\<close>

lemma slot_for_env: "slot_for env t k t' s \<Longrightarrow> tab_wf env' t' \<Longrightarrow> slot_for env' t' k t' s"
  by (simp add: slot_for_def)

lemma array_store_wf: "tab_wf env t \<Longrightarrow> tab_wf env (t\<lparr>array := (array t)[i := v]\<rparr>)"
proof -
  assume wf: "tab_wf env t"
  have "hashkey env (t\<lparr>array := (array t)[i := v]\<rparr>) = hashkey env t" by (rule hashkey_cong) simp
  moreover have "aidx (t\<lparr>array := (array t)[i := v]\<rparr>) = aidx t" by (rule aidx_cong) simp
  ultimately show ?thesis using wf by (simp add: tab_wf_def)
qed

lemma slot_for_in: "slot_for env t k t' s \<Longrightarrow> slot_in t' s"
proof -
  assume s: "slot_for env t k t' s"
  then have "asize t' \<le> length (array t')" using tab_wfD [of env t'] by (simp add: slot_for_def)
  with s show ?thesis by (cases s) (auto simp: slot_for_def slot_in_def aidx_def split: if_splits option.splits)
qed

section \<open>Array and hash part\<close>

lemma getter_yields: "getter_ok E D g \<Longrightarrow> heap_ok E h \<Longrightarrow> dict_ok h D \<Longrightarrow> yields (g h r) (decoded E h r) dec_err"
  by (simp add: getter_ok_def)

lemma get_array_ok:
  assumes g: "getter_ok E D get"
  shows "heap_ok E h \<Longrightarrow> dict_ok h D \<Longrightarrow> htab h p = Some t \<Longrightarrow> \<forall>i\<in>set ks. i < length (array t) \<Longrightarrow>
    yields (get_array get p ks h r)
      (\<lambda>(h', r'). heap_ok E h' \<and> frame (Some p) h h' \<and> (\<exists>t'. htab h' p = Some t') \<and> tail_of r r') dec_err"
proof (induction ks arbitrary: h t r)
  case (Cons i ks)
  show ?case
    unfolding get_array.simps
  proof (rule yields_cbind [OF getter_yields [OF g Cons.prems(1,2)]], clarify)
    fix h1 v r1 assume d: "decoded E h r (h1, v, r1)"
    then have h1: "heap_ok E h1" "later h h1" "tail_of r r1" by (auto simp: decoded_def)
    have t1: "htab h1 p = Some t" using h1(2) Cons.prems(3) by (simp add: frame_def)
    let ?t = "t\<lparr>array := (array t)[i := v]\<rparr>"
    let ?h = "h1\<lparr>htab := (htab h1)(p \<mapsto> ?t)\<rparr>"
    have t: "tab_wf (tabenv_of E h1) ?t" "keys_in (live_key h1) ?t"
      using heap_okD [OF h1(1) t1] array_store_wf by simp_all
    note s = heap_ok_tab [OF h1(1) t, of p]
    have u: "frame (Some p) h ?h" using frame_trans [OF later_frame [OF h1(2)] s(2)] .
    have "yields (get_array get p ks ?h r1)
      (\<lambda>(h', r'). heap_ok E h' \<and> frame (Some p) ?h h' \<and> (\<exists>t'. htab h' p = Some t') \<and> tail_of r1 r') dec_err"
      using s(1) dict_frame [OF Cons.prems(1) u Cons.prems(2)] by (rule Cons.IH) (use Cons.prems(4) in auto)
    then have "yields (get_array get p ks ?h r1)
      (\<lambda>(h', r'). heap_ok E h' \<and> frame (Some p) h h' \<and> (\<exists>t'. htab h' p = Some t') \<and> tail_of r r') dec_err"
      by (rule yields_mono) (use frame_trans [OF u] tail_trans [OF h1(3)] in auto)
    then show "yields (cbind (heap_store h1 p (ASlot i) v) (\<lambda>h. get_array get p ks h r1))
      (\<lambda>(h', r'). heap_ok E h' \<and> frame (Some p) h h' \<and> (\<exists>t'. htab h' p = Some t') \<and> tail_of r r') dec_err"
      using Cons.prems(4) by (simp add: heap_store_def get_tab_def t1 slot_in_def)
  qed
qed auto

lemma get_hash_ok:
  assumes g: "getter_ok E D get"
  shows "heap_ok E h \<Longrightarrow> dict_ok h D \<Longrightarrow> htab h p = Some t \<Longrightarrow>
    yields (get_hash get E p n h r)
      (\<lambda>(h', r'). heap_ok E h' \<and> frame (Some p) h h' \<and> (\<exists>t'. htab h' p = Some t') \<and> tail_of r r') dec_err"
proof (induction n arbitrary: h t r)
  case (Suc n)
  let ?Q = "\<lambda>(h', r'). heap_ok E h' \<and> frame (Some p) h h' \<and> (\<exists>t'. htab h' p = Some t') \<and> tail_of r r'"
  show ?case
    unfolding get_hash.simps
  proof (rule yields_cbind [OF getter_yields [OF g Suc.prems(1,2)]], clarify)
    fix h1 k r1 assume "decoded E h r (h1, k, r1)"
    then have h1: "heap_ok E h1" "later h h1" "tail_of r r1" "live_key h1 k" "keylike k" by (auto simp: decoded_def)
    have t1: "htab h1 p = Some t" using h1(2) Suc.prems(3) by (simp add: frame_def)
    note wf1 = heap_okD [OF h1(1) t1]
    have "yields (cbind (lj_tab_set (tabenv_of E h1) t k) (\<lambda>(t, s).
       if \<not> tvisnil (slot_value t s) then Raise LJ_ERR_BUFFER_DUPKEY
       else cbind (get (h1\<lparr>htab := (htab h1)(p \<mapsto> t)\<rparr>) r1) (\<lambda>(h, v, r).
         cbind (heap_store h p s v) (\<lambda>h. get_hash get E p n h r)))) ?Q dec_err"
    proof (rule yields_cbind [OF tab_set_yields [OF wf1(1) h1(5)]], clarify)
      fix t2 s assume set: "lj_tab_set (tabenv_of E h1) t k = Done (t2, s)"
        and k: "key_ok k" and sl: "slot_for (tabenv_of E h1) t k t2 s"
      let ?h = "h1\<lparr>htab := (htab h1)(p \<mapsto> t2)\<rparr>"
      have "tab_wf (tabenv_of E h1) t2" "keys_in (live_key h1) t2"
        using sl hk.lj_tab_set_keys [OF wf1(2) h1(4) set] by (simp_all add: slot_for_def)
      note s2 = heap_ok_tab [OF h1(1) this, of p]
      have u: "frame (Some p) h ?h" using frame_trans [OF later_frame [OF h1(2)] s2(2)] .
      have "yields (cbind (get ?h r1) (\<lambda>(h, v, r). cbind (heap_store h p s v) (\<lambda>h. get_hash get E p n h r))) ?Q dec_err"
      proof (rule yields_cbind [OF getter_yields [OF g s2(1) dict_frame [OF Suc.prems(1) u Suc.prems(2)]]], clarify)
        fix h3 v r3 assume "decoded E ?h r1 (h3, v, r3)"
        then have h3: "heap_ok E h3" "later ?h h3" "tail_of r1 r3" by (auto simp: decoded_def)
        have t3: "htab h3 p = Some t2" using h3(2) by (simp add: frame_def)
        note wf3 = heap_okD [OF h3(1) t3]
        let ?t = "store_slot t2 s v"
        let ?h4 = "h3\<lparr>htab := (htab h3)(p \<mapsto> ?t)\<rparr>"
        have "tab_wf (tabenv_of E h3) ?t" "keys_in (live_key h3) ?t"
          using store_slot_ok(1) [OF slot_for_env [OF sl wf3(1)] k] hk.keys_store [OF wf3(2)] by simp_all
        note s4 = heap_ok_tab [OF h3(1) this, of p]
        have u4: "frame (Some p) h ?h4" using frame_trans [OF u] frame_trans [OF later_frame [OF h3(2)] s4(2)] by blast
        have "yields (get_hash get E p n ?h4 r3)
          (\<lambda>(h', r'). heap_ok E h' \<and> frame (Some p) ?h4 h' \<and> (\<exists>t'. htab h' p = Some t') \<and> tail_of r3 r') dec_err"
          using s4(1) dict_frame [OF Suc.prems(1) u4 Suc.prems(2)] by (rule Suc.IH) simp
        then have "yields (get_hash get E p n ?h4 r3) ?Q dec_err"
            by (rule yields_mono) (use frame_trans [OF u4] tail_trans [OF tail_trans [OF h1(3) h3(3)]] in auto)
        then show "yields (cbind (heap_store h3 p s v) (\<lambda>h. get_hash get E p n h r3)) ?Q dec_err"
          using slot_for_in [OF sl] by (simp add: heap_store_def get_tab_def t3)
      qed
      then show "yields (if \<not> tvisnil (slot_value t2 s) then Raise LJ_ERR_BUFFER_DUPKEY
         else cbind (get ?h r1) (\<lambda>(h, v, r). cbind (heap_store h p s v) (\<lambda>h. get_hash get E p n h r))) ?Q dec_err"
        by simp
    qed
    then show "yields (cbind (get_tab h1 p) (\<lambda>t. cbind (lj_tab_set (tabenv_of E h1) t k) (\<lambda>(t, s).
       if \<not> tvisnil (slot_value t s) then Raise LJ_ERR_BUFFER_DUPKEY
       else cbind (get (h1\<lparr>htab := (htab h1)(p \<mapsto> t)\<rparr>) r1) (\<lambda>(h, v, r).
         cbind (heap_store h p s v) (\<lambda>h. get_hash get E p n h r))))) ?Q dec_err"
      by (simp add: get_tab_def t1)
  qed
qed auto

section \<open>Tables\<close>

lemma tail_strict: "tail_of r r1 \<Longrightarrow> r1 \<noteq> r \<Longrightarrow> tail_of r1 r' \<Longrightarrow> tail_of r r' \<and> r' \<noteq> r"
  by (auto simp: tail_of_def)

lemma get_metatable_ok:
  "yields (get_metatable D tp r) (\<lambda>(mt, tp', r'). tail_of r r') dec_err"
  unfolding get_metatable_def
  by (auto simp: Let_def intro!: yields_eob split: option.splits)
    (metis (no_types, lifting) ru124_tail tail_trans)+

lemma tab_new_yields:
  "Er LJ_ERR_TABOV \<Longrightarrow> Er LJ_ERR_ERRMEM \<Longrightarrow> yields (lj_tab_new env as hbits) (\<lambda>t. lj_tab_new env as hbits = Done t) Er"
  by (cases "lj_tab_new env as hbits")
    (auto simp: lj_tab_new_def newtab_def newhpart_def Let_def cbind_Done_iff split: if_splits)

lemma metatable_cong [simp]: "tab_wf env (t\<lparr>metatable := m\<rparr>) = tab_wf env t" "tab_abs (t\<lparr>metatable := m\<rparr>) = tab_abs t"
proof -
  have "hashkey env (t\<lparr>metatable := m\<rparr>) = hashkey env t" by (rule hashkey_cong) simp
  moreover have a: "aidx (t\<lparr>metatable := m\<rparr>) = aidx t" by (rule aidx_cong) simp
  ultimately show "tab_wf env (t\<lparr>metatable := m\<rparr>) = tab_wf env t" by (simp add: tab_wf_def)
  show "tab_abs (t\<lparr>metatable := m\<rparr>) = tab_abs t" using a by (simp add: fun_eq_iff tab_abs_def split: option.split)
qed

lemma heap_tab_new_ok:
  assumes E: "heapenv_ok E" and ok: "heap_ok E h" and Er: "Er LJ_ERR_TABOV" "Er LJ_ERR_ERRMEM"
  shows "yields (heap_tab_new E h as hbits mt)
    (\<lambda>(h', p). heap_ok E h' \<and> frame (Some p) h h' \<and> htab h p = None \<and> p \<noteq> 0 \<and> p < 2 ^ 47 \<and>
       (\<exists>t. htab h' p = Some t \<and> asize t = as \<and> (\<forall>k. tab_abs t k = niltv))) Er"
proof (cases "newtabaddr E (htab h) = 0")
  case True
  then show ?thesis using Er by (simp add: heap_tab_new_def)
next
  case False
  let ?p = "newtabaddr E (htab h)"
  have p: "htab h ?p = None" "?p < 2 ^ 47" using E False by (auto simp: heapenv_ok_def)
  show ?thesis
    unfolding heap_tab_new_def Let_def if_not_P [OF False]
  proof (rule yields_cbind [OF tab_new_yields [OF Er]])
    fix t assume new: "lj_tab_new (tabenv_of E h) as hbits = Done t"
    note t = tab_new_ok [OF new] hk.lj_tab_new_keys [OF new, of h]
    from heap_ok_tab [OF ok, of "t\<lparr>metatable := mt\<rparr>" ?p] t p False
    show "yields (Done (h\<lparr>htab := (htab h)(?p \<mapsto> t\<lparr>metatable := mt\<rparr>)\<rparr>, ?p))
      (\<lambda>(h', p). heap_ok E h' \<and> frame (Some p) h h' \<and> htab h p = None \<and> p \<noteq> 0 \<and> p < 2 ^ 47 \<and>
         (\<exists>t. htab h' p = Some t \<and> asize t = as \<and> (\<forall>k. tab_abs t k = niltv))) Er" by simp
  qed
qed

lemma get_table_ok:
  assumes E: "heapenv_ok E" and g: "getter_ok E D get" and ok: "heap_ok E h" "dict_ok h D"
  shows "yields (get_table get E D tp h r)
    (\<lambda>(h', v, r'). heap_ok E h' \<and> later h h' \<and> itype v = LJ_TTAB \<and> tail_of r r') dec_err"
  unfolding get_table_def
proof (rule yields_cbind [OF get_metatable_ok], clarify, rule yields_eob, clarify, rule yields_eob, clarify)
  fix mt tp' r1 narray r2 nhash r3
  assume 0: "tail_of r r1" and 1: "(if SER_TAG_TAB + 2 \<le> tp' then serialize_ru124 r1 else Done (Some (0, r1))) = Done (Some (narray, r2))"
    and 2: "(if tp' AND 1 \<noteq> 0 then serialize_ru124 r2 else Done (Some (0, r2))) = Done (Some (nhash, r3))"
  have "tail_of r1 r2" using 1 ru124_tail by (auto split: if_splits)
  moreover have "tail_of r2 r3" using 2 ru124_tail by (auto split: if_splits)
  ultimately have r: "tail_of r r3" using 0 tail_trans by blast
  show "yields (cbind (heap_tab_new E h (unat narray) (hsize2hbits (unat nhash)) mt) (\<lambda>(h, p).
     cbind (if narray \<noteq> 0 then get_array get p [(if SER_TAG_TAB + 4 \<le> tp' then 1 else 0)..<unat narray] h r3 else Done (h, r3)) (\<lambda>(h, r).
     cbind (if nhash \<noteq> 0 then get_hash get E p (unat nhash) h r else Done (h, r)) (\<lambda>(h, r).
       Done (h, setgcVraw p LJ_TTAB, r)))))
    (\<lambda>(h', v, r'). heap_ok E h' \<and> later h h' \<and> itype v = LJ_TTAB \<and> tail_of r r') dec_err"
  proof (rule yields_cbind [OF heap_tab_new_ok [OF E ok(1) dec_err(6,7)]], clarify)
    fix h1 p t1
    assume h1: "heap_ok E h1" "frame (Some p) h h1" "htab h p = None" "p < 2 ^ 47" "htab h1 p = Some t1" and sz: "asize t1 = unat narray"
    have al: "\<forall>i\<in>set [(if SER_TAG_TAB + 4 \<le> tp' then 1 else 0)..<unat narray]. i < length (array t1)"
      using tab_wfD(3) [OF heap_okD(1) [OF h1(1,5)]] sz by auto
    note d1 = dict_frame [OF ok(1) h1(2) ok(2)]
    have "yields (if narray \<noteq> 0 then get_array get p [(if SER_TAG_TAB + 4 \<le> tp' then 1 else 0)..<unat narray] h1 r3 else Done (h1, r3))
      (\<lambda>(h', r'). heap_ok E h' \<and> frame (Some p) h1 h' \<and> (\<exists>t'. htab h' p = Some t') \<and> tail_of r3 r') dec_err"
      using get_array_ok [OF g h1(1) d1 h1(5) al] h1(1,5) by simp
    then show "yields (cbind (if narray \<noteq> 0 then get_array get p [(if SER_TAG_TAB + 4 \<le> tp' then 1 else 0)..<unat narray] h1 r3 else Done (h1, r3)) (\<lambda>(h, r).
       cbind (if nhash \<noteq> 0 then get_hash get E p (unat nhash) h r else Done (h, r)) (\<lambda>(h, r).
         Done (h, setgcVraw p LJ_TTAB, r))))
      (\<lambda>(h', v, r'). heap_ok E h' \<and> later h h' \<and> itype v = LJ_TTAB \<and> tail_of r r') dec_err"
    proof (rule yields_cbind, clarify)
      fix h2 r4 t2 assume h2: "heap_ok E h2" "frame (Some p) h1 h2" "htab h2 p = Some t2" "tail_of r3 r4"
      have u2: "frame (Some p) h h2" using frame_trans [OF h1(2) h2(2)] .
      have "yields (if nhash \<noteq> 0 then get_hash get E p (unat nhash) h2 r4 else Done (h2, r4))
        (\<lambda>(h', r'). heap_ok E h' \<and> frame (Some p) h2 h' \<and> (\<exists>t'. htab h' p = Some t') \<and> tail_of r4 r') dec_err"
        using get_hash_ok [OF g h2(1) dict_frame [OF ok(1) u2 ok(2)] h2(3)] h2(1,3) by simp
      then show "yields (cbind (if nhash \<noteq> 0 then get_hash get E p (unat nhash) h2 r4 else Done (h2, r4)) (\<lambda>(h, r).
           Done (h, setgcVraw p LJ_TTAB, r)))
        (\<lambda>(h', v, r'). heap_ok E h' \<and> later h h' \<and> itype v = LJ_TTAB \<and> tail_of r r') dec_err"
      proof (rule yields_cbind, clarify)
        fix h5 r5 t5 assume h5: "heap_ok E h5" "frame (Some p) h2 h5" "tail_of r4 r5"
        have "later h h5" using frame_fresh [OF frame_trans [OF u2 h5(2)] h1(3)] .
        with h5 h1(4) tail_trans [OF r tail_trans [OF h2(4) h5(3)]] show "yields (Done (h5, setgcVraw p LJ_TTAB, r5))
          (\<lambda>(h', v, r'). heap_ok E h' \<and> later h h' \<and> itype v = LJ_TTAB \<and> tail_of r r') dec_err"
          by simp
      qed
    qed
  qed
qed simp_all

section \<open>Other objects\<close>

lemma heap_str_new_ok:
  assumes E: "heapenv_ok E" and ok: "heap_ok E h"
  shows "yields (heap_str_new E h b)
    (\<lambda>(h', p). heap_ok E h' \<and> later h h' \<and> holds (hstr h') p b \<and> p < 2 ^ 47) dec_err"
proof -
  have "yields (lj_str_new (hestr E) (hstr h) b)
    (\<lambda>(g', p). str_ok (hestr E) g' \<and> kept (hstr h) g' \<and> holds g' p b \<and> p \<noteq> 0 \<and> p < 2 ^ 47)
    (\<lambda>e. e = LJ_ERR_ERRMEM \<or> e = LJ_ERR_STROV \<and> LJ_MAX_STR \<le> length b)"
    using E ok by (intro str_new_ok) (auto simp: heapenv_ok_def heap_ok_def)
  then have "yields (lj_str_new (hestr E) (hstr h) b)
    (\<lambda>(g', p). str_ok (hestr E) g' \<and> kept (hstr h) g' \<and> holds g' p b \<and> p < 2 ^ 47) dec_err"
    by (rule yields_mono) auto
  then show ?thesis
    unfolding heap_str_new_def
    by (rule yields_cbind) (use heap_ok_str [OF ok] in auto)
qed

lemma get_cdata_ok:
  assumes E: "heapenv_ok E" and ok: "heap_ok E h"
  shows "yields (get_cdata E tp h r)
    (\<lambda>(h', v, r'). heap_ok E h' \<and> later h h' \<and> itype v = LJ_TCDATA \<and> tail_of r r') dec_err"
proof -
  have new: "yields (heap_cdata_new E h c) (\<lambda>(h', p). heap_ok E h' \<and> later h h' \<and> p < 2 ^ 47) dec_err" if c: "cd_ok c" for c
  proof (cases "newcdaddr E (hcd h) = 0")
    case False
    have a: "hcd h (newcdaddr E (hcd h)) = None" "newcdaddr E (hcd h) < 2 ^ 47" using E False by (auto simp: heapenv_ok_def)
    from heap_ok_cd [OF ok c a(1)] a(2) False show ?thesis by (simp add: heap_cdata_new_def Let_def)
  qed (simp add: heap_cdata_new_def)
  show ?thesis
    unfolding get_cdata_def Let_def by (auto intro!: yields_cbind [OF new] simp: cd_ok_def ser_tags)
qed

lemma lightud_small: "n < 255 \<Longrightarrow> push_bit LJ_LIGHTUD_BITS_LO (word_of_nat n) OR lightudlo u < (2 ^ 47 :: u64)"
proof -
  assume n255: "n < 255"
  have "take_bit 8 (word_of_nat n :: u64) = word_of_nat n"
    using n255 by (intro take_bit_small) (simp add: unat_of_nat take_bit_nat_eq_self)
  then have n: "\<not> bit (word_of_nat n :: u64) i" if "8 \<le> i" for i using that by (metis bit_take_bit_iff linorder_not_less)
  have lo: "lightudlo u = take_bit 39 u" by (simp add: lightudlo_def LJ_LIGHTUD_BITS_LO_def take_bit_eq_mask mask_eq_decr_exp)
  have "take_bit 47 (push_bit LJ_LIGHTUD_BITS_LO (word_of_nat n) OR lightudlo u) = push_bit LJ_LIGHTUD_BITS_LO (word_of_nat n) OR lightudlo u"
  proof (rule bit_word_eqI)
    fix i assume "i < LENGTH(64)"
    show "bit (take_bit 47 (push_bit LJ_LIGHTUD_BITS_LO (word_of_nat n) OR lightudlo u)) i =
      bit (push_bit LJ_LIGHTUD_BITS_LO (word_of_nat n) OR lightudlo u) i"
      using n [of "i - 39"] unfolding bit_take_bit_iff bit_or_iff bit_push_bit_iff lo LJ_LIGHTUD_BITS_LO_def
      by (cases "i < 47") auto
  qed
  moreover have "take_bit 47 w < 2 ^ 47" for w :: u64
    using take_bit_nat_less_exp [of 47 "unat w"] by (simp add: word_less_nat_alt unsigned_take_bit_eq)
  ultimately show ?thesis by metis
qed

lemma get_lightud_ok:
  assumes ok: "heap_ok E h"
  shows "yields (get_lightud E tp h r)
    (\<lambda>(h', v, r'). heap_ok E h' \<and> later h h' \<and> itype v = LJ_TLIGHTUD \<and> tail_of r r') dec_err"
proof -
  have l: "length (hseg h) \<le> 255" using ok by (simp add: heap_ok_def)
  have int: "yields (lj_lightud_intern E h u) (\<lambda>(h', p). heap_ok E h' \<and> later h h' \<and> p < 2 ^ 47) dec_err" for u
  proof (cases "find (\<lambda>i. hseg h ! i = lightudup u) [0..<length (hseg h)]")
    case (Some seg)
    then have "seg < length (hseg h)" by (auto simp: find_Some_iff)
    then have "seg < 255" using l by simp
    with Some lightud_small ok show ?thesis by (simp add: lj_lightud_intern_def Let_def)
  next
    case None
    show ?thesis
    proof (cases "length (hseg h) \<noteq> 0 \<and> 255 \<le> length (hseg h)")
      case False
      then have "length (hseg h) < 255" by auto
      with None False lightud_small heap_ok_seg [OF ok] show ?thesis by (simp add: lj_lightud_intern_def Let_def)
    qed (use None in \<open>simp add: lj_lightud_intern_def Let_def\<close>)
  qed
  show ?thesis
    unfolding get_lightud_def
  proof (rule yields_eob, clarify)
    fix u r1
    assume "(if tp = SER_TAG_LIGHTUD32 then
            if length r < 4 then Done None else cbind (rd 4 r) (\<lambda>b. Done (Some (ucast (get_le32 b), drop 4 r)))
          else if tp = SER_TAG_LIGHTUD64 then
            if length r < 8 then Done None else cbind (rd 8 r) (\<lambda>b. Done (Some (get_le64 b, drop 8 r)))
          else Done (Some (0, r))) = Done (Some (u, r1))"
    then have "tail_of r r1" by (auto split: if_splits)
    then show "yields (cbind (lj_lightud_intern E h u) (\<lambda>(h, p). Done (h, setgcVraw p LJ_TLIGHTUD, r1)))
      (\<lambda>(h', v, r'). heap_ok E h' \<and> later h h' \<and> itype v = LJ_TLIGHTUD \<and> tail_of r r') dec_err"
      by (intro yields_cbind [OF int]) auto
  qed simp_all
qed

section \<open>All objects\<close>

lemma ref_keylike:
  "itype v \<in> {LJ_TSTR, LJ_TTAB, LJ_TCDATA, LJ_TLIGHTUD} \<Longrightarrow> keylike v"
  using ref_tests [of v] tvispri_nil [of v] by (auto simp: keylike_def key_ok_def tag_defs)

lemma pri_keylike: "tp \<le> SER_TAG_TRUE \<Longrightarrow> keylike (setpriV (NOT tp)) \<and> \<not> tvisstr (setpriV (NOT tp)) \<and> \<not> tvisnum (setpriV (NOT tp))
    \<and> itype (setpriV (NOT tp)) = NOT tp"
proof -
  assume "tp \<le> SER_TAG_TRUE"
  then have "unat tp \<le> 2" by (simp add: ser_tags word_le_nat_alt)
  then consider "tp = 0" | "tp = 1" | "tp = 2"
    by (force simp: word_unat_eq_iff)
  then show ?thesis
    by cases (simp_all add: pri_values keylike_def key_ok_def tvisnum_def tvispri_def tvisstr_def tvisnil_def itype_eval niltv_def setpriV_def tag_defs)
qed

lemma irt_refs: "itype v = NOT k \<Longrightarrow> k \<in> {0, 1, 2, 3, 4, 10, 11} \<Longrightarrow> itype2irt v = ucast k"
  by (auto simp: itype2irt_def tvisnum_def tag_defs word_less_def unsigned_minus_1_eq_mask mask_eq_exp_minus_1)

lemma tag_ranges:
  "SER_TAG_TAB \<le> tp \<Longrightarrow> tp \<le> SER_TAG_DICT_MT \<Longrightarrow> tp \<in> {8, 9, 10, 11, 12, 13, 14}"
  "SER_TAG_INT64 \<le> tp \<Longrightarrow> tp \<le> SER_TAG_COMPLEX \<Longrightarrow> tp \<in> {16, 17, 18}"
  "tp \<le> SER_TAG_TRUE \<Longrightarrow> tp \<in> {0, 1, 2}"
  "\<not> tp \<le> SER_TAG_TRUE \<Longrightarrow> tp \<le> SER_TAG_LIGHTUD64 \<Longrightarrow> tp \<in> {3, 4, 5}"
  by (simp_all add: ser_tags word_le_nat_alt word_unat_eq_iff) linarith+

definition table_getter :: "heapenv \<Rightarrow> sdict \<Rightarrow> (u32 \<Rightarrow> getter) \<Rightarrow> bool" where
  "table_getter E D gt \<longleftrightarrow> (\<forall>tp h r. heap_ok E h \<longrightarrow> dict_ok h D \<longrightarrow>
     yields (gt tp h r) (\<lambda>(h', v, r'). heap_ok E h' \<and> later h h' \<and> itype v = LJ_TTAB \<and> tail_of r r') dec_err)"

lemma get_value_ok:
  assumes E: "heapenv_ok E" and gt: "table_getter E D gt" and ok: "heap_ok E h" and D: "dict_ok h D"
  shows "yields (get_value E D gt h r) (\<lambda>(h', v, r'). decoded E h r (h', v, r') \<and> lj_serialize_peektype r = Done (itype2irt v)) dec_err"
  (is "yields _ ?Q _")
  unfolding get_value_def
proof (rule yields_eob, clarify)
  fix tp r1 assume tp: "serialize_ru124 r = Done (Some (tp, r1))"
  note t1 = ru124_tail [OF tp]
  have ref: "?Q (h', v, r')" if "heap_ok E h'" "later h h'" "live_key h' v" "itype v = NOT k" "k \<in> {3, 4, 10, 11}" "tail_of r1 r'"
      "lj_serialize_peektype r = Done (ucast k)" for h' v r' k
    using that tail_strict [of r r1 r'] t1 ref_keylike [of v] irt_refs [of v k] by (auto simp: decoded_def tag_defs)
  have nonstr: "live_key h' v" if "itype v \<noteq> LJ_TSTR" for h' v using that by (simp add: live_key_def tvisstr_def)
  have peek: "lj_serialize_peektype r = Done (if tp = SER_TAG_NIL then IRT_NIL
          else if tp = SER_TAG_FALSE then IRT_FALSE
          else if tp = SER_TAG_TRUE then IRT_TRUE
          else if tp \<in> {SER_TAG_NULL, SER_TAG_LIGHTUD32, SER_TAG_LIGHTUD64} then IRT_LIGHTUD
          else if tp = SER_TAG_INT \<or> tp = SER_TAG_NUM then IRT_NUM
          else if tp \<in> {SER_TAG_TAB, SER_TAG_TAB + 1, SER_TAG_TAB + 2, SER_TAG_TAB + 3, SER_TAG_TAB + 4, SER_TAG_TAB + 5, SER_TAG_DICT_MT}
          then IRT_TAB
          else if tp \<in> {SER_TAG_INT64, SER_TAG_UINT64, SER_TAG_COMPLEX} then IRT_CDATA
          else IRT_STR)"
    by (simp add: lj_serialize_peektype_def tp)
  show "yields (if SER_TAG_STR \<le> tp then
         let len = unat (tp - SER_TAG_STR)
         in if length r1 < len then Raise LJ_ERR_BUFFER_EOB
            else cbind (rd len r1) (\<lambda>b.
              cbind (heap_str_new E h b) (\<lambda>(h, p). Done (h, setgcVraw p LJ_TSTR, drop len r1)))
       else if tp = SER_TAG_INT then
         if length r1 < 4 then Raise LJ_ERR_BUFFER_EOB
         else cbind (rd 4 r1) (\<lambda>b. Done (h, num_of_int (sint (get_le32 b)), drop 4 r1))
       else if tp = SER_TAG_NUM then
         if length r1 < 8 then Raise LJ_ERR_BUFFER_EOB
         else cbind (rd 8 r1) (\<lambda>b. Done (h, fix_nan (get_le64 b), drop 8 r1))
       else if tp \<le> SER_TAG_TRUE then Done (h, setpriV (NOT tp), r1)
       else if tp = SER_TAG_DICT_STR then get_dict_str D h r1
       else if SER_TAG_TAB \<le> tp \<and> tp \<le> SER_TAG_DICT_MT then gt tp h r1
       else if SER_TAG_INT64 \<le> tp \<and> tp \<le> SER_TAG_COMPLEX then get_cdata E tp h r1
       else if tp \<le> SER_TAG_LIGHTUD64 then get_lightud E tp h r1
       else Raise (LJ_ERR_BUFFER_BADDEC tp)) ?Q dec_err"
  proof -
    consider (str) "SER_TAG_STR \<le> tp" | (int) "tp = SER_TAG_INT" | (num) "tp = SER_TAG_NUM" | (pri) "tp \<le> SER_TAG_TRUE"
      | (dict) "tp = SER_TAG_DICT_STR" | (tab) "SER_TAG_TAB \<le> tp" "tp \<le> SER_TAG_DICT_MT"
      | (cd) "SER_TAG_INT64 \<le> tp" "tp \<le> SER_TAG_COMPLEX" | (lud) "\<not> tp \<le> SER_TAG_TRUE" "tp \<le> SER_TAG_LIGHTUD64"
      | (bad) "\<not> SER_TAG_STR \<le> tp" "tp \<noteq> SER_TAG_INT" "tp \<noteq> SER_TAG_NUM" "\<not> tp \<le> SER_TAG_TRUE" "tp \<noteq> SER_TAG_DICT_STR"
        "\<not> (SER_TAG_TAB \<le> tp \<and> tp \<le> SER_TAG_DICT_MT)" "\<not> (SER_TAG_INT64 \<le> tp \<and> tp \<le> SER_TAG_COMPLEX)" "\<not> tp \<le> SER_TAG_LIGHTUD64"
      by blast
    then show ?thesis
    proof cases
      case str
      have "0x20 \<le> unat tp" using str by (simp add: ser_tags word_le_nat_alt)
      then have p: "lj_serialize_peektype r = Done (ucast (4 :: u32))" unfolding peek by (auto simp: ser_tags irt_defs)
      have "yields (cbind (heap_str_new E h b) (\<lambda>(h, p). Done (h, setgcVraw p LJ_TSTR, drop n r1))) ?Q dec_err" for b n
      proof (rule yields_cbind [OF heap_str_new_ok [OF E ok]], clarify)
        fix h' p assume a: "heap_ok E h'" "later h h'" "holds (hstr h') p b" "p < 2 ^ 47"
        have "live_key h' (setgcVraw p LJ_TSTR)" using a(3,4) by (auto simp: live_key_def holds_def)
        from ref [OF a(1,2) this trans [OF ref_tags(1) [OF a(4)] LJ_TSTR_def] _ tail_drop p]
        show "yields (Done (h', setgcVraw p LJ_TSTR, drop n r1)) ?Q dec_err" by simp
      qed
      with str show ?thesis by (simp add: Let_def)
    next
      case int
      have p: "lj_serialize_peektype r = Done (IRT_NUM)" unfolding peek int by (simp add: ser_tags)
      let ?v = "num_of_int (sint (get_le32 (take 4 r1)))"
      have "decoded E h r (h, ?v, drop 4 r1) \<and> itype2irt ?v = IRT_NUM"
        using num_of_int_key [of "get_le32 (take 4 r1)"] ok tail_strict [OF t1 [THEN conjunct1] t1 [THEN conjunct2] tail_drop] hk.keys_num
        by (simp add: decoded_def keylike_def itype2irt_def)
      with int p show ?thesis by (simp add: ser_tags)
    next
      case num
      have p: "lj_serialize_peektype r = Done (IRT_NUM)" unfolding peek num by (simp add: ser_tags)
      let ?v = "fix_nan (get_le64 (take 8 r1))"
      have "decoded E h r (h, ?v, drop 8 r1) \<and> itype2irt ?v = IRT_NUM"
        using fix_nan_num [of "get_le64 (take 8 r1)"] num_not_pri [of ?v] ok tail_strict [OF t1 [THEN conjunct1] t1 [THEN conjunct2] tail_drop]
        by (simp add: decoded_def keylike_def itype2irt_def live_key_def)
      with num p show ?thesis by (simp add: ser_tags)
    next
      case pri
      note k = pri_keylike [OF pri] and c = tag_ranges(3) [OF pri]
      have "lj_serialize_peektype r = Done (ucast tp)" unfolding peek using c by (auto simp: ser_tags irt_defs IRT_FALSE_def IRT_TRUE_def)
      moreover have "itype2irt (setpriV (NOT tp)) = ucast tp" using k c by (intro irt_refs) auto
      moreover have "decoded E h r (h, setpriV (NOT tp), r1)" using k ok t1 by (simp add: decoded_def live_key_def)
      moreover have "\<not> SER_TAG_STR \<le> tp \<and> tp \<noteq> SER_TAG_INT \<and> tp \<noteq> SER_TAG_NUM"
        using c by (auto simp: ser_tags word_le_def)
      ultimately show ?thesis using pri by simp
    next
      case dict
      have p: "lj_serialize_peektype r = Done (ucast (4 :: u32))" unfolding peek dict by (simp add: ser_tags irt_defs)
      have "yields (get_dict_str D h r1) ?Q dec_err"
        unfolding get_dict_str_def Let_def
      proof (rule yields_eob, clarify)
        fix idx r2 assume "serialize_ru124 r1 = Done (Some (idx, r2))"
        then have r2: "tail_of r1 r2" using ru124_tail by blast
        show "yields (case dict_str D of None \<Rightarrow> Raise (LJ_ERR_BUFFER_BADDICTX (idx + 1))
            | Some dict \<Rightarrow> if unat (idx + 1) < asize dict \<and> tvisstr (array dict ! unat (idx + 1))
                then Done (h, array dict ! unat (idx + 1), r2) else Raise (LJ_ERR_BUFFER_BADDICTX (idx + 1))) ?Q dec_err"
        proof (cases "dict_str D")
          case (Some d)
          have "live_key h (array d ! unat (idx + 1))" if "unat (idx + 1) < asize d"
            using D Some that nth_mem [of "unat (idx + 1)" "array d"] by (auto simp: dict_ok_def simp del: nth_mem)
          with Some ref [of h "array d ! unat (idx + 1)" 4 r2] ok p r2 show ?thesis by (simp add: tvisstr_def tag_defs)
        qed simp
      qed simp_all
      with dict show ?thesis by (simp add: ser_tags)
    next
      case tab
      note c = tag_ranges(1) [OF tab]
      have p: "lj_serialize_peektype r = Done (ucast (11 :: u32))" unfolding peek using c by (auto simp: ser_tags irt_defs)
      have "yields (gt tp h r1) (\<lambda>(h', v, r'). heap_ok E h' \<and> later h h' \<and> itype v = LJ_TTAB \<and> tail_of r1 r') dec_err"
        using gt ok D by (simp add: table_getter_def)
      then have "yields (gt tp h r1) ?Q dec_err"
        by (rule yields_mono) (use ref [of _ _ 11] nonstr p in \<open>auto simp: tag_defs\<close>)
      moreover have "\<not> SER_TAG_STR \<le> tp \<and> tp \<noteq> SER_TAG_INT \<and> tp \<noteq> SER_TAG_NUM \<and> \<not> tp \<le> SER_TAG_TRUE \<and> tp \<noteq> SER_TAG_DICT_STR"
        using c by (auto simp: ser_tags word_le_def)
      ultimately show ?thesis using tab by simp
    next
      case cd
      note c = tag_ranges(2) [OF cd]
      have p: "lj_serialize_peektype r = Done (ucast (10 :: u32))" unfolding peek using c by (auto simp: ser_tags irt_defs)
      have "yields (get_cdata E tp h r1) ?Q dec_err"
        by (rule yields_mono [OF get_cdata_ok [OF E ok]]) (use ref [of _ _ 10] nonstr p in \<open>auto simp: tag_defs\<close>)
      moreover have "\<not> SER_TAG_STR \<le> tp \<and> tp \<noteq> SER_TAG_INT \<and> tp \<noteq> SER_TAG_NUM \<and> \<not> tp \<le> SER_TAG_TRUE \<and> tp \<noteq> SER_TAG_DICT_STR \<and> \<not> (SER_TAG_TAB \<le> tp \<and> tp \<le> SER_TAG_DICT_MT)"
        using c by (auto simp: ser_tags word_le_def)
      ultimately show ?thesis using cd by auto
    next
      case lud
      note c = tag_ranges(4) [OF lud]
      have p: "lj_serialize_peektype r = Done (ucast (3 :: u32))" unfolding peek using c by (auto simp: ser_tags irt_defs)
      have "yields (get_lightud E tp h r1) ?Q dec_err"
        by (rule yields_mono [OF get_lightud_ok [OF ok]]) (use ref [of _ _ 3] nonstr p in \<open>auto simp: tag_defs\<close>)
      moreover have "\<not> SER_TAG_STR \<le> tp \<and> tp \<noteq> SER_TAG_INT \<and> tp \<noteq> SER_TAG_NUM \<and> \<not> tp \<le> SER_TAG_TRUE \<and> tp \<noteq> SER_TAG_DICT_STR \<and> \<not> (SER_TAG_TAB \<le> tp \<and> tp \<le> SER_TAG_DICT_MT) \<and> \<not> (SER_TAG_INT64 \<le> tp \<and> tp \<le> SER_TAG_COMPLEX)"
        using c by (auto simp: ser_tags word_le_def)
      ultimately show ?thesis using lud by auto
    next
      case bad
      then show ?thesis by auto
    qed
  qed
qed simp_all

lemma serialize_get_ok:
  assumes E: "heapenv_ok E" and ok: "heap_ok E h" and D: "dict_ok h D"
  shows "yields (serialize_get d E D h r)
    (\<lambda>(h', v, r'). decoded E h r (h', v, r') \<and> lj_serialize_peektype r = Done (itype2irt v)) dec_err"
  using ok D
proof (induction d arbitrary: h r)
  case 0
  have "table_getter E D (\<lambda>_ _ _. Raise LJ_ERR_BUFFER_DEPTH)" by (simp add: table_getter_def)
  from get_value_ok [OF E this 0] show ?case by simp
next
  case (Suc d)
  have "getter_ok E D (serialize_get d E D)"
    unfolding getter_ok_def
  proof (intro allI impI)
    fix h r assume "heap_ok E h" "dict_ok h D"
    then show "yields (serialize_get d E D h r) (decoded E h r) dec_err" by (intro yields_mono [OF Suc.IH]) auto
  qed
  then have "table_getter E D (get_table (serialize_get d E D) E D)" using get_table_ok [OF E] by (simp add: table_getter_def)
  from get_value_ok [OF E this Suc.prems] show ?case by simp
qed

section \<open>The decoder on any input\<close>

text \<open>C29. The decoder is safe on untrusted input. For any bytes, any dictionaries and any answers of the allocators,
  decoding ends without reading a byte beyond the end of the input or storing into a slot that a table does not have (either would be
  stuck): it gives a value and the rest of the bytes, having consumed at least one, or raises one of the errors of the format or of the allocators. The heap stays well-formed, and every table, string and C object that was there
  before is there unchanged, so a malformed input cannot touch existing objects.\<close>

theorem decoder_safe:
  assumes "heapenv_ok E" and "heap_ok E h" and "dict_ok h D"
  shows "yields (lj_serialize_get E h D sbx)
    (\<lambda>(h', v, rest). heap_ok E h' \<and> later h h' \<and> live_key h' v \<and> (\<exists>used. used \<noteq> [] \<and> content sbx = used @ rest)) dec_err"
  unfolding lj_serialize_get_def content_def [symmetric]
  by (rule yields_mono [OF serialize_get_ok [OF assms]]) (auto simp: decoded_def tail_of_def)

text \<open>C31. The type that the recorder peeks from the first tag is the type of the value: whenever the decoder returns, the type
  code of \<^verbatim>\<open>lj_serialize_peektype\<close> is the one of the tag of the decoded value, for every tag, with and without dictionaries.\<close>

theorem peektype_sound:
  assumes "heapenv_ok E" and "heap_ok E h" and "dict_ok h D" and "lj_serialize_get E h D sbx = Done (h', v, rest)"
  shows "lj_serialize_peektype (content sbx) = Done (itype2irt v)"
  using serialize_get_ok [OF assms(1-3), of LJ_SERIALIZE_DEPTH "content sbx"] assms(4)
  by (simp add: lj_serialize_get_def content_def)

text \<open>An empty heap, and an input that holds a table with one entry.\<close>

definition str0 :: strstate where
  "str0 = (blank_strings env_two lj_prng_seed_fixed)\<lparr>stab := [(False, [])]\<rparr>"

definition heap0 :: heap where
  "heap0 = \<lparr>hstr = str0, htab = Map.empty, hcd = Map.empty, hseg = []\<rparr>"

definition heapenv0 :: heapenv where
  "heapenv0 = \<lparr>hestr = env_two, hetab = env0, newtabaddr = (\<lambda>m. if m 32 = None then 32 else if m 64 = None then 64 else 0),
     newcdaddr = (\<lambda>m. if m 32 = None then 32 else 0), seg_ok = (\<lambda>_. True), has_cts = True\<rparr>"

lemma str0_ok: "str_ok env_two str0"
proof -
  have w: "curwhite str0 = 1" by (simp add: str0_def blank_strings_def curwhite_def LJ_GC_WHITES_def)
  have "\<not> isdead str0 \<lparr>smarked = 1, hashalg = False, ssid = 0, shash = 0, sdata = []\<rparr>" using w by (simp add: isdead_alt)
  moreover have "\<exists>k\<le>26. (1 :: nat) = 2 ^ k" by (intro exI [of _ 0]) simp
  ultimately show ?thesis
    using w unfolding str_ok_def by (auto simp: str0_def blank_strings_def chained_def split: if_splits)
qed

lemma heap0_ok: "heapenv_ok heapenv0" "heap_ok heapenv0 heap0" "dict_ok heap0 no_dict"
proof -
  have "strenv_ok env_two" by (simp add: strenv_ok_def env_two_def)
  then show "heapenv_ok heapenv0" by (simp add: heapenv_ok_def heapenv0_def)
  show "heap_ok heapenv0 heap0" using str0_ok by (simp add: heap_ok_def heap0_def heapenv0_def str0_def blank_strings_def)
  show "dict_ok heap0 no_dict" by (simp add: dict_ok_def no_dict_def)
qed

abbreviation (input) one_table :: SBuf where "one_table \<equiv> lj_bufx_set_cow lj_bufx_init [0x0c, 2, 0x02, 0x99]"

lemma one_table_get:
  "\<exists>h'. lj_serialize_get heapenv0 heap0 no_dict one_table = Done (h', setgcVraw 32 LJ_TTAB, [0x99])"
proof -
  obtain n where d: "LJ_SERIALIZE_DEPTH = Suc (Suc n)" by (rule that [of 98]) (simp add: LJ_SERIALIZE_DEPTH_def)
  have r: "drop (br one_table) (take (bw one_table) (bmem one_table)) = [0x0c, 2, 0x02, 0x99]"
    by (simp add: lj_bufx_set_cow_def lj_bufx_init_def)
  have t: "lj_tab_new (tabenv_of heapenv0 heap0) 2 0 = Done \<lparr>nomm = 0xff, colo = 2, array = [niltv, niltv], asize = 2, nodes = [nilnode],
      hmask = 0, freetop = 0, metatable = 0, black = False\<rparr>"
    by (simp add: lj_tab_new_def newtab_def LJ_MAX_COLOSIZE_def tabenv_of_def heapenv0_def env0_def no_hpart_def clearapart_def numeral_2_eq_2 upt_rec)
  show ?thesis
    unfolding lj_serialize_get_def r d
    by (simp add: get_value_def get_table_def get_metatable_def eob_def serialize_ru124_def ser_tags hsize2hbits_def
        heap_tab_new_def heapenv0_def heap0_def t [unfolded heapenv0_def heap0_def] upt_rec heap_store_def slot_in_def get_tab_def)
qed

lemma decoder_safe_witness:
  "yields (lj_serialize_get heapenv0 heap0 no_dict one_table)
    (\<lambda>(h', v, rest). heap_ok heapenv0 h' \<and> later heap0 h' \<and> live_key h' v \<and> (\<exists>used. used \<noteq> [] \<and> content one_table = used @ rest)) dec_err"
  by (rule decoder_safe [OF heap0_ok])

lemma peektype_sound_witness:
  "lj_serialize_peektype [0x0c, 2, 0x02, 0x99] = Done (itype2irt (setgcVraw 32 LJ_TTAB))"
proof -
  obtain h' where "lj_serialize_get heapenv0 heap0 no_dict one_table = Done (h', setgcVraw 32 LJ_TTAB, [0x99])"
    using one_table_get by blast
  from peektype_sound [OF heap0_ok this] show ?thesis by (simp add: content_def lj_bufx_set_cow_def lj_bufx_init_def)
qed

end
