(* ===== verification/SerTrip.thy ===== *)
theory SerTrip
  imports SerSafe
begin

text \<open>
  The encoder of \<^verbatim>\<open>src/src/lj_serialize.c\<close> writes the bytes of the format, and decoding them gives a copy:
  the same strings, numbers and truth values, equal C data, and new tables with the same entries.
\<close>

section \<open>The format\<close>

text \<open>The bytes of an object, if it can be encoded within the depth; no dictionaries.\<close>

fun wire_list :: "(tvalue \<Rightarrow> bytes option) \<Rightarrow> tvalue list \<Rightarrow> bytes option" where
  "wire_list f [] = Some []"
| "wire_list f (x # xs) = (case f x of None \<Rightarrow> None | Some w \<Rightarrow> map_option ((@) w) (wire_list f xs))"

definition wire_lightud :: "u64 \<Rightarrow> bytes" where
  "wire_lightud ud =
     (if ud = 0 then [ucast SER_TAG_NULL]
      else if unat ud < 2 ^ 32 then ucast SER_TAG_LIGHTUD32 # take 4 (put_le64 ud)
      else ucast SER_TAG_LIGHTUD64 # put_le64 ud)"

definition wire_cdata :: "gccdata \<Rightarrow> bytes option" where
  "wire_cdata c =
     (case cdkind c of
        CD_INT64 \<Rightarrow> Some (ucast SER_TAG_INT64 # cdbytes c)
      | CD_UINT64 \<Rightarrow> Some (ucast SER_TAG_UINT64 # cdbytes c)
      | CD_COMPLEX \<Rightarrow> Some (ucast SER_TAG_COMPLEX # cdbytes c)
      | CD_OTHER \<Rightarrow> None)"

definition wire_value :: "heap \<Rightarrow> (gctab \<Rightarrow> bytes option) \<Rightarrow> tvalue \<Rightarrow> bytes option" where
  "wire_value h wt v =
     (if tvisstr v then map_option (\<lambda>s. u124 (SER_TAG_STR + word_of_nat (length (sdata s))) @ sdata s) (sobj (hstr h) (gcval v))
      else if tvisnum v then Some (ucast SER_TAG_NUM # put_le64 v)
      else if tvispri v then Some [ucast (SER_TAG_NIL + NOT (itype v))]
      else if tvistab v then Option.bind (htab h (gcval v)) wt
      else if tviscdata v then Option.bind (hcd h (gcval v)) wire_cdata
      else if tvislightud v then (case lightudV h v of Done ud \<Rightarrow> Some (wire_lightud ud) | _ \<Rightarrow> None)
      else None)"

definition used_nodes :: "gctab \<Rightarrow> node list" where
  "used_nodes t = filter (\<lambda>n. \<not> tvisnil (nval n)) (rev (take (hmask t + 1) (nodes t)))"

text \<open>A table is a head, then the entries one after the other. The array part is cut after its last value, and without its slot 0 when
  that is empty. A table without a hash part has the empty dummy node.\<close>

definition array_values :: "gctab \<Rightarrow> tvalue list" where
  "array_values t = rev (dropWhile tvisnil (rev (map ((!) (array t)) [0..<asize t])))"

definition hash_entries :: "gctab \<Rightarrow> node list" where
  "hash_entries t = (if hmask t = 0 then [] else used_nodes t)"

definition tab_tag :: "gctab \<Rightarrow> u32" where
  "tab_tag t = 8 + (if hash_entries t = [] then 0 else 1) +
     (case array_values t of [] \<Rightarrow> 0 | v # _ \<Rightarrow> if tvisnil v then 4 else 2)"

definition tab_head :: "gctab \<Rightarrow> bytes" where
  "tab_head t = ucast (tab_tag t) # (if array_values t = [] then [] else u124 (word_of_nat (length (array_values t)))) @
     (if hash_entries t = [] then [] else u124 (word_of_nat (length (hash_entries t))))"

definition tab_items :: "gctab \<Rightarrow> tvalue list" where
  "tab_items t = (case array_values t of [] \<Rightarrow> [] | v # vs \<Rightarrow> if tvisnil v then vs else v # vs) @
     concat (map (\<lambda>n. [nkey n, nval n]) (hash_entries t))"

definition wire_tab :: "(tvalue \<Rightarrow> bytes option) \<Rightarrow> gctab \<Rightarrow> bytes option" where
  "wire_tab f t = map_option ((@) (tab_head t)) (wire_list f (tab_items t))"

fun wire :: "nat \<Rightarrow> heap \<Rightarrow> tvalue \<Rightarrow> bytes option" where
  "wire 0 h = wire_value h (\<lambda>_. None)"
| "wire (Suc d) h = wire_value h (wire_tab (wire d h))"

section \<open>The encoder\<close>

lemma serialize_more_eq: "serialize_more B sz sb = lj_buf_more B sb sz"
  by (simp add: serialize_more_def lj_buf_more_def)

lemma puts_serialize: "writes q g \<Longrightarrow> length q \<le> unat n \<Longrightarrow> puts q (\<lambda>sb. cbind (serialize_more B n sb) g)"
  unfolding serialize_more_eq by (rule puts_more)

lemma writes_tag: "writes q g \<Longrightarrow> writes (c # q) (\<lambda>sb. cbind (wbyte c sb) g)"
  using writes_cbind [OF writes_wbyte, of q g c] by simp

lemma puts_str:
  assumes "length str < LJ_MAX_STR"
  shows "puts (u124 (SER_TAG_STR + word_of_nat (length str)) @ str) (put_str B str)"
proof -
  have b: "length str + 5 < 2 ^ 32" using assms by (simp add: LJ_MAX_STR_def LJ_MAX_MEM32_def)
  have "5 + word_of_nat (length str) = (word_of_nat (5 + length str) :: u32)" by simp
  then have u: "unat (5 + word_of_nat (length str) :: u32) = 5 + length str"
    using unat32 [of "5 + length str"] b by (simp only: add.commute)
  have "puts (u124 (SER_TAG_STR + word_of_nat (length str)) @ str) (\<lambda>sb. cbind (serialize_more B (5 + word_of_nat (length str)) sb)
      (\<lambda>sb. cbind (serialize_wu124 (SER_TAG_STR + word_of_nat (length str)) sb) (lj_buf_wmem str)))"
    by (rule puts_serialize [OF writes_cbind [OF writes_wu124 writes_wmem]]) (use u length_u124(2) [of "SER_TAG_STR + word_of_nat (length str)"] in \<open>simp only: length_append\<close>)
  moreover have "put_str B str = (\<lambda>sb. cbind (serialize_more B (5 + word_of_nat (length str)) sb)
      (\<lambda>sb. cbind (serialize_wu124 (SER_TAG_STR + word_of_nat (length str)) sb) (lj_buf_wmem str)))"
    by (simp only: fun_eq_iff put_str_def Let_def) blast
  ultimately show ?thesis by (simp only:)
qed

lemma puts_tagged:
  assumes "length q < 2 ^ 16"
  shows "puts (ucast tag # q) (put_tagged B tag q)"
proof -
  have "1 + word_of_nat (length q) = (word_of_nat (1 + length q) :: u32)" by simp
  then have "unat (1 + word_of_nat (length q) :: u32) = 1 + length q"
    using unat32 [of "1 + length q"] assms by simp
  then have "puts (ucast tag # q) (\<lambda>sb. cbind (serialize_more B (1 + word_of_nat (length q)) sb) (\<lambda>sb. cbind (wbyte (ucast tag) sb) (lj_buf_wmem q)))"
    by (intro puts_serialize [OF writes_tag [OF writes_wmem]]) simp
  moreover have "put_tagged B tag q = (\<lambda>sb. cbind (serialize_more B (1 + word_of_nat (length q)) sb) (\<lambda>sb. cbind (wbyte (ucast tag) sb) (lj_buf_wmem q)))"
    by (simp add: fun_eq_iff put_tagged_def)
  ultimately show ?thesis by simp
qed

lemma puts_lightud: "puts (wire_lightud ud) (put_lightud B ud)"
proof -
  let ?g = "\<lambda>sb. if ud = 0 then wbyte (ucast SER_TAG_NULL) sb
       else if unat ud < 2 ^ 32 then cbind (wbyte (ucast SER_TAG_LIGHTUD32) sb) (lj_buf_wmem (take 4 (put_le64 ud)))
       else cbind (wbyte (ucast SER_TAG_LIGHTUD64) sb) (lj_buf_wmem (put_le64 ud))"
  have "writes (wire_lightud ud) ?g"
    using writes_wbyte writes_tag [OF writes_wmem] by (auto simp: wire_lightud_def)
  then have "puts (wire_lightud ud) (\<lambda>sb. cbind (serialize_more B (1 + 8) sb) ?g)"
    by (rule puts_serialize) (simp add: wire_lightud_def)
  moreover have "put_lightud B ud = (\<lambda>sb. cbind (serialize_more B (1 + 8) sb) ?g)" by (simp only: fun_eq_iff put_lightud_def) simp
  ultimately show ?thesis by simp
qed

lemma put_array_fun [simp]: "put_array put [] = Done" "put_array put (x # xs) = (\<lambda>sb. cbind (put x sb) (put_array put xs))"
  by (simp_all add: fun_eq_iff)

lemma puts_array:
  "(\<And>x w. x \<in> set xs \<Longrightarrow> f x = Some w \<Longrightarrow> puts w (put x)) \<Longrightarrow> wire_list f xs = Some w \<Longrightarrow> puts w (put_array put xs)"
proof (induction xs arbitrary: w)
  case (Cons x xs)
  then obtain a b where "f x = Some a" "wire_list f xs = Some b" "w = a @ b" by (auto split: option.splits)
  with Cons.prems(1) Cons.IH show ?case using puts_cbind [of a "put x" b "put_array put xs"] by simp
qed (simp add: puts_Done)

lemma put_array_append: "put_array put (xs @ ys) = (\<lambda>sb. cbind (put_array put xs sb) (put_array put ys))"
  by (induction xs) (simp_all add: cbind_assoc)

lemma put_hash_array:
  assumes "nhash = length (filter (\<lambda>n. \<not> tvisnil (nval n)) ns)" and "0 < nhash"
  shows "put_hash put put ns nhash sb = put_array put (concat (map (\<lambda>n. [nkey n, nval n]) (filter (\<lambda>n. \<not> tvisnil (nval n)) ns))) sb"
  using assms
proof (induction ns arbitrary: nhash sb)
  case (Cons n ns)
  show ?case
  proof (cases "tvisnil (nval n)")
    case False
    let ?l = "filter (\<lambda>n. \<not> tvisnil (nval n)) ns"
    show ?thesis
    proof (cases "?l = []")
      case True
      have d: "cbind c Done = c" for c :: "SBuf comp" by (cases c) simp_all
      from True Cons.prems False show ?thesis by (simp add: d)
    next
      case ne: False
      have "put_hash put put ns (length ?l) = put_array put (concat (map (\<lambda>n. [nkey n, nval n]) ?l))"
        using Cons.IH [OF refl] ne by (simp add: fun_eq_iff)
      with Cons.prems False ne show ?thesis by simp
    qed
  qed (use Cons in simp)
qed simp

lemma wire_list_append:
  "wire_list f (xs @ ys) = (case wire_list f xs of None \<Rightarrow> None | Some a \<Rightarrow> map_option ((@) a) (wire_list f ys))"
proof (induction xs)
  case Nil
  then show ?case by (cases "wire_list f ys") simp_all
next
  case (Cons x xs)
  then show ?case by (cases "f x"; cases "wire_list f xs"; cases "wire_list f ys") simp_all
qed

text \<open>The counts and the choice of the tag by the encoder are those of the format.\<close>

lemma ser_nhash_used: "ser_nhash t = length (hash_entries t)"
  by (simp add: ser_nhash_def hash_entries_def used_nodes_def rev_filter [symmetric])

lemma last_value:
  "rev (dropWhile (\<lambda>i. P (f i)) (rev [0..<n])) =
    [0..<(case find (\<lambda>i. \<not> P (f i)) (rev [0..<n]) of Some i \<Rightarrow> i + 1 | None \<Rightarrow> 0)]"
  by (induction n) auto

lemma array_values_eq: "array_values t = map ((!) (array t)) [0..<ser_narray t]"
proof -
  have "array_values t = map ((!) (array t)) (rev (dropWhile (\<lambda>i. tvisnil (array t ! i)) (rev [0..<asize t])))"
    by (simp add: array_values_def rev_map dropWhile_map o_def)
  then show ?thesis by (simp add: last_value [of tvisnil] ser_narray_def)
qed

lemma ser_narray_length: "ser_narray t = length (array_values t)"
  by (simp add: array_values_eq)

lemma array_values_Cons: "ser_narray t \<noteq> 0 \<Longrightarrow> array_values t = array t ! 0 # map ((!) (array t)) [1..<ser_narray t]"
  by (simp add: array_values_eq upt_rec)

lemma tab_tag_eq:
  "tab_tag t = SER_TAG_TAB + (if ser_nhash t \<noteq> 0 then 1 else 0) + (if ser_narray t \<noteq> 0 then word_of_nat (ser_one t) else 0)"
proof (cases "ser_narray t = 0")
  case True
  then show ?thesis by (simp add: tab_tag_def ser_tags ser_nhash_used array_values_eq)
next
  case False
  then show ?thesis by (simp add: tab_tag_def ser_tags ser_nhash_used array_values_Cons ser_one_def)
qed

lemma tab_head_eq:
  "tab_head t = ucast (tab_tag t) # (if ser_narray t \<noteq> 0 then u124 (word_of_nat (ser_narray t)) else []) @
     (if ser_nhash t \<noteq> 0 then u124 (word_of_nat (ser_nhash t)) else [])"
  by (simp add: tab_head_def ser_nhash_used ser_narray_length)

lemma tab_items_eq:
  "tab_items t = (if ser_narray t \<noteq> 0 then map ((!) (array t)) [ser_one t div 4..<ser_narray t] else []) @
     (if ser_nhash t \<noteq> 0 then concat (map (\<lambda>n. [nkey n, nval n]) (used_nodes t)) else [])"
proof (cases "ser_narray t = 0")
  case True
  then show ?thesis by (simp add: tab_items_def ser_nhash_used array_values_eq hash_entries_def)
next
  case False
  then show ?thesis by (simp add: tab_items_def ser_nhash_used array_values_Cons ser_one_def hash_entries_def upt_rec)
qed

lemma ser_narray_le: "ser_narray t \<le> asize t"
proof (cases "find (\<lambda>i. \<not> tvisnil (array t ! i)) (rev [0..<asize t])")
  case (Some i)
  then have "i \<in> set (rev [0..<asize t])" by (metis find_Some_iff nth_mem)
  with Some show ?thesis by (simp add: ser_narray_def)
qed (simp add: ser_narray_def)

lemma puts_cong: "puts q g \<Longrightarrow> (\<And>sb. f sb = g sb) \<Longrightarrow> puts q f"
  by (simp add: puts_def)

lemma put_tab_eq:
  obtains g where "puts (tab_head t) g" and "\<And>put sb. put_tab B E h no_dict put t sb = cbind (g sb) (put_array put (tab_items t))"
proof -
  define na nh where "na = ser_narray t" and "nh = ser_nhash t"
  define arr where "arr = (if na \<noteq> 0 then map ((!) (array t)) [ser_one t div 4..<na] else [])"
  define hs where "hs = (if nh \<noteq> 0 then concat (map (\<lambda>n. [nkey n, nval n]) (used_nodes t)) else [])"
  have items: "tab_items t = arr @ hs" by (simp add: tab_items_eq arr_def hs_def na_def nh_def)
  let ?g1 = "\<lambda>sb. if na \<noteq> 0 then serialize_wu124 (word_of_nat na) sb else Done sb"
  let ?g2 = "\<lambda>sb. if nh \<noteq> 0 then serialize_wu124 (word_of_nat nh) sb else Done sb"
  let ?g = "\<lambda>sb. cbind (serialize_more B (1 + 2 * 5) sb) (\<lambda>sb. cbind (wbyte (ucast (tab_tag t)) sb) (\<lambda>sb. cbind (?g1 sb) ?g2))"
  have head: "tab_head t = ucast (tab_tag t) # (if na \<noteq> 0 then u124 (word_of_nat na) else []) @ (if nh \<noteq> 0 then u124 (word_of_nat nh) else [])"
    by (simp add: tab_head_eq na_def nh_def)
  have "writes (tab_head t) (\<lambda>sb. cbind (wbyte (ucast (tab_tag t)) sb) (\<lambda>sb. cbind (?g1 sb) ?g2))"
    unfolding head by (intro writes_tag writes_cbind) (simp_all add: writes_wu124 writes_Done)
  then have H: "puts (tab_head t) ?g"
    by (rule puts_serialize) (use length_u124 [of "word_of_nat na"] length_u124 [of "word_of_nat nh"] in \<open>auto simp: head\<close>)
  have hash: "nh \<noteq> 0 \<Longrightarrow> put_hash put put (rev (take (Suc (hmask t)) (nodes t))) nh = put_array put hs" "nh = 0 \<Longrightarrow> put_array put hs = Done" for put
    using put_hash_array [of nh "rev (take (hmask t + 1) (nodes t))" put]
    by (auto simp: fun_eq_iff hs_def nh_def ser_nhash_used hash_entries_def used_nodes_def simp del: put_array_fun split: if_splits)
  have ar: "(if na \<noteq> 0 then put_array put (map ((!) (array t)) [ser_one t div 4..<na]) sb else Done sb) = put_array put arr sb" for put sb
    by (simp add: arr_def)
  have tag: "tab_tag t = SER_TAG_TAB + (if nh \<noteq> 0 then 1 else 0) + (if na \<noteq> 0 then word_of_nat (ser_one t) else 0)"
    by (simp add: tab_tag_eq na_def nh_def)
  have "put_tab B E h no_dict put t sb = cbind (?g sb) (put_array put (tab_items t))" for put sb
    unfolding put_tab_def Let_def put_metatable_def na_def [symmetric] nh_def [symmetric] tag [symmetric] items put_array_append
    by (simp add: no_dict_def cbind_assoc hash ar tag del: neq0_conv)
  with H that show thesis by blast
qed

lemma puts_tab:
  assumes f: "\<And>x w. f x = Some w \<Longrightarrow> puts w (put x)" and w: "wire_tab f t = Some w"
  shows "puts w (put_tab B E h no_dict put t)"
proof -
  obtain g where g: "puts (tab_head t) g" "\<And>put sb. put_tab B E h no_dict put t sb = cbind (g sb) (put_array put (tab_items t))"
    using put_tab_eq [of t B E h] by blast
  from w obtain b where b: "wire_list f (tab_items t) = Some b" "w = tab_head t @ b" by (auto simp: wire_tab_def)
  have "puts b (put_array put (tab_items t))" using f b(1) by (rule puts_array)
  from puts_cbind [OF g(1) this] show ?thesis unfolding b(2) by (rule puts_cong) (rule g(2))
qed

lemma str_bounds:
  assumes "heap_ok E h" and "sobj (hstr h) p = Some s"
  shows "length (sdata s) < LJ_MAX_STR"
proof (cases "p = strempty (hestr E)")
  case True
  with assms str_ok_empty [of "hestr E" "hstr h"] show ?thesis by (auto simp: heap_ok_def LJ_MAX_STR_def LJ_MAX_MEM32_def)
qed (use assms str_ok_obj(3) in \<open>auto simp: heap_ok_def\<close>)

lemma puts_value:
  assumes ok: "heap_ok E h" and wt: "\<And>t w. wt t = Some w \<Longrightarrow> puts w (puttab t)" and w: "wire_value h wt v = Some w"
  shows "puts w (put_value B h puttab v)"
proof -
  consider (str) "tvisstr v" | (num) "\<not> tvisstr v" "tvisnum v" | (pri) "\<not> tvisstr v" "\<not> tvisnum v" "tvispri v"
    | (tab) "\<not> tvisstr v" "\<not> tvisnum v" "\<not> tvispri v" "tvistab v"
    | (cd) "\<not> tvisstr v" "\<not> tvisnum v" "\<not> tvispri v" "\<not> tvistab v" "tviscdata v"
    | (lud) "\<not> tvisstr v" "\<not> tvisnum v" "\<not> tvispri v" "\<not> tvistab v" "\<not> tviscdata v" "tvislightud v"
    using w by (auto simp: wire_value_def split: if_splits)
  then show ?thesis
  proof cases
    case str
    with w obtain s where s: "sobj (hstr h) (gcval v) = Some s" "w = u124 (SER_TAG_STR + word_of_nat (length (sdata s))) @ sdata s"
      by (auto simp: wire_value_def)
    have "puts w (put_str B (sdata s))" unfolding s(2) by (rule puts_str [OF str_bounds [OF ok s(1)]])
    then show ?thesis by (rule puts_cong) (simp add: put_value_def str str_data_def s(1))
  next
    case num
    have "puts (ucast SER_TAG_NUM # put_le64 v) (put_tagged B SER_TAG_NUM (put_le64 v))" by (rule puts_tagged) simp
    with num w show ?thesis by (auto simp: wire_value_def put_value_def elim!: puts_cong)
  next
    case pri
    have "puts [ucast (SER_TAG_NIL + NOT (itype v))] (\<lambda>sb. cbind (serialize_more B 1 sb) (wbyte (ucast (SER_TAG_NIL + NOT (itype v)))))"
      by (rule puts_serialize [OF writes_wbyte]) simp
    with pri w show ?thesis by (auto simp: wire_value_def put_value_def elim!: puts_cong)
  next
    case tab
    with w obtain t where t: "htab h (gcval v) = Some t" "wt t = Some w" by (auto simp: wire_value_def bind_eq_Some_conv)
    have "put_value B h puttab v sb = puttab t sb" for sb using tab t(1) by (simp add: put_value_def get_tab_def)
    with wt [OF t(2)] show ?thesis by (rule puts_cong)
  next
    case cd
    with w obtain c where c: "hcd h (gcval v) = Some c" "wire_cdata c = Some w" by (auto simp: wire_value_def bind_eq_Some_conv)
    have k: "cd_ok c" using ok c(1) by (simp add: heap_ok_def)
    then obtain tag where t: "w = ucast tag # cdbytes c" and p: "put_value B h puttab v sb = put_tagged B tag (cdbytes c) sb" for sb
      using cd c by (cases "cdkind c") (auto simp: put_value_def wire_cdata_def cd_ok_def)
    have "length (cdbytes c) < 2 ^ 16" using k c(2) by (cases "cdkind c") (auto simp: cd_ok_def wire_cdata_def)
    from puts_tagged [OF this] show ?thesis unfolding t using p by (rule puts_cong)
  next
    case lud
    with w obtain ud where u: "lightudV h v = Done ud" "w = wire_lightud ud" by (auto simp: wire_value_def split: comp.splits)
    have "put_value B h puttab v sb = put_lightud B ud sb" for sb using lud u(1) by (simp add: put_value_def)
    with puts_lightud [of ud B] u(2) show ?thesis using puts_cong by blast
  qed
qed

lemma puts_wire: "heap_ok E h \<Longrightarrow> wire d h v = Some w \<Longrightarrow> puts w (serialize_put d B E h no_dict v)"
proof (induction d arbitrary: v w)
  case 0
  then show ?case using puts_value [OF 0(1), of "\<lambda>_. None"] by simp
next
  case (Suc d)
  have "puts w (put_tab B E h no_dict (serialize_put d B E h no_dict) t)" if "wire_tab (wire d h) t = Some w" for t w
    using Suc.IH [OF Suc.prems(1)] by (intro puts_tab [OF _ that])
  with puts_value [OF Suc.prems(1), of "wire_tab (wire d h)"] Suc.prems(2) show ?case by simp
qed

text \<open>What the encoder writes is in the format: it does not return for an object that has no bytes.\<close>

lemma complete_array:
  "put_array put xs sb = Done sb' \<Longrightarrow> (\<And>x sb sb'. put x sb = Done sb' \<Longrightarrow> f x \<noteq> None) \<Longrightarrow> wire_list f xs \<noteq> None"
  by (induction xs arbitrary: sb) (auto simp: cbind_Done_iff split: option.splits)

lemma complete_tab:
  assumes "put_tab B E h no_dict put t sb = Done sb'" and "\<And>x sb sb'. put x sb = Done sb' \<Longrightarrow> f x \<noteq> None"
  shows "wire_tab f t \<noteq> None"
proof -
  obtain g where "\<And>put sb. put_tab B E h no_dict put t sb = cbind (g sb) (put_array put (tab_items t))"
    using put_tab_eq [of t B E h] by blast
  with assms(1) obtain sb1 where "put_array put (tab_items t) sb1 = Done sb'" by (auto simp: cbind_Done_iff)
  from complete_array [OF this assms(2)] show ?thesis by (simp add: wire_tab_def)
qed

lemma complete_value:
  assumes "put_value B h puttab v sb = Done sb'" and "\<And>t sb sb'. puttab t sb = Done sb' \<Longrightarrow> wt t \<noteq> None"
  shows "wire_value h wt v \<noteq> None"
  using assms
  by (auto simp: put_value_def wire_value_def str_data_def get_tab_def cbind_Done_iff wire_cdata_def bind_eq_None_conv
      split: if_splits option.splits cdkind.splits)

lemma wire_complete: "serialize_put d B E h no_dict v sb = Done sb' \<Longrightarrow> wire d h v \<noteq> None"
proof (induction d arbitrary: v sb sb')
  case 0
  then show ?case using complete_value [of B h "\<lambda>_ _. Raise LJ_ERR_BUFFER_DEPTH" v sb sb' "\<lambda>_. None"] by simp
next
  case (Suc d)
  have "wire_tab (wire d h) t \<noteq> None" if "put_tab B E h no_dict (serialize_put d B E h no_dict) t sb = Done sb'" for t sb sb'
    by (rule complete_tab [OF that Suc.IH])
  with complete_value Suc.prems show ?case by simp
qed

section \<open>Copies\<close>

definition same_cdata :: "gccdata \<Rightarrow> gccdata \<Rightarrow> bool" where
  "same_cdata c c' \<longleftrightarrow> cdkind c' = cdkind c \<and>
     (if cdkind c = CD_COMPLEX then
        cdbytes c' = put_le64 (fix_nan (get_le64 (take 8 (cdbytes c)))) @ put_le64 (fix_nan (get_le64 (drop 8 (cdbytes c))))
      else cdbytes c' = cdbytes c)"

text \<open>The value \<open>b\<close> in the heap \<open>h'\<close> is a copy of \<open>a\<close> in \<open>h\<close>: strings and numbers are the same value; tables
  map every key to a copy of what the original maps it to.\<close>

inductive alike :: "heap \<Rightarrow> heap \<Rightarrow> tvalue \<Rightarrow> tvalue \<Rightarrow> bool" for h h' where
  alike_str: "tvisstr a \<Longrightarrow> alike h h' a a"
| alike_num: "tvisnum a \<Longrightarrow> alike h h' a a"
| alike_pri: "tvispri a \<Longrightarrow> alike h h' a (setpriV (itype a))"
| alike_cd: "tviscdata a \<Longrightarrow> tviscdata b \<Longrightarrow> hcd h (gcval a) = Some c \<Longrightarrow> hcd h' (gcval b) = Some c' \<Longrightarrow> same_cdata c c' \<Longrightarrow>
    alike h h' a b"
| alike_lightud: "tvislightud a \<Longrightarrow> tvislightud b \<Longrightarrow> lightudV h a = Done u \<Longrightarrow> lightudV h' b = Done u \<Longrightarrow> alike h h' a b"
| alike_tab: "tvistab a \<Longrightarrow> tvistab b \<Longrightarrow> htab h (gcval a) = Some t \<Longrightarrow> htab h' (gcval b) = Some t' \<Longrightarrow>
    (\<And>k. key_ok k \<Longrightarrow> alike h h' (tab_abs t k) (tab_abs t' k)) \<Longrightarrow> alike h h' a b"

lemma lightudV_prefix: "lightudV h v = Done u \<Longrightarrow> hseg h' = hseg h @ s \<Longrightarrow> lightudV h' v = Done u"
  by (auto simp: lightudV_def Let_def nth_append split: if_splits)

text \<open>A copy stays one when objects are added.\<close>

lemma alike_mono:
  assumes "alike h h1 a b" and "htab h1 \<subseteq>\<^sub>m htab h2" and "hcd h1 \<subseteq>\<^sub>m hcd h2" and "hseg h2 = hseg h1 @ s"
  shows "alike h h2 a b"
  using assms(1)
proof (induction rule: alike.induct)
  case (alike_cd a b c c')
  have "hcd h2 (gcval b) = Some c'" using assms(3) alike_cd(4) by (metis domI map_le_def)
  from alike.alike_cd [OF alike_cd(1-3) this alike_cd(5)] show ?case .
next
  case (alike_lightud a b u)
  from alike.alike_lightud [OF alike_lightud(1-3) lightudV_prefix [OF alike_lightud(4) assms(4)]] show ?case .
next
  case (alike_tab a b t t')
  have "htab h2 (gcval b) = Some t'" using assms(2) alike_tab(4) by (metis domI map_le_def)
  from alike.alike_tab [OF alike_tab(1-3) this alike_tab(6)] show ?case .
next
  case (alike_str a)
  then show ?case by (rule alike.alike_str)
next
  case (alike_num a)
  then show ?case by (rule alike.alike_num)
next
  case (alike_pri a)
  then show ?case by (rule alike.alike_pri)
qed

lemma alike_nil: "alike h h' niltv niltv"
proof -
  have "tvispri niltv" using tvispri_nil [of niltv] by (simp add: tvisnil_def niltv_def)
  moreover have "setpriV (itype niltv) = niltv" unfolding nil_not_key(3) LJ_TNIL_def by (rule pri_values(1))
  ultimately show ?thesis using alike_pri [of niltv h h'] by simp
qed

end
