(* ===== verification/SerCopy.thy ===== *)
theory SerCopy
  imports SerTrip
begin

text \<open>
  Decoding what the encoder of \<^verbatim>\<open>src/src/lj_serialize.c\<close> wrote gives a copy of the object.
\<close>

section \<open>Copies of single objects\<close>

definition mem_err :: "lj_error \<Rightarrow> bool" where
  "mem_err e \<longleftrightarrow> e \<in> {LJ_ERR_ERRMEM, LJ_ERR_TABOV, LJ_ERR_BADLU}"

lemma mem_err [simp]: "mem_err LJ_ERR_ERRMEM" "mem_err LJ_ERR_TABOV" "mem_err LJ_ERR_BADLU"
  by (simp_all add: mem_err_def)

text \<open>The heap \<open>h'\<close> with only the tables that are not in \<open>h\<close>.\<close>

definition fresh :: "heap \<Rightarrow> heap \<Rightarrow> heap" where
  "fresh h h' = h'\<lparr>htab := htab h' |` (- dom (htab h))\<rparr>"

definition copied :: "heapenv \<Rightarrow> heap \<Rightarrow> tvalue \<Rightarrow> heap \<Rightarrow> bytes \<Rightarrow> heap \<times> tvalue \<times> bytes \<Rightarrow> bool" where
  "copied E h v h1 r = (\<lambda>(h2, v', r'). r' = r \<and> heap_ok E h2 \<and> later h1 h2 \<and> alike h (fresh h1 h2) v v')"

definition copies :: "heapenv \<Rightarrow> heap \<Rightarrow> (tvalue \<Rightarrow> bytes option) \<Rightarrow> getter \<Rightarrow> bool" where
  "copies E h f g \<longleftrightarrow> (\<forall>v w h1 r. f v = Some w \<longrightarrow> heap_ok E h1 \<longrightarrow> later h h1 \<longrightarrow> yields (g h1 (w @ r)) (copied E h v h1 r) mem_err)"

definition tab_copied :: "heapenv \<Rightarrow> heap \<Rightarrow> gctab \<Rightarrow> heap \<Rightarrow> bytes \<Rightarrow> heap \<times> tvalue \<times> bytes \<Rightarrow> bool" where
  "tab_copied E h t h1 r = (\<lambda>(h2, v', r'). r' = r \<and> heap_ok E h2 \<and> later h1 h2 \<and> itype v' = LJ_TTAB \<and>
     (\<exists>t'. htab (fresh h1 h2) (gcval v') = Some t' \<and> (\<forall>k. key_ok k \<longrightarrow> alike h (fresh h1 h2) (tab_abs t k) (tab_abs t' k))))"

definition tab_copies :: "heapenv \<Rightarrow> heap \<Rightarrow> (gctab \<Rightarrow> bytes option) \<Rightarrow> (u32 \<Rightarrow> getter) \<Rightarrow> bool" where
  "tab_copies E h wt gt \<longleftrightarrow> (\<forall>p t w. htab h p = Some t \<longrightarrow> wt t = Some w \<longrightarrow>
     (\<exists>tag w'. w = ucast tag # w' \<and> tag \<in> {8, 9, 10, 11, 12, 13} \<and>
        (\<forall>h1 r. heap_ok E h1 \<longrightarrow> later h h1 \<longrightarrow> yields (gt tag h1 (w' @ r)) (tab_copied E h t h1 r) mem_err)))"

lemma read_tag: "tag < 0xe0 \<Longrightarrow> serialize_ru124 (ucast tag # r) = Done (Some (tag, r))"
  using read_u124 [of tag r] by (simp add: u124_def del: read_u124)

lemma get_put_le64_append: "get_le64 (put_le64 x @ r) = x"
proof -
  have "take 4 (put_le64 x @ r) = take 4 (put_le64 x)" by simp
  moreover have "drop 4 (put_le64 x @ r) = put_le32 (ucast (drop_bit 32 x)) @ r" by (simp add: put_le64_def)
  moreover have "drop 4 (put_le64 x) = put_le32 (ucast (drop_bit 32 x)) @ []" by (simp add: put_le64_def)
  ultimately have "get_le64 (put_le64 x @ r) = get_le64 (put_le64 x)"
    unfolding get_le64_def using get_put_le32_append [of "ucast (drop_bit 32 x)"] by simp
  then show ?thesis by simp
qed

text \<open>A light userdata reads back from its segment.\<close>

lemma lightud_split: "push_bit 32 (ucast (lightudup u)) OR lightudlo u = u"
proof -
  have lo: "lightudlo u = take_bit 39 u" by (simp add: lightudlo_def LJ_LIGHTUD_BITS_LO_def take_bit_eq_mask mask_eq_decr_exp)
  show ?thesis
  proof (rule bit_word_eqI)
    fix n assume "n < LENGTH(64)"
    then show "bit (push_bit 32 (ucast (lightudup u)) OR lightudlo u) n = bit u n"
      unfolding lightudup_def LJ_LIGHTUD_BITS_LO_def lo bit_or_iff bit_push_bit_iff bit_take_bit_iff bit_unsigned_iff bit_drop_bit_eq possible_bit_word
      by (cases "n < 39") auto
  qed
qed

lemma intern_reads_back:
  assumes n: "n < 255" and s: "n < length (hseg h)" "hseg h ! n = lightudup u" and p: "p = push_bit LJ_LIGHTUD_BITS_LO (word_of_nat n) OR lightudlo u"
  shows "lightudV h (setgcVraw p LJ_TLIGHTUD) = Done u"
proof -
  let ?v = "setgcVraw p LJ_TLIGHTUD"
  have lo: "lightudlo w = take_bit 39 w" for w by (simp add: lightudlo_def LJ_LIGHTUD_BITS_LO_def take_bit_eq_mask mask_eq_decr_exp)
  have v: "bit ?v i \<longleftrightarrow> bit p i \<or> 47 \<le> i \<and> i < 64 \<and> bit LJ_TLIGHTUD (i - 47)" for i
    unfolding setgcVraw_def bit_or_iff bit_push_bit_iff bit_unsigned_iff possible_bit_word by auto
  have pb: "bit p i \<longleftrightarrow> (if i < 39 then bit u i else i < 64 \<and> bit (word_of_nat n :: u64) (i - 39))" for i
    unfolding p lo LJ_LIGHTUD_BITS_LO_def bit_or_iff bit_push_bit_iff bit_take_bit_iff possible_bit_word by auto
  have "take_bit 8 (word_of_nat n :: u64) = word_of_nat n"
    using n by (intro take_bit_small) (simp add: unat_of_nat take_bit_nat_eq_self)
  then have nb: "bit (word_of_nat n :: u64) i \<longleftrightarrow> i < 8 \<and> bit (word_of_nat n :: u64) i" for i by (metis bit_take_bit_iff)
  have "lightudlo ?v = lightudlo u" by (rule bit_word_eqI) (simp add: lo bit_take_bit_iff v pb)
  moreover have "lightudseg ?v = word_of_nat n"
  proof -
    have m: "(255 :: u64) = mask 8" by (simp add: mask_eq_decr_exp)
    show ?thesis
    proof (rule bit_word_eqI)
      fix i assume "i < LENGTH(64)"
      show "bit (lightudseg ?v) i = bit (word_of_nat n :: u64) i"
        unfolding lightudseg_def m bit_and_iff bit_mask_iff bit_drop_bit_eq LJ_LIGHTUD_BITS_LO_def using nb [of i]
        by (auto simp: v pb possible_bit_word)
    qed
  qed
  moreover have "unat (word_of_nat n :: u64) = n" using n by (simp add: unat_of_nat take_bit_nat_eq_self)
  ultimately show ?thesis using n s lightud_split [of u] by (simp add: lightudV_def Let_def)
qed

lemma fresh_fields [simp]: "hseg (fresh h h') = hseg h'" "hcd (fresh h h') = hcd h'"
  by (simp_all add: fresh_def)

lemma lightudV_seg: "hseg h = hseg h' \<Longrightarrow> lightudV h v = lightudV h' v"
  by (simp add: lightudV_def Let_def)

lemma copy_lightud:
  assumes ok: "heap_ok E h1" and v: "tvislightud v" "lightudV h v = Done ud"
  shows "yields (lj_lightud_intern E h1 ud)
    (\<lambda>(h2, p). heap_ok E h2 \<and> later h1 h2 \<and> alike h (fresh h1 h2) v (setgcVraw p LJ_TLIGHTUD)) mem_err"
proof -
  have l: "length (hseg h1) \<le> 255" using ok by (simp add: heap_ok_def)
  have al: "alike h (fresh h1 h2) v (setgcVraw p LJ_TLIGHTUD)"
    if n: "n < 255" "n < length (hseg h2)" "hseg h2 ! n = lightudup ud" and p: "p = push_bit LJ_LIGHTUD_BITS_LO (word_of_nat n) OR lightudlo ud" for h2 n p
  proof -
    have "lightudV (fresh h1 h2) (setgcVraw p LJ_TLIGHTUD) = Done ud"
      using intern_reads_back [OF n p] by (simp add: lightudV_seg [of "fresh h1 h2" h2])
    moreover have "tvislightud (setgcVraw p LJ_TLIGHTUD)"
      using ref_tags(7) [OF lightud_small [OF n(1), of ud]] by (simp add: tvislightud_def p)
    ultimately show ?thesis using alike_lightud [OF v(1) _ v(2)] by blast
  qed
  show ?thesis
  proof (cases "find (\<lambda>i. hseg h1 ! i = lightudup ud) [0..<length (hseg h1)]")
    case (Some n)
    then have n: "n < length (hseg h1)" "hseg h1 ! n = lightudup ud" by (auto simp: find_Some_iff)
    with l have "n < 255" by simp
    from al [OF this n refl] Some ok show ?thesis by (simp add: lj_lightud_intern_def Let_def)
  next
    case None
    show ?thesis
    proof (cases "length (hseg h1) \<noteq> 0 \<and> 255 \<le> length (hseg h1)")
      case False
      then have n: "length (hseg h1) < 255" by auto
      let ?h = "h1\<lparr>hseg := hseg h1 @ [lightudup ud]\<rparr>"
      have "alike h (fresh h1 ?h) v (setgcVraw (push_bit LJ_LIGHTUD_BITS_LO (word_of_nat (length (hseg h1))) OR lightudlo ud) LJ_TLIGHTUD)"
        using n by (intro al [OF n]) simp_all
      with None False heap_ok_seg [OF ok n, of "lightudup ud"] show ?thesis by (simp add: lj_lightud_intern_def Let_def)
    qed (use None in \<open>simp add: lj_lightud_intern_def Let_def\<close>)
  qed
qed

lemma copy_str:
  assumes E: "heapenv_ok E" and ok: "heap_ok E h" "heap_ok E h1" "later h h1" and v: "tvisstr v" "sobj (hstr h) (gcval v) = Some s"
  shows "yields (heap_str_new E h1 (sdata s)) (\<lambda>(h2, p). heap_ok E h2 \<and> later h1 h2 \<and> setgcVraw p LJ_TSTR = v) mem_err"
proof -
  have st: "str_ok (hestr E) (hstr h1)" "strenv_ok (hestr E)" using E ok by (auto simp: heap_ok_def heapenv_ok_def)
  have len: "length (sdata s) < LJ_MAX_STR" by (rule str_bounds [OF ok(1) v(2)])
  have "kept (hstr h) (hstr h1)" using ok(3) by (simp add: frame_def)
  from kept_obj [OF this _ v(2)] ok(1) obtain s1 where s1: "sobj (hstr h1) (gcval v) = Some s1" "sdata s1 = sdata s" by (auto simp: heap_ok_def)
  have same: "setgcVraw p LJ_TSTR = v" if g: "str_ok (hestr E) g" "kept (hstr h1) g" "holds g p (sdata s)" for g p
  proof -
    from kept_obj [OF g(2) _ s1(1)] ok(2) obtain s2 where s2: "sobj g (gcval v) = Some s2" "sdata s2 = sdata s"
      using s1(2) by (auto simp: heap_ok_def)
    from g(3) obtain s3 where s3: "sobj g p = Some s3" "sdata s3 = sdata s" by (auto simp: holds_def)
    have "p = gcval v" using str_ok_obj(5) [OF g(1) s3(1) s2(1)] s2(2) s3(2) by simp
    then show ?thesis using strkey [OF v(1)] by simp
  qed
  have "yields (lj_str_new (hestr E) (hstr h1) (sdata s))
    (\<lambda>(g', p). str_ok (hestr E) g' \<and> kept (hstr h1) g' \<and> setgcVraw p LJ_TSTR = v) mem_err"
    by (rule yields_mono [OF str_new_ok [OF st(2,1), of "sdata s"]]) (use len same in auto)
  then show ?thesis
    unfolding heap_str_new_def by (rule yields_cbind) (use heap_ok_str [OF ok(2)] in auto)
qed

lemma copy_cdata:
  assumes E: "heapenv_ok E" and ok: "heap_ok E h1" and c: "cd_ok c'"
  shows "yields (heap_cdata_new E h1 c') (\<lambda>(h2, p). heap_ok E h2 \<and> later h1 h2 \<and> p < 2 ^ 47 \<and> hcd h2 p = Some c') mem_err"
proof (cases "newcdaddr E (hcd h1) = 0")
  case False
  have a: "hcd h1 (newcdaddr E (hcd h1)) = None" "newcdaddr E (hcd h1) < 2 ^ 47" using E False by (auto simp: heapenv_ok_def)
  from heap_ok_cd [OF ok c a(1)] a(2) False show ?thesis by (simp add: heap_cdata_new_def Let_def)
qed (simp add: heap_cdata_new_def)

lemma pri_tag: "tvispri v \<Longrightarrow> NOT (itype v) \<le> SER_TAG_TRUE"
proof -
  assume "tvispri v"
  then have "NOT 2 \<le> itype v" by (simp add: tvispri_def LJ_TISPRI_def LJ_TTRUE_def)
  moreover have "unat (NOT x) = unat (- 1 :: u32) - unat x" for x :: u32
  proof -
    have "NOT x = - 1 - x" by (simp add: not_eq_complement)
    then show ?thesis using unat_sub [of x "- 1"] by simp
  qed
  ultimately have "unat (NOT (itype v)) \<le> unat (NOT (NOT (2 :: u32)))" unfolding word_le_nat_alt by (metis diff_le_mono2)
  then show ?thesis by (simp add: ser_tags word_le_nat_alt)
qed

lemma copied_same: "alike h (fresh h1 h1) v v' \<Longrightarrow> heap_ok E h1 \<Longrightarrow> copied E h v h1 r (h1, v', r)"
  by (simp add: copied_def)

lemma copy_value:
  assumes E: "heapenv_ok E" "has_cts E" and ok: "heap_ok E h" and gt: "tab_copies E h wt gt"
  shows "copies E h (wire_value h wt) (get_value E D gt)"
  unfolding copies_def
proof (intro allI impI)
  fix v w h1 r assume w: "wire_value h wt v = Some w" and h1: "heap_ok E h1" "later h h1"
  consider (str) "tvisstr v" | (num) "\<not> tvisstr v" "tvisnum v" | (pri) "\<not> tvisstr v" "\<not> tvisnum v" "tvispri v"
    | (tab) "\<not> tvisstr v" "\<not> tvisnum v" "\<not> tvispri v" "tvistab v"
    | (cd) "\<not> tvisstr v" "\<not> tvisnum v" "\<not> tvispri v" "\<not> tvistab v" "tviscdata v"
    | (lud) "\<not> tvisstr v" "\<not> tvisnum v" "\<not> tvispri v" "\<not> tvistab v" "\<not> tviscdata v" "tvislightud v"
    using w by (auto simp: wire_value_def split: if_splits)
  then show "yields (get_value E D gt h1 (w @ r)) (copied E h v h1 r) mem_err"
  proof cases
    case str
    with w obtain s where s: "sobj (hstr h) (gcval v) = Some s" "w = u124 (SER_TAG_STR + word_of_nat (length (sdata s))) @ sdata s"
      by (auto simp: wire_value_def)
    have len: "length (sdata s) < LJ_MAX_STR" by (rule str_bounds [OF ok s(1)])
    then have u: "unat (word_of_nat (length (sdata s)) :: u32) = length (sdata s)" by (intro unat_length) simp
    have ge: "SER_TAG_STR \<le> SER_TAG_STR + word_of_nat (length (sdata s))"
    proof -
      have "unat (SER_TAG_STR + word_of_nat (length (sdata s)) :: u32) = 32 + length (sdata s)"
        using unat32 [of "32 + length (sdata s)"] len by (simp add: ser_tags LJ_MAX_STR_def LJ_MAX_MEM32_def)
      then show ?thesis by (simp add: ser_tags word_le_nat_alt)
    qed
    have al: "alike h (fresh h1 h2) v v" for h2 using str by (rule alike_str)
    have "get_value E D gt h1 (w @ r) = cbind (heap_str_new E h1 (sdata s)) (\<lambda>(h, p). Done (h, setgcVraw p LJ_TSTR, r))"
      using ge u by (simp add: get_value_def s(2) eob_def Let_def)
    then show ?thesis using copy_str [OF E(1) ok h1 str s(1)] al by (auto intro!: yields_cbind simp: copied_def)
  next
    case num
    have "w = ucast SER_TAG_NUM # put_le64 v" using w num by (simp add: wire_value_def)
    moreover have "serialize_ru124 (ucast SER_TAG_NUM # put_le64 v @ r) = Done (Some (SER_TAG_NUM, put_le64 v @ r))"
      by (rule read_tag) (simp add: ser_tags)
    ultimately have "get_value E D gt h1 (w @ r) = Done (h1, v, r)"
      using num by (simp add: get_value_def eob_def ser_tags get_put_le64_append fix_nan_def)
    then show ?thesis using copied_same [OF alike_num h1(1)] num by simp
  next
    case pri
    let ?tp = "NOT (itype v)"
    note c = tag_ranges(3) [OF pri_tag [OF pri(3)]]
    have w: "w = [ucast ?tp]" using w pri by (simp add: wire_value_def ser_tags)
    have "serialize_ru124 (ucast ?tp # r) = Done (Some (?tp, r))" by (rule read_tag) (use c in auto)
    moreover have "\<not> SER_TAG_STR \<le> ?tp \<and> ?tp \<noteq> SER_TAG_INT \<and> ?tp \<noteq> SER_TAG_NUM"
      using c by (auto simp: ser_tags word_le_def)
    ultimately have "get_value E D gt h1 (w @ r) = Done (h1, setpriV (itype v), r)"
      using pri_tag [OF pri(3)] by (simp add: get_value_def eob_def w)
    then show ?thesis using copied_same [OF alike_pri h1(1)] pri by simp
  next
    case tab
    with w obtain t where t: "htab h (gcval v) = Some t" "wt t = Some w" by (auto simp: wire_value_def bind_eq_Some_conv)
    with gt obtain tag w' where tag: "w = ucast tag # w'" "tag \<in> {8, 9, 10, 11, 12, 13}"
      and y: "yields (gt tag h1 (w' @ r)) (tab_copied E h t h1 r) mem_err"
      using h1 unfolding tab_copies_def by blast
    have "serialize_ru124 (ucast tag # w' @ r) = Done (Some (tag, w' @ r))" by (rule read_tag) (use tag(2) in auto)
    moreover have "\<not> SER_TAG_STR \<le> tag \<and> tag \<noteq> SER_TAG_INT \<and> tag \<noteq> SER_TAG_NUM \<and> \<not> tag \<le> SER_TAG_TRUE \<and> tag \<noteq> SER_TAG_DICT_STR \<and>
        SER_TAG_TAB \<le> tag \<and> tag \<le> SER_TAG_DICT_MT"
      using tag(2) by (auto simp: ser_tags word_le_def)
    ultimately have "get_value E D gt h1 (w @ r) = gt tag h1 (w' @ r)" by (simp add: get_value_def eob_def tag(1))
    moreover have "copied E h v h1 r x" if "tab_copied E h t h1 r x" for x
      using that alike_tab [OF tab(4) _ t(1)] by (cases x) (auto simp: copied_def tab_copied_def tvistab_def)
    ultimately show ?thesis using yields_mono [OF y] by auto
  next
    case cd
    with w obtain c where c: "hcd h (gcval v) = Some c" "wire_cdata c = Some w" by (auto simp: wire_value_def bind_eq_Some_conv)
    have k: "cd_ok c" using ok c(1) by (simp add: heap_ok_def)
    define c' where "c' = c\<lparr>cdbytes := (if cdkind c = CD_COMPLEX then put_le64 (fix_nan (get_le64 (take 8 (cdbytes c)))) @
        put_le64 (fix_nan (get_le64 (drop 8 (cdbytes c)))) else cdbytes c)\<rparr>"
    have c': "same_cdata c c'" "cd_ok c'" using k by (auto simp: same_cdata_def c'_def cd_ok_def split: cdkind.splits)
    obtain tag where t: "w = ucast tag # cdbytes c" "tag \<in> {16, 17, 18}"
      and g: "get_cdata E tag h1 (cdbytes c @ r) = cbind (heap_cdata_new E h1 c') (\<lambda>(h, p). Done (h, setgcVraw p LJ_TCDATA, r))"
    proof -
      let ?G = "\<lambda>tag. get_cdata E tag h1 (cdbytes c @ r) = cbind (heap_cdata_new E h1 c') (\<lambda>(h, p). Done (h, setgcVraw p LJ_TCDATA, r))"
      have e: "\<lparr>cdkind = k, cdbytes = x\<rparr> = c\<lparr>cdbytes := x\<rparr>" if "cdkind c = k" for k x using that by simp
      show thesis
      proof (cases "cdkind c")
        case CD_INT64
        with k E(2) c(2) show thesis
          by (intro that [of SER_TAG_INT64]) (auto simp: get_cdata_def wire_cdata_def cd_ok_def c'_def ser_tags Let_def e [OF CD_INT64])
      next
        case CD_UINT64
        with k E(2) c(2) show thesis
          by (intro that [of SER_TAG_UINT64]) (auto simp: get_cdata_def wire_cdata_def cd_ok_def c'_def ser_tags Let_def e [OF CD_UINT64])
      next
        case CD_COMPLEX
        have l8: "get_le64 (take 8 b) = get_le64 b" for b
        proof -
          have "get_le32 (take 4 x) = get_le32 x" for x by (simp add: get_le32_def)
          then show ?thesis by (simp add: get_le64_def drop_take)
        qed
        from CD_COMPLEX k E(2) c(2) show thesis
          by (intro that [of SER_TAG_COMPLEX]) (auto simp: get_cdata_def wire_cdata_def cd_ok_def c'_def ser_tags Let_def l8 e [OF CD_COMPLEX])
      qed (use c(2) in \<open>simp add: wire_cdata_def\<close>)
    qed
    have "serialize_ru124 (ucast tag # cdbytes c @ r) = Done (Some (tag, cdbytes c @ r))" by (rule read_tag) (use t(2) in auto)
    moreover have "\<not> SER_TAG_STR \<le> tag \<and> tag \<noteq> SER_TAG_INT \<and> tag \<noteq> SER_TAG_NUM \<and> \<not> tag \<le> SER_TAG_TRUE \<and> tag \<noteq> SER_TAG_DICT_STR \<and>
        \<not> (SER_TAG_TAB \<le> tag \<and> tag \<le> SER_TAG_DICT_MT) \<and> SER_TAG_INT64 \<le> tag \<and> tag \<le> SER_TAG_COMPLEX"
      using t(2) by (auto simp: ser_tags word_le_def)
    ultimately have "get_value E D gt h1 (w @ r) = cbind (heap_cdata_new E h1 c') (\<lambda>(h, p). Done (h, setgcVraw p LJ_TCDATA, r))"
      using g by (auto simp: get_value_def eob_def t(1))
    moreover have "alike h (fresh h1 h2) v (setgcVraw p LJ_TCDATA)" if "hcd h2 p = Some c'" "p < 2 ^ 47" for h2 p
      using that c'(1) c(1) cd(5) ref_tests(3) by (intro alike_cd [OF cd(5) _ c(1)]) auto
    ultimately show ?thesis using copy_cdata [OF E(1) h1(1) c'(2)] by (auto intro!: yields_cbind simp: copied_def)
  next
    case lud
    with w obtain ud where u: "lightudV h v = Done ud" "w = wire_lightud ud" by (auto simp: wire_value_def split: comp.splits)
    obtain tag w' where t: "w = ucast tag # w'" "tag \<in> {3, 4, 5}"
      and g: "get_lightud E tag h1 (w' @ r) = cbind (lj_lightud_intern E h1 ud) (\<lambda>(h, p). Done (h, setgcVraw p LJ_TLIGHTUD, r))"
    proof -
      consider "ud = 0" | "ud \<noteq> 0" "unat ud < 2 ^ 32" | "ud \<noteq> 0" "\<not> unat ud < 2 ^ 32" by blast
      then show thesis
      proof cases
        case 1
        then show thesis
          by (intro that [of SER_TAG_NULL "[]"]) (simp_all add: u(2) wire_lightud_def get_lightud_def eob_def ser_tags)
      next
        case 2
        have "take 4 (put_le64 ud) = put_le32 (ucast ud)" by (simp add: put_le64_def)
        moreover have "ucast (ucast ud :: u32) = ud"
          using take_bit_small [OF 2(2)] by (simp add: word_unat_eq_iff unsigned_ucast_eq unsigned_take_bit_eq)
        ultimately show thesis using 2
          by (intro that [of SER_TAG_LIGHTUD32 "put_le32 (ucast ud)"])
            (simp_all add: u(2) wire_lightud_def get_lightud_def eob_def ser_tags get_put_le32_append)
      next
        case 3
        then show thesis
          by (intro that [of SER_TAG_LIGHTUD64 "put_le64 ud"])
            (simp_all add: u(2) wire_lightud_def get_lightud_def eob_def ser_tags get_put_le64_append)
      qed
    qed
    have "serialize_ru124 (ucast tag # w' @ r) = Done (Some (tag, w' @ r))" by (rule read_tag) (use t(2) in auto)
    moreover have "\<not> SER_TAG_STR \<le> tag \<and> tag \<noteq> SER_TAG_INT \<and> tag \<noteq> SER_TAG_NUM \<and> \<not> tag \<le> SER_TAG_TRUE \<and> tag \<noteq> SER_TAG_DICT_STR \<and>
        \<not> (SER_TAG_TAB \<le> tag \<and> tag \<le> SER_TAG_DICT_MT) \<and> \<not> (SER_TAG_INT64 \<le> tag \<and> tag \<le> SER_TAG_COMPLEX) \<and> tag \<le> SER_TAG_LIGHTUD64"
      using t(2) by (auto simp: ser_tags word_le_def)
    ultimately have "get_value E D gt h1 (w @ r) = cbind (lj_lightud_intern E h1 ud) (\<lambda>(h, p). Done (h, setgcVraw p LJ_TLIGHTUD, r))"
      using g by (auto simp: get_value_def eob_def t(1))
    then show ?thesis using copy_lightud [OF h1(1) lud(6) u(1)] by (auto intro!: yields_cbind simp: copied_def)
  qed
qed

section \<open>Copies of tables\<close>

text \<open>Tables that a nested decoding made stay what they are while the table \<open>p\<close> is being filled.\<close>

lemma fresh_mono:
  assumes "alike h (fresh h1 h2) a b" and "frame (Some p) h2 h3" and "dom (htab h0) \<union> {p} \<subseteq> dom (htab h1)"
  shows "alike h (fresh h0 h3) a b"
proof -
  have "htab (fresh h1 h2) \<subseteq>\<^sub>m htab (fresh h0 h3)"
    unfolding map_le_def
  proof
    fix q assume "q \<in> dom (htab (fresh h1 h2))"
    then obtain t where t: "q \<notin> dom (htab h1)" "htab h2 q = Some t" by (auto simp: fresh_def restrict_map_def split: if_splits)
    then have "q \<noteq> p" "q \<notin> dom (htab h0)" using assms(3) by auto
    moreover from this t have "htab h3 q = Some t" using assms(2) by (auto simp: frame_def)
    ultimately show "htab (fresh h1 h2) q = htab (fresh h0 h3) q" using t by (simp add: fresh_def)
  qed
  moreover have "hcd (fresh h1 h2) \<subseteq>\<^sub>m hcd (fresh h0 h3)" "\<exists>s. hseg (fresh h0 h3) = hseg (fresh h1 h2) @ s"
    using assms(2) by (auto simp: frame_def)
  ultimately show ?thesis using alike_mono [OF assms(1)] by blast
qed

lemma frame_dom: "frame (Some p) h h' \<Longrightarrow> htab h' p \<noteq> None \<Longrightarrow> dom (htab h) \<subseteq> dom (htab h')"
  by (force simp: frame_def)

lemma copiesD: "copies E h f g \<Longrightarrow> f v = Some w \<Longrightarrow> heap_ok E h1 \<Longrightarrow> later h h1 \<Longrightarrow> yields (g h1 (w @ r)) (copied E h v h1 r) mem_err"
  by (simp add: copies_def)

lemma get_array_copy:
  assumes g: "copies E h f g" and new: "htab h p = None" and h0: "later h h0"
  shows "wire_list f (map src ks) = Some w \<Longrightarrow> distinct ks \<Longrightarrow> heap_ok E h1 \<Longrightarrow> later h h1 \<Longrightarrow>
    dom (htab h0) \<subseteq> dom (htab h1) \<Longrightarrow> htab h1 p = Some t \<Longrightarrow> \<forall>i\<in>set ks. i < length (array t) \<Longrightarrow>
    yields (get_array g p ks h1 (w @ r))
      (\<lambda>(h2, r'). r' = r \<and> heap_ok E h2 \<and> frame (Some p) h1 h2 \<and>
         (\<exists>t'. htab h2 p = Some t' \<and> (\<exists>xs. t' = t\<lparr>array := xs\<rparr> \<and> length xs = length (array t) \<and>
            (\<forall>i. if i \<in> set ks then alike h (fresh h0 h2) (src i) (xs ! i) else xs ! i = array t ! i)))) mem_err"
proof (induction ks arbitrary: h1 t w)
  case Nil
  have "t = t\<lparr>array := array t\<rparr>" by simp
  with Nil show ?case by (auto intro!: exI [of _ "array t"])
next
  case (Cons i ks)
  let ?Q = "\<lambda>(h2, r'). r' = r \<and> heap_ok E h2 \<and> frame (Some p) h1 h2 \<and>
         (\<exists>t'. htab h2 p = Some t' \<and> (\<exists>xs. t' = t\<lparr>array := xs\<rparr> \<and> length xs = length (array t) \<and>
            (\<forall>j. if j \<in> set (i # ks) then alike h (fresh h0 h2) (src j) (xs ! j) else xs ! j = array t ! j)))"
  from Cons.prems(1) obtain a b where ab: "f (src i) = Some a" "wire_list f (map src ks) = Some b" "w = a @ b"
    by (auto split: option.splits)
  show ?case
    unfolding get_array.simps ab(3) append_assoc
  proof (rule yields_cbind [OF copiesD [OF g ab(1) Cons.prems(3,4)]], clarify)
    fix h2 v r2 assume "copied E h (src i) h1 (b @ r) (h2, v, r2)"
    then have c: "r2 = b @ r" "heap_ok E h2" "later h1 h2" "alike h (fresh h1 h2) (src i) v" by (auto simp: copied_def)
    have t2: "htab h2 p = Some t" using c(3) Cons.prems(6) by (simp add: frame_def)
    let ?t = "t\<lparr>array := (array t)[i := v]\<rparr>"
    let ?h = "h2\<lparr>htab := (htab h2)(p \<mapsto> ?t)\<rparr>"
    have wf: "tab_wf (tabenv_of E h2) ?t" "keys_in (live_key h2) ?t" using heap_okD [OF c(2) t2] array_store_wf by simp_all
    note s = heap_ok_tab [OF c(2) wf, of p]
    have fr: "frame (Some p) h1 ?h" using frame_trans [OF later_frame [OF c(3)] s(2)] .
    have lat: "later h ?h" using frame_fresh [OF frame_trans [OF later_frame [OF Cons.prems(4)] fr] new] .
    have dm: "dom (htab h0) \<subseteq> dom (htab ?h)" using Cons.prems(5) frame_dom [OF fr] by auto
    have "yields (get_array g p ks ?h (b @ r))
      (\<lambda>(h3, r'). r' = r \<and> heap_ok E h3 \<and> frame (Some p) ?h h3 \<and>
         (\<exists>t'. htab h3 p = Some t' \<and> (\<exists>xs. t' = ?t\<lparr>array := xs\<rparr> \<and> length xs = length (array ?t) \<and>
            (\<forall>j. if j \<in> set ks then alike h (fresh h0 h3) (src j) (xs ! j) else xs ! j = array ?t ! j)))) mem_err"
      using ab(2) _ s(1) lat dm by (rule Cons.IH) (use Cons.prems(2,7) in simp_all)
    then have "yields (get_array g p ks ?h (b @ r)) ?Q mem_err"
    proof (rule yields_mono)
      fix x assume "case x of (h3, r') \<Rightarrow> r' = r \<and> heap_ok E h3 \<and> frame (Some p) ?h h3 \<and>
         (\<exists>t'. htab h3 p = Some t' \<and> (\<exists>xs. t' = ?t\<lparr>array := xs\<rparr> \<and> length xs = length (array ?t) \<and>
            (\<forall>j. if j \<in> set ks then alike h (fresh h0 h3) (src j) (xs ! j) else xs ! j = array ?t ! j)))"
      then obtain h3 xs where x: "x = (h3, r)" "heap_ok E h3" "frame (Some p) ?h h3" "htab h3 p = Some (t\<lparr>array := xs\<rparr>)"
        "length xs = length (array t)" and j: "\<And>j. if j \<in> set ks then alike h (fresh h0 h3) (src j) (xs ! j) else xs ! j = (array t)[i := v] ! j"
        by (cases x) auto
      have fr3: "frame (Some p) h2 h3" using frame_trans [OF s(2) x(3)] .
      have "xs ! i = v" using j [of i] Cons.prems(2,7) by simp
      moreover have "alike h (fresh h0 h3) (src i) v"
        by (rule fresh_mono [OF c(4) fr3]) (use Cons.prems(5,6) in auto)
      ultimately have "if k \<in> set (i # ks) then alike h (fresh h0 h3) (src k) (xs ! k) else xs ! k = array t ! k" for k
        using j [of k] by (cases "k = i") auto
      with x frame_trans [OF fr x(3)] show "?Q x" by auto
    qed simp
    with c(1) show "yields (cbind (heap_store h2 p (ASlot i) v) (\<lambda>h. get_array g p ks h r2)) ?Q mem_err"
      using Cons.prems(7) by (simp add: heap_store_def slot_in_def get_tab_def t2)
  qed
qed

text \<open>Keys whose copy is the key itself.\<close>

definition simple_key :: "tvalue \<Rightarrow> bool" where
  "simple_key k \<longleftrightarrow> tvisstr k \<or> tvisnum k \<or> tvispri k"

lemma alike_key: "alike h h' k k' \<Longrightarrow> key_ok k \<Longrightarrow> simple_key k \<Longrightarrow> k' = k"
proof (induction rule: alike.cases)
  case (alike_pri a)
  then show ?case by (simp add: key_ok_def)
qed (auto simp: simple_key_def tviscdata_def tvislightud_def tvistab_def dest: ref_tests)

lemma tab_abs_ckey: "key_ok c \<Longrightarrow> tab_abs t (ckey c) = tab_abs t c"
  by (simp add: tab_abs_def key_ok_ckey)

definition entries_ok :: "heap \<Rightarrow> node list \<Rightarrow> bool" where
  "entries_ok h ns \<longleftrightarrow> distinct (map nkey ns) \<and>
     (\<forall>n\<in>set ns. key_ok (nkey n) \<and> ckey (nkey n) = nkey n \<and> simple_key (nkey n) \<and> live_key h (nkey n))"

lemma get_hash_copy:
  assumes g: "copies E h f g" and ok: "heap_ok E h" and new: "htab h p = None" and h0: "later h h0"
  shows "wire_list f (concat (map (\<lambda>n. [nkey n, nval n]) ns)) = Some w \<Longrightarrow> entries_ok h ns \<Longrightarrow> heap_ok E h1 \<Longrightarrow> later h h1 \<Longrightarrow>
    dom (htab h0) \<subseteq> dom (htab h1) \<Longrightarrow> htab h1 p = Some t \<Longrightarrow> \<forall>n\<in>set ns. tab_abs t (nkey n) = niltv \<Longrightarrow>
    yields (get_hash g E p (length ns) h1 (w @ r))
      (\<lambda>(h2, r'). r' = r \<and> heap_ok E h2 \<and> frame (Some p) h1 h2 \<and>
         (\<exists>t'. htab h2 p = Some t' \<and> (\<forall>n\<in>set ns. alike h (fresh h0 h2) (nval n) (tab_abs t' (nkey n))) \<and>
            (\<forall>c. key_ok c \<longrightarrow> ckey c \<notin> nkey ` set ns \<longrightarrow> tab_abs t' c = tab_abs t c))) mem_err"
proof (induction ns arbitrary: h1 t w)
  case (Cons n ns)
  let ?Q = "\<lambda>(h2, r'). r' = r \<and> heap_ok E h2 \<and> frame (Some p) h1 h2 \<and>
         (\<exists>t'. htab h2 p = Some t' \<and> (\<forall>m\<in>set (n # ns). alike h (fresh h0 h2) (nval m) (tab_abs t' (nkey m))) \<and>
            (\<forall>c. key_ok c \<longrightarrow> ckey c \<notin> nkey ` set (n # ns) \<longrightarrow> tab_abs t' c = tab_abs t c))"
  have k: "key_ok (nkey n)" "ckey (nkey n) = nkey n" "simple_key (nkey n)" "nkey n \<notin> nkey ` set ns" "entries_ok h ns"
    using Cons.prems(2) by (auto simp: entries_ok_def)
  from Cons.prems(1) obtain wk wv b where w: "f (nkey n) = Some wk" "f (nval n) = Some wv"
    "wire_list f (concat (map (\<lambda>n. [nkey n, nval n]) ns)) = Some b" "w = wk @ wv @ b"
    by (auto split: option.splits)
  show ?case
    unfolding list.size(4) add_Suc_right add_0_right get_hash.simps w(4) append_assoc
  proof (rule yields_cbind [OF copiesD [OF g w(1) Cons.prems(3,4)]], clarify)
    fix h2 k' r2 assume "copied E h (nkey n) h1 (wv @ b @ r) (h2, k', r2)"
    then have c: "r2 = wv @ b @ r" "heap_ok E h2" "later h1 h2" "k' = nkey n"
      using alike_key [OF _ k(1,3)] by (auto simp: copied_def)
    have t2: "htab h2 p = Some t" using c(3) Cons.prems(6) by (simp add: frame_def)
    note wf2 = heap_okD [OF c(2) t2]
    let ?rest = "\<lambda>(t, s). if \<not> tvisnil (slot_value t s) then Raise LJ_ERR_BUFFER_DUPKEY
       else cbind (g (h2\<lparr>htab := (htab h2)(p \<mapsto> t)\<rparr>) r2) (\<lambda>(h, v, r).
         cbind (heap_store h p s v) (\<lambda>h. get_hash g E p (length ns) h r))"
    have "yields (lj_tab_set (tabenv_of E h2) t (nkey n)) (\<lambda>(t', s). slot_for (tabenv_of E h2) t (nkey n) t' s) mem_err"
      using lj_tab_set_ok [OF wf2(1) k(1)] by (cases "lj_tab_set (tabenv_of E h2) t (nkey n)") auto
    then have "yields (cbind (lj_tab_set (tabenv_of E h2) t (nkey n)) ?rest) ?Q mem_err"
    proof (rule yields_cbind, clarify)
      fix t3 s assume set: "lj_tab_set (tabenv_of E h2) t (nkey n) = Done (t3, s)" and sl: "slot_for (tabenv_of E h2) t (nkey n) t3 s"
      have nilslot: "tvisnil (slot_value t3 s)"
        using slot_value_abs [OF sl k(1)] Cons.prems(7) by (simp add: tvisnil_def niltv_def)
      have "live_key h (nkey n)" using Cons.prems(2) by (simp add: entries_ok_def)
      then have "live_key h2 (nkey n)" by (rule live_frame [OF ok frame_trans [OF Cons.prems(4) c(3)]])
      then have wf3: "tab_wf (tabenv_of E h2) t3" "keys_in (live_key h2) t3"
        using sl hk.lj_tab_set_keys [OF wf2(2) _ set] by (simp_all add: slot_for_def)
      have abs3: "tab_abs t3 c = tab_abs t c" for c using sl by (simp add: slot_for_def)
      let ?h3 = "h2\<lparr>htab := (htab h2)(p \<mapsto> t3)\<rparr>"
      note s3 = heap_ok_tab [OF c(2) wf3, of p]
      have fr3: "frame (Some p) h1 ?h3" using frame_trans [OF later_frame [OF c(3)] s3(2)] .
      have lat3: "later h ?h3" using frame_fresh [OF frame_trans [OF later_frame [OF Cons.prems(4)] fr3] new] .
      have "yields (cbind (g ?h3 (wv @ b @ r)) (\<lambda>(h, v, r). cbind (heap_store h p s v) (\<lambda>h. get_hash g E p (length ns) h r))) ?Q mem_err"
      proof (rule yields_cbind [OF copiesD [OF g w(2) s3(1) lat3]], clarify)
        fix h4 v r4 assume "copied E h (nval n) ?h3 (b @ r) (h4, v, r4)"
        then have c4: "r4 = b @ r" "heap_ok E h4" "later ?h3 h4" "alike h (fresh ?h3 h4) (nval n) v" by (auto simp: copied_def)
        have t4: "htab h4 p = Some t3" using c4(3) by (simp add: frame_def)
        note wf4 = heap_okD [OF c4(2) t4]
        note st = store_slot_ok [OF slot_for_env [OF sl wf4(1)] k(1), of v]
        let ?t5 = "store_slot t3 s v"
        let ?h5 = "h4\<lparr>htab := (htab h4)(p \<mapsto> ?t5)\<rparr>"
        note s5 = heap_ok_tab [OF c4(2) st(1) hk.keys_store [OF wf4(2)], of p]
        have fr5: "frame (Some p) h1 ?h5" using frame_trans [OF fr3 frame_trans [OF later_frame [OF c4(3)] s5(2)]] .
        have lat5: "later h ?h5" using frame_fresh [OF frame_trans [OF later_frame [OF Cons.prems(4)] fr5] new] .
        have dm5: "dom (htab h0) \<subseteq> dom (htab ?h5)" using Cons.prems(5) frame_dom [OF fr5] by auto
        have nil5: "\<forall>m\<in>set ns. tab_abs ?t5 (nkey m) = niltv"
        proof
          fix m assume m: "m \<in> set ns"
          then have "nkey m \<noteq> nkey n" using k(4) by (metis image_eqI)
          moreover have "ckey (nkey m) = nkey m" using k(5) m by (simp add: entries_ok_def)
          ultimately show "tab_abs ?t5 (nkey m) = niltv" using Cons.prems(7) m k(2) by (simp add: st(2) abs3)
        qed
        have "yields (get_hash g E p (length ns) ?h5 (b @ r))
          (\<lambda>(h2, r'). r' = r \<and> heap_ok E h2 \<and> frame (Some p) ?h5 h2 \<and>
             (\<exists>t'. htab h2 p = Some t' \<and> (\<forall>n\<in>set ns. alike h (fresh h0 h2) (nval n) (tab_abs t' (nkey n))) \<and>
                (\<forall>c. key_ok c \<longrightarrow> ckey c \<notin> nkey ` set ns \<longrightarrow> tab_abs t' c = tab_abs ?t5 c))) mem_err"
          using w(3) k(5) s5(1) lat5 dm5 _ nil5 by (rule Cons.IH) simp
        then have "yields (get_hash g E p (length ns) ?h5 (b @ r)) ?Q mem_err"
        proof (rule yields_mono)
          fix x assume "case x of (h2, r') \<Rightarrow> r' = r \<and> heap_ok E h2 \<and> frame (Some p) ?h5 h2 \<and>
             (\<exists>t'. htab h2 p = Some t' \<and> (\<forall>n\<in>set ns. alike h (fresh h0 h2) (nval n) (tab_abs t' (nkey n))) \<and>
                (\<forall>c. key_ok c \<longrightarrow> ckey c \<notin> nkey ` set ns \<longrightarrow> tab_abs t' c = tab_abs ?t5 c))"
          then obtain h6 t6 where x: "x = (h6, r)" "heap_ok E h6" "frame (Some p) ?h5 h6" "htab h6 p = Some t6"
            and al: "\<forall>n\<in>set ns. alike h (fresh h0 h6) (nval n) (tab_abs t6 (nkey n))"
            and ot: "\<And>c. key_ok c \<Longrightarrow> ckey c \<notin> nkey ` set ns \<Longrightarrow> tab_abs t6 c = tab_abs ?t5 c"
            by (cases x) auto
          have fr46: "frame (Some p) h4 h6" using frame_trans [OF s5(2) x(3)] .
          have "tab_abs t6 (nkey n) = v" using ot [of "nkey n"] k by (simp add: st(2))
          moreover have "alike h (fresh h0 h6) (nval n) v"
            by (rule fresh_mono [OF c4(4) fr46]) (use Cons.prems(5) frame_dom [OF fr3] in auto)
          ultimately have "\<forall>m\<in>set (n # ns). alike h (fresh h0 h6) (nval m) (tab_abs t6 (nkey m))" using al by simp
          moreover have "tab_abs t6 c = tab_abs t c" if "key_ok c" "ckey c \<notin> nkey ` set (n # ns)" for c
            using ot [OF that(1)] that k(2) by (auto simp: st(2) abs3)
          ultimately show "?Q x" using x frame_trans [OF fr5 x(3)] by simp
        qed simp
        with c4(1) show "yields (cbind (heap_store h4 p s v) (\<lambda>h. get_hash g E p (length ns) h r4)) ?Q mem_err"
          using slot_for_in [OF sl] by (simp add: heap_store_def get_tab_def t4)
      qed
      with nilslot c(1) show "yields (if \<not> tvisnil (slot_value t3 s) then Raise LJ_ERR_BUFFER_DUPKEY
         else cbind (g ?h3 r2) (\<lambda>(h, v, r). cbind (heap_store h p s v) (\<lambda>h. get_hash g E p (length ns) h r))) ?Q mem_err" by simp
    qed
    with c(4) show "yields (cbind (get_tab h2 p) (\<lambda>t. cbind (lj_tab_set (tabenv_of E h2) t k') ?rest)) ?Q mem_err"
      by (simp add: get_tab_def t2)
  qed
qed auto

lemma distinct_keys:
  "(\<And>i j. i < length ns \<Longrightarrow> j < length ns \<Longrightarrow> P (ns ! i) \<Longrightarrow> P (ns ! j) \<Longrightarrow> nkey (ns ! i) = nkey (ns ! j) \<Longrightarrow> i = j) \<Longrightarrow>
   distinct (map nkey (filter P ns))"
proof (induction ns)
  case (Cons n ns)
  have "i = j" if "i < length ns" "j < length ns" "P (ns ! i)" "P (ns ! j)" "nkey (ns ! i) = nkey (ns ! j)" for i j
    using Cons.prems [of "Suc i" "Suc j"] that by simp
  moreover have "nkey n \<notin> nkey ` set (filter P ns)" if "P n"
  proof
    assume "nkey n \<in> nkey ` set (filter P ns)"
    then obtain j where "j < length ns" "P (ns ! j)" "nkey n = nkey (ns ! j)" by (auto simp: in_set_conv_nth)
    with Cons.prems [of 0 "Suc j"] that show False by simp
  qed
  ultimately show ?case using Cons.IH by auto
qed simp

lemma used_entries:
  assumes wf: "tab_wf env t" and live_key: "keys_in (live_key h) t" and simple: "\<And>n. n \<in> set (used_nodes t) \<Longrightarrow> simple_key (nkey n)"
  shows "entries_ok h (used_nodes t)" and "\<And>n. n \<in> set (used_nodes t) \<Longrightarrow> aidx t (nkey n) = None \<and> tab_abs t (nkey n) = nval n"
    and "\<And>c. key_ok c \<Longrightarrow> aidx t (ckey c) = None \<Longrightarrow> ckey c \<notin> nkey ` set (used_nodes t) \<Longrightarrow> tab_abs t c = niltv"
proof -
  note d = tab_wfD [OF wf]
  have all: "take (hmask t + 1) (nodes t) = nodes t" using d(1) by simp
  have un: "used_nodes t = rev (filter (\<lambda>n. \<not> tvisnil (nval n)) (nodes t))" unfolding used_nodes_def all by (simp add: rev_filter)
  have kd: "keyed (nodes t) i" if "i < length (nodes t)" "\<not> tvisnil (nval (nodes t ! i))" for i
    using nodes_wfD(7) [OF d(5) that(1)] that(2) by blast
  have di: "distinct (map nkey (used_nodes t))"
  proof -
    have "distinct (map nkey (filter (\<lambda>n. \<not> tvisnil (nval n)) (nodes t)))"
      by (rule distinct_keys) (use nodes_wfD(10) [OF d(5)] kd in blast)
    then show ?thesis unfolding un rev_map [symmetric] distinct_rev .
  qed
  have mem: "\<exists>i<length (nodes t). nodes t ! i = n \<and> keyed (nodes t) i" if "n \<in> set (used_nodes t)" for n
    using that kd by (auto simp: un in_set_conv_nth)
  have ok: "key_ok (nkey n) \<and> ckey (nkey n) = nkey n \<and> aidx t (nkey n) = None" if n: "n \<in> set (used_nodes t)" for n
  proof -
    from mem [OF n] obtain i where "i < length (nodes t)" "nodes t ! i = n" "keyed (nodes t) i" by blast
    with d(9) [of i] show ?thesis by simp
  qed
  show "entries_ok h (used_nodes t)"
  proof -
    have "live_key h (nkey n)" if "n \<in> set (used_nodes t)" for n using live_key that by (simp add: keys_in_def un)
    with di ok simple show ?thesis unfolding entries_ok_def by blast
  qed
  show "aidx t (nkey n) = None \<and> tab_abs t (nkey n) = nval n" if n: "n \<in> set (used_nodes t)" for n
  proof -
    obtain i where i: "i < length (nodes t)" "nodes t ! i = n" "keyed (nodes t) i" using mem [OF n] by blast
    have "nodes_val (nodes t) (nkey n) = nval n" using nodes_val_key [OF wf i(1)] i by (auto simp: keyed_def)
    with ok [OF n] show ?thesis by (simp add: tab_abs_def)
  qed
  show "tab_abs t c = niltv" if c: "key_ok c" "aidx t (ckey c) = None" "ckey c \<notin> nkey ` set (used_nodes t)" for c
  proof (cases "\<exists>i<length (nodes t). nkey (nodes t ! i) = ckey c")
    case True
    then obtain i where i: "i < length (nodes t)" "nkey (nodes t ! i) = ckey c" by blast
    have "tvisnil (nval (nodes t ! i))"
    proof (rule ccontr)
      assume "\<not> tvisnil (nval (nodes t ! i))"
      then have "nodes t ! i \<in> set (used_nodes t)" using i(1) by (simp add: un)
      with c(3) i(2) show False by (metis image_eqI)
    qed
    moreover have "\<not> tvisnil (ckey c)" using c(1) by (simp add: key_ok_def)
    ultimately show ?thesis using nodes_val_key [OF wf i] c by (simp add: tab_abs_def tvisnil_def niltv_def)
  next
    case False
    then have "nodes_val (nodes t) (ckey c) = niltv" by (intro nodes_val_none) blast
    with c show ?thesis by (simp add: tab_abs_def)
  qed
qed

text \<open>Beyond \<open>ser_narray\<close> the array part is empty.\<close>

lemma ser_narray_nil: "ser_narray t \<le> i \<Longrightarrow> i < asize t \<Longrightarrow> array t ! i = niltv"
proof (rule ccontr)
  assume i: "ser_narray t \<le> i" "i < asize t" and "array t ! i \<noteq> niltv"
  then have n: "\<not> tvisnil (array t ! i)" by (simp add: tvisnil_def niltv_def)
  show False
  proof (cases "find (\<lambda>i. \<not> tvisnil (array t ! i)) (rev [0..<asize t])")
    case None
    with n i(2) show False by (simp add: find_None_iff)
  next
    case (Some j)
    then obtain k where k: "k < asize t" "rev [0..<asize t] ! k = j" "\<And>m. m < k \<Longrightarrow> tvisnil (array t ! (rev [0..<asize t] ! m))"
      by (auto simp: find_Some_iff)
    have j: "j = asize t - 1 - k" using k(1,2) by (simp add: rev_nth)
    have "j < i" using i(1) Some by (simp add: ser_narray_def)
    then have "asize t - 1 - i < k" using j i(2) by linarith
    from k(3) [OF this] n i(2) show False by (simp add: rev_nth)
  qed
qed

lemma aidx_smaller: "asize t' \<le> asize t \<Longrightarrow> aidx t' k = (case aidx t k of Some i \<Rightarrow> if i < asize t' then Some i else None | None \<Rightarrow> None)"
  by (auto simp: aidx_def split: option.splits)

end
