(* ===== verification/SerRound.thy ===== *)
theory SerRound
  imports SerCopy
begin

text \<open>
  The round trip of \<^verbatim>\<open>src/src/lj_serialize.c\<close>: tables, whole objects, and the two entry points of the interface.
\<close>

section \<open>Tables\<close>

text \<open>The array part and the entries of the hash part together are the abstract map.\<close>

lemma table_alike:
  assumes wf: "tab_wf env t" and used: "entries_ok h (used_nodes t)"
    and ent: "\<And>n. n \<in> set (used_nodes t) \<Longrightarrow> aidx t (nkey n) = None \<and> tab_abs t (nkey n) = nval n"
    and rest: "\<And>c. key_ok c \<Longrightarrow> aidx t (ckey c) = None \<Longrightarrow> ckey c \<notin> nkey ` set (used_nodes t) \<Longrightarrow> tab_abs t c = niltv"
    and arr: "\<And>c i. key_ok c \<Longrightarrow> aidx t (ckey c) = Some i \<Longrightarrow> alike h g (array t ! i) (tab_abs t1 c)"
    and out: "\<And>c. key_ok c \<Longrightarrow> aidx t (ckey c) = None \<Longrightarrow> tab_abs t1 c = niltv"
    and hash: "\<And>n. n \<in> set (used_nodes t) \<Longrightarrow> alike h g (nval n) (tab_abs t2 (nkey n))"
    and other: "\<And>c. key_ok c \<Longrightarrow> ckey c \<notin> nkey ` set (used_nodes t) \<Longrightarrow> tab_abs t2 c = tab_abs t1 c"
    and k: "key_ok c"
  shows "alike h g (tab_abs t c) (tab_abs t2 c)"
proof (cases "ckey c \<in> nkey ` set (used_nodes t)")
  case True
  then obtain n where n: "n \<in> set (used_nodes t)" "nkey n = ckey c" by auto
  have "tab_abs t c = nval n" "tab_abs t2 c = tab_abs t2 (nkey n)"
    using ent [OF n(1)] tab_abs_ckey [OF k] n(2) by simp_all
  with hash [OF n(1)] show ?thesis by simp
next
  case False
  show ?thesis
  proof (cases "aidx t (ckey c)")
    case None
    with rest [OF k None False] out [OF k None] other [OF k False] alike_nil show ?thesis by simp
  next
    case (Some i)
    have "tab_abs t c = array t ! i" using Some k by (simp add: tab_abs_def)
    with arr [OF k Some] other [OF k False] show ?thesis by simp
  qed
qed

lemma tab_tag_bits:
  "tab_tag t \<in> {8, 9, 10, 11, 12, 13}" "SER_TAG_TAB + 2 \<le> tab_tag t \<longleftrightarrow> ser_narray t \<noteq> 0"
  "tab_tag t AND 1 \<noteq> 0 \<longleftrightarrow> ser_nhash t \<noteq> 0" "tab_tag t \<noteq> SER_TAG_DICT_MT"
  "(if SER_TAG_TAB + 4 \<le> tab_tag t then 1 else 0) = (if ser_narray t \<noteq> 0 then ser_one t div 4 else 0)"
  by (auto simp: tab_tag_eq ser_one_def ser_tags word_le_def)

lemma copy_table:
  assumes E: "heapenv_ok E" and ok: "heap_ok E h" and g: "copies E h f g"
    and simple: "\<And>p t n. htab h p = Some t \<Longrightarrow> n \<in> set (used_nodes t) \<Longrightarrow> simple_key (nkey n)"
  shows "tab_copies E h (wire_tab f) (get_table g E D)"
  unfolding tab_copies_def
proof (intro allI impI)
  fix p t w assume t: "htab h p = Some t" and w: "wire_tab f t = Some w"
  define na nh where "na = ser_narray t" and "nh = ser_nhash t"
  define k0 where "k0 = (if na \<noteq> 0 then ser_one t div 4 else 0)"
  define us where "us = (if nh \<noteq> 0 then used_nodes t else [])"
  note wf = heap_okD [OF ok t]
  note d = tab_wfD [OF wf(1)]
  note ue = used_entries [OF wf simple [OF t]]
  have us: "us = used_nodes t" and nh: "nh = length us"
  proof -
    have "used_nodes t = []" if "hmask t = 0"
      using d(7) [OF that] by (simp add: used_nodes_def that nilnode_def tvisnil_def niltv_def)
    then show "us = used_nodes t" "nh = length us" by (auto simp: us_def nh_def ser_nhash_used hash_entries_def)
  qed
  have na: "na \<le> asize t" "na < 2 ^ 32" using ser_narray_le [of t] d(4) by (auto simp: na_def LJ_MAX_ASIZE_def)
  have nhb: "nh < 2 ^ 32"
  proof -
    obtain b where b: "b \<le> LJ_MAX_HBITS" "hmask t + 1 = 2 ^ b" using d(2) by blast
    have "nh \<le> hmask t + 1" using d(1) unfolding nh us used_nodes_def by (metis length_filter_le length_rev length_take min.cobounded2 order_trans)
    also have "\<dots> \<le> 2 ^ LJ_MAX_HBITS" using b by (metis one_le_numeral power_increasing)
    finally show ?thesis by (simp add: LJ_MAX_HBITS_def)
  qed
  obtain wa wh where wl: "wire_list f (map ((!) (array t)) [k0..<na]) = Some wa" "wire_list f (concat (map (\<lambda>n. [nkey n, nval n]) us)) = Some wh"
    and w': "w = ucast (tab_tag t) # (if na \<noteq> 0 then u124 (word_of_nat na) else []) @ (if nh \<noteq> 0 then u124 (word_of_nat nh) else []) @ wa @ wh"
  proof -
    let ?A = "map ((!) (array t)) [k0..<na]" and ?B = "concat (map (\<lambda>n. [nkey n, nval n]) us)"
    have items: "tab_items t = ?A @ ?B" by (simp add: tab_items_eq k0_def us_def na_def nh_def)
    have head: "tab_head t = ucast (tab_tag t) # (if na \<noteq> 0 then u124 (word_of_nat na) else []) @ (if nh \<noteq> 0 then u124 (word_of_nat nh) else [])"
      by (simp add: tab_head_eq na_def nh_def)
    from w obtain b where b: "wire_list f (?A @ ?B) = Some b" "w = ucast (tab_tag t) # (if na \<noteq> 0 then u124 (word_of_nat na) else []) @
        (if nh \<noteq> 0 then u124 (word_of_nat nh) else []) @ b" unfolding wire_tab_def items head by auto
    from b(1) obtain wa wh where "wire_list f ?A = Some wa" "wire_list f ?B = Some wh" "b = wa @ wh"
      unfolding wire_list_append by (cases "wire_list f ?A"; cases "wire_list f ?B") auto
    with b(2) show thesis using that by blast
  qed
  let ?w' = "(if na \<noteq> 0 then u124 (word_of_nat na) else []) @ (if nh \<noteq> 0 then u124 (word_of_nat nh) else []) @ wa @ wh"
  have run: "get_table g E D (tab_tag t) h1 (?w' @ r) = cbind (heap_tab_new E h1 na (hsize2hbits nh) 0) (\<lambda>(h, p).
      cbind (get_array g p [k0..<na] h (wa @ wh @ r)) (\<lambda>(h, r). cbind (get_hash g E p nh h r) (\<lambda>(h, r). Done (h, setgcVraw p LJ_TTAB, r))))" for h1 r
  proof -
    have u: "unat (word_of_nat na :: u32) = na" "unat (word_of_nat nh :: u32) = nh" using unat32 na(2) nhb by blast+
    then have z: "(word_of_nat na :: u32) = 0 \<longleftrightarrow> na = 0" "(word_of_nat nh :: u32) = 0 \<longleftrightarrow> nh = 0" by (auto simp: unat_eq_zero [symmetric])
    note b = tab_tag_bits [of t, folded na_def nh_def]
    have wh0: "wh = []" if "nh = 0" using wl(2) nh that by simp
    have wa0: "wa = []" if "na = 0" using wl(1) that by simp
    have k: "SER_TAG_TAB + 4 \<le> tab_tag t \<Longrightarrow> k0 = Suc 0" "\<not> SER_TAG_TAB + 4 \<le> tab_tag t \<Longrightarrow> k0 = 0"
      using b(5) by (auto simp: k0_def split: if_splits)
    show ?thesis
      unfolding get_table_def get_metatable_def if_not_P [OF b(4)]
      using b(2,3) u z wh0 wa0 k by (cases "na = 0"; cases "nh = 0") (simp_all add: eob_def)
  qed
  have "yields (get_table g E D (tab_tag t) h1 (?w' @ r)) (tab_copied E h t h1 r) mem_err" if h1: "heap_ok E h1" "later h h1" for h1 r
    unfolding run
  proof (rule yields_cbind [OF heap_tab_new_ok [OF E h1(1) mem_err(2,1)]])
    fix x assume "case x of (h', p) \<Rightarrow> heap_ok E h' \<and> frame (Some p) h1 h' \<and> htab h1 p = None \<and> p \<noteq> 0 \<and> p < 2 ^ 47 \<and>
       (\<exists>t. htab h' p = Some t \<and> asize t = na \<and> (\<forall>k. tab_abs t k = niltv))"
    then obtain h2 q t0 where x: "x = (h2, q)"
      and h2: "heap_ok E h2" "frame (Some q) h1 h2" "htab h1 q = None" "q < 2 ^ 47" "htab h2 q = Some t0"
      and t0: "\<forall>k. tab_abs t0 k = niltv" and as: "na = asize t0"
      by (cases x) auto
    have new: "htab h q = None"
      using h1(2) h2(3) by (cases "htab h q") (auto simp: frame_def)
    have lat2: "later h h2" using frame_fresh [OF frame_trans [OF later_frame [OF h1(2)] h2(2)] new] .
    have dm2: "dom (htab h1) \<subseteq> dom (htab h2)" using frame_dom [OF h2(2)] h2(5) by simp
    have len0: "na \<le> length (array t0)" using tab_wfD(3) [OF heap_okD(1) [OF h2(1,5)]] as by simp
    have "yields (get_array g q [k0..<na] h2 (wa @ wh @ r))
      (\<lambda>(h3, r'). r' = wh @ r \<and> heap_ok E h3 \<and> frame (Some q) h2 h3 \<and>
         (\<exists>t'. htab h3 q = Some t' \<and> (\<exists>xs. t' = t0\<lparr>array := xs\<rparr> \<and> length xs = length (array t0) \<and>
            (\<forall>i. if i \<in> set [k0..<na] then alike h (fresh h2 h3) (array t ! i) (xs ! i) else xs ! i = array t0 ! i)))) mem_err"
      using wl(1) _ h2(1) lat2 subset_refl h2(5) by (rule get_array_copy [OF g new lat2]) (use len0 in auto)
    then have "yields (cbind (get_array g q [k0..<na] h2 (wa @ wh @ r)) (\<lambda>(h, r). cbind (get_hash g E q nh h r)
        (\<lambda>(h, r). Done (h, setgcVraw q LJ_TTAB, r)))) (tab_copied E h t h1 r) mem_err"
    proof (rule yields_cbind, clarify)
      fix h3 xs
      assume h3: "heap_ok E h3" "frame (Some q) h2 h3" "htab h3 q = Some (t0\<lparr>array := xs\<rparr>)" "length xs = length (array t0)"
        and xs: "\<forall>i. if i \<in> set [k0..<na] then alike h (fresh h2 h3) (array t ! i) (xs ! i) else xs ! i = array t0 ! i"
      let ?t1 = "t0\<lparr>array := xs\<rparr>"
      have ai: "aidx ?t1 = aidx t0" by (rule aidx_cong) simp
      have ai0: "aidx t0 c = (case aidx t c of Some i \<Rightarrow> if i < na then Some i else None | None \<Rightarrow> None)" for c
        using aidx_smaller [of t0 t c] na(1) as by simp
      have out1: "tab_abs ?t1 c = niltv" if "key_ok c" "aidx t0 (ckey c) = None" for c
        using t0 [rule_format, of c] that by (simp add: tab_abs_def ai)
      have in1: "tab_abs ?t1 c = xs ! i" if "key_ok c" "aidx t0 (ckey c) = Some i" for c i
        using that by (simp add: tab_abs_def ai)
      have arr1: "alike h (fresh h2 h3) (array t ! i) (tab_abs ?t1 c)" if c: "key_ok c" "aidx t (ckey c) = Some i" for c i
      proof (cases "i < na")
        case False
        then have "array t ! i = niltv" "tab_abs ?t1 c = niltv"
          using ser_narray_nil [of t i] aidx_less [OF c(2)] out1 [OF c(1)] c(2) by (auto simp: na_def ai0)
        then show ?thesis using alike_nil by simp
      next
        case True
        with c have a0: "aidx t0 (ckey c) = Some i" by (simp add: ai0)
        show ?thesis
        proof (cases "k0 \<le> i")
          case k: True
          with True xs [rule_format, of i] in1 [OF c(1) a0] show ?thesis by simp
        next
          case False
          with True have i0: "i = 0" "k0 = 1" "tvisnil (array t ! 0)" by (auto simp: k0_def ser_one_def na_def split: if_splits)
          then have "xs ! i = array t0 ! i" using xs [rule_format, of i] by simp
          also have "\<dots> = niltv" using t0 [rule_format, of c] c(1) a0 by (simp add: tab_abs_def)
          finally have "tab_abs ?t1 c = niltv" using in1 [OF c(1) a0] by simp
          moreover have "array t ! i = niltv" using i0 by (simp add: tvisnil_def niltv_def)
          ultimately show ?thesis using alike_nil by simp
        qed
      qed
      have out: "tab_abs ?t1 c = niltv" if "key_ok c" "aidx t (ckey c) = None" for c
        using out1 [OF that(1)] that(2) by (simp add: ai0)
      have fr13: "frame (Some q) h1 h3" using frame_trans [OF h2(2) h3(2)] .
      have lat3: "later h h3" using frame_fresh [OF frame_trans [OF later_frame [OF h1(2)] fr13] new] .
      have dm3: "dom (htab h2) \<subseteq> dom (htab h3)" using frame_dom [OF h3(2)] h3(3) by simp
      have fresh3: "\<forall>n\<in>set us. tab_abs ?t1 (nkey n) = niltv"
      proof
        fix n assume n: "n \<in> set us"
        then have "key_ok (nkey n)" "ckey (nkey n) = nkey n" "aidx t (nkey n) = None" using ue(1,2) by (auto simp: us entries_ok_def)
        then show "tab_abs ?t1 (nkey n) = niltv" using out by simp
      qed
      have "yields (get_hash g E q (length us) h3 (wh @ r))
        (\<lambda>(h4, r'). r' = r \<and> heap_ok E h4 \<and> frame (Some q) h3 h4 \<and>
         (\<exists>t'. htab h4 q = Some t' \<and> (\<forall>n\<in>set us. alike h (fresh h2 h4) (nval n) (tab_abs t' (nkey n))) \<and>
            (\<forall>c. key_ok c \<longrightarrow> ckey c \<notin> nkey ` set us \<longrightarrow> tab_abs t' c = tab_abs ?t1 c))) mem_err"
        using wl(2) ue(1) [folded us] h3(1) lat3 dm3 h3(3) fresh3 by (rule get_hash_copy [OF g ok new lat2])
      then show "yields (cbind (get_hash g E q nh h3 (wh @ r)) (\<lambda>(h, r). Done (h, setgcVraw q LJ_TTAB, r))) (tab_copied E h t h1 r) mem_err"
        unfolding nh
      proof (rule yields_cbind, clarify)
        fix h4 t2
        assume h4: "heap_ok E h4" "frame (Some q) h3 h4" "htab h4 q = Some t2"
          and hash: "\<forall>n\<in>set us. alike h (fresh h2 h4) (nval n) (tab_abs t2 (nkey n))"
          and oth: "\<forall>c. key_ok c \<longrightarrow> ckey c \<notin> nkey ` set us \<longrightarrow> tab_abs t2 c = tab_abs ?t1 c"
        have qd: "q \<in> dom (htab h2)" using h2(5) by blast
        have arr2: "alike h (fresh h2 h4) (array t ! i) (tab_abs ?t1 c)" if "key_ok c" "aidx t (ckey c) = Some i" for c i
          by (rule fresh_mono [OF arr1 [OF that] h4(2)]) (use qd in simp)
        have al: "alike h (fresh h2 h4) (tab_abs t c) (tab_abs t2 c)" if "key_ok c" for c
        proof (rule table_alike [OF wf(1) ue(1) ue(2) ue(3) arr2 out _ _ that])
          show "alike h (fresh h2 h4) (nval n) (tab_abs t2 (nkey n))" if "n \<in> set (used_nodes t)" for n using hash that us by simp
          show "tab_abs t2 c = tab_abs ?t1 c" if "key_ok c" "ckey c \<notin> nkey ` set (used_nodes t)" for c using oth that us by simp
        qed
        have "htab (fresh h2 h4) \<subseteq>\<^sub>m htab (fresh h1 h4)"
          using dm2 by (auto simp: fresh_def map_le_def restrict_map_def split: if_splits)
        then have "alike h (fresh h1 h4) (tab_abs t c) (tab_abs t2 c)" if "key_ok c" for c
          by (rule alike_mono [OF al [OF that], where s = "[]"]) simp_all
        moreover have "later h1 h4" using frame_fresh [OF frame_trans [OF fr13 h4(2)] h2(3)] .
        moreover have "htab (fresh h1 h4) q = Some t2" using h4(3) h2(3) by (simp add: fresh_def restrict_map_def domIff)
        ultimately show "yields (Done (h4, setgcVraw q LJ_TTAB, r)) (tab_copied E h t h1 r) mem_err"
          using h4(1) h2(4) by (simp add: tab_copied_def)
      qed
    qed
    then show "yields (case x of (h, p) \<Rightarrow> cbind (get_array g p [k0..<na] h (wa @ wh @ r)) (\<lambda>(h, r). cbind (get_hash g E p nh h r)
        (\<lambda>(h, r). Done (h, setgcVraw p LJ_TTAB, r)))) (tab_copied E h t h1 r) mem_err" by (simp add: x)
  qed
  then show "\<exists>tag w'. w = ucast tag # w' \<and> tag \<in> {8, 9, 10, 11, 12, 13} \<and>
      (\<forall>h1 r. heap_ok E h1 \<longrightarrow> later h h1 \<longrightarrow> yields (get_table g E D tag h1 (w' @ r)) (tab_copied E h t h1 r) mem_err)"
    using w' tab_tag_bits(1) [of t] by blast
qed

section \<open>Whole objects\<close>

lemma wire_copies:
  assumes E: "heapenv_ok E" "has_cts E" and ok: "heap_ok E h"
    and simple: "\<And>p t n. htab h p = Some t \<Longrightarrow> n \<in> set (used_nodes t) \<Longrightarrow> simple_key (nkey n)"
  shows "copies E h (wire d h) (serialize_get d E D)"
proof (induction d)
  case 0
  have "tab_copies E h (\<lambda>_. None) (\<lambda>_ _ _. Raise LJ_ERR_BUFFER_DEPTH)" by (simp add: tab_copies_def)
  from copy_value [OF E ok this] show ?case by simp
next
  case (Suc d)
  from copy_value [OF E ok copy_table [OF E(1) ok Suc simple]] show ?case by simp
qed

lemma borrow_inv: "buf_inv tmpbuf \<Longrightarrow> buf_inv (lj_bufx_set_borrow lj_bufx_init tmpbuf) \<and> content (lj_bufx_set_borrow lj_bufx_init tmpbuf) = []"
proof -
  assume "buf_inv tmpbuf"
  moreover have "(SBUF_FLAG_EXT OR SBUF_FLAG_BORROW) AND SBUF_FLAG_EXT \<noteq> 0" "(SBUF_FLAG_EXT OR SBUF_FLAG_BORROW) AND SBUF_FLAG_COW = 0"
    by code_simp+
  ultimately show ?thesis
    by (simp add: buf_inv_def sb_wf_def pow_sized_def lj_bufx_set_borrow_def lj_bufx_init_def sbufisext_def sbufiscow_def content_def)
qed

text \<open>C30. The encoder writes the format: without dictionaries, encoding an object into a buffer appends exactly the bytes of the format
  and can fail only for lack of memory, and it does not return for an object that the format does not cover or that is nested too deep.
  The format is stated apart from the encoder: a table is written as its array values up to the last one that is not nil, without the
  slot 0 when that is nil, and its entries; the tag tells which counts follow.\<close>

theorem encoder_writes_format:
  assumes "heap_ok E h" and "buf_inv sb"
  shows "case wire LJ_SERIALIZE_DEPTH h v of
     Some w \<Rightarrow> yields (lj_serialize_put B E h no_dict sb v) (\<lambda>sb'. content sb' = content sb @ w) (\<lambda>e. e = LJ_ERR_ERRMEM)
   | None \<Rightarrow> \<not> is_done (lj_serialize_put B E h no_dict sb v)"
proof (cases "wire LJ_SERIALIZE_DEPTH h v")
  case None
  then show ?thesis using wire_complete by (fastforce simp: lj_serialize_put_def is_done_iff)
next
  case (Some w)
  from puts_wire [OF assms(1) this] assms(2)
  have "yields (lj_serialize_put B E h no_dict sb v)
     (\<lambda>sb'. buf_inv sb' \<and> content sb' = content sb @ w \<and> sbufisext sb' = sbufisext sb) (\<lambda>e. e = LJ_ERR_ERRMEM)"
    by (simp add: puts_def lj_serialize_put_def)
  with Some show ?thesis by (auto elim!: yields_mono)
qed

text \<open>C28. Encoding and decoding round-trips. When an object has been encoded to a string, decoding that string gives a copy of the
  object, or raises out of memory, table overflow or bad light userdata: strings, numbers and truth values are the same values, C data and light userdata have the same contents,
  and a table is a new table that maps every key to a copy of what the original maps it to, however the two tables are laid out.
  All keys are strings, numbers or truth values, whose copies are themselves. The input is consumed whole, no key is
  a duplicate, and no object that was there is changed.\<close>

theorem encode_decode:
  assumes "heapenv_ok E" and "has_cts E" and "heap_ok E h" and "buf_inv tmpbuf"
    and "\<And>p t n. htab h p = Some t \<Longrightarrow> n \<in> set (used_nodes t) \<Longrightarrow> simple_key (nkey n)"
    and enc: "lj_serialize_encode B E h tmpbuf v = Done (h1, s)"
  shows "yields (lj_serialize_decode E h1 s)
    (\<lambda>(h2, v'). heap_ok E h2 \<and> later h1 h2 \<and> alike h (fresh h1 h2) v v') mem_err"
proof -
  let ?sbx = "lj_bufx_set_borrow lj_bufx_init tmpbuf"
  from enc obtain sb where put: "serialize_put LJ_SERIALIZE_DEPTH B E h no_dict v ?sbx = Done sb"
    and new: "heap_str_new E h (take (bw sb) (bmem sb)) = Done (h1, s)"
    by (auto simp: lj_serialize_encode_def cbind_Done_iff)
  from wire_complete [OF put] obtain w where w: "wire LJ_SERIALIZE_DEPTH h v = Some w" by blast
  from puts_wire [OF assms(3) w, of B] borrow_inv [OF assms(4)] put
  have "buf_inv sb" "content sb = w" by (auto simp: puts_def)
  then have b: "take (bw sb) (bmem sb) = w" by (simp add: buf_inv_def pow_sized_def content_def)
  from heap_str_new_ok [OF assms(1,3), of w] new [unfolded b]
  have h1: "heap_ok E h1" "later h h1" "holds (hstr h1) s w" by auto
  have str: "str_data h1 s = Done w" using h1(3) by (auto simp: str_data_def holds_def)
  have "lj_serialize_get E h1 no_dict (lj_bufx_set_cow lj_bufx_init w) = serialize_get LJ_SERIALIZE_DEPTH E no_dict h1 (w @ [])"
    by (simp add: lj_serialize_get_def lj_bufx_set_cow_def)
  moreover have "yields (serialize_get LJ_SERIALIZE_DEPTH E no_dict h1 (w @ [])) (copied E h v h1 []) mem_err"
    by (rule copiesD [OF wire_copies [OF assms(1-3,5)] w h1(1,2)])
  ultimately show ?thesis
    unfolding lj_serialize_decode_def str by (auto intro!: yields_cbind simp: copied_def)
qed

section \<open>An example\<close>

text \<open>A heap with one table, whose array part holds a truth value in slot 1, and a buffer with room for 32 bytes.\<close>

definition tab1 :: gctab where
  "tab1 = \<lparr>nomm = 0, colo = 2, array = [niltv, 0xFFFEFFFFFFFFFFFF], asize = 2, nodes = [nilnode], hmask = 0, freetop = 0,
     metatable = 0, black = False\<rparr>"

definition heap1 :: heap where
  "heap1 = heap0\<lparr>htab := [16 \<mapsto> tab1]\<rparr>"

definition buf32 :: SBuf where
  "buf32 = \<lparr>bmem = replicate 32 0, bw = 0, br = 0, bflag = 0, bsb = (0, 0)\<rparr>"

abbreviation (input) tabv1 :: tvalue where "tabv1 \<equiv> setgcVraw 16 LJ_TTAB"

lemma heap1_ok: "heap_ok heapenv0 heap1" "heapenv_ok heapenv0" "has_cts heapenv0" "buf_inv buf32"
    "htab heap1 p = Some t \<Longrightarrow> n \<in> set (used_nodes t) \<Longrightarrow> simple_key (nkey n)"
proof -
  have t: "no_hpart tab1 = tab1" by (simp add: no_hpart_def tab1_def)
  have "asize tab1 \<le> length (array tab1)" "asize tab1 \<le> LJ_MAX_ASIZE" by (simp_all add: tab1_def LJ_MAX_ASIZE_def)
  from no_hpart_wf [OF this] have wf: "tab_wf env tab1" for env unfolding t .
  have k: "keys_in (live_key h) tab1" for h using hk.keys_no_hpart [of h tab1] unfolding t .
  show "heap_ok heapenv0 heap1"
    unfolding heap_ok_def
  proof (intro conjI allI impI)
    have h: "hstr heap1 = hstr heap0" "hseg heap1 = []" "hcd heap1 = Map.empty" by (simp_all add: heap1_def heap0_def)
    show "str_ok (hestr heapenv0) (hstr heap1)" "\<not> sweepstring (hstr heap1)" "length (hseg heap1) \<le> 255"
      using heap0_ok(2) h by (simp_all add: heap_ok_def)
    show "cd_ok c" if "hcd heap1 p = Some c" for p c using that h by simp
    show "tab_wf (tabenv_of heapenv0 heap1) t" "keys_in (live_key heap1) t" if "htab heap1 p = Some t" for p t
      using that wf k by (auto simp: heap1_def split: if_splits)
  qed
  show "heapenv_ok heapenv0" by (rule heap0_ok)
  show "has_cts heapenv0" by (simp add: heapenv0_def)
  have "sb_wf buf32" by (simp add: sb_wf_def buf32_def sbufisext_def sbufiscow_def sbufisborrow_def)
  moreover have "pow_sized buf32" unfolding pow_sized_def by (intro conjI disjI2 exI [of _ 5]) (simp_all add: buf32_def)
  ultimately show "buf_inv buf32" by (simp add: buf_inv_def)
  show "simple_key (nkey n)" if "htab heap1 p = Some t" "n \<in> set (used_nodes t)" for p t n
    using that by (auto simp: heap1_def tab1_def used_nodes_def nilnode_def tvisnil_def niltv_def split: if_splits)
qed

lemma str_new_first: "str \<noteq> [] \<Longrightarrow> length str < LJ_MAX_STR \<Longrightarrow> \<exists>g. lj_str_new env_two str0 str = Done (g, 32)"
proof -
  assume s: "str \<noteq> []" "length str < LJ_MAX_STR"
  have f: "stab str0 = [(False, [])]" "snum str0 = 0" "sobj str0 32 = None" by (simp_all add: str0_def blank_strings_def env_two_def)
  have a: "anchor (Suc 0) x = 0" for x by (simp add: anchor_def)
  obtain g sid where n: "next_strid str0 = (g, sid)" by (cases "next_strid str0")
  have g: "stab g = stab str0" "snum g = snum str0" using next_strid_fields [of str0] n by simp_all
  have "newstr env_two (sobj str0) k = 32" for k using f(3) by (simp add: env_two_def)
  then show ?thesis
    using s by (simp add: lj_str_new_def str_intern_def Let_def f a lj_str_alloc_def n g push_chain_def)
qed

lemma tab1_encoded: "\<exists>h1. lj_serialize_encode env_all heapenv0 heap1 buf32 tabv1 = Done (h1, 32)"
proof -
  obtain n where d: "LJ_SERIALIZE_DEPTH = Suc (Suc n)" by (rule that [of 98]) (simp add: LJ_SERIALIZE_DEPTH_def)
  let ?sbx = "lj_bufx_set_borrow lj_bufx_init buf32"
  obtain sb where put: "serialize_put LJ_SERIALIZE_DEPTH env_all heapenv0 heap1 no_dict tabv1 ?sbx = Done sb"
    and c: "take (bw sb) (bmem sb) = [0x0c, 2, 2]"
  proof -
    have n: "ser_narray tab1 = 2" "ser_nhash tab1 = 0" "ser_one tab1 = 4"
      by (simp_all add: ser_narray_def ser_nhash_def ser_one_def tab1_def upt_rec tvisnil_def niltv_def)
    have t1: "htab heap1 16 = Some tab1" by (simp add: heap1_def)
    have a1: "array tab1 ! Suc 0 = 0xFFFEFFFFFFFFFFFF" by (simp add: tab1_def)
    have rep: "replicate 32 (0 :: 8 word) = 0 # 0 # 0 # replicate 29 0" by (simp flip: replicate_Suc)
    have tv: "itype tabv1 = LJ_TTAB" "gcval tabv1 = 16" by simp_all
    have true: "itype 0xFFFEFFFFFFFFFFFF = NOT 2" by (simp add: itype_eval)
    have flags: "(SBUF_FLAG_EXT OR SBUF_FLAG_BORROW) AND SBUF_FLAG_COW = 0" by code_simp
    have more: "serialize_more env_all k sb = Done sb" if "k \<le> 11" "length (bmem sb) = 32" "bw sb \<le> 20" for k sb
    proof -
      have "unat (sbufleft sb) = 32 - bw sb" using that(2,3) by (simp add: sbufleft_def unat_sub word_le_nat_alt unat_of_nat)
      then have "k \<le> sbufleft sb" using that by (simp add: word_le_nat_alt)
      then show ?thesis by (simp add: serialize_more_def linorder_not_less [symmetric])
    qed
    have tr: "put_value env_all heap1 pt 0xFFFEFFFFFFFFFFFF sb = Done (sb\<lparr>bmem := (bmem sb)[bw sb := 2], bw := bw sb + 1\<rparr>)"
      if "length (bmem sb) = 32" "bw sb \<le> 20" "\<not> sbufiscow sb" for sb pt
      using that more [of 1 sb] by (simp add: put_value_def tvisstr_def tvisnum_def tvispri_def true tag_defs ser_tags wbyte_def)
    have "\<exists>sb. serialize_put (Suc (Suc n)) env_all heapenv0 heap1 no_dict tabv1 ?sbx = Done sb \<and> take (bw sb) (bmem sb) = [0x0c, 2, 2]" for n
      using ref_tests(2) [OF tv(1)]
      by (simp add: put_value_def [of _ _ _ tabv1] get_tab_def tv t1 put_tab_def n a1 Let_def put_metatable_def no_dict_def more tr
          lj_bufx_set_borrow_def lj_bufx_init_def buf32_def wbyte_def serialize_wu124_def ser_tags sbufiscow_def flags upt_rec)
         (simp add: rep)
    with d that show thesis by metis
  qed
  obtain g where "lj_str_new env_two str0 [0x0c, 2, 2] = Done (g, 32)"
    using str_new_first [of "[0x0c, 2, 2]"] by (auto simp: LJ_MAX_STR_def LJ_MAX_MEM32_def)
  then have "heap_str_new heapenv0 heap1 [0x0c, 2, 2] = Done (heap1\<lparr>hstr := g\<rparr>, 32)"
    by (simp add: heap_str_new_def heapenv0_def heap1_def heap0_def)
  with put c show ?thesis by (simp add: lj_serialize_encode_def)
qed

theorem encoder_writes_format_witness:
  "case wire LJ_SERIALIZE_DEPTH heap1 tabv1 of
     Some w \<Rightarrow> yields (lj_serialize_put env_all heapenv0 heap1 no_dict buf32 tabv1) (\<lambda>sb'. content sb' = content buf32 @ w)
       (\<lambda>e. e = LJ_ERR_ERRMEM)
   | None \<Rightarrow> \<not> is_done (lj_serialize_put env_all heapenv0 heap1 no_dict buf32 tabv1)"
  by (rule encoder_writes_format [OF heap1_ok(1,4)])

theorem encode_decode_witness:
  "\<exists>h1. lj_serialize_encode env_all heapenv0 heap1 buf32 tabv1 = Done (h1, 32) \<and>
     yields (lj_serialize_decode heapenv0 h1 32)
       (\<lambda>(h2, v'). heap_ok heapenv0 h2 \<and> later h1 h2 \<and> alike heap1 (fresh h1 h2) tabv1 v') mem_err"
proof -
  obtain h1 where e: "lj_serialize_encode env_all heapenv0 heap1 buf32 tabv1 = Done (h1, 32)" using tab1_encoded by blast
  have "yields (lj_serialize_decode heapenv0 h1 32)
      (\<lambda>(h2, v'). heap_ok heapenv0 h2 \<and> later h1 h2 \<and> alike heap1 (fresh h1 h2) tabv1 v') mem_err"
    by (rule encode_decode [OF heap1_ok(2,3,1,4) _ e]) (rule heap1_ok(5))
  with e show ?thesis by blast
qed

end
