(* ===== verification/Spec2Isabelle.thy ===== *)
theory Spec2Isabelle
  imports PageFront TabWalk FoldMain StrfmtOut StrFind SerSafe SerRound
begin

text \<open>
  A verification development for rubic0n, a fork of the LuaJIT virtual machine (\<^verbatim>\<open>src/src\<close>).

  \<^bold>\<open>The program.\<close> The virtual machine runs Lua bytecode and compiles hot paths to machine code. Its run-time
  system rests on a few data structures written in C: memory comes from an allocator behind the
  \<^verbatim>\<open>lua_Alloc\<close> interface (this fork puts a segregated page allocator in front of it), values are tagged 64 bit
  words, tables combine an array and a chained hash part, strings are interned, buffers collect output that the
  formatting functions produce. The compiler builds an SSA intermediate representation whose instructions all pass
  through the FOLD engine, which folds constants, simplifies, and eliminates common subexpressions.

  \<^bold>\<open>Conventions.\<close> The target is x64, little endian, with 64 bit references (\<^verbatim>\<open>LJ_GC64\<close>, \<^verbatim>\<open>LJ_FR2\<close>), without dual-number
  mode, with the default security options. A definition has the name of the function it models. Machine integers are
  words of their width; sizes that the code keeps in \<^verbatim>\<open>MSize\<close> and that are bounded far below 4 GB are natural numbers.
  An operation that can fail has a result of type \<open>comp\<close> (theory \<open>Prelude\<close>): \<open>Done\<close>, \<open>Raise\<close> with the error the code
  throws, or \<open>Stuck\<close> for everything the C language leaves undefined and for loops that do not end. That an
  operation is never stuck is part of the theorems about it, in the form \<open>yields c Q E\<close>: the outcome is a value with \<open>Q\<close> or an
  error in \<open>E\<close>. What the code obtains from elsewhere (the backing allocator, whether memory is granted, the contents of
  fresh memory, the operating system's random numbers) is in environment arguments; the theorems hold for all of them.

  \<^bold>\<open>Theories, from the bottom up.\<close>
  \<^item> \<open>Prelude\<close>: machine types, \<^verbatim>\<open>lj_def.h\<close>, the outcomes \<open>comp\<close> and the rules for \<open>yields\<close>.
  \<^item> \<open>Dll\<close>, \<open>Allocator\<close>, \<open>PageAlloc\<close>, \<open>PageContract\<close>, \<open>PageFront\<close>: \<^verbatim>\<open>lj_alloc_page.c\<close>. \<open>Allocator\<close> states
    the \<^verbatim>\<open>lua_Alloc\<close> contract as the locale \<open>lua_alloc\<close> and the requests of a client as a step relation; \<open>PageContract\<close> proves that the page
    allocator meets the contract on top of any allocator that does (\<open>page_alloc_contract\<close>, \<open>page_alloc_run\<close>, \<open>page_alloc_destroy\<close>, \<open>page_from_ptr_live\<close>, \<open>page_size_class_best\<close>).
  \<^item> \<open>Value\<close>: tagged values and doubles as bit patterns, \<^verbatim>\<open>lj_obj.h\<close>.
  \<^item> \<open>Tab\<close>, \<open>TabChain\<close>, \<open>TabAbs\<close>, \<open>TabSet\<close>, \<open>TabResize\<close>, \<open>TabRehash\<close>, \<open>TabMain\<close>, \<open>TabLaws\<close>, \<open>TabWalk\<close>: \<^verbatim>\<open>lj_tab.c\<close>.
    The hash part is the vector of nodes with the links of the code; \<open>TabChain\<close> has the invariant of the
    collision chains, \<open>TabAbs\<close> the abstract map of a table, the next three theories its preservation by insertion, resizing and
    rehashing. \<open>TabLaws\<close> states what a table promises as a locale and interprets it (\<open>tab_run_reads_back\<close>, \<open>tab_store_total\<close>, \<open>tab_improper_keys\<close>);
    \<open>TabWalk\<close> covers length, traversal, counting and copying (\<open>tab_len_border\<close>, \<open>tab_walk_all\<close>, \<open>tab_resize_keeps\<close>,
    \<open>tab_nkeys_card\<close>, \<open>tab_copies\<close>).
  \<^item> \<open>Carith\<close>: integer arithmetic of the VM and of the constant folder, \<^verbatim>\<open>lj_carith.c\<close>, \<^verbatim>\<open>lj_vmmath.c\<close> (\<open>powu64_power\<close>, \<open>modi_floor\<close>).
  \<^item> \<open>Ir\<close>, \<open>Fold\<close> and the theories named \<open>Fold\<dots>\<close>: \<^verbatim>\<open>lj_ir.c\<close> and the integer rules of \<^verbatim>\<open>lj_opt_fold.c\<close>. \<open>FoldSem\<close> gives the
    IR its meaning by valuations and says what it is for a change of the buffer to be a refinement; \<open>FoldSteps\<close> proves it for the
    emitter, the interning of constants and CSE; \<open>FoldWord\<close> and \<open>FoldRules\<close> hold what the rules share; one theory per
    group of rules proves them sound, and \<open>FoldSound\<close> puts dispatch and retries together. \<open>FoldTerm\<close> proves that the retries end, by a
    lexicographic measure that every rule decreases, and \<open>FoldMain\<close> joins the two (\<open>fold_sound\<close>).
  \<^item> \<open>LjChar\<close>: character classes. \<open>Buf\<close>, \<open>BufLaws\<close>: string buffers, \<^verbatim>\<open>lj_buf.c\<close>; a buffer is a byte sink, the locale \<open>byte_sink\<close>
    (\<open>buf_run\<close>, \<open>buf_more_room\<close>, and beyond its limits \<open>buf_more_hangs\<close>, \<open>buf_put_overflows\<close>). \<open>Strfmt\<close>, \<open>StrfmtLaws\<close>, \<open>StrfmtInt\<close>, \<open>StrfmtOut\<close>: \<^verbatim>\<open>lj_strfmt.c\<close> (\<open>uleb128_roundtrip\<close>,
    \<open>wint_decimal\<close>, \<open>putfxint_printf\<close>, \<open>strfmt_parse_bounds\<close>, \<open>strfmt_outputs\<close>).
  \<^item> \<open>Prng\<close>, \<open>Str\<close>, \<open>StrLaws\<close>, \<open>StrFind\<close>: \<^verbatim>\<open>lj_prng.c\<close> and \<^verbatim>\<open>lj_str.c\<close>. The string table is an instance of the locale
    \<open>interner\<close> (\<open>strings_interned\<close>, \<open>str_cmp_lexicographic\<close>, \<open>str_find_first\<close>, \<open>prng_conditioned\<close>). On x64 \<^verbatim>\<open>hash_sparse\<close>
    is a pointer whose initial value is the function modelled; the code of \<^verbatim>\<open>lj_str_hash.c\<close> that would replace it is under \<^verbatim>\<open>if (0)\<close>.

  \<^item> \<open>Serialize\<close>, \<open>SerWire\<close>, \<open>SerHeap\<close>, \<open>SerSafe\<close>, \<open>SerTrip\<close>, \<open>SerCopy\<close>, \<open>SerRound\<close>: \<^verbatim>\<open>lj_serialize.c\<close>, which joins buffers, strings
    and tables: encoder and decoder of objects over a heap of strings, tables and C data. \<open>SerHeap\<close> has the invariant of the heap;
    its locale \<open>key_set\<close> says what insertion and resizing keep of the keys of a table. In the decoder a read beyond the end of the input and a store beyond the slots of a table are stuck; \<open>SerSafe\<close> proves that this
    does not happen for any input (\<open>decoder_safe\<close>) and that the type predicted for the compiler is the type it gives (\<open>peektype_sound\<close>). \<open>SerTrip\<close> specifies the wire format as a
    function from objects to bytes that is independent of the encoder, \<open>wire\<close>, and what it is to be a copy of an object, \<open>alike\<close>; \<open>SerCopy\<close> and \<open>SerRound\<close> prove that the encoder implements the
    format and that decoding gives a copy (\<open>u124_reads_back\<close>, \<open>encoder_writes_format\<close>, \<open>encode_decode\<close>).

  \<^bold>\<open>Bounds and fuel.\<close> A loop over a hash chain gets as many steps as there are nodes, which suffices because chains have no
  cycles; this is part of the invariant. A table store may rehash and try again, and never needs a second
  rehash. \<open>lj_opt_fold\<close> recurses for retries and nested folds, so it takes a fuel; \<open>fold_sound\<close> shows that for every instruction there is a fuel
  from which on the result is one and the same, so running out of fuel never stands for a run of the code. Searches for constants follow links to ever higher references, so the size of the constant part bounds them. Theorems about
  buffers assume sizes below two gigabytes; \<open>buf_more_hangs\<close> and \<open>buf_put_overflows\<close> show what happens beyond.

  \<^bold>\<open>Limits of the FOLD theorem.\<close> The operands of an arithmetic instruction have to come before it (\<open>ssa\<close>), as the recorder emits them. Two further
  assumptions of \<open>fold_sound\<close> describe flaws of the code or of its callers. \<open>sgn_ok\<close>: signed and unsigned
  divisions with the same operands must not meet in CSE, because \<^verbatim>\<open>lj_opt_cse\<close> ignores the type; and a signed 64 bit division must not be one of two negations, because
  \<^verbatim>\<open>simplify_nummuldiv_negneg\<close> is wrong for the least dividend. \<open>nomask\<close>:
  buffers with 64 bit masks are excluded where a 64 bit rule would create a 32 bit constant. The conclusion about the new buffer needs that the constants fit below
  \<^verbatim>\<open>REF_BIAS\<close>; termination does not.

  \<^bold>\<open>Not modelled.\<close> The interpreter is DynASM assembly. The assembler back ends, the parser, the recorder, snapshots and
  the passes other than FOLD and CSE are not modelled; nor are the collector (tables and strings carry its colours), the
  FFI (of a C type the serializer only sees its kind), stacks and unwinding, the formatting and scanning of doubles, and the fold rules for doubles,
  strings, loads and stores. Libraries and the C API only pass values from the Lua stack to the functions modelled
  here. \<^verbatim>\<open>lj_alloc.c\<close> is a parameter. Host programs run at build time.
\<close>

end
